(* ===== verification/NoellePrelude.thy ===== *)
theory NoellePrelude
  imports Main "HOL-Library.While_Combinator" "HOL-Library.Multiset"
begin

text \<open>
  Shared vocabulary of the development.

  \<^item> \<open>fault\<close> and \<open>('a) res\<close>: how C++ code fails (null or dangling dereference, failed assertion, a key that
    \<open>at()\<close> does not find, \<open>abort()\<close>, a loop that never ends) as values of a sum type, with the
    sequencing operators \<open>andThen\<close>, \<open>check\<close>, \<open>foldE\<close> (a \<open>for\<close> over a container) and \<open>whileE\<close>; a loop that
    does not end is the value \<open>Inl NoReturn\<close>, so a theorem that the result is \<open>Inr\<close> of something says
    that the code returns.
  \<^item> \<open>uset_insert\<close> and \<open>uset_erase\<close>: \<open>std::set\<close> and \<open>std::unordered_set\<close> as lists without
    repetitions. Iteration order of such a container is the order of the list; every theorem that
    takes a state takes it for all orders.
  \<^item> \<open>iterate_until\<close>: the \<open>iterateOver...\<close> methods with their callbacks.
  \<^item> \<open>explore\<close>: the worklist search \<^emph>\<open>pop, mark the new successors, push them\<close> that NOELLE repeats in
    many places, for a queue and for a stack, with its correctness proved once in the locale
    \<open>worklist_discipline\<close>.
\<close>

named_theorems uset_simps \<open>containers without repetitions\<close>
named_theorems res_simps \<open>sequencing of fallible code\<close>

section \<open>Faults\<close>

datatype fault = NullDeref | DanglingDeref | AssertFailed | KeyMissing | OutOfRange | Aborted | NoReturn

type_synonym 'a res = "fault + 'a"

definition andThen :: "'a res \<Rightarrow> ('a \<Rightarrow> 'b res) \<Rightarrow> 'b res" where
  "andThen r k = (case r of Inl e \<Rightarrow> Inl e | Inr x \<Rightarrow> k x)"

definition check :: "bool \<Rightarrow> fault \<Rightarrow> 'a res \<Rightarrow> 'a res" where
  "check b e r = (if b then r else Inl e)"

fun foldE :: "('a \<Rightarrow> 's \<Rightarrow> 's res) \<Rightarrow> 'a list \<Rightarrow> 's \<Rightarrow> 's res" where
  "foldE f [] s = Inr s"
| "foldE f (x # xs) s = andThen (f x s) (foldE f xs)"

lemma andThen_Inl [simp, res_simps]: "andThen (Inl e) k = Inl e"
  by (simp add: andThen_def)

lemma andThen_Inr [simp, res_simps]: "andThen (Inr x) k = k x"
  by (simp add: andThen_def)

lemma andThen_eq_Inr: "andThen r k = Inr y \<longleftrightarrow> (\<exists>x. r = Inr x \<and> k x = Inr y)"
  by (cases r) auto

lemma check_eq_Inr [res_simps]: "check b e r = Inr x \<longleftrightarrow> b \<and> r = Inr x"
  by (simp add: check_def)

lemma check_True [simp]: "check True e r = r"
  by (simp add: check_def)

lemma check_False [simp]: "check False e r = Inl e"
  by (simp add: check_def)

lemma foldE_append: "foldE f (xs @ ys) s = andThen (foldE f xs s) (foldE f ys)"
  by (induction xs arbitrary: s) (auto simp: andThen_def split: sum.splits)

lemma foldE_invariant:
  assumes "foldE f xs s = Inr t" "P s"
    and "\<And>x s s'. x \<in> set xs \<Longrightarrow> P s \<Longrightarrow> f x s = Inr s' \<Longrightarrow> P s'"
  shows "P t"
  using assms
proof (induction xs arbitrary: s)
  case Nil
  then show ?case by simp
next
  case (Cons x xs)
  then show ?case by (cases "f x s") auto
qed

lemma foldE_total:
  assumes "P s" and "\<And>x s. x \<in> set xs \<Longrightarrow> P s \<Longrightarrow> \<exists>s'. f x s = Inr s' \<and> P s'"
  shows "\<exists>t. foldE f xs s = Inr t \<and> P t"
  using assms
proof (induction xs arbitrary: s)
  case Nil
  then show ?case by simp
next
  case (Cons x xs)
  then obtain s' where "f x s = Inr s'" "P s'" by (metis list.set_intros(1))
  with Cons show ?case by auto
qed

lemma foldE_pure:
  assumes "\<And>x s. x \<in> set xs \<Longrightarrow> f x s = Inr (g x s)"
  shows "foldE f xs s = Inr (fold g xs s)"
  using assms by (induction xs arbitrary: s) auto

lemma fold_invariant_mem:
  assumes "P s" and "\<And>x s. x \<in> set xs \<Longrightarrow> P s \<Longrightarrow> P (f x s)"
  shows "P (fold f xs s)"
  using assms by (induction xs arbitrary: s) auto

subsection \<open>Loops that may fail or not end\<close>

definition whileE :: "('s \<Rightarrow> bool) \<Rightarrow> ('s \<Rightarrow> 's res) \<Rightarrow> 's \<Rightarrow> 's res" where
  "whileE b c s =
     (case while_option (\<lambda>r. case r of Inl e \<Rightarrow> False | Inr x \<Rightarrow> b x) (\<lambda>r. andThen r c) (Inr s) of
        None \<Rightarrow> Inl NoReturn | Some r \<Rightarrow> r)"

lemma whileE_unfold: "whileE b c s = (if b s then andThen (c s) (whileE b c) else Inr s)"
proof (cases "b s")
  case True
  have "while_option (\<lambda>r. case r of Inl e \<Rightarrow> False | Inr x \<Rightarrow> b x) (\<lambda>r. andThen r c) (Inr s) =
      while_option (\<lambda>r. case r of Inl e \<Rightarrow> False | Inr x \<Rightarrow> b x) (\<lambda>r. andThen r c) (c s)"
    by (subst while_option_unfold) (simp add: True)
  then show ?thesis
    by (cases "c s") (auto simp: True whileE_def while_option_unfold)
next
  case False
  then show ?thesis by (auto simp: whileE_def while_option_unfold)
qed

lemma whileE_done: "\<not> b s \<Longrightarrow> whileE b c s = Inr s"
  by (subst whileE_unfold) simp

lemma whileE_step: "b s \<Longrightarrow> c s = Inr s' \<Longrightarrow> whileE b c s = whileE b c s'"
  by (subst whileE_unfold) simp

text \<open>Total correctness: an invariant that every iteration keeps without a fault, and a
  well-founded relation that every iteration decreases.\<close>

lemma whileE_total:
  assumes wf: "wf R" and init: "P s"
    and step: "\<And>s. P s \<Longrightarrow> b s \<Longrightarrow> \<exists>s'. c s = Inr s' \<and> P s' \<and> (s', s) \<in> R"
  shows "\<exists>t. whileE b c s = Inr t \<and> P t \<and> \<not> b t"
  using wf init
proof (induction s rule: wf_induct_rule)
  case (less s)
  show ?case
  proof (cases "b s")
    case True
    from step [OF less.prems True] obtain s' where s': "c s = Inr s'" "P s'" "(s', s) \<in> R" by blast
    from less.IH [OF s'(3,2)] show ?thesis by (simp add: whileE_step [of b s c s'] True s'(1))
  next
    case False
    with less.prems show ?thesis by (auto simp: whileE_done)
  qed
qed

text \<open>Partial correctness: if the loop ends without a fault, the invariant holds at the end.\<close>

lemma whileE_invariant:
  assumes run: "whileE b c s = Inr t" and init: "P s"
    and step: "\<And>s s'. P s \<Longrightarrow> b s \<Longrightarrow> c s = Inr s' \<Longrightarrow> P s'"
  shows "P t \<and> \<not> b t"
proof -
  let ?b = "\<lambda>r. case r of Inl e \<Rightarrow> False | Inr x \<Rightarrow> b x"
  from run have w: "while_option ?b (\<lambda>r. andThen r c) (Inr s) = Some (Inr t)"
    by (auto simp: whileE_def split: option.splits)
  have "case (Inr t :: 'a res) of Inl e \<Rightarrow> True | Inr x \<Rightarrow> P x"
  proof (rule while_option_rule [OF _ w])
    show "case andThen r c of Inl e \<Rightarrow> True | Inr x \<Rightarrow> P x"
      if "case r of Inl e \<Rightarrow> True | Inr x \<Rightarrow> P x" "?b r" for r
      using that step by (auto split: sum.splits)
  qed (simp add: init)
  moreover have "\<not> b t" using while_option_stop [OF w] by simp
  ultimately show ?thesis by simp
qed

text \<open>A loop that an invariant keeps running never returns.\<close>

lemma whileE_diverges:
  assumes init: "I s" and step: "\<And>s. I s \<Longrightarrow> b s \<and> (\<exists>s'. c s = Inr s' \<and> I s')"
  shows "whileE b c s = Inl NoReturn"
proof -
  let ?b = "\<lambda>r. case r of Inl e \<Rightarrow> False | Inr x \<Rightarrow> b x"
  have "while_option ?b (\<lambda>r. andThen r c) (Inr s) \<noteq> Some r" for r
  proof
    assume w: "while_option ?b (\<lambda>r. andThen r c) (Inr s) = Some r"
    have "\<exists>x. r = Inr x \<and> I x"
    proof (rule while_option_rule [OF _ w])
      show "\<exists>x. andThen q c = Inr x \<and> I x" if "\<exists>x. q = Inr x \<and> I x" for q using that step by auto
    qed (simp add: init)
    then show False using while_option_stop [OF w] step by auto
  qed
  then show ?thesis by (simp add: whileE_def split: option.split)
qed

text \<open>If an invariant excludes every fault of the body, the loop returns or never ends.\<close>

lemma whileE_no_fault:
  assumes init: "P s" and step: "\<And>s. P s \<Longrightarrow> b s \<Longrightarrow> \<exists>s'. c s = Inr s' \<and> P s'"
  shows "whileE b c s = Inl NoReturn \<or> (\<exists>t. whileE b c s = Inr t \<and> P t \<and> \<not> b t)"
proof (cases "while_option (\<lambda>r. case r of Inl e \<Rightarrow> False | Inr x \<Rightarrow> b x) (\<lambda>r. andThen r c) (Inr s)")
  case None
  then show ?thesis by (simp add: whileE_def)
next
  case (Some r)
  have "\<exists>x. r = Inr x \<and> P x"
  proof (rule while_option_rule [OF _ Some])
    show "\<exists>x. andThen q c = Inr x \<and> P x"
      if "\<exists>x. q = Inr x \<and> P x" "case q of Inl e \<Rightarrow> False | Inr x \<Rightarrow> b x" for q
      using that step by auto
  qed (simp add: init)
  with while_option_stop [OF Some] show ?thesis by (auto simp: whileE_def Some)
qed

section \<open>Iterating with a callback\<close>

text \<open>The \<open>iterateOver...\<close> methods call a \<open>std::function<bool (...)>\<close> on one element after the other and stop at
  the first \<open>true\<close>. The callback may change the state of its closure, \<open>'s\<close>, and may fail.\<close>

fun iterate_until :: "('a \<Rightarrow> 's \<Rightarrow> (bool \<times> 's) res) \<Rightarrow> 'a list \<Rightarrow> 's \<Rightarrow> (bool \<times> 's) res" where
  "iterate_until f [] s = Inr (False, s)"
| "iterate_until f (x # xs) s =
     andThen (f x s) (\<lambda>(stop, s'). if stop then Inr (True, s') else iterate_until f xs s')"

lemma iterate_until_append:
  "iterate_until f (xs @ ys) s =
     andThen (iterate_until f xs s) (\<lambda>(stop, s'). if stop then Inr (True, s') else iterate_until f ys s')"
  by (induction xs arbitrary: s)
    (auto simp: andThen_def split: sum.splits prod.splits)

text \<open>A callback that never stops and only logs its argument visits every element once, in order.\<close>

definition logging :: "'a \<Rightarrow> 'a list \<Rightarrow> (bool \<times> 'a list) res" where
  "logging x log = Inr (False, log @ [x])"

lemma iterate_until_logging [simp]: "iterate_until logging xs log = Inr (False, log @ xs)"
  by (induction xs arbitrary: log) (auto simp: logging_def)

lemma iterate_until_skip:
  assumes "\<And>x s. x \<in> set xs \<Longrightarrow> f x s = (if P x then g x s else Inr (False, s))"
  shows "iterate_until f xs s = iterate_until g (filter P xs) s"
  using assms by (induction xs arbitrary: s) (auto simp: andThen_def split: sum.splits prod.splits)

section \<open>Sets as lists without repetitions\<close>

definition uset_insert :: "'a \<Rightarrow> 'a list \<Rightarrow> 'a list" where
  "uset_insert x xs = (if x \<in> set xs then xs else xs @ [x])"

definition uset_erase :: "'a \<Rightarrow> 'a list \<Rightarrow> 'a list" where
  "uset_erase x xs = removeAll x xs"

definition uset_insert_all :: "'a list \<Rightarrow> 'a list \<Rightarrow> 'a list" where
  "uset_insert_all ys xs = fold uset_insert ys xs"

lemma set_uset_insert [simp, uset_simps]: "set (uset_insert x xs) = insert x (set xs)"
  by (auto simp: uset_insert_def)

lemma distinct_uset_insert [simp, uset_simps]: "distinct (uset_insert x xs) = distinct xs"
  by (auto simp: uset_insert_def)

lemma set_uset_erase [simp, uset_simps]: "set (uset_erase x xs) = set xs - {x}"
  by (auto simp: uset_erase_def)

lemma distinct_uset_erase [simp, uset_simps]: "distinct xs \<Longrightarrow> distinct (uset_erase x xs)"
  by (simp add: uset_erase_def distinct_removeAll)

lemma set_uset_insert_all [simp, uset_simps]: "set (uset_insert_all ys xs) = set ys \<union> set xs"
  unfolding uset_insert_all_def by (induction ys arbitrary: xs) auto

lemma distinct_uset_insert_all [simp, uset_simps]: "distinct (uset_insert_all ys xs) = distinct xs"
  unfolding uset_insert_all_def by (induction ys arbitrary: xs) auto

lemma uset_insert_all_Nil [simp]: "uset_insert_all [] xs = xs"
  by (simp add: uset_insert_all_def)

lemma distinct_concat_map:
  assumes "distinct ns" and "\<And>n. n \<in> set ns \<Longrightarrow> distinct (L n)"
    and "\<And>n m e. n \<in> set ns \<Longrightarrow> m \<in> set ns \<Longrightarrow> e \<in> set (L n) \<Longrightarrow> e \<in> set (L m) \<Longrightarrow> n = m"
  shows "distinct (concat (map L ns))"
  using assms
proof (induction ns)
  case (Cons n ns)
  have "set (L n) \<inter> set (L m) = {}" if "m \<in> set ns" for m
    using Cons.prems(1) Cons.prems(3) [of n m] that by auto
  then have "set (L n) \<inter> set (concat (map L ns)) = {}" by auto
  moreover have "distinct (concat (map L ns))" using Cons by (metis distinct.simps(2) list.set_intros(2))
  ultimately show ?case using Cons.prems(2) by simp
qed simp

section \<open>Successor relations\<close>

definition succ_rel :: "('a \<Rightarrow> 'a list) \<Rightarrow> ('a \<times> 'a) set" where
  "succ_rel succ = {(x, y). y \<in> set (succ x)}"

lemma succ_rel_iff [simp]: "(x, y) \<in> succ_rel succ \<longleftrightarrow> y \<in> set (succ x)"
  by (simp add: succ_rel_def)

lemma trancl_subset_mono: "R \<subseteq> S \<Longrightarrow> R\<^sup>+ \<subseteq> S\<^sup>+"
  by (auto intro: trancl_mono)

lemma trancl_subset_trancl: "R \<subseteq> S\<^sup>+ \<Longrightarrow> R\<^sup>+ \<subseteq> S\<^sup>+"
  using trancl_subset_mono [of R "S\<^sup>+"] by (simp add: trancl_id)

lemma succ_rel_closed_trancl:
  assumes "(x, y) \<in> (succ_rel succ)\<^sup>+" "set (succ x) \<subseteq> A"
    and "\<And>z. z \<in> A \<Longrightarrow> set (succ z) \<subseteq> A"
  shows "y \<in> A"
  using assms(1) by induction (use assms(2,3) in auto)

section \<open>Worklist search that marks what it pushes\<close>

text \<open>
  The state of the loop: the marked elements, the worklist, and the elements popped so far.
  \<open>add\<close> is the discipline of the worklist: a new element goes to the end of a \<open>std::queue\<close> and to
  the front of a \<open>std::stack\<close>; both pop at the front.
\<close>

definition queue_add :: "'a \<Rightarrow> 'a list \<Rightarrow> 'a list" where
  "queue_add x todo = todo @ [x]"

definition stack_add :: "'a \<Rightarrow> 'a list \<Rightarrow> 'a list" where
  "stack_add x todo = x # todo"

definition mark_new ::
  "('a \<Rightarrow> 'a list \<Rightarrow> 'a list) \<Rightarrow> 'a \<Rightarrow> 'a list \<times> 'a list \<Rightarrow> 'a list \<times> 'a list" where
  "mark_new add y = (\<lambda>(marked, todo).
     if y \<in> set marked then (marked, todo) else (marked @ [y], add y todo))"

definition explore_step ::
  "('a \<Rightarrow> 'a list \<Rightarrow> 'a list) \<Rightarrow> ('a \<Rightarrow> 'a list)
   \<Rightarrow> 'a list \<times> 'a list \<times> 'a list \<Rightarrow> 'a list \<times> 'a list \<times> 'a list" where
  "explore_step add succ = (\<lambda>(marked, todo, popped).
     let x = hd todo;
         (marked', todo') = fold (mark_new add) (succ x) (marked, tl todo)
     in (marked', todo', uset_insert x popped))"

definition explore ::
  "('a \<Rightarrow> 'a list \<Rightarrow> 'a list) \<Rightarrow> ('a \<Rightarrow> 'a list)
   \<Rightarrow> 'a list \<times> 'a list \<times> 'a list \<Rightarrow> ('a list \<times> 'a list \<times> 'a list) option" where
  "explore add succ = while_option (\<lambda>(_, todo, _). todo \<noteq> []) (explore_step add succ)"

locale worklist_discipline =
  fixes add :: "'a \<Rightarrow> 'a list \<Rightarrow> 'a list"
  assumes set_add: "set (add x todo) = insert x (set todo)"
    and length_add: "length (add x todo) = Suc (length todo)"
begin

lemma mark_all_spec_all:
  "fold (mark_new add) ys (m, t) = (m', t') \<Longrightarrow>
     set m' = set m \<union> set ys \<and> set t' = set t \<union> (set ys - set m) \<and>
     (distinct m \<longrightarrow> distinct m') \<and> length t' + length m = length t + length m'"
proof (induction ys arbitrary: m t)
  case Nil
  then show ?case by auto
next
  case (Cons y ys)
  show ?case
  proof (cases "y \<in> set m")
    case True
    then have "mark_new add y (m, t) = (m, t)" by (simp add: mark_new_def)
    with Cons.prems have "fold (mark_new add) ys (m, t) = (m', t')" by simp
    from Cons.IH [OF this] True show ?thesis by auto
  next
    case False
    then have "mark_new add y (m, t) = (m @ [y], add y t)" by (simp add: mark_new_def)
    with Cons.prems have "fold (mark_new add) ys (m @ [y], add y t) = (m', t')" by simp
    from Cons.IH [OF this] False show ?thesis by (auto simp: set_add length_add)
  qed
qed

lemma mark_all_spec:
  assumes "fold (mark_new add) ys (m, t) = (m', t')"
  shows "set m' = set m \<union> set ys" "set t' = set t \<union> (set ys - set m)"
    and "distinct m \<Longrightarrow> distinct m'" "length t' + length m = length t + length m'"
  using mark_all_spec_all [OF assms] by blast+

text \<open>What the loop keeps: everything marked comes from the start, and every element that left the
  worklist has all its successors marked.\<close>

definition explore_inv :: "('a \<Rightarrow> 'a list) \<Rightarrow> 'a list \<Rightarrow> 'a list \<Rightarrow> 'a list
    \<Rightarrow> 'a list \<times> 'a list \<times> 'a list \<Rightarrow> bool" where
  "explore_inv succ m0 t0 p0 = (\<lambda>(m, t, p).
     set m0 \<subseteq> set m \<and> set m \<subseteq> set m0 \<union> (succ_rel succ)\<^sup>+ `` set t0 \<and>
     set t \<subseteq> set t0 \<union> (succ_rel succ)\<^sup>+ `` set t0 \<and>
     set t \<subseteq> set t0 \<union> set m \<and>
     set p0 \<subseteq> set p \<and> set p \<union> set t = set p0 \<union> set t0 \<union> (set m - set m0) \<and>
     (\<forall>x \<in> set m \<union> set t0. x \<notin> set t \<longrightarrow> set (succ x) \<subseteq> set m) \<and>
     (distinct m0 \<longrightarrow> distinct m) \<and> (distinct p0 \<longrightarrow> distinct p))"

lemma explore_inv_init:
  assumes "\<And>x. x \<in> set m0 \<Longrightarrow> x \<notin> set t0 \<Longrightarrow> set (succ x) \<subseteq> set m0"
  shows "explore_inv succ m0 t0 p0 (m0, t0, p0)"
  using assms by (auto simp: explore_inv_def)

lemma explore_inv_step:
  assumes inv: "explore_inv succ m0 t0 p0 (m, t, p)" and ne: "t \<noteq> []"
  shows "explore_inv succ m0 t0 p0 (explore_step add succ (m, t, p))"
proof -
  obtain x ts where t: "t = x # ts" using ne by (cases t) auto
  obtain m' t' where f: "fold (mark_new add) (succ x) (m, ts) = (m', t')" by fastforce
  note sp = mark_all_spec [OF f]
  let ?R = "(succ_rel succ)\<^sup>+ `` set t0"
  have xr: "x \<in> set t0 \<union> ?R" using inv by (auto simp: explore_inv_def t)
  have sx: "set (succ x) \<subseteq> ?R"
  proof
    fix y assume "y \<in> set (succ x)"
    then have e: "(x, y) \<in> succ_rel succ" by simp
    from xr consider "x \<in> set t0" | w where "w \<in> set t0" "(w, x) \<in> (succ_rel succ)\<^sup>+" by blast
    then show "y \<in> ?R"
    proof cases
      case 1
      with e show ?thesis by blast
    next
      case 2
      then have "(w, y) \<in> (succ_rel succ)\<^sup>+" using e by (metis trancl_into_trancl)
      with 2(1) show ?thesis by blast
    qed
  qed
  have "explore_inv succ m0 t0 p0 (m', t', uset_insert x p)"
    unfolding explore_inv_def prod.case
  proof (intro conjI)
    show "set m0 \<subseteq> set m'" using inv sp(1) by (auto simp: explore_inv_def)
    show "set m' \<subseteq> set m0 \<union> ?R" using inv sp(1) sx unfolding explore_inv_def by blast
    show "set t' \<subseteq> set t0 \<union> ?R" using inv sp(2) sx unfolding explore_inv_def t by auto
    show "set t' \<subseteq> set t0 \<union> set m'" using inv sp(1,2) unfolding explore_inv_def t by auto
    show "set p0 \<subseteq> set (uset_insert x p)" using inv by (auto simp: explore_inv_def)
    have "set (uset_insert x p) \<union> set t' = (set p \<union> set t) \<union> (set (succ x) - set m)"
      using sp(2) by (auto simp: t)
    also have "\<dots> = set p0 \<union> set t0 \<union> (set m - set m0) \<union> (set (succ x) - set m)"
      using inv by (auto simp: explore_inv_def)
    also have "\<dots> = set p0 \<union> set t0 \<union> (set m' - set m0)"
      using inv sp(1) by (auto simp: explore_inv_def)
    finally show "set (uset_insert x p) \<union> set t' = set p0 \<union> set t0 \<union> (set m' - set m0)" .
    show "\<forall>z \<in> set m' \<union> set t0. z \<notin> set t' \<longrightarrow> set (succ z) \<subseteq> set m'"
    proof (intro ballI impI)
      fix z assume z: "z \<in> set m' \<union> set t0" "z \<notin> set t'"
      show "set (succ z) \<subseteq> set m'"
      proof (cases "z = x")
        case True
        then show ?thesis using sp(1) by auto
      next
        case False
        with z sp(1,2) have "z \<in> set m \<union> set t0" "z \<notin> set t" by (auto simp: t)
        with inv have "set (succ z) \<subseteq> set m" by (simp add: explore_inv_def)
        with sp(1) show ?thesis by auto
      qed
    qed
    show "distinct m0 \<longrightarrow> distinct m'" using inv sp(3) by (auto simp: explore_inv_def)
    show "distinct p0 \<longrightarrow> distinct (uset_insert x p)" using inv by (auto simp: explore_inv_def)
  qed
  then show ?thesis by (simp add: explore_step_def t f)
qed

lemma explore_terminates:
  assumes fin: "finite C" and C: "set m0 \<union> set t0 \<subseteq> C" "distinct m0"
    and closed: "\<And>x. x \<in> C \<Longrightarrow> set (succ x) \<subseteq> C"
  shows "\<exists>r. explore add succ (m0, t0, p0) = Some r"
proof -
  let ?P = "\<lambda>(m, t, p :: 'a list). set m \<union> set t \<subseteq> C \<and> distinct m"
  let ?f = "\<lambda>(m, t, p :: 'a list). length t + (card C - length m)"
  have "?P (explore_step add succ s) \<and> ?f (explore_step add succ s) < ?f s"
    if P: "?P s" and ne: "case s of (_, t, _) \<Rightarrow> t \<noteq> []" for s
  proof -
    obtain m x ts p where s: "s = (m, x # ts, p)"
      using ne by (cases s; cases "fst (snd s)") auto
    obtain m' t' where f: "fold (mark_new add) (succ x) (m, ts) = (m', t')" by fastforce
    note sp = mark_all_spec [OF f]
    have "set (succ x) \<subseteq> C" using P closed by (auto simp: s)
    then have sub: "set m' \<union> set t' \<subseteq> C" and d: "distinct m'"
      using P sp(1,2,3) by (auto simp: s)
    have "length m' \<le> card C" using sub d fin by (metis Un_subset_iff card_mono distinct_card)
    with sub d sp(4) show ?thesis by (simp add: s explore_step_def f)
  qed
  with C show ?thesis unfolding explore_def
    by (intro measure_while_option_Some [where P = ?P and f = ?f]) auto
qed

theorem explore_correct:
  assumes run: "explore add succ (m0, t0, p0) = Some (m, t, p)"
    and start: "\<And>x. x \<in> set m0 \<Longrightarrow> x \<notin> set t0 \<Longrightarrow> set (succ x) \<subseteq> set m0"
  shows "set m = set m0 \<union> (succ_rel succ)\<^sup>+ `` set t0"
    and "set p = set p0 \<union> set t0 \<union> (set m - set m0)"
    and "t = []" "distinct m0 \<Longrightarrow> distinct m" "distinct p0 \<Longrightarrow> distinct p"
proof -
  from run have t: "t = []" unfolding explore_def by (auto dest: while_option_stop)
  have inv: "explore_inv succ m0 t0 p0 (m, t, p)"
  proof (rule while_option_rule [OF _ run [unfolded explore_def]])
    show "explore_inv succ m0 t0 p0 (m0, t0, p0)" by (rule explore_inv_init [OF start])
    show "explore_inv succ m0 t0 p0 (explore_step add succ s)"
      if "explore_inv succ m0 t0 p0 s" "case s of (_, todo, _) \<Rightarrow> todo \<noteq> []" for s
      using that explore_inv_step by (cases s) auto
  qed
  have "y \<in> set m" if "(x, y) \<in> (succ_rel succ)\<^sup>+" "x \<in> set t0" for x y
    by (rule succ_rel_closed_trancl [OF that(1)])
      (use inv that(2) t in \<open>auto simp: explore_inv_def\<close>)
  with inv show "set m = set m0 \<union> (succ_rel succ)\<^sup>+ `` set t0"
    by (auto simp: explore_inv_def)
  show "t = []" by (rule t)
  show "set p = set p0 \<union> set t0 \<union> (set m - set m0)"
    and "distinct m0 \<Longrightarrow> distinct m" "distinct p0 \<Longrightarrow> distinct p"
    using inv t by (auto simp: explore_inv_def)
qed

end

interpretation wq: worklist_discipline queue_add
  by unfold_locales (auto simp: queue_add_def)

interpretation ws: worklist_discipline stack_add
  by unfold_locales (auto simp: stack_add_def)

end
