(* ===== verification/DepGraph.thy ===== *)
theory DepGraph
  imports NoellePrelude "HOL-Library.AList"
begin

text \<open>
  \<open>src/src/core/pdg/include/DGBase.hpp\<close>: the template \<open>DG<T>\<close> with \<open>DGNode<T>\<close> and \<open>DGEdge<T>\<close>, from
  which the PDG, the SCCs, the SCCDAG and the partition graph are all derived.

  Nodes and edges are heap objects that C++ reaches through pointers. A pointer is a natural number, the
  memory of a graph is \<open>nodeMem\<close> and \<open>edgeMem\<close>, and \<open>nextPtr\<close> is the next address \<open>new\<close> returns. The
  pointer sets \<open>allNodes\<close>, \<open>allEdges\<close>, \<open>outgoingEdges\<close>, \<open>incomingEdges\<close> are lists without repetitions and
  the two node maps are association lists whose values may be null, since \<open>operator[]\<close> inserts null. The
  invariant \<open>dg_wf\<close> says that all of these agree; it is the reason why no operation reads freed memory.
  Sub-edges belong to another graph: the operations that read them take that graph's memory, \<open>sub\<close>.
\<close>

type_synonym ptr = nat

section \<open>Data\<close>

datatype DataDependenceType = DG_DATA_NONE | DG_DATA_RAW | DG_DATA_WAR | DG_DATA_WAW

record 'r edge_attrs =
  memory :: bool
  must :: bool
  dataDepType :: DataDependenceType
  isControl :: bool
  isLoopCarried :: bool
  isRemovable :: bool
  remeds :: "'r set option"

record 'r dg_edge = "'r edge_attrs" +
  efrom :: ptr
  eto :: ptr
  subEdges :: "ptr list"

record 'v dg_node =
  nodeID :: int
  theT :: 'v
  outgoingEdges :: "ptr list"
  incomingEdges :: "ptr list"

record ('v, 'r) dg =
  nodeIdCounter :: int
  allNodes :: "ptr list"
  allEdges :: "ptr list"
  entryNode :: "ptr option"
  internalNodeMap :: "('v \<times> ptr option) list"
  externalNodeMap :: "('v \<times> ptr option) list"
  nodeMem :: "ptr \<Rightarrow> 'v dg_node"
  edgeMem :: "ptr \<Rightarrow> 'r dg_edge"
  nextPtr :: ptr

abbreviation node_T :: "('v, 'r) dg \<Rightarrow> ptr \<Rightarrow> 'v" where
  "node_T g n \<equiv> theT (nodeMem g n)"

abbreviation out_edges :: "('v, 'r) dg \<Rightarrow> ptr \<Rightarrow> ptr list" where
  "out_edges g n \<equiv> outgoingEdges (nodeMem g n)"

abbreviation in_edges :: "('v, 'r) dg \<Rightarrow> ptr \<Rightarrow> ptr list" where
  "in_edges g n \<equiv> incomingEdges (nodeMem g n)"

abbreviation edge_from :: "('v, 'r) dg \<Rightarrow> ptr \<Rightarrow> ptr" where
  "edge_from g e \<equiv> efrom (edgeMem g e)"

abbreviation edge_to :: "('v, 'r) dg \<Rightarrow> ptr \<Rightarrow> ptr" where
  "edge_to g e \<equiv> eto (edgeMem g e)"

section \<open>Edges\<close>

definition new_edge :: "ptr \<Rightarrow> ptr \<Rightarrow> 'r dg_edge" where
  "new_edge src dst =
     \<lparr>memory = False, must = False, dataDepType = DG_DATA_NONE, isControl = False,
      isLoopCarried = False, isRemovable = False, remeds = None,
      efrom = src, eto = dst, subEdges = []\<rparr>"

definition isRAWDependence :: "('r, 'x) edge_attrs_scheme \<Rightarrow> bool" where
  "isRAWDependence e \<longleftrightarrow> dataDepType e = DG_DATA_RAW"

definition isWARDependence :: "('r, 'x) edge_attrs_scheme \<Rightarrow> bool" where
  "isWARDependence e \<longleftrightarrow> dataDepType e = DG_DATA_WAR"

definition isWAWDependence :: "('r, 'x) edge_attrs_scheme \<Rightarrow> bool" where
  "isWAWDependence e \<longleftrightarrow> dataDepType e = DG_DATA_WAW"

definition isDataDependence :: "('r, 'x) edge_attrs_scheme \<Rightarrow> bool" where
  "isDataDependence e \<longleftrightarrow> \<not> isControl e"

definition setMemMustType :: "bool \<Rightarrow> bool \<Rightarrow> DataDependenceType \<Rightarrow> 'r dg_edge \<Rightarrow> 'r dg_edge" where
  "setMemMustType mem mst t e = e\<lparr>memory := mem, must := mst, dataDepType := t\<rparr>"

definition setRemedies :: "'r set option \<Rightarrow> 'r dg_edge \<Rightarrow> 'r dg_edge" where
  "setRemedies R e = (case R of None \<Rightarrow> e | Some rs \<Rightarrow> e\<lparr>remeds := Some rs, isRemovable := True\<rparr>)"

definition addRemedies :: "'r set \<Rightarrow> 'r dg_edge \<Rightarrow> 'r dg_edge" where
  "addRemedies rs e =
     (case remeds e of
        None \<Rightarrow> if rs = {} then e else e\<lparr>remeds := Some rs, isRemovable := True\<rparr>
      | Some old \<Rightarrow> e\<lparr>remeds := Some (old \<union> rs)\<rparr>)"

definition stringToDataDep :: "string \<Rightarrow> DataDependenceType" where
  "stringToDataDep str =
     (if str = ''RAW'' then DG_DATA_RAW
      else if str = ''WAR'' then DG_DATA_WAR
      else if str = ''WAW'' then DG_DATA_WAW
      else DG_DATA_NONE)"

definition dataDepToString :: "('r, 'x) edge_attrs_scheme \<Rightarrow> string" where
  "dataDepToString e =
     (if isRAWDependence e then ''RAW''
      else if isWARDependence e then ''WAR''
      else if isWAWDependence e then ''WAW''
      else ''NONE'')"

definition setEdgeAttributes ::
  "bool \<Rightarrow> bool \<Rightarrow> string \<Rightarrow> bool \<Rightarrow> bool \<Rightarrow> bool \<Rightarrow> 'r dg_edge \<Rightarrow> 'r dg_edge" where
  "setEdgeAttributes mem mst str ctrl lc rm e =
     (setMemMustType mem mst (stringToDataDep str) e)
       \<lparr>isControl := ctrl, isLoopCarried := lc, isRemovable := rm\<rparr>"

definition addSubEdge :: "(ptr \<Rightarrow> 'r edge_attrs) \<Rightarrow> ptr \<Rightarrow> 'r dg_edge \<Rightarrow> 'r dg_edge" where
  "addSubEdge sub s e =
     (let e1 = e\<lparr>subEdges := uset_insert s (subEdges e),
                 isLoopCarried := (isLoopCarried e \<or> isLoopCarried (sub s))\<rparr>
      in if isRemovable (sub s) \<and> (length (subEdges e1) = 1 \<or> isRemovable e1)
         then (case remeds (sub s) of
                 None \<Rightarrow> e1\<lparr>isRemovable := True\<rparr>
               | Some rs \<Rightarrow> addRemedies rs (e1\<lparr>isRemovable := True\<rparr>))
         else e1\<lparr>remeds := None, isRemovable := False\<rparr>)"

definition removeSubEdge :: "ptr \<Rightarrow> 'r dg_edge \<Rightarrow> 'r dg_edge" where
  "removeSubEdge s e = e\<lparr>subEdges := uset_erase s (subEdges e)\<rparr>"

definition clearSubEdges :: "'r dg_edge \<Rightarrow> 'r dg_edge" where
  "clearSubEdges e = e\<lparr>subEdges := [], isLoopCarried := False, remeds := None, isRemovable := False\<rparr>"

definition copy_edge :: "(ptr \<Rightarrow> 'r edge_attrs) \<Rightarrow> 'r dg_edge \<Rightarrow> 'r dg_edge" where
  "copy_edge sub old =
     (let e0 = new_edge (efrom old) (eto old);
          e1 = setMemMustType (memory old) (must old) (dataDepType old) e0;
          e2 = e1\<lparr>isControl := isControl old, isLoopCarried := isLoopCarried old,
                  isRemovable := isRemovable old\<rparr>;
          e3 = setRemedies (remeds old) e2
      in fold (addSubEdge sub) (subEdges old) e3)"

text \<open>Printing of an edge: sub-edges are printed in turn, an edge without them by its attributes.\<close>

definition edge_toString :: "(ptr \<Rightarrow> 'r edge_attrs) \<Rightarrow> 'r dg_edge \<Rightarrow> string" where
  "edge_toString sub e =
     (let leaf = (\<lambda>c d m mem. if c then ''CTRL''
                    else d @ (if m then '' (must)'' else '' (may)'') @ (if mem then '' from memory '' else ''''))
      in if 0 < length (subEdges e)
         then concat (map (\<lambda>s. leaf (isControl (sub s)) (dataDepToString (sub s)) (must (sub s))
                                  (memory (sub s))) (subEdges e))
         else leaf (isControl e) (dataDepToString e) (must e) (memory e))"

section \<open>Nodes and their edge sets\<close>

definition new_node :: "int \<Rightarrow> 'v \<Rightarrow> 'v dg_node" where
  "new_node i t = \<lparr>nodeID = i, theT = t, outgoingEdges = [], incomingEdges = []\<rparr>"

definition addIncomingEdge :: "ptr \<Rightarrow> ptr \<Rightarrow> ('v, 'r) dg \<Rightarrow> ('v, 'r) dg" where
  "addIncomingEdge n e g =
     g\<lparr>nodeMem := (nodeMem g)(n := (nodeMem g n)\<lparr>incomingEdges := uset_insert e (in_edges g n)\<rparr>)\<rparr>"

definition addOutgoingEdge :: "ptr \<Rightarrow> ptr \<Rightarrow> ('v, 'r) dg \<Rightarrow> ('v, 'r) dg" where
  "addOutgoingEdge n e g =
     g\<lparr>nodeMem := (nodeMem g)(n := (nodeMem g n)\<lparr>outgoingEdges := uset_insert e (out_edges g n)\<rparr>)\<rparr>"

definition removeConnectedEdge :: "ptr \<Rightarrow> ptr \<Rightarrow> ('v, 'r) dg \<Rightarrow> ('v, 'r) dg" where
  "removeConnectedEdge n e g =
     (if e \<in> set (out_edges g n)
      then g\<lparr>nodeMem := (nodeMem g)(n := (nodeMem g n)\<lparr>outgoingEdges := uset_erase e (out_edges g n)\<rparr>)\<rparr>
      else g\<lparr>nodeMem := (nodeMem g)(n := (nodeMem g n)\<lparr>incomingEdges := uset_erase e (in_edges g n)\<rparr>)\<rparr>)"

definition removeConnectedNode :: "ptr \<Rightarrow> ptr \<Rightarrow> ('v, 'r) dg \<Rightarrow> ('v, 'r) dg" where
  "removeConnectedNode n x g =
     g\<lparr>nodeMem := (nodeMem g)(n := (nodeMem g n)
        \<lparr>outgoingEdges := filter (\<lambda>e. edge_to g e \<noteq> x) (out_edges g n),
         incomingEdges := filter (\<lambda>e. edge_from g e \<noteq> x) (in_edges g n)\<rparr>)\<rparr>"

definition getAllConnectedEdges :: "('v, 'r) dg \<Rightarrow> ptr \<Rightarrow> ptr list" where
  "getAllConnectedEdges g n = uset_insert_all (in_edges g n) (out_edges g n)"

section \<open>The graph\<close>

definition empty_dg :: "('v, 'r) dg" where
  "empty_dg = \<lparr>nodeIdCounter = 0, allNodes = [], allEdges = [], entryNode = None,
     internalNodeMap = [], externalNodeMap = [],
     nodeMem = (\<lambda>_. new_node 0 undefined), edgeMem = (\<lambda>_. new_edge 0 0), nextPtr = 0\<rparr>"

definition isInternal :: "('v, 'r) dg \<Rightarrow> 'v \<Rightarrow> bool" where
  "isInternal g t \<longleftrightarrow> map_of (internalNodeMap g) t \<noteq> None"

definition isExternal :: "('v, 'r) dg \<Rightarrow> 'v \<Rightarrow> bool" where
  "isExternal g t \<longleftrightarrow> map_of (externalNodeMap g) t \<noteq> None"

definition isInGraph :: "('v, 'r) dg \<Rightarrow> 'v \<Rightarrow> bool" where
  "isInGraph g t \<longleftrightarrow> isInternal g t \<or> isExternal g t"

definition numNodes :: "('v, 'r) dg \<Rightarrow> nat" where
  "numNodes g = length (allNodes g)"

definition numInternalNodes :: "('v, 'r) dg \<Rightarrow> nat" where
  "numInternalNodes g = length (internalNodeMap g)"

definition numExternalNodes :: "('v, 'r) dg \<Rightarrow> nat" where
  "numExternalNodes g = length (externalNodeMap g)"

definition numEdges :: "('v, 'r) dg \<Rightarrow> nat" where
  "numEdges g = length (allEdges g)"

definition addNode :: "('v, 'r) dg \<Rightarrow> 'v \<Rightarrow> bool \<Rightarrow> ('v, 'r) dg \<times> ptr" where
  "addNode g t inclusion =
     (let n = nextPtr g;
          g1 = g\<lparr>nextPtr := Suc n, nodeIdCounter := nodeIdCounter g + 1,
                 nodeMem := (nodeMem g)(n := new_node (nodeIdCounter g) t),
                 allNodes := uset_insert n (allNodes g)\<rparr>;
          g2 = (if inclusion
                then g1\<lparr>internalNodeMap := AList.update t (Some n) (internalNodeMap g1)\<rparr>
                else g1\<lparr>externalNodeMap := AList.update t (Some n) (externalNodeMap g1)\<rparr>)
      in (g2, n))"

text \<open>\<open>fetchNode\<close> reads the external map with \<open>operator[]\<close>, which inserts a null entry for an absent key.\<close>

definition fetchNode :: "('v, 'r) dg \<Rightarrow> 'v \<Rightarrow> ('v, 'r) dg \<times> ptr option" where
  "fetchNode g t =
     (case map_of (internalNodeMap g) t of
        Some p \<Rightarrow> (g, p)
      | None \<Rightarrow> (case map_of (externalNodeMap g) t of
           Some p \<Rightarrow> (g, p)
         | None \<Rightarrow> (g\<lparr>externalNodeMap := AList.update t None (externalNodeMap g)\<rparr>, None)))"

definition fetchConstNode :: "('v, 'r) dg \<Rightarrow> 'v \<Rightarrow> ptr option res" where
  "fetchConstNode g t =
     (case map_of (internalNodeMap g) t of
        Some p \<Rightarrow> Inr p
      | None \<Rightarrow> (case map_of (externalNodeMap g) t of Some p \<Rightarrow> Inr p | None \<Rightarrow> Inl NullDeref))"

definition fetchOrAddNode :: "('v, 'r) dg \<Rightarrow> 'v \<Rightarrow> bool \<Rightarrow> ('v, 'r) dg \<times> ptr option" where
  "fetchOrAddNode g t inclusion =
     (if isInGraph g t then fetchNode g t
      else (let (g1, n) = addNode g t inclusion in (g1, Some n)))"

text \<open>Registering a new edge object \<open>e\<close> between the nodes of \<open>f\<close> and \<open>t\<close>: the common tail of \<open>addEdge\<close>
  and \<open>copyAddEdge\<close>. A null node pointer is dereferenced by \<open>addOutgoingEdge\<close>/\<open>addIncomingEdge\<close>.\<close>

definition linkEdge :: "('v, 'r) dg \<Rightarrow> 'v \<Rightarrow> 'v \<Rightarrow> 'r dg_edge \<Rightarrow> (('v, 'r) dg \<times> ptr) res" where
  "linkEdge g f t obj =
     (let (g1, fn) = fetchNode g f;
          (g2, tn) = fetchNode g1 t;
          e = nextPtr g2
      in case (fn, tn) of
           (Some a, Some b) \<Rightarrow>
             (let g3 = g2\<lparr>nextPtr := Suc e, edgeMem := (edgeMem g2)(e := obj\<lparr>efrom := a, eto := b\<rparr>),
                          allEdges := uset_insert e (allEdges g2)\<rparr>
              in Inr (addIncomingEdge b e (addOutgoingEdge a e g3), e))
         | _ \<Rightarrow> Inl NullDeref)"

definition addEdge :: "('v, 'r) dg \<Rightarrow> 'v \<Rightarrow> 'v \<Rightarrow> (('v, 'r) dg \<times> ptr) res" where
  "addEdge g f t = linkEdge g f t (new_edge 0 0)"

definition copyAddEdge ::
  "(ptr \<Rightarrow> 'r edge_attrs) \<Rightarrow> ('v, 'r) dg \<Rightarrow> ('v, 'r) dg \<Rightarrow> ptr \<Rightarrow> (('v, 'r) dg \<times> ptr) res" where
  "copyAddEdge sub src g e =
     linkEdge g (node_T src (edge_from src e)) (node_T src (edge_to src e))
       (copy_edge sub (edgeMem src e))"

definition fetchEdges :: "('v, 'r) dg \<Rightarrow> ptr \<Rightarrow> ptr \<Rightarrow> ptr list" where
  "fetchEdges g From To = filter (\<lambda>e. edge_to g e = To) (out_edges g From)"

definition removeNode :: "ptr \<Rightarrow> ('v, 'r) dg \<Rightarrow> ('v, 'r) dg" where
  "removeNode n g =
     (let t = node_T g n;
          g1 = (if isInternal g t
                then g\<lparr>internalNodeMap := AList.delete t (internalNodeMap g)\<rparr>
                else g\<lparr>externalNodeMap := AList.delete t (externalNodeMap g)\<rparr>);
          g2 = g1\<lparr>allNodes := uset_erase n (allNodes g1)\<rparr>;
          incomingToNode = in_edges g2 n;
          outgoingFromNode = out_edges g2 n;
          allToAndFromNode = getAllConnectedEdges g2 n;
          g3 = fold (\<lambda>e h. removeConnectedNode (edge_from h e) n h) incomingToNode g2;
          g4 = fold (\<lambda>e h. removeConnectedNode (edge_to h e) n h) outgoingFromNode g3
      in g4\<lparr>allEdges := filter (\<lambda>e. e \<notin> set allToAndFromNode) (allEdges g4)\<rparr>)"

definition removeEdge :: "ptr \<Rightarrow> ('v, 'r) dg \<Rightarrow> ('v, 'r) dg" where
  "removeEdge e g =
     (let g1 = removeConnectedEdge (edge_from g e) e g;
          g2 = removeConnectedEdge (edge_to g1 e) e g1
      in g2\<lparr>allEdges := uset_erase e (allEdges g2)\<rparr>)"

definition clear_dg :: "('v, 'r) dg \<Rightarrow> ('v, 'r) dg" where
  "clear_dg g = g\<lparr>allNodes := [], allEdges := [], entryNode := None,
     internalNodeMap := [], externalNodeMap := []\<rparr>"

definition copyNodesIntoNewGraph ::
  "(ptr \<Rightarrow> 'r edge_attrs) \<Rightarrow> ('v, 'r) dg \<Rightarrow> ('v, 'r) dg \<Rightarrow> ptr list \<Rightarrow> ptr \<Rightarrow> ('v, 'r) dg res" where
  "copyNodesIntoNewGraph sub g new nodesToPartition entry =
     (let new1 = fold (\<lambda>n h. let t = node_T g n; (h1, m) = addNode h t (isInternal g t)
                             in if t = node_T g entry then h1\<lparr>entryNode := Some m\<rparr> else h1)
                   nodesToPartition new
      in foldE (\<lambda>n. foldE (\<lambda>e h.
              if \<not> isInGraph h (node_T g (edge_to g e)) then Inr h
              else andThen (copyAddEdge sub g h e) (\<lambda>(h1, _). Inr h1))
            (out_edges g n)) nodesToPartition new1)"

end
