(* ===== verification/DepGraphWf.thy ===== *)
theory DepGraphWf
  imports DepGraph
begin

text \<open>
  The invariant of \<open>DG<T>\<close> and the effect of every operation that changes a graph. \<open>edges_wf\<close>: the edge
  sets of the nodes are exactly the incident edges, and every pointer stored in a live object is live.
  \<open>maps_wf\<close>: the two node maps are disjoint and together a bijection between values and live nodes; an
  external entry may be null, the trace that \<open>fetchNode\<close> leaves for an absent value.
\<close>

definition edges_wf :: "('v, 'r) dg \<Rightarrow> bool" where
  "edges_wf g \<longleftrightarrow> distinct (allNodes g) \<and> distinct (allEdges g) \<and>
     (\<forall>n \<in> set (allNodes g). n < nextPtr g) \<and> (\<forall>e \<in> set (allEdges g). e < nextPtr g) \<and>
     (\<forall>e \<in> set (allEdges g). edge_from g e \<in> set (allNodes g) \<and> edge_to g e \<in> set (allNodes g)) \<and>
     (\<forall>n \<in> set (allNodes g). distinct (out_edges g n) \<and> distinct (in_edges g n) \<and>
        set (out_edges g n) = {e \<in> set (allEdges g). edge_from g e = n} \<and>
        set (in_edges g n) = {e \<in> set (allEdges g). edge_to g e = n})"

definition lookup_node :: "('v, 'r) dg \<Rightarrow> 'v \<Rightarrow> ptr option option" where
  "lookup_node g t = (case map_of (internalNodeMap g) t of Some p \<Rightarrow> Some p
     | None \<Rightarrow> map_of (externalNodeMap g) t)"

definition maps_wf :: "('v, 'r) dg \<Rightarrow> bool" where
  "maps_wf g \<longleftrightarrow> distinct (map fst (internalNodeMap g)) \<and> distinct (map fst (externalNodeMap g)) \<and>
     (\<forall>t. isInternal g t \<longrightarrow> \<not> isExternal g t) \<and>
     (\<forall>t. map_of (internalNodeMap g) t \<noteq> Some None) \<and>
     (\<forall>t n. lookup_node g t = Some (Some n) \<longleftrightarrow> n \<in> set (allNodes g) \<and> node_T g n = t)"

definition dg_wf :: "('v, 'r) dg \<Rightarrow> bool" where
  "dg_wf g \<longleftrightarrow> edges_wf g \<and> maps_wf g"

text \<open>The abstract graph: live edges as pairs of node values, and the values of the live nodes.\<close>

definition dg_values :: "('v, 'r) dg \<Rightarrow> 'v set" where
  "dg_values g = node_T g ` set (allNodes g)"

definition edge_pair :: "('v, 'r) dg \<Rightarrow> ptr \<Rightarrow> 'v \<times> 'v" where
  "edge_pair g e = (node_T g (edge_from g e), node_T g (edge_to g e))"

named_theorems dg_defs \<open>definitions of the graph operations\<close>

lemmas dg_map_defs [dg_defs] = isInternal_def isExternal_def isInGraph_def lookup_node_def

lemma edges_wfD:
  assumes "edges_wf g"
  shows "distinct (allNodes g)" "distinct (allEdges g)"
    "n \<in> set (allNodes g) \<Longrightarrow> n < nextPtr g" "e \<in> set (allEdges g) \<Longrightarrow> e < nextPtr g"
    "e \<in> set (allEdges g) \<Longrightarrow> edge_from g e \<in> set (allNodes g)"
    "e \<in> set (allEdges g) \<Longrightarrow> edge_to g e \<in> set (allNodes g)"
    "n \<in> set (allNodes g) \<Longrightarrow> set (out_edges g n) = {e \<in> set (allEdges g). edge_from g e = n}"
    "n \<in> set (allNodes g) \<Longrightarrow> set (in_edges g n) = {e \<in> set (allEdges g). edge_to g e = n}"
    "n \<in> set (allNodes g) \<Longrightarrow> distinct (out_edges g n)"
    "n \<in> set (allNodes g) \<Longrightarrow> distinct (in_edges g n)"
  using assms by (simp_all add: edges_wf_def)

lemma dg_wf_empty [simp]: "dg_wf empty_dg"
  by (simp add: dg_wf_def edges_wf_def maps_wf_def empty_dg_def dg_defs)

lemma lookup_isInGraph: "isInGraph g t \<longleftrightarrow> lookup_node g t \<noteq> None"
  by (auto simp: dg_defs split: option.splits)

lemma wf_lookup: "dg_wf g \<Longrightarrow> lookup_node g t = Some (Some n) \<longleftrightarrow> n \<in> set (allNodes g) \<and> node_T g n = t"
  by (simp add: dg_wf_def maps_wf_def)

lemma wf_node_inj:
  "dg_wf g \<Longrightarrow> n \<in> set (allNodes g) \<Longrightarrow> m \<in> set (allNodes g) \<Longrightarrow> node_T g n = node_T g m \<Longrightarrow> n = m"
  using wf_lookup by (metis option.inject)

lemma wf_value_in_graph: "dg_wf g \<Longrightarrow> n \<in> set (allNodes g) \<Longrightarrow> isInGraph g (node_T g n)"
  using wf_lookup [of g "node_T g n" n] by (simp add: lookup_isInGraph)

section \<open>Adding and fetching nodes\<close>

lemma addNode_wf:
  assumes wf: "dg_wf g" and new: "\<not> isInGraph g t" and add: "addNode g t inclusion = (g', n)"
  shows "dg_wf g'" "allNodes g' = allNodes g @ [n]" "allEdges g' = allEdges g" "node_T g' n = t"
    "\<And>m. m \<in> set (allNodes g) \<Longrightarrow> nodeMem g' m = nodeMem g m" "edgeMem g' = edgeMem g"
    "n \<notin> set (allNodes g)" "nextPtr g' = Suc (nextPtr g)"
    "isInternal g' u = (isInternal g u \<or> u = t \<and> inclusion)"
    "isExternal g' u = (isExternal g u \<or> u = t \<and> \<not> inclusion)"
    "lookup_node g' u = (if u = t then Some (Some n) else lookup_node g u)"
proof -
  have n: "n = nextPtr g" and fresh: "n \<notin> set (allNodes g)"
    using add wf by (auto simp: addNode_def Let_def dg_wf_def edges_wf_def)
  show look: "lookup_node g' u = (if u = t then Some (Some n) else lookup_node g u)" for u
    using add new by (auto simp: addNode_def Let_def lookup_node_def update_conv' isInGraph_def
        isInternal_def isExternal_def split: if_splits option.splits)
  show intl: "isInternal g' u = (isInternal g u \<or> u = t \<and> inclusion)"
    and extl: "isExternal g' u = (isExternal g u \<or> u = t \<and> \<not> inclusion)" for u
    using add by (auto simp: addNode_def Let_def update_conv' isInternal_def isExternal_def
        split: if_splits)
  show nodes: "allNodes g' = allNodes g @ [n]" and "allEdges g' = allEdges g" "node_T g' n = t"
    and mem: "\<And>m. m \<in> set (allNodes g) \<Longrightarrow> nodeMem g' m = nodeMem g m"
    and "edgeMem g' = edgeMem g" "nextPtr g' = Suc (nextPtr g)" "n \<notin> set (allNodes g)"
    using add fresh by (auto simp: addNode_def Let_def uset_insert_def new_node_def n)
  have maps: "internalNodeMap g' = (if inclusion then AList.update t (Some n) (internalNodeMap g)
       else internalNodeMap g)" "externalNodeMap g' = (if inclusion then externalNodeMap g
       else AList.update t (Some n) (externalNodeMap g))"
    using add by (auto simp: addNode_def Let_def n)
  have nn: "out_edges g' n = []" "in_edges g' n = []"
    using add by (auto simp: addNode_def Let_def new_node_def n)
  have ew: "edges_wf g" using wf by (simp add: dg_wf_def)
  have "\<forall>e \<in> set (allEdges g). edge_from g e \<noteq> n \<and> edge_to g e \<noteq> n"
    using fresh ew by (metis edges_wfD(5,6))
  then have "edges_wf g'"
    using ew nn fresh n unfolding edges_wf_def nodes \<open>allEdges g' = _\<close> \<open>edgeMem g' = _\<close> \<open>nextPtr g' = _\<close>
    by (auto simp: mem less_Suc_eq)
  moreover have "maps_wf g'"
    unfolding maps_wf_def
  proof (intro conjI allI impI)
    show "distinct (map fst (internalNodeMap g'))" "distinct (map fst (externalNodeMap g'))"
      using wf by (auto simp: dg_wf_def maps_wf_def maps distinct_update)
    show "\<not> isExternal g' u" if "isInternal g' u" for u
      using that intl extl new wf by (auto simp: dg_wf_def maps_wf_def isInGraph_def)
    show "map_of (internalNodeMap g') u \<noteq> Some None" for u
      using wf unfolding dg_wf_def maps_wf_def maps by (auto simp del: map_of_eq_Some_iff simp: update_conv')
    show "lookup_node g' u = Some (Some m) \<longleftrightarrow> m \<in> set (allNodes g') \<and> node_T g' m = u" for u m
    proof (cases "m = n")
      case True
      then show ?thesis
        using look [of u] \<open>node_T g' n = t\<close> nodes wf_lookup [OF wf, of u n] fresh by auto
    next
      case False
      then have "lookup_node g' u = Some (Some m) \<longleftrightarrow> u \<noteq> t \<and> lookup_node g u = Some (Some m)"
        using look by auto
      moreover have "u \<noteq> t" if "m \<in> set (allNodes g)" "node_T g m = u"
        using new wf_value_in_graph [OF wf that(1)] that(2) by auto
      ultimately show ?thesis using wf_lookup [OF wf] False mem nodes by auto
    qed
  qed
  ultimately show "dg_wf g'" by (simp add: dg_wf_def)
qed

lemma fetchNode_found: "isInGraph g t \<Longrightarrow> fetchNode g t = (g, the (lookup_node g t))"
  by (auto simp: fetchNode_def lookup_node_def isInGraph_def isInternal_def isExternal_def
      split: option.splits)

lemma fetchNode_absent:
  "\<not> isInGraph g t \<Longrightarrow> fetchNode g t = (g\<lparr>externalNodeMap := externalNodeMap g @ [(t, None)]\<rparr>, None)"
proof -
  assume "\<not> isInGraph g t"
  then have i: "map_of (internalNodeMap g) t = None" "map_of (externalNodeMap g) t = None"
    by (auto simp: isInGraph_def isInternal_def isExternal_def)
  have "AList.update t v xs = xs @ [(t, v)]" if "map_of xs t = None" for v and xs :: "('a \<times> ptr option) list"
    using that by (induction xs) (auto split: if_splits)
  with i show ?thesis by (simp add: fetchNode_def)
qed

lemma fetchNode_wf:
  assumes wf: "dg_wf g" and f: "fetchNode g t = (g', p)"
  shows "dg_wf g'" "allNodes g' = allNodes g" "allEdges g' = allEdges g" "nodeMem g' = nodeMem g"
    "edgeMem g' = edgeMem g" "nextPtr g' = nextPtr g"
    "internalNodeMap g' = internalNodeMap g" "entryNode g' = entryNode g"
    "p = Some n \<longleftrightarrow> n \<in> set (allNodes g) \<and> node_T g n = t"
    "lookup_node g' u = (if u = t \<and> lookup_node g t = None then Some None else lookup_node g u)"
proof -
  have all: "dg_wf g' \<and> allNodes g' = allNodes g \<and> allEdges g' = allEdges g \<and> nodeMem g' = nodeMem g \<and>
    edgeMem g' = edgeMem g \<and> nextPtr g' = nextPtr g \<and> internalNodeMap g' = internalNodeMap g \<and>
    entryNode g' = entryNode g \<and> (p = Some n \<longleftrightarrow> n \<in> set (allNodes g) \<and> node_T g n = t) \<and>
    lookup_node g' u = (if u = t \<and> lookup_node g t = None then Some None else lookup_node g u)"
  proof (cases "isInGraph g t")
    case True
    with f have "g' = g" "p = the (lookup_node g t)" by (auto simp: fetchNode_found)
    with True wf show ?thesis
      using wf_lookup [OF wf, of t n] by (auto simp: lookup_isInGraph)
  next
    case False
    let ?h = "g\<lparr>externalNodeMap := externalNodeMap g @ [(t, None)]\<rparr>"
    have g': "g' = ?h" and p: "p = None" using f fetchNode_absent [OF False] by auto
    have none: "map_of (internalNodeMap g) t = None" "map_of (externalNodeMap g) t = None"
      using False by (auto simp: isInGraph_def isInternal_def isExternal_def)
    have ext: "map_of (externalNodeMap g @ [(t, None)]) v =
        (if v = t then Some None else map_of (externalNodeMap g) v)" for v
      using none by (cases "map_of (externalNodeMap g) v") (auto simp: map_add_def)
    have look: "lookup_node ?h v = (if v = t then Some None else lookup_node g v)" for v
      using none ext by (auto simp: lookup_node_def simp del: map_of_append split: option.splits)
    have no: "\<not> (m \<in> set (allNodes g) \<and> node_T g m = t)" for m
      using False wf_value_in_graph [OF wf, of m] by auto
    have "maps_wf ?h"
      unfolding maps_wf_def
    proof (intro conjI allI impI)
      show "distinct (map fst (externalNodeMap ?h))"
        using wf none(2) by (simp add: dg_wf_def maps_wf_def map_of_eq_None_iff)
      show "lookup_node ?h v = Some (Some m) \<longleftrightarrow> m \<in> set (allNodes ?h) \<and> node_T ?h m = v" for v m
        using wf_lookup [OF wf, of v m] no [of m] by (auto simp: look)
      show "\<not> isExternal ?h v" if "isInternal ?h v" for v
        using that wf none by (auto simp: dg_wf_def maps_wf_def isInternal_def isExternal_def ext
            simp del: map_of_append)
    qed (use wf in \<open>simp_all add: dg_wf_def maps_wf_def\<close>)
    moreover have "edges_wf ?h" using wf by (simp add: dg_wf_def edges_wf_def)
    ultimately show ?thesis using none no [of n] look [of u] look [of t] False
      by (auto simp: g' p dg_wf_def lookup_isInGraph)
  qed
  show "dg_wf g'" "allNodes g' = allNodes g" "allEdges g' = allEdges g" "nodeMem g' = nodeMem g"
    "edgeMem g' = edgeMem g" "nextPtr g' = nextPtr g"
    "internalNodeMap g' = internalNodeMap g" "entryNode g' = entryNode g"
    "p = Some n \<longleftrightarrow> n \<in> set (allNodes g) \<and> node_T g n = t"
    "lookup_node g' u = (if u = t \<and> lookup_node g t = None then Some None else lookup_node g u)"
    using all by blast+
qed

lemma fetchOrAddNode_wf:
  assumes wf: "dg_wf g" and f: "fetchOrAddNode g t inclusion = (g', p)"
  shows "dg_wf g'" "isInGraph g' t"
    "\<not> isInGraph g t \<Longrightarrow> p \<noteq> None"
    "p = Some n \<Longrightarrow> n \<in> set (allNodes g') \<and> node_T g' n = t"
proof -
  have all: "dg_wf g' \<and> isInGraph g' t \<and> (\<not> isInGraph g t \<longrightarrow> p \<noteq> None) \<and>
    (p = Some n \<longrightarrow> n \<in> set (allNodes g') \<and> node_T g' n = t)"
  proof (cases "isInGraph g t")
    case True
    with f have "fetchNode g t = (g', p)" by (simp add: fetchOrAddNode_def)
    note fw = fetchNode_wf [OF wf this]
    have "g' = g" using f True by (auto simp: fetchOrAddNode_def fetchNode_found)
    with fw True show ?thesis by auto
  next
    case False
    then obtain m where a: "addNode g t inclusion = (g', m)" "p = Some m"
      using f by (auto simp: fetchOrAddNode_def split: prod.splits)
    note aw = addNode_wf [OF wf False a(1)]
    show ?thesis using aw(1,2,4) aw(9,10) [of t] a(2) by (auto simp: isInGraph_def)
  qed
  show "dg_wf g'" "isInGraph g' t" "\<not> isInGraph g t \<Longrightarrow> p \<noteq> None"
    "p = Some n \<Longrightarrow> n \<in> set (allNodes g') \<and> node_T g' n = t"
    using all by blast+
qed

section \<open>Adding edges\<close>

lemma maps_wf_cong:
  assumes "internalNodeMap h = internalNodeMap g" "externalNodeMap h = externalNodeMap g"
    "set (allNodes h) = set (allNodes g)" "\<And>n. n \<in> set (allNodes g) \<Longrightarrow> node_T h n = node_T g n"
  shows "maps_wf h = maps_wf g"
proof -
  have l: "lookup_node h t = lookup_node g t" "isInternal h t = isInternal g t"
    "isExternal h t = isExternal g t" for t
    using assms(1,2) by (simp_all split: option.splits add: lookup_node_def isInternal_def isExternal_def)
  have "(n \<in> set (allNodes h) \<and> node_T h n = t) = (n \<in> set (allNodes g) \<and> node_T g n = t)" for n t
    using assms(3,4) by auto
  then show ?thesis unfolding maps_wf_def l assms(1,2) by simp
qed

text \<open>The effect of registering an edge between two live nodes.\<close>

definition link_at :: "('v, 'r) dg \<Rightarrow> ptr \<Rightarrow> ptr \<Rightarrow> 'r dg_edge \<Rightarrow> ('v, 'r) dg" where
  "link_at g a b obj =
     (let e = nextPtr g;
          g3 = g\<lparr>nextPtr := Suc e, edgeMem := (edgeMem g)(e := obj\<lparr>efrom := a, eto := b\<rparr>),
                 allEdges := uset_insert e (allEdges g)\<rparr>
      in addIncomingEdge b e (addOutgoingEdge a e g3))"

lemma link_at_simps [simp]:
  "allNodes (link_at g a b obj) = allNodes g" "nextPtr (link_at g a b obj) = Suc (nextPtr g)"
  "edgeMem (link_at g a b obj) = (edgeMem g)(nextPtr g := obj\<lparr>efrom := a, eto := b\<rparr>)"
  "internalNodeMap (link_at g a b obj) = internalNodeMap g"
  "externalNodeMap (link_at g a b obj) = externalNodeMap g"
  "entryNode (link_at g a b obj) = entryNode g"
  "allEdges (link_at g a b obj) = uset_insert (nextPtr g) (allEdges g)"
  "node_T (link_at g a b obj) n = node_T g n"
  "out_edges (link_at g a b obj) n =
     (if n = a then uset_insert (nextPtr g) (out_edges g n) else out_edges g n)"
  "in_edges (link_at g a b obj) n =
     (if n = b then uset_insert (nextPtr g) (in_edges g n) else in_edges g n)"
  by (simp_all add: link_at_def addIncomingEdge_def addOutgoingEdge_def Let_def)

lemma link_at_wf:
  assumes wf: "dg_wf g" and ab: "a \<in> set (allNodes g)" "b \<in> set (allNodes g)"
  shows "dg_wf (link_at g a b obj)" "nextPtr g \<notin> set (allEdges g)"
proof -
  have ew: "edges_wf g" and mw: "maps_wf g" using wf by (auto simp: dg_wf_def)
  show fresh: "nextPtr g \<notin> set (allEdges g)" using edges_wfD(4) [OF ew] by blast
  then have "e \<noteq> nextPtr g" if "e \<in> set (allEdges g)" for e using that by auto
  then have sel: "{e \<in> insert (nextPtr g) (set (allEdges g)).
        efrom (((edgeMem g)(nextPtr g := obj\<lparr>efrom := a, eto := b\<rparr>)) e) = n} =
      {e \<in> set (allEdges g). edge_from g e = n} \<union> (if n = a then {nextPtr g} else {})"
    "{e \<in> insert (nextPtr g) (set (allEdges g)).
        eto (((edgeMem g)(nextPtr g := obj\<lparr>efrom := a, eto := b\<rparr>)) e) = n} =
      {e \<in> set (allEdges g). edge_to g e = n} \<union> (if n = b then {nextPtr g} else {})" for n
    by auto
  have "edges_wf (link_at g a b obj)"
    unfolding edges_wf_def link_at_simps set_uset_insert sel
    using edges_wfD [OF ew] ab by (auto simp: less_Suc_eq)
  moreover have "maps_wf (link_at g a b obj)" using mw maps_wf_cong [of "link_at g a b obj" g] by simp
  ultimately show "dg_wf (link_at g a b obj)" by (simp add: dg_wf_def)
qed

lemma linkEdge_cases:
  assumes wf: "dg_wf g"
  shows "(\<exists>a b. a \<in> set (allNodes g) \<and> node_T g a = f \<and> b \<in> set (allNodes g) \<and> node_T g b = t \<and>
           linkEdge g f t obj = Inr (link_at g a b obj, nextPtr g)) \<or>
         (f \<notin> dg_values g \<or> t \<notin> dg_values g) \<and> linkEdge g f t obj = Inl NullDeref"
proof -
  obtain g1 fn where f1: "fetchNode g f = (g1, fn)" by (cases "fetchNode g f")
  obtain g2 tn where f2: "fetchNode g1 t = (g2, tn)" by (cases "fetchNode g1 t")
  note w1 = fetchNode_wf [OF wf f1] and w2 = fetchNode_wf [OF fetchNode_wf(1) [OF wf f1] f2]
  show ?thesis
  proof (cases "f \<in> dg_values g \<and> t \<in> dg_values g")
    case True
    then obtain a b where ab: "a \<in> set (allNodes g)" "node_T g a = f" "b \<in> set (allNodes g)"
      "node_T g b = t" by (auto simp: dg_values_def)
    have "isInGraph g f" "isInGraph g t" using ab wf_value_in_graph [OF wf] by auto
    then have "g1 = g" "g2 = g" using f1 f2 by (auto simp: fetchNode_found)
    moreover have "fn = Some a" "tn = Some b" using w1(9) [of a] w2(9) [of b] ab w1 by auto
    ultimately show ?thesis using ab f1 f2
      by (auto simp: linkEdge_def link_at_def Let_def)
  next
    case False
    have "fn = None \<or> tn = None"
    proof (rule ccontr)
      assume "\<not> (fn = None \<or> tn = None)"
      then obtain a b where "fn = Some a" "tn = Some b" by auto
      with False show False using w1(9) [of a] w2(9) [of b] w1 by (auto simp: dg_values_def)
    qed
    with False f1 f2 show ?thesis by (auto simp: linkEdge_def Let_def split: option.splits)
  qed
qed

lemma linkEdge_wf:
  assumes wf: "dg_wf g" and l: "linkEdge g f t obj = Inr (g', e)"
  shows "dg_wf g'" "e \<notin> set (allEdges g)" "set (allEdges g') = insert e (set (allEdges g))"
    "allNodes g' = allNodes g" "edge_pair g' e = (f, t)"
    "\<And>x. x \<in> set (allEdges g) \<Longrightarrow> edgeMem g' x = edgeMem g x"
    "\<And>n. node_T g' n = node_T g n"
proof -
  obtain a b where ab: "a \<in> set (allNodes g)" "node_T g a = f" "b \<in> set (allNodes g)" "node_T g b = t"
    "g' = link_at g a b obj" "e = nextPtr g"
    using linkEdge_cases [OF wf, of f t obj] l by auto
  note lw = link_at_wf [OF wf ab(1,3)]
  show "dg_wf g'" "e \<notin> set (allEdges g)" "set (allEdges g') = insert e (set (allEdges g))"
    "allNodes g' = allNodes g" "edge_pair g' e = (f, t)"
    "\<And>n. node_T g' n = node_T g n"
    "\<And>x. x \<in> set (allEdges g) \<Longrightarrow> edgeMem g' x = edgeMem g x"
    using lw ab by (auto simp: edge_pair_def)
qed

section \<open>Removing edges and nodes\<close>

lemma removeConnectedEdge_simps [simp]:
  "allNodes (removeConnectedEdge n e g) = allNodes g" "allEdges (removeConnectedEdge n e g) = allEdges g"
  "edgeMem (removeConnectedEdge n e g) = edgeMem g" "nextPtr (removeConnectedEdge n e g) = nextPtr g"
  "internalNodeMap (removeConnectedEdge n e g) = internalNodeMap g"
  "externalNodeMap (removeConnectedEdge n e g) = externalNodeMap g"
  "entryNode (removeConnectedEdge n e g) = entryNode g"
  "node_T (removeConnectedEdge n e g) m = node_T g m"
  "out_edges (removeConnectedEdge n e g) m =
     (if m = n \<and> e \<in> set (out_edges g n) then uset_erase e (out_edges g m) else out_edges g m)"
  "in_edges (removeConnectedEdge n e g) m =
     (if m = n \<and> e \<notin> set (out_edges g n) then uset_erase e (in_edges g m) else in_edges g m)"
  by (simp_all add: removeConnectedEdge_def)

text \<open>A self edge is found twice: the first call takes it out of the outgoing set, the second call no
  longer finds it there and takes it out of the incoming set.\<close>

lemma removeEdge_effect:
  assumes wf: "dg_wf g" and e: "e \<in> set (allEdges g)"
  shows "out_edges (removeEdge e g) n = (if n = edge_from g e then uset_erase e (out_edges g n) else out_edges g n)"
    and "in_edges (removeEdge e g) n = (if n = edge_to g e then uset_erase e (in_edges g n) else in_edges g n)"
    and "set (allEdges (removeEdge e g)) = set (allEdges g) - {e}"
    and "edgeMem (removeEdge e g) = edgeMem g" and "allNodes (removeEdge e g) = allNodes g"
    and "node_T (removeEdge e g) n = node_T g n"
    and "internalNodeMap (removeEdge e g) = internalNodeMap g"
    and "externalNodeMap (removeEdge e g) = externalNodeMap g"
    and "entryNode (removeEdge e g) = entryNode g" and "nextPtr (removeEdge e g) = nextPtr g"
proof -
  have ew: "edges_wf g" using wf by (simp add: dg_wf_def)
  note live = edges_wfD(5,6) [OF ew e]
  have o: "e \<in> set (out_edges g m) \<longleftrightarrow> m = edge_from g e" if "m \<in> set (allNodes g)" for m
    using edges_wfD(7) [OF ew that] e by auto
  show "out_edges (removeEdge e g) n = (if n = edge_from g e then uset_erase e (out_edges g n) else out_edges g n)"
    "in_edges (removeEdge e g) n = (if n = edge_to g e then uset_erase e (in_edges g n) else in_edges g n)"
    using o [OF live(1)] o [OF live(2)] by (auto simp: removeEdge_def Let_def)
  show "set (allEdges (removeEdge e g)) = set (allEdges g) - {e}"
    "edgeMem (removeEdge e g) = edgeMem g" "allNodes (removeEdge e g) = allNodes g"
    "node_T (removeEdge e g) n = node_T g n"
    "internalNodeMap (removeEdge e g) = internalNodeMap g"
    "externalNodeMap (removeEdge e g) = externalNodeMap g"
    "entryNode (removeEdge e g) = entryNode g" "nextPtr (removeEdge e g) = nextPtr g"
    by (simp_all add: removeEdge_def Let_def)
qed

lemma removeEdge_wf:
  assumes wf: "dg_wf g" and e: "e \<in> set (allEdges g)"
  shows "dg_wf (removeEdge e g)"
proof -
  note ef = removeEdge_effect [OF wf e]
  have ew: "edges_wf g" and mw: "maps_wf g" using wf by (auto simp: dg_wf_def)
  have "distinct (allEdges (removeEdge e g))"
    using edges_wfD(2) [OF ew] by (simp add: removeEdge_def Let_def)
  then have "edges_wf (removeEdge e g)"
    unfolding edges_wf_def ef
    using edges_wfD [OF ew] by auto
  moreover have "maps_wf (removeEdge e g)" using mw maps_wf_cong [of "removeEdge e g" g] ef by simp
  ultimately show ?thesis by (simp add: dg_wf_def)
qed

lemma removeConnectedNode_simps [simp]:
  "allNodes (removeConnectedNode m n g) = allNodes g" "allEdges (removeConnectedNode m n g) = allEdges g"
  "edgeMem (removeConnectedNode m n g) = edgeMem g" "nextPtr (removeConnectedNode m n g) = nextPtr g"
  "internalNodeMap (removeConnectedNode m n g) = internalNodeMap g"
  "externalNodeMap (removeConnectedNode m n g) = externalNodeMap g"
  "entryNode (removeConnectedNode m n g) = entryNode g"
  "node_T (removeConnectedNode m n g) x = node_T g x"
  "out_edges (removeConnectedNode m n g) x =
     (if x = m then filter (\<lambda>e. edge_to g e \<noteq> n) (out_edges g x) else out_edges g x)"
  "in_edges (removeConnectedNode m n g) x =
     (if x = m then filter (\<lambda>e. edge_from g e \<noteq> n) (in_edges g x) else in_edges g x)"
  by (simp_all add: removeConnectedNode_def)

definition disconnected :: "('v, 'r) dg \<Rightarrow> ptr \<Rightarrow> ptr set \<Rightarrow> ('v, 'r) dg \<Rightarrow> bool" where
  "disconnected g n W h \<longleftrightarrow> allNodes h = allNodes g \<and> allEdges h = allEdges g \<and> edgeMem h = edgeMem g \<and>
    nextPtr h = nextPtr g \<and> internalNodeMap h = internalNodeMap g \<and>
    externalNodeMap h = externalNodeMap g \<and> entryNode h = entryNode g \<and>
    (\<forall>x. node_T h x = node_T g x \<and>
      out_edges h x = (if x \<in> W then filter (\<lambda>e. edge_to g e \<noteq> n) (out_edges g x) else out_edges g x) \<and>
      in_edges h x = (if x \<in> W then filter (\<lambda>e. edge_from g e \<noteq> n) (in_edges g x) else in_edges g x))"

lemma fold_removeConnectedNode:
  assumes "\<And>(g :: ('v, 'r) dg) h e. edgeMem h = edgeMem g \<Longrightarrow> who h e = who g e"
  shows "disconnected g n (who g ` set es)
     (fold (\<lambda>e h. removeConnectedNode (who h e) n h) es (g :: ('v, 'r) dg))"
proof (induction es arbitrary: g)
  case Nil
  then show ?case by (simp add: disconnected_def)
next
  case (Cons e es)
  have w: "who (removeConnectedNode (who g e) n g) x = who g x" for x
    by (rule assms(1)) simp
  show ?case using Cons.IH [of "removeConnectedNode (who g e) n g"]
    by (auto simp: w disconnected_def)
qed

lemma removeNode_effect:
  assumes wf: "dg_wf g" and n: "n \<in> set (allNodes g)"
  defines "h \<equiv> removeNode n g"
  shows "allNodes h = uset_erase n (allNodes g)"
    and "allEdges h = filter (\<lambda>e. edge_from g e \<noteq> n \<and> edge_to g e \<noteq> n) (allEdges g)"
    and "edgeMem h = edgeMem g" and "nextPtr h = nextPtr g"
    and "node_T h x = node_T g x"
    and "internalNodeMap h = (if isInternal g (node_T g n) then AList.delete (node_T g n) (internalNodeMap g)
           else internalNodeMap g)"
    and "externalNodeMap h = (if isInternal g (node_T g n) then externalNodeMap g
           else AList.delete (node_T g n) (externalNodeMap g))"
    and "x \<in> set (allNodes h) \<Longrightarrow> out_edges h x = filter (\<lambda>e. edge_to g e \<noteq> n) (out_edges g x)"
    and "x \<in> set (allNodes h) \<Longrightarrow> in_edges h x = filter (\<lambda>e. edge_from g e \<noteq> n) (in_edges g x)"
proof -
  have ew: "edges_wf g" using wf by (simp add: dg_wf_def)
  let ?t = "node_T g n"
  let ?g1 = "if isInternal g ?t then g\<lparr>internalNodeMap := AList.delete ?t (internalNodeMap g)\<rparr>
      else g\<lparr>externalNodeMap := AList.delete ?t (externalNodeMap g)\<rparr>"
  let ?g2 = "?g1\<lparr>allNodes := uset_erase n (allNodes ?g1)\<rparr>"
  let ?g3 = "fold (\<lambda>e h. removeConnectedNode (edge_from h e) n h) (in_edges g n) ?g2"
  let ?g4 = "fold (\<lambda>e h. removeConnectedNode (edge_to h e) n h) (out_edges g n) ?g3"
  have g2: "nodeMem ?g2 = nodeMem g" "edgeMem ?g2 = edgeMem g" "allEdges ?g2 = allEdges g"
    "allNodes ?g2 = uset_erase n (allNodes g)" "nextPtr ?g2 = nextPtr g" by auto
  have h: "h = ?g4\<lparr>allEdges := filter (\<lambda>e. e \<notin> set (getAllConnectedEdges ?g2 n)) (allEdges ?g4)\<rparr>"
    by (simp add: h_def removeNode_def Let_def)
  have f3: "disconnected ?g2 n (edge_from ?g2 ` set (in_edges g n)) ?g3"
    by (rule fold_removeConnectedNode) simp
  have f4: "disconnected ?g3 n (edge_to ?g3 ` set (out_edges g n)) ?g4"
    by (rule fold_removeConnectedNode) simp
  have g3: "allNodes ?g3 = uset_erase n (allNodes g)" "allEdges ?g3 = allEdges g" "edgeMem ?g3 = edgeMem g"
    "nextPtr ?g3 = nextPtr g" "internalNodeMap ?g3 = internalNodeMap ?g2"
    "externalNodeMap ?g3 = externalNodeMap ?g2" "\<And>x. node_T ?g3 x = node_T g x"
    "\<And>x. out_edges ?g3 x = (if x \<in> edge_from g ` set (in_edges g n)
        then filter (\<lambda>e. edge_to g e \<noteq> n) (out_edges g x) else out_edges g x)"
    "\<And>x. in_edges ?g3 x = (if x \<in> edge_from g ` set (in_edges g n)
        then filter (\<lambda>e. edge_from g e \<noteq> n) (in_edges g x) else in_edges g x)"
    using f3 g2 unfolding disconnected_def by auto
  have g4: "allNodes ?g4 = uset_erase n (allNodes g)" "allEdges ?g4 = allEdges g" "edgeMem ?g4 = edgeMem g"
    "nextPtr ?g4 = nextPtr g" "internalNodeMap ?g4 = internalNodeMap ?g2"
    "externalNodeMap ?g4 = externalNodeMap ?g2" "\<And>x. node_T ?g4 x = node_T g x"
    "\<And>x. out_edges ?g4 x = (if x \<in> edge_to g ` set (out_edges g n)
        then filter (\<lambda>e. edge_to g e \<noteq> n) (out_edges ?g3 x) else out_edges ?g3 x)"
    "\<And>x. in_edges ?g4 x = (if x \<in> edge_to g ` set (out_edges g n)
        then filter (\<lambda>e. edge_from g e \<noteq> n) (in_edges ?g3 x) else in_edges ?g3 x)"
    using f4 unfolding disconnected_def g3 by auto
  have conn: "set (getAllConnectedEdges ?g2 n) = {e \<in> set (allEdges g). edge_from g e = n \<or> edge_to g e = n}"
    using edges_wfD(7,8) [OF ew n] by (auto simp: getAllConnectedEdges_def g2)
  have keep: "filter (\<lambda>e. edge_to g e \<noteq> n) (out_edges g x) = out_edges g x"
    "filter (\<lambda>e. edge_from g e \<noteq> n) (in_edges g x) = in_edges g x"
    if x: "x \<in> set (allNodes g)" "x \<notin> edge_from g ` set (in_edges g n)" "x \<notin> edge_to g ` set (out_edges g n)" for x
    using that edges_wfD(7,8) [OF ew x(1)] edges_wfD(7,8) [OF ew n]
    by (auto simp: filter_id_conv)
  have keep1: "filter (\<lambda>e. edge_to g e \<noteq> n) (out_edges g x) = out_edges g x"
    if "x \<in> set (allNodes g)" "x \<notin> edge_from g ` set (in_edges g n)" for x
    using that edges_wfD(7) [OF ew that(1)] edges_wfD(8) [OF ew n] by (auto simp: filter_id_conv)
  have keep2: "filter (\<lambda>e. edge_from g e \<noteq> n) (in_edges g x) = in_edges g x"
    if "x \<in> set (allNodes g)" "x \<notin> edge_to g ` set (out_edges g n)" for x
    using that edges_wfD(8) [OF ew that(1)] edges_wfD(7) [OF ew n] by (auto simp: filter_id_conv)
  show nodes: "allNodes h = uset_erase n (allNodes g)" by (simp add: h g4)
  show "allEdges h = filter (\<lambda>e. edge_from g e \<noteq> n \<and> edge_to g e \<noteq> n) (allEdges g)"
    unfolding h by (auto simp: g4(2) conn intro: filter_cong)
  show "edgeMem h = edgeMem g" "nextPtr h = nextPtr g" "node_T h x = node_T g x" by (simp_all add: h g4)
  show "internalNodeMap h = (if isInternal g ?t then AList.delete ?t (internalNodeMap g) else internalNodeMap g)"
    "externalNodeMap h = (if isInternal g ?t then externalNodeMap g else AList.delete ?t (externalNodeMap g))"
    by (simp_all add: h g4)
  show "out_edges h x = filter (\<lambda>e. edge_to g e \<noteq> n) (out_edges g x)" if "x \<in> set (allNodes h)"
    using that nodes keep1 [of x] by (auto simp: h g4 g3)
  show "in_edges h x = filter (\<lambda>e. edge_from g e \<noteq> n) (in_edges g x)" if "x \<in> set (allNodes h)"
    using that nodes keep2 [of x] keep(2) [of x] by (auto simp: h g4 g3)
qed

lemma removeNode_wf:
  assumes wf: "dg_wf g" and n: "n \<in> set (allNodes g)"
  shows "dg_wf (removeNode n g)"
proof -
  let ?h = "removeNode n g" and ?t = "node_T g n"
  note ef = removeNode_effect [OF wf n]
  have ew: "edges_wf g" and mw: "maps_wf g" using wf by (auto simp: dg_wf_def)
  have "distinct (allNodes ?h)" "distinct (allEdges ?h)"
    using edges_wfD(1,2) [OF ew] by (simp_all add: ef)
  moreover have nodes: "set (allNodes ?h) = set (allNodes g) - {n}" by (simp add: ef(1))
  ultimately have "edges_wf ?h"
    unfolding edges_wf_def
    using edges_wfD [OF ew] by (auto simp: ef(2-5) ef(8,9))
  moreover have "maps_wf ?h"
  proof -
    have look: "lookup_node ?h u = (if u = ?t then None else lookup_node g u)" for u
      using wf_lookup [OF wf, of ?t n] n mw
      by (auto simp: lookup_node_def ef(6,7) delete_conv' isInternal_def isExternal_def maps_wf_def
          split: option.splits)
    have sub: "isInternal ?h u \<Longrightarrow> isInternal g u" "isExternal ?h u \<Longrightarrow> isExternal g u" for u
      by (auto simp: isInternal_def isExternal_def ef(6,7) delete_conv' split: if_splits)
    show ?thesis unfolding maps_wf_def
    proof (intro conjI allI impI)
      show "distinct (map fst (internalNodeMap ?h))" "distinct (map fst (externalNodeMap ?h))"
        using mw by (simp_all add: maps_wf_def ef(6,7) distinct_delete)
      show "\<not> isExternal ?h u" if "isInternal ?h u" for u
        using mw sub that by (auto simp: maps_wf_def)
      show "map_of (internalNodeMap ?h) u \<noteq> Some None" for u
        using mw by (simp add: maps_wf_def ef(6) delete_conv' del: map_of_eq_Some_iff)
      show "lookup_node ?h u = Some (Some m) \<longleftrightarrow> m \<in> set (allNodes ?h) \<and> node_T ?h m = u" for u m
        using wf_lookup [OF wf, of u m] wf_node_inj [OF wf n, of m] by (auto simp: look nodes ef(5))
    qed
  qed
  ultimately show ?thesis by (simp add: dg_wf_def)
qed

end
