(* ===== verification/DepGraphQueries.thy ===== *)
theory DepGraphQueries
  imports DepGraphWf
begin

text \<open>
  The queries of \<open>DG<T>\<close> in \<open>DGBase.hpp\<close> (roots, leaves, connected components, the neighbours at the next
  and at the previous depth), the histories of a graph as a step relation over all its mutators, and the
  properties of the component.
\<close>

section \<open>Queries\<close>

definition getTopLevelNodes :: "('v, 'r) dg \<Rightarrow> bool \<Rightarrow> ptr list" where
  "getTopLevelNodes g onlyInternal =
     filter (\<lambda>n. \<not> (onlyInternal \<and> isExternal g (node_T g n)) \<and>
         list_all (\<lambda>e. edge_from g e = n \<or>
                       (onlyInternal \<and> isExternal g (node_T g (edge_from g e)))) (in_edges g n))
       (allNodes g)"

definition hasNoChildNode :: "('v, 'r) dg \<Rightarrow> ptr \<Rightarrow> bool" where
  "hasNoChildNode g n \<longleftrightarrow> list_all (\<lambda>e. edge_to g e = n) (out_edges g n)"

definition getLeafNodes :: "('v, 'r) dg \<Rightarrow> bool \<Rightarrow> ptr list res" where
  "getLeafNodes g onlyInternal =
     (if onlyInternal then Inr (filter (hasNoChildNode g) (allNodes g))
      else foldE (\<lambda>(t, p) leafNodes. case p of None \<Rightarrow> Inl NullDeref
                    | Some n \<Rightarrow> Inr (if hasNoChildNode g n then uset_insert n leafNodes else leafNodes))
             (internalNodeMap g) [])"

definition connected_to :: "('v, 'r) dg \<Rightarrow> ptr \<Rightarrow> ptr list" where
  "connected_to g n = map (edge_to g) (out_edges g n) @ map (edge_from g) (in_edges g n)"

definition getDisconnectedSubgraphs_step ::
  "('v, 'r) dg \<Rightarrow> ptr \<Rightarrow> ptr list \<times> ptr list list \<Rightarrow> (ptr list \<times> ptr list list) res" where
  "getDisconnectedSubgraphs_step g n = (\<lambda>(visitedNodes, connectedComponents).
     if n \<in> set visitedNodes then Inr (visitedNodes, connectedComponents)
     else case explore queue_add (connected_to g) (visitedNodes @ [n], [n], []) of
            None \<Rightarrow> Inl NoReturn
          | Some (visited, _, component) \<Rightarrow> Inr (visited, connectedComponents @ [component]))"

definition getDisconnectedSubgraphs :: "('v, 'r) dg \<Rightarrow> ptr list list res" where
  "getDisconnectedSubgraphs g =
     andThen (foldE (getDisconnectedSubgraphs_step g) (allNodes g) ([], [])) (\<lambda>(_, comps). Inr comps)"

definition getNextDepthNodes :: "('v, 'r) dg \<Rightarrow> ptr \<Rightarrow> ptr list" where
  "getNextDepthNodes g n =
     (let incomingNodes = uset_insert_all (map (edge_to g) (out_edges g n)) []
      in filter (\<lambda>m. list_all (\<lambda>e. edge_from g e \<notin> set incomingNodes) (in_edges g m)) incomingNodes)"

definition getPreviousDepthNodes :: "('v, 'r) dg \<Rightarrow> ptr \<Rightarrow> ptr list" where
  "getPreviousDepthNodes g n =
     (let outgoingNodes = uset_insert_all (map (edge_from g) (in_edges g n)) []
      in filter (\<lambda>m. list_all (\<lambda>e. edge_to g e \<notin> set outgoingNodes) (out_edges g m)) outgoingNodes)"

section \<open>The abstract graph\<close>

definition dg_arrows :: "('v, 'r) dg \<Rightarrow> ('v \<times> 'v) set" where
  "dg_arrows g = edge_pair g ` set (allEdges g)"

definition node_arrows :: "('v, 'r) dg \<Rightarrow> (ptr \<times> ptr) set" where
  "node_arrows g = (\<lambda>e. (edge_from g e, edge_to g e)) ` set (allEdges g)"

lemma node_arrows_live:
  assumes "dg_wf g" "(a, b) \<in> node_arrows g"
  shows "a \<in> set (allNodes g)" "b \<in> set (allNodes g)"
  using assms edges_wfD(5,6) [of g] by (auto simp: dg_wf_def node_arrows_def)

lemma out_edges_to:
  assumes "dg_wf g" "n \<in> set (allNodes g)"
  shows "edge_to g ` set (out_edges g n) = {m. (n, m) \<in> node_arrows g}"
  using assms edges_wfD(7) [of g n] by (auto simp: dg_wf_def node_arrows_def)

lemma in_edges_from:
  assumes "dg_wf g" "n \<in> set (allNodes g)"
  shows "edge_from g ` set (in_edges g n) = {m. (m, n) \<in> node_arrows g}"
  using assms edges_wfD(8) [of g n] by (auto simp: dg_wf_def node_arrows_def)

lemma set_connected_to:
  assumes "dg_wf g" "n \<in> set (allNodes g)"
  shows "set (connected_to g n) = {m. (n, m) \<in> node_arrows g \<union> (node_arrows g)\<inverse>}"
  using out_edges_to [OF assms] in_edges_from [OF assms] by (auto simp: connected_to_def)

lemma getNextDepthNodes_iff:
  assumes wf: "dg_wf g" and n: "n \<in> set (allNodes g)"
  shows "m \<in> set (getNextDepthNodes g n) \<longleftrightarrow>
     (n, m) \<in> node_arrows g \<and> (\<forall>k. (n, k) \<in> node_arrows g \<longrightarrow> (k, m) \<notin> node_arrows g)"
proof -
  have "edge_from g ` set (in_edges g m) = {k. (k, m) \<in> node_arrows g}" if "(n, m) \<in> node_arrows g"
    using in_edges_from [OF wf node_arrows_live(2) [OF wf that]] .
  moreover have "m \<in> set (getNextDepthNodes g n) \<longleftrightarrow> m \<in> {k. (n, k) \<in> node_arrows g} \<and>
      edge_from g ` set (in_edges g m) \<inter> {k. (n, k) \<in> node_arrows g} = {}"
    unfolding out_edges_to [OF wf n, symmetric] by (auto simp: getNextDepthNodes_def list_all_iff)
  ultimately show ?thesis by auto
qed

lemma getPreviousDepthNodes_iff:
  assumes wf: "dg_wf g" and n: "n \<in> set (allNodes g)"
  shows "m \<in> set (getPreviousDepthNodes g n) \<longleftrightarrow>
     (m, n) \<in> node_arrows g \<and> (\<forall>k. (k, n) \<in> node_arrows g \<longrightarrow> (m, k) \<notin> node_arrows g)"
proof -
  have "edge_to g ` set (out_edges g m) = {k. (m, k) \<in> node_arrows g}" if "(m, n) \<in> node_arrows g"
    using out_edges_to [OF wf node_arrows_live(1) [OF wf that]] .
  moreover have "m \<in> set (getPreviousDepthNodes g n) \<longleftrightarrow> m \<in> {k. (k, n) \<in> node_arrows g} \<and>
      edge_to g ` set (out_edges g m) \<inter> {k. (k, n) \<in> node_arrows g} = {}"
    unfolding in_edges_from [OF wf n, symmetric] by (auto simp: getPreviousDepthNodes_def list_all_iff)
  ultimately show ?thesis by auto
qed

section \<open>Connected components\<close>

definition component_of :: "('v, 'r) dg \<Rightarrow> ptr \<Rightarrow> ptr set" where
  "component_of g n = {m. (n, m) \<in> (node_arrows g \<union> (node_arrows g)\<inverse>)\<^sup>*}"

lemma component_of_sym: "m \<in> component_of g n \<Longrightarrow> n \<in> component_of g m"
proof -
  have "sym ((node_arrows g \<union> (node_arrows g)\<inverse>)\<^sup>*)" by (intro sym_rtrancl sym_Un_converse)
  then show "m \<in> component_of g n \<Longrightarrow> n \<in> component_of g m" by (auto simp: component_of_def sym_def)
qed

lemma component_of_trans: "m \<in> component_of g n \<Longrightarrow> k \<in> component_of g m \<Longrightarrow> k \<in> component_of g n"
  by (auto simp: component_of_def)

lemma component_of_self [simp]: "n \<in> component_of g n"
  by (simp add: component_of_def)

lemma component_of_live:
  assumes wf: "dg_wf g" and n: "n \<in> set (allNodes g)" and m: "m \<in> component_of g n"
  shows "m \<in> set (allNodes g)"
proof -
  from m have "(n, m) \<in> (node_arrows g \<union> (node_arrows g)\<inverse>)\<^sup>*" by (simp add: component_of_def)
  then show ?thesis by induction (use n node_arrows_live [OF wf] in auto)
qed

lemma component_reach:
  assumes wf: "dg_wf g" and n: "n \<in> set (allNodes g)"
  shows "insert n ((succ_rel (connected_to g))\<^sup>+ `` {n}) = component_of g n"
proof -
  let ?S = "node_arrows g \<union> (node_arrows g)\<inverse>" and ?A = "set (allNodes g)"
  have s: "(a, b) \<in> succ_rel (connected_to g) \<longleftrightarrow> (a, b) \<in> ?S" if "a \<in> ?A" for a b
    using set_connected_to [OF wf that] by auto
  have 1: "(n, m) \<in> ?S\<^sup>* \<and> m \<in> ?A" if "(n, m) \<in> (succ_rel (connected_to g))\<^sup>+" for m
    using that
  proof induction
    case (base y)
    then have "(n, y) \<in> ?S" using s [OF n] by blast
    then show ?case using node_arrows_live [OF wf] by auto
  next
    case (step y z)
    then have "(y, z) \<in> ?S" using s by blast
    then show ?case using node_arrows_live [OF wf] step.IH by (auto intro: rtrancl_into_rtrancl)
  qed
  have 2: "m = n \<or> (n, m) \<in> (succ_rel (connected_to g))\<^sup>+" if "(n, m) \<in> ?S\<^sup>*" for m
    using that
  proof induction
    case (step y z)
    then have "y \<in> ?A" using node_arrows_live [OF wf] by auto
    then have "(y, z) \<in> succ_rel (connected_to g)" using s step by blast
    then show ?case using step.IH by (auto intro: trancl_into_trancl)
  qed simp
  show ?thesis using 1 2 by (auto simp: component_of_def)
qed

text \<open>The loop invariant: the visited nodes are the nodes of the components found so far, each component is
  a connectivity class, and no two overlap.\<close>

definition comps_ok :: "('v, 'r) dg \<Rightarrow> ptr list \<times> ptr list list \<Rightarrow> bool" where
  "comps_ok g = (\<lambda>(vis, comps). distinct vis \<and> set vis = set (concat comps) \<and> distinct (concat comps) \<and>
     set vis \<subseteq> set (allNodes g) \<and> (\<forall>c \<in> set comps. \<exists>n \<in> set (allNodes g). set c = component_of g n))"

lemma getDisconnectedSubgraphs_step_ok:
  assumes wf: "dg_wf g" and n: "n \<in> set (allNodes g)" and inv: "comps_ok g (vis, comps)"
  shows "\<exists>vis' comps'. getDisconnectedSubgraphs_step g n (vis, comps) = Inr (vis', comps') \<and>
     comps_ok g (vis', comps') \<and> n \<in> set vis' \<and> set vis \<subseteq> set vis'"
proof (cases "n \<in> set vis")
  case True
  with inv show ?thesis by (simp add: getDisconnectedSubgraphs_step_def)
next
  case False
  have closed: "set (connected_to g x) \<subseteq> set vis" if x: "x \<in> set vis" for x
  proof
    fix y assume y: "y \<in> set (connected_to g x)"
    from x inv obtain c m where c: "c \<in> set comps" "x \<in> set c" "set c = component_of g m"
      unfolding comps_ok_def by auto
    have xl: "x \<in> set (allNodes g)" using inv x by (auto simp: comps_ok_def)
    have "(x, y) \<in> succ_rel (connected_to g)" using y by simp
    then have "y \<in> component_of g x" unfolding component_reach [OF wf xl, symmetric] by blast
    then have "y \<in> set c" using c component_of_trans by blast
    then show "y \<in> set vis" using inv c(1) by (auto simp: comps_ok_def)
  qed
  have succ: "set (connected_to g x) \<subseteq> set (allNodes g)" if "x \<in> set (allNodes g)" for x
    using set_connected_to [OF wf that] node_arrows_live [OF wf] by auto
  have vis: "set (vis @ [n]) \<union> set [n] \<subseteq> set (allNodes g)" "distinct (vis @ [n])"
    using inv n False unfolding comps_ok_def prod.case by (elim conjE; simp)+
  obtain m t p where run: "explore queue_add (connected_to g) (vis @ [n], [n], []) = Some (m, t, p)"
    using wq.explore_terminates [where succ = "connected_to g" and ?p0.0 = "[]", OF finite_set vis] succ
    by auto
  note ex = wq.explore_correct [OF run]
  have start: "set (connected_to g x) \<subseteq> set (vis @ [n])" if "x \<in> set (vis @ [n])" "x \<notin> set [n]" for x
    using that closed by auto
  have m: "set m = set vis \<union> component_of g n"
    using ex(1) [OF start] component_reach [OF wf n] by auto
  have disj: "set vis \<inter> component_of g n = {}"
  proof (rule equals0I)
    fix x assume "x \<in> set vis \<inter> component_of g n"
    then obtain c k where "c \<in> set comps" "x \<in> set c" "set c = component_of g k" "x \<in> component_of g n"
      using inv unfolding comps_ok_def by auto
    then have "n \<in> set c" using component_of_sym component_of_trans by blast
    with False inv \<open>c \<in> set comps\<close> show False by (auto simp: comps_ok_def)
  qed
  have p: "set p = component_of g n" using ex(2) [OF start] m disj by auto
  have "distinct m" "distinct p" using ex(4,5) [OF start] inv False by (auto simp: comps_ok_def)
  moreover have "component_of g n \<subseteq> set (allNodes g)" using component_of_live [OF wf n] by blast
  ultimately have "comps_ok g (m, comps @ [p])"
    using inv m p disj n unfolding comps_ok_def by auto
  then show ?thesis using run m False by (simp add: getDisconnectedSubgraphs_step_def)
qed

lemma getDisconnectedSubgraphs_loop:
  assumes "dg_wf g" "set ns \<subseteq> set (allNodes g)" "comps_ok g (vis, comps)"
  shows "\<exists>vis' comps'. foldE (getDisconnectedSubgraphs_step g) ns (vis, comps) = Inr (vis', comps') \<and>
     comps_ok g (vis', comps') \<and> set ns \<union> set vis \<subseteq> set vis'"
  using assms(2,3)
proof (induction ns arbitrary: vis comps)
  case Nil
  then show ?case by auto
next
  case (Cons n ns)
  then have "n \<in> set (allNodes g)" by simp
  from getDisconnectedSubgraphs_step_ok [OF assms(1) this Cons.prems(2)] obtain vis1 comps1 where
    s: "getDisconnectedSubgraphs_step g n (vis, comps) = Inr (vis1, comps1)" "comps_ok g (vis1, comps1)"
      "n \<in> set vis1" "set vis \<subseteq> set vis1" by blast
  from Cons.IH [OF _ s(2)] Cons.prems obtain vis2 comps2 where
    "foldE (getDisconnectedSubgraphs_step g) ns (vis1, comps1) = Inr (vis2, comps2)"
    "comps_ok g (vis2, comps2)" "set ns \<union> set vis1 \<subseteq> set vis2" by auto
  with s show ?case by auto
qed

lemma getDisconnectedSubgraphs_correct:
  assumes wf: "dg_wf g"
  obtains comps where "getDisconnectedSubgraphs g = Inr comps" "distinct (concat comps)"
    "set (concat comps) = set (allNodes g)"
    "\<And>c. c \<in> set comps \<Longrightarrow> \<exists>n \<in> set (allNodes g). set c = component_of g n"
proof -
  have "comps_ok g ([], [])" by (simp add: comps_ok_def)
  from getDisconnectedSubgraphs_loop [OF wf subset_refl this] obtain vis comps where
    "foldE (getDisconnectedSubgraphs_step g) (allNodes g) ([], []) = Inr (vis, comps)"
    "comps_ok g (vis, comps)" "set (allNodes g) \<subseteq> set vis" by auto
  then show ?thesis by (intro that [of comps]) (auto simp: getDisconnectedSubgraphs_def comps_ok_def)
qed

section \<open>Edges that stand for other edges\<close>

definition sub_remedies :: "(ptr \<Rightarrow> 'r edge_attrs) \<Rightarrow> ptr list \<Rightarrow> 'r set" where
  "sub_remedies sub xs = \<Union> {rs. \<exists>s \<in> set xs. remeds (sub s) = Some rs}"

definition join_remedies :: "'r set option \<Rightarrow> 'r set \<Rightarrow> 'r set option" where
  "join_remedies r U = (case r of None \<Rightarrow> if U = {} then None else Some U | Some old \<Rightarrow> Some (old \<union> U))"

lemma sub_remedies_snoc:
  "sub_remedies sub (xs @ [x]) = sub_remedies sub xs \<union> (case remeds (sub x) of None \<Rightarrow> {} | Some rs \<Rightarrow> rs)"
  by (auto simp: sub_remedies_def split: option.splits)

lemma join_join: "join_remedies (join_remedies r U) V = join_remedies r (U \<union> V)"
  by (auto simp: join_remedies_def split: option.splits)

lemma join_empty [simp]: "join_remedies r {} = r"
  by (simp add: join_remedies_def split: option.splits)

lemma addRemedies_removable:
  "isRemovable e \<Longrightarrow> addRemedies rs e = e\<lparr>remeds := join_remedies (remeds e) rs\<rparr>"
  by (cases e) (auto simp: addRemedies_def join_remedies_def split: option.splits)

lemma addSubEdge_eq:
  "addSubEdge sub s e =
     (let ss = uset_insert s (subEdges e); ok = isRemovable (sub s) \<and> (length ss = 1 \<or> isRemovable e)
      in e\<lparr>subEdges := ss, isLoopCarried := (isLoopCarried e \<or> isLoopCarried (sub s)), isRemovable := ok,
           remeds := (if ok then join_remedies (remeds e) (case remeds (sub s) of None \<Rightarrow> {} | Some rs \<Rightarrow> rs)
                      else None)\<rparr>)"
  by (cases e) (auto simp: addSubEdge_def Let_def addRemedies_removable split: option.splits)

lemma length_uset_insert_1:
  "distinct xs \<Longrightarrow> length (uset_insert x xs) = 1 \<longleftrightarrow> set xs \<subseteq> {x}"
  by (cases xs; cases "tl xs") (auto simp: uset_insert_def)

lemma fold_addSubEdge:
  assumes "subEdges e0 = []"
  shows "fold (addSubEdge sub) xs e0 = e0\<lparr>subEdges := uset_insert_all xs [],
      isLoopCarried := (isLoopCarried e0 \<or> (\<exists>s \<in> set xs. isLoopCarried (sub s))),
      isRemovable := (if xs = [] then isRemovable e0 else \<forall>s \<in> set xs. isRemovable (sub s)),
      remeds := (if \<forall>s \<in> set xs. isRemovable (sub s)
                 then join_remedies (remeds e0) (sub_remedies sub xs) else None)\<rparr>"
proof (induction xs rule: rev_induct)
  case Nil
  then show ?case using assms by (cases e0) (simp add: sub_remedies_def)
next
  case (snoc x xs)
  have l: "length (uset_insert x (uset_insert_all xs [])) = 1 \<longleftrightarrow> set xs \<subseteq> {x}"
    using length_uset_insert_1 [of "uset_insert_all xs []" x] by simp
  have i: "uset_insert_all (xs @ [x]) [] = uset_insert x (uset_insert_all xs [])"
    by (simp add: uset_insert_all_def)
  let ?all = "\<forall>s \<in> set xs. isRemovable (sub s)"
  let ?ok = "isRemovable (sub x) \<and> (set xs \<subseteq> {x} \<or> (if xs = [] then isRemovable e0 else ?all))"
  have ok: "?ok \<longleftrightarrow> isRemovable (sub x) \<and> ?all" by auto
  have lc: "(lc \<or> (\<exists>s \<in> set xs. isLoopCarried (sub s)) \<or> isLoopCarried (sub x)) \<longleftrightarrow>
      lc \<or> (\<exists>s \<in> set (xs @ [x]). isLoopCarried (sub s))" for lc by auto
  have al: "(\<forall>s \<in> set (xs @ [x]). isRemovable (sub s)) \<longleftrightarrow> isRemovable (sub x) \<and> ?all" by auto
  show ?case
    unfolding fold_append o_apply fold_simps snoc
    unfolding addSubEdge_eq Let_def
    by (simp add: l ok lc al i sub_remedies_snoc join_join del: One_nat_def set_append cong: if_cong)
qed

lemma uset_insert_all_distinct: "distinct (ys @ xs) \<Longrightarrow> uset_insert_all xs ys = ys @ xs"
  by (induction xs arbitrary: ys) (auto simp: uset_insert_all_def uset_insert_def)

text \<open>An edge as its clients build it: fresh, with its attributes set, then one call per sub-edge.\<close>

definition summary_edge ::
  "(ptr \<Rightarrow> 'r edge_attrs) \<Rightarrow> bool \<Rightarrow> bool \<Rightarrow> DataDependenceType \<Rightarrow> bool \<Rightarrow> ptr \<Rightarrow> ptr \<Rightarrow> ptr list \<Rightarrow> 'r dg_edge" where
  "summary_edge sub mem mst t ctrl a b xs =
     fold (addSubEdge sub) xs ((setMemMustType mem mst t (new_edge a b))\<lparr>isControl := ctrl\<rparr>)"

lemma summary_edge_eq:
  "summary_edge sub mem mst t ctrl a b xs =
     \<lparr>memory = mem, must = mst, dataDepType = t, isControl = ctrl,
      isLoopCarried = (\<exists>s \<in> set xs. isLoopCarried (sub s)),
      isRemovable = (xs \<noteq> [] \<and> (\<forall>s \<in> set xs. isRemovable (sub s))),
      remeds = (if \<forall>s \<in> set xs. isRemovable (sub s) then join_remedies None (sub_remedies sub xs) else None),
      efrom = a, eto = b, subEdges = uset_insert_all xs []\<rparr>"
  unfolding summary_edge_def
  by (subst fold_addSubEdge) (auto simp: setMemMustType_def new_edge_def)

lemma copy_summary_edge:
  "copy_edge sub (summary_edge sub mem mst t ctrl a b xs) = summary_edge sub mem mst t ctrl a b xs"
proof -
  let ?E = "summary_edge sub mem mst t ctrl a b xs" and ?ys = "uset_insert_all xs []"
  have ys: "set ?ys = set xs" "?ys = [] \<longleftrightarrow> xs = []" "uset_insert_all ?ys [] = ?ys"
    using uset_insert_all_distinct [of "[]" ?ys] by (auto simp: distinct_uset_insert_all simp flip: set_empty)
  have U: "sub_remedies sub ?ys = sub_remedies sub xs" by (simp add: sub_remedies_def)
  have J: "join_remedies (join_remedies None U) U = join_remedies None U" for U :: "'a set"
    by (simp add: join_join)
  show ?thesis
    unfolding copy_edge_def Let_def
    by (subst fold_addSubEdge)
      (auto simp: setRemedies_def summary_edge_eq setMemMustType_def new_edge_def ys U J sub_remedies_def
        join_remedies_def split: option.splits)
qed

section \<open>Histories of a graph\<close>

inductive dg_step :: "('v, 'r) dg \<Rightarrow> ('v, 'r) dg \<Rightarrow> bool" where
  step_addNode: "\<not> isInGraph g t \<Longrightarrow> dg_step g (fst (addNode g t inclusion))"
| step_fetchNode: "dg_step g (fst (fetchNode g t))"
| step_fetchOrAddNode: "dg_step g (fst (fetchOrAddNode g t inclusion))"
| step_addEdge: "addEdge g f t = Inr (g', e) \<Longrightarrow> dg_step g g'"
| step_copyAddEdge: "copyAddEdge sub src g e = Inr (g', e') \<Longrightarrow> dg_step g g'"
| step_setEdgeAttributes: "e \<in> set (allEdges g) \<Longrightarrow>
    dg_step g (g\<lparr>edgeMem := (edgeMem g)(e := setEdgeAttributes mem mst str ctrl lc rm (edgeMem g e))\<rparr>)"
| step_addSubEdge: "e \<in> set (allEdges g) \<Longrightarrow>
    dg_step g (g\<lparr>edgeMem := (edgeMem g)(e := addSubEdge sub s (edgeMem g e))\<rparr>)"
| step_removeEdge: "e \<in> set (allEdges g) \<Longrightarrow> dg_step g (removeEdge e g)"
| step_removeNode: "n \<in> set (allNodes g) \<Longrightarrow> dg_step g (removeNode n g)"
| step_clear: "dg_step g (clear_dg g)"

lemma update_edge_wf:
  assumes wf: "dg_wf g" and x: "efrom x = edge_from g e" "eto x = edge_to g e"
  shows "dg_wf (g\<lparr>edgeMem := (edgeMem g)(e := x)\<rparr>)"
proof -
  have ef: "efrom (((edgeMem g)(e := x)) y) = edge_from g y" "eto (((edgeMem g)(e := x)) y) = edge_to g y" for y
    using x by auto
  have "maps_wf (g\<lparr>edgeMem := (edgeMem g)(e := x)\<rparr>) = maps_wf g" by (rule maps_wf_cong) auto
  with wf show ?thesis by (simp add: dg_wf_def edges_wf_def ef del: fun_upd_apply)
qed

lemma clear_dg_wf: "dg_wf g \<Longrightarrow> dg_wf (clear_dg g)"
  by (simp add: dg_wf_def edges_wf_def maps_wf_def clear_dg_def dg_defs)

lemma setEdgeAttributes_ends [simp]:
  "efrom (setEdgeAttributes mem mst str ctrl lc rm x) = efrom x"
  "eto (setEdgeAttributes mem mst str ctrl lc rm x) = eto x"
  by (simp_all add: setEdgeAttributes_def setMemMustType_def)

lemma addSubEdge_ends [simp]:
  "efrom (addSubEdge sub s x) = efrom x" "eto (addSubEdge sub s x) = eto x"
  by (simp_all add: addSubEdge_eq Let_def)

lemma dg_step_wf: "dg_step g h \<Longrightarrow> dg_wf g \<Longrightarrow> dg_wf h"
proof (induction rule: dg_step.induct)
  case (step_addNode g t inclusion)
  then show ?case using addNode_wf(1) [of g t inclusion] by (cases "addNode g t inclusion") simp
next
  case (step_fetchNode g t)
  then show ?case using fetchNode_wf(1) [of g t] by (cases "fetchNode g t") simp
next
  case (step_fetchOrAddNode g t inclusion)
  then show ?case using fetchOrAddNode_wf(1) [of g t inclusion] by (cases "fetchOrAddNode g t inclusion") simp
next
  case (step_addEdge g f t g' e)
  then show ?case using linkEdge_wf(1) by (simp add: addEdge_def)
next
  case (step_copyAddEdge sub src g e g' e')
  then show ?case using linkEdge_wf(1) by (simp add: copyAddEdge_def)
qed (simp_all add: update_edge_wf clear_dg_wf removeEdge_wf removeNode_wf)

lemma dg_history_wf: "dg_step\<^sup>*\<^sup>* g h \<Longrightarrow> dg_wf g \<Longrightarrow> dg_wf h"
  by (induction rule: rtranclp_induct) (auto intro: dg_step_wf)

lemma dg_arrows_eq: "dg_arrows g = (\<lambda>(a, b). (node_T g a, node_T g b)) ` node_arrows g"
  by (force simp: dg_arrows_def node_arrows_def edge_pair_def)

lemma removeNode_values:
  assumes wf: "dg_wf g" and n: "n \<in> set (allNodes g)"
  shows "dg_values (removeNode n g) = dg_values g - {node_T g n}"
    and "dg_arrows (removeNode n g) = {(s, t) \<in> dg_arrows g. s \<noteq> node_T g n \<and> t \<noteq> node_T g n}"
proof -
  note ef = removeNode_effect [OF wf n]
  have inj: "node_T g m = node_T g n \<longleftrightarrow> m = n" if "m \<in> set (allNodes g)" for m
    using wf_node_inj [OF wf that n] by auto
  have live: "edge_from g e \<in> set (allNodes g)" "edge_to g e \<in> set (allNodes g)"
    if "e \<in> set (allEdges g)" for e
    using edges_wfD(5,6) [of g e] wf that by (auto simp: dg_wf_def)
  show "dg_values (removeNode n g) = dg_values g - {node_T g n}"
    using inj by (auto simp: dg_values_def ef(1,5))
  have p: "edge_pair (removeNode n g) e = edge_pair g e" for e by (simp add: edge_pair_def ef(3,5))
  show "dg_arrows (removeNode n g) = {(s, t) \<in> dg_arrows g. s \<noteq> node_T g n \<and> t \<noteq> node_T g n}"
    unfolding dg_arrows_def p ef(2) using inj live by (auto simp: edge_pair_def)
qed

lemma getLeafNodes_correct:
  assumes wf: "dg_wf g"
  shows "getLeafNodes g True = Inr (filter (hasNoChildNode g) (allNodes g))"
    and "\<exists>ns. getLeafNodes g False = Inr ns \<and>
      set ns = {n \<in> set (allNodes g). isInternal g (node_T g n) \<and> hasNoChildNode g n}"
proof -
  let ?f = "\<lambda>(t, p) leafNodes. case p of None \<Rightarrow> Inl NullDeref
       | Some n \<Rightarrow> Inr (if hasNoChildNode g n then uset_insert n leafNodes else leafNodes)"
  have "\<exists>ns. foldE ?f xs acc = Inr ns \<and>
      set ns = set acc \<union> {n. hasNoChildNode g n \<and> (\<exists>t. (t, Some n) \<in> set xs)}"
    if "\<forall>(t, p) \<in> set xs. p \<noteq> None" for xs :: "('a \<times> ptr option) list" and acc
    using that
  proof (induction xs arbitrary: acc)
    case (Cons x xs)
    then obtain t n where x: "x = (t, Some n)" by (cases x) auto
    let ?acc = "if hasNoChildNode g n then uset_insert n acc else acc"
    obtain ns where ns: "foldE ?f xs ?acc = Inr ns"
      "set ns = set ?acc \<union> {n. hasNoChildNode g n \<and> (\<exists>t. (t, Some n) \<in> set xs)}"
      using Cons.IH [of ?acc] Cons.prems by auto
    have "set ns = set acc \<union> {n. hasNoChildNode g n \<and> (\<exists>t. (t, Some n) \<in> set (x # xs))}"
      unfolding ns(2) x by auto
    with ns(1) show ?case by (simp add: x)
  qed simp
  note loop = this
  have d: "distinct (map fst (internalNodeMap g))" using wf by (simp add: dg_wf_def maps_wf_def)
  have "\<forall>t. map_of (internalNodeMap g) t \<noteq> Some None"
    using wf unfolding dg_wf_def maps_wf_def by blast
  then have "p \<noteq> None" if "(t, p) \<in> set (internalNodeMap g)" for t p
    using map_of_is_SomeI [OF d that] by metis
  then have nn: "\<forall>(t, p) \<in> set (internalNodeMap g). p \<noteq> None" by auto
  obtain ns where ns: "foldE ?f (internalNodeMap g) [] = Inr ns"
    "set ns = {n. hasNoChildNode g n \<and> (\<exists>t. (t, Some n) \<in> set (internalNodeMap g))}"
    using loop [OF nn, of "[]"] by auto
  have "(\<exists>t. (t, Some n) \<in> set (internalNodeMap g)) \<longleftrightarrow>
      n \<in> set (allNodes g) \<and> isInternal g (node_T g n)" for n
  proof
    assume "\<exists>t. (t, Some n) \<in> set (internalNodeMap g)"
    then obtain t where t: "map_of (internalNodeMap g) t = Some (Some n)" using d by auto
    then have "lookup_node g t = Some (Some n)" by (simp add: lookup_node_def)
    with t show "n \<in> set (allNodes g) \<and> isInternal g (node_T g n)"
      using wf_lookup [OF wf] by (auto simp: isInternal_def)
  next
    assume n: "n \<in> set (allNodes g) \<and> isInternal g (node_T g n)"
    then have "lookup_node g (node_T g n) = Some (Some n)" using wf_lookup [OF wf] by blast
    with n have "map_of (internalNodeMap g) (node_T g n) = Some (Some n)"
      by (auto simp: lookup_node_def isInternal_def)
    then show "\<exists>t. (t, Some n) \<in> set (internalNodeMap g)" by (blast dest: map_of_SomeD)
  qed
  with ns show "\<exists>ns. getLeafNodes g False = Inr ns \<and>
      set ns = {n \<in> set (allNodes g). isInternal g (node_T g n) \<and> hasNoChildNode g n}"
    by (auto simp: getLeafNodes_def)
qed (simp add: getLeafNodes_def)

lemma fetchNode_live: "dg_wf g \<Longrightarrow> n \<in> set (allNodes g) \<Longrightarrow> fetchNode g (node_T g n) = (g, Some n)"
  using wf_value_in_graph [of g n] wf_lookup [of g "node_T g n" n] by (simp add: fetchNode_found)

text \<open>A small graph: nodes 0, 1, 2 for the values 10, 20, 30 (the last one external), a self edge 3 on the
  first node and an edge 4 from the first to the third.\<close>

definition sample_dg :: "(nat, nat) dg" where
  "sample_dg = (let g3 = fst (addNode (fst (addNode (fst (addNode empty_dg 10 True)) 20 True)) 30 False)
     in case addEdge g3 10 10 of Inl f \<Rightarrow> g3
        | Inr (g4, e) \<Rightarrow> (case addEdge g4 10 30 of Inl f \<Rightarrow> g4 | Inr (g5, e) \<Rightarrow> g5))"

lemma sample_dg_eq:
  "sample_dg = \<lparr>nodeIdCounter = 3, allNodes = [0, 1, 2], allEdges = [3, 4], entryNode = None,
     internalNodeMap = [(10, Some 0), (20, Some 1)], externalNodeMap = [(30, Some 2)],
     nodeMem = (\<lambda>n. new_node 0 undefined)(0 := \<lparr>nodeID = 0, theT = 10, outgoingEdges = [3, 4], incomingEdges = [3]\<rparr>,
       1 := new_node 1 20, 2 := \<lparr>nodeID = 2, theT = 30, outgoingEdges = [], incomingEdges = [4]\<rparr>),
     edgeMem = (\<lambda>e. new_edge 0 0)(3 := new_edge 0 0, 4 := new_edge 0 2), nextPtr = 5\<rparr>"
  by (simp add: sample_dg_def addNode_def addEdge_def linkEdge_def fetchNode_def empty_dg_def Let_def
      uset_insert_def addIncomingEdge_def addOutgoingEdge_def new_node_def new_edge_def fun_eq_iff)

lemma sample_dg_steps: "dg_step\<^sup>*\<^sup>* empty_dg sample_dg"
proof -
  let ?g1 = "fst (addNode (empty_dg :: (nat, nat) dg) 10 True)"
  let ?g2 = "fst (addNode ?g1 20 True)"
  let ?g3 = "fst (addNode ?g2 30 False)"
  note defs = addNode_def addEdge_def linkEdge_def fetchNode_def empty_dg_def Let_def
    uset_insert_def addIncomingEdge_def addOutgoingEdge_def new_node_def new_edge_def
  have "dg_step empty_dg ?g1" "dg_step ?g1 ?g2" "dg_step ?g2 ?g3"
    by (rule step_addNode; simp add: defs isInGraph_def isInternal_def isExternal_def)+
  moreover obtain g4 e4 where 4: "addEdge ?g3 10 10 = Inr (g4, e4)" by (simp add: defs)
  moreover obtain g5 e5 where 5: "addEdge g4 10 30 = Inr (g5, e5)"
    using 4 by (auto simp: defs)
  moreover have "sample_dg = g5" using 4 5 by (simp add: sample_dg_def Let_def)
  ultimately show ?thesis
    by (metis (no_types, lifting) converse_rtranclp_into_rtranclp rtranclp.rtrancl_refl step_addEdge)
qed

lemma sample_dg_wf: "dg_wf sample_dg"
  using dg_history_wf [OF sample_dg_steps] by simp

section \<open>Properties\<close>



text \<open>Removing a node takes out of the graph exactly its value and the edges that touch it, self edges
  included, and leaves a consistent graph.\<close>

theorem removeNode_removes_exactly:
  assumes "dg_wf g" and "n \<in> set (allNodes g)"
  shows "dg_wf (removeNode n g) \<and>
    dg_values (removeNode n g) = dg_values g - {node_T g n} \<and>
    dg_arrows (removeNode n g) = {(s, t) \<in> dg_arrows g. s \<noteq> node_T g n \<and> t \<noteq> node_T g n}"
  using removeNode_wf [OF assms] removeNode_values [OF assms] by blast

lemma removeNode_removes_exactly_witness:
  "dg_wf sample_dg \<and> 0 \<in> set (allNodes sample_dg) \<and> dg_arrows (removeNode 0 sample_dg) = {}"
proof -
  have n: "0 \<in> set (allNodes sample_dg)" by (simp add: sample_dg_eq)
  have "dg_arrows sample_dg = {(10, 10), (10, 30)}"
    by (simp add: dg_arrows_def edge_pair_def sample_dg_eq new_edge_def new_node_def)
  then show ?thesis using removeNode_removes_exactly [OF sample_dg_wf n] n sample_dg_wf
    by (auto simp: sample_dg_eq)
qed

text \<open>Removing an edge. \<open>removeConnectedEdge\<close> erases the edge from one of the two sets of a node; called on
  both ends it erases it from both, also when the two ends are the same node.\<close>

theorem removeEdge_both_ends:
  assumes "dg_wf g" and "e \<in> set (allEdges g)"
  shows "dg_wf (removeEdge e g) \<and> set (allEdges (removeEdge e g)) = set (allEdges g) - {e} \<and>
    (\<forall>n \<in> set (allNodes g). set (out_edges (removeEdge e g) n) = set (out_edges g n) - {e} \<and>
       set (in_edges (removeEdge e g) n) = set (in_edges g n) - {e})"
proof -
  have ew: "edges_wf g" using assms(1) by (simp add: dg_wf_def)
  show ?thesis
    using removeEdge_wf [OF assms] removeEdge_effect(1-3) [OF assms] edges_wfD(7,8) [OF ew] by auto
qed

lemma removeEdge_both_ends_witness:
  "dg_wf sample_dg \<and> 3 \<in> set (allEdges sample_dg) \<and> edge_from sample_dg 3 = edge_to sample_dg 3 \<and>
   set (allEdges (removeEdge 3 sample_dg)) = {4}"
proof -
  have e: "3 \<in> set (allEdges sample_dg)" by (simp add: sample_dg_eq)
  show ?thesis using removeEdge_both_ends [OF sample_dg_wf e] e sample_dg_wf
    by (auto simp: sample_dg_eq new_edge_def)
qed

text \<open>C3: an edge that stands for a collection of sub-edges is loop carried as soon as one of them is, is
  removable only if all of them are (and there is at least one), carries the union of their remedies, and
  the copy constructor reproduces it, although it replays every \<open>addSubEdge\<close> on top of the copied fields.\<close>

theorem summary_edge_copied:
  "(let e = summary_edge sub mem mst t ctrl a b xs in
     copy_edge sub e = e \<and> set (subEdges e) = set xs \<and>
     (isLoopCarried e \<longleftrightarrow> (\<exists>s \<in> set xs. isLoopCarried (sub s))) \<and>
     (isRemovable e \<longleftrightarrow> xs \<noteq> [] \<and> (\<forall>s \<in> set xs. isRemovable (sub s))) \<and>
     remeds e = (let U = \<Union> {rs. \<exists>s \<in> set xs. remeds (sub s) = Some rs}
                 in if isRemovable e \<and> U \<noteq> {} then Some U else None))"
  unfolding Let_def copy_summary_edge
  by (auto simp: summary_edge_eq join_remedies_def sub_remedies_def)

lemma summary_edge_copied_witness:
  "let sub = (\<lambda>s. edge_attrs.make False True DG_DATA_RAW False (s = 1) (s < 2) (Some {s}));
       e = summary_edge sub True False DG_DATA_RAW False 7 8 [0, 1 :: nat, 0]
   in isRemovable e \<and> isLoopCarried e \<and> remeds e = Some {0, 1} \<and> copy_edge sub e = e"
proof -
  let ?sub = "\<lambda>s :: nat. edge_attrs.make False True DG_DATA_RAW False (s = 1) (s < 2) (Some {s})"
  have "\<Union> {rs. \<exists>s \<in> set [0, 1, 0]. remeds (?sub s) = Some rs} = {0, 1}"
    by (auto simp: edge_attrs.make_def)
  then show ?thesis
    using summary_edge_copied [of ?sub True False DG_DATA_RAW False 7 8 "[0, 1, 0]"]
    by (simp add: edge_attrs.make_def Let_def)
qed

text \<open>The breadth-first search over both edge directions returns, and what it returns is a partition of the
  nodes: no node is listed twice, every node is listed, and two nodes share a component exactly when an
  undirected path connects them.\<close>

theorem disconnected_subgraphs_partition:
  assumes "dg_wf g"
  shows "\<exists>comps. getDisconnectedSubgraphs g = Inr comps \<and> distinct (concat comps) \<and>
    set (concat comps) = set (allNodes g) \<and>
    (\<forall>c \<in> set comps. \<forall>n \<in> set c. set c = {m. (n, m) \<in> (node_arrows g \<union> (node_arrows g)\<inverse>)\<^sup>*})"
proof -
  obtain comps where c: "getDisconnectedSubgraphs g = Inr comps" "distinct (concat comps)"
    "set (concat comps) = set (allNodes g)"
    "\<And>c. c \<in> set comps \<Longrightarrow> \<exists>n \<in> set (allNodes g). set c = component_of g n"
    using getDisconnectedSubgraphs_correct [OF assms] by blast
  have "set c = component_of g n" if "c \<in> set comps" "n \<in> set c" for c n
    using c(4) [OF that(1)] that(2) component_of_sym component_of_trans by blast
  with c(1-3) show ?thesis by (auto simp: component_of_def)
qed

lemma disconnected_subgraphs_partition_witness:
  "dg_wf sample_dg \<and> (\<exists>comps. getDisconnectedSubgraphs sample_dg = Inr comps \<and> set (concat comps) = {0, 1, 2})"
  using disconnected_subgraphs_partition [OF sample_dg_wf] sample_dg_wf by (auto simp: sample_dg_eq)

text \<open>Leaves. The flag of \<open>getLeafNodes\<close> works the other way round from the one of \<open>getTopLevelNodes\<close>: with
  \<open>onlyInternal = true\<close> the leaves of the whole graph come back, external nodes among them, and with
  \<open>onlyInternal = false\<close> only the internal ones do.\<close>

theorem getLeafNodes_flag_inverted:
  assumes "dg_wf g"
  shows "\<exists>all_leaves internal_leaves. getLeafNodes g True = Inr all_leaves \<and>
    getLeafNodes g False = Inr internal_leaves \<and>
    set all_leaves = {n \<in> set (allNodes g). set (out_edges g n) \<subseteq> {e. edge_to g e = n}} \<and>
    set internal_leaves = {n \<in> set all_leaves. isInternal g (node_T g n)}"
  using getLeafNodes_correct [OF assms] by (auto simp: hasNoChildNode_def list_all_iff)

lemma getLeafNodes_flag_inverted_witness:
  "dg_wf sample_dg \<and> \<not> isInternal sample_dg 30 \<and>
   (\<exists>ns. getLeafNodes sample_dg True = Inr ns \<and> 2 \<in> set ns) \<and>
   (\<exists>ns. getLeafNodes sample_dg False = Inr ns \<and> 2 \<notin> set ns)"
  using getLeafNodes_flag_inverted [OF sample_dg_wf] sample_dg_wf
  by (auto simp: sample_dg_eq isInternal_def new_edge_def)

text \<open>A lookup of an absent value poisons the graph. \<open>fetchNode\<close> returns null and leaves a null entry behind;
  from then on the value counts as an external member, \<open>fetchOrAddNode\<close> returns null instead of adding a
  node, and \<open>addEdge\<close> dereferences null. The nodes and the edges themselves are untouched.\<close>

theorem absent_lookup_poisons:
  assumes "dg_wf g" and "\<not> isInGraph g t"
  shows "let g1 = fst (fetchNode g t) in snd (fetchNode g t) = None \<and> isExternal g1 t \<and>
     fetchOrAddNode g1 t True = (g1, None) \<and> addEdge g1 t t = Inl NullDeref \<and>
     allNodes g1 = allNodes g \<and> allEdges g1 = allEdges g \<and> dg_wf g1"
proof -
  obtain g1 where f: "fetchNode g t = (g1, None)" using fetchNode_absent [OF assms(2)] by simp
  note fw = fetchNode_wf [OF assms(1) f]
  have nt: "lookup_node g t = None" using assms(2) by (simp add: lookup_isInGraph)
  then have look: "lookup_node g1 t = Some None" using fw(10) [of t] by simp
  then have ig: "isInGraph g1 t" by (simp add: lookup_isInGraph)
  then have r: "fetchNode g1 t = (g1, None)" using look by (simp add: fetchNode_found)
  have "\<not> isInternal g1 t" using fw(7) assms(2) by (simp add: isInternal_def isInGraph_def)
  with ig have e: "isExternal g1 t" by (simp add: isInGraph_def)
  have "addEdge g1 t t = Inl NullDeref" by (simp add: addEdge_def linkEdge_def r Let_def)
  moreover have "fetchOrAddNode g1 t True = (g1, None)" by (simp add: fetchOrAddNode_def ig r)
  ultimately show ?thesis using f fw(1-3) e by (simp add: Let_def)
qed

lemma absent_lookup_poisons_witness:
  "dg_wf sample_dg \<and> \<not> isInGraph sample_dg 40 \<and> isExternal (fst (fetchNode sample_dg 40)) 40"
proof -
  have n: "\<not> isInGraph sample_dg 40" by (simp add: sample_dg_eq dg_defs)
  show ?thesis using absent_lookup_poisons [OF sample_dg_wf n] n sample_dg_wf by (simp add: Let_def)
qed

end
