(* ===== verification/DepGraphCopy.thy ===== *)
theory DepGraphCopy
  imports DepGraphQueries
begin

text \<open>
  Copying nodes and edges from one graph into another, the operation that PDGs, sub-PDGs, SCCs and merged
  SCCs are all built with. \<open>clean\<close> graphs hold no null entry; in a clean graph membership and being the value
  of a live node are the same. \<open>dg_facts\<close> is the multiset of edges with their attributes, so that a theorem
  about copies says which edges were copied, how often, and what they carry.
\<close>

definition clean :: "('v, 'r) dg \<Rightarrow> bool" where
  "clean g \<longleftrightarrow> dg_wf g \<and> (\<forall>t. lookup_node g t \<noteq> Some None)"

definition dg_facts :: "('v, 'r) dg \<Rightarrow> (('v \<times> 'v) \<times> 'r edge_attrs) multiset" where
  "dg_facts g = image_mset (\<lambda>e. (edge_pair g e, edge_attrs.truncate (edgeMem g e))) (mset (allEdges g))"

definition internal_values :: "('v, 'r) dg \<Rightarrow> 'v set" where
  "internal_values g = {t. isInternal g t}"

definition external_values :: "('v, 'r) dg \<Rightarrow> 'v set" where
  "external_values g = {t. isExternal g t}"

lemma clean_empty [simp]: "clean empty_dg"
  unfolding clean_def by (auto simp: lookup_node_def) (simp_all add: empty_dg_def)

lemma clean_wf: "clean g \<Longrightarrow> dg_wf g"
  by (simp add: clean_def)

lemma clean_member: "clean g \<Longrightarrow> isInGraph g t \<longleftrightarrow> t \<in> dg_values g"
proof
  assume c: "clean g" and "isInGraph g t"
  then obtain n where "lookup_node g t = Some (Some n)"
    unfolding lookup_isInGraph clean_def by (metis option.exhaust)
  then show "t \<in> dg_values g" using wf_lookup [OF clean_wf [OF c]] by (auto simp: dg_values_def)
next
  assume "clean g" "t \<in> dg_values g"
  then show "isInGraph g t" using wf_value_in_graph by (auto simp: dg_values_def dest: clean_wf)
qed

lemma clean_values: "clean g \<Longrightarrow> dg_values g = internal_values g \<union> external_values g"
  using clean_member [of g] by (auto simp: internal_values_def external_values_def isInGraph_def)

lemma clean_disjoint: "clean g \<Longrightarrow> internal_values g \<inter> external_values g = {}"
  by (auto simp: internal_values_def external_values_def clean_def dg_wf_def maps_wf_def)

lemma facts_arrows: "dg_arrows g = fst ` set_mset (dg_facts g)"
  by (simp add: dg_facts_def dg_arrows_def image_image)

lemma edge_pair_live:
  "dg_wf g \<Longrightarrow> e \<in> set (allEdges g) \<Longrightarrow> fst (edge_pair g e) \<in> dg_values g \<and> snd (edge_pair g e) \<in> dg_values g"
  using edges_wfD(5,6) [of g e] by (auto simp: dg_wf_def dg_values_def edge_pair_def)

section \<open>Adding nodes\<close>

lemma addNode_clean:
  assumes c: "clean g" and new: "t \<notin> dg_values g" and a: "addNode g t inclusion = (g', n)"
  shows "clean g'" "dg_values g' = insert t (dg_values g)" "dg_facts g' = dg_facts g"
    "internal_values g' = internal_values g \<union> (if inclusion then {t} else {})"
    "external_values g' = external_values g \<union> (if inclusion then {} else {t})"
    "length (allNodes g') = Suc (length (allNodes g))" "n \<in> set (allNodes g')" "node_T g' n = t"
proof -
  have ni: "\<not> isInGraph g t" using new clean_member [OF c] by simp
  note wf = clean_wf [OF c]
  note aw = addNode_wf [OF wf ni a]
  show "clean g'" using aw(1) aw(11) c by (auto simp: clean_def)
  show "dg_values g' = insert t (dg_values g)"
    using aw(2,4,5) by (auto simp: dg_values_def image_iff)
  have "edge_pair g' e = edge_pair g e" if "e \<in> set (allEdges g)" for e
    using aw(5,6) edges_wfD(5,6) [of g e] wf that by (auto simp: edge_pair_def dg_wf_def)
  then show "dg_facts g' = dg_facts g"
    unfolding dg_facts_def aw(3,6) by (intro image_mset_cong) simp
  show "internal_values g' = internal_values g \<union> (if inclusion then {t} else {})"
    "external_values g' = external_values g \<union> (if inclusion then {} else {t})"
    using aw(9,10) by (auto simp: internal_values_def external_values_def)
  show "length (allNodes g') = Suc (length (allNodes g))" "n \<in> set (allNodes g')" "node_T g' n = t"
    using aw(2,4) by simp_all
qed

definition addNodes :: "bool \<Rightarrow> 'v list \<Rightarrow> ('v, 'r) dg \<Rightarrow> ('v, 'r) dg" where
  "addNodes inclusion ts g = fold (\<lambda>t h. fst (addNode h t inclusion)) ts g"

lemma addNodes_clean:
  assumes "clean g" "distinct ts" "set ts \<inter> dg_values g = {}"
  shows "clean (addNodes inclusion ts g) \<and> dg_values (addNodes inclusion ts g) = set ts \<union> dg_values g \<and>
    dg_facts (addNodes inclusion ts g) = dg_facts g \<and>
    internal_values (addNodes inclusion ts g) = internal_values g \<union> (if inclusion then set ts else {}) \<and>
    external_values (addNodes inclusion ts g) = external_values g \<union> (if inclusion then {} else set ts) \<and>
    length (allNodes (addNodes inclusion ts g)) = length ts + length (allNodes g)"
  using assms
proof (induction ts arbitrary: g)
  case (Cons t ts)
  obtain h n where a: "addNode g t inclusion = (h, n)" by fastforce
  have t: "t \<notin> dg_values g" using Cons.prems by auto
  note ac = addNode_clean [OF Cons.prems(1) t a]
  have "addNodes inclusion (t # ts) g = addNodes inclusion ts h" by (simp add: addNodes_def a)
  with Cons.IH [OF ac(1)] Cons.prems(2,3) ac show ?case by auto
qed (simp add: addNodes_def)

lemma fetchOrAddNode_clean:
  assumes c: "clean g" and f: "fetchOrAddNode g t inclusion = (g', p)"
  shows "clean g'" "dg_values g' = insert t (dg_values g)" "dg_facts g' = dg_facts g"
    "internal_values g' = internal_values g \<union> (if inclusion \<and> t \<notin> dg_values g then {t} else {})"
    "external_values g' = external_values g \<union> (if \<not> inclusion \<and> t \<notin> dg_values g then {t} else {})"
proof -
  have "clean g' \<and> dg_values g' = insert t (dg_values g) \<and> dg_facts g' = dg_facts g \<and>
    internal_values g' = internal_values g \<union> (if inclusion \<and> t \<notin> dg_values g then {t} else {}) \<and>
    external_values g' = external_values g \<union> (if \<not> inclusion \<and> t \<notin> dg_values g then {t} else {})"
  proof (cases "t \<in> dg_values g")
    case True
    then have "isInGraph g t" using clean_member [OF c] by simp
    then have "g' = g" using f by (simp add: fetchOrAddNode_def fetchNode_found)
    with True c show ?thesis by auto
  next
    case False
    then have "\<not> isInGraph g t" using clean_member [OF c] by simp
    then obtain n where "addNode g t inclusion = (g', n)"
      using f by (auto simp: fetchOrAddNode_def split: prod.splits)
    from addNode_clean [OF c False this] False show ?thesis by auto
  qed
  then show "clean g'" "dg_values g' = insert t (dg_values g)" "dg_facts g' = dg_facts g"
    "internal_values g' = internal_values g \<union> (if inclusion \<and> t \<notin> dg_values g then {t} else {})"
    "external_values g' = external_values g \<union> (if \<not> inclusion \<and> t \<notin> dg_values g then {t} else {})"
    by blast+
qed

section \<open>Adding edges\<close>

lemma linkEdge_clean:
  assumes c: "clean g" and v: "f \<in> dg_values g" "t \<in> dg_values g"
  obtains g' e where "linkEdge g f t obj = Inr (g', e)" "clean g'" "dg_values g' = dg_values g"
    "dg_facts g' = dg_facts g + {#((f, t), edge_attrs.truncate obj)#}"
    "internalNodeMap g' = internalNodeMap g" "externalNodeMap g' = externalNodeMap g"
    "allNodes g' = allNodes g" "entryNode g' = entryNode g"
    "allEdges g' = allEdges g @ [e]" "edgeMem g' e = obj\<lparr>efrom := edge_from g' e, eto := edge_to g' e\<rparr>"
    "edge_pair g' e = (f, t)" "\<And>n. node_T g' n = node_T g n"
    "\<And>x. x \<in> set (allEdges g) \<Longrightarrow> edgeMem g' x = edgeMem g x"
proof -
  note wf = clean_wf [OF c]
  obtain a b where ab: "a \<in> set (allNodes g)" "node_T g a = f" "b \<in> set (allNodes g)" "node_T g b = t"
    "linkEdge g f t obj = Inr (link_at g a b obj, nextPtr g)"
    using linkEdge_cases [OF wf, of f t obj] v by auto
  let ?g = "link_at g a b obj" and ?e = "nextPtr g"
  have wf': "dg_wf ?g" and fresh: "?e \<notin> set (allEdges g)" using link_at_wf [OF wf ab(1,3)] by auto
  have "lookup_node ?g u = lookup_node g u" for u by (simp add: lookup_node_def split: option.splits)
  then have c': "clean ?g" using wf' c by (simp add: clean_def)
  have edges: "allEdges ?g = allEdges g @ [?e]" using fresh by (simp add: uset_insert_def)
  have old: "edgeMem ?g x = edgeMem g x" if "x \<in> set (allEdges g)" for x using that fresh by auto
  have p: "edge_pair ?g ?e = (f, t)" using ab by (simp add: edge_pair_def)
  have "edge_pair ?g x = edge_pair g x" if "x \<in> set (allEdges g)" for x
    using old [OF that] by (simp add: edge_pair_def)
  then have "image_mset (\<lambda>x. (edge_pair ?g x, edge_attrs.truncate (edgeMem ?g x))) (mset (allEdges g)) = dg_facts g"
    unfolding dg_facts_def using old by (intro image_mset_cong) auto
  moreover have "edge_attrs.truncate (edgeMem ?g ?e) = edge_attrs.truncate obj"
    by (simp add: edge_attrs.truncate_def)
  ultimately have "dg_facts ?g = dg_facts g + {#((f, t), edge_attrs.truncate obj)#}"
    using p by (simp add: dg_facts_def edges del: link_at_simps)
  moreover have "dg_values ?g = dg_values g" by (simp add: dg_values_def)
  ultimately show ?thesis using ab(5) c' edges old p by (intro that [of ?g ?e]) simp_all
qed

text \<open>Copying a list of edges whose ends are present.\<close>

definition copy_facts :: "(ptr \<Rightarrow> 'r edge_attrs) \<Rightarrow> ('v, 'r) dg \<Rightarrow> ptr list \<Rightarrow> (('v \<times> 'v) \<times> 'r edge_attrs) multiset" where
  "copy_facts sub src es =
     image_mset (\<lambda>e. (edge_pair src e, edge_attrs.truncate (copy_edge sub (edgeMem src e)))) (mset es)"

lemma copy_facts_simps [simp]:
  "copy_facts sub src [] = {#}"
  "copy_facts sub src (e # es) = copy_facts sub src es +
     {#(edge_pair src e, edge_attrs.truncate (copy_edge sub (edgeMem src e)))#}"
  "copy_facts sub src (es @ fs) = copy_facts sub src es + copy_facts sub src fs"
  by (simp_all add: copy_facts_def)

lemma copyAddEdge_clean:
  assumes c: "clean g" and v: "fst (edge_pair src x) \<in> dg_values g" "snd (edge_pair src x) \<in> dg_values g"
  obtains g' e where "copyAddEdge sub src g x = Inr (g', e)" "clean g'" "dg_values g' = dg_values g"
    "dg_facts g' = dg_facts g + copy_facts sub src [x]"
    "internalNodeMap g' = internalNodeMap g" "externalNodeMap g' = externalNodeMap g"
    "allNodes g' = allNodes g" "entryNode g' = entryNode g"
  by (rule linkEdge_clean [OF c v, where obj = "copy_edge sub (edgeMem src x)"])
    (auto simp: copyAddEdge_def edge_pair_def)

text \<open>Same nodes, and new edges.\<close>

definition grown :: "('v, 'r) dg \<Rightarrow> (('v \<times> 'v) \<times> 'r edge_attrs) multiset \<Rightarrow> ('v, 'r) dg \<Rightarrow> bool" where
  "grown g F g' \<longleftrightarrow> clean g' \<and> dg_facts g' = dg_facts g + F \<and> internalNodeMap g' = internalNodeMap g \<and>
     externalNodeMap g' = externalNodeMap g \<and> allNodes g' = allNodes g \<and> entryNode g' = entryNode g \<and>
     dg_values g' = dg_values g"

lemma grown_refl: "clean g \<Longrightarrow> grown g {#} g"
  by (simp add: grown_def)

lemma grown_trans: "grown g F h \<Longrightarrow> grown h G k \<Longrightarrow> grown g (F + G) k"
  by (simp add: grown_def add.assoc)

lemma grown_member [simp]:
  "grown g F h \<Longrightarrow> isInternal h t = isInternal g t" "grown g F h \<Longrightarrow> isExternal h t = isExternal g t"
  "grown g F h \<Longrightarrow> isInGraph h t = isInGraph g t"
  by (simp_all add: grown_def isInternal_def isExternal_def isInGraph_def)

lemma grown_values:
  assumes "grown g F h"
  shows "internal_values h = internal_values g" "external_values h = external_values g"
  using assms by (simp_all add: internal_values_def external_values_def)

definition copyEdges ::
  "(ptr \<Rightarrow> 'r edge_attrs) \<Rightarrow> ('v, 'r) dg \<Rightarrow> (('v, 'r) dg \<Rightarrow> ptr \<Rightarrow> bool) \<Rightarrow> ptr list \<Rightarrow> ('v, 'r) dg \<Rightarrow> ('v, 'r) dg res" where
  "copyEdges sub src want es g = foldE (\<lambda>e h. if want h e
     then andThen (copyAddEdge sub src h e) (\<lambda>(h1, _). Inr h1) else Inr h) es g"

lemma copyEdges_grown:
  assumes c: "clean g" and w: "\<And>h F e. grown g F h \<Longrightarrow> want h e = want g e"
    and v: "\<And>e. e \<in> set es \<Longrightarrow> want g e \<Longrightarrow>
      fst (edge_pair src e) \<in> dg_values g \<and> snd (edge_pair src e) \<in> dg_values g"
  shows "\<exists>g'. copyEdges sub src want es g = Inr g' \<and> grown g (copy_facts sub src (filter (want g) es)) g'"
proof -
  have "\<exists>g'. copyEdges sub src want es h = Inr g' \<and> grown g (F + copy_facts sub src (filter (want g) es)) g'"
    if "grown g F h" for F h
    using that v
  proof (induction es arbitrary: h F)
    case Nil
    then show ?case by (simp add: copyEdges_def)
  next
    case (Cons e es)
    show ?case
    proof (cases "want g e")
      case False
      then have "copyEdges sub src want (e # es) h = copyEdges sub src want es h"
        using w [OF Cons.prems(1)] by (simp add: copyEdges_def)
      with False Cons show ?thesis by auto
    next
      case True
      have "clean h" "dg_values h = dg_values g" using Cons.prems(1) by (simp_all add: grown_def)
      then obtain h1 x where h1: "copyAddEdge sub src h e = Inr (h1, x)" "grown h (copy_facts sub src [e]) h1"
        using Cons.prems(2) [of e] True
        by (elim copyAddEdge_clean [of h src e sub]) (auto simp: grown_def)
      have g1: "grown g (F + copy_facts sub src [e]) h1" using grown_trans [OF Cons.prems(1) h1(2)] .
      obtain g' where "copyEdges sub src want es h1 = Inr g'"
        "grown g (F + copy_facts sub src [e] + copy_facts sub src (filter (want g) es)) g'"
        using Cons.IH [OF g1] Cons.prems(2) by auto
      then show ?thesis using True w [OF Cons.prems(1)] h1(1)
        by (auto simp: copyEdges_def ac_simps)
    qed
  qed
  from this [OF grown_refl [OF c]] show ?thesis by simp
qed

end
