(* ===== verification/PDGraph.thy ===== *)
theory PDGraph
  imports DepGraphCopy "HOL-Library.Product_Lexorder"
begin

text \<open>
  \<open>src/src/core/pdg/src/PDG.cpp\<close>: the program dependence graph, a \<open>DG<Value>\<close> with one internal node per
  argument and instruction; sub-PDGs of a function, of a loop and of a list of values; the iterations over
  the dependences of a value. Of LLVM's \<open>Function\<close>, \<open>Module\<close> and \<open>Loop\<close> the code reads the arguments, the basic
  blocks and their instructions: the records below hold just these.
\<close>

section \<open>Construction\<close>

record 'v llvm_function =
  fn_isDeclaration :: bool
  fn_args :: "'v list"
  fn_blocks :: "'v list list"

type_synonym 'v llvm_module = "(string \<times> 'v llvm_function) list"

definition addNodesOf :: "'v llvm_function \<Rightarrow> ('v, 'r) dg \<Rightarrow> ('v, 'r) dg" where
  "addNodesOf F g = fold (addNodes True) (fn_blocks F) (addNodes True (fn_args F) g)"

text \<open>\<open>entryNode = internalNodeMap[...]\<close> followed by the assertion that it is not null.\<close>

definition set_internal_entry :: "'v \<Rightarrow> ('v, 'r) dg \<Rightarrow> ('v, 'r) dg res" where
  "set_internal_entry t g = (case map_of (internalNodeMap g) t of
     Some (Some n) \<Rightarrow> Inr (g\<lparr>entryNode := Some n\<rparr>) | _ \<Rightarrow> Inl AssertFailed)"

definition first_instruction :: "'v list list \<Rightarrow> 'v res" where
  "first_instruction blocks = (case blocks of (i # _) # _ \<Rightarrow> Inr i | _ \<Rightarrow> Inl NullDeref)"

definition setEntryPointAt :: "'v llvm_function \<Rightarrow> ('v, 'r) dg \<Rightarrow> ('v, 'r) dg res" where
  "setEntryPointAt F g = andThen (first_instruction (fn_blocks F)) (\<lambda>i. set_internal_entry i g)"

definition PDG_of_module :: "'v llvm_module \<Rightarrow> ('v, 'r) dg res" where
  "PDG_of_module M =
     (let g = fold (\<lambda>(name, F) h. if fn_isDeclaration F then h else addNodesOf F h) M empty_dg
      in case map_of M ''main'' of None \<Rightarrow> Inl AssertFailed
         | Some mainF \<Rightarrow> andThen (setEntryPointAt mainF g)
             (\<lambda>g1. check (list_all (\<lambda>e. \<not> isLoopCarried (edgeMem g1 e)) (allEdges g1)) AssertFailed (Inr g1)))"

definition PDG_of_function :: "'v llvm_function \<Rightarrow> ('v, 'r) dg res" where
  "PDG_of_function F = setEntryPointAt F (addNodesOf F empty_dg)"

definition PDG_of_loop :: "'v list list \<Rightarrow> ('v, 'r) dg res" where
  "PDG_of_loop blocks = andThen (first_instruction blocks)
     (\<lambda>i. set_internal_entry i (fold (addNodes True) blocks empty_dg))"

definition PDG_of_values :: "'v list \<Rightarrow> ('v, 'r) dg res" where
  "PDG_of_values values = (case values of [] \<Rightarrow> Inl NullDeref
     | v # _ \<Rightarrow> set_internal_entry v (addNodes True values empty_dg))"

section \<open>Subgraphs\<close>

definition copyEdgesInto_step ::
  "(ptr \<Rightarrow> 'r edge_attrs) \<Rightarrow> ('v, 'r) dg \<Rightarrow> bool \<Rightarrow> ptr list \<Rightarrow> ptr \<Rightarrow> ('v, 'r) dg \<Rightarrow> ('v, 'r) dg res" where
  "copyEdgesInto_step sub g linkToExternal edgesToIgnore oldEdge new =
     (if oldEdge \<in> set edgesToIgnore then Inr new
      else let fromT = node_T g (edge_from g oldEdge);
               toT = node_T g (edge_to g oldEdge);
               fromInclusion = isInternal new fromT;
               toInclusion = isInternal new toT
           in if \<not> fromInclusion \<and> \<not> toInclusion then Inr new
              else if \<not> linkToExternal \<and> (\<not> fromInclusion \<or> \<not> toInclusion) then Inr new
              else let (new1, newFromNode) = fetchOrAddNode new fromT fromInclusion;
                       (new2, newToNode) = fetchOrAddNode new1 toT toInclusion
                   in andThen (copyAddEdge sub g new2 oldEdge) (\<lambda>(new3, _). Inr new3))"

definition copyEdgesInto ::
  "(ptr \<Rightarrow> 'r edge_attrs) \<Rightarrow> ('v, 'r) dg \<Rightarrow> ('v, 'r) dg \<Rightarrow> bool \<Rightarrow> ptr list \<Rightarrow> ('v, 'r) dg res" where
  "copyEdgesInto sub g new linkToExternal edgesToIgnore =
     foldE (copyEdgesInto_step sub g linkToExternal edgesToIgnore) (allEdges g) new"

definition createFunctionSubgraph ::
  "(ptr \<Rightarrow> 'r edge_attrs) \<Rightarrow> ('v, 'r) dg \<Rightarrow> 'v llvm_function \<Rightarrow> ('v, 'r) dg option res" where
  "createFunctionSubgraph sub g F =
     (if fn_blocks F = [] then Inr None
      else andThen (PDG_of_function F) (\<lambda>functionPDG.
           andThen (copyEdgesInto sub g functionPDG True []) (\<lambda>h.
           check (list_all (\<lambda>e. \<not> isLoopCarried (edgeMem h e)) (allEdges h)) AssertFailed (Inr (Some h)))))"

definition createLoopsSubgraph ::
  "(ptr \<Rightarrow> 'r edge_attrs) \<Rightarrow> ('v, 'r) dg \<Rightarrow> 'v list list \<Rightarrow> ('v, 'r) dg res" where
  "createLoopsSubgraph sub g loop_blocks =
     andThen (PDG_of_loop loop_blocks) (\<lambda>loopsPDG. copyEdgesInto sub g loopsPDG True [])"

definition createSubgraphFromValues ::
  "(ptr \<Rightarrow> 'r edge_attrs) \<Rightarrow> ('v, 'r) dg \<Rightarrow> 'v list \<Rightarrow> bool \<Rightarrow> ptr list \<Rightarrow> ('v, 'r) dg option res" where
  "createSubgraphFromValues sub g valueList linkToExternal edgesToIgnore =
     (if valueList = [] then Inr None
      else andThen (PDG_of_values valueList) (\<lambda>newPDG.
           andThen (copyEdgesInto sub g newPDG linkToExternal edgesToIgnore) (\<lambda>h. Inr (Some h))))"

section \<open>Queries\<close>

definition getNumberOfInstructionsIncluded :: "('v, 'r) dg \<Rightarrow> nat" where
  "getNumberOfInstructionsIncluded g = numInternalNodes g"

definition getNumberOfDependencesBetweenInstructions :: "('v, 'r) dg \<Rightarrow> nat" where
  "getNumberOfDependencesBetweenInstructions g = numEdges g"

text \<open>The body of the loop over the edges of a node, for one edge: which callbacks happen.\<close>

definition dependence_step ::
  "('v, 'r) dg \<Rightarrow> bool \<Rightarrow> bool \<Rightarrow> bool \<Rightarrow> ('v \<Rightarrow> ptr \<Rightarrow> 's \<Rightarrow> (bool \<times> 's) res)
   \<Rightarrow> 'v \<times> ptr \<Rightarrow> 's \<Rightarrow> (bool \<times> 's) res" where
  "dependence_step g includeControl includeMemory includeRegister f = (\<lambda>(v, e) s.
     if includeControl \<and> isControl (edgeMem g e) then f v e s
     else if includeMemory \<and> memory (edgeMem g e) then f v e s
     else if includeRegister \<and> \<not> memory (edgeMem g e) \<and> \<not> isControl (edgeMem g e)
     then check (dataDepType (edgeMem g e) \<noteq> DG_DATA_NONE) AssertFailed (f v e s)
     else Inr (False, s))"

definition iterateOverDependencesFrom ::
  "('v, 'r) dg \<Rightarrow> 'v \<Rightarrow> bool \<Rightarrow> bool \<Rightarrow> bool \<Rightarrow> ('v \<Rightarrow> ptr \<Rightarrow> 's \<Rightarrow> (bool \<times> 's) res) \<Rightarrow> 's
   \<Rightarrow> (('v, 'r) dg \<times> bool \<times> 's) res" where
  "iterateOverDependencesFrom g from includeControl includeMemory includeRegister f s =
     (let (g1, pdgNode) = fetchNode g from
      in case pdgNode of None \<Rightarrow> Inr (g1, False, s)
         | Some n \<Rightarrow> andThen (iterate_until (dependence_step g1 includeControl includeMemory includeRegister f)
                       (map (\<lambda>e. (node_T g1 (edge_to g1 e), e)) (out_edges g1 n)) s)
                     (\<lambda>(stop, s'). Inr (g1, stop, s')))"

definition iterateOverDependencesTo ::
  "('v, 'r) dg \<Rightarrow> 'v \<Rightarrow> bool \<Rightarrow> bool \<Rightarrow> bool \<Rightarrow> ('v \<Rightarrow> ptr \<Rightarrow> 's \<Rightarrow> (bool \<times> 's) res) \<Rightarrow> 's
   \<Rightarrow> (('v, 'r) dg \<times> bool \<times> 's) res" where
  "iterateOverDependencesTo g toValue includeControl includeMemory includeRegister f s =
     (let (g1, pdgNode) = fetchNode g toValue
      in case pdgNode of None \<Rightarrow> Inr (g1, False, s)
         | Some n \<Rightarrow> andThen (iterate_until (dependence_step g1 includeControl includeMemory includeRegister f)
                       (map (\<lambda>e. (node_T g1 (edge_from g1 e), e)) (in_edges g1 n)) s)
                     (\<lambda>(stop, s'). Inr (g1, stop, s')))"

definition getSortedValues :: "('v, 'r) dg \<Rightarrow> 'v list" where
  "getSortedValues g = map (node_T g) (allNodes g)"

text \<open>\<open>std::sort\<close> with the comparison of (source, destination) addresses; edges that compare equal may come in
  any order in C++, here they keep the order of \<open>allEdges\<close>.\<close>

definition getSortedDependences :: "('v :: linorder, 'r) dg \<Rightarrow> ptr list" where
  "getSortedDependences g = sort_key (edge_pair g) (allEdges g)"

definition getDependences :: "('v, 'r) dg \<Rightarrow> 'v \<Rightarrow> 'v \<Rightarrow> ('v, 'r) dg \<times> ptr list" where
  "getDependences g From To =
     (let (g1, srcNode) = fetchNode g From; (g2, dstNode) = fetchNode g1 To
      in case (srcNode, dstNode) of (Some a, Some b) \<Rightarrow> (g2, fetchEdges g2 a b) | _ \<Rightarrow> (g2, []))"

section \<open>Fresh graphs\<close>

lemma fold_addNodes: "fold (addNodes incl) bs g = addNodes incl (concat bs) g"
  by (induction bs arbitrary: g) (simp_all add: addNodes_def)

lemma addNodesOf_eq: "addNodesOf F g = addNodes True (fn_args F @ concat (fn_blocks F)) g"
  by (simp add: addNodesOf_def fold_addNodes) (simp add: addNodes_def)

lemma values_empty [simp]:
  "dg_values empty_dg = {}" "internal_values empty_dg = {}" "external_values empty_dg = {}"
  "dg_facts empty_dg = {#}"
  by (simp_all add: dg_values_def internal_values_def external_values_def dg_facts_def empty_dg_def
      isInternal_def isExternal_def)

lemma set_internal_entry_clean:
  assumes c: "clean g" and t: "t \<in> internal_values g"
  shows "\<exists>h. set_internal_entry t g = Inr h \<and> clean h \<and> dg_values h = dg_values g \<and> dg_facts h = dg_facts g \<and>
    internal_values h = internal_values g \<and> external_values h = external_values g"
proof -
  obtain p where p: "map_of (internalNodeMap g) t = Some p" using t by (auto simp: internal_values_def isInternal_def)
  moreover have "p \<noteq> None" using c p unfolding clean_def dg_wf_def maps_wf_def by metis
  ultimately obtain n where "set_internal_entry t g = Inr (g\<lparr>entryNode := Some n\<rparr>)"
    by (auto simp: set_internal_entry_def)
  moreover {
  have "maps_wf (g\<lparr>entryNode := Some n\<rparr>) = maps_wf g" by (rule maps_wf_cong) auto
  moreover have "lookup_node (g\<lparr>entryNode := Some n\<rparr>) u = lookup_node g u" for u
    by (simp add: lookup_node_def split: option.splits)
  ultimately have "clean (g\<lparr>entryNode := Some n\<rparr>)"
    using c by (simp add: clean_def dg_wf_def edges_wf_def) }
  ultimately show ?thesis
    by (simp add: dg_values_def dg_facts_def edge_pair_def internal_values_def external_values_def
        isInternal_def isExternal_def)
qed

lemma addNodes_empty:
  fixes g :: "('v, 'r) dg"
  assumes "distinct ts" and g: "g = addNodes True ts empty_dg"
  shows "clean g" "dg_values g = set ts" "dg_facts g = {#}" "internal_values g = set ts" "external_values g = {}"
  using addNodes_clean [of "empty_dg :: ('v, 'r) dg" ts True] assms by simp_all

lemma PDG_of_values_clean:
  assumes "values \<noteq> []" "distinct values"
  obtains h :: "('v, 'r) dg" where "PDG_of_values values = Inr h" "clean h" "dg_facts h = {#}"
    "internal_values h = set values" "external_values h = {}"
proof -
  let ?g = "addNodes True values (empty_dg :: ('v, 'r) dg)"
  note ae = addNodes_empty [OF assms(2), of ?g, OF refl]
  have "PDG_of_values values = set_internal_entry (hd values) ?g"
    using assms(1) by (cases "values") (simp_all add: PDG_of_values_def)
  moreover have "hd values \<in> internal_values ?g" using assms(1) ae(4) by simp
  ultimately show ?thesis using set_internal_entry_clean [OF ae(1)] that ae by metis
qed

section \<open>Copying the edges of a subgraph\<close>

definition selected_edge :: "('v, 'r) dg \<Rightarrow> bool \<Rightarrow> ptr list \<Rightarrow> 'v set \<Rightarrow> ptr \<Rightarrow> bool" where
  "selected_edge g linkToExternal edgesToIgnore I e \<longleftrightarrow> e \<notin> set edgesToIgnore \<and>
     (let f = fst (edge_pair g e) \<in> I; t = snd (edge_pair g e) \<in> I
      in if linkToExternal then f \<or> t else f \<and> t)"

definition end_values :: "('v, 'r) dg \<Rightarrow> ptr \<Rightarrow> 'v set" where
  "end_values g e = {fst (edge_pair g e), snd (edge_pair g e)}"

lemma copyEdgesInto_step_ok:
  assumes c: "clean h"
  shows "\<exists>h'. copyEdgesInto_step sub g link ign e h = Inr h' \<and> clean h' \<and>
    internal_values h' = internal_values h \<and>
    (if selected_edge g link ign (internal_values h) e
     then dg_facts h' = dg_facts h + copy_facts sub g [e] \<and>
       external_values h' = external_values h \<union> (end_values g e - internal_values h)
     else dg_facts h' = dg_facts h \<and> external_values h' = external_values h)"
proof (cases "selected_edge g link ign (internal_values h) e")
  case False
  then have "copyEdgesInto_step sub g link ign e h = Inr h"
    by (auto simp: copyEdgesInto_step_def selected_edge_def internal_values_def edge_pair_def Let_def
        split: if_splits)
  with False c show ?thesis by simp
next
  case True
  let ?f = "fst (edge_pair g e)" and ?t = "snd (edge_pair g e)"
  obtain h1 p1 where h1: "fetchOrAddNode h ?f (isInternal h ?f) = (h1, p1)" by fastforce
  note w1 = fetchOrAddNode_clean [OF c h1]
  obtain h2 p2 where h2: "fetchOrAddNode h1 ?t (isInternal h ?t) = (h2, p2)" by fastforce
  note w2 = fetchOrAddNode_clean [OF w1(1) h2]
  have "?f \<in> dg_values h2" "?t \<in> dg_values h2" using w1(2) w2(2) by auto
  then obtain h' x where h': "copyAddEdge sub g h2 e = Inr (h', x)" "clean h'"
    "dg_facts h' = dg_facts h2 + copy_facts sub g [e]" "internalNodeMap h' = internalNodeMap h2"
    "externalNodeMap h' = externalNodeMap h2"
    using copyAddEdge_clean [OF w2(1), of g e sub] by metis
  have "copyEdgesInto_step sub g link ign e h = Inr h'"
    using True h1 h2 h'(1)
    by (auto simp: copyEdgesInto_step_def selected_edge_def internal_values_def edge_pair_def Let_def
        split: if_splits)
  moreover have "internal_values h' = internal_values h2" "external_values h' = external_values h2"
    using h' by (simp_all add: internal_values_def external_values_def isInternal_def isExternal_def)
  moreover have "isInternal h u \<longleftrightarrow> u \<in> internal_values h" for u by (simp add: internal_values_def)
  moreover have "internal_values h2 = internal_values h"
    "external_values h2 = external_values h \<union> (end_values g e - internal_values h)"
    using w1(2,4,5) w2(4,5) clean_values [OF c]
    by (auto simp: internal_values_def [symmetric] end_values_def calculation(4) split: if_splits)
  ultimately show ?thesis using True h' w1(3) w2(3) by simp
qed

lemma copyEdgesInto_correct:
  assumes c: "clean h"
  shows "\<exists>h'. copyEdgesInto sub g h link ign = Inr h' \<and> clean h' \<and> internal_values h' = internal_values h \<and>
    dg_facts h' = dg_facts h + copy_facts sub g (filter (selected_edge g link ign (internal_values h)) (allEdges g)) \<and>
    external_values h' = external_values h \<union>
      (\<Union>e \<in> {e \<in> set (allEdges g). selected_edge g link ign (internal_values h) e}. end_values g e) - internal_values h"
proof -
  let ?I = "internal_values h"
  have "\<exists>h'. foldE (copyEdgesInto_step sub g link ign) es k = Inr h' \<and> clean h' \<and> internal_values h' = ?I \<and>
      dg_facts h' = dg_facts k + copy_facts sub g (filter (selected_edge g link ign ?I) es) \<and>
      external_values h' = external_values k \<union>
        (\<Union>e \<in> {e \<in> set es. selected_edge g link ign ?I e}. end_values g e) - ?I"
    if "clean k" "internal_values k = ?I" for es k
    using that
  proof (induction es arbitrary: k)
    case Nil
    then show ?case using clean_disjoint [of k] by auto
  next
    case (Cons e es)
    obtain k1 where k1: "copyEdgesInto_step sub g link ign e k = Inr k1" "clean k1" "internal_values k1 = ?I"
      "if selected_edge g link ign ?I e
       then dg_facts k1 = dg_facts k + copy_facts sub g [e] \<and> external_values k1 = external_values k \<union> (end_values g e - ?I)
       else dg_facts k1 = dg_facts k \<and> external_values k1 = external_values k"
      using copyEdgesInto_step_ok [OF Cons.prems(1), of sub g link ign e] unfolding Cons.prems(2) by auto
    obtain h' where h': "foldE (copyEdgesInto_step sub g link ign) es k1 = Inr h'" "clean h'" "internal_values h' = ?I"
      "dg_facts h' = dg_facts k1 + copy_facts sub g (filter (selected_edge g link ign ?I) es)"
      "external_values h' = external_values k1 \<union>
        (\<Union>e \<in> {e \<in> set es. selected_edge g link ign ?I e}. end_values g e) - ?I"
      using Cons.IH [OF k1(2,3)] by blast
    have d: "external_values k \<inter> ?I = {}" using clean_disjoint [OF Cons.prems(1)] Cons.prems(2) by auto
    have f: "foldE (copyEdgesInto_step sub g link ign) (e # es) k = Inr h'" using k1(1) h'(1) by simp
    have S: "{x \<in> set (e # es). selected_edge g link ign ?I x} = {x \<in> set es. selected_edge g link ign ?I x} \<union>
        (if selected_edge g link ign ?I e then {e} else {})" by auto
    show ?case
    proof (cases "selected_edge g link ign ?I e")
      case True
      then show ?thesis unfolding S using f h' k1(4) d by (intro exI [of _ h'] conjI) auto
    next
      case False
      then show ?thesis unfolding S using f h' k1(4) d by (intro exI [of _ h'] conjI) auto
    qed
  qed
  from this [OF c refl] show ?thesis by (simp add: copyEdgesInto_def)
qed

lemma createSubgraphFromValues_correct:
  assumes "distinct vs" "vs \<noteq> []"
  shows "\<exists>h. createSubgraphFromValues sub g vs link ign = Inr (Some h) \<and> clean h \<and> internal_values h = set vs \<and>
    dg_facts h = copy_facts sub g (filter (selected_edge g link ign (set vs)) (allEdges g)) \<and>
    external_values h =
      (\<Union>e \<in> {e \<in> set (allEdges g). selected_edge g link ign (set vs) e}. end_values g e) - set vs"
proof -
  obtain k :: "('a, 'b) dg" where k: "PDG_of_values vs = Inr k" "clean k" "dg_facts k = {#}"
    "internal_values k = set vs" "external_values k = {}"
    using PDG_of_values_clean [OF assms(2,1)] by metis
  from copyEdgesInto_correct [OF k(2), of sub g link ign] k assms(2)
  show ?thesis by (auto simp: createSubgraphFromValues_def)
qed

text \<open>An edge without sub-edges whose removable flag agrees with its remedies is copied as it is.\<close>

lemma copy_plain_edge:
  assumes "subEdges x = []" "remeds x \<noteq> None \<Longrightarrow> isRemovable x"
  shows "edge_attrs.truncate (copy_edge sub x) = edge_attrs.truncate x"
  using assms
  by (cases "remeds x") (simp_all add: copy_edge_def Let_def setRemedies_def setMemMustType_def new_edge_def
      edge_attrs.truncate_def)

section \<open>Which dependences the iterations visit\<close>

definition wanted_dependence :: "('v, 'r) dg \<Rightarrow> bool \<Rightarrow> bool \<Rightarrow> bool \<Rightarrow> ptr \<Rightarrow> bool" where
  "wanted_dependence g includeControl includeMemory includeRegister e \<longleftrightarrow>
     includeControl \<and> isControl (edgeMem g e) \<or> includeMemory \<and> memory (edgeMem g e) \<or>
     includeRegister \<and> \<not> memory (edgeMem g e) \<and> \<not> isControl (edgeMem g e)"

lemma iterate_dependences:
  assumes "\<And>e. e \<in> set es \<Longrightarrow> \<not> memory (edgeMem g e) \<Longrightarrow> \<not> isControl (edgeMem g e) \<Longrightarrow>
      dataDepType (edgeMem g e) \<noteq> DG_DATA_NONE"
  shows "iterate_until (dependence_step g c m r f) (map (\<lambda>e. (v e, e)) es) s =
     iterate_until (\<lambda>(v, e). f v e) (map (\<lambda>e. (v e, e)) (filter (wanted_dependence g c m r) es)) s"
proof -
  have "iterate_until (dependence_step g c m r f) (map (\<lambda>e. (v e, e)) es) s =
      iterate_until (\<lambda>x s. case x of (v, e) \<Rightarrow> f v e s) (filter (\<lambda>x. case x of (v, e) \<Rightarrow> wanted_dependence g c m r e) (map (\<lambda>e. (v e, e)) es)) s"
  proof (rule iterate_until_skip)
    fix x s assume "x \<in> set (map (\<lambda>e. (v e, e)) es)"
    then obtain e where "x = (v e, e)" "e \<in> set es" by auto
    then show "dependence_step g c m r f x s =
        (if case x of (v, e) \<Rightarrow> wanted_dependence g c m r e then case x of (v, e) \<Rightarrow> f v e s else Inr (False, s))"
      using assms [of e] by (cases "isControl (edgeMem g e)"; cases "memory (edgeMem g e)")
        (simp_all add: dependence_step_def wanted_dependence_def)
  qed
  moreover have "(\<lambda>x s. case x of (v, e) \<Rightarrow> f v e s) = (\<lambda>(v, e). f v e)" by auto
  ultimately show ?thesis by (simp add: filter_map comp_def)
qed

lemma iterateOverDependencesFrom_live:
  assumes "dg_wf g" "n \<in> set (allNodes g)"
    and "\<And>e. e \<in> set (out_edges g n) \<Longrightarrow> \<not> memory (edgeMem g e) \<Longrightarrow> \<not> isControl (edgeMem g e) \<Longrightarrow>
      dataDepType (edgeMem g e) \<noteq> DG_DATA_NONE"
  shows "iterateOverDependencesFrom g (node_T g n) c m r f s =
     andThen (iterate_until (\<lambda>(v, e). f v e) (map (\<lambda>e. (node_T g (edge_to g e), e))
        (filter (wanted_dependence g c m r) (out_edges g n))) s) (\<lambda>(stop, s'). Inr (g, stop, s'))"
  by (simp add: iterateOverDependencesFrom_def fetchNode_live [OF assms(1,2)] iterate_dependences [OF assms(3)])

lemma iterateOverDependencesTo_live:
  assumes "dg_wf g" "n \<in> set (allNodes g)"
    and "\<And>e. e \<in> set (in_edges g n) \<Longrightarrow> \<not> memory (edgeMem g e) \<Longrightarrow> \<not> isControl (edgeMem g e) \<Longrightarrow>
      dataDepType (edgeMem g e) \<noteq> DG_DATA_NONE"
  shows "iterateOverDependencesTo g (node_T g n) c m r f s =
     andThen (iterate_until (\<lambda>(v, e). f v e) (map (\<lambda>e. (node_T g (edge_from g e), e))
        (filter (wanted_dependence g c m r) (in_edges g n))) s) (\<lambda>(stop, s'). Inr (g, stop, s'))"
  by (simp add: iterateOverDependencesTo_def fetchNode_live [OF assms(1,2)] iterate_dependences [OF assms(3)])

lemma getDependences_live:
  assumes "dg_wf g" "a \<in> set (allNodes g)" "b \<in> set (allNodes g)"
  shows "fst (getDependences g (node_T g a) (node_T g b)) = g \<and>
    set (snd (getDependences g (node_T g a) (node_T g b))) =
      {e \<in> set (allEdges g). edge_pair g e = (node_T g a, node_T g b)}"
proof -
  have "set (out_edges g a) = {e \<in> set (allEdges g). edge_from g e = a}"
    using assms(1,2) edges_wfD(7) [of g a] by (simp add: dg_wf_def)
  moreover have "(edge_pair g e = (node_T g a, node_T g b)) = (edge_from g e = a \<and> edge_to g e = b)"
    if "e \<in> set (allEdges g)" for e
    using edges_wfD(5,6) [of g e] that assms(1) wf_node_inj [OF assms(1)] assms(2,3)
    by (auto simp: edge_pair_def dg_wf_def)
  ultimately show ?thesis
    by (auto simp: getDependences_def fetchNode_live [OF assms(1)] assms fetchEdges_def)
qed

section \<open>Properties\<close>

text \<open>The sub-PDG of a list of values. It has exactly the listed values as internal nodes; it holds one copy,
  attributes included, of every edge that is not ignored and that touches a listed value (with links to the
  outside) or connects two of them (without); the values at the far ends, and nothing else, are external.
  No step fails, and the graph is consistent.\<close>

theorem subgraph_from_values:
  assumes "distinct vs" and "vs \<noteq> []"
  shows "\<exists>h. createSubgraphFromValues sub g vs link ign = Inr (Some h) \<and> dg_wf h \<and>
    {t. isInternal h t} = set vs \<and>
    dg_facts h = image_mset (\<lambda>e. (edge_pair g e, edge_attrs.truncate (copy_edge sub (edgeMem g e))))
      (mset (filter (\<lambda>e. e \<notin> set ign \<and>
         (let f = fst (edge_pair g e) \<in> set vs; t = snd (edge_pair g e) \<in> set vs
          in if link then f \<or> t else f \<and> t)) (allEdges g))) \<and>
    {t. isExternal h t} \<subseteq> (\<Union>e \<in> set (allEdges g). {fst (edge_pair g e), snd (edge_pair g e)}) - set vs \<and>
    (\<not> link \<longrightarrow> {t. isExternal h t} = {})"
proof -
  obtain h where h: "createSubgraphFromValues sub g vs link ign = Inr (Some h)" "clean h" "internal_values h = set vs"
    "dg_facts h = copy_facts sub g (filter (selected_edge g link ign (set vs)) (allEdges g))"
    "external_values h =
      (\<Union>e \<in> {e \<in> set (allEdges g). selected_edge g link ign (set vs) e}. end_values g e) - set vs"
    using createSubgraphFromValues_correct [OF assms, of sub g link ign] by blast
  have "external_values h \<subseteq> (\<Union>e \<in> set (allEdges g). {fst (edge_pair g e), snd (edge_pair g e)}) - set vs"
    unfolding h(5) end_values_def by blast
  moreover have "external_values h = {}" if "\<not> link"
    using that unfolding h(5) end_values_def selected_edge_def Let_def by auto
  ultimately show ?thesis
    using h(1-4) clean_wf [OF h(2)]
    by (intro exI [of _ h]) (simp add: internal_values_def external_values_def copy_facts_def selected_edge_def [abs_def])
qed

lemma subgraph_from_values_witness:
  "\<exists>h. createSubgraphFromValues (\<lambda>_. undefined) sample_dg [10, 20] False [] = Inr (Some h) \<and>
     {t. isInternal h t} = {10, 20} \<and> {t. isExternal h t} = {}"
proof -
  have "distinct [10, 20 :: nat]" "[10, 20 :: nat] \<noteq> []" by simp_all
  from subgraph_from_values [OF this, of "\<lambda>_. undefined" sample_dg False "[]"] show ?thesis by auto
qed

text \<open>Iterating over the dependences of a value calls the callback once per edge of its node, with the value
  at the other end, for exactly the edges whose kind is asked for, and stops at the first call that says so;
  the only assertion, that a register dependence has a type, is the hypothesis.\<close>

theorem dependences_visited:
  assumes "dg_wf g" and "n \<in> set (allNodes g)"
    and "\<forall>e \<in> set (allEdges g). memory (edgeMem g e) \<or> isControl (edgeMem g e) \<or>
      dataDepType (edgeMem g e) \<noteq> DG_DATA_NONE"
  shows "iterateOverDependencesFrom g (node_T g n) c m r f s =
     andThen (iterate_until (\<lambda>(v, e). f v e)
        (map (\<lambda>e. (node_T g (edge_to g e), e)) (filter (wanted_dependence g c m r) (out_edges g n))) s)
        (\<lambda>(stop, s'). Inr (g, stop, s')) \<and>
   iterateOverDependencesTo g (node_T g n) c m r f s =
     andThen (iterate_until (\<lambda>(v, e). f v e)
        (map (\<lambda>e. (node_T g (edge_from g e), e)) (filter (wanted_dependence g c m r) (in_edges g n))) s)
        (\<lambda>(stop, s'). Inr (g, stop, s'))"
proof -
  have ew: "edges_wf g" using assms(1) by (simp add: dg_wf_def)
  note sets = edges_wfD(7,8) [OF ew assms(2)]
  show ?thesis
    by (intro conjI iterateOverDependencesFrom_live iterateOverDependencesTo_live)
      (use assms sets in auto)
qed

text \<open>The sample graph with typed edges: a read-after-write self edge and a control edge.\<close>

definition typed_dg :: "(nat, nat) dg" where
  "typed_dg = sample_dg\<lparr>edgeMem := (edgeMem sample_dg)
     (3 := setEdgeAttributes False True ''RAW'' False False False (edgeMem sample_dg 3),
      4 := setEdgeAttributes False False ''NONE'' True False False (edgeMem sample_dg 4))\<rparr>"

lemma typed_dg_wf: "dg_wf typed_dg"
proof -
  let ?x = "setEdgeAttributes False True ''RAW'' False False False (edgeMem sample_dg 3)"
  let ?y = "setEdgeAttributes False False ''NONE'' True False False (edgeMem sample_dg 4)"
  let ?g = "sample_dg\<lparr>edgeMem := (edgeMem sample_dg)(3 := ?x)\<rparr>"
  have "dg_wf ?g" by (rule update_edge_wf [OF sample_dg_wf]) simp_all
  from update_edge_wf [OF this, of ?y 4] show ?thesis
    by (simp add: typed_dg_def)
qed

lemma typed_dg_parts:
  "allNodes typed_dg = [0, 1, 2]" "allEdges typed_dg = [3, 4]" "node_T typed_dg 0 = 10" "node_T typed_dg 2 = 30"
  "out_edges typed_dg 0 = [3, 4]" "edge_to typed_dg 3 = 0" "edge_to typed_dg 4 = 2"
  "isControl (edgeMem typed_dg 3) = False" "isControl (edgeMem typed_dg 4) = True"
  "memory (edgeMem typed_dg 3) = False" "memory (edgeMem typed_dg 4) = False"
  "dataDepType (edgeMem typed_dg 3) = DG_DATA_RAW"
  by (simp_all add: typed_dg_def sample_dg_eq setEdgeAttributes_def setMemMustType_def stringToDataDep_def
      new_edge_def)

lemma dependences_visited_witness:
  "iterateOverDependencesFrom typed_dg 10 False False True (\<lambda>v e. logging (v, e)) [] =
     Inr (typed_dg, False, [(10, 3)])"
proof -
  have n: "0 \<in> set (allNodes typed_dg)" by (simp add: typed_dg_parts)
  have e: "\<forall>e \<in> set (allEdges typed_dg). memory (edgeMem typed_dg e) \<or> isControl (edgeMem typed_dg e) \<or>
      dataDepType (edgeMem typed_dg e) \<noteq> DG_DATA_NONE" by (simp add: typed_dg_parts)
  have l: "(\<lambda>(v, e). logging (v, e)) = logging" by auto
  show ?thesis
    using dependences_visited [OF typed_dg_wf n e, of False False True "\<lambda>v e. logging (v, e)" "[]"]
    by (simp add: typed_dg_parts wanted_dependence_def l logging_def)
qed

end
