(* ===== verification/SccGraph.thy ===== *)
theory SccGraph
  imports PDGraph "HOL-Library.Sublist"
begin

text \<open>
  \<open>src/src/core/pdg/src/SCC.cpp\<close>: a strongly connected component is itself a \<open>DG<Value>\<close>: its members are the
  internal nodes, the values they exchange dependences with are the external ones.

  The constructor takes node pointers that may live in several graphs (merging SCCs collects the nodes of all
  of them), so a node reference is a pair of the graph that owns the node, an index into the graph memory
  \<open>mem\<close>, and the address in that graph.
\<close>

type_synonym noderef = "nat \<times> ptr"

definition ref_T :: "(nat \<Rightarrow> ('v, 'r) dg) \<Rightarrow> noderef \<Rightarrow> 'v" where
  "ref_T mem x = node_T (mem (fst x)) (snd x)"

definition ref_out :: "(nat \<Rightarrow> ('v, 'r) dg) \<Rightarrow> noderef \<Rightarrow> ptr list" where
  "ref_out mem x = out_edges (mem (fst x)) (snd x)"

definition ref_in :: "(nat \<Rightarrow> ('v, 'r) dg) \<Rightarrow> noderef \<Rightarrow> ptr list" where
  "ref_in mem x = in_edges (mem (fst x)) (snd x)"

abbreviation to_T :: "('v, 'r) dg \<Rightarrow> ptr \<Rightarrow> 'v" where
  "to_T g e \<equiv> node_T g (edge_to g e)"

abbreviation from_T :: "('v, 'r) dg \<Rightarrow> ptr \<Rightarrow> 'v" where
  "from_T g e \<equiv> node_T g (edge_from g e)"

section \<open>Construction\<close>

definition copyNodesAndEdges ::
  "(ptr \<Rightarrow> 'r edge_attrs) \<Rightarrow> (nat \<Rightarrow> ('v, 'r) dg) \<Rightarrow> noderef list \<Rightarrow> noderef list \<Rightarrow> ('v, 'r) dg \<Rightarrow> ('v, 'r) dg res" where
  "copyNodesAndEdges sub mem internalNodes externalNodes g0 =
     (let g1 = fold (\<lambda>x h. fst (addNode h (ref_T mem x) True)) internalNodes g0;
          g2 = fold (\<lambda>x h. fst (addNode h (ref_T mem x) False)) externalNodes g1
      in case allNodes g2 of [] \<Rightarrow> Inl NullDeref
         | entry # _ \<Rightarrow>
           andThen (foldE (\<lambda>x. copyEdges sub (mem (fst x))
                        (\<lambda>h e. \<not> isExternal h (to_T (mem (fst x)) e)) (ref_out mem x))
                      internalNodes (g2\<lparr>entryNode := Some entry\<rparr>))
             (foldE (\<lambda>x h. andThen
                  (copyEdges sub (mem (fst x)) (\<lambda>h e. \<not> isInternal h (to_T (mem (fst x)) e)) (ref_out mem x) h)
                  (copyEdges sub (mem (fst x)) (\<lambda>h e. \<not> isInternal h (from_T (mem (fst x)) e)) (ref_in mem x)))
                internalNodes))"

definition scc_externals :: "(nat \<Rightarrow> ('v, 'r) dg) \<Rightarrow> noderef list \<Rightarrow> noderef list" where
  "scc_externals mem internalNodes =
     (let internalValues = uset_insert_all (map (ref_T mem) internalNodes) []
      in fold (\<lambda>x exs.
           let g = mem (fst x);
               exs1 = fold (\<lambda>e acc. if to_T g e \<notin> set internalValues
                                    then uset_insert (fst x, edge_to g e) acc else acc) (ref_out mem x) exs
           in fold (\<lambda>e acc. if from_T g e \<notin> set internalValues
                            then uset_insert (fst x, edge_from g e) acc else acc) (ref_in mem x) exs1)
         internalNodes [])"

definition SCC_of_nodes ::
  "(ptr \<Rightarrow> 'r edge_attrs) \<Rightarrow> (nat \<Rightarrow> ('v, 'r) dg) \<Rightarrow> noderef list \<Rightarrow> ('v, 'r) dg res" where
  "SCC_of_nodes sub mem internalNodes =
     copyNodesAndEdges sub mem internalNodes (scc_externals mem internalNodes) empty_dg"

definition SCC_of_classified_nodes ::
  "(ptr \<Rightarrow> 'r edge_attrs) \<Rightarrow> (nat \<Rightarrow> ('v, 'r) dg) \<Rightarrow> noderef list \<Rightarrow> noderef list \<Rightarrow> ('v, 'r) dg res" where
  "SCC_of_classified_nodes sub mem internalNodes externalNodes =
     copyNodesAndEdges sub mem internalNodes externalNodes empty_dg"

definition scc_numberOfInstructions :: "('v, 'r) dg \<Rightarrow> nat" where
  "scc_numberOfInstructions g = numInternalNodes g"

section \<open>Cycle detection\<close>

text \<open>The body of the search: the nodes seen in this search, the nodes checked in any search, the queue.
  \<open>None\<close> means that the method has returned true.\<close>

type_synonym cycle_state = "ptr list \<times> ptr list \<times> ptr list"

fun hasCycle_edges :: "('v, 'r) dg \<Rightarrow> bool \<Rightarrow> ptr list \<Rightarrow> cycle_state \<Rightarrow> cycle_state option" where
  "hasCycle_edges g ignoreControlDep [] st = Some st"
| "hasCycle_edges g ignoreControlDep (e # es) (seen, checked, todo) =
     (if ignoreControlDep \<and> isControl (edgeMem g e) then hasCycle_edges g ignoreControlDep es (seen, checked, todo)
      else let other = edge_to g e
           in if other \<in> set seen then None
              else if other \<in> set checked then hasCycle_edges g ignoreControlDep es (seen, checked, todo)
              else hasCycle_edges g ignoreControlDep es
                     (seen @ [other], checked @ [other], todo @ [other]))"

definition hasCycle_visit :: "('v, 'r) dg \<Rightarrow> bool \<Rightarrow> cycle_state option \<Rightarrow> cycle_state option" where
  "hasCycle_visit g ignoreControlDep st = (case st of
     Some (seen, checked, n # todo) \<Rightarrow> hasCycle_edges g ignoreControlDep (out_edges g n) (seen, checked, todo)
   | _ \<Rightarrow> st)"

definition hasCycle_search :: "('v, 'r) dg \<Rightarrow> bool \<Rightarrow> ptr \<Rightarrow> ptr list \<Rightarrow> ptr list option res" where
  "hasCycle_search g ignoreControlDep n nodesChecked =
     andThen (whileE (\<lambda>st. case st of None \<Rightarrow> False | Some (_, _, todo) \<Rightarrow> todo \<noteq> [])
                (\<lambda>st. Inr (hasCycle_visit g ignoreControlDep st)) (Some ([n], nodesChecked @ [n], [n])))
       (\<lambda>st. Inr (case st of None \<Rightarrow> None | Some (_, checked, _) \<Rightarrow> Some checked))"

fun hasCycle_nodes :: "('v, 'r) dg \<Rightarrow> bool \<Rightarrow> ptr option list \<Rightarrow> ptr list \<Rightarrow> bool res" where
  "hasCycle_nodes g ignoreControlDep [] nodesChecked = Inr False"
| "hasCycle_nodes g ignoreControlDep (None # ns) nodesChecked = Inl NullDeref"
| "hasCycle_nodes g ignoreControlDep (Some n # ns) nodesChecked =
     (if n \<in> set nodesChecked then hasCycle_nodes g ignoreControlDep ns nodesChecked
      else andThen (hasCycle_search g ignoreControlDep n nodesChecked)
        (\<lambda>r. case r of None \<Rightarrow> Inr True
              | Some checked \<Rightarrow> hasCycle_nodes g ignoreControlDep ns checked))"

definition hasCycle :: "('v, 'r) dg \<Rightarrow> bool \<Rightarrow> bool res" where
  "hasCycle g ignoreControlDep = hasCycle_nodes g ignoreControlDep (map snd (internalNodeMap g)) []"

section \<open>Iterators\<close>

text \<open>\<open>dyn_cast<Instruction>\<close> is LLVM's: the parameter \<open>asInst\<close>.\<close>

definition scc_iterateOverInstructions ::
  "('v \<Rightarrow> 'i option) \<Rightarrow> ('v, 'r) dg \<Rightarrow> ('i \<Rightarrow> 's \<Rightarrow> (bool \<times> 's) res) \<Rightarrow> 's \<Rightarrow> (bool \<times> 's) res" where
  "scc_iterateOverInstructions asInst g f =
     iterate_until (\<lambda>v s. case asInst v of None \<Rightarrow> Inr (False, s) | Some i \<Rightarrow> f i s) (map fst (internalNodeMap g))"

definition scc_iterateOverAllInstructions ::
  "('v \<Rightarrow> 'i option) \<Rightarrow> ('v, 'r) dg \<Rightarrow> ('i \<Rightarrow> 's \<Rightarrow> (bool \<times> 's) res) \<Rightarrow> 's \<Rightarrow> (bool \<times> 's) res" where
  "scc_iterateOverAllInstructions asInst g f =
     iterate_until (\<lambda>v s. case asInst v of None \<Rightarrow> Inr (False, s) | Some i \<Rightarrow> f i s) (map (node_T g) (allNodes g))"

definition scc_iterateOverValues ::
  "('v, 'r) dg \<Rightarrow> ('v \<Rightarrow> 's \<Rightarrow> (bool \<times> 's) res) \<Rightarrow> 's \<Rightarrow> (bool \<times> 's) res" where
  "scc_iterateOverValues g f = iterate_until f (map fst (internalNodeMap g))"

definition scc_iterateOverAllValues ::
  "('v, 'r) dg \<Rightarrow> ('v \<Rightarrow> 's \<Rightarrow> (bool \<times> 's) res) \<Rightarrow> 's \<Rightarrow> (bool \<times> 's) res" where
  "scc_iterateOverAllValues g f = iterate_until f (map (node_T g) (allNodes g))"

section \<open>The constructor is right on the nodes of one graph\<close>

lemma foldE_grown:
  assumes step: "\<And>x h F. x \<in> set xs \<Longrightarrow> grown g F h \<Longrightarrow> \<exists>h'. f x h = Inr h' \<and> grown g (F + D x) h'"
    and h: "grown g F h"
  shows "\<exists>h'. foldE f xs h = Inr h' \<and> grown g (F + sum_list (map D xs)) h'"
  using step h
proof (induction xs arbitrary: h F)
  case (Cons x xs)
  from Cons.prems(1) [OF _ Cons.prems(2), of x] obtain h1 where
    h1: "f x h = Inr h1" "grown g (F + D x) h1" by auto
  obtain h' where "foldE f xs h1 = Inr h'" "grown g (F + D x + sum_list (map D xs)) h'"
    using Cons.IH [OF _ h1(2)] Cons.prems(1) by (metis list.set_intros(2))
  with h1 show ?case by (simp add: add.assoc)
qed simp

lemma sum_copy_facts: "sum_list (map (\<lambda>x. copy_facts sub g (L x)) xs) = copy_facts sub g (concat (map L xs))"
  by (induction xs) simp_all

lemma fold_cond_insert:
  "set (fold (\<lambda>e acc. if P e then uset_insert (f e) acc else acc) es acc) = set acc \<union> f ` {e \<in> set es. P e}"
  "distinct acc \<Longrightarrow> distinct (fold (\<lambda>e acc. if P e then uset_insert (f e) acc else acc) es acc)"
  by (induction es arbitrary: acc) auto

lemma set_scc_externals:
  "distinct (scc_externals mem ns) \<and> set (scc_externals mem ns) =
     {(c, m). \<exists>n. (c, n) \<in> set ns \<and> node_T (mem c) m \<notin> ref_T mem ` set ns \<and>
        (m \<in> edge_to (mem c) ` set (out_edges (mem c) n) \<or> m \<in> edge_from (mem c) ` set (in_edges (mem c) n))}"
proof -
  let ?I = "ref_T mem ` set ns"
  let ?f = "\<lambda>x exs. let g = mem (fst x);
       exs1 = fold (\<lambda>e acc. if to_T g e \<notin> ?I then uset_insert (fst x, edge_to g e) acc else acc) (ref_out mem x) exs
     in fold (\<lambda>e acc. if from_T g e \<notin> ?I then uset_insert (fst x, edge_from g e) acc else acc) (ref_in mem x) exs1"
  have "(distinct acc \<longrightarrow> distinct (fold ?f xs acc)) \<and> set (fold ?f xs acc) = set acc \<union>
     {(c, m). \<exists>n. (c, n) \<in> set xs \<and> node_T (mem c) m \<notin> ?I \<and>
        (m \<in> edge_to (mem c) ` set (out_edges (mem c) n) \<or> m \<in> edge_from (mem c) ` set (in_edges (mem c) n))}"
    for xs acc
  proof (induction xs arbitrary: acc)
    case (Cons x xs)
    obtain c n where x: "x = (c, n)" by (cases x)
    have s: "set (?f x acc) = set acc \<union> {(c', m). c' = c \<and> node_T (mem c) m \<notin> ?I \<and>
        (m \<in> edge_to (mem c) ` set (out_edges (mem c) n) \<or> m \<in> edge_from (mem c) ` set (in_edges (mem c) n))}"
      "distinct acc \<Longrightarrow> distinct (?f x acc)"
      by (auto simp: Let_def fold_cond_insert x ref_out_def ref_in_def)
    show ?case using Cons.IH [of "?f x acc"] s unfolding fold_simps x by auto
  qed simp
  from this [of "[]" ns] show ?thesis by (simp add: scc_externals_def)
qed

lemma fold_addNode_map: "fold (\<lambda>x h. fst (addNode h (f x) incl)) xs g = addNodes incl (map f xs) g"
  by (induction xs arbitrary: g) (simp_all add: addNodes_def)

text \<open>The internal and the external nodes of one graph have pairwise different values, so adding them gives a
  clean graph that holds just these values.\<close>

definition scc_nodes :: "('v, 'r) dg \<Rightarrow> ptr list \<Rightarrow> bool" where
  "scc_nodes g ns \<longleftrightarrow> dg_wf g \<and> set ns \<subseteq> set (allNodes g) \<and> distinct ns \<and> ns \<noteq> []"

lemma scc_nodesD:
  assumes "scc_nodes g ns"
  shows "dg_wf g" "set ns \<subseteq> set (allNodes g)" "distinct ns" "ns \<noteq> []"
  using assms by (simp_all add: scc_nodes_def)

definition scc_refs :: "nat \<Rightarrow> ptr list \<Rightarrow> noderef list" where
  "scc_refs c ns = map (Pair c) ns"

abbreviation ivals :: "('v, 'r) dg \<Rightarrow> ptr list \<Rightarrow> 'v set" where
  "ivals g ns \<equiv> node_T g ` set ns"

definition nbrs :: "('v, 'r) dg \<Rightarrow> ptr list \<Rightarrow> 'v set" where
  "nbrs g ns = {t. \<exists>s \<in> ivals g ns. (s, t) \<in> dg_arrows g \<or> (t, s) \<in> dg_arrows g} - ivals g ns"

lemma value_in_I: "scc_nodes g ns \<Longrightarrow> m \<in> set (allNodes g) \<Longrightarrow> node_T g m \<in> ivals g ns \<longleftrightarrow> m \<in> set ns"
  using wf_node_inj [of g] scc_nodesD(1,2) [of g ns] by blast

lemma edge_ends:
  assumes "dg_wf g" "e \<in> set (allEdges g)"
  shows "edge_from g e \<in> set (allNodes g)" "edge_to g e \<in> set (allNodes g)"
  using assms edges_wfD(5,6) by (auto simp: dg_wf_def)

lemma incidence:
  assumes "scc_nodes g ns" "n \<in> set ns"
  shows "set (out_edges g n) = {e \<in> set (allEdges g). edge_from g e = n}"
    "set (in_edges g n) = {e \<in> set (allEdges g). edge_to g e = n}"
    "distinct (out_edges g n)" "distinct (in_edges g n)"
  using assms(2) scc_nodesD(1,2) [OF assms(1)] edges_wfD(7-10) [of g n] by (auto simp: dg_wf_def)

lemma externals_values:
  assumes W: "scc_nodes g ns" and G: "mem c = g"
  shows "distinct (map (ref_T mem) (scc_externals mem (scc_refs c ns)))"
  "set (map (ref_T mem) (scc_externals mem (scc_refs c ns))) = nbrs g ns"
proof -
  note wf = scc_nodesD(1) [OF W] and live = scc_nodesD(2) [OF W] and dist = scc_nodesD(3) [OF W]
    and ne = scc_nodesD(4) [OF W]
  let ?X = "scc_externals mem (scc_refs c ns)"
  have I: "ref_T mem ` set (scc_refs c ns) = ivals g ns" by (simp add: ref_T_def image_image scc_refs_def G)
  have X: "distinct ?X" "set ?X = {(k, m). k = c \<and> node_T g m \<notin> ivals g ns \<and> (\<exists>n \<in> set ns.
      (m \<in> edge_to g ` set (out_edges g n) \<or> m \<in> edge_from g ` set (in_edges g n)))}"
    using set_scc_externals [of mem "scc_refs c ns"] unfolding I by (auto simp: G scc_refs_def) blast+
  have lx: "m \<in> set (allNodes g) \<and> k = c" if "(k, m) \<in> set ?X" for k m
    using that edge_ends [OF wf] incidence(1,2) [OF W] unfolding X(2) by blast
  have "inj_on (ref_T mem) (set ?X)"
  proof (rule inj_onI)
    fix x y assume xy: "x \<in> set ?X" "y \<in> set ?X" "ref_T mem x = ref_T mem y"
    obtain k m l p where "x = (k, m)" "y = (l, p)" by (cases x; cases y)
    with xy lx [of k m] lx [of l p] wf_node_inj [OF wf, of m p] show "x = y" by (auto simp: ref_T_def G)
  qed
  with X(1) show "distinct (map (ref_T mem) ?X)" by (simp add: distinct_map)
  show "set (map (ref_T mem) ?X) = nbrs g ns"
  proof (rule set_eqI)
    fix t
    have "t \<in> set (map (ref_T mem) ?X) \<longleftrightarrow> (\<exists>m. t = node_T g m \<and> t \<notin> ivals g ns \<and> (\<exists>n \<in> set ns.
        \<exists>e \<in> set (allEdges g). edge_from g e = n \<and> edge_to g e = m \<or> edge_to g e = n \<and> edge_from g e = m))"
    proof -
      have touch: "(m \<in> edge_to g ` set (out_edges g n) \<or> m \<in> edge_from g ` set (in_edges g n)) \<longleftrightarrow>
          (\<exists>e \<in> set (allEdges g). edge_from g e = n \<and> edge_to g e = m \<or> edge_to g e = n \<and> edge_from g e = m)"
        if "n \<in> set ns" for n m
        unfolding incidence(1,2) [OF W that] by auto
      have B: "(\<exists>n \<in> set ns. m \<in> edge_to g ` set (out_edges g n) \<or> m \<in> edge_from g ` set (in_edges g n)) \<longleftrightarrow>
          (\<exists>n \<in> set ns. \<exists>e \<in> set (allEdges g). edge_from g e = n \<and> edge_to g e = m \<or> edge_to g e = n \<and> edge_from g e = m)" for m
        by (rule bex_cong [OF refl]) (rule touch)
      define Q where "Q m \<longleftrightarrow> (\<exists>n \<in> set ns. \<exists>e \<in> set (allEdges g).
          edge_from g e = n \<and> edge_to g e = m \<or> edge_to g e = n \<and> edge_from g e = m)" for m
      have A: "(k, m) \<in> set ?X \<longleftrightarrow> k = c \<and> node_T g m \<notin> ivals g ns \<and> (\<exists>n \<in> set ns. \<exists>e \<in> set (allEdges g).
          edge_from g e = n \<and> edge_to g e = m \<or> edge_to g e = n \<and> edge_from g e = m)" for k m
        by (simp only: X(2) mem_Collect_eq prod.case B)
      have M: "t \<in> set (map (ref_T mem) ?X) \<longleftrightarrow> (\<exists>k m. (k, m) \<in> set ?X \<and> t = node_T (mem k) m)"
        by (force simp: ref_T_def)
      show ?thesis unfolding M A Q_def [symmetric] using G by auto
    qed
    also have "\<dots> \<longleftrightarrow> t \<in> nbrs g ns"
    proof
      assume "\<exists>m. t = node_T g m \<and> t \<notin> ivals g ns \<and> (\<exists>n \<in> set ns.
        \<exists>e \<in> set (allEdges g). edge_from g e = n \<and> edge_to g e = m \<or> edge_to g e = n \<and> edge_from g e = m)"
      then obtain n e where ne: "n \<in> set ns" "t \<notin> ivals g ns" "e \<in> set (allEdges g)"
        "edge_pair g e = (node_T g n, t) \<or> edge_pair g e = (t, node_T g n)"
        by (auto simp: edge_pair_def)
      then have "(node_T g n, t) \<in> dg_arrows g \<or> (t, node_T g n) \<in> dg_arrows g"
        unfolding dg_arrows_def by (metis image_eqI)
      with ne(1,2) show "t \<in> nbrs g ns" by (auto simp: nbrs_def)
    next
      assume "t \<in> nbrs g ns"
      then obtain s where s: "s \<in> ivals g ns" "t \<notin> ivals g ns" "(s, t) \<in> dg_arrows g \<or> (t, s) \<in> dg_arrows g"
        unfolding nbrs_def by blast
      then obtain e where "e \<in> set (allEdges g)" "edge_pair g e = (s, t) \<or> edge_pair g e = (t, s)"
        unfolding dg_arrows_def by auto
      with s have "e \<in> set (allEdges g)" "t \<notin> ivals g ns"
        "from_T g e \<in> ivals g ns \<and> to_T g e = t \<or> to_T g e \<in> ivals g ns \<and> from_T g e = t"
        by (auto simp: edge_pair_def)
      then show "\<exists>m. t = node_T g m \<and> t \<notin> ivals g ns \<and> (\<exists>n \<in> set ns.
        \<exists>e \<in> set (allEdges g). edge_from g e = n \<and> edge_to g e = m \<or> edge_to g e = n \<and> edge_from g e = m)"
        using edge_ends [OF wf, of e] value_in_I [OF W] by blast
    qed
    finally show "t \<in> set (map (ref_T mem) ?X) \<longleftrightarrow> t \<in> nbrs g ns" .
  qed
qed

definition scc_base :: "(nat \<Rightarrow> ('v, 'r) dg) \<Rightarrow> nat \<Rightarrow> ptr list \<Rightarrow> ('v, 'r) dg" where
  "scc_base mem c ns = addNodes False (map (ref_T mem) (scc_externals mem (scc_refs c ns)))
     (addNodes True (map (ref_T mem) (scc_refs c ns)) empty_dg)"

lemma base_clean:
  fixes mem :: "nat \<Rightarrow> ('v, 'r) dg"
  assumes W: "scc_nodes g ns" and G: "mem c = g"
  shows "clean (scc_base mem c ns)" "dg_facts (scc_base mem c ns) = {#}"
    "internal_values (scc_base mem c ns) = ivals g ns" "external_values (scc_base mem c ns) = nbrs g ns"
  "allNodes (scc_base mem c ns) \<noteq> []" "dg_values (scc_base mem c ns) = ivals g ns \<union> nbrs g ns"
proof -
  note wf = scc_nodesD(1) [OF W] and live = scc_nodesD(2) [OF W] and dist = scc_nodesD(3) [OF W]
    and ne = scc_nodesD(4) [OF W]
  have I: "set (map (ref_T mem) (scc_refs c ns)) = ivals g ns" by (simp add: ref_T_def image_image scc_refs_def G)
  have d: "distinct (map (ref_T mem) (scc_refs c ns))"
    using dist live wf_node_inj [OF wf] by (auto simp: distinct_map inj_on_def ref_T_def scc_refs_def G)
  let ?g1 = "addNodes True (map (ref_T mem) (scc_refs c ns)) (empty_dg :: ('v, 'r) dg)"
  note a = addNodes_empty [OF d, of ?g1, OF refl]
  have "set (map (ref_T mem) (scc_externals mem (scc_refs c ns))) \<inter> dg_values ?g1 = {}"
    unfolding externals_values [of g ns mem c, OF W G] a(2) I by (auto simp: nbrs_def)
  note b = addNodes_clean [OF a(1) externals_values(1) [of g ns mem c, OF W G] this, of False]
  show "clean (scc_base mem c ns)" "dg_facts (scc_base mem c ns) = {#}"
    "internal_values (scc_base mem c ns) = ivals g ns" "external_values (scc_base mem c ns) = nbrs g ns"
    using a b unfolding scc_base_def externals_values [of g ns mem c, OF W G] I by auto
  then show v: "dg_values (scc_base mem c ns) = ivals g ns \<union> nbrs g ns" using clean_values by metis
  show "allNodes (scc_base mem c ns) \<noteq> []" using v ne by (auto simp: dg_values_def)
qed

lemma entry_base:
  assumes W: "scc_nodes g ns" and G: "mem c = g"
  shows "clean ((scc_base mem c ns)\<lparr>entryNode := x\<rparr>)" "dg_facts ((scc_base mem c ns)\<lparr>entryNode := x\<rparr>) = {#}"
  "isInternal ((scc_base mem c ns)\<lparr>entryNode := x\<rparr>) t \<longleftrightarrow> t \<in> ivals g ns" "isExternal ((scc_base mem c ns)\<lparr>entryNode := x\<rparr>) t \<longleftrightarrow> t \<in> nbrs g ns"
  "dg_values ((scc_base mem c ns)\<lparr>entryNode := x\<rparr>) = ivals g ns \<union> nbrs g ns"
proof -
  note wf = scc_nodesD(1) [OF W] and live = scc_nodesD(2) [OF W] and dist = scc_nodesD(3) [OF W]
    and ne = scc_nodesD(4) [OF W]
  note bc = base_clean [of g ns mem c, OF W G]
  let ?b = "(scc_base mem c ns)\<lparr>entryNode := x\<rparr>"
  have "maps_wf ?b = maps_wf (scc_base mem c ns)" by (rule maps_wf_cong) auto
  moreover have "lookup_node ?b u = lookup_node (scc_base mem c ns) u" for u by (simp add: lookup_node_def split: option.splits)
  ultimately show "clean ?b" using bc(1) by (simp add: clean_def dg_wf_def edges_wf_def)
  show "dg_facts ?b = {#}" using bc(2) by (simp add: dg_facts_def edge_pair_def)
  have "isInternal ?b t = isInternal (scc_base mem c ns) t" "isExternal ?b t = isExternal (scc_base mem c ns) t"
    by (simp_all add: isInternal_def isExternal_def)
  then show "isInternal ?b t \<longleftrightarrow> t \<in> ivals g ns" "isExternal ?b t \<longleftrightarrow> t \<in> nbrs g ns"
    using bc(3,4) by (auto simp: internal_values_def external_values_def)
  show "dg_values ?b = ivals g ns \<union> nbrs g ns" using bc(6) by (simp add: dg_values_def)
qed

lemma ends_known:
  assumes W: "scc_nodes g ns" and "n \<in> set ns" "e \<in> set (out_edges g n) \<union> set (in_edges g n)"
  shows "from_T g e \<in> ivals g ns \<union> nbrs g ns" "to_T g e \<in> ivals g ns \<union> nbrs g ns"
    "e \<in> set (out_edges g n) \<Longrightarrow> from_T g e \<in> ivals g ns" "e \<in> set (in_edges g n) \<Longrightarrow> to_T g e \<in> ivals g ns"
  using assms(2,3) incidence(1,2) [OF W assms(2)] by (auto simp: nbrs_def dg_arrows_def edge_pair_def image_iff)

text \<open>The three groups of edges that the loops copy.\<close>

definition inside :: "('v, 'r) dg \<Rightarrow> ptr list \<Rightarrow> ptr \<Rightarrow> ptr list" where
  "inside g ns n = filter (\<lambda>e. to_T g e \<notin> nbrs g ns) (out_edges g n)"

definition crossing :: "('v, 'r) dg \<Rightarrow> ptr list \<Rightarrow> ptr \<Rightarrow> ptr list" where
  "crossing g ns n = filter (\<lambda>e. to_T g e \<notin> ivals g ns) (out_edges g n) @ filter (\<lambda>e. from_T g e \<notin> ivals g ns) (in_edges g n)"

lemma inside_iff: "scc_nodes g ns \<Longrightarrow> n \<in> set ns \<Longrightarrow> e \<in> set (inside g ns n) \<longleftrightarrow> e \<in> set (out_edges g n) \<and> to_T g e \<in> ivals g ns"
  using ends_known(2) [of g ns n e] by (auto simp: inside_def nbrs_def)

lemma groups_mset:
  assumes W: "scc_nodes g ns"
  shows "mset (concat (map (inside g ns) ns) @ concat (map (crossing g ns) ns)) =
     mset (filter (\<lambda>e. from_T g e \<in> ivals g ns \<or> to_T g e \<in> ivals g ns) (allEdges g))"
proof (rule set_eq_iff_mset_eq_distinct [THEN iffD1])
  note wf = scc_nodesD(1) [OF W] and live = scc_nodesD(2) [OF W] and dist = scc_nodesD(3) [OF W]
    and ne = scc_nodesD(4) [OF W]
  have inc: "e \<in> set (out_edges g n) \<longleftrightarrow> e \<in> set (allEdges g) \<and> edge_from g e = n"
    "e \<in> set (in_edges g n) \<longleftrightarrow> e \<in> set (allEdges g) \<and> edge_to g e = n" if "n \<in> set ns" for e n
    using incidence(1,2) [OF W that] by auto
  have val: "from_T g e \<in> ivals g ns \<longleftrightarrow> edge_from g e \<in> set ns" "to_T g e \<in> ivals g ns \<longleftrightarrow> edge_to g e \<in> set ns"
    if "e \<in> set (allEdges g)" for e using edge_ends [OF wf that] value_in_I [OF W] by auto
  have ins: "e \<in> set (inside g ns n) \<longleftrightarrow> e \<in> set (allEdges g) \<and> edge_from g e = n \<and> edge_to g e \<in> set ns"
    if "n \<in> set ns" for e n
    using inside_iff [OF W that, of e] inc(1) [OF that, of e] val(2) [of e] by blast
  have crs: "e \<in> set (crossing g ns n) \<longleftrightarrow> e \<in> set (allEdges g) \<and>
      (edge_from g e = n \<and> edge_to g e \<notin> set ns \<or> edge_to g e = n \<and> edge_from g e \<notin> set ns)"
    if "n \<in> set ns" for e n
    unfolding crossing_def set_append set_filter
    using inc [OF that, of e] val [of e] by blast
  have di: "distinct (inside g ns n)" "distinct (crossing g ns n)" if "n \<in> set ns" for n
    using incidence(3,4) [OF W that] inc [OF that] val that by (auto simp: inside_def crossing_def)
  have "distinct (concat (map (inside g ns) ns))"
    by (rule distinct_concat_map [OF dist]) (auto simp: di ins)
  moreover have "distinct (concat (map (crossing g ns) ns))"
    by (rule distinct_concat_map [OF dist]) (auto simp: di crs)
  moreover have "set (concat (map (inside g ns) ns)) \<inter> set (concat (map (crossing g ns) ns)) = {}"
    using ins crs by fastforce
  ultimately show "distinct (concat (map (inside g ns) ns) @ concat (map (crossing g ns) ns))" by simp
  show "distinct (filter (\<lambda>e. from_T g e \<in> ivals g ns \<or> to_T g e \<in> ivals g ns) (allEdges g))"
    using wf by (simp add: dg_wf_def edges_wf_def)
  show "set (concat (map (inside g ns) ns) @ concat (map (crossing g ns) ns)) =
      set (filter (\<lambda>e. from_T g e \<in> ivals g ns \<or> to_T g e \<in> ivals g ns) (allEdges g))"
  proof (rule set_eqI)
    fix e
    have "e \<in> set (concat (map (inside g ns) ns) @ concat (map (crossing g ns) ns)) \<longleftrightarrow>
        (\<exists>n \<in> set ns. e \<in> set (inside g ns n) \<or> e \<in> set (crossing g ns n))" by auto
    also have "\<dots> \<longleftrightarrow> (\<exists>n \<in> set ns. e \<in> set (allEdges g) \<and> (edge_from g e = n \<and> edge_to g e \<in> set ns \<or>
        edge_from g e = n \<and> edge_to g e \<notin> set ns \<or> edge_to g e = n \<and> edge_from g e \<notin> set ns))"
      by (rule bex_cong [OF refl]) (simp add: ins crs, blast)
    also have "\<dots> \<longleftrightarrow> e \<in> set (allEdges g) \<and> (edge_from g e \<in> set ns \<or> edge_to g e \<in> set ns)"
      by blast
    also have "\<dots> \<longleftrightarrow> e \<in> set (filter (\<lambda>e. from_T g e \<in> ivals g ns \<or> to_T g e \<in> ivals g ns) (allEdges g))"
      unfolding set_filter mem_Collect_eq using val [of e] by blast
    finally show "e \<in> set (concat (map (inside g ns) ns) @ concat (map (crossing g ns) ns)) \<longleftrightarrow>
      e \<in> set (filter (\<lambda>e. from_T g e \<in> ivals g ns \<or> to_T g e \<in> ivals g ns) (allEdges g))" .
  qed
qed

lemma SCC_of_nodes_correct:
  assumes W: "scc_nodes g ns" and G: "mem c = g"
  shows "\<exists>h. SCC_of_nodes sub mem (scc_refs c ns) = Inr h \<and> clean h \<and> internal_values h = ivals g ns \<and>
    external_values h = nbrs g ns \<and>
    dg_facts h = copy_facts sub g (filter (\<lambda>e. from_T g e \<in> ivals g ns \<or> to_T g e \<in> ivals g ns) (allEdges g))"
proof -
  let ?refs = "scc_refs c ns"
  obtain m0 ms where m0: "allNodes (scc_base mem c ns) = m0 # ms"
    using base_clean(5) [OF W, of mem c, OF G] by (cases "allNodes (scc_base mem c ns)") auto
  let ?b = "(scc_base mem c ns)\<lparr>entryNode := Some m0\<rparr>"
  note eb = entry_base [OF W, of mem c, OF G, of "Some m0"]
  have refs: "fst x = c \<and> snd x \<in> set ns" if "x \<in> set ?refs" for x using that by (auto simp: scc_refs_def)
  have known: "from_T g e \<in> dg_values h" "to_T g e \<in> dg_values h"
    if "grown ?b F h" "x \<in> set ?refs" "e \<in> set (ref_out mem x) \<union> set (ref_in mem x)" for F h x e
    using ends_known(1,2) [OF W, of "snd x" e] refs [OF that(2)] that(1,3) eb(5) G
    by (auto simp: grown_def ref_out_def ref_in_def)
  have step: "\<exists>h'. copyEdges sub (mem (fst x)) want es h = Inr h' \<and>
      grown ?b (F + copy_facts sub g (filter (want ?b) es)) h'"
    if h: "grown ?b F h" and x: "x \<in> set ?refs" and es: "set es \<subseteq> set (ref_out mem x) \<union> set (ref_in mem x)"
      and w: "\<And>h h' F e. grown h F h' \<Longrightarrow> want h' e = want h e" for h F x es want
  proof -
    have c: "clean h" using h by (simp add: grown_def)
    have m: "mem (fst x) = g" using refs [OF x] G by simp
    have v: "fst (edge_pair g e) \<in> dg_values h \<and> snd (edge_pair g e) \<in> dg_values h" if "e \<in> set es" for e
      using known [OF h x] that es by (auto simp: edge_pair_def)
    have "\<exists>h'. copyEdges sub g want es h = Inr h' \<and> grown h (copy_facts sub g (filter (want h) es)) h'"
      by (rule copyEdges_grown [OF c]) (use w v in auto)
    then obtain h' where
      "copyEdges sub g want es h = Inr h'" "grown h (copy_facts sub g (filter (want h) es)) h'" by blast
    moreover have "want h = want ?b" using w [OF h] by auto
    ultimately show ?thesis using grown_trans [OF h] m by auto
  qed
  have "\<exists>h. foldE (\<lambda>x. copyEdges sub (mem (fst x)) (\<lambda>h e. \<not> isExternal h (to_T (mem (fst x)) e)) (ref_out mem x)) ?refs ?b = Inr h \<and>
      grown ?b ({#} + sum_list (map (\<lambda>x. copy_facts sub g (inside g ns (snd x))) ?refs)) h"
  proof (rule foldE_grown)
    fix x h F assume x: "x \<in> set ?refs" and h: "grown ?b F h"
    have "filter (\<lambda>e. \<not> isExternal ?b (to_T (mem (fst x)) e)) (ref_out mem x) = inside g ns (snd x)"
      unfolding eb(4) inside_def ref_out_def using refs [OF x] G by simp
    with step [OF h x, of "ref_out mem x" "\<lambda>h e. \<not> isExternal h (to_T (mem (fst x)) e)"]
    show "\<exists>h'. copyEdges sub (mem (fst x)) (\<lambda>h e. \<not> isExternal h (to_T (mem (fst x)) e)) (ref_out mem x) h = Inr h' \<and>
        grown ?b (F + copy_facts sub g (inside g ns (snd x))) h'" by auto
  qed (use eb(1) in \<open>simp add: grown_refl\<close>)
  then obtain h1 where h1: "foldE (\<lambda>x. copyEdges sub (mem (fst x)) (\<lambda>h e. \<not> isExternal h (to_T (mem (fst x)) e))
      (ref_out mem x)) ?refs ?b = Inr h1" "grown ?b (copy_facts sub g (concat (map (inside g ns) ns))) h1"
    by (auto simp: sum_copy_facts [symmetric] scc_refs_def comp_def)
  let ?f = "\<lambda>x h. andThen
      (copyEdges sub (mem (fst x)) (\<lambda>h e. \<not> isInternal h (to_T (mem (fst x)) e)) (ref_out mem x) h)
      (copyEdges sub (mem (fst x)) (\<lambda>h e. \<not> isInternal h (from_T (mem (fst x)) e)) (ref_in mem x))"
  have "\<exists>h. foldE ?f ?refs h1 = Inr h \<and> grown ?b (copy_facts sub g (concat (map (inside g ns) ns)) +
      sum_list (map (\<lambda>x. copy_facts sub g (crossing g ns (snd x))) ?refs)) h"
  proof (rule foldE_grown [OF _ h1(2)])
    fix x h F assume x: "x \<in> set ?refs" and h: "grown ?b F h"
    obtain h2 where h2: "copyEdges sub (mem (fst x)) (\<lambda>h e. \<not> isInternal h (to_T (mem (fst x)) e)) (ref_out mem x) h = Inr h2"
      "grown ?b (F + copy_facts sub g (filter (\<lambda>e. \<not> isInternal ?b (to_T (mem (fst x)) e)) (ref_out mem x))) h2"
      using step [OF h x, of "ref_out mem x" "\<lambda>h e. \<not> isInternal h (to_T (mem (fst x)) e)"] by auto
    obtain h3 where h3: "copyEdges sub (mem (fst x)) (\<lambda>h e. \<not> isInternal h (from_T (mem (fst x)) e)) (ref_in mem x) h2 = Inr h3"
      "grown ?b (F + copy_facts sub g (filter (\<lambda>e. \<not> isInternal ?b (to_T (mem (fst x)) e)) (ref_out mem x)) +
         copy_facts sub g (filter (\<lambda>e. \<not> isInternal ?b (from_T (mem (fst x)) e)) (ref_in mem x))) h3"
      using step [OF h2(2) x, of "ref_in mem x" "\<lambda>h e. \<not> isInternal h (from_T (mem (fst x)) e)"] by auto
    have "copy_facts sub g (filter (\<lambda>e. \<not> isInternal ?b (to_T (mem (fst x)) e)) (ref_out mem x)) +
        copy_facts sub g (filter (\<lambda>e. \<not> isInternal ?b (from_T (mem (fst x)) e)) (ref_in mem x)) =
        copy_facts sub g (crossing g ns (snd x))"
      unfolding eb(3) crossing_def ref_out_def ref_in_def using refs [OF x] G by simp
    with h2(1) h3 show "\<exists>h'. ?f x h = Inr h' \<and> grown ?b (F + copy_facts sub g (crossing g ns (snd x))) h'"
      by (metis (no_types, lifting) add.assoc andThen_Inr)
  qed
  then obtain h where h: "foldE ?f ?refs h1 = Inr h"
    "grown ?b (copy_facts sub g (concat (map (inside g ns) ns) @ concat (map (crossing g ns) ns))) h"
    by (auto simp: sum_copy_facts [symmetric] scc_refs_def comp_def)
  have run: "SCC_of_nodes sub mem ?refs = Inr h"
    using m0 h1(1) h(1)
    by (simp add: SCC_of_nodes_def copyNodesAndEdges_def fold_addNode_map scc_base_def [symmetric])
  have facts: "copy_facts sub g (concat (map (inside g ns) ns) @ concat (map (crossing g ns) ns)) =
      copy_facts sub g (filter (\<lambda>e. from_T g e \<in> ivals g ns \<or> to_T g e \<in> ivals g ns) (allEdges g))"
    unfolding copy_facts_def groups_mset [OF W] ..
  have "clean h" "dg_facts h = dg_facts ?b + copy_facts sub g (filter (\<lambda>e. from_T g e \<in> ivals g ns \<or>
      to_T g e \<in> ivals g ns) (allEdges g))"
    using h(2) unfolding grown_def facts by blast+
  moreover have "internal_values ?b = ivals g ns" "external_values ?b = nbrs g ns"
    using eb(3,4) unfolding internal_values_def external_values_def by auto
  ultimately show ?thesis using run grown_values [OF h(2)] eb(2) by (intro exI [of _ h]) simp
qed

section \<open>Cycle detection never misses a cycle\<close>

definition followed :: "('v, 'r) dg \<Rightarrow> bool \<Rightarrow> (ptr \<times> ptr) set" where
  "followed g ignoreControlDep = {(edge_from g e, edge_to g e) | e.
     e \<in> set (allEdges g) \<and> \<not> (ignoreControlDep \<and> isControl (edgeMem g e))}"

lemma subseq_singleton [simp]: "subseq [x] xs \<longleftrightarrow> x \<in> set xs"
  by (simp add: subseq_singleton_left)

lemma subseq_pair_append: "u \<in> set xs \<Longrightarrow> v \<in> set ys \<Longrightarrow> subseq [u, v] (xs @ ys)"
  using list_emb_append_mono [of "(=)" "[u]" xs "[v]" ys] by simp

lemma subseq_insert_middle: "subseq l (xs @ zs) \<Longrightarrow> subseq l (xs @ ys @ zs)"
proof -
  assume l: "subseq l (xs @ zs)"
  have "subseq (xs @ zs) (xs @ ys @ zs)" by (rule list_emb_append_mono) auto
  with l show ?thesis by (rule subseq_order.order_trans)
qed

text \<open>If every edge goes forward in one list without repetitions, there is no cycle.\<close>

lemma subseq_pair_index: "subseq [u, v] L \<Longrightarrow> \<exists>i j. i < j \<and> j < length L \<and> L ! i = u \<and> L ! j = v"
proof (induction L)
  case (Cons x L)
  show ?case
  proof (cases "subseq [u, v] L")
    case True
    from Cons.IH [OF this] obtain i j where "i < j" "j < length L" "L ! i = u" "L ! j = v" by blast
    then show ?thesis by (intro exI [of _ "Suc i"] exI [of _ "Suc j"]) auto
  next
    case False
    with Cons.prems have "x = u" "v \<in> set L"
      by (auto elim: list_emb.cases simp: subseq_Cons2_iff split: if_splits)
    then obtain j where "j < length L" "L ! j = v" by (auto simp: in_set_conv_nth)
    then show ?thesis using \<open>x = u\<close> by (intro exI [of _ 0] exI [of _ "Suc j"]) auto
  qed
qed simp

lemma forward_acyclic:
  assumes d: "distinct L" and f: "\<And>u v. (u, v) \<in> R \<Longrightarrow> subseq [u, v] L"
  shows "acyclic R"
proof -
  let ?f = "\<lambda>x. LEAST i. i < length L \<and> L ! i = x"
  have idx: "?f (L ! i) = i" if "i < length L" for i
    using that d by (intro Least_equality) (auto simp: nth_eq_iff_index_eq)
  have "R \<subseteq> inv_image less_than ?f"
  proof
    fix p assume p: "p \<in> R"
    obtain u v where uv: "p = (u, v)" by (cases p)
    from subseq_pair_index [OF f [OF p [unfolded uv]]] obtain i j where
      ij: "i < j" "j < length L" "L ! i = u" "L ! j = v" by blast
    then have "?f u = i" "?f v = j" using idx [of i] idx [of j] by auto
    with ij(1) show "p \<in> inv_image less_than ?f" by (simp add: uv)
  qed
  moreover have "wf (inv_image less_than ?f)" by simp
  ultimately show ?thesis using wf_acyclic wf_subset by metis
qed

text \<open>One pass over the edges of the node \<open>u\<close> just popped. \<open>P\<close> lists the nodes of earlier searches.\<close>

definition seen_ok :: "ptr list \<Rightarrow> cycle_state \<Rightarrow> bool" where
  "seen_ok P = (\<lambda>(seen, checked, todo). distinct (seen @ P) \<and> set checked = set seen \<union> set P \<and> distinct checked)"

lemma hasCycle_edges_ok:
  assumes "hasCycle_edges g ign es (seen, checked, todo) = Some (seen', checked', todo')"
    and "seen_ok P (seen, checked, todo)" and "u \<in> set seen"
  shows "\<exists>new. seen' = seen @ new \<and> checked' = checked @ new \<and> todo' = todo @ new \<and>
    seen_ok P (seen', checked', todo') \<and> set new \<subseteq> edge_to g ` set es \<and>
    (\<forall>e \<in> set es. \<not> (ign \<and> isControl (edgeMem g e)) \<longrightarrow> subseq [u, edge_to g e] (seen' @ P))"
  using assms
proof (induction g ign es "(seen, checked, todo)" arbitrary: seen checked todo rule: hasCycle_edges.induct)
  case (1 g ign)
  then show ?case by simp
next
  case (2 g ign e es seen checked todo)
  show ?case
  proof (cases "ign \<and> isControl (edgeMem g e)")
    case True
    then show ?thesis using 2(1) [OF True] 2(4-) by auto
  next
    case False
    let ?o = "edge_to g e"
    have os: "?o \<notin> set seen" using 2(4) False by (auto simp: Let_def)
    show ?thesis
    proof (cases "?o \<in> set checked")
      case True
      then have "?o \<in> set P" using 2(5) os by (auto simp: seen_ok_def)
      have "hasCycle_edges g ign es (seen, checked, todo) = Some (seen', checked', todo')"
        using 2(4) False os True by (simp add: Let_def)
      from 2(2) [OF False refl os True this 2(5,6)] obtain new where
        n: "seen' = seen @ new" "checked' = checked @ new" "todo' = todo @ new" "seen_ok P (seen', checked', todo')"
          "set new \<subseteq> edge_to g ` set es"
          "\<forall>e \<in> set es. \<not> (ign \<and> isControl (edgeMem g e)) \<longrightarrow> subseq [u, edge_to g e] (seen' @ P)" by auto
      have "subseq [u, ?o] (seen' @ P)"
        by (rule subseq_pair_append) (use n(1) 2(6) \<open>?o \<in> set P\<close> in auto)
      with n show ?thesis by auto
    next
      case False': False
      have ok: "seen_ok P (seen @ [?o], checked @ [?o], todo @ [?o])"
        using 2(5) os False' by (auto simp: seen_ok_def)
      have run: "hasCycle_edges g ign es (seen @ [?o], checked @ [?o], todo @ [?o]) = Some (seen', checked', todo')"
        using 2(4) False os False' by (simp add: Let_def)
      have u: "u \<in> set (seen @ [?o])" using 2(6) by simp
      from 2(3) [OF False refl os False' run ok u] obtain new where
        n: "seen' = (seen @ [?o]) @ new" "checked' = (checked @ [?o]) @ new" "todo' = (todo @ [?o]) @ new"
          "seen_ok P (seen', checked', todo')" "set new \<subseteq> edge_to g ` set es"
          "\<forall>e \<in> set es. \<not> (ign \<and> isControl (edgeMem g e)) \<longrightarrow> subseq [u, edge_to g e] (seen' @ P)" by auto
      have "subseq [u, ?o] (seen @ (?o # new @ P))"
        by (rule subseq_pair_append) (use 2(6) in auto)
      with n show ?thesis by (intro exI [of _ "?o # new"]) auto
    qed
  qed
qed

text \<open>The nodes checked so far, listed in an order in which all their edges go forward.\<close>

definition checked_ok :: "('v, 'r) dg \<Rightarrow> bool \<Rightarrow> ptr list \<Rightarrow> ptr list \<Rightarrow> bool" where
  "checked_ok g ign P checked \<longleftrightarrow> distinct P \<and> distinct checked \<and> set checked = set P \<and>
     set P \<subseteq> set (allNodes g) \<and> (\<forall>u v. u \<in> set P \<longrightarrow> (u, v) \<in> followed g ign \<longrightarrow> subseq [u, v] P)"

definition search_inv :: "('v, 'r) dg \<Rightarrow> bool \<Rightarrow> ptr list \<Rightarrow> ptr \<Rightarrow> cycle_state option \<Rightarrow> bool" where
  "search_inv g ign P n st = (case st of None \<Rightarrow> True | Some (seen, checked, todo) \<Rightarrow>
     seen_ok P (seen, checked, todo) \<and> n \<in> set seen \<and> set seen \<union> set P \<subseteq> set (allNodes g) \<and> set todo \<subseteq> set seen \<and>
     (\<forall>u v. u \<in> (set seen - set todo) \<union> set P \<longrightarrow> (u, v) \<in> followed g ign \<longrightarrow> subseq [u, v] (seen @ P)))"

definition search_measure :: "('v, 'r) dg \<Rightarrow> cycle_state option \<Rightarrow> nat" where
  "search_measure g st = (case st of None \<Rightarrow> 0
     | Some (seen, checked, todo) \<Rightarrow> Suc (length todo + (length (allNodes g) - length checked)))"

lemma hasCycle_visit_ok:
  assumes wf: "dg_wf g" and inv: "search_inv g ign P n (Some (seen, checked, u # todo))"
  shows "search_inv g ign P n (hasCycle_visit g ign (Some (seen, checked, u # todo))) \<and>
    search_measure g (hasCycle_visit g ign (Some (seen, checked, u # todo))) <
      search_measure g (Some (seen, checked, u # todo))"
proof (cases "hasCycle_edges g ign (out_edges g u) (seen, checked, todo)")
  case None
  then show ?thesis by (simp add: hasCycle_visit_def search_inv_def search_measure_def)
next
  case (Some st)
  obtain seen' checked' todo' where st: "st = (seen', checked', todo')" by (cases st)
  have ew: "edges_wf g" using wf by (simp add: dg_wf_def)
  have us: "u \<in> set seen" and ok: "seen_ok P (seen, checked, todo)"
    and live: "set seen \<union> set P \<subseteq> set (allNodes g)"
    using inv by (auto simp: search_inv_def seen_ok_def)
  then have un: "u \<in> set (allNodes g)" by auto
  note out = edges_wfD(7) [OF ew un]
  from hasCycle_edges_ok [OF Some [unfolded st] ok us] obtain new where
    n: "seen' = seen @ new" "checked' = checked @ new" "todo' = todo @ new" "seen_ok P (seen', checked', todo')"
      "set new \<subseteq> edge_to g ` set (out_edges g u)"
      "\<forall>e \<in> set (out_edges g u). \<not> (ign \<and> isControl (edgeMem g e)) \<longrightarrow> subseq [u, edge_to g e] (seen' @ P)"
    by blast
  have newl: "set new \<subseteq> set (allNodes g)" using n(5) out edges_wfD(6) [OF ew] by auto
  have fwd: "subseq [a, b] (seen' @ P)"
    if a: "a \<in> (set seen' - set todo') \<union> set P" and ab: "(a, b) \<in> followed g ign" for a b
  proof (cases "a = u")
    case True
    from ab obtain e where "e \<in> set (allEdges g)" "edge_from g e = u" "edge_to g e = b"
      "\<not> (ign \<and> isControl (edgeMem g e))" using True by (auto simp: followed_def)
    then show ?thesis using n(6) out True by auto
  next
    case False
    then have "a \<in> (set seen - set (u # todo)) \<union> set P" using a n(1,3) by auto
    then have "subseq [a, b] (seen @ P)" using inv ab unfolding search_inv_def option.case prod.case by blast
    then show ?thesis using subseq_insert_middle n(1) by auto
  qed
  have inv': "search_inv g ign P n (Some (seen', checked', todo'))"
    using n(1,3,4) newl live inv fwd unfolding search_inv_def option.case prod.case by auto
  have "set checked' \<subseteq> set (allNodes g)" "distinct checked'"
    using n(1,4) newl live by (auto simp: seen_ok_def)
  then have "length checked' \<le> length (allNodes g)"
    using edges_wfD(1) [OF ew] by (metis card_mono distinct_card finite_set)
  with inv' n(2,3) Some st show ?thesis by (simp add: hasCycle_visit_def search_measure_def)
qed

lemma hasCycle_search_ok:
  assumes wf: "dg_wf g" and ok: "checked_ok g ign P checked" and n: "n \<in> set (allNodes g)" "n \<notin> set checked"
  shows "\<exists>r. hasCycle_search g ign n checked = Inr r \<and>
    (\<forall>checked'. r = Some checked' \<longrightarrow> (\<exists>P'. checked_ok g ign P' checked' \<and> insert n (set P) \<subseteq> set P'))"
proof -
  let ?b = "\<lambda>st :: cycle_state option. case st of None \<Rightarrow> False | Some (_, _, todo) \<Rightarrow> todo \<noteq> []"
  let ?I = "search_inv g ign P n"
  have init: "?I (Some ([n], checked @ [n], [n]))"
  proof -
    have "subseq [a, b] (n # P)" if "a \<in> set P" "(a, b) \<in> followed g ign" for a b
      using ok that subseq_insert_middle [of "[a, b]" "[]" P "[n]"] by (auto simp: checked_ok_def)
    then show ?thesis using ok n by (auto simp: search_inv_def seen_ok_def checked_ok_def)
  qed
  have "\<exists>t. whileE ?b (\<lambda>st. Inr (hasCycle_visit g ign st)) (Some ([n], checked @ [n], [n])) = Inr t \<and> ?I t \<and> \<not> ?b t"
  proof (rule whileE_total [where R = "measure (search_measure g)" and P = ?I, OF _ init])
    fix s assume s: "?I s" "?b s"
    then obtain seen ch u todo where st: "s = Some (seen, ch, u # todo)"
      by (cases s) (auto simp: neq_Nil_conv)
    show "\<exists>s'. Inr (hasCycle_visit g ign s) = Inr s' \<and> ?I s' \<and> (s', s) \<in> measure (search_measure g)"
      using hasCycle_visit_ok [OF wf s(1) [unfolded st]] by (auto simp: st)
  qed simp
  then obtain t where t: "whileE ?b (\<lambda>st. Inr (hasCycle_visit g ign st)) (Some ([n], checked @ [n], [n])) = Inr t"
    "?I t" "\<not> ?b t" by blast
  show ?thesis
  proof (cases t)
    case None
    then show ?thesis using t(1) by (simp add: hasCycle_search_def)
  next
    case (Some st)
    obtain seen ch where st: "t = Some (seen, ch, [])" using t(3) Some by (cases st) auto
    have "checked_ok g ign (seen @ P) ch" "insert n (set P) \<subseteq> set (seen @ P)"
      using t(2) unfolding st search_inv_def checked_ok_def seen_ok_def option.case prod.case by auto
    then show ?thesis using t(1) unfolding st
      by (intro exI [of _ "Some ch"]) (auto simp: hasCycle_search_def)
  qed
qed

lemma hasCycle_nodes_ok:
  assumes "dg_wf g" "checked_ok g ign P checked" "set ns \<subseteq> Some ` set (allNodes g)"
  shows "\<exists>b. hasCycle_nodes g ign ns checked = Inr b \<and> (\<not> b \<longrightarrow> (\<exists>P' checked'.
     checked_ok g ign P' checked' \<and> set P \<subseteq> set P' \<and> {n. Some n \<in> set ns} \<subseteq> set P'))"
  using assms(2,3)
proof (induction ns arbitrary: P checked)
  case Nil
  then show ?case by auto
next
  case (Cons m ns)
  then obtain n where m: "m = Some n" "n \<in> set (allNodes g)" by auto
  show ?case
  proof (cases "n \<in> set checked")
    case True
    then have "n \<in> set P" using Cons.prems(1) by (simp add: checked_ok_def)
    with Cons.IH [OF Cons.prems(1)] Cons.prems(2) True m show ?thesis by fastforce
  next
    case False
    obtain r where r: "hasCycle_search g ign n checked = Inr r"
      "\<forall>checked'. r = Some checked' \<longrightarrow> (\<exists>P'. checked_ok g ign P' checked' \<and> insert n (set P) \<subseteq> set P')"
      using hasCycle_search_ok [OF assms(1) Cons.prems(1) m(2) False] by blast
    show ?thesis
    proof (cases r)
      case None
      then show ?thesis using r(1) m False by auto
    next
      case (Some ch)
      then obtain P1 where P1: "checked_ok g ign P1 ch" "insert n (set P) \<subseteq> set P1" using r(2) by blast
      from Cons.IH [OF P1(1)] Cons.prems(2) obtain b where
        b: "hasCycle_nodes g ign ns ch = Inr b" "\<not> b \<longrightarrow> (\<exists>P' checked'.
          checked_ok g ign P' checked' \<and> set P1 \<subseteq> set P' \<and> {n. Some n \<in> set ns} \<subseteq> set P')" by auto
      have "hasCycle_nodes g ign (m # ns) checked = Inr b" using r(1) Some b(1) m False by simp
      with b(2) P1(2) m show ?thesis by (intro exI [of _ b]) auto
    qed
  qed
qed

lemma hasCycle_total:
  assumes wf: "dg_wf g"
  shows "\<exists>b. hasCycle g ign = Inr b \<and> (\<not> b \<longrightarrow>
    (\<forall>n m. n \<in> set (allNodes g) \<longrightarrow> isInternal g (node_T g n) \<longrightarrow> (n, m) \<in> (followed g ign)\<^sup>* \<longrightarrow>
       (m, m) \<notin> (followed g ign)\<^sup>+))"
proof -
  have nodes: "Some n \<in> snd ` set (internalNodeMap g) \<longleftrightarrow> n \<in> set (allNodes g) \<and> isInternal g (node_T g n)"
    and nn: "None \<notin> snd ` set (internalNodeMap g)" for n
  proof -
    have d: "distinct (map fst (internalNodeMap g))" using wf by (simp add: dg_wf_def maps_wf_def)
    have "\<forall>t. map_of (internalNodeMap g) t \<noteq> Some None" using wf unfolding dg_wf_def maps_wf_def by blast
    then show "None \<notin> snd ` set (internalNodeMap g)" using map_of_is_SomeI [OF d] by (metis imageE prod.collapse)
    have "Some n \<in> snd ` set (internalNodeMap g) \<longleftrightarrow> (\<exists>t. (t, Some n) \<in> set (internalNodeMap g))" by force
    also have "\<dots> \<longleftrightarrow> (\<exists>t. map_of (internalNodeMap g) t = Some (Some n))"
      using map_of_is_SomeI [OF d] map_of_SomeD by metis
    also have "\<dots> \<longleftrightarrow> n \<in> set (allNodes g) \<and> isInternal g (node_T g n)"
    proof
      assume "\<exists>t. map_of (internalNodeMap g) t = Some (Some n)"
      then obtain t where t: "map_of (internalNodeMap g) t = Some (Some n)" by blast
      then have "lookup_node g t = Some (Some n)" by (simp add: lookup_node_def)
      with t show "n \<in> set (allNodes g) \<and> isInternal g (node_T g n)"
        using wf_lookup [OF wf] by (auto simp: isInternal_def)
    next
      assume n: "n \<in> set (allNodes g) \<and> isInternal g (node_T g n)"
      then have "lookup_node g (node_T g n) = Some (Some n)" using wf_lookup [OF wf] by blast
      with n show "\<exists>t. map_of (internalNodeMap g) t = Some (Some n)"
        by (auto simp: lookup_node_def isInternal_def split: option.splits)
    qed
    finally show "Some n \<in> snd ` set (internalNodeMap g) \<longleftrightarrow> n \<in> set (allNodes g) \<and> isInternal g (node_T g n)" .
  qed
  have "set (map snd (internalNodeMap g)) \<subseteq> Some ` set (allNodes g)"
  proof
    fix x assume x: "x \<in> set (map snd (internalNodeMap g))"
    with nn obtain n where "x = Some n" by (cases x) auto
    with x nodes [of n] show "x \<in> Some ` set (allNodes g)" by auto
  qed
  moreover have "checked_ok g ign [] []" by (simp add: checked_ok_def)
  ultimately obtain b where b: "hasCycle g ign = Inr b" "\<not> b \<longrightarrow> (\<exists>P checked. checked_ok g ign P checked \<and>
      {n. Some n \<in> set (map snd (internalNodeMap g))} \<subseteq> set P)"
    using hasCycle_nodes_ok [OF wf, of ign "[]" "[]"] unfolding hasCycle_def by blast
  have "(m, m) \<notin> (followed g ign)\<^sup>+"
    if "\<not> b" "n \<in> set (allNodes g)" "isInternal g (node_T g n)" "(n, m) \<in> (followed g ign)\<^sup>*" for n m
  proof
    assume cyc: "(m, m) \<in> (followed g ign)\<^sup>+"
    obtain P ch where P: "checked_ok g ign P ch" "{n. Some n \<in> set (map snd (internalNodeMap g))} \<subseteq> set P"
      using b(2) \<open>\<not> b\<close> by blast
    have fw: "subseq [u, v] P" if "u \<in> set P" "(u, v) \<in> followed g ign" for u v
      using P(1) that by (auto simp: checked_ok_def)
    have closed: "v \<in> set P" if "u \<in> set P" "(u, v) \<in> followed g ign" for u v
      using subseq_pair_index [OF fw [OF that]] nth_mem by blast
    have "n \<in> set P" using P(2) nodes that(2,3) by auto
    with that(4) have m: "m \<in> set P" by induction (auto intro: closed)
    let ?R = "{(u, v). u \<in> set P \<and> (u, v) \<in> followed g ign}"
    have "(m, k) \<in> ?R\<^sup>+ \<and> k \<in> set P" if "(m, k) \<in> (followed g ign)\<^sup>+" for k
      using that by induction (use m closed in \<open>auto intro: trancl_into_trancl\<close>)
    then have "(m, m) \<in> ?R\<^sup>+" using cyc by blast
    moreover have "acyclic ?R" by (rule forward_acyclic [of P]) (use P(1) fw in \<open>auto simp: checked_ok_def\<close>)
    ultimately show False by (simp add: acyclic_def)
  qed
  with b(1) show ?thesis by blast
qed

text \<open>A graph with the edges 10 -> 20 -> 40 and 10 -> 30 -> 40.\<close>

definition add_edges :: "('v \<times> 'v) list \<Rightarrow> ('v, 'r) dg \<Rightarrow> ('v, 'r) dg res" where
  "add_edges es g = foldE (\<lambda>(f, t) h. andThen (addEdge h f t) (\<lambda>(h1, _). Inr h1)) es g"

definition diamond_dg :: "(nat, nat) dg" where
  "diamond_dg = (case add_edges [(10, 20), (10, 30), (20, 40), (30, 40)] (addNodes True [10, 20, 30, 40] empty_dg) of
     Inl _ \<Rightarrow> empty_dg | Inr g \<Rightarrow> g)"

lemma diamond_dg_parts:
  "allNodes diamond_dg = [0, 1, 2, 3]" "allEdges diamond_dg = [4, 5, 6, 7]"
  "map (\<lambda>e. (edge_from diamond_dg e, edge_to diamond_dg e)) [4, 5, 6, 7] = [(0, 1), (0, 2), (1, 3), (2, 3)]"
  "map (node_T diamond_dg) [0, 1, 2, 3] = [10, 20, 30, 40]"
  "map (\<lambda>e. isControl (edgeMem diamond_dg e)) [4, 5, 6, 7] = [False, False, False, False]"
  "map fst (internalNodeMap diamond_dg) = [10, 20, 30, 40]"
  by code_simp+

lemma diamond_dg_steps: "dg_step\<^sup>*\<^sup>* empty_dg diamond_dg"
proof -
  have a: "dg_step\<^sup>*\<^sup>* empty_dg g \<Longrightarrow> clean g \<Longrightarrow> distinct ts \<Longrightarrow> set ts \<inter> dg_values g = {} \<Longrightarrow>
      dg_step\<^sup>*\<^sup>* empty_dg (addNodes True ts g)" for ts and g :: "(nat, nat) dg"
  proof (induction ts arbitrary: g)
    case (Cons t ts)
    obtain h n where h: "addNode g t True = (h, n)" by fastforce
    have t: "t \<notin> dg_values g" using Cons.prems by auto
    then have "\<not> isInGraph g t" using clean_member [OF Cons.prems(2)] by simp
    then have "dg_step g h" using step_addNode [of g t True] h by simp
    with Cons.prems(1) have "dg_step\<^sup>*\<^sup>* empty_dg h" by (rule rtranclp.rtrancl_into_rtrancl)
    from Cons.IH [OF this addNode_clean(1) [OF Cons.prems(2) t h]] addNode_clean(2) [OF Cons.prems(2) t h]
      Cons.prems(3,4) show ?case by (simp add: addNodes_def h)
  qed (simp add: addNodes_def)
  have e: "dg_step\<^sup>*\<^sup>* empty_dg g \<Longrightarrow> add_edges es g = Inr h \<Longrightarrow> dg_step\<^sup>*\<^sup>* empty_dg h" for es and g h :: "(nat, nat) dg"
  proof (induction es arbitrary: g)
    case (Cons p es)
    obtain f t where p: "p = (f, t)" by (cases p)
    from Cons.prems(2) obtain g1 x where g1: "addEdge g f t = Inr (g1, x)" "add_edges es g1 = Inr h"
      by (auto simp: p add_edges_def andThen_eq_Inr split: prod.splits)
    from Cons.prems(1) step_addEdge [OF g1(1)] have "dg_step\<^sup>*\<^sup>* empty_dg g1"
      by (rule rtranclp.rtrancl_into_rtrancl)
    from Cons.IH [OF this g1(2)] show ?case .
  qed (simp add: add_edges_def)
  have "dg_step\<^sup>*\<^sup>* empty_dg (addNodes True [10, 20, 30, 40] (empty_dg :: (nat, nat) dg))"
    by (rule a) auto
  from e [OF this] show ?thesis
    unfolding diamond_dg_def by (auto split: sum.splits)
qed

lemma diamond_dg_wf: "dg_wf diamond_dg"
  using dg_history_wf [OF diamond_dg_steps] by simp

section \<open>Properties\<close>

text \<open>C4: the SCC built from a set of nodes of a PDG has exactly their values as internal nodes, exactly the
  values that exchange a dependence with them as external nodes, and exactly one copy, attributes included, of
  every edge of the PDG that touches a member: none is copied twice although the loops look at outgoing and
  at incoming edges.\<close>

theorem scc_of_nodes_exact:
  assumes "dg_wf (mem c)" and "set ns \<subseteq> set (allNodes (mem c))" and "distinct ns" and "ns \<noteq> []"
  shows "\<exists>h. SCC_of_nodes sub mem (map (Pair c) ns) = Inr h \<and> dg_wf h \<and>
    {t. isInternal h t} = node_T (mem c) ` set ns \<and>
    {t. isExternal h t} = {t. \<exists>s \<in> node_T (mem c) ` set ns.
       (s, t) \<in> dg_arrows (mem c) \<or> (t, s) \<in> dg_arrows (mem c)} - node_T (mem c) ` set ns \<and>
    dg_facts h = image_mset (\<lambda>e. (edge_pair (mem c) e, edge_attrs.truncate (copy_edge sub (edgeMem (mem c) e))))
      (mset (filter (\<lambda>e. edge_from (mem c) e \<in> set ns \<or> edge_to (mem c) e \<in> set ns) (allEdges (mem c))))"
proof -
  have W: "scc_nodes (mem c) ns" using assms by (simp add: scc_nodes_def)
  have f: "filter (\<lambda>e. from_T (mem c) e \<in> ivals (mem c) ns \<or> to_T (mem c) e \<in> ivals (mem c) ns) (allEdges (mem c)) =
      filter (\<lambda>e. edge_from (mem c) e \<in> set ns \<or> edge_to (mem c) e \<in> set ns) (allEdges (mem c))"
    by (rule filter_cong [OF refl]) (simp only: value_in_I [OF W] edge_ends [OF assms(1)])
  obtain h where h: "SCC_of_nodes sub mem (scc_refs c ns) = Inr h" "clean h" "internal_values h = ivals (mem c) ns"
    "external_values h = nbrs (mem c) ns"
    "dg_facts h = copy_facts sub (mem c) (filter (\<lambda>e. edge_from (mem c) e \<in> set ns \<or> edge_to (mem c) e \<in> set ns) (allEdges (mem c)))"
    using SCC_of_nodes_correct [OF W, of mem c sub] unfolding f by auto
  show ?thesis
    by (rule exI [of _ h])
      (use h clean_wf [OF h(2)] in \<open>simp add: scc_refs_def internal_values_def external_values_def nbrs_def copy_facts_def\<close>)
qed

lemma scc_of_nodes_exact_witness:
  "\<exists>h. SCC_of_nodes (\<lambda>_. undefined) (\<lambda>_. diamond_dg) (map (Pair 0) [1]) = Inr h \<and> dg_wf h \<and>
     {t. isInternal h t} = {20} \<and> size (dg_facts h) = 2"
proof -
  have l: "set [1] \<subseteq> set (allNodes diamond_dg)" by (simp add: diamond_dg_parts)
  have "filter (\<lambda>e. edge_from diamond_dg e \<in> set [1] \<or> edge_to diamond_dg e \<in> set [1]) (allEdges diamond_dg) = [4, 6]"
    using diamond_dg_parts(3) by (simp add: diamond_dg_parts(2))
  moreover have "node_T diamond_dg 1 = 20" using diamond_dg_parts(4) by simp
  ultimately show ?thesis
    using scc_of_nodes_exact [of "\<lambda>_. diamond_dg" 0 "[1]" "\<lambda>_. undefined", OF diamond_dg_wf l] by auto
qed

text \<open>The cycle search returns for every consistent graph, and when it says \<open>false\<close> there is no cycle of the
  followed edges (all of them, or all but the control dependences) among the nodes that the internal nodes
  reach: no cycle is missed.\<close>

theorem hasCycle_misses_none:
  assumes "dg_wf g"
  shows "\<exists>b. hasCycle g ign = Inr b \<and> (\<not> b \<longrightarrow>
    (\<forall>n \<in> set (allNodes g). isInternal g (node_T g n) \<longrightarrow>
       (\<forall>m. (n, m) \<in> (followed g ign)\<^sup>* \<longrightarrow> (m, m) \<notin> (followed g ign)\<^sup>+)))"
  using hasCycle_total [OF assms, of ign] by blast

lemma hasCycle_misses_none_witness:
  "dg_wf sample_dg \<and> hasCycle sample_dg False = Inr True"
proof -
  have e: "(0, 0) \<in> followed sample_dg False"
    unfolding followed_def by (intro CollectI exI [of _ 3]) (simp add: sample_dg_eq new_edge_def)
  have i: "isInternal sample_dg (node_T sample_dg 0)" "0 \<in> set (allNodes sample_dg)"
    by (simp_all add: sample_dg_eq isInternal_def)
  obtain b where b: "hasCycle sample_dg False = Inr b" "\<not> b \<Longrightarrow> (0, 0) \<notin> (followed sample_dg False)\<^sup>+"
    using hasCycle_misses_none [OF sample_dg_wf, of False] i by auto
  have "(0, 0) \<in> (followed sample_dg False)\<^sup>+" using e by (rule r_into_trancl)
  with b sample_dg_wf show ?thesis by (cases b) auto
qed

text \<open>The converse fails: two paths that meet again count as a cycle. On the acyclic graph 10 -> 20 -> 40,
  10 -> 30 -> 40 the search answers \<open>true\<close>, because it stops at any node that it has already seen and not
  only at the nodes on the current path.\<close>

theorem hasCycle_reports_diamond:
  "acyclic (followed diamond_dg False) \<and> hasCycle diamond_dg False = Inr True"
proof
  have "followed diamond_dg False = set (map (\<lambda>e. (edge_from diamond_dg e, edge_to diamond_dg e)) (allEdges diamond_dg))"
    by (auto simp: followed_def)
  then have f: "followed diamond_dg False = {(0, 1), (0, 2), (1, 3), (2, 3)}"
    by (simp only: diamond_dg_parts(2,3)) simp
  show "acyclic (followed diamond_dg False)"
    by (rule forward_acyclic [of "[0, 1, 2, 3]"]) (auto simp: f)
  show "hasCycle diamond_dg False = Inr True" by code_simp
qed

end
