(* ===== verification/BitMatrix.thy ===== *)
theory BitMatrix
  imports NoellePrelude "HOL-Library.Word"
begin

text \<open>
  \<open>src/src/core/basic_utilities/src/BitMatrix.cpp\<close>: the N x N bit matrix that \<open>SCCDAG\<close> uses for
  reachability. Indices are \<open>uint32_t\<close> values, so every index computation is modelled on 32-bit words
  with wrap-around. The bit vector underneath is \<open>llvm::BitVector\<close>, code of LLVM: it is the parameter
  \<open>'bv bitvec_ops\<close> of every operation, and \<open>bitvec_laws\<close> states its documented behaviour.

  The main result is \<open>transitiveClosure_correct\<close>: the worklist algorithm, which re-examines the
  predecessors of a row only when that row changed, returns and leaves exactly the transitive closure.
\<close>

type_synonym u32 = "32 word"

section \<open>The bit vector of LLVM, as a parameter\<close>

record 'bv bitvec_ops =
  bv_size :: "'bv \<Rightarrow> u32"
  bv_clear :: "'bv \<Rightarrow> 'bv"
  bv_resize :: "'bv \<Rightarrow> u32 \<Rightarrow> 'bv"
  bv_count :: "'bv \<Rightarrow> u32"
  bv_set :: "'bv \<Rightarrow> u32 \<Rightarrow> 'bv"
  bv_reset :: "'bv \<Rightarrow> u32 \<Rightarrow> 'bv"
  bv_test :: "'bv \<Rightarrow> u32 \<Rightarrow> bool"
  bv_find_first :: "'bv \<Rightarrow> u32"
  bv_find_next :: "'bv \<Rightarrow> u32 \<Rightarrow> u32"

definition no_bit :: u32 where
  "no_bit = - 1"

text \<open>Documented behaviour: \<open>find_first\<close> and \<open>find_next\<close> return the index as an \<open>int\<close>, -1 when there is
  no such bit, for vectors whose indices fit an \<open>int\<close>.\<close>

definition bitvec_laws :: "'bv bitvec_ops \<Rightarrow> bool" where
  "bitvec_laws ops \<longleftrightarrow>
     (\<forall>b. bv_size ops (bv_clear ops b) = 0) \<and>
     (\<forall>b n. bv_size ops (bv_resize ops b n) = n) \<and>
     (\<forall>b n i. i < n \<longrightarrow> bv_test ops (bv_resize ops b n) i = (i < bv_size ops b \<and> bv_test ops b i)) \<and>
     (\<forall>b i. bv_size ops (bv_set ops b i) = bv_size ops b) \<and>
     (\<forall>b i j. i < bv_size ops b \<longrightarrow> j < bv_size ops b \<longrightarrow>
        bv_test ops (bv_set ops b i) j = (j = i \<or> bv_test ops b j)) \<and>
     (\<forall>b i. bv_size ops (bv_reset ops b i) = bv_size ops b) \<and>
     (\<forall>b i j. i < bv_size ops b \<longrightarrow> j < bv_size ops b \<longrightarrow>
        bv_test ops (bv_reset ops b i) j = (j \<noteq> i \<and> bv_test ops b j)) \<and>
     (\<forall>b. unat (bv_size ops b) < 2 ^ 31 \<longrightarrow>
        (if \<exists>i < bv_size ops b. bv_test ops b i
         then bv_find_first ops b < bv_size ops b \<and> bv_test ops b (bv_find_first ops b) \<and>
              (\<forall>i < bv_find_first ops b. \<not> bv_test ops b i)
         else bv_find_first ops b = no_bit)) \<and>
     (\<forall>b p. unat (bv_size ops b) < 2 ^ 31 \<longrightarrow> p < bv_size ops b \<longrightarrow>
        (if \<exists>i < bv_size ops b. p < i \<and> bv_test ops b i
         then p < bv_find_next ops b p \<and> bv_find_next ops b p < bv_size ops b \<and>
              bv_test ops b (bv_find_next ops b p) \<and>
              (\<forall>i < bv_find_next ops b p. p < i \<longrightarrow> \<not> bv_test ops b i)
         else bv_find_next ops b p = no_bit))"

lemma bitvec_lawsD:
  assumes "bitvec_laws ops"
  shows "bv_size ops (bv_clear ops b) = 0" "bv_size ops (bv_resize ops b n) = n"
    "i < n \<Longrightarrow> bv_test ops (bv_resize ops b n) i = (i < bv_size ops b \<and> bv_test ops b i)"
    "bv_size ops (bv_set ops b i) = bv_size ops b"
    "i < bv_size ops b \<Longrightarrow> j < bv_size ops b \<Longrightarrow>
       bv_test ops (bv_set ops b i) j = (j = i \<or> bv_test ops b j)"
    "bv_size ops (bv_reset ops b i) = bv_size ops b"
    "i < bv_size ops b \<Longrightarrow> j < bv_size ops b \<Longrightarrow>
       bv_test ops (bv_reset ops b i) j = (j \<noteq> i \<and> bv_test ops b j)"
  using assms by (simp_all add: bitvec_laws_def)

lemma bitvec_find:
  assumes "bitvec_laws ops" "unat (bv_size ops b) < 2 ^ 31"
  shows "if \<exists>i < bv_size ops b. bv_test ops b i
         then bv_find_first ops b < bv_size ops b \<and> bv_test ops b (bv_find_first ops b) \<and>
              (\<forall>i < bv_find_first ops b. \<not> bv_test ops b i)
         else bv_find_first ops b = no_bit"
    and "p < bv_size ops b \<Longrightarrow>
        (if \<exists>i < bv_size ops b. p < i \<and> bv_test ops b i
         then p < bv_find_next ops b p \<and> bv_find_next ops b p < bv_size ops b \<and>
              bv_test ops b (bv_find_next ops b p) \<and>
              (\<forall>i < bv_find_next ops b p. p < i \<longrightarrow> \<not> bv_test ops b i)
         else bv_find_next ops b p = no_bit)"
  using assms unfolding bitvec_laws_def by blast+

section \<open>The matrix and its operations\<close>

record 'bv bit_matrix =
  bm_N :: u32
  bm_bv :: 'bv

definition bm_make :: "'bv bitvec_ops \<Rightarrow> 'bv \<Rightarrow> u32 \<Rightarrow> 'bv bit_matrix" where
  "bm_make ops b0 n = \<lparr>bm_N = n, bm_bv = bv_resize ops b0 (n * n)\<rparr>"

definition bm_resize :: "'bv bitvec_ops \<Rightarrow> 'bv bit_matrix \<Rightarrow> u32 \<Rightarrow> 'bv bit_matrix" where
  "bm_resize ops m n = m\<lparr>bm_N := n, bm_bv := bv_resize ops (bv_clear ops (bm_bv m)) (n * n)\<rparr>"

definition bm_idx :: "'bv bit_matrix \<Rightarrow> u32 \<Rightarrow> u32 \<Rightarrow> u32 res" where
  "bm_idx m row col =
     check (row < bm_N m) AssertFailed (check (col < bm_N m) AssertFailed (Inr (row * bm_N m + col)))"

definition bm_count :: "'bv bitvec_ops \<Rightarrow> 'bv bit_matrix \<Rightarrow> u32" where
  "bm_count ops m = bv_count ops (bm_bv m)"

definition bm_set :: "'bv bitvec_ops \<Rightarrow> 'bv bit_matrix \<Rightarrow> u32 \<Rightarrow> u32 \<Rightarrow> bool \<Rightarrow> 'bv bit_matrix res" where
  "bm_set ops m row col v = andThen (bm_idx m row col) (\<lambda>i.
     Inr (m\<lparr>bm_bv := (if v then bv_set ops (bm_bv m) i else bv_reset ops (bm_bv m) i)\<rparr>))"

definition bm_test :: "'bv bitvec_ops \<Rightarrow> 'bv bit_matrix \<Rightarrow> u32 \<Rightarrow> u32 \<Rightarrow> bool res" where
  "bm_test ops m row col = andThen (bm_idx m row col) (\<lambda>i. Inr (bv_test ops (bm_bv m) i))"

definition bm_firstSuccessor :: "'bv bitvec_ops \<Rightarrow> 'bv bit_matrix \<Rightarrow> u32 \<Rightarrow> u32" where
  "bm_firstSuccessor ops m row =
     (let rowBegin = bm_N m * row;
          nxt = (if rowBegin = 0 then bv_find_first ops (bm_bv m)
                 else bv_find_next ops (bm_bv m) (rowBegin - 1));
          rowEnd = rowBegin + bm_N m
      in if nxt = no_bit then no_bit
         else if rowEnd \<le> nxt then no_bit
         else nxt - rowBegin)"

definition bm_nextSuccessor :: "'bv bitvec_ops \<Rightarrow> 'bv bit_matrix \<Rightarrow> u32 \<Rightarrow> u32 \<Rightarrow> u32" where
  "bm_nextSuccessor ops m row prev =
     (let nxt = bv_find_next ops (bm_bv m) (bm_N m * row + prev);
          rowBegin = bm_N m * row;
          rowEnd = rowBegin + bm_N m
      in if nxt = no_bit then no_bit
         else if rowEnd \<le> nxt then no_bit
         else nxt - rowBegin)"

text \<open>The three loops of \<open>transitiveClosure\<close>: over the successors \<open>k\<close> of \<open>j\<close>, over the successors \<open>j\<close>
  of \<open>i\<close>, and the worklist of rows. Their states carry \<open>changedI\<close> and the counter \<open>nAdd\<close>.\<close>

type_synonym 'bv row_state = "'bv bit_matrix \<times> bool \<times> u32"

definition or_row_step :: "'bv bitvec_ops \<Rightarrow> u32 \<Rightarrow> u32 \<Rightarrow> 'bv row_state \<times> u32
    \<Rightarrow> ('bv row_state \<times> u32) res" where
  "or_row_step ops i j = (\<lambda>((m, changedI, nAdd), k).
     andThen (bm_test ops m i k) (\<lambda>t.
       if \<not> t then andThen (bm_set ops m i k True) (\<lambda>m'.
              Inr ((m', True, nAdd + 1), bm_nextSuccessor ops m' j k))
       else Inr ((m, changedI, nAdd), bm_nextSuccessor ops m j k)))"

definition or_row :: "'bv bitvec_ops \<Rightarrow> u32 \<Rightarrow> u32 \<Rightarrow> 'bv row_state \<Rightarrow> 'bv row_state res" where
  "or_row ops i j s =
     andThen (whileE (\<lambda>(_, k). k \<noteq> no_bit) (or_row_step ops i j) (s, bm_firstSuccessor ops (fst s) j))
       (\<lambda>(s', _). Inr s')"

definition row_pass_step :: "'bv bitvec_ops \<Rightarrow> u32 \<Rightarrow> 'bv row_state \<times> u32
    \<Rightarrow> ('bv row_state \<times> u32) res" where
  "row_pass_step ops i = (\<lambda>(s, j).
     andThen (or_row ops i j s) (\<lambda>s'. Inr (s', bm_nextSuccessor ops (fst s') i j)))"

definition row_pass :: "'bv bitvec_ops \<Rightarrow> u32 \<Rightarrow> 'bv row_state \<Rightarrow> 'bv row_state res" where
  "row_pass ops i s =
     andThen (whileE (\<lambda>(_, j). j \<noteq> no_bit) (row_pass_step ops i) (s, bm_firstSuccessor ops (fst s) i))
       (\<lambda>(s', _). Inr s')"

definition rows_below :: "u32 \<Rightarrow> u32 list" where
  "rows_below n = map word_of_nat [0..<unat n]"

definition push_predecessors :: "'bv bitvec_ops \<Rightarrow> 'bv bit_matrix \<Rightarrow> u32 \<Rightarrow> u32 list \<Rightarrow> u32 list res" where
  "push_predecessors ops m i =
     foldE (\<lambda>p wl. andThen (bm_test ops m p i) (\<lambda>t. Inr (if t then uset_insert p wl else wl)))
       (rows_below (bm_N m))"

definition transitiveClosure_step :: "'bv bitvec_ops \<Rightarrow> 'bv bit_matrix \<times> u32 \<times> u32 list
    \<Rightarrow> ('bv bit_matrix \<times> u32 \<times> u32 list) res" where
  "transitiveClosure_step ops = (\<lambda>(m, nAdd, worklist).
     let i = hd worklist; rest = tl worklist
     in andThen (row_pass ops i (m, False, nAdd)) (\<lambda>(m', changedI, nAdd').
          if changedI
          then andThen (push_predecessors ops m' i rest) (\<lambda>wl'. Inr (m', nAdd', wl'))
          else Inr (m', nAdd', rest)))"

definition bm_transitiveClosure :: "'bv bitvec_ops \<Rightarrow> 'bv bit_matrix \<Rightarrow> 'bv bit_matrix res" where
  "bm_transitiveClosure ops m =
     andThen (whileE (\<lambda>(_, _, wl). wl \<noteq> []) (transitiveClosure_step ops) (m, 0, rows_below (bm_N m)))
       (\<lambda>(m', _, _). Inr m')"

definition bm_dump_row :: "'bv bitvec_ops \<Rightarrow> 'bv bit_matrix \<Rightarrow> u32 \<Rightarrow> string \<Rightarrow> string res" where
  "bm_dump_row ops m row out =
     andThen (foldE (\<lambda>col acc. andThen (bm_test ops m row col) (\<lambda>t.
                Inr (acc @ (if t then ''#'' else ''.'')))) (rows_below (bm_N m)) out)
       (\<lambda>acc. Inr (acc @ [CHR 10]))"

definition bm_dump :: "'bv bitvec_ops \<Rightarrow> 'bv bit_matrix \<Rightarrow> string res" where
  "bm_dump ops m = foldE (bm_dump_row ops m) (rows_below (bm_N m)) ''''"

section \<open>The relation a matrix stands for\<close>

definition bm_rel :: "'bv bitvec_ops \<Rightarrow> 'bv bit_matrix \<Rightarrow> (u32 \<times> u32) set" where
  "bm_rel ops m = {(r, c). r < bm_N m \<and> c < bm_N m \<and> bv_test ops (bm_bv m) (r * bm_N m + c)}"

definition bm_wf :: "'bv bitvec_ops \<Rightarrow> 'bv bit_matrix \<Rightarrow> bool" where
  "bm_wf ops m \<longleftrightarrow> bitvec_laws ops \<and> unat (bm_N m) * unat (bm_N m) < 2 ^ 31 \<and>
     bv_size ops (bm_bv m) = bm_N m * bm_N m"

lemma nat_index_bound:
  assumes "r < n" "c < n" shows "r * n + c < n * (n :: nat)"
proof -
  have "r * n + c < r * n + n" using assms by simp
  also have "\<dots> = Suc r * n" by simp
  also have "\<dots> \<le> n * n" using assms by (intro mult_le_mono1) simp
  finally show ?thesis .
qed

lemma unat_idx:
  fixes n r c :: u32
  assumes "unat n * unat n < 2 ^ 31" "r < n" "c < n"
  shows "unat (r * n + c) = unat r * unat n + unat c"
    and "unat r * unat n + unat c < unat n * unat n" and "unat (n * n) = unat n * unat n"
    and "unat (r * n) = unat r * unat n"
proof -
  have rc: "unat r < unat n" "unat c < unat n" using assms by (simp_all add: word_less_nat_alt)
  show lt: "unat r * unat n + unat c < unat n * unat n" by (rule nat_index_bound [OF rc])
  show "unat (n * n) = unat n * unat n" using assms(1) by (simp add: unat_word_ariths)
  show rn: "unat (r * n) = unat r * unat n" using assms(1) lt by (simp add: unat_word_ariths)
  show "unat (r * n + c) = unat r * unat n + unat c"
    using assms(1) lt rn by (simp add: unat_word_ariths)
qed

lemma idx_less_size:
  assumes "unat n * unat n < 2 ^ 31" "r < n" "c < (n :: u32)"
  shows "r * n + c < n * n"
  using unat_idx [OF assms] by (simp add: word_less_nat_alt)

lemma nat_index_inj:
  assumes "r * n + c = r' * n + c'" "c < n" "c' < (n :: nat)" shows "r = r' \<and> c = c'"
proof -
  have "r = (r * n + c) div n" "r' = (r' * n + c') div n" using assms(2,3) by auto
  with assms(1) have "r = r'" by simp
  with assms(1) show ?thesis by simp
qed

lemma idx_inj:
  fixes n :: u32
  assumes b: "unat n * unat n < 2 ^ 31" and lt: "r < n" "c < n" "r' < n" "c' < n"
  shows "r * n + c = r' * n + c' \<longleftrightarrow> r = r' \<and> c = c'"
proof
  assume "r * n + c = r' * n + c'"
  then have "unat r * unat n + unat c = unat r' * unat n + unat c'"
    using unat_idx(1) [OF b lt(1,2)] unat_idx(1) [OF b lt(3,4)] by simp
  then have "unat r = unat r' \<and> unat c = unat c'"
    using lt by (intro nat_index_inj) (simp_all add: word_less_nat_alt)
  then show "r = r' \<and> c = c'" by (simp add: word_unat_eq_iff)
qed simp

lemma bm_idx_ok: "r < bm_N m \<Longrightarrow> c < bm_N m \<Longrightarrow> bm_idx m r c = Inr (r * bm_N m + c)"
  by (simp add: bm_idx_def)

lemma bm_test_ok: "r < bm_N m \<Longrightarrow> c < bm_N m \<Longrightarrow> bm_test ops m r c = Inr ((r, c) \<in> bm_rel ops m)"
  by (simp add: bm_test_def bm_idx_ok bm_rel_def)

lemma bm_rel_bounds: "(r, c) \<in> bm_rel ops m \<Longrightarrow> r < bm_N m \<and> c < bm_N m"
  by (simp add: bm_rel_def)

lemma finite_bm_rel [simp]: "finite (bm_rel ops m)"
  by (rule finite_subset [OF subset_UNIV]) simp

section \<open>The operations on the relation\<close>

lemma bm_set_wf:
  assumes "bm_wf ops m" "r < bm_N m" "c < bm_N m"
  shows "\<exists>m'. bm_set ops m r c v = Inr m' \<and> bm_wf ops m' \<and> bm_N m' = bm_N m \<and>
     bm_rel ops m' = (if v then insert (r, c) (bm_rel ops m) else bm_rel ops m - {(r, c)})"
proof -
  let ?i = "r * bm_N m + c"
  let ?m' = "m\<lparr>bm_bv := (if v then bv_set ops (bm_bv m) ?i else bv_reset ops (bm_bv m) ?i)\<rparr>"
  have b: "unat (bm_N m) * unat (bm_N m) < 2 ^ 31" and sz: "bv_size ops (bm_bv m) = bm_N m * bm_N m"
    using assms(1) by (simp_all add: bm_wf_def)
  have size: "bv_size ops (bm_bv ?m') = bv_size ops (bm_bv m)"
    using assms(1) by (simp add: bm_wf_def bitvec_lawsD)
  have tst: "bv_test ops (bm_bv ?m') (r' * bm_N m + c') =
      (if v then (r', c') = (r, c) \<or> bv_test ops (bm_bv m) (r' * bm_N m + c')
       else (r', c') \<noteq> (r, c) \<and> bv_test ops (bm_bv m) (r' * bm_N m + c'))"
    if "r' < bm_N m" "c' < bm_N m" for r' c'
    using assms that idx_less_size [OF b assms(2,3)] idx_less_size [OF b that]
      idx_inj [OF b that assms(2,3)]
    by (auto simp: bm_wf_def bitvec_lawsD)
  have "bm_rel ops ?m' = (if v then insert (r, c) (bm_rel ops m) else bm_rel ops m - {(r, c)})"
    using tst assms(2,3) by (auto simp: bm_rel_def)
  moreover have "bm_wf ops ?m'" using assms(1) size by (simp add: bm_wf_def)
  ultimately show ?thesis using assms(2,3) by (simp add: bm_set_def bm_idx_ok)
qed

lemma bm_resize_rel:
  assumes "bitvec_laws ops" "unat n * unat n < 2 ^ 31"
  shows "bm_wf ops (bm_resize ops m n)" and "bm_rel ops (bm_resize ops m n) = {}"
    and "bm_N (bm_resize ops m n) = n"
proof -
  show "bm_wf ops (bm_resize ops m n)" "bm_N (bm_resize ops m n) = n"
    using assms by (simp_all add: bm_wf_def bm_resize_def bitvec_lawsD)
  have "\<not> bv_test ops (bv_resize ops (bv_clear ops (bm_bv m)) (n * n)) (r * n + c)"
    if "r < n" "c < n" for r c
    using assms(1) idx_less_size [OF assms(2) that] by (simp add: bitvec_lawsD)
  then show "bm_rel ops (bm_resize ops m n) = {}"
    by (auto simp: bm_rel_def bm_resize_def)
qed

text \<open>What \<open>firstSuccessor\<close> and \<open>nextSuccessor\<close> return: the least column of the row beyond a bound.\<close>

definition least_succ :: "(u32 \<times> u32) set \<Rightarrow> u32 \<Rightarrow> (u32 \<Rightarrow> bool) \<Rightarrow> u32 \<Rightarrow> bool" where
  "least_succ R r beyond c \<longleftrightarrow>
     (c = no_bit \<and> (\<forall>c'. beyond c' \<longrightarrow> (r, c') \<notin> R)) \<or>
     (c \<noteq> no_bit \<and> beyond c \<and> (r, c) \<in> R \<and> (\<forall>c'. beyond c' \<longrightarrow> c' < c \<longrightarrow> (r, c') \<notin> R))"

lemma no_bit_not_less: "unat n * unat n < 2 ^ 31 \<Longrightarrow> (c :: u32) < n \<Longrightarrow> c \<noteq> no_bit"
  by (auto simp: no_bit_def)

lemma no_bit_not_less_sq: "unat n * unat n < 2 ^ 31 \<Longrightarrow> (i :: u32) < n * n \<Longrightarrow> i \<noteq> no_bit"
  by (auto simp: no_bit_def)

text \<open>Reading back a bit index \<open>i\<close> found at or after the beginning of row \<open>r\<close>.\<close>

lemma row_of_index:
  fixes n r i :: u32
  assumes b: "unat n * unat n < 2 ^ 31" and r: "r < n" and i: "r * n \<le> i" "i < n * n"
  shows "r * n + n \<le> i \<longleftrightarrow> \<not> i - r * n < n"
    and "i = r * n + (i - r * n)"
    and "r * n + n = no_bit + 1 \<Longrightarrow> False"
proof -
  have r0: "0 < n" using r by (metis word_not_simps(1) word_neq_0_conv)
  have u: "unat (r * n) = unat r * unat n" "unat (n * n) = unat n * unat n"
    using unat_idx(3,4) [OF b r r0] by auto
  have le: "unat r * unat n + unat n \<le> unat n * unat n"
  proof -
    have "Suc (unat r) * unat n \<le> unat n * unat n"
      using r by (intro mult_le_mono1) (simp add: word_less_nat_alt Suc_le_eq)
    then show ?thesis by simp
  qed
  have e: "unat (r * n + n) = unat r * unat n + unat n"
    using b le u by (simp add: unat_word_ariths)
  have s: "unat (i - r * n) = unat i - unat r * unat n"
    using i(1) u by (simp add: unat_sub)
  show "r * n + n \<le> i \<longleftrightarrow> \<not> i - r * n < n"
    using i(1) e s u by (auto simp: word_le_nat_alt word_less_nat_alt)
  show "i = r * n + (i - r * n)" by simp
  show "r * n + n = no_bit + 1 \<Longrightarrow> False"
    using e r0 by (auto simp: no_bit_def word_less_nat_alt dest: arg_cong [where f = unat])
qed

lemma bm_rel_index:
  "r < bm_N m \<Longrightarrow> c < bm_N m \<Longrightarrow> bv_test ops (bm_bv m) (r * bm_N m + c) \<longleftrightarrow> (r, c) \<in> bm_rel ops m"
  by (simp add: bm_rel_def)

lemma succ_of_scan:
  fixes r :: u32
  assumes wf: "bm_wf ops m" and r: "r < bm_N m"
    and scan: "if \<exists>i < bv_size ops (bm_bv m). from i \<and> bv_test ops (bm_bv m) i
       then from nxt \<and> nxt < bv_size ops (bm_bv m) \<and> bv_test ops (bm_bv m) nxt \<and>
            (\<forall>i < nxt. from i \<longrightarrow> \<not> bv_test ops (bm_bv m) i)
       else nxt = no_bit"
    and beyond: "\<And>c. c < bm_N m \<Longrightarrow> from (r * bm_N m + c) \<longleftrightarrow> beyond c"
    and from_ge: "\<And>i. from i \<Longrightarrow> i < bm_N m * bm_N m \<Longrightarrow> r * bm_N m \<le> i"
  shows "least_succ (bm_rel ops m) r beyond
     (if nxt = no_bit then no_bit
      else if r * bm_N m + bm_N m \<le> nxt then no_bit else nxt - r * bm_N m)"
proof -
  let ?n = "bm_N m"
  have b: "unat ?n * unat ?n < 2 ^ 31" and sz: "bv_size ops (bm_bv m) = ?n * ?n"
    using wf by (simp_all add: bm_wf_def)
  have hit: "from (r * ?n + c) \<and> r * ?n + c < ?n * ?n \<and> bv_test ops (bm_bv m) (r * ?n + c)"
    if "beyond c" "(r, c) \<in> bm_rel ops m" for c
    using that beyond [of c] bm_rel_bounds [OF that(2)] idx_less_size [OF b r, of c]
    by (auto simp: bm_rel_def)
  show ?thesis
  proof (cases "nxt = no_bit")
    case True
    have "(r, c) \<notin> bm_rel ops m" if "beyond c" for c
    proof
      assume "(r, c) \<in> bm_rel ops m"
      from hit [OF that this] scan sz True have "no_bit < ?n * ?n" by (metis (lifting))
      with no_bit_not_less_sq [OF b] show False by blast
    qed
    with True show ?thesis by (simp add: least_succ_def)
  next
    case False
    then have ex: "\<exists>i < bv_size ops (bm_bv m). from i \<and> bv_test ops (bm_bv m) i"
      using scan by (metis (lifting))
    with scan have nx: "from nxt" "nxt < ?n * ?n" "bv_test ops (bm_bv m) nxt"
      and least: "\<And>i. i < nxt \<Longrightarrow> from i \<Longrightarrow> \<not> bv_test ops (bm_bv m) i"
      using sz by (metis (lifting))+
    note ge = from_ge [OF nx(1,2)]
    note row = row_of_index [OF b r ge nx(2)]
    show ?thesis
    proof (cases "r * ?n + ?n \<le> nxt")
      case True
      have "(r, c) \<notin> bm_rel ops m" if "beyond c" for c
      proof
        assume c: "(r, c) \<in> bm_rel ops m"
        note h = hit [OF that c]
        have "\<not> r * ?n + c < nxt" using least h by blast
        then have "nxt \<le> r * ?n + c" by simp
        moreover have "r * ?n + c < r * ?n + ?n"
          using row_of_index(1) [OF b r, of "r * ?n + c"] h bm_rel_bounds [OF c]
            from_ge [of "r * ?n + c"] by (auto simp: not_le [symmetric])
        ultimately show False using True by auto
      qed
      with True False show ?thesis by (simp add: least_succ_def)
    next
      case inside: False
      let ?c = "nxt - r * ?n"
      have c: "?c < ?n" using row(1) inside by auto
      have "beyond ?c" using beyond [OF c] nx(1) by simp
      moreover have "(r, ?c) \<in> bm_rel ops m" using nx(3) c r by (simp add: bm_rel_def)
      moreover have "(r, c') \<notin> bm_rel ops m" if "beyond c'" "c' < ?c" for c'
      proof
        assume c': "(r, c') \<in> bm_rel ops m"
        note h = hit [OF that(1) c']
        have "c' < ?n" using bm_rel_bounds [OF c'] by simp
        note e1 = unat_idx(1) [OF b r this] and e2 = unat_idx(1) [OF b r c]
        have "r * ?n + c' < r * ?n + ?c"
          unfolding word_less_nat_alt e1 e2 using that(2) by (simp add: word_less_nat_alt)
        with least [of "r * ?n + c'"] h show False by simp
      qed
      ultimately show ?thesis using False inside no_bit_not_less [OF b c]
        by (simp add: least_succ_def)
    qed
  qed
qed

lemma firstSuccessor_least:
  assumes wf: "bm_wf ops m" and r: "r < bm_N m"
  shows "least_succ (bm_rel ops m) r (\<lambda>_. True) (bm_firstSuccessor ops m r)"
proof -
  let ?n = "bm_N m" and ?from = "\<lambda>i. r * bm_N m \<le> i"
  let ?nxt = "if r * ?n = 0 then bv_find_first ops (bm_bv m)
              else bv_find_next ops (bm_bv m) (r * ?n - 1)"
  have b: "unat ?n * unat ?n < 2 ^ 31" and sz: "bv_size ops (bm_bv m) = ?n * ?n"
    and laws: "bitvec_laws ops" using wf by (simp_all add: bm_wf_def)
  have r0: "0 < ?n" using r by (metis word_not_simps(1) word_neq_0_conv)
  have small: "unat (bv_size ops (bm_bv m)) < 2 ^ 31" using b sz unat_idx(3) [OF b r r0] by simp
  have beg: "r * ?n < ?n * ?n" using idx_less_size [OF b r r0] by simp
  have scan: "if \<exists>i < bv_size ops (bm_bv m). ?from i \<and> bv_test ops (bm_bv m) i
       then ?from ?nxt \<and> ?nxt < bv_size ops (bm_bv m) \<and> bv_test ops (bm_bv m) ?nxt \<and>
            (\<forall>i < ?nxt. ?from i \<longrightarrow> \<not> bv_test ops (bm_bv m) i)
       else ?nxt = no_bit"
  proof (cases "r * ?n = 0")
    case True
    show ?thesis unfolding True using bitvec_find(1) [OF laws small]
      by (simp only: simp_thms if_True word_zero_le)
  next
    case False
    then have u: "unat (r * ?n - 1) = unat (r * ?n) - 1" and pos: "0 < unat (r * ?n)"
      by (simp_all add: unat_minus_one unat_gt_0)
    have pred: "r * ?n - 1 < i \<longleftrightarrow> r * ?n \<le> i" for i
      unfolding word_less_nat_alt word_le_nat_alt u using pos by arith
    have p: "r * ?n - 1 < bv_size ops (bm_bv m)" using beg sz pred by simp
    show ?thesis using bitvec_find(2) [OF laws small p] unfolding pred
      by (simp only: False if_False simp_thms)
  qed
  have "least_succ (bm_rel ops m) r (\<lambda>_. True)
     (if ?nxt = no_bit then no_bit
      else if r * ?n + ?n \<le> ?nxt then no_bit else ?nxt - r * ?n)"
  proof (rule succ_of_scan [OF wf r scan])
    fix c assume "c < ?n"
    note e = unat_idx(1,4) [OF b r this]
    show "r * ?n \<le> r * ?n + c \<longleftrightarrow> True" by (simp add: word_le_nat_alt e)
  qed simp
  then show ?thesis by (simp add: bm_firstSuccessor_def Let_def mult.commute)
qed

lemma nextSuccessor_least:
  assumes wf: "bm_wf ops m" and r: "r < bm_N m" and p: "prev < bm_N m"
  shows "least_succ (bm_rel ops m) r (\<lambda>c. prev < c) (bm_nextSuccessor ops m r prev)"
proof -
  let ?n = "bm_N m" and ?from = "\<lambda>i. r * bm_N m + prev < i"
  let ?nxt = "bv_find_next ops (bm_bv m) (r * ?n + prev)"
  have b: "unat ?n * unat ?n < 2 ^ 31" and sz: "bv_size ops (bm_bv m) = ?n * ?n"
    and laws: "bitvec_laws ops" using wf by (simp_all add: bm_wf_def)
  have small: "unat (bv_size ops (bm_bv m)) < 2 ^ 31" using b sz unat_idx(3) [OF b r p] by simp
  have at: "r * ?n + prev < bv_size ops (bm_bv m)" using idx_less_size [OF b r p] sz by simp
  have "least_succ (bm_rel ops m) r (\<lambda>c. prev < c)
     (if ?nxt = no_bit then no_bit
      else if r * ?n + ?n \<le> ?nxt then no_bit else ?nxt - r * ?n)"
  proof (rule succ_of_scan [OF wf r bitvec_find(2) [OF laws small at]])
    fix c assume c: "c < ?n"
    show "r * ?n + prev < r * ?n + c \<longleftrightarrow> prev < c"
      by (simp add: word_less_nat_alt unat_idx(1) [OF b r c] unat_idx(1) [OF b r p])
  next
    fix i assume "r * ?n + prev < i"
    moreover have "r * ?n \<le> r * ?n + prev"
      by (simp add: word_le_nat_alt unat_idx(1,4) [OF b r p])
    ultimately show "r * ?n \<le> i" by simp
  qed
  then show ?thesis by (simp add: bm_nextSuccessor_def Let_def mult.commute)
qed

lemma least_succ_mem: "least_succ R r P c \<Longrightarrow> c \<noteq> no_bit \<Longrightarrow> (r, c) \<in> R \<and> P c"
  by (simp add: least_succ_def)

section \<open>The inner loop: row i becomes row i or row j\<close>

text \<open>Columns that the scan of a row has passed when its cursor stands at \<open>k\<close>.\<close>

definition passed :: "u32 \<Rightarrow> u32 \<Rightarrow> bool" where
  "passed k c \<longleftrightarrow> k = no_bit \<or> c < k"

definition or_row_inv where
  "or_row_inv ops m0 c0 i j = (\<lambda>((m, changedI, nAdd :: u32), k).
     bm_wf ops m \<and> bm_N m = bm_N m0 \<and>
     bm_rel ops m = bm_rel ops m0 \<union> {(i, c) | c. (j, c) \<in> bm_rel ops m0 \<and> passed k c} \<and>
     (k = no_bit \<or> (j, k) \<in> bm_rel ops m0) \<and>
     changedI = (c0 \<or> bm_rel ops m \<noteq> bm_rel ops m0))"

definition cursor_measure :: "u32 \<Rightarrow> u32 \<Rightarrow> nat" where
  "cursor_measure n k = (if k = no_bit then 0 else Suc (unat n - unat k))"

lemma cursor_measure_less:
  assumes "k < n" "k' = no_bit \<or> k < k' \<and> k' < n" "k \<noteq> no_bit"
  shows "cursor_measure n k' < cursor_measure n k"
  using assms by (auto simp: cursor_measure_def word_less_nat_alt)

lemma passed_next:
  assumes "least_succ R r (\<lambda>c. k < c) k'" "k \<noteq> no_bit" "(r, c) \<in> R"
  shows "passed k' c \<longleftrightarrow> passed k c \<or> c = k"
  using assms by (auto simp: least_succ_def passed_def) (metis linorder_less_linear)+

lemma or_row_step_ok:
  assumes inv: "or_row_inv ops m0 c0 i j s" and go: "snd s \<noteq> no_bit" and i: "i < bm_N m0"
  shows "\<exists>s'. or_row_step ops i j s = Inr s' \<and> or_row_inv ops m0 c0 i j s' \<and>
     cursor_measure (bm_N m0) (snd s') < cursor_measure (bm_N m0) (snd s)"
proof -
  obtain m changedI nAdd k where s: "s = ((m, changedI, nAdd), k)" by (cases s) auto
  let ?old = "bm_rel ops m0" and ?R = "bm_rel ops m"
  note I = inv [unfolded or_row_inv_def s prod.case]
  have wf: "bm_wf ops m" and N: "bm_N m = bm_N m0" and kj: "k = no_bit \<or> (j, k) \<in> ?old"
    and R: "?R = ?old \<union> {(i, c) | c. (j, c) \<in> ?old \<and> passed k c}"
    and ch: "changedI = (c0 \<or> ?R \<noteq> ?old)"
    using I by blast+
  have k: "k \<noteq> no_bit" "(j, k) \<in> ?old" using go kj by (simp_all add: s)
  have jk: "j < bm_N m" "k < bm_N m" and im: "i < bm_N m"
    using bm_rel_bounds [OF k(2)] i by (simp_all add: N)
  obtain m' where m': "bm_wf ops m'" "bm_N m' = bm_N m" "bm_rel ops m' = insert (i, k) ?R"
    and run: "or_row_step ops i j s =
       Inr ((m', changedI \<or> (i, k) \<notin> ?R, if (i, k) \<in> ?R then nAdd else nAdd + 1),
         bm_nextSuccessor ops m' j k)"
  proof (cases "(i, k) \<in> ?R")
    case True
    show ?thesis
      by (rule that [of m]) (use True wf in \<open>auto simp: s or_row_step_def bm_test_ok im jk\<close>)
  next
    case False
    obtain m' where "bm_set ops m i k True = Inr m'" "bm_wf ops m'" "bm_N m' = bm_N m"
      "bm_rel ops m' = insert (i, k) ?R"
      using bm_set_wf [OF wf im jk(2), of True] by auto
    then show ?thesis
      by (intro that [of m']) (use False in \<open>auto simp: s or_row_step_def bm_test_ok im jk\<close>)
  qed
  let ?k' = "bm_nextSuccessor ops m' j k"
  have ls: "least_succ (bm_rel ops m') j (\<lambda>c. k < c) ?k'"
    using nextSuccessor_least [OF m'(1)] jk m'(2) by simp
  have rowj: "(j, c) \<in> bm_rel ops m' \<longleftrightarrow> (j, c) \<in> ?old" for c
    using k(2) by (auto simp: m'(3) R)
  have adv: "passed ?k' c \<longleftrightarrow> passed k c \<or> c = k" if "(j, c) \<in> ?old" for c
    using passed_next [OF ls k(1)] that rowj by simp
  have "bm_rel ops m' = ?old \<union> {(i, c) | c. (j, c) \<in> ?old \<and> passed ?k' c}"
    using adv k(2) by (auto simp: m'(3) R)
  moreover have "?k' = no_bit \<or> (j, ?k') \<in> ?old" using least_succ_mem [OF ls] rowj by blast
  moreover have "(changedI \<or> (i, k) \<notin> ?R) = (c0 \<or> bm_rel ops m' \<noteq> ?old)"
    using ch by (auto simp: m'(3) R)
  ultimately have "or_row_inv ops m0 c0 i j ((m', changedI \<or> (i, k) \<notin> ?R,
      if (i, k) \<in> ?R then nAdd else nAdd + 1), ?k')"
    using m'(1,2) N by (simp add: or_row_inv_def)
  moreover have "?k' = no_bit \<or> k < ?k' \<and> ?k' < bm_N m0"
    using least_succ_mem [OF ls] bm_rel_bounds [of j ?k' ops m'] m'(2) N by auto
  then have "cursor_measure (bm_N m0) ?k' < cursor_measure (bm_N m0) k"
    using cursor_measure_less jk(2) k(1) N by simp
  ultimately show ?thesis unfolding run by (auto simp only: s snd_conv intro!: exI)
qed

lemma or_row_correct:
  assumes wf: "bm_wf ops m" and ij: "i < bm_N m" "j < bm_N m"
  shows "\<exists>m' nAdd'. or_row ops i j (m, changedI, nAdd) =
      Inr (m', changedI \<or> bm_rel ops m' \<noteq> bm_rel ops m, nAdd') \<and>
     bm_wf ops m' \<and> bm_N m' = bm_N m \<and>
     bm_rel ops m' = bm_rel ops m \<union> {(i, c) | c. (j, c) \<in> bm_rel ops m}"
proof -
  let ?k = "bm_firstSuccessor ops m j"
  have ls: "least_succ (bm_rel ops m) j (\<lambda>_. True) ?k" by (rule firstSuccessor_least [OF wf ij(2)])
  then have start: "or_row_inv ops m changedI i j ((m, changedI, nAdd), ?k)"
    using wf by (auto simp: or_row_inv_def passed_def least_succ_def)
  have "\<exists>t. whileE (\<lambda>(_, k). k \<noteq> no_bit) (or_row_step ops i j) ((m, changedI, nAdd), ?k) = Inr t \<and>
      or_row_inv ops m changedI i j t \<and> \<not> (case t of (_, k) \<Rightarrow> k \<noteq> no_bit)"
  proof (rule whileE_total [where R = "measure (\<lambda>s. cursor_measure (bm_N m) (snd s))"])
    show "\<exists>s'. or_row_step ops i j s = Inr s' \<and> or_row_inv ops m changedI i j s' \<and>
        (s', s) \<in> measure (\<lambda>s. cursor_measure (bm_N m) (snd s))"
      if "or_row_inv ops m changedI i j s" "case s of (_, k) \<Rightarrow> k \<noteq> no_bit" for s
      using or_row_step_ok [OF that(1) _ ij(1)] that(2) by (cases s) auto
  qed (use start in auto)
  then obtain m' ch' nAdd' where
    "whileE (\<lambda>(_, k). k \<noteq> no_bit) (or_row_step ops i j) ((m, changedI, nAdd), ?k)
       = Inr ((m', ch', nAdd'), no_bit)" "or_row_inv ops m changedI i j ((m', ch', nAdd'), no_bit)"
    by auto
  then show ?thesis by (auto simp: or_row_def or_row_inv_def passed_def)
qed

section \<open>One pass over the successors of row i\<close>

text \<open>The bits that row \<open>i\<close> had before the pass are all visited; a bit gained during the pass came from
  some visited row \<open>j' \<noteq> i\<close> that is now contained in row \<open>i\<close>.\<close>

definition row_pass_inv where
  "row_pass_inv ops m0 i = (\<lambda>((m, changedI, nAdd :: u32), j).
     bm_wf ops m \<and> bm_N m = bm_N m0 \<and> bm_rel ops m0 \<subseteq> bm_rel ops m \<and>
     bm_rel ops m \<subseteq> (bm_rel ops m0)\<^sup>+ \<and>
     (\<forall>x c. x \<noteq> i \<longrightarrow> (x, c) \<in> bm_rel ops m \<longrightarrow> (x, c) \<in> bm_rel ops m0) \<and>
     (j = no_bit \<or> (i, j) \<in> bm_rel ops m) \<and>
     (\<forall>j'. (i, j') \<in> bm_rel ops m0 \<longrightarrow> passed j j' \<longrightarrow> bm_rel ops m `` {j'} \<subseteq> bm_rel ops m `` {i}) \<and>
     (\<forall>c. (i, c) \<in> bm_rel ops m \<longrightarrow> (i, c) \<notin> bm_rel ops m0 \<longrightarrow>
        (\<exists>j'. j' \<noteq> i \<and> (i, j') \<in> bm_rel ops m \<and> (j', c) \<in> bm_rel ops m \<and>
              bm_rel ops m `` {j'} \<subseteq> bm_rel ops m `` {i})) \<and>
     changedI = (bm_rel ops m \<noteq> bm_rel ops m0))"

lemma row_pass_step_ok:
  assumes inv: "row_pass_inv ops m0 i s" and go: "snd s \<noteq> no_bit" and i: "i < bm_N m0"
  shows "\<exists>s'. row_pass_step ops i s = Inr s' \<and> row_pass_inv ops m0 i s' \<and>
     cursor_measure (bm_N m0) (snd s') < cursor_measure (bm_N m0) (snd s)"
proof -
  obtain m changedI nAdd j where s: "s = ((m, changedI, nAdd), j)" by (cases s) auto
  let ?old = "bm_rel ops m0" and ?R = "bm_rel ops m"
  note I = inv [unfolded row_pass_inv_def s prod.case]
  have wf: "bm_wf ops m" and N: "bm_N m = bm_N m0" and sub: "?old \<subseteq> ?R" "?R \<subseteq> ?old\<^sup>+"
    and same: "\<And>x c. x \<noteq> i \<Longrightarrow> (x, c) \<in> ?R \<Longrightarrow> (x, c) \<in> ?old"
    and jor: "j = no_bit \<or> (i, j) \<in> ?R"
    and vis: "\<And>j'. (i, j') \<in> ?old \<Longrightarrow> passed j j' \<Longrightarrow> ?R `` {j'} \<subseteq> ?R `` {i}"
    and new: "\<And>c. (i, c) \<in> ?R \<Longrightarrow> (i, c) \<notin> ?old \<Longrightarrow>
        \<exists>j'. j' \<noteq> i \<and> (i, j') \<in> ?R \<and> (j', c) \<in> ?R \<and> ?R `` {j'} \<subseteq> ?R `` {i}"
    and ch: "changedI = (?R \<noteq> ?old)"
    using I by blast+
  have j: "j \<noteq> no_bit" "(i, j) \<in> ?R" using go jor by (simp_all add: s)
  have ij: "i < bm_N m" "j < bm_N m" using bm_rel_bounds [OF j(2)] by auto
  obtain m' nAdd' where run: "or_row ops i j (m, changedI, nAdd) =
      Inr (m', changedI \<or> bm_rel ops m' \<noteq> ?R, nAdd')"
    and wf': "bm_wf ops m'" and N': "bm_N m' = bm_N m"
    and R': "bm_rel ops m' = ?R \<union> {(i, c) | c. (j, c) \<in> ?R}"
    using or_row_correct [OF wf ij] by blast
  let ?new = "bm_rel ops m'" and ?j' = "bm_nextSuccessor ops m' i j"
  have ls: "least_succ ?new i (\<lambda>c. j < c) ?j'"
    using nextSuccessor_least [OF wf', of i j] ij N' by simp
  have rows: "?new `` {x} = (if x = i then ?R `` {i} \<union> ?R `` {j} else ?R `` {x})" for x
    by (auto simp: R')
  have step: "row_pass_inv ops m0 i ((m', changedI \<or> ?new \<noteq> ?R, nAdd'), ?j')"
    unfolding row_pass_inv_def prod.case
  proof (intro conjI allI impI)
    show "bm_wf ops m'" "bm_N m' = bm_N m0" using wf' N' N by auto
    show "?old \<subseteq> ?new" using sub(1) R' by auto
    have "(i, c) \<in> ?old\<^sup>+" if "(j, c) \<in> ?R" for c
      using sub(2) j(2) that by (meson subsetD trancl_trans)
    then show "?new \<subseteq> ?old\<^sup>+" using sub(2) R' by auto
    show "(x, c) \<in> ?old" if "x \<noteq> i" "(x, c) \<in> ?new" for x c using same that by (auto simp: R')
    show "?j' = no_bit \<or> (i, ?j') \<in> ?new" using least_succ_mem [OF ls] by blast
    show "?new `` {x} \<subseteq> ?new `` {i}" if "(i, x) \<in> ?old" "passed ?j' x" for x
    proof -
      have "(i, x) \<in> ?new" using that(1) sub(1) R' by auto
      with passed_next [OF ls j(1)] that(2) consider "passed j x" | "x = j" by blast
      then show ?thesis by cases (use vis [OF that(1)] in \<open>auto simp: rows\<close>)
    qed
    show "\<exists>x. x \<noteq> i \<and> (i, x) \<in> ?new \<and> (x, c) \<in> ?new \<and> ?new `` {x} \<subseteq> ?new `` {i}"
      if c: "(i, c) \<in> ?new" "(i, c) \<notin> ?old" for c
    proof (cases "(i, c) \<in> ?R")
      case True
      from new [OF this c(2)] obtain x where
        "x \<noteq> i" "(i, x) \<in> ?R" "(x, c) \<in> ?R" "?R `` {x} \<subseteq> ?R `` {i}" by blast
      then show ?thesis by (intro exI [of _ x]) (auto simp: R')
    next
      case False
      with c(1) have jc: "(j, c) \<in> ?R" by (auto simp: R')
      with False have "j \<noteq> i" by auto
      with jc j(2) show ?thesis by (intro exI [of _ j]) (auto simp: R')
    qed
    show "(changedI \<or> ?new \<noteq> ?R) = (?new \<noteq> ?old)" using ch sub(1) R' by auto
  qed
  have "?j' = no_bit \<or> j < ?j' \<and> ?j' < bm_N m0"
    using least_succ_mem [OF ls] bm_rel_bounds [of i ?j' ops m'] N' N by auto
  then have "cursor_measure (bm_N m0) ?j' < cursor_measure (bm_N m0) j"
    using cursor_measure_less ij(2) j(1) N by simp
  with step show ?thesis by (simp add: s row_pass_step_def run)
qed

text \<open>The effect of one pass on the relation.\<close>

definition row_closed :: "(u32 \<times> u32) set \<Rightarrow> u32 \<Rightarrow> (u32 \<times> u32) set \<Rightarrow> bool" where
  "row_closed R i R' \<longleftrightarrow> R \<subseteq> R' \<and> R' \<subseteq> R\<^sup>+ \<and> (\<forall>x. x \<noteq> i \<longrightarrow> R' `` {x} = R `` {x}) \<and>
     (\<forall>j. (i, j) \<in> R \<longrightarrow> R' `` {j} \<subseteq> R' `` {i}) \<and>
     (\<forall>c. (i, c) \<in> R' \<longrightarrow> (i, c) \<notin> R \<longrightarrow>
        (\<exists>j. j \<noteq> i \<and> (i, j) \<in> R' \<and> (j, c) \<in> R' \<and> R' `` {j} \<subseteq> R' `` {i}))"

lemma row_pass_correct:
  assumes wf: "bm_wf ops m" and i: "i < bm_N m"
  shows "\<exists>m' nAdd'. row_pass ops i (m, False, nAdd) = Inr (m', bm_rel ops m' \<noteq> bm_rel ops m, nAdd') \<and>
     bm_wf ops m' \<and> bm_N m' = bm_N m \<and> row_closed (bm_rel ops m) i (bm_rel ops m')"
proof -
  let ?j = "bm_firstSuccessor ops m i"
  have ls: "least_succ (bm_rel ops m) i (\<lambda>_. True) ?j" by (rule firstSuccessor_least [OF wf i])
  then have start: "row_pass_inv ops m i ((m, False, nAdd), ?j)"
    using wf by (auto simp: row_pass_inv_def passed_def least_succ_def)
  have "\<exists>t. whileE (\<lambda>(_, j). j \<noteq> no_bit) (row_pass_step ops i) ((m, False, nAdd), ?j) = Inr t \<and>
      row_pass_inv ops m i t \<and> \<not> (case t of (_, j) \<Rightarrow> j \<noteq> no_bit)"
  proof (rule whileE_total [where R = "measure (\<lambda>s. cursor_measure (bm_N m) (snd s))"])
    show "\<exists>s'. row_pass_step ops i s = Inr s' \<and> row_pass_inv ops m i s' \<and>
        (s', s) \<in> measure (\<lambda>s. cursor_measure (bm_N m) (snd s))"
      if "row_pass_inv ops m i s" "case s of (_, j) \<Rightarrow> j \<noteq> no_bit" for s
      using row_pass_step_ok [OF that(1) _ i] that(2) by (cases s) auto
  qed (use start in auto)
  then obtain m' ch' nAdd' where run:
    "whileE (\<lambda>(_, j). j \<noteq> no_bit) (row_pass_step ops i) ((m, False, nAdd), ?j)
       = Inr ((m', ch', nAdd'), no_bit)" and inv: "row_pass_inv ops m i ((m', ch', nAdd'), no_bit)"
    by auto
  note I = inv [unfolded row_pass_inv_def prod.case]
  have "bm_wf ops m'" "bm_N m' = bm_N m" "ch' = (bm_rel ops m' \<noteq> bm_rel ops m)"
    "row_closed (bm_rel ops m) i (bm_rel ops m')"
    using I unfolding row_closed_def passed_def by blast+
  with run show ?thesis by (auto simp: row_pass_def)
qed

section \<open>The worklist of rows\<close>

lemma set_rows_below: "set (rows_below n) = {r. r < n}"
proof -
  have "r \<in> word_of_nat ` {0..<unat n}" if "r < n" for r
    using that by (intro image_eqI [of _ _ "unat r"]) (simp_all add: word_less_nat_alt)
  moreover have "word_of_nat k < n" if "k < unat n" for k
  proof -
    have "k < 2 ^ 32" using that unsigned_less [of n, where 'a = nat] by simp
    then show ?thesis using that by (simp add: word_less_nat_alt unat_of_nat)
  qed
  ultimately show ?thesis by (auto simp: rows_below_def)
qed

lemma push_predecessors_ok:
  assumes i: "i < bm_N m"
  shows "\<exists>wl'. push_predecessors ops m i wl = Inr wl' \<and>
     set wl' = set wl \<union> {p. (p, i) \<in> bm_rel ops m}"
proof -
  let ?f = "\<lambda>p wl. andThen (bm_test ops m p i) (\<lambda>t. Inr (if t then uset_insert p wl else wl))"
  have "\<exists>wl'. foldE ?f ps wl = Inr wl' \<and> set wl' = set wl \<union> {p \<in> set ps. (p, i) \<in> bm_rel ops m}"
    if "\<forall>p \<in> set ps. p < bm_N m" for ps
    using that
  proof (induction ps arbitrary: wl)
    case Nil
    then show ?case by simp
  next
    case (Cons p ps)
    let ?wl = "if (p, i) \<in> bm_rel ops m then uset_insert p wl else wl"
    obtain wl' where wl': "foldE ?f ps ?wl = Inr wl'"
      "set wl' = set ?wl \<union> {p \<in> set ps. (p, i) \<in> bm_rel ops m}"
      using Cons.IH [of ?wl] Cons.prems by auto
    have "foldE ?f (p # ps) wl = Inr wl'" using Cons.prems i wl'(1) by (simp add: bm_test_ok)
    moreover have "set wl' = set wl \<union> {q \<in> set (p # ps). (q, i) \<in> bm_rel ops m}"
      using wl'(2) by auto
    ultimately show ?case by blast
  qed
  from this [of "rows_below (bm_N m)"] obtain wl' where
    "push_predecessors ops m i wl = Inr wl'"
    "set wl' = set wl \<union> {p \<in> {r. r < bm_N m}. (p, i) \<in> bm_rel ops m}"
    by (auto simp: set_rows_below push_predecessors_def)
  moreover have "{p \<in> {r. r < bm_N m}. (p, i) \<in> bm_rel ops m} = {p. (p, i) \<in> bm_rel ops m}"
    using bm_rel_bounds [of _ i ops m] by blast
  ultimately show ?thesis by auto
qed

text \<open>A row that is not on the worklist contains each of its successor rows, unless the missing part is
  explained by a row that is on the worklist and already contained.\<close>

definition settled :: "(u32 \<times> u32) set \<Rightarrow> u32 set \<Rightarrow> u32 \<Rightarrow> bool" where
  "settled R W x \<longleftrightarrow> (\<forall>j. (x, j) \<in> R \<longrightarrow> R `` {j} \<subseteq> R `` {x} \<or>
     (\<exists>j'. j' \<in> W \<and> (x, j') \<in> R \<and> (j', j) \<in> R \<and> R `` {j'} \<subseteq> R `` {x}))"

lemma settled_row:
  assumes rc: "row_closed R i R'" and W: "\<And>x. x \<notin> W \<Longrightarrow> settled R W x"
  shows "settled R' (W - {i}) i"
  unfolding settled_def
proof (intro allI impI)
  fix c assume c: "(i, c) \<in> R'"
  show "R' `` {c} \<subseteq> R' `` {i} \<or>
     (\<exists>j'. j' \<in> W - {i} \<and> (i, j') \<in> R' \<and> (j', c) \<in> R' \<and> R' `` {j'} \<subseteq> R' `` {i})"
  proof (cases "(i, c) \<in> R")
    case True
    with rc show ?thesis by (simp add: row_closed_def)
  next
    case new: False
    with rc c obtain j where j: "j \<noteq> i" "(i, j) \<in> R'" "(j, c) \<in> R'" "R' `` {j} \<subseteq> R' `` {i}"
      by (auto simp: row_closed_def)
    have same: "R' `` {x} = R `` {x}" if "x \<noteq> i" for x using rc that by (simp add: row_closed_def)
    show ?thesis
    proof (cases "j \<in> W")
      case True
      with j show ?thesis by blast
    next
      case False
      have "(j, c) \<in> R" using j(1,3) same by blast
      with W [OF False] consider "R `` {c} \<subseteq> R `` {j}"
        | j' where "j' \<in> W" "(j, j') \<in> R" "(j', c) \<in> R" "R `` {j'} \<subseteq> R `` {j}"
        unfolding settled_def by blast
      then show ?thesis
      proof cases
        case 1
        then show ?thesis using j same [of c] same [of j] by (cases "c = i") auto
      next
        case 2
        have "j' \<noteq> i" using 2(3) new by blast
        then have "R' `` {j'} \<subseteq> R' `` {i}" "(i, j') \<in> R'" "(j', c) \<in> R'"
          using 2 j same [of j'] same [of j] by blast+
        with 2(1) \<open>j' \<noteq> i\<close> show ?thesis by blast
      qed
    qed
  qed
qed

lemma settled_other:
  assumes rc: "row_closed R i R'" and W: "settled R W x" and x: "x \<noteq> i"
    and nochange: "R' = R \<or> (x, i) \<notin> R'"
  shows "settled R' (W - {i}) x"
  unfolding settled_def
proof (intro allI impI)
  fix c assume c: "(x, c) \<in> R'"
  have same: "R' `` {z} = R `` {z}" if "z \<noteq> i" for z using rc that by (simp add: row_closed_def)
  have "(x, c) \<in> R" using c x same by blast
  with W consider "R `` {c} \<subseteq> R `` {x}"
    | j' where "j' \<in> W" "(x, j') \<in> R" "(j', c) \<in> R" "R `` {j'} \<subseteq> R `` {x}"
    unfolding settled_def by blast
  then show "R' `` {c} \<subseteq> R' `` {x} \<or>
     (\<exists>j'. j' \<in> W - {i} \<and> (x, j') \<in> R' \<and> (j', c) \<in> R' \<and> R' `` {j'} \<subseteq> R' `` {x})"
  proof cases
    case 1
    with nochange c same [OF x] same [of c] show ?thesis by (cases "c = i") auto
  next
    case 2
    show ?thesis
    proof (cases "j' = i")
      case True
      with 2 same [OF x] nochange have eq: "R' = R" by blast
      with rc 2 True have "R `` {c} \<subseteq> R `` {i}" by (simp add: row_closed_def)
      with 2 True eq show ?thesis by blast
    next
      case False
      have "R' `` {j'} \<subseteq> R' `` {x}" "(x, j') \<in> R'" "(j', c) \<in> R'"
        using 2 same [OF x] same [OF False] by blast+
      with 2(1) False show ?thesis by blast
    qed
  qed
qed

lemma settled_mono: "settled R W x \<Longrightarrow> W \<subseteq> W' \<Longrightarrow> settled R W' x"
  unfolding settled_def by blast

definition closure_inv where
  "closure_inv ops m0 = (\<lambda>(m, nAdd :: u32, wl).
     bm_wf ops m \<and> bm_N m = bm_N m0 \<and> bm_rel ops m0 \<subseteq> bm_rel ops m \<and>
     bm_rel ops m \<subseteq> (bm_rel ops m0)\<^sup>+ \<and> (\<forall>x \<in> set wl. x < bm_N m0) \<and>
     (\<forall>x. x \<notin> set wl \<longrightarrow> settled (bm_rel ops m) (set wl) x))"

definition closure_measure :: "'bv bitvec_ops \<Rightarrow> (('bv bit_matrix \<times> u32 \<times> u32 list) \<times>
    ('bv bit_matrix \<times> u32 \<times> u32 list)) set" where
  "closure_measure ops = inv_image (less_than <*lex*> less_than)
     (\<lambda>(m, nAdd, wl). (card (UNIV :: (u32 \<times> u32) set) - card (bm_rel ops m), length wl))"

lemma closure_step_ok:
  assumes inv: "closure_inv ops m0 s" and ne: "snd (snd s) \<noteq> []"
  shows "\<exists>s'. transitiveClosure_step ops s = Inr s' \<and> closure_inv ops m0 s' \<and>
     (s', s) \<in> closure_measure ops"
proof -
  obtain m nAdd i wl where s: "s = (m, nAdd, i # wl)" using ne by (cases s; cases "snd (snd s)") auto
  let ?R = "bm_rel ops m"
  note I = inv [unfolded closure_inv_def s prod.case]
  have wf: "bm_wf ops m" and N: "bm_N m = bm_N m0" and i: "i < bm_N m"
    and sub: "bm_rel ops m0 \<subseteq> ?R" "?R \<subseteq> (bm_rel ops m0)\<^sup>+" and wlN: "\<forall>x \<in> set wl. x < bm_N m0"
    and settled: "\<And>x. x \<notin> set (i # wl) \<Longrightarrow> settled ?R (set (i # wl)) x"
    using I by auto
  obtain m' nAdd' where run: "row_pass ops i (m, False, nAdd) = Inr (m', bm_rel ops m' \<noteq> ?R, nAdd')"
    and wf': "bm_wf ops m'" and N': "bm_N m' = bm_N m" and rc: "row_closed ?R i (bm_rel ops m')"
    using row_pass_correct [OF wf i] by blast
  let ?new = "bm_rel ops m'"
  obtain wl' where go: "transitiveClosure_step ops s = Inr (m', nAdd', wl')"
    and wl': "set wl' = set wl \<union> (if ?new \<noteq> ?R then {p. (p, i) \<in> ?new} else {})"
    and same: "?new = ?R \<Longrightarrow> wl' = wl"
  proof (cases "?new = ?R")
    case True
    then show ?thesis by (intro that [of wl]) (auto simp: s transitiveClosure_step_def run)
  next
    case False
    obtain wl' where "push_predecessors ops m' i wl = Inr wl'"
      "set wl' = set wl \<union> {p. (p, i) \<in> ?new}"
      using push_predecessors_ok i N' by metis
    with False show ?thesis
      by (intro that [of wl']) (auto simp: s transitiveClosure_step_def run)
  qed
  have mono: "set (i # wl) - {i} \<subseteq> set wl'" using wl' by auto
  have "settled ?new (set wl') x" if x: "x \<notin> set wl'" for x
  proof (cases "x = i")
    case True
    then show ?thesis using settled_mono [OF settled_row [OF rc settled] mono] by simp
  next
    case False
    have "?new = ?R \<or> (x, i) \<notin> ?new" using x wl' by (auto split: if_splits)
    moreover have "settled ?R (set (i # wl)) x" using settled x wl' False by auto
    ultimately show ?thesis using settled_mono [OF settled_other [OF rc _ False] mono] by simp
  qed
  moreover have "?new \<subseteq> (bm_rel ops m0)\<^sup>+"
    using rc trancl_subset_trancl [OF sub(2)] unfolding row_closed_def by auto
  moreover have "bm_rel ops m0 \<subseteq> ?new" using rc sub(1) by (auto simp: row_closed_def)
  moreover have "\<forall>x \<in> set wl'. x < bm_N m0"
    using wl' wlN bm_rel_bounds [of _ i ops m'] N N' by (auto split: if_splits)
  ultimately have "closure_inv ops m0 (m', nAdd', wl')"
    using wf' N N' by (simp add: closure_inv_def)
  moreover have "((m', nAdd', wl'), s) \<in> closure_measure ops"
  proof (cases "?new = ?R")
    case True
    then show ?thesis using same by (simp add: s closure_measure_def)
  next
    case False
    then have "?R \<subset> ?new" using rc by (auto simp: row_closed_def)
    then have "card ?R < card ?new" by (simp add: psubset_card_mono)
    moreover have "card ?new \<le> card (UNIV :: (u32 \<times> u32) set)" by (rule card_mono) auto
    ultimately have "card (UNIV :: (u32 \<times> u32) set) - card ?new < card (UNIV :: (u32 \<times> u32) set) - card ?R"
      by arith
    then show ?thesis by (simp only: s closure_measure_def in_inv_image in_lex_prod prod.case less_than_iff)
        simp
  qed
  ultimately show ?thesis using go by blast
qed

theorem transitiveClosure_correct:
  assumes wf: "bm_wf ops m"
  shows "\<exists>m'. bm_transitiveClosure ops m = Inr m' \<and> bm_wf ops m' \<and> bm_N m' = bm_N m \<and>
     bm_rel ops m' = (bm_rel ops m)\<^sup>+"
proof -
  have "settled (bm_rel ops m) W x" if "\<not> x < bm_N m" for x W
    using that bm_rel_bounds [of x] by (auto simp: settled_def)
  then have start: "closure_inv ops m (m, 0, rows_below (bm_N m))"
    using wf by (auto simp: closure_inv_def set_rows_below)
  have "\<exists>t. whileE (\<lambda>(_, _, wl). wl \<noteq> []) (transitiveClosure_step ops) (m, 0, rows_below (bm_N m)) = Inr t
      \<and> closure_inv ops m t \<and> \<not> (case t of (_, _, wl) \<Rightarrow> wl \<noteq> [])"
  proof (rule whileE_total [where R = "closure_measure ops"])
    show "wf (closure_measure ops)" by (auto simp: closure_measure_def)
    show "\<exists>s'. transitiveClosure_step ops s = Inr s' \<and> closure_inv ops m s' \<and>
        (s', s) \<in> closure_measure ops"
      if "closure_inv ops m s" "case s of (_, _, wl) \<Rightarrow> wl \<noteq> []" for s
      using closure_step_ok [OF that(1)] that(2) by (cases s) auto
  qed (rule start)
  then obtain m' nAdd' where run: "whileE (\<lambda>(_, _, wl). wl \<noteq> []) (transitiveClosure_step ops)
      (m, 0, rows_below (bm_N m)) = Inr (m', nAdd', [])" and inv: "closure_inv ops m (m', nAdd', [])"
    by auto
  let ?R = "bm_rel ops m'"
  have set: "settled ?R {} x" for x using inv by (simp add: closure_inv_def)
  have "trans ?R"
  proof (rule transI)
    fix x y z assume "(x, y) \<in> ?R" "(y, z) \<in> ?R"
    with set [of x] show "(x, z) \<in> ?R" unfolding settled_def by blast
  qed
  then have "?R\<^sup>+ = ?R" by (rule trancl_id)
  moreover have "bm_rel ops m \<subseteq> ?R" "?R \<subseteq> (bm_rel ops m)\<^sup>+"
    using inv by (auto simp: closure_inv_def)
  ultimately have "?R = (bm_rel ops m)\<^sup>+" using trancl_subset_mono by blast
  with run inv show ?thesis by (auto simp: bm_transitiveClosure_def closure_inv_def)
qed

section \<open>The interface its clients rely on\<close>

text \<open>\<open>SCCDAG\<close> uses a matrix as an index: resize it, set one bit per edge, close it, then ask. The laws
  are stated for any provider \<open>'m\<close>; \<open>'p\<close> is what the provider itself takes as a parameter.\<close>

locale reachability_index =
  fixes valid :: "'p \<Rightarrow> bool" and good :: "'p \<Rightarrow> 'm \<Rightarrow> bool" and dim :: "'m \<Rightarrow> u32"
    and rel :: "'p \<Rightarrow> 'm \<Rightarrow> (u32 \<times> u32) set"
    and resize :: "'p \<Rightarrow> 'm \<Rightarrow> u32 \<Rightarrow> 'm" and setbit :: "'p \<Rightarrow> 'm \<Rightarrow> u32 \<Rightarrow> u32 \<Rightarrow> bool \<Rightarrow> 'm res"
    and closure :: "'p \<Rightarrow> 'm \<Rightarrow> 'm res" and test :: "'p \<Rightarrow> 'm \<Rightarrow> u32 \<Rightarrow> u32 \<Rightarrow> bool res"
  assumes resize_law: "valid p \<Longrightarrow> unat n * unat n < 2 ^ 31 \<Longrightarrow>
      good p (resize p m n) \<and> dim (resize p m n) = n \<and> rel p (resize p m n) = {}"
    and set_law: "good p m \<Longrightarrow> r < dim m \<Longrightarrow> c < dim m \<Longrightarrow>
      \<exists>m'. setbit p m r c True = Inr m' \<and> good p m' \<and> dim m' = dim m \<and> rel p m' = insert (r, c) (rel p m)"
    and closure_law: "good p m \<Longrightarrow>
      \<exists>m'. closure p m = Inr m' \<and> good p m' \<and> dim m' = dim m \<and> rel p m' = (rel p m)\<^sup>+"
    and test_law: "r < dim m \<Longrightarrow> c < dim m \<Longrightarrow> test p m r c = Inr ((r, c) \<in> rel p m)"
begin

lemma set_edges:
  assumes "good p m" "\<forall>(r, c) \<in> set es. r < dim m \<and> c < dim m"
  shows "\<exists>m'. foldE (\<lambda>(r, c) m. setbit p m r c True) es m = Inr m' \<and> good p m' \<and> dim m' = dim m \<and>
     rel p m' = rel p m \<union> set es"
  using assms
proof (induction es arbitrary: m)
  case Nil
  then show ?case by simp
next
  case (Cons e es)
  obtain r c where e: "e = (r, c)" by (cases e)
  obtain m1 where m1: "setbit p m r c True = Inr m1" "good p m1" "dim m1 = dim m"
    "rel p m1 = insert (r, c) (rel p m)"
    using set_law [of p m r c] Cons.prems by (auto simp: e)
  with Cons.IH [of m1] Cons.prems show ?case by (auto simp: e)
qed

lemma build_index:
  assumes "valid p" "unat n * unat n < 2 ^ 31" "\<forall>(r, c) \<in> set es. r < n \<and> c < n"
  shows "\<exists>m1 m2. foldE (\<lambda>(r, c) m. setbit p m r c True) es (resize p m n) = Inr m1 \<and>
     closure p m1 = Inr m2 \<and> dim m2 = n \<and> good p m2 \<and>
     (\<forall>r c. r < n \<longrightarrow> c < n \<longrightarrow> test p m2 r c = Inr ((r, c) \<in> (set es)\<^sup>+))"
proof -
  note rs = resize_law [OF assms(1,2), of m]
  obtain m1 where m1: "foldE (\<lambda>(r, c) m. setbit p m r c True) es (resize p m n) = Inr m1"
    "good p m1" "dim m1 = n" "rel p m1 = set es"
    using set_edges [of p "resize p m n" es] rs assms(3) by auto
  obtain m2 where "closure p m1 = Inr m2" "good p m2" "dim m2 = n" "rel p m2 = (set es)\<^sup>+"
    using closure_law [OF m1(2)] m1(3,4) by auto
  with m1(1) show ?thesis by (auto simp: test_law)
qed

end

interpretation bmx: reachability_index bitvec_laws bm_wf bm_N bm_rel bm_resize bm_set
    bm_transitiveClosure bm_test
proof (unfold_locales, goal_cases)
  case (1 p n m)
  then show ?case using bm_resize_rel by blast
next
  case (2 p m r c)
  then show ?case using bm_set_wf [of p m r c True] by simp
next
  case (3 p m)
  then show ?case by (rule transitiveClosure_correct)
next
  case (4 r m c p)
  then show ?case by (rule bm_test_ok)
qed

section \<open>A bit vector that satisfies the laws\<close>

definition first_bit :: "bool list \<Rightarrow> nat list \<Rightarrow> u32" where
  "first_bit b ks = (case List.find (\<lambda>k. b ! k) ks of None \<Rightarrow> no_bit | Some k \<Rightarrow> word_of_nat k)"

definition list_bitvec :: "bool list bitvec_ops" where
  "list_bitvec = \<lparr>
     bv_size = (\<lambda>b. word_of_nat (length b)),
     bv_clear = (\<lambda>b. []),
     bv_resize = (\<lambda>b n. map (\<lambda>k. k < unat (word_of_nat (length b) :: u32) \<and> b ! k) [0..<unat n]),
     bv_count = (\<lambda>b. word_of_nat (length (filter id b))),
     bv_set = (\<lambda>b i. b[unat i := True]),
     bv_reset = (\<lambda>b i. b[unat i := False]),
     bv_test = (\<lambda>b i. b ! unat i),
     bv_find_first = (\<lambda>b. first_bit b [0..<unat (word_of_nat (length b) :: u32)]),
     bv_find_next = (\<lambda>b p. first_bit b [Suc (unat p)..<unat (word_of_nat (length b) :: u32)])\<rparr>"

lemma first_bit_range:
  fixes n :: u32
  assumes n: "unat n < 2 ^ 31"
  shows "if \<exists>i < n. lo \<le> unat i \<and> b ! unat i
     then lo \<le> unat (first_bit b [lo..<unat n]) \<and> first_bit b [lo..<unat n] < n \<and>
          b ! unat (first_bit b [lo..<unat n]) \<and>
          (\<forall>i < first_bit b [lo..<unat n]. lo \<le> unat i \<longrightarrow> \<not> b ! unat i)
     else first_bit b [lo..<unat n] = no_bit"
proof (cases "List.find (\<lambda>k. b ! k) [lo..<unat n]")
  case None
  then have no: "\<not> (\<exists>i < n. lo \<le> unat i \<and> b ! unat i)"
    by (auto simp: find_None_iff word_less_nat_alt)
  show ?thesis unfolding if_not_P [OF no] by (simp add: None first_bit_def)
next
  case (Some k)
  then obtain x where x: "x < unat n - lo" "k = lo + x" "b ! k"
    and least: "\<forall>y < x. \<not> b ! (lo + y)"
    by (auto simp: find_Some_iff)
  have k: "lo \<le> k" "k < unat n" using x by auto
  have "k < 2 ^ 32" using k(2) n by simp
  then have u: "unat (first_bit b [lo..<unat n]) = k"
    by (simp add: first_bit_def Some unat_of_nat)
  have hit: "\<exists>i < n. lo \<le> unat i \<and> b ! unat i"
    using k x(3) u by (intro exI [of _ "first_bit b [lo..<unat n]"]) (simp add: word_less_nat_alt)
  have "\<not> b ! unat i" if "i < first_bit b [lo..<unat n]" "lo \<le> unat i" for i
    using that least x(2) u by (auto simp: word_less_nat_alt dest!: spec [of _ "unat i - lo"])
  then have all: "\<forall>i < first_bit b [lo..<unat n]. lo \<le> unat i \<longrightarrow> \<not> b ! unat i" by blast
  have "first_bit b [lo..<unat n] < n" using k(2) u by (simp only: word_less_nat_alt)
  then show ?thesis unfolding if_P [OF hit] using all k(1) x(3) u by (intro conjI) simp_all
qed

lemma list_bitvec_laws: "bitvec_laws list_bitvec"
proof -
  have find1: "if \<exists>i < n. b ! unat i
      then first_bit b [0..<unat n] < n \<and> b ! unat (first_bit b [0..<unat n]) \<and>
           (\<forall>i < first_bit b [0..<unat n]. \<not> b ! unat i)
      else first_bit b [0..<unat n] = no_bit" if "unat n < 2 ^ 31" for b and n :: u32
    using first_bit_range [OF that, of 0 b] by (simp only: le0 simp_thms)
  have find2: "if \<exists>i < n. p < i \<and> b ! unat i
      then p < first_bit b [Suc (unat p)..<unat n] \<and> first_bit b [Suc (unat p)..<unat n] < n \<and>
           b ! unat (first_bit b [Suc (unat p)..<unat n]) \<and>
           (\<forall>i < first_bit b [Suc (unat p)..<unat n]. p < i \<longrightarrow> \<not> b ! unat i)
      else first_bit b [Suc (unat p)..<unat n] = no_bit" if "unat n < 2 ^ 31" for b and n p :: u32
    using first_bit_range [OF that, of "Suc (unat p)" b] by (simp only: word_less_nat_alt Suc_le_eq)
  have len: "unat i < length b" if "i < (word_of_nat (length b) :: u32)" for i :: u32 and b :: "bool list"
  proof -
    have "unat (word_of_nat (length b) :: u32) \<le> length b" by (simp add: unat_of_nat)
    with that show ?thesis by (simp only: word_less_nat_alt)
  qed
  show ?thesis unfolding bitvec_laws_def
  proof (intro conjI allI impI)
    fix b :: "bool list" and n i j p :: u32
    show "bv_size list_bitvec (bv_clear list_bitvec b) = 0" by (simp add: list_bitvec_def)
    show "bv_size list_bitvec (bv_resize list_bitvec b n) = n" by (simp add: list_bitvec_def)
    show "bv_test list_bitvec (bv_resize list_bitvec b n) i =
        (i < bv_size list_bitvec b \<and> bv_test list_bitvec b i)" if "i < n"
      using that by (simp add: list_bitvec_def word_less_nat_alt)
    show "bv_size list_bitvec (bv_set list_bitvec b i) = bv_size list_bitvec b"
      "bv_size list_bitvec (bv_reset list_bitvec b i) = bv_size list_bitvec b"
      by (simp_all add: list_bitvec_def)
    show "bv_test list_bitvec (bv_set list_bitvec b i) j = (j = i \<or> bv_test list_bitvec b j)"
      "bv_test list_bitvec (bv_reset list_bitvec b i) j = (j \<noteq> i \<and> bv_test list_bitvec b j)"
      if "i < bv_size list_bitvec b" "j < bv_size list_bitvec b"
      using len [of i b] len [of j b] that
      by (auto simp: list_bitvec_def nth_list_update word_unat_eq_iff)
  next
    fix b :: "bool list" and p :: u32
    assume small: "unat (bv_size list_bitvec b) < 2 ^ 31"
    show "if \<exists>i < bv_size list_bitvec b. bv_test list_bitvec b i
       then bv_find_first list_bitvec b < bv_size list_bitvec b \<and>
            bv_test list_bitvec b (bv_find_first list_bitvec b) \<and>
            (\<forall>i < bv_find_first list_bitvec b. \<not> bv_test list_bitvec b i)
       else bv_find_first list_bitvec b = no_bit"
      using find1 [OF small, of b] by (simp only: list_bitvec_def bitvec_ops.simps)
    show "if \<exists>i < bv_size list_bitvec b. p < i \<and> bv_test list_bitvec b i
       then p < bv_find_next list_bitvec b p \<and> bv_find_next list_bitvec b p < bv_size list_bitvec b \<and>
            bv_test list_bitvec b (bv_find_next list_bitvec b p) \<and>
            (\<forall>i < bv_find_next list_bitvec b p. p < i \<longrightarrow> \<not> bv_test list_bitvec b i)
       else bv_find_next list_bitvec b p = no_bit"
      using find2 [OF small, of p b] by (simp only: list_bitvec_def bitvec_ops.simps)
  qed
qed

section \<open>Properties\<close>

text \<open>C1: reachability answers. Resize the matrix, set one bit per edge, run \<open>transitiveClosure\<close>: no
  assertion fires, the worklist loop ends, and \<open>test(r, c)\<close> says for every pair of rows whether there is
  a non-empty path of edges from \<open>r\<close> to \<open>c\<close>.\<close>

theorem matrix_answers_reachability:
  assumes "bitvec_laws ops" and "unat n * unat n < 2 ^ 31" and "\<forall>(r, c) \<in> set es. r < n \<and> c < n"
  shows "\<exists>m1 m2. foldE (\<lambda>(r, c) m. bm_set ops m r c True) es (bm_resize ops m n) = Inr m1 \<and>
     bm_transitiveClosure ops m1 = Inr m2 \<and> bm_N m2 = n \<and>
     (\<forall>r c. r < n \<longrightarrow> c < n \<longrightarrow> bm_test ops m2 r c = Inr ((r, c) \<in> (set es)\<^sup>+))"
  using bmx.build_index [OF assms] by blast

lemma matrix_answers_reachability_witness:
  "\<exists>m1 m2. foldE (\<lambda>(r, c) m. bm_set list_bitvec m r c True) [(0, 2), (2, 1), (1, 0)]
       (bm_resize list_bitvec \<lparr>bm_N = 1, bm_bv = []\<rparr> 4) = Inr m1 \<and>
     bm_transitiveClosure list_bitvec m1 = Inr m2 \<and> bm_test list_bitvec m2 0 0 = Inr True"
proof -
  let ?es = "[(0, 2), (2, 1), (1, 0)] :: (u32 \<times> u32) list"
  have "(0, 0) \<in> (set ?es)\<^sup>+"
    by (rule trancl_into_trancl [OF trancl_into_trancl [OF r_into_trancl]]) auto
  then show ?thesis
    using matrix_answers_reachability [of list_bitvec 4 ?es "\<lparr>bm_N = 1, bm_bv = []\<rparr>"]
    by (fastforce simp: list_bitvec_laws)
qed

text \<open>Cursors over a row. \<open>firstSuccessor\<close> and \<open>nextSuccessor\<close>, computed on 32-bit indices into the
  flat bit vector, return exactly the least column of that row that is set (beyond the previous one), and
  -1 when there is none; they never leak a bit of a neighbouring row.\<close>

theorem row_cursors:
  assumes "bm_wf ops m" and "r < bm_N m" and "prev < bm_N m"
  shows "least_succ (bm_rel ops m) r (\<lambda>_. True) (bm_firstSuccessor ops m r) \<and>
    least_succ (bm_rel ops m) r (\<lambda>c. prev < c) (bm_nextSuccessor ops m r prev)"
  using firstSuccessor_least [OF assms(1,2)] nextSuccessor_least [OF assms] by auto

lemma row_cursors_witness:
  "bm_wf list_bitvec (bm_resize list_bitvec \<lparr>bm_N = 1, bm_bv = []\<rparr> 3) \<and>
   bm_firstSuccessor list_bitvec (bm_resize list_bitvec \<lparr>bm_N = 1, bm_bv = []\<rparr> 3) 1 = no_bit"
proof -
  let ?m = "bm_resize list_bitvec \<lparr>bm_N = 1, bm_bv = []\<rparr> 3"
  have wf: "bm_wf list_bitvec ?m" and rel: "bm_rel list_bitvec ?m = {}" and n: "bm_N ?m = 3"
    using bm_resize_rel [OF list_bitvec_laws] by auto
  from row_cursors [OF wf, of 1 1] rel n show ?thesis using wf by (simp add: least_succ_def)
qed

end
