(* ===== verification/SccDag.thy ===== *)
theory SccDag
  imports SccGraph BitMatrix "HOL-Library.Countable"
begin

text \<open>
  \<open>src/src/core/pdg/src/SCCDAG.cpp\<close>: the graph of the strongly connected components of a PDG, a \<open>DG<SCC>\<close>
  whose values are pointers to SCC objects (\<open>scc_mem\<close>), with the map from values to the node of their SCC, and
  the index that answers whether one SCC comes before another: a bit matrix closed under transitivity.

  The components are enumerated by LLVM's \<open>scc_iterator\<close>, the parameter \<open>it\<close>: for a graph and an entry node,
  the components in the order in which the iterator yields them. A sub-edge of an SCCDAG edge is an edge of one
  of the SCC objects; \<open>edge_addr\<close> gives the pair of the SCC and the edge one address.
\<close>

record ('v, 'r, 'bv) sccdag =
  scc_graph :: "(ptr, 'r) dg"
  scc_mem :: "ptr \<Rightarrow> ('v, 'r) dg"
  scc_next :: ptr
  valueToSCCNode :: "('v \<times> ptr option) list"
  ordered_bits :: "'bv bit_matrix"
  orderedDirty :: bool
  sccIndexes :: "(ptr \<times> u32) list"

definition edge_addr :: "ptr \<Rightarrow> ptr \<Rightarrow> ptr" where
  "edge_addr s e = prod_encode (s, e)"

definition sub_of :: "(ptr \<Rightarrow> ('v, 'r) dg) \<Rightarrow> ptr \<Rightarrow> 'r edge_attrs" where
  "sub_of mem p = (let (s, e) = prod_decode p in edge_attrs.truncate (edgeMem (mem s) e))"

section \<open>Operations\<close>

definition sccOfValue :: "('v, 'r, 'bv) sccdag \<Rightarrow> 'v \<Rightarrow> ptr option res" where
  "sccOfValue D v = (case map_of (valueToSCCNode D) v of
     None \<Rightarrow> Inr None | Some None \<Rightarrow> Inl NullDeref | Some (Some n) \<Rightarrow> Inr (Some (node_T (scc_graph D) n)))"

definition doesItContain :: "('v, 'r, 'bv) sccdag \<Rightarrow> 'v \<Rightarrow> bool res" where
  "doesItContain D inst = andThen (sccOfValue D inst) (\<lambda>scc. Inr (scc \<noteq> None))"

definition markValuesInSCC :: "('v, 'r, 'bv) sccdag \<Rightarrow> ('v, 'r, 'bv) sccdag" where
  "markValuesInSCC D = D\<lparr>valueToSCCNode :=
     fold (\<lambda>n m. fold (\<lambda>v. AList.update v (Some n)) (map fst (internalNodeMap (scc_mem D (node_T (scc_graph D) n)))) m)
       (allNodes (scc_graph D)) []\<rparr>"

text \<open>One external value of the SCC of the node \<open>n\<close>: the state is the set of cleared edges and the SCCDAG.\<close>

definition markEdge_step ::
  "ptr \<Rightarrow> 'v \<times> ptr option \<Rightarrow> ptr list \<times> ('v, 'r, 'bv) sccdag \<Rightarrow> (ptr list \<times> ('v, 'r, 'bv) sccdag) res" where
  "markEdge_step n ext st =
     (let (clearedEdges, D) = st; (t, p) = ext;
          outgoingSCC = node_T (scc_graph D) n; S = scc_mem D outgoingSCC
      in case p of None \<Rightarrow> Inl NullDeref
         | Some incomingNode \<Rightarrow>
           if in_edges S incomingNode = [] then Inr (clearedEdges, D)
           else case map_of (valueToSCCNode D) t of
             Some (Some incomingSCCNode) \<Rightarrow>
               (let g = scc_graph D;
                    incomingSCC = node_T g incomingSCCNode;
                    edgeSet = uset_insert_all
                      (filter (\<lambda>e. edge_to g e = incomingSCCNode) (out_edges g n) @
                       filter (\<lambda>e. edge_from g e = incomingSCCNode) (in_edges g n)) []
                in andThen (case edgeSet of [] \<Rightarrow> addEdge g outgoingSCC incomingSCC | e # _ \<Rightarrow> Inr (g, e))
                  (\<lambda>(g1, sccEdge).
                    let e0 = (if sccEdge \<in> set clearedEdges then edgeMem g1 sccEdge
                              else clearSubEdges (edgeMem g1 sccEdge));
                        e1 = fold (\<lambda>e. addSubEdge (sub_of (scc_mem D)) (edge_addr outgoingSCC e))
                               (in_edges S incomingNode) e0
                    in Inr (uset_insert sccEdge clearedEdges,
                            D\<lparr>scc_graph := g1\<lparr>edgeMem := (edgeMem g1)(sccEdge := e1)\<rparr>\<rparr>)))
           | _ \<Rightarrow> Inl NullDeref)"

definition markEdgesAndSubEdges :: "('v, 'r, 'bv) sccdag \<Rightarrow> ('v, 'r, 'bv) sccdag res" where
  "markEdgesAndSubEdges D =
     andThen (foldE (\<lambda>n st. foldE (markEdge_step n)
                (externalNodeMap (scc_mem (snd st) (node_T (scc_graph (snd st)) n))) st)
              (allNodes (scc_graph D)) ([], D))
       (\<lambda>(_, D1). Inr D1)"

definition computeReachabilityAmongSCCs ::
  "'bv bitvec_ops \<Rightarrow> ('v, 'r, 'bv) sccdag \<Rightarrow> ('v, 'r, 'bv) sccdag res" where
  "computeReachabilityAmongSCCs ops D =
     (let g = scc_graph D;
          n = (of_nat (numNodes g) :: u32);
          (_, idx) = fold (\<lambda>m (i, ix). (i + 1, AList.update (node_T g m) i ix)) (allNodes g) (0, sccIndexes D);
          id = (\<lambda>s. the (map_of idx s))
      in andThen (foldE (\<lambda>e m. bm_set ops m (id (from_T g e)) (id (to_T g e)) True)
              (allEdges g) (bm_resize ops (ordered_bits D) n)) (\<lambda>m.
         andThen (bm_transitiveClosure ops m) (\<lambda>m1.
         Inr (D\<lparr>orderedDirty := False, sccIndexes := idx, ordered_bits := m1\<rparr>))))"

definition getSCCIndex :: "('v, 'r, 'bv) sccdag \<Rightarrow> ptr \<Rightarrow> u32 res" where
  "getSCCIndex D scc = (case map_of (sccIndexes D) scc of None \<Rightarrow> Inl KeyMissing | Some i \<Rightarrow> Inr i)"

definition orderedBefore :: "'bv bitvec_ops \<Rightarrow> ('v, 'r, 'bv) sccdag \<Rightarrow> ptr \<Rightarrow> ptr \<Rightarrow> bool res" where
  "orderedBefore ops D earlySCC lateSCC =
     check (\<not> orderedDirty D) AssertFailed
       (andThen (case map_of (sccIndexes D) earlySCC of None \<Rightarrow> Inl KeyMissing | Some i \<Rightarrow> Inr i) (\<lambda>earlyId.
        andThen (case map_of (sccIndexes D) lateSCC of None \<Rightarrow> Inl KeyMissing | Some i \<Rightarrow> Inr i) (\<lambda>lateId.
        bm_test ops (ordered_bits D) earlyId lateId)))"

definition orderedBefore_any_late :: "'bv bitvec_ops \<Rightarrow> ('v, 'r, 'bv) sccdag \<Rightarrow> ptr \<Rightarrow> ptr list \<Rightarrow> bool res" where
  "orderedBefore_any_late ops D earlySCC lates =
     andThen (iterate_until (\<lambda>l s. andThen (orderedBefore ops D earlySCC l) (\<lambda>b. Inr (b, s))) lates ())
       (\<lambda>(b, _). Inr b)"

definition orderedBefore_any_early :: "'bv bitvec_ops \<Rightarrow> ('v, 'r, 'bv) sccdag \<Rightarrow> ptr list \<Rightarrow> ptr \<Rightarrow> bool res" where
  "orderedBefore_any_early ops D earlies lateSCC =
     andThen (iterate_until (\<lambda>e s. andThen (orderedBefore ops D e lateSCC) (\<lambda>b. Inr (b, s))) earlies ())
       (\<lambda>(b, _). Inr b)"

definition sccdag_addSCC :: "('v, 'r) dg \<Rightarrow> bool \<Rightarrow> ('v, 'r, 'bv) sccdag \<Rightarrow> ('v, 'r, 'bv) sccdag" where
  "sccdag_addSCC S inclusion D =
     D\<lparr>scc_mem := (scc_mem D)(scc_next D := S), scc_next := Suc (scc_next D),
       scc_graph := fst (addNode (scc_graph D) (scc_next D) inclusion)\<rparr>"

definition empty_sccdag :: "'bv bit_matrix \<Rightarrow> ('v, 'r, 'bv) sccdag" where
  "empty_sccdag m = \<lparr>scc_graph = empty_dg, scc_mem = (\<lambda>_. empty_dg), scc_next = 0, valueToSCCNode = [],
     ordered_bits = m, orderedDirty = True, sccIndexes = []\<rparr>"

text \<open>The loop of the constructor over the components that the iterator yields, from one entry node and from
  all of them.\<close>

definition add_component ::
  "(ptr \<Rightarrow> 'r edge_attrs) \<Rightarrow> ('v, 'r) dg \<Rightarrow> ptr list \<Rightarrow> ptr list \<times> ('v, 'r, 'bv) sccdag
   \<Rightarrow> (ptr list \<times> ('v, 'r, 'bv) sccdag) res" where
  "add_component sub pdg sccNodes = (\<lambda>(visited, D).
     case sccNodes of [] \<Rightarrow> Inl NullDeref
     | firstNode # _ \<Rightarrow>
       if firstNode \<in> set visited then Inr (visited, D)
       else (let unwrappedNodes = uset_insert_all sccNodes []
             in andThen (SCC_of_nodes sub (\<lambda>_. pdg) (map (Pair 0) unwrappedNodes)) (\<lambda>scc.
                  Inr (uset_insert_all unwrappedNodes visited,
                       sccdag_addSCC scc (list_ex (\<lambda>n. isInternal pdg (node_T pdg n)) unwrappedNodes) D))))"

definition add_components_from ::
  "(ptr \<Rightarrow> 'r edge_attrs) \<Rightarrow> (('v, 'r) dg \<Rightarrow> ptr \<Rightarrow> ptr list list) \<Rightarrow> ('v, 'r) dg \<Rightarrow> ptr
   \<Rightarrow> ptr list \<times> ('v, 'r, 'bv) sccdag \<Rightarrow> (ptr list \<times> ('v, 'r, 'bv) sccdag) res" where
  "add_components_from sub it pdg nodeToVisit st =
     (if nodeToVisit \<in> set (fst st) then Inr st
      else foldE (add_component sub pdg) (it (pdg\<lparr>entryNode := Some nodeToVisit\<rparr>) nodeToVisit) st)"

definition SCCDAG_of ::
  "'bv bitvec_ops \<Rightarrow> 'bv bit_matrix \<Rightarrow> (ptr \<Rightarrow> 'r edge_attrs) \<Rightarrow> (('v, 'r) dg \<Rightarrow> ptr \<Rightarrow> ptr list list)
   \<Rightarrow> ('v, 'r) dg \<Rightarrow> ('v, 'r, 'bv) sccdag res" where
  "SCCDAG_of ops m sub it pdg =
     andThen (foldE (add_components_from sub it pdg) (allNodes pdg) ([], empty_sccdag m)) (\<lambda>(_, D).
     andThen (markEdgesAndSubEdges (markValuesInSCC D)) (\<lambda>D1.
     computeReachabilityAmongSCCs ops (D1\<lparr>orderedDirty := True\<rparr>)))"

definition mergeSCCs ::
  "(ptr \<Rightarrow> 'r edge_attrs) \<Rightarrow> ptr list \<Rightarrow> ('v, 'r, 'bv) sccdag \<Rightarrow> ('v, 'r, 'bv) sccdag res" where
  "mergeSCCs sub sccSet D =
     (if length sccSet < 2 then Inr D
      else andThen (foldE (\<lambda>n acc. let s = node_T (scc_graph D) n in
                      foldE (\<lambda>(t, p) acc. case p of None \<Rightarrow> Inl NullDeref | Some x \<Rightarrow> Inr (uset_insert (s, x) acc))
                        (internalNodeMap (scc_mem D s)) acc) sccSet [])
        (\<lambda>mergeNodes. andThen (SCC_of_nodes sub (scc_mem D) mergeNodes) (\<lambda>mergeSCC.
           let D1 = sccdag_addSCC mergeSCC True D;
               D2 = D1\<lparr>scc_graph := fold removeNode sccSet (scc_graph D1)\<rparr>
           in markEdgesAndSubEdges (markValuesInSCC D2))))"

section \<open>Iterators\<close>

definition sccdag_numberOfInstructions :: "('v, 'r, 'bv) sccdag \<Rightarrow> nat" where
  "sccdag_numberOfInstructions D =
     fold (\<lambda>(s, _) n. n + scc_numberOfInstructions (scc_mem D s)) (internalNodeMap (scc_graph D)) 0"

definition sccdag_iterateOverInstructions ::
  "('v \<Rightarrow> 'i option) \<Rightarrow> ('v, 'r, 'bv) sccdag \<Rightarrow> ('i \<Rightarrow> 's \<Rightarrow> (bool \<times> 's) res) \<Rightarrow> 's \<Rightarrow> (bool \<times> 's) res" where
  "sccdag_iterateOverInstructions asInst D f =
     iterate_until (\<lambda>s. scc_iterateOverInstructions asInst (scc_mem D s) f) (map fst (internalNodeMap (scc_graph D)))"

definition sccdag_iterateOverLiveInAndLiveOut ::
  "('v, 'r, 'bv) sccdag \<Rightarrow> ('v \<Rightarrow> 's \<Rightarrow> (bool \<times> 's) res) \<Rightarrow> 's \<Rightarrow> (bool \<times> 's) res" where
  "sccdag_iterateOverLiveInAndLiveOut D f =
     iterate_until (\<lambda>s. scc_iterateOverValues (scc_mem D s) f) (map fst (externalNodeMap (scc_graph D)))"

definition sccdag_iterateOverAllInstructions ::
  "('v \<Rightarrow> 'i option) \<Rightarrow> ('v, 'r, 'bv) sccdag \<Rightarrow> ('i \<Rightarrow> 's \<Rightarrow> (bool \<times> 's) res) \<Rightarrow> 's \<Rightarrow> (bool \<times> 's) res" where
  "sccdag_iterateOverAllInstructions asInst D f =
     iterate_until (\<lambda>n. scc_iterateOverAllInstructions asInst (scc_mem D (node_T (scc_graph D) n)) f)
       (allNodes (scc_graph D))"

definition sccdag_iterateOverAllValues ::
  "('v, 'r, 'bv) sccdag \<Rightarrow> ('v \<Rightarrow> 's \<Rightarrow> (bool \<times> 's) res) \<Rightarrow> 's \<Rightarrow> (bool \<times> 's) res" where
  "sccdag_iterateOverAllValues D f =
     iterate_until (\<lambda>n. scc_iterateOverAllValues (scc_mem D (node_T (scc_graph D) n)) f) (allNodes (scc_graph D))"

definition iterateOverSCCs ::
  "('v, 'r, 'bv) sccdag \<Rightarrow> (ptr \<Rightarrow> 's \<Rightarrow> (bool \<times> 's) res) \<Rightarrow> 's \<Rightarrow> (bool \<times> 's) res" where
  "iterateOverSCCs D f = iterate_until (\<lambda>n. f (node_T (scc_graph D) n)) (allNodes (scc_graph D))"

definition getSCCs :: "('v, 'r, 'bv) sccdag \<Rightarrow> ptr list" where
  "getSCCs D = uset_insert_all (map (node_T (scc_graph D)) (allNodes (scc_graph D))) []"

end
