(* ===== verification/SccDagCorrect.thy ===== *)
theory SccDagCorrect
  imports SccDag
begin

text \<open>
  The SCCDAG that the constructor builds: its SCC objects are the strongly connected components of the PDG,
  its edges the dependences between different ones, and its index answers reachability in the PDG. The
  contract of LLVM's \<open>scc_iterator\<close> is the locale \<open>scc_iterator\<close>, and \<open>naive_sccs\<close> is a function that meets it.
\<close>

section \<open>Strongly connected components\<close>

definition class_of :: "('v, 'r) dg \<Rightarrow> ptr \<Rightarrow> ptr set" where
  "class_of g n = {m. (n, m) \<in> (node_arrows g)\<^sup>* \<and> (m, n) \<in> (node_arrows g)\<^sup>*}"

lemma class_of_self [simp]: "n \<in> class_of g n"
  by (simp add: class_of_def)

lemma class_of_eq: "m \<in> class_of g n \<Longrightarrow> class_of g m = class_of g n"
  by (auto simp: class_of_def)

lemma class_of_live: "dg_wf g \<Longrightarrow> n \<in> set (allNodes g) \<Longrightarrow> m \<in> class_of g n \<Longrightarrow> m \<in> set (allNodes g)"
proof -
  assume wf: "dg_wf g" and n: "n \<in> set (allNodes g)" and m: "m \<in> class_of g n"
  from m have "(n, m) \<in> (node_arrows g)\<^sup>*" by (simp add: class_of_def)
  then show ?thesis by induction (use n node_arrows_live [OF wf] in auto)
qed

text \<open>LLVM documents that \<open>scc_iterator\<close> enumerates, from an entry node, the strongly connected components of
  the nodes reachable from it.\<close>

locale scc_iterator =
  fixes it :: "('v, 'r) dg \<Rightarrow> ptr \<Rightarrow> ptr list list"
  assumes component: "dg_wf g \<Longrightarrow> n \<in> set (allNodes g) \<Longrightarrow> c \<in> set (it g n) \<Longrightarrow>
      c \<noteq> [] \<and> set c \<subseteq> set (allNodes g) \<and> (\<forall>x \<in> set c. set c = class_of g x)"
    and covers: "dg_wf g \<Longrightarrow> n \<in> set (allNodes g) \<Longrightarrow> (n, m) \<in> (node_arrows g)\<^sup>* \<Longrightarrow> \<exists>c \<in> set (it g n). m \<in> set c"

definition out_nodes :: "('v, 'r) dg \<Rightarrow> ptr \<Rightarrow> ptr list" where
  "out_nodes g n = map (edge_to g) (out_edges g n)"

definition reach_list :: "('v, 'r) dg \<Rightarrow> ptr \<Rightarrow> ptr list" where
  "reach_list g n = (case explore queue_add (out_nodes g) ([n], [n], []) of None \<Rightarrow> [] | Some (m, _, _) \<Rightarrow> m)"

definition naive_sccs :: "('v, 'r) dg \<Rightarrow> ptr \<Rightarrow> ptr list list" where
  "naive_sccs g n = map (\<lambda>x. filter (\<lambda>y. y \<in> set (reach_list g x) \<and> x \<in> set (reach_list g y)) (allNodes g)) (reach_list g n)"

lemma set_reach_list:
  assumes wf: "dg_wf g" and n: "n \<in> set (allNodes g)"
  shows "set (reach_list g n) = {m. (n, m) \<in> (node_arrows g)\<^sup>*}"
proof -
  let ?R = "succ_rel (out_nodes g)" and ?A = "node_arrows g"
  have out: "set (out_nodes g x) = {m. (x, m) \<in> ?A}" if "x \<in> set (allNodes g)" for x
    using out_edges_to [OF wf that] by (simp add: out_nodes_def)
  have closed: "set (out_nodes g x) \<subseteq> set (allNodes g)" if "x \<in> set (allNodes g)" for x
    using out [OF that] node_arrows_live [OF wf] by auto
  obtain m t p where run: "explore queue_add (out_nodes g) ([n], [n], []) = Some (m, t, p)"
    using wq.explore_terminates [where succ = "out_nodes g" and C = "set (allNodes g)" and ?m0.0 = "[n]" and ?t0.0 = "[n]" and ?p0.0 = "[]"]
      n closed by auto
  have m: "set m = insert n (?R\<^sup>+ `` {n})" using wq.explore_correct(1) [OF run] by auto
  have 1: "(n, y) \<in> ?A\<^sup>* \<and> y \<in> set (allNodes g)" if "(n, y) \<in> ?R\<^sup>+" for y
    using that
  proof induction
    case (base y)
    then show ?case using out [OF n] closed [OF n] by auto
  next
    case (step y z)
    then show ?case using out [of y] closed [of y] by (auto intro: rtrancl_into_rtrancl)
  qed
  have 2: "y \<in> set (allNodes g) \<and> (y = n \<or> (n, y) \<in> ?R\<^sup>+)" if "(n, y) \<in> ?A\<^sup>*" for y
    using that
  proof induction
    case (step y z)
    then have "(y, z) \<in> ?R" using out [of y] by simp
    then show ?case using step node_arrows_live [OF wf step(2)] by (auto intro: trancl_into_trancl)
  qed (simp add: n)
  show ?thesis using run m 1 2 by (auto simp: reach_list_def)
qed

lemma naive_sccs_laws: "scc_iterator naive_sccs"
proof
  fix g :: "('v, 'r) dg" and n c
  assume wf: "dg_wf g" and n: "n \<in> set (allNodes g)"
  have live: "m \<in> set (allNodes g)" if "(n, m) \<in> (node_arrows g)\<^sup>*" for m
    using that by induction (use n node_arrows_live [OF wf] in auto)
  have comp: "set (filter (\<lambda>y. y \<in> set (reach_list g x) \<and> x \<in> set (reach_list g y)) (allNodes g)) = class_of g x"
    if "x \<in> set (allNodes g)" for x
    using set_reach_list [OF wf] that class_of_live [OF wf that] by (auto simp: class_of_def)
  {
    assume "c \<in> set (naive_sccs g n)"
    then obtain x where "(n, x) \<in> (node_arrows g)\<^sup>*"
      "c = filter (\<lambda>y. y \<in> set (reach_list g x) \<and> x \<in> set (reach_list g y)) (allNodes g)"
      using set_reach_list [OF wf n] by (auto simp: naive_sccs_def)
    with comp [OF live] have "set c = class_of g x" and x: "x \<in> set (allNodes g)" using live by auto
    note c = this
    show "c \<noteq> [] \<and> set c \<subseteq> set (allNodes g) \<and> (\<forall>x \<in> set c. set c = class_of g x)"
    proof (intro conjI ballI)
      show "c \<noteq> []" using c(1) class_of_self [of x g] by (metis empty_iff list.set(1))
      show "set c \<subseteq> set (allNodes g)" using c class_of_live [OF wf] by auto
      show "set c = class_of g y" if "y \<in> set c" for y using c(1) class_of_eq that by blast
    qed
  }
  {
    fix m assume m: "(n, m) \<in> (node_arrows g)\<^sup>*"
    have "m \<in> set (filter (\<lambda>y. y \<in> set (reach_list g m) \<and> m \<in> set (reach_list g y)) (allNodes g))"
      unfolding comp [OF live [OF m]] by simp
    with m show "\<exists>c \<in> set (naive_sccs g n). m \<in> set c"
      using set_reach_list [OF wf n] by (force simp: naive_sccs_def)
  }
qed

interpretation naive: scc_iterator naive_sccs
  by (rule naive_sccs_laws)

section \<open>What an SCCDAG holds\<close>

abbreviation sccs :: "('v, 'r, 'bv) sccdag \<Rightarrow> ptr set" where
  "sccs D \<equiv> dg_values (scc_graph D)"

definition members :: "('v, 'r, 'bv) sccdag \<Rightarrow> ptr \<Rightarrow> 'v set" where
  "members D s = internal_values (scc_mem D s)"

text \<open>\<open>D\<close> holds SCC objects for the values \<open>V\<close> of the PDG with the arrows \<open>R\<close>.\<close>

definition holds_sccs :: "('v \<times> 'v) set \<Rightarrow> 'v set \<Rightarrow> ('v, 'r, 'bv) sccdag \<Rightarrow> bool" where
  "holds_sccs R V D \<longleftrightarrow> clean (scc_graph D) \<and>
     (\<forall>s \<in> sccs D. s < scc_next D \<and> clean (scc_mem D s) \<and> members D s \<noteq> {} \<and>
        dg_arrows (scc_mem D s) = {(a, b) \<in> R. a \<in> members D s \<or> b \<in> members D s}) \<and>
     (\<forall>s \<in> sccs D. \<forall>s' \<in> sccs D. s \<noteq> s' \<longrightarrow> members D s \<inter> members D s' = {}) \<and>
     (\<Union>s \<in> sccs D. members D s) = V"

lemma holds_sccsD:
  assumes "holds_sccs R V D"
  shows "clean (scc_graph D)" "s \<in> sccs D \<Longrightarrow> s < scc_next D" "s \<in> sccs D \<Longrightarrow> clean (scc_mem D s)"
    "s \<in> sccs D \<Longrightarrow> members D s \<noteq> {}"
    "s \<in> sccs D \<Longrightarrow> dg_arrows (scc_mem D s) = {(a, b) \<in> R. a \<in> members D s \<or> b \<in> members D s}"
    "s \<in> sccs D \<Longrightarrow> s' \<in> sccs D \<Longrightarrow> a \<in> members D s \<Longrightarrow> a \<in> members D s' \<Longrightarrow> s = s'"
    "(\<Union>s \<in> sccs D. members D s) = V"
  using assms unfolding holds_sccs_def by blast+

definition scc_dep :: "('v \<times> 'v) set \<Rightarrow> ('v, 'r, 'bv) sccdag \<Rightarrow> (ptr \<times> ptr) set" where
  "scc_dep R D = {(s, s'). s \<in> sccs D \<and> s' \<in> sccs D \<and> s \<noteq> s' \<and>
     (\<exists>a \<in> members D s. \<exists>b \<in> members D s'. (a, b) \<in> R)}"

section \<open>The map from values to nodes\<close>

lemma set_map_fst_internal: "set (map fst (internalNodeMap g)) = internal_values g"
  by (auto simp: internal_values_def isInternal_def map_of_eq_None_iff simp flip: not_None_eq)

lemma set_map_fst_external: "set (map fst (externalNodeMap g)) = external_values g"
  by (auto simp: external_values_def isExternal_def map_of_eq_None_iff simp flip: not_None_eq)

lemma map_of_fold_update:
  "map_of (fold (\<lambda>v. AList.update v x) K m) v = (if v \<in> set K then Some x else map_of m v)"
  by (induction K arbitrary: m) (auto simp: update_conv')

lemma map_of_fold_fold_update:
  "map_of (fold (\<lambda>n m. fold (\<lambda>v. AList.update v (f n)) (K n) m) ns m0) v =
     (case filter (\<lambda>n. v \<in> set (K n)) ns of [] \<Rightarrow> map_of m0 v | x # xs \<Rightarrow> Some (f (last (x # xs))))"
proof (induction ns arbitrary: m0)
  case (Cons n ns)
  show ?case
    unfolding fold_simps Cons.IH
    by (auto simp: map_of_fold_update split: list.splits)
qed simp

lemma distinct_unique_cases:
  assumes "distinct xs" and "\<And>n k. n \<in> set xs \<Longrightarrow> k \<in> set xs \<Longrightarrow> n = k"
  shows "xs = [] \<or> (\<exists>n. xs = [n])"
proof (cases xs)
  case (Cons a ys)
  show ?thesis
  proof (cases ys)
    case (Cons b zs)
    with \<open>xs = a # ys\<close> assms(1) assms(2) [of a b] show ?thesis by simp
  qed (simp add: Cons)
qed simp

lemma markValues_spec:
  assumes h: "holds_sccs R V D"
  shows "map_of (valueToSCCNode (markValuesInSCC D)) v = Some (Some n) \<longleftrightarrow>
      n \<in> set (allNodes (scc_graph D)) \<and> v \<in> members D (node_T (scc_graph D) n)"
    and "map_of (valueToSCCNode (markValuesInSCC D)) v = None \<longleftrightarrow> v \<notin> V"
    and "map_of (valueToSCCNode (markValuesInSCC D)) v \<noteq> Some None"
proof -
  let ?g = "scc_graph D"
  let ?has = "\<lambda>n. v \<in> members D (node_T ?g n)"
  have m: "map_of (valueToSCCNode (markValuesInSCC D)) v =
      (case filter ?has (allNodes ?g) of [] \<Rightarrow> None | x # xs \<Rightarrow> Some (Some (last (x # xs))))"
    unfolding markValuesInSCC_def by (simp add: map_of_fold_fold_update set_map_fst_internal members_def
        flip: set_map_fst_internal cong: list.case_cong)
  note wf = clean_wf [OF holds_sccsD(1) [OF h]]
  have vals: "node_T ?g n \<in> sccs D" if "n \<in> set (allNodes ?g)" for n using that by (simp add: dg_values_def)
  have uniq: "n = k" if "n \<in> set (filter ?has (allNodes ?g))" "k \<in> set (filter ?has (allNodes ?g))" for n k
    using that holds_sccsD(6) [OF h vals vals] wf_node_inj [OF wf] by auto
  have d: "distinct (filter ?has (allNodes ?g))" using wf by (simp add: dg_wf_def edges_wf_def)
  have cases: "filter ?has (allNodes ?g) = [] \<or> (\<exists>n. filter ?has (allNodes ?g) = [n])"
    by (rule distinct_unique_cases [OF d uniq])
  have V: "v \<in> V \<longleftrightarrow> filter ?has (allNodes ?g) \<noteq> []"
    unfolding holds_sccsD(7) [OF h, symmetric] dg_values_def by (auto simp: filter_empty_conv)
  define L where "L = filter ?has (allNodes ?g)"
  have F: "n \<in> set L \<longleftrightarrow> n \<in> set (allNodes ?g) \<and> ?has n" by (auto simp: L_def)
  note facts = m [folded L_def] cases [folded L_def] V [folded L_def]
  show "map_of (valueToSCCNode (markValuesInSCC D)) v = Some (Some n) \<longleftrightarrow>
      n \<in> set (allNodes ?g) \<and> v \<in> members D (node_T ?g n)"
    unfolding F [symmetric] facts(1) using facts(2) by auto
  show "map_of (valueToSCCNode (markValuesInSCC D)) v = None \<longleftrightarrow> v \<notin> V"
    "map_of (valueToSCCNode (markValuesInSCC D)) v \<noteq> Some None"
    unfolding facts(1,3) using facts(2) by auto
qed

lemma markValues_simps [simp]:
  "scc_graph (markValuesInSCC D) = scc_graph D" "scc_mem (markValuesInSCC D) = scc_mem D"
  "scc_next (markValuesInSCC D) = scc_next D" "ordered_bits (markValuesInSCC D) = ordered_bits D"
  "orderedDirty (markValuesInSCC D) = orderedDirty D" "sccIndexes (markValuesInSCC D) = sccIndexes D"
  by (simp_all add: markValuesInSCC_def)

lemma holds_sccs_cong:
  assumes "scc_graph D' = scc_graph D" "scc_mem D' = scc_mem D" "scc_next D' = scc_next D"
  shows "holds_sccs R V D' = holds_sccs R V D" "members D' s = members D s" "scc_dep R D' = scc_dep R D"
  using assms by (simp_all add: holds_sccs_def members_def scc_dep_def)

section \<open>The loop of the constructor\<close>

lemma addSCC_holds:
  assumes h: "holds_sccs R V D" and S: "clean S" "internal_values S = I" "I \<noteq> {}" "I \<inter> V = {}"
    "dg_arrows S = {(a, b) \<in> R. a \<in> I \<or> b \<in> I}"
  shows "holds_sccs R (V \<union> I) (sccdag_addSCC S incl D)"
    and "sccs (sccdag_addSCC S incl D) = insert (scc_next D) (sccs D)"
    and "members (sccdag_addSCC S incl D) s = (if s = scc_next D then I else members D s)"
    and "dg_facts (scc_graph (sccdag_addSCC S incl D)) = dg_facts (scc_graph D)"
    and "isInternal (scc_graph (sccdag_addSCC S incl D)) s \<longleftrightarrow> isInternal (scc_graph D) s \<or> s = scc_next D \<and> incl"
proof -
  let ?D = "sccdag_addSCC S incl D" and ?s = "scc_next D"
  obtain g' n where a: "addNode (scc_graph D) ?s incl = (g', n)" by fastforce
  have fresh: "?s \<notin> sccs D" using holds_sccsD(2) [OF h] by blast
  note ac = addNode_clean [OF holds_sccsD(1) [OF h] fresh a]
  have g: "scc_graph ?D = g'" by (simp add: sccdag_addSCC_def a)
  show sc: "sccs ?D = insert ?s (sccs D)" unfolding g by (rule ac(2))
  show mb: "members ?D s = (if s = ?s then I else members D s)" for s
    using S(2) by (simp add: members_def sccdag_addSCC_def)
  show "dg_facts (scc_graph ?D) = dg_facts (scc_graph D)" unfolding g by (rule ac(3))
  show "isInternal (scc_graph ?D) s \<longleftrightarrow> isInternal (scc_graph D) s \<or> s = ?s \<and> incl"
    using ac(4) unfolding g internal_values_def by (auto split: if_splits)
  have old: "s \<noteq> ?s" if "s \<in> sccs D" for s using that fresh by auto
  have mem: "scc_mem ?D s = (if s = ?s then S else scc_mem D s)" "scc_next ?D = Suc ?s" for s
    by (simp_all add: sccdag_addSCC_def)
  have sub: "members D s \<subseteq> V" if "s \<in> sccs D" for s using that holds_sccsD(7) [OF h] by auto
  have each: "s < scc_next ?D \<and> clean (scc_mem ?D s) \<and> members ?D s \<noteq> {} \<and>
      dg_arrows (scc_mem ?D s) = {(a, b) \<in> R. a \<in> members ?D s \<or> b \<in> members ?D s}" if s: "s \<in> sccs ?D" for s
  proof (cases "s = ?s")
    case True
    then show ?thesis using S by (simp add: mem mb)
  next
    case False
    with s sc have "s \<in> sccs D" by auto
    with holds_sccsD(2-5) [OF h this] False show ?thesis by (simp add: mem mb)
  qed
  have disj: "members ?D s \<inter> members ?D s' = {}" if s: "s \<in> sccs ?D" "s' \<in> sccs ?D" "s \<noteq> s'" for s s'
  proof -
    have new: "I \<inter> members D x = {}" if "x \<in> sccs D" for x using sub [OF that] S(4) by blast
    show ?thesis
    proof (cases "s = ?s \<or> s' = ?s")
      case True
      with s sc new show ?thesis by (auto simp: mb)
    next
      case False
      with s sc have "s \<in> sccs D" "s' \<in> sccs D" by auto
      with holds_sccsD(6) [OF h this] s(3) False show ?thesis by (auto simp: mb)
    qed
  qed
  have un: "(\<Union>s \<in> sccs ?D. members ?D s) = V \<union> I"
    using holds_sccsD(7) [OF h] old unfolding sc by (auto simp: mb)
  show "holds_sccs R (V \<union> I) ?D"
    unfolding holds_sccs_def using ac(1) each disj un g by blast
qed

lemma edge_pair_select:
  "edge_pair g ` {e \<in> E. from_T g e \<in> J \<or> to_T g e \<in> J} = {(a, b) \<in> edge_pair g ` E. a \<in> J \<or> b \<in> J}"
  by (auto simp: edge_pair_def)

definition comp_inv :: "('v, 'r) dg \<Rightarrow> ptr list \<times> ('v, 'r, 'bv) sccdag \<Rightarrow> bool" where
  "comp_inv pdg = (\<lambda>(visited, D). holds_sccs (dg_arrows pdg) (node_T pdg ` set visited) D \<and>
     set visited \<subseteq> set (allNodes pdg) \<and> (\<forall>x \<in> set visited. class_of pdg x \<subseteq> set visited) \<and>
     (\<forall>s \<in> sccs D. \<exists>x \<in> set visited. members D s = node_T pdg ` class_of pdg x) \<and>
     (\<forall>s \<in> sccs D. isInternal (scc_graph D) s \<longleftrightarrow> (\<exists>v \<in> members D s. isInternal pdg v)) \<and>
     dg_facts (scc_graph D) = {#})"

lemma add_component_ok:
  assumes wf: "dg_wf pdg" and inv: "comp_inv pdg (visited, D)"
    and c: "c \<noteq> []" "set c \<subseteq> set (allNodes pdg)" "\<forall>x \<in> set c. set c = class_of pdg x"
  shows "\<exists>visited' D'. add_component sub pdg c (visited, D) = Inr (visited', D') \<and>
    comp_inv pdg (visited', D') \<and> set visited' = set visited \<union> set c"
proof -
  obtain f cs where f: "c = f # cs" using c(1) by (cases c) auto
  have cf: "set c = class_of pdg f" using c(3) f by auto
  note I = inv [unfolded comp_inv_def prod.case]
  show ?thesis
  proof (cases "f \<in> set visited")
    case True
    then have "set c \<subseteq> set visited" using I cf by blast
    with True inv show ?thesis by (intro exI) (auto simp: add_component_def f)
  next
    case False
    let ?ns = "uset_insert_all c []"
    have ns: "set ?ns = set c" by simp
    have W: "scc_nodes pdg ?ns"
      using wf c(1,2) by (auto simp: scc_nodes_def simp flip: set_empty)
    obtain S where S: "SCC_of_nodes sub (\<lambda>_. pdg) (scc_refs 0 ?ns) = Inr S" "clean S"
      "internal_values S = node_T pdg ` set c"
      "dg_facts S = copy_facts sub pdg (filter (\<lambda>e. from_T pdg e \<in> node_T pdg ` set c \<or> to_T pdg e \<in> node_T pdg ` set c) (allEdges pdg))"
      using SCC_of_nodes_correct [OF W, of "\<lambda>_. pdg" 0 sub] by auto
    have arr: "dg_arrows S = {(a, b) \<in> dg_arrows pdg. a \<in> node_T pdg ` set c \<or> b \<in> node_T pdg ` set c}"
    proof -
      have "dg_arrows S = edge_pair pdg ` {e \<in> set (allEdges pdg). from_T pdg e \<in> node_T pdg ` set c \<or> to_T pdg e \<in> node_T pdg ` set c}"
        by (simp add: facts_arrows S(4) copy_facts_def image_image)
      also have "\<dots> = {(a, b) \<in> dg_arrows pdg. a \<in> node_T pdg ` set c \<or> b \<in> node_T pdg ` set c}"
        unfolding dg_arrows_def by (rule edge_pair_select)
      finally show ?thesis .
    qed
    have disj: "set c \<inter> set visited = {}"
    proof (rule equals0I)
      fix x assume x: "x \<in> set c \<inter> set visited"
      then have "class_of pdg x \<subseteq> set visited" "f \<in> class_of pdg x" using I c(3) f by auto
      with False show False by blast
    qed
    have vd: "node_T pdg ` set c \<inter> node_T pdg ` set visited = {}"
    proof (rule equals0I)
      fix t assume "t \<in> node_T pdg ` set c \<inter> node_T pdg ` set visited"
      then obtain x y where xy: "x \<in> set c" "y \<in> set visited" "node_T pdg x = node_T pdg y" by auto
      moreover have "y \<in> set (allNodes pdg)" using xy(2) I by blast
      ultimately have "x = y" using wf_node_inj [OF wf] c(2) by auto
      with xy disj show False by auto
    qed
    define incl where "incl = list_ex (\<lambda>n. isInternal pdg (node_T pdg n)) ?ns"
    have nn: "node_T pdg ` set c \<noteq> {}" using c(1) by simp
    have H: "holds_sccs (dg_arrows pdg) (node_T pdg ` set visited) D" using I by blast
    note ah = addSCC_holds [OF H S(2,3) nn vd arr, of incl]
    let ?D = "sccdag_addSCC S incl D" and ?v = "uset_insert_all ?ns visited"
    have run: "add_component sub pdg c (visited, D) = Inr (?v, ?D)"
      using False S(1) by (simp add: add_component_def f scc_refs_def incl_def Let_def)
    have "comp_inv pdg (?v, ?D)"
      unfolding comp_inv_def prod.case
    proof (intro conjI ballI)
      show "holds_sccs (dg_arrows pdg) (node_T pdg ` set ?v) ?D"
        using ah(1) by (simp add: image_Un Un_commute)
      show "set ?v \<subseteq> set (allNodes pdg)" using I c(2) by auto
      show "class_of pdg x \<subseteq> set ?v" if "x \<in> set ?v" for x
        using that I c(3) by auto
      show "\<exists>x \<in> set ?v. members ?D s = node_T pdg ` class_of pdg x" if s: "s \<in> sccs ?D" for s
      proof (cases "s = scc_next D")
        case True
        then show ?thesis using ah(3) [of s] cf f by (intro bexI [of _ f]) auto
      next
        case False
        with s ah(2) I obtain x where "x \<in> set visited" "members D s = node_T pdg ` class_of pdg x" by blast
        then show ?thesis using ah(3) [of s] False by (intro bexI [of _ x]) auto
      qed
      show "isInternal (scc_graph ?D) s \<longleftrightarrow> (\<exists>v \<in> members ?D s. isInternal pdg v)" if s: "s \<in> sccs ?D" for s
      proof (cases "s = scc_next D")
        case True
        have "scc_next D \<notin> sccs D" using holds_sccsD(2) [OF H] by blast
        then have "\<not> isInternal (scc_graph D) (scc_next D)"
          using clean_member [OF holds_sccsD(1) [OF H]] by (auto simp: isInGraph_def)
        then show ?thesis using ah(3,5) [of s] True by (auto simp: incl_def list_ex_iff)
      next
        case False
        with s ah(2) have "s \<in> sccs D" by auto
        then show ?thesis using ah(3,5) [of s] False I by auto
      qed
      show "dg_facts (scc_graph ?D) = {#}" using ah(4) I by simp
    qed
    with run show ?thesis by (intro exI [of _ ?v] exI [of _ ?D]) auto
  qed
qed

context scc_iterator
begin

lemma add_components_from_ok:
  assumes wf: "dg_wf pdg" and n: "n \<in> set (allNodes pdg)" and inv: "comp_inv pdg st"
  shows "\<exists>st'. add_components_from sub it pdg n st = Inr st' \<and> comp_inv pdg st' \<and>
    insert n (set (fst st)) \<subseteq> set (fst st')"
proof (cases "n \<in> set (fst st)")
  case True
  then show ?thesis using inv by (simp add: add_components_from_def insert_absorb)
next
  case False
  let ?p = "pdg\<lparr>entryNode := Some n\<rparr>"
  have arr: "node_arrows ?p = node_arrows pdg" by (simp add: node_arrows_def)
  have cls: "class_of ?p x = class_of pdg x" for x by (simp add: class_of_def arr)
  have "maps_wf ?p = maps_wf pdg" by (rule maps_wf_cong) auto
  then have wf': "dg_wf ?p" using wf by (simp add: dg_wf_def edges_wf_def)
  have n': "n \<in> set (allNodes ?p)" using n by simp
  have comp: "c \<noteq> [] \<and> set c \<subseteq> set (allNodes pdg) \<and> (\<forall>x \<in> set c. set c = class_of pdg x)"
    if "c \<in> set (it ?p n)" for c
    using component [OF wf' n' that] by (simp add: cls)
  have "\<exists>st'. foldE (add_component sub pdg) cs st = Inr st' \<and> comp_inv pdg st' \<and>
      set (fst st') = set (fst st) \<union> \<Union> (set ` set cs)"
    if "set cs \<subseteq> set (it ?p n)" "comp_inv pdg st" for cs st
    using that
  proof (induction cs arbitrary: st)
    case (Cons c cs)
    obtain vis D where st: "st = (vis, D)" by (cases st)
    from comp [of c] Cons.prems(1) have c: "c \<noteq> []" "set c \<subseteq> set (allNodes pdg)" "\<forall>x \<in> set c. set c = class_of pdg x"
      by auto
    from add_component_ok [OF wf Cons.prems(2) [unfolded st] c, of sub] obtain vis1 D1 where
      1: "add_component sub pdg c (vis, D) = Inr (vis1, D1)" "comp_inv pdg (vis1, D1)" "set vis1 = set vis \<union> set c"
      by blast
    from Cons.IH [OF _ 1(2)] Cons.prems(1) obtain st' where
      "foldE (add_component sub pdg) cs (vis1, D1) = Inr st'" "comp_inv pdg st'"
      "set (fst st') = set vis1 \<union> \<Union> (set ` set cs)" by auto
    with 1(1,3) show ?case by (auto simp: st)
  qed simp
  from this [OF subset_refl inv] obtain st' where
    st': "foldE (add_component sub pdg) (it ?p n) st = Inr st'" "comp_inv pdg st'"
      "set (fst st') = set (fst st) \<union> \<Union> (set ` set (it ?p n))" by blast
  obtain c where "c \<in> set (it ?p n)" "n \<in> set c" using covers [OF wf' n', of n] by auto
  with st'(3) have "insert n (set (fst st)) \<subseteq> set (fst st')" by auto
  with st' False show ?thesis by (simp add: add_components_from_def)
qed

lemma all_components:
  assumes wf: "dg_wf pdg"
  shows "\<exists>vis D. foldE (add_components_from sub it pdg) (allNodes pdg) ([], empty_sccdag m) = Inr (vis, D) \<and>
    comp_inv pdg (vis, D) \<and> set vis = set (allNodes pdg)"
proof -
  have "\<exists>st'. foldE (add_components_from sub it pdg) ns st = Inr st' \<and> comp_inv pdg st' \<and>
      set ns \<union> set (fst st) \<subseteq> set (fst st')"
    if "set ns \<subseteq> set (allNodes pdg)" "comp_inv pdg st" for ns and st :: "ptr list \<times> ('v, 'r, 'bv) sccdag"
    using that
  proof (induction ns arbitrary: st)
    case (Cons n ns)
    from Cons.prems have "n \<in> set (allNodes pdg)" by simp
    from add_components_from_ok [OF wf this Cons.prems(2), of sub] obtain st1 where
      1: "add_components_from sub it pdg n st = Inr st1" "comp_inv pdg st1" "insert n (set (fst st)) \<subseteq> set (fst st1)"
      by blast
    from Cons.IH [OF _ 1(2)] Cons.prems(1) obtain st' where
      "foldE (add_components_from sub it pdg) ns st1 = Inr st'" "comp_inv pdg st'"
      "set ns \<union> set (fst st1) \<subseteq> set (fst st')" by auto
    with 1 show ?case by auto
  qed simp
  moreover have "comp_inv pdg ([], empty_sccdag m)"
    by (simp add: comp_inv_def holds_sccs_def empty_sccdag_def)
  ultimately obtain st where st: "foldE (add_components_from sub it pdg) (allNodes pdg) ([], empty_sccdag m) = Inr st"
    "comp_inv pdg st" "set (allNodes pdg) \<subseteq> set (fst st)" by (metis Un_subset_iff subset_refl)
  obtain vis D where e: "st = (vis, D)" by (cases st)
  have "set vis \<subseteq> set (allNodes pdg)" using st(2) unfolding e comp_inv_def prod.case by blast
  then show ?thesis using st e by (intro exI [of _ vis] exI [of _ D]) auto
qed

end

section \<open>The edges between the components\<close>

lemma update_edge_clean:
  assumes c: "clean g" and x: "efrom x = edge_from g e" "eto x = edge_to g e"
  shows "clean (g\<lparr>edgeMem := (edgeMem g)(e := x)\<rparr>)"
    and "dg_arrows (g\<lparr>edgeMem := (edgeMem g)(e := x)\<rparr>) = dg_arrows g"
proof -
  have "lookup_node (g\<lparr>edgeMem := (edgeMem g)(e := x)\<rparr>) t = lookup_node g t" for t
    by (simp add: lookup_node_def split: option.splits)
  then show "clean (g\<lparr>edgeMem := (edgeMem g)(e := x)\<rparr>)"
    using update_edge_wf [OF clean_wf [OF c] x] c by (simp add: clean_def)
  have "edge_pair (g\<lparr>edgeMem := (edgeMem g)(e := x)\<rparr>) y = edge_pair g y" for y
    using x by (simp add: edge_pair_def)
  then show "dg_arrows (g\<lparr>edgeMem := (edgeMem g)(e := x)\<rparr>) = dg_arrows g" by (simp add: dg_arrows_def)
qed

lemma fold_addSubEdge_ends [simp]:
  "efrom (fold (\<lambda>y. addSubEdge sub (f y)) ys x) = efrom x" "eto (fold (\<lambda>y. addSubEdge sub (f y)) ys x) = eto x"
  by (induction ys arbitrary: x) simp_all

lemma clearSubEdges_ends [simp]: "efrom (clearSubEdges x) = efrom x" "eto (clearSubEdges x) = eto x"
  by (simp_all add: clearSubEdges_def)

text \<open>An SCCDAG that differs from \<open>D\<close> only in edges, all of which are dependences.\<close>

definition mark_inv :: "('v \<times> 'v) set \<Rightarrow> ('v, 'r, 'bv) sccdag \<Rightarrow> ('v, 'r, 'bv) sccdag \<Rightarrow> bool" where
  "mark_inv R D D' \<longleftrightarrow> (\<exists>g. D' = D\<lparr>scc_graph := g\<rparr> \<and> clean g \<and> allNodes g = allNodes (scc_graph D) \<and>
     internalNodeMap g = internalNodeMap (scc_graph D) \<and> externalNodeMap g = externalNodeMap (scc_graph D) \<and>
     (\<forall>n. node_T g n = node_T (scc_graph D) n) \<and> dg_arrows g \<subseteq> scc_dep R D)"

lemma mark_invD:
  assumes "mark_inv R D D'"
  shows "scc_mem D' = scc_mem D" "valueToSCCNode D' = valueToSCCNode D" "scc_next D' = scc_next D"
    "allNodes (scc_graph D') = allNodes (scc_graph D)" "node_T (scc_graph D') n = node_T (scc_graph D) n"
    "clean (scc_graph D')" "dg_arrows (scc_graph D') \<subseteq> scc_dep R D" "sccs D' = sccs D"
    "isInternal (scc_graph D') s = isInternal (scc_graph D) s" "ordered_bits D' = ordered_bits D"
    "sccIndexes D' = sccIndexes D" "orderedDirty D' = orderedDirty D"
  using assms unfolding mark_inv_def by (auto simp: dg_values_def isInternal_def)

lemma mark_inv_graph:
  assumes "mark_inv R D D'" "clean g" "allNodes g = allNodes (scc_graph D')"
    "internalNodeMap g = internalNodeMap (scc_graph D')" "externalNodeMap g = externalNodeMap (scc_graph D')"
    "\<And>n. node_T g n = node_T (scc_graph D') n" "dg_arrows g \<subseteq> scc_dep R D"
  shows "mark_inv R D (D'\<lparr>scc_graph := g\<rparr>)"
  using assms unfolding mark_inv_def by auto

definition marked_sccdag :: "('v \<times> 'v) set \<Rightarrow> 'v set \<Rightarrow> ('v, 'r, 'bv) sccdag \<Rightarrow> bool" where
  "marked_sccdag R V D \<longleftrightarrow> holds_sccs R V D \<and> R \<subseteq> V \<times> V \<and>
     (\<forall>v n. map_of (valueToSCCNode D) v = Some (Some n) \<longleftrightarrow>
        n \<in> set (allNodes (scc_graph D)) \<and> v \<in> members D (node_T (scc_graph D) n)) \<and>
     (\<forall>s s'. (s, s') \<in> scc_dep R D \<longrightarrow> (s', s) \<notin> scc_dep R D)"

text \<open>An external value of an SCC object whose node has an incoming edge is the target of a dependence.\<close>

lemma external_target:
  assumes M: "marked_sccdag R V D" and s: "s \<in> sccs D" and x: "(t, p) \<in> set (externalNodeMap (scc_mem D s))"
  obtains q where "p = Some q" "q \<in> set (allNodes (scc_mem D s))" "node_T (scc_mem D s) q = t" "t \<notin> members D s"
    "in_edges (scc_mem D s) q \<noteq> [] \<longleftrightarrow> (\<exists>a \<in> members D s. (a, t) \<in> R)"
proof -
  let ?S = "scc_mem D s"
  have h: "holds_sccs R V D" using M by (simp add: marked_sccdag_def)
  note S = holds_sccsD(3) [OF h s]
  note wf = clean_wf [OF S]
  have d: "distinct (map fst (externalNodeMap ?S))" using wf by (simp add: dg_wf_def maps_wf_def)
  have m: "map_of (externalNodeMap ?S) t = Some p" by (rule map_of_is_SomeI [OF d x])
  then have ext: "isExternal ?S t" by (simp add: isExternal_def)
  then have ni: "\<not> isInternal ?S t" using wf by (auto simp: dg_wf_def maps_wf_def)
  then have look: "lookup_node ?S t = Some p" using m by (auto simp: lookup_node_def isInternal_def)
  then obtain q where p: "p = Some q" using S by (cases p) (auto simp: clean_def)
  then have q: "q \<in> set (allNodes ?S)" "node_T ?S q = t" using look wf_lookup [OF wf] by auto
  have tm: "t \<notin> members D s" using ni by (simp add: members_def internal_values_def)
  have "in_edges ?S q \<noteq> [] \<longleftrightarrow> (\<exists>k. (k, q) \<in> node_arrows ?S)"
  proof -
    have "in_edges ?S q \<noteq> [] \<longleftrightarrow> edge_from ?S ` set (in_edges ?S q) \<noteq> {}" by simp
    also have "\<dots> \<longleftrightarrow> (\<exists>k. (k, q) \<in> node_arrows ?S)" unfolding in_edges_from [OF wf q(1)] by auto
    finally show ?thesis .
  qed
  also have "\<dots> \<longleftrightarrow> (\<exists>a. (a, t) \<in> dg_arrows ?S)"
  proof
    assume "\<exists>k. (k, q) \<in> node_arrows ?S"
    then show "\<exists>a. (a, t) \<in> dg_arrows ?S" using q(2) by (force simp: dg_arrows_eq)
  next
    assume "\<exists>a. (a, t) \<in> dg_arrows ?S"
    then obtain k l where kl: "(k, l) \<in> node_arrows ?S" "node_T ?S l = t" by (auto simp: dg_arrows_eq)
    then have "l = q" using wf_node_inj [OF wf node_arrows_live(2) [OF wf kl(1)] q(1)] q(2) by simp
    with kl show "\<exists>k. (k, q) \<in> node_arrows ?S" by auto
  qed
  also have "\<dots> \<longleftrightarrow> (\<exists>a \<in> members D s. (a, t) \<in> R)"
    unfolding holds_sccsD(5) [OF h s] using tm by auto
  finally show ?thesis using that p q tm by blast
qed

lemma markEdge_step_ok:
  assumes M: "marked_sccdag R V D" and inv: "mark_inv R D D'" and n: "n \<in> set (allNodes (scc_graph D))"
    and x: "(t, p) \<in> set (externalNodeMap (scc_mem D (node_T (scc_graph D) n)))"
  shows "\<exists>cl1 D1. markEdge_step n (t, p) (cl, D') = Inr (cl1, D1) \<and> mark_inv R D D1 \<and>
    dg_arrows (scc_graph D') \<subseteq> dg_arrows (scc_graph D1) \<and>
    (\<forall>a s'. a \<in> members D (node_T (scc_graph D) n) \<longrightarrow> (a, t) \<in> R \<longrightarrow> s' \<in> sccs D \<longrightarrow> t \<in> members D s' \<longrightarrow>
       (node_T (scc_graph D) n, s') \<in> dg_arrows (scc_graph D1))"
proof -
  let ?g = "scc_graph D'" and ?s = "node_T (scc_graph D) n"
  let ?S = "scc_mem D ?s"
  have h: "holds_sccs R V D" and RV: "R \<subseteq> V \<times> V" using M by (auto simp: marked_sccdag_def)
  note mi = mark_invD [OF inv]
  have s: "?s \<in> sccs D" using n by (simp add: dg_values_def)
  obtain q where q: "p = Some q" "t \<notin> members D ?s"
    "in_edges ?S q \<noteq> [] \<longleftrightarrow> (\<exists>a \<in> members D ?s. (a, t) \<in> R)"
    using external_target [OF M s x] by metis
  show ?thesis
  proof (cases "in_edges ?S q = []")
    case True
    then have "markEdge_step n (t, p) (cl, D') = Inr (cl, D')"
      by (simp add: markEdge_step_def q(1) mi)
    then show ?thesis using True q(3) inv by auto
  next
    case False
    then obtain a where a: "a \<in> members D ?s" "(a, t) \<in> R" using q(3) by blast
    then have "t \<in> V" using RV by auto
    then obtain s' where s': "s' \<in> sccs D" "t \<in> members D s'" using holds_sccsD(7) [OF h] by auto
    then obtain m where m: "m \<in> set (allNodes (scc_graph D))" "node_T (scc_graph D) m = s'"
      by (auto simp: dg_values_def)
    have look: "map_of (valueToSCCNode D) t = Some (Some m)" using M m s' by (simp add: marked_sccdag_def)
    have dep: "(?s, s') \<in> scc_dep R D" using s s' a q(2) by (auto simp: scc_dep_def)
    then have nodep: "(s', ?s) \<notin> scc_dep R D" using M by (auto simp: marked_sccdag_def)
    note wf = clean_wf [OF mi(6)]
    have live: "n \<in> set (allNodes ?g)" "m \<in> set (allNodes ?g)" using n m mi by auto
    let ?out = "filter (\<lambda>e. edge_to ?g e = m) (out_edges ?g n)"
    let ?in = "filter (\<lambda>e. edge_from ?g e = m) (in_edges ?g n)"
    have "?in = []"
    proof (rule ccontr)
      assume "?in \<noteq> []"
      then have "m \<in> edge_from ?g ` set (in_edges ?g n)" by (auto simp: filter_empty_conv)
      then have "(m, n) \<in> node_arrows ?g" unfolding in_edges_from [OF wf live(1)] by simp
      then have "(s', ?s) \<in> dg_arrows ?g" using m mi(5) by (force simp: dg_arrows_eq)
      with mi(7) nodep show False by auto
    qed
    then have es: "uset_insert_all (?out @ ?in) [] = uset_insert_all ?out []" by simp
    obtain g1 e where g1: "(case uset_insert_all (?out @ ?in) [] of [] \<Rightarrow> addEdge ?g ?s s' | e # _ \<Rightarrow> Inr (?g, e)) = Inr (g1, e)"
      "clean g1" "allNodes g1 = allNodes ?g" "internalNodeMap g1 = internalNodeMap ?g"
      "externalNodeMap g1 = externalNodeMap ?g" "\<And>k. node_T g1 k = node_T ?g k"
      "dg_arrows g1 = insert (?s, s') (dg_arrows ?g)"
    proof (cases "uset_insert_all ?out []")
      case Nil
      have "?s \<in> dg_values ?g" "s' \<in> dg_values ?g" using s s' mi(8) by auto
      then obtain g1 e where "addEdge ?g ?s s' = Inr (g1, e)" "clean g1" "allNodes g1 = allNodes ?g"
        "internalNodeMap g1 = internalNodeMap ?g" "externalNodeMap g1 = externalNodeMap ?g"
        "\<And>k. node_T g1 k = node_T ?g k" "dg_facts g1 = dg_facts ?g + {#((?s, s'), edge_attrs.truncate (new_edge 0 0))#}"
        unfolding addEdge_def by (rule linkEdge_clean [OF mi(6), where obj = "new_edge 0 0"]) blast
      then show ?thesis using that es Nil by (auto simp: facts_arrows)
    next
      case (Cons e es')
      then have "e \<in> set ?out" using set_uset_insert_all [of ?out "[]"] by auto
      then have "edge_to ?g e = m" "e \<in> set (allEdges ?g)" "edge_from ?g e = n"
        using edges_wfD(7) [of ?g n] wf live(1) by (auto simp: dg_wf_def)
      then have "(?s, s') \<in> dg_arrows ?g" using m mi(5) by (force simp: dg_arrows_def edge_pair_def)
      then show ?thesis using that [of ?g e] es Cons mi(6) by (simp add: insert_absorb)
    qed
    let ?e0 = "if e \<in> set cl then edgeMem g1 e else clearSubEdges (edgeMem g1 e)"
    let ?e1 = "fold (\<lambda>x. addSubEdge (sub_of (scc_mem D)) (edge_addr ?s x)) (in_edges ?S q) ?e0"
    let ?g2 = "g1\<lparr>edgeMem := (edgeMem g1)(e := ?e1)\<rparr>"
    have ends: "efrom ?e1 = edge_from g1 e" "eto ?e1 = edge_to g1 e" by simp_all
    note uc = update_edge_clean [OF g1(2) ends]
    have run: "markEdge_step n (t, p) (cl, D') = Inr (uset_insert e cl, D'\<lparr>scc_graph := ?g2\<rparr>)"
      unfolding markEdge_step_def Let_def prod.case q(1) option.case mi(1,2,5) look m(2)
      using False g1(1) by simp
    have inv2: "mark_inv R D (D'\<lparr>scc_graph := ?g2\<rparr>)"
      by (rule mark_inv_graph [OF inv uc(1)]) (use g1 uc(2) mi(7) dep in auto)
    have grow: "dg_arrows ?g \<subseteq> dg_arrows ?g2" "(?s, s') \<in> dg_arrows ?g2" using uc(2) g1(7) by auto
    have uniq: "s'' = s'" if "s'' \<in> sccs D" "t \<in> members D s''" for s''
      using holds_sccsD(6) [OF h that(1) s'(1) that(2) s'(2)] .
    show ?thesis
    proof (intro exI conjI allI impI)
      show "markEdge_step n (t, p) (cl, D') = Inr (uset_insert e cl, D'\<lparr>scc_graph := ?g2\<rparr>)" by (rule run)
      show "mark_inv R D (D'\<lparr>scc_graph := ?g2\<rparr>)" by (rule inv2)
      show "dg_arrows ?g \<subseteq> dg_arrows (scc_graph (D'\<lparr>scc_graph := ?g2\<rparr>))" using grow(1) by simp
      show "(?s, s'') \<in> dg_arrows (scc_graph (D'\<lparr>scc_graph := ?g2\<rparr>))"
        if "s'' \<in> sccs D" "t \<in> members D s''" for s''
        unfolding uniq [OF that] using grow(2) by simp
    qed
  qed
qed

lemma markEdges_correct:
  assumes M: "marked_sccdag R V D" and A: "dg_arrows (scc_graph D) \<subseteq> scc_dep R D"
  shows "\<exists>D1. markEdgesAndSubEdges D = Inr D1 \<and> mark_inv R D D1 \<and> dg_arrows (scc_graph D1) = scc_dep R D"
proof -
  have h: "holds_sccs R V D" using M by (simp add: marked_sccdag_def)
  let ?T = "node_T (scc_graph D)"
  let ?ext = "\<lambda>n. externalNodeMap (scc_mem D (?T n))"
  let ?done = "\<lambda>A n t. \<forall>a s'. a \<in> members D (?T n) \<longrightarrow> (a, t) \<in> R \<longrightarrow> s' \<in> sccs D \<longrightarrow> t \<in> members D s' \<longrightarrow> (?T n, s') \<in> A"
  have inner: "\<exists>cl1 D1. foldE (markEdge_step n) xs (cl, D') = Inr (cl1, D1) \<and> mark_inv R D D1 \<and>
      dg_arrows (scc_graph D') \<subseteq> dg_arrows (scc_graph D1) \<and>
      (\<forall>(t, p) \<in> set xs. ?done (dg_arrows (scc_graph D1)) n t)"
    if n: "n \<in> set (allNodes (scc_graph D))" and xs: "set xs \<subseteq> set (?ext n)" "mark_inv R D D'" for n xs cl D'
    using xs
  proof (induction xs arbitrary: cl D')
    case (Cons x xs)
    obtain t p where x: "x = (t, p)" by (cases x)
    from Cons.prems have xin: "(t, p) \<in> set (?ext n)" by (simp add: x)
    obtain cl1 D1 where 1: "markEdge_step n (t, p) (cl, D') = Inr (cl1, D1)" "mark_inv R D D1"
      "dg_arrows (scc_graph D') \<subseteq> dg_arrows (scc_graph D1)" "?done (dg_arrows (scc_graph D1)) n t"
      using markEdge_step_ok [OF M Cons.prems(2) n xin, of cl] by blast
    obtain cl2 D2 where 2: "foldE (markEdge_step n) xs (cl1, D1) = Inr (cl2, D2)" "mark_inv R D D2"
      "dg_arrows (scc_graph D1) \<subseteq> dg_arrows (scc_graph D2)" "\<forall>(t, p) \<in> set xs. ?done (dg_arrows (scc_graph D2)) n t"
      using Cons.IH [OF _ 1(2), of cl1] Cons.prems(1) by auto
    have "foldE (markEdge_step n) (x # xs) (cl, D') = Inr (cl2, D2)" using 1(1) 2(1) by (simp add: x)
    moreover have "?done (dg_arrows (scc_graph D2)) n t" using 1(4) 2(3) by blast
    ultimately show ?case using 1(3) 2(2-4) by (intro exI [of _ cl2] exI [of _ D2]) (auto simp: x)
  qed auto
  let ?f = "\<lambda>n st. foldE (markEdge_step n) (externalNodeMap (scc_mem (snd st) (node_T (scc_graph (snd st)) n))) st"
  have outer: "\<exists>cl1 D1. foldE ?f ns (cl, D') = Inr (cl1, D1) \<and> mark_inv R D D1 \<and>
      dg_arrows (scc_graph D') \<subseteq> dg_arrows (scc_graph D1) \<and>
      (\<forall>n \<in> set ns. \<forall>(t, p) \<in> set (?ext n). ?done (dg_arrows (scc_graph D1)) n t)"
    if "set ns \<subseteq> set (allNodes (scc_graph D))" "mark_inv R D D'" for ns cl D'
    using that
  proof (induction ns arbitrary: cl D')
    case (Cons n ns)
    note mi = mark_invD [OF Cons.prems(2)]
    from Cons.prems have n: "n \<in> set (allNodes (scc_graph D))" by simp
    obtain cl1 D1 where 1: "foldE (markEdge_step n) (?ext n) (cl, D') = Inr (cl1, D1)" "mark_inv R D D1"
      "dg_arrows (scc_graph D') \<subseteq> dg_arrows (scc_graph D1)" "\<forall>(t, p) \<in> set (?ext n). ?done (dg_arrows (scc_graph D1)) n t"
      using inner [OF n subset_refl Cons.prems(2), of cl] by blast
    obtain cl2 D2 where 2: "foldE ?f ns (cl1, D1) = Inr (cl2, D2)" "mark_inv R D D2"
      "dg_arrows (scc_graph D1) \<subseteq> dg_arrows (scc_graph D2)"
      "\<forall>n \<in> set ns. \<forall>(t, p) \<in> set (?ext n). ?done (dg_arrows (scc_graph D2)) n t"
      using Cons.IH [OF _ 1(2), of cl1] Cons.prems(1) by auto
    have "foldE ?f (n # ns) (cl, D') = Inr (cl2, D2)" using 1(1) 2(1) by (simp add: mi)
    moreover have "\<forall>(t, p) \<in> set (?ext n). ?done (dg_arrows (scc_graph D2)) n t" using 1(4) 2(3) by blast
    ultimately show ?case using 1(3) 2(2-4) by (intro exI [of _ cl2] exI [of _ D2]) auto
  qed auto
  have "mark_inv R D D" using holds_sccsD(1) [OF h] A unfolding mark_inv_def by (intro exI [of _ "scc_graph D"]) simp
  from outer [OF subset_refl this, of "[]"] obtain cl1 D1 where 1: "foldE ?f (allNodes (scc_graph D)) ([], D) = Inr (cl1, D1)"
    "mark_inv R D D1" "\<forall>n \<in> set (allNodes (scc_graph D)). \<forall>(t, p) \<in> set (?ext n). ?done (dg_arrows (scc_graph D1)) n t"
    by blast
  have "scc_dep R D \<subseteq> dg_arrows (scc_graph D1)"
  proof clarify
    fix s s' assume "(s, s') \<in> scc_dep R D"
    then obtain a b where d: "s \<in> sccs D" "s' \<in> sccs D" "s \<noteq> s'" "a \<in> members D s" "b \<in> members D s'" "(a, b) \<in> R"
      by (auto simp: scc_dep_def)
    obtain n where n: "n \<in> set (allNodes (scc_graph D))" "?T n = s" using d(1) by (auto simp: dg_values_def)
    let ?S = "scc_mem D s"
    note S = holds_sccsD(3) [OF h d(1)]
    have "(a, b) \<in> dg_arrows ?S" using holds_sccsD(5) [OF h d(1)] d by auto
    then obtain e where "e \<in> set (allEdges ?S)" "edge_pair ?S e = (a, b)" by (auto simp: dg_arrows_def)
    then have "b \<in> dg_values ?S" using edge_pair_live [OF clean_wf [OF S], of e] by simp
    moreover have "b \<notin> members D s" using holds_sccsD(6) [OF h d(1,2)] d(3,5) by auto
    ultimately have "b \<in> external_values ?S" using clean_values [OF S] by (simp add: members_def)
    then obtain p where "(b, p) \<in> set (?ext n)" unfolding n(2) set_map_fst_external [symmetric] by force
    with 1(3) n(1) have "?done (dg_arrows (scc_graph D1)) n b" by blast
    with d n(2) show "(s, s') \<in> dg_arrows (scc_graph D1)" by auto
  qed
  with mark_invD(7) [OF 1(2)] have "dg_arrows (scc_graph D1) = scc_dep R D" by auto
  with 1(1,2) show ?thesis by (auto simp: markEdgesAndSubEdges_def)
qed

section \<open>The reachability index\<close>

lemma foldE_map: "foldE f (map h xs) s = foldE (\<lambda>x. f (h x)) xs s"
proof -
  have "foldE f (map h xs) = foldE (\<lambda>x. f (h x)) xs"
  proof (induction xs)
    case (Cons a xs)
    show ?case by (rule ext) (simp add: Cons)
  qed (simp add: fun_eq_iff)
  then show ?thesis by simp
qed

lemma trancl_map_inj:
  assumes R: "R \<subseteq> A \<times> A" and f: "inj_on f A" and ab: "a \<in> A" "b \<in> A"
  shows "(f a, f b) \<in> ((\<lambda>(x, y). (f x, f y)) ` R)\<^sup>+ \<longleftrightarrow> (a, b) \<in> R\<^sup>+"
proof
  let ?S = "(\<lambda>(x, y). (f x, f y)) ` R"
  have "\<exists>c \<in> A. y = f c \<and> (a, c) \<in> R\<^sup>+" if "(f a, y) \<in> ?S\<^sup>+" for y
    using that
  proof induction
    case (base y)
    then obtain u v where "(u, v) \<in> R" "f u = f a" "y = f v" by auto
    with R f ab(1) show ?case by (auto dest: inj_onD)
  next
    case (step y z)
    then obtain c where c: "c \<in> A" "y = f c" "(a, c) \<in> R\<^sup>+" by blast
    from step(2) obtain u v where uv: "(u, v) \<in> R" "f u = y" "z = f v" by auto
    with R f c have "u = c" "v \<in> A" by (auto dest: inj_onD)
    with c uv show ?case by (auto intro: trancl_into_trancl)
  qed
  then show "(a, b) \<in> R\<^sup>+" if "(f a, f b) \<in> ?S\<^sup>+"
    using that f ab(2) by (auto dest: inj_onD)
  show "(f a, f b) \<in> ?S\<^sup>+" if "(a, b) \<in> R\<^sup>+"
    using that by induction (force intro: trancl_into_trancl)+
qed

lemma index_fold:
  assumes "distinct (map h xs)" "k < length xs"
  shows "map_of (snd (fold (\<lambda>m (i, ix). (i + 1, AList.update (h m) i ix)) xs (i0 :: u32, ix0))) (h (xs ! k)) =
      Some (i0 + of_nat k) \<and>
    fst (fold (\<lambda>m (i, ix). (i + 1, AList.update (h m) i ix)) xs (i0, ix0)) = i0 + of_nat (length xs)"
  using assms
proof (induction xs arbitrary: k rule: rev_induct)
  case (snoc x xs)
  let ?F = "fold (\<lambda>m (i, ix). (i + 1, AList.update (h m) i ix))"
  have len: "fst (?F ys (i0, ix0)) = i0 + of_nat (length ys)" for ys
    by (induction ys rule: rev_induct) (auto split: prod.splits)
  obtain i ix where F: "?F xs (i0, ix0) = (i, ix)" by fastforce
  show ?case
  proof (cases "k < length xs")
    case True
    have "h x \<notin> h ` set xs" using snoc.prems(1) by simp
    then have "h (xs ! k) \<noteq> h x" using True by (metis image_eqI nth_mem)
    with True snoc show ?thesis using len [of xs] by (auto simp: F nth_append update_conv')
  next
    case False
    then have "k = length xs" using snoc.prems(2) by simp
    then show ?thesis using len [of xs] by (simp add: F update_conv')
  qed
qed simp

lemma computeReachability_correct:
  assumes ops: "bitvec_laws ops" and c: "clean (scc_graph D)"
    and small: "numNodes (scc_graph D) * numNodes (scc_graph D) < 2 ^ 31"
  shows "\<exists>D1. computeReachabilityAmongSCCs ops D = Inr D1 \<and> scc_graph D1 = scc_graph D \<and> scc_mem D1 = scc_mem D \<and>
    scc_next D1 = scc_next D \<and> valueToSCCNode D1 = valueToSCCNode D \<and>
    (\<forall>s \<in> sccs D. \<forall>s' \<in> sccs D. orderedBefore ops D1 s s' = Inr ((s, s') \<in> (dg_arrows (scc_graph D))\<^sup>+))"
proof -
  let ?g = "scc_graph D" and ?N = "numNodes (scc_graph D)"
  let ?ns = "allNodes ?g" and ?T = "node_T ?g"
  note wf = clean_wf [OF c]
  define F where "F = fold (\<lambda>m (i :: u32, ix). (i + 1, AList.update (?T m) i ix)) ?ns (0, sccIndexes D)"
  define idx where "idx = snd F"
  define id where "id = (\<lambda>s. the (map_of idx s))"
  have dist: "distinct (map ?T ?ns)"
    using wf wf_node_inj [OF wf] by (auto simp: distinct_map inj_on_def dg_wf_def edges_wf_def)
  have look: "map_of idx (?T (?ns ! k)) = Some (of_nat k)" if "k < ?N" for k
    using index_fold [OF dist, of k 0 "sccIndexes D"] that by (simp add: idx_def F_def numNodes_def)
  have ex: "\<exists>k < ?N. s = ?T (?ns ! k)" if s: "s \<in> sccs D" for s
  proof -
    from s obtain n where "n \<in> set ?ns" "s = ?T n" by (auto simp: dg_values_def)
    then show ?thesis by (metis in_set_conv_nth numNodes_def)
  qed
  have N: "?N < 2 ^ 32"
  proof (rule ccontr)
    assume "\<not> ?N < 2 ^ 32"
    then have "2 ^ 32 * 2 ^ 32 \<le> ?N * ?N" by (intro mult_le_mono) auto
    with small show False by simp
  qed
  have un: "unat (of_nat k :: u32) = k" if "k < 2 ^ 32" for k
    using that by (simp add: unat_of_nat take_bit_nat_eq_self)
  have inj: "inj_on id (sccs D)"
  proof (rule inj_onI)
    fix s s' assume s: "s \<in> sccs D" "s' \<in> sccs D" "id s = id s'"
    obtain k l where kl: "k < ?N" "s = ?T (?ns ! k)" "l < ?N" "s' = ?T (?ns ! l)" using ex s by metis
    then have "(of_nat k :: u32) = of_nat l" using s(3) look by (simp add: id_def)
    then have "k = l" using un [of k] un [of l] kl N by (metis order_less_trans)
    with kl show "s = s'" by simp
  qed
  have idlt: "id s < of_nat ?N" "map_of idx s = Some (id s)" if s: "s \<in> sccs D" for s
  proof -
    obtain k where k: "k < ?N" "s = ?T (?ns ! k)" using ex [OF s] by blast
    then show "map_of idx s = Some (id s)" using look by (simp add: id_def)
    from k have "id s = of_nat k" using look by (simp add: id_def)
    then show "id s < of_nat ?N" using k N un [of k] un [of ?N] by (simp add: word_less_nat_alt)
  qed
  have live: "from_T ?g e \<in> sccs D" "to_T ?g e \<in> sccs D" if "e \<in> set (allEdges ?g)" for e
    using edge_pair_live [OF wf that] by (auto simp: edge_pair_def)
  let ?es = "map (\<lambda>e. (id (from_T ?g e), id (to_T ?g e))) (allEdges ?g)"
  have es: "set ?es = (\<lambda>(a, b). (id a, id b)) ` dg_arrows ?g"
    by (auto simp: dg_arrows_def edge_pair_def)
  have A: "unat (of_nat ?N :: u32) * unat (of_nat ?N :: u32) < 2 ^ 31" using un [OF N] small by simp
  have B: "\<forall>(r, c) \<in> set ?es. r < of_nat ?N \<and> c < of_nat ?N" using live idlt(1) by auto
  obtain m1 m2 where m: "foldE (\<lambda>(r, c) m. bm_set ops m r c True) ?es (bm_resize ops (ordered_bits D) (of_nat ?N)) = Inr m1"
    "bm_transitiveClosure ops m1 = Inr m2"
    "\<forall>r c. r < of_nat ?N \<longrightarrow> c < of_nat ?N \<longrightarrow> bm_test ops m2 r c = Inr ((r, c) \<in> (set ?es)\<^sup>+)"
    using bmx.build_index [OF ops A B, of "ordered_bits D"] by blast
  let ?D1 = "D\<lparr>orderedDirty := False, sccIndexes := idx, ordered_bits := m2\<rparr>"
  have run: "computeReachabilityAmongSCCs ops D = Inr ?D1"
    using m(1,2) unfolding foldE_map computeReachabilityAmongSCCs_def Let_def F_def [symmetric]
    by (simp add: idx_def id_def split_beta)
  have "orderedBefore ops ?D1 s s' = Inr ((s, s') \<in> (dg_arrows ?g)\<^sup>+)" if s: "s \<in> sccs D" "s' \<in> sccs D" for s s'
  proof -
    have sub: "dg_arrows ?g \<subseteq> sccs D \<times> sccs D" using live by (auto simp: dg_arrows_def edge_pair_def)
    have "orderedBefore ops ?D1 s s' = bm_test ops m2 (id s) (id s')"
      using idlt(2) [OF s(1)] idlt(2) [OF s(2)] by (simp add: orderedBefore_def)
    also have "\<dots> = Inr ((id s, id s') \<in> (set ?es)\<^sup>+)" using m(3) idlt(1) [OF s(1)] idlt(1) [OF s(2)] by blast
    also have "\<dots> = Inr ((s, s') \<in> (dg_arrows ?g)\<^sup>+)"
      unfolding es trancl_map_inj [OF sub inj s] ..
    finally show ?thesis .
  qed
  with run show ?thesis by (intro exI [of _ ?D1]) simp
qed

section \<open>The whole constructor\<close>

lemma dg_arrows_values: "dg_wf g \<Longrightarrow> dg_arrows g \<subseteq> dg_values g \<times> dg_values g"
proof
  fix x assume wf: "dg_wf g" and "x \<in> dg_arrows g"
  then obtain e where e: "e \<in> set (allEdges g)" "x = edge_pair g e" by (auto simp: dg_arrows_def)
  from edge_pair_live [OF wf e(1)] show "x \<in> dg_values g \<times> dg_values g" unfolding e(2) by (simp add: mem_Times_iff)
qed

lemma arrows_between_live:
  assumes wf: "dg_wf g" and ab: "a \<in> set (allNodes g)" "b \<in> set (allNodes g)"
  shows "(node_T g a, node_T g b) \<in> (dg_arrows g)\<^sup>+ \<longleftrightarrow> (a, b) \<in> (node_arrows g)\<^sup>+"
    and "(node_T g a, node_T g b) \<in> (dg_arrows g)\<^sup>* \<longleftrightarrow> (a, b) \<in> (node_arrows g)\<^sup>*"
proof -
  have sub: "node_arrows g \<subseteq> set (allNodes g) \<times> set (allNodes g)" using node_arrows_live [OF wf] by auto
  have inj: "inj_on (node_T g) (set (allNodes g))" using wf_node_inj [OF wf] by (auto simp: inj_on_def)
  show t: "(node_T g a, node_T g b) \<in> (dg_arrows g)\<^sup>+ \<longleftrightarrow> (a, b) \<in> (node_arrows g)\<^sup>+"
    using trancl_map_inj [OF sub inj ab] by (simp add: dg_arrows_eq)
  show "(node_T g a, node_T g b) \<in> (dg_arrows g)\<^sup>* \<longleftrightarrow> (a, b) \<in> (node_arrows g)\<^sup>*"
    using t inj ab by (auto simp: rtrancl_eq_or_trancl dest: inj_onD)
qed

text \<open>The members of each SCC object are one class of mutually reachable values.\<close>

definition classes_ok :: "('v \<times> 'v) set \<Rightarrow> 'v set \<Rightarrow> ('v, 'r, 'bv) sccdag \<Rightarrow> bool" where
  "classes_ok R V D \<longleftrightarrow> (\<forall>s \<in> sccs D. \<forall>u \<in> members D s. \<forall>v \<in> V.
     v \<in> members D s \<longleftrightarrow> (u, v) \<in> R\<^sup>* \<and> (v, u) \<in> R\<^sup>*)"

lemma comp_inv_classes:
  assumes wf: "dg_wf pdg" and inv: "comp_inv pdg (vis, D)" and all: "set vis = set (allNodes pdg)"
  shows "classes_ok (dg_arrows pdg) (dg_values pdg) D"
  unfolding classes_ok_def
proof (intro ballI)
  fix s u v assume s: "s \<in> sccs D" "u \<in> members D s" "v \<in> dg_values pdg"
  obtain x where x: "x \<in> set (allNodes pdg)" "members D s = node_T pdg ` class_of pdg x"
    using inv s(1) all unfolding comp_inv_def prod.case by blast
  obtain a where a: "a \<in> class_of pdg x" "u = node_T pdg a" using s(2) x(2) by auto
  obtain b where b: "b \<in> set (allNodes pdg)" "v = node_T pdg b" using s(3) by (auto simp: dg_values_def)
  have al: "a \<in> set (allNodes pdg)" using class_of_live [OF wf x(1) a(1)] .
  have "v \<in> members D s \<longleftrightarrow> b \<in> class_of pdg x"
    using x(2) b class_of_live [OF wf x(1)] wf_node_inj [OF wf] by blast
  also have "\<dots> \<longleftrightarrow> b \<in> class_of pdg a" using class_of_eq [OF a(1)] by simp
  also have "\<dots> \<longleftrightarrow> (u, v) \<in> (dg_arrows pdg)\<^sup>* \<and> (v, u) \<in> (dg_arrows pdg)\<^sup>*"
    unfolding class_of_def a(2) b(2) using arrows_between_live(2) [OF wf] al b(1) by simp
  finally show "v \<in> members D s \<longleftrightarrow> (u, v) \<in> (dg_arrows pdg)\<^sup>* \<and> (v, u) \<in> (dg_arrows pdg)\<^sup>*" .
qed

lemma dep_path:
  assumes h: "holds_sccs R V D" and cl: "classes_ok R V D"
    and d: "(s, s') \<in> (scc_dep R D)\<^sup>+" and uv: "u \<in> members D s" "v \<in> members D s'"
  shows "(u, v) \<in> R\<^sup>+"
  using d uv(2)
proof (induction arbitrary: v)
  case (base s')
  then obtain a b where ab: "s \<in> sccs D" "s' \<in> sccs D" "a \<in> members D s" "b \<in> members D s'" "(a, b) \<in> R"
    by (auto simp: scc_dep_def)
  have V: "x \<in> V" if "x \<in> members D r" "r \<in> sccs D" for x r using that holds_sccsD(7) [OF h] by blast
  have "(u, a) \<in> R\<^sup>*" "(b, v) \<in> R\<^sup>*"
    using cl ab uv(1) base(2) V unfolding classes_ok_def by blast+
  with ab(5) show ?case by (meson rtrancl_into_trancl1 rtrancl_trancl_trancl trancl_rtrancl_trancl)
next
  case (step y z)
  then obtain a b where ab: "y \<in> sccs D" "z \<in> sccs D" "a \<in> members D y" "b \<in> members D z" "(a, b) \<in> R"
    by (auto simp: scc_dep_def)
  have V: "x \<in> V" if "x \<in> members D r" "r \<in> sccs D" for x r using that holds_sccsD(7) [OF h] by blast
  have "(b, v) \<in> R\<^sup>*" using cl ab step(4) V unfolding classes_ok_def by blast
  with step.IH [OF ab(3)] ab(5) show ?case by (meson trancl_into_trancl trancl_rtrancl_trancl)
qed

lemma dep_irrefl:
  assumes h: "holds_sccs R V D" and cl: "classes_ok R V D"
  shows "(s, s) \<notin> (scc_dep R D)\<^sup>+"
proof
  assume d: "(s, s) \<in> (scc_dep R D)\<^sup>+"
  then obtain s' where e: "(s, s') \<in> scc_dep R D" "(s', s) \<in> (scc_dep R D)\<^sup>*" by (meson tranclD)
  then obtain a b where ab: "s \<in> sccs D" "s' \<in> sccs D" "s \<noteq> s'" "a \<in> members D s" "b \<in> members D s'" "(a, b) \<in> R"
    by (auto simp: scc_dep_def)
  from e(2) ab(3) have "(s', s) \<in> (scc_dep R D)\<^sup>+" by (auto simp: rtrancl_eq_or_trancl)
  from dep_path [OF h cl this ab(5,4)] have "(b, a) \<in> R\<^sup>*" by (rule trancl_into_rtrancl)
  moreover have "(a, b) \<in> R\<^sup>*" "b \<in> V" using ab holds_sccsD(7) [OF h] by auto
  ultimately have "b \<in> members D s" using cl ab(1,4) unfolding classes_ok_def by blast
  with holds_sccsD(6) [OF h ab(1,2)] ab(3,5) show False by blast
qed

lemma path_dep:
  assumes h: "holds_sccs R V D" and RV: "R \<subseteq> V \<times> V" and s: "s \<in> sccs D" "u \<in> members D s" and p: "(u, v) \<in> R\<^sup>*"
    and s': "s' \<in> sccs D" "v \<in> members D s'"
  shows "s = s' \<or> (s, s') \<in> (scc_dep R D)\<^sup>+"
  using p s'
proof (induction arbitrary: s')
  case base
  then show ?case using holds_sccsD(6) [OF h s(1) base(1) s(2)] by blast
next
  case (step y z)
  then have "y \<in> V" using RV by auto
  then obtain r where r: "r \<in> sccs D" "y \<in> members D r" using holds_sccsD(7) [OF h] by auto
  have "r = s' \<or> (r, s') \<in> scc_dep R D" using r step by (auto simp: scc_dep_def)
  with step.IH [OF r] show ?case by (auto intro: trancl_into_trancl)
qed

lemma number_of_sccs:
  assumes h: "holds_sccs R (dg_values pdg) D" and wf: "dg_wf pdg"
  shows "numNodes (scc_graph D) \<le> numNodes pdg"
proof -
  have card: "card (dg_values g) = numNodes g" if "dg_wf g" for g :: "('x, 'y) dg"
    using that wf_node_inj [OF that]
    by (auto simp: dg_values_def numNodes_def dg_wf_def edges_wf_def inj_on_def distinct_card intro!: card_image [THEN trans])
  define f where "f s = (SOME a. a \<in> members D s)" for s
  have f: "f s \<in> members D s" if "s \<in> sccs D" for s
    using holds_sccsD(4) [OF h that] unfolding f_def by (auto intro: someI_ex)
  have "inj_on f (sccs D)" using f holds_sccsD(6) [OF h] by (metis inj_onI)
  moreover have "f ` sccs D \<subseteq> dg_values pdg" using f holds_sccsD(7) [OF h] by blast
  moreover have "finite (dg_values pdg)" by (simp add: dg_values_def)
  ultimately have "card (sccs D) \<le> card (dg_values pdg)" by (rule card_inj_on_le)
  then show ?thesis using card [OF wf] card [OF clean_wf [OF holds_sccsD(1) [OF h]]] by simp
qed

definition sccdag_of_pdg :: "'bv bitvec_ops \<Rightarrow> ('v, 'r) dg \<Rightarrow> ('v, 'r, 'bv) sccdag \<Rightarrow> bool" where
  "sccdag_of_pdg ops pdg D \<longleftrightarrow> holds_sccs (dg_arrows pdg) (dg_values pdg) D \<and>
     classes_ok (dg_arrows pdg) (dg_values pdg) D \<and>
     dg_arrows (scc_graph D) = scc_dep (dg_arrows pdg) D \<and>
     (\<forall>s \<in> sccs D. isInternal (scc_graph D) s \<longleftrightarrow> (\<exists>v \<in> members D s. isInternal pdg v)) \<and>
     (\<forall>v s. sccOfValue D v = Inr (Some s) \<longleftrightarrow> s \<in> sccs D \<and> v \<in> members D s) \<and>
     (\<forall>v. v \<notin> dg_values pdg \<longrightarrow> sccOfValue D v = Inr None) \<and>
     (\<forall>s \<in> sccs D. \<forall>s' \<in> sccs D. orderedBefore ops D s s' = Inr ((s, s') \<in> (dg_arrows (scc_graph D))\<^sup>+))"

context scc_iterator
begin

lemma constructor_correct:
  assumes wf: "dg_wf pdg" and ops: "bitvec_laws ops" and small: "numNodes pdg * numNodes pdg < 2 ^ 31"
  shows "\<exists>D. SCCDAG_of ops m sub it pdg = Inr D \<and> sccdag_of_pdg ops pdg D"
proof -
  let ?R = "dg_arrows pdg" and ?V = "dg_values pdg"
  obtain vis D where 1: "foldE (add_components_from sub it pdg) (allNodes pdg) ([], empty_sccdag m) = Inr (vis, D)"
    "comp_inv pdg (vis, D)" "set vis = set (allNodes pdg)"
    using all_components [OF wf] by blast
  have V: "node_T pdg ` set vis = ?V" using 1(3) by (simp add: dg_values_def)
  have h: "holds_sccs ?R ?V D" and facts: "dg_facts (scc_graph D) = {#}"
    and int: "\<forall>s \<in> sccs D. isInternal (scc_graph D) s \<longleftrightarrow> (\<exists>v \<in> members D s. isInternal pdg v)"
    using 1(2) unfolding comp_inv_def prod.case V by blast+
  have cl: "classes_ok ?R ?V D" by (rule comp_inv_classes [OF wf 1(2,3)])
  let ?M = "markValuesInSCC D"
  note cong = holds_sccs_cong [of ?M D, OF markValues_simps(1-3)]
  have RV: "?R \<subseteq> ?V \<times> ?V" by (rule dg_arrows_values [OF wf])
  have anti: "(s', s) \<notin> scc_dep ?R D" if "(s, s') \<in> scc_dep ?R D" for s s'
    using that dep_irrefl [OF h cl, of s] by (meson trancl.simps)
  have M: "marked_sccdag ?R ?V ?M"
    unfolding marked_sccdag_def cong using h RV markValues_spec(1) [OF h] anti by (simp add: cong)
  have "dg_arrows (scc_graph ?M) \<subseteq> scc_dep ?R ?M" using facts by (simp add: facts_arrows)
  from markEdges_correct [OF M this] obtain D1 where 2: "markEdgesAndSubEdges ?M = Inr D1" "mark_inv ?R ?M D1"
    "dg_arrows (scc_graph D1) = scc_dep ?R D" unfolding cong by blast
  note mi = mark_invD [OF 2(2)]
  let ?D1 = "D1\<lparr>orderedDirty := True\<rparr>"
  have mem1: "members D1 s = members D s" for s by (simp add: members_def mi)
  have sc1: "sccs D1 = sccs D" using mi(8) by simp
  have dep1: "scc_dep ?R D1 = scc_dep ?R D" by (simp add: scc_dep_def sc1 mem1)
  have h1: "holds_sccs ?R ?V D1"
    using h mi(6) unfolding holds_sccs_def sc1 by (simp add: mem1 mi)
  have "numNodes (scc_graph D1) * numNodes (scc_graph D1) \<le> numNodes pdg * numNodes pdg"
    using number_of_sccs [OF h1 wf] by (simp add: mult_le_mono)
  then have sm: "numNodes (scc_graph ?D1) * numNodes (scc_graph ?D1) < 2 ^ 31" using small by simp
  have c1: "clean (scc_graph ?D1)" using mi(6) by simp
  from computeReachability_correct [OF ops c1 sm] obtain E where 3:
    "computeReachabilityAmongSCCs ops ?D1 = Inr E" "scc_graph E = scc_graph D1" "scc_mem E = scc_mem D1"
    "scc_next E = scc_next D1" "valueToSCCNode E = valueToSCCNode D1"
    "\<forall>s \<in> sccs D1. \<forall>s' \<in> sccs D1. orderedBefore ops E s s' = Inr ((s, s') \<in> (dg_arrows (scc_graph D1))\<^sup>+)" by auto
  note congE = holds_sccs_cong [OF 3(2-4)]
  have run: "SCCDAG_of ops m sub it pdg = Inr E" using 1(1) 2(1) 3(1) by (simp add: SCCDAG_of_def)
  have mapE: "map_of (valueToSCCNode E) v = map_of (valueToSCCNode ?M) v" for v using 3(5) mi(2) by simp
  have of_value: "sccOfValue E v = Inr (Some s) \<longleftrightarrow> s \<in> sccs D \<and> v \<in> members D s" for v s
  proof -
    have "sccOfValue E v = Inr (Some s) \<longleftrightarrow> (\<exists>n. map_of (valueToSCCNode ?M) v = Some (Some n) \<and> node_T (scc_graph D) n = s)"
      using mi(5) unfolding sccOfValue_def mapE 3(2) by (auto split: option.splits)
    also have "\<dots> \<longleftrightarrow> s \<in> sccs D \<and> v \<in> members D s"
      unfolding markValues_spec(1) [OF h] by (auto simp: dg_values_def)
    finally show ?thesis .
  qed
  have none: "sccOfValue E v = Inr None" if "v \<notin> ?V" for v
    using that markValues_spec(2) [OF h, of v] unfolding sccOfValue_def mapE by simp
  have "sccdag_of_pdg ops pdg E"
    unfolding sccdag_of_pdg_def congE(1,3)
  proof (intro conjI)
    show "classes_ok ?R ?V E" using cl by (simp add: classes_ok_def congE mem1 3(2) mi)
    show "dg_arrows (scc_graph E) = scc_dep ?R D1" using 2(3) 3(2) dep1 by simp
    show "\<forall>s \<in> sccs E. isInternal (scc_graph E) s \<longleftrightarrow> (\<exists>v \<in> members E s. isInternal pdg v)"
      using int by (simp add: congE mem1 3(2) mi)
    show "\<forall>v s. sccOfValue E v = Inr (Some s) \<longleftrightarrow> s \<in> sccs E \<and> v \<in> members E s"
      using of_value by (simp add: congE mem1 3(2) mi)
    show "\<forall>v. v \<notin> ?V \<longrightarrow> sccOfValue E v = Inr None" using none by blast
    show "\<forall>s \<in> sccs E. \<forall>s' \<in> sccs E. orderedBefore ops E s s' = Inr ((s, s') \<in> (dg_arrows (scc_graph E))\<^sup>+)"
      using 3(2,6) by simp
  qed (rule h1)
  with run show ?thesis by blast
qed

end

section \<open>Merging leaves the index behind\<close>

definition same_index :: "('v, 'r, 'bv) sccdag \<Rightarrow> ('v, 'r, 'bv) sccdag \<Rightarrow> bool" where
  "same_index D D' \<longleftrightarrow> ordered_bits D' = ordered_bits D \<and> orderedDirty D' = orderedDirty D \<and>
     sccIndexes D' = sccIndexes D \<and> scc_next D' = scc_next D"

lemma markEdge_step_index:
  assumes "same_index D (snd st)" and "markEdge_step n x st = Inr st'"
  shows "same_index D (snd st')"
proof -
  obtain cl E v i where st: "st = (cl, E)" "x = (v, i)" by (cases st; cases x)
  have upd: "same_index D (E\<lparr>scc_graph := g\<rparr>)" if "same_index D E" for E :: "('a, 'b, 'c) sccdag" and g
    using that by (simp add: same_index_def)
  have "snd st' = E \<or> (\<exists>g. snd st' = E\<lparr>scc_graph := g\<rparr>)"
    using assms(2) unfolding st markEdge_step_def prod.case Let_def
    by (fastforce simp: andThen_eq_Inr split: option.splits if_splits)
  with assms(1) upd st show ?thesis by auto
qed

lemma markEdges_index:
  assumes "markEdgesAndSubEdges D = Inr D'"
  shows "same_index D D'"
proof -
  let ?f = "\<lambda>n st. foldE (markEdge_step n) (externalNodeMap (scc_mem (snd st) (node_T (scc_graph (snd st)) n))) st"
  obtain cl where f: "foldE ?f (allNodes (scc_graph D)) ([], D) = Inr (cl, D')"
    using assms by (auto simp: markEdgesAndSubEdges_def andThen_eq_Inr)
  have "same_index D (snd (cl, D'))"
  proof (rule foldE_invariant [OF f, where P = "\<lambda>st. same_index D (snd st)"])
    fix n st st' assume "same_index D (snd st)" and run: "?f n st = Inr st'"
    then show "same_index D (snd st')"
      by (intro foldE_invariant [OF run, where P = "\<lambda>st. same_index D (snd st)"]) (auto intro: markEdge_step_index)
  qed (simp add: same_index_def)
  then show ?thesis by simp
qed

lemma merge_index:
  assumes run: "mergeSCCs sub ns D = Inr D'" and two: "2 \<le> length ns"
  shows "ordered_bits D' = ordered_bits D" "orderedDirty D' = orderedDirty D" "sccIndexes D' = sccIndexes D"
    "scc_next D' = Suc (scc_next D)"
proof -
  from run two obtain refs S where S: "SCC_of_nodes sub (scc_mem D) refs = Inr S"
    and m: "markEdgesAndSubEdges (markValuesInSCC ((sccdag_addSCC S True D)
      \<lparr>scc_graph := fold removeNode ns (scc_graph (sccdag_addSCC S True D))\<rparr>)) = Inr D'"
    by (auto simp: mergeSCCs_def andThen_eq_Inr Let_def)
  from markEdges_index [OF m] show "ordered_bits D' = ordered_bits D" "orderedDirty D' = orderedDirty D"
    "sccIndexes D' = sccIndexes D" "scc_next D' = Suc (scc_next D)"
    by (simp_all add: same_index_def sccdag_addSCC_def)
qed

section \<open>Properties\<close>

text \<open>C5: an SCCDAG built from a consistent PDG. The constructor fails no assertion and returns; two values have
  the same SCC exactly when each reaches the other through dependences; and \<open>orderedBefore\<close> on their SCCs
  says exactly whether the first value reaches the second but not the other way round. The number of nodes is
  bounded so that the flat bit matrix has fewer than \<open>2 ^ 31\<close> bits.\<close>

theorem sccdag_orders_values:
  assumes "scc_iterator it" and "dg_wf pdg" and "bitvec_laws ops" and "numNodes pdg * numNodes pdg < 2 ^ 31"
  shows "\<exists>D. SCCDAG_of ops m sub it pdg = Inr D \<and> (\<forall>u \<in> dg_values pdg. \<forall>v \<in> dg_values pdg. \<exists>s s'.
     sccOfValue D u = Inr (Some s) \<and> sccOfValue D v = Inr (Some s') \<and>
     (s = s' \<longleftrightarrow> (u, v) \<in> (dg_arrows pdg)\<^sup>* \<and> (v, u) \<in> (dg_arrows pdg)\<^sup>*) \<and>
     orderedBefore ops D s s' = Inr ((u, v) \<in> (dg_arrows pdg)\<^sup>+ \<and> (v, u) \<notin> (dg_arrows pdg)\<^sup>*))"
proof -
  let ?R = "dg_arrows pdg"
  obtain D where D: "SCCDAG_of ops m sub it pdg = Inr D" "sccdag_of_pdg ops pdg D"
    using scc_iterator.constructor_correct [OF assms] by blast
  note sp = D(2) [unfolded sccdag_of_pdg_def]
  have h: "holds_sccs ?R (dg_values pdg) D" and cl: "classes_ok ?R (dg_values pdg) D" using sp by blast+
  have RV: "?R \<subseteq> dg_values pdg \<times> dg_values pdg" by (rule dg_arrows_values [OF assms(2)])
  have "\<exists>s s'. sccOfValue D u = Inr (Some s) \<and> sccOfValue D v = Inr (Some s') \<and>
     (s = s' \<longleftrightarrow> (u, v) \<in> ?R\<^sup>* \<and> (v, u) \<in> ?R\<^sup>*) \<and>
     orderedBefore ops D s s' = Inr ((u, v) \<in> ?R\<^sup>+ \<and> (v, u) \<notin> ?R\<^sup>*)"
    if uv: "u \<in> dg_values pdg" "v \<in> dg_values pdg" for u v
  proof -
    obtain s s' where s: "s \<in> sccs D" "u \<in> members D s" "s' \<in> sccs D" "v \<in> members D s'"
      using uv holds_sccsD(7) [OF h] by blast
    have eq: "s = s' \<longleftrightarrow> (u, v) \<in> ?R\<^sup>* \<and> (v, u) \<in> ?R\<^sup>*"
      using cl s uv(2) holds_sccsD(6) [OF h s(1,3) _ s(4)] unfolding classes_ok_def by blast
    have "(s, s') \<in> (scc_dep ?R D)\<^sup>+ \<longleftrightarrow> (u, v) \<in> ?R\<^sup>+ \<and> (v, u) \<notin> ?R\<^sup>*"
      using dep_path [OF h cl _ s(2,4)] path_dep [OF h RV s(1,2) _ s(3,4)] dep_irrefl [OF h cl] eq
        trancl_into_rtrancl by metis
    with sp s eq show ?thesis by (intro exI [of _ s] exI [of _ s']) simp
  qed
  with D(1) show ?thesis by blast
qed

lemma sccdag_orders_values_witness:
  "\<exists>D s s'. SCCDAG_of list_bitvec (bm_make list_bitvec [] 1) (\<lambda>_. undefined) naive_sccs sample_dg = Inr D \<and>
     sccOfValue D 10 = Inr (Some s) \<and> sccOfValue D 20 = Inr (Some s') \<and> orderedBefore list_bitvec D s s' = Inr False"
proof -
  have n: "numNodes sample_dg * numNodes sample_dg < 2 ^ 31" by (simp add: numNodes_def sample_dg_eq)
  have v: "10 \<in> dg_values sample_dg" "20 \<in> dg_values sample_dg"
    by (simp_all add: dg_values_def sample_dg_eq new_node_def)
  have "dg_arrows sample_dg = {(10, 10), (10, 30)}"
    by (simp add: dg_arrows_def edge_pair_def sample_dg_eq new_edge_def new_node_def)
  then have "(10, 20) \<notin> (dg_arrows sample_dg)\<^sup>+" by (auto elim: tranclE)
  then show ?thesis
    using sccdag_orders_values [OF naive_sccs_laws sample_dg_wf list_bitvec_laws n,
        of "bm_make list_bitvec [] 1" "\<lambda>_. undefined"] v by fastforce
qed

text \<open>C6: the edges of the SCCDAG. There is an edge from one SCC to another exactly when some dependence of the
  PDG leads from a member of the first to a member of the second, SCCs have disjoint, non-empty sets of
  members that together are all values, and the graph has no cycle.\<close>

theorem sccdag_is_quotient:
  assumes "scc_iterator it" and "dg_wf pdg" and "bitvec_laws ops" and "numNodes pdg * numNodes pdg < 2 ^ 31"
  shows "\<exists>D. SCCDAG_of ops m sub it pdg = Inr D \<and> dg_wf (scc_graph D) \<and> acyclic (dg_arrows (scc_graph D)) \<and>
     dg_arrows (scc_graph D) = {(s, s'). s \<in> sccs D \<and> s' \<in> sccs D \<and> s \<noteq> s' \<and>
       (\<exists>a \<in> members D s. \<exists>b \<in> members D s'. (a, b) \<in> dg_arrows pdg)} \<and>
     (\<Union>s \<in> sccs D. members D s) = dg_values pdg \<and>
     (\<forall>s \<in> sccs D. members D s \<noteq> {} \<and> (\<forall>s' \<in> sccs D. s \<noteq> s' \<longrightarrow> members D s \<inter> members D s' = {}))"
proof -
  obtain D where D: "SCCDAG_of ops m sub it pdg = Inr D" "sccdag_of_pdg ops pdg D"
    using scc_iterator.constructor_correct [OF assms] by blast
  note sp = D(2) [unfolded sccdag_of_pdg_def]
  have h: "holds_sccs (dg_arrows pdg) (dg_values pdg) D" and cl: "classes_ok (dg_arrows pdg) (dg_values pdg) D"
    and arr: "dg_arrows (scc_graph D) = scc_dep (dg_arrows pdg) D" using sp by blast+
  have "acyclic (dg_arrows (scc_graph D))" unfolding arr using dep_irrefl [OF h cl] by (simp add: acyclic_def)
  moreover have "\<forall>s \<in> sccs D. members D s \<noteq> {} \<and> (\<forall>s' \<in> sccs D. s \<noteq> s' \<longrightarrow> members D s \<inter> members D s' = {})"
    using h unfolding holds_sccs_def by blast
  ultimately show ?thesis
    using D(1) clean_wf [OF holds_sccsD(1) [OF h]] holds_sccsD(7) [OF h] arr [unfolded scc_dep_def] by blast
qed

lemma sccdag_is_quotient_witness:
  "\<exists>D. SCCDAG_of list_bitvec (bm_make list_bitvec [] 1) (\<lambda>_. undefined) naive_sccs diamond_dg = Inr D \<and>
     acyclic (dg_arrows (scc_graph D)) \<and> (\<Union>s \<in> sccs D. members D s) = {10, 20, 30, 40}"
proof -
  have n: "numNodes diamond_dg * numNodes diamond_dg < 2 ^ 31" by (simp add: numNodes_def diamond_dg_parts)
  have v: "dg_values diamond_dg = {10, 20, 30, 40}"
    using diamond_dg_parts(4) by (simp add: dg_values_def diamond_dg_parts(1))
  show ?thesis
    using sccdag_is_quotient [OF naive_sccs_laws diamond_dg_wf list_bitvec_laws n,
        of "bm_make list_bitvec [] 1" "\<lambda>_. undefined"] v by fastforce
qed

text \<open>Merging does not maintain the index. Merging two or more SCCs gives the new SCC no index and leaves the
  matrix and the dirty flag as they were, so the assertion of \<open>orderedBefore\<close> still passes and the lookup of
  the merged SCC dereferences the end of \<open>sccIndexes\<close>.\<close>

theorem merge_leaves_index_stale:
  assumes "mergeSCCs sub ns D = Inr D'" and "2 \<le> length ns" and "\<not> orderedDirty D"
    and "map_of (sccIndexes D) (scc_next D) = None"
  shows "\<not> orderedDirty D' \<and> ordered_bits D' = ordered_bits D \<and> sccIndexes D' = sccIndexes D \<and>
     orderedBefore ops D' (scc_next D) s = Inl KeyMissing \<and> getSCCIndex D' (scc_next D) = Inl KeyMissing"
  using merge_index [OF assms(1,2)] assms(3,4) by (simp add: orderedBefore_def getSCCIndex_def)

text \<open>Two values without any dependence, and the SCCDAG that holds one SCC for each of them.\<close>

definition pair_dg :: "(nat, nat) dg" where
  "pair_dg = addNodes True [10, 20] empty_dg"

definition pair_sccdag :: "(nat, nat, bool list) sccdag res" where
  "pair_sccdag = andThen (foldE (add_components_from (\<lambda>_. edge_attrs.truncate (new_edge 0 0)) naive_sccs pair_dg)
       (allNodes pair_dg) ([], empty_sccdag (bm_make list_bitvec [] 2)))
     (\<lambda>(_, D). andThen (markEdgesAndSubEdges (markValuesInSCC D)) (\<lambda>D1.
        Inr (D1\<lparr>orderedDirty := False, sccIndexes := [(0, 0), (1, 1)]\<rparr>)))"

definition pair_merged :: "(nat, nat, bool list) sccdag res" where
  "pair_merged = andThen pair_sccdag (mergeSCCs (\<lambda>_. edge_attrs.truncate (new_edge 0 0)) [0, 1])"

lemma pair_sccdag_parts:
  "\<not> isl pair_sccdag" "\<not> isl pair_merged"
  "andThen pair_sccdag (\<lambda>D. Inr (orderedDirty D, map_of (sccIndexes D) 2, scc_next D)) = Inr (False, None, 2)"
  by code_simp+

lemma merge_leaves_index_stale_witness:
  "\<exists>D D'. pair_sccdag = Inr D \<and> mergeSCCs (\<lambda>_. edge_attrs.truncate (new_edge 0 0)) [0, 1] D = Inr D' \<and>
     orderedBefore list_bitvec D' 2 0 = Inl KeyMissing"
proof -
  obtain D where D: "pair_sccdag = Inr D" using pair_sccdag_parts(1) by (metis isl_def sum.exhaust)
  obtain D' where D': "mergeSCCs (\<lambda>_. edge_attrs.truncate (new_edge 0 0)) [0, 1] D = Inr D'"
    using pair_sccdag_parts(2) D unfolding pair_merged_def by (metis andThen_Inr isl_def sum.exhaust)
  have "\<not> orderedDirty D" "map_of (sccIndexes D) (scc_next D) = None" "scc_next D = 2"
    using pair_sccdag_parts(3) unfolding D by simp_all
  then show ?thesis
    using merge_leaves_index_stale [OF D', of list_bitvec 0] D D' by auto
qed

text \<open>Two values that both depend on a third, and the SCCs of these two.\<close>

definition vee_dg :: "(nat, nat) dg" where
  "vee_dg = (case add_edges [(10, 30), (20, 30)] (addNodes True [10, 20, 30] empty_dg) of
     Inl _ \<Rightarrow> empty_dg | Inr g \<Rightarrow> g)"

definition vee_sccs :: "nat \<Rightarrow> (nat, nat) dg" where
  "vee_sccs i = (case SCC_of_nodes (\<lambda>_. edge_attrs.truncate (new_edge 0 0)) (\<lambda>_. vee_dg) [(0, i)] of
     Inl _ \<Rightarrow> empty_dg | Inr S \<Rightarrow> S)"

definition vee_merged :: "(nat, nat) dg" where
  "vee_merged = (case SCC_of_nodes (\<lambda>_. edge_attrs.truncate (new_edge 0 0)) vee_sccs [(0, 0), (1, 0)] of
     Inl _ \<Rightarrow> empty_dg | Inr S \<Rightarrow> S)"

lemmas dg_eval = addNode_def addEdge_def linkEdge_def fetchNode_def empty_dg_def Let_def addNodes_def add_edges_def
  uset_insert_def addIncomingEdge_def addOutgoingEdge_def new_node_def new_edge_def
  SCC_of_nodes_def copyNodesAndEdges_def scc_externals_def ref_T_def ref_out_def ref_in_def uset_insert_all_def
  copyEdges_def isExternal_def isInternal_def isInGraph_def copyAddEdge_def copy_edge_def setMemMustType_def
  setRemedies_def addSubEdge_def

lemma vee_dg_eq: "vee_dg = \<lparr>nodeIdCounter = 3, allNodes = [0, 1, 2], allEdges = [3, 4], entryNode = None,
     internalNodeMap = [(10, Some 0), (20, Some 1), (30, Some 2)], externalNodeMap = [],
     nodeMem = (\<lambda>n. new_node 0 undefined)(0 := \<lparr>nodeID = 0, theT = 10, outgoingEdges = [3], incomingEdges = []\<rparr>,
       1 := \<lparr>nodeID = 1, theT = 20, outgoingEdges = [4], incomingEdges = []\<rparr>,
       2 := \<lparr>nodeID = 2, theT = 30, outgoingEdges = [], incomingEdges = [3, 4]\<rparr>),
     edgeMem = (\<lambda>e. new_edge 0 0)(3 := new_edge 0 2, 4 := new_edge 1 2), nextPtr = 5\<rparr>"
  by (simp add: vee_dg_def dg_eval fun_eq_iff)

lemma vee_sccs_eq:
  "vee_sccs 0 = \<lparr>nodeIdCounter = 2, allNodes = [0, 1], allEdges = [2], entryNode = Some 0,
     internalNodeMap = [(10, Some 0)], externalNodeMap = [(30, Some 1)],
     nodeMem = (\<lambda>n. new_node 0 undefined)(0 := \<lparr>nodeID = 0, theT = 10, outgoingEdges = [2], incomingEdges = []\<rparr>,
       1 := \<lparr>nodeID = 1, theT = 30, outgoingEdges = [], incomingEdges = [2]\<rparr>),
     edgeMem = (\<lambda>e. new_edge 0 0)(2 := new_edge 0 1), nextPtr = 3\<rparr>"
  "vee_sccs (Suc 0) = \<lparr>nodeIdCounter = 2, allNodes = [0, 1], allEdges = [2], entryNode = Some 0,
     internalNodeMap = [(20, Some 0)], externalNodeMap = [(30, Some 1)],
     nodeMem = (\<lambda>n. new_node 0 undefined)(0 := \<lparr>nodeID = 0, theT = 20, outgoingEdges = [2], incomingEdges = []\<rparr>,
       1 := \<lparr>nodeID = 1, theT = 30, outgoingEdges = [], incomingEdges = [2]\<rparr>),
     edgeMem = (\<lambda>e. new_edge 0 0)(2 := new_edge 0 1), nextPtr = 3\<rparr>"
  by (simp_all add: vee_sccs_def vee_dg_eq dg_eval fun_eq_iff)

text \<open>Merging duplicates external nodes, although the comment in \<open>SCCDAG::mergeSCCs\<close> says that no node is
  duplicated. The SCCs of 10 and 20, which both depend on 30, each hold a node of their own for 30; the SCC that
  the constructor builds from the internal nodes of both has two nodes for 30. Only the second is in the map of
  external nodes and both edges end in it; the first stays in the graph without any edge.\<close>

theorem merge_duplicates_external_node:
  "map (node_T (vee_sccs 0)) (allNodes (vee_sccs 0)) = [10, 30] \<and>
   map (node_T (vee_sccs 1)) (allNodes (vee_sccs 1)) = [20, 30] \<and>
   map (node_T vee_merged) (allNodes vee_merged) = [10, 20, 30, 30] \<and>
   externalNodeMap vee_merged = [(30, Some 3)] \<and>
   in_edges vee_merged 2 = [] \<and> length (in_edges vee_merged 3) = 2"
  by (simp add: vee_merged_def vee_sccs_eq dg_eval)

end
