(* ===== verification/Partition.thy ===== *)
theory Partition
  imports SccDagCorrect
begin

text \<open>
  \<open>src/src/core/loops/src/SCCDAGPartition.cpp\<close>: a graph of \<^emph>\<open>sets of SCCs\<close> that DSWP and the heuristics merge until
  every set is a pipeline stage (class \<open>SCCDAGPartition\<close>, a \<open>DG<SCCSet>\<close>), and the class \<open>SCCDAGPartitioner\<close> that
  answers ancestor, descendant and merge queries on it.

  An \<open>SCCSet\<close> object is an address; \<open>set_mem\<close> holds its SCCs, \<open>None\<close> after \<open>delete\<close>. \<open>set_next\<close> is the next
  address of the allocator. The contents of the SCCs and the SCCDAG are those of \<open>SccDag\<close>.
\<close>

section \<open>The partition graph\<close>

record 'r scc_partition =
  pt_graph :: "(ptr, 'r) dg"
  set_mem :: "ptr \<Rightarrow> ptr list option"
  set_next :: ptr
  sccToSetMap :: "(ptr \<times> ptr) list"

definition sccs_of :: "'r scc_partition \<Rightarrow> ptr \<Rightarrow> ptr list res" where
  "sccs_of P s = (case set_mem P s of None \<Rightarrow> Inl DanglingDeref | Some xs \<Rightarrow> Inr xs)"

definition fetch_live :: "('v, 'r) dg \<Rightarrow> 'v \<Rightarrow> (('v, 'r) dg \<times> ptr) res" where
  "fetch_live g t = (case fetchNode g t of (g1, Some n) \<Rightarrow> Inr (g1, n) | (_, None) \<Rightarrow> Inl NullDeref)"

definition isIncludedInPartitioning :: "'r scc_partition \<Rightarrow> ptr \<Rightarrow> bool" where
  "isIncludedInPartitioning P scc \<longleftrightarrow> map_of (sccToSetMap P) scc \<noteq> None"

definition setOfSCC :: "'r scc_partition \<Rightarrow> ptr \<Rightarrow> ptr res" where
  "setOfSCC P scc = check (isIncludedInPartitioning P scc) AssertFailed
     (case map_of (sccToSetMap P) scc of None \<Rightarrow> Inl KeyMissing | Some s \<Rightarrow> Inr s)"

definition map_insert :: "'k \<Rightarrow> 'a \<Rightarrow> ('k \<times> 'a) list \<Rightarrow> ('k \<times> 'a) list" where
  "map_insert k a m = (if map_of m k = None then m @ [(k, a)] else m)"

definition addInitialSet :: "ptr list \<Rightarrow> 'r scc_partition \<Rightarrow> 'r scc_partition" where
  "addInitialSet xs P =
     (let set = set_next P
      in P\<lparr>set_mem := (set_mem P)(set := Some xs), set_next := Suc set,
           pt_graph := fst (addNode (pt_graph P) set True),
           sccToSetMap := fold (\<lambda>scc. map_insert scc set) xs (sccToSetMap P)\<rparr>)"

definition addParentEdges :: "ptr \<times> ptr list \<Rightarrow> 'r scc_partition \<Rightarrow> 'r scc_partition res" where
  "addParentEdges sccAndParents P =
     (case map_of (sccToSetMap P) (fst sccAndParents) of
        None \<Rightarrow> Inr P
      | Some selfSet \<Rightarrow> andThen (fetch_live (pt_graph P) selfSet) (\<lambda>(g0, selfNode).
          foldE (\<lambda>parent P. case map_of (sccToSetMap P) parent of
               None \<Rightarrow> Inr P
             | Some parentSet \<Rightarrow> andThen (fetch_live (pt_graph P) parentSet) (\<lambda>(g, parentNode).
                 if length (fetchEdges g parentNode selfNode) \<noteq> 0 then Inr (P\<lparr>pt_graph := g\<rparr>)
                 else andThen (addEdge g parentSet selfSet) (\<lambda>(g1, _). Inr (P\<lparr>pt_graph := g1\<rparr>))))
            (snd sccAndParents) (P\<lparr>pt_graph := g0\<rparr>)))"

definition empty_partition :: "'r scc_partition" where
  "empty_partition = \<lparr>pt_graph = empty_dg, set_mem = (\<lambda>_. None), set_next = 0, sccToSetMap = []\<rparr>"

definition SCCDAGPartition_of :: "ptr list list \<Rightarrow> (ptr \<times> ptr list) list \<Rightarrow> 'r scc_partition res" where
  "SCCDAGPartition_of initialSets sccToParentsMap =
     foldE addParentEdges sccToParentsMap (fold addInitialSet initialSets empty_partition)"

section \<open>Merging sets\<close>

text \<open>One edge of a set that is merged, in the loop over its incoming and in the loop over its outgoing edges.\<close>

definition transfer_edge :: "ptr \<Rightarrow> ptr \<Rightarrow> bool \<Rightarrow> ptr \<Rightarrow> 'r scc_partition \<Rightarrow> 'r scc_partition res" where
  "transfer_edge mergedSet mergedSetNode incoming e P =
     (let other = (if incoming then from_T (pt_graph P) e else to_T (pt_graph P) e);
          (g, otherNode) = fetchNode (pt_graph P) other
      in andThen (sccs_of P other) (\<lambda>xs. case xs of [] \<Rightarrow> Inl OutOfRange | anySCC # _ \<Rightarrow>
           (case map_of (sccToSetMap P) anySCC of None \<Rightarrow> Inl KeyMissing | Some s \<Rightarrow>
              if s = mergedSet then Inr (P\<lparr>pt_graph := g\<rparr>)
              else (case otherNode of None \<Rightarrow> Inl NullDeref | Some n \<Rightarrow>
                if length (if incoming then fetchEdges g n mergedSetNode else fetchEdges g mergedSetNode n) \<noteq> 0
                then Inr (P\<lparr>pt_graph := g\<rparr>)
                else andThen (if incoming then addEdge g other mergedSet else addEdge g mergedSet other)
                       (\<lambda>(g1, _). Inr (P\<lparr>pt_graph := g1\<rparr>))))))"

definition transfer_edges :: "ptr \<Rightarrow> ptr \<Rightarrow> ptr \<Rightarrow> 'r scc_partition \<Rightarrow> 'r scc_partition res" where
  "transfer_edges mergedSet mergedSetNode s P =
     andThen (fetch_live (pt_graph P) s) (\<lambda>(g, setNode).
     andThen (foldE (transfer_edge mergedSet mergedSetNode True) (in_edges g setNode) (P\<lparr>pt_graph := g\<rparr>)) (\<lambda>P1.
     foldE (transfer_edge mergedSet mergedSetNode False) (out_edges (pt_graph P1) setNode) P1))"

definition remove_set :: "ptr \<Rightarrow> 'r scc_partition \<Rightarrow> 'r scc_partition res" where
  "remove_set s P = andThen (fetch_live (pt_graph P) s) (\<lambda>(g, n).
     Inr (P\<lparr>pt_graph := removeNode n g, set_mem := (set_mem P)(s := None)\<rparr>))"

definition collect_sccs :: "ptr \<Rightarrow> ptr \<Rightarrow> 'r scc_partition \<Rightarrow> 'r scc_partition res" where
  "collect_sccs mergedSet s P = andThen (sccs_of P s) (\<lambda>xs. andThen (sccs_of P mergedSet) (\<lambda>acc.
     Inr (P\<lparr>set_mem := (set_mem P)(mergedSet := Some (uset_insert_all xs acc)),
            sccToSetMap := fold (\<lambda>scc. AList.update scc mergedSet) xs (sccToSetMap P)\<rparr>)))"

definition mergeSets :: "ptr list \<Rightarrow> 'r scc_partition \<Rightarrow> 'r scc_partition res" where
  "mergeSets sets P =
     (let mergedSet = set_next P
      in andThen (foldE (collect_sccs mergedSet) sets
                   (P\<lparr>set_mem := (set_mem P)(mergedSet := Some []), set_next := Suc mergedSet\<rparr>)) (\<lambda>P1.
         let (g, mergedSetNode) = addNode (pt_graph P1) mergedSet True
         in andThen (foldE (transfer_edges mergedSet mergedSetNode) sets (P1\<lparr>pt_graph := g\<rparr>))
              (foldE remove_set sets)))"

section \<open>Collapsing cycles\<close>

type_synonym 'r collapse_state = "ptr list list \<times> ptr list \<times> 'r scc_partition"

definition collapse_component :: "ptr list \<Rightarrow> 'r collapse_state \<Rightarrow> 'r collapse_state res" where
  "collapse_component setNodes = (\<lambda>(collapsedSets, visited, P).
     case setNodes of [] \<Rightarrow> Inl NullDeref
     | first # _ \<Rightarrow>
       if node_T (pt_graph P) first \<in> set visited then Inr (collapsedSets, visited, P)
       else (let unwrappedSets = uset_insert_all (map (node_T (pt_graph P)) setNodes) []
             in Inr (collapsedSets @ [unwrappedSets], uset_insert_all unwrappedSets visited, P)))"

definition collapse_from :: "((ptr, 'r) dg \<Rightarrow> ptr \<Rightarrow> ptr list list) \<Rightarrow> ptr \<Rightarrow> 'r collapse_state \<Rightarrow> 'r collapse_state res" where
  "collapse_from it nodeToVisit = (\<lambda>(collapsedSets, visited, P).
     if node_T (pt_graph P) nodeToVisit \<in> set visited then Inr (collapsedSets, visited, P)
     else (let g = (pt_graph P)\<lparr>entryNode := Some nodeToVisit\<rparr>
           in foldE collapse_component (it g nodeToVisit) (collapsedSets, visited, P\<lparr>pt_graph := g\<rparr>)))"

definition collapseCycles :: "((ptr, 'r) dg \<Rightarrow> ptr \<Rightarrow> ptr list list) \<Rightarrow> 'r scc_partition \<Rightarrow> 'r scc_partition res" where
  "collapseCycles it P =
     andThen (foldE (collapse_from it) (allNodes (pt_graph P)) ([], [], P)) (\<lambda>(collapsedSets, _, P1).
       foldE (\<lambda>setsToMerge P. if length setsToMerge > 1 then mergeSets setsToMerge P else Inr P) collapsedSets P1)"

definition mergeSetsAndCollapseResultingCycles ::
  "((ptr, 'r) dg \<Rightarrow> ptr \<Rightarrow> ptr list list) \<Rightarrow> ptr list \<Rightarrow> 'r scc_partition \<Rightarrow> 'r scc_partition res" where
  "mergeSetsAndCollapseResultingCycles it sets P = andThen (mergeSets sets P) (collapseCycles it)"

section \<open>Depth order\<close>

type_synonym depth_state = "ptr list \<times> ptr list \<times> ptr list"

definition depth_step :: "(ptr, 'r) dg \<Rightarrow> depth_state \<Rightarrow> depth_state res" where
  "depth_step g = (\<lambda>(depthOrderedSets, encountered, setsToCheck).
     case setsToCheck of [] \<Rightarrow> Inl OutOfRange
     | s # todo \<Rightarrow> andThen (fetch_live g s) (\<lambda>(_, node).
         if s \<in> set encountered then Inr (depthOrderedSets, encountered, todo)
         else if in_edges g node \<noteq> [] \<and> \<not> list_all (\<lambda>e. from_T g e \<in> set encountered) (in_edges g node)
         then Inr (depthOrderedSets, encountered, todo)
         else Inr (depthOrderedSets @ [s], uset_insert s encountered, todo @ map (to_T g) (out_edges g node))))"

definition getDepthOrderedSets :: "'r scc_partition \<Rightarrow> ptr list res" where
  "getDepthOrderedSets P =
     (let g = pt_graph P; rootNodes = getTopLevelNodes g False
      in check (length rootNodes \<noteq> 0) AssertFailed
        (andThen (whileE (\<lambda>(_, _, todo). todo \<noteq> []) (depth_step g) ([], [], map (node_T g) rootNodes))
          (\<lambda>(depthOrderedSets, _, _).
             check (length depthOrderedSets = numNodes g) AssertFailed (Inr depthOrderedSets))))"

section \<open>The partitioner: ancestors, descendants, cycles\<close>

definition numberOfPartitions :: "'r scc_partition \<Rightarrow> nat" where
  "numberOfPartitions P = numNodes (pt_graph P)"

definition isAncestor_step :: "(ptr, 'r) dg \<Rightarrow> ptr \<Rightarrow> bool \<times> ptr list \<Rightarrow> (bool \<times> ptr list) res" where
  "isAncestor_step g parentTarget = (\<lambda>(found, setToCheck).
     case setToCheck of [] \<Rightarrow> Inl OutOfRange
     | s # todo \<Rightarrow> andThen (fetch_live g s) (\<lambda>(_, node).
         let parents = map (from_T g) (in_edges g node)
         in if parentTarget \<in> set parents then Inr (True, todo) else Inr (False, todo @ parents)))"

definition isAncestor :: "'r scc_partition \<Rightarrow> ptr \<Rightarrow> ptr \<Rightarrow> bool res" where
  "isAncestor P parentTarget target =
     andThen (whileE (\<lambda>(found, todo). \<not> found \<and> todo \<noteq> []) (isAncestor_step (pt_graph P) parentTarget) (False, [target]))
       (\<lambda>(found, _). Inr found)"

definition getParentChildPair :: "'r scc_partition \<Rightarrow> ptr \<Rightarrow> ptr \<Rightarrow> (ptr \<times> ptr) option res" where
  "getParentChildPair P setA setB =
     andThen (isAncestor P setA setB) (\<lambda>ab. if ab then Inr (Some (setA, setB))
       else andThen (isAncestor P setB setA) (\<lambda>ba. if ba then Inr (Some (setB, setA)) else Inr None))"

definition getOverlap :: "ptr list \<Rightarrow> ptr list \<Rightarrow> ptr list" where
  "getOverlap setsA setsB = fold (\<lambda>s acc. if s \<in> set setsB then uset_insert s acc else acc) setsA []"

text \<open>\<open>getDescendants\<close> and \<open>getAncestors\<close> differ in the edges they follow.\<close>

definition family_step :: "((ptr, 'r) dg \<Rightarrow> ptr \<Rightarrow> ptr list) \<Rightarrow> (ptr, 'r) dg \<Rightarrow> ptr list \<times> ptr list \<Rightarrow> (ptr list \<times> ptr list) res" where
  "family_step next g = (\<lambda>(family, setToCheck).
     case setToCheck of [] \<Rightarrow> Inl OutOfRange
     | s # todo \<Rightarrow> andThen (fetch_live g s) (\<lambda>(_, node).
         Inr (fold (mark_new queue_add) (next g node) (family, todo))))"

definition getDescendants :: "'r scc_partition \<Rightarrow> ptr \<Rightarrow> ptr list res" where
  "getDescendants P startingSet =
     andThen (whileE (\<lambda>(_, todo). todo \<noteq> []) (family_step (\<lambda>g n. map (to_T g) (out_edges g n)) (pt_graph P)) ([], [startingSet]))
       (\<lambda>(family, _). Inr family)"

definition getAncestors :: "'r scc_partition \<Rightarrow> ptr \<Rightarrow> ptr list res" where
  "getAncestors P startingSet =
     andThen (whileE (\<lambda>(_, todo). todo \<noteq> []) (family_step (\<lambda>g n. map (from_T g) (in_edges g n)) (pt_graph P)) ([], [startingSet]))
       (\<lambda>(family, _). Inr family)"

definition isMergeIntroducingCycle :: "'r scc_partition \<Rightarrow> ptr \<Rightarrow> ptr \<Rightarrow> bool res" where
  "isMergeIntroducingCycle P setA setB =
     andThen (getParentChildPair P setA setB) (\<lambda>parentChild. case parentChild of
       None \<Rightarrow> Inr False
     | Some (parent, child) \<Rightarrow>
         andThen (getDescendants P parent) (\<lambda>parentDescendants.
         andThen (getAncestors P child) (\<lambda>childAncestors.
         Inr (length (getOverlap parentDescendants childAncestors) > 0))))"

definition getCycleIntroducedByMerging :: "'r scc_partition \<Rightarrow> ptr \<Rightarrow> ptr \<Rightarrow> ptr list res" where
  "getCycleIntroducedByMerging P setA setB =
     andThen (getParentChildPair P setA setB) (\<lambda>parentChild. case parentChild of
       None \<Rightarrow> Inr (uset_insert_all [setA, setB] [])
     | Some (parent, child) \<Rightarrow>
         andThen (getDescendants P parent) (\<lambda>parentDescendants.
         andThen (getAncestors P child) (\<lambda>childAncestors.
         Inr (uset_insert child (uset_insert parent (getOverlap parentDescendants childAncestors))))))"

definition getParents :: "'r scc_partition \<Rightarrow> ptr \<Rightarrow> ptr list res" where
  "getParents P s = andThen (fetch_live (pt_graph P) s) (\<lambda>(g, n). Inr (uset_insert_all (map (from_T g) (in_edges g n)) []))"

definition getChildren :: "'r scc_partition \<Rightarrow> ptr \<Rightarrow> ptr list res" where
  "getChildren P s = andThen (fetch_live (pt_graph P) s) (\<lambda>(g, n). Inr (uset_insert_all (map (to_T g) (out_edges g n)) []))"

definition getSets :: "'r scc_partition \<Rightarrow> ptr list" where
  "getSets P = uset_insert_all (map (node_T (pt_graph P)) (allNodes (pt_graph P))) []"

definition getRoots :: "'r scc_partition \<Rightarrow> ptr list" where
  "getRoots P = uset_insert_all (map (node_T (pt_graph P)) (getTopLevelNodes (pt_graph P) False)) []"

section \<open>The partitioner: program order of the SCCs\<close>

text \<open>\<open>resetPartitioner\<close> walks the blocks of the loop depth first from its header and numbers the SCCs in the order in
  which their instructions appear. The vector \<open>SCCDebugOrder\<close> has one slot per SCC of the partition.\<close>

record debug_order =
  sccEncountered :: "ptr list"
  SCCDebugOrder :: "ptr option list"
  SCCDebugIndex :: "(ptr \<times> nat) list"
  debug_count :: nat

definition number_inst :: "('v \<Rightarrow> ptr option res) \<Rightarrow> 'r scc_partition \<Rightarrow> 'v \<Rightarrow> debug_order \<Rightarrow> debug_order res" where
  "number_inst sccOf P I d = andThen (sccOf I) (\<lambda>s. case s of None \<Rightarrow> Inr d | Some scc \<Rightarrow>
     if \<not> isIncludedInPartitioning P scc then Inr d
     else if scc \<in> set (sccEncountered d) then Inr d
     else check (debug_count d < length (SCCDebugOrder d)) OutOfRange
       (Inr (d\<lparr>sccEncountered := uset_insert scc (sccEncountered d),
               SCCDebugOrder := (SCCDebugOrder d)[debug_count d := Some scc],
               SCCDebugIndex := AList.update scc (debug_count d) (SCCDebugIndex d),
               debug_count := Suc (debug_count d)\<rparr>)))"

definition reset_step ::
  "('v \<Rightarrow> ptr option res) \<Rightarrow> 'r scc_partition \<Rightarrow> ('b \<Rightarrow> bool) \<Rightarrow> ('b \<Rightarrow> 'v list) \<Rightarrow> ('b \<Rightarrow> 'b list)
   \<Rightarrow> 'b list \<times> 'b list \<times> debug_order \<Rightarrow> ('b list \<times> 'b list \<times> debug_order) res" where
  "reset_step sccOf P inLoop insts succs = (\<lambda>(todos, bbsEncountered, d).
     case todos of [] \<Rightarrow> Inl OutOfRange
     | bb # rest \<Rightarrow>
       if \<not> inLoop bb then Inr (rest, bbsEncountered, d)
       else if bb \<in> set bbsEncountered then Inr (rest, bbsEncountered, d)
       else (let seen = uset_insert bb bbsEncountered
             in andThen (foldE (number_inst sccOf P) (insts bb) d) (\<lambda>d1.
                Inr (fold (\<lambda>b todo. if b \<in> set seen then todo else b # todo) (succs bb) rest, seen, d1))))"

definition resetPartitioner ::
  "('v \<Rightarrow> ptr option res) \<Rightarrow> ('b \<Rightarrow> bool) \<Rightarrow> ('b \<Rightarrow> 'v list) \<Rightarrow> ('b \<Rightarrow> 'b list) \<Rightarrow> 'b \<Rightarrow> 'r scc_partition \<Rightarrow> debug_order res" where
  "resetPartitioner sccOf inLoop insts succs header P =
     andThen (foldE (\<lambda>n k. andThen (sccs_of P (node_T (pt_graph P) n)) (\<lambda>xs. Inr (k + length xs))) (allNodes (pt_graph P)) 0)
       (\<lambda>numberOfSCCs.
     andThen (whileE (\<lambda>(todos, _, _). todos \<noteq> []) (reset_step sccOf P inLoop insts succs)
        ([header], [], \<lparr>sccEncountered = [], SCCDebugOrder = replicate numberOfSCCs None, SCCDebugIndex = [], debug_count = 0\<rparr>))
       (\<lambda>(_, _, d). check (length (SCCDebugIndex d) = numberOfSCCs) AssertFailed (Inr d)))"

definition SCCDAGPartitioner_of ::
  "('v \<Rightarrow> ptr option res) \<Rightarrow> ('b \<Rightarrow> bool) \<Rightarrow> ('b \<Rightarrow> 'v list) \<Rightarrow> ('b \<Rightarrow> 'b list) \<Rightarrow> 'b
   \<Rightarrow> ptr list list \<Rightarrow> (ptr \<times> ptr list) list \<Rightarrow> ('r scc_partition \<times> debug_order) res" where
  "SCCDAGPartitioner_of sccOf inLoop insts succs header initialSets sccToParentsMap =
     andThen (SCCDAGPartition_of initialSets sccToParentsMap) (\<lambda>P.
     andThen (resetPartitioner sccOf inLoop insts succs header P) (\<lambda>d. Inr (P, d)))"

section \<open>The partitioner: merging\<close>

text \<open>\<open>mergePair\<close> reads \<open>setA->xs\<close> after the merge.\<close>

definition mergePair :: "((ptr, 'r) dg \<Rightarrow> ptr \<Rightarrow> ptr list list) \<Rightarrow> ptr \<Rightarrow> ptr \<Rightarrow> 'r scc_partition \<Rightarrow> ('r scc_partition \<times> ptr) res" where
  "mergePair it setA setB P =
     andThen (mergeSetsAndCollapseResultingCycles it (uset_insert_all [setA, setB] []) P) (\<lambda>P1.
     andThen (sccs_of P1 setA) (\<lambda>xs. case xs of [] \<Rightarrow> Inl OutOfRange | anySCC # _ \<Rightarrow>
     andThen (setOfSCC P1 anySCC) (\<lambda>mergedSet. Inr (P1, mergedSet))))"

definition mergeAllPairs :: "((ptr, 'r) dg \<Rightarrow> ptr \<Rightarrow> ptr list list) \<Rightarrow> (ptr \<times> ptr) list \<Rightarrow> 'r scc_partition \<Rightarrow> 'r scc_partition res" where
  "mergeAllPairs it pairs =
     foldE (\<lambda>(producer, consumer) P. andThen (setOfSCC P producer) (\<lambda>setProducer. andThen (setOfSCC P consumer) (\<lambda>setConsumer.
       if setProducer = setConsumer then Inr P
       else mergeSetsAndCollapseResultingCycles it [setProducer, setConsumer] P))) pairs"

text \<open>The LCSSA PHIs of the exit blocks of the nested loops: a PHI is its value and its incoming values.\<close>

definition lcssa_pairs ::
  "('v \<Rightarrow> ptr option res) \<Rightarrow> 'r scc_partition \<Rightarrow> ('v \<times> 'v list) list \<Rightarrow> (ptr \<times> ptr) list res" where
  "lcssa_pairs sccOf P phis =
     foldE (\<lambda>(phi, incoming) acc. andThen (sccOf phi) (\<lambda>c. case c of None \<Rightarrow> Inr acc | Some consumerSCC \<Rightarrow>
        if \<not> isIncludedInPartitioning P consumerSCC then Inr acc
        else foldE (\<lambda>v acc. andThen (sccOf v) (\<lambda>p. case p of None \<Rightarrow> Inr acc | Some producerSCC \<Rightarrow>
               Inr (if isIncludedInPartitioning P producerSCC then uset_insert (producerSCC, consumerSCC) acc else acc)))
             incoming acc)) phis []"

definition mergeLCSSAPhisWithTheValuesTheyPropagate ::
  "((ptr, 'r) dg \<Rightarrow> ptr \<Rightarrow> ptr list list) \<Rightarrow> ('v, 'r, 'bv) sccdag \<Rightarrow> 'l list \<Rightarrow> 'l \<Rightarrow> ('l \<Rightarrow> ('v \<times> 'v list) list list)
   \<Rightarrow> 'r scc_partition \<Rightarrow> 'r scc_partition res" where
  "mergeLCSSAPhisWithTheValuesTheyPropagate it D allLoops rootLoop exitBlockPhis P =
     (let lcssaPHIs = uset_insert_all (concat (map (\<lambda>loop. concat (exitBlockPhis loop)) (filter (\<lambda>l. l \<noteq> rootLoop) allLoops))) []
      in andThen (lcssa_pairs (sccOfValue D) P lcssaPHIs) (\<lambda>pairs. mergeAllPairs it pairs P))"

definition mergeAlongMemoryEdges ::
  "((ptr, 'r) dg \<Rightarrow> ptr \<Rightarrow> ptr list list) \<Rightarrow> ('v, 'r, 'bv) sccdag \<Rightarrow> 'r scc_partition \<Rightarrow> 'r scc_partition res" where
  "mergeAlongMemoryEdges it D P =
     (let g = scc_graph D;
          memoryPairs = fold (\<lambda>e acc.
            if \<not> list_ex (\<lambda>s. memory (sub_of (scc_mem D) s)) (subEdges (edgeMem g e)) then acc
            else if isIncludedInPartitioning P (from_T g e) \<and> isIncludedInPartitioning P (to_T g e)
            then uset_insert (from_T g e, to_T g e) acc else acc) (allEdges g) []
      in mergeAllPairs it memoryPairs P)"

end
