(* ===== verification/PartitionCorrect.thy ===== *)
theory PartitionCorrect
  imports Partition
begin

text \<open>
  Correctness of the partition of SCCs: the invariant \<open>pt_wf\<close> (live, non-empty, disjoint sets; the map from SCCs to
  sets is exact), merging as a quotient of the graph, collapsing to an acyclic graph, the depth order as a
  topological order, and the ancestor queries as reachability.
\<close>

section \<open>Looking at a graph by value\<close>

lemma fetch_live_ok:
  assumes "clean g" and "t \<in> dg_values g"
  obtains n where "n \<in> set (allNodes g)" "node_T g n = t" "fetch_live g t = Inr (g, n)"
proof -
  obtain n where n: "n \<in> set (allNodes g)" "t = node_T g n" using assms(2) by (auto simp: dg_values_def)
  then show ?thesis using that fetchNode_live [OF clean_wf [OF assms(1)]] by (auto simp: fetch_live_def)
qed

lemma out_values:
  assumes "dg_wf g" "n \<in> set (allNodes g)"
  shows "to_T g ` set (out_edges g n) = {b. (node_T g n, b) \<in> dg_arrows g}"
proof -
  have "to_T g ` set (out_edges g n) = node_T g ` {m. (n, m) \<in> node_arrows g}"
    unfolding out_edges_to [OF assms, symmetric] by auto
  also have "\<dots> = {b. (node_T g n, b) \<in> dg_arrows g}"
    using wf_node_inj [OF assms(1) _ assms(2)] node_arrows_live [OF assms(1)]
    by (fastforce simp: dg_arrows_eq)
  finally show ?thesis .
qed

lemma in_values:
  assumes "dg_wf g" "n \<in> set (allNodes g)"
  shows "from_T g ` set (in_edges g n) = {a. (a, node_T g n) \<in> dg_arrows g}"
proof -
  have "from_T g ` set (in_edges g n) = node_T g ` {m. (m, n) \<in> node_arrows g}"
    unfolding in_edges_from [OF assms, symmetric] by auto
  also have "\<dots> = {a. (a, node_T g n) \<in> dg_arrows g}"
    using wf_node_inj [OF assms(1) _ assms(2)] node_arrows_live [OF assms(1)]
    by (fastforce simp: dg_arrows_eq)
  finally show ?thesis .
qed

lemma fetchEdges_none:
  assumes "dg_wf g" "a \<in> set (allNodes g)" "b \<in> set (allNodes g)"
  shows "fetchEdges g a b = [] \<longleftrightarrow> (node_T g a, node_T g b) \<notin> dg_arrows g"
proof -
  have "fetchEdges g a b = [] \<longleftrightarrow> b \<notin> edge_to g ` set (out_edges g a)"
    by (auto simp: fetchEdges_def filter_empty_conv)
  also have "\<dots> \<longleftrightarrow> (a, b) \<notin> node_arrows g" using out_edges_to [OF assms(1,2)] by simp
  also have "\<dots> \<longleftrightarrow> (node_T g a, node_T g b) \<notin> dg_arrows g"
  proof -
    have "(a', b') \<in> node_arrows g \<Longrightarrow> node_T g a = node_T g a' \<Longrightarrow> node_T g b = node_T g b' \<Longrightarrow> a = a' \<and> b = b'" for a' b'
      using wf_node_inj [OF assms(1)] node_arrows_live [OF assms(1)] assms(2,3) by metis
    then show ?thesis unfolding dg_arrows_eq by auto
  qed
  finally show ?thesis .
qed

lemma removeNode_clean:
  assumes c: "clean g" and n: "n \<in> set (allNodes g)"
  shows "clean (removeNode n g)"
proof -
  note wf = clean_wf [OF c] note ef = removeNode_effect [OF wf n]
  have "lookup_node (removeNode n g) u \<noteq> Some None" for u
  proof
    assume "lookup_node (removeNode n g) u = Some None"
    then have "lookup_node g u = Some None \<or> u = node_T g n \<and> isInternal g u \<and> isExternal g u"
      by (auto simp: lookup_node_def ef(6,7) delete_conv' isInternal_def isExternal_def split: option.splits if_splits)
    with c show False unfolding clean_def dg_wf_def maps_wf_def by blast
  qed
  with removeNode_wf [OF wf n] show ?thesis by (simp add: clean_def)
qed

section \<open>Graphs that only gain edges\<close>

definition evolved :: "('v, 'r) dg \<Rightarrow> ('v \<times> 'v) set \<Rightarrow> ('v, 'r) dg \<Rightarrow> bool" where
  "evolved g A h \<longleftrightarrow> clean h \<and> allNodes h = allNodes g \<and> dg_values h = dg_values g \<and> dg_arrows h = dg_arrows g \<union> A \<and>
     (\<forall>n. node_T h n = node_T g n) \<and>
     (\<forall>e \<in> set (allEdges g). e \<in> set (allEdges h) \<and> edge_pair h e = edge_pair g e)"

lemma evolved_refl: "clean g \<Longrightarrow> evolved g {} g"
  by (simp add: evolved_def)

lemma evolved_trans: "evolved g A h \<Longrightarrow> evolved h B k \<Longrightarrow> evolved g (A \<union> B) k"
  by (auto simp: evolved_def)

lemma addEdge_evolved:
  assumes c: "clean g" and v: "a \<in> dg_values g" "b \<in> dg_values g"
  obtains h e where "addEdge g a b = Inr (h, e)" "evolved g {(a, b)} h"
proof -
  obtain h e where l: "linkEdge g a b (new_edge 0 0) = Inr (h, e)" "clean h" "dg_values h = dg_values g"
    "allNodes h = allNodes g" "allEdges h = allEdges g @ [e]" "edge_pair h e = (a, b)" "\<And>n. node_T h n = node_T g n"
    "\<And>x. x \<in> set (allEdges g) \<Longrightarrow> edgeMem h x = edgeMem g x"
    by (rule linkEdge_clean [OF c v, of "new_edge 0 0"]) blast
  have old: "edge_pair h x = edge_pair g x" if "x \<in> set (allEdges g)" for x
    using l(7) l(8) [OF that] by (simp add: edge_pair_def)
  have "dg_arrows h = dg_arrows g \<union> {(a, b)}" unfolding dg_arrows_def l(5) using old l(6) by auto
  then have "evolved g {(a, b)} h" using l old by (simp add: evolved_def)
  with l(1) show ?thesis using that by (simp add: addEdge_def)
qed

section \<open>The invariant of a partition\<close>

definition smem :: "'r scc_partition \<Rightarrow> ptr \<Rightarrow> ptr set" where
  "smem P s = (case set_mem P s of None \<Rightarrow> {} | Some xs \<Rightarrow> set xs)"

abbreviation sets_in :: "'r scc_partition \<Rightarrow> ptr set" where
  "sets_in P \<equiv> dg_values (pt_graph P)"

abbreviation set_arrows :: "'r scc_partition \<Rightarrow> (ptr \<times> ptr) set" where
  "set_arrows P \<equiv> dg_arrows (pt_graph P)"

definition pt_wf :: "'r scc_partition \<Rightarrow> bool" where
  "pt_wf P \<longleftrightarrow> clean (pt_graph P) \<and> (\<forall>s \<in> sets_in P. s < set_next P \<and> smem P s \<noteq> {}) \<and>
     (\<forall>s. s \<notin> sets_in P \<longrightarrow> set_mem P s = None) \<and>
     (\<forall>x s. map_of (sccToSetMap P) x = Some s \<longleftrightarrow> s \<in> sets_in P \<and> x \<in> smem P s)"

lemma pt_wfD:
  assumes "pt_wf P"
  shows "clean (pt_graph P)" "s \<in> sets_in P \<Longrightarrow> s < set_next P" "s \<in> sets_in P \<Longrightarrow> smem P s \<noteq> {}"
    "s \<notin> sets_in P \<Longrightarrow> set_mem P s = None"
    "map_of (sccToSetMap P) x = Some s \<longleftrightarrow> s \<in> sets_in P \<and> x \<in> smem P s"
  using assms by (auto simp: pt_wf_def)

lemma smem_list:
  assumes "smem P s \<noteq> {}"
  obtains x xs where "set_mem P s = Some (x # xs)" "smem P s = set (x # xs)"
proof -
  obtain ys where ys: "set_mem P s = Some ys" "ys \<noteq> []" using assms by (auto simp: smem_def split: option.splits)
  then show ?thesis using that by (cases ys) (auto simp: smem_def)
qed

section \<open>Merging: the edges\<close>

definition merge_ctx :: "ptr \<Rightarrow> ptr set \<Rightarrow> 'r scc_partition \<Rightarrow> bool" where
  "merge_ctx m S P \<longleftrightarrow> m \<notin> S \<and> (\<forall>s \<in> sets_in P - {m}. \<exists>x xs. set_mem P s = Some (x # xs) \<and>
     map_of (sccToSetMap P) x = Some (if s \<in> S then m else s))"

lemma merge_ctx_graph: "merge_ctx m S P \<Longrightarrow> dg_values h = sets_in P \<Longrightarrow> merge_ctx m S (P\<lparr>pt_graph := h\<rparr>)"
  by (simp add: merge_ctx_def)

definition other_end :: "('v, 'r) dg \<Rightarrow> bool \<Rightarrow> ptr \<Rightarrow> 'v" where
  "other_end g incoming e = (if incoming then from_T g e else to_T g e)"

definition new_arrow :: "bool \<Rightarrow> 'v \<Rightarrow> 'v \<Rightarrow> 'v \<times> 'v" where
  "new_arrow incoming a m = (if incoming then (a, m) else (m, a))"

lemma other_end_evolved:
  "evolved g A h \<Longrightarrow> e \<in> set (allEdges g) \<Longrightarrow> other_end h inc e = other_end g inc e"
  by (auto simp: evolved_def other_end_def edge_pair_def)

lemma transfer_edge_ok:
  assumes c: "clean (pt_graph P)" and ctx: "merge_ctx m S P"
    and m: "nm \<in> set (allNodes (pt_graph P))" "node_T (pt_graph P) nm = m"
    and e: "e \<in> set (allEdges (pt_graph P))" "other_end (pt_graph P) inc e \<noteq> m"
  defines "a \<equiv> other_end (pt_graph P) inc e"
  shows "\<exists>h. transfer_edge m nm inc e P = Inr (P\<lparr>pt_graph := h\<rparr>) \<and>
    evolved (pt_graph P) (if a \<in> S then {} else {new_arrow inc a m}) h"
proof -
  let ?g = "pt_graph P"
  note wf = clean_wf [OF c]
  have av: "a \<in> dg_values ?g"
    using edge_pair_live [OF wf e(1)] by (auto simp: a_def other_end_def edge_pair_def)
  then obtain n where n: "n \<in> set (allNodes ?g)" "node_T ?g n = a" by (auto simp: dg_values_def)
  have f: "fetchNode ?g a = (?g, Some n)" using fetchNode_live [OF wf n(1)] n(2) by simp
  have mv: "m \<in> dg_values ?g" using m by (auto simp: dg_values_def)
  obtain x xs where x: "set_mem P a = Some (x # xs)" "map_of (sccToSetMap P) x = Some (if a \<in> S then m else a)"
    using ctx av e(2) unfolding merge_ctx_def a_def by blast
  have am: "a \<noteq> m" using e(2) by (simp add: a_def)
  have a_eq: "(if inc then from_T ?g e else to_T ?g e) = a" by (simp add: a_def other_end_def)
  show ?thesis
  proof (cases "a \<in> S")
    case True
    have "transfer_edge m nm inc e P = Inr (P\<lparr>pt_graph := ?g\<rparr>)"
      unfolding transfer_edge_def a_eq Let_def f using x True by (simp add: sccs_of_def)
    with True evolved_refl [OF c] show ?thesis by (intro exI [of _ ?g]) simp
  next
    case False
    let ?E = "if inc then fetchEdges ?g n nm else fetchEdges ?g nm n"
    let ?add = "if inc then addEdge ?g a m else addEdge ?g m a"
    have t: "transfer_edge m nm inc e P = (if ?E \<noteq> [] then Inr (P\<lparr>pt_graph := ?g\<rparr>)
        else andThen ?add (\<lambda>(g1, _). Inr (P\<lparr>pt_graph := g1\<rparr>)))"
      unfolding transfer_edge_def a_eq Let_def f using x False am by (simp add: sccs_of_def)
    have E: "?E = [] \<longleftrightarrow> new_arrow inc a m \<notin> dg_arrows ?g"
      using fetchEdges_none [OF wf n(1) m(1)] fetchEdges_none [OF wf m(1) n(1)] n(2) m(2)
      by (simp add: new_arrow_def)
    obtain h e' where h: "?add = Inr (h, e')" "evolved ?g {new_arrow inc a m} h"
      by (cases inc; simp only: new_arrow_def if_True if_False)
        (rule addEdge_evolved [OF c av mv] addEdge_evolved [OF c mv av]; blast)+
    show ?thesis
    proof (cases "?E = []")
      case True
      then have "transfer_edge m nm inc e P = andThen ?add (\<lambda>(g1, _). Inr (P\<lparr>pt_graph := g1\<rparr>))" using t by simp
      then have "transfer_edge m nm inc e P = Inr (P\<lparr>pt_graph := h\<rparr>)" unfolding h(1) by simp
      with h(2) False show ?thesis by auto
    next
      case E2: False
      then have "new_arrow inc a m \<in> dg_arrows ?g" using E by blast
      then have "evolved ?g {new_arrow inc a m} ?g" using c by (auto simp: evolved_def)
      moreover have "transfer_edge m nm inc e P = Inr (P\<lparr>pt_graph := ?g\<rparr>)" using t E2 by simp
      ultimately show ?thesis using False by (intro exI [of _ ?g]) simp
    qed
  qed
qed

lemma transfer_loop:
  assumes "clean (pt_graph P)" and "merge_ctx m S P"
    and "nm \<in> set (allNodes (pt_graph P))" "node_T (pt_graph P) nm = m"
    and "set es \<subseteq> set (allEdges (pt_graph P))" "\<forall>e \<in> set es. other_end (pt_graph P) inc e \<noteq> m"
  shows "\<exists>h. foldE (transfer_edge m nm inc) es P = Inr (P\<lparr>pt_graph := h\<rparr>) \<and>
    evolved (pt_graph P) {new_arrow inc a m |a. a \<in> other_end (pt_graph P) inc ` set es - S} h"
  using assms
proof (induction es arbitrary: P)
  case Nil
  then show ?case using evolved_refl [OF Nil.prems(1)] by (intro exI [of _ "pt_graph P"]) simp
next
  case (Cons e es)
  let ?g = "pt_graph P" and ?a = "other_end (pt_graph P) inc e"
  have e: "e \<in> set (allEdges ?g)" "?a \<noteq> m" using Cons.prems(5,6) by auto
  obtain h where h: "transfer_edge m nm inc e P = Inr (P\<lparr>pt_graph := h\<rparr>)"
    "evolved ?g (if ?a \<in> S then {} else {new_arrow inc ?a m}) h"
    using transfer_edge_ok [OF Cons.prems(1-4) e] by blast
  let ?P = "P\<lparr>pt_graph := h\<rparr>"
  have oe: "other_end h inc x = other_end ?g inc x" if "x \<in> set es" for x
    using other_end_evolved [OF h(2)] Cons.prems(5) that by auto
  have hv: "clean h" "dg_values h = dg_values ?g" "allNodes h = allNodes ?g" "node_T h nm = node_T ?g nm"
    "set (allEdges ?g) \<subseteq> set (allEdges h)"
    using h(2) by (auto simp: evolved_def)
  have "set es \<subseteq> set (allEdges h)" using Cons.prems(5) hv(5) by auto
  then obtain k where k: "foldE (transfer_edge m nm inc) es ?P = Inr (?P\<lparr>pt_graph := k\<rparr>)"
    "evolved h {new_arrow inc a m |a. a \<in> other_end h inc ` set es - S} k"
    using Cons.IH [of ?P] Cons.prems hv oe merge_ctx_graph [OF Cons.prems(2) hv(2)] by auto
  have "other_end h inc ` set es = other_end ?g inc ` set es" using oe by (auto intro!: image_cong)
  with k(2) evolved_trans [OF h(2)] have
    "evolved ?g ((if ?a \<in> S then {} else {new_arrow inc ?a m}) \<union> {new_arrow inc a m |a. a \<in> other_end ?g inc ` set es - S}) k" by simp
  also have "(if ?a \<in> S then {} else {new_arrow inc ?a m}) \<union> {new_arrow inc a m |a. a \<in> other_end ?g inc ` set es - S} =
      {new_arrow inc a m |a. a \<in> other_end ?g inc ` set (e # es) - S}" by auto
  finally show ?case using h(1) k(1) by auto
qed

text \<open>The new arrows of all the sets \<open>T\<close> that have been handled.\<close>

definition moved :: "('v \<times> 'v) set \<Rightarrow> 'v set \<Rightarrow> 'v \<Rightarrow> 'v set \<Rightarrow> ('v \<times> 'v) set" where
  "moved R S m T = {(a, m) |a s. s \<in> T \<and> (a, s) \<in> R \<and> a \<notin> S} \<union> {(m, b) |b s. s \<in> T \<and> (s, b) \<in> R \<and> b \<notin> S}"

lemma transfer_edges_ok:
  assumes c: "clean (pt_graph P)" and ctx: "merge_ctx m S P"
    and m: "nm \<in> set (allNodes (pt_graph P))" "node_T (pt_graph P) nm = m"
    and s: "s \<in> S" "s \<in> sets_in P" and no: "(m, s) \<notin> set_arrows P" "(s, m) \<notin> set_arrows P"
  shows "\<exists>h. transfer_edges m nm s P = Inr (P\<lparr>pt_graph := h\<rparr>) \<and>
    evolved (pt_graph P) (moved (set_arrows P) S m {s}) h"
proof -
  let ?g = "pt_graph P" and ?R = "set_arrows P"
  note wf = clean_wf [OF c]
  have ew: "edges_wf ?g" using wf by (simp add: dg_wf_def)
  obtain n where n: "n \<in> set (allNodes ?g)" "node_T ?g n = s" "fetch_live ?g s = Inr (?g, n)"
    by (rule fetch_live_ok [OF c s(2)])
  have sm: "m \<noteq> s" using ctx s(1) by (auto simp: merge_ctx_def)
  have ins: "other_end ?g True ` set (in_edges ?g n) = {a. (a, s) \<in> ?R}"
    using in_values [OF wf n(1)] n(2) by (simp add: other_end_def)
  have "\<forall>e \<in> set (in_edges ?g n). other_end ?g True e \<noteq> m" using ins no(1) by blast
  moreover have "set (in_edges ?g n) \<subseteq> set (allEdges ?g)" using edges_wfD(8) [OF ew n(1)] by auto
  ultimately obtain h where h: "foldE (transfer_edge m nm True) (in_edges ?g n) P = Inr (P\<lparr>pt_graph := h\<rparr>)"
    "evolved ?g {new_arrow True a m |a. a \<in> {a. (a, s) \<in> ?R} - S} h"
    using transfer_loop [OF c ctx m, of "in_edges ?g n" True] unfolding ins by blast
  let ?P = "P\<lparr>pt_graph := h\<rparr>"
  have hv: "clean h" "dg_values h = dg_values ?g" "allNodes h = allNodes ?g" "\<And>n. node_T h n = node_T ?g n"
    "dg_arrows h = ?R \<union> {new_arrow True a m |a. a \<in> {a. (a, s) \<in> ?R} - S}"
    using h(2) by (auto simp: evolved_def)
  note hwf = clean_wf [OF hv(1)]
  have hew: "edges_wf h" using hwf by (simp add: dg_wf_def)
  have nh: "n \<in> set (allNodes h)" using n(1) hv(3) by simp
  have outs: "other_end h False ` set (out_edges h n) = {b. (s, b) \<in> ?R}"
    using out_values [OF hwf nh] hv(4,5) n(2) s(1) by (auto simp: other_end_def new_arrow_def)
  have "\<forall>e \<in> set (out_edges h n). other_end h False e \<noteq> m" using outs no(2) by blast
  moreover have "set (out_edges h n) \<subseteq> set (allEdges h)" using edges_wfD(7) [OF hew nh] by auto
  ultimately obtain k where k: "foldE (transfer_edge m nm False) (out_edges h n) ?P = Inr (?P\<lparr>pt_graph := k\<rparr>)"
    "evolved h {new_arrow False b m |b. b \<in> {b. (s, b) \<in> ?R} - S} k"
    using transfer_loop [of ?P m S nm "out_edges h n" False] hv m merge_ctx_graph [OF ctx hv(2)] outs by auto
  have "evolved ?g (moved ?R S m {s}) k"
    using evolved_trans [OF h(2) k(2)] by (rule back_subst [where P = "\<lambda>A. evolved ?g A k"]) (auto simp: moved_def new_arrow_def)
  moreover have "transfer_edges m nm s P = Inr (P\<lparr>pt_graph := k\<rparr>)"
    unfolding transfer_edges_def n(3) by (simp add: h(1) k(1))
  ultimately show ?thesis by blast
qed

lemma transfer_all:
  assumes c: "clean (pt_graph P)" and ctx: "merge_ctx m S P"
    and m: "nm \<in> set (allNodes (pt_graph P))" "node_T (pt_graph P) nm = m"
    and s: "set ss \<subseteq> S" "S \<subseteq> sets_in P" and no: "\<And>x. (m, x) \<notin> set_arrows P" "\<And>x. (x, m) \<notin> set_arrows P"
  shows "\<exists>h. foldE (transfer_edges m nm) ss P = Inr (P\<lparr>pt_graph := h\<rparr>) \<and>
    evolved (pt_graph P) (moved (set_arrows P) S m (set ss)) h"
proof -
  let ?g = "pt_graph P" and ?R = "set_arrows P"
  have mS: "m \<notin> S" using ctx by (simp add: merge_ctx_def)
  have "\<exists>k. foldE (transfer_edges m nm) ts (P\<lparr>pt_graph := h\<rparr>) = Inr (P\<lparr>pt_graph := k\<rparr>) \<and>
      evolved ?g (moved ?R S m (T \<union> set ts)) k" if "evolved ?g (moved ?R S m T) h" "set ts \<subseteq> S" for ts T h
    using that
  proof (induction ts arbitrary: T h)
    case Nil
    then show ?case by auto
  next
    case (Cons t ts)
    let ?P = "P\<lparr>pt_graph := h\<rparr>"
    have hv: "clean h" "dg_values h = dg_values ?g" "allNodes h = allNodes ?g" "\<And>n. node_T h n = node_T ?g n"
      "dg_arrows h = ?R \<union> moved ?R S m T"
      using Cons.prems(1) by (auto simp: evolved_def)
    have t: "t \<in> S" "t \<in> dg_values ?g" using Cons.prems(2) s(2) by auto
    have t': "(m, t) \<notin> dg_arrows h" "(t, m) \<notin> dg_arrows h"
      using no t mS unfolding hv(5) by (auto simp: moved_def)
    obtain k where k: "transfer_edges m nm t ?P = Inr (?P\<lparr>pt_graph := k\<rparr>)" "evolved h (moved (dg_arrows h) S m {t}) k"
      using transfer_edges_ok [of ?P m S nm t] hv(1-4) merge_ctx_graph [OF ctx hv(2)] m t t' by auto
    have "moved (dg_arrows h) S m {t} = moved ?R S m {t}"
      using t(1) mS no unfolding hv(5) by (auto simp: moved_def)
    with k(2) evolved_trans [OF Cons.prems(1)] have "evolved ?g (moved ?R S m T \<union> moved ?R S m {t}) k" by simp
    also have "moved ?R S m T \<union> moved ?R S m {t} = moved ?R S m (insert t T)" by (auto simp: moved_def)
    finally show ?case using Cons.IH [of "insert t T" k] Cons.prems(2) k(1) by auto
  qed
  from this [of "{}" ?g ss] s(1) evolved_refl [OF c] show ?thesis by (simp add: moved_def)
qed

section \<open>Merging: the sets\<close>

lemma collect_loop:
  assumes "set_mem P m = Some acc" and "\<forall>s \<in> set ss. s \<noteq> m \<and> set_mem P s \<noteq> None"
  shows "\<exists>acc' M. foldE (collect_sccs m) ss P = Inr (P\<lparr>set_mem := (set_mem P)(m := Some acc'), sccToSetMap := M\<rparr>) \<and>
    set acc' = set acc \<union> (\<Union>s \<in> set ss. smem P s) \<and>
    (\<forall>x. map_of M x = (if \<exists>s \<in> set ss. x \<in> smem P s then Some m else map_of (sccToSetMap P) x))"
  using assms
proof (induction ss arbitrary: P acc)
  case Nil
  then have e: "(set_mem P)(m := Some acc) = set_mem P" by (simp add: fun_upd_idem)
  have "foldE (collect_sccs m) [] P = Inr (P\<lparr>set_mem := (set_mem P)(m := Some acc), sccToSetMap := sccToSetMap P\<rparr>)"
    unfolding e by simp
  then show ?case by (intro exI [of _ acc] exI [of _ "sccToSetMap P"] conjI) (assumption | simp)+
next
  case (Cons s ss)
  then obtain xs where xs: "set_mem P s = Some xs" by auto
  let ?M = "fold (\<lambda>scc. AList.update scc m) xs (sccToSetMap P)"
  let ?P = "P\<lparr>set_mem := (set_mem P)(m := Some (uset_insert_all xs acc)), sccToSetMap := ?M\<rparr>"
  have step: "collect_sccs m s P = Inr ?P" using xs Cons.prems by (simp add: collect_sccs_def sccs_of_def)
  have sm: "smem ?P t = smem P t" if "t \<in> set (s # ss)" for t using that Cons.prems(2) by (auto simp: smem_def)
  have prem: "set_mem ?P m = Some (uset_insert_all xs acc)" "\<forall>s \<in> set ss. s \<noteq> m \<and> set_mem ?P s \<noteq> None"
    using Cons.prems(2) by auto
  obtain acc' M where k: "foldE (collect_sccs m) ss ?P = Inr (?P\<lparr>set_mem := (set_mem ?P)(m := Some acc'), sccToSetMap := M\<rparr>)"
    "set acc' = set (uset_insert_all xs acc) \<union> (\<Union>s \<in> set ss. smem ?P s)"
    "\<forall>x. map_of M x = (if \<exists>s \<in> set ss. x \<in> smem ?P s then Some m else map_of (sccToSetMap ?P) x)"
    using Cons.IH [OF prem] by blast
  have "smem P s = set xs" using xs by (simp add: smem_def)
  then have "set acc' = set acc \<union> (\<Union>s \<in> set (s # ss). smem P s)"
    "\<forall>x. map_of M x = (if \<exists>s \<in> set (s # ss). x \<in> smem P s then Some m else map_of (sccToSetMap P) x)"
    using k(2,3) sm by (auto simp: map_of_fold_update)
  moreover have "foldE (collect_sccs m) (s # ss) P =
      Inr (P\<lparr>set_mem := (set_mem P)(m := Some acc'), sccToSetMap := M\<rparr>)"
    using step k(1) by simp
  ultimately show ?case by blast
qed

lemma remove_loop:
  assumes "clean (pt_graph P)" and "distinct ss" and "set ss \<subseteq> sets_in P"
  shows "\<exists>h. foldE remove_set ss P = Inr (P\<lparr>pt_graph := h, set_mem := (\<lambda>s. if s \<in> set ss then None else set_mem P s)\<rparr>) \<and>
    clean h \<and> dg_values h = sets_in P - set ss \<and> dg_arrows h = {(a, b) \<in> set_arrows P. a \<notin> set ss \<and> b \<notin> set ss}"
  using assms
proof (induction ss arbitrary: P)
  case Nil
  have "P\<lparr>pt_graph := pt_graph P, set_mem := set_mem P\<rparr> = P" by simp
  then show ?case using Nil.prems(1) by (intro exI [of _ "pt_graph P"]) simp
next
  case (Cons s ss)
  have s: "s \<in> sets_in P" using Cons.prems(3) by simp
  obtain n where n: "n \<in> set (allNodes (pt_graph P))" "node_T (pt_graph P) n = s"
    "fetch_live (pt_graph P) s = Inr (pt_graph P, n)"
    by (rule fetch_live_ok [OF Cons.prems(1) s])
  let ?h = "removeNode n (pt_graph P)"
  let ?P = "P\<lparr>pt_graph := ?h, set_mem := (set_mem P)(s := None)\<rparr>"
  note rv = removeNode_values [OF clean_wf [OF Cons.prems(1)] n(1), unfolded n(2)]
  have step: "remove_set s P = Inr ?P" using n(3) by (simp add: remove_set_def)
  obtain k where k: "foldE remove_set ss ?P = Inr (?P\<lparr>pt_graph := k, set_mem := (\<lambda>t. if t \<in> set ss then None else set_mem ?P t)\<rparr>)"
    "clean k" "dg_values k = dg_values ?h - set ss" "dg_arrows k = {(a, b) \<in> dg_arrows ?h. a \<notin> set ss \<and> b \<notin> set ss}"
    using Cons.IH [of ?P] Cons.prems removeNode_clean [OF Cons.prems(1) n(1)] rv(1) by auto
  have "(\<lambda>t. if t \<in> set ss then None else set_mem ?P t) = (\<lambda>t. if t \<in> set (s # ss) then None else set_mem P t)" by auto
  with step k(1) have "foldE remove_set (s # ss) P =
      Inr (P\<lparr>pt_graph := k, set_mem := (\<lambda>t. if t \<in> set (s # ss) then None else set_mem P t)\<rparr>)" by simp
  moreover have "dg_values k = sets_in P - set (s # ss)"
    "dg_arrows k = {(a, b) \<in> set_arrows P. a \<notin> set (s # ss) \<and> b \<notin> set (s # ss)}"
    using k(3,4) rv by auto
  ultimately show ?case using k(2) by blast
qed

text \<open>Merging \<open>S\<close> into the new set \<open>m\<close>: the graph is the quotient without the arrows inside \<open>S\<close>.\<close>

definition merged_into :: "ptr set \<Rightarrow> ptr \<Rightarrow> ptr \<Rightarrow> ptr" where
  "merged_into S m s = (if s \<in> S then m else s)"

definition merge_spec :: "ptr set \<Rightarrow> 'r scc_partition \<Rightarrow> 'r scc_partition \<Rightarrow> bool" where
  "merge_spec S P P' \<longleftrightarrow> pt_wf P' \<and> sets_in P' = insert (set_next P) (sets_in P - S) \<and> set_next P' = Suc (set_next P) \<and>
     smem P' (set_next P) = (\<Union>s \<in> S. smem P s) \<and> (\<forall>s \<in> sets_in P - S. smem P' s = smem P s) \<and>
     set_arrows P' = {(merged_into S (set_next P) a, merged_into S (set_next P) b) |a b.
        (a, b) \<in> set_arrows P \<and> \<not> (a \<in> S \<and> b \<in> S)}"

lemma mergeSets_ok:
  assumes wf: "pt_wf P" and ss: "distinct ss" "ss \<noteq> []" "set ss \<subseteq> sets_in P"
  shows "\<exists>P'. mergeSets ss P = Inr P' \<and> merge_spec (set ss) P P'"
proof -
  note pw = pt_wfD [OF wf]
  let ?m = "set_next P" and ?S = "set ss" and ?R = "set_arrows P"
  have fresh: "?m \<notin> sets_in P" using pw(2) by blast
  have live: "set_mem P s \<noteq> None" if "s \<in> sets_in P" for s using pw(3) [OF that] by (auto simp: smem_def split: option.splits)
  let ?P0 = "P\<lparr>set_mem := (set_mem P)(?m := Some []), set_next := Suc ?m\<rparr>"
  have sm0: "smem ?P0 s = smem P s" if "s \<in> ?S" for s using that ss(3) fresh by (auto simp: smem_def)
  have "\<forall>s \<in> ?S. s \<noteq> ?m \<and> set_mem ?P0 s \<noteq> None" using ss(3) fresh live by auto
  from collect_loop [of ?P0 ?m "[]" ss, OF _ this] sm0 obtain acc M where
    1: "foldE (collect_sccs ?m) ss ?P0 = Inr (?P0\<lparr>set_mem := (set_mem ?P0)(?m := Some acc), sccToSetMap := M\<rparr>)"
    and acc: "set acc = (\<Union>s \<in> ?S. smem P s)"
    and M: "\<And>x. map_of M x = (if \<exists>s \<in> ?S. x \<in> smem P s then Some ?m else map_of (sccToSetMap P) x)"
    by auto
  let ?P1 = "?P0\<lparr>set_mem := (set_mem ?P0)(?m := Some acc), sccToSetMap := M\<rparr>"
  obtain g nm where a: "addNode (pt_graph P) ?m True = (g, nm)" by fastforce
  note ac = addNode_clean [OF pw(1) fresh a]
  let ?P2 = "?P1\<lparr>pt_graph := g\<rparr>"
  have gR: "dg_arrows g = ?R" using ac(3) by (simp add: facts_arrows)
  have RV: "?R \<subseteq> sets_in P \<times> sets_in P" by (rule dg_arrows_values [OF clean_wf [OF pw(1)]])
  have ctx: "merge_ctx ?m ?S ?P2"
    unfolding merge_ctx_def
  proof (intro conjI ballI)
    show "?m \<notin> ?S" using ss(3) fresh by auto
    fix s assume s: "s \<in> sets_in ?P2 - {?m}"
    then have sP: "s \<in> sets_in P" and sm: "s \<noteq> ?m" using ac(2) by auto
    obtain x xs where x: "set_mem P s = Some (x # xs)" "smem P s = set (x # xs)"
      by (rule smem_list [OF pw(3) [OF sP]])
    have sx: "map_of (sccToSetMap P) x = Some s" using pw(5) sP x(2) by simp
    have "(\<exists>t \<in> ?S. x \<in> smem P t) \<longleftrightarrow> s \<in> ?S"
    proof
      assume "\<exists>t \<in> ?S. x \<in> smem P t"
      then obtain t where t: "t \<in> ?S" "x \<in> smem P t" by blast
      then have "map_of (sccToSetMap P) x = Some t" using pw(5) ss(3) by blast
      with sx t(1) show "s \<in> ?S" by simp
    next
      assume "s \<in> ?S" with x(2) show "\<exists>t \<in> ?S. x \<in> smem P t" by auto
    qed
    then show "\<exists>x xs. set_mem ?P2 s = Some (x # xs) \<and> map_of (sccToSetMap ?P2) x = Some (if s \<in> ?S then ?m else s)"
      using x(1) sm sx by (intro exI [of _ x] exI [of _ xs]) (simp add: M)
  qed
  have mR: "(?m, x) \<notin> dg_arrows g" "(x, ?m) \<notin> dg_arrows g" for x using RV fresh unfolding gR by auto
  have "?S \<subseteq> sets_in ?P2" using ss(3) ac(2) by auto
  then obtain h where 2: "foldE (transfer_edges ?m nm) ss ?P2 = Inr (?P2\<lparr>pt_graph := h\<rparr>)" "evolved g (moved ?R ?S ?m ?S) h"
    using transfer_all [of ?P2 ?m ?S nm ss] ac(1,7,8) ctx mR by (auto simp: gR)
  let ?P3 = "?P2\<lparr>pt_graph := h\<rparr>"
  have hv: "clean h" "dg_values h = insert ?m (sets_in P)" "dg_arrows h = ?R \<union> moved ?R ?S ?m ?S"
    using 2(2) ac(2) gR by (auto simp: evolved_def)
  have "?S \<subseteq> dg_values h" using ss(3) hv(2) by auto
  then obtain k where 3: "foldE remove_set ss ?P3 = Inr (?P3\<lparr>pt_graph := k, set_mem := (\<lambda>s. if s \<in> ?S then None else set_mem ?P3 s)\<rparr>)"
    and kv: "clean k" "dg_values k = dg_values h - ?S" "dg_arrows k = {(a, b) \<in> dg_arrows h. a \<notin> ?S \<and> b \<notin> ?S}"
    using remove_loop [of ?P3 ss] hv(1) ss(1) by auto
  define Q where "Q = ?P3\<lparr>pt_graph := k, set_mem := (\<lambda>s. if s \<in> ?S then None else set_mem ?P3 s)\<rparr>"
  have a': "addNode (pt_graph ?P1) ?m True = (g, nm)" using a by simp
  have run: "mergeSets ss P = Inr Q"
    unfolding mergeSets_def Q_def Let_def by (simp only: 1 andThen_Inr a' prod.case 2(1) 3)
  have Q: "pt_graph Q = k" "set_next Q = Suc ?m" "sccToSetMap Q = M"
    "set_mem Q s = (if s \<in> ?S then None else if s = ?m then Some acc else set_mem P s)" for s
    by (simp_all add: Q_def)
  have vals: "dg_values k = insert ?m (sets_in P - ?S)" using kv(2) hv(2) ss(3) fresh by auto
  have mS: "?m \<notin> ?S" using ss(3) fresh by auto
  have smQ: "smem Q s = (if s \<in> ?S then {} else if s = ?m then (\<Union>s \<in> ?S. smem P s) else smem P s)" for s
    using acc by (simp add: smem_def Q(4))
  have arr: "dg_arrows k = {(merged_into ?S ?m a, merged_into ?S ?m b) |a b. (a, b) \<in> ?R \<and> \<not> (a \<in> ?S \<and> b \<in> ?S)}" (is "_ = ?N")
  proof (intro set_eqI iffI)
    fix p assume "p \<in> dg_arrows k"
    then obtain a b where p: "p = (a, b)" "(a, b) \<in> ?R \<union> moved ?R ?S ?m ?S" "a \<notin> ?S" "b \<notin> ?S"
      unfolding kv(3) hv(3) by auto
    from p(2) consider "(a, b) \<in> ?R" | s where "b = ?m" "s \<in> ?S" "(a, s) \<in> ?R" | s where "a = ?m" "s \<in> ?S" "(s, b) \<in> ?R"
      by (auto simp: moved_def)
    then have "\<exists>c d. (a, b) = (merged_into ?S ?m c, merged_into ?S ?m d) \<and> (c, d) \<in> ?R \<and> \<not> (c \<in> ?S \<and> d \<in> ?S)"
    proof cases
      case 1 with p(3,4) show ?thesis by (intro exI [of _ a] exI [of _ b]) (simp add: merged_into_def)
    next
      case (2 s) with p(3) show ?thesis by (intro exI [of _ a] exI [of _ s]) (simp add: merged_into_def)
    next
      case (3 s) with p(4) show ?thesis by (intro exI [of _ s] exI [of _ b]) (simp add: merged_into_def)
    qed
    then show "p \<in> ?N" unfolding p(1) by blast
  next
    fix p assume "p \<in> ?N"
    then obtain c d where p: "p = (merged_into ?S ?m c, merged_into ?S ?m d)" "(c, d) \<in> ?R" "\<not> (c \<in> ?S \<and> d \<in> ?S)" by blast
    then consider "c \<notin> ?S" "d \<notin> ?S" | "c \<in> ?S" "d \<notin> ?S" | "c \<notin> ?S" "d \<in> ?S" by blast
    then show "p \<in> dg_arrows k"
      unfolding kv(3) hv(3) p(1) using p(2) mS by cases (auto simp: merged_into_def moved_def)
  qed
  have "pt_wf Q"
    unfolding pt_wf_def Q(1-3)
  proof (intro conjI ballI allI impI)
    show "clean k" by (rule kv(1))
    fix s
    show "s < Suc ?m" if "s \<in> dg_values k" using that vals pw(2) [of s] by (auto simp: less_Suc_eq)
    have ne: "(\<Union>s \<in> ?S. smem P s) \<noteq> {}" using pw(3) ss(2,3) by (cases ss) auto
    show "smem Q s \<noteq> {}" if "s \<in> dg_values k"
      using that pw(3) [of s] ne mS unfolding smQ vals by auto
    show "set_mem Q s = None" if "s \<notin> dg_values k" using that pw(4) unfolding Q(4) vals by auto
    fix x
    show "map_of M x = Some s \<longleftrightarrow> s \<in> dg_values k \<and> x \<in> smem Q s"
    proof (cases "\<exists>t \<in> ?S. x \<in> smem P t")
      case True
      then obtain t where t: "t \<in> ?S" "x \<in> smem P t" by blast
      then have "map_of (sccToSetMap P) x = Some t" using pw(5) ss(3) by blast
      then have "x \<in> smem P s \<Longrightarrow> s \<in> sets_in P \<Longrightarrow> s = t" using pw(5) [of x s] by simp
      with t True mS show ?thesis unfolding M smQ vals by auto
    next
      case False
      then show ?thesis using pw(5) [of x s] mS fresh unfolding M smQ vals by auto
    qed
  qed
  moreover have "smem Q s = smem P s" if "s \<in> sets_in P - ?S" for s using that fresh unfolding smQ by auto
  moreover have "smem Q ?m = (\<Union>s \<in> ?S. smem P s)" using mS by (simp add: smQ)
  ultimately have "merge_spec ?S P Q"
    unfolding merge_spec_def Q(1,2) using vals arr by blast
  with run show ?thesis by blast
qed

section \<open>Collapsing: the components\<close>

definition vclass :: "('v \<times> 'v) set \<Rightarrow> 'v \<Rightarrow> 'v set" where
  "vclass R v = {u. (v, u) \<in> R\<^sup>* \<and> (u, v) \<in> R\<^sup>*}"

lemma vclass_eq: "u \<in> vclass R v \<Longrightarrow> vclass R u = vclass R v"
  by (auto simp: vclass_def)

lemma vclass_self [simp]: "v \<in> vclass R v"
  by (simp add: vclass_def)

lemma class_values:
  assumes wf: "dg_wf g" and n: "n \<in> set (allNodes g)"
  shows "node_T g ` class_of g n = vclass (dg_arrows g) (node_T g n)"
proof (intro set_eqI iffI)
  fix v assume "v \<in> node_T g ` class_of g n"
  then show "v \<in> vclass (dg_arrows g) (node_T g n)"
    using arrows_between_live(2) [OF wf] class_of_live [OF wf n] n by (auto simp: class_of_def vclass_def)
next
  fix v assume v: "v \<in> vclass (dg_arrows g) (node_T g n)"
  have "v \<in> dg_values g"
  proof -
    have "(node_T g n, v) \<in> (dg_arrows g)\<^sup>*" using v by (simp add: vclass_def)
    then show ?thesis by induction (use n dg_arrows_values [OF wf] in \<open>auto simp: dg_values_def\<close>)
  qed
  then obtain m where m: "m \<in> set (allNodes g)" "v = node_T g m" by (auto simp: dg_values_def)
  with v have "m \<in> class_of g n" using arrows_between_live(2) [OF wf] n by (simp add: class_of_def vclass_def)
  with m(2) show "v \<in> node_T g ` class_of g n" by blast
qed

lemma entry_simps [simp]:
  "dg_wf (g\<lparr>entryNode := x\<rparr>) = dg_wf g" "clean (g\<lparr>entryNode := x\<rparr>) = clean g"
  "class_of (g\<lparr>entryNode := x\<rparr>) = class_of g" "node_arrows (g\<lparr>entryNode := x\<rparr>) = node_arrows g"
  "dg_values (g\<lparr>entryNode := x\<rparr>) = dg_values g" "dg_arrows (g\<lparr>entryNode := x\<rparr>) = dg_arrows g"
proof -
  show arr: "node_arrows (g\<lparr>entryNode := x\<rparr>) = node_arrows g" by (simp add: node_arrows_def)
  show "class_of (g\<lparr>entryNode := x\<rparr>) = class_of g" by (simp add: class_of_def arr fun_eq_iff)
  have "maps_wf (g\<lparr>entryNode := x\<rparr>) = maps_wf g" by (rule maps_wf_cong) auto
  then show w: "dg_wf (g\<lparr>entryNode := x\<rparr>) = dg_wf g" by (simp add: dg_wf_def edges_wf_def)
  show "clean (g\<lparr>entryNode := x\<rparr>) = clean g" unfolding clean_def w lookup_node_def by (simp split: option.split)
  show "dg_values (g\<lparr>entryNode := x\<rparr>) = dg_values g" by (simp add: dg_values_def)
  show "dg_arrows (g\<lparr>entryNode := x\<rparr>) = dg_arrows g" by (simp add: dg_arrows_def edge_pair_def)
qed

definition coll_inv :: "'r scc_partition \<Rightarrow> 'r collapse_state \<Rightarrow> bool" where
  "coll_inv P = (\<lambda>(cs, vis, P1). (\<exists>x. P1 = P\<lparr>pt_graph := (pt_graph P)\<lparr>entryNode := x\<rparr>\<rparr>) \<and>
     distinct (concat cs) \<and> set vis = set (concat cs) \<and>
     (\<forall>c \<in> set cs. \<exists>v \<in> sets_in P. set c = vclass (set_arrows P) v))"

lemma coll_inv_class:
  assumes "coll_inv P (cs, vis, P1)" "u \<in> set vis"
  shows "vclass (set_arrows P) u \<subseteq> set vis"
proof -
  obtain c where c: "c \<in> set cs" "u \<in> set c" using assms unfolding coll_inv_def by auto
  then obtain v where v: "set c = vclass (set_arrows P) v" using assms(1) unfolding coll_inv_def by blast
  with c(2) have "vclass (set_arrows P) u = set c" using vclass_eq by metis
  with c(1) assms(1) show ?thesis unfolding coll_inv_def by auto
qed

lemma collapse_component_ok:
  assumes wf: "dg_wf (pt_graph P)" and inv: "coll_inv P st"
    and c: "c \<noteq> []" "set c \<subseteq> set (allNodes (pt_graph P))" "\<forall>x \<in> set c. set c = class_of (pt_graph P) x"
  shows "\<exists>st'. collapse_component c st = Inr st' \<and> coll_inv P st' \<and>
    set (fst (snd st')) = set (fst (snd st)) \<union> node_T (pt_graph P) ` set c"
proof -
  obtain cs vis P1 where st: "st = (cs, vis, P1)" by (cases st)
  note I = inv [unfolded st]
  let ?T = "node_T (pt_graph P)" and ?R = "set_arrows P"
  obtain f rest where f: "c = f # rest" using c(1) by (cases c) auto
  have T1: "node_T (pt_graph P1) x = ?T x" for x using I by (auto simp: coll_inv_def)
  have fl: "f \<in> set (allNodes (pt_graph P))" using c(2) f by simp
  have "set c = class_of (pt_graph P) f" using c(3) f by auto
  then have cl: "?T ` set c = vclass ?R (?T f)" using class_values [OF wf fl] by simp
  show ?thesis
  proof (cases "?T f \<in> set vis")
    case True
    then have "?T ` set c \<subseteq> set vis" using coll_inv_class [OF I] cl by simp
    with True I show ?thesis by (auto simp: st f collapse_component_def T1)
  next
    case False
    let ?u = "uset_insert_all (map ?T c) []"
    have u: "set ?u = ?T ` set c" "distinct ?u" by simp_all
    have map_T: "map (node_T (pt_graph P1)) c = map ?T c" using T1 by simp
    have visE: "set vis = set (concat cs)" using I unfolding coll_inv_def prod.case by blast
    have disj: "set ?u \<inter> set (concat cs) = {}"
    proof (rule ccontr)
      assume "set ?u \<inter> set (concat cs) \<noteq> {}"
      then obtain x where x: "x \<in> set vis" "x \<in> ?T ` set c" unfolding u(1) visE by blast
      from x(2) cl have "x \<in> vclass ?R (?T f)" by simp
      then have "vclass ?R x = vclass ?R (?T f)" by (rule vclass_eq)
      then have "?T f \<in> set vis" using coll_inv_class [OF I x(1)] by auto
      with False show False ..
    qed
    have run: "collapse_component c st = Inr (cs @ [?u], uset_insert_all ?u vis, P1)"
      unfolding st collapse_component_def prod.case f list.case T1 Let_def using False map_T f by simp
    have "\<exists>v \<in> sets_in P. set ?u = vclass ?R v" using u(1) cl fl by (auto simp: dg_values_def)
    moreover have "distinct (concat (cs @ [?u]))" using I disj u(2) unfolding coll_inv_def prod.case by auto
    moreover have "set (uset_insert_all ?u vis) = set (concat (cs @ [?u]))" using I unfolding coll_inv_def prod.case by auto
    ultimately have "coll_inv P (cs @ [?u], uset_insert_all ?u vis, P1)"
      using I unfolding coll_inv_def prod.case by (simp del: concat_append set_uset_insert_all)
    with run show ?thesis by (auto simp: st)
  qed
qed

lemma collapse_from_ok:
  assumes it: "scc_iterator it" and wf: "dg_wf (pt_graph P)" and inv: "coll_inv P st" and n: "n \<in> set (allNodes (pt_graph P))"
  shows "\<exists>st'. collapse_from it n st = Inr st' \<and> coll_inv P st' \<and>
    insert (node_T (pt_graph P) n) (set (fst (snd st))) \<subseteq> set (fst (snd st'))"
proof -
  obtain cs vis P1 where st: "st = (cs, vis, P1)" by (cases st)
  from inv obtain x where x: "P1 = P\<lparr>pt_graph := (pt_graph P)\<lparr>entryNode := x\<rparr>\<rparr>"
    unfolding st coll_inv_def by auto
  show ?thesis
  proof (cases "node_T (pt_graph P) n \<in> set vis")
    case True
    then have "collapse_from it n st = Inr st" by (simp add: collapse_from_def st x)
    with inv True show ?thesis by (auto simp: st)
  next
    case False
    let ?g = "(pt_graph P)\<lparr>entryNode := Some n\<rparr>"
    let ?st = "(cs, vis, P\<lparr>pt_graph := ?g\<rparr>)"
    have g: "(pt_graph P1)\<lparr>entryNode := Some n\<rparr> = ?g" "P1\<lparr>pt_graph := ?g\<rparr> = P\<lparr>pt_graph := ?g\<rparr>"
      by (simp_all add: x)
    have inv1: "coll_inv P ?st" using inv unfolding st coll_inv_def by auto
    have wf': "dg_wf ?g" "n \<in> set (allNodes ?g)" using wf n by auto
    have "\<exists>st'. foldE collapse_component ds s0 = Inr st' \<and> coll_inv P st' \<and>
        set (fst (snd st')) = set (fst (snd s0)) \<union> node_T (pt_graph P) ` \<Union> (set ` set ds)"
      if "set ds \<subseteq> set (it ?g n)" "coll_inv P s0" for ds s0
      using that
    proof (induction ds arbitrary: s0)
      case (Cons d ds)
      then have "d \<noteq> [] \<and> set d \<subseteq> set (allNodes (pt_graph P)) \<and> (\<forall>x \<in> set d. set d = class_of (pt_graph P) x)"
        using scc_iterator.component [OF it wf', of d] by auto
      then obtain s1 where s1: "collapse_component d s0 = Inr s1" "coll_inv P s1"
        "set (fst (snd s1)) = set (fst (snd s0)) \<union> node_T (pt_graph P) ` set d"
        using collapse_component_ok [OF wf Cons.prems(2)] by blast
      with Cons.IH [OF _ s1(2)] Cons.prems(1) show ?case by (auto simp: image_Un)
    qed simp
    from this [OF subset_refl inv1] obtain st' where st': "foldE collapse_component (it ?g n) ?st = Inr st'" "coll_inv P st'"
      "set (fst (snd st')) = set vis \<union> node_T (pt_graph P) ` \<Union> (set ` set (it ?g n))" by auto
    obtain d where "d \<in> set (it ?g n)" "n \<in> set d" using scc_iterator.covers [OF it wf', of n] by auto
    then have "insert (node_T (pt_graph P) n) (set vis) \<subseteq> set (fst (snd st'))" unfolding st'(3) by blast
    moreover have "collapse_from it n st = Inr st'"
      using False st'(1) by (simp add: collapse_from_def st x Let_def)
    ultimately show ?thesis using st'(2) by (auto simp: st)
  qed
qed

lemma all_classes:
  assumes it: "scc_iterator it" and wf: "dg_wf (pt_graph P)"
  shows "\<exists>cs vis P1. foldE (collapse_from it) (allNodes (pt_graph P)) ([], [], P) = Inr (cs, vis, P1) \<and>
    coll_inv P (cs, vis, P1) \<and> set vis = sets_in P"
proof -
  have "\<exists>st'. foldE (collapse_from it) ns st = Inr st' \<and> coll_inv P st' \<and>
      node_T (pt_graph P) ` set ns \<union> set (fst (snd st)) \<subseteq> set (fst (snd st'))"
    if "set ns \<subseteq> set (allNodes (pt_graph P))" "coll_inv P st" for ns st
    using that
  proof (induction ns arbitrary: st)
    case (Cons n ns)
    then obtain s1 where s1: "collapse_from it n st = Inr s1" "coll_inv P s1"
      "insert (node_T (pt_graph P) n) (set (fst (snd st))) \<subseteq> set (fst (snd s1))"
      using collapse_from_ok [OF it wf Cons.prems(2), of n] by auto
    from Cons.IH [OF _ s1(2)] Cons.prems(1) obtain st' where
      "foldE (collapse_from it) ns s1 = Inr st'" "coll_inv P st'"
      "node_T (pt_graph P) ` set ns \<union> set (fst (snd s1)) \<subseteq> set (fst (snd st'))" by auto
    with s1 show ?case by auto
  qed simp
  moreover have "coll_inv P ([], [], P)"
    unfolding coll_inv_def by (simp, intro exI [of _ "entryNode (pt_graph P)"]) simp
  ultimately obtain st where st: "foldE (collapse_from it) (allNodes (pt_graph P)) ([], [], P) = Inr st" "coll_inv P st"
    "node_T (pt_graph P) ` set (allNodes (pt_graph P)) \<subseteq> set (fst (snd st))" by (metis le_sup_iff subset_refl)
  obtain cs vis P1 where e: "st = (cs, vis, P1)" by (cases st)
  have "set c \<subseteq> sets_in P" if "c \<in> set cs" for c
  proof
    fix u assume u: "u \<in> set c"
    from that st(2) obtain v where v: "v \<in> sets_in P" "set c = vclass (set_arrows P) v" unfolding e coll_inv_def by blast
    with u have "(v, u) \<in> (set_arrows P)\<^sup>*" by (simp add: vclass_def)
    then show "u \<in> sets_in P" by induction (use v(1) dg_arrows_values [OF wf] in auto)
  qed
  then have "set vis = sets_in P" using st(2,3) unfolding e coll_inv_def by (auto simp: dg_values_def)
  with st e show ?thesis by blast
qed

section \<open>Collapsing: one merge after the other\<close>

text \<open>\<open>q\<close> says which set of \<open>P'\<close> a set of \<open>P\<close> has become; \<open>E u v\<close> which sets have become one.\<close>

definition quotient_by :: "(ptr \<Rightarrow> ptr) \<Rightarrow> (ptr \<Rightarrow> ptr \<Rightarrow> bool) \<Rightarrow> 'r scc_partition \<Rightarrow> 'r scc_partition \<Rightarrow> bool" where
  "quotient_by q E P P' \<longleftrightarrow> q ` sets_in P = sets_in P' \<and>
     (\<forall>u \<in> sets_in P. \<forall>v \<in> sets_in P. q u = q v \<longleftrightarrow> u = v \<or> E u v) \<and>
     (\<forall>u \<in> sets_in P. (\<forall>v \<in> sets_in P. E u v \<longrightarrow> u = v) \<longrightarrow> q u = u) \<and>
     (\<forall>s \<in> sets_in P'. smem P' s = (\<Union>v \<in> {v \<in> sets_in P. q v = s}. smem P v)) \<and>
     set_arrows P' - Id = {(q a, q b) |a b. (a, b) \<in> set_arrows P} - Id \<and>
     (\<forall>s. (s, s) \<in> set_arrows P' \<longrightarrow> (s, s) \<in> set_arrows P) \<and>
     set_next P \<le> set_next P' \<and> (\<forall>s \<in> sets_in P'. s \<in> sets_in P \<or> set_next P \<le> s)"

lemma quotient_byD:
  assumes "quotient_by q E P P'"
  shows "q ` sets_in P = sets_in P'"
    "u \<in> sets_in P \<Longrightarrow> v \<in> sets_in P \<Longrightarrow> q u = q v \<longleftrightarrow> u = v \<or> E u v"
    "u \<in> sets_in P \<Longrightarrow> (\<And>v. v \<in> sets_in P \<Longrightarrow> E u v \<Longrightarrow> u = v) \<Longrightarrow> q u = u"
    "s \<in> sets_in P' \<Longrightarrow> smem P' s = (\<Union>v \<in> {v \<in> sets_in P. q v = s}. smem P v)"
    "set_arrows P' - Id = {(q a, q b) |a b. (a, b) \<in> set_arrows P} - Id"
    "(s, s) \<in> set_arrows P' \<Longrightarrow> (s, s) \<in> set_arrows P"
    "set_next P \<le> set_next P'" "s \<in> sets_in P' \<Longrightarrow> s \<in> sets_in P \<or> set_next P \<le> s"
proof -
  note Q = assms [unfolded quotient_by_def]
  show "q ` sets_in P = sets_in P'" by (rule Q [THEN conjunct1])
  show "q u = q v \<longleftrightarrow> u = v \<or> E u v" if "u \<in> sets_in P" "v \<in> sets_in P"
    by (rule Q [THEN conjunct2, THEN conjunct1, rule_format, OF that])
  show "q u = u" if "u \<in> sets_in P" "\<And>v. v \<in> sets_in P \<Longrightarrow> E u v \<Longrightarrow> u = v"
    by (rule Q [THEN conjunct2, THEN conjunct2, THEN conjunct1, rule_format, OF that])
  show "smem P' s = (\<Union>v \<in> {v \<in> sets_in P. q v = s}. smem P v)" if "s \<in> sets_in P'"
    by (rule Q [THEN conjunct2, THEN conjunct2, THEN conjunct2, THEN conjunct1, rule_format, OF that])
  show "set_arrows P' - Id = {(q a, q b) |a b. (a, b) \<in> set_arrows P} - Id"
    by (rule Q [THEN conjunct2, THEN conjunct2, THEN conjunct2, THEN conjunct2, THEN conjunct1])
  show "(s, s) \<in> set_arrows P" if "(s, s) \<in> set_arrows P'"
    by (rule Q [THEN conjunct2, THEN conjunct2, THEN conjunct2, THEN conjunct2, THEN conjunct2, THEN conjunct1, rule_format, OF that])
  show "set_next P \<le> set_next P'"
    by (rule Q [THEN conjunct2, THEN conjunct2, THEN conjunct2, THEN conjunct2, THEN conjunct2, THEN conjunct2, THEN conjunct1])
  show "s \<in> sets_in P \<or> set_next P \<le> s" if "s \<in> sets_in P'"
    by (rule Q [THEN conjunct2, THEN conjunct2, THEN conjunct2, THEN conjunct2, THEN conjunct2, THEN conjunct2, THEN conjunct2,
          rule_format, OF that])
qed

lemma quotient_byI:
  assumes "q ` sets_in P = sets_in P'"
    and "\<And>u v. u \<in> sets_in P \<Longrightarrow> v \<in> sets_in P \<Longrightarrow> q u = q v \<longleftrightarrow> u = v \<or> E u v"
    and "\<And>u. u \<in> sets_in P \<Longrightarrow> \<forall>v \<in> sets_in P. E u v \<longrightarrow> u = v \<Longrightarrow> q u = u"
    and "\<And>s. s \<in> sets_in P' \<Longrightarrow> smem P' s = (\<Union>v \<in> {v \<in> sets_in P. q v = s}. smem P v)"
    and "set_arrows P' - Id = {(q a, q b) |a b. (a, b) \<in> set_arrows P} - Id"
    and "\<And>s. (s, s) \<in> set_arrows P' \<Longrightarrow> (s, s) \<in> set_arrows P"
    and "set_next P \<le> set_next P'" and "\<And>s. s \<in> sets_in P' \<Longrightarrow> s \<in> sets_in P \<or> set_next P \<le> s"
  shows "quotient_by q E P P'"
  unfolding quotient_by_def by (intro conjI ballI allI impI; rule assms; assumption)

lemma quotient_cong:
  assumes q: "quotient_by q E P P'"
    and E: "\<And>u v. u \<in> sets_in P \<Longrightarrow> v \<in> sets_in P \<Longrightarrow> u \<noteq> v \<Longrightarrow> E u v \<longleftrightarrow> E' u v"
  shows "quotient_by q E' P P'"
proof (rule quotient_byI)
  note qd = quotient_byD [OF q]
  show "q u = q v \<longleftrightarrow> u = v \<or> E' u v" if "u \<in> sets_in P" "v \<in> sets_in P" for u v
    using qd(2) [OF that] E [OF that] by auto
  show "q u = u" if u: "u \<in> sets_in P" and alone: "\<forall>v \<in> sets_in P. E' u v \<longrightarrow> u = v" for u
  proof (rule qd(3) [OF u])
    show "u = v" if "v \<in> sets_in P" "E u v" for v using E [OF u that(1)] alone that by auto
  qed
  show "q ` sets_in P = sets_in P'" by (rule qd(1))
  show "smem P' s = (\<Union>v \<in> {v \<in> sets_in P. q v = s}. smem P v)" if "s \<in> sets_in P'" for s by (rule qd(4) [OF that])
  show "set_arrows P' - Id = {(q a, q b) |a b. (a, b) \<in> set_arrows P} - Id" by (rule qd(5))
  show "(s, s) \<in> set_arrows P" if "(s, s) \<in> set_arrows P'" for s by (rule qd(6) [OF that])
  show "set_next P \<le> set_next P'" by (rule qd(7))
  show "s \<in> sets_in P \<or> set_next P \<le> s" if "s \<in> sets_in P'" for s by (rule qd(8) [OF that])
qed

lemma quotient_id:
  assumes "\<And>u v. u \<in> sets_in P \<Longrightarrow> v \<in> sets_in P \<Longrightarrow> E u v \<Longrightarrow> u = v"
  shows "quotient_by id E P P"
  by (rule quotient_byI) (use assms in auto)

lemma quotient_trans:
  assumes q: "quotient_by q E P Q" and r: "quotient_by r F Q Q'"
    and RV: "set_arrows P \<subseteq> sets_in P \<times> sets_in P"
  shows "quotient_by (r \<circ> q) (\<lambda>u v. E u v \<or> F (q u) (q v)) P Q'"
proof -
  note qd = quotient_byD [OF q] and rd = quotient_byD [OF r]
  have qv: "q v \<in> sets_in Q" if "v \<in> sets_in P" for v using qd(1) that by blast
  have 1: "(r \<circ> q) ` sets_in P = sets_in Q'" unfolding rd(1) [symmetric] qd(1) [symmetric] by (rule image_comp [symmetric])
  have 2: "(r \<circ> q) u = (r \<circ> q) v \<longleftrightarrow> u = v \<or> E u v \<or> F (q u) (q v)"
    if "u \<in> sets_in P" "v \<in> sets_in P" for u v
    using qd(2) [OF that] rd(2) [OF qv qv] that by auto
  have 3: "(r \<circ> q) u = u" if u: "u \<in> sets_in P" and alone: "\<forall>v \<in> sets_in P. E u v \<or> F (q u) (q v) \<longrightarrow> u = v" for u
  proof -
    have "q u = u" using qd(3) [OF u] alone by blast
    moreover have "r (q u) = q u"
    proof (rule rd(3) [OF qv [OF u]])
      fix w assume w: "w \<in> sets_in Q" "F (q u) w"
      then obtain v where "v \<in> sets_in P" "w = q v" using qd(1) by blast
      with alone w show "q u = w" by blast
    qed
    ultimately show ?thesis by simp
  qed
  have 4: "smem Q' s = (\<Union>v \<in> {v \<in> sets_in P. (r \<circ> q) v = s}. smem P v)" if s: "s \<in> sets_in Q'" for s
  proof -
    have "smem Q' s = (\<Union>w \<in> {w \<in> sets_in Q. r w = s}. smem Q w)" by (rule rd(4) [OF s])
    also have "\<dots> = (\<Union>w \<in> {w \<in> sets_in Q. r w = s}. \<Union>v \<in> {v \<in> sets_in P. q v = w}. smem P v)"
      using qd(4) by (intro SUP_cong) auto
    also have "\<dots> = (\<Union>v \<in> {v \<in> sets_in P. (r \<circ> q) v = s}. smem P v)" using qv by auto
    finally show ?thesis .
  qed
  have 5: "set_arrows Q' - Id = {((r \<circ> q) a, (r \<circ> q) b) |a b. (a, b) \<in> set_arrows P} - Id"
  proof (intro set_eqI iffI)
    fix p assume "p \<in> set_arrows Q' - Id"
    then obtain x y where xy: "p = (r x, r y)" "(x, y) \<in> set_arrows Q" "r x \<noteq> r y" unfolding rd(5) by auto
    then have "(x, y) \<in> set_arrows Q - Id" by auto
    then obtain a b where "x = q a" "y = q b" "(a, b) \<in> set_arrows P" unfolding qd(5) by auto
    with xy show "p \<in> {((r \<circ> q) a, (r \<circ> q) b) |a b. (a, b) \<in> set_arrows P} - Id" by auto
  next
    fix p assume "p \<in> {((r \<circ> q) a, (r \<circ> q) b) |a b. (a, b) \<in> set_arrows P} - Id"
    then obtain a b where ab: "p = (r (q a), r (q b))" "(a, b) \<in> set_arrows P" "r (q a) \<noteq> r (q b)" by auto
    then have "(q a, q b) \<in> set_arrows Q - Id" unfolding qd(5) by auto
    with ab show "p \<in> set_arrows Q' - Id" unfolding rd(5) by auto
  qed
  show ?thesis
  proof (rule quotient_byI)
    show "(r \<circ> q) u = u" if "u \<in> sets_in P" "\<forall>v \<in> sets_in P. E u v \<or> F (q u) (q v) \<longrightarrow> u = v" for u by (rule 3 [OF that])
    show "smem Q' s = (\<Union>v \<in> {v \<in> sets_in P. (r \<circ> q) v = s}. smem P v)" if "s \<in> sets_in Q'" for s by (rule 4 [OF that])
    show "(s, s) \<in> set_arrows P" if "(s, s) \<in> set_arrows Q'" for s by (rule qd(6) [OF rd(6) [OF that]])
    show "set_next P \<le> set_next Q'" using qd(7) rd(7) by simp
    show "s \<in> sets_in P \<or> set_next P \<le> s" if "s \<in> sets_in Q'" for s using rd(8) [OF that] qd(7) qd(8) [of s] by auto
  qed (rule 1 2 5; assumption)+
qed

lemma quotient_merge:
  assumes wf: "pt_wf P" and m: "merge_spec S P P'" and S: "S \<subseteq> sets_in P"
    and big: "S \<noteq> {}" "\<And>u. u \<in> S \<Longrightarrow> \<exists>v \<in> S. u \<noteq> v"
  shows "quotient_by (merged_into S (set_next P)) (\<lambda>u v. u \<in> S \<and> v \<in> S) P P'"
proof -
  let ?m = "set_next P" and ?q = "merged_into S (set_next P)"
  note M = m [unfolded merge_spec_def]
  have fresh: "?m \<notin> sets_in P" using pt_wfD(2) [OF wf] by blast
  have RV: "set_arrows P \<subseteq> sets_in P \<times> sets_in P" by (rule dg_arrows_values [OF clean_wf [OF pt_wfD(1) [OF wf]]])
  have vals: "?q ` sets_in P = sets_in P'" using M S big(1) by (auto simp: merged_into_def)
  have mem: "smem P' s = (\<Union>v \<in> {v \<in> sets_in P. ?q v = s}. smem P v)" if s: "s \<in> sets_in P'" for s
  proof (cases "s = ?m")
    case True
    have "{v \<in> sets_in P. ?q v = ?m} = S" using S fresh by (auto simp: merged_into_def)
    with True M show ?thesis by simp
  next
    case False
    then have sP: "s \<in> sets_in P - S" using s M by auto
    then have "{v \<in> sets_in P. ?q v = s} = {s}" using False by (auto simp: merged_into_def)
    with sP M show ?thesis by simp
  qed
  have arr: "set_arrows P' = {(?q a, ?q b) |a b. (a, b) \<in> set_arrows P \<and> \<not> (a \<in> S \<and> b \<in> S)}"
    by (rule M [THEN conjunct2, THEN conjunct2, THEN conjunct2, THEN conjunct2, THEN conjunct2])
  have off: "set_arrows P' - Id = {(?q a, ?q b) |a b. (a, b) \<in> set_arrows P} - Id"
    unfolding arr by (auto simp: merged_into_def)
  have self: "(s, s) \<in> set_arrows P" if "(s, s) \<in> set_arrows P'" for s
  proof -
    from that obtain a b where ab: "s = ?q a" "s = ?q b" "(a, b) \<in> set_arrows P" "\<not> (a \<in> S \<and> b \<in> S)"
      unfolding arr by blast
    have "a \<in> sets_in P" "b \<in> sets_in P" using RV ab(3) by auto
    with ab fresh show ?thesis by (auto simp: merged_into_def split: if_splits)
  qed
  have eq: "?q u = ?q v \<longleftrightarrow> u = v \<or> u \<in> S \<and> v \<in> S" if "u \<in> sets_in P" "v \<in> sets_in P" for u v
    using fresh that by (auto simp: merged_into_def)
  have alone: "?q u = u" if "u \<in> sets_in P" "\<forall>v \<in> sets_in P. u \<in> S \<and> v \<in> S \<longrightarrow> u = v" for u
  proof -
    have "u \<notin> S" using that(2) big(2) [of u] S by blast
    then show ?thesis by (simp add: merged_into_def)
  qed
  show ?thesis
  proof (rule quotient_byI)
    show "?q u = u" if "u \<in> sets_in P" "\<forall>v \<in> sets_in P. u \<in> S \<and> v \<in> S \<longrightarrow> u = v" for u by (rule alone [OF that])
    show "smem P' s = (\<Union>v \<in> {v \<in> sets_in P. ?q v = s}. smem P v)" if "s \<in> sets_in P'" for s by (rule mem [OF that])
    show "?q u = ?q v \<longleftrightarrow> u = v \<or> u \<in> S \<and> v \<in> S" if "u \<in> sets_in P" "v \<in> sets_in P" for u v by (rule eq [OF that])
    show "(s, s) \<in> set_arrows P" if "(s, s) \<in> set_arrows P'" for s by (rule self [OF that])
    show "set_next P \<le> set_next P'" using M by simp
    show "s \<in> sets_in P \<or> set_next P \<le> s" if "s \<in> sets_in P'" for s using M that by auto
  qed (rule vals off)+
qed

lemma length_two:
  assumes "distinct c" "length c > 1" "u \<in> set c"
  shows "\<exists>v \<in> set c. u \<noteq> v"
proof (rule ccontr)
  assume "\<not> (\<exists>v \<in> set c. u \<noteq> v)"
  then have "set c \<subseteq> {u}" by (intro subsetI) simp
  then have "card (set c) \<le> card {u}" by (intro card_mono) auto
  then show False using distinct_card [OF assms(1)] assms(2) by simp
qed

lemma collapse_loop:
  assumes "pt_wf P" and "distinct (concat cs)" and "set (concat cs) \<subseteq> sets_in P"
  shows "\<exists>P' q. foldE (\<lambda>c P. if length c > 1 then mergeSets c P else Inr P) cs P = Inr P' \<and> pt_wf P' \<and>
    quotient_by q (\<lambda>u v. \<exists>c \<in> set cs. u \<in> set c \<and> v \<in> set c) P P'"
  using assms
proof (induction cs arbitrary: P)
  case Nil
  have "quotient_by id (\<lambda>u v. \<exists>c \<in> set []. u \<in> set c \<and> v \<in> set c) P P" by (rule quotient_id) auto
  moreover have "foldE (\<lambda>c P. if length c > 1 then mergeSets c P else Inr P) [] P = Inr P" by simp
  ultimately show ?case using Nil.prems(1) by blast
next
  case (Cons c cs)
  have c: "distinct c" "set c \<subseteq> sets_in P" "set c \<inter> set (concat cs) = {}" "distinct (concat cs)" "set (concat cs) \<subseteq> sets_in P"
    using Cons.prems(2,3) by auto
  show ?case
  proof (cases "length c > 1")
    case False
    from Cons.IH [OF Cons.prems(1) c(4,5)] obtain P' q where k: "foldE (\<lambda>c P. if length c > 1 then mergeSets c P else Inr P) cs P = Inr P'"
      "pt_wf P'" "quotient_by q (\<lambda>u v. \<exists>c \<in> set cs. u \<in> set c \<and> v \<in> set c) P P'" by blast
    have "u = v" if "u \<in> set c" "v \<in> set c" for u v using False that by (cases c; cases "tl c") auto
    then have "quotient_by q (\<lambda>u v. \<exists>c \<in> set (c # cs). u \<in> set c \<and> v \<in> set c) P P'"
      by (intro quotient_cong [OF k(3)]) auto
    with k(1,2) False show ?thesis by (intro exI [of _ P'] exI [of _ q]) simp
  next
    case True
    then have ne: "c \<noteq> []" by auto
    obtain P1 where P1: "mergeSets c P = Inr P1" "merge_spec (set c) P P1"
      using mergeSets_ok [OF Cons.prems(1) c(1) ne c(2)] by blast
    let ?m = "set_next P" and ?q = "merged_into (set c) (set_next P)"
    have fresh: "?m \<notin> sets_in P" using pt_wfD(2) [OF Cons.prems(1)] by blast
    have wf1: "pt_wf P1" and v1: "sets_in P1 = insert ?m (sets_in P - set c)" using P1(2) by (simp_all add: merge_spec_def)
    have "set (concat cs) \<subseteq> sets_in P1" using c(3,5) v1 by auto
    from Cons.IH [OF wf1 c(4) this] obtain P' r where k: "foldE (\<lambda>c P. if length c > 1 then mergeSets c P else Inr P) cs P1 = Inr P'"
      "pt_wf P'" "quotient_by r (\<lambda>u v. \<exists>c \<in> set cs. u \<in> set c \<and> v \<in> set c) P1 P'" by blast
    have q1: "quotient_by ?q (\<lambda>u v. u \<in> set c \<and> v \<in> set c) P P1"
      using quotient_merge [OF Cons.prems(1) P1(2) c(2)] ne length_two [OF c(1) True] by auto
    have RV: "set_arrows P \<subseteq> sets_in P \<times> sets_in P"
      by (rule dg_arrows_values [OF clean_wf [OF pt_wfD(1) [OF Cons.prems(1)]]])
    have mem: "?q u \<in> set d \<longleftrightarrow> u \<in> set d" if "d \<in> set cs" for u d
    proof -
      have "?m \<notin> set d" "set c \<inter> set d = {}" using that c(3,5) fresh by auto
      then show ?thesis by (auto simp: merged_into_def)
    qed
    have "quotient_by (r \<circ> ?q) (\<lambda>u v. \<exists>c \<in> set (c # cs). u \<in> set c \<and> v \<in> set c) P P'"
      by (rule quotient_cong [OF quotient_trans [OF q1 k(3) RV]]) (use mem in auto)
    moreover have "foldE (\<lambda>c P. if length c > 1 then mergeSets c P else Inr P) (c # cs) P = Inr P'"
      using P1(1) True k(1) by simp
    ultimately show ?thesis using k(2) by blast
  qed
qed

text \<open>A quotient by mutual reachability has no cycle but self arrows.\<close>

lemma quotient_acyclic:
  assumes q: "quotient_by q (\<lambda>u v. (u, v) \<in> (set_arrows P)\<^sup>* \<and> (v, u) \<in> (set_arrows P)\<^sup>*) P P'"
    and RV: "set_arrows P \<subseteq> sets_in P \<times> sets_in P"
  shows "acyclic (set_arrows P' - Id)"
  unfolding acyclic_def
proof (intro allI notI)
  let ?R = "set_arrows P" and ?E = "set_arrows P' - Id"
  note qd = quotient_byD [OF q]
  have join: "(u, v) \<in> ?R\<^sup>*" if "u \<in> sets_in P" "v \<in> sets_in P" "q u = q v" for u v
    using qd(2) [OF that(1,2)] that(3) by auto
  have lift: "(a, b) \<in> ?R\<^sup>*" if "(s, t) \<in> ?E\<^sup>+" "a \<in> sets_in P" "q a = s" "b \<in> sets_in P" "q b = t" for s t a b
    using that
  proof (induction arbitrary: b rule: trancl_induct)
    case (base t)
    then obtain c d where cd: "s = q c" "t = q d" "(c, d) \<in> ?R" unfolding qd(5) by blast
    have "c \<in> sets_in P" "d \<in> sets_in P" using RV cd(3) by auto
    then have "(a, c) \<in> ?R\<^sup>*" "(d, b) \<in> ?R\<^sup>*" using join base cd by auto
    with cd(3) show ?case by (meson rtrancl.rtrancl_into_rtrancl rtrancl_trans)
  next
    case (step t t')
    then obtain c d where cd: "t = q c" "t' = q d" "(c, d) \<in> ?R" unfolding qd(5) by blast
    have v: "c \<in> sets_in P" "d \<in> sets_in P" using RV cd(3) by auto
    then have "(a, c) \<in> ?R\<^sup>*" "(d, b) \<in> ?R\<^sup>*" using step.IH [of c] join step.prems cd by auto
    with cd(3) show ?case by (meson rtrancl.rtrancl_into_rtrancl rtrancl_trans)
  qed
  fix s assume "(s, s) \<in> ?E\<^sup>+"
  then obtain t where t: "(s, t) \<in> ?E" "(t, s) \<in> ?E\<^sup>*" by (meson tranclD)
  then have st: "s \<noteq> t" and ts: "(t, s) \<in> ?E\<^sup>+" by (auto simp: rtrancl_eq_or_trancl)
  obtain a b where ab: "s = q a" "t = q b" "(a, b) \<in> ?R" using t(1) unfolding qd(5) by blast
  have v: "a \<in> sets_in P" "b \<in> sets_in P" using RV ab(3) by auto
  have "(b, a) \<in> ?R\<^sup>*" using lift [OF ts v(2) _ v(1)] ab by simp
  with ab(3) qd(2) [OF v] have "q a = q b" by auto
  with ab st show False by simp
qed

definition collapse_spec :: "'r scc_partition \<Rightarrow> 'r scc_partition \<Rightarrow> bool" where
  "collapse_spec P P' \<longleftrightarrow> pt_wf P' \<and> acyclic (set_arrows P' - Id) \<and>
     (\<exists>q. quotient_by q (\<lambda>u v. (u, v) \<in> (set_arrows P)\<^sup>* \<and> (v, u) \<in> (set_arrows P)\<^sup>*) P P')"

lemma collapse_ok:
  assumes it: "scc_iterator it" and wf: "pt_wf P"
  shows "\<exists>P'. collapseCycles it P = Inr P' \<and> collapse_spec P P'"
proof -
  note g = clean_wf [OF pt_wfD(1) [OF wf]]
  have RV: "set_arrows P \<subseteq> sets_in P \<times> sets_in P" by (rule dg_arrows_values [OF g])
  obtain cs vis P1 where 1: "foldE (collapse_from it) (allNodes (pt_graph P)) ([], [], P) = Inr (cs, vis, P1)"
    "coll_inv P (cs, vis, P1)" "set vis = sets_in P"
    using all_classes [OF it g] by blast
  note I = 1(2) [unfolded coll_inv_def prod.case]
  obtain x where x: "P1 = P\<lparr>pt_graph := (pt_graph P)\<lparr>entryNode := x\<rparr>\<rparr>" using I by blast
  have wf1: "pt_wf P1" using wf by (simp add: pt_wf_def x smem_def)
  have "distinct (concat cs)" "set (concat cs) \<subseteq> sets_in P1" using I 1(3) by (auto simp: x)
  from collapse_loop [OF wf1 this] obtain P' q where k:
    "foldE (\<lambda>c P. if length c > 1 then mergeSets c P else Inr P) cs P1 = Inr P'" "pt_wf P'"
    "quotient_by q (\<lambda>u v. \<exists>c \<in> set cs. u \<in> set c \<and> v \<in> set c) P1 P'" by blast
  have same: "quotient_by q E P1 P' = quotient_by q E P P'" for E by (simp add: quotient_by_def x smem_def)
  have E: "(\<exists>c \<in> set cs. u \<in> set c \<and> v \<in> set c) \<longleftrightarrow> (u, v) \<in> (set_arrows P)\<^sup>* \<and> (v, u) \<in> (set_arrows P)\<^sup>*"
    if "u \<in> sets_in P" for u v
  proof
    assume "\<exists>c \<in> set cs. u \<in> set c \<and> v \<in> set c"
    then obtain c w where "set c = vclass (set_arrows P) w" "u \<in> set c" "v \<in> set c" using I by blast
    then show "(u, v) \<in> (set_arrows P)\<^sup>* \<and> (v, u) \<in> (set_arrows P)\<^sup>*" by (auto simp: vclass_def)
  next
    assume uv: "(u, v) \<in> (set_arrows P)\<^sup>* \<and> (v, u) \<in> (set_arrows P)\<^sup>*"
    have "u \<in> set (concat cs)" using that 1(3) I by simp
    then obtain c where c: "c \<in> set cs" "u \<in> set c" by auto
    then obtain w where w: "set c = vclass (set_arrows P) w" using I by blast
    have "vclass (set_arrows P) u = set c" using vclass_eq [of u] c(2) w by auto
    with uv c show "\<exists>c \<in> set cs. u \<in> set c \<and> v \<in> set c" by (auto simp: vclass_def)
  qed
  have q: "quotient_by q (\<lambda>u v. (u, v) \<in> (set_arrows P)\<^sup>* \<and> (v, u) \<in> (set_arrows P)\<^sup>*) P P'"
    by (rule quotient_cong [OF k(3) [unfolded same]]) (use E in auto)
  have "collapseCycles it P = Inr P'" using 1(1) k(1) by (simp add: collapseCycles_def)
  with k(2) q quotient_acyclic [OF q RV] show ?thesis by (auto simp: collapse_spec_def)
qed

section \<open>Construction\<close>

lemma map_of_fold_map_insert:
  "map_of (fold (\<lambda>k. map_insert k a) ks m) x =
     (case map_of m x of Some y \<Rightarrow> Some y | None \<Rightarrow> if x \<in> set ks then Some a else None)"
  by (induction ks arbitrary: m) (auto simp: map_insert_def map_add_def split: option.splits)

lemma dg_empty [simp]: "dg_values empty_dg = {}" "dg_arrows empty_dg = {}"
  by (simp_all add: dg_values_def dg_arrows_def empty_dg_def)

lemma pt_wf_empty [simp]: "pt_wf empty_partition" "sets_in empty_partition = {}" "set_arrows empty_partition = {}"
  by (simp_all add: pt_wf_def empty_partition_def)

lemma addInitialSet_ok:
  assumes wf: "pt_wf P" and xs: "xs \<noteq> []" "\<And>x. x \<in> set xs \<Longrightarrow> map_of (sccToSetMap P) x = None"
  defines "Q \<equiv> addInitialSet xs P"
  shows "pt_wf Q" "sets_in Q = insert (set_next P) (sets_in P)" "set_arrows Q = set_arrows P" "set_next Q = Suc (set_next P)"
    "map_of (sccToSetMap Q) x = (if x \<in> set xs then Some (set_next P) else map_of (sccToSetMap P) x)"
proof -
  let ?m = "set_next P"
  note pw = pt_wfD [OF wf]
  have fresh: "?m \<notin> sets_in P" using pw(2) by blast
  obtain g n where a: "addNode (pt_graph P) ?m True = (g, n)" by fastforce
  note ac = addNode_clean [OF pw(1) fresh a]
  have Q: "pt_graph Q = g" "set_next Q = Suc ?m" "set_mem Q = (set_mem P)(?m := Some xs)"
    by (simp_all add: Q_def addInitialSet_def Let_def a)
  show M: "map_of (sccToSetMap Q) x = (if x \<in> set xs then Some ?m else map_of (sccToSetMap P) x)" for x
    using xs(2) by (auto simp: Q_def addInitialSet_def Let_def map_of_fold_map_insert split: option.splits)
  show v: "sets_in Q = insert ?m (sets_in P)" unfolding Q(1) by (rule ac(2))
  show "set_arrows Q = set_arrows P" using ac(3) by (simp add: Q(1) facts_arrows)
  show "set_next Q = Suc ?m" by (rule Q(2))
  have sm: "smem Q s = (if s = ?m then set xs else smem P s)" for s by (simp add: smem_def Q(3))
  show "pt_wf Q"
    unfolding pt_wf_def Q(2)
  proof (intro conjI ballI allI impI)
    show "clean (pt_graph Q)" using ac(1) Q(1) by simp
    show "s < Suc ?m" "smem Q s \<noteq> {}" if "s \<in> sets_in Q" for s
      using that pw(2,3) [of s] xs(1) unfolding v sm by auto
    show "set_mem Q s = None" if "s \<notin> sets_in Q" for s using that pw(4) unfolding v Q(3) by auto
    show "map_of (sccToSetMap Q) x = Some s \<longleftrightarrow> s \<in> sets_in Q \<and> x \<in> smem Q s" for x s
      using pw(5) [of x s] xs(2) [of x] fresh unfolding v sm M by auto
  qed
qed

lemma initial_sets_ok:
  assumes "pt_wf P" and "\<forall>xs \<in> set xss. xs \<noteq> []" and "distinct (concat xss)"
    and "\<And>x. x \<in> set (concat xss) \<Longrightarrow> map_of (sccToSetMap P) x = None"
  defines "Q \<equiv> fold addInitialSet xss P"
  shows "pt_wf Q \<and> sets_in Q = sets_in P \<union> {set_next P ..< set_next P + length xss} \<and> set_arrows Q = set_arrows P \<and>
    (\<forall>x i. i < length xss \<and> x \<in> set (xss ! i) \<longrightarrow> map_of (sccToSetMap Q) x = Some (set_next P + i)) \<and>
    (\<forall>x. x \<notin> set (concat xss) \<longrightarrow> map_of (sccToSetMap Q) x = map_of (sccToSetMap P) x)"
  using assms(1-4) unfolding Q_def
proof (induction xss arbitrary: P)
  case (Cons xs xss)
  let ?P = "addInitialSet xs P"
  have ne: "xs \<noteq> []" using Cons.prems(2) by simp
  note a = addInitialSet_ok [OF Cons.prems(1) ne Cons.prems(4)]
  have dis: "set xs \<inter> set (concat xss) = {}" using Cons.prems(3) by auto
  have IH: "pt_wf (fold addInitialSet xss ?P) \<and>
    sets_in (fold addInitialSet xss ?P) = sets_in ?P \<union> {set_next ?P ..< set_next ?P + length xss} \<and>
    set_arrows (fold addInitialSet xss ?P) = set_arrows ?P \<and>
    (\<forall>x i. i < length xss \<and> x \<in> set (xss ! i) \<longrightarrow> map_of (sccToSetMap (fold addInitialSet xss ?P)) x = Some (set_next ?P + i)) \<and>
    (\<forall>x. x \<notin> set (concat xss) \<longrightarrow> map_of (sccToSetMap (fold addInitialSet xss ?P)) x = map_of (sccToSetMap ?P) x)"
  proof (rule Cons.IH)
    show "pt_wf ?P" using a(1) by simp
    show "map_of (sccToSetMap ?P) x = None" if "x \<in> set (concat xss)" for x
      using that a(5) [of x] Cons.prems(4) [of x] dis by auto
  qed (use Cons.prems in auto)
  have "map_of (sccToSetMap (fold addInitialSet (xs # xss) P)) x = Some (set_next P + i)"
    if i: "i < length (xs # xss)" "x \<in> set ((xs # xss) ! i)" for x i
  proof (cases i)
    case 0
    then have x: "x \<in> set xs" using i by simp
    then have "x \<notin> set (concat xss)" using dis by blast
    then show ?thesis using IH a(5) [of x] x 0 by simp
  next
    case (Suc j)
    then have "j < length xss" "x \<in> set (xss ! j)" using i by simp_all
    then show ?thesis using IH a(4) Suc by simp
  qed
  moreover have "map_of (sccToSetMap (fold addInitialSet (xs # xss) P)) x = map_of (sccToSetMap P) x"
    if "x \<notin> set (concat (xs # xss))" for x using that IH a(5) [of x] by auto
  moreover have "sets_in (fold addInitialSet (xs # xss) P) = sets_in P \<union> {set_next P ..< set_next P + length (xs # xss)}"
    using IH a(2,4) by auto
  ultimately show ?case using IH a(3) by simp
qed simp

lemma pt_wf_evolved:
  assumes "pt_wf P" "evolved (pt_graph P) A h"
  shows "pt_wf (P\<lparr>pt_graph := h\<rparr>)"
  using assms by (auto simp: pt_wf_def evolved_def smem_def)

lemma link_parents:
  assumes "pt_wf P" and "sn \<in> set (allNodes (pt_graph P))" "node_T (pt_graph P) sn = t"
  shows "\<exists>h. foldE (\<lambda>parent P. case map_of (sccToSetMap P) parent of None \<Rightarrow> Inr P
             | Some parentSet \<Rightarrow> andThen (fetch_live (pt_graph P) parentSet) (\<lambda>(g, parentNode).
                 if length (fetchEdges g parentNode sn) \<noteq> 0 then Inr (P\<lparr>pt_graph := g\<rparr>)
                 else andThen (addEdge g parentSet t) (\<lambda>(g1, _). Inr (P\<lparr>pt_graph := g1\<rparr>)))) ps P = Inr (P\<lparr>pt_graph := h\<rparr>) \<and>
    evolved (pt_graph P) {(s, t) |s p. p \<in> set ps \<and> map_of (sccToSetMap P) p = Some s} h"
  using assms
proof (induction ps arbitrary: P)
  case Nil
  then show ?case using evolved_refl [OF pt_wfD(1) [OF Nil.prems(1)]] by (intro exI [of _ "pt_graph P"]) simp
next
  case (Cons p ps)
  let ?g = "pt_graph P" and ?M = "map_of (sccToSetMap P)"
  note c = pt_wfD(1) [OF Cons.prems(1)] note wf = clean_wf [OF c]
  show ?case
  proof (cases "?M p")
    case None
    then have "{(s, t) |s q. q \<in> set (p # ps) \<and> ?M q = Some s} = {(s, t) |s q. q \<in> set ps \<and> ?M q = Some s}" by auto
    with Cons.IH [OF Cons.prems] None show ?thesis by simp
  next
    case (Some s)
    then have sv: "s \<in> sets_in P" using pt_wfD(5) [OF Cons.prems(1)] by blast
    obtain n where n: "n \<in> set (allNodes ?g)" "node_T ?g n = s" "fetch_live ?g s = Inr (?g, n)" by (rule fetch_live_ok [OF c sv])
    have tv: "t \<in> sets_in P" using Cons.prems(2,3) by (auto simp: dg_values_def)
    have ex: "\<exists>h. (if length (fetchEdges ?g n sn) \<noteq> 0 then Inr (P\<lparr>pt_graph := ?g\<rparr>)
        else andThen (addEdge ?g s t) (\<lambda>(g1, _). Inr (P\<lparr>pt_graph := g1\<rparr>))) = Inr (P\<lparr>pt_graph := h\<rparr>) \<and> evolved ?g {(s, t)} h"
    proof (cases "fetchEdges ?g n sn = []")
      case True
      obtain h e where h: "addEdge ?g s t = Inr (h, e)" "evolved ?g {(s, t)} h" by (rule addEdge_evolved [OF c sv tv])
      with True show ?thesis by (intro exI [of _ h]) simp
    next
      case False
      then have "(s, t) \<in> dg_arrows ?g" using fetchEdges_none [OF wf n(1) Cons.prems(2)] n(2) Cons.prems(3) by simp
      with False c show ?thesis by (intro exI [of _ ?g]) (auto simp: evolved_def)
    qed
    then obtain h where h: "(if length (fetchEdges ?g n sn) \<noteq> 0 then Inr (P\<lparr>pt_graph := ?g\<rparr>)
        else andThen (addEdge ?g s t) (\<lambda>(g1, _). Inr (P\<lparr>pt_graph := g1\<rparr>))) = Inr (P\<lparr>pt_graph := h\<rparr>)" "evolved ?g {(s, t)} h"
      by blast
    let ?P = "P\<lparr>pt_graph := h\<rparr>"
    have "sn \<in> set (allNodes (pt_graph ?P))" "node_T (pt_graph ?P) sn = t"
      using Cons.prems(2,3) h(2) by (auto simp: evolved_def)
    from Cons.IH [OF pt_wf_evolved [OF Cons.prems(1) h(2)] this] obtain k where k:
      "foldE (\<lambda>parent P. case map_of (sccToSetMap P) parent of None \<Rightarrow> Inr P
             | Some parentSet \<Rightarrow> andThen (fetch_live (pt_graph P) parentSet) (\<lambda>(g, parentNode).
                 if length (fetchEdges g parentNode sn) \<noteq> 0 then Inr (P\<lparr>pt_graph := g\<rparr>)
                 else andThen (addEdge g parentSet t) (\<lambda>(g1, _). Inr (P\<lparr>pt_graph := g1\<rparr>)))) ps ?P = Inr (P\<lparr>pt_graph := k\<rparr>)"
      "evolved h {(s, t) |s p. p \<in> set ps \<and> ?M p = Some s} k" by auto
    have "{(s, t)} \<union> {(s, t) |s p. p \<in> set ps \<and> ?M p = Some s} = {(s, t) |s q. q \<in> set (p # ps) \<and> ?M q = Some s}"
      using Some by auto
    with evolved_trans [OF h(2) k(2)] k(1) h(1) n(3) Some show ?thesis by (intro exI [of _ k]) simp
  qed
qed

definition parent_arrows :: "'r scc_partition \<Rightarrow> (ptr \<times> ptr list) list \<Rightarrow> (ptr \<times> ptr) set" where
  "parent_arrows P m = {(s, t). \<exists>(c, ps) \<in> set m. map_of (sccToSetMap P) c = Some t \<and>
     (\<exists>p \<in> set ps. map_of (sccToSetMap P) p = Some s)}"

lemma addParentEdges_ok:
  assumes wf: "pt_wf P"
  shows "\<exists>h. addParentEdges x P = Inr (P\<lparr>pt_graph := h\<rparr>) \<and> evolved (pt_graph P) (parent_arrows P [x]) h"
proof -
  obtain c ps where x: "x = (c, ps)" by (cases x)
  let ?M = "map_of (sccToSetMap P)"
  show ?thesis
  proof (cases "?M c")
    case None
    then have "parent_arrows P [x] = {}" by (auto simp: parent_arrows_def x)
    then show ?thesis using None evolved_refl [OF pt_wfD(1) [OF wf]]
      by (intro exI [of _ "pt_graph P"]) (simp add: addParentEdges_def x)
  next
    case (Some t)
    then have tv: "t \<in> sets_in P" using pt_wfD(5) [OF wf] by blast
    obtain n where n: "n \<in> set (allNodes (pt_graph P))" "node_T (pt_graph P) n = t" "fetch_live (pt_graph P) t = Inr (pt_graph P, n)"
      by (rule fetch_live_ok [OF pt_wfD(1) [OF wf] tv])
    have "parent_arrows P [x] = {(s, t) |s p. p \<in> set ps \<and> ?M p = Some s}" using Some by (auto simp: parent_arrows_def x)
    with link_parents [OF wf n(1,2), of ps] show ?thesis by (simp add: addParentEdges_def x Some n(3))
  qed
qed

lemma addParents_ok:
  assumes "pt_wf P"
  shows "\<exists>h. foldE addParentEdges m P = Inr (P\<lparr>pt_graph := h\<rparr>) \<and> evolved (pt_graph P) (parent_arrows P m) h"
  using assms
proof (induction m arbitrary: P)
  case Nil
  have "parent_arrows P [] = {}" by (simp add: parent_arrows_def)
  then show ?case using evolved_refl [OF pt_wfD(1) [OF Nil]] by (intro exI [of _ "pt_graph P"]) simp
next
  case (Cons x m)
  obtain h where h: "addParentEdges x P = Inr (P\<lparr>pt_graph := h\<rparr>)" "evolved (pt_graph P) (parent_arrows P [x]) h"
    using addParentEdges_ok [OF Cons.prems] by blast
  from Cons.IH [OF pt_wf_evolved [OF Cons.prems h(2)]] obtain k where k:
    "foldE addParentEdges m (P\<lparr>pt_graph := h\<rparr>) = Inr (P\<lparr>pt_graph := k\<rparr>)" "evolved h (parent_arrows P m) k"
    by (auto simp: parent_arrows_def)
  have "parent_arrows P [x] \<union> parent_arrows P m = parent_arrows P (x # m)" by (auto simp: parent_arrows_def)
  with evolved_trans [OF h(2) k(2)] k(1) h(1) show ?case by (intro exI [of _ k]) simp
qed

end
