(* ===== verification/PartitionQueries.thy ===== *)
theory PartitionQueries
  imports PartitionCorrect
begin

text \<open>
  What the queries of the partition answer, in terms of its arrows: \<open>getDepthOrderedSets\<close> is a topological order when
  there is one, \<open>isAncestor\<close> decides reachability on an acyclic partition and does not return below a cycle,
  \<open>getDescendants\<close> and \<open>getAncestors\<close> are the reachable sets, and \<open>getCycleIntroducedByMerging\<close> predicts exactly what
  merging two sets and collapsing will put together.
\<close>

section \<open>Nodes by value\<close>

lemma live_node:
  assumes c: "clean g" and s: "s \<in> dg_values g"
  obtains n where "fetch_live g s = Inr (g, n)" "set (map (from_T g) (in_edges g n)) = {a. (a, s) \<in> dg_arrows g}"
    "set (map (to_T g) (out_edges g n)) = {b. (s, b) \<in> dg_arrows g}"
proof -
  obtain n where n: "n \<in> set (allNodes g)" "node_T g n = s" "fetch_live g s = Inr (g, n)" by (rule fetch_live_ok [OF c s])
  then show ?thesis using that [of n] in_values [OF clean_wf [OF c] n(1)] out_values [OF clean_wf [OF c] n(1)] by simp
qed

lemma dg_values_card:
  assumes wf: "dg_wf g"
  shows "card (dg_values g) = numNodes g"
proof -
  have "inj_on (node_T g) (set (allNodes g))" using wf_node_inj [OF wf] by (auto simp: inj_on_def)
  then have "card (dg_values g) = card (set (allNodes g))" by (simp add: dg_values_def card_image)
  with wf show ?thesis by (simp add: numNodes_def dg_wf_def edges_wf_def distinct_card)
qed

lemma finite_dg_values [simp]: "finite (dg_values g)"
  by (simp add: dg_values_def)

lemma dg_arrows_finite [simp]: "finite (dg_arrows g)"
  by (simp add: dg_arrows_def)

section \<open>Depth order\<close>

definition depth_inv :: "(ptr \<times> ptr) set \<Rightarrow> ptr set \<Rightarrow> depth_state \<Rightarrow> bool" where
  "depth_inv R V = (\<lambda>(ord, enc, todo). set enc = set ord \<and> distinct ord \<and> set ord \<subseteq> V \<and> set todo \<subseteq> V \<and>
     (\<forall>i < length ord. {a. (a, ord ! i) \<in> R} \<subseteq> set (take i ord)) \<and>
     (\<forall>s \<in> V. s \<notin> set ord \<longrightarrow> {a. (a, s) \<in> R} \<subseteq> set ord \<longrightarrow> s \<in> set todo))"

lemma depth_step_ok:
  assumes c: "clean g" and inv: "depth_inv (dg_arrows g) (dg_values g) (ord, enc, s # todo)"
  shows "\<exists>ord' enc' todo'. depth_step g (ord, enc, s # todo) = Inr (ord', enc', todo') \<and>
    depth_inv (dg_arrows g) (dg_values g) (ord', enc', todo') \<and>
    (ord' = ord \<and> todo' = todo \<or> length ord' = Suc (length ord) \<and> length ord < card (dg_values g))"
proof -
  let ?R = "dg_arrows g" and ?V = "dg_values g"
  note I = inv [unfolded depth_inv_def prod.case]
  have sV: "s \<in> ?V" and enc: "set enc = set ord" using I by simp_all
  obtain n where n: "fetch_live g s = Inr (g, n)" "set (map (from_T g) (in_edges g n)) = {a. (a, s) \<in> ?R}"
    "set (map (to_T g) (out_edges g n)) = {b. (s, b) \<in> ?R}"
    by (rule live_node [OF c sV])
  let ?kids = "map (to_T g) (out_edges g n)"
  have all: "(in_edges g n \<noteq> [] \<and> \<not> list_all (\<lambda>e. from_T g e \<in> set enc) (in_edges g n)) \<longleftrightarrow> \<not> {a. (a, s) \<in> ?R} \<subseteq> set ord"
    unfolding n(2) [symmetric] enc by (auto simp: list_all_iff)
  show ?thesis
  proof (cases "s \<in> set ord \<or> \<not> {a. (a, s) \<in> ?R} \<subseteq> set ord")
    case True
    then have "depth_step g (ord, enc, s # todo) = Inr (ord, enc, todo)"
      using all by (auto simp: depth_step_def n(1) enc)
    moreover have "depth_inv ?R ?V (ord, enc, todo)" using I True by (auto simp: depth_inv_def)
    ultimately show ?thesis by blast
  next
    case False
    then have new: "s \<notin> set ord" and par: "{a. (a, s) \<in> ?R} \<subseteq> set ord" by auto
    have run: "depth_step g (ord, enc, s # todo) = Inr (ord @ [s], uset_insert s enc, todo @ ?kids)"
      using all False by (simp add: depth_step_def n(1) enc)
    have "length ord < card ?V"
    proof -
      have "set ord \<subset> ?V" using I sV new by auto
      then have "card (set ord) < card ?V" by (intro psubset_card_mono) simp_all
      then show ?thesis using I distinct_card [of ord] by simp
    qed
    moreover have "depth_inv ?R ?V (ord @ [s], uset_insert s enc, todo @ ?kids)"
      unfolding depth_inv_def prod.case
    proof (intro conjI allI impI ballI)
      show "set (uset_insert s enc) = set (ord @ [s])" using enc by auto
      show "distinct (ord @ [s])" "set (ord @ [s]) \<subseteq> ?V" using I new by auto
      show "set (todo @ ?kids) \<subseteq> ?V" using I n(3) dg_arrows_values [OF clean_wf [OF c]] by auto
      show "{a. (a, (ord @ [s]) ! i) \<in> ?R} \<subseteq> set (take i (ord @ [s]))" if "i < length (ord @ [s])" for i
        using that I par by (auto simp: nth_append less_Suc_eq)
      show "t \<in> set (todo @ ?kids)" if t: "t \<in> ?V" "t \<notin> set (ord @ [s])" "{a. (a, t) \<in> ?R} \<subseteq> set (ord @ [s])" for t
      proof (cases "(s, t) \<in> ?R")
        case True
        then show ?thesis using n(3) by simp
      next
        case False
        then have "{a. (a, t) \<in> ?R} \<subseteq> set ord" using t(3) by auto
        moreover have "\<forall>s' \<in> ?V. s' \<notin> set ord \<longrightarrow> {a. (a, s') \<in> ?R} \<subseteq> set ord \<longrightarrow> s' \<in> set (s # todo)"
          using I by blast
        moreover have "t \<notin> set ord" using t(2) by simp
        ultimately have "t \<in> set (s # todo)" using t(1) by blast
        then show ?thesis using t(2) by auto
      qed
    qed
    ultimately show ?thesis using run by auto
  qed
qed

lemma depth_loop:
  assumes c: "clean g" and inv: "depth_inv (dg_arrows g) (dg_values g) st"
  shows "\<exists>ord enc. whileE (\<lambda>(_, _, todo). todo \<noteq> []) (depth_step g) st = Inr (ord, enc, []) \<and>
    depth_inv (dg_arrows g) (dg_values g) (ord, enc, [])"
proof -
  let ?D = "depth_inv (dg_arrows g) (dg_values g)"
  let ?r = "measures [\<lambda>(ord, _, _). card (dg_values g) - length ord, \<lambda>(_, _, todo). length todo]"
  have "\<exists>t. whileE (\<lambda>(_, _, todo). todo \<noteq> []) (depth_step g) st = Inr t \<and> ?D t \<and> \<not> (case t of (_, _, todo) \<Rightarrow> todo \<noteq> [])"
  proof (rule whileE_total [where R = ?r])
    fix st assume st: "?D st" "case st of (_, _, todo) \<Rightarrow> todo \<noteq> []"
    then obtain ord enc s todo where e: "st = (ord, enc, s # todo)" by (cases st) (auto simp: neq_Nil_conv)
    from depth_step_ok [OF c st(1) [unfolded e]] obtain ord' enc' todo' where
      "depth_step g (ord, enc, s # todo) = Inr (ord', enc', todo')" "?D (ord', enc', todo')"
      "ord' = ord \<and> todo' = todo \<or> length ord' = Suc (length ord) \<and> length ord < card (dg_values g)" by blast
    then show "\<exists>s'. depth_step g st = Inr s' \<and> ?D s' \<and> (s', st) \<in> ?r" by (auto simp: e)
  qed (simp_all add: inv)
  then show ?thesis by auto
qed

lemma order_acyclic:
  assumes "\<And>i. i < length ord \<Longrightarrow> {a. (a, ord ! i) \<in> R} \<subseteq> set (take i ord)" and R: "R \<subseteq> set ord \<times> set ord"
  shows "acyclic R"
proof -
  let ?f = "\<lambda>s. length (takeWhile (\<lambda>x. x \<noteq> s) ord)"
  have "?f a < ?f b" if "(a, b) \<in> R" for a b
  proof -
    have b: "b \<in> set ord" using that R by auto
    have i: "?f b < length ord" using b by (induction ord) auto
    then have "ord ! ?f b = b" using nth_length_takeWhile [of "\<lambda>x. x \<noteq> b" ord] by simp
    then have "a \<in> set (take (?f b) ord)" using assms(1) [OF i] that by auto
    then have "a \<in> set (takeWhile (\<lambda>x. x \<noteq> b) ord)" by (metis takeWhile_eq_take)
    then show ?thesis by (induction ord) (auto split: if_splits)
  qed
  then have "R \<subseteq> measure ?f" by auto
  then show ?thesis by (meson acyclic_subset wf_acyclic wf_measure)
qed

lemma roots_values:
  assumes c: "clean g" and s: "s \<in> dg_values g" "\<And>a. (a, s) \<in> dg_arrows g \<Longrightarrow> a = s"
  shows "s \<in> node_T g ` set (getTopLevelNodes g False)"
proof -
  obtain n where n: "n \<in> set (allNodes g)" "s = node_T g n" using s(1) by (auto simp: dg_values_def)
  note wf = clean_wf [OF c]
  have "edge_from g e = n" if e: "e \<in> set (in_edges g n)" for e
  proof -
    have ew: "edges_wf g" using wf by (simp add: dg_wf_def)
    have "from_T g e \<in> {a. (a, s) \<in> dg_arrows g}" using in_values [OF wf n(1)] e n(2) by auto
    then have "node_T g (edge_from g e) = node_T g n" using s(2) n(2) by auto
    moreover have "edge_from g e \<in> set (allNodes g)" using edges_wfD(5,8) [OF ew] n(1) e by auto
    ultimately show ?thesis using wf_node_inj [OF wf] n(1) by blast
  qed
  then have "n \<in> set (getTopLevelNodes g False)" using n(1) by (auto simp: getTopLevelNodes_def list_all_iff)
  with n(2) show ?thesis by blast
qed

lemma depth_start:
  assumes c: "clean g"
  shows "depth_inv (dg_arrows g) (dg_values g) ([], [], map (node_T g) (getTopLevelNodes g False))"
proof -
  have "set (getTopLevelNodes g False) \<subseteq> set (allNodes g)" by (auto simp: getTopLevelNodes_def)
  then show ?thesis
    unfolding depth_inv_def prod.case using roots_values [OF c] by (auto simp: dg_values_def)
qed

lemma acyclic_minimal:
  assumes "finite R" "acyclic R" "x \<in> Q"
  obtains z where "z \<in> Q" "\<And>y. (y, z) \<in> R \<Longrightarrow> y \<notin> Q"
  using finite_acyclic_wf [OF assms(1,2)] assms(3) by (metis wfE_min)

definition topological :: "(ptr \<times> ptr) set \<Rightarrow> ptr list \<Rightarrow> bool" where
  "topological R xs \<longleftrightarrow> distinct xs \<and> (\<forall>i < length xs. {a. (a, xs ! i) \<in> R} \<subseteq> set (take i xs))"

lemma depth_order_ok:
  assumes wf: "pt_wf P"
  shows "acyclic (set_arrows P) \<and> sets_in P \<noteq> {} \<Longrightarrow>
      \<exists>xs. getDepthOrderedSets P = Inr xs \<and> set xs = sets_in P \<and> topological (set_arrows P) xs"
    and "\<not> (acyclic (set_arrows P) \<and> sets_in P \<noteq> {}) \<Longrightarrow> getDepthOrderedSets P = Inl AssertFailed"
proof -
  let ?g = "pt_graph P" and ?R = "set_arrows P" and ?V = "sets_in P"
  note c = pt_wfD(1) [OF wf]
  note RV = dg_arrows_values [OF clean_wf [OF c]]
  let ?roots = "getTopLevelNodes ?g False"
  obtain ord enc where l: "whileE (\<lambda>(_, _, todo). todo \<noteq> []) (depth_step ?g) ([], [], map (node_T ?g) ?roots) = Inr (ord, enc, [])"
    "depth_inv ?R ?V (ord, enc, [])"
    using depth_loop [OF c depth_start [OF c]] by blast
  note I = l(2) [unfolded depth_inv_def prod.case]
  have run: "getDepthOrderedSets P = (if ?roots = [] then Inl AssertFailed
      else if length ord = numNodes ?g then Inr ord else Inl AssertFailed)"
    unfolding getDepthOrderedSets_def Let_def l(1) by (simp add: check_def)
  have len: "length ord = numNodes ?g \<longleftrightarrow> set ord = ?V"
  proof -
    have d: "distinct ord" "set ord \<subseteq> ?V" using I by blast+
    then show ?thesis
      using dg_values_card [OF clean_wf [OF c]] card_subset_eq [OF finite_dg_values d(2)] distinct_card [OF d(1)] by auto
  qed
  {
    assume a: "acyclic ?R \<and> ?V \<noteq> {}"
    obtain x where "x \<in> ?V" using a by auto
    then obtain z where z: "z \<in> ?V" "\<And>y. (y, z) \<in> ?R \<Longrightarrow> y \<notin> ?V" using acyclic_minimal [of ?R x ?V] a by auto
    then have "z \<in> node_T ?g ` set ?roots" using RV by (intro roots_values [OF c]) auto
    then have r: "?roots \<noteq> []" by auto
    have "set ord = ?V"
    proof (rule ccontr)
      assume "set ord \<noteq> ?V"
      then obtain y where "y \<in> ?V - set ord" using I by auto
      then obtain z where z: "z \<in> ?V - set ord" "\<And>y. (y, z) \<in> ?R \<Longrightarrow> y \<notin> ?V - set ord"
        using acyclic_minimal [of ?R y "?V - set ord"] a by auto
      then have "{a. (a, z) \<in> ?R} \<subseteq> set ord" using RV by auto
      with z(1) I show False by auto
    qed
    with run len r I show "\<exists>xs. getDepthOrderedSets P = Inr xs \<and> set xs = ?V \<and> topological ?R xs"
      by (auto simp: topological_def)
  }
  {
    assume a: "\<not> (acyclic ?R \<and> ?V \<noteq> {})"
    have "getDepthOrderedSets P = Inl AssertFailed \<or> ?roots \<noteq> [] \<and> set ord = ?V" using run len by auto
    moreover have False if "?roots \<noteq> []" "set ord = ?V"
    proof -
      have top: "\<forall>i < length ord. {a. (a, ord ! i) \<in> ?R} \<subseteq> set (take i ord)" using I by blast
      have "acyclic ?R"
      proof (rule order_acyclic)
        show "{a. (a, ord ! i) \<in> ?R} \<subseteq> set (take i ord)" if "i < length ord" for i by (rule top [rule_format, OF that])
      qed (simp add: RV that(2))
      moreover have "?V \<noteq> {}" using that(1) by (auto simp: getTopLevelNodes_def dg_values_def filter_empty_conv)
      ultimately show False using a by blast
    qed
    ultimately show "getDepthOrderedSets P = Inl AssertFailed" by blast
  }
qed

section \<open>Ancestors\<close>

definition anc_inv :: "(ptr \<times> ptr) set \<Rightarrow> ptr set \<Rightarrow> ptr \<Rightarrow> ptr \<Rightarrow> bool \<times> ptr list \<Rightarrow> bool" where
  "anc_inv R V A target = (\<lambda>(found, todo). set todo \<subseteq> V \<and>
     ((A, target) \<in> R\<^sup>+ \<longleftrightarrow> found \<or> (\<exists>t \<in> set todo. (A, t) \<in> R\<^sup>+)))"

lemma isAncestor_step_ok:
  assumes c: "clean g" and s: "s \<in> dg_values g"
  shows "\<exists>ps. set ps = {a. (a, s) \<in> dg_arrows g} \<and>
    isAncestor_step g A (False, s # todo) = Inr (if (A, s) \<in> dg_arrows g then (True, todo) else (False, todo @ ps))"
proof -
  obtain n where n: "fetch_live g s = Inr (g, n)" "set (map (from_T g) (in_edges g n)) = {a. (a, s) \<in> dg_arrows g}"
    by (rule live_node [OF c s])
  have "A \<in> set (map (from_T g) (in_edges g n)) \<longleftrightarrow> (A, s) \<in> dg_arrows g" unfolding n(2) by simp
  then show ?thesis using n by (intro exI [of _ "map (from_T g) (in_edges g n)"]) (simp add: isAncestor_step_def Let_def del: set_map)
qed

lemma trancl_last: "(a, b) \<in> R\<^sup>+ \<longleftrightarrow> (a, b) \<in> R \<or> (\<exists>p. (a, p) \<in> R\<^sup>+ \<and> (p, b) \<in> R)"
  by (meson trancl.simps)

lemma isAncestor_decides:
  assumes wf: "pt_wf P" and ac: "acyclic (set_arrows P)" and t: "target \<in> sets_in P"
  shows "isAncestor P A target = Inr ((A, target) \<in> (set_arrows P)\<^sup>+)"
proof -
  let ?R = "set_arrows P" and ?V = "sets_in P" and ?g = "pt_graph P"
  note c = pt_wfD(1) [OF wf]
  note RV = dg_arrows_values [OF clean_wf [OF c]]
  let ?I = "anc_inv ?R ?V A target"
  let ?r = "inv_image (less_than <*lex*> mult1 ?R) (\<lambda>(f, t). (if f then 0 else 1 :: nat, mset t))"
  have "wf ?R" using finite_acyclic_wf [OF _ ac] by simp
  then have r: "wf ?r" by (intro wf_inv_image wf_lex_prod wf_mult1) auto
  have "\<exists>st. whileE (\<lambda>(found, todo). \<not> found \<and> todo \<noteq> []) (isAncestor_step ?g A) (False, [target]) = Inr st \<and>
      ?I st \<and> \<not> (case st of (found, todo) \<Rightarrow> \<not> found \<and> todo \<noteq> [])"
  proof (rule whileE_total [OF r])
    show "?I (False, [target])" using t by (simp add: anc_inv_def)
    fix st assume st: "?I st" "case st of (found, todo) \<Rightarrow> \<not> found \<and> todo \<noteq> []"
    then obtain s todo where e: "st = (False, s # todo)" by (cases st) (auto simp: neq_Nil_conv)
    have s: "s \<in> ?V" using st(1) by (simp add: e anc_inv_def)
    obtain ps where ps: "set ps = {a. (a, s) \<in> ?R}"
      "isAncestor_step ?g A (False, s # todo) = Inr (if (A, s) \<in> ?R then (True, todo) else (False, todo @ ps))"
      using isAncestor_step_ok [OF c s] by blast
    show "\<exists>s'. isAncestor_step ?g A st = Inr s' \<and> ?I s' \<and> (s', st) \<in> ?r"
    proof (cases "(A, s) \<in> ?R")
      case True
      then have "?I (True, todo)" using st(1) by (auto simp: e anc_inv_def)
      with True ps(2) show ?thesis by (simp add: e)
    next
      case False
      have "(A, s) \<in> ?R\<^sup>+ \<longleftrightarrow> (\<exists>p \<in> set ps. (A, p) \<in> ?R\<^sup>+)" using False trancl_last [of A s ?R] unfolding ps(1) by auto
      then have "?I (False, todo @ ps)" using st(1) RV ps(1) by (auto simp: e anc_inv_def)
      moreover have "(mset (todo @ ps), mset (s # todo)) \<in> mult1 ?R"
        by (rule mult1I [of _ s "mset todo" _ "mset ps"]) (use ps(1) in auto)
      ultimately show ?thesis using False ps(2) by (simp add: e)
    qed
  qed
  then obtain found todo where "whileE (\<lambda>(found, todo). \<not> found \<and> todo \<noteq> []) (isAncestor_step ?g A) (False, [target]) = Inr (found, todo)"
    "?I (found, todo)" "found \<or> todo = []" by auto
  then show ?thesis by (auto simp: isAncestor_def anc_inv_def)
qed

text \<open>Above a cycle that does not lead to the answer, the search goes on for ever.\<close>

lemma isAncestor_diverges:
  assumes wf: "pt_wf P" and t: "target \<in> sets_in P" and no: "(A, target) \<notin> (set_arrows P)\<^sup>+"
    and c: "(c, target) \<in> (set_arrows P)\<^sup>*" "(c, c) \<in> (set_arrows P)\<^sup>+"
  shows "isAncestor P A target = Inl NoReturn"
proof -
  let ?R = "set_arrows P" and ?V = "sets_in P" and ?g = "pt_graph P"
  note cl = pt_wfD(1) [OF wf]
  note RV = dg_arrows_values [OF clean_wf [OF cl]]
  let ?I = "\<lambda>(found, todo). \<not> found \<and> set todo \<subseteq> ?V \<and> (\<forall>t \<in> set todo. (A, t) \<notin> ?R\<^sup>+) \<and>
      (\<exists>t \<in> set todo. \<exists>c. (c, t) \<in> ?R\<^sup>* \<and> (c, c) \<in> ?R\<^sup>+)"
  have "whileE (\<lambda>(found, todo). \<not> found \<and> todo \<noteq> []) (isAncestor_step ?g A) (False, [target]) = Inl NoReturn"
  proof (rule whileE_diverges [where I = ?I])
    show "?I (False, [target])" using t no c by auto
    fix st assume st: "?I st"
    then obtain s todo where e: "st = (False, s # todo)" by (cases st; cases "snd st") auto
    have s: "s \<in> ?V" "(A, s) \<notin> ?R\<^sup>+" using st by (auto simp: e)
    obtain ps where ps: "set ps = {a. (a, s) \<in> ?R}"
      "isAncestor_step ?g A (False, s # todo) = Inr (if (A, s) \<in> ?R then (True, todo) else (False, todo @ ps))"
      using isAncestor_step_ok [OF cl s(1)] by blast
    have As: "(A, s) \<notin> ?R" using s(2) by auto
    have up: "\<exists>p \<in> set ps. \<exists>c. (c, p) \<in> ?R\<^sup>* \<and> (c, c) \<in> ?R\<^sup>+" if "(c, s) \<in> ?R\<^sup>*" "(c, c) \<in> ?R\<^sup>+" for c
    proof -
      have "(c, s) \<in> ?R\<^sup>+" using that by (meson rtrancl_into_trancl1 trancl_rtrancl_trancl)
      then obtain p where "(c, p) \<in> ?R\<^sup>*" "(p, s) \<in> ?R" by (meson tranclD2)
      with that(2) show ?thesis using ps(1) by auto
    qed
    have "?I (False, todo @ ps)"
    proof -
      have "(A, p) \<notin> ?R\<^sup>+" if "p \<in> set ps" for p using that s(2) ps(1) by (auto intro: trancl_into_trancl)
      moreover have "set ps \<subseteq> ?V" using ps(1) RV by auto
      moreover have "\<exists>t \<in> set (todo @ ps). \<exists>c. (c, t) \<in> ?R\<^sup>* \<and> (c, c) \<in> ?R\<^sup>+"
      proof -
        obtain t c where t: "t \<in> set (s # todo)" "(c, t) \<in> ?R\<^sup>*" "(c, c) \<in> ?R\<^sup>+" using st unfolding e by blast
        show ?thesis
        proof (cases "t = s")
          case True
          then obtain p where "p \<in> set ps" "\<exists>c. (c, p) \<in> ?R\<^sup>* \<and> (c, c) \<in> ?R\<^sup>+" using up t by blast
          then show ?thesis by auto
        next
          case False
          with t show ?thesis by auto
        qed
      qed
      ultimately show ?thesis using st unfolding e by simp blast
    qed
    then show "(case st of (found, todo) \<Rightarrow> \<not> found \<and> todo \<noteq> []) \<and> (\<exists>s'. isAncestor_step ?g A st = Inr s' \<and> ?I s')"
      using ps(2) As by (simp add: e)
  qed
  then show ?thesis by (simp add: isAncestor_def)
qed

section \<open>Descendants and ancestors\<close>

definition follows :: "((ptr, 'r) dg \<Rightarrow> ptr \<Rightarrow> ptr list) \<Rightarrow> (ptr, 'r) dg \<Rightarrow> (ptr \<times> ptr) set \<Rightarrow> bool" where
  "follows next g N \<longleftrightarrow> N \<subseteq> dg_values g \<times> dg_values g \<and>
     (\<forall>s \<in> dg_values g. \<exists>n. fetch_live g s = Inr (g, n) \<and> set (next g n) = {b. (s, b) \<in> N})"

definition family_inv :: "(ptr \<times> ptr) set \<Rightarrow> ptr set \<Rightarrow> ptr \<Rightarrow> ptr list \<times> ptr list \<Rightarrow> bool" where
  "family_inv N V s0 = (\<lambda>(m, t). distinct m \<and> set m \<subseteq> {b. (s0, b) \<in> N\<^sup>+} \<and> set m \<subseteq> V \<and> set t \<subseteq> insert s0 (set m) \<and>
     (\<forall>x \<in> insert s0 (set m). x \<notin> set t \<longrightarrow> {b. (x, b) \<in> N} \<subseteq> set m))"

lemma family_loop:
  assumes f: "follows next g N" and s0: "s0 \<in> dg_values g"
  shows "\<exists>m. whileE (\<lambda>(_, todo). todo \<noteq> []) (family_step next g) ([], [s0]) = Inr (m, []) \<and> distinct m \<and>
    set m = {b. (s0, b) \<in> N\<^sup>+}"
proof -
  let ?V = "dg_values g"
  let ?I = "family_inv N ?V s0"
  let ?r = "measure (\<lambda>(m, t). length t + (card ?V - length m))"
  have NV: "N \<subseteq> ?V \<times> ?V" using f by (simp add: follows_def)
  have "\<exists>st. whileE (\<lambda>(_, todo). todo \<noteq> []) (family_step next g) ([], [s0]) = Inr st \<and> ?I st \<and>
      \<not> (case st of (_, todo) \<Rightarrow> todo \<noteq> [])"
  proof (rule whileE_total [where R = ?r])
    show "?I ([], [s0])" by (simp add: family_inv_def)
    fix st assume st: "?I st" "case st of (_, todo) \<Rightarrow> todo \<noteq> []"
    then obtain m s t where e: "st = (m, s # t)" by (cases st) (auto simp: neq_Nil_conv)
    note I = st(1) [unfolded e family_inv_def prod.case]
    have s: "s = s0 \<or> s \<in> set m" and sV: "s \<in> ?V" using I s0 by auto
    obtain n where n: "fetch_live g s = Inr (g, n)" "set (next g n) = {b. (s, b) \<in> N}"
      using f sV unfolding follows_def by blast
    obtain m' t' where mt: "fold (mark_new queue_add) (next g n) (m, t) = (m', t')" by fastforce
    note sp = wq.mark_all_spec [OF mt]
    have run: "family_step next g st = Inr (m', t')" by (simp add: family_step_def e n(1) mt)
    have reach: "(s0, b) \<in> N\<^sup>+" if "(s, b) \<in> N" for b using s I that by (auto intro: trancl_into_trancl)
    have dm: "distinct m'" using sp(3) I by simp
    have mV: "set m' \<subseteq> ?V" unfolding sp(1) n(2) using I NV by auto
    have "?I (m', t')"
      unfolding family_inv_def prod.case
    proof (intro conjI ballI impI)
      show "set m' \<subseteq> {b. (s0, b) \<in> N\<^sup>+}" unfolding sp(1) n(2) using I reach by auto
      show "set t' \<subseteq> insert s0 (set m')" unfolding sp(1,2) using I by auto
      fix x assume x: "x \<in> insert s0 (set m')" "x \<notin> set t'"
      show "{b. (x, b) \<in> N} \<subseteq> set m'"
      proof (cases "x = s")
        case True
        then show ?thesis unfolding sp(1) n(2) by auto
      next
        case False
        then have "x \<in> insert s0 (set m)" "x \<notin> set (s # t)" using x unfolding sp(1,2) by auto
        then have "{b. (x, b) \<in> N} \<subseteq> set m" using I by blast
        then show ?thesis unfolding sp(1) by blast
      qed
    qed (rule dm mV)+
    moreover have "length t' + (card ?V - length m') < length (s # t) + (card ?V - length m)"
    proof -
      have "length m' \<le> card ?V" using dm mV by (metis card_mono distinct_card finite_dg_values)
      moreover have "length t' + length m = length t + length m'" by (rule sp(4))
      ultimately show ?thesis by simp
    qed
    ultimately show "\<exists>s'. family_step next g st = Inr s' \<and> ?I s' \<and> (s', st) \<in> ?r" using run by (simp add: e)
  qed simp
  then obtain m where m: "whileE (\<lambda>(_, todo). todo \<noteq> []) (family_step next g) ([], [s0]) = Inr (m, [])" "?I (m, [])" by auto
  note I = m(2) [unfolded family_inv_def prod.case]
  have cl: "b \<in> set m" if "x \<in> insert s0 (set m)" "(x, b) \<in> N" for x b using I that by auto
  have "b \<in> set m" if "(s0, b) \<in> N\<^sup>+" for b
    using that by induction (use cl in blast)+
  with m I show ?thesis by blast
qed

lemma descendants_ok:
  assumes wf: "pt_wf P" and s: "s \<in> sets_in P"
  shows "\<exists>m. getDescendants P s = Inr m \<and> distinct m \<and> set m = {b. (s, b) \<in> (set_arrows P)\<^sup>+}"
proof -
  note c = pt_wfD(1) [OF wf]
  have "\<exists>n. fetch_live (pt_graph P) x = Inr (pt_graph P, n) \<and>
      set (map (to_T (pt_graph P)) (out_edges (pt_graph P) n)) = {b. (x, b) \<in> set_arrows P}" if "x \<in> sets_in P" for x
    by (rule live_node [OF c that]) blast
  then have "follows (\<lambda>g n. map (to_T g) (out_edges g n)) (pt_graph P) (set_arrows P)"
    using dg_arrows_values [OF clean_wf [OF c]] by (simp add: follows_def)
  from family_loop [OF this s] show ?thesis by (auto simp: getDescendants_def)
qed

lemma ancestors_ok:
  assumes wf: "pt_wf P" and s: "s \<in> sets_in P"
  shows "\<exists>m. getAncestors P s = Inr m \<and> distinct m \<and> set m = {a. (a, s) \<in> (set_arrows P)\<^sup>+}"
proof -
  note c = pt_wfD(1) [OF wf]
  have "\<exists>n. fetch_live (pt_graph P) x = Inr (pt_graph P, n) \<and>
      set (map (from_T (pt_graph P)) (in_edges (pt_graph P) n)) = {b. (x, b) \<in> (set_arrows P)\<inverse>}" if "x \<in> sets_in P" for x
    by (rule live_node [OF c that]) auto
  then have "follows (\<lambda>g n. map (from_T g) (in_edges g n)) (pt_graph P) ((set_arrows P)\<inverse>)"
    using dg_arrows_values [OF clean_wf [OF c]] by (auto simp: follows_def)
  from family_loop [OF this s] show ?thesis by (auto simp: getAncestors_def trancl_converse)
qed

section \<open>Predicting a merge\<close>

lemma set_getOverlap: "set (getOverlap xs ys) = set xs \<inter> set ys"
proof -
  have "set (fold (\<lambda>s acc. if s \<in> set ys then uset_insert s acc else acc) xs acc) = set acc \<union> (set xs \<inter> set ys)" for acc
    by (induction xs arbitrary: acc) auto
  then show ?thesis by (simp add: getOverlap_def)
qed

text \<open>The arrows of the graph in which two sets count ans one.\<close>

definition joined :: "('v \<times> 'v) set \<Rightarrow> 'v \<Rightarrow> 'v \<Rightarrow> ('v \<times> 'v) set" where
  "joined R A B = R \<union> {(A, B), (B, A)}"

lemma joined_from:
  assumes "(x, u) \<in> (joined R A B)\<^sup>*"
  shows "(x, u) \<in> R\<^sup>* \<or> (A, u) \<in> R\<^sup>* \<or> (B, u) \<in> R\<^sup>*"
  using assms by induction (auto simp: joined_def intro: rtrancl_into_rtrancl)

lemma joined_to:
  assumes "(u, x) \<in> (joined R A B)\<^sup>*"
  shows "(u, x) \<in> R\<^sup>* \<or> (u, A) \<in> R\<^sup>* \<or> (u, B) \<in> R\<^sup>*"
  using assms by (induction rule: converse_rtrancl_induct) (auto simp: joined_def intro: converse_rtrancl_into_rtrancl)

lemma joined_mono: "R\<^sup>* \<subseteq> (joined R A B)\<^sup>*"
  by (rule rtrancl_mono) (auto simp: joined_def)

lemma joined_swap: "joined R A B = joined R B A"
  by (auto simp: joined_def)

lemma joined_class:
  assumes ac: "acyclic R" and AB: "(A, B) \<in> R\<^sup>+"
  shows "vclass (joined R A B) A = {A, B} \<union> {c. (A, c) \<in> R\<^sup>+ \<and> (c, B) \<in> R\<^sup>+}"
proof (intro set_eqI iffI)
  fix u assume "u \<in> vclass (joined R A B) A"
  then have "(A, u) \<in> (joined R A B)\<^sup>*" "(u, A) \<in> (joined R A B)\<^sup>*" by (auto simp: vclass_def)
  from joined_from [OF this(1)] joined_to [OF this(2)] AB have "(A, u) \<in> R\<^sup>*" "(u, B) \<in> R\<^sup>*"
    by (auto intro: rtrancl_trans trancl_into_rtrancl)
  then show "u \<in> {A, B} \<union> {c. (A, c) \<in> R\<^sup>+ \<and> (c, B) \<in> R\<^sup>+}" by (auto simp: rtrancl_eq_or_trancl)
next
  fix u assume "u \<in> {A, B} \<union> {c. (A, c) \<in> R\<^sup>+ \<and> (c, B) \<in> R\<^sup>+}"
  then have "(A, u) \<in> R\<^sup>*" "(u, B) \<in> R\<^sup>*" using AB by (auto intro: trancl_into_rtrancl)
  then have "(A, u) \<in> (joined R A B)\<^sup>*" "(u, B) \<in> (joined R A B)\<^sup>*"
    using subsetD [OF joined_mono] by metis+
  moreover have "(B, A) \<in> (joined R A B)\<^sup>*" by (rule r_into_rtrancl) (simp add: joined_def)
  ultimately show "u \<in> vclass (joined R A B) A" by (auto simp: vclass_def intro: rtrancl_trans)
qed

lemma joined_class_unrelated:
  assumes ac: "acyclic R" and AB: "(A, B) \<notin> R\<^sup>+" "(B, A) \<notin> R\<^sup>+"
  shows "vclass (joined R A B) A = {A, B}"
proof (intro set_eqI iffI)
  have anti: "x = y" if "(x, y) \<in> R\<^sup>*" "(y, x) \<in> R\<^sup>*" for x y
    using that ac by (metis acyclic_def rtrancl_eq_or_trancl trancl_rtrancl_trancl)
  fix u assume "u \<in> vclass (joined R A B) A"
  then have j: "(A, u) \<in> (joined R A B)\<^sup>*" "(u, A) \<in> (joined R A B)\<^sup>*" by (auto simp: vclass_def)
  have "(A, u) \<in> R\<^sup>* \<or> (B, u) \<in> R\<^sup>*" "(u, A) \<in> R\<^sup>* \<or> (u, B) \<in> R\<^sup>*" using joined_from [OF j(1)] joined_to [OF j(2)] by auto
  then show "u \<in> {A, B}" using anti AB by (metis insertCI rtrancl_eq_or_trancl trancl_rtrancl_trancl)
next
  fix u assume "u \<in> {A, B}"
  moreover have "(A, B) \<in> (joined R A B)\<^sup>*" "(B, A) \<in> (joined R A B)\<^sup>*" by (rule r_into_rtrancl; simp add: joined_def)+
  ultimately show "u \<in> vclass (joined R A B) A" by (auto simp: vclass_def)
qed

lemma parent_child_ok:
  assumes wf: "pt_wf P" and ac: "acyclic (set_arrows P)" and AB: "A \<in> sets_in P" "B \<in> sets_in P"
  shows "getParentChildPair P A B = Inr (if (A, B) \<in> (set_arrows P)\<^sup>+ then Some (A, B)
     else if (B, A) \<in> (set_arrows P)\<^sup>+ then Some (B, A) else None)"
  by (simp add: getParentChildPair_def isAncestor_decides [OF wf ac AB(2)] isAncestor_decides [OF wf ac AB(1)])

lemma between_ok:
  assumes wf: "pt_wf P" and A: "A \<in> sets_in P" "B \<in> sets_in P"
  obtains ds ans where "getDescendants P A = Inr ds" "getAncestors P B = Inr ans"
    "set (getOverlap ds ans) = {c. (A, c) \<in> (set_arrows P)\<^sup>+ \<and> (c, B) \<in> (set_arrows P)\<^sup>+}"
proof -
  obtain ds where "getDescendants P A = Inr ds" "set ds = {b. (A, b) \<in> (set_arrows P)\<^sup>+}" using descendants_ok [OF wf A(1)] by blast
  moreover obtain ans where "getAncestors P B = Inr ans" "set ans = {a. (a, B) \<in> (set_arrows P)\<^sup>+}" using ancestors_ok [OF wf A(2)] by blast
  ultimately show ?thesis using that [of ds ans] by (simp add: set_getOverlap Collect_conj_eq)
qed

lemma merge_prediction_ok:
  assumes wf: "pt_wf P" and ac: "acyclic (set_arrows P)" and AB: "A \<in> sets_in P" "B \<in> sets_in P"
  shows "isMergeIntroducingCycle P A B = Inr (vclass (joined (set_arrows P) A B) A \<noteq> {A, B})"
    and "\<exists>xs. getCycleIntroducedByMerging P A B = Inr xs \<and> set xs = vclass (joined (set_arrows P) A B) A"
proof -
  let ?R = "set_arrows P"
  note pc = parent_child_ok [OF wf ac AB]
  have irr: "(x, x) \<notin> ?R\<^sup>+" for x using ac by (simp add: acyclic_def)
  have half: "isMergeIntroducingCycle P A B = Inr (vclass (joined ?R X Y) X \<noteq> {X, Y}) \<and>
      (\<exists>xs. getCycleIntroducedByMerging P A B = Inr xs \<and> set xs = vclass (joined ?R X Y) X)"
    if "getParentChildPair P A B = Inr (Some (X, Y))" "(X, Y) \<in> ?R\<^sup>+" "X \<in> sets_in P" "Y \<in> sets_in P" for X Y
  proof -
    note XY = that
    obtain ds ans where o: "getDescendants P X = Inr ds" "getAncestors P Y = Inr ans"
      "set (getOverlap ds ans) = {c. (X, c) \<in> ?R\<^sup>+ \<and> (c, Y) \<in> ?R\<^sup>+}"
      by (rule between_ok [OF wf XY(3,4)])
    have cls: "vclass (joined ?R X Y) X = {X, Y} \<union> set (getOverlap ds ans)" unfolding o(3) by (rule joined_class [OF ac that(2)])
    have "X \<notin> set (getOverlap ds ans)" "Y \<notin> set (getOverlap ds ans)" unfolding o(3) using irr by auto
    then have "getOverlap ds ans \<noteq> [] \<longleftrightarrow> vclass (joined ?R X Y) X \<noteq> {X, Y}" unfolding cls by (cases "getOverlap ds ans") auto
    then show ?thesis
      using that(1) o(1,2) cls by (simp add: isMergeIntroducingCycle_def getCycleIntroducedByMerging_def) blast
  qed
  have sw: "vclass (joined ?R B A) B = vclass (joined ?R A B) A"
  proof -
    have "B \<in> vclass (joined ?R A B) A" by (auto simp: vclass_def joined_def intro: r_into_rtrancl)
    then show ?thesis using vclass_eq joined_swap by metis
  qed
  have "isMergeIntroducingCycle P A B = Inr (vclass (joined ?R A B) A \<noteq> {A, B}) \<and>
      (\<exists>xs. getCycleIntroducedByMerging P A B = Inr xs \<and> set xs = vclass (joined ?R A B) A)"
  proof (cases "(A, B) \<in> ?R\<^sup>+")
    case True
    then show ?thesis using half [of A B] pc AB by simp
  next
    case nAB: False
    show ?thesis
    proof (cases "(B, A) \<in> ?R\<^sup>+")
      case True
      then show ?thesis using half [of B A] pc AB nAB sw by (simp add: insert_commute)
    next
      case False
      with nAB have "vclass (joined ?R A B) A = {A, B}" by (intro joined_class_unrelated [OF ac])
      then show ?thesis using pc nAB False
        by (simp add: isMergeIntroducingCycle_def getCycleIntroducedByMerging_def insert_commute)
    qed
  qed
  then show "isMergeIntroducingCycle P A B = Inr (vclass (joined ?R A B) A \<noteq> {A, B})"
    "\<exists>xs. getCycleIntroducedByMerging P A B = Inr xs \<and> set xs = vclass (joined ?R A B) A" by blast+
qed

section \<open>Merging two sets and collapsing\<close>

lemma quotient_reach:
  assumes q: "quotient_by q E P Q" and RV: "set_arrows P \<subseteq> sets_in P \<times> sets_in P" and RQ: "set_arrows Q \<subseteq> sets_in Q \<times> sets_in Q"
    and E: "\<And>u v. u \<in> sets_in P \<Longrightarrow> v \<in> sets_in P \<Longrightarrow> E u v \<Longrightarrow> (u, v) \<in> T\<^sup>*" and T: "set_arrows P \<subseteq> T"
    and T': "\<And>u v. (u, v) \<in> T \<Longrightarrow> u \<in> sets_in P \<and> v \<in> sets_in P \<and> ((u, v) \<in> set_arrows P \<or> q u = q v)"
    and uv: "u \<in> sets_in P" "v \<in> sets_in P"
  shows "(q u, q v) \<in> (set_arrows Q)\<^sup>* \<longleftrightarrow> (u, v) \<in> T\<^sup>*"
proof
  note qd = quotient_byD [OF q]
  have join: "(a, b) \<in> T\<^sup>*" if "a \<in> sets_in P" "b \<in> sets_in P" "q a = q b" for a b
    using qd(2) [OF that(1,2)] that E by auto
  have "(u, b) \<in> T\<^sup>*" if "(q u, y) \<in> (set_arrows Q)\<^sup>*" "b \<in> sets_in P" "q b = y" for b y
    using that
  proof (induction arbitrary: b rule: rtrancl_induct)
    case base
    then show ?case using join uv(1) by auto
  next
    case (step y z)
    show ?case
    proof (cases "y = z")
      case True
      then show ?thesis using step by auto
    next
      case False
      then have "(y, z) \<in> set_arrows Q - Id" using step(2) by auto
      then obtain c d where cd: "y = q c" "z = q d" "(c, d) \<in> set_arrows P" unfolding qd(5) by auto
      then have v: "c \<in> sets_in P" "d \<in> sets_in P" using RV by auto
      have "(u, c) \<in> T\<^sup>*" "(d, b) \<in> T\<^sup>*" using step.IH [OF v(1)] join [OF v(2) step.prems(1)] step.prems(2) cd by auto
      moreover have "(c, d) \<in> T" using cd(3) T by auto
      ultimately show ?thesis by (meson rtrancl.rtrancl_into_rtrancl rtrancl_trans)
    qed
  qed
  then show "(u, v) \<in> T\<^sup>*" if "(q u, q v) \<in> (set_arrows Q)\<^sup>*" using that uv(2) by blast
  show "(q u, q v) \<in> (set_arrows Q)\<^sup>*" if "(u, v) \<in> T\<^sup>*"
    using that
  proof induction
    case (step y z)
    have "(q y, q z) \<in> (set_arrows Q)\<^sup>*"
    proof (cases "q y = q z")
      case False
      then have "(y, z) \<in> set_arrows P" using T' [OF step(2)] by auto
      with False have "(q y, q z) \<in> set_arrows Q - Id" unfolding qd(5) by auto
      then show ?thesis by auto
    qed simp
    with step.IH show ?case by (rule rtrancl_trans)
  qed simp
qed

definition merged_spec :: "ptr \<Rightarrow> ptr \<Rightarrow> (ptr \<Rightarrow> ptr) \<Rightarrow> 'r scc_partition \<Rightarrow> 'r scc_partition \<Rightarrow> bool" where
  "merged_spec A B q P P' \<longleftrightarrow> pt_wf P' \<and> acyclic (set_arrows P' - Id) \<and> q ` sets_in P = sets_in P' \<and>
     (\<forall>u \<in> sets_in P. \<forall>v \<in> sets_in P. q u = q v \<longleftrightarrow> v \<in> vclass (joined (set_arrows P) A B) u) \<and>
     (\<forall>s \<in> sets_in P'. smem P' s = (\<Union>v \<in> {v \<in> sets_in P. q v = s}. smem P v)) \<and>
     set_arrows P' - Id = {(q a, q b) |a b. (a, b) \<in> set_arrows P} - Id"

lemma merge_collapse_ok:
  assumes it: "scc_iterator it" and wf: "pt_wf P" and AB: "A \<in> sets_in P" "B \<in> sets_in P" "A \<noteq> B"
  shows "\<exists>P' q. mergeSetsAndCollapseResultingCycles it [A, B] P = Inr P' \<and> merged_spec A B q P P' \<and> A \<notin> sets_in P'"
proof -
  note RV = dg_arrows_values [OF clean_wf [OF pt_wfD(1) [OF wf]]]
  let ?R = "set_arrows P" and ?V = "sets_in P" and ?m = "set_next P"
  have sub: "set [A, B] \<subseteq> ?V" using AB by simp
  obtain P1 where P1: "mergeSets [A, B] P = Inr P1" "merge_spec (set [A, B]) P P1"
    using mergeSets_ok [OF wf _ _ sub] AB(3) by auto
  let ?q = "merged_into {A, B} ?m"
  have q1: "quotient_by ?q (\<lambda>u v. u \<in> {A, B} \<and> v \<in> {A, B}) P P1"
    using quotient_merge [OF wf P1(2) sub] AB(3) by auto
  have wf1: "pt_wf P1" and n1: "set_next P1 = Suc ?m" and v1: "sets_in P1 = insert ?m (?V - {A, B})"
    using P1(2) by (simp_all add: merge_spec_def)
  obtain P' where P': "collapseCycles it P1 = Inr P'" "collapse_spec P1 P'" using collapse_ok [OF it wf1] by blast
  then obtain r where wf': "pt_wf P'" "acyclic (set_arrows P' - Id)"
    and r: "quotient_by r (\<lambda>u v. (u, v) \<in> (set_arrows P1)\<^sup>* \<and> (v, u) \<in> (set_arrows P1)\<^sup>*) P1 P'"
    by (auto simp: collapse_spec_def)
  have T: "(?q u, ?q v) \<in> (set_arrows P1)\<^sup>* \<longleftrightarrow> (u, v) \<in> (joined ?R A B)\<^sup>*" if "u \<in> ?V" "v \<in> ?V" for u v
  proof (rule quotient_reach [OF q1 RV dg_arrows_values [OF clean_wf [OF pt_wfD(1) [OF wf1]]]])
    show "(u, v) \<in> (joined ?R A B)\<^sup>*" if "u \<in> {A, B} \<and> v \<in> {A, B}" for u v
      using that by (auto simp: joined_def intro: r_into_rtrancl)
    show "?R \<subseteq> joined ?R A B" by (auto simp: joined_def)
    show "u \<in> ?V \<and> v \<in> ?V \<and> ((u, v) \<in> ?R \<or> ?q u = ?q v)" if "(u, v) \<in> joined ?R A B" for u v
      using that RV AB by (auto simp: joined_def merged_into_def)
  qed (rule that)+
  note qq = quotient_trans [OF q1 r RV]
  note qd = quotient_byD [OF qq]
  have eq: "(r \<circ> ?q) u = (r \<circ> ?q) v \<longleftrightarrow> v \<in> vclass (joined ?R A B) u" if uv: "u \<in> ?V" "v \<in> ?V" for u v
  proof -
    have AB': "(A, B) \<in> (joined ?R A B)\<^sup>*" "(B, A) \<in> (joined ?R A B)\<^sup>*" by (auto simp: joined_def intro: r_into_rtrancl)
    have "(r \<circ> ?q) u = (r \<circ> ?q) v \<longleftrightarrow> u = v \<or> u \<in> {A, B} \<and> v \<in> {A, B} \<or>
        (u, v) \<in> (joined ?R A B)\<^sup>* \<and> (v, u) \<in> (joined ?R A B)\<^sup>*"
      using qd(2) [OF uv] T [OF uv] T [OF uv(2,1)] by blast
    then show ?thesis using AB' by (auto simp: vclass_def)
  qed
  have "A \<notin> sets_in P'"
  proof
    assume "A \<in> sets_in P'"
    then have "A \<in> sets_in P1 \<or> set_next P1 \<le> A" by (rule quotient_byD(8) [OF r])
    then show False using v1 n1 AB pt_wfD(2) [OF wf AB(1)] by auto
  qed
  moreover have "merged_spec A B (r \<circ> ?q) P P'"
    unfolding merged_spec_def
  proof (intro conjI ballI)
    show "smem P' s = (\<Union>v \<in> {v \<in> ?V. (r \<circ> ?q) v = s}. smem P v)" if "s \<in> sets_in P'" for s by (rule qd(4) [OF that])
    show "(r \<circ> ?q) u = (r \<circ> ?q) v \<longleftrightarrow> v \<in> vclass (joined ?R A B) u" if "u \<in> ?V" "v \<in> ?V" for u v by (rule eq [OF that])
  qed (rule wf' qd(1) qd(5))+
  moreover have "mergeSetsAndCollapseResultingCycles it [A, B] P = Inr P'"
    using P1(1) P'(1) by (simp add: mergeSetsAndCollapseResultingCycles_def)
  ultimately show ?thesis by blast
qed

section \<open>The constructor\<close>

lemma constructor_ok:
  fixes m :: "(ptr \<times> ptr list) list"
  assumes ne: "\<forall>xs \<in> set xss. xs \<noteq> []" and d: "distinct (concat xss)"
  shows "\<exists>P :: 'r scc_partition. SCCDAGPartition_of xss m = Inr P \<and> pt_wf P \<and> sets_in P = {0 ..< length xss} \<and>
     (\<forall>i < length xss. smem P i = set (xss ! i)) \<and>
     set_arrows P = {(i, j). i < length xss \<and> j < length xss \<and>
       (\<exists>(c, ps) \<in> set m. c \<in> set (xss ! j) \<and> (\<exists>p \<in> set ps. p \<in> set (xss ! i)))}"
proof -
  let ?Q = "fold addInitialSet xss (empty_partition :: 'r scc_partition)"
  have e: "sccToSetMap (empty_partition :: 'r scc_partition) = []" "set_next (empty_partition :: 'r scc_partition) = 0" by (simp_all add: empty_partition_def)
  have e0: "map_of (sccToSetMap (empty_partition :: 'r scc_partition)) x = None" for x by (simp add: e)
  have Q: "pt_wf ?Q" "sets_in ?Q = {0 ..< length xss}" "set_arrows ?Q = {}"
    and M: "\<And>x i. i < length xss \<Longrightarrow> x \<in> set (xss ! i) \<Longrightarrow> map_of (sccToSetMap ?Q) x = Some i"
    and M0: "\<And>x. x \<notin> set (concat xss) \<Longrightarrow> map_of (sccToSetMap ?Q) x = None"
    using initial_sets_ok [OF pt_wf_empty(1) ne d e0] by (simp_all add: e)
  have Mi: "map_of (sccToSetMap ?Q) x = Some i \<longleftrightarrow> i < length xss \<and> x \<in> set (xss ! i)" for x i
  proof (cases "x \<in> set (concat xss)")
    case True
    then obtain ys where ys: "ys \<in> set xss" "x \<in> set ys" by auto
    then obtain j where j: "j < length xss" "x \<in> set (xss ! j)" unfolding in_set_conv_nth [of ys] by blast
    have "i = j" if "i < length xss" "x \<in> set (xss ! i)" using M [OF that] M [OF j] by simp
    then show ?thesis using M [OF j] j by auto
  next
    case False
    then have "\<not> (i < length xss \<and> x \<in> set (xss ! i))" using nth_mem [of i xss] by auto
    then show ?thesis using M0 [OF False] by simp
  qed
  obtain h where h: "foldE addParentEdges m ?Q = Inr (?Q\<lparr>pt_graph := h\<rparr>)" "evolved (pt_graph ?Q) (parent_arrows ?Q m) h"
    using addParents_ok [OF Q(1)] by blast
  let ?P = "?Q\<lparr>pt_graph := h\<rparr>"
  have wf: "pt_wf ?P" by (rule pt_wf_evolved [OF Q(1) h(2)])
  have v: "sets_in ?P = {0 ..< length xss}" and arr: "set_arrows ?P = parent_arrows ?Q m" using h(2) Q(2,3) by (simp_all add: evolved_def)
  have sm: "\<forall>i < length xss. smem ?P i = set (xss ! i)"
    using pt_wfD(5) [OF wf] v Mi by auto
  have pa: "parent_arrows ?Q m = {(i, j). i < length xss \<and> j < length xss \<and>
       (\<exists>(c, ps) \<in> set m. c \<in> set (xss ! j) \<and> (\<exists>p \<in> set ps. p \<in> set (xss ! i)))}"
    unfolding parent_arrows_def Mi by (intro Collect_cong) (auto split: prod.splits)
  have run: "SCCDAGPartition_of xss m = Inr ?P" using h(1) by (simp add: SCCDAGPartition_of_def)
  show ?thesis by (rule exI [of _ ?P]) (intro conjI; rule run wf v sm arr [unfolded pa])
qed

text \<open>Three SCCs in a chain, each in a set of its own, and two SCCs that depend on each other in one set.\<close>

definition chain_partition :: "nat scc_partition" where
  "chain_partition = (case SCCDAGPartition_of [[1], [2], [3]] [(2, [1]), (3, [1, 2])] of Inl _ \<Rightarrow> empty_partition | Inr P \<Rightarrow> P)"

definition loop_partition :: "nat scc_partition" where
  "loop_partition = (case SCCDAGPartition_of [[1, 2], [3]] [(2, [1])] of Inl _ \<Rightarrow> empty_partition | Inr P \<Rightarrow> P)"

lemma lessThan_three: "{0 ..< 3} = {0, 1, 2 :: nat}" "{0 ..< 2} = {0, 1 :: nat}"
  by auto

lemma chain_parts: "pt_wf chain_partition" "sets_in chain_partition = {0, 1, 2}"
  "set_arrows chain_partition = {(0, 1), (0, 2), (1, 2)}"
proof -
  have ne: "\<forall>xs \<in> set [[1], [2], [3 :: nat]]. xs \<noteq> []" and d: "distinct (concat [[1], [2], [3 :: nat]])" by simp_all
  obtain P where P: "SCCDAGPartition_of [[1], [2], [3]] [(2, [1]), (3, [1, 2])] = (Inr P :: nat scc_partition res)" "pt_wf P"
    "sets_in P = {0 ..< length [[1], [2], [3 :: nat]]}"
    "set_arrows P = {(i, j). i < length [[1], [2], [3 :: nat]] \<and> j < length [[1], [2], [3 :: nat]] \<and>
      (\<exists>(c, ps) \<in> set [(2, [1]), (3, [1, 2])]. c \<in> set ([[1], [2], [3 :: nat]] ! j) \<and> (\<exists>p \<in> set ps. p \<in> set ([[1], [2], [3 :: nat]] ! i)))}"
    using constructor_ok [OF ne d, of "[(2, [1]), (3, [1, 2])]"] by (elim exE conjE)
  then have e: "chain_partition = P" by (simp add: chain_partition_def)
  show "pt_wf chain_partition" "sets_in chain_partition = {0, 1, 2}" unfolding e P(3) using P(2) by auto
  show "set_arrows chain_partition = {(0, 1), (0, 2), (1, 2)}"
    unfolding e P(4) by (auto simp: less_Suc_eq numeral_3_eq_3)
qed

lemma loop_parts: "pt_wf loop_partition" "sets_in loop_partition = {0, 1}" "set_arrows loop_partition = {(0, 0)}"
proof -
  have ne: "\<forall>xs \<in> set [[1, 2], [3 :: nat]]. xs \<noteq> []" and d: "distinct (concat [[1, 2], [3 :: nat]])" by simp_all
  obtain P where P: "SCCDAGPartition_of [[1, 2], [3]] [(2, [1])] = (Inr P :: nat scc_partition res)" "pt_wf P"
    "sets_in P = {0 ..< length [[1, 2], [3 :: nat]]}"
    "set_arrows P = {(i, j). i < length [[1, 2], [3 :: nat]] \<and> j < length [[1, 2], [3 :: nat]] \<and>
      (\<exists>(c, ps) \<in> set [(2, [1])]. c \<in> set ([[1, 2], [3 :: nat]] ! j) \<and> (\<exists>p \<in> set ps. p \<in> set ([[1, 2], [3 :: nat]] ! i)))}"
    using constructor_ok [OF ne d, of "[(2, [1])]"] by (elim exE conjE)
  then have e: "loop_partition = P" by (simp add: loop_partition_def)
  show "pt_wf loop_partition" "sets_in loop_partition = {0, 1}" unfolding e P(3) using P(2) by auto
  show "set_arrows loop_partition = {(0, 0)}"
    unfolding e P(4) by (auto simp: less_Suc_eq)
qed

lemma chain_acyclic: "acyclic {(0, 1), (0, 2), (1, 2 :: nat)}"
proof -
  have "{(0, 1), (0, 2), (1, 2 :: nat)} \<subseteq> less_than" by auto
  then show ?thesis by (meson acyclic_subset wf_acyclic wf_less_than)
qed

section \<open>Properties\<close>

text \<open>The constructor. With disjoint non-empty initial sets it fails nowhere and builds one set for each of them,
  with exactly its SCCs, and an arrow between two sets exactly when the map names an SCC of the first as a parent of
  an SCC of the second, the same set included.\<close>

theorem partition_constructor:
  assumes "\<forall>xs \<in> set xss. xs \<noteq> []" and "distinct (concat xss)"
  shows "\<exists>P :: 'r scc_partition. SCCDAGPartition_of xss m = Inr P \<and> pt_wf P \<and> sets_in P = {0 ..< length xss} \<and>
     (\<forall>i < length xss. smem P i = set (xss ! i)) \<and>
     set_arrows P = {(i, j). i < length xss \<and> j < length xss \<and>
       (\<exists>(c, ps) \<in> set m. c \<in> set (xss ! j) \<and> (\<exists>p \<in> set ps. p \<in> set (xss ! i)))}"
  by (rule constructor_ok [OF assms])

lemma partition_constructor_witness:
  "\<exists>P. SCCDAGPartition_of [[1, 2], [3]] [(2, [1])] = Inr P \<and> pt_wf P \<and> sets_in P = {0, 1} \<and> smem P 0 = {1, 2}"
proof -
  have "\<exists>P. SCCDAGPartition_of [[1, 2], [3]] [(2, [1])] = Inr P \<and> pt_wf P \<and> sets_in P = {0 ..< length [[1, 2], [3 :: nat]]} \<and>
    (\<forall>i < length [[1, 2], [3 :: nat]]. smem P i = set ([[1, 2], [3]] ! i))"
    using partition_constructor [of "[[1, 2], [3]]" "[(2, [1])]"] by auto
  then show ?thesis by (auto simp: lessThan_three)
qed

text \<open>C10: merging two sets and collapsing the cycles. The call returns, the result is again a partition, and it is the
  quotient of the old one by mutual reachability in the graph in which the two sets count as one: two sets end in
  the same set exactly when they reach each other there, every new set holds exactly the SCCs of the old sets it
  stands for, its arrows are the images of the old ones, and no cycle is left but arrows from a set to itself.\<close>

theorem merge_and_collapse:
  assumes "scc_iterator it" and "pt_wf P" and "A \<in> sets_in P" and "B \<in> sets_in P" and "A \<noteq> B"
  shows "\<exists>P' q. mergeSetsAndCollapseResultingCycles it [A, B] P = Inr P' \<and> pt_wf P' \<and> acyclic (set_arrows P' - Id) \<and>
     q ` sets_in P = sets_in P' \<and>
     (\<forall>u \<in> sets_in P. \<forall>v \<in> sets_in P. q u = q v \<longleftrightarrow>
        (u, v) \<in> (set_arrows P \<union> {(A, B), (B, A)})\<^sup>* \<and> (v, u) \<in> (set_arrows P \<union> {(A, B), (B, A)})\<^sup>*) \<and>
     (\<forall>s \<in> sets_in P'. smem P' s = (\<Union>v \<in> {v \<in> sets_in P. q v = s}. smem P v)) \<and>
     set_arrows P' - Id = {(q a, q b) |a b. (a, b) \<in> set_arrows P} - Id"
proof -
  obtain P' q where run: "mergeSetsAndCollapseResultingCycles it [A, B] P = Inr P'" and m: "merged_spec A B q P P'"
    using merge_collapse_ok [OF assms] by blast
  have j: "joined (set_arrows P) A B = set_arrows P \<union> {(A, B), (B, A)}" by (simp add: joined_def)
  have v: "v \<in> vclass R u \<longleftrightarrow> (u, v) \<in> R\<^sup>* \<and> (v, u) \<in> R\<^sup>*" for u v and R :: "(ptr \<times> ptr) set" by (simp add: vclass_def)
  show ?thesis by (rule exI [of _ P'], rule exI [of _ q], rule conjI [OF run]) (rule m [unfolded merged_spec_def v j])
qed

lemma merge_and_collapse_witness:
  "\<exists>P' q. mergeSetsAndCollapseResultingCycles naive_sccs [0, 2] chain_partition = Inr P' \<and> pt_wf P' \<and>
     q ` {0, 1, 2 :: nat} = sets_in P' \<and> q 0 = q 1"
proof -
  have "(0, 1) \<in> (set_arrows chain_partition \<union> {(0, 2), (2, 0)})\<^sup>*" by (rule r_into_rtrancl) (simp add: chain_parts)
  moreover have "(1, 0) \<in> (set_arrows chain_partition \<union> {(0, 2), (2, 0)})\<^sup>*"
    by (rule rtrancl_trans [OF r_into_rtrancl r_into_rtrancl, of 1 2 _ 0]) (simp_all add: chain_parts)
  moreover have "0 \<in> sets_in chain_partition" "2 \<in> sets_in chain_partition" "1 \<in> sets_in chain_partition"
    by (simp_all add: chain_parts(2))
  ultimately have c: "(0, 1) \<in> (set_arrows chain_partition \<union> {(0, 2), (2, 0)})\<^sup>*"
    "(1, 0) \<in> (set_arrows chain_partition \<union> {(0, 2), (2, 0)})\<^sup>*"
    "0 \<in> sets_in chain_partition" "2 \<in> sets_in chain_partition" "1 \<in> sets_in chain_partition" by blast+
  have "(0 :: nat) \<noteq> 2" by simp
  from merge_and_collapse [OF naive_sccs_laws chain_parts(1) c(3,4) this] show ?thesis
  proof (elim exE conjE)
    fix P' q
    assume r: "mergeSetsAndCollapseResultingCycles naive_sccs [0, 2] chain_partition = Inr P'" "pt_wf P'"
      "q ` sets_in chain_partition = sets_in P'" and
      q: "\<forall>u \<in> sets_in chain_partition. \<forall>v \<in> sets_in chain_partition. q u = q v \<longleftrightarrow>
        (u, v) \<in> (set_arrows chain_partition \<union> {(0, 2), (2, 0)})\<^sup>* \<and> (v, u) \<in> (set_arrows chain_partition \<union> {(0, 2), (2, 0)})\<^sup>*"
    have "q 0 = q 1" using q [rule_format, OF c(3,5)] c(1,2) by blast
    then show ?thesis by (intro exI conjI) (rule r(1), rule r(2), rule r(3) [unfolded chain_parts(2)], assumption)
  qed
qed

text \<open>\<open>mergePair\<close> uses a set after it is freed. It merges, which deletes both sets, and then reads the SCCs of the
  first one: whatever the partition and the two sets, it never returns a set.\<close>

theorem mergePair_reads_deleted_set:
  assumes "scc_iterator it" and "pt_wf P" and "A \<in> sets_in P" and "B \<in> sets_in P" and "A \<noteq> B"
  shows "mergePair it A B P = Inl DanglingDeref"
proof -
  obtain P' q where run: "mergeSetsAndCollapseResultingCycles it [A, B] P = Inr P'" and m: "merged_spec A B q P P'" "A \<notin> sets_in P'"
    using merge_collapse_ok [OF assms] by blast
  have "set_mem P' A = None" using pt_wfD(4) [of P' A] m by (simp add: merged_spec_def)
  moreover have "uset_insert_all [A, B] [] = [A, B]" using assms(5) by (simp add: uset_insert_all_def uset_insert_def)
  ultimately show ?thesis using run by (simp add: mergePair_def sccs_of_def)
qed

lemma mergePair_reads_deleted_set_witness: "mergePair naive_sccs 0 2 chain_partition = Inl DanglingDeref"
  by (rule mergePair_reads_deleted_set [OF naive_sccs_laws chain_parts(1)]) (simp_all add: chain_parts)

text \<open>The depth order. On a non-empty partition without a cycle \<open>getDepthOrderedSets\<close> returns every set once, each after
  all its parents; on every other partition, arrows from a set to itself included, its assertion fails. It always ends.\<close>

theorem depth_order_topological:
  assumes "pt_wf P"
  shows "if acyclic (set_arrows P) \<and> sets_in P \<noteq> {}
     then \<exists>xs. getDepthOrderedSets P = Inr xs \<and> set xs = sets_in P \<and> distinct xs \<and>
       (\<forall>i < length xs. {a. (a, xs ! i) \<in> set_arrows P} \<subseteq> set (take i xs))
     else getDepthOrderedSets P = Inl AssertFailed"
  using depth_order_ok [OF assms] by (auto simp: topological_def)

lemma depth_order_topological_witness:
  "(\<exists>xs. getDepthOrderedSets chain_partition = Inr xs \<and> set xs = {0, 1, 2}) \<and>
   getDepthOrderedSets loop_partition = Inl AssertFailed"
proof
  show "\<exists>xs. getDepthOrderedSets chain_partition = Inr xs \<and> set xs = {0, 1, 2}"
    using depth_order_topological [OF chain_parts(1)] chain_acyclic unfolding chain_parts(2,3) by auto
  have "\<not> acyclic {(0, 0 :: nat)}" by (auto simp: acyclic_def)
  then show "getDepthOrderedSets loop_partition = Inl AssertFailed"
    using depth_order_topological [OF loop_parts(1)] unfolding loop_parts(3) by simp
qed

text \<open>C11: predicting a merge. On a partition without a cycle \<open>getCycleIntroducedByMerging\<close> returns exactly the sets that
  merging the two and collapsing puts into one set (the class of the quotient of \<open>merge_and_collapse\<close>), and
  \<open>isMergeIntroducingCycle\<close> says whether these are more than the two.\<close>

theorem merge_predicted:
  assumes "pt_wf P" and "acyclic (set_arrows P)" and "A \<in> sets_in P" and "B \<in> sets_in P"
  defines "T \<equiv> (set_arrows P \<union> {(A, B), (B, A)})\<^sup>*"
  shows "\<exists>xs. getCycleIntroducedByMerging P A B = Inr xs \<and> set xs = {u. (A, u) \<in> T \<and> (u, A) \<in> T} \<and>
     isMergeIntroducingCycle P A B = Inr (set xs \<noteq> {A, B})"
proof -
  have j: "vclass (joined (set_arrows P) A B) A = {u. (A, u) \<in> T \<and> (u, A) \<in> T}"
    by (simp add: vclass_def joined_def T_def)
  show ?thesis using merge_prediction_ok [OF assms(1-4)] unfolding j by auto
qed

lemma merge_predicted_witness:
  "\<exists>xs. getCycleIntroducedByMerging chain_partition 0 2 = Inr xs \<and> 1 \<in> set xs \<and> isMergeIntroducingCycle chain_partition 0 2 = Inr True"
proof -
  let ?T = "(set_arrows chain_partition \<union> {(0, 2), (2, 0)})\<^sup>*"
  have ac: "acyclic (set_arrows chain_partition)" unfolding chain_parts(3) by (rule chain_acyclic)
  have v: "0 \<in> sets_in chain_partition" "2 \<in> sets_in chain_partition" by (simp_all add: chain_parts)
  obtain xs where xs: "getCycleIntroducedByMerging chain_partition 0 2 = Inr xs" "set xs = {u. (0, u) \<in> ?T \<and> (u, 0) \<in> ?T}"
    "isMergeIntroducingCycle chain_partition 0 2 = Inr (set xs \<noteq> {0, 2})"
    using merge_predicted [OF chain_parts(1) ac v] by blast
  have "(0, 1) \<in> ?T" by (rule r_into_rtrancl) (simp add: chain_parts)
  moreover have "(1, 0) \<in> ?T" by (rule rtrancl_trans [OF r_into_rtrancl r_into_rtrancl, of 1 2 _ 0]) (simp_all add: chain_parts)
  ultimately have m: "1 \<in> set xs" unfolding xs(2) by simp
  moreover have "(1 :: nat) \<notin> {0, 2}" by simp
  ultimately have "set xs \<noteq> {0, 2}" by metis
  with xs(1,3) m show ?thesis by simp
qed

text \<open>The ancestor search. On a partition without a cycle \<open>isAncestor\<close> returns and decides whether a path leads from one
  set to the other. The search keeps no set of visited nodes: below a cycle that the searched set does not reach,
  an arrow from a set to itself is enough, it never returns.\<close>

theorem ancestor_search:
  assumes "pt_wf P" and "target \<in> sets_in P"
  shows "(acyclic (set_arrows P) \<longrightarrow> isAncestor P A target = Inr ((A, target) \<in> (set_arrows P)\<^sup>+)) \<and>
    ((\<exists>c. (c, target) \<in> (set_arrows P)\<^sup>* \<and> (c, c) \<in> (set_arrows P)\<^sup>+) \<and> (A, target) \<notin> (set_arrows P)\<^sup>+ \<longrightarrow>
       isAncestor P A target = Inl NoReturn)"
  using isAncestor_decides [OF assms(1) _ assms(2)] isAncestor_diverges [OF assms] by blast

lemma ancestor_search_witness:
  "isAncestor chain_partition 0 2 = Inr True \<and> isAncestor loop_partition 1 0 = Inl NoReturn"
proof
  have ac: "acyclic (set_arrows chain_partition)" unfolding chain_parts(3) by (rule chain_acyclic)
  have "(0, 2) \<in> (set_arrows chain_partition)\<^sup>+" by (rule r_into_trancl) (simp add: chain_parts)
  then show "isAncestor chain_partition 0 2 = Inr True"
    using ancestor_search [OF chain_parts(1), of 2 0] ac by (simp add: chain_parts(2))
  have "(0, 0) \<in> (set_arrows loop_partition)\<^sup>+" by (rule r_into_trancl) (simp add: loop_parts)
  moreover have "(1, 0) \<notin> (set_arrows loop_partition)\<^sup>+"
  proof
    assume "(1, 0) \<in> (set_arrows loop_partition)\<^sup>+"
    then show False by (auto simp: loop_parts(3) elim: converse_tranclE)
  qed
  ultimately show "isAncestor loop_partition 1 0 = Inl NoReturn"
    using ancestor_search [OF loop_parts(1), of 0 1] by (auto simp: loop_parts(2))
qed

end
