(* ===== verification/DomSummary.thy ===== *)
theory DomSummary
  imports NoellePrelude "HOL-Library.Word"
begin

text \<open>
  Summaries of LLVM's dominator trees: \<open>core/basic_utilities/src/DominatorSummary.cpp\<close> and its header.

  A \<open>DomTreeSummary\<close> is a heap of \<open>DomNodeSummary\<close> objects (\<open>dom_node\<close>, addressed by natural numbers) with the set
  of its nodes and the map from blocks to nodes. A block is \<open>Some\<close> of an address, \<open>None\<close> is the null block of the
  virtual exit node of LLVM's post-dominator tree. The template \<open>cloneNodes\<close> reads a node type only through
  \<open>getBlock\<close>, \<open>getLevel\<close>, \<open>getIDom\<close> and \<open>getChildren\<close>: the record \<open>node_view\<close>, which LLVM's tree gives as a
  parameter and \<open>summary_view\<close> gives for a summary. The flag \<open>post\<close>, which the constructors from a node set leave
  uninitialised, is an argument of the copying constructor.
\<close>

section \<open>Nodes\<close>

type_synonym block = "nat option"

record dom_node =
  dn_B :: block
  dn_level :: "32 word"
  dn_parent :: "nat option"
  dn_iDom :: "nat option"
  dn_children :: "nat list"

record 'n node_view =
  view_block :: "'n \<Rightarrow> block"
  view_level :: "'n \<Rightarrow> 32 word"
  view_iDom :: "'n \<Rightarrow> 'n option"
  view_children :: "'n \<Rightarrow> 'n list"

definition new_dom_node :: "'n node_view \<Rightarrow> 'n \<Rightarrow> dom_node" where
  "new_dom_node v node =
     \<lparr>dn_B = view_block v node, dn_level = view_level v node, dn_parent = None, dn_iDom = None, dn_children = []\<rparr>"

record dom_tree =
  dt_nodes :: "nat list"
  bbNodeMap :: "block \<rightharpoonup> nat"
  dt_post :: bool
  dt_mem :: "nat \<Rightarrow> dom_node"
  dt_next :: nat

definition summary_view :: "dom_tree \<Rightarrow> nat node_view" where
  "summary_view t =
     \<lparr>view_block = \<lambda>n. dn_B (dt_mem t n), view_level = \<lambda>n. dn_level (dt_mem t n),
      view_iDom = \<lambda>n. dn_iDom (dt_mem t n), view_children = \<lambda>n. dn_children (dt_mem t n)\<rparr>"

definition empty_tree :: "bool \<Rightarrow> dom_tree" where
  "empty_tree post = \<lparr>dt_nodes = [], bbNodeMap = (\<lambda>_. None), dt_post = post, dt_mem = (\<lambda>_. undefined), dt_next = 0\<rparr>"

section \<open>Cloning a set of nodes\<close>

definition clone_alloc :: "'n node_view \<Rightarrow> 'n \<Rightarrow> dom_tree \<times> ('n \<rightharpoonup> nat) \<Rightarrow> dom_tree \<times> ('n \<rightharpoonup> nat)" where
  "clone_alloc v node = (\<lambda>(t, nodeMap).
     let summary = dt_next t
     in (t\<lparr>dt_mem := (dt_mem t)(summary := new_dom_node v node), dt_next := Suc summary,
           dt_nodes := uset_insert summary (dt_nodes t),
           bbNodeMap := (bbNodeMap t)(view_block v node \<mapsto> summary)\<rparr>,
         nodeMap(node \<mapsto> summary)))"

definition update_node :: "nat \<Rightarrow> (dom_node \<Rightarrow> dom_node) \<Rightarrow> dom_tree \<Rightarrow> dom_tree" where
  "update_node n f t = t\<lparr>dt_mem := (dt_mem t)(n := f (dt_mem t n))\<rparr>"

definition clone_child :: "('n \<rightharpoonup> nat) \<Rightarrow> nat \<Rightarrow> 'n \<Rightarrow> dom_tree \<Rightarrow> dom_tree" where
  "clone_child nodeMap summary child t =
     (case nodeMap child of
        None \<Rightarrow> t
      | Some childSummary \<Rightarrow>
          update_node summary (\<lambda>r. r\<lparr>dn_children := dn_children r @ [childSummary]\<rparr>)
            (update_node childSummary (\<lambda>r. r\<lparr>dn_parent := Some summary\<rparr>) t))"

definition clone_idom :: "'n node_view \<Rightarrow> ('n \<rightharpoonup> nat) \<Rightarrow> 'n \<Rightarrow> nat option" where
  "clone_idom v nodeMap node = (case view_iDom v node of None \<Rightarrow> None | Some d \<Rightarrow> nodeMap d)"

definition clone_link :: "'n node_view \<Rightarrow> ('n \<rightharpoonup> nat) \<Rightarrow> 'n \<Rightarrow> dom_tree \<Rightarrow> dom_tree res" where
  "clone_link v nodeMap node t =
     (case nodeMap node of
        None \<Rightarrow> Inl NullDeref
      | Some summary \<Rightarrow>
          let t1 = (case clone_idom v nodeMap node of
                      None \<Rightarrow> t | Some d \<Rightarrow> update_node summary (\<lambda>r. r\<lparr>dn_iDom := Some d\<rparr>) t)
          in Inr (fold (clone_child nodeMap summary) (view_children v node) t1))"

definition cloneNodes :: "'n node_view \<Rightarrow> 'n list \<Rightarrow> dom_tree \<Rightarrow> dom_tree res" where
  "cloneNodes v nodesToClone t =
     (let (t1, nodeMap) = fold (clone_alloc v) nodesToClone (t, \<lambda>_. None)
      in foldE (clone_link v nodeMap) nodesToClone t1)"

section \<open>Construction\<close>

text \<open>LLVM's tree: its nodes through their view, the root blocks, the node of a block and the root node (null in an empty
  tree).\<close>

record 'n llvm_tree =
  lt_view :: "'n node_view"
  lt_roots :: "nat list"
  lt_getNode :: "nat \<Rightarrow> 'n option"
  lt_rootNode :: "'n option"

text \<open>The worklist is a vector used as a stack: its back is the head of the list.\<close>

definition collect_step :: "'n llvm_tree \<Rightarrow> 'n list \<times> 'n option list \<Rightarrow> ('n list \<times> 'n option list) res" where
  "collect_step T = (\<lambda>(nodes, worklist).
     case worklist of
       [] \<Rightarrow> Inl OutOfRange
     | None # _ \<Rightarrow> Inl NullDeref
     | Some node # rest \<Rightarrow> Inr (uset_insert node nodes, rev (map Some (view_children (lt_view T) node)) @ rest))"

definition collectNodesOfTree :: "'n llvm_tree \<Rightarrow> 'n list res" where
  "collectNodesOfTree T =
     andThen (whileE (\<lambda>(_, worklist). worklist \<noteq> []) (collect_step T)
                ([], lt_rootNode T # rev (map (lt_getNode T) (lt_roots T))))
       (\<lambda>(nodes, _). Inr nodes)"

definition DomTreeSummary_of :: "bool \<Rightarrow> 'n llvm_tree \<Rightarrow> dom_tree res" where
  "DomTreeSummary_of post T =
     andThen (collectNodesOfTree T) (\<lambda>nodes. cloneNodes (lt_view T) nodes (empty_tree post))"

definition filterNodes :: "dom_tree \<Rightarrow> block list \<Rightarrow> nat list" where
  "filterNodes t bbSubset = filter (\<lambda>n. dn_B (dt_mem t n) \<in> set bbSubset) (dt_nodes t)"

definition DomTreeSummary_filtered :: "bool \<Rightarrow> dom_tree \<Rightarrow> block list \<Rightarrow> dom_tree res" where
  "DomTreeSummary_filtered uninitialised t bbSubset =
     cloneNodes (summary_view t) (filterNodes t bbSubset) (empty_tree uninitialised)"

definition transferToClones :: "(block \<rightharpoonup> block) \<Rightarrow> dom_tree \<Rightarrow> dom_tree res" where
  "transferToClones bbCloneMap t =
     foldE (\<lambda>n t. case bbCloneMap (dn_B (dt_mem t n)) of
                    None \<Rightarrow> Inl AssertFailed
                  | Some b \<Rightarrow> Inr (update_node n (\<lambda>r. r\<lparr>dn_B := b\<rparr>) t)) (dt_nodes t) t"

section \<open>Queries\<close>

definition getNode :: "dom_tree \<Rightarrow> block \<Rightarrow> nat option" where
  "getNode t B = bbNodeMap t B"

definition dominates_step :: "dom_tree \<Rightarrow> nat \<Rightarrow> nat list \<times> bool \<Rightarrow> (nat list \<times> bool) res" where
  "dominates_step t node2 = (\<lambda>(worklist, found).
     case worklist of
       [] \<Rightarrow> Inl OutOfRange
     | node # rest \<Rightarrow>
         if node = node2 then Inr (rest, True) else Inr (rest @ dn_children (dt_mem t node), False))"

definition dominates_nodes :: "dom_tree \<Rightarrow> nat \<Rightarrow> nat \<Rightarrow> bool res" where
  "dominates_nodes t node1 node2 =
     andThen (whileE (\<lambda>(worklist, found). worklist \<noteq> [] \<and> \<not> found) (dominates_step t node2) ([node1], False))
       (\<lambda>(_, found). Inr found)"

definition dominates_blocks :: "dom_tree \<Rightarrow> block \<Rightarrow> block \<Rightarrow> bool res" where
  "dominates_blocks t B1 B2 =
     (case (getNode t B1, getNode t B2) of
        (Some n1, Some n2) \<Rightarrow> dominates_nodes t n1 n2
      | _ \<Rightarrow> Inl AssertFailed)"

text \<open>Instructions are known by their block and by the next instruction of the block (\<open>Instruction::getParent\<close> and
  \<open>getNextNode\<close> of LLVM).\<close>

record llvm_code =
  inst_parent :: "nat \<Rightarrow> block"
  inst_next :: "nat \<Rightarrow> nat option"

definition find_after :: "llvm_code \<Rightarrow> nat \<Rightarrow> nat \<Rightarrow> bool res" where
  "find_after L secondOne I =
     andThen (whileE (\<lambda>firstOne. firstOne \<noteq> None \<and> firstOne \<noteq> Some secondOne)
                (\<lambda>firstOne. case firstOne of None \<Rightarrow> Inl NullDeref | Some i \<Rightarrow> Inr (inst_next L i)) (Some I))
       (\<lambda>firstOne. Inr (firstOne = Some secondOne))"

definition dominates_insts :: "llvm_code \<Rightarrow> dom_tree \<Rightarrow> nat \<Rightarrow> nat \<Rightarrow> bool res" where
  "dominates_insts L t I J =
     (let B1 = inst_parent L I; B2 = inst_parent L J
      in if B1 = B2 then andThen (find_after L J I) (\<lambda>found. Inr (if found then \<not> dt_post t else dt_post t))
         else dominates_blocks t B1 B2)"

definition dominators_of :: "dom_tree \<Rightarrow> nat \<Rightarrow> nat list res" where
  "dominators_of t node =
     andThen (whileE (\<lambda>(_, node). dn_parent (dt_mem t node) \<noteq> None)
                (\<lambda>(dominators, node). case dn_parent (dt_mem t node) of
                    None \<Rightarrow> Inl NullDeref | Some p \<Rightarrow> Inr (uset_insert node dominators, p)) ([], node))
       (\<lambda>(dominators, _). Inr dominators)"

definition nearest_common_node :: "dom_tree \<Rightarrow> nat \<Rightarrow> nat \<Rightarrow> nat option res" where
  "nearest_common_node t node1 node2 =
     andThen (dominators_of t node2) (\<lambda>dominatorsOf2.
       whileE (\<lambda>node. case node of None \<Rightarrow> False | Some n \<Rightarrow> n \<notin> set dominatorsOf2)
         (\<lambda>node. case node of None \<Rightarrow> Inl NullDeref | Some n \<Rightarrow> Inr (dn_parent (dt_mem t n))) (Some node1))"

definition findNearestCommonDominator :: "dom_tree \<Rightarrow> block \<Rightarrow> block \<Rightarrow> block res" where
  "findNearestCommonDominator t B1 B2 =
     check (B1 \<noteq> None \<and> B2 \<noteq> None) AssertFailed
     (case (getNode t B1, getNode t B2) of
        (Some n1, Some n2) \<Rightarrow>
          andThen (nearest_common_node t n1 n2)
            (\<lambda>c. case c of None \<Rightarrow> Inl AssertFailed | Some c \<Rightarrow> Inr (dn_B (dt_mem t c)))
      | _ \<Rightarrow> Inl AssertFailed)"

section \<open>The pair of summaries\<close>

record dominator_summary =
  ds_DT :: dom_tree
  ds_PDT :: dom_tree

definition DominatorSummary_of :: "'n llvm_tree \<Rightarrow> 'm llvm_tree \<Rightarrow> dominator_summary res" where
  "DominatorSummary_of dt pdt =
     andThen (DomTreeSummary_of False dt) (\<lambda>d.
     andThen (DomTreeSummary_of True pdt) (\<lambda>p. Inr \<lparr>ds_DT = d, ds_PDT = p\<rparr>))"

definition DominatorSummary_filtered ::
  "bool \<Rightarrow> bool \<Rightarrow> dominator_summary \<Rightarrow> block list \<Rightarrow> dominator_summary res" where
  "DominatorSummary_filtered u1 u2 ds bbSubset =
     andThen (DomTreeSummary_filtered u1 (ds_DT ds) bbSubset) (\<lambda>d.
     andThen (DomTreeSummary_filtered u2 (ds_PDT ds) bbSubset) (\<lambda>p. Inr \<lparr>ds_DT = d, ds_PDT = p\<rparr>))"

definition transferSummaryToClones :: "(block \<rightharpoonup> block) \<Rightarrow> dominator_summary \<Rightarrow> dominator_summary res" where
  "transferSummaryToClones bbCloneMap ds =
     andThen (transferToClones bbCloneMap (ds_DT ds)) (\<lambda>d.
     andThen (transferToClones bbCloneMap (ds_PDT ds)) (\<lambda>p. Inr \<lparr>ds_DT = d, ds_PDT = p\<rparr>))"

end
