(* ===== verification/DomSummaryCorrect.thy ===== *)
theory DomSummaryCorrect
  imports DomSummary "HOL-Library.Multiset"
begin

text \<open>
  Correctness of the dominator-tree summaries: a clone is an isomorphic copy of the part of the tree it was made from, the
  search decides dominance in that part, and the nearest common dominator is found below the root.
\<close>

section \<open>Trees seen through a view\<close>

definition view_edges :: "'n node_view \<Rightarrow> 'n set \<Rightarrow> ('n \<times> 'n) set" where
  "view_edges v N = {(a, b). a \<in> N \<and> b \<in> N \<and> b \<in> set (view_children v a)}"

text \<open>What LLVM documents of a dominator tree, on a finite part of it: every node has a block of its own, the children of a
  node are the nodes it immediately dominates, listed once, and no node is below itself.\<close>

definition forest_view :: "'n node_view \<Rightarrow> 'n set \<Rightarrow> bool" where
  "forest_view v N \<longleftrightarrow> finite N \<and> inj_on (view_block v) N \<and> acyclic (view_edges v N) \<and>
     (\<forall>n \<in> N. distinct (view_children v n)) \<and>
     (\<forall>n \<in> N. \<forall>c \<in> N. c \<in> set (view_children v n) \<longleftrightarrow> view_iDom v c = Some n)"

lemma forest_viewD:
  assumes "forest_view v N"
  shows "finite N" "inj_on (view_block v) N" "acyclic (view_edges v N)"
    "\<And>n. n \<in> N \<Longrightarrow> distinct (view_children v n)"
    "\<And>n c. n \<in> N \<Longrightarrow> c \<in> N \<Longrightarrow> c \<in> set (view_children v n) \<longleftrightarrow> view_iDom v c = Some n"
  using assms by (simp_all add: forest_view_def)

lemma view_edges_mono: "M \<subseteq> N \<Longrightarrow> view_edges v M \<subseteq> view_edges v N"
  by (auto simp: view_edges_def)

lemma forest_view_subset: "forest_view v N \<Longrightarrow> M \<subseteq> N \<Longrightarrow> forest_view v M"
  unfolding forest_view_def
  by (auto intro: finite_subset inj_on_subset acyclic_subset [OF _ view_edges_mono])

lemma forest_view_wf: "forest_view v N \<Longrightarrow> wf ((view_edges v N)\<inverse>)"
  using forest_viewD(1,3) [of v N]
  by (intro finite_acyclic_wf_converse) (auto simp: view_edges_def intro: finite_subset [of _ "N \<times> N"])

section \<open>Cloning\<close>

definition alloc_inv :: "'n node_view \<Rightarrow> 'n set \<Rightarrow> dom_tree \<Rightarrow> ('n \<rightharpoonup> nat) \<Rightarrow> bool" where
  "alloc_inv v N t m \<longleftrightarrow> dom m = N \<and> inj_on m N \<and> set (dt_nodes t) = ran m \<and> distinct (dt_nodes t) \<and>
     (\<forall>s \<in> ran m. s < dt_next t) \<and> (\<forall>n \<in> N. dt_mem t (the (m n)) = new_dom_node v n) \<and>
     (\<forall>n \<in> N. bbNodeMap t (view_block v n) = m n) \<and> dom (bbNodeMap t) = view_block v ` N"

lemma alloc_inv_empty: "alloc_inv v {} (empty_tree post) (\<lambda>_. None)"
  by (simp add: alloc_inv_def empty_tree_def)

lemma alloc_inv_step:
  assumes inv: "alloc_inv v N t m" and n: "n \<notin> N" and inj: "inj_on (view_block v) (insert n N)"
  shows "case clone_alloc v n (t, m) of (t', m') \<Rightarrow> alloc_inv v (insert n N) t' m' \<and> dt_post t' = dt_post t"
proof -
  let ?s = "dt_next t"
  have d: "dom m = N" and im: "inj_on m N" and ns: "set (dt_nodes t) = ran m" "distinct (dt_nodes t)"
    and lt: "\<And>s. s \<in> ran m \<Longrightarrow> s < ?s" and mem: "\<And>a. a \<in> N \<Longrightarrow> dt_mem t (the (m a)) = new_dom_node v a"
    and bb: "\<And>a. a \<in> N \<Longrightarrow> bbNodeMap t (view_block v a) = m a" "dom (bbNodeMap t) = view_block v ` N"
    using inv by (auto simp: alloc_inv_def)
  have fresh: "?s \<notin> ran m" using lt by blast
  have mn: "m n = None" using d n by auto
  have old: "the (m a) \<noteq> ?s" if "a \<in> N" for a
  proof -
    from that d obtain s where "m a = Some s" by auto
    then show ?thesis using fresh by (auto simp: ran_def)
  qed
  have ne: "m a \<noteq> Some ?s" for a using fresh by (auto simp: ran_def)
  have blk: "view_block v a \<noteq> view_block v n" if "a \<in> N" for a
    using inj n that by (auto simp: inj_on_def)
  have an: "a \<noteq> n" if "a \<in> N" for a using n that by auto
  have "inj_on (m(n \<mapsto> ?s)) (insert n N)"
    using im n ne by (auto simp: inj_on_def) metis+
  moreover have "ran (m(n \<mapsto> ?s)) = insert ?s (ran m)" using mn by (simp add: ran_map_upd)
  ultimately show ?thesis
    using d ns lt mem bb old blk an fresh
    by (auto simp: clone_alloc_def Let_def alloc_inv_def less_Suc_eq)
qed

lemma alloc_all:
  assumes "distinct ns" and "inj_on (view_block v) (set ns)"
  shows "case fold (clone_alloc v) ns (empty_tree post, \<lambda>_. None) of (t, m) \<Rightarrow>
    alloc_inv v (set ns) t m \<and> dt_post t = post"
  using assms
proof (induction ns rule: rev_induct)
  case Nil
  have "dt_post (empty_tree post) = post" by (simp add: empty_tree_def)
  then show ?case using alloc_inv_empty by simp
next
  case (snoc n ns)
  obtain t m where tm: "fold (clone_alloc v) ns (empty_tree post, \<lambda>_. None) = (t, m)" by fastforce
  have "inj_on (view_block v) (set ns)" using snoc.prems(2) by (auto intro: inj_on_subset)
  with snoc tm have "alloc_inv v (set ns) t m" "dt_post t = post" by auto
  moreover have "n \<notin> set ns" "inj_on (view_block v) (insert n (set ns))" using snoc.prems by auto
  ultimately show ?case using alloc_inv_step [of v "set ns" t m n] tm by auto
qed

definition linked :: "'n node_view \<Rightarrow> ('n \<rightharpoonup> nat) \<Rightarrow> 'n set \<Rightarrow> 'n \<Rightarrow> dom_node" where
  "linked v m P n =
     \<lparr>dn_B = view_block v n, dn_level = view_level v n,
      dn_parent = (case view_iDom v n of None \<Rightarrow> None | Some p \<Rightarrow> if p \<in> P then m p else None),
      dn_iDom = (if n \<in> P then clone_idom v m n else None),
      dn_children = (if n \<in> P then List.map_filter m (view_children v n) else [])\<rparr>"

lemma clone_child_fold:
  "dt_mem (fold (clone_child m s) cs t) x =
     (let r = dt_mem t x;
          r1 = (if \<exists>c \<in> set cs. m c = Some x then r\<lparr>dn_parent := Some s\<rparr> else r)
      in if x = s then r1\<lparr>dn_children := dn_children r @ List.map_filter m cs\<rparr> else r1)"
  by (induction cs arbitrary: t)
    (auto simp: clone_child_def update_node_def Let_def map_filter_simps split: option.split)

lemma clone_child_frame:
  "dt_nodes (fold (clone_child m s) cs t) = dt_nodes t"
  "bbNodeMap (fold (clone_child m s) cs t) = bbNodeMap t"
  "dt_post (fold (clone_child m s) cs t) = dt_post t"
  by (induction cs arbitrary: t) (auto simp: clone_child_def update_node_def split: option.split)

definition link_inv :: "'n node_view \<Rightarrow> 'n set \<Rightarrow> ('n \<rightharpoonup> nat) \<Rightarrow> dom_tree \<Rightarrow> 'n set \<Rightarrow> dom_tree \<Rightarrow> bool" where
  "link_inv v N m t0 P t \<longleftrightarrow> (\<forall>n \<in> N. dt_mem t (the (m n)) = linked v m P n) \<and>
     dt_nodes t = dt_nodes t0 \<and> bbNodeMap t = bbNodeMap t0 \<and> dt_post t = dt_post t0"

lemma link_inv_step:
  assumes fv: "forest_view v N" and m: "dom m = N" "inj_on m N" and inv: "link_inv v N m t0 P t"
    and p: "p \<in> N" "p \<notin> P"
  shows "\<exists>t'. clone_link v m p t = Inr t' \<and> link_inv v N m t0 (insert p P) t'"
proof -
  obtain s where s: "m p = Some s" using m(1) p(1) by auto
  have the_eq: "the (m a) = the (m b) \<longleftrightarrow> a = b" if "a \<in> N" "b \<in> N" for a b
  proof -
    from that m(1) obtain x y where "m a = Some x" "m b = Some y" by blast
    with inj_on_eq_iff [OF m(2) that] show ?thesis by simp
  qed
  let ?t1 = "case clone_idom v m p of None \<Rightarrow> t | Some d \<Rightarrow> update_node s (\<lambda>r. r\<lparr>dn_iDom := Some d\<rparr>) t"
  let ?t2 = "fold (clone_child m s) (view_children v p) ?t1"
  have run: "clone_link v m p t = Inr ?t2" by (simp add: clone_link_def s)
  have t1: "dt_mem ?t1 x = (if x = s then (dt_mem t x)\<lparr>dn_iDom := clone_idom v m p\<rparr> else dt_mem t x)"
    if "dn_iDom (dt_mem t s) = None" for x
    using that by (auto simp: update_node_def split: option.split)
  have ps: "dt_mem t s = linked v m P p" using inv p(1) s by (force simp: link_inv_def)
  then have id0: "dn_iDom (dt_mem t s) = None" using p(2) by (simp add: linked_def)
  have "dt_mem ?t2 (the (m n)) = linked v m (insert p P) n" if n: "n \<in> N" for n
  proof -
    have child: "(\<exists>c \<in> set (view_children v p). m c = Some (the (m n))) \<longleftrightarrow> view_iDom v n = Some p"
    proof -
      obtain x where x: "m n = Some x" using n m(1) by auto
      have "(\<exists>c \<in> set (view_children v p). m c = Some x) \<longleftrightarrow> n \<in> set (view_children v p)"
      proof
        assume "\<exists>c \<in> set (view_children v p). m c = Some x"
        then obtain c where c: "c \<in> set (view_children v p)" "m c = Some x" by blast
        then have "c = n" using inj_onD [OF m(2), of c n] x m(1) n by auto
        with c show "n \<in> set (view_children v p)" by simp
      qed (use x in blast)
      then show ?thesis using forest_viewD(5) [OF fv p(1) n] x by simp
    qed
    have old: "dt_mem t (the (m n)) = linked v m P n" using inv n by (simp add: link_inv_def)
    have eq: "the (m n) = s \<longleftrightarrow> n = p" using the_eq [OF n p(1)] s by simp
    show ?thesis
      unfolding clone_child_fold t1 [OF id0] child Let_def eq old
      using s p(2) by (auto simp: linked_def split: option.split)
  qed
  moreover have "dt_nodes ?t1 = dt_nodes t \<and> bbNodeMap ?t1 = bbNodeMap t \<and> dt_post ?t1 = dt_post t"
    by (auto simp: update_node_def split: option.split)
  ultimately show ?thesis using run inv by (auto simp: link_inv_def clone_child_frame)
qed

definition is_clone :: "'n node_view \<Rightarrow> 'n set \<Rightarrow> ('n \<rightharpoonup> nat) \<Rightarrow> dom_tree \<Rightarrow> bool" where
  "is_clone v N m t \<longleftrightarrow> dom m = N \<and> inj_on m N \<and> set (dt_nodes t) = ran m \<and> distinct (dt_nodes t) \<and>
     (\<forall>n \<in> N. dt_mem t (the (m n)) = linked v m N n) \<and>
     (\<forall>n \<in> N. bbNodeMap t (view_block v n) = m n) \<and> dom (bbNodeMap t) = view_block v ` N"

lemma link_all:
  assumes fv: "forest_view v N" and m: "dom m = N" "inj_on m N" and inv: "link_inv v N m t0 P t"
    and ns: "distinct ns" "set ns \<subseteq> N" "set ns \<inter> P = {}"
  shows "\<exists>t'. foldE (clone_link v m) ns t = Inr t' \<and> link_inv v N m t0 (P \<union> set ns) t'"
  using inv ns
proof (induction ns arbitrary: P t)
  case Nil
  then show ?case by simp
next
  case (Cons n ns)
  obtain t1 where t1: "clone_link v m n t = Inr t1" "link_inv v N m t0 (insert n P) t1"
    using link_inv_step [OF fv m Cons.prems(1), of n] Cons.prems(3,4) by auto
  have "distinct ns" "set ns \<subseteq> N" "set ns \<inter> insert n P = {}" using Cons.prems(2-4) by auto
  from Cons.IH [OF t1(2) this] t1(1) show ?case by auto
qed

theorem cloneNodes_ok:
  assumes fv: "forest_view v (set ns)" and d: "distinct ns"
  shows "\<exists>t m. cloneNodes v ns (empty_tree post) = Inr t \<and> is_clone v (set ns) m t \<and> dt_post t = post"
proof -
  obtain t0 m where tm: "fold (clone_alloc v) ns (empty_tree post, \<lambda>_. None) = (t0, m)" by fastforce
  have inv: "alloc_inv v (set ns) t0 m" "dt_post t0 = post"
    using alloc_all [OF d forest_viewD(2) [OF fv], of post] tm by auto
  have m: "dom m = set ns" "inj_on m (set ns)" using inv(1) by (auto simp: alloc_inv_def)
  have "link_inv v (set ns) m t0 {} t0"
    using inv(1) by (auto simp: link_inv_def alloc_inv_def linked_def new_dom_node_def split: option.split)
  from link_all [OF fv m this d] obtain t where
    t: "foldE (clone_link v m) ns t0 = Inr t" "link_inv v (set ns) m t0 (set ns) t" by auto
  have "is_clone v (set ns) m t" using t(2) inv(1) by (auto simp: link_inv_def alloc_inv_def is_clone_def)
  moreover have "dt_post t = post" using t(2) inv(2) by (simp add: link_inv_def)
  moreover have "cloneNodes v ns (empty_tree post) = Inr t" by (simp add: cloneNodes_def tm t(1))
  ultimately show ?thesis by blast
qed

section \<open>The clone as a tree\<close>

text \<open>The tree on blocks: what a copy keeps.\<close>

definition block_edges :: "'n node_view \<Rightarrow> 'n set \<Rightarrow> (block \<times> block) set" where
  "block_edges v N = map_prod (view_block v) (view_block v) ` view_edges v N"

abbreviation dom_edges :: "dom_tree \<Rightarrow> (nat \<times> nat) set" where
  "dom_edges t \<equiv> view_edges (summary_view t) (set (dt_nodes t))"

definition dt_ok :: "dom_tree \<Rightarrow> bool" where
  "dt_ok t \<longleftrightarrow> distinct (dt_nodes t) \<and> forest_view (summary_view t) (set (dt_nodes t)) \<and>
     (\<forall>n \<in> set (dt_nodes t). set (dn_children (dt_mem t n)) \<subseteq> set (dt_nodes t) \<and>
        dn_parent (dt_mem t n) = dn_iDom (dt_mem t n) \<and> set_option (dn_iDom (dt_mem t n)) \<subseteq> set (dt_nodes t)) \<and>
     (\<forall>b n. getNode t b = Some n \<longleftrightarrow> n \<in> set (dt_nodes t) \<and> dn_B (dt_mem t n) = b)"

lemma dt_okD:
  assumes "dt_ok t"
  shows "distinct (dt_nodes t)" "forest_view (summary_view t) (set (dt_nodes t))"
    "\<And>n. n \<in> set (dt_nodes t) \<Longrightarrow> set (dn_children (dt_mem t n)) \<subseteq> set (dt_nodes t)"
    "\<And>n. n \<in> set (dt_nodes t) \<Longrightarrow> dn_parent (dt_mem t n) = dn_iDom (dt_mem t n)"
    "\<And>n p. n \<in> set (dt_nodes t) \<Longrightarrow> dn_iDom (dt_mem t n) = Some p \<Longrightarrow> p \<in> set (dt_nodes t)"
    "\<And>b n. getNode t b = Some n \<longleftrightarrow> n \<in> set (dt_nodes t) \<and> dn_B (dt_mem t n) = b"
  using assms by (auto simp: dt_ok_def)

lemma dom_edges_iff:
  assumes "dt_ok t"
  shows "(a, b) \<in> dom_edges t \<longleftrightarrow> b \<in> set (dt_nodes t) \<and> dn_parent (dt_mem t b) = Some a"
proof -
  have "(a, b) \<in> dom_edges t \<longleftrightarrow> a \<in> set (dt_nodes t) \<and> b \<in> set (dt_nodes t) \<and> dn_iDom (dt_mem t b) = Some a"
    using forest_viewD(5) [OF dt_okD(2) [OF assms], of a b] by (auto simp: view_edges_def summary_view_def)
  then show ?thesis using dt_okD(4,5) [OF assms] by auto
qed

lemma map_filter_restrict:
  assumes "\<And>c. c \<in> set cs \<Longrightarrow> m c = (if c \<in> N then Some (f c) else None)"
  shows "List.map_filter m cs = map f (filter (\<lambda>c. c \<in> N) cs)"
  using assms by (induction cs) (auto simp: map_filter_simps)

lemma is_clone_ok:
  assumes fv: "forest_view v N" and c: "is_clone v N m t"
  shows "dt_ok t" and "block_edges (summary_view t) (set (dt_nodes t)) = block_edges v N"
    and "(\<lambda>n. dn_B (dt_mem t n)) ` set (dt_nodes t) = view_block v ` N"
proof -
  define f where "f n = the (m n)" for n
  have d: "dom m = N" and i: "inj_on m N" and ns: "set (dt_nodes t) = ran m" "distinct (dt_nodes t)"
    and mem: "\<And>n. n \<in> N \<Longrightarrow> dt_mem t (f n) = linked v m N n"
    and bb: "\<And>n. n \<in> N \<Longrightarrow> bbNodeMap t (view_block v n) = m n" "dom (bbNodeMap t) = view_block v ` N"
    using c by (auto simp: is_clone_def f_def)
  have m: "m n = (if n \<in> N then Some (f n) else None)" for n using d by (auto simp: f_def dom_def)
  have fi: "f a = f b \<longleftrightarrow> a = b" if "a \<in> N" "b \<in> N" for a b using inj_on_eq_iff [OF i that] that by (simp add: m)
  then have inj: "inj_on f N" by (auto simp: inj_on_def)
  have nodes: "set (dt_nodes t) = f ` N" unfolding ns(1) by (auto simp: ran_def m split: if_splits)
  have par: "dn_iDom (dt_mem t (f n)) = (case view_iDom v n of None \<Rightarrow> None | Some p \<Rightarrow> if p \<in> N then Some (f p) else None)"
    and par': "dn_parent (dt_mem t (f n)) = dn_iDom (dt_mem t (f n))"
    and B: "dn_B (dt_mem t (f n)) = view_block v n"
    and ch: "dn_children (dt_mem t (f n)) = map f (filter (\<lambda>c. c \<in> N) (view_children v n))" if "n \<in> N" for n
    using mem [OF that] that map_filter_restrict [of "view_children v n" m N f] m
    by (auto simp: linked_def clone_idom_def split: option.split)
  have E: "view_edges (summary_view t) (f ` N) = map_prod f f ` view_edges v N"
  proof (intro set_eqI iffI)
    fix x assume "x \<in> view_edges (summary_view t) (f ` N)"
    then obtain a b where x: "x = (f a, f b)" "a \<in> N" "b \<in> N" "f b \<in> f ` {c \<in> set (view_children v a). c \<in> N}"
      by (auto simp: view_edges_def summary_view_def ch)
    then have "b \<in> set (view_children v a)" using fi by auto
    with x show "x \<in> map_prod f f ` view_edges v N" by (force simp: view_edges_def)
  next
    fix x assume "x \<in> map_prod f f ` view_edges v N"
    then show "x \<in> view_edges (summary_view t) (f ` N)" by (auto simp: view_edges_def summary_view_def ch)
  qed
  have "acyclic (view_edges (summary_view t) (f ` N))"
  proof -
    have "wf (map_prod f f ` (view_edges v N)\<inverse>)"
    proof (rule wf_map_prod_image_Dom_Ran [OF forest_view_wf [OF fv]])
      show "a = b" if "a \<in> Domain ((view_edges v N)\<inverse>)" "b \<in> Range ((view_edges v N)\<inverse>)" "f a = f b" for a b
        using that fi by (auto simp: view_edges_def)
    qed
    moreover have "(map_prod f f ` view_edges v N)\<inverse> = map_prod f f ` (view_edges v N)\<inverse>" by force
    ultimately show ?thesis unfolding E using wf_acyclic acyclic_converse by metis
  qed
  moreover have "inj_on (\<lambda>n. dn_B (dt_mem t n)) (f ` N)"
    using forest_viewD(2) [OF fv] B by (auto simp: inj_on_def)
  moreover have "distinct (dn_children (dt_mem t (f n)))" if "n \<in> N" for n
    using forest_viewD(4) [OF fv that] inj by (auto simp: ch [OF that] distinct_map intro: inj_on_subset)
  moreover have "f b \<in> set (dn_children (dt_mem t (f a))) \<longleftrightarrow> dn_iDom (dt_mem t (f b)) = Some (f a)"
    if ab: "a \<in> N" "b \<in> N" for a b
  proof -
    have "f b \<in> set (dn_children (dt_mem t (f a))) \<longleftrightarrow> b \<in> set (view_children v a)" using fi ab by (auto simp: ch)
    also have "\<dots> \<longleftrightarrow> view_iDom v b = Some a" by (rule forest_viewD(5) [OF fv ab])
    also have "\<dots> \<longleftrightarrow> dn_iDom (dt_mem t (f b)) = Some (f a)" using fi ab by (auto simp: par split: option.split)
    finally show ?thesis .
  qed
  ultimately have "forest_view (summary_view t) (f ` N)"
    using forest_viewD(1) [OF fv] by (simp add: forest_view_def summary_view_def)
  moreover have "getNode t b = Some n \<longleftrightarrow> n \<in> f ` N \<and> dn_B (dt_mem t n) = b" for b n
  proof
    assume "getNode t b = Some n"
    then have g: "bbNodeMap t b = Some n" by (simp add: getNode_def)
    then have "b \<in> view_block v ` N" using bb(2) by auto
    then obtain a where "a \<in> N" "b = view_block v a" by blast
    with g bb(1) m B show "n \<in> f ` N \<and> dn_B (dt_mem t n) = b" by auto
  next
    assume "n \<in> f ` N \<and> dn_B (dt_mem t n) = b"
    then show "getNode t b = Some n" using bb(1) m B by (auto simp: getNode_def)
  qed
  ultimately show "dt_ok t"
    using ns(2) unfolding dt_ok_def nodes by (auto simp: par par' ch split: option.splits if_splits)
  show "block_edges (summary_view t) (set (dt_nodes t)) = block_edges v N"
    unfolding block_edges_def nodes E image_image
    by (rule image_cong [OF refl]) (auto simp: summary_view_def view_edges_def B)
  show "(\<lambda>n. dn_B (dt_mem t n)) ` set (dt_nodes t) = view_block v ` N" unfolding nodes image_image
    by (rule image_cong [OF refl]) (simp add: B)
qed

section \<open>Searching the tree\<close>

lemma dominates_nodes_ok:
  assumes ok: "dt_ok t" and n: "n1 \<in> set (dt_nodes t)"
  shows "dominates_nodes t n1 n2 = Inr ((n1, n2) \<in> (dom_edges t)\<^sup>*)"
proof -
  let ?E = "dom_edges t" and ?V = "set (dt_nodes t)"
  let ?I = "\<lambda>(todo, found). set todo \<subseteq> ?V \<and> (if found then (n1, n2) \<in> ?E\<^sup>*
      else ((n1, n2) \<in> ?E\<^sup>* \<longleftrightarrow> (\<exists>x \<in> set todo. (x, n2) \<in> ?E\<^sup>*)))"
  let ?b = "\<lambda>(todo, found). todo \<noteq> [] \<and> \<not> found"
  let ?r = "inv_image (less_than <*lex*> mult1 (?E\<inverse>)) (\<lambda>(todo, f). (if f then 0 else 1 :: nat, mset todo))"
  have r: "wf ?r" using forest_view_wf [OF dt_okD(2) [OF ok]] by (intro wf_inv_image wf_lex_prod wf_mult1) auto
  have "\<exists>st. whileE ?b (dominates_step t n2) ([n1], False) = Inr st \<and> ?I st \<and> \<not> ?b st"
  proof (rule whileE_total [OF r])
    show "?I ([n1], False)" using n by simp
    fix st assume st: "?I st" "?b st"
    then obtain x todo where e: "st = (x # todo, False)" by (cases st) (auto simp: neq_Nil_conv)
    have x: "x \<in> ?V" using st(1) by (simp add: e)
    let ?cs = "dn_children (dt_mem t x)"
    have cs: "set ?cs \<subseteq> ?V" "\<And>c. c \<in> set ?cs \<longleftrightarrow> (x, c) \<in> ?E"
      using dt_okD(3) [OF ok x] x by (auto simp: view_edges_def summary_view_def)
    show "\<exists>s'. dominates_step t n2 st = Inr s' \<and> ?I s' \<and> (s', st) \<in> ?r"
    proof (cases "x = n2")
      case True
      with st(1) show ?thesis by (auto simp: e dominates_step_def)
    next
      case False
      have "(x, n2) \<in> ?E\<^sup>* \<longleftrightarrow> (\<exists>c \<in> set ?cs. (c, n2) \<in> ?E\<^sup>*)"
        using False cs(2) by (meson converse_rtranclE converse_rtrancl_into_rtrancl)
      then have "?I (todo @ ?cs, False)" using st(1) cs(1) by (auto simp: e)
      moreover have "(mset (todo @ ?cs), mset (x # todo)) \<in> mult1 (?E\<inverse>)"
        by (rule mult1I [of _ x "mset todo" _ "mset ?cs"]) (use cs(2) in auto)
      ultimately show ?thesis using False by (simp add: e dominates_step_def)
    qed
  qed
  then show ?thesis by (auto simp: dominates_nodes_def split: if_splits)
qed

lemma rtrancl_inj_image:
  assumes inj: "inj_on f N" and R: "R \<subseteq> N \<times> N" and ab: "a \<in> N" "b \<in> N"
  shows "(f a, f b) \<in> (map_prod f f ` R)\<^sup>* \<longleftrightarrow> (a, b) \<in> R\<^sup>*"
proof
  assume "(f a, f b) \<in> (map_prod f f ` R)\<^sup>*"
  then have "\<exists>c \<in> N. f b = f c \<and> (a, c) \<in> R\<^sup>*"
  proof (induction rule: rtrancl_induct)
    case base
    then show ?case using ab by blast
  next
    case (step y z)
    then obtain c where c: "c \<in> N" "y = f c" "(a, c) \<in> R\<^sup>*" by blast
    from step(2) obtain d e where de: "(d, e) \<in> R" "y = f d" "z = f e" by auto
    then have "d = c" "e \<in> N" using c R inj by (auto simp: inj_on_def)
    have "(a, e) \<in> R\<^sup>*" using c(3) de(1) \<open>d = c\<close> by (auto intro: rtrancl_into_rtrancl)
    with de(3) \<open>e \<in> N\<close> show ?case by blast
  qed
  with inj ab show "(a, b) \<in> R\<^sup>*" by (auto simp: inj_on_def)
next
  assume "(a, b) \<in> R\<^sup>*"
  then show "(f a, f b) \<in> (map_prod f f ` R)\<^sup>*"
    by induction (auto intro: rtrancl_into_rtrancl)
qed

abbreviation tree_blocks :: "dom_tree \<Rightarrow> block set" where
  "tree_blocks t \<equiv> (\<lambda>n. dn_B (dt_mem t n)) ` set (dt_nodes t)"

abbreviation tree_edges :: "dom_tree \<Rightarrow> (block \<times> block) set" where
  "tree_edges t \<equiv> block_edges (summary_view t) (set (dt_nodes t))"

lemma tree_path_iff:
  assumes ok: "dt_ok t" and n: "n1 \<in> set (dt_nodes t)" "n2 \<in> set (dt_nodes t)"
  shows "(dn_B (dt_mem t n1), dn_B (dt_mem t n2)) \<in> (tree_edges t)\<^sup>* \<longleftrightarrow> (n1, n2) \<in> (dom_edges t)\<^sup>*"
proof -
  have v: "view_block (summary_view t) = (\<lambda>n. dn_B (dt_mem t n))" by (simp add: summary_view_def)
  have "inj_on (\<lambda>n. dn_B (dt_mem t n)) (set (dt_nodes t))"
    using forest_viewD(2) [OF dt_okD(2) [OF ok]] by (simp add: v)
  from rtrancl_inj_image [OF this _ n, of "dom_edges t"] show ?thesis
    by (simp add: block_edges_def v) (auto simp: view_edges_def)
qed

lemma dominates_blocks_ok:
  assumes ok: "dt_ok t" and B: "B1 \<in> tree_blocks t" "B2 \<in> tree_blocks t"
  shows "dominates_blocks t B1 B2 = Inr ((B1, B2) \<in> (tree_edges t)\<^sup>*)"
proof -
  obtain n1 n2 where n: "n1 \<in> set (dt_nodes t)" "B1 = dn_B (dt_mem t n1)" "n2 \<in> set (dt_nodes t)" "B2 = dn_B (dt_mem t n2)"
    using B by blast
  then have "getNode t B1 = Some n1" "getNode t B2 = Some n2" using dt_okD(6) [OF ok] by auto
  then show ?thesis
    using dominates_nodes_ok [OF ok n(1)] tree_path_iff [OF ok n(1,3)] n(2,4) by (simp add: dominates_blocks_def)
qed

section \<open>Collecting LLVM's tree\<close>

text \<open>What the constructor relies on: a non-empty tree whose nodes, with the roots of \<open>getRoots()\<close> among them, are all below
  the root node.\<close>

definition llvm_tree_ok :: "'n llvm_tree \<Rightarrow> 'n set \<Rightarrow> bool" where
  "llvm_tree_ok T N \<longleftrightarrow> forest_view (lt_view T) N \<and> (\<forall>n \<in> N. set (view_children (lt_view T) n) \<subseteq> N) \<and>
     (\<exists>r \<in> N. lt_rootNode T = Some r \<and> N = (view_edges (lt_view T) N)\<^sup>* `` {r}) \<and>
     (\<forall>b \<in> set (lt_roots T). \<exists>n \<in> N. lt_getNode T b = Some n)"

lemma collectNodesOfTree_ok:
  assumes ok: "llvm_tree_ok T N"
  shows "\<exists>ns. collectNodesOfTree T = Inr ns \<and> set ns = N \<and> distinct ns"
proof -
  let ?v = "lt_view T" and ?E = "view_edges (lt_view T) N"
  obtain r where r: "r \<in> N" "lt_rootNode T = Some r" "N = ?E\<^sup>* `` {r}" using ok unfolding llvm_tree_ok_def by blast
  have fv: "forest_view ?v N" and ch: "\<And>n. n \<in> N \<Longrightarrow> set (view_children ?v n) \<subseteq> N"
    and roots: "\<And>b. b \<in> set (lt_roots T) \<Longrightarrow> \<exists>n \<in> N. lt_getNode T b = Some n"
    using ok by (auto simp: llvm_tree_ok_def)
  let ?I = "\<lambda>(ns, todo). set todo \<subseteq> Some ` N \<and> set ns \<subseteq> N \<and> distinct ns \<and>
      (r \<in> set ns \<or> Some r \<in> set todo) \<and> (\<forall>n \<in> set ns. \<forall>c \<in> set (view_children ?v n). c \<in> set ns \<or> Some c \<in> set todo)"
  let ?b = "\<lambda>(_, todo). todo \<noteq> []"
  let ?m = "inv_image (mult1 (?E\<inverse>)) (\<lambda>(ns, todo). mset (map the todo))"
  let ?s0 = "([], lt_rootNode T # rev (map (lt_getNode T) (lt_roots T)))"
  have m: "wf ?m" using forest_view_wf [OF fv] by (intro wf_inv_image wf_mult1)
  have "\<exists>st. whileE ?b (collect_step T) ?s0 = Inr st \<and> ?I st \<and> \<not> ?b st"
  proof (rule whileE_total [OF m])
    have "set (map (lt_getNode T) (lt_roots T)) \<subseteq> Some ` N" using roots by fastforce
    then show "?I ?s0" using r(1,2) by simp
    fix st assume st: "?I st" "?b st"
    then obtain ns x todo where "st = (ns, x # todo)" by (cases st) (auto simp: neq_Nil_conv)
    with st(1) obtain n where e: "st = (ns, Some n # todo)" and n: "n \<in> N" by auto
    let ?cs = "view_children ?v n"
    let ?s1 = "(uset_insert n ns, rev (map Some ?cs) @ todo)"
    have run: "collect_step T st = Inr ?s1" by (simp add: e collect_step_def)
    have I: "Some ` set ?cs \<subseteq> Some ` N" using ch [OF n] by blast
    have st1: "set todo \<subseteq> Some ` N" "set ns \<subseteq> N" "distinct ns" "r \<in> set ns \<or> r = n \<or> Some r \<in> set todo"
      "\<And>a c. a \<in> set ns \<Longrightarrow> c \<in> set (view_children ?v a) \<Longrightarrow> c \<in> set ns \<or> c = n \<or> Some c \<in> set todo"
      using st(1) unfolding e by auto
    have "?I ?s1" unfolding prod.case
    proof (intro conjI ballI)
      show "set (rev (map Some ?cs) @ todo) \<subseteq> Some ` N" using I st1(1) by simp
      show "set (uset_insert n ns) \<subseteq> N" using n st1(2) by simp
      show "distinct (uset_insert n ns)" using st1(3) by simp
      show "r \<in> set (uset_insert n ns) \<or> Some r \<in> set (rev (map Some ?cs) @ todo)" using st1(4) by auto
      fix a c assume "a \<in> set (uset_insert n ns)" "c \<in> set (view_children ?v a)"
      then show "c \<in> set (uset_insert n ns) \<or> Some c \<in> set (rev (map Some ?cs) @ todo)"
        using st1(5) [of a c] by auto
    qed
    moreover have "(mset (map the (rev (map Some ?cs) @ todo)), mset (map the (Some n # todo))) \<in> mult1 (?E\<inverse>)"
    proof (rule mult1I [of _ n "mset (map the todo)" _ "mset ?cs"])
      have "map the (rev (map Some ?cs)) = rev ?cs" by (simp add: rev_map comp_def)
      then show "mset (map the (rev (map Some ?cs) @ todo)) = mset (map the todo) + mset ?cs"
        by (simp only: map_append mset_append mset_rev add.commute)
    qed (use n ch [OF n] in \<open>auto simp: view_edges_def\<close>)
    ultimately show "\<exists>s'. collect_step T st = Inr s' \<and> ?I s' \<and> (s', st) \<in> ?m" using run by (auto simp: e)
  qed
  then obtain ns where ns: "whileE ?b (collect_step T) ?s0 = Inr (ns, [])" "?I (ns, [])" by auto
  have "x \<in> set ns" if "(r, x) \<in> ?E\<^sup>*" for x
    using that by induction (use ns(2) in \<open>auto simp: view_edges_def\<close>)
  then have "N \<subseteq> set ns" using r(3) by blast
  with ns(2) have "set ns = N" "distinct ns" by auto
  with ns(1) show ?thesis by (simp add: collectNodesOfTree_def)
qed

lemma DomTreeSummary_ok:
  assumes ok: "llvm_tree_ok T N"
  shows "\<exists>t. DomTreeSummary_of post T = Inr t \<and> dt_ok t \<and> dt_post t = post \<and>
    tree_edges t = block_edges (lt_view T) N \<and> tree_blocks t = view_block (lt_view T) ` N"
proof -
  obtain ns where ns: "collectNodesOfTree T = Inr ns" "set ns = N" "distinct ns" using collectNodesOfTree_ok [OF ok] by blast
  have fv: "forest_view (lt_view T) (set ns)" using ok by (simp add: llvm_tree_ok_def ns(2))
  obtain t m where t: "cloneNodes (lt_view T) ns (empty_tree post) = Inr t" "is_clone (lt_view T) (set ns) m t" "dt_post t = post"
    using cloneNodes_ok [OF fv ns(3)] by blast
  from is_clone_ok [OF fv t(2)] t(1,3) ns show ?thesis by (simp add: DomTreeSummary_of_def)
qed

lemma block_edges_restrict:
  assumes "inj_on (view_block v) N"
  shows "block_edges v {n \<in> N. view_block v n \<in> S} = block_edges v N \<inter> S \<times> S"
  by (auto simp: block_edges_def view_edges_def intro!: image_eqI)

lemma DomTreeSummary_filtered_ok:
  assumes ok: "dt_ok t"
  shows "\<exists>t'. DomTreeSummary_filtered u t S = Inr t' \<and> dt_ok t' \<and> dt_post t' = u \<and>
    tree_edges t' = tree_edges t \<inter> set S \<times> set S \<and> tree_blocks t' = tree_blocks t \<inter> set S"
proof -
  let ?ns = "filterNodes t S" and ?v = "summary_view t"
  have s: "set ?ns = {n \<in> set (dt_nodes t). view_block ?v n \<in> set S}" by (auto simp: filterNodes_def summary_view_def)
  have fv: "forest_view ?v (set ?ns)" by (rule forest_view_subset [OF dt_okD(2) [OF ok]]) (auto simp: filterNodes_def)
  have d: "distinct ?ns" using dt_okD(1) [OF ok] by (simp add: filterNodes_def)
  obtain t' m where t': "cloneNodes ?v ?ns (empty_tree u) = Inr t'" "is_clone ?v (set ?ns) m t'" "dt_post t' = u"
    using cloneNodes_ok [OF fv d] by blast
  have "tree_edges t' = tree_edges t \<inter> set S \<times> set S"
    unfolding is_clone_ok(2) [OF fv t'(2)] s by (rule block_edges_restrict [OF forest_viewD(2) [OF dt_okD(2) [OF ok]]])
  moreover have "tree_blocks t' = tree_blocks t \<inter> set S"
    unfolding is_clone_ok(3) [OF fv t'(2)] s by (auto simp: summary_view_def)
  ultimately show ?thesis using is_clone_ok(1) [OF fv t'(2)] t'(1,3) by (simp add: DomTreeSummary_filtered_def)
qed

section \<open>Walking up the tree\<close>

lemma dom_edges_wf: "dt_ok t \<Longrightarrow> wf (dom_edges t)"
  using forest_viewD(1,3) [OF dt_okD(2)]
  by (intro finite_acyclic_wf) (auto simp: view_edges_def intro: finite_subset [of _ "set (dt_nodes t) \<times> set (dt_nodes t)"])

lemma ancestors_of_child:
  assumes ok: "dt_ok t" and n: "n \<in> set (dt_nodes t)" and p: "dn_parent (dt_mem t n) = Some p"
  shows "(a, n) \<in> (dom_edges t)\<^sup>* \<longleftrightarrow> a = n \<or> (a, p) \<in> (dom_edges t)\<^sup>*"
proof -
  have e: "(x, n) \<in> dom_edges t \<longleftrightarrow> x = p" for x using dom_edges_iff [OF ok] n p by auto
  show ?thesis by (auto elim: rtranclE simp: e intro: rtrancl_into_rtrancl)
qed

lemma ancestors_of_root:
  assumes ok: "dt_ok t" and p: "dn_parent (dt_mem t n) = None"
  shows "(a, n) \<in> (dom_edges t)\<^sup>* \<longleftrightarrow> a = n"
proof -
  have e: "(x, n) \<notin> dom_edges t" for x using dom_edges_iff [OF ok] p by auto
  show ?thesis by (auto elim: rtranclE simp: e)
qed

lemma parent_in_tree:
  assumes ok: "dt_ok t" and n: "n \<in> set (dt_nodes t)" and p: "dn_parent (dt_mem t n) = Some p"
  shows "p \<in> set (dt_nodes t)" "(p, n) \<in> dom_edges t"
proof -
  show e: "(p, n) \<in> dom_edges t" using dom_edges_iff [OF ok] n p by auto
  then show "p \<in> set (dt_nodes t)" by (simp add: view_edges_def)
qed

lemma dominators_of_ok:
  assumes ok: "dt_ok t" and n: "n \<in> set (dt_nodes t)"
  shows "\<exists>ds. dominators_of t n = Inr ds \<and> set ds = {a. (a, n) \<in> (dom_edges t)\<^sup>* \<and> dn_parent (dt_mem t a) \<noteq> None}"
proof -
  let ?E = "dom_edges t" and ?V = "set (dt_nodes t)" and ?par = "\<lambda>x. dn_parent (dt_mem t x)"
  let ?I = "\<lambda>(ds, x). x \<in> ?V \<and> (\<forall>a. (a, n) \<in> ?E\<^sup>* \<longleftrightarrow> a \<in> set ds \<or> (a, x) \<in> ?E\<^sup>*) \<and> (\<forall>a \<in> set ds. ?par a \<noteq> None)"
  let ?b = "\<lambda>(_, x). ?par x \<noteq> None"
  let ?c = "\<lambda>(ds, x). case ?par x of None \<Rightarrow> Inl NullDeref | Some p \<Rightarrow> Inr (uset_insert x ds, p)"
  have wf: "wf (inv_image ?E snd :: ((nat list \<times> nat) \<times> _) set)" by (rule wf_inv_image [OF dom_edges_wf [OF ok]])
  have "\<exists>st. whileE ?b ?c ([], n) = Inr st \<and> ?I st \<and> \<not> ?b st"
  proof (rule whileE_total [OF wf])
    show "?I ([], n)" using n by simp
    fix st assume st: "?I st" "?b st"
    then obtain ds x p where e: "st = (ds, x)" and p: "?par x = Some p" by (cases st) auto
    have x: "x \<in> ?V" using st(1) by (simp add: e)
    note up = ancestors_of_child [OF ok x p] parent_in_tree [OF ok x p]
    have "?I (uset_insert x ds, p)" using st(1) up(1,2) p by (auto simp: e)
    then show "\<exists>s'. ?c st = Inr s' \<and> ?I s' \<and> (s', st) \<in> inv_image ?E snd" using up(3) p by (simp add: e)
  qed
  then obtain ds x where w: "whileE ?b ?c ([], n) = Inr (ds, x)" "?I (ds, x)" "?par x = None" by auto
  have "set ds = {a. (a, n) \<in> ?E\<^sup>* \<and> ?par a \<noteq> None}" using w(2,3) ancestors_of_root [OF ok w(3)] by auto
  with w(1) show ?thesis by (simp add: dominators_of_def)
qed

text \<open>The search for a common dominator stops at the nearest one, or at null when the root is the only one.\<close>

lemma nearest_common_node_ok:
  assumes ok: "dt_ok t" and n: "n1 \<in> set (dt_nodes t)" "n2 \<in> set (dt_nodes t)"
  defines "C \<equiv> {a. (a, n1) \<in> (dom_edges t)\<^sup>* \<and> (a, n2) \<in> (dom_edges t)\<^sup>* \<and> dn_parent (dt_mem t a) \<noteq> None}"
  shows "\<exists>c. nearest_common_node t n1 n2 = Inr c \<and>
    (case c of None \<Rightarrow> C = {} | Some x \<Rightarrow> x \<in> C \<and> (\<forall>a \<in> C. (a, x) \<in> (dom_edges t)\<^sup>*))"
proof -
  let ?E = "dom_edges t" and ?V = "set (dt_nodes t)" and ?par = "\<lambda>x. dn_parent (dt_mem t x)"
  obtain ds where ds: "dominators_of t n2 = Inr ds" "set ds = {a. (a, n2) \<in> ?E\<^sup>* \<and> ?par a \<noteq> None}"
    using dominators_of_ok [OF ok n(2)] by blast
  have C: "C = {a. (a, n1) \<in> ?E\<^sup>* \<and> a \<in> set ds}" unfolding C_def ds(2) by auto
  let ?I = "\<lambda>c. case c of None \<Rightarrow> C = {} | Some x \<Rightarrow> x \<in> ?V \<and> (x, n1) \<in> ?E\<^sup>* \<and> (\<forall>a \<in> C. (a, x) \<in> ?E\<^sup>*)"
  let ?b = "\<lambda>c. case c of None \<Rightarrow> False | Some x \<Rightarrow> x \<notin> set ds"
  let ?c = "\<lambda>c. case c of None \<Rightarrow> Inl NullDeref | Some x \<Rightarrow> Inr (?par x)"
  let ?r = "inv_image (less_than <*lex*> ?E) (\<lambda>c. case c of None \<Rightarrow> (0 :: nat, 0) | Some x \<Rightarrow> (1, x))"
  have wf: "wf ?r" using dom_edges_wf [OF ok] by (intro wf_inv_image wf_lex_prod) auto
  have "\<exists>st. whileE ?b ?c (Some n1) = Inr st \<and> ?I st \<and> \<not> ?b st"
  proof (rule whileE_total [OF wf])
    show "?I (Some n1)" using n(1) by (simp add: C)
    fix st assume st: "?I st" "?b st"
    then obtain x where e: "st = Some x" and x: "x \<in> ?V" "(x, n1) \<in> ?E\<^sup>*" "\<forall>a \<in> C. (a, x) \<in> ?E\<^sup>*" "x \<notin> C"
      unfolding C by (cases st) auto
    show "\<exists>s'. ?c st = Inr s' \<and> ?I s' \<and> (s', st) \<in> ?r"
    proof (cases "?par x")
      case None
      with x have "C = {}" using ancestors_of_root [OF ok None] by auto
      with None show ?thesis by (simp add: e)
    next
      case (Some p)
      note up = ancestors_of_child [OF ok x(1) Some] parent_in_tree [OF ok x(1) Some]
      have "\<forall>a \<in> C. (a, p) \<in> ?E\<^sup>*"
      proof
        fix a assume "a \<in> C"
        with x(3,4) have "(a, x) \<in> ?E\<^sup>*" "a \<noteq> x" by auto
        with up(1) show "(a, p) \<in> ?E\<^sup>*" by simp
      qed
      moreover have "(p, n1) \<in> ?E\<^sup>*" using x(2) up(3) by (rule converse_rtrancl_into_rtrancl [rotated])
      ultimately show ?thesis using up(2,3) Some by (simp add: e)
    qed
  qed
  then obtain c where c: "whileE ?b ?c (Some n1) = Inr c" "?I c" "\<not> ?b c" by blast
  have "case c of None \<Rightarrow> C = {} | Some x \<Rightarrow> x \<in> C \<and> (\<forall>a \<in> C. (a, x) \<in> ?E\<^sup>*)"
    using c(2,3) by (auto simp: C split: option.splits)
  with c(1) ds(1) show ?thesis by (simp add: nearest_common_node_def)
qed

lemma nonroot_iff:
  assumes ok: "dt_ok t" and n: "n \<in> set (dt_nodes t)"
  shows "dn_parent (dt_mem t n) \<noteq> None \<longleftrightarrow> (\<exists>p. (p, dn_B (dt_mem t n)) \<in> tree_edges t)"
proof
  assume "dn_parent (dt_mem t n) \<noteq> None"
  then obtain p where "dn_parent (dt_mem t n) = Some p" by blast
  from parent_in_tree(2) [OF ok n this] show "\<exists>p. (p, dn_B (dt_mem t n)) \<in> tree_edges t"
    unfolding block_edges_def by (force simp: summary_view_def)
next
  assume "\<exists>p. (p, dn_B (dt_mem t n)) \<in> tree_edges t"
  then obtain a b where ab: "(a, b) \<in> dom_edges t" "dn_B (dt_mem t b) = dn_B (dt_mem t n)"
    by (auto simp: block_edges_def summary_view_def)
  then have "b = n"
    using forest_viewD(2) [OF dt_okD(2) [OF ok]] n by (auto simp: inj_on_def summary_view_def view_edges_def)
  with ab(1) dom_edges_iff [OF ok] show "dn_parent (dt_mem t n) \<noteq> None" by auto
qed

lemma tree_path_closed:
  assumes "(a, b) \<in> (dom_edges t)\<^sup>*" and "b \<in> set (dt_nodes t)"
  shows "a \<in> set (dt_nodes t)"
  using assms by (induction rule: converse_rtrancl_induct) (auto simp: view_edges_def)

lemma tree_path_blocks:
  assumes "(B, B') \<in> (tree_edges t)\<^sup>*" and "B' \<in> tree_blocks t"
  shows "B \<in> tree_blocks t"
  using assms by (induction rule: converse_rtrancl_induct) (auto simp: block_edges_def view_edges_def summary_view_def)

definition common_dominators :: "(block \<times> block) set \<Rightarrow> block \<Rightarrow> block \<Rightarrow> block set" where
  "common_dominators K B1 B2 = {B. (B, B1) \<in> K\<^sup>* \<and> (B, B2) \<in> K\<^sup>*}"

lemma findNearestCommonDominator_ok:
  assumes ok: "dt_ok t" and B: "B1 \<in> tree_blocks t" "B2 \<in> tree_blocks t" "B1 \<noteq> None" "B2 \<noteq> None"
  defines "C \<equiv> common_dominators (tree_edges t) B1 B2 \<inter> Range (tree_edges t)"
  shows "if C = {} then findNearestCommonDominator t B1 B2 = Inl AssertFailed
    else \<exists>c \<in> C. findNearestCommonDominator t B1 B2 = Inr c \<and> (\<forall>a \<in> C. (a, c) \<in> (tree_edges t)\<^sup>*)"
proof -
  let ?E = "dom_edges t" and ?B = "\<lambda>n. dn_B (dt_mem t n)" and ?V = "set (dt_nodes t)"
  obtain n1 n2 where n: "n1 \<in> ?V" "B1 = ?B n1" "n2 \<in> ?V" "B2 = ?B n2" using B(1,2) by blast
  then have g: "getNode t B1 = Some n1" "getNode t B2 = Some n2" using dt_okD(6) [OF ok] by auto
  define D where "D = {a. (a, n1) \<in> ?E\<^sup>* \<and> (a, n2) \<in> ?E\<^sup>* \<and> dn_parent (dt_mem t a) \<noteq> None}"
  have DV: "D \<subseteq> ?V" using tree_path_closed n(1) by (auto simp: D_def)
  have mem: "?B a \<in> C \<longleftrightarrow> a \<in> D" if a: "a \<in> ?V" for a
    unfolding C_def D_def common_dominators_def n(2,4)
    using tree_path_iff [OF ok a] n(1,3) nonroot_iff [OF ok a] by auto
  have "C \<subseteq> ?B ` ?V"
    using tree_path_blocks [OF _ B(1)] unfolding C_def common_dominators_def by blast
  with mem DV have CD: "C = ?B ` D" by blast
  obtain c where c: "nearest_common_node t n1 n2 = Inr c"
    "case c of None \<Rightarrow> D = {} | Some x \<Rightarrow> x \<in> D \<and> (\<forall>a \<in> D. (a, x) \<in> ?E\<^sup>*)"
    using nearest_common_node_ok [OF ok n(1,3)] unfolding D_def [symmetric] by blast
  show ?thesis
  proof (cases c)
    case None
    with c have "C = {}" by (simp add: CD)
    with None c(1) g B(3,4) show ?thesis by (simp add: findNearestCommonDominator_def)
  next
    case (Some x)
    with c have x: "x \<in> D" "\<forall>a \<in> D. (a, x) \<in> ?E\<^sup>*" by auto
    have "findNearestCommonDominator t B1 B2 = Inr (?B x)"
      using Some c(1) g B(3,4) by (simp add: findNearestCommonDominator_def)
    moreover have "\<forall>a \<in> C. (a, ?B x) \<in> (tree_edges t)\<^sup>*"
      unfolding CD using x DV tree_path_iff [OF ok] by blast
    ultimately show ?thesis using x(1) by (auto simp: CD)
  qed
qed

section \<open>Instructions of one block\<close>

definition block_listing :: "llvm_code \<Rightarrow> block \<Rightarrow> nat list \<Rightarrow> bool" where
  "block_listing L b xs \<longleftrightarrow> distinct xs \<and> (\<forall>k < length xs. inst_parent L (xs ! k) = b \<and>
     inst_next L (xs ! k) = (if Suc k < length xs then Some (xs ! Suc k) else None))"

lemma find_after_ok:
  assumes L: "block_listing L b xs" and ij: "i < length xs" "j < length xs"
  shows "find_after L (xs ! j) (xs ! i) = Inr (i \<le> j)"
proof -
  let ?at = "\<lambda>k. if k < length xs then Some (xs ! k) else None"
  let ?I = "\<lambda>c. \<exists>k. i \<le> k \<and> k \<le> length xs \<and> c = ?at k \<and> (i \<le> j \<longrightarrow> k \<le> j)"
  let ?b = "\<lambda>c. c \<noteq> None \<and> c \<noteq> Some (xs ! j)"
  let ?c = "\<lambda>c. case c of None \<Rightarrow> Inl NullDeref | Some i \<Rightarrow> Inr (inst_next L i)"
  let ?pos = "\<lambda>c. case c of None \<Rightarrow> length xs | Some x \<Rightarrow> (LEAST k. xs ! k = x)"
  have d: "distinct xs" using L by (simp add: block_listing_def)
  have pos: "?pos (?at k) = k" if "k \<le> length xs" for k
  proof (cases "k < length xs")
    case True
    have "(LEAST m. xs ! m = xs ! k) = k"
    proof (rule Least_equality)
      fix m assume "xs ! m = xs ! k"
      then show "k \<le> m" using d True by (metis le_less_linear less_trans nth_eq_iff_index_eq less_irrefl)
    qed simp
    with True show ?thesis by simp
  qed (use that in simp)
  have wf: "wf (measure (\<lambda>c. length xs - ?pos c))" by simp
  have "\<exists>c. whileE ?b ?c (Some (xs ! i)) = Inr c \<and> ?I c \<and> \<not> ?b c"
  proof (rule whileE_total [OF wf])
    show "?I (Some (xs ! i))" using ij by (intro exI [of _ i]) auto
    fix c assume c: "?I c" "?b c"
    then obtain k where k: "i \<le> k" "k < length xs" "c = Some (xs ! k)" "i \<le> j \<longrightarrow> k \<le> j" "k \<noteq> j"
      by (auto split: if_splits)
    have nx: "inst_next L (xs ! k) = ?at (Suc k)" using L k(2) by (simp add: block_listing_def)
    have "?I (?at (Suc k))" using k by (intro exI [of _ "Suc k"]) auto
    moreover have "(?at (Suc k), c) \<in> measure (\<lambda>c. length xs - ?pos c)"
      using pos [of k] pos [of "Suc k"] k(2) by (auto simp: k(3))
    ultimately show "\<exists>s'. ?c c = Inr s' \<and> ?I s' \<and> (s', c) \<in> measure (\<lambda>c. length xs - ?pos c)" using nx by (simp add: k(3))
  qed
  then obtain c k where c: "whileE ?b ?c (Some (xs ! i)) = Inr c" "\<not> ?b c" "i \<le> k" "k \<le> length xs" "c = ?at k" "i \<le> j \<longrightarrow> k \<le> j"
    by blast
  have "c = Some (xs ! j) \<longleftrightarrow> i \<le> j"
  proof
    assume "c = Some (xs ! j)"
    then have "k = j" using c(5) d ij(2) by (auto simp: nth_eq_iff_index_eq split: if_splits)
    with c(3) show "i \<le> j" by simp
  next
    assume "i \<le> j"
    with c(2,5,6) ij(2) show "c = Some (xs ! j)" by auto
  qed
  with c(1) show ?thesis by (simp add: find_after_def)
qed

end
