(* ===== verification/DomSummaryQueries.thy ===== *)
theory DomSummaryQueries
  imports DomSummaryCorrect
begin

text \<open>
  The properties of \<open>core/basic_utilities/src/DominatorSummary.cpp\<close>: what a summary built from LLVM's tree answers, what a
  summary filtered by a set of blocks answers, and three defects: the nearest common dominator is never the root, a
  filtered summary reads a flag nobody set, and a transfer to cloned blocks leaves the index on the old ones.
\<close>

section \<open>Blocks outside the tree and transfers\<close>

lemma dominates_blocks_absent:
  assumes ok: "dt_ok t" and B: "B1 \<notin> tree_blocks t \<or> B2 \<notin> tree_blocks t"
  shows "dominates_blocks t B1 B2 = Inl AssertFailed"
proof -
  have none: "getNode t B = None" if "B \<notin> tree_blocks t" for B
  proof (cases "getNode t B")
    case (Some n)
    then have "n \<in> set (dt_nodes t)" "dn_B (dt_mem t n) = B" using dt_okD(6) [OF ok] by auto
    with that show ?thesis by blast
  qed
  from B have "getNode t B1 = None \<or> getNode t B2 = None"
    by (rule disj_forward) (rule none, assumption)+
  then show ?thesis by (auto simp: dominates_blocks_def split: option.split)
qed

lemma transferToClones_ok:
  assumes "distinct ns" and "\<And>n. n \<in> set ns \<Longrightarrow> m (dn_B (dt_mem t n)) \<noteq> None"
  shows "\<exists>t'. foldE (\<lambda>n t. case m (dn_B (dt_mem t n)) of None \<Rightarrow> Inl AssertFailed
                  | Some b \<Rightarrow> Inr (update_node n (\<lambda>r. r\<lparr>dn_B := b\<rparr>) t)) ns t = Inr t' \<and>
     bbNodeMap t' = bbNodeMap t \<and> dt_nodes t' = dt_nodes t \<and>
     (\<forall>n. dn_B (dt_mem t' n) = (if n \<in> set ns then the (m (dn_B (dt_mem t n))) else dn_B (dt_mem t n)))"
  using assms
proof (induction ns arbitrary: t)
  case Nil
  then show ?case by simp
next
  case (Cons n ns)
  obtain b where b: "m (dn_B (dt_mem t n)) = Some b" using Cons.prems(2) [of n] by auto
  let ?t = "update_node n (\<lambda>r. r\<lparr>dn_B := b\<rparr>) t"
  have other: "dn_B (dt_mem ?t k) = (if k = n then b else dn_B (dt_mem t k))" for k by (simp add: update_node_def)
  have k: "\<And>k. k \<in> set ns \<Longrightarrow> m (dn_B (dt_mem ?t k)) \<noteq> None"
    using Cons.prems unfolding other by auto
  have "distinct ns" using Cons.prems(1) by simp
  from Cons.IH [OF this k] obtain t' where t': "foldE (\<lambda>n t. case m (dn_B (dt_mem t n)) of None \<Rightarrow> Inl AssertFailed
                  | Some b \<Rightarrow> Inr (update_node n (\<lambda>r. r\<lparr>dn_B := b\<rparr>) t)) ns ?t = Inr t'"
     "bbNodeMap t' = bbNodeMap ?t" "dt_nodes t' = dt_nodes ?t"
     "\<forall>k. dn_B (dt_mem t' k) = (if k \<in> set ns then the (m (dn_B (dt_mem ?t k))) else dn_B (dt_mem ?t k))" by blast
  have "bbNodeMap ?t = bbNodeMap t" "dt_nodes ?t = dt_nodes t" by (simp_all add: update_node_def)
  moreover have "dn_B (dt_mem t' k) = (if k \<in> set (n # ns) then the (m (dn_B (dt_mem t k))) else dn_B (dt_mem t k))" for k
    using t'(4) Cons.prems(1) b unfolding other by auto
  ultimately show ?case using t' b by (intro exI [of _ t']) auto
qed

section \<open>A sample tree\<close>

text \<open>Block 0 dominates block 1, which dominates the blocks 2 and 3.\<close>

definition sample_children :: "nat \<Rightarrow> nat list" where
  "sample_children n = (if n = 0 then [1] else if n = 1 then [2, 3] else [])"

definition sample_iDom :: "nat \<Rightarrow> nat option" where
  "sample_iDom n = (if n = 0 then None else if n = 1 then Some 0 else Some 1)"

definition sample_tree :: "nat llvm_tree" where
  "sample_tree =
     \<lparr>lt_view = \<lparr>view_block = Some, view_level = (\<lambda>n. word_of_nat n), view_iDom = sample_iDom, view_children = sample_children\<rparr>,
      lt_roots = [0], lt_getNode = (\<lambda>b. if b < 4 then Some b else None), lt_rootNode = Some 0\<rparr>"

lemma sample_edges: "view_edges (lt_view sample_tree) {0, 1, 2, 3} = {(0, 1), (1, 2), (1, 3)}"
  by (auto simp: view_edges_def sample_tree_def sample_children_def split: if_splits)

lemma sample_block_edges:
  "block_edges (lt_view sample_tree) {0, 1, 2, 3} = {(Some 0, Some 1), (Some 1, Some 2), (Some 1, Some 3)}"
  unfolding block_edges_def sample_edges by (simp add: sample_tree_def)

lemma sample_tree_ok: "llvm_tree_ok sample_tree {0, 1, 2, 3}"
proof -
  let ?E = "{(0, 1), (1, 2), (1, 3 :: nat)}"
  have "acyclic ?E" by (rule wf_acyclic, rule wf_subset [OF wf_less_than]) auto
  then have fv: "forest_view (lt_view sample_tree) {0, 1, 2, 3}"
    unfolding forest_view_def sample_edges
    by (simp add: sample_tree_def sample_children_def sample_iDom_def inj_on_def)
  have "{0, 1, 2, 3} = ?E\<^sup>* `` {0}"
  proof -
    have "(0, 1) \<in> ?E\<^sup>*" "(0, 2) \<in> ?E\<^sup>*" "(0, 3) \<in> ?E\<^sup>*"
      by (auto intro: r_into_rtrancl rtrancl_trans [OF r_into_rtrancl r_into_rtrancl, of 0 1])
    moreover have "x \<in> {0, 1, 2, 3}" if "(0, x) \<in> ?E\<^sup>*" for x using that by induction auto
    ultimately show ?thesis by blast
  qed
  moreover have "lt_rootNode sample_tree = Some 0" by (simp add: sample_tree_def)
  ultimately have "\<exists>r \<in> {0, 1, 2, 3}. lt_rootNode sample_tree = Some r \<and> {0, 1, 2, 3} = ?E\<^sup>* `` {r}" by blast
  moreover have "\<forall>n \<in> {0, 1, 2, 3}. set (view_children (lt_view sample_tree) n) \<subseteq> {0, 1, 2, 3}"
    "\<forall>b \<in> set (lt_roots sample_tree). \<exists>n \<in> {0, 1, 2, 3}. lt_getNode sample_tree b = Some n"
    by (simp_all add: sample_tree_def sample_children_def)
  ultimately show ?thesis using fv unfolding llvm_tree_ok_def sample_edges by blast
qed

section \<open>Properties\<close>

text \<open>C12: the summary answers as LLVM's tree. From any LLVM tree the constructor returns a summary, and its block query
  says that one block dominates another exactly when LLVM's tree has a path from the one to the other.\<close>

theorem dominator_summary_decides:
  assumes "llvm_tree_ok T N"
  shows "\<exists>t. DomTreeSummary_of post T = Inr t \<and> (\<forall>a \<in> N. \<forall>b \<in> N.
     dominates_blocks t (view_block (lt_view T) a) (view_block (lt_view T) b) = Inr ((a, b) \<in> (view_edges (lt_view T) N)\<^sup>*))"
proof -
  obtain t where t: "DomTreeSummary_of post T = Inr t" "dt_ok t" "tree_edges t = block_edges (lt_view T) N"
    "tree_blocks t = view_block (lt_view T) ` N"
    using DomTreeSummary_ok [OF assms, of post] by (elim exE conjE) (rule that)
  have inj: "inj_on (view_block (lt_view T)) N" using assms by (simp add: llvm_tree_ok_def forest_view_def)
  have "dominates_blocks t (view_block (lt_view T) a) (view_block (lt_view T) b) = Inr ((a, b) \<in> (view_edges (lt_view T) N)\<^sup>*)"
    if ab: "a \<in> N" "b \<in> N" for a b
  proof -
    have "view_edges (lt_view T) N \<subseteq> N \<times> N" by (auto simp: view_edges_def)
    note path = rtrancl_inj_image [OF inj this ab, folded block_edges_def]
    have "view_block (lt_view T) a \<in> tree_blocks t" "view_block (lt_view T) b \<in> tree_blocks t"
      unfolding t(4) using ab by simp_all
    from dominates_blocks_ok [OF t(2) this] show ?thesis unfolding t(3) path .
  qed
  with t(1) show ?thesis by blast
qed

lemma dominator_summary_decides_witness:
  "\<exists>t. DomTreeSummary_of False sample_tree = Inr t \<and>
     dominates_blocks t (Some 0) (Some 3) = Inr True \<and> dominates_blocks t (Some 2) (Some 3) = Inr False"
proof -
  obtain t where t: "DomTreeSummary_of False sample_tree = Inr t" and
    d: "\<forall>a \<in> {0, 1, 2, 3}. \<forall>b \<in> {0, 1, 2, 3}. dominates_blocks t (Some a) (Some b) =
       Inr ((a, b) \<in> {(0, 1), (1, 2), (1, 3)}\<^sup>*)"
    using dominator_summary_decides [OF sample_tree_ok, of False] unfolding sample_edges by (auto simp: sample_tree_def)
  have "(0, 3) \<in> {(0, 1), (1, 2), (1, 3 :: nat)}\<^sup>*"
    by (rule rtrancl_trans [OF r_into_rtrancl r_into_rtrancl, of 0 1]) auto
  moreover have "(2, 3) \<notin> {(0, 1), (1, 2), (1, 3 :: nat)}\<^sup>*" by (auto elim: converse_rtranclE)
  ultimately show ?thesis using t d by auto
qed

text \<open>C13: a summary filtered by a set of blocks is the restriction of the tree to that set: it has exactly the blocks of the
  tree that are in the set, and one dominates another in it exactly when all blocks of the tree path between them are in
  the set. A query about another block fails its assertion.\<close>

theorem filtered_summary_restricts:
  assumes "llvm_tree_ok T N" and "DomTreeSummary_of post T = Inr t"
  defines "K \<equiv> block_edges (lt_view T) N" and "V \<equiv> view_block (lt_view T) ` N"
  shows "\<exists>t'. DomTreeSummary_filtered u t S = Inr t' \<and>
     (\<forall>B1 B2. dominates_blocks t' B1 B2 =
        (if B1 \<in> V \<inter> set S \<and> B2 \<in> V \<inter> set S then Inr ((B1, B2) \<in> (K \<inter> set S \<times> set S)\<^sup>*) else Inl AssertFailed))"
proof -
  have t: "dt_ok t" "tree_edges t = K" "tree_blocks t = V"
    using DomTreeSummary_ok [OF assms(1), of post] assms(2) by (auto simp: K_def V_def)
  obtain t' where t': "DomTreeSummary_filtered u t S = Inr t'" "dt_ok t'" "tree_edges t' = K \<inter> set S \<times> set S"
    "tree_blocks t' = V \<inter> set S"
    using DomTreeSummary_filtered_ok [OF t(1), of u S] unfolding t(2,3) by blast
  have "dominates_blocks t' B1 B2 =
        (if B1 \<in> V \<inter> set S \<and> B2 \<in> V \<inter> set S then Inr ((B1, B2) \<in> (K \<inter> set S \<times> set S)\<^sup>*) else Inl AssertFailed)" for B1 B2
    using dominates_blocks_ok [OF t'(2), of B1 B2] dominates_blocks_absent [OF t'(2), of B1 B2] unfolding t'(3,4) by auto
  with t'(1) show ?thesis by blast
qed

lemma filtered_summary_restricts_witness:
  "\<exists>t t'. DomTreeSummary_of False sample_tree = Inr t \<and>
     DomTreeSummary_filtered False t [Some 0, Some 3] = Inr t' \<and> dominates_blocks t' (Some 0) (Some 3) = Inr False"
proof -
  obtain t where t: "DomTreeSummary_of False sample_tree = Inr t" using DomTreeSummary_ok [OF sample_tree_ok] by blast
  let ?K = "{(Some 0, Some 1), (Some 1, Some 2), (Some (1 :: nat), Some 3)} \<inter> {Some 0, Some 3} \<times> {Some 0, Some (3 :: nat)}"
  have "?K = {}" by auto
  then have "(Some 0, Some (3 :: nat)) \<notin> ?K\<^sup>*" by simp
  moreover obtain t' where "DomTreeSummary_filtered False t [Some 0, Some 3] = Inr t'"
    "dominates_blocks t' (Some 0) (Some 3) = Inr ((Some 0, Some 3) \<in> ?K\<^sup>*)"
    using filtered_summary_restricts [OF sample_tree_ok t, of False "[Some 0, Some 3]"] unfolding sample_block_edges
    by (auto simp: sample_tree_def)
  ultimately show ?thesis using t by auto
qed

text \<open>Instructions of one block. The tree of dominators says that an instruction dominates itself and the later ones,
  the tree of post-dominators that it post-dominates the earlier ones, not itself. A summary filtered by a set of blocks
  answers by the flag the constructor never sets: whatever it was built from, both answers are possible.\<close>

theorem instruction_order:
  assumes "llvm_tree_ok T N" and "DomTreeSummary_of post T = Inr t"
    and "block_listing L b xs" and "i < length xs" and "j < length xs"
  shows "dominates_insts L t (xs ! i) (xs ! j) = Inr (if post then j < i else i \<le> j) \<and>
     (\<exists>t'. DomTreeSummary_filtered uninitialised t S = Inr t' \<and>
        dominates_insts L t' (xs ! i) (xs ! j) = Inr (if uninitialised then j < i else i \<le> j))"
proof -
  have eq: "dominates_insts L q (xs ! i) (xs ! j) = Inr (if dt_post q then j < i else i \<le> j)" for q
    using find_after_ok [OF assms(3-5)] assms(3-5) by (auto simp: dominates_insts_def block_listing_def)
  have t: "dt_ok t" "dt_post t = post" using DomTreeSummary_ok [OF assms(1), of post] assms(2) by auto
  obtain t' where "DomTreeSummary_filtered uninitialised t S = Inr t'" "dt_post t' = uninitialised"
    using DomTreeSummary_filtered_ok [OF t(1)] by blast
  with t(2) show ?thesis by (auto simp: eq)
qed

definition sample_code :: llvm_code where
  "sample_code = \<lparr>inst_parent = (\<lambda>_. Some 0), inst_next = (\<lambda>i. if i = 7 then Some 8 else None)\<rparr>"

lemma instruction_order_witness:
  "\<exists>t. DomTreeSummary_of False sample_tree = Inr t \<and> dominates_insts sample_code t 7 8 = Inr True \<and>
     (\<exists>t'. DomTreeSummary_filtered True t [Some 0] = Inr t' \<and> dominates_insts sample_code t' 7 8 = Inr False)"
proof -
  obtain t where t: "DomTreeSummary_of False sample_tree = Inr t" using DomTreeSummary_ok [OF sample_tree_ok] by blast
  have "block_listing sample_code (Some 0) [7, 8]"
    by (auto simp: block_listing_def sample_code_def less_Suc_eq)
  from instruction_order [OF sample_tree_ok t this, of 0 1 True "[Some 0]"] t show ?thesis by simp
qed

text \<open>The nearest common dominator. The query returns the nearest of the blocks that dominate both blocks and have a
  dominator of their own; the root, which always dominates both, is never found, and when it is the only one the
  assertion fails.\<close>

theorem nearest_common_dominator:
  assumes "llvm_tree_ok T N" and "DomTreeSummary_of post T = Inr t"
    and "B1 \<in> view_block (lt_view T) ` N" and "B2 \<in> view_block (lt_view T) ` N" and "B1 \<noteq> None" and "B2 \<noteq> None"
  defines "K \<equiv> block_edges (lt_view T) N"
  defines "C \<equiv> common_dominators K B1 B2 \<inter> Range K"
  shows "if C = {} then findNearestCommonDominator t B1 B2 = Inl AssertFailed
    else \<exists>c \<in> C. findNearestCommonDominator t B1 B2 = Inr c \<and> (\<forall>a \<in> C. (a, c) \<in> K\<^sup>*)"
proof -
  have t: "dt_ok t" "tree_edges t = K" "tree_blocks t = view_block (lt_view T) ` N"
    using DomTreeSummary_ok [OF assms(1), of post] assms(2) by (auto simp: K_def)
  from findNearestCommonDominator_ok [OF t(1), of B1 B2] assms(3-6) show ?thesis unfolding t(2,3) C_def by blast
qed

lemma nearest_common_dominator_witness:
  "\<exists>t. DomTreeSummary_of False sample_tree = Inr t \<and> findNearestCommonDominator t (Some 2) (Some 3) = Inr (Some 1) \<and>
     findNearestCommonDominator t (Some 0) (Some 3) = Inl AssertFailed"
proof -
  obtain t where t: "DomTreeSummary_of False sample_tree = Inr t" using DomTreeSummary_ok [OF sample_tree_ok] by blast
  let ?K = "{(Some 0, Some 1), (Some 1, Some 2), (Some 1, Some (3 :: nat))}"
  note nc = nearest_common_dominator [OF sample_tree_ok t, unfolded sample_block_edges]
  have up: "(B, Some 2) \<in> ?K\<^sup>* \<Longrightarrow> B \<in> {Some 0, Some 1, Some 2}" "(B, Some 3) \<in> ?K\<^sup>* \<Longrightarrow> B \<in> {Some 0, Some 1, Some 3}"
    "(B, Some 0) \<in> ?K\<^sup>* \<Longrightarrow> B = Some 0" for B
    by (induction rule: converse_rtrancl_induct; auto)+
  have "(Some 1, Some 2) \<in> ?K\<^sup>*" "(Some 1, Some 3) \<in> ?K\<^sup>*" by (rule r_into_rtrancl; simp)+
  then have "common_dominators ?K (Some 2) (Some 3) \<inter> Range ?K = {Some 1}"
    using up(1,2) by (fastforce simp: common_dominators_def)
  moreover have "common_dominators ?K (Some 0) (Some 3) \<inter> Range ?K = {}"
    using up(3) by (fastforce simp: common_dominators_def)
  ultimately show ?thesis
    using t nc [of "Some 2" "Some 3"] nc [of "Some 0" "Some 3"] by (auto simp: sample_tree_def)
qed

text \<open>The transfer to cloned blocks. It replaces the block of every node and leaves the map from blocks to nodes as
  it was: the nodes carry the clones, but a clone is not found and a query about it fails its assertion, while the
  original blocks are still found.\<close>

theorem transfer_leaves_index_stale:
  assumes "llvm_tree_ok T N" and "DomTreeSummary_of post T = Inr t"
    and "\<And>B. B \<in> view_block (lt_view T) ` N \<Longrightarrow> m B \<noteq> None"
  shows "\<exists>t'. transferToClones m t = Inr t' \<and>
     tree_blocks t' = (\<lambda>B. the (m B)) ` view_block (lt_view T) ` N \<and>
     (\<forall>B. getNode t' B = getNode t B) \<and>
     (\<forall>B. B \<notin> view_block (lt_view T) ` N \<longrightarrow> dominates_blocks t' B B = Inl AssertFailed)"
proof -
  have t: "dt_ok t" "tree_blocks t = view_block (lt_view T) ` N"
    using DomTreeSummary_ok [OF assms(1), of post] assms(2) by auto
  have "\<And>n. n \<in> set (dt_nodes t) \<Longrightarrow> m (dn_B (dt_mem t n)) \<noteq> None" using assms(3) t(2) by blast
  from transferToClones_ok [of "dt_nodes t" m t, OF dt_okD(1) [OF t(1)] this] obtain t' where
    t': "transferToClones m t = Inr t'" "bbNodeMap t' = bbNodeMap t" "dt_nodes t' = dt_nodes t"
    "\<forall>n. dn_B (dt_mem t' n) = (if n \<in> set (dt_nodes t) then the (m (dn_B (dt_mem t n))) else dn_B (dt_mem t n))"
    unfolding transferToClones_def by blast
  have g: "getNode t' B = getNode t B" for B using t'(2) by (simp add: getNode_def)
  have "tree_blocks t' = (\<lambda>B. the (m B)) ` tree_blocks t" using t'(3,4) by force
  moreover have "dominates_blocks t' B B = Inl AssertFailed" if "B \<notin> tree_blocks t" for B
  proof -
    have "getNode t B = None"
    proof (cases "getNode t B")
      case (Some n)
      then have "n \<in> set (dt_nodes t)" "dn_B (dt_mem t n) = B" using dt_okD(6) [OF t(1)] by auto
      with that show ?thesis by blast
    qed
    then show ?thesis by (simp add: dominates_blocks_def g)
  qed
  ultimately show ?thesis using t'(1) g unfolding t(2) by blast
qed

lemma transfer_leaves_index_stale_witness:
  "\<exists>t t'. DomTreeSummary_of False sample_tree = Inr t \<and> transferToClones (\<lambda>B. map_option (\<lambda>b. Some (b + 10)) B) t = Inr t' \<and>
     Some 10 \<in> tree_blocks t' \<and> dominates_blocks t' (Some 10) (Some 10) = Inl AssertFailed"
proof -
  obtain t where t: "DomTreeSummary_of False sample_tree = Inr t" using DomTreeSummary_ok [OF sample_tree_ok] by blast
  let ?m = "\<lambda>B. map_option (\<lambda>b. Some (b + 10)) B"
  have v: "view_block (lt_view sample_tree) = Some" by (simp add: sample_tree_def)
  have "\<And>B. B \<in> Some ` {0, 1, 2, 3} \<Longrightarrow> ?m B \<noteq> None" by auto
  from transfer_leaves_index_stale [OF sample_tree_ok t, of ?m, unfolded v, OF this] obtain t' where
    t': "transferToClones ?m t = Inr t'" "tree_blocks t' = (\<lambda>B. the (?m B)) ` Some ` {0, 1, 2, 3}"
    "\<forall>B. B \<notin> Some ` {0, 1, 2, 3} \<longrightarrow> dominates_blocks t' B B = Inl AssertFailed" by blast
  have "Some 10 \<in> tree_blocks t'" unfolding t'(2) by (rule image_eqI [of _ _ "Some 0"]) simp_all
  moreover have "dominates_blocks t' (Some 10) (Some 10) = Inl AssertFailed" by (rule t'(3) [rule_format]) auto
  ultimately show ?thesis using t t'(1) by blast
qed

end
