(* ===== verification/Loops.thy ===== *)
theory Loops
  imports NoellePrelude "HOL-Library.Word"
begin

text \<open>
  Loops: \<open>core/loop_structure/src/LoopStructure.cpp\<close> and \<open>LoopsSummary.cpp\<close>.

  LLVM's loop information is a parameter, \<open>llvm_module\<close>: it gives every loop (an address) its depth, header, blocks,
  exits, parent and sub-loops (\<open>llvm_loop\<close>) and every block its instructions, function and successors. A
  \<open>LoopStructure\<close> is a heap object of the summary that created it; the static counter \<open>globalID\<close> is part of the state.
\<close>

section \<open>LLVM\<close>

record llvm_loop =
  ll_depth :: "32 word"
  ll_header :: nat
  ll_preheader :: "nat option"
  ll_blocks :: "nat list"
  ll_isLatch :: "nat \<Rightarrow> bool"
  ll_isInvariant :: "nat \<Rightarrow> bool"
  ll_exitBlocks :: "nat list"
  ll_exitEdges :: "(nat \<times> nat) list"
  ll_parent :: "nat option"
  ll_subLoops :: "nat list"

record llvm_module =
  lm_loop :: "nat \<Rightarrow> llvm_loop"
  lm_insts :: "nat \<Rightarrow> nat list"
  lm_parent :: "nat \<Rightarrow> nat"
  lm_function :: "nat \<Rightarrow> nat"
  lm_succs :: "nat \<Rightarrow> nat list"

datatype llvm_value = Inst nat | Arg nat | OtherValue nat

section \<open>LoopStructure\<close>

record loop_structure =
  ls_ID :: "64 word"
  ls_header :: nat
  ls_preHeader :: "nat option"
  ls_depth :: "32 word"
  ls_parent :: "nat option"
  ls_invariants :: "nat list"
  ls_children :: "nat list"
  ls_latchBBs :: "nat list"
  ls_bbs :: "nat list"
  ls_orderedBBs :: "nat list"
  ls_exitBlocks :: "nat list"
  ls_exitEdges :: "(nat \<times> nat) list"

definition LoopStructure_of :: "llvm_module \<Rightarrow> nat \<Rightarrow> nat option \<Rightarrow> 64 word \<Rightarrow> loop_structure \<times> 64 word" where
  "LoopStructure_of M l parentLoop globalID =
     (let L = lm_loop M l
      in (\<lparr>ls_ID = globalID, ls_header = ll_header L, ls_preHeader = ll_preheader L, ls_depth = ll_depth L,
           ls_parent = parentLoop,
           ls_invariants = uset_insert_all (filter (ll_isInvariant L) (concat (map (lm_insts M) (ll_blocks L)))) [],
           ls_children = [],
           ls_latchBBs = uset_insert_all (filter (ll_isLatch L) (ll_blocks L)) [],
           ls_bbs = uset_insert_all (ll_blocks L) [],
           ls_orderedBBs = ll_blocks L,
           ls_exitBlocks = ll_exitBlocks L,
           ls_exitEdges = ll_exitEdges L\<rparr>,
          globalID + 1))"

definition getEntryInstruction :: "llvm_module \<Rightarrow> loop_structure \<Rightarrow> nat res" where
  "getEntryInstruction M ls = (case lm_insts M (ls_header ls) of [] \<Rightarrow> Inl DanglingDeref | i # _ \<Rightarrow> Inr i)"

definition setParentLoop :: "nat option \<Rightarrow> loop_structure \<Rightarrow> loop_structure" where
  "setParentLoop parentLoop ls = ls\<lparr>ls_parent := parentLoop\<rparr>"

definition addChild :: "nat \<Rightarrow> loop_structure \<Rightarrow> loop_structure" where
  "addChild child ls = ls\<lparr>ls_children := uset_insert child (ls_children ls)\<rparr>"

definition getInstructions :: "llvm_module \<Rightarrow> loop_structure \<Rightarrow> nat list" where
  "getInstructions M ls = uset_insert_all (concat (map (lm_insts M) (ls_bbs ls))) []"

definition getNumberOfInstructions :: "llvm_module \<Rightarrow> loop_structure \<Rightarrow> 64 word" where
  "getNumberOfInstructions M ls = fold (\<lambda>bb t. t + word_of_nat (length (lm_insts M bb))) (ls_bbs ls) 0"

definition isIncluded :: "nat \<Rightarrow> loop_structure \<Rightarrow> bool" where
  "isIncluded bb ls \<longleftrightarrow> bb \<in> set (ls_bbs ls)"

definition isIncluded_inst :: "llvm_module \<Rightarrow> nat \<Rightarrow> loop_structure \<Rightarrow> bool" where
  "isIncluded_inst M i ls = isIncluded (lm_parent M i) ls"

definition isContainedInstructionLoopInvariant :: "nat \<Rightarrow> loop_structure \<Rightarrow> bool" where
  "isContainedInstructionLoopInvariant i ls \<longleftrightarrow> i \<in> set (ls_invariants ls)"

definition isLoopInvariant :: "llvm_module \<Rightarrow> llvm_value \<Rightarrow> loop_structure \<Rightarrow> bool" where
  "isLoopInvariant M v ls =
     (case v of
        Inst i \<Rightarrow> if \<not> isIncluded (lm_parent M i) ls then True else isContainedInstructionLoopInvariant i ls
      | Arg _ \<Rightarrow> True
      | OtherValue _ \<Rightarrow> False)"

definition getFunction :: "llvm_module \<Rightarrow> loop_structure \<Rightarrow> nat" where
  "getFunction M ls = lm_function M (ls_header ls)"

definition numberOfExitBasicBlocks :: "loop_structure \<Rightarrow> 64 word" where
  "numberOfExitBasicBlocks ls = word_of_nat (length (ls_exitBlocks ls))"

subsection \<open>Walking the tree of loops\<close>

text \<open>The children are addresses in the heap of structures, so the recursive methods are partial: on a heap that is not a
  forest they do not return. \<open>cs\<close> are the children still to be visited by the loop of the current call.\<close>

definition isIncludedInItsSubLoops :: "llvm_module \<Rightarrow> (nat \<Rightarrow> loop_structure) \<Rightarrow> nat \<Rightarrow> nat \<Rightarrow> bool" where
  "isIncludedInItsSubLoops M mem i l \<longleftrightarrow>
     isIncluded_inst M i (mem l) \<and> (\<exists>c \<in> set (ls_children (mem l)). isIncluded_inst M i (mem c))"

partial_function (option) descendants_from :: "(nat \<Rightarrow> loop_structure) \<Rightarrow> nat list \<Rightarrow> nat list \<Rightarrow> nat list option" where
  "descendants_from mem cs descendants =
     (case cs of
        [] \<Rightarrow> Some descendants
      | c # rest \<Rightarrow>
          Option.bind (descendants_from mem (ls_children (mem c)) []) (\<lambda>childDescendants.
            descendants_from mem rest (uset_insert_all childDescendants (uset_insert c descendants))))"

definition getLoopDescendants :: "(nat \<Rightarrow> loop_structure) \<Rightarrow> nat \<Rightarrow> nat list option" where
  "getLoopDescendants mem l = descendants_from mem (ls_children (mem l)) []"

partial_function (option) sub_loops_from :: "(nat \<Rightarrow> loop_structure) \<Rightarrow> nat list \<Rightarrow> 32 word \<Rightarrow> 32 word option" where
  "sub_loops_from mem cs subloops =
     (case cs of
        [] \<Rightarrow> Some subloops
      | c # rest \<Rightarrow>
          Option.bind (sub_loops_from mem (ls_children (mem c)) 0) (\<lambda>n. sub_loops_from mem rest (subloops + 1 + n)))"

definition getNumberOfSubLoops :: "(nat \<Rightarrow> loop_structure) \<Rightarrow> nat \<Rightarrow> 32 word option" where
  "getNumberOfSubLoops mem l = sub_loops_from mem (ls_children (mem l)) 0"

section \<open>LoopsSummary\<close>

record loops_summary =
  sm_loops :: "nat list"
  sm_topLoop :: "nat option"
  sm_bbToLoop :: "nat \<rightharpoonup> nat"
  sm_mem :: "nat \<Rightarrow> loop_structure"
  sm_next :: nat
  sm_globalID :: "64 word"

definition empty_summary :: "64 word \<Rightarrow> loops_summary" where
  "empty_summary globalID =
     \<lparr>sm_loops = [], sm_topLoop = None, sm_bbToLoop = (\<lambda>_. None), sm_mem = (\<lambda>_. undefined), sm_next = 0,
      sm_globalID = globalID\<rparr>"

definition createSummary :: "llvm_module \<Rightarrow> nat \<Rightarrow> nat option \<Rightarrow> loops_summary \<Rightarrow> nat \<times> loops_summary" where
  "createSummary M l parentLoop S =
     (let lPtr = sm_next S;
          (ls, globalID) = LoopStructure_of M l parentLoop (sm_globalID S)
      in (lPtr,
          S\<lparr>sm_mem := (sm_mem S)(lPtr := ls), sm_next := Suc lPtr, sm_globalID := globalID,
            sm_bbToLoop := fold (\<lambda>bb m. m(bb \<mapsto> lPtr)) (ll_blocks (lm_loop M l)) (sm_bbToLoop S),
            sm_loops := uset_insert lPtr (sm_loops S)\<rparr>))"

type_synonym summarize_state = "(nat option \<rightharpoonup> nat option) \<times> nat list \<times> loops_summary"

definition summarize_step :: "llvm_module \<Rightarrow> summarize_state \<Rightarrow> summarize_state res" where
  "summarize_step M = (\<lambda>(loopToSummary, toSummarize, S).
     case toSummarize of
       [] \<Rightarrow> Inl OutOfRange
     | l # rest \<Rightarrow>
         (case loopToSummary (ll_parent (lm_loop M l)) of
            None \<Rightarrow> Inl AssertFailed
          | Some parentStructure \<Rightarrow>
              let (child, S1) = createSummary M l parentStructure S;
                  S2 = (case parentStructure of None \<Rightarrow> S1
                        | Some p \<Rightarrow> S1\<lparr>sm_mem := (sm_mem S1)(p := addChild child (sm_mem S1 p))\<rparr>)
              in Inr (loopToSummary(Some l \<mapsto> Some child), rest @ ll_subLoops (lm_loop M l), S2)))"

definition LoopsSummary_of :: "llvm_module \<Rightarrow> nat \<Rightarrow> 64 word \<Rightarrow> loops_summary res" where
  "LoopsSummary_of M loop globalID =
     andThen (whileE (\<lambda>(_, toSummarize, _). toSummarize \<noteq> []) (summarize_step M)
                ([ll_parent (lm_loop M loop) \<mapsto> None], [loop], empty_summary globalID))
       (\<lambda>(loopToSummary, _, S).
          case loopToSummary (Some loop) of None \<Rightarrow> Inl AssertFailed | Some t \<Rightarrow> Inr (S\<lparr>sm_topLoop := t\<rparr>))"

definition getLoop :: "loops_summary \<Rightarrow> nat \<Rightarrow> nat option" where
  "getLoop S bb = sm_bbToLoop S bb"

definition getLoop_inst :: "llvm_module \<Rightarrow> loops_summary \<Rightarrow> nat \<Rightarrow> nat option" where
  "getLoop_inst M S i = getLoop S (lm_parent M i)"

definition getLoopNestingTreeRoot :: "loops_summary \<Rightarrow> nat res" where
  "getLoopNestingTreeRoot S = (case sm_topLoop S of None \<Rightarrow> Inl AssertFailed | Some t \<Rightarrow> Inr t)"

end
