(* ===== verification/LoopsCorrect.thy ===== *)
theory LoopsCorrect
  imports Loops
begin

text \<open>
  Correctness of the summary of loops: it mirrors LLVM's tree of loops, finds the innermost loop of a block, and its
  recursive walks visit exactly the loops below.
\<close>

section \<open>LLVM's tree of loops\<close>

definition loop_edges :: "llvm_module \<Rightarrow> nat set \<Rightarrow> (nat \<times> nat) set" where
  "loop_edges M L = {(l, c). l \<in> L \<and> c \<in> set (ll_subLoops (lm_loop M l))}"

abbreviation blocks_of :: "llvm_module \<Rightarrow> nat \<Rightarrow> nat set" where
  "blocks_of M l \<equiv> set (ll_blocks (lm_loop M l))"

abbreviation subs_of :: "llvm_module \<Rightarrow> nat \<Rightarrow> nat set" where
  "subs_of M l \<equiv> set (ll_subLoops (lm_loop M l))"

text \<open>What LLVM's loop information promises of the loops \<open>L\<close> nested in \<open>rt\<close>.\<close>

definition loop_tree :: "llvm_module \<Rightarrow> nat \<Rightarrow> nat set \<Rightarrow> bool" where
  "loop_tree M rt L \<longleftrightarrow> finite L \<and> L = (loop_edges M L)\<^sup>* `` {rt} \<and> ll_parent (lm_loop M rt) \<notin> Some ` L \<and>
     (\<forall>l \<in> L. distinct (ll_subLoops (lm_loop M l)) \<and>
        (\<forall>c \<in> subs_of M l. c \<in> L \<and> ll_parent (lm_loop M c) = Some l \<and> blocks_of M c \<subseteq> blocks_of M l \<and>
           (\<forall>c' \<in> subs_of M l. c \<noteq> c' \<longrightarrow> blocks_of M c \<inter> blocks_of M c' = {})))"

lemma loop_treeD:
  assumes "loop_tree M rt L"
  shows "finite L" "rt \<in> L" "ll_parent (lm_loop M rt) \<notin> Some ` L"
    and "\<And>l. l \<in> L \<Longrightarrow> (rt, l) \<in> (loop_edges M L)\<^sup>*"
    and "\<And>l. l \<in> L \<Longrightarrow> distinct (ll_subLoops (lm_loop M l))"
    and "\<And>l c. l \<in> L \<Longrightarrow> c \<in> subs_of M l \<Longrightarrow> c \<in> L \<and> ll_parent (lm_loop M c) = Some l \<and> blocks_of M c \<subseteq> blocks_of M l"
    and "\<And>l c c' b. l \<in> L \<Longrightarrow> c \<in> subs_of M l \<Longrightarrow> c' \<in> subs_of M l \<Longrightarrow> b \<in> blocks_of M c \<Longrightarrow> b \<in> blocks_of M c' \<Longrightarrow> c = c'"
proof -
  have rt: "L = (loop_edges M L)\<^sup>* `` {rt}" using assms by (simp add: loop_tree_def)
  show "rt \<in> L" by (subst rt) simp
  show "(rt, l) \<in> (loop_edges M L)\<^sup>*" if "l \<in> L" for l using that by (subst (asm) rt) simp
  show "c = c'" if "l \<in> L" "c \<in> subs_of M l" "c' \<in> subs_of M l" "b \<in> blocks_of M c" "b \<in> blocks_of M c'" for l c c' b
    using assms that unfolding loop_tree_def by blast
qed (use assms in \<open>auto simp: loop_tree_def\<close>)

lemma loop_edges_iff:
  assumes "loop_tree M rt L" and "l \<in> L"
  shows "(p, l) \<in> loop_edges M L \<longleftrightarrow> p \<in> L \<and> l \<in> subs_of M p"
  by (auto simp: loop_edges_def)

text \<open>Every loop but the outermost one is a sub-loop of exactly its parent.\<close>

lemma loop_parent:
  assumes t: "loop_tree M rt L" and l: "l \<in> L"
  shows "l = rt \<or> (\<exists>p \<in> L. l \<in> subs_of M p \<and> ll_parent (lm_loop M l) = Some p)"
proof (cases "l = rt")
  case False
  with loop_treeD(4) [OF t l] obtain p where "(p, l) \<in> loop_edges M L" by (auto elim: rtranclE)
  then have "p \<in> L" "l \<in> subs_of M p" by (auto simp: loop_edges_def)
  with loop_treeD(6) [OF t] show ?thesis by blast
qed simp

lemma top_not_sub: "loop_tree M rt L \<Longrightarrow> l \<in> L \<Longrightarrow> rt \<notin> subs_of M l"
  using loop_treeD(3) [of M rt L] loop_treeD(6) [of M rt L l rt] by auto

lemma blocks_below:
  assumes "loop_tree M rt L" and "(l, m) \<in> (loop_edges M L)\<^sup>*"
  shows "blocks_of M m \<subseteq> blocks_of M l"
  using assms(2)
proof (induction rule: rtrancl_induct)
  case (step y z)
  then have "y \<in> L" "z \<in> subs_of M y" by (auto simp: loop_edges_def)
  with loop_treeD(6) [OF assms(1)] step.IH show ?case by blast
qed simp

section \<open>The worklist\<close>

text \<open>\<open>P\<close> are the loops summarised so far, \<open>\<sigma>\<close> their structures.\<close>

definition tree_inv :: "llvm_module \<Rightarrow> nat \<Rightarrow> nat set \<Rightarrow> nat set \<Rightarrow> nat list \<Rightarrow> bool" where
  "tree_inv M rt L P q \<longleftrightarrow> P \<subseteq> L \<and> set q \<subseteq> L - P \<and> distinct q \<and> rt \<in> P \<union> set q \<and>
     (\<forall>l \<in> P. subs_of M l \<subseteq> P \<union> set q) \<and>
     (\<forall>l \<in> P \<union> set q. l \<noteq> rt \<longrightarrow> the (ll_parent (lm_loop M l)) \<in> P)"

lemma tree_inv_step:
  assumes t: "loop_tree M rt L" and inv: "tree_inv M rt L P (l # q)"
  shows "tree_inv M rt L (insert l P) (q @ ll_subLoops (lm_loop M l))"
proof -
  have l: "l \<in> L" "l \<notin> P" and P: "P \<subseteq> L" and q: "set q \<subseteq> L - P" "distinct q" "l \<notin> set q"
    and rt: "rt \<in> insert l (P \<union> set q)" and sub: "\<And>k. k \<in> P \<Longrightarrow> subs_of M k \<subseteq> insert l (P \<union> set q)"
    and par: "\<And>k. k \<in> insert l (P \<union> set q) \<Longrightarrow> k \<noteq> rt \<Longrightarrow> the (ll_parent (lm_loop M k)) \<in> P"
    using inv by (auto simp: tree_inv_def)
  have new: "c \<in> L - P - set q - {l}" if c: "c \<in> subs_of M l" for c
  proof -
    have cp: "c \<in> L" "ll_parent (lm_loop M c) = Some l" using loop_treeD(6) [OF t l(1) c] by auto
    have "c \<noteq> rt" using top_not_sub [OF t l(1)] c by auto
    with par [of c] cp l(2) show ?thesis by auto
  qed
  have parl: "the (ll_parent (lm_loop M c)) = l" if "c \<in> subs_of M l" for c using loop_treeD(6) [OF t l(1) that] by simp
  show ?thesis unfolding tree_inv_def
  proof (intro conjI ballI impI)
    show "insert l P \<subseteq> L" using l(1) P by simp
    show "set (q @ ll_subLoops (lm_loop M l)) \<subseteq> L - insert l P" using q new by auto
    show "distinct (q @ ll_subLoops (lm_loop M l))" using q(2) loop_treeD(5) [OF t l(1)] new by auto
    show "rt \<in> insert l P \<union> set (q @ ll_subLoops (lm_loop M l))" using rt by auto
    show "subs_of M k \<subseteq> insert l P \<union> set (q @ ll_subLoops (lm_loop M l))" if "k \<in> insert l P" for k
      using that sub [of k] by auto
    show "the (ll_parent (lm_loop M k)) \<in> insert l P"
      if "k \<in> insert l P \<union> set (q @ ll_subLoops (lm_loop M l))" "k \<noteq> rt" for k
      using that par [of k] parl [of k] by auto
  qed
qed

lemma tree_inv_final:
  assumes t: "loop_tree M rt L" and inv: "tree_inv M rt L P []"
  shows "P = L"
proof -
  have P: "P \<subseteq> L" "rt \<in> P" and sub: "\<And>l. l \<in> P \<Longrightarrow> subs_of M l \<subseteq> P" using inv by (auto simp: tree_inv_def)
  have "l \<in> P" if "(rt, l) \<in> (loop_edges M L)\<^sup>*" for l
    using that
  proof induction
    case (step y z)
    then show ?case using sub [of y] by (auto simp: loop_edges_def)
  qed (rule P(2))
  with loop_treeD(4) [OF t] P(1) show ?thesis by blast
qed

section \<open>The structures\<close>

definition struct_ok :: "llvm_module \<Rightarrow> nat \<Rightarrow> nat set \<Rightarrow> (nat \<Rightarrow> nat) \<Rightarrow> loops_summary \<Rightarrow> nat \<Rightarrow> bool" where
  "struct_ok M rt P \<sigma> S l \<longleftrightarrow> (let s = sm_mem S (\<sigma> l); LL = lm_loop M l in
     ls_header s = ll_header LL \<and> ls_depth s = ll_depth LL \<and> set (ls_bbs s) = blocks_of M l \<and>
     ls_exitBlocks s = ll_exitBlocks LL \<and>
     ls_parent s = (if l = rt then None else Some (\<sigma> (the (ll_parent LL)))) \<and>
     distinct (ls_children s) \<and> set (ls_children s) = \<sigma> ` (subs_of M l \<inter> P))"

definition blocks_ok :: "llvm_module \<Rightarrow> nat set \<Rightarrow> nat set \<Rightarrow> (nat \<Rightarrow> nat) \<Rightarrow> loops_summary \<Rightarrow> bool" where
  "blocks_ok M L P \<sigma> S \<longleftrightarrow> (\<forall>b. case getLoop S b of None \<Rightarrow> \<forall>l \<in> P. b \<notin> blocks_of M l
     | Some s \<Rightarrow> \<exists>l \<in> P. s = \<sigma> l \<and> b \<in> blocks_of M l \<and> (\<forall>m \<in> P. b \<in> blocks_of M m \<longrightarrow> (m, l) \<in> (loop_edges M L)\<^sup>*))"

definition heap_inv :: "llvm_module \<Rightarrow> nat \<Rightarrow> nat set \<Rightarrow> nat set \<Rightarrow> (nat \<Rightarrow> nat) \<Rightarrow> (nat option \<rightharpoonup> nat option) \<Rightarrow> loops_summary \<Rightarrow> bool" where
  "heap_inv M rt L P \<sigma> m S \<longleftrightarrow> inj_on \<sigma> P \<and> (\<forall>l \<in> P. \<sigma> l < sm_next S) \<and> set (sm_loops S) = \<sigma> ` P \<and> distinct (sm_loops S) \<and>
     m (ll_parent (lm_loop M rt)) = Some None \<and> (\<forall>l \<in> P. m (Some l) = Some (Some (\<sigma> l))) \<and>
     (\<forall>l \<in> P. struct_ok M rt P \<sigma> S l) \<and> blocks_ok M L P \<sigma> S"

lemma blocks_map_fold:
  "fold (\<lambda>bb m. m(bb \<mapsto> a)) bs m b = (if b \<in> set bs then Some a else m b)"
  by (induction bs arbitrary: m) auto

lemma createSummary_spec:
  assumes "createSummary M l par S = (a, S')"
  shows "a = sm_next S" "sm_next S' = Suc a" "sm_loops S' = uset_insert a (sm_loops S)"
    "getLoop S' b = (if b \<in> blocks_of M l then Some a else getLoop S b)"
    "k \<noteq> a \<Longrightarrow> sm_mem S' k = sm_mem S k" "sm_topLoop S' = sm_topLoop S"
    "ls_header (sm_mem S' a) = ll_header (lm_loop M l)" "ls_depth (sm_mem S' a) = ll_depth (lm_loop M l)"
    "set (ls_bbs (sm_mem S' a)) = blocks_of M l" "ls_exitBlocks (sm_mem S' a) = ll_exitBlocks (lm_loop M l)"
    "ls_parent (sm_mem S' a) = par" "ls_children (sm_mem S' a) = []"
  using assms by (auto simp: createSummary_def LoopStructure_of_def Let_def getLoop_def blocks_map_fold)

text \<open>Adding the innermost loop so far keeps the block map pointing at innermost loops.\<close>

lemma blocks_ok_step:
  assumes t: "loop_tree M rt L" and tr: "tree_inv M rt L P (l # q)" and ok: "blocks_ok M L P \<sigma> S"
    and g: "\<And>b. getLoop S' b = (if b \<in> blocks_of M l then Some a else getLoop S b)"
    and \<sigma>: "\<sigma>' l = a" "\<And>k. k \<in> P \<Longrightarrow> \<sigma>' k = \<sigma> k"
  shows "blocks_ok M L (insert l P) \<sigma>' S'"
proof -
  let ?E = "loop_edges M L"
  have l: "l \<in> L" "l \<notin> P" and P: "P \<subseteq> L" using tr by (auto simp: tree_inv_def)
  have up: "(m, l) \<in> ?E\<^sup>*" if b: "b \<in> blocks_of M l" and m: "m \<in> P" "b \<in> blocks_of M m" for b m
  proof -
    have "l \<noteq> rt"
    proof
      assume "l = rt"
      have "k \<notin> P" if "(rt, k) \<in> ?E\<^sup>*" for k
        using that
      proof induction
        case base
        show ?case using l(2) \<open>l = rt\<close> by simp
      next
        case (step y z)
        then have yz: "y \<in> L" "z \<in> subs_of M y" by (auto simp: loop_edges_def)
        have "z \<noteq> rt" using top_not_sub [OF t yz(1)] yz(2) by auto
        moreover have "the (ll_parent (lm_loop M z)) = y" using loop_treeD(6) [OF t yz] by simp
        ultimately show ?case using step tr by (auto simp: tree_inv_def)
      qed
      with m(1) P loop_treeD(4) [OF t] show False by blast
    qed
    with loop_parent [OF t l(1)] obtain p where p: "p \<in> L" "l \<in> subs_of M p" "ll_parent (lm_loop M l) = Some p" by blast
    with tr \<open>l \<noteq> rt\<close> have pP: "p \<in> P" by (auto simp: tree_inv_def)
    have bp: "b \<in> blocks_of M p" using loop_treeD(6) [OF t p(1,2)] b by blast
    from ok have "case getLoop S b of None \<Rightarrow> \<forall>l \<in> P. b \<notin> blocks_of M l
     | Some s \<Rightarrow> \<exists>l \<in> P. s = \<sigma> l \<and> b \<in> blocks_of M l \<and> (\<forall>m \<in> P. b \<in> blocks_of M m \<longrightarrow> (m, l) \<in> ?E\<^sup>*)"
      unfolding blocks_ok_def by blast
    then obtain k where k: "k \<in> P" "b \<in> blocks_of M k" "\<And>m. m \<in> P \<Longrightarrow> b \<in> blocks_of M m \<Longrightarrow> (m, k) \<in> ?E\<^sup>*"
      using pP bp by (auto split: option.splits)
    have "k = p"
    proof (rule ccontr)
      assume "k \<noteq> p"
      with k(3) [OF pP bp] obtain c where c: "(p, c) \<in> ?E" "(c, k) \<in> ?E\<^sup>*" by (metis converse_rtranclE)
      then have cs: "c \<in> subs_of M p" "c \<in> L" using loop_treeD(6) [OF t p(1)] by (auto simp: loop_edges_def)
      have "b \<in> blocks_of M c" using blocks_below [OF t c(2)] k(2) by blast
      then have "c = l" using loop_treeD(7) [OF t p(1) cs(1) p(2)] b by blast
      have "z \<in> P \<Longrightarrow> y \<in> P" if "(y, z) \<in> ?E\<^sup>*" for y z
        using that
      proof (induction rule: rtrancl_induct)
        case (step u w)
        then have uw: "u \<in> L" "w \<in> subs_of M u" by (auto simp: loop_edges_def)
        have "w \<noteq> rt" using top_not_sub [OF t uw(1)] uw(2) by auto
        moreover have "the (ll_parent (lm_loop M w)) = u" using loop_treeD(6) [OF t uw] by simp
        ultimately show ?case using step tr by (auto simp: tree_inv_def)
      qed
      from this [OF c(2) k(1)] \<open>c = l\<close> l(2) show False by simp
    qed
    with k(3) [OF m] have "(m, p) \<in> ?E\<^sup>*" by simp
    moreover have "(p, l) \<in> ?E" using p by (simp add: loop_edges_def)
    ultimately show ?thesis by (rule rtrancl_into_rtrancl)
  qed
  show ?thesis unfolding blocks_ok_def
  proof
    fix b
    show "case getLoop S' b of None \<Rightarrow> \<forall>l \<in> insert l P. b \<notin> blocks_of M l
      | Some s \<Rightarrow> \<exists>k \<in> insert l P. s = \<sigma>' k \<and> b \<in> blocks_of M k \<and>
          (\<forall>m \<in> insert l P. b \<in> blocks_of M m \<longrightarrow> (m, k) \<in> ?E\<^sup>*)"
    proof (cases "b \<in> blocks_of M l")
      case True
      then have "\<forall>m \<in> insert l P. b \<in> blocks_of M m \<longrightarrow> (m, l) \<in> ?E\<^sup>*" using up by auto
      then show ?thesis using True by (simp add: g \<sigma>(1))
    next
      case False
      have old: "case getLoop S b of None \<Rightarrow> \<forall>l \<in> P. b \<notin> blocks_of M l
        | Some s \<Rightarrow> \<exists>l \<in> P. s = \<sigma> l \<and> b \<in> blocks_of M l \<and> (\<forall>m \<in> P. b \<in> blocks_of M m \<longrightarrow> (m, l) \<in> ?E\<^sup>*)"
        using ok unfolding blocks_ok_def by (rule spec)
      show ?thesis
      proof (cases "getLoop S b")
        case (Some s)
        obtain k where k: "k \<in> P" "s = \<sigma> k" "b \<in> blocks_of M k"
          "\<forall>m \<in> P. b \<in> blocks_of M m \<longrightarrow> (m, k) \<in> ?E\<^sup>*"
          using old unfolding Some option.case by (elim bexE conjE) (rule that)
        have "\<exists>k \<in> insert l P. s = \<sigma>' k \<and> b \<in> blocks_of M k \<and>
          (\<forall>m \<in> insert l P. b \<in> blocks_of M m \<longrightarrow> (m, k) \<in> ?E\<^sup>*)"
          by (rule bexI [of _ k]) (use k False \<sigma>(2) in auto)
        then show ?thesis using False Some by (simp only: g if_False option.case)
      qed (use old False in \<open>simp add: g\<close>)
    qed
  qed
qed

lemma struct_ok_cong:
  assumes "struct_ok M rt P \<sigma> S k" and "sm_mem S' (\<sigma>' k) = sm_mem S (\<sigma> k)"
    and "k = rt \<or> \<sigma>' (the (ll_parent (lm_loop M k))) = \<sigma> (the (ll_parent (lm_loop M k)))"
    and "\<sigma>' ` (subs_of M k \<inter> P') = \<sigma> ` (subs_of M k \<inter> P)"
  shows "struct_ok M rt P' \<sigma>' S' k"
  using assms by (auto simp: struct_ok_def Let_def)

lemma summarize_step_ok:
  assumes t: "loop_tree M rt L" and tr: "tree_inv M rt L P (l # q)" and h: "heap_inv M rt L P \<sigma> m S"
  shows "\<exists>m' S' \<sigma>'. summarize_step M (m, l # q, S) = Inr (m', q @ ll_subLoops (lm_loop M l), S') \<and>
    heap_inv M rt L (insert l P) \<sigma>' m' S'"
proof -
  have l: "l \<in> L" "l \<notin> P" and P: "P \<subseteq> L" using tr by (auto simp: tree_inv_def)
  have inj: "inj_on \<sigma> P" and lt: "\<And>k. k \<in> P \<Longrightarrow> \<sigma> k < sm_next S" and loops: "set (sm_loops S) = \<sigma> ` P" "distinct (sm_loops S)"
    and m: "m (ll_parent (lm_loop M rt)) = Some None" "\<And>k. k \<in> P \<Longrightarrow> m (Some k) = Some (Some (\<sigma> k))"
    and st: "\<And>k. k \<in> P \<Longrightarrow> struct_ok M rt P \<sigma> S k" and bo: "blocks_ok M L P \<sigma> S"
    using h by (auto simp: heap_inv_def)
  let ?par = "if l = rt then None else Some (\<sigma> (the (ll_parent (lm_loop M l))))"
  have par: "l \<noteq> rt \<Longrightarrow> the (ll_parent (lm_loop M l)) \<in> P" using tr by (auto simp: tree_inv_def)
  have parm: "m (ll_parent (lm_loop M l)) = Some ?par"
    using loop_parent [OF t l(1)] m(1) m(2) [OF par] by auto
  obtain a S1 where c: "createSummary M l ?par S = (a, S1)" by fastforce
  note cs = createSummary_spec [OF c]
  define \<sigma>' where "\<sigma>' = \<sigma>(l := a)"
  define S2 where "S2 = (case ?par of None \<Rightarrow> S1 | Some p \<Rightarrow> S1\<lparr>sm_mem := (sm_mem S1)(p := addChild a (sm_mem S1 p))\<rparr>)"
  have run: "summarize_step M (m, l # q, S) = Inr (m(Some l \<mapsto> Some a), q @ ll_subLoops (lm_loop M l), S2)"
    unfolding summarize_step_def by (simp add: parm c S2_def)
  have new: "\<sigma> k \<noteq> a" if "k \<in> P" for k using lt [OF that] cs(1) by auto
  have kl: "\<sigma>' k = \<sigma> k" if "k \<in> P" for k using that l(2) by (auto simp: \<sigma>'_def)
  have lS2: "sm_next S2 = Suc a" "sm_loops S2 = uset_insert a (sm_loops S)" "getLoop S2 b = getLoop S1 b" for b
    using cs(2,3) by (simp_all add: S2_def getLoop_def)
  have memP: "sm_mem S2 (\<sigma> k) = (if l \<noteq> rt \<and> k = the (ll_parent (lm_loop M l)) then addChild a (sm_mem S (\<sigma> k)) else sm_mem S (\<sigma> k))"
    if k: "k \<in> P" for k
    using new [OF k] inj_on_eq_iff [OF inj k par] by (auto simp: S2_def cs(5))
  have meml: "sm_mem S2 a = sm_mem S1 a" using new [OF par] by (auto simp: S2_def)
  have img: "\<sigma>' ` (subs_of M k \<inter> P) = \<sigma> ` (subs_of M k \<inter> P)" for k by (rule image_cong [OF refl]) (simp add: kl)
  have parP: "k = rt \<or> \<sigma>' (the (ll_parent (lm_loop M k))) = \<sigma> (the (ll_parent (lm_loop M k)))" if "k \<in> insert l P" for k
    using that tr kl [of "the (ll_parent (lm_loop M k))"] by (auto simp: tree_inv_def)
  have "struct_ok M rt (insert l P) \<sigma>' S2 k" if k: "k \<in> P" for k
  proof (cases "l \<in> subs_of M k")
    case False
    then have e: "subs_of M k \<inter> insert l P = subs_of M k \<inter> P" by blast
    have "\<not> (l \<noteq> rt \<and> k = the (ll_parent (lm_loop M l)))" using False loop_parent [OF t l(1)] by auto
    then have "sm_mem S2 (\<sigma>' k) = sm_mem S (\<sigma> k)" unfolding kl [OF k] memP [OF k] by (simp only: if_False)
    moreover have "\<sigma>' ` (subs_of M k \<inter> insert l P) = \<sigma> ` (subs_of M k \<inter> P)" unfolding e by (rule img)
    ultimately show ?thesis using parP [of k] k by (intro struct_ok_cong [OF st [OF k]]) auto
  next
    case True
    have kL: "k \<in> L" using k P by blast
    have pk: "ll_parent (lm_loop M l) = Some k" using loop_treeD(6) [OF t kL True] by simp
    have nr: "l \<noteq> rt" using top_not_sub [OF t kL] True by auto
    have "sm_mem S2 (\<sigma>' k) = addChild a (sm_mem S (\<sigma> k))" using memP [OF k] nr pk by (simp add: kl [OF k])
    moreover have "\<sigma>' ` (subs_of M k \<inter> insert l P) = insert a (\<sigma> ` (subs_of M k \<inter> P))"
    proof -
      have "subs_of M k \<inter> insert l P = insert l (subs_of M k \<inter> P)" using True by blast
      then have "\<sigma>' ` (subs_of M k \<inter> insert l P) = insert (\<sigma>' l) (\<sigma>' ` (subs_of M k \<inter> P))" by simp
      then show ?thesis unfolding img by (simp add: \<sigma>'_def)
    qed
    ultimately show ?thesis using st [OF k] parP [of k] k by (auto simp: struct_ok_def Let_def addChild_def)
  qed
  moreover have "struct_ok M rt (insert l P) \<sigma>' S2 l"
  proof -
    have "c \<notin> insert l P" if "c \<in> subs_of M l" for c
    proof -
      have "ll_parent (lm_loop M c) = Some l" "c \<noteq> rt"
        using loop_treeD(6) [OF t l(1) that] top_not_sub [OF t l(1)] that by auto
      then show ?thesis using tr l(2) by (auto simp: tree_inv_def)
    qed
    then have "subs_of M l \<inter> insert l P = {}" by blast
    then show ?thesis using cs meml parP [of l] by (auto simp: struct_ok_def Let_def \<sigma>'_def)
  qed
  moreover have "blocks_ok M L (insert l P) \<sigma>' S2"
    by (rule blocks_ok_step [OF t tr bo, of _ a]) (use cs(4) lS2(3) kl in \<open>auto simp: \<sigma>'_def\<close>)
  moreover have "inj_on \<sigma>' (insert l P)"
    using inj new l(2) by (auto simp: \<sigma>'_def inj_on_def)
  moreover have "\<sigma>' ` insert l P = insert a (\<sigma> ` P)"
  proof -
    have "\<sigma>' ` P = \<sigma> ` P" by (rule image_cong [OF refl]) (rule kl)
    then show ?thesis by (simp only: image_insert) (simp add: \<sigma>'_def)
  qed
  moreover have "Some l \<noteq> ll_parent (lm_loop M rt)" using loop_treeD(3) [OF t] l(1) by (metis imageI)
  ultimately have "heap_inv M rt L (insert l P) \<sigma>' (m(Some l \<mapsto> Some a)) S2"
    using loops m lS2 lt l(2) cs(1) kl by (auto simp: heap_inv_def \<sigma>'_def less_Suc_eq)
  with run show ?thesis by blast
qed

text \<open>The summary: one structure per loop, with LLVM's data, parent and children, and the innermost loop of every block.\<close>

definition mirrors :: "llvm_module \<Rightarrow> nat \<Rightarrow> nat set \<Rightarrow> (nat \<Rightarrow> nat) \<Rightarrow> loops_summary \<Rightarrow> bool" where
  "mirrors M rt L \<sigma> S \<longleftrightarrow> inj_on \<sigma> L \<and> set (sm_loops S) = \<sigma> ` L \<and> distinct (sm_loops S) \<and> sm_topLoop S = Some (\<sigma> rt) \<and>
     (\<forall>l \<in> L. struct_ok M rt L \<sigma> S l) \<and> blocks_ok M L L \<sigma> S"

lemma LoopsSummary_ok:
  assumes t: "loop_tree M rt L"
  shows "\<exists>S \<sigma>. LoopsSummary_of M rt g = Inr S \<and> mirrors M rt L \<sigma> S"
proof -
  let ?b = "\<lambda>(_, q, _). q \<noteq> []" and ?s0 = "([ll_parent (lm_loop M rt) \<mapsto> None], [rt], empty_summary g)"
  let ?I = "\<lambda>(m, q, S). \<exists>P \<sigma>. tree_inv M rt L P q \<and> heap_inv M rt L P \<sigma> m S"
  have init: "?I ?s0"
  proof -
    have "tree_inv M rt L {} [rt]" using loop_treeD(2) [OF t] by (simp add: tree_inv_def)
    moreover have "heap_inv M rt L {} (\<lambda>_. 0) [ll_parent (lm_loop M rt) \<mapsto> None] (empty_summary g)"
      by (simp add: heap_inv_def empty_summary_def blocks_ok_def getLoop_def)
    ultimately show ?thesis by auto
  qed
  have "\<exists>s. whileE ?b (summarize_step M) ?s0 = Inr s \<and> ?I s \<and> \<not> ?b s"
  proof (rule whileE_total [OF wf_measure [of "\<lambda>(m, q, S). card L - length (sm_loops S)"], where P = ?I])
    show "?I ?s0" by (rule init)
    fix s assume s: "?I s" "?b s"
    then obtain m l q S P \<sigma> where e: "s = (m, l # q, S)" and tr: "tree_inv M rt L P (l # q)" and h: "heap_inv M rt L P \<sigma> m S"
      by (cases s) (auto simp: neq_Nil_conv)
    obtain m' S' \<sigma>' where r: "summarize_step M (m, l # q, S) = Inr (m', q @ ll_subLoops (lm_loop M l), S')"
      "heap_inv M rt L (insert l P) \<sigma>' m' S'" using summarize_step_ok [OF t tr h] by blast
    have len: "length (sm_loops T) = card Q" if "heap_inv M rt L Q \<tau> n T" for Q \<tau> n T
      using that by (auto simp: heap_inv_def distinct_card [symmetric] card_image)
    have Q: "insert l P \<subseteq> L" "l \<notin> P" using tr by (auto simp: tree_inv_def)
    then have fin: "finite P" "card (insert l P) \<le> card L"
      using loop_treeD(1) [OF t] by (auto intro: finite_subset card_mono)
    have "card L - length (sm_loops S') < card L - length (sm_loops S)"
      using len [OF h] len [OF r(2)] fin Q(2) by simp
    then show "\<exists>s'. summarize_step M s = Inr s' \<and> ?I s' \<and> (s', s) \<in> measure (\<lambda>(m, q, S). card L - length (sm_loops S))"
      using r tree_inv_step [OF t tr] by (auto simp: e)
  qed
  then obtain m S P \<sigma> where w: "whileE ?b (summarize_step M) ?s0 = Inr (m, [], S)" and tr: "tree_inv M rt L P []"
    and h: "heap_inv M rt L P \<sigma> m S" by auto
  have PL: "P = L" by (rule tree_inv_final [OF t tr])
  have mt: "m (Some rt) = Some (Some (\<sigma> rt))" using h loop_treeD(2) [OF t] by (simp add: heap_inv_def PL)
  have "mirrors M rt L \<sigma> (S\<lparr>sm_topLoop := Some (\<sigma> rt)\<rparr>)"
    using h by (simp add: heap_inv_def mirrors_def PL struct_ok_def blocks_ok_def getLoop_def)
  moreover have "LoopsSummary_of M rt g = Inr (S\<lparr>sm_topLoop := Some (\<sigma> rt)\<rparr>)"
    by (simp add: LoopsSummary_of_def w mt)
  ultimately show ?thesis by blast
qed

section \<open>The recursive walks\<close>

lemma parent_unique: "loop_tree M rt L \<Longrightarrow> (y, z) \<in> loop_edges M L \<Longrightarrow> (w, z) \<in> loop_edges M L \<Longrightarrow> w = y"
  using loop_treeD(6) [of M rt L y z] loop_treeD(6) [of M rt L w z] by (auto simp: loop_edges_def)

lemma loop_acyclic:
  assumes t: "loop_tree M rt L"
  shows "acyclic (loop_edges M L)"
proof -
  let ?E = "loop_edges M L"
  have "(l, l) \<notin> ?E\<^sup>+" if "(rt, l) \<in> ?E\<^sup>*" for l
    using that
  proof induction
    case base
    show ?case
    proof
      assume "(rt, rt) \<in> ?E\<^sup>+"
      then obtain y where "(y, rt) \<in> ?E" by (meson tranclE)
      then show False using top_not_sub [OF t] by (auto simp: loop_edges_def)
    qed
  next
    case (step y z)
    show ?case
    proof
      assume "(z, z) \<in> ?E\<^sup>+"
      then obtain w where w: "(w, z) \<in> ?E" "(z, w) \<in> ?E\<^sup>*" by (meson tranclD2)
      with parent_unique [OF t step.hyps(2)] have "(z, y) \<in> ?E\<^sup>*" by simp
      with step.hyps(2) have "(y, y) \<in> ?E\<^sup>+" by (rule rtrancl_into_trancl2)
      with step.IH show False by contradiction
    qed
  qed
  moreover have "l \<in> L" if "(l, l) \<in> ?E\<^sup>+" for l using that by (auto dest: tranclD simp: loop_edges_def)
  ultimately show ?thesis using loop_treeD(4) [OF t] by (auto simp: acyclic_def)
qed

lemma loop_wf:
  assumes t: "loop_tree M rt L"
  shows "wf ((loop_edges M L)\<inverse>)"
proof (rule finite_acyclic_wf_converse [OF _ loop_acyclic [OF t]])
  show "finite (loop_edges M L)"
    by (rule finite_subset [of _ "L \<times> L"]) (use loop_treeD(1,6) [OF t] in \<open>auto simp: loop_edges_def\<close>)
qed

lemma ancestors_chain:
  assumes t: "loop_tree M rt L" and "(c, x) \<in> (loop_edges M L)\<^sup>*" and "(d, x) \<in> (loop_edges M L)\<^sup>*"
  shows "(c, d) \<in> (loop_edges M L)\<^sup>* \<or> (d, c) \<in> (loop_edges M L)\<^sup>*"
  using assms(2,3)
proof (induction arbitrary: d rule: rtrancl_induct)
  case base
  then show ?case by simp
next
  case (step y z)
  from step.prems show ?case
  proof (cases rule: rtranclE)
    case base
    have "(c, z) \<in> (loop_edges M L)\<^sup>*" using step.hyps by (rule rtrancl_into_rtrancl)
    with base show ?thesis by simp
  next
    case (step w)
    then have "w = y" using parent_unique [OF t] \<open>(y, z) \<in> loop_edges M L\<close> by blast
    with step show ?thesis using step.IH by blast
  qed
qed

abbreviation below :: "llvm_module \<Rightarrow> nat set \<Rightarrow> nat \<Rightarrow> nat set" where
  "below M L l \<equiv> (loop_edges M L)\<^sup>+ `` {l}"

lemma below_children:
  assumes "l \<in> L"
  shows "below M L l = (\<Union>c \<in> subs_of M l. insert c (below M L c))"
proof (intro set_eqI iffI)
  fix x assume "x \<in> below M L l"
  then obtain c where "(l, c) \<in> loop_edges M L" "(c, x) \<in> (loop_edges M L)\<^sup>*" by (auto dest: tranclD)
  then show "x \<in> (\<Union>c \<in> subs_of M l. insert c (below M L c))" by (auto simp: loop_edges_def rtrancl_eq_or_trancl)
next
  fix x assume "x \<in> (\<Union>c \<in> subs_of M l. insert c (below M L c))"
  then obtain c where c: "c \<in> subs_of M l" "x = c \<or> (c, x) \<in> (loop_edges M L)\<^sup>+" by auto
  then have "(l, c) \<in> loop_edges M L" using assms by (simp add: loop_edges_def)
  with c(2) show "x \<in> below M L l" by (auto intro: trancl_into_trancl2)
qed

lemma below_disjoint:
  assumes t: "loop_tree M rt L" and l: "l \<in> L" and c: "c \<in> subs_of M l" "d \<in> subs_of M l" "c \<noteq> d"
  shows "insert c (below M L c) \<inter> insert d (below M L d) = {}"
proof (rule ccontr)
  let ?E = "loop_edges M L"
  assume "\<not> ?thesis"
  then obtain x where x: "(c, x) \<in> ?E\<^sup>*" "(d, x) \<in> ?E\<^sup>*" by (auto dest: trancl_into_rtrancl)
  have no: "(a, b) \<notin> ?E\<^sup>*" if "a \<in> subs_of M l" "b \<in> subs_of M l" "a \<noteq> b" for a b
  proof
    assume "(a, b) \<in> ?E\<^sup>*"
    with that(3) obtain w where w: "(a, w) \<in> ?E\<^sup>*" "(w, b) \<in> ?E" by (metis rtranclE)
    have "(l, b) \<in> ?E" "(l, a) \<in> ?E" using that l by (auto simp: loop_edges_def)
    with w parent_unique [OF t] have "(l, l) \<in> ?E\<^sup>+" by (metis rtrancl_into_trancl2)
    with loop_acyclic [OF t] show False by (auto simp: acyclic_def)
  qed
  from ancestors_chain [OF t x] no [of c d] no [of d c] c show False by auto
qed

lemma walk_children:
  assumes "\<And>c. c \<in> set cs \<Longrightarrow> (\<exists>ds. getLoopDescendants mem (f c) = Some ds \<and> set ds = f ` B c) \<and>
      getNumberOfSubLoops mem (f c) = Some (word_of_nat (card (B c)))"
  shows "(\<exists>ds. descendants_from mem (map f cs) acc = Some ds \<and> set ds = set acc \<union> f ` (\<Union>c \<in> set cs. insert c (B c))) \<and>
    sub_loops_from mem (map f cs) n = Some (n + word_of_nat (\<Sum>c \<leftarrow> cs. Suc (card (B c))))"
  using assms
proof (induction cs arbitrary: acc n)
  case Nil
  show ?case by (subst descendants_from.simps, subst sub_loops_from.simps) simp
next
  case (Cons c cs)
  obtain ds where ds: "descendants_from mem (ls_children (mem (f c))) [] = Some ds" "set ds = f ` B c"
    and k: "sub_loops_from mem (ls_children (mem (f c))) 0 = Some (word_of_nat (card (B c)))"
    using Cons.prems [of c] by (auto simp: getLoopDescendants_def getNumberOfSubLoops_def)
  let ?acc = "uset_insert_all ds (uset_insert (f c) acc)" and ?n = "n + 1 + word_of_nat (card (B c))"
  have "descendants_from mem (map f (c # cs)) acc = descendants_from mem (map f cs) ?acc"
    by (subst descendants_from.simps) (simp add: ds)
  moreover have "sub_loops_from mem (map f (c # cs)) n = sub_loops_from mem (map f cs) ?n"
    by (subst sub_loops_from.simps) (simp add: k)
  moreover have rest: "(\<exists>r. descendants_from mem (map f cs) ?acc = Some r \<and>
        set r = set ?acc \<union> f ` (\<Union>c \<in> set cs. insert c (B c))) \<and>
      sub_loops_from mem (map f cs) ?n = Some (?n + word_of_nat (\<Sum>c \<leftarrow> cs. Suc (card (B c))))"
    by (rule Cons.IH) (use Cons.prems in simp)
  moreover have "set ?acc \<union> f ` (\<Union>c \<in> set cs. insert c (B c)) = set acc \<union> f ` (\<Union>c \<in> set (c # cs). insert c (B c))"
    using ds(2) by (simp add: image_Un Un_ac)
  moreover have "?n + word_of_nat (\<Sum>c \<leftarrow> cs. Suc (card (B c))) = n + word_of_nat (\<Sum>c \<leftarrow> c # cs. Suc (card (B c)))"
    by (simp add: algebra_simps)
  ultimately show ?case by simp
qed

lemma walks_ok:
  assumes t: "loop_tree M rt L" and m: "mirrors M rt L \<sigma> S" and l: "l \<in> L"
  shows "(\<exists>ds. getLoopDescendants (sm_mem S) (\<sigma> l) = Some ds \<and> set ds = \<sigma> ` below M L l) \<and>
    getNumberOfSubLoops (sm_mem S) (\<sigma> l) = Some (word_of_nat (card (below M L l)))"
  using loop_wf [OF t] l
proof (induction l rule: wf_induct_rule)
  case (less l)
  have sub: "subs_of M l \<subseteq> L" using loop_treeD(6) [OF t less.prems] by blast
  have ch: "distinct (ls_children (sm_mem S (\<sigma> l)))" "set (ls_children (sm_mem S (\<sigma> l))) = \<sigma> ` subs_of M l"
    using m less.prems sub by (auto simp: mirrors_def struct_ok_def Let_def inf.absorb1)
  have inj: "inj_on \<sigma> L" using m by (simp add: mirrors_def)
  define cs where "cs = map (inv_into L \<sigma>) (ls_children (sm_mem S (\<sigma> l)))"
  have map: "map \<sigma> cs = ls_children (sm_mem S (\<sigma> l))"
    unfolding cs_def map_map by (rule map_idI) (use ch(2) sub in \<open>auto simp: f_inv_into_f\<close>)
  have set_cs: "set cs = subs_of M l"
    unfolding cs_def set_map ch(2) using sub inj by (auto simp: image_image inv_into_f_f subset_eq)
  have d: "distinct cs" using ch(1) map by (metis distinct_map)
  have "(\<exists>ds. getLoopDescendants (sm_mem S) (\<sigma> c) = Some ds \<and> set ds = \<sigma> ` below M L c) \<and>
    getNumberOfSubLoops (sm_mem S) (\<sigma> c) = Some (word_of_nat (card (below M L c)))" if "c \<in> set cs" for c
    by (rule less.IH) (use that sub less.prems in \<open>auto simp: set_cs loop_edges_def\<close>)
  note W = walk_children [of cs "sm_mem S" \<sigma> "below M L", OF this, of "[]" 0, unfolded map]
  have fin: "finite (below M L k)" for k
    by (rule finite_subset [OF _ loop_treeD(1) [OF t]])
      (use loop_treeD(6) [OF t] in \<open>auto dest!: tranclD2 simp: loop_edges_def\<close>)
  have irr: "k \<notin> below M L k" for k using loop_acyclic [OF t] by (auto simp: acyclic_def)
  have "card (below M L l) = (\<Sum>c \<in> set cs. card (insert c (below M L c)))"
    unfolding below_children [OF less.prems] set_cs
    by (rule card_UN_disjoint) (use fin below_disjoint [OF t less.prems] in auto)
  also have "\<dots> = (\<Sum>c \<leftarrow> cs. Suc (card (below M L c)))"
    using d fin irr by (simp add: sum_list_distinct_conv_sum_set)
  finally have card: "card (below M L l) = (\<Sum>c \<leftarrow> cs. Suc (card (below M L c)))" .
  have "(\<Union>c \<in> set cs. insert c (below M L c)) = below M L l" using below_children [OF less.prems] set_cs by metis
  with W show ?case unfolding getLoopDescendants_def getNumberOfSubLoops_def card by simp
qed

end
