(* ===== verification/DataFlow.thy ===== *)
theory DataFlow
  imports NoellePrelude
begin

text \<open>
  The data-flow engine: \<open>core/dataflow/src/DataFlowEngine.cpp\<close>, \<open>DataFlowResult.cpp\<close> and \<open>DataFlowAnalysis.cpp\<close>, with
  the client of the engine in \<open>core/loops/src/LoopAwareMemDepAnalysis.cpp\<close> (HELIX repeats it in
  \<open>tools/helix/src/SequentialSegment.cpp\<close>).

  A function of LLVM is its list of blocks with the instructions, successors and predecessors of each block (\<open>cfg\<close>).
  \<open>DataFlowResult\<close> holds four maps from instructions to sets of values; \<open>operator[]\<close> creates an empty set for an
  instruction that has none, so a map is a total function into lists without repetitions. The engine passes the
  callbacks a reference to \<open>IN\<close> or \<open>OUT\<close> of an instruction together with the whole result; the reference always
  aliases the set of the result, so a callback is a function on the result.
\<close>

record cfg =
  cfg_blocks :: "nat list"
  cfg_insts :: "nat \<Rightarrow> nat list"
  cfg_succs :: "nat \<Rightarrow> nat list"
  cfg_preds :: "nat \<Rightarrow> nat list"

record dataflow_result =
  GEN :: "nat \<Rightarrow> nat list"
  KILL :: "nat \<Rightarrow> nat list"
  IN :: "nat \<Rightarrow> nat list"
  OUT :: "nat \<Rightarrow> nat list"

type_synonym dfr = dataflow_result

definition new_result :: dfr where
  "new_result = \<lparr>GEN = (\<lambda>_. []), KILL = (\<lambda>_. []), IN = (\<lambda>_. []), OUT = (\<lambda>_. [])\<rparr>"

text \<open>\<open>&*bb->begin()\<close> and \<open>bb->getTerminator()\<close>.\<close>

definition first_inst :: "cfg \<Rightarrow> nat \<Rightarrow> nat res" where
  "first_inst F bb = (case cfg_insts F bb of [] \<Rightarrow> Inl DanglingDeref | i # _ \<Rightarrow> Inr i)"

definition last_inst :: "cfg \<Rightarrow> nat \<Rightarrow> nat res" where
  "last_inst F bb = (if cfg_insts F bb = [] then Inl NullDeref else Inr (last (cfg_insts F bb)))"

definition instructions :: "cfg \<Rightarrow> nat list" where
  "instructions F = concat (map (cfg_insts F) (cfg_blocks F))"

definition computeGENAndKILL :: "cfg \<Rightarrow> (nat \<Rightarrow> dfr \<Rightarrow> dfr) \<Rightarrow> (nat \<Rightarrow> dfr \<Rightarrow> dfr) \<Rightarrow> dfr \<Rightarrow> dfr" where
  "computeGENAndKILL F computeGEN computeKILL df =
     fold (\<lambda>bb. fold (\<lambda>i df. computeKILL i (computeGEN i df)) (cfg_insts F bb)) (cfg_blocks F) df"

section \<open>The backward analysis\<close>

text \<open>The working list, the blocks computed at least once, and the result. \<open>computeIN i\<close> recomputes \<open>IN[i]\<close>,
  \<open>computeOUT i s\<close> recomputes \<open>OUT[i]\<close> from the successor \<open>s\<close>.\<close>

fun propagate_up :: "(nat \<Rightarrow> dfr \<Rightarrow> dfr) \<Rightarrow> (nat \<Rightarrow> nat \<Rightarrow> dfr \<Rightarrow> dfr) \<Rightarrow> nat \<Rightarrow> nat list \<Rightarrow> dfr \<Rightarrow> dfr" where
  "propagate_up computeIN computeOUT succI [] df = df"
| "propagate_up computeIN computeOUT succI (i # earlier) df =
     propagate_up computeIN computeOUT i earlier (computeIN i (computeOUT i succI df))"

type_synonym backward_state = "nat list \<times> nat list \<times> dfr"

definition backward_step ::
  "cfg \<Rightarrow> (nat \<Rightarrow> dfr \<Rightarrow> dfr) \<Rightarrow> (nat \<Rightarrow> nat \<Rightarrow> dfr \<Rightarrow> dfr) \<Rightarrow> backward_state \<Rightarrow> backward_state res" where
  "backward_step F computeIN computeOUT = (\<lambda>(workingList, computedOnce, df).
     case workingList of
       [] \<Rightarrow> Inl OutOfRange
     | bb # rest \<Rightarrow>
         andThen (last_inst F bb) (\<lambda>inst.
         andThen (foldE (\<lambda>successorBB df. andThen (first_inst F successorBB) (\<lambda>s. Inr (computeOUT inst s df)))
                    (cfg_succs F bb) df) (\<lambda>df1.
           let oldSize = length (IN df1 inst);
               df2 = computeIN inst df1
           in if length (IN df2 inst) > oldSize \<or> bb \<notin> set computedOnce
              then Inr (rest @ cfg_preds F bb, uset_insert bb computedOnce,
                        propagate_up computeIN computeOUT inst (rev (butlast (cfg_insts F bb))) df2)
              else Inr (rest, computedOnce, df2))))"

definition applyBackward ::
  "cfg \<Rightarrow> (nat \<Rightarrow> dfr \<Rightarrow> dfr) \<Rightarrow> (nat \<Rightarrow> dfr \<Rightarrow> dfr) \<Rightarrow> (nat \<Rightarrow> dfr \<Rightarrow> dfr) \<Rightarrow> (nat \<Rightarrow> nat \<Rightarrow> dfr \<Rightarrow> dfr) \<Rightarrow> dfr res" where
  "applyBackward F computeGEN computeKILL computeIN computeOUT =
     (let df = computeGENAndKILL F computeGEN computeKILL new_result
      in andThen (whileE (\<lambda>(workingList, _, _). workingList \<noteq> []) (backward_step F computeIN computeOUT)
                    (rev (cfg_blocks F), [], df))
           (\<lambda>(_, _, df). Inr df))"

definition no_KILL :: "nat \<Rightarrow> dfr \<Rightarrow> dfr" where
  "no_KILL i df = df"

definition applyBackward_noKill ::
  "cfg \<Rightarrow> (nat \<Rightarrow> dfr \<Rightarrow> dfr) \<Rightarrow> (nat \<Rightarrow> dfr \<Rightarrow> dfr) \<Rightarrow> (nat \<Rightarrow> nat \<Rightarrow> dfr \<Rightarrow> dfr) \<Rightarrow> dfr res" where
  "applyBackward_noKill F computeGEN computeIN computeOUT = applyBackward F computeGEN no_KILL computeIN computeOUT"

section \<open>The forward analysis\<close>

text \<open>\<open>computeIN i p\<close> recomputes \<open>IN[i]\<close> from the predecessor \<open>p\<close>, \<open>computeOUT i\<close> recomputes \<open>OUT[i]\<close>. The map
  \<open>worklingListContent\<close> says whether a block is in the working list.\<close>

fun propagate_down :: "(nat \<Rightarrow> nat \<Rightarrow> dfr \<Rightarrow> dfr) \<Rightarrow> (nat \<Rightarrow> dfr \<Rightarrow> dfr) \<Rightarrow> nat \<Rightarrow> nat list \<Rightarrow> dfr \<Rightarrow> dfr" where
  "propagate_down computeIN computeOUT predI [] df = df"
| "propagate_down computeIN computeOUT predI (i # later) df =
     propagate_down computeIN computeOUT i later (computeOUT i (computeIN i predI df))"

record forward_state =
  fw_list :: "nat list"
  fw_content :: "nat \<Rightarrow> bool"
  fw_visited :: "nat \<Rightarrow> bool"
  fw_df :: dfr

definition initialize_sets :: "cfg \<Rightarrow> (nat \<Rightarrow> dfr \<Rightarrow> dfr) \<Rightarrow> (nat \<Rightarrow> dfr \<Rightarrow> dfr) \<Rightarrow> dfr \<Rightarrow> dfr" where
  "initialize_sets F initializeIN initializeOUT df =
     fold (\<lambda>bb. fold (\<lambda>i df. initializeOUT i (initializeIN i df)) (cfg_insts F bb)) (cfg_blocks F) df"

definition initial_list :: "cfg \<Rightarrow> (nat \<Rightarrow> nat list \<Rightarrow> nat list) \<Rightarrow> nat list \<times> (nat \<Rightarrow> bool)" where
  "initial_list F appendBB =
     fold (\<lambda>bb (workingList, content). (appendBB bb workingList, content(bb := True))) (cfg_blocks F) ([], \<lambda>_. False)"

definition push_successor :: "nat \<Rightarrow> nat list \<times> (nat \<Rightarrow> bool) \<Rightarrow> nat list \<times> (nat \<Rightarrow> bool)" where
  "push_successor succBB = (\<lambda>(workingList, content).
     if content succBB then (workingList, content) else (workingList @ [succBB], content(succBB := True)))"

definition forward_step ::
  "cfg \<Rightarrow> (nat \<Rightarrow> nat \<Rightarrow> dfr \<Rightarrow> dfr) \<Rightarrow> (nat \<Rightarrow> dfr \<Rightarrow> dfr) \<Rightarrow> (nat \<Rightarrow> nat res) \<Rightarrow> (nat \<Rightarrow> nat res)
   \<Rightarrow> forward_state \<Rightarrow> forward_state res" where
  "forward_step F computeIN computeOUT getFirstInstruction getLastInstruction st =
     (case fw_list st of
        [] \<Rightarrow> Inl OutOfRange
      | bb # rest \<Rightarrow>
          check (fw_content st bb) AssertFailed
          (let content = (fw_content st)(bb := False)
           in andThen (getFirstInstruction bb) (\<lambda>inst.
              andThen (foldE (\<lambda>predecessorBB df. andThen (getLastInstruction predecessorBB) (\<lambda>p. Inr (computeIN inst p df)))
                         (cfg_preds F bb) (fw_df st)) (\<lambda>df1.
                let oldSize = length (OUT df1 inst);
                    df2 = computeOUT inst df1
                in if \<not> fw_visited st inst \<or> length (OUT df2 inst) \<noteq> oldSize
                   then let later = tl (dropWhile (\<lambda>i. i \<noteq> inst) (cfg_insts F bb));
                            (workingList, content') = fold push_successor (cfg_succs F bb) (rest, content)
                        in Inr \<lparr>fw_list = workingList, fw_content = content', fw_visited = (fw_visited st)(inst := True),
                                fw_df = propagate_down computeIN computeOUT inst later df2\<rparr>
                   else Inr \<lparr>fw_list = rest, fw_content = content, fw_visited = fw_visited st, fw_df = df2\<rparr>))))"

definition applyCustomizableForwardAnalysis ::
  "cfg \<Rightarrow> (nat \<Rightarrow> dfr \<Rightarrow> dfr) \<Rightarrow> (nat \<Rightarrow> dfr \<Rightarrow> dfr) \<Rightarrow> (nat \<Rightarrow> dfr \<Rightarrow> dfr) \<Rightarrow> (nat \<Rightarrow> dfr \<Rightarrow> dfr)
   \<Rightarrow> (nat \<Rightarrow> nat \<Rightarrow> dfr \<Rightarrow> dfr) \<Rightarrow> (nat \<Rightarrow> dfr \<Rightarrow> dfr) \<Rightarrow> (nat \<Rightarrow> nat list \<Rightarrow> nat list)
   \<Rightarrow> (nat \<Rightarrow> nat res) \<Rightarrow> (nat \<Rightarrow> nat res) \<Rightarrow> dfr res" where
  "applyCustomizableForwardAnalysis F computeGEN computeKILL initializeIN initializeOUT computeIN computeOUT
     appendBB getFirstInstruction getLastInstruction =
     (let df0 = initialize_sets F initializeIN initializeOUT new_result;
          df = computeGENAndKILL F computeGEN computeKILL df0;
          (workingList, content) = initial_list F appendBB
      in andThen (whileE (\<lambda>st. fw_list st \<noteq> [])
                    (forward_step F computeIN computeOUT getFirstInstruction getLastInstruction)
                    \<lparr>fw_list = workingList, fw_content = content, fw_visited = (\<lambda>_. False), fw_df = df\<rparr>)
           (\<lambda>st. Inr (fw_df st)))"

definition append_back :: "nat \<Rightarrow> nat list \<Rightarrow> nat list" where
  "append_back bb workingList = workingList @ [bb]"

definition applyForward ::
  "cfg \<Rightarrow> (nat \<Rightarrow> dfr \<Rightarrow> dfr) \<Rightarrow> (nat \<Rightarrow> dfr \<Rightarrow> dfr) \<Rightarrow> (nat \<Rightarrow> dfr \<Rightarrow> dfr) \<Rightarrow> (nat \<Rightarrow> dfr \<Rightarrow> dfr)
   \<Rightarrow> (nat \<Rightarrow> nat \<Rightarrow> dfr \<Rightarrow> dfr) \<Rightarrow> (nat \<Rightarrow> dfr \<Rightarrow> dfr) \<Rightarrow> dfr res" where
  "applyForward F computeGEN computeKILL initializeIN initializeOUT computeIN computeOUT =
     applyCustomizableForwardAnalysis F computeGEN computeKILL initializeIN initializeOUT computeIN computeOUT
       append_back (first_inst F) (last_inst F)"

definition applyForward_noKill ::
  "cfg \<Rightarrow> (nat \<Rightarrow> dfr \<Rightarrow> dfr) \<Rightarrow> (nat \<Rightarrow> dfr \<Rightarrow> dfr) \<Rightarrow> (nat \<Rightarrow> dfr \<Rightarrow> dfr)
   \<Rightarrow> (nat \<Rightarrow> nat \<Rightarrow> dfr \<Rightarrow> dfr) \<Rightarrow> (nat \<Rightarrow> dfr \<Rightarrow> dfr) \<Rightarrow> dfr res" where
  "applyForward_noKill F computeGEN initializeIN initializeOUT computeIN computeOUT =
     applyForward F computeGEN no_KILL initializeIN initializeOUT computeIN computeOUT"

section \<open>The analyses of the sources\<close>

definition getFullSets_inst :: "cfg \<Rightarrow> nat \<Rightarrow> dfr \<Rightarrow> dfr" where
  "getFullSets_inst F inst df =
     fold (\<lambda>inst2 df. df\<lparr>IN := (IN df)(inst := uset_insert inst2 (IN df inst)),
                         OUT := (OUT df)(inst := uset_insert inst2 (OUT df inst))\<rparr>) (instructions F) df"

definition getFullSets :: "cfg \<Rightarrow> dfr" where
  "getFullSets F = fold (getFullSets_inst F) (instructions F) new_result"

definition reach_GEN :: "(nat \<Rightarrow> bool) \<Rightarrow> nat \<Rightarrow> dfr \<Rightarrow> dfr" where
  "reach_GEN keep i df = (if \<not> keep i then df else df\<lparr>GEN := (GEN df)(i := uset_insert i (GEN df i))\<rparr>)"

definition reach_OUT :: "nat \<Rightarrow> nat \<Rightarrow> dfr \<Rightarrow> dfr" where
  "reach_OUT i succ df = df\<lparr>OUT := (OUT df)(i := uset_insert_all (IN df succ) (OUT df i))\<rparr>"

definition reach_IN :: "nat \<Rightarrow> dfr \<Rightarrow> dfr" where
  "reach_IN i df = df\<lparr>IN := (IN df)(i := uset_insert_all (OUT df i) (uset_insert_all (GEN df i) (IN df i)))\<rparr>"

definition runReachableAnalysis :: "cfg \<Rightarrow> (nat \<Rightarrow> bool) \<Rightarrow> dfr res" where
  "runReachableAnalysis F keep = applyBackward F (reach_GEN keep) no_KILL reach_IN reach_OUT"

definition runReachableAnalysis_all :: "cfg \<Rightarrow> dfr res" where
  "runReachableAnalysis_all F = runReachableAnalysis F (\<lambda>_. True)"

text \<open>The client that looks at one iteration of a loop: nothing flows back over the first instruction of the header.\<close>

definition iteration_GEN :: "nat \<Rightarrow> dfr \<Rightarrow> dfr" where
  "iteration_GEN i df = df\<lparr>GEN := (GEN df)(i := uset_insert i (GEN df i))\<rparr>"

definition iteration_OUT :: "nat \<Rightarrow> nat \<Rightarrow> nat \<Rightarrow> dfr \<Rightarrow> dfr" where
  "iteration_OUT headerFirst i succ df =
     (if succ = headerFirst then df else df\<lparr>OUT := (OUT df)(i := uset_insert_all (IN df succ) (OUT df i))\<rparr>)"

definition iteration_IN :: "nat \<Rightarrow> dfr \<Rightarrow> dfr" where
  "iteration_IN i df = df\<lparr>IN := (IN df)(i := uset_insert_all (GEN df i) (uset_insert_all (OUT df i) (IN df i)))\<rparr>"

definition computeReachabilityFromInstructions :: "cfg \<Rightarrow> nat \<Rightarrow> dfr res" where
  "computeReachabilityFromInstructions F loopHeader =
     andThen (first_inst F loopHeader) (\<lambda>headerFirst.
       applyBackward_noKill F iteration_GEN iteration_IN (iteration_OUT headerFirst))"

end
