(* ===== verification/LoopDeps.thy ===== *)
theory LoopDeps
  imports LoopsCorrect DomSummary DataFlow DepGraph
begin

text \<open>
  Loop-carried dependences: \<open>core/loops/src/LoopCarriedDependencies.cpp\<close> and the refinement of the loop graph in
  \<open>core/loops/src/LoopAwareMemDepAnalysis.cpp\<close>. The code composes the summary of loops (\<open>Loops\<close>), the dominator summary
  (\<open>DomSummary\<close>), the data-flow analysis (\<open>DataFlow\<close>) and the dependence graph (\<open>DepGraph\<close>), whose values are LLVM
  values here. The analysis of iteration domains (\<open>LIDS\<close>) is a parameter.
\<close>

definition code_of :: "llvm_module \<Rightarrow> llvm_code" where
  "code_of M = \<lparr>inst_parent = (\<lambda>i. Some (lm_parent M i)),
     inst_next = (\<lambda>i. case tl (dropWhile (\<lambda>k. k \<noteq> i) (lm_insts M (lm_parent M i))) of [] \<Rightarrow> None | j # _ \<Rightarrow> Some j)\<rparr>"

section \<open>Reaching the header before another block\<close>

record reach_state =
  rs_queue :: "nat list"
  rs_enqueued :: "nat list"
  rs_isJReached :: bool
  rs_header :: bool

definition reach_step :: "llvm_module \<Rightarrow> loop_structure \<Rightarrow> nat \<Rightarrow> reach_state \<Rightarrow> reach_state res" where
  "reach_step M LS J st =
     (case rs_queue st of
        [] \<Rightarrow> Inl OutOfRange
      | B # rest \<Rightarrow>
          if B = ls_header LS then Inr (st\<lparr>rs_queue := rest, rs_header := True\<rparr>)
          else if B \<in> set (ls_exitBlocks LS) then Inr (st\<lparr>rs_queue := rest\<rparr>)
          else if B = J then Inr (st\<lparr>rs_queue := rest, rs_isJReached := True\<rparr>)
          else let (enqueued, queue) = fold (mark_new queue_add) (lm_succs M B) (rs_enqueued st, rest)
               in Inr (st\<lparr>rs_queue := queue, rs_enqueued := enqueued\<rparr>))"

definition canBasicBlockReachHeaderBeforeOther :: "llvm_module \<Rightarrow> loop_structure \<Rightarrow> nat \<Rightarrow> nat \<Rightarrow> bool res" where
  "canBasicBlockReachHeaderBeforeOther M LS I J =
     check (isIncluded I LS \<and> isIncluded J LS) AssertFailed
     (if I = J then Inr True
      else andThen (whileE (\<lambda>st. rs_queue st \<noteq> [] \<and> \<not> rs_header st) (reach_step M LS J)
                      \<lparr>rs_queue = [I], rs_enqueued = [I], rs_isJReached = False, rs_header = False\<rparr>)
             (\<lambda>st. if rs_header st then Inr True else check (rs_isJReached st) AssertFailed (Inr False)))"

section \<open>The loop of a loop-carried dependence\<close>

definition getLoopOfLCD ::
  "llvm_module \<Rightarrow> loops_summary \<Rightarrow> dom_tree \<Rightarrow> (llvm_value, 'r) dg \<Rightarrow> ptr \<Rightarrow> nat option res" where
  "getLoopOfLCD M LIS DT g edge =
     (case (node_T g (edge_from g edge), node_T g (edge_to g edge)) of
        (Inst producerI, Inst consumerI) \<Rightarrow>
          (case (getLoop_inst M LIS producerI, getLoop_inst M LIS consumerI) of
             (Some producerLoop, Some consumerLoop) \<Rightarrow>
               andThen (if producerI = consumerI then Inr True
                        else andThen (dominates_insts (code_of M) DT producerI consumerI) (\<lambda>d. Inr (\<not> d))) (\<lambda>back.
                 if \<not> back then Inr None
                 else if \<not> memory (edgeMem g edge) \<and> isDataDependence (edgeMem g edge)
                 then andThen (canBasicBlockReachHeaderBeforeOther M (sm_mem LIS consumerLoop)
                                 (lm_parent M producerI) (lm_parent M consumerI))
                        (\<lambda>canReach. Inr (if canReach then Some consumerLoop else None))
                 else Inr (Some consumerLoop))
           | _ \<Rightarrow> Inr None)
      | _ \<Rightarrow> Inr None)"

definition setLoopCarried :: "bool \<Rightarrow> ptr \<Rightarrow> ('v, 'r) dg \<Rightarrow> ('v, 'r) dg" where
  "setLoopCarried lc e g = g\<lparr>edgeMem := (edgeMem g)(e := (edgeMem g e)\<lparr>isLoopCarried := lc\<rparr>)\<rparr>"

definition mark_loop_carried ::
  "llvm_module \<Rightarrow> loops_summary \<Rightarrow> dom_tree \<Rightarrow> ptr \<Rightarrow> (llvm_value, 'r) dg \<Rightarrow> (llvm_value, 'r) dg res" where
  "mark_loop_carried M LIS DT e g =
     andThen (getLoopOfLCD M LIS DT g e) (\<lambda>l. case l of None \<Rightarrow> Inr g | Some _ \<Rightarrow> Inr (setLoopCarried True e g))"

definition setLoopCarriedDependencies ::
  "llvm_module \<Rightarrow> loops_summary \<Rightarrow> dom_tree \<Rightarrow> (llvm_value, 'r) dg \<Rightarrow> (llvm_value, 'r) dg res" where
  "setLoopCarriedDependencies M LIS DT g =
     check (\<forall>e \<in> set (allEdges g). \<not> isLoopCarried (edgeMem g e)) AssertFailed
       (foldE (mark_loop_carried M LIS DT) (allEdges g) g)"

definition collect_loop_carried ::
  "llvm_module \<Rightarrow> nat \<Rightarrow> loops_summary \<Rightarrow> (llvm_value, 'r) dg \<Rightarrow> ptr \<Rightarrow> ptr list \<Rightarrow> ptr list res" where
  "collect_loop_carried M LS LIS g e acc =
     (if \<not> isLoopCarried (edgeMem g e) then Inr acc
      else case node_T g (edge_to g e) of
             Inst consumerI \<Rightarrow> Inr (if getLoop_inst M LIS consumerI \<noteq> Some LS then acc else uset_insert e acc)
           | _ \<Rightarrow> Inl AssertFailed)"

definition getLoopCarriedDependenciesForLoop ::
  "llvm_module \<Rightarrow> nat \<Rightarrow> loops_summary \<Rightarrow> (llvm_value, 'r) dg \<Rightarrow> ptr list res" where
  "getLoopCarriedDependenciesForLoop M LS LIS g = foldE (collect_loop_carried M LS LIS g) (allEdges g) []"

text \<open>The variant for an SCCDAG looks at the edges of one SCC after the other, and skips producers outside of all loops.\<close>

definition collect_scc_carried ::
  "llvm_module \<Rightarrow> nat \<Rightarrow> loops_summary \<Rightarrow> (llvm_value, 'r) dg \<Rightarrow> ptr \<Rightarrow> ptr list \<Rightarrow> ptr list res" where
  "collect_scc_carried M LS LIS g e acc =
     (if \<not> isLoopCarried (edgeMem g e) then Inr acc
      else case node_T g (edge_to g e) of
             Inst consumerI \<Rightarrow>
               if getLoop_inst M LIS consumerI \<noteq> Some LS then Inr acc
               else (case node_T g (edge_from g e) of
                       Inst producerI \<Rightarrow> Inr (if getLoop_inst M LIS producerI = None then acc else uset_insert e acc)
                     | _ \<Rightarrow> Inr acc)
           | _ \<Rightarrow> Inl AssertFailed)"

definition getLoopCarriedDependenciesForLoop_sccs ::
  "llvm_module \<Rightarrow> nat \<Rightarrow> loops_summary \<Rightarrow> (llvm_value, 'r) dg list \<Rightarrow> (nat \<times> ptr) list res" where
  "getLoopCarriedDependenciesForLoop_sccs M LS LIS sccs =
     foldE (\<lambda>(k, scc) acc. andThen (foldE (collect_scc_carried M LS LIS scc) (allEdges scc) [])
                             (\<lambda>es. Inr (uset_insert_all (map (Pair k) es) acc)))
       (enumerate 0 sccs) []"

section \<open>Refinement of the loop graph by the iteration domain\<close>

definition collect_disproved ::
  "dfr \<Rightarrow> (nat \<Rightarrow> nat \<Rightarrow> bool) \<Rightarrow> (llvm_value, 'r) dg \<Rightarrow> ptr \<Rightarrow> ptr list \<Rightarrow> ptr list" where
  "collect_disproved dfr disjoint g dependency edgesToRemove =
     (if \<not> memory (edgeMem g dependency) then edgesToRemove
      else case (node_T g (edge_from g dependency), node_T g (edge_to g dependency)) of
             (Inst fromInst, Inst toInst) \<Rightarrow>
               if toInst \<in> set (OUT dfr fromInst) then edgesToRemove
               else if disjoint fromInst toInst then uset_insert dependency edgesToRemove
               else edgesToRemove
           | _ \<Rightarrow> edgesToRemove)"

definition refinePDGWithLIDS ::
  "llvm_module \<Rightarrow> cfg \<Rightarrow> nat \<Rightarrow> loops_summary \<Rightarrow> (nat \<Rightarrow> nat \<Rightarrow> bool) \<Rightarrow> (llvm_value, 'r) dg \<Rightarrow> (llvm_value, 'r) dg res" where
  "refinePDGWithLIDS M F LS LIS disjoint loopDG =
     andThen (computeReachabilityFromInstructions F (ls_header (sm_mem LIS LS))) (\<lambda>dfr.
     andThen (getLoopCarriedDependenciesForLoop M LS LIS loopDG) (\<lambda>dependencies.
       let edgesToRemove = fold (collect_disproved dfr disjoint loopDG) dependencies []
       in Inr (fold (\<lambda>e g. removeEdge e (setLoopCarried False e g)) edgesToRemove loopDG)))"

end
