(* ===== verification/DataFlowBackward.thy ===== *)
theory DataFlowBackward
  imports DataFlow
begin

text \<open>
  The backward engine on union clients. The locale \<open>union_client\<close> states what the three clients of the repository
  promise (\<open>OUT[i]\<close> collects \<open>IN\<close> of the successors that the client does not barrier off, \<open>IN[i]\<close> collects \<open>GEN[i]\<close> and
  \<open>OUT[i]\<close>); inside it the engine is proved to end with the least solution of the equations, stated as reachability in
  the graph of instructions.
\<close>

section \<open>Functions of LLVM\<close>

text \<open>What LLVM guarantees of a function: every block has an instruction, an instruction is in one block, and successors
  and predecessors are blocks of the function and each other's converse.\<close>

definition cfg_ok :: "cfg \<Rightarrow> bool" where
  "cfg_ok F \<longleftrightarrow> distinct (cfg_blocks F) \<and> distinct (instructions F) \<and>
     (\<forall>b \<in> set (cfg_blocks F). cfg_insts F b \<noteq> [] \<and> set (cfg_succs F b) \<subseteq> set (cfg_blocks F) \<and>
        set (cfg_preds F b) \<subseteq> set (cfg_blocks F) \<and>
        (\<forall>a \<in> set (cfg_blocks F). a \<in> set (cfg_preds F b) \<longleftrightarrow> b \<in> set (cfg_succs F a)))"

lemma distinct_concat_map_disjoint:
  assumes "distinct (concat (map f xs))" "x \<in> set xs" "y \<in> set xs" "x \<noteq> y"
  shows "set (f x) \<inter> set (f y) = {}"
  using assms by (induction xs) auto

lemma cfg_okD:
  assumes "cfg_ok F"
  shows "distinct (cfg_blocks F)"
    and "\<And>b. b \<in> set (cfg_blocks F) \<Longrightarrow> cfg_insts F b \<noteq> []"
    and "\<And>b. b \<in> set (cfg_blocks F) \<Longrightarrow> distinct (cfg_insts F b)"
    and "\<And>b c. b \<in> set (cfg_blocks F) \<Longrightarrow> c \<in> set (cfg_blocks F) \<Longrightarrow> b \<noteq> c \<Longrightarrow> set (cfg_insts F b) \<inter> set (cfg_insts F c) = {}"
    and "\<And>b c. b \<in> set (cfg_blocks F) \<Longrightarrow> c \<in> set (cfg_succs F b) \<Longrightarrow> c \<in> set (cfg_blocks F)"
    and "\<And>b c. b \<in> set (cfg_blocks F) \<Longrightarrow> c \<in> set (cfg_preds F b) \<Longrightarrow> c \<in> set (cfg_blocks F)"
    and "\<And>b c. b \<in> set (cfg_blocks F) \<Longrightarrow> c \<in> set (cfg_blocks F) \<Longrightarrow> c \<in> set (cfg_preds F b) \<longleftrightarrow> b \<in> set (cfg_succs F c)"
  using assms distinct_concat_map_disjoint [of "cfg_insts F" "cfg_blocks F"]
  by (auto simp: cfg_ok_def instructions_def distinct_concat_iff)

text \<open>One step of execution between instructions; \<open>barrier s\<close> says that the step to \<open>s\<close> is not considered.\<close>

fun neighbours :: "'a list \<Rightarrow> ('a \<times> 'a) set" where
  "neighbours (x # y # xs) = insert (x, y) (neighbours (y # xs))"
| "neighbours _ = {}"

definition flow :: "cfg \<Rightarrow> (nat \<Rightarrow> bool) \<Rightarrow> (nat \<times> nat) set" where
  "flow F barrier = {(i, s). \<not> barrier s \<and> (\<exists>b \<in> set (cfg_blocks F). (i, s) \<in> neighbours (cfg_insts F b) \<or>
     (\<exists>c \<in> set (cfg_succs F b). i = last (cfg_insts F b) \<and> s = hd (cfg_insts F c)))}"

lemma neighbours_snoc: "neighbours (xs @ [i, s]) = insert (i, s) (neighbours (xs @ [i]))"
proof (induction xs)
  case (Cons x xs)
  then show ?case by (cases xs) auto
qed simp

lemma neighbours_mem: "(i, s) \<in> neighbours xs \<Longrightarrow> i \<in> set xs \<and> s \<in> set xs"
  by (induction xs rule: neighbours.induct) auto

section \<open>Union clients\<close>

locale union_client =
  fixes cIN :: "nat \<Rightarrow> dfr \<Rightarrow> dfr" and cOUT :: "nat \<Rightarrow> nat \<Rightarrow> dfr \<Rightarrow> dfr" and barrier :: "nat \<Rightarrow> bool"
  assumes IN_law: "\<exists>xs. cIN i df = df\<lparr>IN := (IN df)(i := xs)\<rparr> \<and>
      set xs = set (IN df i) \<union> set (OUT df i) \<union> set (GEN df i) \<and> (distinct (IN df i) \<longrightarrow> distinct xs)"
    and OUT_law: "\<exists>xs. cOUT i s df = df\<lparr>OUT := (OUT df)(i := xs)\<rparr> \<and>
      set xs = set (OUT df i) \<union> (if barrier s then {} else set (IN df s))"
begin

lemma cIN_simps [simp]:
  "set (IN (cIN i df) j) = (if j = i then set (IN df i) \<union> set (OUT df i) \<union> set (GEN df i) else set (IN df j))"
  "j \<noteq> i \<Longrightarrow> IN (cIN i df) j = IN df j" "OUT (cIN i df) = OUT df" "GEN (cIN i df) = GEN df"
proof -
  obtain xs where "cIN i df = df\<lparr>IN := (IN df)(i := xs)\<rparr>" "set xs = set (IN df i) \<union> set (OUT df i) \<union> set (GEN df i)"
    using IN_law by blast
  then show "set (IN (cIN i df) j) = (if j = i then set (IN df i) \<union> set (OUT df i) \<union> set (GEN df i) else set (IN df j))"
    "j \<noteq> i \<Longrightarrow> IN (cIN i df) j = IN df j" "OUT (cIN i df) = OUT df" "GEN (cIN i df) = GEN df" by simp_all
qed

lemma cIN_distinct: "distinct (IN df j) \<Longrightarrow> distinct (IN (cIN i df) j)"
  using IN_law [of i df] by auto

lemma cOUT_simps [simp]:
  "set (OUT (cOUT i s df) j) = (if j = i then set (OUT df i) \<union> (if barrier s then {} else set (IN df s)) else set (OUT df j))"
  "j \<noteq> i \<Longrightarrow> OUT (cOUT i s df) j = OUT df j" "IN (cOUT i s df) = IN df" "GEN (cOUT i s df) = GEN df"
proof -
  obtain xs where "cOUT i s df = df\<lparr>OUT := (OUT df)(i := xs)\<rparr>"
    "set xs = set (OUT df i) \<union> (if barrier s then {} else set (IN df s))"
    using OUT_law by blast
  then show "set (OUT (cOUT i s df) j) =
      (if j = i then set (OUT df i) \<union> (if barrier s then {} else set (IN df s)) else set (OUT df j))"
    "j \<noteq> i \<Longrightarrow> OUT (cOUT i s df) j = OUT df j" "IN (cOUT i s df) = IN df" "GEN (cOUT i s df) = GEN df" by simp_all
qed

definition node_closed :: "dfr \<Rightarrow> nat \<Rightarrow> bool" where
  "node_closed df i \<longleftrightarrow> set (GEN df i) \<union> set (OUT df i) \<subseteq> set (IN df i)"

definition pair_closed :: "dfr \<Rightarrow> nat \<times> nat \<Rightarrow> bool" where
  "pair_closed df p \<longleftrightarrow> (\<not> barrier (snd p) \<longrightarrow> set (IN df (snd p)) \<subseteq> set (OUT df (fst p)))"

definition sound :: "(nat \<Rightarrow> nat set) \<Rightarrow> (nat \<times> nat) set \<Rightarrow> dfr \<Rightarrow> bool" where
  "sound G R df \<longleftrightarrow> (\<forall>i. set (GEN df i) = G i) \<and>
     (\<forall>i. set (IN df i) \<subseteq> (\<Union>j \<in> R\<^sup>* `` {i}. G j)) \<and> (\<forall>i. set (OUT df i) \<subseteq> (\<Union>j \<in> R\<^sup>+ `` {i}. G j))"

lemma soundD:
  assumes "sound G R df"
  shows "set (GEN df i) = G i" "set (IN df i) \<subseteq> (\<Union>j \<in> R\<^sup>* `` {i}. G j)" "set (OUT df i) \<subseteq> (\<Union>j \<in> R\<^sup>+ `` {i}. G j)"
  using assms by (simp_all add: sound_def)

lemma sound_cIN:
  assumes "sound G R df"
  shows "sound G R (cIN i df)"
proof -
  have "R\<^sup>+ `` {i} \<subseteq> R\<^sup>* `` {i}" by (auto intro: trancl_into_rtrancl)
  then have "(\<Union>j \<in> R\<^sup>+ `` {i}. G j) \<subseteq> (\<Union>j \<in> R\<^sup>* `` {i}. G j)" by blast
  then have "set (OUT df i) \<subseteq> (\<Union>j \<in> R\<^sup>* `` {i}. G j)" using soundD(3) [OF assms, of i] by (rule order_trans [rotated])
  moreover have "set (GEN df i) \<subseteq> (\<Union>j \<in> R\<^sup>* `` {i}. G j)" unfolding soundD(1) [OF assms] by blast
  ultimately show ?thesis using assms by (simp add: sound_def)
qed

lemma sound_cOUT:
  assumes "sound G R df" and "barrier s \<or> (i, s) \<in> R"
  shows "sound G R (cOUT i s df)"
proof -
  have "set (IN df s) \<subseteq> (\<Union>j \<in> R\<^sup>+ `` {i}. G j)" if "(i, s) \<in> R"
  proof -
    have "R\<^sup>* `` {s} \<subseteq> R\<^sup>+ `` {i}" using that by (auto intro: rtrancl_into_trancl2)
    then have "(\<Union>j \<in> R\<^sup>* `` {s}. G j) \<subseteq> (\<Union>j \<in> R\<^sup>+ `` {i}. G j)" by blast
    with soundD(2) [OF assms(1), of s] show ?thesis by (rule order_trans)
  qed
  with assms show ?thesis by (auto simp: sound_def)
qed

subsection \<open>Inside a block\<close>

definition climbed :: "nat list \<Rightarrow> nat \<Rightarrow> dfr \<Rightarrow> dfr \<Rightarrow> bool" where
  "climbed ps s df df' \<longleftrightarrow> GEN df' = GEN df \<and> (\<forall>j. j \<notin> set ps \<longrightarrow> IN df' j = IN df j \<and> OUT df' j = OUT df j) \<and>
     (\<forall>j. set (IN df j) \<subseteq> set (IN df' j)) \<and> (\<forall>j. distinct (IN df j) \<longrightarrow> distinct (IN df' j)) \<and>
     (\<forall>p \<in> neighbours (ps @ [s]). pair_closed df' p) \<and> (\<forall>i \<in> set ps. node_closed df' i)"

lemma climbedD:
  assumes "climbed ps s df df'"
  shows "GEN df' = GEN df" and "\<And>j. j \<notin> set ps \<Longrightarrow> IN df' j = IN df j" and "\<And>j. j \<notin> set ps \<Longrightarrow> OUT df' j = OUT df j"
    and "\<And>j. set (IN df j) \<subseteq> set (IN df' j)" and "\<And>j. distinct (IN df j) \<Longrightarrow> distinct (IN df' j)"
    and "\<And>p. p \<in> neighbours (ps @ [s]) \<Longrightarrow> pair_closed df' p" and "\<And>i. i \<in> set ps \<Longrightarrow> node_closed df' i"
  using assms by (simp_all add: climbed_def)

lemma propagate_up_spec:
  assumes "distinct (ps @ [s])"
  shows "climbed ps s df (propagate_up cIN cOUT s (rev ps) df)"
  using assms
proof (induction ps arbitrary: s df rule: rev_induct)
  case Nil
  then show ?case by (simp add: climbed_def)
next
  case (snoc i qs)
  let ?df1 = "cIN i (cOUT i s df)"
  let ?df' = "propagate_up cIN cOUT i (rev qs) ?df1"
  have e: "propagate_up cIN cOUT s (rev (qs @ [i])) df = ?df'" by simp
  have d: "distinct (qs @ [i])" "s \<notin> set qs" "s \<noteq> i" "i \<notin> set qs" using snoc.prems by auto
  note IH = climbedD [OF snoc.IH [OF d(1), of ?df1]]
  have n: "neighbours ((qs @ [i]) @ [s]) = insert (i, s) (neighbours (qs @ [i]))" using neighbours_snoc [of qs i s] by simp
  show ?case unfolding e climbed_def n
  proof (intro conjI allI ballI impI)
    show "GEN ?df' = GEN df" using IH(1) by simp
    show "IN ?df' j = IN df j" "OUT ?df' j = OUT df j" if "j \<notin> set (qs @ [i])" for j using that IH(2,3) [of j] by simp_all
    show "set (IN df j) \<subseteq> set (IN ?df' j)" for j using IH(4) [of j] by (auto split: if_splits)
    show "distinct (IN ?df' j)" if "distinct (IN df j)" for j
      by (rule IH(5), rule cIN_distinct) (use that in simp)
    show "pair_closed ?df' p" if p: "p \<in> insert (i, s) (neighbours (qs @ [i]))" for p
    proof (cases "p = (i, s)")
      case True
      have "IN ?df' s = IN df s" "OUT ?df' i = OUT ?df1 i" using IH(2) [of s] IH(3) [of i] d by auto
      with True show ?thesis by (simp add: pair_closed_def)
    next
      case False
      with p IH(6) show ?thesis by simp
    qed
    show "node_closed ?df' k" if k: "k \<in> set (qs @ [i])" for k
    proof (cases "k = i")
      case True
      have "IN ?df' i = IN ?df1 i" "OUT ?df' i = OUT ?df1 i" "GEN ?df' = GEN ?df1" using IH(1) IH(2,3) [of i] d by auto
      with True show ?thesis by (auto simp: node_closed_def)
    next
      case False
      with k IH(7) show ?thesis by simp
    qed
  qed
qed

lemma propagate_up_sound:
  assumes "sound G R df" and "\<And>i t. (i, t) \<in> neighbours (ps @ [s]) \<Longrightarrow> barrier t \<or> (i, t) \<in> R"
  shows "sound G R (propagate_up cIN cOUT s (rev ps) df)"
  using assms
proof (induction ps arbitrary: s df rule: rev_induct)
  case Nil
  then show ?case by simp
next
  case (snoc i qs)
  have n: "neighbours ((qs @ [i]) @ [s]) = insert (i, s) (neighbours (qs @ [i]))" using neighbours_snoc [of qs i s] by simp
  have e: "barrier s \<or> (i, s) \<in> R" using snoc.prems(2) [of i s] unfolding n by simp
  have "sound G R (cIN i (cOUT i s df))" by (rule sound_cIN, rule sound_cOUT) (rule snoc.prems(1), rule e)
  moreover have "\<And>j t. (j, t) \<in> neighbours (qs @ [i]) \<Longrightarrow> barrier t \<or> (j, t) \<in> R" using snoc.prems(2) unfolding n by simp
  ultimately show ?case using snoc.IH [of "cIN i (cOUT i s df)" i] by simp
qed

lemma successors_spec:
  fixes t :: nat and ss :: "nat list" and df :: dfr
  defines "df' \<equiv> fold (\<lambda>s. cOUT t s) ss df"
  shows "GEN df' = GEN df" "IN df' = IN df" "\<And>j. j \<noteq> t \<Longrightarrow> OUT df' j = OUT df j"
    "set (OUT df' t) = set (OUT df t) \<union> (\<Union>s \<in> {s \<in> set ss. \<not> barrier s}. set (IN df s))"
  unfolding df'_def by (induction ss arbitrary: df) auto

lemma successors_sound:
  assumes "sound G R df" and "\<And>s. s \<in> set ss \<Longrightarrow> barrier s \<or> (t, s) \<in> R"
  shows "sound G R (fold (\<lambda>s. cOUT t s) ss df)"
  using assms by (induction ss arbitrary: df) (auto intro: sound_cOUT)

end

context union_client
begin

subsection \<open>The working list\<close>

definition block_closed :: "cfg \<Rightarrow> dfr \<Rightarrow> nat \<Rightarrow> bool" where
  "block_closed F df b \<longleftrightarrow> (\<forall>p \<in> neighbours (cfg_insts F b). pair_closed df p) \<and> (\<forall>i \<in> set (cfg_insts F b). node_closed df i)"

definition exits_closed :: "cfg \<Rightarrow> dfr \<Rightarrow> nat \<Rightarrow> bool" where
  "exits_closed F df b \<longleftrightarrow> (\<forall>c \<in> set (cfg_succs F b). pair_closed df (last (cfg_insts F b), hd (cfg_insts F c)))"

definition backward_inv :: "cfg \<Rightarrow> (nat \<Rightarrow> nat set) \<Rightarrow> backward_state \<Rightarrow> bool" where
  "backward_inv F G = (\<lambda>(wl, once, df). sound G (flow F barrier) df \<and> (\<forall>i. distinct (IN df i)) \<and>
     set wl \<subseteq> set (cfg_blocks F) \<and> set once \<subseteq> set (cfg_blocks F) \<and>
     (\<forall>b \<in> set (cfg_blocks F). b \<in> set wl \<or> b \<in> set once \<and> exits_closed F df b) \<and>
     (\<forall>b \<in> set once. block_closed F df b))"

text \<open>What changes between two results in the sets of the given instructions does not open other blocks.\<close>

lemma block_closed_frame:
  assumes "block_closed F df b" and "GEN df' = GEN df"
    and "\<And>i. i \<in> set (cfg_insts F b) \<Longrightarrow> set (IN df' i) = set (IN df i) \<and> set (OUT df i) \<subseteq> set (OUT df' i) \<and>
      (set (OUT df' i) = set (OUT df i) \<or> node_closed df' i)"
  shows "block_closed F df' b"
proof -
  have "pair_closed df' p" if p: "p \<in> neighbours (cfg_insts F b)" for p
  proof -
    have "fst p \<in> set (cfg_insts F b)" "snd p \<in> set (cfg_insts F b)"
      using neighbours_mem [of "fst p" "snd p"] p by simp_all
    moreover have "pair_closed df p" using assms(1) p by (simp add: block_closed_def)
    ultimately show ?thesis using assms(3) [of "fst p"] assms(3) [of "snd p"] by (auto simp: pair_closed_def)
  qed
  moreover have "node_closed df' i" if i: "i \<in> set (cfg_insts F b)" for i
  proof -
    have "node_closed df i" using assms(1) i by (simp add: block_closed_def)
    with assms(2) assms(3) [OF i] show ?thesis by (auto simp: node_closed_def)
  qed
  ultimately show ?thesis by (simp add: block_closed_def)
qed

lemma exits_closed_frame:
  assumes "exits_closed F df b"
    and "\<And>c. c \<in> set (cfg_succs F b) \<Longrightarrow> set (IN df' (hd (cfg_insts F c))) = set (IN df (hd (cfg_insts F c)))"
    and "set (OUT df (last (cfg_insts F b))) \<subseteq> set (OUT df' (last (cfg_insts F b)))"
  shows "exits_closed F df' b"
  using assms unfolding exits_closed_def pair_closed_def by fastforce

subsection \<open>One iteration\<close>

definition missing :: "cfg \<Rightarrow> nat set \<Rightarrow> backward_state \<Rightarrow> nat" where
  "missing F U = (\<lambda>(wl, once, df).
     (\<Sum>i \<in> set (instructions F). card (U - set (IN df i))) + card (set (cfg_blocks F) - set once))"

lemma missing_less:
  assumes U: "finite U" and mono: "\<And>i. set (IN df i) \<subseteq> set (IN df' i)" and once: "set once \<subseteq> set once'"
    and strict: "(\<exists>i \<in> set (instructions F). \<exists>v \<in> U. v \<in> set (IN df' i) \<and> v \<notin> set (IN df i)) \<or>
      (\<exists>b \<in> set (cfg_blocks F). b \<in> set once' \<and> b \<notin> set once)"
  shows "missing F U (wl', once', df') < missing F U (wl, once, df)"
proof -
  let ?I = "set (instructions F)"
  have each: "card (U - set (IN df' i)) \<le> card (U - set (IN df i))" for i
    by (rule card_mono) (use U mono [of i] in auto)
  then have sum: "(\<Sum>i \<in> ?I. card (U - set (IN df' i))) \<le> (\<Sum>i \<in> ?I. card (U - set (IN df i)))" by (rule sum_mono)
  have blk: "card (set (cfg_blocks F) - set once') \<le> card (set (cfg_blocks F) - set once)"
    by (rule card_mono) (use once in auto)
  from strict show ?thesis
  proof
    assume "\<exists>i \<in> ?I. \<exists>v \<in> U. v \<in> set (IN df' i) \<and> v \<notin> set (IN df i)"
    then obtain i v where i: "i \<in> ?I" and v: "v \<in> U" "v \<in> set (IN df' i)" "v \<notin> set (IN df i)" by blast
    have "card (U - set (IN df' i)) < card (U - set (IN df i))"
      by (rule psubset_card_mono) (use U mono [of i] v in auto)
    with i have "(\<Sum>i \<in> ?I. card (U - set (IN df' i))) < (\<Sum>i \<in> ?I. card (U - set (IN df i)))"
      by (intro sum_strict_mono_ex1) (use each in auto)
    with blk show ?thesis by (simp add: missing_def)
  next
    assume "\<exists>b \<in> set (cfg_blocks F). b \<in> set once' \<and> b \<notin> set once"
    then have "card (set (cfg_blocks F) - set once') < card (set (cfg_blocks F) - set once)"
      by (intro psubset_card_mono) (use once in auto)
    with sum show ?thesis by (simp add: missing_def)
  qed
qed

lemma missing_le:
  assumes "\<And>i. set (IN df' i) = set (IN df i)"
  shows "missing F U (wl', once, df') = missing F U (wl, once, df)"
  by (simp add: missing_def assms)

lemma sub_universe: "sound G R df \<Longrightarrow> set (IN df i) \<subseteq> (\<Union>j. G j)"
  using soundD(2) [of G R df i] by blast

lemma backward_step_run:
  fixes df :: dfr
  assumes F: "cfg_ok F" and b: "b \<in> set (cfg_blocks F)"
  defines "t \<equiv> last (cfg_insts F b)"
  defines "df1 \<equiv> fold (\<lambda>s. cOUT t s) (map (\<lambda>c. hd (cfg_insts F c)) (cfg_succs F b)) df"
  defines "df2 \<equiv> cIN t df1"
  shows "backward_step F cIN cOUT (b # rest, once, df) =
     Inr (if length (IN df2 t) > length (IN df1 t) \<or> b \<notin> set once
          then (rest @ cfg_preds F b, uset_insert b once, propagate_up cIN cOUT t (rev (butlast (cfg_insts F b))) df2)
          else (rest, once, df2))"
proof -
  have f: "first_inst F c = Inr (hd (cfg_insts F c))" if "c \<in> set (cfg_succs F b)" for c
    using cfg_okD(2) [OF F cfg_okD(5) [OF F b that]] by (cases "cfg_insts F c") (auto simp: first_inst_def)
  have "foldE (\<lambda>c df. andThen (first_inst F c) (\<lambda>s. Inr (cOUT t s df))) (cfg_succs F b) df =
      Inr (fold (\<lambda>c. cOUT t (hd (cfg_insts F c))) (cfg_succs F b) df)"
    by (rule foldE_pure) (simp add: f)
  moreover have "fold (\<lambda>c. cOUT t (hd (cfg_insts F c))) (cfg_succs F b) df = df1" by (simp add: df1_def fold_map comp_def)
  ultimately show ?thesis
    using cfg_okD(2) [OF F b] by (simp add: backward_step_def last_inst_def Let_def df2_def t_def [symmetric])
qed

end

context union_client
begin

lemma flow_exit:
  assumes "b \<in> set (cfg_blocks F)" and "c \<in> set (cfg_succs F b)"
  shows "barrier (hd (cfg_insts F c)) \<or> (last (cfg_insts F b), hd (cfg_insts F c)) \<in> flow F barrier"
  using assms by (auto simp: flow_def)

lemma flow_inside:
  assumes "b \<in> set (cfg_blocks F)" and "(i, s) \<in> neighbours (cfg_insts F b)"
  shows "barrier s \<or> (i, s) \<in> flow F barrier"
  using assms by (auto simp: flow_def)

text \<open>The result after the terminator of a block is recomputed.\<close>

lemma terminator_spec:
  fixes df :: dfr
  assumes F: "cfg_ok F" and b: "b \<in> set (cfg_blocks F)" and s: "sound G (flow F barrier) df"
  defines "t \<equiv> last (cfg_insts F b)"
  defines "df1 \<equiv> fold (\<lambda>s. cOUT t s) (map (\<lambda>c. hd (cfg_insts F c)) (cfg_succs F b)) df"
  defines "df2 \<equiv> cIN t df1"
  shows "sound G (flow F barrier) df2" "GEN df2 = GEN df" "IN df1 = IN df"
    and "\<And>i. i \<noteq> t \<Longrightarrow> IN df2 i = IN df i \<and> OUT df2 i = OUT df i"
    and "\<And>i. set (IN df i) \<subseteq> set (IN df2 i)" and "\<And>i. set (OUT df i) \<subseteq> set (OUT df2 i)"
    and "\<And>i. distinct (IN df i) \<Longrightarrow> distinct (IN df2 i)" and "node_closed df2 t"
    and "\<And>c. c \<in> set (cfg_succs F b) \<Longrightarrow> \<not> barrier (hd (cfg_insts F c)) \<Longrightarrow>
      set (IN df (hd (cfg_insts F c))) \<subseteq> set (OUT df2 t)"
proof -
  let ?ss = "map (\<lambda>c. hd (cfg_insts F c)) (cfg_succs F b)"
  note sp = successors_spec [where t = t and ss = ?ss and df = df, folded df1_def]
  have "sound G (flow F barrier) df1" unfolding df1_def
    by (rule successors_sound [OF s]) (use flow_exit [OF b] in \<open>auto simp: t_def\<close>)
  then show "sound G (flow F barrier) df2" unfolding df2_def by (rule sound_cIN)
  show "GEN df2 = GEN df" "IN df1 = IN df" by (simp_all add: df2_def sp)
  show "IN df2 i = IN df i \<and> OUT df2 i = OUT df i" if "i \<noteq> t" for i using that by (simp add: df2_def sp)
  show "set (IN df i) \<subseteq> set (IN df2 i)" for i using sp(2) by (auto simp: df2_def)
  show "set (OUT df i) \<subseteq> set (OUT df2 i)" for i using sp(3) [of i] sp(4) by (cases "i = t") (auto simp: df2_def)
  show "distinct (IN df2 i)" if "distinct (IN df i)" for i
    unfolding df2_def by (rule cIN_distinct) (use that sp(2) in simp)
  show "node_closed df2 t" by (auto simp: df2_def node_closed_def)
  show "set (IN df (hd (cfg_insts F c))) \<subseteq> set (OUT df2 t)" if "c \<in> set (cfg_succs F b)" "\<not> barrier (hd (cfg_insts F c))" for c
    using that sp(4) by (auto simp: df2_def)
qed

lemma backward_unchanged:
  assumes F: "cfg_ok F" and inv: "backward_inv F G (b # rest, once, df)"
  defines "t \<equiv> last (cfg_insts F b)"
  defines "df1 \<equiv> fold (\<lambda>s. cOUT t s) (map (\<lambda>c. hd (cfg_insts F c)) (cfg_succs F b)) df"
  defines "df2 \<equiv> cIN t df1"
  assumes same: "length (IN df2 t) \<le> length (IN df1 t)" and o: "b \<in> set once"
  shows "backward_inv F G (rest, once, df2) \<and> (\<forall>i. set (IN df2 i) = set (IN df i))"
proof -
  have s: "sound G (flow F barrier) df" and d: "\<And>i. distinct (IN df i)" and b: "b \<in> set (cfg_blocks F)"
    and rest: "set rest \<subseteq> set (cfg_blocks F)" and once: "set once \<subseteq> set (cfg_blocks F)"
    and cov: "\<And>c. c \<in> set (cfg_blocks F) \<Longrightarrow> c = b \<or> c \<in> set rest \<or> c \<in> set once \<and> exits_closed F df c"
    and closed: "\<And>c. c \<in> set once \<Longrightarrow> block_closed F df c"
    using inv by (auto simp: backward_inv_def)
  note T = terminator_spec [OF F b s, folded t_def, folded df1_def, folded df2_def]
  have "set (IN df2 t) = set (IN df t)"
  proof (rule card_subset_eq [symmetric])
    have "card (set (IN df2 t)) \<le> card (set (IN df t))"
      using same d T(3) T(7) [OF d] by (simp add: distinct_card)
    moreover have "card (set (IN df t)) \<le> card (set (IN df2 t))" by (rule card_mono) (use T(5) in auto)
    ultimately show "card (set (IN df t)) = card (set (IN df2 t))" by simp
  qed (use T(5) in auto)
  then have IN: "set (IN df2 i) = set (IN df i)" for i using T(4) [of i] by (cases "i = t") auto
  have "block_closed F df2 c" if "c \<in> set once" for c
  proof (rule block_closed_frame [OF closed [OF that] T(2)])
    fix i
    show "set (IN df2 i) = set (IN df i) \<and> set (OUT df i) \<subseteq> set (OUT df2 i) \<and>
      (set (OUT df2 i) = set (OUT df i) \<or> node_closed df2 i)"
      using IN [of i] T(4,6) [of i] T(8) by (cases "i = t") auto
  qed
  moreover have "exits_closed F df2 b"
    unfolding exits_closed_def pair_closed_def using T(9) IN by (simp add: t_def)
  moreover have "exits_closed F df2 c" if "exits_closed F df c" for c
    by (rule exits_closed_frame [OF that]) (use IN T(6) in auto)
  ultimately show ?thesis
    using T(1) T(7) [OF d] rest once o cov IN unfolding backward_inv_def prod.case by blast
qed

lemma backward_changed:
  assumes F: "cfg_ok F" and inv: "backward_inv F G (b # rest, once, df)"
  defines "t \<equiv> last (cfg_insts F b)"
  defines "df1 \<equiv> fold (\<lambda>s. cOUT t s) (map (\<lambda>c. hd (cfg_insts F c)) (cfg_succs F b)) df"
  defines "df2 \<equiv> cIN t df1"
  defines "df3 \<equiv> propagate_up cIN cOUT t (rev (butlast (cfg_insts F b))) df2"
  shows "backward_inv F G (rest @ cfg_preds F b, uset_insert b once, df3) \<and>
    (\<forall>i. set (IN df2 i) \<subseteq> set (IN df3 i)) \<and> (\<forall>i. set (IN df i) \<subseteq> set (IN df3 i))"
proof -
  have s: "sound G (flow F barrier) df" and d: "\<And>i. distinct (IN df i)" and b: "b \<in> set (cfg_blocks F)"
    and rest: "set rest \<subseteq> set (cfg_blocks F)" and once: "set once \<subseteq> set (cfg_blocks F)"
    and cov: "\<And>c. c \<in> set (cfg_blocks F) \<Longrightarrow> c = b \<or> c \<in> set rest \<or> c \<in> set once \<and> exits_closed F df c"
    and closed: "\<And>c. c \<in> set once \<Longrightarrow> block_closed F df c"
    using inv by (auto simp: backward_inv_def)
  note T = terminator_spec [OF F b s, folded t_def, folded df1_def, folded df2_def]
  let ?ps = "butlast (cfg_insts F b)"
  have xs: "cfg_insts F b = ?ps @ [t]" using cfg_okD(2) [OF F b] by (simp add: t_def)
  then have dx: "distinct (?ps @ [t])" using cfg_okD(3) [OF F b] by metis
  have sx: "set (cfg_insts F b) = insert t (set ?ps)" using arg_cong [OF xs, of set] by simp
  note P = climbedD [OF propagate_up_spec [OF dx, of df2], folded df3_def]
  have tp: "t \<notin> set ?ps" using dx by simp
  have sound3: "sound G (flow F barrier) df3" unfolding df3_def
  proof (rule propagate_up_sound [OF T(1)])
    fix i u assume "(i, u) \<in> neighbours (?ps @ [t])"
    then show "barrier u \<or> (i, u) \<in> flow F barrier" using flow_inside [OF b] xs by metis
  qed
  have outside: "IN df3 i = IN df i \<and> OUT df3 i = OUT df i" if "i \<notin> set (cfg_insts F b)" for i
  proof -
    have "i \<notin> set ?ps" "i \<noteq> t" using that unfolding sx by auto
    with P(2,3) [of i] T(4) [of i] show ?thesis by simp
  qed
  have disj: "i \<notin> set (cfg_insts F b)" if "c \<in> set (cfg_blocks F)" "c \<noteq> b" "i \<in> set (cfg_insts F c)" for c i
    using cfg_okD(4) [OF F that(1) b that(2)] that(3) by blast
  have mem: "hd (cfg_insts F c) \<in> set (cfg_insts F c)" "last (cfg_insts F c) \<in> set (cfg_insts F c)"
    if "c \<in> set (cfg_blocks F)" for c using cfg_okD(2) [OF F that] by simp_all
  have "block_closed F df3 b"
    unfolding block_closed_def
  proof (intro conjI ballI)
    show "pair_closed df3 p" if "p \<in> neighbours (cfg_insts F b)" for p using P(6) [of p] that xs by metis
    have "node_closed df3 t" using T(8) P(1) P(2,3) [OF tp] by (simp add: node_closed_def)
    moreover have "i \<in> set ?ps \<or> i = t" if "i \<in> set (cfg_insts F b)" for i using that unfolding sx by auto
    ultimately show "node_closed df3 i" if "i \<in> set (cfg_insts F b)" for i using P(7) [of i] that by blast
  qed
  moreover have "block_closed F df3 c" if "c \<in> set once" "c \<noteq> b" for c
  proof (rule block_closed_frame [OF closed [OF that(1)]])
    show "GEN df3 = GEN df" using P(1) T(2) by simp
    fix i assume "i \<in> set (cfg_insts F c)"
    with disj that once have "i \<notin> set (cfg_insts F b)" by blast
    from outside [OF this] show "set (IN df3 i) = set (IN df i) \<and> set (OUT df i) \<subseteq> set (OUT df3 i) \<and>
      (set (OUT df3 i) = set (OUT df i) \<or> node_closed df3 i)" by simp
  qed
  ultimately have blocks: "block_closed F df3 c" if "c \<in> set (uset_insert b once)" for c
    using that by (cases "c = b") auto
  have IN_succ: "IN df3 (hd (cfg_insts F c)) = IN df (hd (cfg_insts F c))"
    if "a \<in> set (cfg_blocks F)" "a \<notin> set (cfg_preds F b)" "c \<in> set (cfg_succs F a)" for a c
  proof -
    have c: "c \<in> set (cfg_blocks F)" by (rule cfg_okD(5) [OF F that(1,3)])
    have "c \<noteq> b" using cfg_okD(7) [OF F b that(1)] that by auto
    with outside disj [OF c] mem(1) [OF c] show ?thesis by blast
  qed
  have exits: "exits_closed F df3 a" if a: "a \<in> set (cfg_blocks F)" "a \<notin> set (rest @ cfg_preds F b)" for a
  proof (cases "a = b")
    case True
    have "set (IN df3 (hd (cfg_insts F c))) \<subseteq> set (OUT df3 t)"
      if "c \<in> set (cfg_succs F b)" "\<not> barrier (hd (cfg_insts F c))" for c
      using T(9) [OF that] IN_succ [OF b _ that(1)] a(2) P(3) [OF tp] True by simp
    then show ?thesis unfolding True exits_closed_def pair_closed_def by (simp add: t_def)
  next
    case False
    with cov a have "exits_closed F df a" by auto
    then show ?thesis
    proof (rule exits_closed_frame)
      show "set (IN df3 (hd (cfg_insts F c))) = set (IN df (hd (cfg_insts F c)))" if "c \<in> set (cfg_succs F a)" for c
        using IN_succ [OF a(1) _ that] a(2) by simp
      have "last (cfg_insts F a) \<notin> set (cfg_insts F b)" using disj [OF a(1) False] mem(2) [OF a(1)] by blast
      from outside [OF this] show "set (OUT df (last (cfg_insts F a))) \<subseteq> set (OUT df3 (last (cfg_insts F a)))" by simp
    qed
  qed
  have cov3: "a \<in> set (rest @ cfg_preds F b) \<or> a \<in> set (uset_insert b once) \<and> exits_closed F df3 a"
    if "a \<in> set (cfg_blocks F)" for a
    using cov [OF that] exits [OF that] by auto
  have "backward_inv F G (rest @ cfg_preds F b, uset_insert b once, df3)"
    unfolding backward_inv_def prod.case
  proof (intro conjI allI ballI)
    show "distinct (IN df3 i)" for i by (rule P(5), rule T(7), rule d)
    show "set (rest @ cfg_preds F b) \<subseteq> set (cfg_blocks F)" using rest cfg_okD(6) [OF F b] by auto
    show "set (uset_insert b once) \<subseteq> set (cfg_blocks F)" using once b by simp
  qed (use sound3 cov3 blocks in blast)+
  moreover have "set (IN df i) \<subseteq> set (IN df3 i)" for i using T(5) [of i] P(4) [of i] by blast
  ultimately show ?thesis using P(4) by blast
qed

end

context union_client
begin

subsection \<open>The analysis\<close>

lemma backward_loop_ok:
  assumes F: "cfg_ok F" and U: "finite (\<Union>j. G j)"
    and df: "\<And>i. set (GEN df i) = G i" "\<And>i. IN df i = []" "\<And>i. OUT df i = []"
  shows "\<exists>once df'. whileE (\<lambda>(wl, _, _). wl \<noteq> []) (backward_step F cIN cOUT) (rev (cfg_blocks F), [], df) = Inr ([], once, df') \<and>
    backward_inv F G ([], once, df')"
proof -
  let ?U = "\<Union>j. G j" and ?b = "\<lambda>(wl, _, _). wl \<noteq> []" and ?s0 = "(rev (cfg_blocks F), [], df)"
  let ?r = "inv_image (less_than <*lex*> less_than) (\<lambda>st. (missing F ?U st, length (fst st)))"
  have wf: "wf ?r" by (intro wf_inv_image wf_lex_prod) auto
  have "\<exists>st. whileE ?b (backward_step F cIN cOUT) ?s0 = Inr st \<and> backward_inv F G st \<and> \<not> ?b st"
  proof (rule whileE_total [OF wf])
    show "backward_inv F G ?s0" using df by (simp add: backward_inv_def sound_def)
    fix st assume st: "backward_inv F G st" "?b st"
    then obtain b rest once df where e: "st = (b # rest, once, df)" by (cases st) (auto simp: neq_Nil_conv)
    have inv: "backward_inv F G (b # rest, once, df)" using st(1) by (simp add: e)
    then have b: "b \<in> set (cfg_blocks F)" and s: "sound G (flow F barrier) df" and d: "\<And>i. distinct (IN df i)"
      by (simp_all add: backward_inv_def)
    define t where "t = last (cfg_insts F b)"
    define df1 where "df1 = fold (\<lambda>s. cOUT t s) (map (\<lambda>c. hd (cfg_insts F c)) (cfg_succs F b)) df"
    define df2 where "df2 = cIN t df1"
    define df3 where "df3 = propagate_up cIN cOUT t (rev (butlast (cfg_insts F b))) df2"
    note defs = t_def df1_def df2_def df3_def
    note run = backward_step_run [OF F b, where df = df and rest = rest and once = once, folded defs, folded df1_def, folded df2_def, folded df3_def]
    note T = terminator_spec [OF F b s, folded t_def, folded df1_def, folded df2_def]
    show "\<exists>s'. backward_step F cIN cOUT st = Inr s' \<and> backward_inv F G s' \<and> (s', st) \<in> ?r"
    proof (cases "length (IN df2 t) > length (IN df1 t) \<or> b \<notin> set once")
      case True
      note C = backward_changed [OF F inv, folded t_def, folded df1_def, folded df2_def, folded df3_def]
      have "missing F ?U (rest @ cfg_preds F b, uset_insert b once, df3) < missing F ?U (b # rest, once, df)"
      proof (rule missing_less [OF U])
        from True show "(\<exists>i \<in> set (instructions F). \<exists>v \<in> ?U. v \<in> set (IN df3 i) \<and> v \<notin> set (IN df i)) \<or>
            (\<exists>c \<in> set (cfg_blocks F). c \<in> set (uset_insert b once) \<and> c \<notin> set once)"
        proof
          assume "length (IN df2 t) > length (IN df1 t)"
          then have "card (set (IN df t)) < card (set (IN df2 t))" using d T(3) T(7) [OF d] by (simp add: distinct_card)
          then have "\<not> set (IN df2 t) \<subseteq> set (IN df t)" by (meson card_mono finite_set leD)
          then obtain v where v: "v \<in> set (IN df2 t)" "v \<notin> set (IN df t)" by blast
          moreover have "v \<in> ?U" using v(1) sub_universe [OF T(1)] by blast
          moreover have "t \<in> set (instructions F)"
            using cfg_okD(2) [OF F b] b unfolding instructions_def t_def set_concat by (auto intro!: bexI [of _ b])
          ultimately show ?thesis using C by blast
        next
          assume "b \<notin> set once"
          then show ?thesis using b by auto
        qed
      qed (use C in auto)
      with True run C show ?thesis by (auto simp: e)
    next
      case False
      then have "length (IN df2 t) \<le> length (IN df1 t)" "b \<in> set once" by auto
      note N = backward_unchanged [OF F inv, folded t_def, folded df1_def, folded df2_def, OF this]
      have "missing F ?U (rest, once, df2) = missing F ?U (b # rest, once, df)" by (rule missing_le) (use N in simp)
      with False run N show ?thesis by (auto simp: e)
    qed
  qed
  then show ?thesis by auto
qed

text \<open>At the end the sets are the values generated by the instructions that execution may reach.\<close>

lemma backward_final:
  assumes F: "cfg_ok F" and inv: "backward_inv F G ([], once, df)" and i: "i \<in> set (instructions F)"
  shows "set (IN df i) = (\<Union>j \<in> (flow F barrier)\<^sup>* `` {i}. G j)" "set (OUT df i) = (\<Union>j \<in> (flow F barrier)\<^sup>+ `` {i}. G j)"
proof -
  let ?R = "flow F barrier"
  have s: "sound G ?R df" and ex: "\<And>b. b \<in> set (cfg_blocks F) \<Longrightarrow> exits_closed F df b"
    and cl: "\<And>b. b \<in> set (cfg_blocks F) \<Longrightarrow> block_closed F df b"
    using inv by (auto simp: backward_inv_def)
  have step: "set (IN df u) \<subseteq> set (OUT df a)" if "(a, u) \<in> ?R" for a u
    using that ex cl unfolding flow_def block_closed_def exits_closed_def pair_closed_def by fastforce
  have node: "set (GEN df a) \<subseteq> set (IN df a)" "set (OUT df a) \<subseteq> set (IN df a)" if "a \<in> set (instructions F)" for a
  proof -
    from that obtain b where "b \<in> set (cfg_blocks F)" "a \<in> set (cfg_insts F b)" by (auto simp: instructions_def)
    with cl have "node_closed df a" unfolding block_closed_def by blast
    then show "set (GEN df a) \<subseteq> set (IN df a)" "set (OUT df a) \<subseteq> set (IN df a)" by (simp_all add: node_closed_def)
  qed
  have in_F: "u \<in> set (instructions F)" if "(a, u) \<in> ?R" for a u
  proof -
    from that obtain b where b: "b \<in> set (cfg_blocks F)" and
      u: "(a, u) \<in> neighbours (cfg_insts F b) \<or> (\<exists>c \<in> set (cfg_succs F b). u = hd (cfg_insts F c))"
      unfolding flow_def by blast
    from u show ?thesis
    proof
      assume "(a, u) \<in> neighbours (cfg_insts F b)"
      with b neighbours_mem [of a u] show ?thesis by (auto simp: instructions_def)
    next
      assume "\<exists>c \<in> set (cfg_succs F b). u = hd (cfg_insts F c)"
      then obtain c where c: "c \<in> set (cfg_succs F b)" "u = hd (cfg_insts F c)" by blast
      have "c \<in> set (cfg_blocks F)" by (rule cfg_okD(5) [OF F b c(1)])
      with c(2) cfg_okD(2) [OF F this] show ?thesis by (auto simp: instructions_def intro!: bexI [of _ c])
    qed
  qed
  have star: "G j \<subseteq> set (IN df a)" if "(a, j) \<in> ?R\<^sup>*" "a \<in> set (instructions F)" for a j
    using that
  proof (induction rule: converse_rtrancl_induct)
    case base
    then show ?case using node(1) soundD(1) [OF s] by simp
  next
    case (step y z)
    have "G j \<subseteq> set (IN df z)" by (rule step.IH, rule in_F, rule step.hyps(1))
    also have "\<dots> \<subseteq> set (OUT df y)" by (rule \<open>\<And>a u. (a, u) \<in> ?R \<Longrightarrow> set (IN df u) \<subseteq> set (OUT df a)\<close>, rule step.hyps(1))
    also have "\<dots> \<subseteq> set (IN df y)" by (rule node(2), rule step.prems)
    finally show ?case .
  qed
  show "set (IN df i) = (\<Union>j \<in> ?R\<^sup>* `` {i}. G j)"
    using soundD(2) [OF s, of i] star [OF _ i] by blast
  have "G j \<subseteq> set (OUT df i)" if "(i, j) \<in> ?R\<^sup>+" for j
  proof -
    from that obtain u where u: "(i, u) \<in> ?R" "(u, j) \<in> ?R\<^sup>*" by (meson tranclD)
    from star [OF u(2) in_F [OF u(1)]] step [OF u(1)] show ?thesis by (rule order_trans)
  qed
  then show "set (OUT df i) = (\<Union>j \<in> ?R\<^sup>+ `` {i}. G j)" using soundD(3) [OF s, of i] by blast
qed

theorem applyBackward_ok:
  assumes F: "cfg_ok F" and U: "finite (\<Union>j. G j)"
    and df: "\<And>i. set (GEN (computeGENAndKILL F gen kill new_result) i) = G i"
      "\<And>i. IN (computeGENAndKILL F gen kill new_result) i = []" "\<And>i. OUT (computeGENAndKILL F gen kill new_result) i = []"
  shows "\<exists>df. applyBackward F gen kill cIN cOUT = Inr df \<and> (\<forall>i \<in> set (instructions F).
     set (IN df i) = (\<Union>j \<in> (flow F barrier)\<^sup>* `` {i}. G j) \<and> set (OUT df i) = (\<Union>j \<in> (flow F barrier)\<^sup>+ `` {i}. G j))"
proof -
  obtain once df' where r: "whileE (\<lambda>(wl, _, _). wl \<noteq> []) (backward_step F cIN cOUT)
      (rev (cfg_blocks F), [], computeGENAndKILL F gen kill new_result) = Inr ([], once, df')" "backward_inv F G ([], once, df')"
    using backward_loop_ok [OF F U df] by blast
  have "applyBackward F gen kill cIN cOUT = Inr df'" using r(1) by (simp add: applyBackward_def Let_def)
  with backward_final [OF F r(2)] show ?thesis by (intro exI [of _ df'] conjI ballI)
qed

end

section \<open>The clients of the sources\<close>

interpretation reach: union_client reach_IN reach_OUT "\<lambda>_. False"
  by unfold_locales (auto simp: reach_IN_def reach_OUT_def)

interpretation iteration: union_client iteration_IN "iteration_OUT h" "\<lambda>s. s = h" for h
proof unfold_locales
  show "\<exists>xs. iteration_IN i df = df\<lparr>IN := (IN df)(i := xs)\<rparr> \<and>
      set xs = set (IN df i) \<union> set (OUT df i) \<union> set (GEN df i) \<and> (distinct (IN df i) \<longrightarrow> distinct xs)" for i df
    by (auto simp: iteration_IN_def)
  show "\<exists>xs. iteration_OUT h i s df = df\<lparr>OUT := (OUT df)(i := xs)\<rparr> \<and>
      set xs = set (OUT df i) \<union> (if s = h then {} else set (IN df s))" for i s df
  proof (cases "s = h")
    case True
    then show ?thesis by (intro exI [of _ "OUT df i"]) (simp add: iteration_OUT_def)
  next
    case False
    then show ?thesis
      by (intro exI [of _ "uset_insert_all (IN df s) (OUT df i)"]) (simp add: iteration_OUT_def Un_commute)
  qed
qed

end
