(* ===== verification/DataFlowQueries.thy ===== *)
theory DataFlowQueries
  imports DataFlowBackward
begin

text \<open>
  The properties of the data-flow engine: its backward clients compute reachability in the graph of instructions, and
  the forward engine never fails its assertion and ends on clients whose sets grow up to a bound.
\<close>

section \<open>GEN sets and full sets\<close>

lemma fold_concat_map: "fold (\<lambda>b. fold f (g b)) bs s = fold f (concat (map g bs)) s"
  by (induction bs arbitrary: s) auto

lemma computeGENAndKILL_fold: "computeGENAndKILL F gen kill df = fold (\<lambda>i df. kill i (gen i df)) (instructions F) df"
  unfolding computeGENAndKILL_def instructions_def by (rule fold_concat_map)

lemma reach_GEN_fold:
  fixes df :: dfr
  shows "set (GEN (fold (\<lambda>i df. no_KILL i (reach_GEN keep i df)) xs df) i) = set (GEN df i) \<union> {j \<in> set xs. keep j \<and> j = i}"
    "IN (fold (\<lambda>i df. no_KILL i (reach_GEN keep i df)) xs df) = IN df"
    "OUT (fold (\<lambda>i df. no_KILL i (reach_GEN keep i df)) xs df) = OUT df"
  by (induction xs arbitrary: df) (auto simp: reach_GEN_def no_KILL_def)

lemma iteration_GEN_eq: "iteration_GEN = reach_GEN (\<lambda>_. True)"
  by (intro ext) (simp add: iteration_GEN_def reach_GEN_def)

lemma reach_GEN_sets:
  "set (GEN (computeGENAndKILL F (reach_GEN keep) no_KILL new_result) i) = {j \<in> set (instructions F). keep j \<and> j = i}"
  "IN (computeGENAndKILL F (reach_GEN keep) no_KILL new_result) i = []"
  "OUT (computeGENAndKILL F (reach_GEN keep) no_KILL new_result) i = []"
  unfolding computeGENAndKILL_fold reach_GEN_fold by (auto simp: new_result_def)

lemma getFullSets_inst_sets:
  "set (IN (getFullSets_inst F i df) j) = set (IN df j) \<union> (if j = i then set (instructions F) else {})"
  "set (OUT (getFullSets_inst F i df) j) = set (OUT df j) \<union> (if j = i then set (instructions F) else {})"
proof -
  let ?f = "\<lambda>k (df :: dfr). df\<lparr>IN := (IN df)(i := uset_insert k (IN df i)), OUT := (OUT df)(i := uset_insert k (OUT df i))\<rparr>"
  have "set (IN (fold ?f xs df) j) = set (IN df j) \<union> (if j = i then set xs else {})"
    "set (OUT (fold ?f xs df) j) = set (OUT df j) \<union> (if j = i then set xs else {})" for xs
    by (induction xs arbitrary: df) auto
  then show "set (IN (getFullSets_inst F i df) j) = set (IN df j) \<union> (if j = i then set (instructions F) else {})"
    "set (OUT (getFullSets_inst F i df) j) = set (OUT df j) \<union> (if j = i then set (instructions F) else {})"
    by (simp_all add: getFullSets_inst_def)
qed

lemma getFullSets_sets:
  assumes "i \<in> set (instructions F)"
  shows "set (IN (getFullSets F) i) = set (instructions F)" "set (OUT (getFullSets F) i) = set (instructions F)"
proof -
  have "set (IN (fold (getFullSets_inst F) xs df) i) = set (IN df i) \<union> (if i \<in> set xs then set (instructions F) else {})"
    "set (OUT (fold (getFullSets_inst F) xs df) i) = set (OUT df i) \<union> (if i \<in> set xs then set (instructions F) else {})" for xs df
    by (induction xs arbitrary: df) (auto simp: getFullSets_inst_sets)
  with assms show "set (IN (getFullSets F) i) = set (instructions F)" "set (OUT (getFullSets F) i) = set (instructions F)"
    by (simp_all add: getFullSets_def new_result_def)
qed

section \<open>The forward engine\<close>

text \<open>The working list has no repetitions and the content map says exactly what is in it.\<close>

definition fw_inv :: "cfg \<Rightarrow> forward_state \<Rightarrow> bool" where
  "fw_inv F st \<longleftrightarrow> set (fw_list st) \<subseteq> set (cfg_blocks F) \<and> distinct (fw_list st) \<and>
     (\<forall>b. fw_content st b \<longleftrightarrow> b \<in> set (fw_list st))"

lemma initial_list_append:
  "fold (\<lambda>bb (wl, content). (append_back bb wl, content(bb := True))) bs (wl, c) =
     (wl @ bs, \<lambda>b. b \<in> set bs \<or> c b)"
proof (induction bs arbitrary: wl c)
  case (Cons a bs)
  have "(\<lambda>b. b \<in> set bs \<or> (c(a := True)) b) = (\<lambda>b. b \<in> set (a # bs) \<or> c b)" by (rule ext) simp
  then have e: "((wl @ [a]) @ bs, \<lambda>b. b \<in> set bs \<or> (c(a := True)) b) = (wl @ a # bs, \<lambda>b. b \<in> set (a # bs) \<or> c b)"
    by (simp only: append_assoc append_Cons append_Nil)
  show ?case
    using Cons.IH [of "wl @ [a]" "c(a := True)"] unfolding e by (simp only: fold_simps append_back_def prod.case)
qed simp

lemma push_successors:
  "(\<And>b. c b \<longleftrightarrow> b \<in> set wl) \<Longrightarrow> distinct wl \<Longrightarrow>
     (case fold push_successor ss (wl, c) of (wl', c') \<Rightarrow> set wl' = set wl \<union> set ss \<and> distinct wl' \<and>
        (\<forall>b. c' b \<longleftrightarrow> b \<in> set wl'))"
proof (induction ss arbitrary: wl c)
  case (Cons s ss)
  obtain wl1 c1 where p: "push_successor s (wl, c) = (wl1, c1)" by fastforce
  have 1: "set wl1 = insert s (set wl) \<and> distinct wl1 \<and> (\<forall>b. c1 b \<longleftrightarrow> b \<in> set wl1)"
  proof (cases "c s")
    case True
    then have "wl1 = wl" "c1 = c" "s \<in> set wl" using p Cons.prems(1) [of s] by (simp_all add: push_successor_def)
    with Cons.prems show ?thesis by (simp add: insert_absorb)
  next
    case False
    then have "wl1 = wl @ [s]" "c1 = c(s := True)" "s \<notin> set wl" using p Cons.prems(1) [of s] by (simp_all add: push_successor_def)
    with Cons.prems show ?thesis by simp
  qed
  obtain wl2 c2 where q: "fold push_successor ss (wl1, c1) = (wl2, c2)" by fastforce
  have "set wl2 = set wl1 \<union> set ss \<and> distinct wl2 \<and> (\<forall>b. c2 b \<longleftrightarrow> b \<in> set wl2)"
  proof -
    have "case fold push_successor ss (wl1, c1) of (wl', c') \<Rightarrow> set wl' = set wl1 \<union> set ss \<and> distinct wl' \<and>
        (\<forall>b. c' b \<longleftrightarrow> b \<in> set wl')" by (rule Cons.IH) (use 1 in blast)+
    then show ?thesis unfolding q prod.case .
  qed
  with 1 show ?case by (simp add: p q)
qed simp

text \<open>The step, with its two outcomes.\<close>

lemma forward_step_run:
  assumes F: "cfg_ok F" and inv: "fw_inv F st" and ne: "fw_list st \<noteq> []"
  obtains b rest inst df1 df2 where
    "fw_list st = b # rest" "b \<in> set (cfg_blocks F)" "inst = hd (cfg_insts F b)"
    "df1 = fold (\<lambda>p. cIN inst (last (cfg_insts F p))) (cfg_preds F b) (fw_df st)" "df2 = cOUT inst df1"
    "fw_visited st inst \<Longrightarrow> length (OUT df2 inst) = length (OUT df1 inst) \<Longrightarrow>
       forward_step F cIN cOUT (first_inst F) (last_inst F) st =
         Inr \<lparr>fw_list = rest, fw_content = (fw_content st)(b := False), fw_visited = fw_visited st, fw_df = df2\<rparr>"
    "\<not> fw_visited st inst \<or> length (OUT df2 inst) \<noteq> length (OUT df1 inst) \<Longrightarrow>
       \<exists>wl c. forward_step F cIN cOUT (first_inst F) (last_inst F) st =
         Inr \<lparr>fw_list = wl, fw_content = c, fw_visited = (fw_visited st)(inst := True),
              fw_df = propagate_down cIN cOUT inst (tl (cfg_insts F b)) df2\<rparr> \<and>
         set wl = set rest \<union> set (cfg_succs F b) \<and> distinct wl \<and> (\<forall>b. c b \<longleftrightarrow> b \<in> set wl)"
proof -
  obtain b rest where e: "fw_list st = b # rest" using ne by (cases "fw_list st") auto
  have b: "b \<in> set (cfg_blocks F)" using inv by (auto simp: fw_inv_def e)
  define inst where "inst = hd (cfg_insts F b)"
  define df1 where "df1 = fold (\<lambda>p. cIN inst (last (cfg_insts F p))) (cfg_preds F b) (fw_df st)"
  define df2 where "df2 = cOUT inst df1"
  have f: "first_inst F b = Inr inst"
    using cfg_okD(2) [OF F b] by (cases "cfg_insts F b") (auto simp: first_inst_def inst_def)
  have l: "last_inst F p = Inr (last (cfg_insts F p))" if "p \<in> set (cfg_preds F b)" for p
    using cfg_okD(2) [OF F cfg_okD(6) [OF F b that]] by (simp add: last_inst_def)
  have df1: "foldE (\<lambda>p df. andThen (last_inst F p) (\<lambda>p. Inr (cIN inst p df))) (cfg_preds F b) (fw_df st) = Inr df1"
    unfolding df1_def by (rule foldE_pure) (simp add: l)
  have c: "fw_content st b" using inv by (simp add: fw_inv_def e)
  obtain wl c where p: "fold push_successor (cfg_succs F b) (rest, (fw_content st)(b := False)) = (wl, c)" by fastforce
  have "set wl = set rest \<union> set (cfg_succs F b) \<and> distinct wl \<and> (\<forall>b. c b \<longleftrightarrow> b \<in> set wl)"
    using push_successors [of "(fw_content st)(b := False)" rest "cfg_succs F b"] inv p by (auto simp: fw_inv_def e)
  moreover have "tl (dropWhile (\<lambda>i. i \<noteq> inst) (cfg_insts F b)) = tl (cfg_insts F b)"
    by (cases "cfg_insts F b") (auto simp: inst_def)
  ultimately show thesis
    using that [OF e b inst_def df1_def df2_def] p c f df1
    by (simp add: forward_step_def e Let_def df2_def [symmetric])
qed

lemma forward_step_inv:
  assumes F: "cfg_ok F" and inv: "fw_inv F st" and ne: "fw_list st \<noteq> []"
  shows "\<exists>st'. forward_step F cIN cOUT (first_inst F) (last_inst F) st = Inr st' \<and> fw_inv F st'"
proof (rule forward_step_run [OF F inv ne, of cIN cOUT])
  fix b rest inst df1 df2
  assume e: "fw_list st = b # rest" and b: "b \<in> set (cfg_blocks F)"
    and same: "fw_visited st inst \<Longrightarrow> length (OUT df2 inst) = length (OUT df1 inst) \<Longrightarrow>
       forward_step F cIN cOUT (first_inst F) (last_inst F) st =
         Inr \<lparr>fw_list = rest, fw_content = (fw_content st)(b := False), fw_visited = fw_visited st, fw_df = df2\<rparr>"
    and new: "\<not> fw_visited st inst \<or> length (OUT df2 inst) \<noteq> length (OUT df1 inst) \<Longrightarrow>
       \<exists>wl c. forward_step F cIN cOUT (first_inst F) (last_inst F) st =
         Inr \<lparr>fw_list = wl, fw_content = c, fw_visited = (fw_visited st)(inst := True),
              fw_df = propagate_down cIN cOUT inst (tl (cfg_insts F b)) df2\<rparr> \<and>
         set wl = set rest \<union> set (cfg_succs F b) \<and> distinct wl \<and> (\<forall>b. c b \<longleftrightarrow> b \<in> set wl)"
  show ?thesis
  proof (cases "fw_visited st inst \<and> length (OUT df2 inst) = length (OUT df1 inst)")
    case True
    with same inv e show ?thesis by (auto simp: fw_inv_def)
  next
    case False
    with new obtain wl c where "forward_step F cIN cOUT (first_inst F) (last_inst F) st =
         Inr \<lparr>fw_list = wl, fw_content = c, fw_visited = (fw_visited st)(inst := True),
              fw_df = propagate_down cIN cOUT inst (tl (cfg_insts F b)) df2\<rparr>"
      "set wl = set rest \<union> set (cfg_succs F b)" "distinct wl" "\<forall>b. c b \<longleftrightarrow> b \<in> set wl" by blast
    with inv e cfg_okD(5) [OF F b] show ?thesis by (auto simp: fw_inv_def)
  qed
qed

lemma forward_initial:
  "applyForward F gen kill iIN iOUT cIN cOUT =
     andThen (whileE (\<lambda>st. fw_list st \<noteq> []) (forward_step F cIN cOUT (first_inst F) (last_inst F))
       \<lparr>fw_list = cfg_blocks F, fw_content = (\<lambda>b. b \<in> set (cfg_blocks F)), fw_visited = (\<lambda>_. False),
        fw_df = computeGENAndKILL F gen kill (initialize_sets F iIN iOUT new_result)\<rparr>)
     (\<lambda>st. Inr (fw_df st))"
  by (simp add: applyForward_def applyCustomizableForwardAnalysis_def initial_list_def initial_list_append)

lemma forward_no_fault:
  assumes F: "cfg_ok F"
  shows "applyForward F gen kill iIN iOUT cIN cOUT = Inl NoReturn \<or>
    (\<exists>df. applyForward F gen kill iIN iOUT cIN cOUT = Inr df)"
proof -
  let ?s0 = "\<lparr>fw_list = cfg_blocks F, fw_content = (\<lambda>b. b \<in> set (cfg_blocks F)), fw_visited = (\<lambda>_. False),
        fw_df = computeGENAndKILL F gen kill (initialize_sets F iIN iOUT new_result)\<rparr>"
  let ?w = "whileE (\<lambda>st. fw_list st \<noteq> []) (forward_step F cIN cOUT (first_inst F) (last_inst F)) ?s0"
  have "?w = Inl NoReturn \<or> (\<exists>t. ?w = Inr t \<and> fw_inv F t \<and> \<not> fw_list t \<noteq> [])"
  proof (rule whileE_no_fault)
    show "fw_inv F ?s0" using cfg_okD(1) [OF F] by (simp add: fw_inv_def)
  qed (rule forward_step_inv [OF F])
  then show ?thesis unfolding forward_initial by (elim disjE exE conjE) simp_all
qed

text \<open>A client whose \<open>OUT\<close> sets only grow and stay below a bound.\<close>

definition growing_client :: "nat \<Rightarrow> (nat \<Rightarrow> nat \<Rightarrow> dfr \<Rightarrow> dfr) \<Rightarrow> (nat \<Rightarrow> dfr \<Rightarrow> dfr) \<Rightarrow> bool" where
  "growing_client N cIN cOUT \<longleftrightarrow> (\<forall>i p df. OUT (cIN i p df) = OUT df) \<and>
     (\<forall>i df. (\<forall>j. j \<noteq> i \<longrightarrow> OUT (cOUT i df) j = OUT df j) \<and> length (OUT df i) \<le> length (OUT (cOUT i df) i) \<and>
        length (OUT (cOUT i df) i) \<le> max N (length (OUT df i)))"

definition fw_missing :: "cfg \<Rightarrow> nat \<Rightarrow> (nat \<Rightarrow> bool) \<Rightarrow> dfr \<Rightarrow> nat" where
  "fw_missing F N visited df =
     (\<Sum>b \<in> set (cfg_blocks F). let i = hd (cfg_insts F b) in (N - length (OUT df i)) + (if visited i then 0 else 1))"

lemma grows_IN: "growing_client N cIN cOUT \<Longrightarrow> OUT (fold (\<lambda>p. cIN i (l p)) ps df) = OUT df"
  by (induction ps arbitrary: df) (simp_all add: growing_client_def)

lemma grows_OUT:
  assumes "growing_client N cIN cOUT"
  shows "length (OUT df j) \<le> length (OUT (cOUT i df) j)"
    and "(\<And>j. length (OUT df j) \<le> N) \<Longrightarrow> length (OUT (cOUT i df) j) \<le> N"
  using assms unfolding growing_client_def by (metis max.absorb1 order_refl)+

lemma grows_down:
  assumes "growing_client N cIN cOUT"
  shows "length (OUT df j) \<le> length (OUT (propagate_down cIN cOUT i xs df) j)"
    and "(\<And>j. length (OUT df j) \<le> N) \<Longrightarrow> length (OUT (propagate_down cIN cOUT i xs df) j) \<le> N"
proof -
  have c: "OUT (cIN a b d) = OUT d" for a b d using assms by (simp add: growing_client_def)
  show "length (OUT df j) \<le> length (OUT (propagate_down cIN cOUT i xs df) j)"
  proof (induction xs arbitrary: i df)
    case (Cons x xs)
    have "length (OUT df j) \<le> length (OUT (cOUT x (cIN x i df)) j)"
      using grows_OUT(1) [OF assms, of "cIN x i df" j x] by (simp add: c)
    also have "\<dots> \<le> length (OUT (propagate_down cIN cOUT x xs (cOUT x (cIN x i df))) j)" by (rule Cons.IH)
    finally show ?case by simp
  qed simp
  show "length (OUT (propagate_down cIN cOUT i xs df) j) \<le> N" if "\<And>j. length (OUT df j) \<le> N"
    using that
  proof (induction xs arbitrary: i df)
    case (Cons x xs)
    have "length (OUT (cOUT x (cIN x i df)) j) \<le> N" for j
      by (rule grows_OUT(2) [OF assms]) (simp add: c Cons.prems)
    from Cons.IH [OF this] show ?case by simp
  qed simp
qed

lemma fw_weight_le:
  assumes "\<And>j. length (OUT df j) \<le> length (OUT df' j)" and "\<And>j. visited j \<Longrightarrow> visited' j"
  shows "N - length (OUT df' i) + (if visited' i then 0 else 1) \<le> N - length (OUT df i) + (if visited i then 0 else (1 :: nat))"
  using assms(1) [of i] assms(2) [of i] by auto

lemma fw_missing_le:
  assumes "\<And>j. length (OUT df j) \<le> length (OUT df' j)" and "\<And>j. visited j \<Longrightarrow> visited' j"
  shows "fw_missing F N visited' df' \<le> fw_missing F N visited df"
  unfolding fw_missing_def Let_def by (rule sum_mono) (rule fw_weight_le [OF assms])

lemma fw_missing_less:
  assumes "\<And>j. length (OUT df j) \<le> length (OUT df' j)" and "\<And>j. visited j \<Longrightarrow> visited' j"
    and b: "b \<in> set (cfg_blocks F)" "i = hd (cfg_insts F b)"
    and "\<not> visited i \<and> visited' i \<or> length (OUT df i) < length (OUT df' i)" and "length (OUT df' i) \<le> N"
  shows "fw_missing F N visited' df' < fw_missing F N visited df"
  unfolding fw_missing_def Let_def
proof (rule sum_strict_mono_ex1)
  show "\<forall>b \<in> set (cfg_blocks F). N - length (OUT df' (hd (cfg_insts F b))) + (if visited' (hd (cfg_insts F b)) then 0 else 1)
      \<le> N - length (OUT df (hd (cfg_insts F b))) + (if visited (hd (cfg_insts F b)) then 0 else 1)"
    by (intro ballI fw_weight_le [OF assms(1,2)])
  have "N - length (OUT df' i) + (if visited' i then 0 else 1 :: nat) < N - length (OUT df i) + (if visited i then 0 else 1)"
    using assms(1) [of i] assms(2) [of i] assms(5,6) by auto
  then show "\<exists>a \<in> set (cfg_blocks F). N - length (OUT df' (hd (cfg_insts F a))) + (if visited' (hd (cfg_insts F a)) then 0 else 1)
      < N - length (OUT df (hd (cfg_insts F a))) + (if visited (hd (cfg_insts F a)) then 0 else 1)"
    using b by blast
qed simp

lemma forward_terminates:
  assumes F: "cfg_ok F" and g: "growing_client N cIN cOUT"
    and start: "\<And>i. length (OUT (computeGENAndKILL F gen kill (initialize_sets F iIN iOUT new_result)) i) \<le> N"
  shows "\<exists>df. applyForward F gen kill iIN iOUT cIN cOUT = Inr df"
proof -
  let ?s0 = "\<lparr>fw_list = cfg_blocks F, fw_content = (\<lambda>b. b \<in> set (cfg_blocks F)), fw_visited = (\<lambda>_. False),
        fw_df = computeGENAndKILL F gen kill (initialize_sets F iIN iOUT new_result)\<rparr>"
  let ?step = "forward_step F cIN cOUT (first_inst F) (last_inst F)"
  let ?P = "\<lambda>st. fw_inv F st \<and> (\<forall>j. length (OUT (fw_df st) j) \<le> N)"
  let ?r = "inv_image (less_than <*lex*> less_than) (\<lambda>st. (fw_missing F N (fw_visited st) (fw_df st), length (fw_list st)))"
  have wf: "wf ?r" by (intro wf_inv_image wf_lex_prod) auto
  have "\<exists>t. whileE (\<lambda>st. fw_list st \<noteq> []) ?step ?s0 = Inr t \<and> ?P t \<and> \<not> fw_list t \<noteq> []"
  proof (rule whileE_total [OF wf])
    show "?P ?s0" using cfg_okD(1) [OF F] start by (simp add: fw_inv_def)
    fix st assume st: "?P st" and ne: "fw_list st \<noteq> []"
    then have inv: "fw_inv F st" and bound: "\<And>j. length (OUT (fw_df st) j) \<le> N" by auto
    obtain st' where st': "?step st = Inr st'" "fw_inv F st'" using forward_step_inv [OF F inv ne] by blast
    show "\<exists>s'. ?step st = Inr s' \<and> ?P s' \<and> (s', st) \<in> ?r"
    proof (rule forward_step_run [OF F inv ne, of cIN cOUT])
      fix b rest inst df1 df2
      assume e: "fw_list st = b # rest" and b: "b \<in> set (cfg_blocks F)" and i: "inst = hd (cfg_insts F b)"
        and df1: "df1 = fold (\<lambda>p. cIN inst (last (cfg_insts F p))) (cfg_preds F b) (fw_df st)" and df2: "df2 = cOUT inst df1"
        and same: "fw_visited st inst \<Longrightarrow> length (OUT df2 inst) = length (OUT df1 inst) \<Longrightarrow>
           ?step st = Inr \<lparr>fw_list = rest, fw_content = (fw_content st)(b := False), fw_visited = fw_visited st, fw_df = df2\<rparr>"
        and new: "\<not> fw_visited st inst \<or> length (OUT df2 inst) \<noteq> length (OUT df1 inst) \<Longrightarrow>
           \<exists>wl c. ?step st = Inr \<lparr>fw_list = wl, fw_content = c, fw_visited = (fw_visited st)(inst := True),
              fw_df = propagate_down cIN cOUT inst (tl (cfg_insts F b)) df2\<rparr> \<and>
             set wl = set rest \<union> set (cfg_succs F b) \<and> distinct wl \<and> (\<forall>b. c b \<longleftrightarrow> b \<in> set wl)"
      have o1: "OUT df1 = OUT (fw_df st)" unfolding df1 by (rule grows_IN [OF g])
      have up: "length (OUT (fw_df st) j) \<le> length (OUT df2 j)" for j
        using grows_OUT(1) [OF g, of df1 j inst] by (simp add: df2 o1)
      have bd: "length (OUT df2 j) \<le> N" for j
        unfolding df2 by (rule grows_OUT(2) [OF g]) (simp add: o1 bound)
      show ?thesis
      proof (cases "fw_visited st inst \<and> length (OUT df2 inst) = length (OUT df1 inst)")
        case True
        have "fw_missing F N (fw_visited st) df2 \<le> fw_missing F N (fw_visited st) (fw_df st)" by (rule fw_missing_le [OF up])
        with True same st' bd e show ?thesis by (intro exI [of _ st']) auto
      next
        case False
        let ?df3 = "propagate_down cIN cOUT inst (tl (cfg_insts F b)) df2"
        obtain wl c where run: "?step st = Inr \<lparr>fw_list = wl, fw_content = c, fw_visited = (fw_visited st)(inst := True), fw_df = ?df3\<rparr>"
          using new False by blast
        have b3: "length (OUT ?df3 j) \<le> N" for j by (rule grows_down(2) [OF g bd])
        have u3: "length (OUT (fw_df st) j) \<le> length (OUT ?df3 j)" for j
          using up [of j] grows_down(1) [OF g, of df2 j] order_trans by blast
        have "fw_missing F N ((fw_visited st)(inst := True)) ?df3 < fw_missing F N (fw_visited st) (fw_df st)"
        proof (rule fw_missing_less [OF u3 _ b i])
          have "length (OUT (fw_df st) inst) < length (OUT ?df3 inst)" if "fw_visited st inst"
          proof -
            have "length (OUT (fw_df st) inst) < length (OUT df2 inst)" using that False up [of inst] by (simp add: o1)
            also have "\<dots> \<le> length (OUT ?df3 inst)" by (rule grows_down(1) [OF g])
            finally show ?thesis .
          qed
          then show "\<not> fw_visited st inst \<and> ((fw_visited st)(inst := True)) inst \<or>
              length (OUT (fw_df st) inst) < length (OUT ?df3 inst)" by auto
        qed (simp_all add: b3)
        with run st' b3 show ?thesis by (intro exI [of _ st']) auto
      qed
    qed
  qed
  then show ?thesis unfolding forward_initial by auto
qed

section \<open>A sample function\<close>

text \<open>Block 0 holds the instructions 10 and 11 and goes to block 1, which holds 20 and goes to itself.\<close>

definition sample_cfg :: cfg where
  "sample_cfg = \<lparr>cfg_blocks = [0, 1], cfg_insts = (\<lambda>b. if b = 0 then [10, 11] else [20]),
     cfg_succs = (\<lambda>b. [1]), cfg_preds = (\<lambda>b. if b = 0 then [] else [0, 1])\<rparr>"

lemma sample_cfg_ok: "cfg_ok sample_cfg"
  by (simp add: cfg_ok_def sample_cfg_def instructions_def)

lemma sample_instructions: "set (instructions sample_cfg) = {10, 11, 20}"
  by (simp add: sample_cfg_def instructions_def insert_commute)

lemma sample_flow: "flow sample_cfg (\<lambda>_. False) = {(10, 11), (11, 20), (20, 20)}"
  unfolding flow_def by (auto simp: sample_cfg_def)

lemma sample_flow_iteration: "flow sample_cfg (\<lambda>s. s = 20) = {(10, 11)}"
  unfolding flow_def by (auto simp: sample_cfg_def)

text \<open>The client that looks at one iteration, for the property below and for the clients of the analysis.\<close>

lemma iteration_reach:
  assumes "cfg_ok F" and "header \<in> set (cfg_blocks F)"
  shows "\<exists>df. computeReachabilityFromInstructions F header = Inr df \<and> (\<forall>i \<in> set (instructions F).
     set (IN df i) = {j \<in> set (instructions F). (i, j) \<in> (flow F (\<lambda>s. s = hd (cfg_insts F header)))\<^sup>*} \<and>
     set (OUT df i) = {j \<in> set (instructions F). (i, j) \<in> (flow F (\<lambda>s. s = hd (cfg_insts F header)))\<^sup>+})"
proof -
  let ?G = "\<lambda>i. {j \<in> set (instructions F). True \<and> j = i}" and ?h = "hd (cfg_insts F header)"
  have h: "first_inst F header = Inr ?h"
    using cfg_okD(2) [OF assms] by (cases "cfg_insts F header") (auto simp: first_inst_def)
  have "finite (\<Union>j. ?G j)" by (rule finite_subset [of _ "set (instructions F)"]) auto
  from iteration.applyBackward_ok [of F ?G "reach_GEN (\<lambda>_. True)" no_KILL ?h, OF assms(1) this reach_GEN_sets] obtain df where
    df: "applyBackward F (reach_GEN (\<lambda>_. True)) no_KILL iteration_IN (iteration_OUT ?h) = Inr df" and
    s: "\<And>i. i \<in> set (instructions F) \<Longrightarrow> set (IN df i) = (\<Union>j \<in> (flow F (\<lambda>s. s = ?h))\<^sup>* `` {i}. ?G j) \<and>
      set (OUT df i) = (\<Union>j \<in> (flow F (\<lambda>s. s = ?h))\<^sup>+ `` {i}. ?G j)"
    by (elim exE conjE bspec) blast
  have "computeReachabilityFromInstructions F header = Inr df"
    using df by (simp add: computeReachabilityFromInstructions_def h applyBackward_noKill_def iteration_GEN_eq)
  moreover have "set (IN df i) = {j \<in> set (instructions F). (i, j) \<in> (flow F (\<lambda>s. s = ?h))\<^sup>*}"
    "set (OUT df i) = {j \<in> set (instructions F). (i, j) \<in> (flow F (\<lambda>s. s = ?h))\<^sup>+}" if "i \<in> set (instructions F)" for i
    using s [OF that] by auto
  ultimately show ?thesis by (intro exI [of _ df] conjI ballI) assumption+
qed

section \<open>Properties\<close>

text \<open>C14: the reachability analysis. It returns for every function, and \<open>OUT\<close> of an instruction is exactly the set of kept
  instructions that execution can reach after it, \<open>IN\<close> the same with the instruction itself counted in. The sets of the
  disabled analysis, \<open>getFullSets\<close>, contain them.\<close>

theorem reachable_analysis_exact:
  assumes "cfg_ok F"
  shows "\<exists>df. runReachableAnalysis F keep = Inr df \<and> (\<forall>i \<in> set (instructions F).
     set (IN df i) = {j \<in> set (instructions F). keep j \<and> (i, j) \<in> (flow F (\<lambda>_. False))\<^sup>*} \<and>
     set (OUT df i) = {j \<in> set (instructions F). keep j \<and> (i, j) \<in> (flow F (\<lambda>_. False))\<^sup>+} \<and>
     set (IN df i) \<subseteq> set (IN (getFullSets F) i) \<and> set (OUT df i) \<subseteq> set (OUT (getFullSets F) i))"
proof -
  let ?G = "\<lambda>i. {j \<in> set (instructions F). keep j \<and> j = i}"
  have "finite (\<Union>j. ?G j)" by (rule finite_subset [of _ "set (instructions F)"]) auto
  from reach.applyBackward_ok [of F ?G "reach_GEN keep" no_KILL, OF assms this reach_GEN_sets] obtain df where
    df: "runReachableAnalysis F keep = Inr df" and
    s: "\<And>i. i \<in> set (instructions F) \<Longrightarrow> set (IN df i) = (\<Union>j \<in> (flow F (\<lambda>_. False))\<^sup>* `` {i}. ?G j) \<and>
      set (OUT df i) = (\<Union>j \<in> (flow F (\<lambda>_. False))\<^sup>+ `` {i}. ?G j)"
    unfolding runReachableAnalysis_def by (elim exE conjE bspec) blast
  show ?thesis
  proof (intro exI [of _ df] conjI ballI)
    show "runReachableAnalysis F keep = Inr df" by (rule df)
    fix i assume i: "i \<in> set (instructions F)"
    show 1: "set (IN df i) = {j \<in> set (instructions F). keep j \<and> (i, j) \<in> (flow F (\<lambda>_. False))\<^sup>*}"
      and 2: "set (OUT df i) = {j \<in> set (instructions F). keep j \<and> (i, j) \<in> (flow F (\<lambda>_. False))\<^sup>+}"
      using s [OF i] by auto
    show "set (IN df i) \<subseteq> set (IN (getFullSets F) i)" unfolding 1 getFullSets_sets [OF i] by blast
    show "set (OUT df i) \<subseteq> set (OUT (getFullSets F) i)" unfolding 2 getFullSets_sets [OF i] by blast
  qed
qed

lemma reachable_analysis_exact_witness:
  "\<exists>df. runReachableAnalysis sample_cfg (\<lambda>i. i \<noteq> 11) = Inr df \<and> 20 \<in> set (OUT df 10) \<and> 11 \<notin> set (OUT df 10) \<and>
     10 \<notin> set (IN df 20) \<and> 20 \<in> set (OUT df 20)"
proof -
  let ?R = "{(10, 11), (11, 20), (20, 20 :: nat)}"
  obtain df where df: "runReachableAnalysis sample_cfg (\<lambda>i. i \<noteq> 11) = Inr df" and
    s: "\<forall>i \<in> {10, 11, 20}. set (IN df i) = {j \<in> {10, 11, 20}. j \<noteq> 11 \<and> (i, j) \<in> ?R\<^sup>*} \<and>
      set (OUT df i) = {j \<in> {10, 11, 20}. j \<noteq> 11 \<and> (i, j) \<in> ?R\<^sup>+} \<and>
      set (IN df i) \<subseteq> set (IN (getFullSets sample_cfg) i) \<and> set (OUT df i) \<subseteq> set (OUT (getFullSets sample_cfg) i)"
    using reachable_analysis_exact [OF sample_cfg_ok, of "\<lambda>i. i \<noteq> 11"] unfolding sample_instructions sample_flow
    by (elim exE conjE) (rule that)
  have "(20, 10) \<notin> ?R\<^sup>*"
  proof
    assume "(20, 10 :: nat) \<in> ?R\<^sup>*"
    then have "(10 :: nat) = 20" by (induction rule: rtrancl_induct) auto
    then show False by simp
  qed
  moreover have "(10, 20) \<in> ?R\<^sup>+" by (rule trancl_trans [of 10 11]) auto
  moreover have "(20, 20) \<in> ?R\<^sup>+" by auto
  ultimately show ?thesis using df bspec [OF s, of 10] bspec [OF s, of 20] by auto
qed

text \<open>Reachability inside one iteration of a loop. With the header given as barrier, \<open>OUT\<close> of an instruction is exactly
  the set of instructions that execution reaches after it without entering the first instruction of the header again.\<close>

theorem iteration_reachability_exact:
  assumes "cfg_ok F" and "header \<in> set (cfg_blocks F)"
  shows "\<exists>df. computeReachabilityFromInstructions F header = Inr df \<and> (\<forall>i \<in> set (instructions F).
     set (IN df i) = {j \<in> set (instructions F). (i, j) \<in> (flow F (\<lambda>s. s = hd (cfg_insts F header)))\<^sup>*} \<and>
     set (OUT df i) = {j \<in> set (instructions F). (i, j) \<in> (flow F (\<lambda>s. s = hd (cfg_insts F header)))\<^sup>+})"
  using assms by (rule iteration_reach)

lemma iteration_reachability_exact_witness:
  "\<exists>df. computeReachabilityFromInstructions sample_cfg 1 = Inr df \<and> set (OUT df 10) = {11} \<and> OUT df 20 = []"
proof -
  let ?R = "{(10, 11 :: nat)}"
  have h: "hd (cfg_insts sample_cfg 1) = 20" "1 \<in> set (cfg_blocks sample_cfg)" by (simp_all add: sample_cfg_def)
  have e: "?R\<^sup>+ = ?R" by (rule trancl_id) (simp add: trans_def)
  obtain df where df: "computeReachabilityFromInstructions sample_cfg 1 = Inr df" and
    s: "\<forall>i \<in> {10, 11, 20}. set (IN df i) = {j \<in> {10, 11, 20}. (i, j) \<in> ?R\<^sup>*} \<and>
      set (OUT df i) = {j \<in> {10, 11, 20}. (i, j) \<in> ?R\<^sup>+}"
    using iteration_reachability_exact [OF sample_cfg_ok h(2)] unfolding h(1) sample_instructions sample_flow_iteration by blast
  from s have "set (OUT df 10) = {11}" "set (OUT df 20) = {}" unfolding e by auto
  with df show ?thesis by simp
qed

text \<open>C15: the forward engine. For every client it never fails the assertion on the working list nor any other check: it
  returns or does not end. It returns for every client whose \<open>OUT\<close> sets only grow and stay below a bound.\<close>

theorem forward_engine_total:
  assumes "cfg_ok F"
  shows "(applyForward F gen kill iIN iOUT cIN cOUT = Inl NoReturn \<or> (\<exists>df. applyForward F gen kill iIN iOUT cIN cOUT = Inr df)) \<and>
    (growing_client N cIN cOUT \<and>
       (\<forall>i. length (OUT (computeGENAndKILL F gen kill (initialize_sets F iIN iOUT new_result)) i) \<le> N) \<longrightarrow>
     (\<exists>df. applyForward F gen kill iIN iOUT cIN cOUT = Inr df))"
  using forward_no_fault [OF assms] forward_terminates [OF assms] by blast

definition mark_OUT :: "nat \<Rightarrow> dfr \<Rightarrow> dfr" where
  "mark_OUT i df = (if OUT df i = [] then df\<lparr>OUT := (OUT df)(i := [0])\<rparr> else df)"

lemma forward_engine_total_witness:
  "\<exists>df. applyForward sample_cfg no_KILL no_KILL no_KILL mark_OUT (\<lambda>i p df. df) mark_OUT = Inr df"
proof -
  have g: "growing_client 1 (\<lambda>i p df. df) mark_OUT"
    unfolding growing_client_def mark_OUT_def by (auto simp: le_max_iff_disj)
  have "\<forall>i. length (OUT (computeGENAndKILL sample_cfg no_KILL no_KILL (initialize_sets sample_cfg no_KILL mark_OUT new_result)) i) \<le> 1"
    by (simp add: computeGENAndKILL_def initialize_sets_def sample_cfg_def no_KILL_def mark_OUT_def new_result_def)
  with g forward_engine_total [OF sample_cfg_ok, of no_KILL no_KILL no_KILL mark_OUT "\<lambda>i p df. df" mark_OUT 1] show ?thesis
    by blast
qed

end
