(* ===== verification/LoopDepsCorrect.thy ===== *)
theory LoopDepsCorrect
  imports LoopDeps DataFlowQueries DomSummaryQueries DepGraphQueries
begin

text \<open>
  The properties of the summary of loops and of the loop-carried dependences.
\<close>

section \<open>The search for the header\<close>

definition walk :: "llvm_module \<Rightarrow> loop_structure \<Rightarrow> nat \<Rightarrow> (nat \<times> nat) set" where
  "walk M LS J = {(a, b). b \<in> set (lm_succs M a) \<and> a \<noteq> ls_header LS \<and> a \<notin> set (ls_exitBlocks LS) \<and> a \<noteq> J}"

definition reach_inv :: "llvm_module \<Rightarrow> loop_structure \<Rightarrow> nat \<Rightarrow> nat \<Rightarrow> nat set \<Rightarrow> reach_state \<Rightarrow> bool" where
  "reach_inv M LS I J C st \<longleftrightarrow> (let R = walk M LS J; m = rs_enqueued st; q = rs_queue st in
     distinct m \<and> set m \<subseteq> C \<and> set q \<subseteq> set m \<and> length q \<le> length m \<and> I \<in> set m \<and> set m \<subseteq> R\<^sup>* `` {I} \<and>
     (if rs_header st then ls_header LS \<in> set m
      else (\<forall>b \<in> set m. b \<notin> set q \<longrightarrow> b \<noteq> ls_header LS \<and> R `` {b} \<subseteq> set m) \<and>
        (J \<in> set m \<and> J \<notin> set q \<longrightarrow> J \<notin> set (ls_exitBlocks LS) \<longrightarrow> rs_isJReached st)) \<and>
     (rs_isJReached st \<longrightarrow> J \<in> set m \<and> J \<notin> set (ls_exitBlocks LS)))"

lemma reach_step_ok:
  assumes C: "\<And>b. b \<in> C \<Longrightarrow> set (lm_succs M b) \<subseteq> C" "finite C"
    and inv: "reach_inv M LS I J C st" and go: "rs_queue st \<noteq> []" "\<not> rs_header st"
  shows "\<exists>st'. reach_step M LS J st = Inr st' \<and> reach_inv M LS I J C st' \<and>
    (card C - length (rs_enqueued st')) + length (rs_queue st') < (card C - length (rs_enqueued st)) + length (rs_queue st)"
proof -
  obtain m q j where st: "st = \<lparr>rs_queue = q, rs_enqueued = m, rs_isJReached = j, rs_header = False\<rparr>"
    using go(2) by (cases st) auto
  obtain b rest where q: "q = b # rest" using go(1) by (cases q) (auto simp: st)
  let ?R = "walk M LS J" and ?h = "ls_header LS" and ?X = "set (ls_exitBlocks LS)"
  have I: "distinct m" "set m \<subseteq> C" "b \<in> set m" "set rest \<subseteq> set m" "length q \<le> length m" "I \<in> set m"
    "set m \<subseteq> ?R\<^sup>* `` {I}"
    and cl: "\<And>a. a \<in> set m \<Longrightarrow> a \<notin> set q \<Longrightarrow> a \<noteq> ?h \<and> ?R `` {a} \<subseteq> set m"
    and J: "J \<in> set m \<Longrightarrow> J \<notin> set q \<Longrightarrow> J \<notin> ?X \<Longrightarrow> j" "j \<Longrightarrow> J \<in> set m \<and> J \<notin> ?X"
    using inv by (auto simp: reach_inv_def st q Let_def)
  have len: "length m \<le> card C" using I(1,2) C(2) by (metis card_mono distinct_card)
  consider (header) "b = ?h" | (exit) "b \<noteq> ?h" "b \<in> ?X" | (other) "b \<noteq> ?h" "b \<notin> ?X" "b = J"
    | (push) "b \<noteq> ?h" "b \<notin> ?X" "b \<noteq> J" by blast
  then show ?thesis
  proof cases
    case header
    with I J len show ?thesis by (auto simp: reach_step_def st q reach_inv_def Let_def)
  next
    case exit
    then have "?R `` {b} = {}" by (auto simp: walk_def)
    then have "a \<noteq> ?h \<and> ?R `` {a} \<subseteq> set m" if "a \<in> set m" "a \<notin> set rest" for a
      using that cl [of a] exit(1) by (cases "a = b") (auto simp: q)
    then have "reach_inv M LS I J C (st\<lparr>rs_queue := rest\<rparr>)"
      using exit I J by (auto simp: reach_inv_def st q Let_def)
    with exit len show ?thesis by (simp add: reach_step_def st q)
  next
    case other
    then have "?R `` {b} = {}" by (auto simp: walk_def)
    then have "a \<noteq> ?h \<and> ?R `` {a} \<subseteq> set m" if "a \<in> set m" "a \<notin> set rest" for a
      using that cl [of a] other(1) by (cases "a = b") (auto simp: q)
    then have "reach_inv M LS I J C (st\<lparr>rs_queue := rest, rs_isJReached := True\<rparr>)"
      using other I J by (auto simp: reach_inv_def st q Let_def)
    with other len show ?thesis by (simp add: reach_step_def st q)
  next
    case push
    obtain m' q' where f: "fold (mark_new queue_add) (lm_succs M b) (m, rest) = (m', q')" by fastforce
    note sp = wq.mark_all_spec [OF f]
    have Rb: "?R `` {b} = set (lm_succs M b)" using push by (auto simp: walk_def)
    have run: "reach_step M LS J st = Inr (st\<lparr>rs_queue := q', rs_enqueued := m'\<rparr>)"
      using push f by (simp add: reach_step_def st q)
    have m': "distinct m'" "set m' \<subseteq> C" using sp(1,3) I(1,2,3) C(1) by auto
    have len': "length m' \<le> card C" using m' C(2) by (metis card_mono distinct_card)
    have "x \<in> ?R\<^sup>* `` {I}" if "x \<in> ?R `` {b}" for x using that I(3,7) by (auto intro: rtrancl_into_rtrancl)
    then have sub: "set m' \<subseteq> ?R\<^sup>* `` {I}" using sp(1) I(7) Rb by auto
    have cl': "a \<noteq> ?h \<and> ?R `` {a} \<subseteq> set m'" if a: "a \<in> set m'" "a \<notin> set q'" for a
    proof (cases "a = b")
      case True
      with push Rb sp(1) show ?thesis by auto
    next
      case False
      with a sp(1,2) have "a \<in> set m" "a \<notin> set q" by (auto simp: q)
      with cl sp(1) show ?thesis by blast
    qed
    have J': "j" if "J \<in> set m'" "J \<notin> set q'" "J \<notin> ?X"
    proof (rule J(1))
      show "J \<in> set m" "J \<notin> set q" "J \<notin> ?X" using that push sp(1,2) by (auto simp: q)
    qed
    have "set q' \<subseteq> set m'" "length q' \<le> length m'" "I \<in> set m'" using sp(1,2,4) I(4,5,6) by (auto simp: q)
    moreover have "j \<longrightarrow> J \<in> set m' \<and> J \<notin> ?X" using J(2) sp(1) by auto
    ultimately have "reach_inv M LS I J C (st\<lparr>rs_queue := q', rs_enqueued := m'\<rparr>)"
      using m' sub cl' J' by (simp add: reach_inv_def st Let_def)
    with run len len' sp(4) show ?thesis by (simp add: st q)
  qed
qed

lemma canReach_exact:
  assumes C: "\<And>b. b \<in> C \<Longrightarrow> set (lm_succs M b) \<subseteq> C" "finite C" and I: "I \<in> C" "I \<noteq> J" "isIncluded I LS" "isIncluded J LS"
  shows "canBasicBlockReachHeaderBeforeOther M LS I J =
    (if (I, ls_header LS) \<in> (walk M LS J)\<^sup>* then Inr True
     else if (I, J) \<in> (walk M LS J)\<^sup>* \<and> J \<notin> set (ls_exitBlocks LS) then Inr False else Inl AssertFailed)"
proof -
  let ?R = "walk M LS J" and ?b = "\<lambda>st. rs_queue st \<noteq> [] \<and> \<not> rs_header st"
  let ?s0 = "\<lparr>rs_queue = [I], rs_enqueued = [I], rs_isJReached = False, rs_header = False\<rparr>"
  let ?I = "reach_inv M LS I J C"
  have "\<exists>st. whileE ?b (reach_step M LS J) ?s0 = Inr st \<and> ?I st \<and> \<not> ?b st"
  proof (rule whileE_total [OF wf_measure [of "\<lambda>st. (card C - length (rs_enqueued st)) + length (rs_queue st)"]])
    show "?I ?s0" using I(1,2) by (simp add: reach_inv_def)
    show "\<exists>s'. reach_step M LS J st = Inr s' \<and> ?I s' \<and>
        (s', st) \<in> measure (\<lambda>st. (card C - length (rs_enqueued st)) + length (rs_queue st))"
      if "?I st" "?b st" for st
      using reach_step_ok [OF C that(1)] that(2) by auto
  qed
  then obtain st where w: "whileE ?b (reach_step M LS J) ?s0 = Inr st" "?I st" "\<not> ?b st" by blast
  have run: "canBasicBlockReachHeaderBeforeOther M LS I J =
      (if rs_header st then Inr True else check (rs_isJReached st) AssertFailed (Inr False))"
    using I w(1) by (simp add: canBasicBlockReachHeaderBeforeOther_def)
  show ?thesis
  proof (cases "rs_header st")
    case True
    with w(2) have "(I, ls_header LS) \<in> ?R\<^sup>*" by (auto simp: reach_inv_def Let_def)
    with True run show ?thesis by simp
  next
    case False
    with w(3) have q: "rs_queue st = []" by simp
    have inv: "I \<in> set (rs_enqueued st)" "set (rs_enqueued st) \<subseteq> ?R\<^sup>* `` {I}"
      "\<And>a. a \<in> set (rs_enqueued st) \<Longrightarrow> a \<noteq> ls_header LS \<and> ?R `` {a} \<subseteq> set (rs_enqueued st)"
      and j: "rs_isJReached st \<longleftrightarrow> J \<in> set (rs_enqueued st) \<and> J \<notin> set (ls_exitBlocks LS)"
      using w(2) False q by (auto simp: reach_inv_def Let_def)
    have "x \<in> set (rs_enqueued st)" if "(I, x) \<in> ?R\<^sup>*" for x
      using that by induction (use inv(1,3) in auto)
    with inv(2) have e: "x \<in> set (rs_enqueued st) \<longleftrightarrow> (I, x) \<in> ?R\<^sup>*" for x by blast
    with inv(3) have "(I, ls_header LS) \<notin> ?R\<^sup>*" by blast
    with run False j e show ?thesis by (simp add: check_def)
  qed
qed

section \<open>Marking\<close>

lemma setLoopCarried_simps [simp]:
  "node_T (setLoopCarried b e' g) n = node_T g n" "edge_from (setLoopCarried b e' g) e = edge_from g e"
  "edge_to (setLoopCarried b e' g) e = edge_to g e" "memory (edgeMem (setLoopCarried b e' g) e) = memory (edgeMem g e)"
  "isDataDependence (edgeMem (setLoopCarried b e' g) e) = isDataDependence (edgeMem g e)"
  "allEdges (setLoopCarried b e' g) = allEdges g" "allNodes (setLoopCarried b e' g) = allNodes g"
  by (simp_all add: setLoopCarried_def isDataDependence_def)

lemma setLoopCarried_mem: "edgeMem (setLoopCarried b e' g) e = (if e = e' then (edgeMem g e)\<lparr>isLoopCarried := b\<rparr> else edgeMem g e)"
  by (simp add: setLoopCarried_def)

lemma setLoopCarried_wf: "dg_wf g \<Longrightarrow> dg_wf (setLoopCarried b e g)"
  unfolding setLoopCarried_def by (rule update_edge_wf) simp_all

lemma getLoopOfLCD_frame [simp]: "getLoopOfLCD M LIS DT (setLoopCarried b e' g) e = getLoopOfLCD M LIS DT g e"
  unfolding getLoopOfLCD_def setLoopCarried_simps ..

lemma mark_all:
  assumes "distinct es" and "\<And>e. e \<in> set es \<Longrightarrow> \<not> isLoopCarried (edgeMem g e)" and "dg_wf g"
  shows "if \<exists>e \<in> set es. \<exists>f. getLoopOfLCD M LIS DT g e = Inl f
    then \<exists>f. foldE (mark_loop_carried M LIS DT) es g = Inl f
    else \<exists>g'. foldE (mark_loop_carried M LIS DT) es g = Inr g' \<and> dg_wf g' \<and> allEdges g' = allEdges g \<and>
      (\<forall>e. getLoopOfLCD M LIS DT g' e = getLoopOfLCD M LIS DT g e) \<and>
      (\<forall>e. edgeMem g' e = (if e \<in> set es then (edgeMem g e)\<lparr>isLoopCarried := getLoopOfLCD M LIS DT g e \<noteq> Inr None\<rparr>
         else edgeMem g e))"
  using assms
proof (induction es arbitrary: g)
  case Nil
  then show ?case by simp
next
  case (Cons e es)
  show ?case
  proof (cases "getLoopOfLCD M LIS DT g e")
    case (Inl f)
    then show ?thesis by (auto simp: mark_loop_carried_def)
  next
    case (Inr l)
    define g1 where "g1 = (case l of None \<Rightarrow> g | Some _ \<Rightarrow> setLoopCarried True e g)"
    have run: "mark_loop_carried M LIS DT e g = Inr g1" by (simp add: mark_loop_carried_def Inr g1_def split: option.split)
    have q: "getLoopOfLCD M LIS DT g1 k = getLoopOfLCD M LIS DT g k" for k by (simp add: g1_def split: option.split)
    have ed: "allEdges g1 = allEdges g" by (simp add: g1_def split: option.split)
    have mem: "edgeMem g1 k = (if k = e then (edgeMem g k)\<lparr>isLoopCarried := l \<noteq> None\<rparr> else edgeMem g k)" for k
      using Cons.prems(2) [of e] by (simp add: g1_def setLoopCarried_mem split: option.split)
    have wf: "dg_wf g1" using Cons.prems(3) by (auto simp: g1_def setLoopCarried_wf split: option.split)
    have "distinct es" "\<And>k. k \<in> set es \<Longrightarrow> \<not> isLoopCarried (edgeMem g1 k)" using Cons.prems(1,2) by (auto simp: mem)
    note IH = Cons.IH [OF this wf, unfolded q ed]
    show ?thesis
    proof (cases "\<exists>k \<in> set es. \<exists>f. getLoopOfLCD M LIS DT g k = Inl f")
      case True
      with IH run show ?thesis by auto
    next
      case False
      with IH obtain g' where g': "foldE (mark_loop_carried M LIS DT) es g1 = Inr g'" "dg_wf g'" "allEdges g' = allEdges g"
        "\<forall>k. getLoopOfLCD M LIS DT g' k = getLoopOfLCD M LIS DT g k"
        "\<forall>k. edgeMem g' k = (if k \<in> set es then (edgeMem g1 k)\<lparr>isLoopCarried := getLoopOfLCD M LIS DT g k \<noteq> Inr None\<rparr>
         else edgeMem g1 k)" by auto
      have no: "\<not> (\<exists>k \<in> set (e # es). \<exists>f. getLoopOfLCD M LIS DT g k = Inl f)" using False Inr by auto
      have "edgeMem g' k = (if k \<in> set (e # es) then (edgeMem g k)\<lparr>isLoopCarried := getLoopOfLCD M LIS DT g k \<noteq> Inr None\<rparr>
         else edgeMem g k)" for k
        using g'(5) Cons.prems(1) Inr by (auto simp: mem)
      with no g' run show ?thesis by simp
    qed
  qed
qed

section \<open>Refinement\<close>

lemma collect_loop_carried_all:
  assumes "\<And>e. e \<in> set es \<Longrightarrow> isLoopCarried (edgeMem g e) \<Longrightarrow> \<exists>i. node_T g (edge_to g e) = Inst i"
  shows "\<exists>r. foldE (collect_loop_carried M LS LIS g) es acc = Inr r \<and> set r = set acc \<union>
    {e \<in> set es. isLoopCarried (edgeMem g e) \<and> (\<exists>i. node_T g (edge_to g e) = Inst i \<and> getLoop_inst M LIS i = Some LS)}"
  using assms
proof (induction es arbitrary: acc)
  case Nil
  then show ?case by simp
next
  case (Cons e es)
  show ?case
  proof (cases "isLoopCarried (edgeMem g e)")
    case False
    with Cons.IH [of acc] Cons.prems show ?thesis by (auto simp: collect_loop_carried_def)
  next
    case True
    then obtain i where i: "node_T g (edge_to g e) = Inst i" using Cons.prems by auto
    let ?acc = "if getLoop_inst M LIS i \<noteq> Some LS then acc else uset_insert e acc"
    have "collect_loop_carried M LS LIS g e acc = Inr ?acc" using True i by (simp add: collect_loop_carried_def)
    moreover obtain r where "foldE (collect_loop_carried M LS LIS g) es ?acc = Inr r" "set r = set ?acc \<union>
      {e \<in> set es. isLoopCarried (edgeMem g e) \<and> (\<exists>i. node_T g (edge_to g e) = Inst i \<and> getLoop_inst M LIS i = Some LS)}"
      using Cons.IH [of ?acc] Cons.prems by auto
    ultimately show ?thesis using True i by (intro exI [of _ r]) auto
  qed
qed

definition disproved :: "dfr \<Rightarrow> (nat \<Rightarrow> nat \<Rightarrow> bool) \<Rightarrow> (llvm_value, 'r) dg \<Rightarrow> ptr \<Rightarrow> bool" where
  "disproved dfr disjoint g e \<longleftrightarrow> memory (edgeMem g e) \<and> (\<exists>i j. node_T g (edge_from g e) = Inst i \<and>
     node_T g (edge_to g e) = Inst j \<and> j \<notin> set (OUT dfr i) \<and> disjoint i j)"

lemma collect_disproved_all:
  "set (fold (collect_disproved dfr disjoint g) es acc) = set acc \<union> {e \<in> set es. disproved dfr disjoint g e} \<and>
   (distinct acc \<longrightarrow> distinct (fold (collect_disproved dfr disjoint g) es acc))"
proof (induction es arbitrary: acc)
  case (Cons e es)
  have "set (collect_disproved dfr disjoint g e acc) = set acc \<union> {k. k = e \<and> disproved dfr disjoint g k}"
    "distinct acc \<longrightarrow> distinct (collect_disproved dfr disjoint g e acc)"
    by (auto simp: collect_disproved_def disproved_def split: llvm_value.splits)
  with Cons.IH [of "collect_disproved dfr disjoint g e acc"] show ?case by auto
qed simp

lemma remove_all:
  assumes "dg_wf g" and "distinct es" and "set es \<subseteq> set (allEdges g)"
  defines "g' \<equiv> fold (\<lambda>e g. removeEdge e (setLoopCarried False e g)) es g"
  shows "dg_wf g' \<and> set (allEdges g') = set (allEdges g) - set es \<and> set (allNodes g') = set (allNodes g) \<and>
    (\<forall>e. e \<notin> set es \<longrightarrow> edgeMem g' e = edgeMem g e)"
  using assms(1-3) unfolding g'_def
proof (induction es arbitrary: g)
  case Nil
  then show ?case by simp
next
  case (Cons e es)
  let ?g0 = "setLoopCarried False e g"
  have wf0: "dg_wf ?g0" using Cons.prems(1) by (rule setLoopCarried_wf)
  have e0: "e \<in> set (allEdges ?g0)" using Cons.prems(3) by simp
  note ef = removeEdge_effect [OF wf0 e0] removeEdge_wf [OF wf0 e0]
  have "set es \<subseteq> set (allEdges (removeEdge e ?g0))" using Cons.prems(2,3) ef(3) by auto
  with Cons.IH [OF ef(11)] Cons.prems(2) have
    IH: "dg_wf (fold (\<lambda>e g. removeEdge e (setLoopCarried False e g)) es (removeEdge e ?g0))"
    "set (allEdges (fold (\<lambda>e g. removeEdge e (setLoopCarried False e g)) es (removeEdge e ?g0))) =
       set (allEdges (removeEdge e ?g0)) - set es"
    "set (allNodes (fold (\<lambda>e g. removeEdge e (setLoopCarried False e g)) es (removeEdge e ?g0))) = set (allNodes (removeEdge e ?g0))"
    "\<And>k. k \<notin> set es \<Longrightarrow> edgeMem (fold (\<lambda>e g. removeEdge e (setLoopCarried False e g)) es (removeEdge e ?g0)) k = edgeMem (removeEdge e ?g0) k"
    by auto
  then show ?case using ef(3,4,5) by (auto simp: setLoopCarried_mem)
qed

section \<open>A sample nest\<close>

text \<open>An outer loop of the blocks 1, 2 and 3 with header 1, an inner loop of the block 2, and the exit block 4.\<close>

definition nest_module :: llvm_module where
  "nest_module =
     \<lparr>lm_loop = (\<lambda>l. if l = 0
        then \<lparr>ll_depth = 1, ll_header = 1, ll_preheader = None, ll_blocks = [1, 2, 3], ll_isLatch = (\<lambda>b. b = 3),
              ll_isInvariant = (\<lambda>_. False), ll_exitBlocks = [4], ll_exitEdges = [(3, 4)], ll_parent = None, ll_subLoops = [1]\<rparr>
        else \<lparr>ll_depth = 2, ll_header = 2, ll_preheader = None, ll_blocks = [2], ll_isLatch = (\<lambda>b. b = 2),
              ll_isInvariant = (\<lambda>_. False), ll_exitBlocks = [3], ll_exitEdges = [(2, 3)], ll_parent = Some 0, ll_subLoops = []\<rparr>),
      lm_insts = (\<lambda>b. [10 * b]), lm_parent = (\<lambda>i. i div 10), lm_function = (\<lambda>_. 0),
      lm_succs = (\<lambda>b. if b = 1 then [2] else if b = 2 then [2, 3] else if b = 3 then [1, 4] else [])\<rparr>"

lemma nest_edges: "loop_edges nest_module {0, 1} = {(0, 1)}"
  by (auto simp: loop_edges_def nest_module_def split: if_splits)

lemma nest_tree: "loop_tree nest_module 0 {0, 1}"
proof -
  have "{(0, 1 :: nat)}\<^sup>* `` {0} = {0, 1}"
  proof -
    have "x \<in> {0, 1}" if "(0, x) \<in> {(0, 1 :: nat)}\<^sup>*" for x using that by induction auto
    moreover have "(0, 1) \<in> {(0, 1 :: nat)}\<^sup>*" by (rule r_into_rtrancl) simp
    ultimately show ?thesis by blast
  qed
  then show ?thesis unfolding loop_tree_def nest_edges by (simp add: nest_module_def)
qed

lemma nest_below: "below nest_module {0, 1} 0 = {1}"
proof -
  have "{(0, 1 :: nat)}\<^sup>+ = {(0, 1)}" by (rule trancl_id) (simp add: trans_def)
  then show ?thesis unfolding nest_edges by auto
qed

text \<open>One memory dependence of an instruction on itself, in a graph of its own.\<close>

definition self_graph :: "bool \<Rightarrow> (llvm_value, nat) dg" where
  "self_graph lc =
     \<lparr>nodeIdCounter = 1, allNodes = [0], allEdges = [1], entryNode = None, internalNodeMap = [(Inst 20, Some 0)],
      externalNodeMap = [], nodeMem = (\<lambda>n. \<lparr>nodeID = 0, theT = Inst 20, outgoingEdges = [1], incomingEdges = [1]\<rparr>),
      edgeMem = (\<lambda>e. (new_edge 0 0)\<lparr>memory := True, isLoopCarried := lc\<rparr>), nextPtr = 2\<rparr>"

lemma self_graph_wf: "dg_wf (self_graph lc)"
  by (auto simp: dg_wf_def edges_wf_def maps_wf_def self_graph_def new_edge_def isInternal_def isExternal_def lookup_node_def)

section \<open>Properties\<close>

text \<open>The summary of loops mirrors LLVM's. For any tree of loops the summary is built without a failed assertion: one
  structure per loop with its header, depth and blocks, the structure of its parent and those of its sub-loops as
  children, the outermost loop as root; and a block of the outermost loop is mapped to the innermost loop around it.\<close>

theorem loops_summary_mirrors:
  assumes "loop_tree M rt L"
  shows "\<exists>S \<sigma>. LoopsSummary_of M rt g = Inr S \<and> inj_on \<sigma> L \<and> set (sm_loops S) = \<sigma> ` L \<and>
     getLoopNestingTreeRoot S = Inr (\<sigma> rt) \<and>
     (\<forall>l \<in> L. ls_header (sm_mem S (\<sigma> l)) = ll_header (lm_loop M l) \<and> ls_depth (sm_mem S (\<sigma> l)) = ll_depth (lm_loop M l) \<and>
        (\<forall>b. isIncluded b (sm_mem S (\<sigma> l)) \<longleftrightarrow> b \<in> blocks_of M l) \<and>
        ls_parent (sm_mem S (\<sigma> l)) = (if l = rt then None else Some (\<sigma> (the (ll_parent (lm_loop M l))))) \<and>
        set (ls_children (sm_mem S (\<sigma> l))) = \<sigma> ` subs_of M l) \<and>
     (\<forall>b. case getLoop S b of None \<Rightarrow> b \<notin> blocks_of M rt
        | Some s \<Rightarrow> \<exists>l \<in> L. s = \<sigma> l \<and> b \<in> blocks_of M l \<and> (\<forall>m \<in> L. b \<in> blocks_of M m \<longrightarrow> (m, l) \<in> (loop_edges M L)\<^sup>*))"
proof -
  obtain S \<sigma> where S: "LoopsSummary_of M rt g = Inr S" "mirrors M rt L \<sigma> S" using LoopsSummary_ok [OF assms] by blast
  have st: "struct_ok M rt L \<sigma> S l" if "l \<in> L" for l using S(2) that by (simp add: mirrors_def)
  have sub: "subs_of M l \<inter> L = subs_of M l" if "l \<in> L" for l using loop_treeD(6) [OF assms that] by blast
  have rt: "rt \<in> L" by (rule loop_treeD(2) [OF assms])
  have bo: "case getLoop S b of None \<Rightarrow> b \<notin> blocks_of M rt
        | Some s \<Rightarrow> \<exists>l \<in> L. s = \<sigma> l \<and> b \<in> blocks_of M l \<and> (\<forall>m \<in> L. b \<in> blocks_of M m \<longrightarrow> (m, l) \<in> (loop_edges M L)\<^sup>*)" for b
  proof -
    have "case getLoop S b of None \<Rightarrow> \<forall>l \<in> L. b \<notin> blocks_of M l
        | Some s \<Rightarrow> \<exists>l \<in> L. s = \<sigma> l \<and> b \<in> blocks_of M l \<and> (\<forall>m \<in> L. b \<in> blocks_of M m \<longrightarrow> (m, l) \<in> (loop_edges M L)\<^sup>*)"
      using S(2) by (simp add: mirrors_def blocks_ok_def)
    then show ?thesis using rt by (cases "getLoop S b") (simp_all only: option.case, blast)
  qed
  have "getLoopNestingTreeRoot S = Inr (\<sigma> rt)" using S(2) by (simp add: mirrors_def getLoopNestingTreeRoot_def)
  with S bo st sub show ?thesis
    by (intro exI [of _ S] exI [of _ \<sigma>]) (simp add: mirrors_def struct_ok_def Let_def isIncluded_def)
qed

lemma loops_summary_mirrors_witness:
  "\<exists>S s. LoopsSummary_of nest_module 0 7 = Inr S \<and> getLoop S 2 = Some s \<and> ls_header (sm_mem S s) = 2 \<and> getLoop S 4 = None"
proof -
  from loops_summary_mirrors [OF nest_tree, of 7] show ?thesis
  proof (elim exE conjE)
    fix S \<sigma>
    assume S: "LoopsSummary_of nest_module 0 7 = Inr S"
      and h: "\<forall>l \<in> {0, 1}. ls_header (sm_mem S (\<sigma> l)) = ll_header (lm_loop nest_module l) \<and>
        ls_depth (sm_mem S (\<sigma> l)) = ll_depth (lm_loop nest_module l) \<and>
        (\<forall>b. isIncluded b (sm_mem S (\<sigma> l)) \<longleftrightarrow> b \<in> blocks_of nest_module l) \<and>
        ls_parent (sm_mem S (\<sigma> l)) = (if l = 0 then None else Some (\<sigma> (the (ll_parent (lm_loop nest_module l))))) \<and>
        set (ls_children (sm_mem S (\<sigma> l))) = \<sigma> ` subs_of nest_module l"
      and b: "\<forall>b. case getLoop S b of None \<Rightarrow> b \<notin> blocks_of nest_module 0
        | Some s \<Rightarrow> \<exists>l \<in> {0, 1}. s = \<sigma> l \<and> b \<in> blocks_of nest_module l \<and>
            (\<forall>m \<in> {0, 1}. b \<in> blocks_of nest_module m \<longrightarrow> (m, l) \<in> (loop_edges nest_module {0, 1})\<^sup>*)"
    have blk: "blocks_of nest_module 0 = {1, 2, 3}" "blocks_of nest_module 1 = {2}" by (simp_all add: nest_module_def)
    have "getLoop S 4 = None"
      using spec [OF b, of 4] blk by (cases "getLoop S 4") auto
    moreover have "(1, 0) \<notin> {(0, 1 :: nat)}\<^sup>*" by (auto elim: converse_rtranclE)
    then have "getLoop S 2 = Some (\<sigma> 1)"
      using spec [OF b, of 2] blk unfolding nest_edges by (cases "getLoop S 2") auto
    moreover have "ls_header (sm_mem S (\<sigma> 1)) = 2" using h by (simp add: nest_module_def)
    ultimately show ?thesis using S by blast
  qed
qed

text \<open>The recursive walks. In the summary of any tree of loops \<open>getLoopDescendants\<close> and \<open>getNumberOfSubLoops\<close> return: the
  first gives exactly the structures of the loops below, the second their number modulo \<open>2^32\<close>.\<close>

theorem sub_loop_walks:
  assumes "loop_tree M rt L"
  shows "\<exists>S \<sigma>. LoopsSummary_of M rt g = Inr S \<and> inj_on \<sigma> L \<and>
     (\<forall>l \<in> L. ls_header (sm_mem S (\<sigma> l)) = ll_header (lm_loop M l) \<and>
        (\<exists>ds. getLoopDescendants (sm_mem S) (\<sigma> l) = Some ds \<and> set ds = \<sigma> ` below M L l) \<and>
        getNumberOfSubLoops (sm_mem S) (\<sigma> l) = Some (word_of_nat (card (below M L l))))"
proof -
  obtain S \<sigma> where S: "LoopsSummary_of M rt g = Inr S" "mirrors M rt L \<sigma> S" using LoopsSummary_ok [OF assms] by blast
  from S(2) have "inj_on \<sigma> L" "\<forall>l \<in> L. ls_header (sm_mem S (\<sigma> l)) = ll_header (lm_loop M l)"
    by (simp_all add: mirrors_def struct_ok_def Let_def)
  with S(1) walks_ok [OF assms S(2)] show ?thesis by blast
qed

lemma sub_loop_walks_witness:
  "\<exists>S s. LoopsSummary_of nest_module 0 7 = Inr S \<and> ls_header (sm_mem S s) = 1 \<and> getNumberOfSubLoops (sm_mem S) s = Some 1"
proof -
  from sub_loop_walks [OF nest_tree, of 7] show ?thesis
  proof (elim exE conjE)
    fix S \<sigma>
    assume S: "LoopsSummary_of nest_module 0 7 = Inr S"
      and w: "\<forall>l \<in> {0, 1}. ls_header (sm_mem S (\<sigma> l)) = ll_header (lm_loop nest_module l) \<and>
        (\<exists>ds. getLoopDescendants (sm_mem S) (\<sigma> l) = Some ds \<and> set ds = \<sigma> ` below nest_module {0, 1} l) \<and>
        getNumberOfSubLoops (sm_mem S) (\<sigma> l) = Some (word_of_nat (card (below nest_module {0, 1} l)))"
    have "getNumberOfSubLoops (sm_mem S) (\<sigma> 0) = Some (word_of_nat (card {1 :: nat}))"
      using bspec [OF w, of 0] unfolding nest_below by simp
    moreover have "ls_header (sm_mem S (\<sigma> 0)) = 1" using bspec [OF w, of 0] by (simp add: nest_module_def)
    ultimately show ?thesis using S by auto
  qed
qed

text \<open>The search for the header. In a natural loop, where every block of the loop leads back to the header inside the
  loop and the exits are outside, \<open>canBasicBlockReachHeaderBeforeOther\<close> ends without a failed assertion for any two
  blocks of the loop, and answers whether they are the same or a path leads from the first to the header before the
  second.\<close>

theorem header_search_decides:
  assumes "\<And>b. b \<in> C \<Longrightarrow> set (lm_succs M b) \<subseteq> C" and "finite C" and "set (ls_bbs LS) \<subseteq> C"
    and "set (ls_exitBlocks LS) \<inter> set (ls_bbs LS) = {}"
    and "\<And>b. b \<in> set (ls_bbs LS) \<Longrightarrow>
      (b, ls_header LS) \<in> {(x, y). y \<in> set (lm_succs M x) \<and> x \<in> set (ls_bbs LS) \<and> y \<in> set (ls_bbs LS)}\<^sup>*"
    and "I \<in> set (ls_bbs LS)" and "J \<in> set (ls_bbs LS)"
  shows "canBasicBlockReachHeaderBeforeOther M LS I J = Inr (I = J \<or> (I, ls_header LS) \<in>
     {(x, y). y \<in> set (lm_succs M x) \<and> x \<noteq> ls_header LS \<and> x \<notin> set (ls_exitBlocks LS) \<and> x \<noteq> J}\<^sup>*)"
proof (cases "I = J")
  case True
  with assms(6) show ?thesis by (simp add: canBasicBlockReachHeaderBeforeOther_def isIncluded_def)
next
  case False
  let ?W = "walk M LS J" and ?h = "ls_header LS"
  have "(I, y) \<in> ?W\<^sup>* \<or> (I, J) \<in> ?W\<^sup>* \<or> (I, ?h) \<in> ?W\<^sup>*"
    if "(I, y) \<in> {(x, y). y \<in> set (lm_succs M x) \<and> x \<in> set (ls_bbs LS) \<and> y \<in> set (ls_bbs LS)}\<^sup>*" for y
    using that
  proof induction
    case (step y z)
    then have y: "y \<notin> set (ls_exitBlocks LS)" "z \<in> set (lm_succs M y)" using assms(4) by auto
    from step.IH show ?case
    proof (elim disjE)
      assume r: "(I, y) \<in> ?W\<^sup>*"
      show ?thesis
      proof (cases "y = ?h \<or> y = J")
        case False
        with y have "(y, z) \<in> ?W" by (simp add: walk_def)
        with r have "(I, z) \<in> ?W\<^sup>*" by (rule rtrancl_into_rtrancl)
        then show ?thesis by blast
      qed (use r in auto)
    qed auto
  qed simp
  from this [OF assms(5) [OF assms(6)]] have d: "(I, ?h) \<in> ?W\<^sup>* \<or> (I, J) \<in> ?W\<^sup>*" by blast
  have "J \<notin> set (ls_exitBlocks LS)" using assms(4,7) by blast
  moreover have "I \<in> C" "isIncluded I LS" "isIncluded J LS" using assms(3,6,7) by (auto simp: isIncluded_def)
  moreover have "?W = {(x, y). y \<in> set (lm_succs M x) \<and> x \<noteq> ?h \<and> x \<notin> set (ls_exitBlocks LS) \<and> x \<noteq> J}"
    by (simp add: walk_def)
  ultimately show ?thesis
    using canReach_exact [OF assms(1,2), of I J LS] False d by auto
qed

lemma header_search_decides_witness:
  "let LS = fst (LoopStructure_of nest_module 0 None 0) in
   canBasicBlockReachHeaderBeforeOther nest_module LS 3 2 = Inr True \<and>
   canBasicBlockReachHeaderBeforeOther nest_module LS 2 3 = Inr False"
proof -
  define LS where "LS = fst (LoopStructure_of nest_module 0 None 0)"
  have ls: "ls_header LS = 1" "set (ls_bbs LS) = {1, 2, 3}" "set (ls_exitBlocks LS) = {4}"
    by (simp_all add: LS_def LoopStructure_of_def nest_module_def)
  have su: "set (lm_succs nest_module b) =
      (if b = 1 then {2} else if b = 2 then {2, 3} else if b = 3 then {1, 4} else {})" for b
    by (auto simp: nest_module_def)
  let ?R = "{(x, y). y \<in> set (lm_succs nest_module x) \<and> x \<in> {1, 2, 3} \<and> y \<in> {1, 2, 3 :: nat}}"
  have "(1, 2) \<in> ?R" "(2, 3) \<in> ?R" "(3, 1) \<in> ?R" by (simp_all add: su)
  then have nat: "(b, 1) \<in> ?R\<^sup>*" if "b \<in> {1, 2, 3}" for b
    using that by (metis (no_types, lifting) insertE converse_rtrancl_into_rtrancl rtrancl.rtrancl_refl singletonD)
  have cl: "\<And>b. b \<in> {1, 2, 3, 4} \<Longrightarrow> set (lm_succs nest_module b) \<subseteq> {1, 2, 3, 4}" by (simp add: su)
  have d: "canBasicBlockReachHeaderBeforeOther nest_module LS I J = Inr (I = J \<or> (I, 1) \<in>
     {(x, y). y \<in> set (lm_succs nest_module x) \<and> x \<noteq> 1 \<and> x \<notin> {4} \<and> x \<noteq> J}\<^sup>*)" if "I \<in> {1, 2, 3}" "J \<in> {1, 2, 3}" for I J
    using header_search_decides [of "{1, 2, 3, 4}" nest_module LS I J, OF cl, unfolded ls] nat that by simp
  have "(3, 1) \<in> {(x, y). y \<in> set (lm_succs nest_module x) \<and> x \<noteq> 1 \<and> x \<notin> {4} \<and> x \<noteq> 2}\<^sup>*"
    by (rule r_into_rtrancl) (simp add: su)
  moreover have "(2, 1) \<notin> {(x, y). y \<in> set (lm_succs nest_module x) \<and> x \<noteq> 1 \<and> x \<notin> {4} \<and> x \<noteq> 3}\<^sup>*"
  proof
    assume "(2, 1) \<in> {(x, y). y \<in> set (lm_succs nest_module x) \<and> x \<noteq> 1 \<and> x \<notin> {4} \<and> x \<noteq> 3}\<^sup>*"
    moreover have "y \<in> {2, 3}" if "(2, y) \<in> {(x, y). y \<in> set (lm_succs nest_module x) \<and> x \<noteq> 1 \<and> x \<notin> {4} \<and> x \<noteq> 3}\<^sup>*" for y
      using that by induction (auto simp: su split: if_splits)
    ultimately show False by fastforce
  qed
  ultimately show ?thesis using d [of 3 2] d [of 2 3] by (simp add: Let_def LS_def [symmetric])
qed


definition self_summary :: loops_summary where
  "self_summary = (empty_summary 0)\<lparr>sm_bbToLoop := (\<lambda>b. if b = 1 then Some 5 else None), sm_mem := (\<lambda>_.
     \<lparr>ls_ID = 0, ls_header = 1, ls_preHeader = None, ls_depth = 1, ls_parent = None, ls_invariants = [], ls_children = [],
      ls_latchBBs = [1], ls_bbs = [1], ls_orderedBBs = [1], ls_exitBlocks = [], ls_exitEdges = []\<rparr>)\<rparr>"

definition self_module :: llvm_module where
  "self_module = nest_module\<lparr>lm_parent := (\<lambda>i. if i = 20 then 1 else 0)\<rparr>"

lemma self_query: "getLoopOfLCD self_module self_summary DT (self_graph lc) 1 = Inr (Some 5)"
  by (simp add: getLoopOfLCD_def self_graph_def self_summary_def self_module_def getLoop_inst_def getLoop_def new_edge_def)


text \<open>C17: the refinement by the iteration domain. It returns, and removes exactly the loop-carried memory dependences of the
  loop between instructions whose consumer is not reachable from the producer in the same iteration and whose accesses
  the iteration domain finds disjoint; every other edge and all nodes stay as they were.\<close>

theorem lids_refinement:
  assumes "cfg_ok F" and "ls_header (sm_mem LIS LS) \<in> set (cfg_blocks F)" and "dg_wf g"
    and "\<And>e. e \<in> set (allEdges g) \<Longrightarrow> isLoopCarried (edgeMem g e) \<Longrightarrow>
      \<exists>i \<in> set (instructions F). \<exists>j \<in> set (instructions F). node_T g (edge_from g e) = Inst i \<and> node_T g (edge_to g e) = Inst j"
  defines "R \<equiv> flow F (\<lambda>s. s = hd (cfg_insts F (ls_header (sm_mem LIS LS))))"
  shows "\<exists>g'. refinePDGWithLIDS M F LS LIS disjoint g = Inr g' \<and> dg_wf g' \<and> set (allNodes g') = set (allNodes g) \<and>
     set (allEdges g') = {e \<in> set (allEdges g). \<not> (isLoopCarried (edgeMem g e) \<and> memory (edgeMem g e) \<and>
        (\<exists>i j. node_T g (edge_from g e) = Inst i \<and> node_T g (edge_to g e) = Inst j \<and>
           getLoop_inst M LIS j = Some LS \<and> (i, j) \<notin> R\<^sup>+ \<and> disjoint i j))} \<and>
     (\<forall>e \<in> set (allEdges g'). edgeMem g' e = edgeMem g e)"
proof -
  obtain dfr where dfr: "computeReachabilityFromInstructions F (ls_header (sm_mem LIS LS)) = Inr dfr"
    and out: "\<And>i. i \<in> set (instructions F) \<Longrightarrow> set (OUT dfr i) = {j \<in> set (instructions F). (i, j) \<in> R\<^sup>+}"
    using iteration_reach [OF assms(1,2)] unfolding R_def by blast
  let ?lc = "{e \<in> set (allEdges g). isLoopCarried (edgeMem g e) \<and>
      (\<exists>i. node_T g (edge_to g e) = Inst i \<and> getLoop_inst M LIS i = Some LS)}"
  have "\<And>e. e \<in> set (allEdges g) \<Longrightarrow> isLoopCarried (edgeMem g e) \<Longrightarrow> \<exists>i. node_T g (edge_to g e) = Inst i"
    using assms(4) by blast
  from collect_loop_carried_all [of "allEdges g" g M LS LIS "[]", OF this] obtain deps where
    deps: "getLoopCarriedDependenciesForLoop M LS LIS g = Inr deps" "set deps = ?lc"
    by (auto simp: getLoopCarriedDependenciesForLoop_def)
  let ?rm = "fold (collect_disproved dfr disjoint g) deps []"
  have rm: "set ?rm = {e \<in> ?lc. disproved dfr disjoint g e}" "distinct ?rm"
    using collect_disproved_all [of dfr disjoint g deps "[]"] deps(2) by simp_all
  have "set ?rm \<subseteq> set (allEdges g)" unfolding rm(1) by blast
  note RA = remove_all [OF assms(3) rm(2) this]
  have "refinePDGWithLIDS M F LS LIS disjoint g = Inr (fold (\<lambda>e g. removeEdge e (setLoopCarried False e g)) ?rm g)"
    by (simp add: refinePDGWithLIDS_def dfr deps(1))
  moreover have "e \<in> set ?rm \<longleftrightarrow> isLoopCarried (edgeMem g e) \<and> memory (edgeMem g e) \<and>
        (\<exists>i j. node_T g (edge_from g e) = Inst i \<and> node_T g (edge_to g e) = Inst j \<and>
           getLoop_inst M LIS j = Some LS \<and> (i, j) \<notin> R\<^sup>+ \<and> disjoint i j)" if e: "e \<in> set (allEdges g)" for e
  proof (cases "isLoopCarried (edgeMem g e)")
    case True
    obtain i j where ij: "i \<in> set (instructions F)" "j \<in> set (instructions F)"
      "node_T g (edge_from g e) = Inst i" "node_T g (edge_to g e) = Inst j" using assms(4) [OF e True] by blast
    show ?thesis unfolding rm(1) using e True ij out [OF ij(1)] by (auto simp: disproved_def)
  next
    case False
    then show ?thesis unfolding rm(1) by simp
  qed
  ultimately show ?thesis using RA by (intro exI [of _ "fold (\<lambda>e g. removeEdge e (setLoopCarried False e g)) ?rm g"]) auto
qed

lemma lids_refinement_witness:
  "\<exists>g'. refinePDGWithLIDS self_module sample_cfg 5 self_summary (\<lambda>i j. True) (self_graph True) = Inr g' \<and> allEdges g' = []"
proof -
  have h: "ls_header (sm_mem self_summary 5) = 1" by (simp add: self_summary_def)
  have hd: "hd (cfg_insts sample_cfg 1) = 20" "1 \<in> set (cfg_blocks sample_cfg)" by (simp_all add: sample_cfg_def)
  have g: "set (allEdges (self_graph True)) = {1}" "isLoopCarried (edgeMem (self_graph True) e)" "memory (edgeMem (self_graph True) e)"
    "node_T (self_graph True) n = Inst 20" for e n by (simp_all add: self_graph_def new_edge_def)
  have l: "getLoop_inst self_module self_summary 20 = Some 5"
    by (simp add: getLoop_inst_def getLoop_def self_module_def self_summary_def)
  have no: "(20, 20) \<notin> {(10, 11 :: nat)}\<^sup>+" by (auto elim: tranclE)
  have a: "\<exists>i \<in> set (instructions sample_cfg). \<exists>j \<in> set (instructions sample_cfg).
      node_T (self_graph True) (edge_from (self_graph True) e) = Inst i \<and> node_T (self_graph True) (edge_to (self_graph True) e) = Inst j" for e
    unfolding sample_instructions g(4) by simp
  have b: "ls_header (sm_mem self_summary 5) \<in> set (cfg_blocks sample_cfg)" unfolding h by (rule hd(2))
  from lids_refinement [OF sample_cfg_ok b self_graph_wf [of True] a, of self_module "\<lambda>i j. True",
      unfolded h hd(1) sample_flow_iteration g(1-4)]
  show ?thesis using l no by (auto simp: g(2,3))
qed

end
