(* ===== verification/LoopForest.thy ===== *)
theory LoopForest
  imports Loops DomSummary "HOL-Library.AList"
begin

text \<open>
  Forests of loops: \<open>core/loop_structure/src/StayConnectedNestedLoopForest.cpp\<close>.

  The forest organises a given set of \<open>LoopStructure\<close>s in trees. Its nodes are heap objects: \<open>fr_mem\<close> maps a live node
  to its fields, a deleted node to \<open>None\<close>. The structures themselves (\<open>str\<close>), the module and the dominator trees of
  the functions (\<open>doms\<close>) are read only. \<open>addChildrenToTree\<close>, \<open>visitPreOrder\<close> and \<open>visitPostOrder\<close> recurse over the heap,
  so they are partial functions: \<open>None\<close> is a call that does not return.
\<close>

record forest_node =
  fn_loop :: nat
  fn_parent :: "nat option"
  fn_descendants :: "nat list"

record loop_forest =
  fr_nodes :: "(nat \<times> nat) list"
  fr_trees :: "nat list"
  fr_functionLoops :: "nat \<Rightarrow> nat list"
  fr_headerLoops :: "nat \<rightharpoonup> nat"
  fr_mem :: "nat \<rightharpoonup> forest_node"
  fr_next :: nat

definition empty_forest :: loop_forest where
  "empty_forest = \<lparr>fr_nodes = [], fr_trees = [], fr_functionLoops = (\<lambda>_. []), fr_headerLoops = (\<lambda>_. None),
     fr_mem = (\<lambda>_. None), fr_next = 0\<rparr>"

definition get_node :: "nat \<Rightarrow> loop_forest \<Rightarrow> forest_node res" where
  "get_node n F = (case fr_mem F n of None \<Rightarrow> Inl DanglingDeref | Some r \<Rightarrow> Inr r)"

definition put_node :: "nat \<Rightarrow> forest_node \<Rightarrow> loop_forest \<Rightarrow> loop_forest" where
  "put_node n r F = F\<lparr>fr_mem := (fr_mem F)(n \<mapsto> r)\<rparr>"

definition change_node :: "nat \<Rightarrow> (forest_node \<Rightarrow> forest_node) \<Rightarrow> loop_forest \<Rightarrow> loop_forest res" where
  "change_node n f F = andThen (get_node n F) (\<lambda>r. Inr (put_node n (f r) F))"

section \<open>Trees of the forest\<close>

definition removeTree :: "nat \<Rightarrow> loop_forest \<Rightarrow> loop_forest res" where
  "removeTree tree F = check (tree \<in> set (fr_trees F)) AssertFailed
     (let F1 = F\<lparr>fr_trees := uset_erase tree (fr_trees F)\<rparr>
      in check (tree \<notin> set (fr_trees F1)) AssertFailed (Inr F1))"

definition addTree :: "nat \<Rightarrow> loop_forest \<Rightarrow> loop_forest res" where
  "addTree tree F = check (tree \<notin> set (fr_trees F)) AssertFailed
     (Inr (F\<lparr>fr_trees := uset_insert tree (fr_trees F)\<rparr>))"

section \<open>Construction\<close>

definition alloc_loop ::
  "llvm_module \<Rightarrow> (nat \<Rightarrow> loop_structure) \<Rightarrow> nat \<Rightarrow> loop_forest \<times> nat list \<Rightarrow> loop_forest \<times> nat list" where
  "alloc_loop M str l = (\<lambda>(F, potentialTrees).
     let func = getFunction M (str l);
         header = ls_header (str l);
         n = fr_next F;
         F1 = F\<lparr>fr_mem := (fr_mem F)(n \<mapsto> \<lparr>fn_loop = l, fn_parent = None, fn_descendants = []\<rparr>), fr_next := Suc n,
                fr_nodes := AList.update l n (fr_nodes F),
                fr_functionLoops := (fr_functionLoops F)(func := uset_insert l (fr_functionLoops F func)),
                fr_headerLoops := (fr_headerLoops F)(header \<mapsto> n)\<rparr>
     in if ls_depth (str l) = 1 then (F1\<lparr>fr_trees := uset_insert n (fr_trees F1)\<rparr>, potentialTrees)
        else (F1, uset_insert n potentialTrees))"

text \<open>The walk up the dominator tree from the header of a loop to the header of the root: is there a loop in between?\<close>

definition between_step ::
  "(nat \<Rightarrow> loop_structure) \<Rightarrow> dom_tree \<Rightarrow> loop_forest \<Rightarrow> nat \<Rightarrow> nat option \<times> bool \<Rightarrow> (nat option \<times> bool) res" where
  "between_step str DT F functionLoopHeader = (\<lambda>(node, _).
     case node of
       None \<Rightarrow> Inl NullDeref
     | Some k \<Rightarrow>
         let up = Inr (dn_parent (dt_mem DT k), False)
         in (case Option.bind (dn_B (dt_mem DT k)) (fr_headerLoops F) of
               None \<Rightarrow> up
             | Some loopInBetween \<Rightarrow>
                 andThen (get_node loopInBetween F) (\<lambda>r.
                   if isIncluded functionLoopHeader (str (fn_loop r)) then Inr (node, True) else up)))"

definition found_in_between ::
  "(nat \<Rightarrow> loop_structure) \<Rightarrow> dom_tree \<Rightarrow> loop_forest \<Rightarrow> nat \<Rightarrow> nat \<Rightarrow> bool res" where
  "found_in_between str DT F header functionLoopHeader =
     (let top = getNode DT (Some header); sub = getNode DT (Some functionLoopHeader)
      in check (top \<noteq> sub) AssertFailed
         (case sub of
            None \<Rightarrow> Inl NullDeref
          | Some s \<Rightarrow>
              andThen (whileE (\<lambda>(node, found). top \<noteq> node \<and> \<not> found) (between_step str DT F functionLoopHeader)
                         (dn_parent (dt_mem DT s), False))
                (\<lambda>(_, found). Inr found)))"

type_synonym forest_state = "loop_forest \<times> nat list"

text \<open>One loop of the function of the root: the result is the new state and the child to go into, if there is one.\<close>

definition attach_child ::
  "(nat \<Rightarrow> loop_structure) \<Rightarrow> dom_tree \<Rightarrow> nat \<Rightarrow> nat \<Rightarrow> forest_state \<Rightarrow> (nat option \<times> forest_state) res" where
  "attach_child str DT root functionLoop = (\<lambda>(F, potentialTrees).
     andThen (get_node root F) (\<lambda>r.
       let l = str (fn_loop r); header = ls_header l; functionLoopHeader = ls_header (str functionLoop)
       in if functionLoopHeader = header then Inr (None, F, potentialTrees)
          else if \<not> isIncluded functionLoopHeader l then Inr (None, F, potentialTrees)
          else andThen (found_in_between str DT F header functionLoopHeader) (\<lambda>foundLoopInBetween.
            if foundLoopInBetween then Inr (None, F, potentialTrees)
            else (case map_of (fr_nodes F) functionLoop of
                    None \<Rightarrow> Inl AssertFailed
                  | Some c \<Rightarrow>
                      andThen (change_node root (\<lambda>r. r\<lparr>fn_descendants := uset_insert c (fn_descendants r)\<rparr>) F) (\<lambda>F1.
                      andThen (change_node c (\<lambda>r. r\<lparr>fn_parent := Some root\<rparr>) F1) (\<lambda>F2.
                        Inr (Some c, F2, uset_erase c potentialTrees)))))))"

text \<open>The method: \<open>None\<close> is its entry, \<open>Some fls\<close> its loop with the loops of the function still to be considered.\<close>

partial_function (option) addChildrenToTree ::
  "llvm_module \<Rightarrow> (nat \<Rightarrow> loop_structure) \<Rightarrow> (nat \<rightharpoonup> dom_tree) \<Rightarrow> nat \<Rightarrow> nat list option \<Rightarrow> forest_state
   \<Rightarrow> forest_state res option" where
  "addChildrenToTree M str doms root todo st =
     (case get_node root (fst st) of
        Inl e \<Rightarrow> Some (Inl e)
      | Inr r \<Rightarrow>
          (let func = getFunction M (str (fn_loop r))
           in (case doms func of
                 None \<Rightarrow> Some (Inl KeyMissing)
               | Some DT \<Rightarrow>
                   (case todo of
                      None \<Rightarrow> addChildrenToTree M str doms root (Some (fr_functionLoops (fst st) func)) st
                    | Some [] \<Rightarrow> Some (Inr st)
                    | Some (functionLoop # rest) \<Rightarrow>
                        (case attach_child str DT root functionLoop st of
                           Inl e \<Rightarrow> Some (Inl e)
                         | Inr (None, st1) \<Rightarrow> addChildrenToTree M str doms root (Some rest) st1
                         | Inr (Some c, st1) \<Rightarrow>
                             Option.bind (addChildrenToTree M str doms c None st1) (\<lambda>res.
                               case res of
                                 Inl e \<Rightarrow> Some (Inl e)
                               | Inr st2 \<Rightarrow> addChildrenToTree M str doms root (Some rest) st2))))))"

fun fill_trees ::
  "llvm_module \<Rightarrow> (nat \<Rightarrow> loop_structure) \<Rightarrow> (nat \<rightharpoonup> dom_tree) \<Rightarrow> nat list \<Rightarrow> forest_state \<Rightarrow> forest_state res option" where
  "fill_trees M str doms [] st = Some (Inr st)"
| "fill_trees M str doms (t # ts) st =
     Option.bind (addChildrenToTree M str doms t None st) (\<lambda>res.
       case res of Inl e \<Rightarrow> Some (Inl e) | Inr st1 \<Rightarrow> fill_trees M str doms ts st1)"

definition StayConnectedNestedLoopForest_of ::
  "llvm_module \<Rightarrow> (nat \<Rightarrow> loop_structure) \<Rightarrow> nat list \<Rightarrow> (nat \<rightharpoonup> dom_tree) \<Rightarrow> loop_forest res option" where
  "StayConnectedNestedLoopForest_of M str loops doms =
     (let (F, potentialTrees) = fold (alloc_loop M str) loops (empty_forest, [])
      in Option.bind (fill_trees M str doms (fr_trees F) (F, potentialTrees)) (\<lambda>res.
           case res of
             Inl e \<Rightarrow> Some (Inl e)
           | Inr (F1, potentialTrees1) \<Rightarrow>
               Some (Inr (F1\<lparr>fr_trees := uset_insert_all potentialTrees1 (fr_trees F1)\<rparr>))))"

section \<open>Visits\<close>

text \<open>\<open>ns\<close> are the nodes of one level still to be visited.\<close>

partial_function (option) visit_level ::
  "(nat \<Rightarrow> 32 word \<Rightarrow> 's \<Rightarrow> (bool \<times> 's) res) \<Rightarrow> loop_forest \<Rightarrow> nat list \<Rightarrow> 32 word \<Rightarrow> 's \<Rightarrow> (bool \<times> 's) res option" where
  "visit_level funcToInvoke F ns treeLevel s =
     (case ns of
        [] \<Rightarrow> Some (Inr (False, s))
      | n # rest \<Rightarrow>
          (case fr_mem F n of
             None \<Rightarrow> Some (Inl DanglingDeref)
           | Some r \<Rightarrow>
               (case funcToInvoke n treeLevel s of
                  Inl e \<Rightarrow> Some (Inl e)
                | Inr (stop, s1) \<Rightarrow>
                    if stop then Some (Inr (True, s1))
                    else Option.bind (visit_level funcToInvoke F (fn_descendants r) (treeLevel + 1) s1) (\<lambda>res.
                      case res of
                        Inl e \<Rightarrow> Some (Inl e)
                      | Inr (stop, s2) \<Rightarrow>
                          if stop then Some (Inr (True, s2)) else visit_level funcToInvoke F rest treeLevel s2))))"

definition visitPreOrder ::
  "(nat \<Rightarrow> 32 word \<Rightarrow> 's \<Rightarrow> (bool \<times> 's) res) \<Rightarrow> loop_forest \<Rightarrow> nat \<Rightarrow> 's \<Rightarrow> (bool \<times> 's) res option" where
  "visitPreOrder funcToInvoke F n s = visit_level funcToInvoke F [n] 1 s"

definition visitPostOrder ::
  "(nat \<Rightarrow> 32 word \<Rightarrow> 's \<Rightarrow> (bool \<times> 's) res) \<Rightarrow> loop_forest \<Rightarrow> nat \<Rightarrow> 's \<Rightarrow> (bool \<times> 's) res option" where
  "visitPostOrder funcToInvoke F n s =
     (case fr_mem F n of
        None \<Rightarrow> Some (Inl DanglingDeref)
      | Some r \<Rightarrow>
          Option.bind (visit_level funcToInvoke F (fn_descendants r) 2 s) (\<lambda>res.
            case res of
              Inl e \<Rightarrow> Some (Inl e)
            | Inr (stop, s1) \<Rightarrow> if stop then Some (Inr (True, s1)) else Some (funcToInvoke n 1 s1)))"

section \<open>Destruction\<close>

definition destroy_node :: "nat \<Rightarrow> loop_forest \<Rightarrow> loop_forest res" where
  "destroy_node n F =
     andThen (get_node n F) (\<lambda>r.
     andThen (case fn_parent r of
                Some p \<Rightarrow>
                  andThen (get_node p F) (\<lambda>rp.
                    check (n \<in> set (fn_descendants rp)) AssertFailed
                    (foldE (\<lambda>child F.
                        andThen (change_node child (\<lambda>rc. rc\<lparr>fn_parent := Some p\<rparr>) F)
                          (change_node p (\<lambda>rp. rp\<lparr>fn_descendants := uset_insert child (fn_descendants rp)\<rparr>)))
                      (fn_descendants r)
                      (put_node p (rp\<lparr>fn_descendants := uset_erase n (fn_descendants rp)\<rparr>) F)))
              | None \<Rightarrow>
                  andThen (removeTree n F)
                    (foldE (\<lambda>child F. andThen (change_node child (\<lambda>rc. rc\<lparr>fn_parent := None\<rparr>) F) (addTree child))
                       (fn_descendants r)))
       (\<lambda>F1. Inr (F1\<lparr>fr_mem := (fr_mem F1)(n := None)\<rparr>)))"

definition destroy_forest :: "loop_forest \<Rightarrow> loop_forest res" where
  "destroy_forest F = foldE (\<lambda>(_, n) F. destroy_node n F) (fr_nodes F) F"

section \<open>Filtering the loops of a forest\<close>

text \<open>\<open>Noelle::filterOutLoops\<close> (\<open>core/noelle/src/Noelle_loops.cpp\<close>): the trees are visited and the nodes of the loops that the
  filter selects collected; then these nodes are deleted one after the other.\<close>

definition collect_filtered :: "(nat \<Rightarrow> bool) \<Rightarrow> loop_forest \<Rightarrow> nat \<Rightarrow> 32 word \<Rightarrow> nat list \<Rightarrow> (bool \<times> nat list) res" where
  "collect_filtered select F n l toDelete =
     andThen (get_node n F) (\<lambda>r. Inr (False, if select (fn_loop r) then toDelete @ [n] else toDelete))"

fun collect_trees :: "(nat \<Rightarrow> bool) \<Rightarrow> loop_forest \<Rightarrow> nat list \<Rightarrow> nat list \<Rightarrow> nat list res option" where
  "collect_trees select F [] toDelete = Some (Inr toDelete)"
| "collect_trees select F (t # ts) toDelete =
     Option.bind (visitPreOrder (collect_filtered select F) F t toDelete) (\<lambda>res.
       case res of Inl e \<Rightarrow> Some (Inl e) | Inr (_, toDelete1) \<Rightarrow> collect_trees select F ts toDelete1)"

definition filterOutLoops :: "(nat \<Rightarrow> bool) \<Rightarrow> loop_forest \<Rightarrow> loop_forest res option" where
  "filterOutLoops select F =
     Option.bind (collect_trees select F (fr_trees F) []) (\<lambda>res.
       case res of Inl e \<Rightarrow> Some (Inl e) | Inr toDelete \<Rightarrow> Some (foldE destroy_node toDelete F))"

end
