(* ===== verification/LoopForestCorrect.thy ===== *)
theory LoopForestCorrect
  imports LoopForest
begin

text \<open>
  Correctness of the forest of loops: its invariant, the visits, and the deletion of nodes, which splices the children of
  a deleted node into its parent.
\<close>

section \<open>The invariant\<close>

definition fo_edges :: "loop_forest \<Rightarrow> (nat \<times> nat) set" where
  "fo_edges F = {(p, c). \<exists>r. fr_mem F c = Some r \<and> fn_parent r = Some p}"

text \<open>Parents and descendants agree, the trees are the nodes without a parent, and no node is below itself.\<close>

definition fo_wf :: "loop_forest \<Rightarrow> bool" where
  "fo_wf F \<longleftrightarrow> finite (dom (fr_mem F)) \<and> acyclic (fo_edges F) \<and> distinct (fr_trees F) \<and>
     set (fr_trees F) = {n. \<exists>r. fr_mem F n = Some r \<and> fn_parent r = None} \<and>
     (\<forall>n r. fr_mem F n = Some r \<longrightarrow> distinct (fn_descendants r) \<and> set (fn_descendants r) = fo_edges F `` {n} \<and>
        set_option (fn_parent r) \<subseteq> dom (fr_mem F))"

lemma fo_wfD:
  assumes "fo_wf F"
  shows "finite (dom (fr_mem F))" "acyclic (fo_edges F)" "distinct (fr_trees F)"
    and "set (fr_trees F) = {n. \<exists>r. fr_mem F n = Some r \<and> fn_parent r = None}"
    and "fr_mem F n = Some r \<Longrightarrow> distinct (fn_descendants r)"
    and "fr_mem F n = Some r \<Longrightarrow> set (fn_descendants r) = fo_edges F `` {n}"
    and "fr_mem F n = Some r \<Longrightarrow> fn_parent r = Some p \<Longrightarrow> p \<in> dom (fr_mem F)"
proof -
  assume *: "fr_mem F n = Some r" and p: "fn_parent r = Some p"
  from assms * have "set_option (fn_parent r) \<subseteq> dom (fr_mem F)" unfolding fo_wf_def by blast
  with p show "p \<in> dom (fr_mem F)" by simp
qed (use assms in \<open>auto simp: fo_wf_def\<close>)

lemma fo_edges_unique: "(a, c) \<in> fo_edges F \<Longrightarrow> (b, c) \<in> fo_edges F \<Longrightarrow> a = b"
  by (auto simp: fo_edges_def)

lemma fo_edges_live:
  assumes "fo_wf F" and "(a, b) \<in> fo_edges F"
  shows "a \<in> dom (fr_mem F)" "b \<in> dom (fr_mem F)"
  using assms(2) fo_wfD(7) [OF assms(1), of b] by (auto simp: fo_edges_def)

lemma fo_edges_wf:
  assumes "fo_wf F"
  shows "wf ((fo_edges F)\<inverse>)" "wf (fo_edges F)"
proof -
  have "fo_edges F \<subseteq> dom (fr_mem F) \<times> dom (fr_mem F)"
  proof
    fix e assume "e \<in> fo_edges F"
    then show "e \<in> dom (fr_mem F) \<times> dom (fr_mem F)"
      using fo_edges_live [OF assms, of "fst e" "snd e"] by (simp add: mem_Times_iff)
  qed
  then have fin: "finite (fo_edges F)"
    using fo_wfD(1) [OF assms] by (rule finite_subset [OF _ finite_cartesian_product]) (rule fo_wfD(1) [OF assms])
  show "wf ((fo_edges F)\<inverse>)" using fin fo_wfD(2) [OF assms] by (rule finite_acyclic_wf_converse)
  show "wf (fo_edges F)" using fin fo_wfD(2) [OF assms] by (rule finite_acyclic_wf)
qed

lemma fo_siblings:
  assumes wf: "fo_wf F" and c: "(n, c) \<in> fo_edges F" "(n, d) \<in> fo_edges F" "c \<noteq> d"
  shows "(fo_edges F)\<^sup>* `` {c} \<inter> (fo_edges F)\<^sup>* `` {d} = {}"
proof -
  let ?E = "fo_edges F"
  have chain: "(a, b) \<in> ?E\<^sup>* \<or> (b, a) \<in> ?E\<^sup>*" if "(a, x) \<in> ?E\<^sup>*" "(b, x) \<in> ?E\<^sup>*" for a b x
    using that(1) that(2)
  proof (induction arbitrary: b rule: rtrancl_induct)
    case (step y z)
    from step.prems show ?case
    proof (cases rule: rtranclE)
      case base
      have "(a, z) \<in> ?E\<^sup>*" using step.hyps by (rule rtrancl_into_rtrancl)
      with base show ?thesis by simp
    next
      case (step w)
      then have "w = y" using fo_edges_unique \<open>(y, z) \<in> ?E\<close> by blast
      with step show ?thesis using step.IH by blast
    qed
  qed simp
  have no: "(a, b) \<notin> ?E\<^sup>*" if "(n, a) \<in> ?E" "(n, b) \<in> ?E" "a \<noteq> b" for a b
  proof
    assume "(a, b) \<in> ?E\<^sup>*"
    with that(3) obtain w where w: "(a, w) \<in> ?E\<^sup>*" "(w, b) \<in> ?E" by (metis rtranclE)
    with fo_edges_unique that(2) have "w = n" by blast
    with w(1) that(1) have "(n, n) \<in> ?E\<^sup>+" by (auto intro: rtrancl_into_trancl2)
    with fo_wfD(2) [OF wf] show False by (auto simp: acyclic_def)
  qed
  show ?thesis using chain [of c _ d] no [OF c] no [OF c(2,1)] c(3) by blast
qed

lemma fo_roots:
  assumes wf: "fo_wf F" and n: "n \<in> dom (fr_mem F)"
  shows "\<exists>t \<in> set (fr_trees F). (t, n) \<in> (fo_edges F)\<^sup>*"
  using fo_edges_wf(2) [OF wf] n
proof (induction n rule: wf_induct_rule)
  case (less n)
  then obtain r where r: "fr_mem F n = Some r" by auto
  show ?case
  proof (cases "fn_parent r")
    case None
    with r have "n \<in> set (fr_trees F)" using fo_wfD(4) [OF wf] by simp
    then show ?thesis by blast
  next
    case (Some p)
    with r have e: "(p, n) \<in> fo_edges F" by (simp add: fo_edges_def)
    from less.IH [OF e] fo_edges_live(1) [OF wf e] show ?thesis using e by (meson rtrancl_into_rtrancl)
  qed
qed

lemma fo_roots_disjoint:
  assumes wf: "fo_wf F" and t: "t \<in> set (fr_trees F)" "u \<in> set (fr_trees F)" "t \<noteq> u"
  shows "(fo_edges F)\<^sup>* `` {t} \<inter> (fo_edges F)\<^sup>* `` {u} = {}"
proof -
  let ?E = "fo_edges F"
  have root: "(a, k) \<notin> ?E" if "k \<in> set (fr_trees F)" for a k
    using that fo_wfD(4) [OF wf] by (auto simp: fo_edges_def)
  have "x \<noteq> y" if "(t, x) \<in> ?E\<^sup>*" "(u, y) \<in> ?E\<^sup>*" for x y
    using that
  proof (induction arbitrary: y rule: rtrancl_induct)
    case base
    then show ?case using root [OF t(1)] t(3) by (auto elim: rtranclE)
  next
    case (step x z)
    show ?case
    proof
      assume "z = y"
      with step.prems have "(u, z) \<in> ?E\<^sup>*" by simp
      then show False
      proof (cases rule: rtranclE)
        case base
        then show ?thesis using root [OF t(2)] step.hyps(2) by blast
      next
        case (step w)
        then have "w = x" using fo_edges_unique \<open>(x, z) \<in> ?E\<close> by blast
        with step.IH [of w] step(1) show ?thesis by simp
      qed
    qed
  qed
  then show ?thesis by blast
qed

section \<open>Visits\<close>

text \<open>A callback that neither stops nor fails is called once on every node of the tree.\<close>

lemma visit_level_Nil: "visit_level f F [] l s = Some (Inr (False, s))"
  by (subst visit_level.simps) simp

lemma visit_level_node:
  assumes wf: "fo_wf F" and n: "n \<in> dom (fr_mem F)"
    and f: "\<And>n l s. n \<in> dom (fr_mem F) \<Longrightarrow> f n l s = Inr (False, g n s)"
  shows "\<exists>xs. distinct xs \<and> set xs = (fo_edges F)\<^sup>* `` {n} \<and>
    (\<forall>rest l s. visit_level f F (n # rest) l s = visit_level f F rest l (fold g xs s))"
  using fo_edges_wf(1) [OF wf] n
proof (induction n rule: wf_induct_rule)
  case (less n)
  let ?E = "fo_edges F"
  obtain r where r: "fr_mem F n = Some r" using less.prems by auto
  let ?cs = "fn_descendants r"
  have cs: "set ?cs = ?E `` {n}" "distinct ?cs" using fo_wfD(5,6) [OF wf r] by auto
  have "\<forall>c \<in> set ?cs. \<exists>xs. distinct xs \<and> set xs = ?E\<^sup>* `` {c} \<and>
    (\<forall>rest l s. visit_level f F (c # rest) l s = visit_level f F rest l (fold g xs s))"
  proof
    fix c assume "c \<in> set ?cs"
    then have "(n, c) \<in> ?E" using cs(1) by simp
    with less.IH [of c] fo_edges_live(2) [OF wf this] show "\<exists>xs. distinct xs \<and> set xs = ?E\<^sup>* `` {c} \<and>
    (\<forall>rest l s. visit_level f F (c # rest) l s = visit_level f F rest l (fold g xs s))" by simp
  qed
  from bchoice [OF this] obtain X where "\<forall>c \<in> set ?cs. distinct (X c) \<and> set (X c) = ?E\<^sup>* `` {c} \<and>
    (\<forall>rest l s. visit_level f F (c # rest) l s = visit_level f F rest l (fold g (X c) s))"
    by (elim exE) (rule that)
  then have X: "\<And>c. c \<in> set ?cs \<Longrightarrow> distinct (X c)" "\<And>c. c \<in> set ?cs \<Longrightarrow> set (X c) = ?E\<^sup>* `` {c}"
    "\<And>c rest l s. c \<in> set ?cs \<Longrightarrow> visit_level f F (c # rest) l s = visit_level f F rest l (fold g (X c) s)"
    by simp_all
  have all: "visit_level f F ds l s = Some (Inr (False, fold g (concat (map X ds)) s))" if "set ds \<subseteq> set ?cs" for ds l s
    using that by (induction ds arbitrary: s) (auto simp: visit_level_Nil X(3))
  let ?xs = "n # concat (map X ?cs)"
  have sub: "?E\<^sup>* `` {n} = insert n (\<Union>c \<in> ?E `` {n}. ?E\<^sup>* `` {c})"
    by (auto elim: converse_rtranclE intro: converse_rtrancl_into_rtrancl)
  have "n \<notin> ?E\<^sup>* `` {c}" if "(n, c) \<in> ?E" for c
    using that fo_wfD(2) [OF wf] by (auto simp: acyclic_def dest: rtrancl_into_trancl2)
  moreover have "distinct (concat (map X ?cs))"
  proof (rule distinct_concat_map)
    show "distinct ?cs" and "\<And>c. c \<in> set ?cs \<Longrightarrow> distinct (X c)" by (fact cs(2), fact X(1))
    fix c d e assume cd: "c \<in> set ?cs" "d \<in> set ?cs" and e: "e \<in> set (X c)" "e \<in> set (X d)"
    show "c = d"
    proof (rule ccontr)
      assume "c \<noteq> d"
      with cd cs(1) have "?E\<^sup>* `` {c} \<inter> ?E\<^sup>* `` {d} = {}" by (intro fo_siblings [OF wf, of n]) simp_all
      with e X(2) [OF cd(1)] X(2) [OF cd(2)] show False by blast
    qed
  qed
  ultimately have "distinct ?xs" "set ?xs = ?E\<^sup>* `` {n}" using X(2) cs(1) unfolding sub by auto
  moreover have "visit_level f F (n # rest) l s = visit_level f F rest l (fold g ?xs s)" for rest l s
    by (subst visit_level.simps) (simp add: r f [OF less.prems] all)
  ultimately show ?case by blast
qed

lemma visitPreOrder_ok:
  assumes wf: "fo_wf F" and n: "n \<in> dom (fr_mem F)"
    and f: "\<And>n l s. n \<in> dom (fr_mem F) \<Longrightarrow> f n l s = Inr (False, g n s)"
  shows "\<exists>xs. distinct xs \<and> set xs = (fo_edges F)\<^sup>* `` {n} \<and> (\<forall>s. visitPreOrder f F n s = Some (Inr (False, fold g xs s)))"
proof -
  have "\<exists>xs. distinct xs \<and> set xs = (fo_edges F)\<^sup>* `` {n} \<and>
    (\<forall>rest l s. visit_level f F (n # rest) l s = visit_level f F rest l (fold g xs s))"
    by (rule visit_level_node [OF wf n]) (rule f)
  then obtain xs where xs: "distinct xs" "set xs = (fo_edges F)\<^sup>* `` {n}"
    and v: "\<forall>rest l s. visit_level f F (n # rest) l s = visit_level f F rest l (fold g xs s)"
    by (elim exE conjE) (rule that)
  show ?thesis
  proof (intro exI conjI allI)
    show "visitPreOrder f F n s = Some (Inr (False, fold g xs s))" for s
      by (simp add: visitPreOrder_def v visit_level_Nil)
  qed (fact xs)+
qed

section \<open>Deleting a node\<close>

text \<open>The children of the deleted node become children of its parent, or trees.\<close>

definition splice :: "'a \<Rightarrow> ('a \<times> 'a) set \<Rightarrow> ('a \<times> 'a) set" where
  "splice n R = {(a, b). a \<noteq> n \<and> b \<noteq> n \<and> ((a, b) \<in> R \<or> (a, n) \<in> R \<and> (n, b) \<in> R)}"

lemma splice_subset: "(splice n R)\<^sup>+ \<subseteq> R\<^sup>+"
proof -
  have "splice n R \<subseteq> R\<^sup>+" by (auto simp: splice_def)
  then show ?thesis by (metis trancl_subset_trancl)
qed

lemma splice_avoids: "(a, b) \<in> (splice n R)\<^sup>+ \<Longrightarrow> a \<noteq> n \<and> b \<noteq> n"
  by (auto simp: splice_def elim: converse_tranclE tranclE)

lemma splice_path:
  assumes "(a, b) \<in> R\<^sup>+" and "a \<noteq> n"
  shows "if b = n then \<exists>q. (q, n) \<in> R \<and> q \<noteq> n \<and> (a, q) \<in> (splice n R)\<^sup>* else (a, b) \<in> (splice n R)\<^sup>+"
  using assms(1)
proof (induction rule: trancl_induct)
  case (base b)
  then show ?case using assms(2) by (auto simp: splice_def)
next
  case (step b c)
  show ?case
  proof (cases "b = n")
    case True
    with step.IH obtain q where q: "(q, n) \<in> R" "q \<noteq> n" "(a, q) \<in> (splice n R)\<^sup>*" by auto
    then have "(q, c) \<in> splice n R" if "c \<noteq> n" using True step.hyps(2) that by (auto simp: splice_def)
    with q show ?thesis by (auto intro: rtrancl_into_trancl1)
  next
    case False
    with step.IH have ab: "(a, b) \<in> (splice n R)\<^sup>+" by simp
    show ?thesis
    proof (cases "c = n")
      case True
      with step.hyps(2) False ab show ?thesis by (auto intro: trancl_into_rtrancl)
    next
      case c: False
      with False step.hyps(2) have "(b, c) \<in> splice n R" by (simp add: splice_def)
      with ab c show ?thesis by (simp add: trancl_into_trancl)
    qed
  qed
qed

lemma trancl_splice: "(splice n R)\<^sup>+ = {(a, b) \<in> R\<^sup>+. a \<noteq> n \<and> b \<noteq> n}"
proof (intro set_eqI iffI)
  fix e assume "e \<in> (splice n R)\<^sup>+"
  then show "e \<in> {(a, b) \<in> R\<^sup>+. a \<noteq> n \<and> b \<noteq> n}"
    using splice_subset [of n R] splice_avoids [of "fst e" "snd e" n R] by (cases e) auto
next
  fix e assume "e \<in> {(a, b) \<in> R\<^sup>+. a \<noteq> n \<and> b \<noteq> n}"
  then show "e \<in> (splice n R)\<^sup>+" using splice_path [of "fst e" "snd e" R n] by (cases e) simp
qed

text \<open>\<open>F'\<close> is \<open>F\<close> without the node \<open>n\<close>, whose fields were \<open>rn\<close>.\<close>

definition spliced :: "nat \<Rightarrow> forest_node \<Rightarrow> loop_forest \<Rightarrow> loop_forest \<Rightarrow> bool" where
  "spliced n rn F F' \<longleftrightarrow> dom (fr_mem F') = dom (fr_mem F) - {n} \<and> fr_nodes F' = fr_nodes F \<and> distinct (fr_trees F') \<and>
     set (fr_trees F') = set (fr_trees F) - {n} \<union> (if fn_parent rn = None then set (fn_descendants rn) else {}) \<and>
     (\<forall>m r'. fr_mem F' m = Some r' \<longrightarrow> (\<exists>r. fr_mem F m = Some r \<and> fn_loop r' = fn_loop r \<and>
        fn_parent r' = (if fn_parent r = Some n then fn_parent rn else fn_parent r) \<and> distinct (fn_descendants r') \<and>
        set (fn_descendants r') = set (fn_descendants r) - {n} \<union>
          (if n \<in> set (fn_descendants r) then set (fn_descendants rn) else {})))"

lemma splicedD:
  assumes "spliced n rn F F'"
  shows "dom (fr_mem F') = dom (fr_mem F) - {n}" "fr_nodes F' = fr_nodes F" "distinct (fr_trees F')"
    and "set (fr_trees F') = set (fr_trees F) - {n} \<union> (if fn_parent rn = None then set (fn_descendants rn) else {})"
  using assms by (auto simp: spliced_def)

lemma spliced_node:
  assumes "spliced n rn F F'" and "fr_mem F m = Some r" and "m \<noteq> n"
  shows "\<exists>r'. fr_mem F' m = Some r' \<and> fn_loop r' = fn_loop r \<and>
        fn_parent r' = (if fn_parent r = Some n then fn_parent rn else fn_parent r) \<and> distinct (fn_descendants r') \<and>
        set (fn_descendants r') = set (fn_descendants r) - {n} \<union>
          (if n \<in> set (fn_descendants r) then set (fn_descendants rn) else {})"
proof -
  have "m \<in> dom (fr_mem F')" using splicedD(1) [OF assms(1)] assms(2,3) by auto
  then obtain r' where r': "fr_mem F' m = Some r'" by auto
  with assms(1) have "\<exists>r. fr_mem F m = Some r \<and> fn_loop r' = fn_loop r \<and>
        fn_parent r' = (if fn_parent r = Some n then fn_parent rn else fn_parent r) \<and> distinct (fn_descendants r') \<and>
        set (fn_descendants r') = set (fn_descendants r) - {n} \<union>
          (if n \<in> set (fn_descendants r) then set (fn_descendants rn) else {})"
    unfolding spliced_def by blast
  with assms(2) r' show ?thesis by simp
qed

lemma spliced_edges:
  assumes wf: "fo_wf F" and n: "fr_mem F n = Some rn" and s: "spliced n rn F F'"
  shows "fo_edges F' = splice n (fo_edges F)"
proof (intro set_eqI)
  have self: "fn_parent rn \<noteq> Some n"
  proof
    assume "fn_parent rn = Some n"
    with n have "(n, n) \<in> fo_edges F" by (simp add: fo_edges_def)
    with fo_wfD(2) [OF wf] show False by (auto simp: acyclic_def)
  qed
  fix e :: "nat \<times> nat"
  obtain a b where e: "e = (a, b)" by (cases e)
  show "e \<in> fo_edges F' \<longleftrightarrow> e \<in> splice n (fo_edges F)"
  proof (cases "fr_mem F b")
    case None
    then have "fr_mem F' b = None" using splicedD(1) [OF s] by auto
    with None show ?thesis by (simp add: e fo_edges_def splice_def)
  next
    case (Some r)
    show ?thesis
    proof (cases "b = n")
      case True
      then have "fr_mem F' b = None" using splicedD(1) [OF s] by auto
      with True show ?thesis by (simp add: e fo_edges_def splice_def)
    next
      case False
      from spliced_node [OF s Some False] obtain r' where r': "fr_mem F' b = Some r'"
        "fn_parent r' = (if fn_parent r = Some n then fn_parent rn else fn_parent r)" by (elim exE conjE) (rule that)
      with Some False self n show ?thesis by (auto simp: e fo_edges_def splice_def)
    qed
  qed
qed

lemma spliced_wf:
  assumes wf: "fo_wf F" and n: "fr_mem F n = Some rn" and s: "spliced n rn F F'"
  shows "fo_wf F'"
proof -
  have E: "fo_edges F' = splice n (fo_edges F)" by (rule spliced_edges [OF assms])
  have fin: "finite (dom (fr_mem F'))" using fo_wfD(1) [OF wf] splicedD(1) [OF s] by simp
  have acyc: "acyclic (fo_edges F')"
    using fo_wfD(2) [OF wf] splice_subset [of n "fo_edges F"] by (auto simp: acyclic_def E)
  have parent: "p \<noteq> n \<and> p \<in> dom (fr_mem F)" if "fn_parent rn = Some p" for p
  proof -
    have e: "(p, n) \<in> fo_edges F" using that n by (simp add: fo_edges_def)
    then show ?thesis using fo_wfD(2) [OF wf] fo_edges_live(1) [OF wf e] by (auto simp: acyclic_def)
  qed
  have nodes: "distinct (fn_descendants r') \<and> set (fn_descendants r') = fo_edges F' `` {m} \<and>
        set_option (fn_parent r') \<subseteq> dom (fr_mem F')" if m: "fr_mem F' m = Some r'" for m r'
  proof -
    have "m \<in> dom (fr_mem F) - {n}" using m splicedD(1) [OF s] by auto
    then obtain r where r: "fr_mem F m = Some r" "m \<noteq> n" by auto
    from spliced_node [OF s r] m have p: "fn_parent r' = (if fn_parent r = Some n then fn_parent rn else fn_parent r)"
      and d: "distinct (fn_descendants r')" and ds: "set (fn_descendants r') = set (fn_descendants r) - {n} \<union>
          (if n \<in> set (fn_descendants r) then set (fn_descendants rn) else {})" by simp_all
    have nn: "n \<notin> set (fn_descendants rn)" using fo_wfD(2) [OF wf] fo_wfD(6) [OF wf n] by (auto simp: acyclic_def)
    have "set (fn_descendants r') = fo_edges F' `` {m}"
      using ds r(2) nn by (auto simp: E splice_def fo_wfD(6) [OF wf r(1)] fo_wfD(6) [OF wf n] split: if_splits)
    moreover have "q \<in> dom (fr_mem F')" if "fn_parent r' = Some q" for q
      using that p parent [of q] fo_wfD(7) [OF wf r(1), of q] splicedD(1) [OF s] by (auto split: if_splits)
    then have "set_option (fn_parent r') \<subseteq> dom (fr_mem F')" by (cases "fn_parent r'") simp_all
    ultimately show ?thesis using d by simp
  qed
  have trees: "set (fr_trees F') = {m. \<exists>r'. fr_mem F' m = Some r' \<and> fn_parent r' = None}"
  proof (intro set_eqI)
    fix m
    show "m \<in> set (fr_trees F') \<longleftrightarrow> m \<in> {m. \<exists>r'. fr_mem F' m = Some r' \<and> fn_parent r' = None}"
    proof (cases "m \<in> dom (fr_mem F) - {n}")
      case True
      then obtain r where r: "fr_mem F m = Some r" "m \<noteq> n" by auto
      from spliced_node [OF s r] obtain r' where r': "fr_mem F' m = Some r'"
        "fn_parent r' = (if fn_parent r = Some n then fn_parent rn else fn_parent r)" by (elim exE conjE) (rule that)
      have c: "m \<in> set (fn_descendants rn) \<longleftrightarrow> fn_parent r = Some n"
        using r(1) by (simp add: fo_wfD(6) [OF wf n] fo_edges_def)
      have t: "m \<in> set (fr_trees F) \<longleftrightarrow> fn_parent r = None" using r(1) by (simp add: fo_wfD(4) [OF wf])
      show ?thesis using r' r(2) c t by (auto simp: splicedD(4) [OF s])
    next
      case False
      then have "fr_mem F' m = None" using splicedD(1) [OF s] by auto
      moreover have "m \<notin> set (fr_trees F) - {n}" using False by (auto simp: fo_wfD(4) [OF wf])
      moreover have "m \<notin> set (fn_descendants rn)"
      proof
        assume "m \<in> set (fn_descendants rn)"
        then have e: "(n, m) \<in> fo_edges F" by (simp add: fo_wfD(6) [OF wf n])
        with fo_edges_live(2) [OF wf e] False have "m = n" by simp
        with e fo_wfD(2) [OF wf] show False by (auto simp: acyclic_def)
      qed
      ultimately show ?thesis by (simp add: splicedD(4) [OF s])
    qed
  qed
  show ?thesis unfolding fo_wf_def using fin acyc splicedD(3) [OF s] trees nodes by blast
qed

lemma get_node_Some [simp]: "fr_mem F n = Some r \<Longrightarrow> get_node n F = Inr r"
  by (simp add: get_node_def)

text \<open>The loop of the destructor over the children, for a node with a parent and for a tree.\<close>

definition adopted :: "nat \<Rightarrow> nat list \<Rightarrow> nat list \<Rightarrow> loop_forest \<Rightarrow> loop_forest" where
  "adopted p ds xs F = F\<lparr>fr_mem := (\<lambda>m. if m = p then map_option (\<lambda>r. r\<lparr>fn_descendants := ds @ xs\<rparr>) (fr_mem F p)
     else if m \<in> set xs then map_option (\<lambda>r. r\<lparr>fn_parent := Some p\<rparr>) (fr_mem F m) else fr_mem F m)\<rparr>"

definition uprooted :: "nat list \<Rightarrow> nat list \<Rightarrow> loop_forest \<Rightarrow> loop_forest" where
  "uprooted ts xs F = F\<lparr>fr_mem := (\<lambda>m. if m \<in> set xs then map_option (\<lambda>r. r\<lparr>fn_parent := None\<rparr>) (fr_mem F m) else fr_mem F m),
     fr_trees := ts @ xs\<rparr>"

lemma adopt_loop:
  assumes "p \<in> dom (fr_mem F)" and "distinct (xs @ ys)" and "set (xs @ ys) \<subseteq> dom (fr_mem F)" and "p \<notin> set (xs @ ys)"
    and "set ds \<inter> set (xs @ ys) = {}"
  shows "foldE (\<lambda>child F. andThen (change_node child (\<lambda>rc. rc\<lparr>fn_parent := Some p\<rparr>) F)
            (change_node p (\<lambda>rp. rp\<lparr>fn_descendants := uset_insert child (fn_descendants rp)\<rparr>))) ys (adopted p ds xs F) =
         Inr (adopted p ds (xs @ ys) F)"
  using assms
proof (induction ys arbitrary: xs)
  case (Cons y ys)
  obtain rp where rp: "fr_mem F p = Some rp" using Cons.prems(1) by auto
  obtain ry where ry: "fr_mem F y = Some ry" using Cons.prems(3) by auto
  have "p \<noteq> y" "y \<notin> set xs" "y \<notin> set ds" using Cons.prems by auto
  with rp ry have step: "andThen (change_node y (\<lambda>rc. rc\<lparr>fn_parent := Some p\<rparr>) (adopted p ds xs F))
            (change_node p (\<lambda>rp. rp\<lparr>fn_descendants := uset_insert y (fn_descendants rp)\<rparr>)) = Inr (adopted p ds (xs @ [y]) F)"
    using Cons.prems(4) by (auto simp: change_node_def get_node_def put_node_def adopted_def uset_insert_def fun_eq_iff)
  have "foldE (\<lambda>child F. andThen (change_node child (\<lambda>rc. rc\<lparr>fn_parent := Some p\<rparr>) F)
            (change_node p (\<lambda>rp. rp\<lparr>fn_descendants := uset_insert child (fn_descendants rp)\<rparr>))) ys (adopted p ds (xs @ [y]) F) =
         Inr (adopted p ds ((xs @ [y]) @ ys) F)"
    by (rule Cons.IH) (use Cons.prems in auto)
  then show ?case by (simp add: step)
qed simp

lemma uproot_loop:
  assumes "distinct (xs @ ys)" and "set (xs @ ys) \<subseteq> dom (fr_mem F)" and "set ts \<inter> set (xs @ ys) = {}"
  shows "foldE (\<lambda>child F. andThen (change_node child (\<lambda>rc. rc\<lparr>fn_parent := None\<rparr>) F) (addTree child)) ys (uprooted ts xs F) =
         Inr (uprooted ts (xs @ ys) F)"
  using assms
proof (induction ys arbitrary: xs)
  case (Cons y ys)
  obtain ry where ry: "fr_mem F y = Some ry" using Cons.prems(2) by auto
  have "y \<notin> set xs" "y \<notin> set ts" using Cons.prems by auto
  with ry have step: "andThen (change_node y (\<lambda>rc. rc\<lparr>fn_parent := None\<rparr>) (uprooted ts xs F)) (addTree y) =
      Inr (uprooted ts (xs @ [y]) F)"
    by (auto simp: change_node_def get_node_def put_node_def addTree_def uprooted_def uset_insert_def fun_eq_iff)
  have "foldE (\<lambda>child F. andThen (change_node child (\<lambda>rc. rc\<lparr>fn_parent := None\<rparr>) F) (addTree child)) ys (uprooted ts (xs @ [y]) F) =
         Inr (uprooted ts ((xs @ [y]) @ ys) F)"
    by (rule Cons.IH) (use Cons.prems in auto)
  then show ?case by (simp add: step)
qed simp

lemma destroy_node_spliced:
  assumes wf: "fo_wf F" and n: "fr_mem F n = Some rn"
  shows "\<exists>F'. destroy_node n F = Inr F' \<and> spliced n rn F F'"
proof (cases "fn_parent rn")
  case None
  let ?cs = "fn_descendants rn"
  have t: "n \<in> set (fr_trees F)" using n None by (simp add: fo_wfD(4) [OF wf])
  have sub: "set ?cs \<subseteq> dom (fr_mem F)" using fo_edges_live(2) [OF wf] by (auto simp: fo_wfD(6) [OF wf n])
  have nt: "set (uset_erase n (fr_trees F)) \<inter> set ?cs = {}"
    by (auto simp: fo_wfD(4) [OF wf] fo_wfD(6) [OF wf n] fo_edges_def)
  have nn: "n \<notin> set ?cs" using fo_wfD(2) [OF wf] by (auto simp: fo_wfD(6) [OF wf n] acyclic_def)
  let ?F1 = "uprooted (uset_erase n (fr_trees F)) ?cs F" let ?F2 = "?F1\<lparr>fr_mem := (fr_mem ?F1)(n := None)\<rparr>"
  have start: "F\<lparr>fr_trees := uset_erase n (fr_trees F)\<rparr> = uprooted (uset_erase n (fr_trees F)) [] F"
    by (simp add: uprooted_def)
  have "removeTree n F = Inr (uprooted (uset_erase n (fr_trees F)) [] F)"
    using t fo_wfD(3) [OF wf] by (simp add: removeTree_def Let_def start [symmetric])
  then have run: "destroy_node n F = Inr ?F2"
    using uproot_loop [of "[]" ?cs F "uset_erase n (fr_trees F)"] fo_wfD(5) [OF wf n] sub nt
    by (simp add: destroy_node_def n None)
  have "spliced n rn F ?F2"
    unfolding spliced_def
  proof (intro conjI allI impI)
    show "dom (fr_mem ?F2) = dom (fr_mem F) - {n}" using sub by (auto simp: uprooted_def split: if_splits)
    show "distinct (fr_trees ?F2)" using fo_wfD(3) [OF wf] fo_wfD(5) [OF wf n] nt by (simp add: uprooted_def distinct_uset_erase)
    fix m r' assume "fr_mem ?F2 m = Some r'"
    then obtain r where r: "fr_mem F m = Some r" "m \<noteq> n" "r' = (if m \<in> set ?cs then r\<lparr>fn_parent := None\<rparr> else r)"
      by (auto simp: uprooted_def split: if_splits)
    have "m \<in> set ?cs \<longleftrightarrow> fn_parent r = Some n" using r(1) by (simp add: fo_wfD(6) [OF wf n] fo_edges_def)
    moreover have "n \<notin> set (fn_descendants r)" using n None by (simp add: fo_wfD(6) [OF wf r(1)] fo_edges_def)
    ultimately show "\<exists>r. fr_mem F m = Some r \<and> fn_loop r' = fn_loop r \<and>
        fn_parent r' = (if fn_parent r = Some n then fn_parent rn else fn_parent r) \<and> distinct (fn_descendants r') \<and>
        set (fn_descendants r') = set (fn_descendants r) - {n} \<union>
          (if n \<in> set (fn_descendants r) then set (fn_descendants rn) else {})"
      using r fo_wfD(5) [OF wf r(1)] None by simp
  qed (simp_all add: uprooted_def None)
  with run show ?thesis by blast
next
  case (Some p)
  let ?cs = "fn_descendants rn"
  have pn: "(p, n) \<in> fo_edges F" using n Some by (simp add: fo_edges_def)
  have ac: "(a, a) \<notin> (fo_edges F)\<^sup>+" for a using fo_wfD(2) [OF wf] by (simp add: acyclic_def)
  obtain rp where rp: "fr_mem F p = Some rp" using fo_edges_live(1) [OF wf pn] by auto
  have np: "p \<noteq> n" using pn ac by auto
  have sub: "set ?cs \<subseteq> dom (fr_mem F)" using fo_edges_live(2) [OF wf] by (auto simp: fo_wfD(6) [OF wf n])
  have nn: "n \<notin> set ?cs" using ac by (auto simp: fo_wfD(6) [OF wf n])
  have pc: "p \<notin> set ?cs"
  proof
    assume "p \<in> set ?cs"
    then have "(n, p) \<in> fo_edges F" by (simp add: fo_wfD(6) [OF wf n])
    with pn ac [of n] show False by (blast intro: trancl_into_trancl)
  qed
  let ?ds = "uset_erase n (fn_descendants rp)"
  have dc: "set ?ds \<inter> set ?cs = {}"
    using np by (auto simp: fo_wfD(6) [OF wf n] fo_wfD(6) [OF wf rp] fo_edges_def)
  have np': "n \<in> set (fn_descendants rp)" using pn by (simp add: fo_wfD(6) [OF wf rp])
  have start: "put_node p (rp\<lparr>fn_descendants := ?ds\<rparr>) F = adopted p ?ds [] F"
    unfolding put_node_def adopted_def by (rule arg_cong [where f = "\<lambda>h. F\<lparr>fr_mem := h\<rparr>"]) (auto simp: rp)
  let ?F1 = "adopted p ?ds ?cs F" let ?F2 = "?F1\<lparr>fr_mem := (fr_mem ?F1)(n := None)\<rparr>"
  have run: "destroy_node n F = Inr ?F2"
    using adopt_loop [of p F "[]" ?cs ?ds] fo_wfD(5) [OF wf n] sub pc dc rp np'
    by (simp add: destroy_node_def n Some start domI)
  have "spliced n rn F ?F2"
    unfolding spliced_def
  proof (intro conjI allI impI)
    show "dom (fr_mem ?F2) = dom (fr_mem F) - {n}" using sub rp by (auto simp: adopted_def split: if_splits)
    show "distinct (fr_trees ?F2)" using fo_wfD(3) [OF wf] by (simp add: adopted_def)
    have "n \<notin> set (fr_trees F)" using n Some by (simp add: fo_wfD(4) [OF wf])
    then show "set (fr_trees ?F2) = set (fr_trees F) - {n} \<union> (if fn_parent rn = None then set ?cs else {})"
      by (simp add: adopted_def Some)
    fix m r' assume "fr_mem ?F2 m = Some r'"
    then obtain r where r: "fr_mem F m = Some r" "m \<noteq> n"
      "r' = (if m = p then r\<lparr>fn_descendants := ?ds @ ?cs\<rparr> else if m \<in> set ?cs then r\<lparr>fn_parent := Some p\<rparr> else r)"
      by (auto simp: adopted_def split: if_splits)
    have c: "m \<in> set ?cs \<longleftrightarrow> fn_parent r = Some n" using r(1) by (simp add: fo_wfD(6) [OF wf n] fo_edges_def)
    have d: "n \<in> set (fn_descendants r) \<longleftrightarrow> m = p" using n Some by (auto simp: fo_wfD(6) [OF wf r(1)] fo_edges_def)
    have dd: "distinct (fn_descendants r)" "distinct ?cs" using fo_wfD(5) [OF wf] r(1) n by blast+
    show "\<exists>r. fr_mem F m = Some r \<and> fn_loop r' = fn_loop r \<and>
        fn_parent r' = (if fn_parent r = Some n then fn_parent rn else fn_parent r) \<and> distinct (fn_descendants r') \<and>
        set (fn_descendants r') = set (fn_descendants r) - {n} \<union>
          (if n \<in> set (fn_descendants r) then set (fn_descendants rn) else {})"
    proof (cases "m = p")
      case True
      with r(1) rp have "r = rp" by simp
      with True r c d dd dc pc Some show ?thesis by (simp add: distinct_uset_erase)
    next
      case False
      with r c d dd Some show ?thesis by simp
    qed
  qed (simp_all add: adopted_def)
  with run show ?thesis by blast
qed

end
