(* ===== verification/LoopForestBuild.thy ===== *)
theory LoopForestBuild
  imports LoopForestCorrect DomSummaryCorrect
begin

text \<open>
  The constructor of the forest of loops: the loops become the nodes, and a node below an outermost loop has the given loops
  immediately inside its own as its children. The nodes are numbered by the order of the given list.
\<close>

section \<open>The nest of the given loops\<close>

abbreviation at :: "(nat \<Rightarrow> loop_structure) \<Rightarrow> nat list \<Rightarrow> nat \<Rightarrow> loop_structure" where
  "at str loops i \<equiv> str (loops ! i)"

definition encl :: "(nat \<Rightarrow> loop_structure) \<Rightarrow> nat list \<Rightarrow> (nat \<times> nat) set" where
  "encl str loops = {(i, j). i < length loops \<and> j < length loops \<and> i \<noteq> j \<and> isIncluded (ls_header (at str loops j)) (at str loops i)}"

definition inner :: "(nat \<Rightarrow> loop_structure) \<Rightarrow> nat list \<Rightarrow> (nat \<times> nat) set" where
  "inner str loops = {(i, j) \<in> encl str loops. \<nexists>k. (i, k) \<in> encl str loops \<and> (k, j) \<in> encl str loops}"

text \<open>What LLVM documents of natural loops: a loop has a header of its own, in the loop, and blocks of one function; two loops
  are disjoint or nested; an outermost loop has depth 1.\<close>

definition natural_loops :: "llvm_module \<Rightarrow> (nat \<Rightarrow> loop_structure) \<Rightarrow> nat list \<Rightarrow> bool" where
  "natural_loops M str loops \<longleftrightarrow> distinct loops \<and> inj_on (\<lambda>l. ls_header (str l)) (set loops) \<and>
     (\<forall>l \<in> set loops. isIncluded (ls_header (str l)) (str l) \<and> (\<forall>b \<in> set (ls_bbs (str l)). lm_function M b = getFunction M (str l))) \<and>
     (\<forall>l \<in> set loops. \<forall>k \<in> set loops. l \<noteq> k \<longrightarrow> set (ls_bbs (str l)) \<inter> set (ls_bbs (str k)) = {} \<or>
        set (ls_bbs (str l)) \<subset> set (ls_bbs (str k)) \<and> \<not> isIncluded (ls_header (str k)) (str l) \<and> ls_depth (str l) \<noteq> 1 \<or>
        set (ls_bbs (str k)) \<subset> set (ls_bbs (str l)) \<and> \<not> isIncluded (ls_header (str l)) (str k) \<and> ls_depth (str k) \<noteq> 1)"

text \<open>The dominator trees: one for the function of every loop, in which a header dominates the headers inside its loop.\<close>

definition dominators_ok :: "llvm_module \<Rightarrow> (nat \<Rightarrow> loop_structure) \<Rightarrow> nat list \<Rightarrow> (nat \<rightharpoonup> dom_tree) \<Rightarrow> bool" where
  "dominators_ok M str loops doms \<longleftrightarrow> (\<forall>l \<in> set loops. \<exists>DT. doms (getFunction M (str l)) = Some DT \<and> dt_ok DT \<and>
     (\<forall>k \<in> set loops. isIncluded (ls_header (str k)) (str l) \<longrightarrow>
        (\<exists>a b. getNode DT (Some (ls_header (str l))) = Some a \<and> getNode DT (Some (ls_header (str k))) = Some b \<and>
          (a, b) \<in> (dom_edges DT)\<^sup>*)))"

lemma nested:
  assumes nat: "natural_loops M str loops" and e: "(i, j) \<in> encl str loops"
  shows "set (ls_bbs (at str loops j)) \<subset> set (ls_bbs (at str loops i))"
    and "\<not> isIncluded (ls_header (at str loops i)) (at str loops j)" and "ls_depth (at str loops j) \<noteq> 1"
proof -
  let ?B = "\<lambda>i. set (ls_bbs (at str loops i))"
  have ij: "i < length loops" "j < length loops" "i \<noteq> j" and h: "ls_header (at str loops j) \<in> ?B i"
    using e by (auto simp: encl_def isIncluded_def)
  have L: "loops ! i \<in> set loops" "loops ! j \<in> set loops" "loops ! i \<noteq> loops ! j"
    using ij nat by (simp_all add: natural_loops_def nth_eq_iff_index_eq)
  have hj: "ls_header (at str loops j) \<in> ?B j" using nat L(2) by (simp add: natural_loops_def isIncluded_def)
  have "?B i \<inter> ?B j = {} \<or> ?B i \<subset> ?B j \<and> \<not> isIncluded (ls_header (at str loops j)) (at str loops i) \<and> ls_depth (at str loops i) \<noteq> 1 \<or>
    ?B j \<subset> ?B i \<and> \<not> isIncluded (ls_header (at str loops i)) (at str loops j) \<and> ls_depth (at str loops j) \<noteq> 1"
    using nat L unfolding natural_loops_def by blast
  then have *: "?B j \<subset> ?B i \<and> \<not> isIncluded (ls_header (at str loops i)) (at str loops j) \<and> ls_depth (at str loops j) \<noteq> 1"
    using h hj by (auto simp: isIncluded_def)
  from * show "?B j \<subset> ?B i" "\<not> isIncluded (ls_header (at str loops i)) (at str loops j)" "ls_depth (at str loops j) \<noteq> 1" by blast+
qed

lemma encl_trans:
  assumes nat: "natural_loops M str loops"
  shows "trans (encl str loops)"
proof (rule transI)
  fix i j k assume ij: "(i, j) \<in> encl str loops" and jk: "(j, k) \<in> encl str loops"
  have "i \<noteq> k" using nested(1) [OF nat ij] nested(1) [OF nat jk] by blast
  then show "(i, k) \<in> encl str loops" using ij jk nested(1) [OF nat ij] by (auto simp: encl_def isIncluded_def)
qed

lemma encl_acyclic: "natural_loops M str loops \<Longrightarrow> acyclic (encl str loops)"
  using encl_trans [of M str loops] by (simp add: acyclic_def trancl_id) (simp add: encl_def)

lemma encl_wf:
  assumes "natural_loops M str loops"
  shows "wf ((encl str loops)\<inverse>)" "wf (encl str loops)"
proof -
  have f: "finite (encl str loops)"
    by (rule finite_subset [of _ "{..<length loops} \<times> {..<length loops}"]) (auto simp: encl_def)
  show "wf ((encl str loops)\<inverse>)" using f encl_acyclic [OF assms] by (rule finite_acyclic_wf_converse)
  show "wf (encl str loops)" using f encl_acyclic [OF assms] by (rule finite_acyclic_wf)
qed

lemma encl_chain:
  assumes nat: "natural_loops M str loops" and a: "(a, x) \<in> encl str loops" and b: "(b, x) \<in> encl str loops" and ne: "a \<noteq> b"
  shows "(a, b) \<in> encl str loops \<or> (b, a) \<in> encl str loops"
proof -
  let ?B = "\<lambda>i. set (ls_bbs (at str loops i))"
  have len: "a < length loops" "b < length loops" using a b by (auto simp: encl_def)
  have L: "loops ! a \<in> set loops" "loops ! b \<in> set loops" "loops ! a \<noteq> loops ! b"
    using len ne nat by (simp_all add: natural_loops_def nth_eq_iff_index_eq)
  have "ls_header (at str loops x) \<in> ?B a \<inter> ?B b" using a b by (auto simp: encl_def isIncluded_def)
  then have "?B a \<subset> ?B b \<or> ?B b \<subset> ?B a" using nat L unfolding natural_loops_def by blast
  moreover have "ls_header (at str loops a) \<in> ?B a" "ls_header (at str loops b) \<in> ?B b"
    using nat L by (simp_all add: natural_loops_def isIncluded_def)
  ultimately show ?thesis using len ne by (auto simp: encl_def isIncluded_def)
qed

lemma header_neq:
  assumes nat: "natural_loops M str loops" and "i < length loops" "j < length loops" "i \<noteq> j"
  shows "ls_header (at str loops i) \<noteq> ls_header (at str loops j)"
proof
  have "inj_on (\<lambda>l. ls_header (str l)) (set loops)" "distinct loops" using nat unfolding natural_loops_def by blast+
  moreover assume "ls_header (at str loops i) = ls_header (at str loops j)"
  ultimately have "loops ! i = loops ! j" using assms(2,3) by (auto dest: inj_onD)
  with \<open>distinct loops\<close> assms(2-4) show False by (simp add: nth_eq_iff_index_eq)
qed

lemma inner_unique:
  assumes "natural_loops M str loops" and "(a, x) \<in> inner str loops" and "(b, x) \<in> inner str loops"
  shows "a = b"
  using encl_chain [OF assms(1), of a x b] assms(2,3) by (auto simp: inner_def)

lemma inner_first:
  assumes nat: "natural_loops M str loops" and e: "(i, a) \<in> encl str loops"
  shows "\<exists>c. (i, c) \<in> inner str loops \<and> (c = a \<or> (c, a) \<in> encl str loops)"
  using encl_wf(2) [OF nat] e
proof (induction a rule: wf_induct_rule)
  case (less a)
  show ?case
  proof (cases "\<exists>k. (i, k) \<in> encl str loops \<and> (k, a) \<in> encl str loops")
    case True
    then obtain k where k: "(i, k) \<in> encl str loops" "(k, a) \<in> encl str loops" by blast
    from less.IH [OF k(2,1)] obtain c where "(i, c) \<in> inner str loops" "c = k \<or> (c, k) \<in> encl str loops" by blast
    with k(2) transD [OF encl_trans [OF nat]] show ?thesis by blast
  next
    case False
    with less.prems have "(i, a) \<in> inner str loops" by (simp add: inner_def)
    then show ?thesis by blast
  qed
qed

lemma same_function:
  assumes nat: "natural_loops M str loops" and e: "(i, j) \<in> encl str loops"
  shows "getFunction M (at str loops j) = getFunction M (at str loops i)"
proof -
  have "loops ! i \<in> set loops" using e by (simp add: encl_def)
  with nat e show ?thesis by (auto simp: natural_loops_def encl_def isIncluded_def getFunction_def)
qed

section \<open>The allocated nodes\<close>

text \<open>What does not change while the trees are filled.\<close>

definition based :: "llvm_module \<Rightarrow> (nat \<Rightarrow> loop_structure) \<Rightarrow> nat list \<Rightarrow> loop_forest \<Rightarrow> bool" where
  "based M str loops F \<longleftrightarrow> fr_nodes F = zip loops [0..<length loops] \<and>
     (\<forall>f. fr_functionLoops F f = filter (\<lambda>l. getFunction M (str l) = f) loops) \<and>
     (\<forall>b k. fr_headerLoops F b = Some k \<longleftrightarrow> k < length loops \<and> ls_header (at str loops k) = b) \<and>
     fr_trees F = filter (\<lambda>i. ls_depth (at str loops i) = 1) [0..<length loops] \<and>
     (\<forall>i. map_option fn_loop (fr_mem F i) = (if i < length loops then Some (loops ! i) else None))"

lemma basedD:
  assumes "based M str loops F"
  shows "fr_nodes F = zip loops [0..<length loops]"
    and "fr_functionLoops F f = filter (\<lambda>l. getFunction M (str l) = f) loops"
    and "fr_headerLoops F b = Some k \<longleftrightarrow> k < length loops \<and> ls_header (at str loops k) = b"
    and "fr_trees F = filter (\<lambda>i. ls_depth (at str loops i) = 1) [0..<length loops]"
    and "dom (fr_mem F) = {..<length loops}"
    and "i < length loops \<Longrightarrow> \<exists>r. fr_mem F i = Some r \<and> fn_loop r = loops ! i"
proof -
  have m: "map_option fn_loop (fr_mem F i) = (if i < length loops then Some (loops ! i) else None)" for i
    using assms by (simp add: based_def)
  show "dom (fr_mem F) = {..<length loops}"
  proof (intro set_eqI)
    fix i show "i \<in> dom (fr_mem F) \<longleftrightarrow> i \<in> {..<length loops}" using m [of i] by (cases "fr_mem F i") (auto split: if_splits)
  qed
  show "i < length loops \<Longrightarrow> \<exists>r. fr_mem F i = Some r \<and> fn_loop r = loops ! i" using m [of i] by (cases "fr_mem F i") auto
qed (use assms in \<open>simp_all add: based_def\<close>)

lemma update_zip_append:
  "l \<notin> set ls \<Longrightarrow> length ns = length ls \<Longrightarrow> AList.update l n (zip ls ns) = zip ls ns @ [(l, n)]"
proof (induction ls arbitrary: ns)
  case (Cons k ls)
  then obtain m ms where "ns = m # ms" by (cases ns) auto
  with Cons show ?case by auto
qed simp

lemma allocated:
  assumes "distinct loops" and "inj_on (\<lambda>l. ls_header (str l)) (set loops)"
  shows "\<exists>F. fold (alloc_loop M str) loops (empty_forest, []) = (F, filter (\<lambda>i. ls_depth (at str loops i) \<noteq> 1) [0..<length loops]) \<and>
    based M str loops F \<and> fr_next F = length loops \<and>
    fr_mem F = (\<lambda>i. if i < length loops then Some \<lparr>fn_loop = loops ! i, fn_parent = None, fn_descendants = []\<rparr> else None)"
  using assms
proof (induction loops rule: rev_induct)
  case Nil
  show ?case by (simp add: empty_forest_def based_def)
next
  case (snoc l loops)
  let ?n = "length loops"
  have d: "distinct loops" "l \<notin> set loops" "inj_on (\<lambda>l. ls_header (str l)) (set loops)"
    "\<forall>k \<in> set loops. ls_header (str k) \<noteq> ls_header (str l)"
    using snoc.prems by (auto simp: inj_on_def)
  from snoc.IH [OF d(1,3)] obtain F where
    run: "fold (alloc_loop M str) loops (empty_forest, []) = (F, filter (\<lambda>i. ls_depth (at str loops i) \<noteq> 1) [0..<?n])"
    and F: "based M str loops F" "fr_next F = ?n"
    and mem: "fr_mem F = (\<lambda>i. if i < ?n then Some \<lparr>fn_loop = loops ! i, fn_parent = None, fn_descendants = []\<rparr> else None)"
    by (elim exE conjE) (rule that)
  have old: "filter (\<lambda>i. ls_depth (at str (loops @ [l]) i) = 1) [0..<?n] = filter (\<lambda>i. ls_depth (at str loops i) = 1) [0..<?n]"
    "filter (\<lambda>i. ls_depth (at str (loops @ [l]) i) \<noteq> 1) [0..<?n] = filter (\<lambda>i. ls_depth (at str loops i) \<noteq> 1) [0..<?n]"
    by (rule filter_cong; simp add: nth_append)+
  have ins: "uset_insert ?n (filter P [0..<?n]) = filter P [0..<?n] @ [?n]" for P by (simp add: uset_insert_def)
  let ?F1 = "F\<lparr>fr_mem := (fr_mem F)(?n \<mapsto> \<lparr>fn_loop = l, fn_parent = None, fn_descendants = []\<rparr>), fr_next := Suc ?n,
                fr_nodes := AList.update l ?n (fr_nodes F),
                fr_functionLoops := (fr_functionLoops F)(getFunction M (str l) := uset_insert l (fr_functionLoops F (getFunction M (str l)))),
                fr_headerLoops := (fr_headerLoops F)(ls_header (str l) \<mapsto> ?n)\<rparr>"
  let ?F2 = "?F1\<lparr>fr_trees := filter (\<lambda>i. ls_depth (at str (loops @ [l]) i) = 1) [0..<Suc ?n]\<rparr>"
  have step: "alloc_loop M str l (F, filter (\<lambda>i. ls_depth (at str loops i) \<noteq> 1) [0..<?n]) =
      (?F2, filter (\<lambda>i. ls_depth (at str (loops @ [l]) i) \<noteq> 1) [0..<Suc ?n])"
    by (simp add: alloc_loop_def Let_def F(2) ins basedD(4) [OF F(1)] old)
  have nodes: "fr_nodes ?F2 = zip (loops @ [l]) [0..<Suc ?n]"
    using update_zip_append [OF d(2), of "[0..<?n]" ?n] by (simp add: basedD(1) [OF F(1)])
  have fl: "fr_functionLoops ?F2 f = filter (\<lambda>l. getFunction M (str l) = f) (loops @ [l])" for f
    using d(2) by (simp add: basedD(2) [OF F(1)] uset_insert_def)
  have hl: "fr_headerLoops ?F2 b = Some k \<longleftrightarrow> k < Suc ?n \<and> ls_header (at str (loops @ [l]) k) = b" for b k
  proof (cases "b = ls_header (str l)")
    case True
    have "ls_header (at str loops k) \<noteq> b" if "k < ?n" using True d(4) that by simp
    with True show ?thesis by (auto simp: nth_append less_Suc_eq)
  next
    case False
    then show ?thesis by (auto simp: basedD(3) [OF F(1)] nth_append less_Suc_eq)
  qed
  have m: "fr_mem ?F2 = (\<lambda>i. if i < Suc ?n then Some \<lparr>fn_loop = (loops @ [l]) ! i, fn_parent = None, fn_descendants = []\<rparr> else None)"
    by (auto simp: mem nth_append less_Suc_eq fun_eq_iff)
  have "based M str (loops @ [l]) ?F2" unfolding based_def
  proof (intro conjI allI)
    show "map_option fn_loop (fr_mem ?F2 i) = (if i < length (loops @ [l]) then Some ((loops @ [l]) ! i) else None)" for i
      unfolding m by simp
  qed (use nodes fl hl in simp_all)
  moreover have "fr_next ?F2 = length (loops @ [l])" by simp
  moreover note m
  ultimately show ?case using step by (simp add: run)
qed

section \<open>Is there a loop in between?\<close>

lemma walk_up:
  assumes ok: "dt_ok DT" and x: "(a, x) \<in> (dom_edges DT)\<^sup>*" "(x, s) \<in> (dom_edges DT)\<^sup>+"
    and step: "\<And>x. (a, x) \<in> (dom_edges DT)\<^sup>+ \<Longrightarrow> c (Some x, False) = Inr (if Q x then (Some x, True) else (dn_parent (dt_mem DT x), False))"
  shows "\<exists>node. whileE (\<lambda>(node, found). Some a \<noteq> node \<and> \<not> found) c (Some x, False) =
    Inr (node, \<exists>y. (a, y) \<in> (dom_edges DT)\<^sup>+ \<and> (y, x) \<in> (dom_edges DT)\<^sup>* \<and> Q y)"
  using dom_edges_wf [OF ok] x
proof (induction x rule: wf_induct_rule)
  case (less x)
  let ?E = "dom_edges DT" and ?b = "\<lambda>(node, found). Some a \<noteq> node \<and> \<not> found"
  have acyc: "(z, z) \<notin> ?E\<^sup>+" for z using wf_acyclic [OF dom_edges_wf [OF ok]] by (simp add: acyclic_def)
  show ?case
  proof (cases "x = a")
    case True
    have "\<not> ((a, y) \<in> ?E\<^sup>+ \<and> (y, x) \<in> ?E\<^sup>* \<and> Q y)" for y using acyc [of a] True by (meson trancl_rtrancl_trancl)
    with True show ?thesis by (simp add: whileE_done)
  next
    case False
    with less.prems(1) have ax: "(a, x) \<in> ?E\<^sup>+" by (metis rtranclD)
    then obtain q where q: "(a, q) \<in> ?E\<^sup>*" "(q, x) \<in> ?E" by (metis tranclD2)
    then have par: "dn_parent (dt_mem DT x) = Some q" and xV: "x \<in> set (dt_nodes DT)" using dom_edges_iff [OF ok] by blast+
    show ?thesis
    proof (cases "Q x")
      case True
      have "whileE ?b c (Some x, False) = whileE ?b c (Some x, True)"
        by (rule whileE_step) (use False step [OF ax] True in auto)
      moreover have "whileE ?b c (Some x, True) = Inr (Some x, True)" by (simp add: whileE_done)
      moreover have "\<exists>y. (a, y) \<in> ?E\<^sup>+ \<and> (y, x) \<in> ?E\<^sup>* \<and> Q y" using ax True by blast
      ultimately show ?thesis by simp
    next
      case noQ: False
      have "whileE ?b c (Some x, False) = whileE ?b c (Some q, False)"
        by (rule whileE_step) (use False step [OF ax] noQ par in auto)
      moreover have "(q, s) \<in> ?E\<^sup>+" using q(2) less.prems(2) by (rule trancl_into_trancl2)
      moreover have "(\<exists>y. (a, y) \<in> ?E\<^sup>+ \<and> (y, x) \<in> ?E\<^sup>* \<and> Q y) \<longleftrightarrow> (\<exists>y. (a, y) \<in> ?E\<^sup>+ \<and> (y, q) \<in> ?E\<^sup>* \<and> Q y)"
        unfolding ancestors_of_child [OF ok xV par] using noQ by auto
      ultimately show ?thesis using less.IH [OF q(2,1)] by simp
    qed
  qed
qed

lemma header_dominates:
  assumes nat: "natural_loops M str loops" and dok: "dominators_ok M str loops doms" and e: "(u, v) \<in> encl str loops"
    and DT: "doms (getFunction M (at str loops u)) = Some DT"
  shows "dt_ok DT" and "\<exists>a b. getNode DT (Some (ls_header (at str loops u))) = Some a \<and>
    getNode DT (Some (ls_header (at str loops v))) = Some b \<and> (a, b) \<in> (dom_edges DT)\<^sup>+"
proof -
  have L: "loops ! u \<in> set loops" "loops ! v \<in> set loops" and uv: "u < length loops" "v < length loops" "u \<noteq> v"
    and inc: "isIncluded (ls_header (at str loops v)) (at str loops u)" using e by (auto simp: encl_def)
  from dok L(1) obtain DT' where "doms (getFunction M (at str loops u)) = Some DT'" "dt_ok DT'" and
    k: "\<forall>k \<in> set loops. isIncluded (ls_header (str k)) (at str loops u) \<longrightarrow>
        (\<exists>a b. getNode DT' (Some (ls_header (at str loops u))) = Some a \<and> getNode DT' (Some (ls_header (str k))) = Some b \<and>
          (a, b) \<in> (dom_edges DT')\<^sup>*)" unfolding dominators_ok_def by blast
  with DT have DT': "DT' = DT" and ok: "dt_ok DT" by simp_all
  show "dt_ok DT" by (fact ok)
  from k L(2) inc DT' obtain a b where ab: "getNode DT (Some (ls_header (at str loops u))) = Some a"
    "getNode DT (Some (ls_header (at str loops v))) = Some b" "(a, b) \<in> (dom_edges DT)\<^sup>*" by blast
  have "dn_B (dt_mem DT a) \<noteq> dn_B (dt_mem DT b)"
    using ab(1,2) dt_okD(6) [OF ok] header_neq [OF nat uv] by simp
  then have "a \<noteq> b" by blast
  with ab(3) have "(a, b) \<in> (dom_edges DT)\<^sup>+" by (metis rtranclD)
  with ab show "\<exists>a b. getNode DT (Some (ls_header (at str loops u))) = Some a \<and>
    getNode DT (Some (ls_header (at str loops v))) = Some b \<and> (a, b) \<in> (dom_edges DT)\<^sup>+" by blast
qed

lemma found_in_between_ok:
  assumes nat: "natural_loops M str loops" and b: "based M str loops F" and dok: "dominators_ok M str loops doms"
    and e: "(i, j) \<in> encl str loops" and DT: "doms (getFunction M (at str loops i)) = Some DT"
  shows "found_in_between str DT F (ls_header (at str loops i)) (ls_header (at str loops j)) = Inr ((i, j) \<notin> inner str loops)"
proof -
  let ?h = "\<lambda>i. ls_header (at str loops i)" and ?E = "dom_edges DT"
  note ok = header_dominates(1) [OF nat dok e DT]
  have acyc: "(z, z) \<notin> ?E\<^sup>+" for z using wf_acyclic [OF dom_edges_wf [OF ok]] by (simp add: acyclic_def)
  from header_dominates(2) [OF nat dok e DT] obtain a s where a: "getNode DT (Some (?h i)) = Some a"
    and s: "getNode DT (Some (?h j)) = Some s" and as: "(a, s) \<in> ?E\<^sup>+" by blast
  have dm: "(y, z) \<in> ?E\<^sup>+" if uv: "(u, v) \<in> encl str loops" "getFunction M (at str loops u) = getFunction M (at str loops i)"
      "getNode DT (Some (?h u)) = Some y" "getNode DT (Some (?h v)) = Some z" for u v y z
    using header_dominates(2) [OF nat dok uv(1)] DT uv(2-4) by simp
  let ?Q = "\<lambda>x. \<exists>k < length loops. dn_B (dt_mem DT x) = Some (?h k) \<and> isIncluded (?h j) (at str loops k)"
  have as': "a \<noteq> s" using as acyc by blast
  from as obtain q where q: "(a, q) \<in> ?E\<^sup>*" "(q, s) \<in> ?E" by (metis tranclD2)
  then have par: "dn_parent (dt_mem DT s) = Some q" and sV: "s \<in> set (dt_nodes DT)" using dom_edges_iff [OF ok] by blast+
  have step: "between_step str DT F (?h j) (Some x, False) = Inr (if ?Q x then (Some x, True) else (dn_parent (dt_mem DT x), False))" for x
  proof (cases "Option.bind (dn_B (dt_mem DT x)) (fr_headerLoops F)")
    case None
    have "\<not> ?Q x"
    proof
      assume "?Q x"
      then obtain k where "k < length loops" "dn_B (dt_mem DT x) = Some (?h k)" by blast
      with None basedD(3) [OF b, of "?h k" k] show False by simp
    qed
    with None show ?thesis by (simp add: between_step_def)
  next
    case (Some k)
    then obtain B where B: "dn_B (dt_mem DT x) = Some B" "fr_headerLoops F B = Some k" by (auto simp: bind_eq_Some_conv)
    then have k: "k < length loops" "?h k = B" using basedD(3) [OF b] by blast+
    from basedD(6) [OF b k(1)] obtain r where r: "fr_mem F k = Some r" "fn_loop r = loops ! k" by blast
    have "?Q x \<longleftrightarrow> isIncluded (?h j) (at str loops k)"
    proof
      assume "?Q x"
      then obtain k' where k': "k' < length loops" "?h k' = B" "isIncluded (?h j) (at str loops k')" using B(1) by auto
      then have "k' = k" using header_neq [OF nat k'(1) k(1)] k(2) by auto
      with k' show "isIncluded (?h j) (at str loops k)" by simp
    qed (use B k in auto)
    with Some r show ?thesis by (simp add: between_step_def)
  qed
  from walk_up [OF ok q(1) r_into_trancl [OF q(2)], of "between_step str DT F (?h j)" ?Q, OF step] obtain node where
    w: "whileE (\<lambda>(node, found). Some a \<noteq> node \<and> \<not> found) (between_step str DT F (?h j)) (Some q, False) =
      Inr (node, \<exists>y. (a, y) \<in> ?E\<^sup>+ \<and> (y, q) \<in> ?E\<^sup>* \<and> ?Q y)" by blast
  have "(\<exists>y. (a, y) \<in> ?E\<^sup>+ \<and> (y, q) \<in> ?E\<^sup>* \<and> ?Q y) \<longleftrightarrow> (\<exists>k. (i, k) \<in> encl str loops \<and> (k, j) \<in> encl str loops)"
  proof
    assume "\<exists>y. (a, y) \<in> ?E\<^sup>+ \<and> (y, q) \<in> ?E\<^sup>* \<and> ?Q y"
    then obtain y k where y: "(a, y) \<in> ?E\<^sup>+" "(y, q) \<in> ?E\<^sup>*" and k: "k < length loops" "dn_B (dt_mem DT y) = Some (?h k)"
      "isIncluded (?h j) (at str loops k)" by blast
    have "y \<in> set (dt_nodes DT)" using y(1) dom_edges_iff [OF ok] by (metis tranclD2)
    then have gk: "getNode DT (Some (?h k)) = Some y" using dt_okD(6) [OF ok] k(2) by simp
    have ys: "(y, s) \<in> ?E\<^sup>+" using y(2) q(2) by (rule rtrancl_into_trancl1)
    have "k \<noteq> j" using gk s ys acyc by auto
    then have kj: "(k, j) \<in> encl str loops" using k e by (auto simp: encl_def)
    have "k \<noteq> i" using gk a y(1) acyc by auto
    have f: "getFunction M (at str loops k) = getFunction M (at str loops i)"
      using same_function [OF nat kj] same_function [OF nat e] by simp
    have "(k, i) \<notin> encl str loops"
    proof
      assume "(k, i) \<in> encl str loops"
      from dm [OF this f gk a] y(1) acyc show False by (meson trancl_trans)
    qed
    then show "\<exists>k. (i, k) \<in> encl str loops \<and> (k, j) \<in> encl str loops" using encl_chain [OF nat e kj] \<open>k \<noteq> i\<close> kj by blast
  next
    assume "\<exists>k. (i, k) \<in> encl str loops \<and> (k, j) \<in> encl str loops"
    then obtain k where k: "(i, k) \<in> encl str loops" "(k, j) \<in> encl str loops" by blast
    from header_dominates(2) [OF nat dok k(1) DT] a obtain y where y: "getNode DT (Some (?h k)) = Some y" "(a, y) \<in> ?E\<^sup>+" by auto
    have "(y, s) \<in> ?E\<^sup>+" by (rule dm [OF k(2) same_function [OF nat k(1)] y(1) s])
    moreover have "y \<noteq> s" using calculation acyc by blast
    ultimately have "(y, q) \<in> ?E\<^sup>*" using ancestors_of_child [OF ok sV par] by (meson trancl_into_rtrancl)
    moreover have "?Q y" using k y(1) dt_okD(6) [OF ok] by (auto simp: encl_def)
    ultimately show "\<exists>y. (a, y) \<in> ?E\<^sup>+ \<and> (y, q) \<in> ?E\<^sup>* \<and> ?Q y" using y(2) by blast
  qed
  with w a s as' par e show ?thesis by (simp add: found_in_between_def inner_def)
qed

section \<open>Filling the trees\<close>

text \<open>\<open>st'\<close> is \<open>st\<close> with the pairs of \<open>S\<close> attached, parent first.\<close>

definition attached :: "(nat \<times> nat) set \<Rightarrow> forest_state \<Rightarrow> forest_state \<Rightarrow> bool" where
  "attached S st st' \<longleftrightarrow>
     fr_nodes (fst st') = fr_nodes (fst st) \<and> fr_functionLoops (fst st') = fr_functionLoops (fst st) \<and>
     fr_headerLoops (fst st') = fr_headerLoops (fst st) \<and> fr_trees (fst st') = fr_trees (fst st) \<and>
     dom (fr_mem (fst st')) = dom (fr_mem (fst st)) \<and>
     (\<forall>m r. fr_mem (fst st) m = Some r \<longrightarrow> (\<exists>r'. fr_mem (fst st') m = Some r' \<and> fn_loop r' = fn_loop r \<and>
        (\<forall>p. (p, m) \<in> S \<longrightarrow> fn_parent r' = Some p) \<and> (m \<notin> Range S \<longrightarrow> fn_parent r' = fn_parent r) \<and>
        (distinct (fn_descendants r) \<longrightarrow> distinct (fn_descendants r')) \<and>
        set (fn_descendants r') = set (fn_descendants r) \<union> S `` {m})) \<and>
     set (snd st') = set (snd st) - Range S \<and> (distinct (snd st) \<longrightarrow> distinct (snd st'))"

lemma attachedD:
  assumes "attached S st st'"
  shows "fr_nodes (fst st') = fr_nodes (fst st)" "fr_functionLoops (fst st') = fr_functionLoops (fst st)"
    "fr_headerLoops (fst st') = fr_headerLoops (fst st)" "fr_trees (fst st') = fr_trees (fst st)"
    "dom (fr_mem (fst st')) = dom (fr_mem (fst st))" "set (snd st') = set (snd st) - Range S"
    "distinct (snd st) \<Longrightarrow> distinct (snd st')"
  using assms unfolding attached_def by blast+

lemma attached_node:
  assumes "attached S st st'" and "fr_mem (fst st) m = Some r"
  shows "\<exists>r'. fr_mem (fst st') m = Some r' \<and> fn_loop r' = fn_loop r \<and>
        (\<forall>p. (p, m) \<in> S \<longrightarrow> fn_parent r' = Some p) \<and> (m \<notin> Range S \<longrightarrow> fn_parent r' = fn_parent r) \<and>
        (distinct (fn_descendants r) \<longrightarrow> distinct (fn_descendants r')) \<and>
        set (fn_descendants r') = set (fn_descendants r) \<union> S `` {m}"
  using assms unfolding attached_def by blast

lemma attached_refl: "attached {} st st"
  by (simp add: attached_def)

lemma attached_trans:
  assumes a: "attached S st st1" and b: "attached T st1 st2" and u: "\<And>a b x. (a, x) \<in> S \<Longrightarrow> (b, x) \<in> T \<Longrightarrow> a = b"
  shows "attached (S \<union> T) st st2"
  unfolding attached_def
proof (intro conjI allI impI)
  fix m r assume m: "fr_mem (fst st) m = Some r"
  from attached_node [OF a m] obtain r1 where r1: "fr_mem (fst st1) m = Some r1" "fn_loop r1 = fn_loop r"
    "\<forall>p. (p, m) \<in> S \<longrightarrow> fn_parent r1 = Some p" "m \<notin> Range S \<longrightarrow> fn_parent r1 = fn_parent r"
    "distinct (fn_descendants r) \<longrightarrow> distinct (fn_descendants r1)"
    "set (fn_descendants r1) = set (fn_descendants r) \<union> S `` {m}" by (elim exE conjE) (rule that)
  from attached_node [OF b r1(1)] obtain r2 where r2: "fr_mem (fst st2) m = Some r2" "fn_loop r2 = fn_loop r1"
    "\<forall>p. (p, m) \<in> T \<longrightarrow> fn_parent r2 = Some p" "m \<notin> Range T \<longrightarrow> fn_parent r2 = fn_parent r1"
    "distinct (fn_descendants r1) \<longrightarrow> distinct (fn_descendants r2)"
    "set (fn_descendants r2) = set (fn_descendants r1) \<union> T `` {m}" by (elim exE conjE) (rule that)
  show "\<exists>r'. fr_mem (fst st2) m = Some r' \<and> fn_loop r' = fn_loop r \<and>
        (\<forall>p. (p, m) \<in> S \<union> T \<longrightarrow> fn_parent r' = Some p) \<and> (m \<notin> Range (S \<union> T) \<longrightarrow> fn_parent r' = fn_parent r) \<and>
        (distinct (fn_descendants r) \<longrightarrow> distinct (fn_descendants r')) \<and>
        set (fn_descendants r') = set (fn_descendants r) \<union> (S \<union> T) `` {m}"
  proof (intro exI conjI allI impI)
    fix p assume "(p, m) \<in> S \<union> T"
    then consider "(p, m) \<in> T" | "(p, m) \<in> S" "m \<notin> Range T" using u by blast
    then show "fn_parent r2 = Some p" by cases (use r1(3) r2(3,4) in simp_all)
  next
    assume "m \<notin> Range (S \<union> T)"
    then have "m \<notin> Range S" "m \<notin> Range T" by blast+
    then show "fn_parent r2 = fn_parent r" using r1(4) r2(4) by simp
  qed (use r1 r2 in auto)
qed (use attachedD [OF a] attachedD [OF b] in auto)

lemma attached_based:
  assumes "based M str loops (fst st)" and a: "attached S st st'"
  shows "based M str loops (fst st')"
proof -
  have "map_option fn_loop (fr_mem (fst st') i) = map_option fn_loop (fr_mem (fst st) i)" for i
  proof (cases "fr_mem (fst st) i")
    case None
    then have "i \<notin> dom (fr_mem (fst st'))" by (simp add: attachedD(5) [OF a] domIff)
    with None show ?thesis by (simp add: domIff)
  next
    case (Some r)
    from attached_node [OF a Some] obtain r' where "fr_mem (fst st') i = Some r'" "fn_loop r' = fn_loop r" by blast
    with Some show ?thesis by simp
  qed
  then show ?thesis using assms(1) attachedD(1-4) [OF a] by (simp add: based_def)
qed

lemma attach_child_ok:
  assumes nat: "natural_loops M str loops" and b: "based M str loops (fst st)" and dok: "dominators_ok M str loops doms"
    and i: "i < length loops" and DT: "doms (getFunction M (at str loops i)) = Some DT" and j: "j < length loops"
  shows "if (i, j) \<in> inner str loops
    then \<exists>st'. attach_child str DT i (loops ! j) st = Inr (Some j, st') \<and> attached {(i, j)} st st'
    else attach_child str DT i (loops ! j) st = Inr (None, st)"
proof -
  obtain F P where st: "st = (F, P)" by (cases st)
  note b = b [unfolded st fst_conv]
  from basedD(6) [OF b i] obtain ri where ri: "fr_mem F i = Some ri" "fn_loop ri = loops ! i" by blast
  from basedD(6) [OF b j] obtain rj where rj: "fr_mem F j = Some rj" "fn_loop rj = loops ! j" by blast
  show ?thesis
  proof (cases "(i, j) \<in> encl str loops")
    case True
    then have ij: "i \<noteq> j" "isIncluded (ls_header (at str loops j)) (at str loops i)" by (auto simp: encl_def)
    have h: "ls_header (at str loops j) \<noteq> ls_header (at str loops i)" using header_neq [OF nat j i] ij(1) by simp
    have found: "found_in_between str DT F (ls_header (at str loops i)) (ls_header (at str loops j)) = Inr ((i, j) \<notin> inner str loops)"
      by (rule found_in_between_ok [OF nat b dok True DT])
    have "distinct loops" using nat by (simp add: natural_loops_def)
    then have mapof: "map_of (fr_nodes F) (loops ! j) = Some j"
      using j map_of_zip_nth [of loops "[0..<length loops]" j] by (simp add: basedD(1) [OF b])
    show ?thesis
    proof (cases "(i, j) \<in> inner str loops")
      case inn: True
      let ?F = "put_node j (rj\<lparr>fn_parent := Some i\<rparr>) (put_node i (ri\<lparr>fn_descendants := uset_insert j (fn_descendants ri)\<rparr>) F)"
      have "attach_child str DT i (loops ! j) (F, P) = Inr (Some j, ?F, uset_erase j P)"
        using ij h found inn mapof ri rj by (simp add: attach_child_def Let_def change_node_def get_node_def put_node_def)
      moreover have "attached {(i, j)} (F, P) (?F, uset_erase j P)"
        unfolding attached_def
      proof (intro conjI allI impI)
        show "dom (fr_mem (fst (?F, uset_erase j P))) = dom (fr_mem (fst (F, P)))" using ri rj by (auto simp: put_node_def)
        fix m r assume "fr_mem (fst (F, P)) m = Some r"
        then show "\<exists>r'. fr_mem (fst (?F, uset_erase j P)) m = Some r' \<and> fn_loop r' = fn_loop r \<and>
          (\<forall>p. (p, m) \<in> {(i, j)} \<longrightarrow> fn_parent r' = Some p) \<and> (m \<notin> Range {(i, j)} \<longrightarrow> fn_parent r' = fn_parent r) \<and>
          (distinct (fn_descendants r) \<longrightarrow> distinct (fn_descendants r')) \<and>
          set (fn_descendants r') = set (fn_descendants r) \<union> {(i, j)} `` {m}"
          using ij(1) ri rj by (auto simp: put_node_def distinct_uset_insert)
      qed (auto simp: put_node_def distinct_uset_erase set_uset_erase)
      ultimately show ?thesis using inn st by auto
    next
      case False
      then show ?thesis using ij h found ri st by (simp add: attach_child_def Let_def)
    qed
  next
    case False
    then have "(i, j) \<notin> inner str loops" by (simp add: inner_def)
    moreover have "ls_header (at str loops j) = ls_header (at str loops i) \<or> \<not> isIncluded (ls_header (at str loops j)) (at str loops i)"
      using False i j by (auto simp: encl_def)
    ultimately show ?thesis using ri st by (auto simp: attach_child_def Let_def)
  qed
qed

text \<open>The pairs that a call with the root \<open>i\<close> attaches.\<close>

definition below_pairs :: "(nat \<Rightarrow> loop_structure) \<Rightarrow> nat list \<Rightarrow> nat \<Rightarrow> (nat \<times> nat) set" where
  "below_pairs str loops i = {(a, b) \<in> inner str loops. a = i \<or> (i, a) \<in> encl str loops}"

lemma below_pairs_eq:
  assumes nat: "natural_loops M str loops"
  shows "below_pairs str loops i = (\<Union>c \<in> inner str loops `` {i}. insert (i, c) (below_pairs str loops c))"
proof (intro set_eqI iffI)
  fix e assume "e \<in> below_pairs str loops i"
  then obtain a b where e: "e = (a, b)" "(a, b) \<in> inner str loops" "a = i \<or> (i, a) \<in> encl str loops" by (auto simp: below_pairs_def)
  show "e \<in> (\<Union>c \<in> inner str loops `` {i}. insert (i, c) (below_pairs str loops c))"
  proof (cases "a = i")
    case False
    with e(3) inner_first [OF nat] obtain c where "(i, c) \<in> inner str loops" "c = a \<or> (c, a) \<in> encl str loops" by blast
    with e show ?thesis by (auto simp: below_pairs_def)
  qed (use e in auto)
next
  fix e assume "e \<in> (\<Union>c \<in> inner str loops `` {i}. insert (i, c) (below_pairs str loops c))"
  then show "e \<in> below_pairs str loops i"
    using transD [OF encl_trans [OF nat]] by (auto simp: below_pairs_def inner_def)
qed

lemma addChildren_Nil:
  "fr_mem (fst st) i = Some r \<Longrightarrow> doms (getFunction M (str (fn_loop r))) = Some DT \<Longrightarrow> addChildrenToTree M str doms i (Some []) st = Some (Inr st)"
  by (subst addChildrenToTree.simps) simp

lemma addChildren_Cons:
  "fr_mem (fst st) i = Some r \<Longrightarrow> doms (getFunction M (str (fn_loop r))) = Some DT \<Longrightarrow>
   addChildrenToTree M str doms i (Some (l # ls)) st =
     (case attach_child str DT i l st of
        Inl e \<Rightarrow> Some (Inl e)
      | Inr (None, st1) \<Rightarrow> addChildrenToTree M str doms i (Some ls) st1
      | Inr (Some c, st1) \<Rightarrow>
          Option.bind (addChildrenToTree M str doms c None st1) (\<lambda>res.
            case res of Inl e \<Rightarrow> Some (Inl e) | Inr st2 \<Rightarrow> addChildrenToTree M str doms i (Some ls) st2))"
  by (subst addChildrenToTree.simps) simp

lemma addChildren_enter:
  "fr_mem (fst st) i = Some r \<Longrightarrow> doms (getFunction M (str (fn_loop r))) = Some DT \<Longrightarrow>
   addChildrenToTree M str doms i None st =
     addChildrenToTree M str doms i (Some (fr_functionLoops (fst st) (getFunction M (str (fn_loop r))))) st"
  by (subst addChildrenToTree.simps) simp

lemma addChildren_ok:
  assumes nat: "natural_loops M str loops" and dok: "dominators_ok M str loops doms"
    and "based M str loops (fst st)" and "i < length loops"
  shows "\<exists>st'. addChildrenToTree M str doms i None st = Some (Inr st') \<and> attached (below_pairs str loops i) st st'"
  using encl_wf(1) [OF nat] assms(3,4)
proof (induction i arbitrary: st rule: wf_induct_rule)
  case (less i)
  have "loops ! i \<in> set loops" using less.prems(2) by simp
  with dok obtain DT where DT: "doms (getFunction M (at str loops i)) = Some DT" unfolding dominators_ok_def by blast
  have each: "\<exists>st'. addChildrenToTree M str doms i (Some (map ((!) loops) js)) st = Some (Inr st') \<and>
      attached (\<Union>c \<in> inner str loops `` {i} \<inter> set js. insert (i, c) (below_pairs str loops c)) st st'"
    if "based M str loops (fst st)" "set js \<subseteq> {..<length loops}" for js st
    using that
  proof (induction js arbitrary: st)
    case Nil
    from basedD(6) [OF Nil(1) less.prems(2)] obtain r where "fr_mem (fst st) i = Some r" "fn_loop r = loops ! i" by blast
    with DT show ?case by (simp add: addChildren_Nil attached_refl)
  next
    case (Cons j js)
    from basedD(6) [OF Cons.prems(1) less.prems(2)] obtain r where r: "fr_mem (fst st) i = Some r" "fn_loop r = loops ! i" by blast
    have j: "j < length loops" and js: "set js \<subseteq> {..<length loops}" using Cons.prems(2) by auto
    note att = attach_child_ok [OF nat Cons.prems(1) dok less.prems(2) DT j]
    let ?S = "\<lambda>js. \<Union>c \<in> inner str loops `` {i} \<inter> set js. insert (i, c) (below_pairs str loops c)"
    show ?case
    proof (cases "(i, j) \<in> inner str loops")
      case False
      with att have "attach_child str DT i (loops ! j) st = Inr (None, st)" by simp
      moreover have "inner str loops `` {i} \<inter> set (j # js) = inner str loops `` {i} \<inter> set js" using False by auto
      ultimately show ?thesis using Cons.IH [OF Cons.prems(1) js] r DT by (simp add: addChildren_Cons)
    next
      case True
      with att obtain st1 where st1: "attach_child str DT i (loops ! j) st = Inr (Some j, st1)" "attached {(i, j)} st st1" by auto
      have e: "(j, i) \<in> (encl str loops)\<inverse>" using True by (simp add: inner_def)
      have b1: "based M str loops (fst st1)" by (rule attached_based [OF Cons.prems(1) st1(2)])
      from less.IH [OF e b1 j] obtain st2 where
        st2: "addChildrenToTree M str doms j None st1 = Some (Inr st2)" "attached (below_pairs str loops j) st1 st2" by blast
      have b2: "based M str loops (fst st2)" by (rule attached_based [OF b1 st2(2)])
      from Cons.IH [OF b2 js] obtain st3 where
        st3: "addChildrenToTree M str doms i (Some (map ((!) loops) js)) st2 = Some (Inr st3)" "attached (?S js) st2 st3" by blast
      have u: "a = b" if "(a, x) \<in> inner str loops" "(b, x) \<in> inner str loops" for a b x
        using inner_unique [OF nat that] .
      have sub: "below_pairs str loops c \<subseteq> inner str loops" for c by (auto simp: below_pairs_def)
      have S: "?S js \<subseteq> inner str loops" using sub by auto
      have "attached ({(i, j)} \<union> below_pairs str loops j) st st2"
        by (rule attached_trans [OF st1(2) st2(2)]) (use u True sub in blast)
      then have "attached ({(i, j)} \<union> below_pairs str loops j \<union> ?S js) st st3"
        by (rule attached_trans [OF _ st3(2)]) (use u True sub S in blast)
      moreover have "{(i, j)} \<union> below_pairs str loops j \<union> ?S js = ?S (j # js)" using True by auto
      ultimately have "attached (?S (j # js)) st st3" by simp
      then show ?thesis using st1(1) st2(1) st3(1) r DT by (simp add: addChildren_Cons)
    qed
  qed
  let ?js = "filter (\<lambda>j. getFunction M (at str loops j) = getFunction M (at str loops i)) [0..<length loops]"
  from basedD(6) [OF less.prems] obtain r where r: "fr_mem (fst st) i = Some r" "fn_loop r = loops ! i" by blast
  have fl: "fr_functionLoops (fst st) (getFunction M (at str loops i)) = map ((!) loops) ?js"
    unfolding basedD(2) [OF less.prems(1)] by (subst (1) map_nth [symmetric]) (simp only: filter_map o_def)
  have js: "inner str loops `` {i} \<inter> set ?js = inner str loops `` {i}"
    using same_function [OF nat] by (auto simp: inner_def encl_def)
  have "set ?js \<subseteq> {..<length loops}" by auto
  from each [OF less.prems(1) this, unfolded js] obtain st' where
    st': "addChildrenToTree M str doms i (Some (map ((!) loops) ?js)) st = Some (Inr st')"
    "attached (\<Union>c \<in> inner str loops `` {i}. insert (i, c) (below_pairs str loops c)) st st'" by (elim exE conjE) (rule that)
  have "addChildrenToTree M str doms i None st = Some (Inr st')"
    using addChildren_enter [of st i r doms M str DT] r DT st'(1) fl by simp
  with st'(2) show ?case unfolding below_pairs_eq [OF nat, of i] by blast
qed

lemma fill_trees_ok:
  assumes nat: "natural_loops M str loops" and dok: "dominators_ok M str loops doms"
    and "based M str loops (fst st)" and "set ts \<subseteq> {..<length loops}"
  shows "\<exists>st'. fill_trees M str doms ts st = Some (Inr st') \<and> attached (\<Union>t \<in> set ts. below_pairs str loops t) st st'"
  using assms(3,4)
proof (induction ts arbitrary: st)
  case Nil
  then show ?case by (simp add: attached_refl)
next
  case (Cons t ts)
  then have t: "t < length loops" by simp
  from addChildren_ok [OF nat dok Cons.prems(1) t] obtain st1 where
    st1: "addChildrenToTree M str doms t None st = Some (Inr st1)" "attached (below_pairs str loops t) st st1" by blast
  have "set ts \<subseteq> {..<length loops}" using Cons.prems(2) by simp
  from Cons.IH [OF attached_based [OF Cons.prems(1) st1(2)] this] obtain st2 where
    st2: "fill_trees M str doms ts st1 = Some (Inr st2)" "attached (\<Union>t \<in> set ts. below_pairs str loops t) st1 st2" by blast
  have sub: "below_pairs str loops c \<subseteq> inner str loops" for c by (auto simp: below_pairs_def)
  have "attached (below_pairs str loops t \<union> (\<Union>t \<in> set ts. below_pairs str loops t)) st st2"
    by (rule attached_trans [OF st1(2) st2(2)]) (use inner_unique [OF nat] sub in blast)
  then show ?case using st1(1) st2(1) by simp
qed

text \<open>The pairs of the forest: the immediate nesting below the given loops of depth 1.\<close>

definition forest_pairs :: "(nat \<Rightarrow> loop_structure) \<Rightarrow> nat list \<Rightarrow> (nat \<times> nat) set" where
  "forest_pairs str loops = {(a, b) \<in> inner str loops. \<exists>i < length loops. ls_depth (at str loops i) = 1 \<and> (a = i \<or> (i, a) \<in> encl str loops)}"

lemma constructor_attached:
  assumes nat: "natural_loops M str loops" and dok: "dominators_ok M str loops doms"
  shows "\<exists>F0 P0 F1 P1. fold (alloc_loop M str) loops (empty_forest, []) = (F0, P0) \<and>
    StayConnectedNestedLoopForest_of M str loops doms = Some (Inr (F1\<lparr>fr_trees := uset_insert_all P1 (fr_trees F1)\<rparr>)) \<and>
    based M str loops F0 \<and> attached (forest_pairs str loops) (F0, P0) (F1, P1) \<and>
    P0 = filter (\<lambda>i. ls_depth (at str loops i) \<noteq> 1) [0..<length loops] \<and>
    (\<forall>i < length loops. fr_mem F0 i = Some \<lparr>fn_loop = loops ! i, fn_parent = None, fn_descendants = []\<rparr>)"
proof -
  have "distinct loops" "inj_on (\<lambda>l. ls_header (str l)) (set loops)" using nat unfolding natural_loops_def by blast+
  from allocated [OF this, of M] obtain F0 where
    run: "fold (alloc_loop M str) loops (empty_forest, []) = (F0, filter (\<lambda>i. ls_depth (at str loops i) \<noteq> 1) [0..<length loops])"
    and b: "based M str loops F0" and
    mem: "fr_mem F0 = (\<lambda>i. if i < length loops then Some \<lparr>fn_loop = loops ! i, fn_parent = None, fn_descendants = []\<rparr> else None)"
    by (elim exE conjE) (rule that)
  let ?P0 = "filter (\<lambda>i. ls_depth (at str loops i) \<noteq> 1) [0..<length loops]"
  have ts: "set (fr_trees F0) = {i. i < length loops \<and> ls_depth (at str loops i) = 1}" by (simp add: basedD(4) [OF b])
  then have "set (fr_trees F0) \<subseteq> {..<length loops}" by auto
  from fill_trees_ok [OF nat dok _ this, of "(F0, ?P0)"] b obtain st' where
    st': "fill_trees M str doms (fr_trees F0) (F0, ?P0) = Some (Inr st')"
    "attached (\<Union>t \<in> set (fr_trees F0). below_pairs str loops t) (F0, ?P0) st'" by (simp only: fst_conv) blast
  have "(\<Union>t \<in> set (fr_trees F0). below_pairs str loops t) = forest_pairs str loops"
    unfolding ts forest_pairs_def below_pairs_def by blast
  with st' have att: "attached (forest_pairs str loops) (F0, ?P0) (fst st', snd st')" by simp
  have "StayConnectedNestedLoopForest_of M str loops doms =
      Some (Inr ((fst st')\<lparr>fr_trees := uset_insert_all (snd st') (fr_trees (fst st'))\<rparr>))"
    by (simp add: StayConnectedNestedLoopForest_of_def run st'(1) split: prod.split)
  with run b mem att show ?thesis by (intro exI conjI) auto
qed

lemma forest_constructor_ok:
  assumes nat: "natural_loops M str loops" and dok: "dominators_ok M str loops doms"
  shows "\<exists>F. StayConnectedNestedLoopForest_of M str loops doms = Some (Inr F) \<and> fo_wf F \<and>
    fr_nodes F = zip loops [0..<length loops] \<and> fo_edges F = forest_pairs str loops \<and>
    (\<forall>i. map_option fn_loop (fr_mem F i) = (if i < length loops then Some (loops ! i) else None))"
proof -
  let ?S = "forest_pairs str loops" and ?n = "length loops"
  from constructor_attached [OF assms] obtain F0 P0 F1 P1 where
    run: "StayConnectedNestedLoopForest_of M str loops doms = Some (Inr (F1\<lparr>fr_trees := uset_insert_all P1 (fr_trees F1)\<rparr>))"
    and b: "based M str loops F0" and att: "attached ?S (F0, P0) (F1, P1)"
    and P0: "P0 = filter (\<lambda>i. ls_depth (at str loops i) \<noteq> 1) [0..<?n]"
    and mem: "\<forall>i < ?n. fr_mem F0 i = Some \<lparr>fn_loop = loops ! i, fn_parent = None, fn_descendants = []\<rparr>"
    by (elim exE conjE) (rule that)
  let ?F = "F1\<lparr>fr_trees := uset_insert_all P1 (fr_trees F1)\<rparr>"
  have b1: "based M str loops F1" using attached_based [of M str loops "(F0, P0)" ?S "(F1, P1)"] b att by simp
  have sub: "?S \<subseteq> inner str loops" by (auto simp: forest_pairs_def)
  have lt: "a < ?n \<and> b < ?n \<and> ls_depth (at str loops b) \<noteq> 1" if "(a, b) \<in> ?S" for a b
    using that sub nested(3) [OF nat, of a b] by (auto simp: inner_def encl_def)
  have node: "\<exists>r. fr_mem F1 i = Some r \<and> distinct (fn_descendants r) \<and> set (fn_descendants r) = ?S `` {i} \<and>
      (\<forall>p. fn_parent r = Some p \<longleftrightarrow> (p, i) \<in> ?S)" if i: "i < ?n" for i
  proof -
    have "fr_mem (fst (F0, P0)) i = Some \<lparr>fn_loop = loops ! i, fn_parent = None, fn_descendants = []\<rparr>" using mem i by simp
    from attached_node [OF att this] obtain r where r: "fr_mem F1 i = Some r" "\<forall>p. (p, i) \<in> ?S \<longrightarrow> fn_parent r = Some p"
      "i \<notin> Range ?S \<longrightarrow> fn_parent r = None" "distinct (fn_descendants r)" "set (fn_descendants r) = ?S `` {i}" by auto
    moreover have "(p, i) \<in> ?S" if "fn_parent r = Some p" for p
    proof -
      from that r(3) obtain q where "(q, i) \<in> ?S" by auto
      with r(2) that show ?thesis by simp
    qed
    ultimately show ?thesis by blast
  qed
  have dom: "dom (fr_mem F1) = {..<?n}" by (rule basedD(5) [OF b1])
  have edges: "fo_edges F1 = ?S"
  proof (intro set_eqI)
    fix e :: "nat \<times> nat"
    obtain a c where e: "e = (a, c)" by (cases e)
    show "e \<in> fo_edges F1 \<longleftrightarrow> e \<in> ?S"
    proof (cases "c < ?n")
      case True
      from node [OF True] show ?thesis by (auto simp: e fo_edges_def)
    next
      case False
      then have "fr_mem F1 c = None" using dom by (metis domIff lessThan_iff)
      with False lt [of a c] show ?thesis by (auto simp: e fo_edges_def)
    qed
  qed
  have P1: "set P1 = set P0 - Range ?S" using attachedD(6) [OF att] by simp
  have trees: "set (fr_trees ?F) = {n. \<exists>r. fr_mem F1 n = Some r \<and> fn_parent r = None}"
  proof (intro set_eqI)
    fix m
    have T: "m \<in> set (fr_trees ?F) \<longleftrightarrow> m < ?n \<and> m \<notin> Range ?S"
      using lt by (auto simp: P1 P0 basedD(4) [OF b1])
    show "m \<in> set (fr_trees ?F) \<longleftrightarrow> m \<in> {n. \<exists>r. fr_mem F1 n = Some r \<and> fn_parent r = None}"
    proof (cases "m < ?n")
      case True
      from node [OF True] obtain r where r: "fr_mem F1 m = Some r" "\<forall>p. fn_parent r = Some p \<longleftrightarrow> (p, m) \<in> ?S" by blast
      have "fn_parent r = None \<longleftrightarrow> m \<notin> Range ?S" using r(2) by (cases "fn_parent r") auto
      with T True r(1) show ?thesis by simp
    next
      case False
      then have "fr_mem F1 m = None" using dom by (metis domIff lessThan_iff)
      with T False show ?thesis by simp
    qed
  qed
  have "fo_wf ?F"
    unfolding fo_wf_def
  proof (intro conjI allI impI)
    show "finite (dom (fr_mem ?F))" by (simp add: dom)
    have "acyclic ?S" by (rule acyclic_subset [OF encl_acyclic [OF nat]]) (use sub in \<open>auto simp: inner_def\<close>)
    then show "acyclic (fo_edges ?F)" using edges by (simp add: fo_edges_def)
    show "distinct (fr_trees ?F)" by (simp add: distinct_uset_insert_all basedD(4) [OF b1])
    show "set (fr_trees ?F) = {n. \<exists>r. fr_mem ?F n = Some r \<and> fn_parent r = None}" using trees by simp
    fix n r assume n: "fr_mem ?F n = Some r"
    then have "n < ?n" using dom by auto
    from node [OF this] n have r: "distinct (fn_descendants r)" "set (fn_descendants r) = ?S `` {n}"
      "\<forall>p. fn_parent r = Some p \<longleftrightarrow> (p, n) \<in> ?S" by auto
    show "distinct (fn_descendants r)" by (fact r(1))
    show "set (fn_descendants r) = fo_edges ?F `` {n}" using r(2) edges by (simp add: fo_edges_def)
    show "set_option (fn_parent r) \<subseteq> dom (fr_mem ?F)"
    proof
      fix p assume "p \<in> set_option (fn_parent r)"
      then have "(p, n) \<in> ?S" using r(3) by simp
      with lt show "p \<in> dom (fr_mem ?F)" by (simp add: dom)
    qed
  qed
  moreover have "fo_edges ?F = ?S" using edges by (simp add: fo_edges_def)
  moreover have "fr_nodes ?F = zip loops [0..<?n]" by (simp add: basedD(1) [OF b1])
  moreover have "\<forall>i. map_option fn_loop (fr_mem ?F i) = (if i < ?n then Some (loops ! i) else None)"
    using b1 by (simp add: based_def)
  ultimately show ?thesis using run by blast
qed

end
