(* ===== verification/LoopForestQueries.thy ===== *)
theory LoopForestQueries
  imports LoopForestBuild
begin

text \<open>
  Properties of the forest of loops: filtering, destruction, and what the constructor does with loops whose ancestors are
  not among the given ones.
\<close>

section \<open>Filtering\<close>

text \<open>\<open>F'\<close> is what is left of \<open>F\<close> when only the nodes \<open>K\<close> survive: nesting is unchanged.\<close>

definition restricts :: "nat set \<Rightarrow> loop_forest \<Rightarrow> loop_forest \<Rightarrow> bool" where
  "restricts K F F' \<longleftrightarrow> dom (fr_mem F') = K \<and> fr_nodes F' = fr_nodes F \<and>
     (\<forall>m \<in> K. map_option fn_loop (fr_mem F' m) = map_option fn_loop (fr_mem F m)) \<and>
     (fo_edges F')\<^sup>+ = {(a, b) \<in> (fo_edges F)\<^sup>+. a \<in> K \<and> b \<in> K}"

lemma restricts_refl:
  assumes "fo_wf F"
  shows "restricts (dom (fr_mem F)) F F"
proof -
  have "a \<in> dom (fr_mem F) \<and> b \<in> dom (fr_mem F)" if "(a, b) \<in> (fo_edges F)\<^sup>+" for a b
    using that fo_edges_live [OF assms] by (metis tranclE converse_tranclE)
  then show ?thesis unfolding restricts_def by auto
qed

lemma restricts_spliced:
  assumes wf: "fo_wf F" and wf1: "fo_wf F1" and r: "restricts K F F1" and n: "fr_mem F1 n = Some rn" and s: "spliced n rn F1 F2"
  shows "restricts (K - {n}) F F2"
proof -
  have d: "dom (fr_mem F2) = K - {n}" using r splicedD(1) [OF s] by (simp add: restricts_def)
  have loops: "map_option fn_loop (fr_mem F2 m) = map_option fn_loop (fr_mem F m)" if m: "m \<in> K - {n}" for m
  proof -
    have "m \<in> dom (fr_mem F1)" using m r by (simp add: restricts_def)
    then obtain r1 where r1: "fr_mem F1 m = Some r1" by auto
    from spliced_node [OF s r1] m obtain r2 where "fr_mem F2 m = Some r2" "fn_loop r2 = fn_loop r1"
      by blast
    moreover have "map_option fn_loop (fr_mem F1 m) = map_option fn_loop (fr_mem F m)" using r m by (simp add: restricts_def)
    ultimately show ?thesis using r1 by simp
  qed
  have "(fo_edges F2)\<^sup>+ = {(a, b) \<in> (fo_edges F)\<^sup>+. a \<in> K - {n} \<and> b \<in> K - {n}}"
    using r unfolding spliced_edges [OF wf1 n s] trancl_splice restricts_def by auto
  then show ?thesis using d loops r splicedD(2) [OF s] by (simp add: restricts_def)
qed

lemma destroy_nodes_ok:
  assumes wf: "fo_wf F" and xs: "distinct xs" "set xs \<subseteq> dom (fr_mem F)"
  shows "\<exists>F'. foldE destroy_node xs F = Inr F' \<and> fo_wf F' \<and> restricts (dom (fr_mem F) - set xs) F F'"
proof -
  have "\<exists>F'. foldE destroy_node xs F1 = Inr F' \<and> fo_wf F' \<and> restricts (K - set xs) F F'"
    if "fo_wf F1" "restricts K F F1" "distinct xs" "set xs \<subseteq> K" for xs F1 K
    using that
  proof (induction xs arbitrary: F1 K)
    case (Cons x xs)
    have "x \<in> dom (fr_mem F1)" using Cons.prems(2,4) by (simp add: restricts_def)
    then obtain r where r: "fr_mem F1 x = Some r" by auto
    from destroy_node_spliced [OF Cons.prems(1) r] obtain F2 where F2: "destroy_node x F1 = Inr F2" "spliced x r F1 F2"
      by blast
    have "\<exists>F'. foldE destroy_node xs F2 = Inr F' \<and> fo_wf F' \<and> restricts ((K - {x}) - set xs) F F'"
    proof (rule Cons.IH)
      show "fo_wf F2" by (rule spliced_wf [OF Cons.prems(1) r F2(2)])
      show "restricts (K - {x}) F F2" by (rule restricts_spliced [OF wf Cons.prems(1,2) r F2(2)])
    qed (use Cons.prems(3,4) in auto)
    moreover have "(K - {x}) - set xs = K - set (x # xs)" by auto
    ultimately show ?case using F2(1) by simp
  qed simp
  from this [OF wf restricts_refl [OF wf] xs] show ?thesis .
qed

lemma fold_select: "fold (\<lambda>n s. if P n then s @ [n] else s) xs s = s @ List.filter P xs"
  by (induction xs arbitrary: s) auto

definition selected :: "(nat \<Rightarrow> bool) \<Rightarrow> loop_forest \<Rightarrow> nat \<Rightarrow> bool" where
  "selected select F n = (case fr_mem F n of None \<Rightarrow> False | Some r \<Rightarrow> select (fn_loop r))"

lemma collect_trees_ok:
  assumes wf: "fo_wf F" and "distinct ts" and "set ts \<subseteq> set (fr_trees F)"
  shows "\<exists>xs. collect_trees select F ts s = Some (Inr (s @ xs)) \<and> distinct xs \<and>
    set xs = {n \<in> \<Union>t \<in> set ts. (fo_edges F)\<^sup>* `` {t}. selected select F n}"
  using assms(2,3)
proof (induction ts arbitrary: s)
  case (Cons t ts)
  let ?E = "fo_edges F"
  have t: "t \<in> dom (fr_mem F)" using Cons.prems(2) fo_wfD(4) [OF wf] by auto
  have f: "collect_filtered select F n l s = Inr (False, if selected select F n then s @ [n] else s)"
    if "n \<in> dom (fr_mem F)" for n l s
    using that by (auto simp: collect_filtered_def selected_def)
  have "\<exists>xs. distinct xs \<and> set xs = ?E\<^sup>* `` {t} \<and> (\<forall>s. visitPreOrder (collect_filtered select F) F t s =
      Some (Inr (False, fold (\<lambda>n s. if selected select F n then s @ [n] else s) xs s)))"
    by (rule visitPreOrder_ok [OF wf t]) (rule f)
  then obtain xs where xs: "distinct xs" "set xs = ?E\<^sup>* `` {t}" and v: "\<forall>s. visitPreOrder (collect_filtered select F) F t s =
      Some (Inr (False, fold (\<lambda>n s. if selected select F n then s @ [n] else s) xs s))"
    by (elim exE conjE) (rule that)
  let ?ys = "List.filter (selected select F) xs"
  from Cons.IH [of "s @ ?ys"] Cons.prems obtain zs where
    zs: "collect_trees select F ts (s @ ?ys) = Some (Inr ((s @ ?ys) @ zs))" "distinct zs"
    "set zs = {n \<in> \<Union>t \<in> set ts. ?E\<^sup>* `` {t}. selected select F n}" by auto
  have "?E\<^sup>* `` {t} \<inter> ?E\<^sup>* `` {u} = {}" if "u \<in> set ts" for u
    using that Cons.prems by (intro fo_roots_disjoint [OF wf]) auto
  then have "set ?ys \<inter> set zs = {}" unfolding zs(3) set_filter xs(2) by blast
  show ?case
  proof (intro exI conjI)
    show "collect_trees select F (t # ts) s = Some (Inr (s @ (?ys @ zs)))" using zs(1) by (simp add: v fold_select)
    show "distinct (?ys @ zs)" using xs(1) zs(2) \<open>set ?ys \<inter> set zs = {}\<close> by simp
    show "set (?ys @ zs) = {n \<in> \<Union>t \<in> set (t # ts). ?E\<^sup>* `` {t}. selected select F n}"
      unfolding set_append zs(3) set_filter xs(2) by auto
  qed
qed simp

lemma all_below_trees:
  assumes wf: "fo_wf F"
  shows "(\<Union>t \<in> set (fr_trees F). (fo_edges F)\<^sup>* `` {t}) = dom (fr_mem F)"
proof (intro set_eqI iffI)
  fix n assume "n \<in> (\<Union>t \<in> set (fr_trees F). (fo_edges F)\<^sup>* `` {t})"
  then obtain t where t: "t \<in> set (fr_trees F)" "(t, n) \<in> (fo_edges F)\<^sup>*" by auto
  from t(2) show "n \<in> dom (fr_mem F)"
    by (cases rule: rtranclE) (use t(1) fo_wfD(4) [OF wf] fo_edges_live(2) [OF wf] in auto)
next
  fix n assume "n \<in> dom (fr_mem F)"
  from fo_roots [OF wf this] show "n \<in> (\<Union>t \<in> set (fr_trees F). (fo_edges F)\<^sup>* `` {t})" by auto
qed

lemma filterOutLoops_ok:
  assumes wf: "fo_wf F"
  shows "\<exists>F'. filterOutLoops select F = Some (Inr F') \<and> fo_wf F' \<and>
    restricts {n \<in> dom (fr_mem F). \<not> selected select F n} F F'"
proof -
  from collect_trees_ok [OF wf fo_wfD(3) [OF wf] subset_refl, of select "[]"] obtain xs where
    xs: "collect_trees select F (fr_trees F) [] = Some (Inr ([] @ xs))" "distinct xs"
    "set xs = {n \<in> \<Union>t \<in> set (fr_trees F). (fo_edges F)\<^sup>* `` {t}. selected select F n}" by (elim exE conjE) (rule that)
  have sx: "set xs = {n \<in> dom (fr_mem F). selected select F n}" unfolding xs(3) all_below_trees [OF wf] ..
  then have "set xs \<subseteq> dom (fr_mem F)" by blast
  from destroy_nodes_ok [OF wf xs(2) this] obtain F' where
    F': "foldE destroy_node xs F = Inr F'" "fo_wf F'" "restricts (dom (fr_mem F) - set xs) F F'" by blast
  have "dom (fr_mem F) - set xs = {n \<in> dom (fr_mem F). \<not> selected select F n}" unfolding sx by blast
  with F' xs(1) show ?thesis by (auto simp: filterOutLoops_def)
qed

section \<open>Destruction\<close>

lemma destroy_dead: "fr_mem F n = None \<Longrightarrow> destroy_node n F = Inl DanglingDeref"
  by (simp add: destroy_node_def get_node_def)

lemma destroy_forest_map: "foldE (\<lambda>(l, n) F. destroy_node n F) ps F = foldE destroy_node (map snd ps) F"
  by (induction ps arbitrary: F) (auto simp: andThen_def split: sum.splits)

lemma destroy_forest_ok:
  assumes wf: "fo_wf F" and d: "distinct (map snd (fr_nodes F))" and live: "set (map snd (fr_nodes F)) \<subseteq> dom (fr_mem F)"
  shows "\<exists>F'. destroy_forest F = Inr F' \<and> dom (fr_mem F') = dom (fr_mem F) - set (map snd (fr_nodes F))"
  using destroy_nodes_ok [OF wf d live] unfolding destroy_forest_def destroy_forest_map restricts_def by blast

lemma destroy_forest_dead:
  assumes wf: "fo_wf F" and d: "distinct (map snd (fr_nodes F))" and dead: "\<not> set (map snd (fr_nodes F)) \<subseteq> dom (fr_mem F)"
  shows "destroy_forest F = Inl DanglingDeref"
proof -
  let ?ns = "map snd (fr_nodes F)"
  have "\<exists>x \<in> set ?ns. x \<notin> dom (fr_mem F)" using dead by blast
  then obtain xs x ys where split: "?ns = xs @ x # ys" "x \<notin> dom (fr_mem F)" "\<forall>y \<in> set xs. \<not> y \<notin> dom (fr_mem F)"
    by (rule split_list_first_propE)
  have "distinct xs" "set xs \<subseteq> dom (fr_mem F)" using d split by auto
  from destroy_nodes_ok [OF wf this] obtain F' where
    F': "foldE destroy_node xs F = Inr F'" "restricts (dom (fr_mem F) - set xs) F F'" by blast
  have "x \<notin> dom (fr_mem F')" using F'(2) split(2) by (auto simp: restricts_def)
  then have "fr_mem F' x = None" by auto
  then show ?thesis unfolding destroy_forest_def destroy_forest_map split(1) foldE_append by (simp add: F'(1) destroy_dead)
qed

section \<open>An example\<close>

text \<open>Three loops, each around the next; the middle one, which is not the outermost of the function, is also used alone.\<close>

definition onion_blocks :: "nat \<Rightarrow> nat list" where
  "onion_blocks l = (if l = 1 then [1, 2, 3] else if l = 2 then [2, 3] else [3])"

definition onion :: "nat \<Rightarrow> loop_structure" where
  "onion l = \<lparr>ls_ID = 0, ls_header = l, ls_preHeader = None, ls_depth = of_nat l, ls_parent = None, ls_invariants = [],
     ls_children = [], ls_latchBBs = [], ls_bbs = onion_blocks l, ls_orderedBBs = onion_blocks l, ls_exitBlocks = [], ls_exitEdges = []\<rparr>"

definition onion_module :: llvm_module where
  "onion_module =
     \<lparr>lm_loop = (\<lambda>_. \<lparr>ll_depth = 0, ll_header = 0, ll_preheader = None, ll_blocks = [], ll_isLatch = (\<lambda>_. False),
        ll_isInvariant = (\<lambda>_. False), ll_exitBlocks = [], ll_exitEdges = [], ll_parent = None, ll_subLoops = []\<rparr>),
      lm_insts = (\<lambda>_. []), lm_parent = (\<lambda>_. 0), lm_function = (\<lambda>_. 0), lm_succs = (\<lambda>_. [])\<rparr>"

text \<open>The dominator tree of its function is a chain.\<close>

definition onion_tree :: dom_tree where
  "onion_tree =
     \<lparr>dt_nodes = [1, 2, 3], bbNodeMap = (\<lambda>b. if b \<in> {Some 1, Some 2, Some 3} then b else None), dt_post = False,
      dt_mem = (\<lambda>n. \<lparr>dn_B = Some n, dn_level = 0, dn_parent = (if n = 1 then None else Some (n - 1)),
        dn_iDom = (if n = 1 then None else Some (n - 1)), dn_children = (if n < 3 then [Suc n] else [])\<rparr>), dt_next = 4\<rparr>"

lemma onion_edges: "dom_edges onion_tree = {(1, 2), (2, 3)}"
  by (auto simp: view_edges_def summary_view_def onion_tree_def split: if_splits)

lemma onion_tree_ok: "dt_ok onion_tree"
proof -
  have "acyclic (dom_edges onion_tree)"
    unfolding onion_edges by (rule acyclicI_order [where f = "\<lambda>n. - int n"]) auto
  then have "forest_view (summary_view onion_tree) (set (dt_nodes onion_tree))"
    unfolding forest_view_def by (auto simp: summary_view_def onion_tree_def inj_on_def)
  then show ?thesis unfolding dt_ok_def by (auto simp: onion_tree_def getNode_def)
qed

lemma onion_natural: "natural_loops onion_module onion [1, 2, 3]"
  unfolding natural_loops_def
proof (intro conjI)
  show "\<forall>l \<in> set [1, 2, 3]. \<forall>k \<in> set [1, 2, 3]. l \<noteq> k \<longrightarrow> set (ls_bbs (onion l)) \<inter> set (ls_bbs (onion k)) = {} \<or>
        set (ls_bbs (onion l)) \<subset> set (ls_bbs (onion k)) \<and> \<not> isIncluded (ls_header (onion k)) (onion l) \<and> ls_depth (onion l) \<noteq> 1 \<or>
        set (ls_bbs (onion k)) \<subset> set (ls_bbs (onion l)) \<and> \<not> isIncluded (ls_header (onion l)) (onion k) \<and> ls_depth (onion k) \<noteq> 1"
  proof -
    have "set (ls_bbs (onion 1)) = {1, 2, 3}" "set (ls_bbs (onion 2)) = {2, 3}" "set (ls_bbs (onion 3)) = {3}"
      "ls_header (onion l) = l" "ls_depth (onion 2) \<noteq> 1" "ls_depth (onion 3) \<noteq> 1" for l
      by (simp_all add: onion_def onion_blocks_def)
    note f = this
    have p: "{2, 3} \<subset> {1, 2, 3 :: nat}" "{3} \<subset> {1, 2, 3 :: nat}" "{3} \<subset> {2, 3 :: nat}" by (simp_all add: psubset_eq insert_eq_iff)
    show ?thesis unfolding list.set ball_simps isIncluded_def f using p f by simp
  qed
qed (simp_all add: onion_def onion_blocks_def isIncluded_def onion_module_def getFunction_def)

lemma natural_subset:
  assumes nat: "natural_loops M str loops" and d: "distinct ls" and sub: "set ls \<subseteq> set loops"
  shows "natural_loops M str ls"
  unfolding natural_loops_def
proof (intro conjI d)
  have "inj_on (\<lambda>l. ls_header (str l)) (set loops)" using nat unfolding natural_loops_def by (elim conjE)
  then show "inj_on (\<lambda>l. ls_header (str l)) (set ls)" using sub by (rule inj_on_subset)
next
  have "\<forall>l \<in> set loops. isIncluded (ls_header (str l)) (str l) \<and>
      (\<forall>b \<in> set (ls_bbs (str l)). lm_function M b = getFunction M (str l))"
    using nat unfolding natural_loops_def by (elim conjE)
  then show "\<forall>l \<in> set ls. isIncluded (ls_header (str l)) (str l) \<and>
      (\<forall>b \<in> set (ls_bbs (str l)). lm_function M b = getFunction M (str l))" using sub by (meson subsetD)
next
  let ?R = "\<lambda>l k. l \<noteq> k \<longrightarrow> set (ls_bbs (str l)) \<inter> set (ls_bbs (str k)) = {} \<or>
        set (ls_bbs (str l)) \<subset> set (ls_bbs (str k)) \<and> \<not> isIncluded (ls_header (str k)) (str l) \<and> ls_depth (str l) \<noteq> 1 \<or>
        set (ls_bbs (str k)) \<subset> set (ls_bbs (str l)) \<and> \<not> isIncluded (ls_header (str l)) (str k) \<and> ls_depth (str k) \<noteq> 1"
  have R: "\<forall>l \<in> set loops. \<forall>k \<in> set loops. ?R l k" using nat unfolding natural_loops_def by (elim conjE)
  show "\<forall>l \<in> set ls. \<forall>k \<in> set ls. ?R l k"
  proof (intro ballI)
    fix l k assume "l \<in> set ls" "k \<in> set ls"
    with sub have "l \<in> set loops" "k \<in> set loops" by blast+
    with bspec [OF bspec [OF R]] show "?R l k" .
  qed
qed

lemma onion_dominators: "set ls \<subseteq> {1, 2, 3} \<Longrightarrow> dominators_ok onion_module onion ls (\<lambda>_. Some onion_tree)"
proof -
  have *: "(1, 2) \<in> (dom_edges onion_tree)\<^sup>*" "(2, 3) \<in> (dom_edges onion_tree)\<^sup>*" "(1, 3) \<in> (dom_edges onion_tree)\<^sup>*"
    unfolding onion_edges by (auto intro: converse_rtrancl_into_rtrancl)
  assume ls: "set ls \<subseteq> {1, 2, 3}"
  show ?thesis
    unfolding dominators_ok_def
  proof (intro ballI exI conjI impI)
    show "Some onion_tree = Some onion_tree" and "dt_ok onion_tree" by (rule refl, rule onion_tree_ok)
    fix l k assume "l \<in> set ls" "k \<in> set ls" and inc: "isIncluded (ls_header (onion k)) (onion l)"
    with ls have lk: "l \<in> {1, 2, 3}" "k \<in> {1, 2, 3}" by auto
    show "getNode onion_tree (Some (ls_header (onion l))) = Some l" "getNode onion_tree (Some (ls_header (onion k))) = Some k"
      using lk by (auto simp: getNode_def onion_tree_def onion_def)
    show "(l, k) \<in> (dom_edges onion_tree)\<^sup>*" using lk inc * by (auto simp: isIncluded_def onion_def onion_blocks_def)
  qed
qed

lemma onion_encl: "encl onion [1, 2, 3] = {(0, 1), (0, 2), (1, 2)}" "encl onion [2, 3] = {(0, 1)}"
  by (auto simp: encl_def isIncluded_def onion_def onion_blocks_def less_Suc_eq numeral_eq_Suc)

lemma onion_pairs: "forest_pairs onion [1, 2, 3] = {(0, 1), (1, 2)}" "forest_pairs onion [2, 3] = {}"
proof -
  have d: "ls_depth (onion 1) = 1" "ls_depth (onion 2) \<noteq> 1" "ls_depth (onion 3) \<noteq> 1" by (simp_all add: onion_def)
  have "inner onion [1, 2, 3] = {(0, 1), (1, 2)}" unfolding inner_def onion_encl by auto
  then show "forest_pairs onion [1, 2, 3] = {(0, 1), (1, 2)}"
    unfolding forest_pairs_def onion_encl using d(1) by auto
  have "ls_depth (at onion [2, 3] i) \<noteq> 1" if "i < length [2, 3 :: nat]" for i
    using that d(2,3) by (cases i) (auto simp: less_Suc_eq)
  then show "forest_pairs onion [2, 3] = {}"
    unfolding forest_pairs_def by blast
qed

section \<open>Properties\<close>

text \<open>C18: the constructor. For natural loops whose headers dominate the headers inside them it returns a well-formed forest
  with one node for every given loop, in which a node is the parent of another one exactly when the loop of the second is
  immediately inside the loop of the first among the given loops and the first is, or is inside, a given loop of depth 1:
  the nesting of given loops without a given outermost loop around them is not recorded.\<close>

theorem forest_constructor:
  assumes "natural_loops M str loops" and "dominators_ok M str loops doms"
  shows "\<exists>F. StayConnectedNestedLoopForest_of M str loops doms = Some (Inr F) \<and> fo_wf F \<and>
    fr_nodes F = zip loops [0..<length loops] \<and>
    (\<forall>n. map_option fn_loop (fr_mem F n) = (if n < length loops then Some (loops ! n) else None)) \<and>
    fo_edges F = {(a, b) \<in> inner str loops. \<exists>i < length loops. ls_depth (str (loops ! i)) = 1 \<and> (a = i \<or> (i, a) \<in> encl str loops)}"
  using forest_constructor_ok [OF assms] unfolding forest_pairs_def by blast

lemma forest_constructor_witness:
  "(\<exists>F. StayConnectedNestedLoopForest_of onion_module onion [1, 2, 3] (\<lambda>_. Some onion_tree) = Some (Inr F) \<and>
     fo_edges F = {(0, 1), (1, 2)}) \<and>
   (\<exists>F. StayConnectedNestedLoopForest_of onion_module onion [2, 3] (\<lambda>_. Some onion_tree) = Some (Inr F) \<and> fo_edges F = {})"
proof
  from forest_constructor [OF onion_natural onion_dominators] show
    "\<exists>F. StayConnectedNestedLoopForest_of onion_module onion [1, 2, 3] (\<lambda>_. Some onion_tree) = Some (Inr F) \<and>
     fo_edges F = {(0, 1), (1, 2)}" unfolding forest_pairs_def [symmetric] onion_pairs by simp blast
  have "natural_loops onion_module onion [2, 3]" by (rule natural_subset [OF onion_natural]) simp_all
  from forest_constructor [OF this onion_dominators] show
    "\<exists>F. StayConnectedNestedLoopForest_of onion_module onion [2, 3] (\<lambda>_. Some onion_tree) = Some (Inr F) \<and> fo_edges F = {}"
    unfolding forest_pairs_def [symmetric] onion_pairs by simp blast
qed

text \<open>C19: filtering. \<open>filterOutLoops\<close> visits every node of a well-formed forest and deletes exactly those of the selected
  loops; what remains is a well-formed forest of the other loops, with the nesting they had.\<close>

theorem filtering_keeps_nesting:
  fixes F :: loop_forest and select :: "nat \<Rightarrow> bool"
  assumes "fo_wf F"
  defines "K \<equiv> {n \<in> dom (fr_mem F). \<not> select (fn_loop (the (fr_mem F n)))}"
  shows "\<exists>F'. filterOutLoops select F = Some (Inr F') \<and> fo_wf F' \<and> dom (fr_mem F') = K \<and>
    (\<forall>n \<in> K. map_option fn_loop (fr_mem F' n) = map_option fn_loop (fr_mem F n)) \<and>
    (fo_edges F')\<^sup>+ = {(a, b) \<in> (fo_edges F)\<^sup>+. a \<in> K \<and> b \<in> K}"
proof -
  have "{n \<in> dom (fr_mem F). \<not> selected select F n} = K" by (auto simp: K_def selected_def)
  with filterOutLoops_ok [OF assms(1), of select] show ?thesis unfolding restricts_def by (elim exE conjE) (intro exI conjI; simp)
qed

text \<open>The nest of three loops, without its loop in the middle.\<close>

lemma onion_trancl: "{(0, 1), (1, 2 :: nat)}\<^sup>+ = {(0, 1), (1, 2), (0, 2)}"
proof -
  have "{(0, 1), (1, 2 :: nat)}\<^sup>+ \<subseteq> {(0, 1), (1, 2), (0, 2)}"
  proof
    fix e assume "e \<in> {(0, 1), (1, 2 :: nat)}\<^sup>+"
    then have "(fst e, snd e) \<in> {(0, 1), (1, 2 :: nat)}\<^sup>+" by simp
    then have "(fst e, snd e) \<in> {(0, 1), (1, 2), (0, 2)}" by (induction rule: trancl_induct) auto
    then show "e \<in> {(0, 1), (1, 2), (0, 2)}" by simp
  qed
  moreover have "(0, 2) \<in> {(0, 1), (1, 2 :: nat)}\<^sup>+" by (rule trancl_into_trancl2 [of 0 1]) auto
  ultimately show ?thesis by auto
qed

lemma filtering_keeps_nesting_witness:
  "\<exists>F F'. StayConnectedNestedLoopForest_of onion_module onion [1, 2, 3] (\<lambda>_. Some onion_tree) = Some (Inr F) \<and>
     filterOutLoops (\<lambda>l. l = 2) F = Some (Inr F') \<and> (fo_edges F')\<^sup>+ = {(0, 2)}"
proof -
  from forest_constructor_ok [OF onion_natural onion_dominators] obtain F where
    F: "StayConnectedNestedLoopForest_of onion_module onion [1, 2, 3] (\<lambda>_. Some onion_tree) = Some (Inr F)" "fo_wf F"
    "fo_edges F = {(0, 1), (1, 2)}" "\<forall>i. map_option fn_loop (fr_mem F i) = (if i < length [1, 2, 3] then Some ([1, 2, 3] ! i) else None)"
    unfolding onion_pairs by auto
  from F(4) [rule_format, of 0] F(4) [rule_format, of 1] F(4) [rule_format, of 2] obtain r0 r1 r2 where
    r: "fr_mem F 0 = Some r0" "fn_loop r0 = 1" "fr_mem F 1 = Some r1" "fn_loop r1 = 2" "fr_mem F 2 = Some r2" "fn_loop r2 = 3"
    by auto
  let ?K = "{n \<in> dom (fr_mem F). \<not> fn_loop (the (fr_mem F n)) = 2}"
  from filtering_keeps_nesting [OF F(2), of "\<lambda>l. l = 2"] obtain F' where
    F': "filterOutLoops (\<lambda>l. l = 2) F = Some (Inr F')" "(fo_edges F')\<^sup>+ = {(a, b) \<in> (fo_edges F)\<^sup>+. a \<in> ?K \<and> b \<in> ?K}" by blast
  have "0 \<in> ?K" "1 \<notin> ?K" "2 \<in> ?K" using r by (simp_all add: domI)
  then have "(fo_edges F')\<^sup>+ = {(0, 2)}" unfolding F'(2) F(3) onion_trancl by auto
  with F(1) F'(1) show ?thesis by blast
qed

text \<open>Destruction. The destructor of a forest whose table of nodes lists the live nodes deletes them all; after a
  filtering that deleted a node the table still lists it, and the destructor deletes it a second time.\<close>

theorem destruction_after_filtering:
  assumes "fo_wf F" and "distinct (map snd (fr_nodes F))" and "set (map snd (fr_nodes F)) = dom (fr_mem F)"
  shows "(\<exists>F'. destroy_forest F = Inr F' \<and> dom (fr_mem F') = {}) \<and>
    (\<exists>F'. filterOutLoops select F = Some (Inr F') \<and>
      ((\<exists>n r. fr_mem F n = Some r \<and> select (fn_loop r)) \<longleftrightarrow> destroy_forest F' = Inl DanglingDeref))"
proof
  show "\<exists>F'. destroy_forest F = Inr F' \<and> dom (fr_mem F') = {}" using destroy_forest_ok [OF assms(1,2)] assms(3) by simp
  from filterOutLoops_ok [OF assms(1), of select] obtain F' where
    F': "filterOutLoops select F = Some (Inr F')" "fo_wf F'" "restricts {n \<in> dom (fr_mem F). \<not> selected select F n} F F'" by blast
  have n: "fr_nodes F' = fr_nodes F" and d: "dom (fr_mem F') = {n \<in> dom (fr_mem F). \<not> selected select F n}"
    using F'(3) by (auto simp: restricts_def)
  have "(\<exists>n r. fr_mem F n = Some r \<and> select (fn_loop r)) \<longleftrightarrow> \<not> set (map snd (fr_nodes F')) \<subseteq> dom (fr_mem F')"
    unfolding n assms(3) d by (auto simp: selected_def)
  also have "\<dots> \<longleftrightarrow> destroy_forest F' = Inl DanglingDeref"
  proof
    assume "destroy_forest F' = Inl DanglingDeref"
    with destroy_forest_ok [OF F'(2)] assms(2) n show "\<not> set (map snd (fr_nodes F')) \<subseteq> dom (fr_mem F')" by auto
  qed (use destroy_forest_dead [OF F'(2)] assms(2) n in simp)
  finally show "\<exists>F'. filterOutLoops select F = Some (Inr F') \<and>
      ((\<exists>n r. fr_mem F n = Some r \<and> select (fn_loop r)) \<longleftrightarrow> destroy_forest F' = Inl DanglingDeref)" using F'(1) by blast
qed

lemma destruction_after_filtering_witness:
  "\<exists>F F'. StayConnectedNestedLoopForest_of onion_module onion [1, 2, 3] (\<lambda>_. Some onion_tree) = Some (Inr F) \<and>
     filterOutLoops (\<lambda>l. l = 2) F = Some (Inr F') \<and> destroy_forest F' = Inl DanglingDeref"
proof -
  have "set [1, 2, 3] \<subseteq> {1, 2, 3 :: nat}" by simp
  from forest_constructor_ok [OF onion_natural onion_dominators [OF this]] obtain F where
    F: "StayConnectedNestedLoopForest_of onion_module onion [1, 2, 3] (\<lambda>_. Some onion_tree) = Some (Inr F)" "fo_wf F"
    "fr_nodes F = zip [1, 2, 3] [0..<length [1, 2, 3 :: nat]]"
    "\<forall>i. map_option fn_loop (fr_mem F i) = (if i < length [1, 2, 3 :: nat] then Some ([1, 2, 3] ! i) else None)" by blast
  have nodes: "map snd (fr_nodes F) = [0, 1, 2]" unfolding F(3) by (simp add: upt_rec)
  have "dom (fr_mem F) = {0, 1, 2}"
  proof (intro set_eqI)
    fix i show "i \<in> dom (fr_mem F) \<longleftrightarrow> i \<in> {0, 1, 2}"
      using F(4) [rule_format, of i] by (cases "fr_mem F i") (auto split: if_splits)
  qed
  with nodes have live: "distinct (map snd (fr_nodes F))" "set (map snd (fr_nodes F)) = dom (fr_mem F)" by simp_all
  from F(4) [rule_format, of 1] obtain r1 where "fr_mem F 1 = Some r1" "fn_loop r1 = 2" by auto
  with destruction_after_filtering [OF F(2) live, of "\<lambda>l. l = 2"] F(1) show ?thesis by blast
qed

end
