(* ===== verification/Runtime.thy ===== *)
theory Runtime
  imports NoellePrelude "HOL-Library.Word"
begin

text \<open>
  The runtime that parallelised loops are linked with: \<open>core/runtime/Parallelizer_utils.cpp\<close>, its accounting of cores and
  its memory for the arguments of DOALL tasks. The operations run under the spin locks of the runtime, so each is one
  step. Cores are counted with the 32 bits of the source: \<open>NOELLE_idleCores\<close> is a signed field that is compared with the
  unsigned request, which C++ does on unsigned values, as \<open>\<le>\<close> does on words. The number of hardware threads, the environment variable
  and the contents of fresh memory are parameters; allocations succeed.
\<close>

section \<open>Cores\<close>

record doall_args =
  da_parallelizedLoop :: nat
  da_env :: nat
  da_coreID :: "64 word"
  da_numCores :: "64 word"
  da_chunkSize :: "64 word"
  da_endLock :: bool

record noelle_runtime =
  idleCores :: "32 word"
  maxCores :: "32 word"
  doallMemorySizes :: "32 word list"
  doallMemoryAvailability :: "bool list"
  doallMemory :: "nat list"
  rt_mem :: "nat \<Rightarrow> doall_args list"
  rt_next :: nat

text \<open>\<open>NOELLE_CORES\<close>, as \<open>atoi\<close> reads it, or half of the hardware threads but one; \<open>cores\<close> is the static variable of
  the method.\<close>

definition getMaximumNumberOfCores :: "32 word option \<Rightarrow> 32 word \<Rightarrow> 32 word \<Rightarrow> 32 word" where
  "getMaximumNumberOfCores envVar hardware_concurrency cores =
     (if cores = 0 then (case envVar of None \<Rightarrow> hardware_concurrency div 2 - 1 | Some n \<Rightarrow> n) else cores)"

definition NoelleRuntime_of :: "32 word option \<Rightarrow> 32 word \<Rightarrow> noelle_runtime" where
  "NoelleRuntime_of envVar hardware_concurrency =
     (let m = getMaximumNumberOfCores envVar hardware_concurrency 0
      in \<lparr>idleCores = m, maxCores = m, doallMemorySizes = [], doallMemoryAvailability = [], doallMemory = [],
          rt_mem = (\<lambda>_. []), rt_next = 0\<rparr>)"

definition reserveCores :: "32 word \<Rightarrow> noelle_runtime \<Rightarrow> 32 word \<times> noelle_runtime" where
  "reserveCores coresRequested rt =
     (let n = (if coresRequested \<le> idleCores rt then coresRequested else idleCores rt);
          numCores = (if n < 1 then 1 else n)
      in (numCores, rt\<lparr>idleCores := idleCores rt - numCores\<rparr>))"

definition releaseCores :: "32 word \<Rightarrow> noelle_runtime \<Rightarrow> noelle_runtime res" where
  "releaseCores coresReleased rt =
     check (0 < coresReleased) AssertFailed (Inr (rt\<lparr>idleCores := idleCores rt + coresReleased\<rparr>))"

section \<open>Memory for the arguments of DOALL tasks\<close>

text \<open>The first available block of sufficient size, from index \<open>i\<close> on.\<close>

fun find_block :: "32 word \<Rightarrow> nat \<Rightarrow> bool list \<Rightarrow> 32 word list \<Rightarrow> nat option" where
  "find_block cores i (a # as) (s # ss) = (if a \<and> cores \<le> s then Some i else find_block cores (Suc i) as ss)"
| "find_block cores i _ _ = None"

definition fresh_args :: "(nat \<Rightarrow> doall_args) \<Rightarrow> 32 word \<Rightarrow> doall_args list" where
  "fresh_args uninit cores = map (\<lambda>i. (uninit i)\<lparr>da_coreID := of_nat i, da_endLock := True\<rparr>) [0..<unat cores]"

definition getDOALLArgs :: "(nat \<Rightarrow> doall_args) \<Rightarrow> 32 word \<Rightarrow> noelle_runtime \<Rightarrow> (nat \<times> nat) \<times> noelle_runtime" where
  "getDOALLArgs uninit cores rt =
     (case find_block cores 0 (doallMemoryAvailability rt) (doallMemorySizes rt) of
        Some i \<Rightarrow>
          ((doallMemory rt ! i, i),
           rt\<lparr>doallMemoryAvailability := (doallMemoryAvailability rt)[i := False]\<rparr>)
      | None \<Rightarrow>
          (let b = rt_next rt
           in ((b, length (doallMemoryAvailability rt)),
               rt\<lparr>doallMemorySizes := doallMemorySizes rt @ [cores],
                  doallMemoryAvailability := doallMemoryAvailability rt @ [False],
                  doallMemory := doallMemory rt @ [b],
                  rt_mem := (rt_mem rt)(b := fresh_args uninit cores), rt_next := Suc b\<rparr>)))"

definition releaseDOALLArgs :: "nat \<Rightarrow> noelle_runtime \<Rightarrow> noelle_runtime res" where
  "releaseDOALLArgs index rt =
     check (index < length (doallMemoryAvailability rt)) OutOfRange
       (Inr (rt\<lparr>doallMemoryAvailability := (doallMemoryAvailability rt)[index := True]\<rparr>))"

end
