(* ===== verification/DoallRun.thy ===== *)
theory DoallRun
  imports Runtime Protocols
begin

text \<open>
  A DOALL dispatch: \<open>NOELLE_DOALLDispatcher\<close> and \<open>NOELLE_DOALLTrampoline\<close> of \<open>core/runtime/Parallelizer_utils.cpp\<close>.

  The thread pool VIRGIL is not part of the repository: a submitted task is in \<open>dr_pool\<close> until some thread of the pool
  runs it. The dispatcher and the tasks interleave arbitrarily. The parallelised loop is code that the compiler generates;
  \<open>dr_calls\<close> logs its calls with their arguments. A spin lock is a flag: taking it is a step that waits for it to be free.
\<close>

section \<open>The steps\<close>

record doall_call =
  dc_parallelizedLoop :: nat
  dc_env :: nat
  dc_maxNumberOfCores :: "64 word"
  dc_chunkSize :: "64 word"

record doall_frame = doall_call +
  df_numCores :: "32 word"
  df_argsForAllCores :: nat
  df_doallMemoryIndex :: nat

datatype doall_pc = Submitting nat | OwnTask | Joining nat | Cleanup | Returned

type_synonym loop_call = "nat \<times> nat \<times> 64 word \<times> 64 word \<times> 64 word"

record doall_run =
  dr_pc :: doall_pc
  dr_rt :: noelle_runtime
  dr_pool :: "nat set"
  dr_invoked :: "nat set"
  dr_calls :: "loop_call list"

text \<open>The dispatcher up to its first loop: cores and memory are reserved.\<close>

definition doall_enter :: "(nat \<Rightarrow> doall_args) \<Rightarrow> doall_call \<Rightarrow> noelle_runtime \<Rightarrow> doall_frame \<times> doall_run" where
  "doall_enter uninit C rt =
     (let (numCores, rt1) = reserveCores (ucast (dc_maxNumberOfCores C)) rt;
          ((b, index), rt2) = getDOALLArgs uninit (numCores - 1) rt1
      in (doall_call.extend C \<lparr>df_numCores = numCores, df_argsForAllCores = b, df_doallMemoryIndex = index\<rparr>,
          \<lparr>dr_pc = Submitting 0, dr_rt = rt2, dr_pool = {}, dr_invoked = {}, dr_calls = []\<rparr>))"

definition tasks :: "'a doall_frame_scheme \<Rightarrow> nat" where
  "tasks D = unat (df_numCores D - 1)"

definition args_at :: "'a doall_frame_scheme \<Rightarrow> doall_run \<Rightarrow> nat \<Rightarrow> doall_args" where
  "args_at D s i = rt_mem (dr_rt s) (df_argsForAllCores D) ! i"

definition put_args :: "'a doall_frame_scheme \<Rightarrow> nat \<Rightarrow> doall_args \<Rightarrow> doall_run \<Rightarrow> doall_run" where
  "put_args D i a s = s\<lparr>dr_rt := (dr_rt s)\<lparr>rt_mem := (rt_mem (dr_rt s))
     (df_argsForAllCores D := (rt_mem (dr_rt s) (df_argsForAllCores D))[i := a])\<rparr>\<rparr>"

definition prepared :: "'a doall_frame_scheme \<Rightarrow> doall_args \<Rightarrow> doall_args" where
  "prepared D a = a\<lparr>da_parallelizedLoop := dc_parallelizedLoop D, da_env := dc_env D, da_numCores := ucast (df_numCores D),
     da_chunkSize := dc_chunkSize D\<rparr>"

definition own_call :: "'a doall_frame_scheme \<Rightarrow> loop_call" where
  "own_call D = (dc_parallelizedLoop D, dc_env D, ucast (df_numCores D - 1), ucast (df_numCores D), dc_chunkSize D)"

definition task_call :: "doall_args \<Rightarrow> loop_call" where
  "task_call a = (da_parallelizedLoop a, da_env a, da_coreID a, da_numCores a, da_chunkSize a)"

inductive doall_step :: "doall_frame \<Rightarrow> doall_run \<Rightarrow> doall_run \<Rightarrow> bool" for D where
  submit: "dr_pc s = Submitting i \<Longrightarrow> i < tasks D \<Longrightarrow>
     doall_step D s ((put_args D i (prepared D (args_at D s i)) s)\<lparr>dr_pc := Submitting (Suc i), dr_pool := insert i (dr_pool s)\<rparr>)"
| submitted: "dr_pc s = Submitting i \<Longrightarrow> \<not> i < tasks D \<Longrightarrow> doall_step D s (s\<lparr>dr_pc := OwnTask\<rparr>)"
| own: "dr_pc s = OwnTask \<Longrightarrow> doall_step D s (s\<lparr>dr_pc := Joining 0, dr_calls := dr_calls s @ [own_call D]\<rparr>)"
| join: "dr_pc s = Joining i \<Longrightarrow> i < tasks D \<Longrightarrow> \<not> da_endLock (args_at D s i) \<Longrightarrow>
     doall_step D s ((put_args D i ((args_at D s i)\<lparr>da_endLock := True\<rparr>) s)\<lparr>dr_pc := Joining (Suc i)\<rparr>)"
| joined: "dr_pc s = Joining i \<Longrightarrow> \<not> i < tasks D \<Longrightarrow> doall_step D s (s\<lparr>dr_pc := Cleanup\<rparr>)"
| cleanup: "dr_pc s = Cleanup \<Longrightarrow> releaseCores (df_numCores D) (dr_rt s) = Inr rt1 \<Longrightarrow>
     releaseDOALLArgs (df_doallMemoryIndex D) rt1 = Inr rt2 \<Longrightarrow> doall_step D s (s\<lparr>dr_pc := Returned, dr_rt := rt2\<rparr>)"
| task: "i \<in> dr_pool s \<Longrightarrow>
     doall_step D s (s\<lparr>dr_pool := dr_pool s - {i}, dr_invoked := insert i (dr_invoked s),
       dr_calls := dr_calls s @ [task_call (args_at D s i)]\<rparr>)"
| task_end: "i \<in> dr_invoked s \<Longrightarrow>
     doall_step D s ((put_args D i ((args_at D s i)\<lparr>da_endLock := False\<rparr>) s)\<lparr>dr_invoked := dr_invoked s - {i}\<rparr>)"

inductive_cases doall_stepE: "doall_step D s t"

section \<open>The runtime's memory\<close>

text \<open>Every block of arguments has the recorded size and numbers its cores; in an available block all end locks are taken.\<close>

definition args_ok :: "bool \<Rightarrow> nat \<Rightarrow> doall_args list \<Rightarrow> bool" where
  "args_ok free n xs \<longleftrightarrow> length xs = n \<and> (\<forall>i < n. da_coreID (xs ! i) = of_nat i \<and> (free \<longrightarrow> da_endLock (xs ! i)))"

definition rt_wf :: "noelle_runtime \<Rightarrow> bool" where
  "rt_wf rt \<longleftrightarrow> length (doallMemorySizes rt) = length (doallMemory rt) \<and>
     length (doallMemoryAvailability rt) = length (doallMemory rt) \<and> distinct (doallMemory rt) \<and>
     (\<forall>b \<in> set (doallMemory rt). b < rt_next rt) \<and>
     (\<forall>k < length (doallMemory rt). args_ok (doallMemoryAvailability rt ! k) (unat (doallMemorySizes rt ! k)) (rt_mem rt (doallMemory rt ! k)))"

lemma find_block_Some:
  "find_block c i as ss = Some k \<Longrightarrow> \<exists>j. k = i + j \<and> j < length as \<and> j < length ss \<and> as ! j \<and> c \<le> ss ! j"
proof (induction c i as ss rule: find_block.induct)
  case (1 c i a as s ss)
  show ?case
  proof (cases "a \<and> c \<le> s")
    case True
    with 1 show ?thesis by (intro exI [of _ 0]) auto
  next
    case False
    with 1 obtain j where "k = Suc i + j" "j < length as" "j < length ss" "as ! j" "c \<le> ss ! j" by auto
    then show ?thesis by (intro exI [of _ "Suc j"]) simp
  qed
qed simp_all

lemma NoelleRuntime_of_wf: "rt_wf (NoelleRuntime_of envVar hw)"
  by (simp add: rt_wf_def NoelleRuntime_of_def Let_def)

lemma reserveCores_simps:
  "reserveCores c rt = (n, rt1) \<Longrightarrow> rt1 = rt\<lparr>idleCores := idleCores rt - n\<rparr> \<and> 0 < n"
  by (auto simp: reserveCores_def Let_def word_gt_0 word_less_1 split: if_splits)

text \<open>The memory given out: a block that no other call uses, with enough elements, all of them locked.\<close>

lemma getDOALLArgs_ok:
  assumes wf: "rt_wf rt" and get: "getDOALLArgs uninit cores rt = ((b, k), rt1)"
  shows "rt_wf rt1" and "idleCores rt1 = idleCores rt" and "maxCores rt1 = maxCores rt"
    and "k < length (doallMemory rt1)" "doallMemory rt1 ! k = b" "\<not> doallMemoryAvailability rt1 ! k"
    and "unat cores \<le> length (rt_mem rt1 b)" "\<forall>i < length (rt_mem rt1 b). da_endLock (rt_mem rt1 b ! i) \<and> da_coreID (rt_mem rt1 b ! i) = of_nat i"
    and "\<forall>j < length (doallMemory rt). doallMemory rt1 ! j = doallMemory rt ! j \<and>
      (j \<noteq> k \<longrightarrow> doallMemoryAvailability rt1 ! j = doallMemoryAvailability rt ! j)"
    and "length (doallMemory rt) \<le> length (doallMemory rt1)" and "k < length (doallMemory rt) \<Longrightarrow> doallMemoryAvailability rt ! k"
proof -
  have len: "length (doallMemorySizes rt) = length (doallMemory rt)" "length (doallMemoryAvailability rt) = length (doallMemory rt)"
    "distinct (doallMemory rt)" "\<forall>b \<in> set (doallMemory rt). b < rt_next rt"
    and ok: "\<And>k. k < length (doallMemory rt) \<Longrightarrow>
      args_ok (doallMemoryAvailability rt ! k) (unat (doallMemorySizes rt ! k)) (rt_mem rt (doallMemory rt ! k))"
    using wf by (simp_all add: rt_wf_def)
  have "rt_wf rt1 \<and> idleCores rt1 = idleCores rt \<and> maxCores rt1 = maxCores rt \<and> k < length (doallMemory rt1) \<and> doallMemory rt1 ! k = b \<and>
    \<not> doallMemoryAvailability rt1 ! k \<and> unat cores \<le> length (rt_mem rt1 b) \<and>
    (\<forall>i < length (rt_mem rt1 b). da_endLock (rt_mem rt1 b ! i) \<and> da_coreID (rt_mem rt1 b ! i) = of_nat i) \<and>
    (\<forall>j < length (doallMemory rt). doallMemory rt1 ! j = doallMemory rt ! j \<and>
      (j \<noteq> k \<longrightarrow> doallMemoryAvailability rt1 ! j = doallMemoryAvailability rt ! j)) \<and>
    length (doallMemory rt) \<le> length (doallMemory rt1) \<and> (k < length (doallMemory rt) \<longrightarrow> doallMemoryAvailability rt ! k)"
  proof (cases "find_block cores 0 (doallMemoryAvailability rt) (doallMemorySizes rt)")
    case (Some i)
    with get have e: "k = i" "b = doallMemory rt ! i" "rt1 = rt\<lparr>doallMemoryAvailability := (doallMemoryAvailability rt)[i := False]\<rparr>"
      by (auto simp: getDOALLArgs_def)
    from find_block_Some [OF Some] len have i: "i < length (doallMemory rt)" "doallMemoryAvailability rt ! i"
      "unat cores \<le> unat (doallMemorySizes rt ! i)" by (simp_all add: word_le_nat_alt)
    have "args_ok (doallMemoryAvailability rt1 ! j) (unat (doallMemorySizes rt ! j)) (rt_mem rt (doallMemory rt ! j))"
      if "j < length (doallMemory rt)" for j
      using ok [OF that] i len by (auto simp: e args_ok_def nth_list_update)
    then have "rt_wf rt1" using len by (simp add: rt_wf_def e)
    moreover have "args_ok True (unat (doallMemorySizes rt ! i)) (rt_mem rt b)" using ok [OF i(1)] i(2) by (simp add: e)
    ultimately show ?thesis using i len by (auto simp: e args_ok_def nth_list_update)
  next
    case None
    let ?m = "doallMemory rt" and ?b = "rt_next rt"
    from None get have e: "b = ?b" "k = length ?m" "rt1 = rt\<lparr>doallMemorySizes := doallMemorySizes rt @ [cores],
                  doallMemoryAvailability := doallMemoryAvailability rt @ [False], doallMemory := ?m @ [?b],
                  rt_mem := (rt_mem rt)(?b := fresh_args uninit cores), rt_next := Suc ?b\<rparr>"
      using len by (auto simp: getDOALLArgs_def Let_def)
    have f: "args_ok True (unat cores) (fresh_args uninit cores)" by (simp add: args_ok_def fresh_args_def)
    have "?b \<notin> set ?m" using len(4) by blast
    moreover have "args_ok (doallMemoryAvailability rt1 ! j) (unat (doallMemorySizes rt1 ! j)) (rt_mem rt1 (doallMemory rt1 ! j))"
      if "j < Suc (length ?m)" for j
    proof (cases "j < length ?m")
      case True
      then have "?m ! j \<noteq> ?b" using \<open>?b \<notin> set ?m\<close> nth_mem by metis
      with ok [OF True] True len show ?thesis by (simp add: e nth_append)
    next
      case False
      with that have "j = length ?m" by simp
      with f len show ?thesis by (simp add: e nth_append args_ok_def)
    qed
    ultimately have "rt_wf rt1" using len by (auto simp: rt_wf_def e less_Suc_eq)
    with f len show ?thesis by (simp add: e nth_append args_ok_def)
  qed
  then show "rt_wf rt1" "idleCores rt1 = idleCores rt" "maxCores rt1 = maxCores rt" "k < length (doallMemory rt1)" "doallMemory rt1 ! k = b"
    "\<not> doallMemoryAvailability rt1 ! k" "unat cores \<le> length (rt_mem rt1 b)"
    "\<forall>i < length (rt_mem rt1 b). da_endLock (rt_mem rt1 b ! i) \<and> da_coreID (rt_mem rt1 b ! i) = of_nat i"
    "\<forall>j < length (doallMemory rt). doallMemory rt1 ! j = doallMemory rt ! j \<and>
      (j \<noteq> k \<longrightarrow> doallMemoryAvailability rt1 ! j = doallMemoryAvailability rt ! j)"
    "length (doallMemory rt) \<le> length (doallMemory rt1)" "k < length (doallMemory rt) \<Longrightarrow> doallMemoryAvailability rt ! k" by simp_all
qed

section \<open>Correctness of a dispatch\<close>

definition submitted_count :: "'a doall_frame_scheme \<Rightarrow> doall_pc \<Rightarrow> nat" where
  "submitted_count D pc = (case pc of Submitting i \<Rightarrow> i | _ \<Rightarrow> tasks D)"

definition joined_count :: "'a doall_frame_scheme \<Rightarrow> doall_pc \<Rightarrow> nat" where
  "joined_count D pc = (case pc of Submitting _ \<Rightarrow> 0 | OwnTask \<Rightarrow> 0 | Joining i \<Rightarrow> i | _ \<Rightarrow> tasks D)"

definition own_done :: "doall_pc \<Rightarrow> bool" where
  "own_done pc = (case pc of Submitting _ \<Rightarrow> False | OwnTask \<Rightarrow> False | _ \<Rightarrow> True)"

definition call_of :: "'a doall_frame_scheme \<Rightarrow> nat \<Rightarrow> loop_call" where
  "call_of D i = (dc_parallelizedLoop D, dc_env D, of_nat i, ucast (df_numCores D), dc_chunkSize D)"

lemmas doall_counts = submitted_count_def joined_count_def own_done_def

abbreviation args_of :: "'a doall_frame_scheme \<Rightarrow> doall_run \<Rightarrow> doall_args list" where
  "args_of D s \<equiv> rt_mem (dr_rt s) (df_argsForAllCores D)"

text \<open>The runtime when the dispatch runs and when it has returned; \<open>rt\<close> is the runtime with the cores and the block reserved.\<close>

definition rt_during :: "'a doall_frame_scheme \<Rightarrow> noelle_runtime \<Rightarrow> doall_run \<Rightarrow> bool" where
  "rt_during D rt s \<longleftrightarrow>
     idleCores (dr_rt s) = (if dr_pc s = Returned then idleCores rt + df_numCores D else idleCores rt) \<and>
     doallMemoryAvailability (dr_rt s) =
       (if dr_pc s = Returned then (doallMemoryAvailability rt)[df_doallMemoryIndex D := True] else doallMemoryAvailability rt) \<and>
     maxCores (dr_rt s) = maxCores rt \<and> doallMemorySizes (dr_rt s) = doallMemorySizes rt \<and>
     doallMemory (dr_rt s) = doallMemory rt \<and> rt_next (dr_rt s) = rt_next rt \<and>
     (\<forall>b. b \<noteq> df_argsForAllCores D \<longrightarrow> rt_mem (dr_rt s) b = rt_mem rt b)"

definition doall_inv :: "doall_frame \<Rightarrow> noelle_runtime \<Rightarrow> doall_run \<Rightarrow> bool" where
  "doall_inv D rt s \<longleftrightarrow>
     rt_during D rt s \<and>
     submitted_count D (dr_pc s) \<le> tasks D \<and> joined_count D (dr_pc s) \<le> tasks D \<and>
     dr_pool s \<union> dr_invoked s \<subseteq> {joined_count D (dr_pc s)..<submitted_count D (dr_pc s)} \<and> dr_pool s \<inter> dr_invoked s = {} \<and>
     length (args_of D s) = length (rt_mem rt (df_argsForAllCores D)) \<and>
     (\<forall>i < length (args_of D s). da_coreID (args_at D s i) = of_nat i \<and>
        (da_endLock (args_at D s i) \<longleftrightarrow> \<not> (joined_count D (dr_pc s) \<le> i \<and> i < submitted_count D (dr_pc s) \<and> i \<notin> dr_pool s \<union> dr_invoked s))) \<and>
     (\<forall>i < submitted_count D (dr_pc s). task_call (args_at D s i) = call_of D i) \<and>
     mset (dr_calls s) = image_mset (call_of D) (mset_set ({..<submitted_count D (dr_pc s)} - dr_pool s)) +
       (if own_done (dr_pc s) then {#call_of D (tasks D)#} else {#})"

text \<open>What the dispatch needs of its frame.\<close>

definition frame_ok :: "doall_frame \<Rightarrow> noelle_runtime \<Rightarrow> bool" where
  "frame_ok D rt \<longleftrightarrow> 0 < df_numCores D \<and> df_doallMemoryIndex D < length (doallMemoryAvailability rt) \<and>
     tasks D \<le> length (rt_mem rt (df_argsForAllCores D)) \<and>
     (\<forall>i < length (rt_mem rt (df_argsForAllCores D)). da_endLock (rt_mem rt (df_argsForAllCores D) ! i) \<and>
        da_coreID (rt_mem rt (df_argsForAllCores D) ! i) = of_nat i)"

lemma own_call_eq: "own_call D = call_of D (tasks D)"
  by (simp add: own_call_def call_of_def tasks_def)

lemma put_args_simps [simp]:
  "dr_pc (put_args D i a s) = dr_pc s" "dr_pool (put_args D i a s) = dr_pool s" "dr_invoked (put_args D i a s) = dr_invoked s"
  "dr_calls (put_args D i a s) = dr_calls s" "args_of D (put_args D i a s) = (args_of D s)[i := a]"
  by (simp_all add: put_args_def)

lemma args_at_simps [simp]:
  "args_at D (s\<lparr>dr_pc := p\<rparr>) j = args_at D s j" "args_at D (s\<lparr>dr_pool := q\<rparr>) j = args_at D s j"
  "args_at D (s\<lparr>dr_invoked := q\<rparr>) j = args_at D s j" "args_at D (s\<lparr>dr_calls := c\<rparr>) j = args_at D s j"
  by (simp_all add: args_at_def)

lemma args_at_put: "i < length (args_of D s) \<Longrightarrow> args_at D (put_args D i a s) j = (if j = i then a else args_at D s j)"
  by (simp add: args_at_def nth_list_update)

lemma prepared_call: "da_coreID a = of_nat i \<Longrightarrow> task_call (prepared D a) = call_of D i"
  by (simp add: task_call_def prepared_def call_of_def)

lemma prepared_simps [simp]: "da_coreID (prepared D a) = da_coreID a" "da_endLock (prepared D a) = da_endLock a"
  by (simp_all add: prepared_def)

lemma task_call_lock [simp]: "task_call (a\<lparr>da_endLock := x\<rparr>) = task_call a"
  by (simp add: task_call_def)

lemma doall_init:
  assumes "frame_ok D rt"
  shows "doall_inv D rt \<lparr>dr_pc = Submitting 0, dr_rt = rt, dr_pool = {}, dr_invoked = {}, dr_calls = []\<rparr>"
  using assms by (simp add: doall_inv_def frame_ok_def rt_during_def doall_counts args_at_def)

lemma rt_during_put: "dr_pc s \<noteq> Returned \<Longrightarrow> p \<noteq> Returned \<Longrightarrow> rt_during D rt s \<Longrightarrow>
    rt_during D rt ((put_args D i a s)\<lparr>dr_pc := p\<rparr>)"
  by (simp add: rt_during_def put_args_def)

lemma rt_during_cong:
  "dr_rt t = dr_rt s \<Longrightarrow> (dr_pc t = Returned) = (dr_pc s = Returned) \<Longrightarrow> rt_during D rt s \<Longrightarrow> rt_during D rt t"
  by (simp add: rt_during_def)

lemma doall_invD:
  assumes "doall_inv D rt s"
  shows "rt_during D rt s" "submitted_count D (dr_pc s) \<le> tasks D" "joined_count D (dr_pc s) \<le> tasks D"
    "dr_pool s \<union> dr_invoked s \<subseteq> {joined_count D (dr_pc s)..<submitted_count D (dr_pc s)}" "dr_pool s \<inter> dr_invoked s = {}"
    "length (args_of D s) = length (rt_mem rt (df_argsForAllCores D))"
    "\<And>i. i < length (args_of D s) \<Longrightarrow> da_coreID (args_at D s i) = of_nat i"
    "\<And>i. i < length (args_of D s) \<Longrightarrow> da_endLock (args_at D s i) \<longleftrightarrow>
      \<not> (joined_count D (dr_pc s) \<le> i \<and> i < submitted_count D (dr_pc s) \<and> i \<notin> dr_pool s \<and> i \<notin> dr_invoked s)"
    "\<And>i. i < submitted_count D (dr_pc s) \<Longrightarrow> task_call (args_at D s i) = call_of D i"
    "mset (dr_calls s) = image_mset (call_of D) (mset_set ({..<submitted_count D (dr_pc s)} - dr_pool s)) +
       (if own_done (dr_pc s) then {#call_of D (tasks D)#} else {#})"
  using assms unfolding doall_inv_def by simp_all

lemma doall_invI:
  assumes "rt_during D rt s" "submitted_count D (dr_pc s) \<le> tasks D" "joined_count D (dr_pc s) \<le> tasks D"
    "dr_pool s \<union> dr_invoked s \<subseteq> {joined_count D (dr_pc s)..<submitted_count D (dr_pc s)}" "dr_pool s \<inter> dr_invoked s = {}"
    "length (args_of D s) = length (rt_mem rt (df_argsForAllCores D))"
    "\<And>i. i < length (args_of D s) \<Longrightarrow> da_coreID (args_at D s i) = of_nat i"
    "\<And>i. i < length (args_of D s) \<Longrightarrow> da_endLock (args_at D s i) \<longleftrightarrow>
      \<not> (joined_count D (dr_pc s) \<le> i \<and> i < submitted_count D (dr_pc s) \<and> i \<notin> dr_pool s \<and> i \<notin> dr_invoked s)"
    "\<And>i. i < submitted_count D (dr_pc s) \<Longrightarrow> task_call (args_at D s i) = call_of D i"
    "mset (dr_calls s) = image_mset (call_of D) (mset_set ({..<submitted_count D (dr_pc s)} - dr_pool s)) +
       (if own_done (dr_pc s) then {#call_of D (tasks D)#} else {#})"
  shows "doall_inv D rt s"
  using assms unfolding doall_inv_def by simp

lemma doall_step_inv:
  assumes frame: "frame_ok D rt" and inv: "doall_inv D rt s" and step: "doall_step D s t"
  shows "doall_inv D rt t"
proof -
  note I = doall_invD [OF inv]
  have n: "tasks D \<le> length (args_of D s)" using frame I(6) by (simp add: frame_ok_def)
  from step show ?thesis
  proof (cases rule: doall_step.cases)
    case (submit i)
    have i: "i < length (args_of D s)" using submit n by simp
    have pool: "dr_pool s \<subseteq> {..<i}" "dr_invoked s \<subseteq> {..<i}" using I(4) submit by (auto simp: doall_counts)
    have *: "{..<Suc i} - insert i (dr_pool s) = {..<i} - dr_pool s" by auto
    show ?thesis unfolding submit(1)
    proof (rule doall_invI)
      show "rt_during D rt (put_args D i (prepared D (args_at D s i)) s\<lparr>dr_pc := Submitting (Suc i), dr_pool := insert i (dr_pool s)\<rparr>)"
        using rt_during_put [OF _ _ I(1), of "Submitting (Suc i)"] submit by (simp add: rt_during_def)
    qed (use I submit i pool * in \<open>auto simp: doall_counts args_at_put less_Suc_eq prepared_call\<close>)
  next
    case (submitted i)
    then have "i = tasks D" using I(2) by (simp add: doall_counts)
    then show ?thesis unfolding submitted(1)
      by (intro doall_invI) (use I submitted in \<open>auto simp: doall_counts intro: rt_during_cong\<close>)
  next
    case own
    show ?thesis unfolding own(1)
      by (intro doall_invI) (use I own in \<open>auto simp: doall_counts own_call_eq intro: rt_during_cong\<close>)
  next
    case (join i)
    have i: "i < length (args_of D s)" using join n by simp
    have ni: "i \<notin> dr_pool s" "i \<notin> dr_invoked s" using I(8) [OF i] join by (simp_all add: doall_counts)
    have "dr_pool s \<subseteq> {i..<tasks D}" "dr_invoked s \<subseteq> {i..<tasks D}" using I(4) join by (simp_all add: doall_counts)
    with ni have P: "dr_pool s \<subseteq> {Suc i..<tasks D}" "dr_invoked s \<subseteq> {Suc i..<tasks D}"
      by (auto simp: Suc_le_eq order_less_le)
    show ?thesis unfolding join(1)
      by (intro doall_invI)
        (use I(1,5,6,7,8,9,10) P ni join i rt_during_put [OF _ _ I(1), of "Joining (Suc i)" i] in
          \<open>auto simp: doall_counts args_at_put\<close>)
  next
    case (joined i)
    then have "i = tasks D" using I(3) by (simp add: doall_counts)
    then show ?thesis unfolding joined(1)
      by (intro doall_invI) (use I joined in \<open>auto simp: doall_counts intro: rt_during_cong\<close>)
  next
    case (cleanup rt1 rt2)
    then have "dr_rt t = (dr_rt s)\<lparr>idleCores := idleCores (dr_rt s) + df_numCores D,
        doallMemoryAvailability := (doallMemoryAvailability (dr_rt s))[df_doallMemoryIndex D := True]\<rparr>"
      by (auto simp: releaseCores_def releaseDOALLArgs_def check_eq_Inr)
    then show ?thesis
      by (intro doall_invI) (use I cleanup in \<open>auto simp: doall_counts rt_during_def args_at_def\<close>)
  next
    case (task i)
    have i: "i < submitted_count D (dr_pc s)" using I(4) task by auto
    have "{..<submitted_count D (dr_pc s)} - (dr_pool s - {i}) = insert i ({..<submitted_count D (dr_pc s)} - dr_pool s)" using i by auto
    moreover have "mset_set (insert i ({..<submitted_count D (dr_pc s)} - dr_pool s)) =
        add_mset i (mset_set ({..<submitted_count D (dr_pc s)} - dr_pool s))" using task by simp
    ultimately show ?thesis unfolding task(1)
      by (intro doall_invI) (use I task i in \<open>auto intro: rt_during_cong\<close>)
  next
    case (task_end i)
    have sub: "i < submitted_count D (dr_pc s)" "joined_count D (dr_pc s) \<le> i" "i \<notin> dr_pool s" using I(4,5) task_end by auto
    then have i: "i < length (args_of D s)" using I(2) n by simp
    have "dr_pc s \<noteq> Returned" using sub by (auto simp: doall_counts)
    then have "rt_during D rt (put_args D i (args_at D s i\<lparr>da_endLock := False\<rparr>) s\<lparr>dr_invoked := dr_invoked s - {i}\<rparr>)"
      using rt_during_put [OF _ _ I(1), of "dr_pc s" i] by (simp add: rt_during_def)
    then show ?thesis unfolding task_end(1)
      by (intro doall_invI)
        (use I task_end i sub in \<open>auto simp: args_at_put intro: rt_during_cong\<close>)
  qed
qed

definition doall_weight :: "doall_frame \<Rightarrow> doall_run \<Rightarrow> nat" where
  "doall_weight D s = 3 * (tasks D - submitted_count D (dr_pc s)) + 2 * card (dr_pool s) + card (dr_invoked s) +
     (tasks D - joined_count D (dr_pc s)) +
     (case dr_pc s of Submitting _ \<Rightarrow> 4 | OwnTask \<Rightarrow> 3 | Joining _ \<Rightarrow> 2 | Cleanup \<Rightarrow> 1 | Returned \<Rightarrow> 0)"

lemma doall_finite: "doall_inv D rt s \<Longrightarrow> finite (dr_pool s) \<and> finite (dr_invoked s)"
  using doall_invD(4) [of D rt s] by (meson finite_atLeastLessThan finite_subset le_sup_iff)

lemma doall_step_weight:
  assumes inv: "doall_inv D rt s" and step: "doall_step D s t"
  shows "doall_weight D t < doall_weight D s"
proof -
  note I = doall_invD [OF inv]
  have fin: "finite (dr_pool s)" "finite (dr_invoked s)" using doall_finite [OF inv] by simp_all
  from step show ?thesis
  proof (cases rule: doall_step.cases)
    case (submit i)
    then have "i \<notin> dr_pool s" using I(4) by (auto simp: doall_counts)
    with submit fin show ?thesis by (simp add: doall_weight_def doall_counts)
  next
    case (task i)
    then have "i \<notin> dr_invoked s" "0 < card (dr_pool s)" using I(5) fin by (auto simp: card_gt_0_iff)
    with task fin show ?thesis by (simp add: doall_weight_def)
  next
    case (task_end i)
    then have "0 < card (dr_invoked s)" using fin by (auto simp: card_gt_0_iff)
    with task_end fin show ?thesis by (simp add: doall_weight_def)
  qed (auto simp: doall_weight_def doall_counts)
qed

lemma doall_progress:
  assumes frame: "frame_ok D rt" and inv: "doall_inv D rt s" and more: "dr_pc s \<noteq> Returned"
  shows "\<exists>t. doall_step D s t"
proof -
  note I = doall_invD [OF inv]
  show ?thesis
  proof (cases "dr_pc s")
    case (Submitting i)
    then show ?thesis by (cases "i < tasks D") (blast intro: doall_step.intros)+
  next
    case OwnTask
    then show ?thesis by (blast intro: doall_step.intros)
  next
    case (Joining i)
    show ?thesis
    proof (cases "i < tasks D")
      case True
      then have "i < length (args_of D s)" using frame I(6) by (simp add: frame_ok_def)
      from I(8) [OF this] Joining True consider "\<not> da_endLock (args_at D s i)" | "i \<in> dr_pool s" | "i \<in> dr_invoked s"
        by (auto simp: doall_counts)
      then show ?thesis using Joining True by cases (blast intro: doall_step.intros)+
    qed (use Joining in \<open>blast intro: doall_step.intros\<close>)
  next
    case Cleanup
    have "df_doallMemoryIndex D < length (doallMemoryAvailability (dr_rt s))" "0 < df_numCores D"
      using frame I(1) Cleanup by (auto simp: frame_ok_def rt_during_def)
    then have "\<exists>rt1 rt2. releaseCores (df_numCores D) (dr_rt s) = Inr rt1 \<and> releaseDOALLArgs (df_doallMemoryIndex D) rt1 = Inr rt2"
      by (simp add: releaseCores_def releaseDOALLArgs_def)
    with Cleanup show ?thesis by (blast intro: doall_step.intros)
  qed (use more in simp)
qed

interpretation doall: ending_protocol "doall_step D" "\<lambda>s. frame_ok D rt \<and> doall_inv D rt s" "doall_weight D"
    "\<lambda>s. dr_pc s = Returned" for D rt
  by unfold_locales (auto intro: doall_step_inv doall_step_weight doall_progress)

text \<open>What the dispatcher leaves behind.\<close>

lemma doall_returned:
  assumes inv: "doall_inv D rt s" and ret: "dr_pc s = Returned"
  shows "mset (dr_calls s) = image_mset (call_of D) (mset_set {..<Suc (tasks D)})" "dr_pool s = {}" "dr_invoked s = {}"
    and "\<forall>i < length (args_of D s). da_endLock (args_at D s i) \<and> da_coreID (args_at D s i) = of_nat i"
proof -
  note I = doall_invD [OF inv, unfolded ret doall_counts doall_pc.case]
  show p: "dr_pool s = {}" "dr_invoked s = {}" using I(4) by auto
  have "{..<Suc (tasks D)} = insert (tasks D) {..<tasks D}" by auto
  then show "mset (dr_calls s) = image_mset (call_of D) (mset_set {..<Suc (tasks D)})" using I(10) p by simp
  show "\<forall>i < length (args_of D s). da_endLock (args_at D s i) \<and> da_coreID (args_at D s i) = of_nat i" using I(7,8) by auto
qed

lemma doall_enter_ok:
  assumes wf: "rt_wf rt" and enter: "doall_enter uninit C rt = (D, s)"
  shows "frame_ok D (dr_rt s)" and "doall_inv D (dr_rt s) s" and "rt_wf (dr_rt s)"
    and "df_numCores D = fst (reserveCores (ucast (dc_maxNumberOfCores C)) rt)" "idleCores (dr_rt s) = idleCores rt - df_numCores D"
    and "dc_parallelizedLoop D = dc_parallelizedLoop C" "dc_env D = dc_env C" "dc_chunkSize D = dc_chunkSize C"
    and "doallMemory (dr_rt s) ! df_doallMemoryIndex D = df_argsForAllCores D" "df_doallMemoryIndex D < length (doallMemory (dr_rt s))"
    and "maxCores (dr_rt s) = maxCores rt"
proof -
  obtain n rt1 where n: "reserveCores (ucast (dc_maxNumberOfCores C)) rt = (n, rt1)" by (cases "reserveCores (ucast (dc_maxNumberOfCores C)) rt")
  obtain b k rt2 where g: "getDOALLArgs uninit (n - 1) rt1 = ((b, k), rt2)"
    by (cases "getDOALLArgs uninit (n - 1) rt1") (metis prod.collapse)
  from enter n g have D: "D = doall_call.extend C \<lparr>df_numCores = n, df_argsForAllCores = b, df_doallMemoryIndex = k\<rparr>"
    and s: "s = \<lparr>dr_pc = Submitting 0, dr_rt = rt2, dr_pool = {}, dr_invoked = {}, dr_calls = []\<rparr>"
    by (auto simp: doall_enter_def)
  have rt1: "rt1 = rt\<lparr>idleCores := idleCores rt - n\<rparr>" "0 < n" using reserveCores_simps [OF n] by simp_all
  then have "rt_wf rt1" using wf by (simp add: rt_wf_def)
  note G = getDOALLArgs_ok [OF this g]
  have Ds: "df_numCores D = n" "df_argsForAllCores D = b" "df_doallMemoryIndex D = k" "dc_parallelizedLoop D = dc_parallelizedLoop C"
    "dc_env D = dc_env C" "dc_chunkSize D = dc_chunkSize C"
    by (simp_all add: D doall_call.defs)
  have "length (doallMemoryAvailability rt2) = length (doallMemory rt2)" using G(1) by (simp add: rt_wf_def)
  then show f: "frame_ok D (dr_rt s)" using rt1(2) G(4,7,8) by (simp add: frame_ok_def Ds tasks_def s)
  show "doall_inv D (dr_rt s) s" using doall_init [OF f] by (simp add: s)
  show "rt_wf (dr_rt s)" using G(1) by (simp add: s)
  show "df_numCores D = fst (reserveCores (ucast (dc_maxNumberOfCores C)) rt)" "idleCores (dr_rt s) = idleCores rt - df_numCores D"
    using n G(2) rt1 by (simp_all add: Ds s)
  show "dc_parallelizedLoop D = dc_parallelizedLoop C" "dc_env D = dc_env C" "dc_chunkSize D = dc_chunkSize C" by (simp_all add: Ds)
  show "doallMemory (dr_rt s) ! df_doallMemoryIndex D = df_argsForAllCores D" "df_doallMemoryIndex D < length (doallMemory (dr_rt s))"
    "maxCores (dr_rt s) = maxCores rt"
    using G(3,4,5) rt1 by (simp_all add: Ds s)
qed

lemma doall_exit_wf:
  assumes wf: "rt_wf rt" and frame: "frame_ok D rt" and b: "doallMemory rt ! df_doallMemoryIndex D = df_argsForAllCores D"
    "df_doallMemoryIndex D < length (doallMemory rt)" and inv: "doall_inv D rt s" and ret: "dr_pc s = Returned"
  shows "rt_wf (dr_rt s)" and "idleCores (dr_rt s) = idleCores rt + df_numCores D" "doallMemoryAvailability (dr_rt s) ! df_doallMemoryIndex D"
proof -
  note I = doall_invD [OF inv]
  let ?k = "df_doallMemoryIndex D"
  have rt: "idleCores (dr_rt s) = idleCores rt + df_numCores D"
    "doallMemoryAvailability (dr_rt s) = (doallMemoryAvailability rt)[?k := True]"
    "doallMemorySizes (dr_rt s) = doallMemorySizes rt" "doallMemory (dr_rt s) = doallMemory rt" "rt_next (dr_rt s) = rt_next rt"
    "\<And>b. b \<noteq> df_argsForAllCores D \<Longrightarrow> rt_mem (dr_rt s) b = rt_mem rt b" using I(1) ret by (simp_all add: rt_during_def)
  have len: "length (doallMemoryAvailability rt) = length (doallMemory rt)" "distinct (doallMemory rt)" using wf by (simp_all add: rt_wf_def)
  show "idleCores (dr_rt s) = idleCores rt + df_numCores D" "doallMemoryAvailability (dr_rt s) ! ?k" using rt len b(2) by simp_all
  have "args_ok (doallMemoryAvailability (dr_rt s) ! j) (unat (doallMemorySizes rt ! j)) (rt_mem (dr_rt s) (doallMemory rt ! j))"
    if j: "j < length (doallMemory rt)" for j
  proof (cases "j = ?k")
    case True
    have "unat (doallMemorySizes rt ! ?k) = length (args_of D s)" using wf b I(6) by (auto simp: rt_wf_def args_ok_def)
    with True b doall_returned(4) [OF inv ret] show ?thesis by (simp add: args_ok_def args_at_def)
  next
    case False
    then have "doallMemory rt ! j \<noteq> df_argsForAllCores D" using len(2) j b by (metis nth_eq_iff_index_eq)
    with False j wf rt len show ?thesis by (simp add: rt_wf_def)
  qed
  then show "rt_wf (dr_rt s)" using wf rt by (simp add: rt_wf_def)
qed

end
