(* ===== verification/TaskPool.thy ===== *)
theory TaskPool
  imports Protocols
begin

text \<open>
  Tasks in a pool of threads, as the HELIX and the DSWP dispatcher of \<open>core/runtime/Parallelizer_utils.cpp\<close> use it. The dispatcher
  takes the end lock of a task, submits the task, and finally waits for the end locks of all tasks in their order; the
  trampoline of a task frees its end lock when the task has ended. VIRGIL, which is not part of the repository, is a pool of
  threads that take the submitted tasks from one queue.
\<close>

section \<open>The steps\<close>

datatype pool_pc = Launching nat | Waiting nat | Cleaning | Done

record pool_run =
  pl_pc :: pool_pc
  pl_endLock :: "nat \<Rightarrow> bool"
  pl_queue :: "nat list"
  pl_running :: "nat set"

definition pool_start :: pool_run where
  "pool_start = \<lparr>pl_pc = Launching 0, pl_endLock = (\<lambda>_. False), pl_queue = [], pl_running = {}\<rparr>"

text \<open>\<open>n\<close> tasks on \<open>T\<close> threads; \<open>ended\<close> are the tasks whose function has returned.\<close>

inductive pool_step :: "nat \<Rightarrow> nat \<Rightarrow> (nat \<Rightarrow> bool) \<Rightarrow> 'a pool_run_scheme \<Rightarrow> 'a pool_run_scheme \<Rightarrow> bool" for n T ended where
  launch: "pl_pc s = Launching i \<Longrightarrow> i < n \<Longrightarrow>
     pool_step n T ended s (s\<lparr>pl_pc := Launching (Suc i), pl_endLock := (pl_endLock s)(i := True), pl_queue := pl_queue s @ [i]\<rparr>)"
| launched: "pl_pc s = Launching i \<Longrightarrow> \<not> i < n \<Longrightarrow> pool_step n T ended s (s\<lparr>pl_pc := Waiting 0\<rparr>)"
| join: "pl_pc s = Waiting i \<Longrightarrow> i < n \<Longrightarrow> \<not> pl_endLock s i \<Longrightarrow>
     pool_step n T ended s (s\<lparr>pl_pc := Waiting (Suc i), pl_endLock := (pl_endLock s)(i := True)\<rparr>)"
| joined: "pl_pc s = Waiting i \<Longrightarrow> \<not> i < n \<Longrightarrow> pool_step n T ended s (s\<lparr>pl_pc := Cleaning\<rparr>)"
| start: "pl_queue s = i # q \<Longrightarrow> card (pl_running s) < T \<Longrightarrow>
     pool_step n T ended s (s\<lparr>pl_queue := q, pl_running := insert i (pl_running s)\<rparr>)"
| finish: "i \<in> pl_running s \<Longrightarrow> ended i \<Longrightarrow>
     pool_step n T ended s (s\<lparr>pl_running := pl_running s - {i}, pl_endLock := (pl_endLock s)(i := False)\<rparr>)"

inductive_cases pool_stepE: "pool_step n T ended s t"

lemma pool_step_more: "pool_step n T ended s t \<Longrightarrow> pool_run.more t = pool_run.more s"
  by (auto elim: pool_stepE)

section \<open>The invariant\<close>

definition launched_count :: "nat \<Rightarrow> pool_pc \<Rightarrow> nat" where
  "launched_count n pc = (case pc of Launching i \<Rightarrow> i | _ \<Rightarrow> n)"

definition joined_tasks :: "nat \<Rightarrow> pool_pc \<Rightarrow> nat" where
  "joined_tasks n pc = (case pc of Launching _ \<Rightarrow> 0 | Waiting i \<Rightarrow> i | _ \<Rightarrow> n)"

lemmas pool_counts = launched_count_def joined_tasks_def

text \<open>The tasks are started in their order, \<open>started\<close> of them so far; the others of the launched ones are in the queue.\<close>

definition pool_ok :: "nat \<Rightarrow> nat \<Rightarrow> 'a pool_run_scheme \<Rightarrow> bool" where
  "pool_ok n started s \<longleftrightarrow> launched_count n (pl_pc s) \<le> n \<and> started \<le> launched_count n (pl_pc s) \<and>
     joined_tasks n (pl_pc s) \<le> started \<and> pl_queue s = [started..<launched_count n (pl_pc s)] \<and>
     pl_running s \<subseteq> {joined_tasks n (pl_pc s)..<started} \<and>
     (\<forall>c < launched_count n (pl_pc s). pl_endLock s c \<longleftrightarrow> c < joined_tasks n (pl_pc s) \<or> started \<le> c \<or> c \<in> pl_running s)"

definition ended_ok :: "(nat \<Rightarrow> bool) \<Rightarrow> nat \<Rightarrow> 'a pool_run_scheme \<Rightarrow> bool" where
  "ended_ok ended started s \<longleftrightarrow> (\<forall>c < started. c \<notin> pl_running s \<longrightarrow> ended c)"

lemma pool_okD:
  assumes "pool_ok n st s"
  shows "launched_count n (pl_pc s) \<le> n" "st \<le> launched_count n (pl_pc s)" "joined_tasks n (pl_pc s) \<le> st"
    "pl_queue s = [st..<launched_count n (pl_pc s)]" "pl_running s \<subseteq> {joined_tasks n (pl_pc s)..<st}"
    "\<And>c. c < launched_count n (pl_pc s) \<Longrightarrow> pl_endLock s c \<longleftrightarrow> c < joined_tasks n (pl_pc s) \<or> st \<le> c \<or> c \<in> pl_running s"
    "finite (pl_running s)" "pl_running s \<subseteq> {..<n}"
proof -
  show *: "launched_count n (pl_pc s) \<le> n" "st \<le> launched_count n (pl_pc s)" "joined_tasks n (pl_pc s) \<le> st"
    "pl_queue s = [st..<launched_count n (pl_pc s)]" "pl_running s \<subseteq> {joined_tasks n (pl_pc s)..<st}"
    "\<And>c. c < launched_count n (pl_pc s) \<Longrightarrow> pl_endLock s c \<longleftrightarrow> c < joined_tasks n (pl_pc s) \<or> st \<le> c \<or> c \<in> pl_running s"
    using assms by (simp_all add: pool_ok_def)
  show "finite (pl_running s)" using *(5) by (rule finite_subset) simp
  show "pl_running s \<subseteq> {..<n}" using *(1,2,5) by auto
qed

lemma pool_start_ok: "pool_ok n 0 (pool_run.extend pool_start x)"
  by (simp add: pool_ok_def pool_start_def pool_run.defs pool_counts)

lemma pool_step_ok:
  assumes ok: "pool_ok n st s" and ended: "ended_ok ended st s" and step: "pool_step n T ended s t"
  shows "\<exists>st'. pool_ok n st' t \<and> ended_ok ended st' t \<and>
    (st' = st \<and> (pl_running t = pl_running s \<or> (\<exists>i \<in> pl_running s. ended i)) \<or>
     st' = Suc st \<and> pl_running t = insert st (pl_running s) \<and> card (pl_running s) < T)"
proof -
  note D = pool_okD [OF ok]
  from step show ?thesis
  proof (cases rule: pool_step.cases)
    case (launch i)
    then have "pool_ok n st t" using D by (auto simp: pool_ok_def pool_counts less_Suc_eq)
    with ended launch show ?thesis by (auto simp: ended_ok_def intro!: exI [of _ st])
  next
    case (launched i)
    then have "i = n" using D(1) by (simp add: pool_counts)
    then have "pool_ok n st t" using ok launched by (simp add: pool_ok_def pool_counts)
    with ended launched show ?thesis by (auto simp: ended_ok_def intro!: exI [of _ st])
  next
    case (join i)
    then have i: "i < st" "i \<notin> pl_running s" using D(6) [of i] by (auto simp: pool_counts)
    have "pl_running s \<subseteq> {i..<st}" using D(5) join by (simp add: pool_counts)
    with i(2) have "pl_running s \<subseteq> {Suc i..<st}" by (auto simp: Suc_le_eq order_less_le)
    then have "pool_ok n st t" using D join i by (auto simp: pool_ok_def pool_counts less_Suc_eq)
    with ended join show ?thesis by (auto simp: ended_ok_def intro!: exI [of _ st])
  next
    case (joined i)
    then have "i = n" using D(1,2,3) by (simp add: pool_counts)
    then have "pool_ok n st t" using ok joined by (auto simp: pool_ok_def pool_counts)
    with ended joined show ?thesis by (auto simp: ended_ok_def intro!: exI [of _ st])
  next
    case (start i q)
    then have st: "st < launched_count n (pl_pc s)" "i = st" "q = [Suc st..<launched_count n (pl_pc s)]"
      using D(4) by (auto simp: upt_eq_Cons_conv)
    then have "pool_ok n (Suc st) t" using D start by (auto simp: pool_ok_def Suc_le_eq order_less_le)
    with ended start st show ?thesis by (auto simp: ended_ok_def less_Suc_eq intro!: exI [of _ "Suc st"])
  next
    case (finish i)
    then have "i < launched_count n (pl_pc s)" "\<not> i < joined_tasks n (pl_pc s)" "i < st" using D(2,5) by auto
    then have "pool_ok n st t" using ok finish by (auto simp: pool_ok_def)
    with ended finish show ?thesis by (auto simp: ended_ok_def intro!: exI [of _ st])
  qed
qed

section \<open>Termination and progress\<close>

definition pool_weight :: "nat \<Rightarrow> 'a pool_run_scheme \<Rightarrow> nat" where
  "pool_weight n s = 3 * (n - launched_count n (pl_pc s)) + 2 * length (pl_queue s) + card (pl_running s) +
     (n - joined_tasks n (pl_pc s)) + (case pl_pc s of Launching _ \<Rightarrow> 3 | Waiting _ \<Rightarrow> 2 | Cleaning \<Rightarrow> 1 | Done \<Rightarrow> 0)"

lemma sum_rest_less: "c < (n :: nat) \<Longrightarrow> f c = x # xs \<Longrightarrow> (\<Sum>i < n. length ((f(c := xs)) i)) < (\<Sum>i < n. length (f i))"
  by (rule sum_strict_mono_ex1) auto

lemma pool_step_weight:
  assumes ok: "pool_ok n st s" and step: "pool_step n T ended s t"
  shows "pool_weight n t < pool_weight n s"
proof -
  note D = pool_okD [OF ok]
  from step show ?thesis
  proof (cases rule: pool_step.cases)
    case (start i q)
    then have "i = st" using D(4) by (auto simp: upt_eq_Cons_conv)
    then have "i \<notin> pl_running s" using D(5) by auto
    with start D(7) show ?thesis by (simp add: pool_weight_def)
  next
    case (finish i)
    then have "0 < card (pl_running s)" using D(7) by (auto simp: card_gt_0_iff)
    with finish D(7) show ?thesis by (simp add: pool_weight_def)
  qed (auto simp: pool_weight_def pool_counts)
qed

text \<open>When neither the dispatcher nor the pool can do anything, all tasks are submitted and some task runs but cannot end.\<close>

lemma pool_waits:
  assumes ok: "pool_ok n st s" and T: "0 < T" and pc: "pl_pc s \<noteq> Cleaning" "pl_pc s \<noteq> Done" and none: "\<nexists>t. pool_step n T ended s t"
  shows "launched_count n (pl_pc s) = n" "pl_running s \<noteq> {}" "\<forall>c \<in> pl_running s. \<not> ended c" "st = n \<or> T \<le> card (pl_running s)"
proof -
  note D = pool_okD [OF ok]
  have nl: "pl_pc s \<noteq> Launching i" for i using none by (cases "i < n") (blast intro: pool_step.intros)+
  then obtain i where i: "pl_pc s = Waiting i" using pc by (cases "pl_pc s") auto
  show L: "launched_count n (pl_pc s) = n" by (simp add: i pool_counts)
  show "\<forall>c \<in> pl_running s. \<not> ended c" using none by (blast intro: pool_step.intros)
  have lt: "i < n" and lock: "pl_endLock s i" using none i by (blast intro: pool_step.intros)+
  have q: "st = n \<or> T \<le> card (pl_running s)"
  proof (rule ccontr)
    assume "\<not> (st = n \<or> T \<le> card (pl_running s))"
    then have "pl_queue s = st # [Suc st..<n]" "card (pl_running s) < T" using D(2,4) L by (auto simp: upt_conv_Cons)
    with none show False by (blast intro: pool_step.start)
  qed
  show "st = n \<or> T \<le> card (pl_running s)" by (fact q)
  show "pl_running s \<noteq> {}"
  proof
    assume e: "pl_running s = {}"
    with q T have "st = n" by simp
    then show False using D(6) [of i] lt lock L i e by (simp add: pool_counts)
  qed
qed

end
