(* ===== verification/HelixRun.thy ===== *)
theory HelixRun
  imports Runtime TaskPool
begin

text \<open>
  A HELIX dispatch: \<open>NOELLE_HELIX_dispatcher\<close>, \<open>NOELLE_HELIXTrampoline\<close>, \<open>HELIX_wait\<close> and \<open>HELIX_signal\<close> of
  \<open>core/runtime/Parallelizer_utils.cpp\<close>.

  The iterations of a HELIX loop run round robin on the cores. A core passes each sequential segment on to the next core
  with a spin lock: it waits for the lock of the segment in its past array and signals the one in its future array. A lock
  is addressed by its array and its segment. The loop itself is code that the compiler generates; what it does is the
  parameter \<open>iter\<close>, the waits, signals and other work of every iteration.
\<close>

section \<open>The steps\<close>

datatype helix_act = Wait nat | Signal nat | Work

record helix_frame =
  hf_numCores :: "32 word"
  hf_numOfSSArrays :: "32 word"
  hf_segments :: nat
  hf_threads :: nat
  hf_iterations :: nat
  hf_iter :: "nat \<Rightarrow> helix_act list"

record helix_run = pool_run +
  hr_rt :: noelle_runtime
  hr_ss :: "nat \<times> nat \<Rightarrow> bool"
  hr_rest :: "nat \<Rightarrow> (nat \<times> helix_act) list"
  hr_log :: "(nat \<times> helix_act) list"

definition cores :: "'a helix_frame_scheme \<Rightarrow> nat" where
  "cores H = unat (hf_numCores H)"

text \<open>The locks of the arrays but the first one are taken.\<close>

definition init_segments :: "nat \<Rightarrow> nat \<Rightarrow> nat \<times> nat \<Rightarrow> bool" where
  "init_segments arrays segments =
     fold (\<lambda>i. fold (\<lambda>lockID locks. locks((i, lockID) := (0 < i))) [0..<segments]) [0..<arrays] (\<lambda>_. False)"

definition pastID :: "'a helix_frame_scheme \<Rightarrow> nat \<Rightarrow> nat" where
  "pastID H i = i mod unat (hf_numOfSSArrays H)"

definition futureID :: "'a helix_frame_scheme \<Rightarrow> nat \<Rightarrow> nat" where
  "futureID H i = Suc i mod unat (hf_numOfSSArrays H)"

text \<open>What the task with core \<open>c\<close> executes: its iterations, one after the other.\<close>

definition helix_program :: "'a helix_frame_scheme \<Rightarrow> nat \<Rightarrow> (nat \<times> helix_act) list" where
  "helix_program H c = concat (map (\<lambda>k. map (Pair k) (hf_iter H k)) (filter (\<lambda>k. k mod cores H = c) [0..<hf_iterations H]))"

definition helix_start :: "helix_frame \<Rightarrow> noelle_runtime \<Rightarrow> helix_run" where
  "helix_start H rt = pool_run.extend pool_start
     \<lparr>hr_rt = rt, hr_ss = init_segments (unat (hf_numOfSSArrays H)) (hf_segments H), hr_rest = helix_program H, hr_log = []\<rparr>"

definition helix_enter ::
  "bool \<Rightarrow> nat option \<Rightarrow> nat option \<Rightarrow> 64 word \<Rightarrow> nat \<Rightarrow> nat \<Rightarrow> nat \<Rightarrow> (nat \<Rightarrow> helix_act list) \<Rightarrow> noelle_runtime
   \<Rightarrow> (helix_frame \<times> helix_run) res" where
  "helix_enter LIO parallelizedLoop env maxNumberOfCores segments threads iterations iter rt =
     check (parallelizedLoop \<noteq> None \<and> env \<noteq> None \<and> 1 <s maxNumberOfCores) AssertFailed
     (let (numCores, rt1) = reserveCores (ucast maxNumberOfCores) rt
      in check (1 \<le> numCores) AssertFailed
         (let numOfSSArrays = (if LIO then numCores else 1);
              H = \<lparr>hf_numCores = numCores, hf_numOfSSArrays = numOfSSArrays, hf_segments = segments, hf_threads = threads,
                   hf_iterations = iterations, hf_iter = iter\<rparr>
          in Inr (H, helix_start H rt1)))"

text \<open>\<open>HELIX_wait\<close> waits until the lock is free and takes it; \<open>HELIX_signal\<close> frees it.\<close>

definition HELIX_wait :: "nat \<times> nat \<Rightarrow> (nat \<times> nat \<Rightarrow> bool) \<Rightarrow> (nat \<times> nat \<Rightarrow> bool) option" where
  "HELIX_wait ss locks = (if locks ss then None else Some (locks(ss := True)))"

definition HELIX_signal :: "nat \<times> nat \<Rightarrow> (nat \<times> nat \<Rightarrow> bool) \<Rightarrow> nat \<times> nat \<Rightarrow> bool" where
  "HELIX_signal ss locks = locks(ss := False)"

inductive helix_step :: "helix_frame \<Rightarrow> helix_run \<Rightarrow> helix_run \<Rightarrow> bool" for H where
  pool: "pool_step (cores H) (hf_threads H) (\<lambda>i. hr_rest s i = []) s t \<Longrightarrow> helix_step H s t"
| cleanup: "pl_pc s = Cleaning \<Longrightarrow> releaseCores (hf_numCores H) (hr_rt s) = Inr rt1 \<Longrightarrow>
     helix_step H s (s\<lparr>pl_pc := Done, hr_rt := rt1\<rparr>)"
| wait: "i \<in> pl_running s \<Longrightarrow> hr_rest s i = (k, Wait n) # as \<Longrightarrow> HELIX_wait (pastID H i, n) (hr_ss s) = Some locks \<Longrightarrow>
     helix_step H s (s\<lparr>hr_ss := locks, hr_rest := (hr_rest s)(i := as), hr_log := hr_log s @ [(k, Wait n)]\<rparr>)"
| signal: "i \<in> pl_running s \<Longrightarrow> hr_rest s i = (k, Signal n) # as \<Longrightarrow>
     helix_step H s (s\<lparr>hr_ss := HELIX_signal (futureID H i, n) (hr_ss s), hr_rest := (hr_rest s)(i := as),
       hr_log := hr_log s @ [(k, Signal n)]\<rparr>)"
| work: "i \<in> pl_running s \<Longrightarrow> hr_rest s i = (k, Work) # as \<Longrightarrow>
     helix_step H s (s\<lparr>hr_rest := (hr_rest s)(i := as), hr_log := hr_log s @ [(k, Work)]\<rparr>)"

inductive_cases helix_stepE: "helix_step H s t"

section \<open>The order of a segment\<close>

text \<open>What the compiler promises of an iteration: it waits for every segment once and signals it once, after the wait.\<close>

definition on_segment :: "nat \<Rightarrow> helix_act \<Rightarrow> bool" where
  "on_segment n a \<longleftrightarrow> a = Wait n \<or> a = Signal n"

definition iteration_ok :: "nat \<Rightarrow> helix_act list \<Rightarrow> bool" where
  "iteration_ok segments as \<longleftrightarrow> (\<forall>n < segments. filter (on_segment n) as = [Wait n, Signal n]) \<and>
     (\<forall>a \<in> set as. \<forall>n. on_segment n a \<longrightarrow> n < segments)"

text \<open>The order in which a segment should be passed through.\<close>

definition turns :: "nat \<Rightarrow> nat list \<Rightarrow> (nat \<times> helix_act) list" where
  "turns n ks = concat (map (\<lambda>k. [(k, Wait n), (k, Signal n)]) ks)"

abbreviation order_of :: "'a helix_frame_scheme \<Rightarrow> nat \<Rightarrow> (nat \<times> helix_act) list" where
  "order_of H n \<equiv> turns n [0..<hf_iterations H]"

abbreviation seg :: "nat \<Rightarrow> nat \<times> helix_act \<Rightarrow> bool" where
  "seg n e \<equiv> on_segment n (snd e)"

lemma turns_append [simp]: "turns n (ks @ ls) = turns n ks @ turns n ls"
  by (simp add: turns_def)

lemma turns_simps [simp]: "turns n [] = []" "turns n (k # ks) = (k, Wait n) # (k, Signal n) # turns n ks"
  by (simp_all add: turns_def)

lemma length_turns: "length (turns n ks) = 2 * length ks"
  by (induction ks) simp_all

lemma filter_turns: "filter (\<lambda>(k, _). P k) (turns n ks) = turns n (filter P ks)"
  by (induction ks) simp_all

text \<open>After \<open>m\<close> of its steps: the next step of the segment and what is left for the core \<open>c\<close>.\<close>

lemma drop_turns_even: "drop (2 * j) (turns n [0..<N]) = turns n [j..<N]" if "j \<le> N"
proof -
  have "[0..<N] = [0..<j] @ [j..<N]" using that by (metis le0 upt_add_eq_append le_add_diff_inverse)
  then have "turns n [0..<N] = turns n [0..<j] @ turns n [j..<N]" by simp
  then show ?thesis by (simp add: length_turns)
qed

lemma drop_turns_odd: "drop (Suc (2 * j)) (turns n [0..<N]) = (j, Signal n) # turns n [Suc j..<N]" if "j < N"
proof -
  have "drop (Suc (2 * j)) (turns n [0..<N]) = drop 1 (drop (2 * j) (turns n [0..<N]))" by simp
  also have "drop (2 * j) (turns n [0..<N]) = turns n [j..<N]" using that by (simp add: drop_turns_even)
  also have "[j..<N] = j # [Suc j..<N]" using that by (simp add: upt_conv_Cons)
  finally show ?thesis by simp
qed

lemma nth_turns: "m < 2 * N \<Longrightarrow> turns n [0..<N] ! m = (m div 2, if even m then Wait n else Signal n)"
proof -
  assume m: "m < 2 * N"
  then have j: "m div 2 < N" by simp
  have "turns n [0..<N] ! m = hd (drop m (turns n [0..<N]))" using m by (simp add: hd_drop_conv_nth length_turns)
  moreover have "hd (drop m (turns n [0..<N])) = (m div 2, if even m then Wait n else Signal n)"
  proof (cases "even m")
    case True
    then have "drop m (turns n [0..<N]) = turns n [m div 2..<N]" using drop_turns_even [of "m div 2" N n] j by simp
    with j True show ?thesis by (simp add: upt_conv_Cons)
  next
    case False
    then have "drop m (turns n [0..<N]) = (m div 2, Signal n) # turns n [Suc (m div 2)..<N]"
      using drop_turns_odd [OF j, of n] by (simp add: odd_two_times_div_two_succ)
    with False show ?thesis by simp
  qed
  ultimately show ?thesis by simp
qed

lemma program_segment:
  assumes "\<forall>k < hf_iterations H. iteration_ok (hf_segments H) (hf_iter H k)" and "n < hf_segments H"
  shows "filter (seg n) (helix_program H c) = filter (\<lambda>(k, _). k mod cores H = c) (order_of H n)"
proof -
  have "filter (seg n) (map (Pair k) (hf_iter H k)) = [(k, Wait n), (k, Signal n)]" if "k < hf_iterations H" for k
    using assms that by (simp add: iteration_ok_def filter_map o_def)
  then have "filter (seg n) (concat (map (\<lambda>k. map (Pair k) (hf_iter H k)) ks)) = turns n ks" if "set ks \<subseteq> {..<hf_iterations H}" for ks
    using that by (induction ks) simp_all
  then show ?thesis unfolding helix_program_def filter_turns by (rule meta_mp) auto
qed

lemma program_core: "(k, a) \<in> set (helix_program H c) \<Longrightarrow> k mod cores H = c \<and> k < hf_iterations H \<and> a \<in> set (hf_iter H k)"
  by (auto simp: helix_program_def)

lemma program_sorted: "sorted (map fst (helix_program H c))"
proof -
  have *: "sorted (map fst (concat (map (\<lambda>k. map (Pair k) (f k)) ks)))" if "sorted ks" for ks and f :: "nat \<Rightarrow> helix_act list"
    using that by (induction ks) (auto simp: sorted_append o_def map_replicate_const)
  show ?thesis unfolding helix_program_def by (rule *) (simp add: sorted_wrt_filter)
qed

text \<open>The state of one segment: \<open>m\<close> of its steps are done, its lock is free in the array of the core whose turn it is.\<close>

definition seg_ok ::
  "'a helix_frame_scheme \<Rightarrow> nat \<Rightarrow> (nat \<times> helix_act) list \<Rightarrow> (nat \<Rightarrow> (nat \<times> helix_act) list) \<Rightarrow> (nat \<times> nat \<Rightarrow> bool) \<Rightarrow> nat \<Rightarrow> bool" where
  "seg_ok H n log rest ss m \<longleftrightarrow> m \<le> 2 * hf_iterations H \<and> filter (seg n) log = take m (order_of H n) \<and>
     (\<forall>c < cores H. filter (seg n) (rest c) = filter (\<lambda>(k, _). k mod cores H = c) (drop m (order_of H n))) \<and>
     (\<forall>r < cores H. ss (r, n) \<longleftrightarrow> \<not> (even m \<and> m div 2 mod cores H = r))"

lemma seg_okD:
  assumes "seg_ok H n log rest ss m"
  shows "m \<le> 2 * hf_iterations H" "filter (seg n) log = take m (order_of H n)"
    "\<And>c. c < cores H \<Longrightarrow> filter (seg n) (rest c) = filter (\<lambda>(k, _). k mod cores H = c) (drop m (order_of H n))"
    "\<And>r. r < cores H \<Longrightarrow> ss (r, n) \<longleftrightarrow> \<not> (even m \<and> m div 2 mod cores H = r)"
  using assms by (simp_all add: seg_ok_def)

lemma seg_frame:
  assumes ok: "seg_ok H n log rest ss m" and a: "\<not> on_segment n a" and rest: "rest i = (k, a) # as"
    and ss: "\<forall>r. ss' (r, n) = ss (r, n)"
  shows "seg_ok H n (log @ [(k, a)]) (rest(i := as)) ss' m"
proof -
  have "filter (seg n) ((rest(i := as)) c) = filter (seg n) (rest c)" for c using a rest by simp
  with ok a ss show ?thesis by (simp add: seg_ok_def)
qed

text \<open>The next step of a segment.\<close>

lemma seg_next:
  assumes ok: "seg_ok H n log rest ss m" and m: "m < 2 * hf_iterations H" and n0: "0 < cores H"
  defines "e \<equiv> (m div 2, if even m then Wait n else Signal n)"
  shows "drop m (order_of H n) = e # drop (Suc m) (order_of H n)"
    and "\<And>c. c < cores H \<Longrightarrow> filter (seg n) (rest c) =
      (if c = m div 2 mod cores H then [e] else []) @ filter (\<lambda>(k, _). k mod cores H = c) (drop (Suc m) (order_of H n))"
    and "take (Suc m) (order_of H n) = take m (order_of H n) @ [e]"
proof -
  have l: "m < length (order_of H n)" using m by (simp add: length_turns)
  have e: "order_of H n ! m = e" using nth_turns [OF m, of n] by (simp add: e_def)
  show d: "drop m (order_of H n) = e # drop (Suc m) (order_of H n)" using Cons_nth_drop_Suc [OF l] e by simp
  show "take (Suc m) (order_of H n) = take m (order_of H n) @ [e]" using take_Suc_conv_app_nth [OF l] e by simp
  fix c assume "c < cores H"
  with seg_okD(3) [OF ok this] show "filter (seg n) (rest c) =
      (if c = m div 2 mod cores H then [e] else []) @ filter (\<lambda>(k, _). k mod cores H = c) (drop (Suc m) (order_of H n))"
    unfolding d by (simp add: e_def)
qed

text \<open>A core that has the segment next has its turn, and its step is the next one of the segment.\<close>

lemma seg_advance:
  assumes ok: "seg_ok H n log rest ss m" and m: "m < 2 * hf_iterations H" and n0: "0 < cores H"
    and c: "c = m div 2 mod cores H" and rest: "rest c = (k, a) # as" and a: "on_segment n a"
    and ss: "\<forall>r < cores H. ss' (r, n) \<longleftrightarrow> \<not> (even (Suc m) \<and> Suc m div 2 mod cores H = r)"
  shows "seg_ok H n (log @ [(k, a)]) (rest(c := as)) ss' (Suc m)"
proof -
  note N = seg_next [OF ok m n0]
  let ?e = "(m div 2, if even m then Wait n else Signal n)"
  have cl: "c < cores H" using c n0 by simp
  have "(k, a) # filter (seg n) as = filter (seg n) (rest c)" using rest a by simp
  also have "\<dots> = ?e # filter (\<lambda>(k, _). k mod cores H = c) (drop (Suc m) (order_of H n))" using N(2) [OF cl] c by simp
  finally have ka: "(k, a) = ?e" and as: "filter (seg n) as = filter (\<lambda>(k, _). k mod cores H = c) (drop (Suc m) (order_of H n))"
    by simp_all
  have "filter (seg n) (log @ [(k, a)]) = take (Suc m) (order_of H n)" using seg_okD(2) [OF ok] N(3) ka a by simp
  moreover have "filter (seg n) ((rest(c := as)) d) = filter (\<lambda>(k, _). k mod cores H = d) (drop (Suc m) (order_of H n))" if "d < cores H" for d
    using N(2) [OF that] as c by auto
  ultimately show ?thesis using m ss by (simp add: seg_ok_def)
qed

lemma seg_wait:
  assumes ok: "seg_ok H n log rest ss m" and n0: "0 < cores H" and c: "c < cores H" and rest: "rest c = (k, Wait n) # as"
    and free: "\<not> ss (c, n)"
  shows "seg_ok H n (log @ [(k, Wait n)]) (rest(c := as)) (ss((c, n) := True)) (Suc m)"
proof -
  have t: "even m" "c = m div 2 mod cores H" using seg_okD(4) [OF ok c] free by auto
  have "filter (seg n) (rest c) \<noteq> []" using rest by (simp add: on_segment_def)
  then have "drop m (order_of H n) \<noteq> []" using seg_okD(3) [OF ok c] by auto
  then have m: "m < 2 * hf_iterations H" by (simp add: length_turns)
  show ?thesis
  proof (rule seg_advance [OF ok m n0 t(2) rest])
    show "on_segment n (Wait n)" by (simp add: on_segment_def)
    show "\<forall>r < cores H. (ss((c, n) := True)) (r, n) \<longleftrightarrow> \<not> (even (Suc m) \<and> Suc m div 2 mod cores H = r)"
      using t seg_okD(4) [OF ok] by auto
  qed
qed

lemma seg_signal:
  assumes ok: "seg_ok H n log rest ss m" and n0: "0 < cores H" and c: "c < cores H" and rest: "rest c = (k, Signal n) # as"
  shows "seg_ok H n (log @ [(k, Signal n)]) (rest(c := as)) (ss((Suc c mod cores H, n) := False)) (Suc m)"
proof -
  have head: "\<exists>es. filter (seg n) (rest c) = (k, Signal n) # es" using rest by (simp add: on_segment_def)
  have start: "\<nexists>k es. filter (\<lambda>(k, _). k mod cores H = c) (turns n ks) = (k, Signal n) # es" for ks
    unfolding filter_turns by (cases "filter (\<lambda>k. k mod cores H = c) ks") auto
  have m2: "m \<noteq> 2 * hf_iterations H" using head seg_okD(3) [OF ok c] by (auto simp: length_turns)
  then have m: "m < 2 * hf_iterations H" using seg_okD(1) [OF ok] by simp
  then have j: "m div 2 < hf_iterations H" by simp
  have odd: "odd m"
  proof
    assume "even m"
    then have "drop m (order_of H n) = turns n [m div 2..<hf_iterations H]"
      using drop_turns_even [of "m div 2" "hf_iterations H" n] j by simp
    with head seg_okD(3) [OF ok c] start show False by metis
  qed
  then have d: "drop (Suc m) (order_of H n) = turns n [Suc (m div 2)..<hf_iterations H]"
    using drop_turns_even [of "Suc (m div 2)" "hf_iterations H" n] j by (simp add: odd_two_times_div_two_succ)
  have t: "c = m div 2 mod cores H"
  proof (rule ccontr)
    assume "c \<noteq> m div 2 mod cores H"
    with seg_next(2) [OF ok m n0 c] head start show False unfolding d by simp
  qed
  show ?thesis
  proof (rule seg_advance [OF ok m n0 t rest])
    show "on_segment n (Signal n)" by (simp add: on_segment_def)
    have "Suc c mod cores H = Suc m div 2 mod cores H" using odd t by (simp add: mod_Suc_eq)
    then show "\<forall>r < cores H. (ss((Suc c mod cores H, n) := False)) (r, n) \<longleftrightarrow> \<not> (even (Suc m) \<and> Suc m div 2 mod cores H = r)"
      using odd seg_okD(4) [OF ok] by auto
  qed
qed

section \<open>The invariant of a dispatch\<close>

definition segments_ok :: "'a helix_frame_scheme \<Rightarrow> helix_run \<Rightarrow> bool" where
  "segments_ok H s \<longleftrightarrow> (\<forall>n < hf_segments H. \<exists>m. seg_ok H n (hr_log s) (hr_rest s) (hr_ss s) m) \<and>
     (\<forall>c. helix_program H c = filter (\<lambda>(k, _). k mod cores H = c) (hr_log s) @ hr_rest s c)"

definition helix_inv :: "helix_frame \<Rightarrow> noelle_runtime \<Rightarrow> helix_run \<Rightarrow> bool" where
  "helix_inv H rt s \<longleftrightarrow> segments_ok H s \<and> (\<exists>st. pool_ok (cores H) st s \<and> ended_ok (\<lambda>i. hr_rest s i = []) st s) \<and>
     hr_rt s = (if pl_pc s = Done then rt\<lparr>idleCores := idleCores rt + hf_numCores H\<rparr> else rt)"

text \<open>A dispatch with sequential segments, a loop as the compiler promises it and a pool with a thread for every core.\<close>

definition helix_ok :: "helix_frame \<Rightarrow> bool" where
  "helix_ok H \<longleftrightarrow> 0 < hf_numCores H \<and> hf_numOfSSArrays H = hf_numCores H \<and>
     (\<forall>k < hf_iterations H. iteration_ok (hf_segments H) (hf_iter H k))"

lemma helix_okD:
  assumes "helix_ok H"
  shows "0 < cores H" "\<And>c. c < cores H \<Longrightarrow> pastID H c = c" "\<And>c. futureID H c = Suc c mod cores H"
    "\<And>k. k < hf_iterations H \<Longrightarrow> iteration_ok (hf_segments H) (hf_iter H k)"
  using assms by (simp_all add: helix_ok_def cores_def pastID_def futureID_def unat_gt_0 word_gt_0)

lemma fold_update:
  fixes S :: nat
  assumes "\<And>l m x. g l m x = (if P x \<and> q x = l then b x else m x)"
  shows "fold g [0..<S] m x = (if P x \<and> q x < S then b x else m x)"
  by (induction S) (auto simp: assms less_Suc_eq)

lemma init_segments_eq: "init_segments A S (i, l) \<longleftrightarrow> i < A \<and> l < S \<and> 0 < i"
proof -
  have inner: "fold (\<lambda>l locks. locks((i, l) := (0 < i))) [0..<S] m x = (if fst x = i \<and> snd x < S then 0 < i else m x)"
    for i x and m :: "nat \<times> nat \<Rightarrow> bool"
    by (rule fold_update) (auto simp: prod_eq_iff)
  have "init_segments A S x = (if snd x < S \<and> fst x < A then 0 < fst x else False)" for x
    unfolding init_segments_def by (rule fold_update) (simp add: inner)
  then show ?thesis by simp
qed

lemma act_segment:
  assumes H: "helix_ok H" and s: "segments_ok H s" and rest: "hr_rest s c = (k, a) # as" and a: "on_segment n a"
  shows "n < hf_segments H"
proof -
  have "helix_program H c = filter (\<lambda>(k, _). k mod cores H = c) (hr_log s) @ hr_rest s c" using s by (simp add: segments_ok_def)
  then have "(k, a) \<in> set (helix_program H c)" using rest by simp
  from program_core [OF this] helix_okD(4) [OF H] a show ?thesis by (auto simp: iteration_ok_def)
qed

text \<open>A task's step keeps the segments in order.\<close>

lemma segments_step:
  assumes H: "helix_ok H" and s: "segments_ok H s" and rest: "hr_rest s c = (k, a) # as"
    and t: "hr_log t = hr_log s @ [(k, a)]" "hr_rest t = (hr_rest s)(c := as)"
    and others: "\<And>n r. \<not> on_segment n a \<Longrightarrow> hr_ss t (r, n) = hr_ss s (r, n)"
    and own: "\<And>n m. on_segment n a \<Longrightarrow> seg_ok H n (hr_log s) (hr_rest s) (hr_ss s) m \<Longrightarrow>
      \<exists>m. seg_ok H n (hr_log s @ [(k, a)]) ((hr_rest s)(c := as)) (hr_ss t) m"
  shows "segments_ok H t"
proof -
  have "\<exists>m. seg_ok H n (hr_log t) (hr_rest t) (hr_ss t) m" if n: "n < hf_segments H" for n
  proof -
    obtain m where m: "seg_ok H n (hr_log s) (hr_rest s) (hr_ss s) m" using s n by (auto simp: segments_ok_def)
    show ?thesis
    proof (cases "on_segment n a")
      case True
      with own [OF _ m] t show ?thesis by simp
    next
      case False
      with seg_frame [OF m False rest] others t show ?thesis by auto
    qed
  qed
  moreover have "helix_program H e = filter (\<lambda>(k, _). k mod cores H = e) (hr_log t) @ hr_rest t e" for e
  proof -
    have p: "helix_program H e = filter (\<lambda>(k, _). k mod cores H = e) (hr_log s) @ hr_rest s e" for e
      using s by (simp add: segments_ok_def)
    have "(k, a) \<in> set (helix_program H c)" unfolding p by (simp add: rest)
    then have "k mod cores H = c" using program_core by blast
    with p [of e] rest show ?thesis by (auto simp: t)
  qed
  ultimately show ?thesis by (simp add: segments_ok_def)
qed

lemma segments_cong:
  "segments_ok H s \<Longrightarrow> hr_log t = hr_log s \<Longrightarrow> hr_rest t = hr_rest s \<Longrightarrow> hr_ss t = hr_ss s \<Longrightarrow> segments_ok H t"
  by (simp add: segments_ok_def)

lemma helix_step_segments:
  assumes H: "helix_ok H" and s: "segments_ok H s" and run: "pl_running s \<subseteq> {..<cores H}" and step: "helix_step H s t"
  shows "segments_ok H t"
  using step
proof (cases rule: helix_step.cases)
  case (wait c k n as locks)
  have c: "c < cores H" using run wait by auto
  have free: "\<not> hr_ss s (c, n)" and locks: "locks = (hr_ss s)((c, n) := True)"
    using wait helix_okD(2) [OF H c] by (auto simp: HELIX_wait_def split: if_splits)
  show ?thesis
  proof (rule segments_step [OF H s wait(3)])
    show "hr_ss t (r, q) = hr_ss s (r, q)" if "\<not> on_segment q (Wait n)" for q r
      using that by (simp add: wait(1) locks on_segment_def)
    show "\<exists>m. seg_ok H q (hr_log s @ [(k, Wait n)]) ((hr_rest s)(c := as)) (hr_ss t) m"
      if "on_segment q (Wait n)" "seg_ok H q (hr_log s) (hr_rest s) (hr_ss s) m" for q m
      using that seg_wait [where rest = "hr_rest s" and ss = "hr_ss s" and c = c, OF _ helix_okD(1) [OF H] c wait(3) free] by (auto simp: wait(1) locks on_segment_def)
  qed (simp_all add: wait(1))
next
  case (signal c k n as)
  have c: "c < cores H" using run signal by auto
  show ?thesis
  proof (rule segments_step [OF H s signal(3)])
    show "hr_ss t (r, q) = hr_ss s (r, q)" if "\<not> on_segment q (Signal n)" for q r
      using that by (simp add: signal(1) HELIX_signal_def on_segment_def)
    show "\<exists>m. seg_ok H q (hr_log s @ [(k, Signal n)]) ((hr_rest s)(c := as)) (hr_ss t) m"
      if "on_segment q (Signal n)" "seg_ok H q (hr_log s) (hr_rest s) (hr_ss s) m" for q m
      using that seg_signal [where rest = "hr_rest s" and c = c, OF _ helix_okD(1) [OF H] c signal(3)]
      by (auto simp: signal(1) HELIX_signal_def helix_okD(3) [OF H] on_segment_def)
  qed (simp_all add: signal(1))
next
  case (work c k as)
  show ?thesis
    by (rule segments_step [OF H s work(3)]) (simp_all add: work(1) on_segment_def)
next
  case pool
  then have "pool_run.more t = pool_run.more s" by (rule pool_step_more)
  then show ?thesis by (intro segments_cong [OF s]) (cases t, cases s, simp)+
qed (auto intro: segments_cong [OF s])

lemma helix_step_inv:
  assumes H: "helix_ok H" and inv: "helix_inv H rt s" and step: "helix_step H s t"
  shows "helix_inv H rt t"
proof -
  have S: "segments_ok H s" using inv by (simp add: helix_inv_def)
  obtain st where P: "pool_ok (cores H) st s" "ended_ok (\<lambda>i. hr_rest s i = []) st s" using inv by (auto simp: helix_inv_def)
  note D = pool_okD [OF P(1)]
  have S': "segments_ok H t" by (rule helix_step_segments [OF H S D(8) step])
  from step show ?thesis
  proof (cases rule: helix_step.cases)
    case pool
    then have m: "pool_run.more t = pool_run.more s" by (rule pool_step_more)
    then have e: "hr_rest t = hr_rest s" "hr_rt t = hr_rt s" by (cases t, cases s, simp)+
    obtain st' where "pool_ok (cores H) st' t" "ended_ok (\<lambda>i. hr_rest s i = []) st' t"
      using pool_step_ok [OF P pool] by blast
    moreover have "pl_pc t = Done \<longleftrightarrow> pl_pc s = Done" using pool by (auto elim: pool_stepE)
    ultimately show ?thesis using S' inv e by (auto simp: helix_inv_def)
  next
    case cleanup
    then have "pool_ok (cores H) st t" "ended_ok (\<lambda>i. hr_rest t i = []) st t"
      using P by (auto simp: pool_ok_def ended_ok_def pool_counts)
    then show ?thesis using S' cleanup inv by (auto simp: helix_inv_def releaseCores_def check_eq_Inr)
  qed (use S' P inv in \<open>auto simp: helix_inv_def pool_ok_def ended_ok_def\<close>)
qed

lemma helix_init:
  assumes H: "helix_ok H"
  shows "helix_inv H rt (helix_start H rt)"
proof -
  have A: "unat (hf_numOfSSArrays H) = cores H" using H by (simp add: helix_ok_def cores_def)
  have "seg_ok H n [] (helix_program H) (init_segments (cores H) (hf_segments H)) 0" if "n < hf_segments H" for n
    using program_segment [OF _ that] helix_okD(4) [OF H] that by (auto simp: seg_ok_def init_segments_eq)
  then have "segments_ok H (helix_start H rt)"
    by (auto simp: segments_ok_def helix_start_def pool_run.defs A)
  moreover have "pool_ok (cores H) 0 (helix_start H rt)" unfolding helix_start_def by (rule pool_start_ok)
  moreover have "ended_ok (\<lambda>i. hr_rest (helix_start H rt) i = []) 0 (helix_start H rt)" by (simp add: ended_ok_def)
  moreover have "hr_rt (helix_start H rt) = rt" "pl_pc (helix_start H rt) \<noteq> Done"
    by (simp_all add: helix_start_def pool_start_def pool_run.defs)
  ultimately show ?thesis by (auto simp: helix_inv_def)
qed

section \<open>Every dispatch ends\<close>

definition helix_weight :: "helix_frame \<Rightarrow> helix_run \<Rightarrow> nat" where
  "helix_weight H s = pool_weight (cores H) s + (\<Sum>c < cores H. length (hr_rest s c))"

lemma helix_step_weight:
  assumes inv: "helix_inv H rt s" and step: "helix_step H s t"
  shows "helix_weight H t < helix_weight H s"
proof -
  obtain st where P: "pool_ok (cores H) st s" using inv by (auto simp: helix_inv_def)
  have run: "c < cores H" if "c \<in> pl_running s" for c using pool_okD(8) [OF P] that by auto
  from step show ?thesis
  proof (cases rule: helix_step.cases)
    case pool
    then have "pool_run.more t = pool_run.more s" by (rule pool_step_more)
    then have "hr_rest t = hr_rest s" by (cases t, cases s, simp)
    with pool_step_weight [OF P pool] show ?thesis by (simp add: helix_weight_def)
  next
    case (wait c k n as locks)
    with sum_rest_less [OF run, of c "hr_rest s"] show ?thesis by (simp add: helix_weight_def pool_weight_def)
  next
    case (signal c k n as)
    with sum_rest_less [OF run, of c "hr_rest s"] show ?thesis by (simp add: helix_weight_def pool_weight_def)
  next
    case (work c k as)
    with sum_rest_less [OF run, of c "hr_rest s"] show ?thesis by (simp add: helix_weight_def pool_weight_def)
  qed (auto simp: helix_weight_def pool_weight_def pool_counts)
qed

text \<open>The running task with the oldest iteration can go on.\<close>

lemma oldest_goes_on:
  assumes H: "helix_ok H" and S: "segments_ok H s" and P: "pool_ok (cores H) (cores H) s"
    and E: "ended_ok (\<lambda>i. hr_rest s i = []) (cores H) s"
    and busy: "\<forall>c \<in> pl_running s. hr_rest s c \<noteq> []" and some: "pl_running s \<noteq> {}"
  shows "\<exists>t. helix_step H s t"
proof -
  note D = pool_okD [OF P]
  define age where "age c = fst (hd (hr_rest s c))" for c
  obtain c where c: "c \<in> pl_running s" "\<And>d. d \<in> pl_running s \<Longrightarrow> age c \<le> age d"
    using ex_min_if_finite [of "age ` pl_running s"] D(7) some by (force simp: not_less)
  have cl: "c < cores H" using D(8) c(1) by auto
  obtain k a as where rest: "hr_rest s c = (k, a) # as" using busy c(1) by (metis list.exhaust prod.exhaust)
  then have k: "age c = k" by (simp add: age_def)
  show ?thesis
  proof (cases a)
    case (Signal n)
    with helix_step.signal [OF c(1)] rest show ?thesis by blast
  next
    case Work
    with helix_step.work [OF c(1)] rest show ?thesis by blast
  next
    case (Wait n)
    have n: "n < hf_segments H" by (rule act_segment [OF H S rest]) (simp add: Wait on_segment_def)
    then obtain m where ok: "seg_ok H n (hr_log s) (hr_rest s) (hr_ss s) m" using S by (auto simp: segments_ok_def)
    have "(k, Wait n) \<in> set (filter (seg n) (hr_rest s c))" using rest Wait by (simp add: on_segment_def)
    then have e: "(k, Wait n) \<in> set (drop m (order_of H n))" "k mod cores H = c"
      unfolding seg_okD(3) [OF ok cl] by auto
    from e(1) obtain i where i: "i < length (order_of H n) - m" "order_of H n ! (m + i) = (k, Wait n)"
      by (auto simp: in_set_conv_nth)
    then have mi: "m + i < 2 * hf_iterations H" by (simp add: length_turns)
    from nth_turns [OF this, of n] i(2) have ki: "k = (m + i) div 2" "even (m + i)" by (auto split: if_splits)
    have "m = 2 * k"
    proof (rule ccontr)
      assume "m \<noteq> 2 * k"
      with ki have less: "m div 2 < k" by presburger
      let ?d = "m div 2 mod cores H"
      have m: "m < 2 * hf_iterations H" using mi by simp
      have d: "?d < cores H" using helix_okD(1) [OF H] by simp
      have "(m div 2, if even m then Wait n else Signal n) \<in> set (filter (seg n) (hr_rest s ?d))"
        using seg_next(2) [OF ok m helix_okD(1) [OF H] d] by simp
      then have mem: "(m div 2, if even m then Wait n else Signal n) \<in> set (hr_rest s ?d)" by simp
      then have ne: "hr_rest s ?d \<noteq> []" by auto
      then have run: "?d \<in> pl_running s" using E d by (auto simp: ended_ok_def)
      obtain pre where "helix_program H ?d = pre @ hr_rest s ?d" using S by (auto simp: segments_ok_def)
      then have "sorted (map fst (hr_rest s ?d))" using program_sorted [of H ?d] by (simp add: sorted_append)
      then have "age ?d \<le> m div 2" using mem ne by (cases "hr_rest s ?d") (auto simp: age_def)
      with c(2) [OF run] k less show False by simp
    qed
    then have "\<not> hr_ss s (c, n)" using seg_okD(4) [OF ok cl] e(2) by simp
    then have "HELIX_wait (pastID H c, n) (hr_ss s) = Some ((hr_ss s)((c, n) := True))"
      using helix_okD(2) [OF H cl] by (simp add: HELIX_wait_def)
    with helix_step.wait [OF c(1)] rest Wait show ?thesis by blast
  qed
qed

lemma helix_progress:
  assumes H: "helix_ok H" and threads: "cores H \<le> hf_threads H" and inv: "helix_inv H rt s" and more: "pl_pc s \<noteq> Done"
  shows "\<exists>t. helix_step H s t"
proof (cases "\<exists>t. pool_step (cores H) (hf_threads H) (\<lambda>i. hr_rest s i = []) s t")
  case True
  then show ?thesis by (blast intro: helix_step.pool)
next
  case False
  obtain st where P: "pool_ok (cores H) st s" "ended_ok (\<lambda>i. hr_rest s i = []) st s" and S: "segments_ok H s"
    using inv by (auto simp: helix_inv_def)
  show ?thesis
  proof (cases "pl_pc s = Cleaning")
    case True
    have "releaseCores (hf_numCores H) (hr_rt s) = Inr ((hr_rt s)\<lparr>idleCores := idleCores (hr_rt s) + hf_numCores H\<rparr>)"
      using H by (simp add: releaseCores_def helix_ok_def)
    with True show ?thesis by (blast intro: helix_step.cleanup)
  next
    case nc: False
    have T: "0 < hf_threads H" using threads helix_okD(1) [OF H] by simp
    note W = pool_waits [OF P(1) T nc more False]
    have "st = cores H"
    proof (rule ccontr)
      assume ne: "st \<noteq> cores H"
      then have "card (pl_running s) \<le> card {..<st}" using pool_okD(5) [OF P(1)] by (intro card_mono) auto
      with ne W(4) threads pool_okD(1,2) [OF P(1)] show False by simp
    qed
    with P W(2,3) oldest_goes_on [OF H S] show ?thesis by simp
  qed
qed

interpretation any_helix: stopping_protocol "helix_step H" "\<lambda>s. helix_ok H \<and> helix_inv H rt s" "helix_weight H" for H rt
  by unfold_locales (auto intro: helix_step_inv helix_step_weight)

interpretation helix: ending_protocol "helix_step H" "\<lambda>s. helix_ok H \<and> cores H \<le> hf_threads H \<and> helix_inv H rt s"
    "helix_weight H" "\<lambda>s. pl_pc s = Done" for H rt
  by unfold_locales (auto intro: helix_step_inv helix_step_weight helix_progress)

end
