(* ===== verification/DswpRun.thy ===== *)
theory DswpRun
  imports Runtime TaskPool
begin

text \<open>
  A DSWP dispatch: \<open>NOELLE_DSWPDispatcher\<close>, \<open>NOELLE_DSWPTrampoline\<close> and the \<open>queuePush\<close> and \<open>queuePop\<close> functions of
  \<open>core/runtime/Parallelizer_utils.cpp\<close>.

  The stages of a pipeline communicate over queues of fixed element width, which are never full; a pop waits for an element.
  The code of the stages is generated by the compiler: what a stage does with its queues in the run at hand is the
  parameter \<open>pf_program\<close>.
\<close>

section \<open>The steps\<close>

datatype dswp_act = Push nat "64 word" | Pop nat | Compute

record dswp_frame =
  pf_numCores :: "32 word"
  pf_stages :: nat
  pf_widths :: "nat list"
  pf_threads :: nat
  pf_program :: "nat \<Rightarrow> dswp_act list"

record dswp_run = pool_run +
  pr_rt :: noelle_runtime
  pr_queues :: "nat \<Rightarrow> 64 word list"
  pr_rest :: "nat \<Rightarrow> dswp_act list"
  pr_popped :: "nat \<Rightarrow> 64 word list"

text \<open>The width of the elements of a queue of the given size.\<close>

definition queue_width :: "64 word \<Rightarrow> nat res" where
  "queue_width queueSize = (if queueSize = 1 then Inr 8 else if queueSize = 8 then Inr 8 else if queueSize = 16 then Inr 16
     else if queueSize = 32 then Inr 32 else if queueSize = 64 then Inr 64 else Inl Aborted)"

fun queue_widths :: "64 word list \<Rightarrow> nat list res" where
  "queue_widths [] = Inr []"
| "queue_widths (queueSize # queueSizes) = andThen (queue_width queueSize) (\<lambda>w. andThen (queue_widths queueSizes) (\<lambda>ws. Inr (w # ws)))"

definition queuePush :: "nat \<Rightarrow> 64 word \<Rightarrow> 64 word list \<Rightarrow> 64 word list" where
  "queuePush w val queue = queue @ [take_bit w val]"

definition queuePop :: "64 word list \<Rightarrow> (64 word \<times> 64 word list) option" where
  "queuePop queue = (case queue of [] \<Rightarrow> None | val # rest \<Rightarrow> Some (val, rest))"

definition dswp_start :: "dswp_frame \<Rightarrow> noelle_runtime \<Rightarrow> dswp_run" where
  "dswp_start F rt = pool_run.extend pool_start
     \<lparr>pr_rt = rt, pr_queues = (\<lambda>_. []), pr_rest = pf_program F, pr_popped = (\<lambda>_. [])\<rparr>"

definition dswp_enter ::
  "64 word list \<Rightarrow> nat \<Rightarrow> nat \<Rightarrow> (nat \<Rightarrow> dswp_act list) \<Rightarrow> noelle_runtime \<Rightarrow> (dswp_frame \<times> dswp_run) res" where
  "dswp_enter queueSizes numberOfStages threads program rt =
     (let (numCores, rt1) = reserveCores (of_nat numberOfStages) rt
      in check (1 \<le> numCores) AssertFailed
         (andThen (queue_widths queueSizes) (\<lambda>widths.
            let F = \<lparr>pf_numCores = numCores, pf_stages = numberOfStages, pf_widths = widths, pf_threads = threads,
                     pf_program = program\<rparr>
            in Inr (F, dswp_start F rt1))))"

inductive dswp_step :: "dswp_frame \<Rightarrow> dswp_run \<Rightarrow> dswp_run \<Rightarrow> bool" for F where
  pool: "pool_step (pf_stages F) (pf_threads F) (\<lambda>i. pr_rest s i = []) s t \<Longrightarrow> dswp_step F s t"
| cleanup: "pl_pc s = Cleaning \<Longrightarrow> releaseCores (pf_numCores F) (pr_rt s) = Inr rt1 \<Longrightarrow>
     dswp_step F s (s\<lparr>pl_pc := Done, pr_rt := rt1\<rparr>)"
| push: "i \<in> pl_running s \<Longrightarrow> pr_rest s i = Push q v # as \<Longrightarrow>
     dswp_step F s (s\<lparr>pr_queues := (pr_queues s)(q := queuePush (pf_widths F ! q) v (pr_queues s q)), pr_rest := (pr_rest s)(i := as)\<rparr>)"
| pop: "i \<in> pl_running s \<Longrightarrow> pr_rest s i = Pop q # as \<Longrightarrow> queuePop (pr_queues s q) = Some (v, rest) \<Longrightarrow>
     dswp_step F s (s\<lparr>pr_queues := (pr_queues s)(q := rest), pr_rest := (pr_rest s)(i := as),
       pr_popped := (pr_popped s)(q := pr_popped s q @ [v])\<rparr>)"
| compute: "i \<in> pl_running s \<Longrightarrow> pr_rest s i = Compute # as \<Longrightarrow> dswp_step F s (s\<lparr>pr_rest := (pr_rest s)(i := as)\<rparr>)"

section \<open>Pipelines\<close>

text \<open>The values that a program pushes to a queue, and how many it pops from it.\<close>

fun pushes :: "'a dswp_frame_scheme \<Rightarrow> nat \<Rightarrow> dswp_act list \<Rightarrow> 64 word list" where
  "pushes F q [] = []"
| "pushes F q (Push p v # as) = (if p = q then take_bit (pf_widths F ! q) v # pushes F q as else pushes F q as)"
| "pushes F q (_ # as) = pushes F q as"

definition pops :: "nat \<Rightarrow> dswp_act list \<Rightarrow> nat" where
  "pops q as = length (filter (\<lambda>a. a = Pop q) as)"

lemma pops_simps [simp]: "pops q [] = 0" "pops q (Pop p # as) = (if p = q then Suc (pops q as) else pops q as)"
  "pops q (Push p v # as) = pops q as" "pops q (Compute # as) = pops q as"
  by (simp_all add: pops_def)

text \<open>Every queue goes from one stage to a later one, which pops no more than the former pushes.\<close>

definition pipeline :: "dswp_frame \<Rightarrow> (nat \<Rightarrow> nat) \<Rightarrow> (nat \<Rightarrow> nat) \<Rightarrow> bool" where
  "pipeline F from_stage to_stage \<longleftrightarrow> 0 < pf_numCores F \<and> (\<forall>q < length (pf_widths F). from_stage q < to_stage q \<and>
       to_stage q < pf_stages F \<and> pops q (pf_program F (to_stage q)) \<le> length (pushes F q (pf_program F (from_stage q)))) \<and>
     (\<forall>i < pf_stages F. \<forall>a \<in> set (pf_program F i). (\<forall>q v. a = Push q v \<longrightarrow> q < length (pf_widths F) \<and> from_stage q = i) \<and>
       (\<forall>q. a = Pop q \<longrightarrow> q < length (pf_widths F) \<and> to_stage q = i))"

definition queues_ok :: "dswp_frame \<Rightarrow> (nat \<Rightarrow> nat) \<Rightarrow> (nat \<Rightarrow> nat) \<Rightarrow> dswp_run \<Rightarrow> bool" where
  "queues_ok F from_stage to_stage s \<longleftrightarrow> (\<forall>q < length (pf_widths F).
       pr_popped s q @ pr_queues s q @ pushes F q (pr_rest s (from_stage q)) = pushes F q (pf_program F (from_stage q)) \<and>
       length (pr_popped s q) + pops q (pr_rest s (to_stage q)) = pops q (pf_program F (to_stage q))) \<and>
     (\<forall>i. set (pr_rest s i) \<subseteq> set (pf_program F i))"

definition dswp_inv :: "dswp_frame \<Rightarrow> (nat \<Rightarrow> nat) \<Rightarrow> (nat \<Rightarrow> nat) \<Rightarrow> noelle_runtime \<Rightarrow> dswp_run \<Rightarrow> bool" where
  "dswp_inv F from_stage to_stage rt s \<longleftrightarrow> queues_ok F from_stage to_stage s \<and>
     (\<exists>st. pool_ok (pf_stages F) st s \<and> ended_ok (\<lambda>i. pr_rest s i = []) st s) \<and>
     pr_rt s = (if pl_pc s = Done then rt\<lparr>idleCores := idleCores rt + pf_numCores F\<rparr> else rt)"

lemma queues_okD:
  assumes "queues_ok F from_stage to_stage s"
  shows "q < length (pf_widths F) \<Longrightarrow>
      pr_popped s q @ pr_queues s q @ pushes F q (pr_rest s (from_stage q)) = pushes F q (pf_program F (from_stage q))"
    and "q < length (pf_widths F) \<Longrightarrow> length (pr_popped s q) + pops q (pr_rest s (to_stage q)) = pops q (pf_program F (to_stage q))"
    and "set (pr_rest s i) \<subseteq> set (pf_program F i)" and "pr_rest s i = a # as \<Longrightarrow> set (((pr_rest s)(i := as)) j) \<subseteq> set (pf_program F j)"
proof -
  have sub: "set (pr_rest s i) \<subseteq> set (pf_program F i)" for i using assms by (simp add: queues_ok_def)
  then show "set (pr_rest s i) \<subseteq> set (pf_program F i)" .
  show "pr_rest s i = a # as \<Longrightarrow> set (((pr_rest s)(i := as)) j) \<subseteq> set (pf_program F j)" using sub [of i] sub [of j] by auto
qed (use assms in \<open>simp_all add: queues_ok_def\<close>)

lemma pipeline_act:
  assumes P: "pipeline F from_stage to_stage" and Q: "queues_ok F from_stage to_stage s" and i: "i < pf_stages F"
    and rest: "pr_rest s i = a # as"
  shows "a = Push q v \<Longrightarrow> q < length (pf_widths F) \<and> from_stage q = i" and "a = Pop q \<Longrightarrow> q < length (pf_widths F) \<and> to_stage q = i"
proof -
  have "a \<in> set (pf_program F i)" using queues_okD(3) [OF Q, of i] rest by auto
  with P i show "a = Push q v \<Longrightarrow> q < length (pf_widths F) \<and> from_stage q = i" "a = Pop q \<Longrightarrow> q < length (pf_widths F) \<and> to_stage q = i"
    unfolding pipeline_def by blast+
qed

lemma dswp_step_queues:
  assumes P: "pipeline F from_stage to_stage" and Q: "queues_ok F from_stage to_stage s" and run: "pl_running s \<subseteq> {..<pf_stages F}"
    and step: "dswp_step F s t"
  shows "queues_ok F from_stage to_stage t"
  using step
proof (cases rule: dswp_step.cases)
  case pool
  then have "pool_run.more t = pool_run.more s" by (rule pool_step_more)
  then have "pr_rest t = pr_rest s" "pr_queues t = pr_queues s" "pr_popped t = pr_popped s" by (cases t, cases s, simp)+
  with Q show ?thesis by (simp add: queues_ok_def)
next
  case (push i q v as)
  have i: "i < pf_stages F" using run push by auto
  have fs: "from_stage q = i" using pipeline_act(1) [OF P Q i push(3)] by simp
  have "pushes F p (as) = tl (pushes F p (Push q v # as))" if "p = q" for p using that by simp
  show ?thesis
    unfolding queues_ok_def
  proof (intro conjI allI impI)
    fix p assume p: "p < length (pf_widths F)"
    have old: "pr_popped s p @ pr_queues s p @ pushes F p (pr_rest s (from_stage p)) = pushes F p (pf_program F (from_stage p))"
      "length (pr_popped s p) + pops p (pr_rest s (to_stage p)) = pops p (pf_program F (to_stage p))" using Q p by (simp_all add: queues_ok_def)
    show "length (pr_popped t p) + pops p (pr_rest t (to_stage p)) = pops p (pf_program F (to_stage p))"
      using old(2) push by auto
    show "pr_popped t p @ pr_queues t p @ pushes F p (pr_rest t (from_stage p)) = pushes F p (pf_program F (from_stage p))"
    proof (cases "from_stage p = i")
      case True
      then have "pushes F p (pr_rest s (from_stage p)) = pushes F p (Push q v # as)" using push by simp
      with True old(1) push show ?thesis by (auto simp: queuePush_def split: if_splits)
    next
      case False
      with fs have "p \<noteq> q" by auto
      with False old(1) push show ?thesis by simp
    qed
  next
    show "set (pr_rest t j) \<subseteq> set (pf_program F j)" for j using queues_okD(4) [OF Q push(3)] push by simp
  qed
next
  case (pop i q as v rest)
  have i: "i < pf_stages F" using run pop by auto
  have ts: "to_stage q = i" using pipeline_act(2) [OF P Q i pop(3)] by simp
  have qs: "pr_queues s q = v # rest" using pop by (auto simp: queuePop_def split: list.splits)
  show ?thesis
    unfolding queues_ok_def
  proof (intro conjI allI impI)
    fix p assume p: "p < length (pf_widths F)"
    have old: "pr_popped s p @ pr_queues s p @ pushes F p (pr_rest s (from_stage p)) = pushes F p (pf_program F (from_stage p))"
      "length (pr_popped s p) + pops p (pr_rest s (to_stage p)) = pops p (pf_program F (to_stage p))" using Q p by (simp_all add: queues_ok_def)
    have "pushes F p (pr_rest t (from_stage p)) = pushes F p (pr_rest s (from_stage p))" using pop by auto
    with old(1) qs pop show "pr_popped t p @ pr_queues t p @ pushes F p (pr_rest t (from_stage p)) = pushes F p (pf_program F (from_stage p))"
      by auto
    show "length (pr_popped t p) + pops p (pr_rest t (to_stage p)) = pops p (pf_program F (to_stage p))"
    proof (cases "to_stage p = i")
      case True
      then have "pops p (pr_rest s (to_stage p)) = pops p (Pop q # as)" using pop by simp
      with True old(2) pop show ?thesis by (auto split: if_splits)
    next
      case False
      with ts have "p \<noteq> q" by auto
      with False old(2) pop show ?thesis by simp
    qed
  next
    show "set (pr_rest t j) \<subseteq> set (pf_program F j)" for j using queues_okD(4) [OF Q pop(3)] pop by simp
  qed
next
  case (compute i as)
  have "pushes F p ((pr_rest t) j) = pushes F p (pr_rest s j)" "pops p ((pr_rest t) j) = pops p (pr_rest s j)" for p j
    using compute by auto
  moreover have "set (pr_rest t j) \<subseteq> set (pf_program F j)" for j using queues_okD(4) [OF Q compute(3)] compute by simp
  moreover have "pr_popped t = pr_popped s" "pr_queues t = pr_queues s" using compute by simp_all
  ultimately show ?thesis using queues_okD(1,2) [OF Q] by (simp add: queues_ok_def)
qed (use Q in \<open>simp add: queues_ok_def\<close>)

lemma dswp_step_inv:
  assumes P: "pipeline F from_stage to_stage" and inv: "dswp_inv F from_stage to_stage rt s" and step: "dswp_step F s t"
  shows "dswp_inv F from_stage to_stage rt t"
proof -
  have Q: "queues_ok F from_stage to_stage s" using inv by (simp add: dswp_inv_def)
  obtain st where K: "pool_ok (pf_stages F) st s" "ended_ok (\<lambda>i. pr_rest s i = []) st s" using inv by (auto simp: dswp_inv_def)
  have Q': "queues_ok F from_stage to_stage t" by (rule dswp_step_queues [OF P Q pool_okD(8) [OF K(1)] step])
  from step show ?thesis
  proof (cases rule: dswp_step.cases)
    case pool
    then have m: "pool_run.more t = pool_run.more s" by (rule pool_step_more)
    then have e: "pr_rest t = pr_rest s" "pr_rt t = pr_rt s" by (cases t, cases s, simp)+
    obtain st' where "pool_ok (pf_stages F) st' t" "ended_ok (\<lambda>i. pr_rest s i = []) st' t" using pool_step_ok [OF K pool] by blast
    moreover have "pl_pc t = Done \<longleftrightarrow> pl_pc s = Done" using pool by (auto elim: pool_stepE)
    ultimately show ?thesis using Q' inv e by (auto simp: dswp_inv_def)
  next
    case cleanup
    then have "pool_ok (pf_stages F) st t" "ended_ok (\<lambda>i. pr_rest t i = []) st t"
      using K by (auto simp: pool_ok_def ended_ok_def pool_counts)
    then show ?thesis using Q' cleanup inv by (auto simp: dswp_inv_def releaseCores_def check_eq_Inr)
  qed (use Q' K inv in \<open>auto simp: dswp_inv_def pool_ok_def ended_ok_def\<close>)
qed

lemma dswp_init:
  assumes "pipeline F from_stage to_stage"
  shows "dswp_inv F from_stage to_stage rt (dswp_start F rt)"
proof -
  have "queues_ok F from_stage to_stage (dswp_start F rt)" by (auto simp: queues_ok_def dswp_start_def pool_run.defs)
  moreover have "pool_ok (pf_stages F) 0 (dswp_start F rt)" unfolding dswp_start_def by (rule pool_start_ok)
  moreover have "ended_ok (\<lambda>i. pr_rest (dswp_start F rt) i = []) 0 (dswp_start F rt)" by (simp add: ended_ok_def)
  moreover have "pr_rt (dswp_start F rt) = rt" "pl_pc (dswp_start F rt) \<noteq> Done"
    by (simp_all add: dswp_start_def pool_start_def pool_run.defs)
  ultimately show ?thesis by (auto simp: dswp_inv_def)
qed

section \<open>Every dispatch ends\<close>

definition dswp_weight :: "dswp_frame \<Rightarrow> dswp_run \<Rightarrow> nat" where
  "dswp_weight F s = pool_weight (pf_stages F) s + (\<Sum>c < pf_stages F. length (pr_rest s c))"

lemma dswp_step_weight:
  assumes inv: "dswp_inv F from_stage to_stage rt s" and step: "dswp_step F s t"
  shows "dswp_weight F t < dswp_weight F s"
proof -
  obtain st where K: "pool_ok (pf_stages F) st s" using inv by (auto simp: dswp_inv_def)
  have run: "c < pf_stages F" if "c \<in> pl_running s" for c using pool_okD(8) [OF K] that by auto
  from step show ?thesis
  proof (cases rule: dswp_step.cases)
    case pool
    then have "pool_run.more t = pool_run.more s" by (rule pool_step_more)
    then have "pr_rest t = pr_rest s" by (cases t, cases s, simp)
    with pool_step_weight [OF K pool] show ?thesis by (simp add: dswp_weight_def)
  next
    case (push c q v as)
    with sum_rest_less [OF run, of c "pr_rest s"] show ?thesis by (simp add: dswp_weight_def pool_weight_def)
  next
    case (pop c q as v rest)
    with sum_rest_less [OF run, of c "pr_rest s"] show ?thesis by (simp add: dswp_weight_def pool_weight_def)
  next
    case (compute c as)
    with sum_rest_less [OF run, of c "pr_rest s"] show ?thesis by (simp add: dswp_weight_def pool_weight_def)
  qed (auto simp: dswp_weight_def pool_weight_def pool_counts)
qed

text \<open>The first running stage can go on: the stages before it have ended, so its queues hold all it still pops.\<close>

lemma dswp_progress:
  assumes P: "pipeline F from_stage to_stage" and T: "0 < pf_threads F" and inv: "dswp_inv F from_stage to_stage rt s"
    and more: "pl_pc s \<noteq> Done"
  shows "\<exists>t. dswp_step F s t"
proof (cases "\<exists>t. pool_step (pf_stages F) (pf_threads F) (\<lambda>i. pr_rest s i = []) s t")
  case True
  then show ?thesis by (blast intro: dswp_step.pool)
next
  case False
  obtain st where K: "pool_ok (pf_stages F) st s" "ended_ok (\<lambda>i. pr_rest s i = []) st s" and Q: "queues_ok F from_stage to_stage s"
    using inv by (auto simp: dswp_inv_def)
  note D = pool_okD [OF K(1)]
  show ?thesis
  proof (cases "pl_pc s = Cleaning")
    case True
    have "releaseCores (pf_numCores F) (pr_rt s) = Inr ((pr_rt s)\<lparr>idleCores := idleCores (pr_rt s) + pf_numCores F\<rparr>)"
      using P by (simp add: releaseCores_def pipeline_def)
    with True show ?thesis by (blast intro: dswp_step.cleanup)
  next
    case nc: False
    note W = pool_waits [OF K(1) T nc more False]
    define c where "c = Min (pl_running s)"
    have c: "c \<in> pl_running s" "\<And>d. d < c \<Longrightarrow> d \<notin> pl_running s" using W(2) D(7) by (auto simp: c_def)
    have cl: "c < pf_stages F" "c < st" using D(5,8) c(1) by auto
    obtain a as where rest: "pr_rest s c = a # as" using W(3) c(1) by (meson neq_Nil_conv)
    show ?thesis
    proof (cases a)
      case (Push q v)
      with dswp_step.push [OF c(1)] rest show ?thesis by blast
    next
      case Compute
      with dswp_step.compute [OF c(1)] rest show ?thesis by blast
    next
      case (Pop q)
      then have q: "q < length (pf_widths F)" "to_stage q = c" using pipeline_act(2) [OF P Q cl(1) rest] by simp_all
      have "from_stage q < c" and le: "pops q (pf_program F c) \<le> length (pushes F q (pf_program F (from_stage q)))"
        using P q by (auto simp: pipeline_def)
      then have "pr_rest s (from_stage q) = []" using K(2) c(2) cl(2) by (auto simp: ended_ok_def)
      then have "pr_popped s q @ pr_queues s q = pushes F q (pf_program F (from_stage q))"
        "length (pr_popped s q) + pops q (pr_rest s c) = pops q (pf_program F c)" using Q q by (auto simp: queues_ok_def)
      moreover have "0 < pops q (pr_rest s c)" using rest Pop by simp
      ultimately have "pr_queues s q \<noteq> []" using le by (metis append_Nil2 less_add_same_cancel1 not_le)
      then obtain v r where "queuePop (pr_queues s q) = Some (v, r)" by (auto simp: queuePop_def neq_Nil_conv)
      with dswp_step.pop [OF c(1)] rest Pop show ?thesis by blast
    qed
  qed
qed

interpretation dswp: ending_protocol "dswp_step F"
    "\<lambda>s. pipeline F from_stage to_stage \<and> 0 < pf_threads F \<and> dswp_inv F from_stage to_stage rt s"
    "dswp_weight F" "\<lambda>s. pl_pc s = Done" for F from_stage to_stage rt
  by unfold_locales (auto intro: dswp_step_inv dswp_step_weight dswp_progress)

lemma dswp_done:
  assumes P: "pipeline F from_stage to_stage" and inv: "dswp_inv F from_stage to_stage rt s" and pc: "pl_pc s = Done"
    and q: "q < length (pf_widths F)"
  shows "pr_popped s q = take (pops q (pf_program F (to_stage q))) (pushes F q (pf_program F (from_stage q)))"
    and "length (pr_popped s q) = pops q (pf_program F (to_stage q))"
proof -
  obtain st where K: "pool_ok (pf_stages F) st s" "ended_ok (\<lambda>i. pr_rest s i = []) st s" and Q: "queues_ok F from_stage to_stage s"
    using inv by (auto simp: dswp_inv_def)
  note D = pool_okD [OF K(1)]
  have "st = pf_stages F" "pl_running s = {}" using D(1,2,3,5) pc by (auto simp: pool_counts)
  then have "pr_rest s i = []" if "i < pf_stages F" for i using K(2) that by (simp add: ended_ok_def)
  moreover have "from_stage q < pf_stages F" "to_stage q < pf_stages F" using P q by (auto simp: pipeline_def)
  ultimately have e: "pr_rest s (from_stage q) = []" "pr_rest s (to_stage q) = []" by simp_all
  from e show l: "length (pr_popped s q) = pops q (pf_program F (to_stage q))" using queues_okD(2) [OF Q q] by simp
  have "pr_popped s q @ pr_queues s q = pushes F q (pf_program F (from_stage q))" using queues_okD(1) [OF Q q] e by simp
  then show "pr_popped s q = take (pops q (pf_program F (to_stage q))) (pushes F q (pf_program F (from_stage q)))"
    by (metis l append_eq_conv_conj)
qed

end
