(* ===== verification/RuntimeQueries.thy ===== *)
theory RuntimeQueries
  imports DoallRun HelixRun DswpRun
begin

text \<open>
  Properties of the runtime: the accounting of cores, and the three dispatchers, each with its tasks running concurrently.
\<close>

section \<open>Too few threads for HELIX\<close>

text \<open>As long as only the first \<open>T\<close> tasks are started, none of them can end: each has an iteration after those of all cores, which
  waits for the task of the core \<open>T\<close>.\<close>

definition starved :: "helix_frame \<Rightarrow> noelle_runtime \<Rightarrow> helix_run \<Rightarrow> bool" where
  "starved H rt s \<longleftrightarrow> helix_inv H rt s \<and> (\<exists>st \<le> hf_threads H. pool_ok (cores H) st s \<and> pl_running s = {..<st}) \<and>
     (\<forall>c \<ge> hf_threads H. hr_rest s c = helix_program H c)"

definition short_of_threads :: "helix_frame \<Rightarrow> bool" where
  "short_of_threads H \<longleftrightarrow> helix_ok H \<and> hf_threads H < cores H \<and> cores H + hf_threads H \<le> hf_iterations H \<and> 0 < hf_segments H"

lemma starved_rest:
  assumes H: "short_of_threads H" and s: "starved H rt s" and c: "c < hf_threads H"
  shows "hr_rest s c \<noteq> []"
proof
  assume e: "hr_rest s c = []"
  have ok: "helix_ok H" and T: "hf_threads H < cores H" "cores H + hf_threads H \<le> hf_iterations H" "0 < hf_segments H"
    using H by (simp_all add: short_of_threads_def)
  let ?T = "hf_threads H" and ?n = "cores H"
  obtain m where m: "seg_ok H 0 (hr_log s) (hr_rest s) (hr_ss s) m"
    using s T(3) by (auto simp: starved_def helix_inv_def segments_ok_def)
  have pos: "(k, Wait 0) \<in> set (drop m (order_of H 0)) \<longleftrightarrow> m \<le> 2 * k" if k: "k < hf_iterations H" for k
  proof
    assume "(k, Wait 0) \<in> set (drop m (order_of H 0))"
    then obtain i where i: "i < 2 * hf_iterations H - m" "order_of H 0 ! (m + i) = (k, Wait 0)"
      by (auto simp: in_set_conv_nth length_turns)
    then have "m + i < 2 * hf_iterations H" by simp
    with i nth_turns [of "m + i" "hf_iterations H" 0] have "k = (m + i) div 2" "even (m + i)" by (auto split: if_splits)
    then show "m \<le> 2 * k" by presburger
  next
    assume "m \<le> 2 * k"
    moreover have "order_of H 0 ! (2 * k) = (k, Wait 0)" using nth_turns [of "2 * k" "hf_iterations H" 0] k by simp
    ultimately show "(k, Wait 0) \<in> set (drop m (order_of H 0))"
      using k by (auto simp: in_set_conv_nth length_turns intro!: exI [of _ "2 * k - m"])
  qed
  have "filter (seg 0) (hr_rest s ?T) = filter (\<lambda>(k, _). k mod ?n = ?T) (order_of H 0)"
    using s program_segment [OF _ T(3)] helix_okD(4) [OF ok] by (auto simp: starved_def)
  moreover have "(?T, Wait 0) \<in> set (order_of H 0)" using T by (auto simp: turns_def)
  ultimately have "(?T, Wait 0) \<in> set (filter (seg 0) (hr_rest s ?T))" using T(1) by simp
  then have "m \<le> 2 * ?T" using seg_okD(3) [OF m T(1)] pos [of ?T] T by auto
  then have "(c + ?n, Wait 0) \<in> set (drop m (order_of H 0))" using pos [of "c + ?n"] T c by simp
  moreover have "(c + ?n) mod ?n = c" using c T by simp
  ultimately have "(c + ?n, Wait 0) \<in> set (filter (seg 0) (hr_rest s c))" using seg_okD(3) [OF m, of c] c T by simp
  with e show False by simp
qed

lemma starved_step:
  assumes H: "short_of_threads H" and s: "starved H rt s" and step: "helix_step H s t"
  shows "starved H rt t"
proof -
  have ok: "helix_ok H" and T: "hf_threads H < cores H" using H by (simp_all add: short_of_threads_def)
  have inv: "helix_inv H rt s" and far: "\<And>c. hf_threads H \<le> c \<Longrightarrow> hr_rest s c = helix_program H c" using s by (simp_all add: starved_def)
  obtain st where st: "st \<le> hf_threads H" "pool_ok (cores H) st s" "pl_running s = {..<st}" using s by (auto simp: starved_def)
  note D = pool_okD [OF st(2)]
  have inv': "helix_inv H rt t" by (rule helix_step_inv [OF ok inv step])
  from step show ?thesis
  proof (cases rule: helix_step.cases)
    case pool
    then have "pool_run.more t = pool_run.more s" by (rule pool_step_more)
    then have rest: "hr_rest t = hr_rest s" by (cases t, cases s, simp)
    have "ended_ok (\<lambda>i. hr_rest s i = []) st s" using st(3) by (simp add: ended_ok_def)
    from pool_step_ok [OF st(2) this pool] obtain st' where t: "pool_ok (cores H) st' t" and
      "st' = st \<and> (pl_running t = pl_running s \<or> (\<exists>i \<in> pl_running s. hr_rest s i = [])) \<or>
       st' = Suc st \<and> pl_running t = insert st (pl_running s) \<and> card (pl_running s) < hf_threads H" by blast
    then consider "st' = st" "pl_running t = pl_running s" | i where "i \<in> pl_running s" "hr_rest s i = []"
      | "st' = Suc st" "pl_running t = insert st (pl_running s)" "card (pl_running s) < hf_threads H" by blast
    then have "\<exists>st \<le> hf_threads H. pool_ok (cores H) st t \<and> pl_running t = {..<st}"
    proof cases
      case 2
      with starved_rest [OF H s] st show ?thesis by auto
    next
      case 3
      have "pl_running t = {..<Suc st}" using 3(2) st(3) by (simp add: lessThan_Suc)
      moreover have "Suc st \<le> hf_threads H" using 3(3) st(3) by simp
      moreover have "pool_ok (cores H) (Suc st) t" using t 3(1) by simp
      ultimately show ?thesis by blast
    qed (use t st in auto)
    with inv' far rest show ?thesis by (simp add: starved_def)
  next
    case cleanup
    then have "joined_tasks (cores H) (pl_pc s) = cores H" by (simp add: pool_counts)
    then show ?thesis using D(3) st(1) T by simp
  qed (use inv' far st in \<open>auto simp: starved_def pool_ok_def\<close>)
qed

section \<open>Cores\<close>

text \<open>Unsigned and signed readings of a core count.\<close>

lemma bit31: "bit (uint (x :: 32 word)) 31 \<longleftrightarrow> 2 ^ 31 \<le> uint x"
proof -
  have *: "odd (k div 2147483648) \<longleftrightarrow> 2147483648 \<le> k" if "0 \<le> k" "k < 4294967296" for k :: int
  proof (cases "2147483648 \<le> k")
    case True
    with that have "k div 2147483648 = 1" by (simp add: div_pos_geq)
    with True show ?thesis by simp
  qed (use that in simp)
  show ?thesis using * [of "uint x"] uint_lt2p [of x] by (simp add: bit_iff_odd)
qed

lemma sint_32: "sint (x :: 32 word) = (if 2 ^ 31 \<le> uint x then uint x - 2 ^ 32 else uint x)"
proof -
  have "take_bit 32 (uint x) = uint x" using take_bit_int_eq_self [of "uint x" 32] uint_lt2p [of x] by simp
  then show ?thesis by (simp add: sint_uint signed_take_bit_eq_take_bit_minus bit31)
qed

lemma negative_is_huge: "(i :: 32 word) <s 0 \<Longrightarrow> 0 \<le>s c \<Longrightarrow> c \<le> i"
  using uint_lt2p [of c] by (simp add: word_sless_alt word_sle_eq word_le_def sint_32 split: if_splits)

lemma positive_rest: "0 <s (i :: 32 word) \<Longrightarrow> n \<le> i \<Longrightarrow> 0 \<le>s i - n"
proof -
  assume "0 <s i" "n \<le> i"
  then have "0 < uint i" "uint i < 2 ^ 31" "uint n \<le> uint i"
    using uint_lt2p [of i] by (simp_all add: word_sless_alt word_le_def sint_32 split: if_splits)
  moreover from this have "uint i - uint n < 2 ^ 31" using uint_ge_0 [of n] by linarith
  ultimately show ?thesis using uint_sub_if' [of i n] by (simp add: word_sle_eq sint_32)
qed
lemma reserveCores_eq:
  assumes "reserveCores c rt = (n, rt1)"
  shows "n = max 1 (min c (idleCores rt))" and "rt1 = rt\<lparr>idleCores := idleCores rt - n\<rparr>" and "0 < n"
  using assms
  by (auto simp: reserveCores_def Let_def word_gt_0 word_less_1 max_def min_def linorder_not_le linorder_not_less word_le_0_iff
    split: if_splits)

lemma core_grant: "idleCores rt <s 0 \<Longrightarrow> 0 \<le>s c \<Longrightarrow> 0 < c \<Longrightarrow> fst (reserveCores c rt) = c"
  using reserveCores_eq(1) [of c rt "fst (reserveCores c rt)" "snd (reserveCores c rt)"] negative_is_huge [of "idleCores rt" c]
  by (simp add: min_def max_def inc_le [of 0, simplified])

text \<open>C22: A reservation grants at least one core and never more than requested (or one); releasing the granted cores restores the
  runtime exactly. With idle cores, the grant is the smaller of the request and the idle cores. With none, it is one core, and the count
  becomes negative. Then the comparison with the unsigned request takes the count for a huge number and grants every request in full.\<close>

theorem core_accounting:
  assumes "reserveCores c rt = (n, rt1)"
  shows "0 < n \<and> n \<le> max 1 c \<and> releaseCores n rt1 = Inr rt \<and>
    (0 <s idleCores rt \<longrightarrow> n = max 1 (min c (idleCores rt)) \<and> 0 \<le>s idleCores rt1) \<and>
    (idleCores rt = 0 \<longrightarrow> n = 1 \<and> idleCores rt1 = -1) \<and>
    (idleCores rt <s 0 \<and> 0 \<le>s c \<longrightarrow> n = max 1 c)"
proof (intro conjI impI)
  note R = reserveCores_eq [OF assms]
  show "0 < n" by (fact R(3))
  show "n \<le> max 1 c" unfolding R(1) by (intro max.mono) simp_all
  show "releaseCores n rt1 = Inr rt" using R(2,3) by (simp add: releaseCores_def)
  show "n = max 1 (min c (idleCores rt))" by (fact R(1))
  show "0 \<le>s idleCores rt1" if "0 <s idleCores rt"
  proof -
    have "0 < idleCores rt" using that by (auto simp: word_gt_0)
    then have "1 \<le> idleCores rt" by (simp add: inc_le [of 0, simplified])
    then have "n \<le> idleCores rt" unfolding R(1) by (intro max.boundedI) simp_all
    with positive_rest [OF that] show ?thesis by (simp add: R(2))
  qed
  show "n = 1" "idleCores rt1 = -1" if "idleCores rt = 0" using that by (simp_all add: R(1,2) max_def min_def)
  show "n = max 1 c" if "idleCores rt <s 0 \<and> 0 \<le>s c"
    using negative_is_huge [of "idleCores rt" c] that by (simp add: R(1) min_def)
qed

theorem core_accounting_witness:
  "0 < (3 :: 32 word) \<and> releaseCores 3 (NoelleRuntime_of (Some 4) 16\<lparr>idleCores := 1\<rparr>) = Inr (NoelleRuntime_of (Some 4) 16)"
proof -
  have "reserveCores 3 (NoelleRuntime_of (Some 4) 16) = (3, NoelleRuntime_of (Some 4) 16\<lparr>idleCores := 1\<rparr>)"
    by (simp add: reserveCores_def NoelleRuntime_of_def getMaximumNumberOfCores_def)
  from core_accounting [OF this] show ?thesis by simp
qed

text \<open>Nested dispatches can together be granted more cores than the machine has: once a dispatch holds all \<open>m\<close> cores, the next one
  is granted one core more, and every further one all that it requests.\<close>

theorem nested_dispatch_oversubscribes:
  assumes "0 <s m" and "1 \<le> c"
    and "reserveCores m (NoelleRuntime_of (Some m) hw) = (n1, rt1)" and "reserveCores a rt1 = (n2, rt2)"
    and "reserveCores c rt2 = (n3, rt3)"
  shows "n1 = m \<and> n2 = 1 \<and> n3 = c \<and> idleCores rt3 = - 1 - c"
proof -
  have idle: "idleCores (NoelleRuntime_of (Some m) hw) = m"
    by (simp add: NoelleRuntime_of_def getMaximumNumberOfCores_def Let_def)
  have m: "1 \<le> m" using assms(1) by (auto simp: word_less_1 linorder_not_less [symmetric])
  have 1: "n1 = m" "idleCores rt1 = 0" using reserveCores_eq(1,2) [OF assms(3)] m idle by (simp_all add: max_def)
  have 2: "n2 = 1" "idleCores rt2 = -1" using reserveCores_eq(1,2) [OF assms(4)] 1 by (simp_all add: max_def min_def)
  have "n3 = c" "idleCores rt3 = - 1 - c" using reserveCores_eq(1,2) [OF assms(5)] 2 assms(2) by (simp_all add: max_def min_def)
  with 1 2 show ?thesis by simp
qed

theorem nested_dispatch_oversubscribes_witness:
  "fst (reserveCores 64 (snd (reserveCores 2 (snd (reserveCores 4 (NoelleRuntime_of (Some 4) 16)))))) = 64"
  using nested_dispatch_oversubscribes [of 4 64 16 _ _ 2, OF _ _ surjective_pairing surjective_pairing surjective_pairing]
  by (simp add: word_sless_alt)

section \<open>Dispatches\<close>

text \<open>C23: The memory for DOALL arguments stays well-formed: it is so at the start, a reservation and a release of cores keep it, and a
  request for memory returns a block that was available or is new, is large enough, has all end locks taken and its cores numbered, while
  the blocks in use stay where they are.\<close>

theorem doall_memory_well_formed:
  assumes "rt_wf rt" and "getDOALLArgs uninit m rt = ((b, k), rt1)"
  shows "rt_wf (NoelleRuntime_of envVar hw) \<and> rt_wf (snd (reserveCores c rt)) \<and>
    rt_wf rt1 \<and> doallMemory rt1 ! k = b \<and> \<not> doallMemoryAvailability rt1 ! k \<and> unat m \<le> length (rt_mem rt1 b) \<and>
    (\<forall>i < length (rt_mem rt1 b). da_endLock (rt_mem rt1 b ! i) \<and> da_coreID (rt_mem rt1 b ! i) = of_nat i) \<and>
    (\<forall>j < length (doallMemory rt). \<not> doallMemoryAvailability rt ! j \<longrightarrow>
       j \<noteq> k \<and> doallMemory rt1 ! j = doallMemory rt ! j \<and> \<not> doallMemoryAvailability rt1 ! j \<and> doallMemory rt1 ! j \<noteq> b)"
proof -
  note G = getDOALLArgs_ok [OF assms]
  have "rt_wf (snd (reserveCores c rt))" using assms(1) by (simp add: reserveCores_def Let_def rt_wf_def)
  moreover have "j \<noteq> k \<and> doallMemory rt1 ! j = doallMemory rt ! j \<and> \<not> doallMemoryAvailability rt1 ! j \<and> doallMemory rt1 ! j \<noteq> b"
    if j: "j < length (doallMemory rt)" "\<not> doallMemoryAvailability rt ! j" for j
  proof -
    have "j \<noteq> k" using j G(11) by blast
    moreover from this have "doallMemory rt1 ! j \<noteq> doallMemory rt1 ! k"
      using G(1,4,10) j(1) by (simp add: rt_wf_def nth_eq_iff_index_eq)
    ultimately show ?thesis using G(5,9) j by simp
  qed
  ultimately show ?thesis using G(1,5,6,7,8) NoelleRuntime_of_wf by blast
qed

theorem doall_memory_well_formed_witness:
  "\<exists>b k rt1. getDOALLArgs (\<lambda>_. \<lparr>da_parallelizedLoop = 0, da_env = 0, da_coreID = 0, da_numCores = 0, da_chunkSize = 0, da_endLock = False\<rparr>) 3
     (NoelleRuntime_of None 16) = ((b, k), rt1) \<and> rt_wf rt1 \<and> 3 \<le> length (rt_mem rt1 b)"
proof -
  let ?u = "\<lambda>_. \<lparr>da_parallelizedLoop = 0, da_env = 0, da_coreID = 0, da_numCores = 0, da_chunkSize = 0, da_endLock = False\<rparr>"
  obtain b k rt1 where "getDOALLArgs ?u 3 (NoelleRuntime_of None 16) = ((b, k), rt1)" by (metis prod.collapse)
  with doall_memory_well_formed [OF NoelleRuntime_of_wf this] show ?thesis by auto
qed

text \<open>C7: Every DOALL dispatch ends, whatever the interleaving: no run is longer than four steps for every core, a run is stuck only
  when the dispatcher has returned, and then the loop has been called exactly once for every core ID below the number of cores, with the
  environment, that number and the chunk size; cores and memory are back.\<close>

theorem doall_dispatch:
  assumes "rt_wf rt" and "doall_enter uninit C rt = (D, s)" and "n = fst (reserveCores (ucast (dc_maxNumberOfCores C)) rt)"
  shows "(\<forall>k t. (doall_step D ^^ k) s t \<longrightarrow> k \<le> 4 * unat n) \<and>
    (\<exists>t. (doall_step D)\<^sup>*\<^sup>* s t \<and> dr_pc t = Returned) \<and>
    (\<forall>t. (doall_step D)\<^sup>*\<^sup>* s t \<longrightarrow> ((\<nexists>u. doall_step D t u) \<longleftrightarrow> dr_pc t = Returned)) \<and>
    (\<forall>t. (doall_step D)\<^sup>*\<^sup>* s t \<and> dr_pc t = Returned \<longrightarrow>
       mset (dr_calls t) = image_mset (\<lambda>i. (dc_parallelizedLoop C, dc_env C, of_nat i, ucast n, dc_chunkSize C)) (mset_set {..<unat n}) \<and>
       rt_wf (dr_rt t) \<and> idleCores (dr_rt t) = idleCores rt \<and> maxCores (dr_rt t) = maxCores rt \<and>
       doallMemoryAvailability (dr_rt t) ! df_doallMemoryIndex D)"
proof -
  note E = doall_enter_ok [OF assms(1,2)]
  have n: "n = df_numCores D" "0 < n" using assms(3) E(1,4) by (simp_all add: frame_ok_def)
  then have tasks: "Suc (tasks D) = unat n" by (simp add: tasks_def unat_minus_one word_gt_0 unat_gt_0)
  have inv: "frame_ok D (dr_rt s) \<and> doall_inv D (dr_rt s) s" using E(1,2) by blast
  have s: "dr_pc s = Submitting 0" "dr_pool s = {}" "dr_invoked s = {}" using assms(2) by (auto simp: doall_enter_def Let_def split: prod.splits)
  then have "doall_weight D s = 4 * unat n" using tasks by (simp add: doall_weight_def doall_counts)
  then have "\<forall>k t. (doall_step D ^^ k) s t \<longrightarrow> k \<le> 4 * unat n" using doall.run_bounded [OF _ inv] by fastforce
  moreover have "(\<nexists>u. doall_step D t u) \<longleftrightarrow> dr_pc t = Returned" if t: "(doall_step D)\<^sup>*\<^sup>* s t" for t
  proof
    show "(\<nexists>u. doall_step D t u) \<Longrightarrow> dr_pc t = Returned" using doall.stuck_is_final [OF inv t] by blast
    assume ret: "dr_pc t = Returned"
    have "doall_inv D (dr_rt s) t" using doall.inv_run [OF t inv] by blast
    from doall_returned(2,3) [OF this ret] show "\<nexists>u. doall_step D t u" using ret by (auto elim!: doall_stepE)
  qed
  moreover have "mset (dr_calls t) = image_mset (\<lambda>i. (dc_parallelizedLoop C, dc_env C, of_nat i, ucast n, dc_chunkSize C)) (mset_set {..<unat n}) \<and>
       rt_wf (dr_rt t) \<and> idleCores (dr_rt t) = idleCores rt \<and> maxCores (dr_rt t) = maxCores rt \<and>
       doallMemoryAvailability (dr_rt t) ! df_doallMemoryIndex D"
    if t: "(doall_step D)\<^sup>*\<^sup>* s t" and ret: "dr_pc t = Returned" for t
  proof -
    have I: "doall_inv D (dr_rt s) t" using doall.inv_run [OF t inv] by blast
    have "call_of D = (\<lambda>i. (dc_parallelizedLoop C, dc_env C, of_nat i, ucast n, dc_chunkSize C))" by (rule ext) (simp add: call_of_def E n)
    with doall_returned(1) [OF I ret] doall_exit_wf [OF E(3,1,9,10) I ret] doall_invD(1) [OF I] show ?thesis
      by (simp add: tasks E(5,11) n rt_during_def)
  qed
  ultimately show ?thesis using doall.run_ends [OF inv] by blast
qed

theorem doall_dispatch_witness:
  "\<exists>D s t. doall_enter (\<lambda>_. \<lparr>da_parallelizedLoop = 0, da_env = 0, da_coreID = 0, da_numCores = 0, da_chunkSize = 0, da_endLock = False\<rparr>)
     \<lparr>dc_parallelizedLoop = 1, dc_env = 2, dc_maxNumberOfCores = 3, dc_chunkSize = 8\<rparr> (NoelleRuntime_of (Some 4) 16) = (D, s) \<and>
     (doall_step D)\<^sup>*\<^sup>* s t \<and> mset (dr_calls t) = image_mset (\<lambda>i. (1, 2, of_nat i, 3, 8)) (mset_set {..<3})"
proof -
  let ?u = "\<lambda>_. \<lparr>da_parallelizedLoop = 0, da_env = 0, da_coreID = 0, da_numCores = 0, da_chunkSize = 0, da_endLock = False\<rparr>"
  let ?C = "\<lparr>dc_parallelizedLoop = 1, dc_env = 2, dc_maxNumberOfCores = 3, dc_chunkSize = 8\<rparr>"
  obtain D s where e: "doall_enter ?u ?C (NoelleRuntime_of (Some 4) 16) = (D, s)" by (metis prod.collapse)
  have "3 = fst (reserveCores (ucast (dc_maxNumberOfCores ?C)) (NoelleRuntime_of (Some 4) 16))"
    by (simp add: reserveCores_def NoelleRuntime_of_def getMaximumNumberOfCores_def)
  from doall_dispatch [OF NoelleRuntime_of_wf e this] e show ?thesis by auto
qed

section \<open>HELIX\<close>

lemma helix_enter_ok:
  assumes enter: "helix_enter LIO loop env m segments threads iterations iter rt = Inr (H, s)"
    and iters: "\<forall>k < iterations. iteration_ok segments (iter k)"
  shows "loop \<noteq> None" "env \<noteq> None" "1 <s m" and "LIO \<Longrightarrow> helix_ok H" and "hf_numCores H = fst (reserveCores (ucast m) rt)" "0 < hf_numCores H"
    and "hf_segments H = segments" "hf_threads H = threads" "hf_iterations H = iterations" "hf_iter H = iter"
    and "s = helix_start H (snd (reserveCores (ucast m) rt))" and "idleCores (snd (reserveCores (ucast m) rt)) + hf_numCores H = idleCores rt"
    and "snd (reserveCores (ucast m) rt)\<lparr>idleCores := idleCores rt\<rparr> = rt"
proof -
  obtain n rt1 where n: "reserveCores (ucast m) rt = (n, rt1)" by (cases "reserveCores (ucast m) rt")
  from enter show c: "loop \<noteq> None" "env \<noteq> None" "1 <s m" by (auto simp: helix_enter_def check_eq_Inr)
  from enter n c have H: "H = \<lparr>hf_numCores = n, hf_numOfSSArrays = (if LIO then n else 1), hf_segments = segments, hf_threads = threads,
      hf_iterations = iterations, hf_iter = iter\<rparr>" "s = helix_start H rt1"
    by (auto simp: helix_enter_def check_eq_Inr Let_def)
  note R = reserveCores_eq [OF n]
  show "LIO \<Longrightarrow> helix_ok H" "hf_numCores H = fst (reserveCores (ucast m) rt)" "0 < hf_numCores H" "hf_segments H = segments"
    "hf_threads H = threads" "hf_iterations H = iterations" "hf_iter H = iter" "s = helix_start H (snd (reserveCores (ucast m) rt))"
    "idleCores (snd (reserveCores (ucast m) rt)) + hf_numCores H = idleCores rt" "snd (reserveCores (ucast m) rt)\<lparr>idleCores := idleCores rt\<rparr> = rt"
    using iters R H n by (simp_all add: helix_ok_def)
qed

lemma pool_done:
  assumes "pool_ok n st s" "pl_pc s = Done"
  shows "st = n" "pl_running s = {}"
  using pool_okD(1,2,3,5) [OF assms(1)] assms(2) by (auto simp: pool_counts)

lemma helix_done:
  assumes ok: "helix_ok H" and inv: "helix_inv H rt s" and pc: "pl_pc s = Done"
  shows "c < cores H \<Longrightarrow> hr_rest s c = []" and "c < cores H \<Longrightarrow> filter (\<lambda>(k, _). k mod cores H = c) (hr_log s) = helix_program H c"
    and "n < hf_segments H \<Longrightarrow> filter (seg n) (hr_log s) = order_of H n" and "\<nexists>t. helix_step H s t"
proof -
  obtain st where P: "pool_ok (cores H) st s" "ended_ok (\<lambda>i. hr_rest s i = []) st s" using inv by (auto simp: helix_inv_def)
  note E = pool_done [OF P(1) pc]
  show rest: "c < cores H \<Longrightarrow> hr_rest s c = []" for c using P(2) E by (simp add: ended_ok_def)
  have S: "segments_ok H s" using inv by (simp add: helix_inv_def)
  then show "c < cores H \<Longrightarrow> filter (\<lambda>(k, _). k mod cores H = c) (hr_log s) = helix_program H c" using rest by (simp add: segments_ok_def)
  have "pl_queue s = []" using pool_okD(4) [OF P(1)] E pc by (simp add: pool_counts)
  then show "\<nexists>t. helix_step H s t" using E pc by (auto elim!: helix_stepE pool_stepE)
  show "filter (seg n) (hr_log s) = order_of H n" if n: "n < hf_segments H"
  proof -
    obtain m where m: "seg_ok H n (hr_log s) (hr_rest s) (hr_ss s) m" using S n by (auto simp: segments_ok_def)
    have "m = 2 * hf_iterations H"
    proof (rule ccontr)
      assume "m \<noteq> 2 * hf_iterations H"
      then have l: "m < 2 * hf_iterations H" using seg_okD(1) [OF m] by simp
      have "m div 2 mod cores H < cores H" using helix_okD(1) [OF ok] by simp
      with seg_next(2) [OF m l helix_okD(1) [OF ok] this] rest show False by simp
    qed
    with seg_okD(2) [OF m] show ?thesis by (simp add: length_turns)
  qed
qed

text \<open>A dispatch on two cores of a loop with one sequential segment, for the witnesses.\<close>

definition small_iter :: "nat \<Rightarrow> helix_act list" where
  "small_iter k = [Work, Wait 0, Signal 0]"

lemma small_iter_ok: "\<forall>k < iterations. iteration_ok 1 (small_iter k)"
  by (auto simp: small_iter_def iteration_ok_def on_segment_def)

lemma small_enter: "\<exists>H s. helix_enter True (Some 1) (Some 2) 2 1 threads iterations small_iter (NoelleRuntime_of (Some 4) 16) = Inr (H, s) \<and> cores H = 2"
  by (simp add: helix_enter_def Let_def reserveCores_def NoelleRuntime_of_def getMaximumNumberOfCores_def cores_def word_sless_alt)

text \<open>C9: A HELIX dispatch whose pool has a thread for every core, of a loop whose iterations wait for and then signal every sequential segment
  once, always ends: the length of its runs is bounded, it is stuck only when the dispatcher is done, and then every core has executed all
  its iterations in order and the cores are back.\<close>

theorem helix_dispatch_returns:
  assumes "helix_enter True loop env m segments threads iterations iter rt = Inr (H, s)"
    and "\<forall>k < iterations. iteration_ok segments (iter k)" and "cores H \<le> threads"
  shows "(\<forall>k t. (helix_step H ^^ k) s t \<longrightarrow> k \<le> 4 * cores H + 3 + (\<Sum>c < cores H. length (helix_program H c))) \<and>
    (\<exists>t. (helix_step H)\<^sup>*\<^sup>* s t \<and> pl_pc t = Done) \<and>
    (\<forall>t. (helix_step H)\<^sup>*\<^sup>* s t \<longrightarrow> ((\<nexists>u. helix_step H t u) \<longleftrightarrow> pl_pc t = Done)) \<and>
    (\<forall>t. (helix_step H)\<^sup>*\<^sup>* s t \<and> pl_pc t = Done \<longrightarrow> hr_rt t = rt \<and>
       (\<forall>c < cores H. filter (\<lambda>(k, _). k mod cores H = c) (hr_log t) = helix_program H c))"
proof -
  note E = helix_enter_ok [OF assms(1,2)]
  let ?rt = "snd (reserveCores (ucast m) rt)"
  have ok: "helix_ok H" using E(4) by simp
  have inv: "helix_ok H \<and> cores H \<le> hf_threads H \<and> helix_inv H ?rt s" using ok assms(3) E(8,11) helix_init [OF ok] by simp
  have "helix_weight H s = 4 * cores H + 3 + (\<Sum>c < cores H. length (helix_program H c))"
    by (simp add: E(11) helix_weight_def pool_weight_def helix_start_def pool_start_def pool_run.defs pool_counts)
  then have "\<forall>k t. (helix_step H ^^ k) s t \<longrightarrow> k \<le> 4 * cores H + 3 + (\<Sum>c < cores H. length (helix_program H c))"
    using helix.run_bounded [OF _ inv] by fastforce
  moreover have "(\<nexists>u. helix_step H t u) \<longleftrightarrow> pl_pc t = Done" if t: "(helix_step H)\<^sup>*\<^sup>* s t" for t
    using helix.stuck_is_final [OF inv t] helix.inv_run [OF t inv] helix_done(4) [OF ok] by blast
  moreover have "hr_rt t = rt \<and> (\<forall>c < cores H. filter (\<lambda>(k, _). k mod cores H = c) (hr_log t) = helix_program H c)"
    if t: "(helix_step H)\<^sup>*\<^sup>* s t" and pc: "pl_pc t = Done" for t
  proof -
    have I: "helix_inv H ?rt t" using helix.inv_run [OF t inv] by blast
    have "hr_rt t = rt" using I pc E(12,13) by (simp add: helix_inv_def)
    with helix_done(2) [OF ok I pc] show ?thesis by blast
  qed
  ultimately show ?thesis using helix.run_ends [OF inv] by blast
qed

theorem helix_dispatch_returns_witness:
  "\<exists>H s t. helix_enter True (Some 1) (Some 2) 2 1 2 4 small_iter (NoelleRuntime_of (Some 4) 16) = Inr (H, s) \<and>
     (helix_step H)\<^sup>*\<^sup>* s t \<and> pl_pc t = Done \<and> hr_rt t = NoelleRuntime_of (Some 4) 16"
proof -
  obtain H s where H: "helix_enter True (Some 1) (Some 2) 2 1 2 4 small_iter (NoelleRuntime_of (Some 4) 16) = Inr (H, s)" "cores H = 2"
    using small_enter by blast
  from helix_dispatch_returns [OF H(1) small_iter_ok] H show ?thesis by auto
qed

text \<open>C8: In every reachable state of a HELIX dispatch, with any number of threads, every sequential segment has been passed through in the order of the
  iterations, one iteration at a time: its waits and signals so far are a prefix of wait 0, signal 0, wait 1, signal 1 and so on. When the
  dispatch is done, they are the whole sequence.\<close>

theorem helix_segments_in_order:
  assumes "helix_enter True loop env m segments threads iterations iter rt = Inr (H, s)"
    and "\<forall>k < iterations. iteration_ok segments (iter k)" and "(helix_step H)\<^sup>*\<^sup>* s t" and "n < segments"
  shows "\<exists>j. filter (seg n) (hr_log t) = take j (turns n [0..<iterations]) \<and> (pl_pc t = Done \<longrightarrow> j = 2 * iterations)"
proof -
  note E = helix_enter_ok [OF assms(1,2)]
  let ?rt = "snd (reserveCores (ucast m) rt)"
  have ok: "helix_ok H" using E(4) by simp
  have "helix_ok H \<and> helix_inv H ?rt s" using ok E(11) helix_init [OF ok] by simp
  from any_helix.inv_run [OF assms(3) this] have I: "helix_inv H ?rt t" ..
  show ?thesis
  proof (cases "pl_pc t = Done")
    case True
    with helix_done(3) [OF ok I True, of n] E(7,9) assms(4) show ?thesis
      by (intro exI [of _ "2 * iterations"]) (simp add: length_turns)
  next
    case False
    with I E(7,9) assms(4) show ?thesis by (auto simp: helix_inv_def segments_ok_def seg_ok_def)
  qed
qed

theorem helix_segments_in_order_witness:
  "\<exists>H s j. helix_enter True (Some 1) (Some 2) 2 1 2 4 small_iter (NoelleRuntime_of (Some 4) 16) = Inr (H, s) \<and>
     filter (seg 0) (hr_log s) = take j (turns 0 [0..<4])"
proof -
  obtain H s where H: "helix_enter True (Some 1) (Some 2) 2 1 2 4 small_iter (NoelleRuntime_of (Some 4) 16) = Inr (H, s)"
    using small_enter by blast
  from helix_segments_in_order [OF H small_iter_ok rtranclp.rtrancl_refl, of 0] H show ?thesis by auto
qed



section \<open>DSWP\<close>

lemma dswp_enter_ok:
  assumes enter: "dswp_enter queueSizes stages threads program rt = Inr (F, s)"
  shows "pf_numCores F = fst (reserveCores (of_nat stages) rt)" "0 < pf_numCores F" "pf_stages F = stages" "pf_threads F = threads"
    "pf_program F = program" "queue_widths queueSizes = Inr (pf_widths F)" "s = dswp_start F (snd (reserveCores (of_nat stages) rt))"
    "idleCores (snd (reserveCores (of_nat stages) rt)) + pf_numCores F = idleCores rt"
    "snd (reserveCores (of_nat stages) rt)\<lparr>idleCores := idleCores rt\<rparr> = rt"
proof -
  obtain n rt1 where n: "reserveCores (of_nat stages) rt = (n, rt1)" by (cases "reserveCores (of_nat stages) rt")
  from enter n obtain ws where F: "queue_widths queueSizes = Inr ws"
    "F = \<lparr>pf_numCores = n, pf_stages = stages, pf_widths = ws, pf_threads = threads, pf_program = program\<rparr>" "s = dswp_start F rt1"
    by (auto simp: dswp_enter_def check_eq_Inr Let_def andThen_eq_Inr)
  from F n reserveCores_eq [OF n] show "pf_numCores F = fst (reserveCores (of_nat stages) rt)" "0 < pf_numCores F" "pf_stages F = stages" "pf_threads F = threads"
    "pf_program F = program" "queue_widths queueSizes = Inr (pf_widths F)" "s = dswp_start F (snd (reserveCores (of_nat stages) rt))"
    "idleCores (snd (reserveCores (of_nat stages) rt)) + pf_numCores F = idleCores rt"
    "snd (reserveCores (of_nat stages) rt)\<lparr>idleCores := idleCores rt\<rparr> = rt" by simp_all
qed

lemma queue_widths_sizes: "queue_widths qs = Inr ws \<longleftrightarrow> set qs \<subseteq> {1, 8, 16, 32, 64} \<and> ws = map (\<lambda>q. if q = 1 then 8 else unat q) qs"
  by (induction qs arbitrary: ws) (auto simp: andThen_eq_Inr queue_width_def split: if_splits)



end
