(* ===== verification/LoopEnv.thy ===== *)
theory LoopEnv
  imports Loops SccGraph
begin

text \<open>
  The environment of a loop, \<open>core/loop_structure/src/LoopEnvironment.cpp\<close>: the values that flow into the loop (live-in) and out of it
  (live-out), numbered in the order in which the constructor finds them. It is computed from the dependence graph of the loop,
  whose internal values are the loop's instructions and whose external values are the other ends of their dependences.
\<close>

section \<open>The class\<close>

record loop_environment =
  envProducers :: "llvm_value list"
  producerIndexMap :: "(llvm_value \<times> nat) list"
  liveInInds :: "nat list"
  liveOutInds :: "nat list"
  prodConsumers :: "(llvm_value \<times> llvm_value list) list"
  hasExitBlockEnv :: bool

definition empty_environment :: loop_environment where
  "empty_environment = \<lparr>envProducers = [], producerIndexMap = [], liveInInds = [], liveOutInds = [], prodConsumers = [],
     hasExitBlockEnv = False\<rparr>"

text \<open>The loop that looks for the producer, at index \<open>c\<close>.\<close>

fun find_producer :: "llvm_value \<Rightarrow> nat \<Rightarrow> llvm_value list \<Rightarrow> nat option" where
  "find_producer producer c [] = None"
| "find_producer producer c (p # ps) = (if p = producer then Some c else find_producer producer (Suc c) ps)"

definition addProducer :: "llvm_value \<Rightarrow> bool \<Rightarrow> loop_environment \<Rightarrow> nat \<times> loop_environment" where
  "addProducer producer liveIn E =
     (case find_producer producer 0 (envProducers E) of
        Some c \<Rightarrow> (c, E)
      | None \<Rightarrow>
          let envIndex = length (envProducers E);
              E1 = E\<lparr>envProducers := envProducers E @ [producer],
                     producerIndexMap := AList.update producer envIndex (producerIndexMap E)\<rparr>
          in (envIndex, if liveIn then E1\<lparr>liveInInds := uset_insert envIndex (liveInInds E1)\<rparr>
                        else E1\<lparr>liveOutInds := uset_insert envIndex (liveOutInds E1)\<rparr>))"

definition addLiveInProducer :: "llvm_value \<Rightarrow> loop_environment \<Rightarrow> nat \<times> loop_environment" where
  "addLiveInProducer producer = addProducer producer True"

definition addLiveOutProducer :: "llvm_value \<Rightarrow> loop_environment \<Rightarrow> loop_environment" where
  "addLiveOutProducer producer E = snd (addProducer producer False E)"

definition insert_consumer :: "llvm_value \<Rightarrow> llvm_value \<Rightarrow> loop_environment \<Rightarrow> loop_environment" where
  "insert_consumer producer consumer E = E\<lparr>prodConsumers :=
     AList.update producer (uset_insert consumer (case map_of (prodConsumers E) producer of None \<Rightarrow> [] | Some cs \<Rightarrow> cs)) (prodConsumers E)\<rparr>"

definition addLiveInValue :: "llvm_value \<Rightarrow> llvm_value list \<Rightarrow> loop_environment \<Rightarrow> nat \<times> loop_environment" where
  "addLiveInValue newLiveInValue consumers E =
     (let (newIndex, E1) = addLiveInProducer newLiveInValue E in (newIndex, fold (insert_consumer newLiveInValue) consumers E1))"

definition isProducer :: "llvm_value \<Rightarrow> loop_environment \<Rightarrow> bool" where
  "isProducer producer E \<longleftrightarrow> map_of (producerIndexMap E) producer \<noteq> None"

text \<open>The type of a value is LLVM's; the type of the extra slot is what the constructor stored, if it did.\<close>

definition typeOfEnvironmentLocation :: "(llvm_value \<Rightarrow> 't) \<Rightarrow> 't \<Rightarrow> nat \<Rightarrow> loop_environment \<Rightarrow> 't" where
  "typeOfEnvironmentLocation getType exitBlockType index E =
     (if index < length (envProducers E) then getType (envProducers E ! index) else exitBlockType)"

text \<open>\<open>producerIndexMap[producer]\<close>: an absent producer is entered with the index 0.\<close>

definition indexOfProducer :: "llvm_value \<Rightarrow> loop_environment \<Rightarrow> nat \<times> loop_environment" where
  "indexOfProducer producer E =
     (case map_of (producerIndexMap E) producer of Some i \<Rightarrow> (i, E)
      | None \<Rightarrow> (0, E\<lparr>producerIndexMap := AList.update producer 0 (producerIndexMap E)\<rparr>))"

definition isLiveIn :: "llvm_value \<Rightarrow> loop_environment \<Rightarrow> bool" where
  "isLiveIn val E = (case map_of (producerIndexMap E) val of None \<Rightarrow> False
     | Some indexOfVal \<Rightarrow> isProducer val E \<and> indexOfVal \<in> set (liveInInds E))"

definition indexOfExitBlockTaken :: "loop_environment \<Rightarrow> int" where
  "indexOfExitBlockTaken E = (if hasExitBlockEnv E then int (length (envProducers E)) else -1)"

definition env_size :: "loop_environment \<Rightarrow> nat" where
  "env_size E = length (envProducers E) + (if hasExitBlockEnv E then 1 else 0)"

definition consumersOf :: "llvm_value \<Rightarrow> loop_environment \<Rightarrow> llvm_value list" where
  "consumersOf producer E = (case map_of (prodConsumers E) producer of None \<Rightarrow> [] | Some s \<Rightarrow> s)"

definition producerAt :: "nat \<Rightarrow> loop_environment \<Rightarrow> llvm_value res" where
  "producerAt ind E = check (ind < length (envProducers E)) AssertFailed (Inr (envProducers E ! ind))"

section \<open>Construction\<close>

definition skipped :: "(llvm_value, 'r) dg \<Rightarrow> ptr \<Rightarrow> bool" where
  "skipped g e \<longleftrightarrow> memory (edgeMem g e) \<or> isControl (edgeMem g e)"

definition live_in_edge :: "(llvm_value, 'r) dg \<Rightarrow> ptr \<Rightarrow> bool \<times> llvm_value list \<Rightarrow> (bool \<times> llvm_value list) res" where
  "live_in_edge g e = (\<lambda>(found, consumers).
     if skipped g e then Inr (found, consumers)
     else case to_T g e of
            Inst i \<Rightarrow> Inr (True, uset_insert (Inst i) consumers)
          | _ \<Rightarrow> Inl AssertFailed)"

definition live_out_edge :: "(llvm_value, 'r) dg \<Rightarrow> llvm_value \<Rightarrow> ptr \<Rightarrow> loop_environment \<Rightarrow> loop_environment" where
  "live_out_edge g externalValue e E =
     (if skipped g e then E
      else let internalValue = from_T g e
           in insert_consumer internalValue externalValue
                (if isProducer internalValue E then E else addLiveOutProducer internalValue E))"

definition external_step :: "(llvm_value, 'r) dg \<Rightarrow> llvm_value \<times> ptr option \<Rightarrow> loop_environment \<Rightarrow> loop_environment res" where
  "external_step g nodeI E =
     (case snd nodeI of
        None \<Rightarrow> Inl NullDeref
      | Some externalNode \<Rightarrow>
          let externalValue = node_T g externalNode
          in andThen (foldE (live_in_edge g) (out_edges g externalNode) (False, [])) (\<lambda>(found, consumers).
               let E1 = (if found then snd (addLiveInValue externalValue consumers E) else E)
               in Inr (fold (live_out_edge g externalValue) (in_edges g externalNode) E1)))"

definition LoopEnvironment_of :: "(llvm_value, 'r) dg \<Rightarrow> nat list \<Rightarrow> loop_environment res" where
  "LoopEnvironment_of loopDG exitBlocks =
     andThen (foldE (external_step loopDG) (externalNodeMap loopDG) empty_environment)
       (\<lambda>E. Inr (E\<lparr>hasExitBlockEnv := (length exitBlocks > 1)\<rparr>))"

section \<open>The environment is right\<close>

text \<open>The values that flow between instructions: dependences over registers.\<close>

definition flows :: "(llvm_value, 'r) dg \<Rightarrow> (llvm_value \<times> llvm_value) set" where
  "flows g = {edge_pair g e |e. e \<in> set (allEdges g) \<and> \<not> skipped g e}"

lemma flows_out:
  assumes "dg_wf g" "n \<in> set (allNodes g)"
  shows "{to_T g e |e. e \<in> set (out_edges g n) \<and> \<not> skipped g e} = {w. (node_T g n, w) \<in> flows g}"
proof -
  have ew: "edges_wf g" using assms(1) by (simp add: dg_wf_def)
  have "edge_from g e = n" if "e \<in> set (allEdges g)" "node_T g (edge_from g e) = node_T g n" for e
    using wf_node_inj [OF assms(1) edges_wfD(5) [OF ew that(1)] assms(2) that(2)] .
  then show ?thesis using edges_wfD(7) [OF ew assms(2)] by (force simp: flows_def edge_pair_def)
qed

lemma flows_in:
  assumes "dg_wf g" "n \<in> set (allNodes g)"
  shows "{from_T g e |e. e \<in> set (in_edges g n) \<and> \<not> skipped g e} = {v. (v, node_T g n) \<in> flows g}"
proof -
  have ew: "edges_wf g" using assms(1) by (simp add: dg_wf_def)
  have "edge_to g e = n" if "e \<in> set (allEdges g)" "node_T g (edge_to g e) = node_T g n" for e
    using wf_node_inj [OF assms(1) edges_wfD(6) [OF ew that(1)] assms(2) that(2)] .
  then show ?thesis using edges_wfD(8) [OF ew assms(2)] by (force simp: flows_def edge_pair_def)
qed

lemma find_producer_None: "find_producer p c ps = None \<longleftrightarrow> p \<notin> set ps"
  by (induction p c ps rule: find_producer.induct) auto

lemma find_producer_Some: "find_producer p c ps = Some k \<Longrightarrow> c \<le> k \<and> k < c + length ps \<and> ps ! (k - c) = p"
proof (induction p c ps rule: find_producer.induct)
  case (2 p c q ps)
  show ?case
  proof (cases "q = p")
    case False
    with 2 have "Suc c \<le> k \<and> k < Suc c + length ps \<and> ps ! (k - Suc c) = p" by simp
    then show ?thesis by (simp add: nth_Cons')
  qed (use 2 in simp)
qed simp

text \<open>The invariant, when the external values in \<open>X\<close> have been visited: the producers, their indices and kinds, and the consumers.\<close>

definition index_ok :: "loop_environment \<Rightarrow> (llvm_value \<Rightarrow> bool) \<Rightarrow> bool" where
  "index_ok E ext \<longleftrightarrow> distinct (envProducers E) \<and>
     (\<forall>v i. map_of (producerIndexMap E) v = Some i \<longleftrightarrow> i < length (envProducers E) \<and> envProducers E ! i = v) \<and>
     set (liveInInds E) = {i. i < length (envProducers E) \<and> ext (envProducers E ! i)} \<and>
     set (liveOutInds E) = {i. i < length (envProducers E) \<and> \<not> ext (envProducers E ! i)} \<and>
     distinct (liveInInds E) \<and> distinct (liveOutInds E)"

lemma index_ok_producer:
  assumes "index_ok E ext"
  shows "isProducer v E \<longleftrightarrow> v \<in> set (envProducers E)"
proof -
  have "map_of (producerIndexMap E) v \<noteq> None \<longleftrightarrow> (\<exists>i. map_of (producerIndexMap E) v = Some i)" by auto
  then show ?thesis using assms by (auto simp: isProducer_def index_ok_def in_set_conv_nth)
qed

lemma addProducer_ok:
  assumes ok: "index_ok E ext" and k: "ext p = liveIn"
  shows "index_ok (snd (addProducer p liveIn E)) ext" and "set (envProducers (snd (addProducer p liveIn E))) = insert p (set (envProducers E))"
    and "prodConsumers (snd (addProducer p liveIn E)) = prodConsumers E"
    and "hasExitBlockEnv (snd (addProducer p liveIn E)) = hasExitBlockEnv E"
    and "fst (addProducer p liveIn E) < length (envProducers (snd (addProducer p liveIn E)))"
      "envProducers (snd (addProducer p liveIn E)) ! fst (addProducer p liveIn E) = p"
proof -
  let ?r = "addProducer p liveIn E"
  have "index_ok (snd ?r) ext \<and> set (envProducers (snd ?r)) = insert p (set (envProducers E)) \<and> prodConsumers (snd ?r) = prodConsumers E \<and>
    hasExitBlockEnv (snd ?r) = hasExitBlockEnv E \<and> fst ?r < length (envProducers (snd ?r)) \<and> envProducers (snd ?r) ! fst ?r = p"
  proof (cases "find_producer p 0 (envProducers E)")
    case (Some c)
    with find_producer_Some [OF Some] ok show ?thesis by (auto simp: addProducer_def)
  next
    case None
    then have new: "p \<notin> set (envProducers E)" by (simp add: find_producer_None)
    let ?n = "length (envProducers E)"
    have m: "map_of (AList.update p ?n (producerIndexMap E)) v = Some i \<longleftrightarrow> i < Suc ?n \<and> (envProducers E @ [p]) ! i = v" for v i
    proof (cases "v = p")
      case True
      have "i = ?n" if "i < Suc ?n" "(envProducers E @ [p]) ! i = p"
      proof (rule ccontr)
        assume "i \<noteq> ?n"
        with that have "p = envProducers E ! i" "i < ?n" by (auto simp: nth_append)
        with new nth_mem [of i "envProducers E"] show False by simp
      qed
      with True show ?thesis by (auto simp: update_conv')
    next
      case False
      with ok show ?thesis by (auto simp: update_conv' index_ok_def nth_append less_Suc_eq)
    qed
    have *: "{i. i < Suc ?n \<and> Q ((envProducers E @ [p]) ! i)} = {i. i < ?n \<and> Q (envProducers E ! i)} \<union> (if Q p then {?n} else {})" for Q
      by (auto simp: nth_append less_Suc_eq split: if_splits)
    show ?thesis
    proof (cases liveIn)
      case True
      then show ?thesis using None new ok k m * [of ext] * [of "\<lambda>v. \<not> ext v"]
        by (simp add: addProducer_def Let_def index_ok_def)
    next
      case False
      then show ?thesis using None new ok k m * [of ext] * [of "\<lambda>v. \<not> ext v"]
        by (simp add: addProducer_def Let_def index_ok_def)
    qed
  qed
  then show "index_ok (snd ?r) ext" "set (envProducers (snd ?r)) = insert p (set (envProducers E))" "prodConsumers (snd ?r) = prodConsumers E"
    "hasExitBlockEnv (snd ?r) = hasExitBlockEnv E" "fst ?r < length (envProducers (snd ?r))" "envProducers (snd ?r) ! fst ?r = p" by simp_all
qed

lemma insert_consumer_simps [simp]:
  "envProducers (insert_consumer p c E) = envProducers E" "index_ok (insert_consumer p c E) ext = index_ok E ext"
  "hasExitBlockEnv (insert_consumer p c E) = hasExitBlockEnv E"
  "set (consumersOf v (insert_consumer p c E)) = (if v = p then insert c (set (consumersOf v E)) else set (consumersOf v E))"
  by (auto simp: insert_consumer_def index_ok_def consumersOf_def update_conv' split: option.splits)

lemma insert_consumers_simps [simp]:
  "envProducers (fold (insert_consumer p) cs E) = envProducers E" "index_ok (fold (insert_consumer p) cs E) ext = index_ok E ext"
  "hasExitBlockEnv (fold (insert_consumer p) cs E) = hasExitBlockEnv E"
  "set (consumersOf v (fold (insert_consumer p) cs E)) = (if v = p then set cs \<union> set (consumersOf v E) else set (consumersOf v E))"
  by (induction cs arbitrary: E) auto

lemma live_in_edges:
  assumes "\<forall>e \<in> set es. \<not> skipped g e \<longrightarrow> (\<exists>i. to_T g e = Inst i)"
  shows "\<exists>cs'. foldE (live_in_edge g) es (f, cs) = Inr (f \<or> (\<exists>e \<in> set es. \<not> skipped g e), cs') \<and>
    set cs' = set cs \<union> {to_T g e |e. e \<in> set es \<and> \<not> skipped g e}"
  using assms
proof (induction es arbitrary: f cs)
  case (Cons e es)
  have rest: "\<forall>e \<in> set es. \<not> skipped g e \<longrightarrow> (\<exists>i. to_T g e = Inst i)" using Cons.prems by simp
  show ?case
  proof (cases "skipped g e")
    case True
    with Cons.IH [OF rest, of f cs] show ?thesis by (auto simp: live_in_edge_def)
  next
    case False
    then obtain i where i: "to_T g e = Inst i" using Cons.prems by auto
    then have step: "live_in_edge g e (f, cs) = Inr (True, uset_insert (Inst i) cs)" using False by (simp add: live_in_edge_def)
    have "{to_T g e' |e'. e' \<in> set (e # es) \<and> \<not> skipped g e'} = insert (Inst i) {to_T g e' |e'. e' \<in> set es \<and> \<not> skipped g e'}"
      using False i by (auto intro: exI [of _ e])
    with Cons.IH [OF rest, of True "uset_insert (Inst i) cs"] step False show ?thesis by auto
  qed
qed simp

definition env_inv :: "(llvm_value, 'r) dg \<Rightarrow> llvm_value set \<Rightarrow> loop_environment \<Rightarrow> bool" where
  "env_inv g X E \<longleftrightarrow> index_ok E (\<lambda>v. v \<in> external_values g) \<and>
     set (envProducers E) = {v \<in> X. \<exists>w. (v, w) \<in> flows g} \<union> {v. v \<notin> external_values g \<and> (\<exists>w \<in> X. (v, w) \<in> flows g)} \<and>
     (\<forall>v. set (consumersOf v E) = {w. (v, w) \<in> flows g \<and> (v \<in> X \<or> w \<in> X)})"

lemma live_out_edges:
  assumes "index_ok E ext" and "\<forall>e \<in> set es. \<not> skipped g e \<longrightarrow> \<not> ext (from_T g e)"
  shows "index_ok (fold (live_out_edge g x) es E) ext \<and>
    set (envProducers (fold (live_out_edge g x) es E)) = set (envProducers E) \<union> {from_T g e |e. e \<in> set es \<and> \<not> skipped g e} \<and>
    (\<forall>v. set (consumersOf v (fold (live_out_edge g x) es E)) =
       set (consumersOf v E) \<union> {w. w = x \<and> v \<in> {from_T g e |e. e \<in> set es \<and> \<not> skipped g e}})"
  using assms
proof (induction es arbitrary: E)
  case (Cons e es)
  have rest: "\<forall>e \<in> set es. \<not> skipped g e \<longrightarrow> \<not> ext (from_T g e)" using Cons.prems(2) by simp
  show ?case
  proof (cases "skipped g e")
    case True
    then have "live_out_edge g x e E = E" by (simp add: live_out_edge_def)
    moreover have "{from_T g e' |e'. e' \<in> set (e # es) \<and> \<not> skipped g e'} = {from_T g e' |e'. e' \<in> set es \<and> \<not> skipped g e'}"
      using True by auto
    ultimately show ?thesis using Cons.IH [OF Cons.prems(1) rest] by simp
  next
    case False
    let ?v = "from_T g e"
    let ?E = "live_out_edge g x e E"
    note A = addProducer_ok [OF Cons.prems(1), of ?v False]
    define E0 where "E0 = (if isProducer ?v E then E else snd (addProducer ?v False E))"
    have k: "ext ?v = False" using Cons.prems(2) False by simp
    have E0: "index_ok E0 ext" "set (envProducers E0) = insert ?v (set (envProducers E))" "prodConsumers E0 = prodConsumers E"
      using A [OF k] Cons.prems(1) index_ok_producer [OF Cons.prems(1), of ?v] by (auto simp: E0_def)
    have "?E = insert_consumer ?v x E0" using False by (simp add: live_out_edge_def Let_def addLiveOutProducer_def E0_def)
    then have E: "index_ok ?E ext" "set (envProducers ?E) = insert ?v (set (envProducers E))"
      "set (consumersOf v ?E) = set (consumersOf v E) \<union> (if v = ?v then {x} else {})" for v
      using E0 by (simp_all add: consumersOf_def [of _ E0] consumersOf_def [of _ E])
    have "{from_T g e' |e'. e' \<in> set (e # es) \<and> \<not> skipped g e'} = insert ?v {from_T g e' |e'. e' \<in> set es \<and> \<not> skipped g e'}"
      using False by auto
    with Cons.IH [OF E(1) rest] E(2,3) show ?thesis by auto
  qed
qed simp

lemma external_step_ok:
  assumes c: "clean g" and n: "n \<in> set (allNodes g)" "node_T g n = x" and x: "x \<in> external_values g" "x \<notin> X"
    and inner: "\<forall>(v, w) \<in> flows g. v \<notin> external_values g \<or> w \<notin> external_values g"
    and insts: "\<forall>(v, w) \<in> flows g. v \<in> external_values g \<longrightarrow> (\<exists>i. w = Inst i)" and X: "X \<subseteq> external_values g"
    and inv: "env_inv g X E"
  shows "\<exists>E'. external_step g (x, Some n) E = Inr E' \<and> env_inv g (insert x X) E'"
proof -
  note wf = clean_wf [OF c]
  let ?ext = "\<lambda>v. v \<in> external_values g"
  let ?out = "{to_T g e |e. e \<in> set (out_edges g n) \<and> \<not> skipped g e}" and ?in = "{from_T g e |e. e \<in> set (in_edges g n) \<and> \<not> skipped g e}"
  have out: "?out = {w. (x, w) \<in> flows g}" using flows_out [OF wf n(1)] n(2) by simp
  have inn: "?in = {v. (v, x) \<in> flows g}" using flows_in [OF wf n(1)] n(2) by simp
  have "\<forall>e \<in> set (out_edges g n). \<not> skipped g e \<longrightarrow> (\<exists>i. to_T g e = Inst i)" using out insts x(1) by blast
  from live_in_edges [OF this, of False "[]"] obtain cs where
    1: "foldE (live_in_edge g) (out_edges g n) (False, []) = Inr (\<exists>e \<in> set (out_edges g n). \<not> skipped g e, cs)" "set cs = ?out" by auto
  have p: "(\<exists>e \<in> set (out_edges g n). \<not> skipped g e) \<longleftrightarrow> (\<exists>w. (x, w) \<in> flows g)" using out by auto
  define E1 where "E1 = (if \<exists>e \<in> set (out_edges g n). \<not> skipped g e then snd (addLiveInValue x cs E) else E)"
  have I: "index_ok E ?ext" "set (envProducers E) = {v \<in> X. \<exists>w. (v, w) \<in> flows g} \<union> {v. \<not> ?ext v \<and> (\<exists>w \<in> X. (v, w) \<in> flows g)}"
    "\<And>v. set (consumersOf v E) = {w. (v, w) \<in> flows g \<and> (v \<in> X \<or> w \<in> X)}" using inv by (simp_all add: env_inv_def)
  have nocons: "consumersOf v (snd (addProducer x True E)) = consumersOf v E" for v
    using addProducer_ok(3) [OF I(1), of x True] x(1) by (simp add: consumersOf_def)
  have E1: "index_ok E1 ?ext" "set (envProducers E1) = set (envProducers E) \<union> {v. v = x \<and> (\<exists>w. (x, w) \<in> flows g)}"
    "\<And>v. set (consumersOf v E1) = set (consumersOf v E) \<union> {w. v = x \<and> (x, w) \<in> flows g}"
    using addProducer_ok(1,2) [OF I(1), of x True] x(1) I(1) 1(2) out p nocons
    by (auto simp: E1_def addLiveInValue_def addLiveInProducer_def split_def Let_def)
  have "\<forall>e \<in> set (in_edges g n). \<not> skipped g e \<longrightarrow> \<not> ?ext (from_T g e)" using inn inner x(1) by blast
  note L = live_out_edges [OF E1(1) this, of x]
  let ?E = "fold (live_out_edge g x) (in_edges g n) E1"
  have "external_step g (x, Some n) E = Inr ?E" using 1(1) n(2) by (simp add: external_step_def E1_def)
  moreover have "env_inv g (insert x X) ?E"
    unfolding env_inv_def
  proof (intro conjI allI)
    show "index_ok ?E ?ext" using L by blast
    have "set (envProducers ?E) = set (envProducers E) \<union> {v. v = x \<and> (\<exists>w. (x, w) \<in> flows g)} \<union> {v. (v, x) \<in> flows g}"
      using L E1(2) inn by simp
    then show "set (envProducers ?E) = {v \<in> insert x X. \<exists>w. (v, w) \<in> flows g} \<union> {v. \<not> ?ext v \<and> (\<exists>w \<in> insert x X. (v, w) \<in> flows g)}"
      using I(2) inner x(1) by auto
    show "set (consumersOf v ?E) = {w. (v, w) \<in> flows g \<and> (v \<in> insert x X \<or> w \<in> insert x X)}" for v
      using L E1(3) [of v] I(3) [of v] inn by auto
  qed
  ultimately show ?thesis by blast
qed

lemma externals:
  assumes "clean g"
  shows "distinct (map fst (externalNodeMap g))" and "fst ` set (externalNodeMap g) = external_values g"
    and "(x, p) \<in> set (externalNodeMap g) \<Longrightarrow> \<exists>n. p = Some n \<and> n \<in> set (allNodes g) \<and> node_T g n = x"
proof -
  have wf: "maps_wf g" using clean_wf [OF assms] by (simp add: dg_wf_def)
  then show d: "distinct (map fst (externalNodeMap g))" by (simp add: maps_wf_def)
  show "fst ` set (externalNodeMap g) = external_values g"
    by (auto simp: external_values_def isExternal_def dom_map_of_conv_image_fst [symmetric] domIff)
  assume m: "(x, p) \<in> set (externalNodeMap g)"
  then have x: "map_of (externalNodeMap g) x = Some p" using d by simp
  then have "\<not> isInternal g x" using wf by (auto simp: maps_wf_def isExternal_def)
  then have l: "lookup_node g x = Some p" using x by (simp add: lookup_node_def isInternal_def)
  with assms obtain n where "p = Some n" by (cases p) (auto simp: clean_def)
  with l wf_lookup [OF clean_wf [OF assms]] show "\<exists>n. p = Some n \<and> n \<in> set (allNodes g) \<and> node_T g n = x" by auto
qed

lemma LoopEnvironment_ok:
  assumes c: "clean g" and inner: "\<forall>(v, w) \<in> flows g. v \<notin> external_values g \<or> w \<notin> external_values g"
    and insts: "\<forall>(v, w) \<in> flows g. v \<in> external_values g \<longrightarrow> (\<exists>i. w = Inst i)"
  shows "\<exists>E. LoopEnvironment_of g exits = Inr E \<and> env_inv g (external_values g) E \<and> hasExitBlockEnv E = (length exits > 1)"
proof -
  note X = externals [OF c]
  have step: "\<exists>E. foldE (external_step g) xs E0 = Inr E \<and> env_inv g (Y \<union> fst ` set xs) E"
    if "env_inv g Y E0" "set xs \<subseteq> set (externalNodeMap g)" "distinct (map fst xs)" "Y \<inter> fst ` set xs = {}" "Y \<subseteq> external_values g" for xs Y E0
    using that
  proof (induction xs arbitrary: Y E0)
    case (Cons xp xs)
    obtain x p where xp: "xp = (x, p)" by (cases xp)
    have m: "(x, p) \<in> set (externalNodeMap g)" using Cons.prems(2) xp by simp
    then have x: "x \<in> external_values g" using X(2) by force
    obtain n where n: "p = Some n" "n \<in> set (allNodes g)" "node_T g n = x" using X(3) [OF m] by blast
    have new: "x \<notin> Y" using Cons.prems(4) xp by auto
    obtain E1 where E1: "external_step g (x, Some n) E0 = Inr E1" "env_inv g (insert x Y) E1"
      using external_step_ok [OF c n(2,3) x new inner insts Cons.prems(5,1)] by blast
    have "insert x Y \<inter> fst ` set xs = {}" "insert x Y \<subseteq> external_values g" using Cons.prems(3,4,5) xp x by auto
    from Cons.IH [OF E1(2) _ _ this] Cons.prems(2,3) obtain E where
      "foldE (external_step g) xs E1 = Inr E" "env_inv g (insert x Y \<union> fst ` set xs) E" by auto
    with E1(1) xp n(1) show ?case by auto
  qed auto
  have "env_inv g {} empty_environment" by (simp add: env_inv_def empty_environment_def index_ok_def consumersOf_def)
  from step [OF this subset_refl X(1)] obtain E where E: "foldE (external_step g) (externalNodeMap g) empty_environment = Inr E"
    "env_inv g (external_values g) E" using X(2) by auto
  let ?E = "E\<lparr>hasExitBlockEnv := (length exits > 1)\<rparr>"
  have "env_inv g (external_values g) ?E" using E(2) by (simp add: env_inv_def index_ok_def consumersOf_def)
  with E(1) show ?thesis by (intro exI [of _ ?E]) (simp add: LoopEnvironment_of_def)
qed

lemma flows_facts: "flows g = {p. \<exists>a. (p, a) \<in># dg_facts g \<and> \<not> memory a \<and> \<not> isControl a}"
proof -
  have t: "memory (edge_attrs.truncate a) = memory a" "isControl (edge_attrs.truncate a) = isControl a" for a :: "'a dg_edge"
    by (simp_all add: edge_attrs.defs)
  show ?thesis unfolding flows_def skipped_def dg_facts_def by (auto simp: t)
qed

lemma copy_edge_kind [simp]: "memory (copy_edge sub e) = memory e" "isControl (copy_edge sub e) = isControl e"
proof -
  have "memory (addSubEdge sub s e) = memory e \<and> isControl (addSubEdge sub s e) = isControl e" for s and e :: "'a dg_edge"
    by (auto simp: addSubEdge_def addRemedies_def Let_def split: option.splits)
  then have *: "memory (fold (addSubEdge sub) ss e) = memory e \<and> isControl (fold (addSubEdge sub) ss e) = isControl e" for ss and e :: "'a dg_edge"
    by (induction ss arbitrary: e) simp_all
  show "memory (copy_edge sub e) = memory e" "isControl (copy_edge sub e) = isControl e"
    by (simp_all add: copy_edge_def Let_def * setRemedies_def setMemMustType_def split: option.splits)
qed

lemma flows_subgraph:
  assumes f: "dg_facts h = copy_facts sub g (filter (selected_edge g True [] V) (allEdges g))"
  shows "flows h = {(v, w) \<in> flows g. v \<in> V \<or> w \<in> V}"
proof -
  have t: "memory (edge_attrs.truncate a) = memory a" "isControl (edge_attrs.truncate a) = isControl a" for a :: "'a dg_edge"
    by (simp_all add: edge_attrs.defs)
  have *: "p \<in> flows h \<longleftrightarrow> (\<exists>e \<in> set (allEdges g). selected_edge g True [] V e \<and> p = edge_pair g e \<and> \<not> skipped g e)" for p
    unfolding flows_facts f copy_facts_def by (auto simp: t skipped_def)
  have "p \<in> flows h \<longleftrightarrow> p \<in> flows g \<and> (fst p \<in> V \<or> snd p \<in> V)" for p
    unfolding * by (auto simp: flows_def selected_edge_def Let_def)
  then show ?thesis by auto
qed

section \<open>The environment of a loop\<close>

text \<open>C24: The environment of the loop graph that the PDG creates for the instructions of a loop. The constructor does not fail; the producers, all
  different, are exactly the outside values that flow into the loop and the inside values that flow out of it. The former are the live-ins,
  the latter the live-outs; each producer's index finds it, its consumers are exactly the values at the other end of its flows across the
  boundary; and there is one more slot when the loop has several exits.\<close>

theorem environment_of_loop:
  assumes "distinct vs" and "vs \<noteq> []" and "\<forall>v \<in> set vs. \<exists>i. v = Inst i"
    and "createSubgraphFromValues sub g vs True [] = Inr (Some loopDG)"
  shows "\<exists>E. LoopEnvironment_of loopDG exits = Inr E \<and> distinct (envProducers E) \<and>
    set (envProducers E) = {v. v \<notin> set vs \<and> (\<exists>w \<in> set vs. (v, w) \<in> flows g)} \<union> {v \<in> set vs. \<exists>w. w \<notin> set vs \<and> (v, w) \<in> flows g} \<and>
    (\<forall>i < length (envProducers E). (i \<in> set (liveInInds E) \<longleftrightarrow> envProducers E ! i \<notin> set vs) \<and>
       (i \<in> set (liveOutInds E) \<longleftrightarrow> envProducers E ! i \<in> set vs) \<and> map_of (producerIndexMap E) (envProducers E ! i) = Some i) \<and>
    (\<forall>v. isLiveIn v E \<longleftrightarrow> v \<notin> set vs \<and> (\<exists>w \<in> set vs. (v, w) \<in> flows g)) \<and>
    (\<forall>v. set (consumersOf v E) = {w. (v, w) \<in> flows g \<and> (v \<in> set vs) \<noteq> (w \<in> set vs)}) \<and>
    env_size E = length (envProducers E) + (if length exits > 1 then 1 else 0)"
proof -
  obtain h where h: "createSubgraphFromValues sub g vs True [] = Inr (Some h)" "clean h" "internal_values h = set vs"
    "dg_facts h = copy_facts sub g (filter (selected_edge g True [] (set vs)) (allEdges g))"
    "external_values h = (\<Union>e \<in> {e \<in> set (allEdges g). selected_edge g True [] (set vs) e}. end_values g e) - set vs"
    using createSubgraphFromValues_correct [OF assms(1,2), of sub g True "[]"] by blast
  then have c: "clean loopDG" "external_values loopDG = (\<Union>e \<in> {e \<in> set (allEdges g). selected_edge g True [] (set vs) e}. end_values g e) - set vs"
    and f: "dg_facts loopDG = copy_facts sub g (filter (selected_edge g True [] (set vs)) (allEdges g))" using assms(4) by simp_all
  have fl: "flows loopDG = {(v, w) \<in> flows g. v \<in> set vs \<or> w \<in> set vs}" by (rule flows_subgraph [OF f])
  have ends: "v \<in> set vs \<union> external_values loopDG \<and> w \<in> set vs \<union> external_values loopDG" if "(v, w) \<in> flows loopDG" for v w
  proof -
    have "(v, w) \<in> flows g" and inside: "v \<in> set vs \<or> w \<in> set vs" using that unfolding fl by simp_all
    from this(1) obtain e where "e \<in> set (allEdges g)" "edge_pair g e = (v, w)" unfolding flows_def by auto
    with inside show ?thesis unfolding c(2) by (auto simp: selected_edge_def end_values_def intro!: exI [of _ e] bexI [of _ e])
  qed
  have ext: "v \<in> external_values loopDG \<Longrightarrow> v \<notin> set vs" for v unfolding c(2) by simp
  have "\<forall>(v, w) \<in> flows loopDG. v \<notin> external_values loopDG \<or> w \<notin> external_values loopDG" using fl ext by auto
  moreover have "\<forall>(v, w) \<in> flows loopDG. v \<in> external_values loopDG \<longrightarrow> (\<exists>i. w = Inst i)" using fl ext assms(3) by fastforce
  ultimately obtain E where E: "LoopEnvironment_of loopDG exits = Inr E" "env_inv loopDG (external_values loopDG) E" "hasExitBlockEnv E = (length exits > 1)"
    using LoopEnvironment_ok [OF c(1)] by blast
  have I: "index_ok E (\<lambda>v. v \<in> external_values loopDG)"
    "set (envProducers E) = {v \<in> external_values loopDG. \<exists>w. (v, w) \<in> flows loopDG} \<union>
       {v. v \<notin> external_values loopDG \<and> (\<exists>w \<in> external_values loopDG. (v, w) \<in> flows loopDG)}"
    "\<And>v. set (consumersOf v E) = {w. (v, w) \<in> flows loopDG \<and> (v \<in> external_values loopDG \<or> w \<in> external_values loopDG)}"
    using E(2) by (simp_all add: env_inv_def)
  have P: "set (envProducers E) = {v. v \<notin> set vs \<and> (\<exists>w \<in> set vs. (v, w) \<in> flows g)} \<union> {v \<in> set vs. \<exists>w. w \<notin> set vs \<and> (v, w) \<in> flows g}"
    unfolding I(2) using ends ext fl by blast
  have where_in: "v \<in> external_values loopDG \<longleftrightarrow> v \<notin> set vs" if "v \<in> set (envProducers E)" for v
    using that ends ext unfolding I(2) by blast
  have ind: "i < length (envProducers E) \<Longrightarrow> envProducers E ! i \<in> set (envProducers E)" for i by simp
  have live: "isLiveIn v E \<longleftrightarrow> v \<in> set (envProducers E) \<and> v \<notin> set vs" for v
  proof -
    have "isLiveIn v E \<longleftrightarrow> (\<exists>i. map_of (producerIndexMap E) v = Some i \<and> i \<in> set (liveInInds E))"
      by (auto simp: isLiveIn_def isProducer_def split: option.splits)
    also have "\<dots> \<longleftrightarrow> (\<exists>i < length (envProducers E). envProducers E ! i = v \<and> v \<in> external_values loopDG)" using I(1) by (auto simp: index_ok_def)
    also have "\<dots> \<longleftrightarrow> v \<in> set (envProducers E) \<and> v \<notin> set vs" using where_in by (auto simp: in_set_conv_nth)
    finally show ?thesis .
  qed
  have "\<forall>i < length (envProducers E). (i \<in> set (liveInInds E) \<longleftrightarrow> envProducers E ! i \<notin> set vs) \<and>
       (i \<in> set (liveOutInds E) \<longleftrightarrow> envProducers E ! i \<in> set vs) \<and> map_of (producerIndexMap E) (envProducers E ! i) = Some i"
    using I(1) where_in [OF ind] by (simp add: index_ok_def)
  moreover have "set (consumersOf v E) = {w. (v, w) \<in> flows g \<and> (v \<in> set vs) \<noteq> (w \<in> set vs)}" for v
    unfolding I(3) using ends ext fl by blast
  moreover have "isLiveIn v E \<longleftrightarrow> v \<notin> set vs \<and> (\<exists>w \<in> set vs. (v, w) \<in> flows g)" for v unfolding live P by blast
  moreover have "distinct (envProducers E)" using I(1) by (simp add: index_ok_def)
  ultimately show ?thesis using E(1,3) P by (intro exI [of _ E]) (simp add: env_size_def)
qed

text \<open>An argument flows into an instruction of the loop, whose value flows to an instruction after it.\<close>

definition flow_dg :: "(llvm_value, nat) dg" where
  "flow_dg = empty_dg\<lparr>allNodes := [0, 1, 2], allEdges := [3, 4],
     nodeMem := (\<lambda>_. new_node 0 (Inst 2))(0 := new_node 0 (Arg 0), 1 := new_node 1 (Inst 1)),
     edgeMem := (\<lambda>_. new_edge 0 1)(4 := new_edge 1 2)\<rparr>"

lemma flow_dg_flows: "flows flow_dg = {(Arg 0, Inst 1), (Inst 1, Inst 2)}"
  by (auto simp: flows_def flow_dg_def edge_pair_def skipped_def new_edge_def new_node_def intro: exI [of _ 3])

theorem environment_of_loop_witness:
  "\<exists>loopDG E. createSubgraphFromValues (\<lambda>_. undefined) flow_dg [Inst 1] True [] = Inr (Some loopDG) \<and>
     LoopEnvironment_of loopDG [5] = Inr E \<and> set (envProducers E) = {Arg 0, Inst 1} \<and> isLiveIn (Arg 0) E \<and> \<not> isLiveIn (Inst 1) E"
proof -
  have d: "distinct [Inst 1]" "[Inst 1] \<noteq> []" "\<forall>v \<in> set [Inst 1]. \<exists>i. v = Inst i" by simp_all
  obtain loopDG where l: "createSubgraphFromValues (\<lambda>_. undefined) flow_dg [Inst 1] True [] = Inr (Some loopDG)"
    using createSubgraphFromValues_correct [OF d(1,2), of "\<lambda>_. undefined" flow_dg True "[]"] by blast
  have "set [Inst 1] = {Inst 1}" by simp
  then have p: "{v. v \<notin> set [Inst 1] \<and> (\<exists>w \<in> set [Inst 1]. (v, w) \<in> flows flow_dg)} = {Arg 0}"
    "{v \<in> set [Inst 1]. \<exists>w. w \<notin> set [Inst 1] \<and> (v, w) \<in> flows flow_dg} = {Inst 1}" by (auto simp: flow_dg_flows)
  from environment_of_loop [OF d l, of "[5]"] obtain E where "LoopEnvironment_of loopDG [5] = Inr E"
    "set (envProducers E) = {Arg 0} \<union> {Inst 1}" "\<forall>v. isLiveIn v E \<longleftrightarrow> v \<notin> set [Inst 1] \<and> (\<exists>w \<in> set [Inst 1]. (v, w) \<in> flows flow_dg)"
    unfolding p by blast
  with l show ?thesis by (intro exI [of _ loopDG] exI [of _ E]) (simp add: flow_dg_flows insert_commute)
qed

end
