(* ===== verification/Reduction.thy ===== *)
theory Reduction
  imports NoellePrelude "HOL-Library.Word"
begin

unbundle bit_operations_syntax

text \<open>
  Reduction of accumulators: \<open>core/loops/src/AccumulatorOpInfo.cpp\<close>. A parallelised loop gives every thread a private copy of an
  accumulator that starts with the identity of the operator, and combines the copies after the loop with the reducing operator. The
  operators are LLVM's opcodes; on integers they work on words.
\<close>

section \<open>The tables\<close>

datatype opcode = OpAdd | OpFAdd | OpMul | OpFMul | OpSub | OpFSub | OpOr | OpAnd | OpOther nat

datatype llvm_type = IntegerTy nat | HalfTy | FloatTy | DoubleTy | PointerTy | OtherTy

definition sideEffectFreeOps :: "opcode list" where
  "sideEffectFreeOps = [OpAdd, OpFAdd, OpMul, OpFMul, OpSub, OpFSub, OpOr, OpAnd]"

definition accumOps :: "opcode list" where
  "accumOps = sideEffectFreeOps"

definition opIdentities :: "opcode \<rightharpoonup> nat" where
  "opIdentities = map_of [(OpAdd, 0), (OpFAdd, 0), (OpMul, 1), (OpFMul, 1), (OpSub, 0), (OpFSub, 0), (OpOr, 0), (OpAnd, 1)]"

definition integerReducingOperators :: "opcode \<rightharpoonup> opcode" where
  "integerReducingOperators = map_of [(OpAdd, OpAdd), (OpFAdd, OpAdd), (OpMul, OpMul), (OpFMul, OpMul), (OpSub, OpAdd),
     (OpFSub, OpAdd), (OpOr, OpOr), (OpAnd, OpAnd)]"

definition floatingReducingOperators :: "opcode \<rightharpoonup> opcode" where
  "floatingReducingOperators = map_of [(OpAdd, OpFAdd), (OpFAdd, OpFAdd), (OpMul, OpFMul), (OpFMul, OpFMul), (OpSub, OpFAdd),
     (OpFSub, OpFAdd)]"

definition isSubOp :: "opcode \<Rightarrow> bool" where
  "isSubOp opc \<longleftrightarrow> OpSub = opc \<or> OpFSub = opc"

definition isMulOp :: "opcode \<Rightarrow> bool" where
  "isMulOp opc \<longleftrightarrow> OpMul = opc \<or> OpFMul = opc"

definition isAddOp :: "opcode \<Rightarrow> bool" where
  "isAddOp opc \<longleftrightarrow> OpAdd = opc \<or> OpFAdd = opc"

definition accumOpForType :: "opcode \<Rightarrow> llvm_type \<Rightarrow> opcode res" where
  "accumOpForType opc type =
     (case type of
        IntegerTy _ \<Rightarrow> (case integerReducingOperators opc of None \<Rightarrow> Inl AssertFailed | Some r \<Rightarrow> Inr r)
      | HalfTy \<Rightarrow> (case floatingReducingOperators opc of None \<Rightarrow> Inl AssertFailed | Some r \<Rightarrow> Inr r)
      | FloatTy \<Rightarrow> (case floatingReducingOperators opc of None \<Rightarrow> Inl AssertFailed | Some r \<Rightarrow> Inr r)
      | DoubleTy \<Rightarrow> (case floatingReducingOperators opc of None \<Rightarrow> Inl AssertFailed | Some r \<Rightarrow> Inr r)
      | _ \<Rightarrow> Inl AssertFailed)"

text \<open>The table of identities is read with \<open>operator[]\<close>. A constant is its type and its number.\<close>

definition generateIdentityFor :: "opcode \<Rightarrow> llvm_type \<Rightarrow> (llvm_type \<times> nat) res" where
  "generateIdentityFor opc castType =
     (let opIdentity = (case opIdentities opc of None \<Rightarrow> 0 | Some i \<Rightarrow> i)
      in case castType of
           IntegerTy _ \<Rightarrow> Inr (castType, opIdentity)
         | FloatTy \<Rightarrow> Inr (castType, opIdentity)
         | DoubleTy \<Rightarrow> Inr (castType, opIdentity)
         | _ \<Rightarrow> Inl AssertFailed)"

section \<open>Operators on integers\<close>

text \<open>LLVM's meaning of the operators on integers of a width; the other opcodes are not integer operators of these tables.\<close>

definition int_op :: "opcode \<Rightarrow> 'w::len word \<Rightarrow> 'w word \<Rightarrow> 'w word" where
  "int_op opc x y =
     (case opc of OpAdd \<Rightarrow> x + y | OpMul \<Rightarrow> x * y | OpSub \<Rightarrow> x - y | OpOr \<Rightarrow> x OR y | OpAnd \<Rightarrow> x AND y | _ \<Rightarrow> x)"

text \<open>A reduction: accumulating is one operator, combining another, \<open>e\<close> is where the private copies start.\<close>

locale reduction =
  fixes accumulate :: "'a \<Rightarrow> 'a \<Rightarrow> 'a" and combine :: "'a \<Rightarrow> 'a \<Rightarrow> 'a" and e :: 'a
  assumes combine_assoc: "combine (combine a b) c = combine a (combine b c)"
    and combine_comm: "combine a b = combine b a"
    and combine_e: "combine a e = a"
    and accumulate_combine: "accumulate a x = combine a (accumulate e x)"
begin

lemma foldl_out: "foldl accumulate (combine a b) xs = combine a (foldl accumulate b xs)"
  by (induction xs arbitrary: b) (simp_all, metis accumulate_combine combine_assoc)

lemma private_copy: "foldl accumulate a xs = combine a (foldl accumulate e xs)"
  using foldl_out [of a e xs] by (simp add: combine_e)

lemma copies_combine: "foldl combine a (map (foldl accumulate e) parts) = foldl accumulate a (concat parts)"
proof (induction parts arbitrary: a)
  case (Cons p parts)
  then show ?case using private_copy [of a p] by simp
qed simp

lemma accumulate_left_commute: "accumulate (accumulate a x) y = accumulate (accumulate a y) x"
  by (metis accumulate_combine combine_assoc combine_comm)

lemma foldl_mset: "mset xs = mset ys \<Longrightarrow> foldl accumulate a xs = foldl accumulate a ys"
proof -
  assume m: "mset xs = mset ys"
  have "foldl accumulate a zs = fold (\<lambda>x a. accumulate a x) zs a" for zs by (simp add: foldl_conv_fold)
  moreover have "fold (\<lambda>x a. accumulate a x) xs = fold (\<lambda>x a. accumulate a x) ys"
    by (rule fold_multiset_equiv) (auto simp: accumulate_left_commute m)
  ultimately show ?thesis by simp
qed

text \<open>However the elements are dealt out to the private copies, the result is that of the sequential loop.\<close>

lemma parallel_is_sequential:
  "mset xs = mset (concat parts) \<Longrightarrow> foldl combine a (map (foldl accumulate e) parts) = foldl accumulate a xs"
  using copies_combine foldl_mset by metis

end

interpretation add: reduction "int_op OpAdd" "int_op OpAdd" 0
  by unfold_locales (simp_all add: int_op_def ac_simps)

interpretation mul: reduction "int_op OpMul" "int_op OpMul" 1
  by unfold_locales (simp_all add: int_op_def ac_simps)

interpretation sub: reduction "int_op OpSub" "int_op OpAdd" 0
  by unfold_locales (simp_all add: int_op_def ac_simps)

interpretation bit_or: reduction "int_op OpOr" "int_op OpOr" 0
  by unfold_locales (simp_all add: int_op_def ac_simps)

interpretation bit_and: reduction "int_op OpAnd" "int_op OpAnd" "- 1"
  by unfold_locales (simp_all add: int_op_def ac_simps)

text \<open>Reductions of integers. For each of the handled opcodes there are a reducing operator and an identity. For additions, multiplications,
  subtractions and disjunctions, private copies that start with the identity and are combined by the reducing operator give what the
  sequential loop gives, for every initial value and every distribution of the elements to the threads. For conjunctions the identity is 1
  instead of all ones: the result is cut to its lowest bit.\<close>

theorem reduction_of_integers:
  fixes a :: "'w::len word"
  assumes "opc \<in> {OpAdd, OpMul, OpSub, OpOr, OpAnd}" and "mset xs = mset (concat parts)" and "parts \<noteq> []"
  shows "\<exists>r i. accumOpForType opc (IntegerTy LENGTH('w)) = Inr r \<and> generateIdentityFor opc (IntegerTy LENGTH('w)) = Inr (IntegerTy LENGTH('w), i) \<and>
    foldl (int_op r) a (map (foldl (int_op opc) (of_nat i)) parts) =
      (if opc = OpAnd then foldl (int_op opc) a xs AND 1 else foldl (int_op opc) a xs)"
proof -
  have and_out: "foldl (int_op OpAnd) (b AND x) ps = foldl (int_op OpAnd) b ps AND x" for b x :: "'w word" and ps
    by (induction ps arbitrary: b) (simp_all add: int_op_def, metis and.assoc and.commute)
  have and_one: "foldl (int_op OpAnd) b (map (foldl (int_op OpAnd) 1) ps) = foldl (int_op OpAnd) b (map (foldl (int_op OpAnd) (- 1)) ps) AND 1"
    if "ps \<noteq> []" for b :: "'w word" and ps
    using that
  proof (induction ps arbitrary: b)
    case (Cons p ps)
    have p: "foldl (int_op OpAnd) 1 p = foldl (int_op OpAnd) (- 1) p AND 1" using and_out [of "- 1" 1 p] by simp
    show ?case
    proof (cases "ps = []")
      case True
      then show ?thesis by (simp add: p) (simp add: int_op_def and.assoc)
    next
      case False
      let ?b = "int_op OpAnd b (foldl (int_op OpAnd) (- 1) p)"
      have "int_op OpAnd b (foldl (int_op OpAnd) 1 p) = ?b AND 1" unfolding p by (simp add: int_op_def and.assoc)
      then show ?thesis using Cons.IH [OF False, of ?b] and_out [of ?b 1] by (simp add: and.assoc)
    qed
  qed simp
  note S = add.parallel_is_sequential [OF assms(2)] mul.parallel_is_sequential [OF assms(2)] sub.parallel_is_sequential [OF assms(2)]
    bit_or.parallel_is_sequential [OF assms(2)] bit_and.parallel_is_sequential [OF assms(2)]
  show ?thesis using assms(1)
    by (auto simp: accumOpForType_def generateIdentityFor_def opIdentities_def integerReducingOperators_def S and_one [OF assms(3)])
qed

theorem reduction_of_integers_witness:
  "foldl (int_op OpAnd) (6 :: 8 word) (map (foldl (int_op OpAnd) 1) [[7], [6]]) = 0 \<and>
   foldl (int_op OpAnd) (6 :: 8 word) [7, 6] = 6 \<and>
   foldl (int_op OpAdd) (10 :: 8 word) (map (foldl (int_op OpSub) 0) [[3], [2, 1]]) = 4"
proof (intro conjI)
  have m: "mset [7, 6] = mset (concat [[7], [6 :: 8 word]])" by simp
  show "foldl (int_op OpAnd) (6 :: 8 word) (map (foldl (int_op OpAnd) 1) [[7], [6]]) = 0"
    using reduction_of_integers [of OpAnd, OF _ m, of 6]
    by (simp add: accumOpForType_def generateIdentityFor_def opIdentities_def integerReducingOperators_def int_op_def)
qed (simp_all add: int_op_def)

end
