(* ===== verification/IrCode.thy ===== *)
theory IrCode
  imports Reduction
begin

text \<open>
  The part of LLVM's intermediate representation that the environment builder and the utilities for induction variables generate, and its meaning. LLVM itself is not part of the
  repository: a function under construction is a map from blocks to instructions, an instruction's address is its register, and the
  methods of \<open>IRBuilder\<close> append instructions. Memory is allocated in slots of 64 bits, so a pointer is an allocation and a slot. The meaning
  of instructions is LLVM's documented one; operations on other than integer types, and conversions of pointers, are the parameter \<open>fp\<close>.
\<close>

section \<open>Code\<close>

datatype ir_value = Const nat nat | Reg nat

datatype predicate = ICMP_EQ | ICMP_NE | ICMP_UGT | ICMP_UGE | ICMP_ULT | ICMP_ULE | ICMP_SGT | ICMP_SGE | ICMP_SLT | ICMP_SLE

datatype conversion = ZExtOrTrunc | PtrToInt | IntToPtr

datatype ir_inst =
    Alloca nat
  | GEP nat ir_value ir_value
  | BitCast ir_value
  | Load ir_value
  | Store ir_value ir_value
  | BinOp opcode llvm_type ir_value ir_value
  | UDiv nat ir_value ir_value
  | ICmp predicate nat ir_value ir_value
  | Select ir_value ir_value ir_value
  | Convert conversion llvm_type ir_value
  | Phi "(ir_value \<times> nat) list"
  | Br nat
  | CondBr ir_value nat nat

record ir_fun =
  ir_code :: "nat \<Rightarrow> (nat \<times> ir_inst) list"
  ir_nextReg :: nat
  ir_nextBlock :: nat

definition createBlock :: "ir_fun \<Rightarrow> nat \<times> ir_fun" where
  "createBlock F = (ir_nextBlock F, F\<lparr>ir_code := (ir_code F)(ir_nextBlock F := []), ir_nextBlock := Suc (ir_nextBlock F)\<rparr>)"

definition emit :: "nat \<Rightarrow> ir_inst \<Rightarrow> ir_fun \<Rightarrow> ir_value \<times> ir_fun" where
  "emit b i F = (Reg (ir_nextReg F), F\<lparr>ir_code := (ir_code F)(b := ir_code F b @ [(ir_nextReg F, i)]), ir_nextReg := Suc (ir_nextReg F)\<rparr>)"

fun isTerminator :: "ir_inst \<Rightarrow> bool" where
  "isTerminator (Br _) = True"
| "isTerminator (CondBr _ _ _) = True"
| "isTerminator _ = False"

definition eraseTerminator :: "nat \<Rightarrow> ir_fun \<Rightarrow> ir_fun" where
  "eraseTerminator b F = F\<lparr>ir_code := (ir_code F)(b := filter (\<lambda>(_, i). \<not> isTerminator i) (ir_code F b))\<rparr>"

definition add_incoming :: "ir_value \<Rightarrow> ir_value \<times> nat \<Rightarrow> nat \<times> ir_inst \<Rightarrow> nat \<times> ir_inst" where
  "add_incoming phi inc = (\<lambda>(r, i). (r, case i of Phi incs \<Rightarrow> if phi = Reg r then Phi (incs @ [inc]) else Phi incs | _ \<Rightarrow> i))"

definition addIncoming :: "nat \<Rightarrow> ir_value \<Rightarrow> ir_value \<times> nat \<Rightarrow> ir_fun \<Rightarrow> ir_fun" where
  "addIncoming b phi inc F = F\<lparr>ir_code := (ir_code F)(b := map (add_incoming phi inc) (ir_code F b))\<rparr>"

text \<open>Inserting before the terminator of a block, which must have one, and after the PHIs of a block.\<close>

definition emitBeforeTerminator :: "nat \<Rightarrow> ir_inst \<Rightarrow> ir_fun \<Rightarrow> (ir_value \<times> ir_fun) res" where
  "emitBeforeTerminator b i F =
     (let c = ir_code F b
      in check (c \<noteq> [] \<and> isTerminator (snd (last c))) NullDeref
        (Inr (Reg (ir_nextReg F),
              F\<lparr>ir_code := (ir_code F)(b := butlast c @ [(ir_nextReg F, i), last c]), ir_nextReg := Suc (ir_nextReg F)\<rparr>)))"

fun isPhi :: "ir_inst \<Rightarrow> bool" where
  "isPhi (Phi _) = True"
| "isPhi _ = False"

definition emitPhi :: "nat \<Rightarrow> ir_fun \<Rightarrow> ir_value \<times> ir_fun" where
  "emitPhi b F =
     (let c = ir_code F b
      in (Reg (ir_nextReg F),
          F\<lparr>ir_code := (ir_code F)(b := takeWhile (isPhi \<circ> snd) c @ (ir_nextReg F, Phi []) # dropWhile (isPhi \<circ> snd) c),
            ir_nextReg := Suc (ir_nextReg F)\<rparr>))"

section \<open>Meaning\<close>

datatype rt_val = VInt int | VPtr nat int | VOther nat

record rt_state =
  rs_reg :: "nat \<Rightarrow> rt_val"
  rs_mem :: "nat \<times> int \<Rightarrow> rt_val"
  rs_next :: nat

definition val :: "rt_state \<Rightarrow> ir_value \<Rightarrow> rt_val" where
  "val s v = (case v of Const w n \<Rightarrow> VInt (take_bit w (int n)) | Reg r \<Rightarrow> rs_reg s r)"

definition int_bin :: "opcode \<Rightarrow> nat \<Rightarrow> int \<Rightarrow> int \<Rightarrow> int" where
  "int_bin opc w x y = take_bit w
     (case opc of OpAdd \<Rightarrow> x + y | OpMul \<Rightarrow> x * y | OpSub \<Rightarrow> x - y | OpOr \<Rightarrow> x OR y | OpAnd \<Rightarrow> x AND y | _ \<Rightarrow> x)"

definition icmp :: "predicate \<Rightarrow> nat \<Rightarrow> int \<Rightarrow> int \<Rightarrow> bool" where
  "icmp p w x y =
     (let sx = signed_take_bit (w - 1) x; sy = signed_take_bit (w - 1) y
      in case p of ICMP_EQ \<Rightarrow> x = y | ICMP_NE \<Rightarrow> x \<noteq> y | ICMP_UGT \<Rightarrow> y < x | ICMP_UGE \<Rightarrow> y \<le> x | ICMP_ULT \<Rightarrow> x < y | ICMP_ULE \<Rightarrow> x \<le> y
         | ICMP_SGT \<Rightarrow> sy < sx | ICMP_SGE \<Rightarrow> sy \<le> sx | ICMP_SLT \<Rightarrow> sx < sy | ICMP_SLE \<Rightarrow> sx \<le> sy)"

type_synonym float_ops = "opcode \<Rightarrow> llvm_type \<Rightarrow> rt_val \<Rightarrow> rt_val \<Rightarrow> rt_val"

definition bin :: "float_ops \<Rightarrow> opcode \<Rightarrow> llvm_type \<Rightarrow> rt_val \<Rightarrow> rt_val \<Rightarrow> rt_val" where
  "bin fp opc ty a b =
     (case (ty, a, b) of (IntegerTy w, VInt x, VInt y) \<Rightarrow> VInt (int_bin opc w x y) | _ \<Rightarrow> fp opc ty a b)"

definition set_reg :: "nat \<Rightarrow> rt_val \<Rightarrow> rt_state \<Rightarrow> rt_state" where
  "set_reg r v s = s\<lparr>rs_reg := (rs_reg s)(r := v)\<rparr>"

text \<open>The instructions of a block but the PHIs at its start and the terminator at its end. An index of a GEP counts slots and is signed.
  A wrong kind of operand is undefined behaviour.\<close>

definition exec_inst :: "float_ops \<Rightarrow> nat \<times> ir_inst \<Rightarrow> rt_state \<Rightarrow> rt_state res" where
  "exec_inst fp = (\<lambda>(r, i) s.
     case i of
       Alloca n \<Rightarrow> Inr (set_reg r (VPtr (rs_next s) 0) (s\<lparr>rs_next := Suc (rs_next s)\<rparr>))
     | GEP w p x \<Rightarrow> (case (val s p, val s x) of (VPtr a k, VInt d) \<Rightarrow> Inr (set_reg r (VPtr a (k + signed_take_bit (w - 1) d)) s) | _ \<Rightarrow> Inl DanglingDeref)
     | BitCast p \<Rightarrow> Inr (set_reg r (val s p) s)
     | Load p \<Rightarrow> (case val s p of VPtr a k \<Rightarrow> Inr (set_reg r (rs_mem s (a, k)) s) | _ \<Rightarrow> Inl DanglingDeref)
     | Store v p \<Rightarrow> (case val s p of VPtr a k \<Rightarrow> Inr (s\<lparr>rs_mem := (rs_mem s)((a, k) := val s v)\<rparr>) | _ \<Rightarrow> Inl DanglingDeref)
     | BinOp opc ty v w \<Rightarrow> Inr (set_reg r (bin fp opc ty (val s v) (val s w)) s)
     | UDiv n v w \<Rightarrow> (case (val s v, val s w) of
           (VInt x, VInt y) \<Rightarrow> check (y \<noteq> 0) Aborted (Inr (set_reg r (VInt (x div y)) s))
         | _ \<Rightarrow> Inl DanglingDeref)
     | ICmp p n v w \<Rightarrow> (case (val s v, val s w) of
           (VInt x, VInt y) \<Rightarrow> Inr (set_reg r (VInt (if icmp p n x y then 1 else 0)) s)
         | _ \<Rightarrow> Inl DanglingDeref)
     | Select c v w \<Rightarrow> (case val s c of VInt x \<Rightarrow> Inr (set_reg r (val s (if x \<noteq> 0 then v else w)) s) | _ \<Rightarrow> Inl DanglingDeref)
     | Convert c ty v \<Rightarrow> (case (c, ty, val s v) of
           (ZExtOrTrunc, IntegerTy n, VInt x) \<Rightarrow> Inr (set_reg r (VInt (take_bit n x)) s)
         | _ \<Rightarrow> Inr (set_reg r (fp (OpOther 0) ty (val s v) (val s v)) s))
     | _ \<Rightarrow> Inl DanglingDeref)"

text \<open>The PHIs of a block read the registers before any of them is written.\<close>

definition phi_value :: "rt_state \<Rightarrow> nat \<Rightarrow> ir_inst \<Rightarrow> rt_val option" where
  "phi_value s prev i = (case i of Phi incs \<Rightarrow> map_option (\<lambda>(v, _). val s v) (find (\<lambda>(_, b). b = prev) incs) | _ \<Rightarrow> None)"

definition exec_phi :: "rt_state \<Rightarrow> nat \<Rightarrow> nat \<times> ir_inst \<Rightarrow> rt_state \<Rightarrow> rt_state res" where
  "exec_phi s0 prev = (\<lambda>(r, i) s. case phi_value s0 prev i of None \<Rightarrow> Inl DanglingDeref | Some v \<Rightarrow> Inr (set_reg r v s))"

definition exec_terminator :: "ir_inst \<Rightarrow> rt_state \<Rightarrow> nat res" where
  "exec_terminator i s = (case i of
       Br b \<Rightarrow> Inr b
     | CondBr c b1 b2 \<Rightarrow> (case val s c of VInt x \<Rightarrow> Inr (if x \<noteq> 0 then b1 else b2) | _ \<Rightarrow> Inl DanglingDeref)
     | _ \<Rightarrow> Inl DanglingDeref)"

text \<open>A position is a block, the block before it, and the state at its entry.\<close>

type_synonym position = "nat \<times> nat \<times> rt_state"

definition exec_block :: "float_ops \<Rightarrow> ir_fun \<Rightarrow> position \<Rightarrow> position res" where
  "exec_block fp F = (\<lambda>(b, prev, s).
     case ir_code F b of [] \<Rightarrow> Inl DanglingDeref
     | code \<Rightarrow>
       andThen (foldE (exec_phi s prev) (takeWhile (isPhi \<circ> snd) (butlast code)) s) (\<lambda>s1.
       andThen (foldE (exec_inst fp) (dropWhile (isPhi \<circ> snd) (butlast code)) s1) (\<lambda>s2.
       andThen (exec_terminator (snd (last code)) s2) (\<lambda>next. Inr (next, b, s2)))))"

definition run_to :: "float_ops \<Rightarrow> ir_fun \<Rightarrow> nat \<Rightarrow> position \<Rightarrow> position res" where
  "run_to fp F target = whileE (\<lambda>(b, _, _). b \<noteq> target) (exec_block fp F)"

end
