(* ===== verification/EnvBuild.thy ===== *)
theory EnvBuild
  imports IrCode "HOL-Library.AList"
begin

text \<open>
  The environment of a parallelised loop in memory: \<open>core/loop_structure/src/EnvBuilder.cpp\<close>. The environment is an array with one cache line for
  every variable; a variable that is reduced has there a pointer to a vector with one cache line for every private copy. The methods generate
  code: in the caller, which allocates the environment and after the loop reduces the private copies, and in the tasks, which address their variables.
  A pointer to an instruction that the code leaves null or unset is \<open>None\<close>.
\<close>

section \<open>The classes\<close>

record env_user =
  eu_envArray :: "ir_value option"
  eu_indexToPtr :: "(nat \<times> ir_value) list"
  eu_liveInInds :: "nat list"
  eu_liveOutInds :: "nat list"

record env_builder =
  eb_envArray :: "ir_value option"
  eb_envArrayInt8Ptr :: "ir_value option"
  eb_envSize :: int
  eb_envArrayType :: "nat option"
  eb_envTypes :: "llvm_type list"
  eb_indexToVar :: "(nat \<times> ir_value option) list"
  eb_accumulated :: "(nat \<times> ir_value) list"
  eb_reducable :: "(nat \<times> ir_value list) list"
  eb_vector :: "(nat \<times> ir_value) list"
  eb_numReducers :: int
  eb_users :: "env_user list"

definition getCacheLineBytes :: nat where
  "getCacheLineBytes = 64"

definition valuesInCacheLine :: nat where
  "valuesInCacheLine = getCacheLineBytes div 8"

definition EnvUserBuilder_of :: "ir_value option \<Rightarrow> env_user" where
  "EnvUserBuilder_of uninit = \<lparr>eu_envArray = uninit, eu_indexToPtr = [], eu_liveInInds = [], eu_liveOutInds = []\<rparr>"

definition setEnvArray :: "ir_value option \<Rightarrow> env_user \<Rightarrow> env_user" where
  "setEnvArray envArr u = u\<lparr>eu_envArray := envArr\<rparr>"

definition addLiveInIndex :: "nat \<Rightarrow> env_user \<Rightarrow> env_user" where
  "addLiveInIndex ind u = u\<lparr>eu_liveInInds := uset_insert ind (eu_liveInInds u)\<rparr>"

definition addLiveOutIndex :: "nat \<Rightarrow> env_user \<Rightarrow> env_user" where
  "addLiveOutIndex ind u = u\<lparr>eu_liveOutInds := uset_insert ind (eu_liveOutInds u)\<rparr>"

text \<open>\<open>envIndexToPtr\<close> is read with \<open>operator[]\<close>: an absent index gets a null pointer.\<close>

definition getEnvPtr :: "nat \<Rightarrow> env_user \<Rightarrow> ir_value option" where
  "getEnvPtr ind u = map_of (eu_indexToPtr u) ind"

definition EnvBuilder_of :: env_builder where
  "EnvBuilder_of = \<lparr>eb_envArray = None, eb_envArrayInt8Ptr = None, eb_envSize = -1, eb_envArrayType = None, eb_envTypes = [],
     eb_indexToVar = [], eb_accumulated = [], eb_reducable = [], eb_vector = [], eb_numReducers = -1, eb_users = []\<rparr>"

definition createEnvUsers :: "(nat \<Rightarrow> ir_value option) \<Rightarrow> nat \<Rightarrow> env_builder \<Rightarrow> env_builder" where
  "createEnvUsers uninit numUsers B = B\<lparr>eb_users := eb_users B @ map (\<lambda>i. EnvUserBuilder_of (uninit i)) [0..<numUsers]\<rparr>"

definition createEnvVariables :: "llvm_type list \<Rightarrow> nat list \<Rightarrow> nat list \<Rightarrow> int \<Rightarrow> env_builder \<Rightarrow> env_builder res" where
  "createEnvVariables varTypes singleVarIndices reducableVarIndices reducerCount B =
     check (eb_envSize B = -1) AssertFailed
       (let envSize = int (length singleVarIndices + length reducableVarIndices)
        in check (envSize = int (length varTypes)) AssertFailed
          (Inr (B\<lparr>eb_envSize := envSize, eb_envTypes := varTypes, eb_envArrayType := Some (nat envSize * valuesInCacheLine),
                  eb_numReducers := reducerCount,
                  eb_indexToVar := fold (\<lambda>i. AList.update i None) singleVarIndices (eb_indexToVar B),
                  eb_reducable := fold (\<lambda>i. AList.update i []) reducableVarIndices (eb_reducable B)\<rparr>)))"

definition addVariableToEnvironment :: "nat \<Rightarrow> llvm_type \<Rightarrow> env_builder \<Rightarrow> env_builder" where
  "addVariableToEnvironment varIndex varType B =
     (let envSize = eb_envSize B + 1
      in B\<lparr>eb_envSize := envSize, eb_envTypes := eb_envTypes B @ [varType], eb_envArrayType := Some (nat envSize * valuesInCacheLine),
           eb_indexToVar := AList.update varIndex None (eb_indexToVar B)\<rparr>)"

section \<open>Code in the caller: the environment\<close>

definition generateEnvArray :: "nat \<Rightarrow> env_builder \<Rightarrow> ir_fun \<Rightarrow> (env_builder \<times> ir_fun) res" where
  "generateEnvArray b B F =
     check (eb_envSize B \<noteq> -1) Aborted
       (case eb_envArrayType B of None \<Rightarrow> Inl NullDeref | Some n \<Rightarrow>
          let (arr, F1) = emit b (Alloca n) F; (int8Ptr, F2) = emit b (BitCast arr) F1
          in Inr (B\<lparr>eb_envArray := Some arr, eb_envArrayInt8Ptr := Some int8Ptr\<rparr>, F2))"

definition fetchCastedEnvPtr :: "nat \<Rightarrow> ir_value \<Rightarrow> nat \<Rightarrow> ir_fun \<Rightarrow> ir_value \<times> ir_fun" where
  "fetchCastedEnvPtr b arr envIndex F =
     (let (envPtr, F1) = emit b (GEP 64 arr (Const 64 (envIndex * valuesInCacheLine))) F in emit b (BitCast envPtr) F1)"

definition single_var :: "nat \<Rightarrow> ir_value \<Rightarrow> nat \<Rightarrow> env_builder \<times> ir_fun \<Rightarrow> (env_builder \<times> ir_fun) res" where
  "single_var b arr envIndex = (\<lambda>(B, F).
     check (envIndex < length (eb_envTypes B)) OutOfRange
       (let (p, F1) = fetchCastedEnvPtr b arr envIndex F
        in Inr (B\<lparr>eb_indexToVar := AList.update envIndex (Some p) (eb_indexToVar B)\<rparr>, F1)))"

definition reduce_ptr :: "nat \<Rightarrow> ir_value \<Rightarrow> nat \<Rightarrow> nat \<Rightarrow> env_builder \<times> ir_fun \<Rightarrow> (env_builder \<times> ir_fun) res" where
  "reduce_ptr b vec envIndex i = (\<lambda>(B, F).
     let (p, F1) = fetchCastedEnvPtr b vec i F
     in Inr (B\<lparr>eb_reducable := AList.update envIndex
                 ((case map_of (eb_reducable B) envIndex of None \<Rightarrow> [] | Some ps \<Rightarrow> ps) @ [p]) (eb_reducable B)\<rparr>, F1))"

definition reducable_var :: "nat \<Rightarrow> ir_value \<Rightarrow> nat \<Rightarrow> env_builder \<times> ir_fun \<Rightarrow> (env_builder \<times> ir_fun) res" where
  "reducable_var b arr envIndex = (\<lambda>(B, F).
     check (envIndex < length (eb_envTypes B)) OutOfRange
       (let (vec, F1) = emit b (Alloca (nat (eb_numReducers B) * valuesInCacheLine)) F;
            B1 = B\<lparr>eb_vector := AList.update envIndex vec (eb_vector B)\<rparr>;
            (envPtr, F2) = fetchCastedEnvPtr b arr envIndex F1;
            (_, F3) = emit b (Store vec envPtr) F2
        in foldE (reduce_ptr b vec envIndex) [0..<nat (eb_numReducers B)] (B1, F3)))"

definition generateEnvVariables :: "nat \<Rightarrow> env_builder \<Rightarrow> ir_fun \<Rightarrow> (env_builder \<times> ir_fun) res" where
  "generateEnvVariables b B F =
     (case eb_envArray B of None \<Rightarrow> Inl Aborted
      | Some arr \<Rightarrow>
          andThen (foldE (single_var b arr) (map fst (eb_indexToVar B)) (B, F)) (\<lambda>(B1, F1).
            foldE (reducable_var b arr) (map fst (eb_reducable B1)) (B1, F1)))"

section \<open>Code in the caller: the reduction\<close>

text \<open>The loops over the initial values, one variable of each: its PHI, its private copy, its operation, and the second value of its PHI.\<close>

definition reduce_phi :: "env_builder \<Rightarrow> nat \<Rightarrow> nat \<Rightarrow> nat \<times> ir_value \<Rightarrow> ir_value list \<times> ir_fun \<Rightarrow> (ir_value list \<times> ir_fun) res" where
  "reduce_phi B bb body = (\<lambda>(envIndex, initialValue) (phiNodes, F).
     check (envIndex < length (eb_envTypes B)) OutOfRange
       (let (phiNode, F1) = emit body (Phi []) F
        in Inr (phiNodes @ [phiNode], addIncoming body phiNode (initialValue, bb) F1)))"

definition reduce_load :: "env_builder \<Rightarrow> nat \<Rightarrow> ir_value \<Rightarrow> nat \<times> ir_value \<Rightarrow> ir_value list \<times> ir_fun \<Rightarrow> (ir_value list \<times> ir_fun) res" where
  "reduce_load B body IVReductionLoop = (\<lambda>(envIndex, _) (loadedValues, F).
     let (offsetValue, F1) = emit body (BinOp OpMul (IntegerTy 32) IVReductionLoop (Const 32 valuesInCacheLine)) F
     in case map_of (eb_vector B) envIndex of None \<Rightarrow> Inl NullDeref
        | Some base \<Rightarrow>
            let (addr, F2) = emit body (GEP 32 base offsetValue) F1
            in check (envIndex < length (eb_envTypes B)) OutOfRange
              (let (casted, F3) = emit body (BitCast addr) F2;
                   (envVar, F4) = emit body (Load casted) F3
               in Inr (loadedValues @ [envVar], F4)))"

definition reduce_op ::
  "(nat \<rightharpoonup> opcode) \<Rightarrow> ir_value list \<Rightarrow> ir_value list \<Rightarrow> nat \<Rightarrow> nat \<times> ir_value \<Rightarrow> nat \<times> env_builder \<times> ir_fun \<Rightarrow> (nat \<times> env_builder \<times> ir_fun) res" where
  "reduce_op reducableBinaryOps phiNodes loadedValues body = (\<lambda>(envIndex, _) (count, B, F).
     let binOp = (case reducableBinaryOps envIndex of None \<Rightarrow> OpOther 0 | Some r \<Rightarrow> r)
     in check (count < length phiNodes \<and> count < length loadedValues \<and> envIndex < length (eb_envTypes B)) OutOfRange
       (let (acc, F1) = emit body (BinOp binOp (eb_envTypes B ! envIndex) (phiNodes ! count) (loadedValues ! count)) F
        in Inr (Suc count, B\<lparr>eb_accumulated := AList.update envIndex acc (eb_accumulated B)\<rparr>, F1)))"

definition reduce_fix :: "env_builder \<Rightarrow> ir_value list \<Rightarrow> nat \<Rightarrow> nat \<times> ir_value \<Rightarrow> nat \<times> ir_fun \<Rightarrow> (nat \<times> ir_fun) res" where
  "reduce_fix B phiNodes body = (\<lambda>(envIndex, _) (count, F).
     check (count < length phiNodes) OutOfRange
       (case map_of (eb_accumulated B) envIndex of None \<Rightarrow> Inl NullDeref
        | Some prev \<Rightarrow> Inr (Suc count, addIncoming body (phiNodes ! count) (prev, body) F)))"

definition reduceLiveOutVariables ::
  "nat \<Rightarrow> (nat \<rightharpoonup> opcode) \<Rightarrow> (nat \<times> ir_value) list \<Rightarrow> ir_value \<Rightarrow> env_builder \<Rightarrow> ir_fun \<Rightarrow> (nat \<times> env_builder \<times> ir_fun) res" where
  "reduceLiveOutVariables bb reducableBinaryOps initialValues numberOfThreadsExecuted B F =
     (if initialValues = [] then Inr (bb, B, F)
      else
        let (body, F1) = createBlock F;
            (afterBB, F2) = createBlock F1;
            (_, F3) = emit bb (Br body) (eraseTerminator bb F2);
            (IV, F4) = emit body (Phi []) F3;
            F5 = addIncoming body IV (Const 32 0, bb) F4
        in andThen (foldE (reduce_phi B bb body) initialValues ([], F5)) (\<lambda>(phiNodes, F6).
           andThen (foldE (reduce_load B body IV) initialValues ([], F6)) (\<lambda>(loadedValues, F7).
           andThen (foldE (reduce_op reducableBinaryOps phiNodes loadedValues body) initialValues (0, B, F7)) (\<lambda>(_, B1, F8).
           andThen (foldE (reduce_fix B1 phiNodes body) initialValues (0, F8)) (\<lambda>(_, F9).
             let (updatedIV, F10) = emit body (BinOp OpAdd (IntegerTy 32) IV (Const 32 1)) F9;
                 F11 = addIncoming body IV (updatedIV, body) F10;
                 (continueToReduceVariables, F12) = emit body (ICmp ICMP_SLT 32 updatedIV numberOfThreadsExecuted) F11;
                 (_, F13) = emit body (CondBr continueToReduceVariables body afterBB) F12
             in Inr (afterBB, B1, F13))))))"

section \<open>Code in the tasks\<close>

definition createEnvPtr :: "nat \<Rightarrow> nat \<Rightarrow> env_user \<Rightarrow> ir_fun \<Rightarrow> (env_user \<times> ir_fun) res" where
  "createEnvPtr b envIndex u F =
     (case eu_envArray u of None \<Rightarrow> Inl Aborted
      | Some arr \<Rightarrow>
          let (p, F1) = fetchCastedEnvPtr b arr envIndex F
          in Inr (u\<lparr>eu_indexToPtr := AList.update envIndex p (eu_indexToPtr u)\<rparr>, F1))"

definition createReducableEnvPtr :: "nat \<Rightarrow> nat \<Rightarrow> ir_value \<Rightarrow> env_user \<Rightarrow> ir_fun \<Rightarrow> (env_user \<times> ir_fun) res" where
  "createReducableEnvPtr b envIndex reducerIndV u F =
     (case eu_envArray u of None \<Rightarrow> Inl Aborted
      | Some arr \<Rightarrow>
          let (envReducePtr, F1) = fetchCastedEnvPtr b arr envIndex F;
              (aligned, F2) = emit b (BinOp OpMul (IntegerTy 64) reducerIndV (Const 64 valuesInCacheLine)) F1;
              (vec, F3) = emit b (Load envReducePtr) F2;
              (envGEP, F4) = emit b (GEP 64 vec aligned) F3;
              (p, F5) = emit b (BitCast envGEP) F4
          in Inr (u\<lparr>eu_indexToPtr := AList.update envIndex p (eu_indexToPtr u)\<rparr>, F5))"

section \<open>Queries\<close>

definition getEnvArrayInt8Ptr :: "env_builder \<Rightarrow> ir_value res" where
  "getEnvArrayInt8Ptr B = (case eb_envArrayInt8Ptr B of None \<Rightarrow> Inl AssertFailed | Some p \<Rightarrow> Inr p)"

definition getEnvArray :: "env_builder \<Rightarrow> ir_value res" where
  "getEnvArray B = (case eb_envArray B of None \<Rightarrow> Inl AssertFailed | Some p \<Rightarrow> Inr p)"

definition getUser :: "nat \<Rightarrow> env_builder \<Rightarrow> env_user res" where
  "getUser user B = check (user < length (eb_users B)) OutOfRange (Inr (eb_users B ! user))"

definition getNumUsers :: "env_builder \<Rightarrow> nat" where
  "getNumUsers B = length (eb_users B)"

definition getEnvVar :: "nat \<Rightarrow> env_builder \<Rightarrow> ir_value option res" where
  "getEnvVar ind B = (case map_of (eb_indexToVar B) ind of None \<Rightarrow> Inl AssertFailed | Some p \<Rightarrow> Inr p)"

definition getAccumulatedReducableEnvVar :: "nat \<Rightarrow> env_builder \<Rightarrow> ir_value res" where
  "getAccumulatedReducableEnvVar ind B = (case map_of (eb_accumulated B) ind of None \<Rightarrow> Inl AssertFailed | Some p \<Rightarrow> Inr p)"

definition getReducableEnvVar :: "nat \<Rightarrow> nat \<Rightarrow> env_builder \<Rightarrow> ir_value res" where
  "getReducableEnvVar ind reducerInd B =
     (case map_of (eb_reducable B) ind of None \<Rightarrow> Inl AssertFailed
      | Some ps \<Rightarrow> check (reducerInd < length ps) OutOfRange (Inr (ps ! reducerInd)))"

definition isReduced :: "nat \<Rightarrow> env_builder \<Rightarrow> bool res" where
  "isReduced ind B =
     (let isSingle = map_of (eb_indexToVar B) ind \<noteq> None; isReduce = map_of (eb_reducable B) ind \<noteq> None
      in check (isSingle \<or> isReduce) AssertFailed (Inr isReduce))"

end
