(* ===== verification/IrLemmas.thy ===== *)
theory IrLemmas
  imports IrCode
begin

text \<open>
  Facts about generated code that the environment builder and the induction variable utilities share: what a block is after instructions have
  been inserted, which values a sequence of instructions leaves unchanged, and what the PHIs of a block do.
\<close>

section \<open>Blocks\<close>

lemma emit_eq: "ir_code F b = c \<Longrightarrow> ir_nextReg F = r \<Longrightarrow>
    emit b i F = (Reg r, F\<lparr>ir_code := (ir_code F)(b := c @ [(r, i)]), ir_nextReg := Suc r\<rparr>)"
  by (simp add: emit_def)

definition with_code :: "ir_fun \<Rightarrow> nat \<Rightarrow> (nat \<times> ir_inst) list \<Rightarrow> nat \<Rightarrow> ir_fun" where
  "with_code F b c r = F\<lparr>ir_code := (ir_code F)(b := c), ir_nextReg := r\<rparr>"

lemma emit_with_code [simp]: "emit b i (with_code F b c r) = (Reg r, with_code F b (c @ [(r, i)]) (Suc r))"
  by (simp add: emit_def with_code_def)

lemma addIncoming_with_code [simp]: "addIncoming b p inc (with_code F b c r) = with_code F b (map (add_incoming p inc) c) r"
  by (simp add: addIncoming_def with_code_def)

lemma with_code_sel [simp]: "ir_code (with_code F b c r) = (ir_code F)(b := c)" "ir_nextReg (with_code F b c r) = r"
  "ir_nextBlock (with_code F b c r) = ir_nextBlock F"
  by (simp_all add: with_code_def)

lemma add_incoming_other: "p \<noteq> Reg r \<or> \<not> isPhi i \<Longrightarrow> add_incoming p inc (r, i) = (r, i)"
  by (cases i) (auto simp: add_incoming_def)

lemma add_incoming_this [simp]: "add_incoming (Reg r) inc (r, Phi incs) = (r, Phi (incs @ [inc]))"
  by (simp add: add_incoming_def)

lemma add_incoming_rest: "(\<And>r i. (r, i) \<in> set c \<Longrightarrow> \<not> isPhi i) \<Longrightarrow> map (add_incoming p inc) c = c"
  by (rule map_idI) (metis add_incoming_other surj_pair)

section \<open>States\<close>

lemma set_reg_sel [simp]: "rs_reg (set_reg r v s) = (rs_reg s)(r := v)" "rs_mem (set_reg r v s) = rs_mem s" "rs_next (set_reg r v s) = rs_next s"
  by (simp_all add: set_reg_def)

lemma val_simps [simp]: "val s (Const w c) = VInt (take_bit w (int c))" "val s (Reg r) = rs_reg s r"
  by (simp_all add: val_def)

definition older :: "nat \<Rightarrow> ir_value \<Rightarrow> bool" where
  "older r v \<longleftrightarrow> (case v of Reg x \<Rightarrow> x < r | _ \<Rightarrow> True)"

definition same_before :: "nat \<Rightarrow> rt_state \<Rightarrow> rt_state \<Rightarrow> bool" where
  "same_before r s t \<longleftrightarrow> rs_mem t = rs_mem s \<and> rs_next t = rs_next s \<and> (\<forall>x < r. rs_reg t x = rs_reg s x)"

lemma older_Suc: "older r v \<Longrightarrow> older (r + 1) v"
  by (auto simp: older_def split: ir_value.splits)

lemma same_before_val: "same_before r s t \<Longrightarrow> older r v \<Longrightarrow> val t v = val s v"
  by (auto simp: same_before_def older_def val_def split: ir_value.splits)

lemma exec_phis:
  assumes "distinct (map fst cs)" and "\<And>r i. (r, i) \<in> set cs \<Longrightarrow> phi_value s prev i = Some (w r)"
  shows "\<exists>t'. foldE (exec_phi s prev) cs t = Inr t' \<and> rs_mem t' = rs_mem t \<and> rs_next t' = rs_next t \<and>
    (\<forall>r. rs_reg t' r = (if r \<in> fst ` set cs then w r else rs_reg t r))"
  using assms
proof (induction cs arbitrary: t)
  case (Cons c cs)
  obtain r i where c: "c = (r, i)" by (cases c)
  have v: "phi_value s prev i = Some (w r)" using Cons.prems(2) c by simp
  obtain t' where "foldE (exec_phi s prev) cs (set_reg r (w r) t) = Inr t'" "rs_mem t' = rs_mem t" "rs_next t' = rs_next t"
    "\<forall>x. rs_reg t' x = (if x \<in> fst ` set cs then w x else rs_reg (set_reg r (w r) t) x)"
    using Cons.IH [of "set_reg r (w r) t"] Cons.prems by auto
  then show ?case using Cons.prems(1) by (intro exI [of _ t']) (auto simp: c v exec_phi_def)
qed simp

end
