(* ===== verification/EnvBuildCorrect.thy ===== *)
theory EnvBuildCorrect
  imports EnvBuild IrLemmas
begin

text \<open>
  The code that \<open>EnvBuilder::reduceLiveOutVariables\<close> generates, in closed form, and what it computes: the loop over the threads' private
  copies leaves in the accumulated register of every variable the combination of its initial value with all copies. With the tables of
  \<open>AccumulatorOpInfo\<close> this is the value of the sequential loop.
\<close>

section \<open>Emitting code\<close>

lemma foldE_nth:
  assumes "g 0 = s" and "\<And>k. k < length xs \<Longrightarrow> f (xs ! k) (g k) = Inr (g (Suc k))"
  shows "foldE f xs s = Inr (g (length xs))"
  using assms(2)
proof (induction xs rule: rev_induct)
  case (snoc x xs)
  have "f (xs ! k) (g k) = Inr (g (Suc k))" if "k < length xs" for k using snoc.prems [of k] that by (simp add: nth_append)
  then have "foldE f xs s = Inr (g (length xs))" by (rule snoc.IH)
  then show ?case using snoc.prems [of "length xs"] by (simp add: foldE_append)
qed (simp add: assms(1))

section \<open>The generated loop\<close>

text \<open>The code for \<open>n\<close> variables whose initial values, vectors, operators and types are given by functions of the position. The registers
  are numbered from the induction variable \<open>iv\<close>: the PHIs, four registers for each private copy, the combinations, the next value
  of the induction variable.\<close>

definition red_phi :: "nat \<Rightarrow> nat \<Rightarrow> nat \<Rightarrow> nat \<Rightarrow> (nat \<Rightarrow> ir_value) \<Rightarrow> nat \<Rightarrow> nat \<times> ir_inst" where
  "red_phi iv n bb body v j = (iv + 1 + j, Phi [(v j, bb), (Reg (iv + 1 + 5 * n + j), body)])"

definition red_load :: "nat \<Rightarrow> nat \<Rightarrow> (nat \<Rightarrow> ir_value) \<Rightarrow> nat \<Rightarrow> (nat \<times> ir_inst) list" where
  "red_load iv n base j =
     [(iv + 1 + n + 4 * j, BinOp OpMul (IntegerTy 32) (Reg iv) (Const 32 valuesInCacheLine)),
      (iv + 1 + n + 4 * j + 1, GEP 32 (base j) (Reg (iv + 1 + n + 4 * j))),
      (iv + 1 + n + 4 * j + 2, BitCast (Reg (iv + 1 + n + 4 * j + 1))),
      (iv + 1 + n + 4 * j + 3, Load (Reg (iv + 1 + n + 4 * j + 2)))]"

definition red_op :: "nat \<Rightarrow> nat \<Rightarrow> (nat \<Rightarrow> opcode) \<Rightarrow> (nat \<Rightarrow> llvm_type) \<Rightarrow> nat \<Rightarrow> nat \<times> ir_inst" where
  "red_op iv n opc ty j = (iv + 1 + 5 * n + j, BinOp (opc j) (ty j) (Reg (iv + 1 + j)) (Reg (iv + 1 + n + 4 * j + 3)))"

definition red_phis :: "nat \<Rightarrow> nat \<Rightarrow> nat \<Rightarrow> nat \<Rightarrow> (nat \<Rightarrow> ir_value) \<Rightarrow> (nat \<times> ir_inst) list" where
  "red_phis iv n bb body v = (iv, Phi [(Const 32 0, bb), (Reg (iv + 1 + 6 * n), body)]) # map (red_phi iv n bb body v) [0..<n]"

definition red_rest :: "nat \<Rightarrow> nat \<Rightarrow> (nat \<Rightarrow> ir_value) \<Rightarrow> (nat \<Rightarrow> opcode) \<Rightarrow> (nat \<Rightarrow> llvm_type) \<Rightarrow> ir_value \<Rightarrow> (nat \<times> ir_inst) list" where
  "red_rest iv n base opc ty threads = concat (map (red_load iv n base) [0..<n]) @ map (red_op iv n opc ty) [0..<n] @
     [(iv + 1 + 6 * n, BinOp OpAdd (IntegerTy 32) (Reg iv) (Const 32 1)), (iv + 1 + 6 * n + 1, ICmp ICMP_SLT 32 (Reg (iv + 1 + 6 * n)) threads)]"

definition red_body ::
  "nat \<Rightarrow> nat \<Rightarrow> nat \<Rightarrow> nat \<Rightarrow> nat \<Rightarrow> (nat \<Rightarrow> ir_value) \<Rightarrow> (nat \<Rightarrow> ir_value) \<Rightarrow> (nat \<Rightarrow> opcode) \<Rightarrow> (nat \<Rightarrow> llvm_type) \<Rightarrow> ir_value \<Rightarrow> (nat \<times> ir_inst) list" where
  "red_body iv n bb body after v base opc ty threads =
     red_phis iv n bb body v @ red_rest iv n base opc ty threads @ [(iv + 1 + 6 * n + 2, CondBr (Reg (iv + 1 + 6 * n + 1)) body after)]"

lemma rest_no_phi:
  "(r, i) \<in> set (concat (map (red_load iv n base) [0..<k])) \<Longrightarrow> \<not> isPhi i"
  "(r, i) \<in> set (map (red_op iv n opc ty) [0..<k]) \<Longrightarrow> \<not> isPhi i"
  by (auto simp: red_load_def red_op_def)

lemma map_of_updates:
  "distinct es \<Longrightarrow> k \<le> length es \<Longrightarrow> j < k \<Longrightarrow>
     map_of (fold (\<lambda>j. AList.update (es ! j) (w j)) [0..<k] al) (es ! j) = Some (w j)"
proof (induction k)
  case (Suc k)
  then show ?case
    by (cases "j = k") (auto simp: AList.update_conv' nth_eq_iff_index_eq)
qed simp

text \<open>What the method does on the record of the code.\<close>

definition accumulate_all :: "(nat \<times> ir_value) list \<Rightarrow> nat \<Rightarrow> env_builder \<Rightarrow> env_builder" where
  "accumulate_all inits r B = B\<lparr>eb_accumulated := fold (\<lambda>j. AList.update (map fst inits ! j) (Reg (r + j))) [0..<length inits] (eb_accumulated B)\<rparr>"

definition op_of :: "(nat \<rightharpoonup> opcode) \<Rightarrow> nat \<Rightarrow> opcode" where
  "op_of ops e = (case ops e of None \<Rightarrow> OpOther 0 | Some r \<Rightarrow> r)"

lemma reduce_phis:
  assumes "\<forall>(e, v) \<in> set inits. e < length (eb_envTypes B)"
  shows "foldE (reduce_phi B bb body) inits ([], with_code F body [(iv, Phi incs)] (Suc iv)) =
    Inr (map (\<lambda>j. Reg (iv + 1 + j)) [0..<length inits],
         with_code F body ((iv, Phi incs) # map (\<lambda>j. (iv + 1 + j, Phi [(snd (inits ! j), bb)])) [0..<length inits]) (iv + 1 + length inits))"
proof (rule foldE_nth)
  fix k assume k: "k < length inits"
  then have "fst (inits ! k) < length (eb_envTypes B)" using assms nth_mem by (fastforce simp: case_prod_beta)
  moreover have "map (add_incoming (Reg (iv + 1 + k)) inc) (map (\<lambda>j. (iv + 1 + j, Phi [(snd (inits ! j), bb)])) [0..<k]) =
      map (\<lambda>j. (iv + 1 + j, Phi [(snd (inits ! j), bb)])) [0..<k]" for inc
    by (rule map_idI) (auto intro!: add_incoming_other)
  ultimately show "reduce_phi B bb body (inits ! k) (map (\<lambda>j. Reg (iv + 1 + j)) [0..<k],
      with_code F body ((iv, Phi incs) # map (\<lambda>j. (iv + 1 + j, Phi [(snd (inits ! j), bb)])) [0..<k]) (iv + 1 + k)) =
    Inr (map (\<lambda>j. Reg (iv + 1 + j)) [0..<Suc k],
      with_code F body ((iv, Phi incs) # map (\<lambda>j. (iv + 1 + j, Phi [(snd (inits ! j), bb)])) [0..<Suc k]) (iv + 1 + Suc k))"
    by (simp add: reduce_phi_def case_prod_beta Let_def add_incoming_other del: map_map)
qed simp

lemma reduce_loads:
  assumes "\<And>j. j < length inits \<Longrightarrow> fst (inits ! j) < length (eb_envTypes B) \<and> map_of (eb_vector B) (fst (inits ! j)) = Some (base j)"
  shows "foldE (reduce_load B body (Reg iv)) inits ([], with_code F body c (iv + 1 + n)) =
    Inr (map (\<lambda>j. Reg (iv + 1 + n + 4 * j + 3)) [0..<length inits],
         with_code F body (c @ concat (map (red_load iv n base) [0..<length inits])) (iv + 1 + n + 4 * length inits))"
proof (rule foldE_nth)
  fix k assume "k < length inits"
  then show "reduce_load B body (Reg iv) (inits ! k) (map (\<lambda>j. Reg (iv + 1 + n + 4 * j + 3)) [0..<k],
      with_code F body (c @ concat (map (red_load iv n base) [0..<k])) (iv + 1 + n + 4 * k)) =
    Inr (map (\<lambda>j. Reg (iv + 1 + n + 4 * j + 3)) [0..<Suc k],
      with_code F body (c @ concat (map (red_load iv n base) [0..<Suc k])) (iv + 1 + n + 4 * Suc k))"
    using assms [of k] by (simp add: reduce_load_def case_prod_beta Let_def red_load_def eval_nat_numeral)
qed simp

lemma reduce_ops:
  assumes "\<And>j. j < length inits \<Longrightarrow> fst (inits ! j) < length (eb_envTypes B)"
    and "length phis = length inits" "length loads = length inits"
  shows "foldE (reduce_op ops phis loads body) inits (0, B, with_code F body c r) =
    Inr (length inits, accumulate_all inits r B,
         with_code F body (c @ map (\<lambda>j. (r + j, BinOp (op_of ops (fst (inits ! j))) (eb_envTypes B ! fst (inits ! j)) (phis ! j) (loads ! j))) [0..<length inits])
           (r + length inits))"
  unfolding accumulate_all_def
proof (rule foldE_nth [where g = "\<lambda>k. (k, B\<lparr>eb_accumulated := fold (\<lambda>j. AList.update (map fst inits ! j) (Reg (r + j))) [0..<k] (eb_accumulated B)\<rparr>,
    with_code F body (c @ map (\<lambda>j. (r + j, BinOp (op_of ops (fst (inits ! j))) (eb_envTypes B ! fst (inits ! j)) (phis ! j) (loads ! j))) [0..<k]) (r + k))"])
  fix k assume k: "k < length inits"
  then show "reduce_op ops phis loads body (inits ! k)
     (k, B\<lparr>eb_accumulated := fold (\<lambda>j. AList.update (map fst inits ! j) (Reg (r + j))) [0..<k] (eb_accumulated B)\<rparr>,
      with_code F body (c @ map (\<lambda>j. (r + j, BinOp (op_of ops (fst (inits ! j))) (eb_envTypes B ! fst (inits ! j)) (phis ! j) (loads ! j))) [0..<k]) (r + k)) =
    Inr (Suc k, B\<lparr>eb_accumulated := fold (\<lambda>j. AList.update (map fst inits ! j) (Reg (r + j))) [0..<Suc k] (eb_accumulated B)\<rparr>,
      with_code F body (c @ map (\<lambda>j. (r + j, BinOp (op_of ops (fst (inits ! j))) (eb_envTypes B ! fst (inits ! j)) (phis ! j) (loads ! j))) [0..<Suc k]) (r + Suc k))"
    using assms(1) [OF k] assms(2,3) by (simp add: reduce_op_def case_prod_beta Let_def op_of_def)
qed simp

lemma reduce_fixes:
  assumes acc: "\<And>j. j < length inits \<Longrightarrow> map_of (eb_accumulated B) (fst (inits ! j)) = Some (Reg (a + j))"
    and rest: "\<And>r i. (r, i) \<in> set rest \<Longrightarrow> \<not> isPhi i"
  shows "foldE (reduce_fix B (map (\<lambda>j. Reg (iv + 1 + j)) [0..<length inits]) body) inits
      (0, with_code F body ((iv, Phi incs) # map (\<lambda>j. (iv + 1 + j, Phi [(v j, bb)])) [0..<length inits] @ rest) r) =
    Inr (length inits, with_code F body ((iv, Phi incs) # map (\<lambda>j. (iv + 1 + j, Phi [(v j, bb), (Reg (a + j), body)])) [0..<length inits] @ rest) r)"
proof -
  let ?n = "length inits"
  let ?g = "\<lambda>k. (k, with_code F body ((iv, Phi incs) #
     map (\<lambda>j. (iv + 1 + j, Phi ((v j, bb) # (if j < k then [(Reg (a + j), body)] else [])))) [0..<?n] @ rest) r)"
  have "foldE (reduce_fix B (map (\<lambda>j. Reg (iv + 1 + j)) [0..<?n]) body) inits
      (0, with_code F body ((iv, Phi incs) # map (\<lambda>j. (iv + 1 + j, Phi [(v j, bb)])) [0..<?n] @ rest) r) = Inr (?g ?n)"
  proof (rule foldE_nth [where g = ?g])
    fix k assume k: "k < ?n"
    have m: "map (add_incoming (Reg (iv + 1 + k)) (Reg (a + k), body))
         (map (\<lambda>j. (iv + 1 + j, Phi ((v j, bb) # (if j < k then [(Reg (a + j), body)] else [])))) [0..<?n]) =
       map (\<lambda>j. (iv + 1 + j, Phi ((v j, bb) # (if j < Suc k then [(Reg (a + j), body)] else [])))) [0..<?n]"
      by (auto simp: add_incoming_def)
    show "reduce_fix B (map (\<lambda>j. Reg (iv + 1 + j)) [0..<?n]) body (inits ! k) (?g k) = Inr (?g (Suc k))"
      using k acc [OF k] m by (simp add: reduce_fix_def case_prod_beta add_incoming_other add_incoming_rest [OF rest] del: map_map)
  qed simp
  moreover have "map (\<lambda>j. (iv + 1 + j, Phi ((v j, bb) # (if j < ?n then [(Reg (a + j), body)] else [])))) [0..<?n] =
      map (\<lambda>j. (iv + 1 + j, Phi [(v j, bb), (Reg (a + j), body)])) [0..<?n]" by simp
  ultimately show ?thesis by (simp only:)
qed


lemma map_of_accumulate_all:
  assumes "distinct (map fst inits)" "j < length inits"
  shows "map_of (eb_accumulated (accumulate_all inits r B)) (fst (inits ! j)) = Some (Reg (r + j))"
  using map_of_updates [of "map fst inits" "length inits" j "\<lambda>j. Reg (r + j)" "eb_accumulated B"] assms
  by (simp add: accumulate_all_def)

definition reduction_fun :: "nat \<Rightarrow> (nat \<rightharpoonup> opcode) \<Rightarrow> (nat \<times> ir_value) list \<Rightarrow> ir_value \<Rightarrow> (nat \<Rightarrow> ir_value) \<Rightarrow> env_builder \<Rightarrow> ir_fun \<Rightarrow> ir_fun" where
  "reduction_fun bb ops inits threads base B F =
     (let n = length inits; iv = ir_nextReg F + 1; body = ir_nextBlock F; after = body + 1
      in \<lparr>ir_code = (ir_code F)(bb := filter (\<lambda>(_, i). \<not> isTerminator i) (ir_code F bb) @ [(ir_nextReg F, Br body)],
           body := red_body iv n bb body after (\<lambda>j. snd (inits ! j)) base
             (\<lambda>j. op_of ops (fst (inits ! j))) (\<lambda>j. eb_envTypes B ! fst (inits ! j)) threads,
           after := []),
          ir_nextReg = iv + 1 + 6 * n + 3, ir_nextBlock = after + 1\<rparr>)"

lemma reduceLiveOutVariables_code:
  assumes ne: "inits \<noteq> []" and d: "distinct (map fst inits)" and bb: "bb < ir_nextBlock F"
    and ty: "\<And>j. j < length inits \<Longrightarrow> fst (inits ! j) < length (eb_envTypes B)"
    and vec: "\<And>j. j < length inits \<Longrightarrow> map_of (eb_vector B) (fst (inits ! j)) = Some (base j)"
  shows "reduceLiveOutVariables bb ops inits threads B F =
    Inr (ir_nextBlock F + 1, accumulate_all inits (ir_nextReg F + 2 + 5 * length inits) B, reduction_fun bb ops inits threads base B F)"
proof -
  define n iv body where "n = length inits" and "iv = ir_nextReg F + 1" and "body = ir_nextBlock F"
  define G where "G = \<lparr>ir_code = (ir_code F)(body := [], Suc body := [], bb := filter (\<lambda>(_, i). \<not> isTerminator i) (ir_code F bb) @ [(ir_nextReg F, Br body)]),
     ir_nextReg = iv, ir_nextBlock = Suc (Suc body)\<rparr>"
  have t: "\<forall>(e, v) \<in> set inits. e < length (eb_envTypes B)" using ty by (metis (mono_tags, lifting) case_prodI2 fst_conv in_set_conv_nth)
  have G: "G = with_code G body [] iv" using bb by (auto simp: with_code_def G_def body_def fun_eq_iff)
  let ?c1 = "(iv, Phi [(Const 32 0, bb)]) # map (\<lambda>j. (iv + 1 + j, Phi [(snd (inits ! j), bb)])) [0..<length inits]"
  let ?phis = "map (\<lambda>j. Reg (iv + 1 + j)) [0..<length inits]"
  let ?loads = "map (\<lambda>j. Reg (iv + 1 + n + 4 * j + 3)) [0..<length inits]"
  let ?a = "iv + 1 + n + 4 * length inits"
  note P = reduce_phis [OF t, where bb = bb and body = body and iv = iv and incs = "[(Const 32 0, bb)]" and F = G]
  have L: "foldE (reduce_load B body (Reg iv)) inits ([], with_code G body ?c1 (iv + 1 + length inits)) = Inr (?loads,
      with_code G body (?c1 @ concat (map (red_load iv n base) [0..<length inits])) ?a)"
    unfolding n_def by (rule reduce_loads) (use ty vec in blast)
  let ?B = "accumulate_all inits ?a B"
  let ?ops = "map (red_op iv n (\<lambda>j. op_of ops (fst (inits ! j))) (\<lambda>j. eb_envTypes B ! fst (inits ! j))) [0..<length inits]"
  have ops: "map (\<lambda>j. (?a + j, BinOp (op_of ops (fst (inits ! j))) (eb_envTypes B ! fst (inits ! j)) (?phis ! j) (?loads ! j))) [0..<length inits] = ?ops"
    by (rule map_cong) (auto simp: red_op_def n_def)
  have O: "foldE (reduce_op ops ?phis ?loads body) inits (0, B, with_code G body (?c1 @ concat (map (red_load iv n base) [0..<length inits])) ?a) =
      Inr (length inits, ?B, with_code G body (?c1 @ concat (map (red_load iv n base) [0..<length inits]) @ ?ops) (?a + length inits))"
    by (subst reduce_ops) (use ty in \<open>simp_all only: ops length_map length_upt diff_zero append_assoc\<close>)
  have A: "j < length inits \<Longrightarrow> map_of (eb_accumulated ?B) (fst (inits ! j)) = Some (Reg (?a + j))" for j
    by (rule map_of_accumulate_all [OF d])
  let ?rest = "concat (map (red_load iv n base) [0..<length inits]) @ ?ops"
  have R: "\<not> isPhi i" if "(r, i) \<in> set ?rest" for r i using that rest_no_phi by (metis Un_iff set_append)
  note X = reduce_fixes [where inits = inits and B = ?B and a = ?a and rest = ?rest and body = body and iv = iv and incs = "[(Const 32 0, bb)]"
    and v = "\<lambda>j. snd (inits ! j)" and bb = bb and F = G and r = "?a + length inits", OF A R]
  have m: "map (add_incoming (Reg iv) inc) (map (\<lambda>j. (iv + 1 + j, Phi (w j))) [0..<length inits]) = map (\<lambda>j. (iv + 1 + j, Phi (w j))) [0..<length inits]" for inc w
    by (rule map_idI) (auto intro!: add_incoming_other)
  have m2: "map (add_incoming (Reg iv) inc) (concat (map (red_load iv n base) [0..<length inits])) = concat (map (red_load iv n base) [0..<length inits])" for inc
    by (rule add_incoming_rest) (rule rest_no_phi)
  have m3: "map (add_incoming (Reg iv) inc) ?ops = ?ops" for inc by (rule add_incoming_rest) (rule rest_no_phi)
  define F1 where "F1 = F\<lparr>ir_code := (ir_code F)(body := []), ir_nextBlock := Suc body\<rparr>"
  define F2 where "F2 = F1\<lparr>ir_code := (ir_code F1)(Suc body := []), ir_nextBlock := Suc (Suc body)\<rparr>"
  have 1: "createBlock F = (body, F1)" "createBlock F1 = (Suc body, F2)" by (simp_all add: createBlock_def F1_def F2_def body_def)
  have 2: "emit bb (Br body) (eraseTerminator bb F2) = (Reg (ir_nextReg F), with_code G body [] iv)"
    using bb by (subst G [symmetric]) (auto simp: emit_def eraseTerminator_def F2_def F1_def G_def iv_def body_def fun_eq_iff)
  have 3: "emit body (Phi []) (with_code G body [] iv) = (Reg iv, with_code G body [(iv, Phi [])] (Suc iv))" by simp
  have 4: "addIncoming body (Reg iv) (Const 32 0, bb) (with_code G body [(iv, Phi [])] (Suc iv)) = with_code G body [(iv, Phi [(Const 32 0, bb)])] (Suc iv)" by simp
  have "reduceLiveOutVariables bb ops inits threads B F = Inr (Suc body, ?B,
      with_code G body (red_body iv n bb body (Suc body) (\<lambda>j. snd (inits ! j)) base
             (\<lambda>j. op_of ops (fst (inits ! j))) (\<lambda>j. eb_envTypes B ! fst (inits ! j)) threads) (iv + 1 + 6 * n + 3))"
    by (simp only: reduceLiveOutVariables_def ne if_False Let_def prod.case 1 2 3 4 P L [unfolded append_Cons] O [unfolded append_Cons] andThen_Inr X)
      (simp only: emit_with_code addIncoming_with_code append_Cons append_assoc map_append list.map m m2 m3 prod.case red_body_def red_phis_def red_rest_def,
        simp add: n_def red_phi_def [abs_def] add_incoming_other add.commute add.left_commute del: upt_Suc)
  moreover have "?a = ir_nextReg F + 2 + 5 * length inits" by (simp add: n_def iv_def)
  ultimately show ?thesis
    using bb by (simp add: reduction_fun_def Let_def with_code_def G_def body_def iv_def n_def add.commute add.left_commute) (auto simp: fun_eq_iff)
qed

section \<open>Running the loop\<close>

lemma exec_loads:
  assumes "k \<le> n" and "rs_reg s iv = VInt (int i)" and "int i * 8 < 2 ^ 31"
    and "\<And>j. j < n \<Longrightarrow> older iv (base j) \<and> val s (base j) = VPtr (a j) 0"
  shows "\<exists>t. foldE (exec_inst fp) (concat (map (red_load iv n base) [0..<k])) s = Inr t \<and> same_before (iv + 1 + n) s t \<and>
    (\<forall>j < k. rs_reg t (iv + 1 + n + 4 * j + 3) = rs_mem s (a j, int (8 * i)))"
  using assms(1)
proof (induction k)
  case (Suc k)
  then obtain t where t: "foldE (exec_inst fp) (concat (map (red_load iv n base) [0..<k])) s = Inr t" "same_before (iv + 1 + n) s t"
    "\<forall>j < k. rs_reg t (iv + 1 + n + 4 * j + 3) = rs_mem s (a j, int (8 * i))" by auto
  have "older (iv + 1 + n) (base k)" using assms(4) [of k] Suc.prems by (auto simp: older_def split: ir_value.splits)
  then have b: "val t (base k) = VPtr (a k) 0" using same_before_val [OF t(2)] assms(4) [of k] Suc.prems by simp
  define r where "r = iv + 1 + n + 4 * k"
  have iv: "rs_reg t iv = VInt (int i)" using t(2) assms(2) by (simp add: same_before_def)
  have tb: "take_bit 32 (int i * 8) = int i * 8" "signed_take_bit 31 (int i * 8) = int i * 8"
    using assms(3) by (simp_all add: take_bit_int_eq_self signed_take_bit_int_eq_self)
  have b1: "val (set_reg r x t) (base k) = VPtr (a k) 0" for x
    using b assms(4) [of k] Suc.prems by (auto simp: r_def older_def val_def split: ir_value.splits)
  let ?t = "set_reg (r + 3) (rs_mem s (a k, int (8 * i))) (set_reg (r + 2) (VPtr (a k) (int i * 8))
     (set_reg (r + 1) (VPtr (a k) (int i * 8)) (set_reg r (VInt (int i * 8)) t)))"
  have code: "red_load iv n base k = [(r, BinOp OpMul (IntegerTy 32) (Reg iv) (Const 32 valuesInCacheLine)), (r + 1, GEP 32 (base k) (Reg r)),
      (r + 2, BitCast (Reg (r + 1))), (r + 3, Load (Reg (r + 2)))]" by (simp add: red_load_def r_def)
  have "foldE (exec_inst fp) (red_load iv n base k) t = Inr ?t"
    using iv b1 t(2) unfolding code by (simp add: exec_inst_def bin_def int_bin_def valuesInCacheLine_def getCacheLineBytes_def tb same_before_def mult.commute)
  moreover have "same_before (iv + 1 + n) s ?t" using t(2) by (simp add: same_before_def r_def)
  moreover have "rs_reg ?t (iv + 1 + n + 4 * j + 3) = rs_mem s (a j, int (8 * i))" if "j < Suc k" for j
    using t(3) that by (cases "j = k") (auto simp: r_def)
  ultimately show ?case using t(1) by (intro exI [of _ ?t]) (simp add: foldE_append del: set_reg_sel)
qed (simp add: same_before_def)

lemma exec_ops:
  assumes "k \<le> n" and "\<And>j. j < n \<Longrightarrow> rs_reg s (iv + 1 + j) = acc j \<and> rs_reg s (iv + 1 + n + 4 * j + 3) = c j"
  shows "\<exists>t. foldE (exec_inst fp) (map (red_op iv n opc ty) [0..<k]) s = Inr t \<and> same_before (iv + 1 + 5 * n) s t \<and>
    (\<forall>j < k. rs_reg t (iv + 1 + 5 * n + j) = bin fp (opc j) (ty j) (acc j) (c j))"
  using assms(1)
proof (induction k)
  case (Suc k)
  then obtain t where t: "foldE (exec_inst fp) (map (red_op iv n opc ty) [0..<k]) s = Inr t" "same_before (iv + 1 + 5 * n) s t"
    "\<forall>j < k. rs_reg t (iv + 1 + 5 * n + j) = bin fp (opc j) (ty j) (acc j) (c j)" by auto
  let ?t = "set_reg (iv + 1 + 5 * n + k) (bin fp (opc k) (ty k) (acc k) (c k)) t"
  have "exec_inst fp (red_op iv n opc ty k) t = Inr ?t"
    using t(2) assms(2) [of k] Suc.prems by (simp add: red_op_def exec_inst_def same_before_def)
  moreover have "same_before (iv + 1 + 5 * n) s ?t" using t(2) by (simp add: same_before_def)
  moreover have "rs_reg ?t (iv + 1 + 5 * n + j) = bin fp (opc j) (ty j) (acc j) (c j)" if "j < Suc k" for j
    using t(3) that by (cases "j = k") auto
  ultimately show ?case using t(1) by (intro exI [of _ ?t]) (simp add: foldE_append del: set_reg_sel)
qed (simp add: same_before_def)

lemma split_block:
  assumes "\<And>r i. (r, i) \<in> set ps \<Longrightarrow> isPhi i" "\<And>r i. (r, i) \<in> set qs \<Longrightarrow> \<not> isPhi i"
  shows "takeWhile (isPhi \<circ> snd) (ps @ qs) = ps" "dropWhile (isPhi \<circ> snd) (ps @ qs) = qs"
proof -
  have "takeWhile (isPhi \<circ> snd) qs = []" "dropWhile (isPhi \<circ> snd) qs = qs" using assms(2) by (cases qs; auto)+
  moreover have "\<forall>p \<in> set ps. (isPhi \<circ> snd) p" using assms(1) by auto
  ultimately show "takeWhile (isPhi \<circ> snd) (ps @ qs) = ps" "dropWhile (isPhi \<circ> snd) (ps @ qs) = qs"
    by (simp_all add: takeWhile_append2 dropWhile_append2)
qed

lemma body_once:
  assumes code: "ir_code F body = red_body iv n bb body after v base opc ty threads"
    and iv: "phi_value s prev (Phi [(Const 32 0, bb), (Reg (iv + 1 + 6 * n), body)]) = Some (VInt (int i))"
    and acc: "\<And>j. j < n \<Longrightarrow> phi_value s prev (snd (red_phi iv n bb body v j)) = Some (acc j)"
    and base: "\<And>j. j < n \<Longrightarrow> older iv (base j) \<and> val s (base j) = VPtr (a j) 0"
    and threads: "older iv threads" "val s threads = VInt (int m)" "int m < 2 ^ 31" and i: "int i * 8 < 2 ^ 31"
  shows "\<exists>s'. exec_block fp F (body, prev, s) = Inr (if Suc i < m then body else after, body, s') \<and> same_before iv s s' \<and>
    rs_reg s' (iv + 1 + 6 * n) = VInt (int (Suc i)) \<and>
    (\<forall>j < n. rs_reg s' (iv + 1 + 5 * n + j) = bin fp (opc j) (ty j) (acc j) (rs_mem s (a j, int (8 * i))))"
proof -
  let ?phis = "red_phis iv n bb body v" and ?rest = "red_rest iv n base opc ty threads"
  define w where "w = (\<lambda>r. if r = iv then VInt (int i) else acc (r - (iv + 1)))"
  have "map fst ?phis = iv # map (\<lambda>j. j + Suc iv) [0..<n]" by (simp add: red_phis_def red_phi_def comp_def)
  also have "map (\<lambda>j. j + Suc iv) [0..<n] = [Suc iv..<iv + 1 + n]" by (simp only: map_add_upt) (simp add: add.commute)
  also have "iv # [Suc iv..<iv + 1 + n] = [iv..<iv + 1 + n]" by (simp add: upt_conv_Cons del: upt_Suc)
  finally have d: "distinct (map fst ?phis)" "fst ` set ?phis = {iv..<iv + 1 + n}" by (simp_all only: distinct_upt) (metis list.set_map set_upt)
  have p: "phi_value s prev x = Some (w r)" if "(r, x) \<in> set ?phis" for r x
  proof -
    from that consider "r = iv" "x = Phi [(Const 32 0, bb), (Reg (iv + 1 + 6 * n), body)]" | j where "j < n" "(r, x) = red_phi iv n bb body v j"
      by (auto simp: red_phis_def)
    then show ?thesis
    proof cases
      case 2
      then have "r = iv + 1 + j" "x = snd (red_phi iv n bb body v j)" by (simp_all add: red_phi_def)
      with acc [OF 2(1)] show ?thesis by (simp add: w_def)
    qed (use iv in \<open>simp add: w_def\<close>)
  qed
  obtain s1 where s1: "foldE (exec_phi s prev) ?phis s = Inr s1" "rs_mem s1 = rs_mem s" "rs_next s1 = rs_next s"
    "\<forall>r. rs_reg s1 r = (if r \<in> {iv..<iv + 1 + n} then w r else rs_reg s r)"
    using exec_phis [OF d(1), where w = w and s = s and prev = prev and t = s, OF p] d(2) by auto
  have before1: "same_before iv s s1" using s1 by (simp add: same_before_def)
  have r1: "rs_reg s1 iv = VInt (int i)" "\<And>j. j < n \<Longrightarrow> rs_reg s1 (iv + 1 + j) = acc j" using s1(4) by (simp_all add: w_def)
  have b1: "older iv (base j) \<and> val s1 (base j) = VPtr (a j) 0" if "j < n" for j
    using base [OF that] same_before_val [OF before1] by simp
  obtain s2 where s2: "foldE (exec_inst fp) (concat (map (red_load iv n base) [0..<n])) s1 = Inr s2" "same_before (iv + 1 + n) s1 s2"
    "\<forall>j < n. rs_reg s2 (iv + 1 + n + 4 * j + 3) = rs_mem s1 (a j, int (8 * i))"
    using exec_loads [where k = n and n = n and base = base and a = a and fp = fp, OF order_refl r1(1) i b1] by blast
  have r2: "rs_reg s2 (iv + 1 + j) = acc j \<and> rs_reg s2 (iv + 1 + n + 4 * j + 3) = rs_mem s1 (a j, int (8 * i))" if "j < n" for j
    using s2(2,3) r1(2) that by (simp add: same_before_def)
  obtain s3 where s3: "foldE (exec_inst fp) (map (red_op iv n opc ty) [0..<n]) s2 = Inr s3" "same_before (iv + 1 + 5 * n) s2 s3"
    "\<forall>j < n. rs_reg s3 (iv + 1 + 5 * n + j) = bin fp (opc j) (ty j) (acc j) (rs_mem s1 (a j, int (8 * i)))"
    using exec_ops [where k = n and n = n and s = s2 and iv = iv and acc = acc and c = "\<lambda>j. rs_mem s1 (a j, int (8 * i))" and fp = fp and opc = opc and ty = ty, OF order_refl r2] by blast
  have b3: "same_before iv s s3" using before1 s2(2) s3(2) by (simp add: same_before_def)
  have iv3: "rs_reg s3 iv = VInt (int i)" using r1(1) s2(2) s3(2) by (simp add: same_before_def)
  let ?u = "iv + 1 + 6 * n"
  let ?s = "set_reg (?u + 1) (VInt (if Suc i < m then 1 else 0)) (set_reg ?u (VInt (int (Suc i))) s3)"
  have tb: "take_bit 32 (1 + int i) = 1 + int i" "signed_take_bit 31 (1 + int i) = 1 + int i" "signed_take_bit 31 (int m) = int m"
    using i threads(3) by (simp_all add: take_bit_int_eq_self signed_take_bit_int_eq_self)
  have t3: "val (set_reg ?u x s3) threads = VInt (int m)" for x
    using same_before_val [OF b3 threads(1)] threads(1,2) by (auto simp: older_def val_def split: ir_value.splits)
  have "foldE (exec_inst fp) [(?u, BinOp OpAdd (IntegerTy 32) (Reg iv) (Const 32 1)), (?u + 1, ICmp ICMP_SLT 32 (Reg ?u) threads)] s3 = Inr ?s"
    using iv3 t3 by (simp add: exec_inst_def icmp_def bin_def int_bin_def tb add.commute)
  then have rest: "foldE (exec_inst fp) ?rest s1 = Inr ?s"
    unfolding red_rest_def by (simp add: foldE_append s2(1) s3(1) del: foldE.simps)
  have "isPhi x" if "(r, x) \<in> set ?phis" for r x using that by (auto simp: red_phis_def red_phi_def)
  moreover have "\<not> isPhi x" if "(r, x) \<in> set ?rest" for r x
    using that rest_no_phi(1) [of r x iv n base n] rest_no_phi(2) [of r x iv n opc ty n] by (auto simp: red_rest_def)
  ultimately have sp: "takeWhile (isPhi \<circ> snd) (?phis @ ?rest) = ?phis" "dropWhile (isPhi \<circ> snd) (?phis @ ?rest) = ?rest"
    using split_block [of ?phis ?rest] by blast+
  let ?jump = "(?u + 2, CondBr (Reg (?u + 1)) body after)"
  have c: "ir_code F body = (?phis @ ?rest) @ [?jump]" unfolding code red_body_def by simp
  then have "ir_code F body \<noteq> []" "butlast (ir_code F body) = ?phis @ ?rest" "last (ir_code F body) = ?jump" by (simp_all only: butlast_snoc last_snoc) simp
  then have "exec_block fp F (body, prev, s) =
     andThen (foldE (exec_phi s prev) ?phis s) (\<lambda>s1. andThen (foldE (exec_inst fp) ?rest s1) (\<lambda>s2.
       andThen (exec_terminator (snd ?jump) s2) (\<lambda>next. Inr (next, body, s2))))"
    unfolding exec_block_def using sp by (cases "ir_code F body") (simp_all del: butlast.simps last.simps)
  then have "exec_block fp F (body, prev, s) = Inr (if Suc i < m then body else after, body, ?s)"
    by (simp add: s1(1) rest exec_terminator_def)
  moreover have "same_before iv s ?s" using b3 by (simp add: same_before_def)
  moreover have "rs_reg ?s ?u = VInt (int (Suc i))" by simp
  moreover have "\<forall>j < n. rs_reg ?s (iv + 1 + 5 * n + j) = bin fp (opc j) (ty j) (acc j) (rs_mem s (a j, int (8 * i)))"
    using s3(3) s1(2) by simp
  ultimately show ?thesis by blast
qed

text \<open>The accumulated value of variable \<open>j\<close> after \<open>i\<close> private copies.\<close>

definition combined :: "float_ops \<Rightarrow> opcode \<Rightarrow> llvm_type \<Rightarrow> rt_val \<Rightarrow> (nat \<Rightarrow> rt_val) \<Rightarrow> nat \<Rightarrow> rt_val" where
  "combined fp opc ty x copy i = foldl (bin fp opc ty) x (map copy [0..<i])"

lemma combined_simps [simp]: "combined fp opc ty x copy 0 = x"
  "combined fp opc ty x copy (Suc i) = bin fp opc ty (combined fp opc ty x copy i) (copy i)"
  by (simp_all add: combined_def)

lemma red_loop:
  fixes fp :: float_ops and v :: "nat \<Rightarrow> ir_value"
  assumes code: "ir_code F body = red_body iv n bb body after v base opc ty threads"
    and bb: "bb \<noteq> body" "after \<noteq> body"
    and base: "\<And>j. j < n \<Longrightarrow> older iv (base j) \<and> val s (base j) = VPtr (a j) 0"
    and threads: "older iv threads" "val s threads = VInt (int m)" and m: "1 \<le> m" "int m * 8 \<le> 2 ^ 31"
  defines "res \<equiv> \<lambda>j i. combined fp (opc j) (ty j) (val s (v j)) (\<lambda>i. rs_mem s (a j, int (8 * i))) i"
  shows "\<exists>s'. run_to fp F after (body, bb, s) = Inr (after, body, s') \<and> same_before iv s s' \<and>
    (\<forall>j < n. rs_reg s' (iv + 1 + 5 * n + j) = res j m)"
proof -
  have once: "\<exists>t'. exec_block fp F (body, prev, t) = Inr (if Suc i < m then body else after, body, t') \<and> same_before iv s t' \<and>
      rs_reg t' (iv + 1 + 6 * n) = VInt (int (Suc i)) \<and> (\<forall>j < n. rs_reg t' (iv + 1 + 5 * n + j) = res j (Suc i))"
    if t: "same_before iv s t" "i < m" and iv: "phi_value t prev (Phi [(Const 32 0, bb), (Reg (iv + 1 + 6 * n), body)]) = Some (VInt (int i))"
      and acc: "\<And>j. j < n \<Longrightarrow> phi_value t prev (snd (red_phi iv n bb body v j)) = Some (res j i)" for t prev i
  proof -
    have b: "older iv (base j) \<and> val t (base j) = VPtr (a j) 0" if "j < n" for j using base [OF that] same_before_val [OF t(1)] by simp
    have th: "val t threads = VInt (int m)" using threads same_before_val [OF t(1)] by simp
    have lim: "int m < 2 ^ 31" "int i * 8 < 2 ^ 31" using m t(2) by linarith+
    obtain t' where t': "exec_block fp F (body, prev, t) = Inr (if Suc i < m then body else after, body, t')" "same_before iv t t'"
      "rs_reg t' (iv + 1 + 6 * n) = VInt (int (Suc i))"
      "\<forall>j < n. rs_reg t' (iv + 1 + 5 * n + j) = bin fp (opc j) (ty j) (res j i) (rs_mem t (a j, int (8 * i)))"
      using body_once [where acc = "\<lambda>j. res j i", OF code iv acc b threads(1) th lim, of fp] by blast
    have "rs_mem t = rs_mem s" using t(1) by (simp add: same_before_def)
    then have "\<forall>j < n. rs_reg t' (iv + 1 + 5 * n + j) = res j (Suc i)" using t'(4) by (simp add: res_def)
    moreover have "same_before iv s t'" using t(1) t'(2) by (simp add: same_before_def)
    ultimately show ?thesis using t'(1,3) by blast
  qed
  have loop: "\<exists>s'. run_to fp F after (body, body, t) = Inr (after, body, s') \<and> same_before iv s s' \<and> (\<forall>j < n. rs_reg s' (iv + 1 + 5 * n + j) = res j m)"
    if "i < m" "same_before iv s t" "rs_reg t (iv + 1 + 6 * n) = VInt (int i)" "\<forall>j < n. rs_reg t (iv + 1 + 5 * n + j) = res j i" for i t
    using that
  proof (induction "m - i" arbitrary: i t)
    case (Suc k)
    have p: "phi_value t body (Phi [(Const 32 0, bb), (Reg (iv + 1 + 6 * n), body)]) = Some (VInt (int i))"
      using Suc.prems(3) bb by (simp add: phi_value_def)
    have q: "j < n \<Longrightarrow> phi_value t body (snd (red_phi iv n bb body v j)) = Some (res j i)" for j
      using Suc.prems(4) bb by (simp add: phi_value_def red_phi_def)
    obtain t' where t': "exec_block fp F (body, body, t) = Inr (if Suc i < m then body else after, body, t')" "same_before iv s t'"
      "rs_reg t' (iv + 1 + 6 * n) = VInt (int (Suc i))" "\<forall>j < n. rs_reg t' (iv + 1 + 5 * n + j) = res j (Suc i)"
      using once [OF Suc.prems(2,1) p q] by blast
    have step: "run_to fp F after (body, body, t) = run_to fp F after (if Suc i < m then body else after, body, t')"
      unfolding run_to_def by (rule whileE_step) (use bb t'(1) in auto)
    show ?case
    proof (cases "Suc i < m")
      case True
      with Suc.hyps(1) [OF _ True t'(2,3,4)] Suc.hyps(2) step show ?thesis by simp
    next
      case False
      with Suc.prems(1) have "m = Suc i" by simp
      with False step t'(2,4) show ?thesis by (intro exI [of _ t']) (simp add: run_to_def whileE_done)
    qed
  qed simp
  have s: "same_before iv s s" by (simp add: same_before_def)
  have p: "phi_value s bb (Phi [(Const 32 0, bb), (Reg (iv + 1 + 6 * n), body)]) = Some (VInt (int 0))" by (simp add: phi_value_def)
  have q: "j < n \<Longrightarrow> phi_value s bb (snd (red_phi iv n bb body v j)) = Some (res j 0)" for j by (simp add: phi_value_def red_phi_def res_def)
  obtain t' where t': "exec_block fp F (body, bb, s) = Inr (if Suc 0 < m then body else after, body, t')" "same_before iv s t'"
    "rs_reg t' (iv + 1 + 6 * n) = VInt (int (Suc 0))" "\<forall>j < n. rs_reg t' (iv + 1 + 5 * n + j) = res j (Suc 0)"
    using once [OF s _ p q] m(1) by auto
  have step: "run_to fp F after (body, bb, s) = run_to fp F after (if Suc 0 < m then body else after, body, t')"
    unfolding run_to_def by (rule whileE_step) (use bb t'(1) in auto)
  show ?thesis
  proof (cases "Suc 0 < m")
    case True
    with loop [OF True t'(2,3,4)] step show ?thesis by simp
  next
    case False
    with m(1) have "m = Suc 0" by simp
    with False step t'(2,4) show ?thesis by (intro exI [of _ t']) (simp add: run_to_def whileE_done)
  qed
qed

section \<open>The reduction\<close>

text \<open>C25: The code that reduces the live-out variables. For one or more threads (few enough that the offsets are not negative in 32 bits) the generated
  loop ends at the block that the method returns; memory and the caller's registers are as they were; and the accumulated register of
  each variable holds its initial value combined, by the operator for it and in the order of the threads, with every private copy, where
  the copy of thread \<open>i\<close> is the slot \<open>8 * i\<close> of the variable's vector.\<close>

theorem reduce_live_outs:
  fixes fp :: float_ops
  assumes "inits \<noteq> []" and "distinct (map fst inits)" and "bb < ir_nextBlock F" and "\<forall>e \<in> fst ` set inits. e < length (eb_envTypes B)"
    and "\<forall>e \<in> fst ` set inits. \<exists>p. map_of (eb_vector B) e = Some p \<and> older (ir_nextReg F) p \<and> val s p = VPtr (vec e) 0"
    and "older (ir_nextReg F) threads" and "val s threads = VInt (int m)" and "1 \<le> m" and "int m * 8 \<le> 2 ^ 31"
  shows "\<exists>body after B' F' s'. reduceLiveOutVariables bb ops inits threads B F = Inr (after, B', F') \<and>
    exec_terminator (snd (last (ir_code F' bb))) s = Inr body \<and> run_to fp F' after (body, bb, s) = Inr (after, body, s') \<and>
    same_before (ir_nextReg F) s s' \<and>
    (\<forall>(e, x) \<in> set inits. \<exists>p. getAccumulatedReducableEnvVar e B' = Inr p \<and>
       val s' p = combined fp (op_of ops e) (eb_envTypes B ! e) (val s x) (\<lambda>i. rs_mem s (vec e, int (8 * i))) m)"
proof -
  define iv where "iv = ir_nextReg F + 1"
  let ?n = "length inits" and ?e = "\<lambda>j. fst (inits ! j)" and ?body = "ir_nextBlock F" and ?after = "ir_nextBlock F + 1"
  define base where "base = (\<lambda>j. the (map_of (eb_vector B) (?e j)))"
  have e: "?e j \<in> fst ` set inits" if "j < ?n" for j using that by simp
  have ty: "?e j < length (eb_envTypes B)" if "j < ?n" for j using assms(4) e [OF that] by blast
  have base: "map_of (eb_vector B) (?e j) = Some (base j)" "older iv (base j) \<and> val s (base j) = VPtr (vec (?e j)) 0" if "j < ?n" for j
    using bspec [OF assms(5) e [OF that]] by (elim exE conjE; simp add: base_def iv_def older_Suc [simplified])+
  have th: "older iv threads" using older_Suc [OF assms(6)] by (simp add: iv_def)
  let ?F = "reduction_fun bb ops inits threads base B F" and ?B = "accumulate_all inits (ir_nextReg F + 2 + 5 * ?n) B"
  have code: "ir_code ?F ?body = red_body iv ?n bb ?body ?after (\<lambda>j. snd (inits ! j)) base (\<lambda>j. op_of ops (?e j)) (\<lambda>j. eb_envTypes B ! ?e j) threads"
    using assms(3) by (simp add: reduction_fun_def Let_def iv_def)
  obtain s' where s': "run_to fp ?F ?after (?body, bb, s) = Inr (?after, ?body, s')" "same_before iv s s'"
    "\<forall>j < ?n. rs_reg s' (iv + 1 + 5 * ?n + j) =
       combined fp (op_of ops (?e j)) (eb_envTypes B ! ?e j) (val s (snd (inits ! j))) (\<lambda>i. rs_mem s (vec (?e j), int (8 * i))) m"
    using red_loop [OF code _ _ base(2) th assms(7,8,9), of fp] assms(3) by auto
  have "reduceLiveOutVariables bb ops inits threads B F = Inr (?after, ?B, ?F)"
    by (rule reduceLiveOutVariables_code [OF assms(1,2,3) ty base(1)])
  moreover have "exec_terminator (snd (last (ir_code ?F bb))) s = Inr ?body"
    using assms(3) by (simp add: reduction_fun_def Let_def exec_terminator_def)
  moreover have "same_before (ir_nextReg F) s s'" using s'(2) by (simp add: same_before_def iv_def)
  moreover have "\<exists>p. getAccumulatedReducableEnvVar e ?B = Inr p \<and>
      val s' p = combined fp (op_of ops e) (eb_envTypes B ! e) (val s x) (\<lambda>i. rs_mem s (vec e, int (8 * i))) m" if ex: "(e, x) \<in> set inits" for e x
  proof -
    obtain j where j: "j < ?n" "inits ! j = (e, x)" using ex by (auto simp: in_set_conv_nth)
    have "map_of (eb_accumulated ?B) e = Some (Reg (ir_nextReg F + 2 + 5 * ?n + j))"
      using map_of_accumulate_all [OF assms(2) j(1), of "ir_nextReg F + 2 + 5 * ?n" B] j(2) by simp
    then show ?thesis using s'(3) j by (auto simp: getAccumulatedReducableEnvVar_def iv_def)
  qed
  ultimately show ?thesis using s'(1) by blast
qed

lemma bin_integer:
  fixes x y :: "'w::len word"
  assumes "r \<in> {OpAdd, OpMul, OpOr, OpAnd}"
  shows "bin fp r (IntegerTy LENGTH('w)) (VInt (uint x)) (VInt (uint y)) = VInt (uint (int_op r x y))"
proof -
  have t: "take_bit LENGTH('w) (uint z) = uint z" for z :: "'w word" by (rule take_bit_int_eq_self) simp_all
  have "uint x OR uint y = uint (x OR y)" "uint x AND uint y = uint (x AND y)" by (simp_all only: unsigned_or_eq unsigned_and_eq)
  then show ?thesis using assms by (auto simp: bin_def int_bin_def int_op_def t uint_word_ariths take_bit_eq_mod simp del: unsigned_or_eq)
qed

lemma combined_integer:
  fixes x :: "'w::len word"
  assumes "r \<in> {OpAdd, OpMul, OpOr, OpAnd}" and "\<And>i. i < length ys \<Longrightarrow> copy i = VInt (uint (ys ! i))"
  shows "combined fp r (IntegerTy LENGTH('w)) (VInt (uint x)) copy (length ys) = VInt (uint (foldl (int_op r) x ys))"
  using assms(2)
proof (induction ys rule: rev_induct)
  case (snoc y ys)
  have "combined fp r (IntegerTy LENGTH('w)) (VInt (uint x)) copy (length ys) = VInt (uint (foldl (int_op r) x ys))"
    using snoc.prems by (intro snoc.IH) (metis append_same_eq length_append_singleton less_SucI nth_append)
  moreover have "copy (length ys) = VInt (uint y)" using snoc.prems [of "length ys"] by simp
  ultimately show ?case by (simp add: bin_integer [OF assms(1)])
qed simp


text \<open>A variable of 32 bits with the initial value 5, and two threads.\<close>

definition one_variable :: env_builder where
  "one_variable = EnvBuilder_of\<lparr>eb_envTypes := [IntegerTy 32], eb_vector := [(0, Reg 0)]\<rparr>"

definition caller :: ir_fun where
  "caller = \<lparr>ir_code = (\<lambda>_. []), ir_nextReg = 2, ir_nextBlock = 1\<rparr>"

definition two_copies :: "32 word \<Rightarrow> 32 word \<Rightarrow> rt_state" where
  "two_copies x y = \<lparr>rs_reg = (\<lambda>_. VInt 2)(0 := VPtr 0 0), rs_mem = (\<lambda>_. VInt (uint x))((0, 8) := VInt (uint y)), rs_next = 1\<rparr>"

theorem reduce_live_outs_witness:
  "\<exists>body after B' F' s' p. reduceLiveOutVariables 0 (map_of [(0, OpMul)]) [(0, Const 32 5)] (Reg 1) one_variable caller = Inr (after, B', F') \<and>
     run_to undefined F' after (body, 0, two_copies 3 4) = Inr (after, body, s') \<and>
     getAccumulatedReducableEnvVar 0 B' = Inr p \<and> val s' p = VInt 60"
proof -
  have e: "[(0 :: nat, Const 32 5)] \<noteq> []" "distinct (map fst [(0 :: nat, Const 32 5)])" "0 < ir_nextBlock caller"
    "\<forall>e \<in> fst ` set [(0, Const 32 5)]. e < length (eb_envTypes one_variable)"
    "\<forall>e \<in> fst ` set [(0, Const 32 5)]. \<exists>p. map_of (eb_vector one_variable) e = Some p \<and> older (ir_nextReg caller) p \<and>
       val (two_copies 3 4) p = VPtr ((\<lambda>_. 0) e) 0"
    "older (ir_nextReg caller) (Reg 1)" "val (two_copies 3 4) (Reg 1) = VInt (int 2)" "(1 :: nat) \<le> 2" "int 2 * 8 \<le> 2 ^ 31"
    by (simp_all add: caller_def one_variable_def two_copies_def older_def)
  have c: "combined undefined (op_of (map_of [(0, OpMul)]) 0) (eb_envTypes one_variable ! 0) (val (two_copies 3 4) (Const 32 5))
      (\<lambda>i. rs_mem (two_copies 3 4) (0, int (8 * i))) 2 = VInt 60"
    by (simp add: op_of_def one_variable_def two_copies_def combined_def bin_def int_bin_def upt_rec)
  show ?thesis using reduce_live_outs [where ops = "map_of [(0, OpMul)]" and fp = undefined and vec = "\<lambda>_. 0", OF e] c by (simp only: list.set) force
qed


end
