(* ===== verification/EnvLayout.thy ===== *)
theory EnvLayout
  imports EnvBuildCorrect
begin

text \<open>
  Where the variables of the environment are in memory: what the code of \<open>generateEnvArray\<close> and \<open>generateEnvVariables\<close> leaves behind when the
  caller runs it, and what the pointers are that \<open>createEnvPtr\<close> and \<open>createReducableEnvPtr\<close> compute in the tasks. Every method appends
  to a block; \<open>runs\<close> says what the block, as far as it is generated, does, so the code and the state that it reaches are followed together.
\<close>

section \<open>Generating and running\<close>

definition runs :: "float_ops \<Rightarrow> nat \<Rightarrow> rt_state \<Rightarrow> ir_fun \<Rightarrow> rt_state \<Rightarrow> bool" where
  "runs fp b s F t \<longleftrightarrow> foldE (exec_inst fp) (ir_code F b) s = Inr t"

definition grows :: "ir_fun \<Rightarrow> rt_state \<Rightarrow> ir_fun \<Rightarrow> rt_state \<Rightarrow> bool" where
  "grows F t F' t' \<longleftrightarrow> ir_nextReg F \<le> ir_nextReg F' \<and> (\<forall>x < ir_nextReg F. rs_reg t' x = rs_reg t x)"

text \<open>A value that is available and points to a slot.\<close>

definition points :: "ir_fun \<Rightarrow> rt_state \<Rightarrow> ir_value \<Rightarrow> nat \<Rightarrow> int \<Rightarrow> bool" where
  "points F t v a k \<longleftrightarrow> older (ir_nextReg F) v \<and> val t v = VPtr a k"

lemma grows_refl [simp]: "grows F t F t"
  by (simp add: grows_def)

lemma grows_trans: "grows F t F' t' \<Longrightarrow> grows F' t' F'' t'' \<Longrightarrow> grows F t F'' t''"
  by (auto simp: grows_def)

lemma points_grows: "grows F t F' t' \<Longrightarrow> points F t v a k \<Longrightarrow> points F' t' v a k"
  by (auto simp: grows_def points_def older_def val_def split: ir_value.splits)

lemma emit_runs:
  assumes "runs fp b s F t" and "exec_inst fp (ir_nextReg F, i) t = Inr t'" and "\<And>x. x < ir_nextReg F \<Longrightarrow> rs_reg t' x = rs_reg t x"
  shows "\<exists>F'. emit b i F = (Reg (ir_nextReg F), F') \<and> runs fp b s F' t' \<and> grows F t F' t' \<and> ir_nextReg F' = Suc (ir_nextReg F)"
  using assms by (auto simp: emit_def runs_def foldE_append grows_def)

lemma emit_gep:
  assumes "runs fp b s F t" and "val t arr = VPtr a k" and "val t x = VInt d" and "signed_take_bit 63 d = d"
  shows "\<exists>p F' t'. emit b (GEP 64 arr x) F = (p, F') \<and> runs fp b s F' t' \<and> grows F t F' t' \<and> points F' t' p a (k + d) \<and> rs_mem t' = rs_mem t \<and> rs_next t' = rs_next t"
proof -
  have "exec_inst fp (ir_nextReg F, GEP 64 arr x) t = Inr (set_reg (ir_nextReg F) (VPtr a (k + d)) t)"
    using assms by (simp add: exec_inst_def)
  from emit_runs [OF assms(1) this] obtain F' where "emit b (GEP 64 arr x) F = (Reg (ir_nextReg F), F')" "runs fp b s F' (set_reg (ir_nextReg F) (VPtr a (k + d)) t)" "grows F t F' (set_reg (ir_nextReg F) (VPtr a (k + d)) t)"
    "ir_nextReg F' = Suc (ir_nextReg F)" by auto
  then show ?thesis by (intro exI [of _ "Reg (ir_nextReg F)"] exI [of _ F'] exI [of _ "set_reg (ir_nextReg F) (VPtr a (k + d)) t"]) (simp add: points_def older_def)
qed

lemma emit_bitcast:
  assumes "runs fp b s F t" and "val t v = VPtr a k"
  shows "\<exists>p F' t'. emit b (BitCast v) F = (p, F') \<and> runs fp b s F' t' \<and> grows F t F' t' \<and> points F' t' p a k \<and> rs_mem t' = rs_mem t \<and> rs_next t' = rs_next t"
proof -
  have "exec_inst fp (ir_nextReg F, BitCast v) t = Inr (set_reg (ir_nextReg F) (VPtr a k) t)"
    using assms by (simp add: exec_inst_def)
  from emit_runs [OF assms(1) this] obtain F' where "emit b (BitCast v) F = (Reg (ir_nextReg F), F')" "runs fp b s F' (set_reg (ir_nextReg F) (VPtr a k) t)" "grows F t F' (set_reg (ir_nextReg F) (VPtr a k) t)"
    "ir_nextReg F' = Suc (ir_nextReg F)" by auto
  then show ?thesis by (intro exI [of _ "Reg (ir_nextReg F)"] exI [of _ F'] exI [of _ "set_reg (ir_nextReg F) (VPtr a k) t"]) (simp add: points_def older_def)
qed

lemma emit_alloca:
  assumes "runs fp b s F t"
  shows "\<exists>p F' t'. emit b (Alloca n) F = (p, F') \<and> runs fp b s F' t' \<and> grows F t F' t' \<and> points F' t' p (rs_next t) 0 \<and> rs_mem t' = rs_mem t \<and>
    rs_next t' = Suc (rs_next t)"
proof -
  have "exec_inst fp (ir_nextReg F, Alloca n) t = Inr (set_reg (ir_nextReg F) (VPtr (rs_next t) 0) (t\<lparr>rs_next := Suc (rs_next t)\<rparr>))"
    by (simp add: exec_inst_def)
  from emit_runs [OF assms(1) this] obtain F' where "emit b (Alloca n) F = (Reg (ir_nextReg F), F')" "runs fp b s F' (set_reg (ir_nextReg F) (VPtr (rs_next t) 0) (t\<lparr>rs_next := Suc (rs_next t)\<rparr>))" "grows F t F' (set_reg (ir_nextReg F) (VPtr (rs_next t) 0) (t\<lparr>rs_next := Suc (rs_next t)\<rparr>))"
    "ir_nextReg F' = Suc (ir_nextReg F)" by auto
  then show ?thesis by (intro exI [of _ "Reg (ir_nextReg F)"] exI [of _ F'] exI [of _ "set_reg (ir_nextReg F) (VPtr (rs_next t) 0) (t\<lparr>rs_next := Suc (rs_next t)\<rparr>)"]) (simp add: points_def older_def)
qed

lemma emit_store:
  assumes "runs fp b s F t" and "val t p = VPtr a k"
  shows "\<exists>q F' t'. emit b (Store v p) F = (q, F') \<and> runs fp b s F' t' \<and> grows F t F' t' \<and> rs_mem t' = (rs_mem t)((a, k) := val t v) \<and>
    rs_next t' = rs_next t"
proof -
  have "exec_inst fp (ir_nextReg F, Store v p) t = Inr (t\<lparr>rs_mem := (rs_mem t)((a, k) := val t v)\<rparr>)"
    using assms by (simp add: exec_inst_def)
  from emit_runs [OF assms(1) this] obtain F' where "emit b (Store v p) F = (Reg (ir_nextReg F), F')" "runs fp b s F' (t\<lparr>rs_mem := (rs_mem t)((a, k) := val t v)\<rparr>)" "grows F t F' (t\<lparr>rs_mem := (rs_mem t)((a, k) := val t v)\<rparr>)" by auto
  then show ?thesis by (intro exI [of _ "Reg (ir_nextReg F)"] exI [of _ F'] exI [of _ "t\<lparr>rs_mem := (rs_mem t)((a, k) := val t v)\<rparr>"]) simp
qed

lemma slot_offset: "int i * 8 < 2 ^ 63 \<Longrightarrow> take_bit 64 (int (i * valuesInCacheLine)) = 8 * int i \<and> signed_take_bit 63 (8 * int i) = 8 * int i"
  by (simp add: valuesInCacheLine_def getCacheLineBytes_def take_bit_int_eq_self signed_take_bit_int_eq_self mult.commute)

lemma fetch_runs:
  assumes "runs fp b s F t" and "points F t arr a 0" and "int i * 8 < 2 ^ 63"
  shows "\<exists>p F' t'. fetchCastedEnvPtr b arr i F = (p, F') \<and> runs fp b s F' t' \<and> grows F t F' t' \<and> points F' t' p a (8 * int i) \<and>
    rs_mem t' = rs_mem t \<and> rs_next t' = rs_next t"
proof -
  have idx: "val t (Const 64 (i * valuesInCacheLine)) = VInt (8 * int i)" using slot_offset [OF assms(3)] by simp
  have arr: "val t arr = VPtr a 0" using assms(2) by (simp add: points_def)
  obtain p F1 t1 where 1:
    "emit b (GEP 64 arr (Const 64 (i * valuesInCacheLine))) F = (p, F1)" "runs fp b s F1 t1" "grows F t F1 t1" "points F1 t1 p a (8 * int i)"
    "rs_mem t1 = rs_mem t" "rs_next t1 = rs_next t"
    using emit_gep [OF assms(1) arr idx slot_offset [OF assms(3), THEN conjunct2]] unfolding add_0 by blast
  have "val t1 p = VPtr a (8 * int i)" using 1(4) by (simp add: points_def)
  from emit_bitcast [OF 1(2) this] obtain q F2 t2 where 2: "emit b (BitCast p) F1 = (q, F2)" "runs fp b s F2 t2" "grows F1 t1 F2 t2"
    "points F2 t2 q a (8 * int i)" "rs_mem t2 = rs_mem t1" "rs_next t2 = rs_next t1" by blast
  show ?thesis using 1 2 grows_trans [OF 1(3) 2(3)]
    by (intro exI [of _ q] exI [of _ F2] exI [of _ t2]) (simp add: fetchCastedEnvPtr_def Let_def)
qed

section \<open>The layout\<close>

definition reducible_ok :: "env_builder \<Rightarrow> ir_fun \<Rightarrow> rt_state \<Rightarrow> nat \<Rightarrow> nat \<Rightarrow> nat \<Rightarrow> nat \<Rightarrow> bool" where
  "reducible_ok B F t env n e a \<longleftrightarrow> rs_mem t (env, 8 * int e) = VPtr a 0 \<and> env < a \<and> a < rs_next t \<and>
     (\<exists>v ps. map_of (eb_vector B) e = Some v \<and> points F t v a 0 \<and> map_of (eb_reducable B) e = Some ps \<and> length ps = n \<and>
        (\<forall>r < n. points F t (ps ! r) a (8 * int r)))"

definition layout :: "env_builder \<Rightarrow> ir_fun \<Rightarrow> rt_state \<Rightarrow> ir_value \<Rightarrow> nat \<Rightarrow> nat \<Rightarrow> nat set \<Rightarrow> nat set \<Rightarrow> (nat \<Rightarrow> nat) \<Rightarrow> bool" where
  "layout B F t arr env n S R vec \<longleftrightarrow> points F t arr env 0 \<and> env < rs_next t \<and>
     (\<forall>e \<in> S. \<exists>p. map_of (eb_indexToVar B) e = Some (Some p) \<and> points F t p env (8 * int e)) \<and>
     (\<forall>e \<in> R. reducible_ok B F t env n e (vec e)) \<and> inj_on vec R"

lemma reducible_grows:
  assumes "reducible_ok B F t env n e a" and "grows F t F' t'" and "rs_mem t' (env, 8 * int e) = rs_mem t (env, 8 * int e)" and "rs_next t \<le> rs_next t'"
    and "map_of (eb_vector B') e = map_of (eb_vector B) e" and "map_of (eb_reducable B') e = map_of (eb_reducable B) e"
  shows "reducible_ok B' F' t' env n e a"
proof -
  obtain v ps where "rs_mem t (env, 8 * int e) = VPtr a 0" "env < a" "a < rs_next t" "map_of (eb_vector B) e = Some v" "points F t v a 0"
    "map_of (eb_reducable B) e = Some ps" "length ps = n" "\<forall>r < n. points F t (ps ! r) a (8 * int r)"
    using assms(1) unfolding reducible_ok_def by blast
  then show ?thesis using assms points_grows [OF assms(2)] unfolding reducible_ok_def
    by (intro conjI exI [of _ v] exI [of _ ps]) auto
qed

lemma single_step:
  assumes "runs fp b s F t" and L: "layout B F t arr env n S {} vec" and e: "e < length (eb_envTypes B)" "int e * 8 < 2 ^ 63"
  shows "\<exists>B' F' t'. single_var b arr e (B, F) = Inr (B', F') \<and> runs fp b s F' t' \<and> layout B' F' t' arr env n (insert e S) {} vec \<and>
    (\<exists>iv. B' = B\<lparr>eb_indexToVar := iv\<rparr>)"
proof -
  from L have "points F t arr env 0" by (simp add: layout_def)
  from fetch_runs [OF assms(1) this e(2)] obtain p F' t' where p: "fetchCastedEnvPtr b arr e F = (p, F')" "runs fp b s F' t'" "grows F t F' t'"
    "points F' t' p env (8 * int e)" "rs_mem t' = rs_mem t" "rs_next t' = rs_next t" by blast
  let ?B = "B\<lparr>eb_indexToVar := AList.update e (Some p) (eb_indexToVar B)\<rparr>"
  have "layout ?B F' t' arr env n (insert e S) {} vec"
    using L p(4,6) points_grows [OF p(3)] by (fastforce simp: layout_def AList.update_conv')
  then show ?thesis using p(1,2) e(1) by (intro exI [of _ ?B] exI [of _ F'] exI [of _ t']) (auto simp: single_var_def)
qed

lemma ptrs_step:
  assumes "runs fp b s F t" and "points F t v a 0" and "map_of (eb_reducable B) e = Some ps" and "\<forall>r < length ps. points F t (ps ! r) a (8 * int r)"
    and "int i * 8 < 2 ^ 63" and "length ps = i"
  shows "\<exists>p F' t'. reduce_ptr b v e i (B, F) = Inr (B\<lparr>eb_reducable := AList.update e (ps @ [p]) (eb_reducable B)\<rparr>, F') \<and> runs fp b s F' t' \<and>
    grows F t F' t' \<and> (\<forall>r < Suc i. points F' t' ((ps @ [p]) ! r) a (8 * int r)) \<and> rs_mem t' = rs_mem t \<and> rs_next t' = rs_next t"
proof -
  from fetch_runs [OF assms(1,2,5)] obtain p F' t' where p: "fetchCastedEnvPtr b v i F = (p, F')" "runs fp b s F' t'" "grows F t F' t'"
    "points F' t' p a (8 * int i)" "rs_mem t' = rs_mem t" "rs_next t' = rs_next t" by blast
  have "points F' t' ((ps @ [p]) ! r) a (8 * int r)" if "r < Suc i" for r
    using that assms(4,6) p(4) points_grows [OF p(3)] by (cases "r = i") (auto simp: nth_append)
  then show ?thesis using p assms(3) by (auto simp: reduce_ptr_def)
qed

lemma ptrs_loop:
  assumes "runs fp b s F t" and "points F t v a 0" and "map_of (eb_reducable B) e = Some []" and "k \<le> n" and "int n * 8 \<le> 2 ^ 63"
  shows "\<exists>ps F' t' R. foldE (reduce_ptr b v e) [0..<k] (B, F) = Inr (B\<lparr>eb_reducable := R\<rparr>, F') \<and> map_of R = (map_of (eb_reducable B))(e \<mapsto> ps) \<and>
    map fst R = map fst (eb_reducable B) \<and> runs fp b s F' t' \<and> grows F t F' t' \<and> length ps = k \<and>
    (\<forall>r < k. points F' t' (ps ! r) a (8 * int r)) \<and> rs_mem t' = rs_mem t \<and> rs_next t' = rs_next t"
  using assms(4)
proof (induction k)
  case 0
  show ?case using assms(1,3) by (intro exI [of _ "[]"] exI [of _ F] exI [of _ t] exI [of _ "eb_reducable B"]) (auto simp: fun_upd_idem)
next
  case (Suc k)
  obtain ps F1 t1 R where 1: "foldE (reduce_ptr b v e) [0..<k] (B, F) = Inr (B\<lparr>eb_reducable := R\<rparr>, F1)" "map_of R = (map_of (eb_reducable B))(e \<mapsto> ps)"
    "map fst R = map fst (eb_reducable B)" "runs fp b s F1 t1" "grows F t F1 t1" "length ps = k" "\<forall>r < k. points F1 t1 (ps ! r) a (8 * int r)"
    "rs_mem t1 = rs_mem t" "rs_next t1 = rs_next t" using Suc.IH [OF Suc_leD [OF Suc.prems]] by (elim exE conjE) (rule that)
  have "map_of (eb_reducable (B\<lparr>eb_reducable := R\<rparr>)) e = Some ps" "\<forall>r < length ps. points F1 t1 (ps ! r) a (8 * int r)" "int k * 8 < 2 ^ 63"
    using 1 Suc.prems assms(5) by simp_all
  from ptrs_step [OF 1(4) points_grows [OF 1(5) assms(2)] this 1(6)] obtain p F2 t2 where 2:
    "reduce_ptr b v e k (B\<lparr>eb_reducable := R\<rparr>, F1) = Inr (B\<lparr>eb_reducable := AList.update e (ps @ [p]) R\<rparr>, F2)" "runs fp b s F2 t2"
    "grows F1 t1 F2 t2" "\<forall>r < Suc k. points F2 t2 ((ps @ [p]) ! r) a (8 * int r)" "rs_mem t2 = rs_mem t1" "rs_next t2 = rs_next t1" by auto
  have "e \<in> fst ` set R" using 1(2) by (metis domI dom_map_of_conv_image_fst fun_upd_same)
  then have "map fst (AList.update e (ps @ [p]) R) = map fst (eb_reducable B)" using 1(3) by (simp only: AList.update_keys list.set_map [symmetric] if_True)
  then show ?case using 1 2 grows_trans [OF 1(5) 2(3)]
    by (intro exI [of _ "ps @ [p]"] exI [of _ F2] exI [of _ t2] exI [of _ "AList.update e (ps @ [p]) R"])
      (simp add: foldE_append AList.update_conv')
qed


lemma reducible_step:
  assumes "runs fp b s F t" and L: "layout B F t arr env n S R vec" and e: "e < length (eb_envTypes B)" "int e * 8 < 2 ^ 63" "e \<notin> R"
    and n: "eb_numReducers B = int n" "int n * 8 \<le> 2 ^ 63" and empty: "map_of (eb_reducable B) e = Some []"
  shows "\<exists>B' F' t' vec'. reducable_var b arr e (B, F) = Inr (B', F') \<and> runs fp b s F' t' \<and> layout B' F' t' arr env n S (insert e R) vec' \<and>
    (\<forall>x. x \<noteq> e \<longrightarrow> map_of (eb_reducable B') x = map_of (eb_reducable B) x) \<and> eb_envTypes B' = eb_envTypes B \<and> eb_numReducers B' = eb_numReducers B \<and>
    eb_envArray B' = eb_envArray B \<and> eb_envSize B' = eb_envSize B"
proof -
  let ?a = "rs_next t"
  from emit_alloca [OF assms(1)] obtain v F1 t1 where 1: "emit b (Alloca (nat (eb_numReducers B) * valuesInCacheLine)) F = (v, F1)"
    "runs fp b s F1 t1" "grows F t F1 t1" "points F1 t1 v ?a 0" "rs_mem t1 = rs_mem t" "rs_next t1 = Suc ?a" by blast
  from L have arr: "points F t arr env 0" "env < ?a" by (simp_all add: layout_def)
  from fetch_runs [OF 1(2) points_grows [OF 1(3) arr(1)] e(2)] obtain p F2 t2 where 2: "fetchCastedEnvPtr b arr e F1 = (p, F2)" "runs fp b s F2 t2"
    "grows F1 t1 F2 t2" "points F2 t2 p env (8 * int e)" "rs_mem t2 = rs_mem t1" "rs_next t2 = rs_next t1" by blast
  have v2: "points F2 t2 v ?a 0" by (rule points_grows [OF 2(3) 1(4)])
  have p2: "val t2 p = VPtr env (8 * int e)" using 2(4) by (simp add: points_def)
  from emit_store [OF 2(2) p2] obtain q F3 t3 where 3: "emit b (Store v p) F2 = (q, F3)" "runs fp b s F3 t3" "grows F2 t2 F3 t3"
    "rs_mem t3 = (rs_mem t2)((env, 8 * int e) := val t2 v)" "rs_next t3 = rs_next t2" by blast
  let ?B = "B\<lparr>eb_vector := AList.update e v (eb_vector B)\<rparr>"
  have "map_of (eb_reducable ?B) e = Some []" using empty by simp
  from ptrs_loop [OF 3(2) points_grows [OF 3(3) v2] this order_refl n(2)] obtain ps F4 t4 Q where 4:
    "foldE (reduce_ptr b v e) [0..<n] (?B, F3) = Inr (?B\<lparr>eb_reducable := Q\<rparr>, F4)" "map_of Q = (map_of (eb_reducable ?B))(e \<mapsto> ps)"
    "runs fp b s F4 t4" "grows F3 t3 F4 t4" "length ps = n" "\<forall>r < n. points F4 t4 (ps ! r) ?a (8 * int r)" "rs_mem t4 = rs_mem t3" "rs_next t4 = rs_next t3"
    by blast
  let ?B' = "?B\<lparr>eb_reducable := Q\<rparr>" and ?vec = "vec(e := ?a)"
  have g: "grows F t F4 t4" using grows_trans 1(3) 2(3) 3(3) 4(4) by blast
  have next4: "rs_next t4 = Suc ?a" using 1(6) 2(6) 3(5) 4(8) by simp
  have mem4: "rs_mem t4 = (rs_mem t)((env, 8 * int e) := VPtr ?a 0)" using 1(5) 2(5) 3(4) 4(7) v2 by (simp add: points_def)
  have "reducible_ok ?B' F4 t4 env n x (?vec x)" if "x \<in> insert e R" for x
  proof (cases "x = e")
    case True
    have "points F4 t4 v ?a 0" by (rule points_grows [OF 4(4) points_grows [OF 3(3) v2]])
    then show ?thesis using True 4(2,5,6) next4 arr(2) by (simp add: reducible_ok_def mem4 AList.update_conv')
  next
    case False
    with that L have "reducible_ok B F t env n x (vec x)" by (simp add: layout_def)
    then have "reducible_ok ?B' F4 t4 env n x (vec x)"
      by (rule reducible_grows [OF _ g]) (use False 4(2) next4 in \<open>simp_all add: mem4 AList.update_conv'\<close>)
    with False show ?thesis by simp
  qed
  moreover have "inj_on ?vec (insert e R)"
  proof -
    have "vec x < ?a" if "x \<in> R" for x using that L by (auto simp: layout_def reducible_ok_def)
    then have "?a \<notin> vec ` R" by (metis imageE less_irrefl)
    moreover have "inj_on vec R" using L by (simp add: layout_def)
    ultimately show ?thesis using e(3) by (simp add: inj_on_fun_updI) blast
  qed
  moreover have "\<forall>x \<in> S. \<exists>p. map_of (eb_indexToVar ?B') x = Some (Some p) \<and> points F4 t4 p env (8 * int x)"
    using L points_grows [OF g] by (fastforce simp: layout_def)
  ultimately have "layout ?B' F4 t4 arr env n S (insert e R) ?vec"
    using points_grows [OF g arr(1)] arr(2) next4 by (simp add: layout_def)
  moreover have "reducable_var b arr e (B, F) = Inr (?B', F4)"
    using e(1) 1(1) 2(1) 3(1) 4(1) n(1) by (simp add: reducable_var_def Let_def)
  ultimately show ?thesis using 4(2,3) by (intro exI [of _ ?B'] exI [of _ F4] exI [of _ t4] exI [of _ ?vec]) simp
qed

lemma singles_loop:
  assumes "runs fp b s F t" and "layout B F t arr env n {} {} vec" and "\<forall>e \<in> set es. e < length (eb_envTypes B) \<and> int e * 8 < 2 ^ 63"
  shows "\<exists>B' F' t'. foldE (single_var b arr) es (B, F) = Inr (B', F') \<and> runs fp b s F' t' \<and> layout B' F' t' arr env n (set es) {} vec \<and>
    (\<exists>iv. B' = B\<lparr>eb_indexToVar := iv\<rparr>)"
  using assms(3)
proof (induction es rule: rev_induct)
  case Nil
  show ?case using assms(1,2) by (intro exI [of _ B] exI [of _ F] exI [of _ t] conjI exI [of _ "eb_indexToVar B"]) simp_all
next
  case (snoc e es)
  then obtain B1 F1 t1 iv where 1: "foldE (single_var b arr) es (B, F) = Inr (B1, F1)" "runs fp b s F1 t1" "layout B1 F1 t1 arr env n (set es) {} vec"
    "B1 = B\<lparr>eb_indexToVar := iv\<rparr>" by auto
  have "e < length (eb_envTypes B1)" "int e * 8 < 2 ^ 63" using snoc.prems 1(4) by simp_all
  from single_step [OF 1(2,3) this] obtain B2 F2 t2 iv2 where "single_var b arr e (B1, F1) = Inr (B2, F2)" "runs fp b s F2 t2"
    "layout B2 F2 t2 arr env n (insert e (set es)) {} vec" "B2 = B1\<lparr>eb_indexToVar := iv2\<rparr>" by blast
  then show ?case using 1 by (intro exI [of _ B2] exI [of _ F2] exI [of _ t2] conjI exI [of _ iv2]) (simp_all add: foldE_append)
qed

lemma reducibles_loop:
  assumes "runs fp b s F t" and "layout B F t arr env n S {} vec" and "\<forall>e \<in> set es. e < length (eb_envTypes B) \<and> int e * 8 < 2 ^ 63"
    and "distinct es" and "eb_numReducers B = int n" and "int n * 8 \<le> 2 ^ 63" and "\<forall>e \<in> set es. map_of (eb_reducable B) e = Some []"
  shows "\<exists>B' F' t' vec'. foldE (reducable_var b arr) es (B, F) = Inr (B', F') \<and> runs fp b s F' t' \<and> layout B' F' t' arr env n S (set es) vec' \<and>
    (\<forall>x. x \<notin> set es \<longrightarrow> map_of (eb_reducable B') x = map_of (eb_reducable B) x) \<and> eb_envTypes B' = eb_envTypes B \<and> eb_numReducers B' = eb_numReducers B \<and>
    eb_envArray B' = eb_envArray B \<and> eb_envSize B' = eb_envSize B"
  using assms(3,4,7)
proof (induction es rule: rev_induct)
  case Nil
  show ?case using assms(1,2) by (intro exI [of _ B] exI [of _ F] exI [of _ t] exI [of _ vec]) simp
next
  case (snoc e es)
  obtain B1 F1 t1 vec1 where 1: "foldE (reducable_var b arr) es (B, F) = Inr (B1, F1)" "runs fp b s F1 t1" "layout B1 F1 t1 arr env n S (set es) vec1"
    "\<forall>x. x \<notin> set es \<longrightarrow> map_of (eb_reducable B1) x = map_of (eb_reducable B) x" "eb_envTypes B1 = eb_envTypes B" "eb_numReducers B1 = eb_numReducers B"
    "eb_envArray B1 = eb_envArray B" "eb_envSize B1 = eb_envSize B" using snoc.IH snoc.prems by auto
  have "e < length (eb_envTypes B1)" "int e * 8 < 2 ^ 63" "e \<notin> set es" "eb_numReducers B1 = int n" "map_of (eb_reducable B1) e = Some []"
    using snoc.prems 1(4,5,6) assms(5) by auto
  from reducible_step [OF 1(2,3) this(1-4) assms(6) this(5)] obtain B2 F2 t2 vec2 where 2: "reducable_var b arr e (B1, F1) = Inr (B2, F2)" "runs fp b s F2 t2"
    "layout B2 F2 t2 arr env n S (insert e (set es)) vec2" "\<forall>x. x \<noteq> e \<longrightarrow> map_of (eb_reducable B2) x = map_of (eb_reducable B1) x"
    "eb_envTypes B2 = eb_envTypes B1" "eb_numReducers B2 = eb_numReducers B1" "eb_envArray B2 = eb_envArray B1" "eb_envSize B2 = eb_envSize B1" by blast
  show ?case using 1 2 by (intro exI [of _ B2] exI [of _ F2] exI [of _ t2] exI [of _ vec2]) (simp add: foldE_append)
qed

lemma updates_new:
  assumes "distinct is" and "set is \<inter> fst ` set al = {}"
  shows "map fst (fold (\<lambda>i. AList.update i x) is al) = map fst al @ is" and "i \<in> set is \<Longrightarrow> map_of (fold (\<lambda>i. AList.update i x) is al) i = Some x"
proof -
  have "map fst (fold (\<lambda>i. AList.update i x) is al) = map fst al @ is \<and> (\<forall>i. map_of (fold (\<lambda>i. AList.update i x) is al) i =
      (if i \<in> set is then Some x else map_of al i))"
    using assms
  proof (induction "is" arbitrary: al)
    case (Cons i js)
    have k: "map fst (AList.update i x al) = map fst al @ [i]" using Cons.prems(2) by (simp add: AList.update_keys)
    then have "fst ` set (AList.update i x al) = insert i (fst ` set al)" by (metis Un_insert_right list.set_map list.simps(15) set_append set_empty sup_bot_right)
    then have "set js \<inter> fst ` set (AList.update i x al) = {}" using Cons.prems by auto
    from Cons.IH [OF _ this] Cons.prems(1) k show ?case by (auto simp: AList.update_conv')
  qed simp
  then show "map fst (fold (\<lambda>i. AList.update i x) is al) = map fst al @ is" "i \<in> set is \<Longrightarrow> map_of (fold (\<lambda>i. AList.update i x) is al) i = Some x"
    by simp_all
qed

section \<open>The environment in memory\<close>

text \<open>C27: The layout of the environment. For the variables of \<open>createEnvVariables\<close>, the code that the caller generates in a block allocates the
  array of the environment; the pointer of every variable that is not reduced is the slot \<open>8 * e\<close> of the array; for every variable that is reduced the slot
  holds a pointer to a vector of its own, different from all others and from the array, and the pointers to the private copies are the slots \<open>8 * r\<close> of
  the vector. So different variables and different copies are in different cache lines. A second array is refused.\<close>

theorem environment_layout:
  assumes "runs fp b s F t" and "createEnvVariables varTypes singles reds (int n) (EnvBuilder_of\<lparr>eb_users := users\<rparr>) = Inr B"
    and "distinct (singles @ reds)" and "\<forall>e \<in> set (singles @ reds). e < length varTypes" and "int (length varTypes) * 8 \<le> 2 ^ 63"
    and "int n * 8 \<le> 2 ^ 63"
  shows "\<exists>B1 F1 B' F' t' arr env vec. generateEnvArray b B F = Inr (B1, F1) \<and> generateEnvVariables b B1 F1 = Inr (B', F') \<and> runs fp b s F' t' \<and>
    getEnvArray B' = Inr arr \<and> val t' arr = VPtr env 0 \<and>
    (\<forall>e \<in> set singles. \<exists>p. getEnvVar e B' = Inr (Some p) \<and> val t' p = VPtr env (8 * int e)) \<and>
    (\<forall>e \<in> set reds. rs_mem t' (env, 8 * int e) = VPtr (vec e) 0 \<and> vec e \<noteq> env \<and> map_option (val t') (map_of (eb_vector B') e) = Some (VPtr (vec e) 0) \<and>
       (\<forall>r < n. \<exists>p. getReducableEnvVar e r B' = Inr p \<and> val t' p = VPtr (vec e) (8 * int r))) \<and>
    inj_on vec (set reds) \<and> createEnvVariables varTypes singles reds (int n) B' = Inl AssertFailed"
proof -
  have B: "B = EnvBuilder_of\<lparr>eb_users := users, eb_envSize := int (length singles + length reds), eb_envTypes := varTypes,
      eb_envArrayType := Some ((length singles + length reds) * valuesInCacheLine), eb_numReducers := int n,
      eb_indexToVar := fold (\<lambda>i. AList.update i None) singles [], eb_reducable := fold (\<lambda>i. AList.update i []) reds []\<rparr>"
    using assms(2) by (auto simp: createEnvVariables_def EnvBuilder_of_def Let_def check_eq_Inr nat_add_distrib)
  have d: "distinct singles" "distinct reds" using assms(3) by simp_all
  have S: "map fst (eb_indexToVar B) = singles" using updates_new(1) [OF d(1), where al = "[]" and x = "None :: ir_value option"] by (simp add: B)
  have R: "map fst (eb_reducable B) = reds" "\<forall>e \<in> set reds. map_of (eb_reducable B) e = Some []"
    using updates_new [OF d(2), where al = "[]" and x = "[] :: ir_value list"] by (simp_all add: B)
  have lim: "e < length varTypes \<and> int e * 8 < 2 ^ 63" if "e \<in> set (singles @ reds)" for e
  proof -
    have "e < length varTypes" using assms(4) that by blast
    then have "int e < int (length varTypes)" by simp
    with assms(5) have "int e * 8 < 2 ^ 63" by linarith
    with \<open>e < length varTypes\<close> show ?thesis by simp
  qed
  let ?env = "rs_next t"
  from emit_alloca [OF assms(1)] obtain arr F1 t1 where 1: "emit b (Alloca ((length singles + length reds) * valuesInCacheLine)) F = (arr, F1)"
    "runs fp b s F1 t1" "grows F t F1 t1" "points F1 t1 arr ?env 0" "rs_mem t1 = rs_mem t" "rs_next t1 = Suc ?env" by blast
  have "val t1 arr = VPtr ?env 0" using 1(4) by (simp add: points_def)
  from emit_bitcast [OF 1(2) this] obtain q F2 t2 where 2: "emit b (BitCast arr) F1 = (q, F2)" "runs fp b s F2 t2" "grows F1 t1 F2 t2" "rs_next t2 = rs_next t1"
    by blast
  let ?B1 = "B\<lparr>eb_envArray := Some arr, eb_envArrayInt8Ptr := Some q\<rparr>"
  have gen1: "generateEnvArray b B F = Inr (?B1, F2)" using 1(1) 2(1) by (simp add: generateEnvArray_def B Let_def)
  have L: "layout ?B1 F2 t2 arr ?env n {} {} (\<lambda>_. 0)" using points_grows [OF 2(3) 1(4)] 1(6) 2(4) by (simp add: layout_def)
  have "\<forall>e \<in> set singles. e < length (eb_envTypes ?B1) \<and> int e * 8 < 2 ^ 63" using lim by (simp add: B)
  from singles_loop [OF 2(2) L this] obtain B3 F3 t3 iv where 3: "foldE (single_var b arr) singles (?B1, F2) = Inr (B3, F3)" "runs fp b s F3 t3"
    "layout B3 F3 t3 arr ?env n (set singles) {} (\<lambda>_. 0)" "B3 = ?B1\<lparr>eb_indexToVar := iv\<rparr>" by blast
  have "\<forall>e \<in> set reds. e < length (eb_envTypes B3) \<and> int e * 8 < 2 ^ 63" "eb_numReducers B3 = int n" using lim by (simp_all add: B 3(4))
  moreover have "\<forall>e \<in> set reds. map_of (eb_reducable B3) e = Some []" using R(2) by (simp add: 3(4))
  ultimately obtain B4 F4 t4 vec where 4: "foldE (reducable_var b arr) reds (B3, F3) = Inr (B4, F4)" "runs fp b s F4 t4"
    "layout B4 F4 t4 arr ?env n (set singles) (set reds) vec" "eb_envArray B4 = eb_envArray B3"
    "eb_envSize B4 = eb_envSize B3"
    using reducibles_loop [OF 3(2,3) _ d(2) _ assms(6)] by blast
  have gen2: "generateEnvVariables b ?B1 F2 = Inr (B4, F4)"
    using 3(1) 4(1) S R(1) by (simp add: generateEnvVariables_def) (simp add: 3(4) R(1))
  have arr: "getEnvArray B4 = Inr arr" using 4(4) by (simp add: getEnvArray_def 3(4))
  have val: "val t4 arr = VPtr ?env 0" using 4(3) by (simp add: layout_def points_def)
  have single: "\<exists>p. getEnvVar e B4 = Inr (Some p) \<and> val t4 p = VPtr ?env (8 * int e)" if "e \<in> set singles" for e
    using that 4(3) by (fastforce simp: layout_def points_def getEnvVar_def)
  have red: "rs_mem t4 (?env, 8 * int e) = VPtr (vec e) 0 \<and> vec e \<noteq> ?env \<and> map_option (val t4) (map_of (eb_vector B4) e) = Some (VPtr (vec e) 0) \<and>
       (\<forall>r < n. \<exists>p. getReducableEnvVar e r B4 = Inr p \<and> val t4 p = VPtr (vec e) (8 * int r))" if "e \<in> set reds" for e
  proof -
    have "reducible_ok B4 F4 t4 ?env n e (vec e)" using that 4(3) by (simp add: layout_def)
    then show ?thesis by (auto simp: reducible_ok_def points_def getReducableEnvVar_def)
  qed
  have twice: "createEnvVariables varTypes singles reds (int n) B4 = Inl AssertFailed"
    using 4(5) by (simp add: createEnvVariables_def 3(4) B)
  have inj: "inj_on vec (set reds)" using 4(3) by (simp add: layout_def)
  show ?thesis
    by (rule exI [of _ ?B1], rule exI [of _ F2], rule exI [of _ B4], rule exI [of _ F4], rule exI [of _ t4], rule exI [of _ arr], rule exI [of _ ?env],
        rule exI [of _ vec]) (use gen1 gen2 4(2) arr val single red twice inj in blast)
qed

text \<open>The pointers of the tasks. In a task whose pointer to the environment is set, \<open>createEnvPtr\<close> computes the slot of the variable in the array,
  and \<open>createReducableEnvPtr\<close> reads the variable's slot, which holds the pointer to the vector, and computes the slot of the task's private copy in it:
  the addresses that the caller uses for the same variable and the same copy. Neither writes to memory. Without the pointer both abort.\<close>

theorem task_pointers:
  assumes "runs fp b s F t" and "eu_envArray u = Some arr" and "points F t arr env 0" and "int e * 8 < 2 ^ 63"
    and "rs_mem t (env, 8 * int e) = VPtr vec 0" and "val t core = VInt (int r)" and "older (ir_nextReg F) core" and "int r * 8 < 2 ^ 63"
  shows "(\<exists>u' F' t' p. createEnvPtr b e u F = Inr (u', F') \<and> runs fp b s F' t' \<and> map_of (eu_indexToPtr u') e = Some p \<and>
      val t' p = VPtr env (8 * int e) \<and> rs_mem t' = rs_mem t) \<and>
    (\<exists>u' F' t' p. createReducableEnvPtr b e core u F = Inr (u', F') \<and> runs fp b s F' t' \<and> map_of (eu_indexToPtr u') e = Some p \<and>
      val t' p = VPtr vec (8 * int r) \<and> rs_mem t' = rs_mem t) \<and>
    createEnvPtr b e (EnvUserBuilder_of None) F = Inl Aborted \<and> createReducableEnvPtr b e core (EnvUserBuilder_of None) F = Inl Aborted"
proof -
  from fetch_runs [OF assms(1,3,4)] obtain p F1 t1 where 1: "fetchCastedEnvPtr b arr e F = (p, F1)" "runs fp b s F1 t1" "grows F t F1 t1"
    "points F1 t1 p env (8 * int e)" "rs_mem t1 = rs_mem t" by blast
  have A: "\<exists>u' F' t' p. createEnvPtr b e u F = Inr (u', F') \<and> runs fp b s F' t' \<and> map_of (eu_indexToPtr u') e = Some p \<and>
      val t' p = VPtr env (8 * int e) \<and> rs_mem t' = rs_mem t"
    using 1(2,4,5) by (intro exI [of _ "u\<lparr>eu_indexToPtr := AList.update e p (eu_indexToPtr u)\<rparr>"] exI [of _ F1] exI [of _ t1] exI [of _ p])
      (simp add: createEnvPtr_def assms(2) 1(1) Let_def points_def AList.update_conv')
  let ?r1 = "ir_nextReg F1"
  have core1: "val t1 core = VInt (int r)" using 1(3) assms(6,7) by (auto simp: grows_def older_def val_def split: ir_value.splits)
  have tb: "take_bit 64 (int r * 8) = 8 * int r" "signed_take_bit 63 (8 * int r) = 8 * int r"
    using slot_offset [OF assms(8)] by (simp_all add: valuesInCacheLine_def getCacheLineBytes_def)
  have "exec_inst fp (?r1, BinOp OpMul (IntegerTy 64) core (Const 64 valuesInCacheLine)) t1 = Inr (set_reg ?r1 (VInt (8 * int r)) t1)"
    using core1 tb by (simp add: exec_inst_def bin_def int_bin_def valuesInCacheLine_def getCacheLineBytes_def)
  from emit_runs [OF 1(2) this] obtain F2 where 2: "emit b (BinOp OpMul (IntegerTy 64) core (Const 64 valuesInCacheLine)) F1 = (Reg ?r1, F2)"
    "runs fp b s F2 (set_reg ?r1 (VInt (8 * int r)) t1)" "grows F1 t1 F2 (set_reg ?r1 (VInt (8 * int r)) t1)" "ir_nextReg F2 = Suc ?r1" by auto
  let ?t2 = "set_reg ?r1 (VInt (8 * int r)) t1" and ?r2 = "ir_nextReg F2"
  have "val ?t2 p = VPtr env (8 * int e)" using points_grows [OF 2(3) 1(4)] by (simp add: points_def)
  then have "exec_inst fp (?r2, Load p) ?t2 = Inr (set_reg ?r2 (VPtr vec 0) ?t2)" using 1(5) assms(5) by (simp add: exec_inst_def)
  from emit_runs [OF 2(2) this] obtain F3 where 3: "emit b (Load p) F2 = (Reg ?r2, F3)" "runs fp b s F3 (set_reg ?r2 (VPtr vec 0) ?t2)" by auto
  let ?t3 = "set_reg ?r2 (VPtr vec 0) ?t2"
  have "val ?t3 (Reg ?r2) = VPtr vec 0" "val ?t3 (Reg ?r1) = VInt (8 * int r)" using 2(4) by simp_all
  from emit_gep [OF 3(2) this tb(2)] obtain q F4 t4 where 4: "emit b (GEP 64 (Reg ?r2) (Reg ?r1)) F3 = (q, F4)" "runs fp b s F4 t4"
    "points F4 t4 q vec (8 * int r)" "rs_mem t4 = rs_mem ?t3" by auto
  have "val t4 q = VPtr vec (8 * int r)" using 4(3) by (simp add: points_def)
  from emit_bitcast [OF 4(2) this] obtain c F5 t5 where 5: "emit b (BitCast q) F4 = (c, F5)" "runs fp b s F5 t5" "points F5 t5 c vec (8 * int r)"
    "rs_mem t5 = rs_mem t4" by blast
  have "createReducableEnvPtr b e core u F = Inr (u\<lparr>eu_indexToPtr := AList.update e c (eu_indexToPtr u)\<rparr>, F5)"
    by (simp add: createReducableEnvPtr_def assms(2) Let_def 1(1) 2(1) 3(1) 4(1) 5(1))
  then have "\<exists>u' F' t' p. createReducableEnvPtr b e core u F = Inr (u', F') \<and> runs fp b s F' t' \<and> map_of (eu_indexToPtr u') e = Some p \<and>
      val t' p = VPtr vec (8 * int r) \<and> rs_mem t' = rs_mem t"
    using 5(2,3,4) 4(4) 1(5)
    by (intro exI [of _ "u\<lparr>eu_indexToPtr := AList.update e c (eu_indexToPtr u)\<rparr>"] exI [of _ F5] exI [of _ t5] exI [of _ c])
      (simp add: points_def AList.update_conv')
  with A show ?thesis by (simp add: createEnvPtr_def createReducableEnvPtr_def EnvUserBuilder_of_def)
qed

text \<open>An environment with one variable that is not reduced and one that is, with two copies.\<close>

definition two_variables :: env_builder where
  "two_variables = EnvBuilder_of\<lparr>eb_envSize := 2, eb_envTypes := [PointerTy, IntegerTy 64], eb_envArrayType := Some 16, eb_numReducers := 2,
     eb_indexToVar := [(0, None)], eb_reducable := [(1, [])]\<rparr>"

definition entry_state :: rt_state where
  "entry_state = \<lparr>rs_reg = (\<lambda>_. VInt 1)(0 := VPtr 0 0), rs_mem = (\<lambda>_. VPtr 7 0), rs_next = 8\<rparr>"

lemma entry_runs: "runs fp 0 entry_state caller entry_state"
  by (simp add: runs_def caller_def)

theorem environment_layout_witness:
  "\<exists>B1 F1 B' F' t' arr env p q. generateEnvArray 0 two_variables caller = Inr (B1, F1) \<and> generateEnvVariables 0 B1 F1 = Inr (B', F') \<and>
     getEnvArray B' = Inr arr \<and> val t' arr = VPtr env 0 \<and> getEnvVar 0 B' = Inr (Some p) \<and> val t' p = VPtr env 0 \<and>
     (\<exists>v. v \<noteq> env \<and> rs_mem t' (env, 8) = VPtr v 0 \<and> getReducableEnvVar 1 1 B' = Inr q \<and> val t' q = VPtr v 8)"
proof -
  have c: "createEnvVariables [PointerTy, IntegerTy 64] [0] [1] (int 2) (EnvBuilder_of\<lparr>eb_users := []\<rparr>) = Inr two_variables"
    by (simp add: createEnvVariables_def EnvBuilder_of_def two_variables_def valuesInCacheLine_def getCacheLineBytes_def Let_def)
  have d: "distinct ([0] @ [1 :: nat])" "\<forall>e \<in> set ([0] @ [1]). e < length [PointerTy, IntegerTy 64]"
    "int (length [PointerTy, IntegerTy 64]) * 8 \<le> 2 ^ 63" "int 2 * 8 \<le> 2 ^ 63" by simp_all
  obtain B1 F1 B' F' t' arr env vec where w: "generateEnvArray 0 two_variables caller = Inr (B1, F1)" "generateEnvVariables 0 B1 F1 = Inr (B', F')"
    "getEnvArray B' = Inr arr" "val t' arr = VPtr env 0" "\<forall>e \<in> set [0]. \<exists>p. getEnvVar e B' = Inr (Some p) \<and> val t' p = VPtr env (8 * int e)"
    "\<forall>e \<in> set [1]. rs_mem t' (env, 8 * int e) = VPtr (vec e) 0 \<and> vec e \<noteq> env \<and> map_option (val t') (map_of (eb_vector B') e) = Some (VPtr (vec e) 0) \<and>
       (\<forall>r < 2. \<exists>p. getReducableEnvVar e r B' = Inr p \<and> val t' p = VPtr (vec e) (8 * int r))"
    using environment_layout [OF entry_runs [of undefined] c d] by (elim exE conjE) (rule that)
  have "\<forall>r < 2. \<exists>p. getReducableEnvVar 1 r B' = Inr p \<and> val t' p = VPtr (vec 1) (8 * int r)" using w(6) by simp
  from this [rule_format, of 1] obtain q where "getReducableEnvVar 1 1 B' = Inr q" "val t' q = VPtr (vec 1) 8" by auto
  moreover obtain p where "getEnvVar 0 B' = Inr (Some p)" "val t' p = VPtr env 0" using w(5) by auto
  ultimately show ?thesis using w(1-4,6)
    by (intro exI [of _ B1] exI [of _ F1] exI [of _ B'] exI [of _ F'] exI [of _ t'] exI [of _ arr] exI [of _ env] exI [of _ p] exI [of _ q]) auto
qed

theorem task_pointers_witness:
  "\<exists>u' F' t' p. createReducableEnvPtr 0 2 (Reg 1) (setEnvArray (Some (Reg 0)) (EnvUserBuilder_of None)) caller = Inr (u', F') \<and>
     map_of (eu_indexToPtr u') 2 = Some p \<and> val t' p = VPtr 7 8"
proof -
  have "points caller entry_state (Reg 0) 0 0" "rs_mem entry_state (0, 8 * int 2) = VPtr 7 0" "val entry_state (Reg 1) = VInt (int 1)"
    "older (ir_nextReg caller) (Reg 1)" "int 2 * 8 < 2 ^ 63" "int 1 * 8 < 2 ^ 63"
    by (simp_all add: points_def caller_def entry_state_def older_def)
  with task_pointers [OF entry_runs, of "setEnvArray (Some (Reg 0)) (EnvUserBuilder_of None)" "Reg 0" 0 2 7 "Reg 1" 1]
  show ?thesis by (simp add: setEnvArray_def) blast
qed

end
