(* ===== verification/Induction.thy ===== *)
theory Induction
  imports LoopEnv IrCode
begin

text \<open>
  Induction variables: \<open>core/induction_variables/src/InductionVariable.cpp\<close>, \<open>InductionVariables.cpp\<close> (the manager of a loop nest) and
  \<open>LoopGoverningIVAttribution.cpp\<close> (the variable that decides when a loop ends). LLVM's instructions and its scalar evolution are parameters,
  and so are the expander of step values (\<open>core/scev\<close>) and the invariant manager. The fields that a constructor leaves unset are given by
  the parameter \<open>uninit\<close>.
\<close>

section \<open>LLVM\<close>

datatype inst_kind =
    PHINode "(llvm_value \<times> nat) list"
  | BranchInst "llvm_value option" "nat list"
  | SwitchInst llvm_value
  | GetElementPtrInst
  | CastInst
  | CmpInst predicate llvm_value llvm_value
  | BinaryOperator opcode
  | LoadInst llvm_value
  | StoreInst
  | CallInst "nat option"
  | OtherTerminator
  | OtherInst

record llvm_insts =
  in_kind :: "nat \<Rightarrow> inst_kind"
  in_operands :: "nat \<Rightarrow> llvm_value list"
  in_users :: "nat \<Rightarrow> llvm_value list"
  in_type :: "nat \<Rightarrow> llvm_type"
  in_constInt :: "llvm_value \<Rightarrow> int option"

fun isPHINode :: "inst_kind \<Rightarrow> bool" where
  "isPHINode (PHINode _) = True"
| "isPHINode _ = False"

fun isTerminatorInst :: "inst_kind \<Rightarrow> bool" where
  "isTerminatorInst (BranchInst _ _) = True"
| "isTerminatorInst (SwitchInst _) = True"
| "isTerminatorInst OtherTerminator = True"
| "isTerminatorInst _ = False"

definition isConstantInt :: "llvm_insts \<Rightarrow> llvm_value \<Rightarrow> bool" where
  "isConstantInt I v \<longleftrightarrow> in_constInt I v \<noteq> None"

text \<open>Scalar evolution: which values it can analyse, which are recurrences, and the step of a recurrence; a composite step has an address.\<close>

datatype scev_step = StepConstant llvm_value | StepUnknown llvm_value | StepComposite nat | StepCouldNotCompute

record scalar_evolution =
  se_isSCEVable :: "nat \<Rightarrow> bool"
  se_hasSCEV :: "nat \<Rightarrow> bool"
  se_isAddRec :: "nat \<Rightarrow> bool"
  se_isUnaryOrBinary :: "nat \<Rightarrow> bool"
  se_step :: "nat \<Rightarrow> scev_step"

text \<open>What the expander returns for a composite step: the final value, the instructions, and the values at the references; or null.\<close>

type_synonym step_expander = "nat \<Rightarrow> llvm_value list \<Rightarrow> llvm_value list \<Rightarrow> (llvm_value \<times> nat list \<times> llvm_value option list) option"

section \<open>InductionVariable\<close>

record induction_variable =
  iv_scc :: ptr
  iv_loopEntryPHI :: nat
  iv_PHIs :: "nat list"
  iv_nonPHIs :: "nat list"
  iv_allInstructions :: "nat list"
  iv_derived :: "nat list"
  iv_startValue :: "llvm_value option"
  iv_stepSCEV :: "scev_step option"
  iv_singleStepValue :: "llvm_value option"
  iv_computation :: "nat list"
  iv_stepInvariant :: bool
  iv_inScope :: "llvm_value list"
  iv_toReference :: "llvm_value list"

definition start_value :: "loop_structure \<Rightarrow> (llvm_value \<times> nat) list \<Rightarrow> llvm_value option" where
  "start_value LS incs = map_option fst (find (\<lambda>(_, bb). bb \<notin> set (ls_bbs LS)) incs)"

subsection \<open>The instructions of the variable\<close>

record iv_search =
  vs_queue :: "ptr list"
  vs_visited :: "llvm_value list"
  vs_all :: "nat list"
  vs_phis :: "nat list"
  vs_others :: "nat list"

definition iv_preds :: "(llvm_value, 'r) dg \<Rightarrow> ptr \<Rightarrow> ptr list" where
  "iv_preds scc node = map (edge_from scc)
     (filter (\<lambda>e. isDataDependence (edgeMem scc e) \<and> \<not> memory (edgeMem scc e) \<and> isInternal scc (from_T scc e)) (in_edges scc node))"

definition iv_search_step :: "llvm_insts \<Rightarrow> (llvm_value, 'r) dg \<Rightarrow> iv_search \<Rightarrow> iv_search" where
  "iv_search_step I scc st =
     (case vs_queue st of
        [] \<Rightarrow> st
      | node # rest \<Rightarrow>
          let v = node_T scc node
          in if v \<in> set (vs_visited st) then st\<lparr>vs_queue := rest\<rparr>
             else let st1 = st\<lparr>vs_queue := rest, vs_visited := vs_visited st @ [v]\<rparr>
                  in case v of
                       Inst i \<Rightarrow>
                         let st2 = st1\<lparr>vs_all := uset_insert i (vs_all st1), vs_queue := rest @ iv_preds scc node\<rparr>
                         in if isPHINode (in_kind I i) then st2\<lparr>vs_phis := uset_insert i (vs_phis st2)\<rparr>
                            else st2\<lparr>vs_others := uset_insert i (vs_others st2)\<rparr>
                     | _ \<Rightarrow> st1)"

definition iv_search_loop :: "llvm_insts \<Rightarrow> (llvm_value, 'r) dg \<Rightarrow> iv_search \<Rightarrow> iv_search res" where
  "iv_search_loop I scc = whileE (\<lambda>st. vs_queue st \<noteq> []) (\<lambda>st. Inr (iv_search_step I scc st))"

definition cast_users :: "llvm_insts \<Rightarrow> nat list \<Rightarrow> nat list" where
  "cast_users I is = uset_insert_all
     (concat (map (\<lambda>i. concat (map (\<lambda>u. case u of Inst j \<Rightarrow> if in_kind I j = CastInst then [j] else [] | _ \<Rightarrow> []) (in_users I i))) is)) []"

definition traverseCycleThroughLoopEntryPHI ::
  "llvm_insts \<Rightarrow> (llvm_value, 'r) dg \<Rightarrow> induction_variable \<Rightarrow> induction_variable res" where
  "traverseCycleThroughLoopEntryPHI I scc IV =
     (case snd (fetchNode scc (Inst (iv_loopEntryPHI IV))) of
        None \<Rightarrow> Inl NullDeref
      | Some n \<Rightarrow>
          andThen (iv_search_loop I scc \<lparr>vs_queue = [n], vs_visited = [], vs_all = [], vs_phis = [], vs_others = []\<rparr>) (\<lambda>st.
            Inr (IV\<lparr>iv_PHIs := vs_phis st, iv_nonPHIs := vs_others st,
                    iv_allInstructions := uset_insert_all (cast_users I (vs_all st)) (vs_all st)\<rparr>)))"

subsection \<open>Derived instructions\<close>

text \<open>\<open>checkIfDerived\<close> is a recursive function over the operands. \<open>derived_operands\<close> is its loop over the operands that are left; its result is
  \<open>None\<close> when an operand is not acceptable, otherwise whether one of them is an instruction of the variable. The state is the instructions
  already checked and those found to be derived.\<close>

definition may_be_derived :: "Loops.llvm_module \<Rightarrow> scalar_evolution \<Rightarrow> loop_structure \<Rightarrow> nat \<Rightarrow> bool" where
  "may_be_derived M SE LS i \<longleftrightarrow> se_isSCEVable SE i \<and> isIncluded_inst M i LS \<and> se_isUnaryOrBinary SE i"

type_synonym derive_state = "nat list \<times> nat list"

partial_function (option) derived_operands ::
  "Loops.llvm_module \<Rightarrow> llvm_insts \<Rightarrow> scalar_evolution \<Rightarrow> loop_structure \<Rightarrow> (llvm_value \<Rightarrow> bool) \<Rightarrow> nat list \<Rightarrow> llvm_value list \<Rightarrow> bool \<Rightarrow> derive_state
    \<Rightarrow> (bool option \<times> derive_state) option" where
  "derived_operands M I SE LS invariant ivs ops uses st =
     (case ops of
        [] \<Rightarrow> Some (Some uses, st)
      | v # rest \<Rightarrow>
          if isConstantInt I v \<or> invariant v then derived_operands M I SE LS invariant ivs rest uses st
          else case v of
                 Inst u \<Rightarrow>
                   if \<not> isIncluded_inst M u LS then derived_operands M I SE LS invariant ivs rest uses st
                   else Option.bind
                     (let (checked, derived) = st
                      in if u \<in> set derived then Some (True, st)
                         else if u \<in> set checked then Some (False, st)
                         else let st1 = (uset_insert u checked, derived)
                              in if \<not> may_be_derived M SE LS u then Some (False, st1)
                                 else Option.bind (derived_operands M I SE LS invariant ivs (in_operands I u) False st1) (\<lambda>(r, checked2, derived2).
                                        if r = Some True then Some (True, checked2, uset_insert u derived2) else Some (False, checked2, derived2)))
                     (\<lambda>(isDerived, st2).
                       if u \<in> set ivs \<or> isDerived then derived_operands M I SE LS invariant ivs rest True st2 else Some (None, st2))
               | _ \<Rightarrow> Some (None, st))"

declare derived_operands.simps [code]

definition checkIfDerived ::
  "Loops.llvm_module \<Rightarrow> llvm_insts \<Rightarrow> scalar_evolution \<Rightarrow> loop_structure \<Rightarrow> (llvm_value \<Rightarrow> bool) \<Rightarrow> nat list \<Rightarrow> nat \<Rightarrow> derive_state
    \<Rightarrow> (bool \<times> derive_state) option" where
  "checkIfDerived M I SE LS invariant ivs i st =
     (let (checked, derived) = st
      in if i \<in> set derived then Some (True, st)
         else if i \<in> set checked then Some (False, st)
         else let st1 = (uset_insert i checked, derived)
              in if \<not> may_be_derived M SE LS i then Some (False, st1)
                 else Option.bind (derived_operands M I SE LS invariant ivs (in_operands I i) False st1) (\<lambda>(r, checked2, derived2).
                        if r = Some True then Some (True, checked2, uset_insert i derived2) else Some (False, checked2, derived2)))"

text \<open>The traversal of the users. The state is the queue, the visited instructions and the state of \<open>checkIfDerived\<close>. A recursion that
  does not return is the fault \<open>NoReturn\<close>.\<close>

type_synonym users_state = "nat list \<times> nat list \<times> derive_state"

definition visit_user ::
  "Loops.llvm_module \<Rightarrow> llvm_insts \<Rightarrow> scalar_evolution \<Rightarrow> loop_structure \<Rightarrow> (llvm_value \<Rightarrow> bool) \<Rightarrow> nat list \<Rightarrow> llvm_value \<Rightarrow> users_state \<Rightarrow> users_state res" where
  "visit_user M I SE LS invariant ivs user = (\<lambda>(queue, visited, st).
     case user of
       Inst u \<Rightarrow>
         if u \<in> set visited then Inr (queue, visited, st)
         else (case checkIfDerived M I SE LS invariant ivs u st of
                 None \<Rightarrow> Inl NoReturn
               | Some (isDerived, st1) \<Rightarrow> Inr (if isDerived then queue @ [u] else queue, visited @ [u], st1))
     | _ \<Rightarrow> Inr (queue, visited, st))"

definition users_step ::
  "Loops.llvm_module \<Rightarrow> llvm_insts \<Rightarrow> scalar_evolution \<Rightarrow> loop_structure \<Rightarrow> (llvm_value \<Rightarrow> bool) \<Rightarrow> nat list \<Rightarrow> users_state \<Rightarrow> users_state res" where
  "users_step M I SE LS invariant ivs = (\<lambda>(queue, visited, st).
     case queue of [] \<Rightarrow> Inl OutOfRange
     | i # rest \<Rightarrow> foldE (visit_user M I SE LS invariant ivs) (in_users I i) (rest, visited, st))"

definition traverseConsumersOfIVInstructions ::
  "Loops.llvm_module \<Rightarrow> llvm_insts \<Rightarrow> scalar_evolution \<Rightarrow> loop_structure \<Rightarrow> (llvm_value \<Rightarrow> bool) \<Rightarrow> induction_variable \<Rightarrow> induction_variable res" where
  "traverseConsumersOfIVInstructions M I SE LS invariant IV =
     (let ivs = iv_allInstructions IV
      in andThen (whileE (\<lambda>(queue, _). queue \<noteq> []) (users_step M I SE LS invariant ivs) (ivs, ivs, ([], iv_derived IV))) (\<lambda>(_, _, _, derived).
           Inr (IV\<lparr>iv_derived := derived\<rparr>)))"

subsection \<open>The step\<close>

definition collectValuesInternalAndExternal ::
  "(llvm_value, 'r) dg \<Rightarrow> loop_environment \<Rightarrow> induction_variable \<Rightarrow> induction_variable" where
  "collectValuesInternalAndExternal scc E IV =
     IV\<lparr>iv_inScope := uset_insert_all (map fst (internalNodeMap scc) @ map fst (externalNodeMap scc) @ envProducers E) (iv_inScope IV),
        iv_toReference := uset_insert_all (envProducers E) (iv_toReference IV)\<rparr>"

definition deriveStepValueFromSCEVConstant :: "llvm_value \<Rightarrow> induction_variable \<Rightarrow> induction_variable" where
  "deriveStepValueFromSCEVConstant v IV = IV\<lparr>iv_singleStepValue := Some v, iv_stepInvariant := True\<rparr>"

definition deriveStepValueFromSCEVUnknown :: "Loops.llvm_module \<Rightarrow> loop_structure \<Rightarrow> llvm_value \<Rightarrow> induction_variable \<Rightarrow> induction_variable" where
  "deriveStepValueFromSCEVUnknown M LS v IV = IV\<lparr>iv_singleStepValue := Some v, iv_stepInvariant := isLoopInvariant M v LS\<rparr>"

text \<open>The flag becomes false at the first reference to an invariant value.\<close>

definition deriveStepValueFromCompositeSCEV ::
  "Loops.llvm_module \<Rightarrow> loop_structure \<Rightarrow> step_expander \<Rightarrow> nat \<Rightarrow> induction_variable \<Rightarrow> bool \<times> induction_variable" where
  "deriveStepValueFromCompositeSCEV M LS expand scev IV =
     (case expand scev (iv_inScope IV) (iv_toReference IV) of
        None \<Rightarrow> (False, IV)
      | Some (finalValue, tempBlock, references) \<Rightarrow>
          let IV1 = IV\<lparr>iv_stepInvariant := \<not> (\<exists>r \<in> set references. case r of None \<Rightarrow> False | Some v \<Rightarrow> isLoopInvariant M v LS)\<rparr>;
              IV2 = (if length tempBlock < 2 then IV1\<lparr>iv_singleStepValue := Some finalValue\<rparr> else IV1)
          in (True, IV2\<lparr>iv_computation := iv_computation IV2 @ tempBlock\<rparr>))"

definition deriveStepValue ::
  "Loops.llvm_module \<Rightarrow> scalar_evolution \<Rightarrow> loop_structure \<Rightarrow> step_expander \<Rightarrow> induction_variable \<Rightarrow> induction_variable res" where
  "deriveStepValue M SE LS expand IV =
     check (se_isAddRec SE (iv_loopEntryPHI IV)) AssertFailed
       (let step = se_step SE (iv_loopEntryPHI IV); IV1 = IV\<lparr>iv_stepSCEV := Some step\<rparr>
        in Inr (case step of
             StepConstant v \<Rightarrow> deriveStepValueFromSCEVConstant v IV1
           | StepUnknown v \<Rightarrow> deriveStepValueFromSCEVUnknown M LS v IV1
           | StepComposite s \<Rightarrow> (let (ok, IV2) = deriveStepValueFromCompositeSCEV M LS expand s IV1 in if ok then IV2 else IV2\<lparr>iv_stepSCEV := None\<rparr>)
           | StepCouldNotCompute \<Rightarrow> IV1))"

definition InductionVariable_of ::
  "Loops.llvm_module \<Rightarrow> llvm_insts \<Rightarrow> scalar_evolution \<Rightarrow> (llvm_value \<Rightarrow> bool) \<Rightarrow> step_expander \<Rightarrow> loop_environment \<Rightarrow> llvm_value option \<Rightarrow> loop_structure \<Rightarrow> nat
    \<Rightarrow> ptr \<Rightarrow> (llvm_value, 'r) dg \<Rightarrow> induction_variable res" where
  "InductionVariable_of M I SE invariant expand E uninit LS phi sccPtr scc =
     (let IV = \<lparr>iv_scc = sccPtr, iv_loopEntryPHI = phi, iv_PHIs = [], iv_nonPHIs = [], iv_allInstructions = [], iv_derived = [],
                iv_startValue = start_value LS (case in_kind I phi of PHINode incs \<Rightarrow> incs | _ \<Rightarrow> []), iv_stepSCEV = None, iv_singleStepValue = uninit,
                iv_computation = [], iv_stepInvariant = False, iv_inScope = [], iv_toReference = []\<rparr>
      in andThen (traverseCycleThroughLoopEntryPHI I scc IV) (\<lambda>IV1.
         andThen (traverseConsumersOfIVInstructions M I SE LS invariant IV1) (\<lambda>IV2.
         deriveStepValue M SE LS expand (collectValuesInternalAndExternal scc E IV2))))"

definition isIVInstruction :: "nat \<Rightarrow> induction_variable \<Rightarrow> bool" where
  "isIVInstruction i IV \<longleftrightarrow> i \<in> set (iv_allInstructions IV)"

definition isDerivedFromIVInstructions :: "nat \<Rightarrow> induction_variable \<Rightarrow> bool" where
  "isDerivedFromIVInstructions i IV \<longleftrightarrow> i \<in> set (iv_derived IV)"

definition isStepValuePositive :: "llvm_insts \<Rightarrow> induction_variable \<Rightarrow> bool res" where
  "isStepValuePositive I IV =
     check (iv_stepInvariant IV) AssertFailed
       (case iv_singleStepValue IV of None \<Rightarrow> Inl NullDeref
        | Some v \<Rightarrow> (case in_constInt I v of None \<Rightarrow> Inl AssertFailed | Some c \<Rightarrow> Inr (0 < c)))"

end
