(* ===== verification/GoverningIV.thy ===== *)
theory GoverningIV
  imports Induction SccDag
begin

text \<open>
  Which induction variable decides when a loop ends, \<open>core/induction_variables/src/LoopGoverningIVAttribution.cpp\<close>, and the manager of the
  induction variables of a loop nest, \<open>InductionVariables.cpp\<close>. Fields that the constructor has not set when it returns early are \<open>None\<close>.
\<close>

section \<open>LoopGoverningIVAttribution\<close>

record iv_attribution =
  at_IV :: induction_variable
  at_headerCmp :: "nat option"
  at_conditionValue :: "llvm_value option"
  at_intermediateValue :: "nat option"
  at_headerBr :: "nat option"
  at_exitBlock :: "nat option"
  at_derivation :: "nat list"
  at_isWellFormed :: bool

definition conditional_branches :: "llvm_insts \<Rightarrow> (llvm_value, 'r) dg \<Rightarrow> nat list" where
  "conditional_branches I scc = concat (map (\<lambda>(v, _). case v of
       Inst i \<Rightarrow> (case in_kind I i of BranchInst (Some _) _ \<Rightarrow> [i] | _ \<Rightarrow> [])
     | _ \<Rightarrow> []) (internalNodeMap scc))"

text \<open>The derivation of the value that the variable is compared with: the state is the queue, the instructions considered, and whether the
  constructor has returned because one of them belongs to the variable.\<close>

type_synonym derivation_state = "nat list \<times> nat list \<times> bool"

definition derivation_edge :: "nat list \<Rightarrow> (llvm_value, 'r) dg \<Rightarrow> ptr \<Rightarrow> derivation_state \<Rightarrow> derivation_state res" where
  "derivation_edge ivInstructions scc e = (\<lambda>(queue, derivation, bad).
     if bad \<or> \<not> isDataDependence (edgeMem scc e) \<or> \<not> isInternal scc (from_T scc e) then Inr (queue, derivation, bad)
     else case from_T scc e of
            Inst j \<Rightarrow> Inr (if j \<in> set ivInstructions then (queue, derivation, True)
                           else if j \<in> set derivation then (queue, derivation, bad)
                           else (queue @ [j], derivation @ [j], bad))
          | _ \<Rightarrow> Inl AssertFailed)"

definition derivation_step :: "nat list \<Rightarrow> (llvm_value, 'r) dg \<Rightarrow> derivation_state \<Rightarrow> derivation_state res" where
  "derivation_step ivInstructions scc = (\<lambda>(queue, derivation, bad).
     case queue of [] \<Rightarrow> Inl OutOfRange
     | i # rest \<Rightarrow>
         (case snd (fetchNode scc (Inst i)) of None \<Rightarrow> Inl NullDeref
          | Some n \<Rightarrow> foldE (derivation_edge ivInstructions scc) (in_edges scc n) (rest, derivation, bad)))"

definition condition_derivation :: "nat list \<Rightarrow> (llvm_value, 'r) dg \<Rightarrow> llvm_value \<Rightarrow> (nat list \<times> bool) res" where
  "condition_derivation ivInstructions scc conditionValue =
     (if \<not> isInternal scc conditionValue then Inr ([], False)
      else case conditionValue of
             Inst c \<Rightarrow> andThen (whileE (\<lambda>(queue, _, bad). queue \<noteq> [] \<and> \<not> bad) (derivation_step ivInstructions scc) ([c], [], False))
                         (\<lambda>(_, derivation, bad). Inr (derivation, bad))
           | _ \<Rightarrow> Inl AssertFailed)"

definition exit_of_header :: "nat list \<Rightarrow> nat list \<Rightarrow> nat option" where
  "exit_of_header exitBlocks succs =
     (case succs of s0 # s1 # _ \<Rightarrow> if s0 \<in> set exitBlocks then Some s0 else if s1 \<in> set exitBlocks then Some s1 else None | _ \<Rightarrow> None)"

definition LoopGoverningIVAttribution_of ::
  "Loops.llvm_module \<Rightarrow> llvm_insts \<Rightarrow> (ptr \<Rightarrow> (llvm_value, 'r) dg) \<Rightarrow> induction_variable \<Rightarrow> ptr \<Rightarrow> nat list \<Rightarrow> iv_attribution res" where
  "LoopGoverningIVAttribution_of M I sccMem IV scc exitBlocks =
     (let A = \<lparr>at_IV = IV, at_headerCmp = None, at_conditionValue = None, at_intermediateValue = None, at_headerBr = None, at_exitBlock = None,
               at_derivation = [], at_isWellFormed = False\<rparr>;
          headerPHI = iv_loopEntryPHI IV
      in if \<not> (case iv_singleStepValue IV of None \<Rightarrow> False | Some v \<Rightarrow> isConstantInt I v) then Inr A
         else if \<not> (case in_type I headerPHI of IntegerTy _ \<Rightarrow> True | _ \<Rightarrow> False) then Inr A
         else case conditional_branches I (sccMem (iv_scc IV)) of
           [br] \<Rightarrow>
             if lm_parent M br \<noteq> lm_parent M headerPHI then Inr A
             else let A1 = A\<lparr>at_headerBr := Some br\<rparr>
             in (case in_kind I br of
               BranchInst (Some (Inst cmp)) succs \<Rightarrow>
                 (case in_kind I cmp of
                   CmpInst _ opL opR \<Rightarrow>
                     let A2 = A1\<lparr>at_headerCmp := Some cmp\<rparr>;
                         isOpLHS = (opL = Inst headerPHI); isOpRHS = (opR = Inst headerPHI)
                     in if isOpLHS = isOpRHS then Inr A2
                        else let conditionValue = (if isOpLHS then opR else opL);
                                 A3 = A2\<lparr>at_conditionValue := Some conditionValue, at_intermediateValue := Some headerPHI\<rparr>
                        in (case exit_of_header exitBlocks succs of
                              None \<Rightarrow> Inr A3
                            | Some x \<Rightarrow>
                                andThen (condition_derivation (iv_allInstructions IV) (sccMem scc) conditionValue) (\<lambda>(derivation, bad).
                                  Inr (A3\<lparr>at_exitBlock := Some x, at_derivation := derivation, at_isWellFormed := \<not> bad\<rparr>)))
                 | _ \<Rightarrow> Inr A1)
             | _ \<Rightarrow> Inr A1)
         | _ \<Rightarrow> Inr A)"

section \<open>InductionVariableManager\<close>

text \<open>Induction variables are heap objects; an address is a position in \<open>mg_mem\<close>. An attribution refers to the address of its variable.\<close>

record iv_manager =
  mg_mem :: "induction_variable list"
  mg_loopToIVs :: "(nat \<times> nat list) list"
  mg_loopToAttribution :: "(nat \<times> nat \<times> iv_attribution) list"

definition header_phis :: "Loops.llvm_module \<Rightarrow> llvm_insts \<Rightarrow> nat \<Rightarrow> nat list" where
  "header_phis M I bb = takeWhile (\<lambda>i. isPHINode (in_kind I i)) (lm_insts M bb)"

definition manage_phi ::
  "Loops.llvm_module \<Rightarrow> llvm_insts \<Rightarrow> scalar_evolution \<Rightarrow> (llvm_value \<Rightarrow> bool) \<Rightarrow> step_expander \<Rightarrow> loop_environment \<Rightarrow> (nat \<Rightarrow> llvm_value option) \<Rightarrow>
    loops_summary \<Rightarrow> (llvm_value, 'r, 'bv) sccdag \<Rightarrow> nat \<Rightarrow> nat \<Rightarrow> iv_manager \<Rightarrow> iv_manager res" where
  "manage_phi M I SE invariant expand E uninit LIS D loop phi mg =
     (if \<not> se_isSCEVable SE phi \<or> \<not> se_hasSCEV SE phi \<or> \<not> se_isAddRec SE phi then Inr mg
      else andThen (sccOfValue D (Inst phi)) (\<lambda>sccContainingIV.
        case sccContainingIV of None \<Rightarrow> Inl NullDeref
        | Some scc \<Rightarrow>
            andThen (InductionVariable_of M I SE invariant expand E (uninit phi) (sm_mem LIS loop) phi scc (scc_mem D scc)) (\<lambda>IV.
              if iv_stepSCEV IV = None then Inr mg
              else let p = length (mg_mem mg);
                       mg1 = mg\<lparr>mg_mem := mg_mem mg @ [IV],
                                mg_loopToIVs := AList.update loop
                                  (uset_insert p (case map_of (mg_loopToIVs mg) loop of None \<Rightarrow> [] | Some ps \<Rightarrow> ps)) (mg_loopToIVs mg)\<rparr>
                   in (case getLoop_inst M LIS phi of None \<Rightarrow> Inl NullDeref
                       | Some l \<Rightarrow>
                           andThen (LoopGoverningIVAttribution_of M I (scc_mem D) IV scc (ls_exitBlocks (sm_mem LIS l))) (\<lambda>attribution.
                             Inr (if at_isWellFormed attribution
                                  then mg1\<lparr>mg_loopToAttribution := AList.update loop (p, attribution) (mg_loopToAttribution mg1)\<rparr>
                                  else mg1))))))"

definition manage_loop ::
  "Loops.llvm_module \<Rightarrow> llvm_insts \<Rightarrow> scalar_evolution \<Rightarrow> (llvm_value \<Rightarrow> bool) \<Rightarrow> step_expander \<Rightarrow> loop_environment \<Rightarrow> (nat \<Rightarrow> llvm_value option) \<Rightarrow>
    loops_summary \<Rightarrow> (llvm_value, 'r, 'bv) sccdag \<Rightarrow> nat \<Rightarrow> iv_manager \<Rightarrow> iv_manager res" where
  "manage_loop M I SE invariant expand E uninit LIS D loop mg =
     foldE (manage_phi M I SE invariant expand E uninit LIS D loop) (header_phis M I (ls_header (sm_mem LIS loop)))
       (mg\<lparr>mg_loopToIVs := AList.update loop [] (mg_loopToIVs mg)\<rparr>)"

definition InductionVariableManager_of ::
  "Loops.llvm_module \<Rightarrow> llvm_insts \<Rightarrow> scalar_evolution \<Rightarrow> (llvm_value \<Rightarrow> bool) \<Rightarrow> step_expander \<Rightarrow> loop_environment \<Rightarrow> (nat \<Rightarrow> llvm_value option) \<Rightarrow>
    loops_summary \<Rightarrow> (llvm_value, 'r, 'bv) sccdag \<Rightarrow> iv_manager res" where
  "InductionVariableManager_of M I SE invariant expand E uninit LIS D =
     foldE (manage_loop M I SE invariant expand E uninit LIS D) (sm_loops LIS)
       \<lparr>mg_mem = [], mg_loopToIVs = [], mg_loopToAttribution = []\<rparr>"

definition getInductionVariables :: "iv_manager \<Rightarrow> nat \<Rightarrow> nat list res" where
  "getInductionVariables mg LS = (case map_of (mg_loopToIVs mg) LS of None \<Rightarrow> Inl KeyMissing | Some ps \<Rightarrow> Inr ps)"

definition getInductionVariables_outermost :: "loops_summary \<Rightarrow> iv_manager \<Rightarrow> nat list res" where
  "getInductionVariables_outermost LIS mg = andThen (getLoopNestingTreeRoot LIS) (getInductionVariables mg)"

definition getInductionVariables_inst :: "iv_manager \<Rightarrow> nat \<Rightarrow> nat list" where
  "getInductionVariables_inst mg i = uset_insert_all
     (filter (\<lambda>p. isIVInstruction i (mg_mem mg ! p)) (concat (map snd (mg_loopToIVs mg)))) []"

definition doesContributeToComputeAnInductionVariable :: "iv_manager \<Rightarrow> nat \<Rightarrow> bool" where
  "doesContributeToComputeAnInductionVariable mg i \<longleftrightarrow> getInductionVariables_inst mg i \<noteq> []"

definition getInductionVariable :: "iv_manager \<Rightarrow> nat \<Rightarrow> nat \<Rightarrow> nat option res" where
  "getInductionVariable mg LS i = andThen (getInductionVariables mg LS) (\<lambda>ps. Inr (find (\<lambda>p. isIVInstruction i (mg_mem mg ! p)) ps))"

definition getDerivingInductionVariable :: "iv_manager \<Rightarrow> nat \<Rightarrow> nat \<Rightarrow> nat option res" where
  "getDerivingInductionVariable mg LS i =
     andThen (getInductionVariables mg LS) (\<lambda>ps. Inr (find (\<lambda>p. isDerivedFromIVInstructions i (mg_mem mg ! p)) ps))"

definition getLoopGoverningIVAttribution :: "iv_manager \<Rightarrow> nat \<Rightarrow> iv_attribution option" where
  "getLoopGoverningIVAttribution mg LS = map_option snd (map_of (mg_loopToAttribution mg) LS)"

definition getLoopGoverningInductionVariable :: "iv_manager \<Rightarrow> nat \<Rightarrow> nat option" where
  "getLoopGoverningInductionVariable mg LS = map_option fst (map_of (mg_loopToAttribution mg) LS)"

end
