(* ===== verification/IVStepper.thy ===== *)
theory IVStepper
  imports GoverningIV
begin

text \<open>
  The utilities that transform induction variables, \<open>core/induction_variables/src/IVStepperUtility.cpp\<close> and \<open>LoopGoverningIVUtility.cpp\<close>: chunks of
  iterations, steps, the exit condition that also catches values past the exit, and the trip count. They change the code of a task, an
  \<open>ir_fun\<close>, whose PHIs, comparison and branch are given by their registers.
\<close>

section \<open>Predicates\<close>

fun getInversePredicate :: "predicate \<Rightarrow> predicate" where
  "getInversePredicate ICMP_EQ = ICMP_NE"
| "getInversePredicate ICMP_NE = ICMP_EQ"
| "getInversePredicate ICMP_UGT = ICMP_ULE"
| "getInversePredicate ICMP_ULE = ICMP_UGT"
| "getInversePredicate ICMP_ULT = ICMP_UGE"
| "getInversePredicate ICMP_UGE = ICMP_ULT"
| "getInversePredicate ICMP_SGT = ICMP_SLE"
| "getInversePredicate ICMP_SLE = ICMP_SGT"
| "getInversePredicate ICMP_SLT = ICMP_SGE"
| "getInversePredicate ICMP_SGE = ICMP_SLT"

fun getSwappedPredicate :: "predicate \<Rightarrow> predicate" where
  "getSwappedPredicate ICMP_UGT = ICMP_ULT"
| "getSwappedPredicate ICMP_ULT = ICMP_UGT"
| "getSwappedPredicate ICMP_UGE = ICMP_ULE"
| "getSwappedPredicate ICMP_ULE = ICMP_UGE"
| "getSwappedPredicate ICMP_SGT = ICMP_SLT"
| "getSwappedPredicate ICMP_SLT = ICMP_SGT"
| "getSwappedPredicate ICMP_SGE = ICMP_SLE"
| "getSwappedPredicate ICMP_SLE = ICMP_SGE"
| "getSwappedPredicate p = p"

section \<open>LoopGoverningIVUtility\<close>

record iv_utility =
  iu_attribution :: iv_attribution
  iu_condition :: nat
  iu_ivIsLeftOperand :: bool
  iu_derivation :: "nat list"
  iu_flipOperands :: bool
  iu_flipBrSuccessors :: bool
  iu_nonStrictPredicate :: predicate

definition exit_predicate :: "bool \<Rightarrow> bool \<Rightarrow> predicate \<Rightarrow> predicate" where
  "exit_predicate conditionExitsOnTrue ivIsLeft p =
     (let q = (if conditionExitsOnTrue then p else getInversePredicate p) in if ivIsLeft then q else getSwappedPredicate q)"

fun non_strict_predicate :: "bool \<Rightarrow> predicate \<Rightarrow> predicate res" where
  "non_strict_predicate positive ICMP_NE = Inr ICMP_NE"
| "non_strict_predicate positive ICMP_EQ = Inr (if positive then ICMP_UGE else ICMP_ULE)"
| "non_strict_predicate positive ICMP_SLE = check (\<not> positive) AssertFailed (Inr ICMP_SLE)"
| "non_strict_predicate positive ICMP_SLT = check (\<not> positive) AssertFailed (Inr ICMP_SLT)"
| "non_strict_predicate positive ICMP_ULT = check (\<not> positive) AssertFailed (Inr ICMP_ULT)"
| "non_strict_predicate positive ICMP_ULE = check (\<not> positive) AssertFailed (Inr ICMP_ULE)"
| "non_strict_predicate positive ICMP_UGT = check positive AssertFailed (Inr ICMP_UGT)"
| "non_strict_predicate positive ICMP_UGE = check positive AssertFailed (Inr ICMP_UGE)"
| "non_strict_predicate positive ICMP_SGT = check positive AssertFailed (Inr ICMP_SGT)"
| "non_strict_predicate positive ICMP_SGE = check positive AssertFailed (Inr ICMP_SGE)"

definition LoopGoverningIVUtility_of :: "Loops.llvm_module \<Rightarrow> llvm_insts \<Rightarrow> iv_attribution \<Rightarrow> iv_utility res" where
  "LoopGoverningIVUtility_of M I A =
     (case at_headerCmp A of None \<Rightarrow> Inl NullDeref
      | Some c \<Rightarrow>
          (case in_kind I c of
             CmpInst p opL opR \<Rightarrow>
               let ivIsLeft = (map_option Inst (at_intermediateValue A) = Some opL)
               in check (case iv_singleStepValue (at_IV A) of None \<Rightarrow> False | Some v \<Rightarrow> isConstantInt I v) AssertFailed
                 (andThen (isStepValuePositive I (at_IV A)) (\<lambda>positive.
                    case at_headerBr A of None \<Rightarrow> Inl NullDeref
                    | Some br \<Rightarrow>
                        (case in_kind I br of
                           BranchInst _ (succ0 # _) \<Rightarrow>
                             let exitsOnTrue = (Some succ0 = at_exitBlock A)
                             in andThen (non_strict_predicate positive (exit_predicate exitsOnTrue ivIsLeft p)) (\<lambda>q.
                                  Inr \<lparr>iu_attribution = A, iu_condition = c, iu_ivIsLeftOperand = ivIsLeft,
                                       iu_derivation = filter (\<lambda>i. i \<in> set (at_derivation A)) (lm_insts M (lm_parent M c)),
                                       iu_flipOperands = \<not> ivIsLeft, iu_flipBrSuccessors = \<not> exitsOnTrue, iu_nonStrictPredicate = q\<rparr>)
                         | _ \<Rightarrow> Inl DanglingDeref)))
           | _ \<Rightarrow> Inl DanglingDeref))"

definition change_inst :: "nat \<Rightarrow> (ir_inst \<Rightarrow> ir_inst) \<Rightarrow> ir_fun \<Rightarrow> ir_fun" where
  "change_inst r f F = F\<lparr>ir_code := (\<lambda>b. map (\<lambda>(x, i). (x, if x = r then f i else i)) (ir_code F b))\<rparr>"

definition swap_operands :: "ir_inst \<Rightarrow> ir_inst" where
  "swap_operands i = (case i of ICmp p w x y \<Rightarrow> ICmp p w y x | _ \<Rightarrow> i)"

definition set_predicate :: "predicate \<Rightarrow> ir_inst \<Rightarrow> ir_inst" where
  "set_predicate q i = (case i of ICmp p w x y \<Rightarrow> ICmp q w x y | _ \<Rightarrow> i)"

definition swap_successors :: "ir_inst \<Rightarrow> ir_inst" where
  "swap_successors i = (case i of CondBr c x y \<Rightarrow> CondBr c y x | _ \<Rightarrow> i)"

definition updateConditionAndBranch :: "iv_utility \<Rightarrow> nat \<Rightarrow> nat \<Rightarrow> ir_fun \<Rightarrow> ir_fun" where
  "updateConditionAndBranch U cmpToUpdate branchInst F =
     (let F1 = (if iu_flipOperands U then change_inst cmpToUpdate swap_operands F else F);
          F2 = change_inst cmpToUpdate (set_predicate (iu_nonStrictPredicate U)) F1
      in if iu_flipBrSuccessors U then change_inst branchInst swap_successors F2 else F2)"

definition cloneConditionalCheckFor ::
  "iv_utility \<Rightarrow> nat \<Rightarrow> ir_value \<Rightarrow> ir_value \<Rightarrow> nat \<Rightarrow> nat \<Rightarrow> nat \<Rightarrow> ir_fun \<Rightarrow> ir_fun" where
  "cloneConditionalCheckFor U width recurrenceOfIV clonedCompareValue continueBlock exitBlock b F =
     (let (cmpInst, F1) = emit b (ICmp (iu_nonStrictPredicate U) width recurrenceOfIV clonedCompareValue) F
      in snd (emit b (CondBr cmpInst exitBlock continueBlock) F1))"

definition generateCodeToComputeTheTripCount ::
  "llvm_insts \<Rightarrow> (llvm_value \<Rightarrow> ir_value) \<Rightarrow> nat \<Rightarrow> iv_utility \<Rightarrow> nat \<Rightarrow> ir_fun \<Rightarrow> (ir_value \<times> ir_fun) res" where
  "generateCodeToComputeTheTripCount I ir width U b F =
     (let A = iu_attribution U; IV = at_IV A
      in case (iv_startValue IV, at_conditionValue A, iv_singleStepValue IV) of
           (Some startValue, Some lastValue, Some step) \<Rightarrow>
             andThen (isStepValuePositive I IV) (\<lambda>positive.
               let (delta, F1) = emit b (if positive then BinOp OpSub (IntegerTy width) (ir lastValue) (ir startValue)
                                         else BinOp OpSub (IntegerTy width) (ir startValue) (ir lastValue)) F
               in Inr (emit b (UDiv width delta (ir step)) F1))
         | _ \<Rightarrow> Inl NullDeref)"

section \<open>IVUtility\<close>

text \<open>The PHI that counts the iterations of the current chunk, one incoming value for every predecessor of the header.\<close>

definition chunk_pred ::
  "nat \<Rightarrow> nat \<Rightarrow> nat \<Rightarrow> ir_value \<Rightarrow> ir_value \<Rightarrow> nat \<Rightarrow> ir_fun \<Rightarrow> ir_fun res" where
  "chunk_pred width preheaderB headerB chunkSize chunkPHI B F =
     (if preheaderB = B then Inr (addIncoming headerB chunkPHI (Const width 0, B) F)
      else andThen (emitBeforeTerminator B (BinOp OpAdd (IntegerTy width) chunkPHI (Const width 1)) F) (\<lambda>(chunkIncrement, F1).
           andThen (emitBeforeTerminator B (ICmp ICMP_EQ width chunkIncrement chunkSize) F1) (\<lambda>(isChunkCompleted, F2).
           andThen (emitBeforeTerminator B (Select isChunkCompleted (Const width 0) chunkIncrement) F2) (\<lambda>(chunkWrap, F3).
             Inr (addIncoming headerB chunkPHI (chunkWrap, B) F3)))))"

definition createChunkPHI :: "nat list \<Rightarrow> nat \<Rightarrow> nat \<Rightarrow> nat \<Rightarrow> ir_value \<Rightarrow> ir_fun \<Rightarrow> (ir_value \<times> ir_fun) res" where
  "createChunkPHI headerPreds width preheaderB headerB chunkSize F =
     (let (chunkPHI, F1) = emitPhi headerB F
      in andThen (foldE (chunk_pred width preheaderB headerB chunkSize chunkPHI) headerPreds F1) (\<lambda>F2. Inr (chunkPHI, F2)))"

definition find_inst :: "ir_fun \<Rightarrow> nat \<Rightarrow> ir_value \<Rightarrow> ir_inst res" where
  "find_inst F b v = (case v of
     Reg r \<Rightarrow> (case map_of (ir_code F b) r of None \<Rightarrow> Inl DanglingDeref | Some i \<Rightarrow> Inr i)
   | _ \<Rightarrow> Inl DanglingDeref)"

definition incomings :: "ir_fun \<Rightarrow> nat \<Rightarrow> ir_value \<Rightarrow> (ir_value \<times> nat) list res" where
  "incomings F b phi = andThen (find_inst F b phi) (\<lambda>i. case i of Phi incs \<Rightarrow> Inr incs | _ \<Rightarrow> Inl DanglingDeref)"

definition set_incoming :: "ir_value \<Rightarrow> nat \<Rightarrow> ir_value \<Rightarrow> ir_fun \<Rightarrow> ir_fun" where
  "set_incoming phi k v F = (case phi of
     Reg r \<Rightarrow> change_inst r (\<lambda>i. case i of Phi incs \<Rightarrow> Phi (incs[k := (v, snd (incs ! k))]) | _ \<Rightarrow> i) F
   | _ \<Rightarrow> F)"

text \<open>The offset is added before the terminator of a block; a pointer goes through an integer of the offset's type.\<close>

definition offsetIVPHI :: "llvm_type \<Rightarrow> llvm_type \<Rightarrow> nat \<Rightarrow> ir_value \<Rightarrow> ir_value \<Rightarrow> ir_fun \<Rightarrow> (ir_value \<times> ir_fun) res" where
  "offsetIVPHI ivType offsetType insertBlock startValue offsetValue F =
     (if ivType = PointerTy then
        andThen (emitBeforeTerminator insertBlock (Convert PtrToInt offsetType startValue) F) (\<lambda>(p, F1).
        andThen (emitBeforeTerminator insertBlock (BinOp OpAdd offsetType p offsetValue) F1) (\<lambda>(q, F2).
        emitBeforeTerminator insertBlock (Convert IntToPtr ivType q) F2))
      else emitBeforeTerminator insertBlock (BinOp OpAdd ivType startValue offsetValue) F)"

text \<open>One incoming value of the PHI of an induction variable.\<close>

definition chunk_incoming ::
  "llvm_type \<Rightarrow> llvm_type \<Rightarrow> nat \<Rightarrow> nat \<Rightarrow> ir_value \<Rightarrow> ir_value \<Rightarrow> ir_value \<Rightarrow> nat \<Rightarrow> ir_fun \<Rightarrow> ir_fun res" where
  "chunk_incoming ivType stepType preheaderBlock headerB ivPHI chunkPHI chunkStepSize k F =
     andThen (incomings F headerB ivPHI) (\<lambda>incs.
     check (k < length incs) OutOfRange
       (let (initialLatchValue, B) = incs ! k
        in if preheaderBlock = B then Inr F
           else andThen (incomings F headerB chunkPHI) (\<lambda>chunkIncs.
                case find (\<lambda>(_, b). b = B) chunkIncs of None \<Rightarrow> Inl OutOfRange
                | Some (chunkWrap, _) \<Rightarrow>
                    andThen (find_inst F B chunkWrap) (\<lambda>i.
                      case i of
                        Select isChunkCompleted _ _ \<Rightarrow>
                          andThen (offsetIVPHI ivType stepType B initialLatchValue chunkStepSize F) (\<lambda>(ivOffsetByChunk, F1).
                          andThen (emitBeforeTerminator B (Select isChunkCompleted ivOffsetByChunk initialLatchValue) F1) (\<lambda>(v, F2).
                          Inr (set_incoming ivPHI k v F2)))
                      | _ \<Rightarrow> Inl DanglingDeref))))"

definition chunkInductionVariablePHI ::
  "llvm_type \<Rightarrow> llvm_type \<Rightarrow> nat \<Rightarrow> nat \<Rightarrow> ir_value \<Rightarrow> ir_value \<Rightarrow> ir_value \<Rightarrow> ir_fun \<Rightarrow> ir_fun res" where
  "chunkInductionVariablePHI ivType stepType preheaderBlock headerB ivPHI chunkPHI chunkStepSize F =
     andThen (incomings F headerB ivPHI) (\<lambda>incs.
       foldE (chunk_incoming ivType stepType preheaderBlock headerB ivPHI chunkPHI chunkStepSize) [0..<length incs] F)"

definition step_incoming :: "llvm_type \<Rightarrow> llvm_type \<Rightarrow> nat \<Rightarrow> nat \<Rightarrow> ir_value \<Rightarrow> ir_value \<Rightarrow> nat \<Rightarrow> ir_fun \<Rightarrow> ir_fun res" where
  "step_incoming ivType stepType preheaderBlock headerB ivPHI additionalStepSize k F =
     andThen (incomings F headerB ivPHI) (\<lambda>incs.
     check (k < length incs) OutOfRange
       (let (prevStepRecurrence, B) = incs ! k
        in if preheaderBlock = B then Inr F
           else andThen (offsetIVPHI ivType stepType B prevStepRecurrence additionalStepSize F) (\<lambda>(v, F1). Inr (set_incoming ivPHI k v F1))))"

definition stepInductionVariablePHI ::
  "llvm_type \<Rightarrow> llvm_type \<Rightarrow> nat \<Rightarrow> nat \<Rightarrow> ir_value \<Rightarrow> ir_value \<Rightarrow> ir_fun \<Rightarrow> ir_fun res" where
  "stepInductionVariablePHI ivType stepType preheaderBlock headerB ivPHI additionalStepSize F =
     andThen (incomings F headerB ivPHI) (\<lambda>incs.
       foldE (step_incoming ivType stepType preheaderBlock headerB ivPHI additionalStepSize) [0..<length incs] F)"

end
