(* ===== verification/IterationSpace.thy ===== *)
theory IterationSpace
  imports IVStepper
begin

text \<open>
  The iterations of a DOALL task. The transformed loop starts the induction variable of core \<open>c\<close> at \<open>start + step * c * chunkSize\<close>, counts the
  iterations of the current chunk, jumps over the chunks of the other cores when the chunk is completed, and leaves at the first value at which the
  exit predicate, made non-strict, holds. \<open>task_loop\<close> and \<open>sequential_loop\<close> are these recurrences and the original one on words, with a log of
  the values of the variable at which the body is executed.
\<close>

definition compare :: "predicate \<Rightarrow> 'w::len word \<Rightarrow> 'w word \<Rightarrow> bool" where
  "compare p x y = icmp p LENGTH('w) (uint x) (uint y)"

lemma compare_simps [simp]:
  "compare ICMP_EQ x y \<longleftrightarrow> x = y" "compare ICMP_NE x y \<longleftrightarrow> x \<noteq> y"
  "compare ICMP_UGT x y \<longleftrightarrow> uint y < uint x" "compare ICMP_UGE x y \<longleftrightarrow> uint y \<le> uint x"
  "compare ICMP_ULT x y \<longleftrightarrow> uint x < uint y" "compare ICMP_ULE x y \<longleftrightarrow> uint x \<le> uint y"
  "compare ICMP_SGT x y \<longleftrightarrow> sint y < sint x" "compare ICMP_SGE x y \<longleftrightarrow> sint y \<le> sint x"
  "compare ICMP_SLT x y \<longleftrightarrow> sint x < sint y" "compare ICMP_SLE x y \<longleftrightarrow> sint x \<le> sint y"
  by (simp_all add: compare_def icmp_def Let_def sint_uint word_uint_eq_iff)

lemma getInversePredicate_ok: "compare (getInversePredicate p) x y \<longleftrightarrow> \<not> compare p x y"
  by (cases p) auto

lemma getSwappedPredicate_ok: "compare (getSwappedPredicate p) x y \<longleftrightarrow> compare p y x"
  by (cases p) auto

definition sequential_loop :: "predicate \<Rightarrow> 'w::len word \<Rightarrow> 'w word \<Rightarrow> 'w word \<Rightarrow> ('w word \<times> 'w word list) res" where
  "sequential_loop p start step limit =
     whileE (\<lambda>(x, log). \<not> compare p x limit) (\<lambda>(x, log). Inr (x + step, log @ [x])) (start, [])"

text \<open>The step of the recurrence at the end of an iteration: the counter of the chunk, and the variable after its original step.\<close>

definition chunk_step :: "64 word \<Rightarrow> 'w::len word \<Rightarrow> 64 word \<times> 'w word \<Rightarrow> 64 word \<times> 'w word" where
  "chunk_step chunkSize chunkStep = (\<lambda>(c, x). if c + 1 = chunkSize then (0, x + chunkStep) else (c + 1, x))"

definition task_loop ::
  "predicate \<Rightarrow> 'w::len word \<Rightarrow> 'w word \<Rightarrow> 'w word \<Rightarrow> 64 word \<Rightarrow> 64 word \<Rightarrow> 64 word \<Rightarrow> ((64 word \<times> 'w word) \<times> 'w word list) res" where
  "task_loop q start step limit numCores chunkSize core =
     whileE (\<lambda>((c, x), log). \<not> compare q x limit)
       (\<lambda>((c, x), log). Inr (chunk_step chunkSize (step * ucast ((numCores - 1) * chunkSize)) (c, x + step), log @ [x]))
       ((0, start + step * ucast (core * chunkSize)), [])"

section \<open>The recurrences in closed form\<close>

definition at :: "'w::len word \<Rightarrow> 'w word \<Rightarrow> nat \<Rightarrow> 'w word" where
  "at start step i = start + of_nat i * step"

lemma at_0 [simp]: "at start step 0 = start"
  by (simp add: at_def)

lemma at_Suc: "at start step (Suc i) = at start step i + step"
  by (simp add: at_def algebra_simps)

lemma at_add: "at start step (i + k) = at start step i + of_nat k * step"
  by (simp add: at_def algebra_simps)

lemma ucast_of_nat_64: "m < 2 ^ 64 \<Longrightarrow> ucast (of_nat m :: 64 word) = (of_nat m :: 'w::len word)"
  by (simp add: unsigned_of_nat take_bit_nat_eq_self)

text \<open>The sequential loop.\<close>

lemma sequential_from:
  assumes "\<And>i. i < N \<Longrightarrow> \<not> compare p (at start step i) limit" and "compare p (at start step N) limit" and "k \<le> N"
  shows "whileE (\<lambda>(x, log). \<not> compare p x limit) (\<lambda>(x, log). Inr (x + step, log @ [x])) (at start step k, map (at start step) [0..<k]) =
    Inr (at start step N, map (at start step) [0..<N])"
  using assms(3)
proof (induction "N - k" arbitrary: k)
  case 0
  then have "k = N" by simp
  with assms(2) show ?case by (simp add: whileE_done)
next
  case (Suc m)
  then have k: "k < N" by simp
  have "whileE (\<lambda>(x, log). \<not> compare p x limit) (\<lambda>(x, log). Inr (x + step, log @ [x])) (at start step k, map (at start step) [0..<k]) =
    whileE (\<lambda>(x, log). \<not> compare p x limit) (\<lambda>(x, log). Inr (x + step, log @ [x])) (at start step (Suc k), map (at start step) [0..<Suc k])"
    using assms(1) [OF k] by (intro whileE_step) (simp_all add: at_Suc)
  with Suc.hyps(1) [of "Suc k"] Suc.hyps(2) k show ?case by simp
qed

lemma sequential_returns:
  assumes "sequential_loop p start step limit = Inr (x, log)"
  shows "log = map (at start step) [0..<length log] \<and> x = at start step (length log) \<and> compare p x limit \<and>
    (\<forall>i < length log. \<not> compare p (at start step i) limit)"
proof -
  let ?I = "\<lambda>(x, log). log = map (at start step) [0..<length log] \<and> x = at start step (length log) \<and>
     (\<forall>i < length log. \<not> compare p (at start step i) limit)"
  have "?I (x, log) \<and> \<not> (\<lambda>(x, log). \<not> compare p x limit) (x, log)"
    by (rule whileE_invariant [OF assms [unfolded sequential_loop_def]]) (auto simp: at_Suc less_Suc_eq)
  then show ?thesis by auto
qed

definition task_of :: "nat \<Rightarrow> nat \<Rightarrow> nat \<Rightarrow> nat" where
  "task_of n k i = (i div k) mod n"

definition next_index :: "nat \<Rightarrow> nat \<Rightarrow> nat \<Rightarrow> nat" where
  "next_index n k i = (if Suc (i mod k) = k then Suc i + (n - 1) * k else Suc i)"

lemma next_index_ok:
  assumes "0 < k" "0 < n" "task_of n k i = c"
  shows "task_of n k (next_index n k i) = c" and "next_index n k i mod k = (if Suc (i mod k) = k then 0 else Suc (i mod k))"
    and "\<And>m. i < m \<Longrightarrow> m < next_index n k i \<Longrightarrow> task_of n k m \<noteq> c" and "i < next_index n k i"
proof -
  define a b where "a = i div k" and "b = i mod k"
  have i: "i = a * k + b" "b < k" using assms(1) by (simp_all add: a_def b_def)
  have c: "a mod n = c" using assms(3) by (simp add: task_of_def a_def)
  show "i < next_index n k i" by (simp add: next_index_def)
  show "task_of n k (next_index n k i) = c"
  proof (cases "Suc b = k")
    case True
    have "next_index n k i = (a + n) * k" using True i assms(2) by (cases n) (auto simp: next_index_def b_def [symmetric] algebra_simps)
    then show ?thesis using c assms(1) by (simp add: task_of_def)
  next
    case False
    then have "next_index n k i = a * k + Suc b" "Suc b < k" using i by (auto simp: next_index_def b_def [symmetric])
    moreover from this(2) have "(a * k + Suc b) div k = a" using assms(1) by (subst div_mult_self3) simp_all
    ultimately show ?thesis using c by (simp add: task_of_def)
  qed
  show "next_index n k i mod k = (if Suc (i mod k) = k then 0 else Suc (i mod k))"
    using assms(1) by (simp add: next_index_def) (simp add: mod_Suc)
  show "task_of n k m \<noteq> c" if m: "i < m" "m < next_index n k i" for m
  proof
    assume t: "task_of n k m = c"
    have b: "Suc b = k" using m by (cases "Suc b = k") (simp_all add: next_index_def b_def [symmetric])
    have "(a + 1) * k \<le> m" "m < (a + n) * k" using m i b assms(2) by (cases n; auto simp: next_index_def b_def [symmetric] algebra_simps)+
    then have "a + 1 \<le> m div k" "m div k < a + n" using assms(1) by (simp_all add: less_eq_div_iff_mult_less_eq div_less_iff_less_mult)
    moreover have "(m div k) mod n = a mod n" using t c by (simp add: task_of_def)
    ultimately have "n dvd m div k - a" "0 < m div k - a" "m div k - a < n" by (simp_all add: mod_eq_dvd_iff_nat)
    then show False by (simp add: nat_dvd_not_less)
  qed
qed


lemma upt_split_at: "i < j \<Longrightarrow> [0..<j] = [0..<i] @ i # [Suc i..<j]"
  using upt_add_eq_append [of 0 i "j - i"] upt_conv_Cons [of i j] by simp

lemma next_index_bound:
  assumes "0 < k" "0 < n" "i < N"
  shows "next_index n k i < N + n * k"
proof (cases "Suc (i mod k) = k")
  case True
  then have "next_index n k i = Suc i + (n - 1) * k" by (simp add: next_index_def)
  moreover have "Suc i \<le> N" using assms(3) by simp
  moreover have "(n - 1) * k < n * k" using assms by simp
  ultimately show ?thesis by linarith
next
  case False
  then have "next_index n k i = Suc i" by (simp add: next_index_def)
  moreover have "0 < n * k" using assms(1,2) by simp
  ultimately show ?thesis using assms(3) by linarith
qed

text \<open>The indices of a task below one of its indices, and below the next one.\<close>

lemma filter_next:
  assumes "0 < k" "0 < n" "task_of n k i = c" "i < j" "j \<le> next_index n k i"
  shows "filter (\<lambda>m. task_of n k m = c) [0..<j] = filter (\<lambda>m. task_of n k m = c) [0..<i] @ [i]"
proof -
  have "[0..<j] = [0..<i] @ i # [Suc i..<j]" by (rule upt_split_at [OF assms(4)])
  moreover have "filter (\<lambda>m. task_of n k m = c) [Suc i..<j] = []"
    using next_index_ok(3) [OF assms(1-3)] assms(5) by (auto simp: filter_empty_conv)
  ultimately show ?thesis using assms(3) by simp
qed

lemma chunk_step_at:
  fixes start step :: "'w::len word"
  assumes nk: "0 < n" "0 < k" "n * k < 2 ^ 64" and i: "task_of n k i = c"
  shows "chunk_step (of_nat k) (step * ucast ((of_nat n - 1) * of_nat k :: 64 word)) (of_nat (i mod k), at start step i + step) =
    (of_nat (next_index n k i mod k), at start step (next_index n k i))"
proof -
  let ?i = "next_index n k i"
  note N = next_index_ok(2) [OF nk(2,1) i]
  have "1 * k \<le> n * k" by (rule mult_le_mono1) (use nk(1) in simp)
  with nk(3) have "k < 2 ^ 64" by linarith
  with nk(2) have km: "i mod k < k" "k < 2 ^ 64" by simp_all
  have d: "of_nat n - 1 = (of_nat (n - 1) :: 64 word)" using nk(1) by (simp add: of_nat_diff)
  have "(n - 1) * k < 2 ^ 64" using nk(3) by (meson diff_le_self le_less_trans mult_le_mono1)
  then have jump: "ucast ((of_nat n - 1) * of_nat k :: 64 word) = (of_nat ((n - 1) * k) :: 'w word)"
    unfolding d of_nat_mult [symmetric] by (rule ucast_of_nat_64)
  have wrap: "(of_nat (i mod k) + 1 :: 64 word) = of_nat k \<longleftrightarrow> Suc (i mod k) = k"
  proof -
    have "(of_nat (Suc (i mod k)) :: 64 word) = of_nat k \<longleftrightarrow> Suc (i mod k) = k"
      using km Suc_leI [OF km(1)] by (simp only: word_of_nat_eq_iff) (simp add: take_bit_nat_eq_self)
    then show ?thesis by (simp add: add.commute)
  qed
  have nx: "at start step (Suc i + (n - 1) * k) = at start step i + step + step * of_nat ((n - 1) * k)"
    by (simp only: at_add at_Suc mult.commute [of step])
  show ?thesis
  proof (cases "Suc (i mod k) = k")
    case True
    have "?i mod k = 0" using N True by simp
    moreover have "?i = Suc i + (n - 1) * k" using True by (simp add: next_index_def)
    ultimately show ?thesis unfolding jump chunk_step_def prod.case wrap using True nx by (simp only: if_True simp_thms) simp
  next
    case False
    have "?i mod k = Suc (i mod k)" using N False by simp
    moreover have "?i = Suc i" using False by (simp add: next_index_def)
    ultimately show ?thesis unfolding chunk_step_def prod.case wrap using False by (simp add: at_Suc add.commute)
  qed
qed

text \<open>The loop of a task, when the exit predicate separates the indices below \<open>N\<close> from those at or after it.\<close>

lemma task_from:
  fixes start step limit :: "'w::len word"
  assumes nk: "0 < n" "0 < k" "n * k < 2 ^ 64" and sep: "\<And>i. i < N + n * k \<Longrightarrow> compare q (at start step i) limit \<longleftrightarrow> N \<le> i"
  defines "b \<equiv> \<lambda>((c, x), log :: 'w word list). \<not> compare q x limit"
    and "body \<equiv> \<lambda>((c, x), log). Inr (chunk_step (of_nat k) (step * ucast ((of_nat n - 1) * of_nat k :: 64 word)) (c, x + step), log @ [x])"
  assumes i: "task_of n k i = c" "i < N + n * k" and log: "\<forall>m < i. task_of n k m = c \<longrightarrow> m < N"
  shows "\<exists>e. whileE b body ((of_nat (i mod k), at start step i), map (at start step) (filter (\<lambda>m. task_of n k m = c) [0..<i])) =
    Inr (e, map (at start step) (filter (\<lambda>m. task_of n k m = c) [0..<N]))"
  using i log
proof (induction "N + n * k - i" arbitrary: i rule: less_induct)
  case less
  let ?P = "\<lambda>m. task_of n k m = c"
  show ?case
  proof (cases "N \<le> i")
    case True
    have "filter ?P [N..<i] = []" using less.prems(3) by (auto simp: filter_empty_conv)
    moreover have "[0..<i] = [0..<N] @ [N..<i]" using True upt_add_eq_append [of 0 N "i - N"] by simp
    ultimately have "filter ?P [0..<i] = filter ?P [0..<N]" by simp
    moreover have "compare q (at start step i) limit" using sep [OF less.prems(2)] True by simp
    ultimately show ?thesis by (simp add: whileE_done b_def)
  next
    case False
    let ?i = "next_index n k i"
    note N = next_index_ok [OF nk(2,1) less.prems(1)]
    have i': "?i < N + n * k" using next_index_bound [OF nk(2,1)] False by simp
    have log': "\<forall>m < ?i. ?P m \<longrightarrow> m < N"
    proof (intro allI impI)
      fix m assume m: "m < ?i" "?P m"
      from N(3) [OF _ m(1)] m(2) have "m \<le> i" by (meson not_le)
      with False show "m < N" by simp
    qed
    have "body ((of_nat (i mod k), at start step i), map (at start step) (filter ?P [0..<i])) =
        Inr ((of_nat (?i mod k), at start step ?i), map (at start step) (filter ?P [0..<?i]))"
      using chunk_step_at [OF nk less.prems(1), of step start] filter_next [OF nk(2,1) less.prems(1) N(4) order_refl] by (simp add: body_def)
    moreover have "b ((of_nat (i mod k), at start step i), map (at start step) (filter ?P [0..<i]))"
      using sep [OF less.prems(2)] False by (simp add: b_def)
    ultimately have "whileE b body ((of_nat (i mod k), at start step i), map (at start step) (filter ?P [0..<i])) =
        whileE b body ((of_nat (?i mod k), at start step ?i), map (at start step) (filter ?P [0..<?i]))" by (simp add: whileE_step)
    then show ?thesis using less.hyps [OF _ N(1) i' log'] N(4) i' by simp
  qed
qed

lemma start_at: "c * k < 2 ^ 64 \<Longrightarrow> start + step * ucast (of_nat c * of_nat k :: 64 word) = at start step (c * k)"
  unfolding of_nat_mult [symmetric] by (simp only: ucast_of_nat_64) (simp add: at_def mult.commute)

lemma task_start:
  assumes "0 < k" "c < n"
  shows "task_of n k (c * k) = c" and "\<And>m. m < c * k \<Longrightarrow> task_of n k m \<noteq> c" and "filter (\<lambda>m. task_of n k m = c) [0..<c * k] = []"
proof -
  show "task_of n k (c * k) = c" using assms by (simp add: task_of_def)
  show *: "task_of n k m \<noteq> c" if "m < c * k" for m
  proof -
    have "m div k < c" using that assms(1) by (simp add: div_less_iff_less_mult)
    then show ?thesis using assms(2) by (simp add: task_of_def)
  qed
  show "filter (\<lambda>m. task_of n k m = c) [0..<c * k] = []" using * by (auto simp: filter_empty_conv)
qed

lemma task_loop_ok:
  fixes start step limit :: "'w::len word"
  assumes nk: "0 < n" "0 < k" "n * k < 2 ^ 64" and sep: "\<And>i. i < N + n * k \<Longrightarrow> compare q (at start step i) limit \<longleftrightarrow> N \<le> i" and c: "c < n"
  shows "\<exists>e. task_loop q start step limit (of_nat n) (of_nat k) (of_nat c) = Inr (e, map (at start step) (filter (\<lambda>m. task_of n k m = c) [0..<N]))"
proof -
  have ck: "c * k < 2 ^ 64" using nk(3) c by (meson le_less_trans less_imp_le_nat mult_le_mono1)
  note t = task_start [OF nk(2) c]
  have "c * k < n * k" using c nk(2) by simp
  then have l: "c * k < N + n * k" by linarith
  have "\<forall>m < c * k. task_of n k m = c \<longrightarrow> m < N" using t(2) by blast
  then show ?thesis using task_from [OF nk sep t(1) l] by (simp add: task_loop_def start_at [OF ck] t(3))
qed

section \<open>Loops whose header does work\<close>

text \<open>When the header has other instructions, the preheader and the latches check that the previous iteration of the loop would have run the body,
  before the header is entered. Both logs of the values of the variable are kept: at the header, and at the body.\<close>

definition guarded_step ::
  "predicate \<Rightarrow> 'w::len word \<Rightarrow> 'w word \<Rightarrow> 64 word \<Rightarrow> 'w word \<Rightarrow>
   bool \<times> (64 word \<times> 'w word) \<times> 'w word list \<times> 'w word list \<Rightarrow> bool \<times> (64 word \<times> 'w word) \<times> 'w word list \<times> 'w word list" where
  "guarded_step q step limit chunkSize chunkStep = (\<lambda>(_, (c, x), headers, bodies).
     if compare q x limit then (False, (c, x), headers @ [x], bodies)
     else let (c', x') = chunk_step chunkSize chunkStep (c, x + step)
          in (\<not> compare q (x' - step) limit, (c', x'), headers @ [x], bodies @ [x]))"

definition guarded_task_loop ::
  "predicate \<Rightarrow> 'w::len word \<Rightarrow> 'w word \<Rightarrow> 'w word \<Rightarrow> 64 word \<Rightarrow> 64 word \<Rightarrow> 64 word \<Rightarrow>
   (bool \<times> (64 word \<times> 'w word) \<times> 'w word list \<times> 'w word list) res" where
  "guarded_task_loop q start step limit numCores chunkSize core =
     (let x = start + step * ucast (core * chunkSize)
      in whileE fst (Inr \<circ> guarded_step q step limit chunkSize (step * ucast ((numCores - 1) * chunkSize)))
           (\<not> (x \<noteq> start \<and> compare q (x - step) limit), (0, x), [], []))"

lemma at_pred: "0 < i \<Longrightarrow> at start step i - step = at start step (i - 1)"
  using at_Suc [of start step "i - 1"] by simp

lemma guarded_from:
  fixes start step limit :: "'w::len word"
  assumes nk: "0 < n" "0 < k" "n * k < 2 ^ 64" and sep: "\<And>i. i < N + n * k \<Longrightarrow> compare q (at start step i) limit \<longleftrightarrow> N \<le> i"
  defines "body \<equiv> Inr \<circ> guarded_step q step limit (of_nat k) (step * ucast ((of_nat n - 1) * of_nat k :: 64 word))"
    and "log \<equiv> \<lambda>c i. map (at start step) (filter (\<lambda>m. task_of n k m = c) [0..<i])"
  assumes i: "task_of n k i = c" "i \<le> N"
  shows "\<exists>e. whileE fst body (True, (of_nat (i mod k), at start step i), log c i, log c i) = Inr (False, e, log c (Suc N), log c N)"
  using i
proof (induction "N - i" arbitrary: i rule: less_induct)
  case less
  let ?i = "next_index n k i"
  note N = next_index_ok [OF nk(2,1) less.prems(1)]
  have pos: "0 < n * k" using nk(1,2) by simp
  have Suc_i: "log c (Suc i) = log c i @ [at start step i]" using less.prems(1) by (simp add: log_def)
  show ?case
  proof (cases "i = N")
    case True
    then have "compare q (at start step i) limit" using sep [of i] pos by simp
    then have "body (True, (of_nat (i mod k), at start step i), log c i, log c i) =
        Inr (False, (of_nat (i mod k), at start step i), log c (Suc N), log c N)" using Suc_i True by (simp add: body_def guarded_step_def)
    then show ?thesis by (simp add: whileE_step whileE_done)
  next
    case False
    then have iN: "i < N" using less.prems(2) by simp
    then have "\<not> compare q (at start step i) limit" using sep [of i] by simp
    then have step: "body (True, (of_nat (i mod k), at start step i), log c i, log c i) =
        Inr (\<not> compare q (at start step (?i - 1)) limit, (of_nat (?i mod k), at start step ?i), log c (Suc i), log c (Suc i))"
      using chunk_step_at [OF nk less.prems(1), of step start] N(4) Suc_i by (simp add: body_def guarded_step_def at_pred)
    have "?i < N + n * k" using next_index_bound [OF nk(2,1) iN] .
    then have guard: "compare q (at start step (?i - 1)) limit \<longleftrightarrow> N < ?i" using sep [of "?i - 1"] N(4) by auto
    have upto: "log c j = log c (Suc i)" if "i < j" "j \<le> ?i" for j
      using filter_next [OF nk(2,1) less.prems(1) that] less.prems(1) by (simp add: log_def)
    show ?thesis
    proof (cases "N < ?i")
      case True
      then have "log c (Suc N) = log c (Suc i)" "log c N = log c (Suc i)" using upto [of "Suc N"] upto [of N] iN by (simp_all only: Suc_leI less_imp_le less_SucI)
      with step guard True have "body (True, (of_nat (i mod k), at start step i), log c i, log c i) =
          Inr (False, (of_nat (?i mod k), at start step ?i), log c (Suc N), log c N)" by (simp only: simp_thms)
      then have "whileE fst body (True, (of_nat (i mod k), at start step i), log c i, log c i) =
          whileE fst body (False, (of_nat (?i mod k), at start step ?i), log c (Suc N), log c N)" by (intro whileE_step) simp_all
      then show ?thesis by (simp add: whileE_done)
    next
      case le: False
      have "log c (Suc i) = log c ?i" using upto [OF N(4) order_refl] by (rule sym)
      then have "body (True, (of_nat (i mod k), at start step i), log c i, log c i) = Inr (True, (of_nat (?i mod k), at start step ?i), log c ?i, log c ?i)"
        using step guard le by (simp only: simp_thms)
      then have "whileE fst body (True, (of_nat (i mod k), at start step i), log c i, log c i) =
          whileE fst body (True, (of_nat (?i mod k), at start step ?i), log c ?i, log c ?i)" by (intro whileE_step) simp_all
      moreover have "\<exists>e. whileE fst body (True, (of_nat (?i mod k), at start step ?i), log c ?i, log c ?i) = Inr (False, e, log c (Suc N), log c N)"
        using le iN N(4) by (intro less.hyps N(1)) linarith+
      ultimately show ?thesis by simp
    qed
  qed
qed

lemma guarded_task_loop_ok:
  fixes start step limit :: "'w::len word"
  assumes nk: "0 < n" "0 < k" "n * k < 2 ^ 64" and sep: "\<And>i. i < N + n * k \<Longrightarrow> compare q (at start step i) limit \<longleftrightarrow> N \<le> i" and c: "c < n"
    and inj: "\<And>i. 0 < i \<Longrightarrow> i < N + n * k \<Longrightarrow> at start step i \<noteq> start"
  shows "\<exists>e. guarded_task_loop q start step limit (of_nat n) (of_nat k) (of_nat c) =
    Inr (False, e, map (at start step) (filter (\<lambda>m. task_of n k m = c) [0..<Suc N]), map (at start step) (filter (\<lambda>m. task_of n k m = c) [0..<N]))"
proof -
  have ck: "c * k < 2 ^ 64" using nk(3) c by (meson le_less_trans less_imp_le_nat mult_le_mono1)
  note t = task_start [OF nk(2) c]
  have "c * k < n * k" using c nk(2) by simp
  then have l: "c * k < N + n * k" by linarith
  have guard: "at start step (c * k) \<noteq> start \<and> compare q (at start step (c * k) - step) limit \<longleftrightarrow> N < c * k"
  proof (cases "c * k")
    case (Suc m)
    then show ?thesis using inj [of "c * k"] l sep [of m] by (simp add: at_pred less_Suc_eq_le)
  next
    case 0
    then show ?thesis by (simp only: at_0) simp
  qed
  show ?thesis
  proof (cases "N < c * k")
    case True
    have none: "filter (\<lambda>m. task_of n k m = c) [0..<j] = []" if "j \<le> c * k" for j using t(2) that by (auto simp: filter_empty_conv)
    from True guard show ?thesis using none [of N] none [of "Suc N"]
      by (simp add: guarded_task_loop_def start_at [OF ck] whileE_done del: upt_Suc)
  next
    case False
    then have "c * k \<le> N" by simp
    from guarded_from [OF nk sep t(1) this] t(3) False guard show ?thesis
      by (simp add: guarded_task_loop_def start_at [OF ck])
  qed
qed

section \<open>The exit predicate\<close>

fun is_signed :: "predicate \<Rightarrow> bool" where
  "is_signed ICMP_SGT = True" | "is_signed ICMP_SGE = True" | "is_signed ICMP_SLT = True" | "is_signed ICMP_SLE = True" | "is_signed _ = False"

text \<open>The values of the first \<open>m\<close> indices do not wrap around, in the reading of the predicate.\<close>

definition no_wrap :: "predicate \<Rightarrow> 'w::len word \<Rightarrow> 'w word \<Rightarrow> nat \<Rightarrow> bool" where
  "no_wrap p start step m \<longleftrightarrow>
     (if is_signed p then - (2 ^ (LENGTH('w) - 1)) \<le> sint start + int m * sint step \<and> sint start + int m * sint step < 2 ^ (LENGTH('w) - 1)
      else 0 \<le> uint start + int m * sint step \<and> uint start + int m * sint step < 2 ^ LENGTH('w))"

lemma between:
  fixes a s :: int
  assumes "lo \<le> a" "a < hi" "lo \<le> a + int m * s" "a + int m * s < hi" "i \<le> m"
  shows "lo \<le> a + int i * s \<and> a + int i * s < hi"
proof (cases "0 \<le> s")
  case True
  then have "0 \<le> int i * s" "int i * s \<le> int m * s" using assms(5) by (simp_all add: mult_right_mono)
  with assms show ?thesis by linarith
next
  case False
  then have "int i * s \<le> 0" "int m * s \<le> int i * s" using assms(5) by (simp_all add: mult_nonneg_nonpos mult_right_mono_neg)
  with assms show ?thesis by linarith
qed

lemma sint_at:
  fixes start step :: "'w::len word"
  assumes "no_wrap p start step m" "is_signed p" "i \<le> m"
  shows "sint (at start step i) = sint start + int i * sint step"
proof -
  have "at start step i = of_int (sint start + int i * sint step)" by (simp add: at_def)
  then have "sint (at start step i) = signed_take_bit (LENGTH('w) - 1) (sint start + int i * sint step)" by (simp only: signed_of_int) simp
  also have "\<dots> = sint start + int i * sint step"
    using between [of "- (2 ^ (LENGTH('w) - 1))" "sint start" "2 ^ (LENGTH('w) - 1)" m "sint step" i] assms sint_ge [of start] sint_lt [of start]
    by (intro signed_take_bit_int_eq_self) (auto simp: no_wrap_def)
  finally show ?thesis .
qed

lemma uint_at:
  fixes start step :: "'w::len word"
  assumes "no_wrap p start step m" "\<not> is_signed p" "i \<le> m"
  shows "uint (at start step i) = uint start + int i * sint step"
proof -
  have "at start step i = of_int (uint start + int i * sint step)" by (simp add: at_def)
  then have "uint (at start step i) = take_bit LENGTH('w) (uint start + int i * sint step)" by (simp only: unsigned_of_int) (simp add: take_bit_eq_mod)
  also have "\<dots> = uint start + int i * sint step"
    using between [of 0 "uint start" "2 ^ LENGTH('w)" m "sint step" i] assms uint_bounded [of start]
    by (intro take_bit_int_eq_self) (auto simp: no_wrap_def)
  finally show ?thesis .
qed

lemma step_mono:
  fixes s :: int
  shows "0 < s \<Longrightarrow> int i * s \<le> int j * s \<longleftrightarrow> i \<le> j" "s \<le> 0 \<Longrightarrow> i \<le> j \<Longrightarrow> int j * s \<le> int i * s"
  by (simp_all add: mult_right_mono_neg)

lemma exits_separate:
  fixes start step limit :: "'w::len word"
  assumes q: "non_strict_predicate (0 < sint step) p = Inr q" and ne: "p \<noteq> ICMP_NE" and w: "no_wrap p start step m"
    and N: "N \<le> m" "\<And>i. i < N \<Longrightarrow> \<not> compare p (at start step i) limit" "compare p (at start step N) limit" and i: "i \<le> m"
  shows "compare q (at start step i) limit \<longleftrightarrow> N \<le> i"
proof -
  note U = uint_at [OF w] and S = sint_at [OF w]
  note NN = N(2) [of i] N(3) N(1) i
  show ?thesis
  proof (cases "0 < sint step")
    case True
    note m = step_mono(1) [OF True]
    define tN ti where "tN = int N * sint step" and "ti = int i * sint step"
    have le: "N \<le> i \<Longrightarrow> tN \<le> ti" and lt: "ti < tN \<longleftrightarrow> i < N" using m [of N i] by (simp_all add: tN_def ti_def not_le [symmetric])
    note U = U [of N, folded tN_def] U [of i, folded ti_def] and S = S [of N, folded tN_def] S [of i, folded ti_def]
    show ?thesis
    proof (cases p)
      case ICMP_EQ
      then have l: "uint limit = uint start + tN" using U NN by auto
      have "q = ICMP_UGE" using q ICMP_EQ True by simp
      then show ?thesis using l U NN(4) ICMP_EQ lt by auto
    next
      case ICMP_UGT
      then show ?thesis using q True U NN le by (cases "i < N") (auto simp: not_less)
    next
      case ICMP_UGE
      then show ?thesis using q True U NN le by (cases "i < N") (auto simp: not_less)
    next
      case ICMP_SGT
      then show ?thesis using q True S NN le by (cases "i < N") (auto simp: not_less)
    next
      case ICMP_SGE
      then show ?thesis using q True S NN le by (cases "i < N") (auto simp: not_less)
    qed (use q True ne in auto)
  next
    case False
    then have neg: "sint step \<le> 0" by simp
    have le: "N \<le> i \<Longrightarrow> int i * sint step \<le> int N * sint step" by (rule step_mono(2) [OF neg])
    show ?thesis
    proof (cases p)
      case ICMP_EQ
      then have l: "uint limit = uint start + int N * sint step" using U [of N] NN by auto
      have qq: "q = ICMP_ULE" using q ICMP_EQ False by simp
      show ?thesis
      proof (cases "N \<le> i")
        case True
        then show ?thesis using l U [of i] NN(4) ICMP_EQ le qq by simp
      next
        case False2: False
        then have "uint (at start step i) \<noteq> uint limit" using NN ICMP_EQ by (simp add: word_uint_eq_iff)
        moreover have "int N * sint step \<le> int i * sint step" using False2 by (intro step_mono(2) [OF neg]) simp
        ultimately show ?thesis using l U [of i] NN(4) ICMP_EQ False2 qq by simp
      qed
    next
      case ICMP_ULT
      then show ?thesis using q False U [of N] U [of i] NN le by (cases "i < N") auto
    next
      case ICMP_ULE
      then show ?thesis using q False U [of N] U [of i] NN le by (cases "i < N") auto
    next
      case ICMP_SLT
      then show ?thesis using q False S [of N] S [of i] NN le by (cases "i < N") auto
    next
      case ICMP_SLE
      then show ?thesis using q False S [of N] S [of i] NN le by (cases "i < N") auto
    qed (use q False ne in auto)
  qed
qed

lemma mset_by_task: "0 < n \<Longrightarrow> mset (concat (map (\<lambda>c. filter (\<lambda>i. task_of n k i = c) xs) [0..<n])) = mset xs"
proof (induction xs)
  case (Cons x xs)
  have t: "task_of n k x < n" using Cons.prems by (simp add: task_of_def)
  have "(\<Sum>c \<leftarrow> [0..<n]. mset (filter (\<lambda>i. task_of n k i = c) (x # xs))) =
      (\<Sum>c \<leftarrow> [0..<n]. (if task_of n k x = c then {#x#} else {#}) + mset (filter (\<lambda>i. task_of n k i = c) xs))"
    by (intro arg_cong [where f = sum_list] map_cong) auto
  also have "\<dots> = (\<Sum>c \<leftarrow> [0..<n]. if task_of n k x = c then {#x#} else {#}) + (\<Sum>c \<leftarrow> [0..<n]. mset (filter (\<lambda>i. task_of n k i = c) xs))"
    by (simp add: sum_list_addf)
  also have "(\<Sum>c \<leftarrow> [0..<n]. if task_of n k x = c then {#x#} else {#}) = {#x#}"
    using t by (simp add: sum_list_distinct_conv_sum_set)
  finally show ?case using Cons by (simp add: mset_concat comp_def)
qed (simp add: mset_concat comp_def)

lemma mset_tasks: "0 < n \<Longrightarrow> mset (concat (map (\<lambda>c. map f (filter (\<lambda>i. task_of n k i = c) xs)) [0..<n])) = mset (map f xs)"
proof -
  assume n: "0 < n"
  have "concat (map (\<lambda>c. map f (filter (\<lambda>i. task_of n k i = c) xs)) [0..<n]) = map f (concat (map (\<lambda>c. filter (\<lambda>i. task_of n k i = c) xs) [0..<n]))"
    by (simp add: map_concat comp_def)
  then show ?thesis using mset_by_task [OF n, of k xs] by (simp only: mset_map)
qed

lemma at_nth: "map (nth (map (at start step) [0..<N])) (filter P [0..<N]) = map (at start step) (filter P [0..<N])"
  by (rule map_cong) auto

lemma separated:
  fixes start step limit :: "'w::len word"
  assumes "sequential_loop p start step limit = Inr (x, log)" and "non_strict_predicate (0 < sint step) p = Inr q" and "p \<noteq> ICMP_NE"
    and "no_wrap p start step (length log + m)"
  shows "log = map (at start step) [0..<length log]" and "x = at start step (length log)"
    and "\<And>i. i < length log + m \<Longrightarrow> compare q (at start step i) limit \<longleftrightarrow> length log \<le> i"
proof -
  from sequential_returns [OF assms(1)] have S: "log = map (at start step) [0..<length log]" "x = at start step (length log)" "compare p x limit"
    "\<forall>i < length log. \<not> compare p (at start step i) limit" by (simp_all only: conj_assoc) blast+
  show "log = map (at start step) [0..<length log]" "x = at start step (length log)" using S by blast+
  show "compare q (at start step i) limit \<longleftrightarrow> length log \<le> i" if "i < length log + m" for i
    using exits_separate [OF assms(2,3,4), of "length log" limit i] S that by simp
qed

lemma cores_chunks:
  fixes a b :: "64 word"
  assumes "0 < a" "0 < b"
  shows "0 < unat a" "0 < unat b"
  using assms by (simp_all add: unat_gt_0 word_neq_0_conv)

section \<open>The tasks execute the iterations of the loop\<close>





section \<open>Where the non-strict predicate is not the exit of the loop\<close>

text \<open>The exit on equality is made unsigned whatever the signs of the values. A loop that counts from -5 to 3 by one with an exit on equality
  executes eight iterations without a signed overflow; with the non-strict predicate no task of two executes any of them. An exit on
  inequality is kept: the loop that leaves at once then runs, on the task whose start is the limit, an iteration of its own.\<close>

theorem non_strict_exit_deviates:
  "non_strict_predicate (0 < sint (1 :: 8 word)) ICMP_EQ = Inr ICMP_UGE \<and>
   sequential_loop ICMP_EQ (- 5) 1 (3 :: 8 word) = Inr (3, [- 5, - 4, - 3, - 2, - 1, 0, 1, 2]) \<and>
   (\<forall>c \<in> {0, 1}. \<exists>e. task_loop ICMP_UGE (- 5) 1 (3 :: 8 word) 2 1 c = Inr (e, [])) \<and>
   non_strict_predicate (0 < sint (1 :: 8 word)) ICMP_NE = Inr ICMP_NE \<and>
   sequential_loop ICMP_NE 0 1 (1 :: 8 word) = Inr (0, []) \<and>
   (\<exists>e. task_loop ICMP_NE 0 1 (1 :: 8 word) 2 1 1 = Inr (e, [1]))"
  by (simp add: sequential_loop_def task_loop_def whileE_unfold chunk_step_def)

end
