(* ===== verification/IVCode.thy ===== *)
theory IVCode
  imports IterationSpace IrLemmas
begin

text \<open>
  What the generated code of \<open>IVUtility\<close> computes: the instructions that \<open>createChunkPHI\<close> and \<open>chunkInductionVariablePHI\<close> insert in the latch of a
  task's loop compute one step of the recurrence \<open>chunk_step\<close> for the values of the two PHIs.
\<close>

section \<open>Registers of a function\<close>

definition regs :: "ir_fun \<Rightarrow> nat \<Rightarrow> nat set" where
  "regs F b = fst ` set (ir_code F b)"

definition ir_wf :: "ir_fun \<Rightarrow> bool" where
  "ir_wf F \<longleftrightarrow> (\<forall>b. distinct (map fst (ir_code F b)) \<and> (\<forall>r \<in> regs F b. r < ir_nextReg F)) \<and> (\<forall>b b'. b \<noteq> b' \<longrightarrow> regs F b \<inter> regs F b' = {})"

lemma emitBeforeTerminator_eq:
  "ir_code F b = c @ [t] \<Longrightarrow> isTerminator (snd t) \<Longrightarrow> emitBeforeTerminator b i F =
     Inr (Reg (ir_nextReg F), F\<lparr>ir_code := (ir_code F)(b := c @ [(ir_nextReg F, i), t]), ir_nextReg := Suc (ir_nextReg F)\<rparr>)"
  by (simp add: emitBeforeTerminator_def Let_def)

lemma change_inst_other: "r \<notin> regs F b \<Longrightarrow> ir_code (change_inst r f F) b = ir_code F b"
  unfolding change_inst_def regs_def by simp (rule map_idI, force)

lemma map_of_change_inst: "map_of (ir_code (change_inst r f F) b) x = (if x = r then map_option f (map_of (ir_code F b) x) else map_of (ir_code F b) x)"
proof -
  have "map_of (map (\<lambda>(y, i). (y, if y = r then f i else i)) c) x = (if x = r then map_option f (map_of c x) else map_of c x)" for c
    by (induction c) auto
  then show ?thesis by (simp add: change_inst_def)
qed

lemma map_of_addIncoming:
  "map_of (ir_code (addIncoming b phi inc F) b') x =
     (if b' = b then map_option (\<lambda>i. snd (add_incoming phi inc (x, i))) (map_of (ir_code F b) x) else map_of (ir_code F b') x)"
proof -
  have g: "map_of (map (\<lambda>(r, i). (r, g r i)) c) x = map_option (g x) (map_of c x)" for g :: "nat \<Rightarrow> ir_inst \<Rightarrow> ir_inst" and c
    by (induction c) auto
  have "map_of (map (add_incoming phi inc) c) x = map_option (\<lambda>i. snd (add_incoming phi inc (x, i))) (map_of c x)" for c
    unfolding add_incoming_def prod.case snd_conv by (rule g)
  then show ?thesis by (simp add: addIncoming_def)
qed

lemma map_of_emitPhi:
  assumes "emitPhi b F = (v, F')" "\<forall>r \<in> regs F b. r < ir_nextReg F"
  shows "v = Reg (ir_nextReg F)" and "ir_nextReg F' = Suc (ir_nextReg F)" and "\<And>b'. b' \<noteq> b \<Longrightarrow> ir_code F' b' = ir_code F b'"
    and "map_of (ir_code F' b) = (map_of (ir_code F b))(ir_nextReg F \<mapsto> Phi [])"
proof -
  let ?P = "isPhi \<circ> snd" and ?c = "ir_code F b" and ?r = "ir_nextReg F"
  have F': "v = Reg ?r" "F' = F\<lparr>ir_code := (ir_code F)(b := takeWhile ?P ?c @ (?r, Phi []) # dropWhile ?P ?c), ir_nextReg := Suc ?r\<rparr>"
    using assms(1) by (auto simp: emitPhi_def Let_def)
  then show "v = Reg ?r" "ir_nextReg F' = Suc ?r" "\<And>b'. b' \<noteq> b \<Longrightarrow> ir_code F' b' = ir_code F b'" by simp_all
  have none: "map_of (takeWhile ?P ?c) ?r = None"
    using assms(2) by (force simp: map_of_eq_None_iff regs_def dest: set_takeWhileD)
  have c: "map_of ?c = map_of (dropWhile ?P ?c) ++ map_of (takeWhile ?P ?c)" by (simp only: map_of_append [symmetric] takeWhile_dropWhile_id)
  have "map_of (takeWhile ?P ?c @ (?r, Phi []) # dropWhile ?P ?c) x = ((map_of ?c)(?r \<mapsto> Phi [])) x" for x
    unfolding fun_upd_apply c using none by (auto simp: map_add_def split: option.splits)
  then show "map_of (ir_code F' b) = (map_of ?c)(?r \<mapsto> Phi [])" by (auto simp: F'(2))
qed

section \<open>The latch\<close>

text \<open>The six instructions of the latch, from the register \<open>r\<close> on, for the counter \<open>chunkPHI\<close>, the value \<open>v\<close> that the variable has at the next
  iteration, and the step to the next chunk.\<close>

definition latch_code :: "nat \<Rightarrow> nat \<Rightarrow> ir_value \<Rightarrow> ir_value \<Rightarrow> ir_value \<Rightarrow> ir_value \<Rightarrow> (nat \<times> ir_inst) list" where
  "latch_code w r chunkPHI chunkSize v chunkStepSize =
     [(r, BinOp OpAdd (IntegerTy 64) chunkPHI (Const 64 1)), (r + 1, ICmp ICMP_EQ 64 (Reg r) chunkSize),
      (r + 2, Select (Reg (r + 1)) (Const 64 0) (Reg r)),
      (r + 3, BinOp OpAdd (IntegerTy w) v chunkStepSize), (r + 4, Select (Reg (r + 1)) (Reg (r + 3)) v)]"

lemma with_code_again [simp]: "with_code (with_code F b c r) b c' r' = with_code F b c' r'"
  by (simp add: with_code_def)

lemma before_terminator:
  "ir_code F b = c @ [t] \<Longrightarrow> isTerminator (snd t) \<Longrightarrow> emitBeforeTerminator b i F =
     Inr (Reg (ir_nextReg F), with_code F b ((c @ [(ir_nextReg F, i)]) @ [t]) (Suc (ir_nextReg F)))"
  by (simp add: emitBeforeTerminator_eq with_code_def)

lemma chunk_pred_latch:
  assumes "ir_code F B = c @ [t]" "isTerminator (snd t)" "P \<noteq> B" "ir_nextReg F = r"
  shows "chunk_pred w P H chunkSize phi B F = Inr (addIncoming H phi (Reg (r + 2), B)
    (with_code F B ((c @ [(r, BinOp OpAdd (IntegerTy w) phi (Const w 1)), (r + 1, ICmp ICMP_EQ w (Reg r) chunkSize),
       (r + 2, Select (Reg (r + 1)) (Const w 0) (Reg r))]) @ [t]) (r + 3)))"
  using assms by (simp add: chunk_pred_def before_terminator [where t = t] del: append_assoc) (simp add: numeral_3_eq_3)

lemma chunk_incoming_latch:
  assumes "ir_code F B = c @ [t]" "isTerminator (snd t)" "P \<noteq> B" "ir_nextReg F = r"
    and "incomings F H ivPHI = Inr incs" "k < length incs" "incs ! k = (v, B)"
    and "incomings F H chunkPHI = Inr cs" "find (\<lambda>(_, b). b = B) cs = Some (chunkWrap, b')" "find_inst F B chunkWrap = Inr (Select done z i)"
  shows "chunk_incoming (IntegerTy w) (IntegerTy w) P H ivPHI chunkPHI chunkStepSize k F = Inr (set_incoming ivPHI k (Reg (r + 1))
    (with_code F B ((c @ [(r, BinOp OpAdd (IntegerTy w) v chunkStepSize), (r + 1, Select done (Reg r) v)]) @ [t]) (r + 2)))"
  using assms by (simp add: chunk_incoming_def offsetIVPHI_def before_terminator [where t = t] del: append_assoc) simp

lemma chunk_code:
  assumes "ir_wf F" and "ir_code F B = code @ [(t, Br H)]" and "B \<noteq> H" "P \<noteq> B"
    and "map_of (ir_code F H) ivr = Some (Phi [(startV, P), (v, B)])"
  defines "chunkPHI \<equiv> Reg (ir_nextReg F)"
  shows "\<exists>F1 F2. createChunkPHI [P, B] 64 P H chunkSize F = Inr (chunkPHI, F1) \<and>
    chunkInductionVariablePHI (IntegerTy w) (IntegerTy w) P H (Reg ivr) chunkPHI chunkStepSize F1 = Inr F2 \<and>
    ir_code F2 B = code @ latch_code w (ir_nextReg F + 1) chunkPHI chunkSize v chunkStepSize @ [(t, Br H)] \<and>
    incomings F2 H chunkPHI = Inr [(Const 64 0, P), (Reg (ir_nextReg F + 3), B)] \<and>
    incomings F2 H (Reg ivr) = Inr [(startV, P), (Reg (ir_nextReg F + 5), B)]"
proof -
  define r where "r = ir_nextReg F"
  have phi: "chunkPHI = Reg r" by (simp add: r_def chunkPHI_def)
  obtain p F' where "emitPhi H F = (p, F')" by fastforce
  moreover from this have "p = chunkPHI" by (simp add: emitPhi_def Let_def chunkPHI_def)
  ultimately have e: "emitPhi H F = (chunkPHI, F')" by simp
  have low: "\<forall>x \<in> regs F H. x < ir_nextReg F" using assms(1) by (simp add: ir_wf_def)
  note E = map_of_emitPhi [OF e low]
  have ivr: "ivr < r" using low assms(5) by (force simp: regs_def r_def dest: map_of_SomeD)
  let ?F0 = "addIncoming H chunkPHI (Const 64 0, P) F'"
  have B0: "ir_code ?F0 B = code @ [(t, Br H)]" using E(3) assms(2,3) by (simp add: addIncoming_def)
  have n0: "ir_nextReg ?F0 = r + 1" using E(2) by (simp add: addIncoming_def r_def)
  let ?c1 = "code @ [(r + 1, BinOp OpAdd (IntegerTy 64) chunkPHI (Const 64 1)), (r + 1 + 1, ICmp ICMP_EQ 64 (Reg (r + 1)) chunkSize),
       (r + 1 + 2, Select (Reg (r + 1 + 1)) (Const 64 0) (Reg (r + 1)))]"
  have "chunk_pred 64 P H chunkSize chunkPHI P F' = Inr ?F0" by (simp add: chunk_pred_def)
  moreover define F1 where "F1 = addIncoming H chunkPHI (Reg (r + 1 + 2), B) (with_code ?F0 B (?c1 @ [(t, Br H)]) (r + 1 + 3))"
  ultimately have "foldE (chunk_pred 64 P H chunkSize chunkPHI) [P, B] F' = Inr F1"
    using chunk_pred_latch [OF B0 _ assms(4) n0] by (simp del: append_assoc)
  then have create: "createChunkPHI [P, B] 64 P H chunkSize F = Inr (chunkPHI, F1)" by (simp add: createChunkPHI_def e del: foldE.simps)
  have B1: "ir_code F1 B = ?c1 @ [(t, Br H)]" unfolding F1_def using assms(3) by (simp add: addIncoming_def)
  have n1: "ir_nextReg F1 = r + 4" unfolding F1_def by (simp add: addIncoming_def)
  have h1: "map_of (ir_code F1 H) x = (if x = r then Some (Phi [(Const 64 0, P), (Reg (r + 3), B)]) else map_of (ir_code F H) x)" for x
  proof (cases "x = r")
    case True
    then show ?thesis unfolding F1_def using E(4) assms(3) phi by (simp add: map_of_addIncoming add_incoming_def r_def)
  next
    case False
    have "(\<lambda>i. snd (add_incoming chunkPHI inc (x, i))) = id" for inc using False phi by (auto simp: add_incoming_def fun_eq_iff split: ir_inst.splits)
    then show ?thesis unfolding F1_def using E(4) assms(3) False by (simp add: map_of_addIncoming r_def option.map_id)
  qed
  have regsB: "x < r" if "x \<in> fst ` set (code @ [(t, Br H)])" for x
    using assms(1,2) that unfolding ir_wf_def regs_def r_def by metis
  have none: "map_of code (r + 3) = None" "map_of code (Suc (Suc (Suc r))) = None"
    using regsB [of "r + 3"] by (auto simp: map_of_eq_None_iff numeral_3_eq_3)
  have "find_inst F1 B (Reg (Suc (Suc (Suc r)))) = Inr (Select (Reg (r + 1 + 1)) (Const 64 0) (Reg (r + 1)))"
    using regsB [of t] by (simp add: find_inst_def B1 map_add_def none(2))
  then have d1: "find_inst F1 B (Reg (r + 3)) = Inr (Select (Reg (r + 1 + 1)) (Const 64 0) (Reg (r + 1)))" by (simp add: numeral_3_eq_3)
  have iv1: "incomings F1 H (Reg ivr) = Inr [(startV, P), (v, B)]" and ck1: "incomings F1 H chunkPHI = Inr [(Const 64 0, P), (Reg (r + 3), B)]"
    using h1 ivr assms(5) by (simp_all add: incomings_def find_inst_def phi)
  let ?c2 = "?c1 @ [(r + 4, BinOp OpAdd (IntegerTy w) v chunkStepSize), (r + 4 + 1, Select (Reg (r + 1 + 1)) (Reg (r + 4)) v)]"
  let ?G = "with_code F1 B (?c2 @ [(t, Br H)]) (r + 4 + 2)"
  have s0: "chunk_incoming (IntegerTy w) (IntegerTy w) P H (Reg ivr) chunkPHI chunkStepSize 0 F1 = Inr F1"
    by (simp add: chunk_incoming_def iv1)
  have s1: "chunk_incoming (IntegerTy w) (IntegerTy w) P H (Reg ivr) chunkPHI chunkStepSize 1 F1 = Inr (set_incoming (Reg ivr) 1 (Reg (r + 4 + 1)) ?G)"
    by (rule chunk_incoming_latch [OF B1 _ assms(4) n1 iv1 _ _ ck1 _ d1]) (simp_all add: assms(4))
  have "[0..<2] = [0, 1 :: nat]" by (simp add: upt_rec)
  moreover define F2 where "F2 = set_incoming (Reg ivr) 1 (Reg (r + 4 + 1)) ?G"
  ultimately have chunk: "chunkInductionVariablePHI (IntegerTy w) (IntegerTy w) P H (Reg ivr) chunkPHI chunkStepSize F1 = Inr F2"
    using s0 s1 iv1 by (simp add: chunkInductionVariablePHI_def numeral_2_eq_2)
  have "ivr \<in> regs F H" using assms(5) by (force simp: regs_def dest: map_of_SomeD)
  moreover have "regs F B \<inter> regs F H = {}" using assms(1,3) unfolding ir_wf_def by blast
  ultimately have ivB: "ivr \<notin> regs F B" by blast
  have H2: "map_of (ir_code F2 H) x = (if x = ivr then Some (Phi [(startV, P), (Reg (r + 5), B)]) else map_of (ir_code F1 H) x)" for x
  proof -
    have "ir_code ?G H = ir_code F1 H" using assms(3) by simp
    moreover have "map_of (ir_code F1 H) ivr = Some (Phi [(startV, P), (v, B)])" using h1 [of ivr] ivr assms(5) by simp
    ultimately show ?thesis unfolding F2_def set_incoming_def ir_value.case map_of_change_inst by simp
  qed
  have code: "ir_code F2 B = code @ latch_code w (ir_nextReg F + 1) chunkPHI chunkSize v chunkStepSize @ [(t, Br H)]"
  proof -
    have "ivr \<notin> regs ?G B" using ivB ivr assms(2) by (simp add: regs_def)
    from change_inst_other [OF this] have "ir_code F2 B = ir_code ?G B" unfolding F2_def set_incoming_def ir_value.case .
    then show ?thesis by (simp add: latch_code_def r_def)
  qed
  have "incomings F2 H chunkPHI = Inr [(Const 64 0, P), (Reg (ir_nextReg F + 3), B)]"
    using H2 [of r] h1 [of r] ivr by (simp add: incomings_def find_inst_def phi r_def)
  moreover have "incomings F2 H (Reg ivr) = Inr [(startV, P), (Reg (ir_nextReg F + 5), B)]"
    using H2 [of ivr] by (simp add: incomings_def find_inst_def r_def)
  ultimately show ?thesis using create chunk code by blast
qed

text \<open>The operands that the generated instructions read are older than they are.\<close>

lemma uint_plus_take: "uint (x + y :: 'w::len word) = take_bit LENGTH('w) (uint x + uint y)"
  by (simp add: uint_word_arith_bintrs)

lemma older_val_upd [simp]: "older r v \<Longrightarrow> r \<le> x \<Longrightarrow> val (set_reg x a s) v = val s v"
  by (cases v) (auto simp: older_def)

lemma latch_code_computes:
  fixes x step :: "'w::len word" and c k :: "64 word"
  assumes "older r chunkPHI" "older r chunkSize" "older r v" "older r chunkStepSize"
    and "val s chunkPHI = VInt (uint c)" "val s chunkSize = VInt (uint k)" "val s v = VInt (uint x)" "val s chunkStepSize = VInt (uint step)"
  shows "\<exists>s'. foldE (exec_inst fp) (latch_code LENGTH('w) r chunkPHI chunkSize v chunkStepSize) s = Inr s' \<and> same_before r s s' \<and>
    val s' (Reg (r + 2)) = VInt (uint (fst (chunk_step k step (c, x)))) \<and> val s' (Reg (r + 4)) = VInt (uint (snd (chunk_step k step (c, x))))"
proof -
  let ?d = "VInt (if uint (c + 1) = uint k then 1 else 0)"
  let ?s1 = "set_reg r (VInt (uint (c + 1))) s" 
  let ?s2 = "set_reg (r + 1) ?d ?s1"
  let ?s3 = "set_reg (r + 2) (VInt (if c + 1 = k then 0 else uint (c + 1))) ?s2"
  let ?s4 = "set_reg (r + 3) (VInt (uint (x + step))) ?s3"
  let ?s5 = "set_reg (r + 4) (VInt (if c + 1 = k then uint (x + step) else uint x)) ?s4"
  have 1: "exec_inst fp (r, BinOp OpAdd (IntegerTy 64) chunkPHI (Const 64 1)) s = Inr ?s1"
    by (simp add: exec_inst_def bin_def int_bin_def assms(5) uint_plus_take)
  have 2: "exec_inst fp (r + 1, ICmp ICMP_EQ 64 (Reg r) chunkSize) ?s1 = Inr ?s2"
    using assms(2,6) by (simp add: exec_inst_def icmp_def Let_def)
  have 3: "exec_inst fp (r + 2, Select (Reg (r + 1)) (Const 64 0) (Reg r)) ?s2 = Inr ?s3"
    by (simp add: exec_inst_def word_uint_eq_iff)
  have 4: "exec_inst fp (r + 3, BinOp OpAdd (IntegerTy LENGTH('w)) v chunkStepSize) ?s3 = Inr ?s4"
    using assms(3,4,7,8) by (simp add: exec_inst_def bin_def int_bin_def uint_plus_take)
  have 5: "exec_inst fp (r + 4, Select (Reg (r + 1)) (Reg (r + 3)) v) ?s4 = Inr ?s5"
    using assms(3,7) by (simp add: exec_inst_def word_uint_eq_iff)
  have "foldE (exec_inst fp) (latch_code LENGTH('w) r chunkPHI chunkSize v chunkStepSize) s = Inr ?s5"
    by (simp only: latch_code_def foldE.simps 1 2 3 4 5 andThen_Inr)
  moreover have "same_before r s ?s5" by (simp add: same_before_def)
  ultimately show ?thesis by (intro exI [of _ ?s5]) (simp add: chunk_step_def)
qed

section \<open>Properties\<close>

text \<open>C30: The code of a chunked loop. For a loop with one latch, \<open>createChunkPHI\<close> and \<open>chunkInductionVariablePHI\<close> succeed on any well-formed
  function; the counter starts at zero at the preheader; and whenever the inserted instructions are executed, on any memory, they
  leave what was computed before alone and leave in the registers that the two PHIs read from the latch one step of the chunked recurrence
  \<open>chunk_step\<close>, from the counter, the next value of the variable, the chunk size and the step to the next chunk, at any width.\<close>

theorem chunked_latch:
  assumes "ir_wf F" and "ir_code F B = code @ [(t, Br H)]" and "B \<noteq> H" "P \<noteq> B"
    and "map_of (ir_code F H) ivr = Some (Phi [(startV, P), (v, B)])"
    and "older (ir_nextReg F) chunkSize" "older (ir_nextReg F) v" "older (ir_nextReg F) chunkStepSize"
  shows "\<exists>chunkPHI F1 F2 inserted chunkNext ivNext.
    createChunkPHI [P, B] 64 P H chunkSize F = Inr (chunkPHI, F1) \<and>
    chunkInductionVariablePHI (IntegerTy LENGTH('w)) (IntegerTy LENGTH('w)) P H (Reg ivr) chunkPHI chunkStepSize F1 = Inr F2 \<and>
    ir_code F2 B = code @ inserted @ [(t, Br H)] \<and>
    incomings F2 H chunkPHI = Inr [(Const 64 0, P), (chunkNext, B)] \<and> incomings F2 H (Reg ivr) = Inr [(startV, P), (ivNext, B)] \<and>
    (\<forall>s c k (x :: 'w::len word) step. val s chunkPHI = VInt (uint c) \<and> val s chunkSize = VInt (uint k) \<and> val s v = VInt (uint x) \<and>
         val s chunkStepSize = VInt (uint step) \<longrightarrow>
       (\<exists>s'. foldE (exec_inst fp) inserted s = Inr s' \<and> same_before (ir_nextReg F + 1) s s' \<and>
          val s' chunkNext = VInt (uint (fst (chunk_step k step (c, x)))) \<and> val s' ivNext = VInt (uint (snd (chunk_step k step (c, x))))))"
proof -
  let ?r = "ir_nextReg F + 1" and ?phi = "Reg (ir_nextReg F)"
  have old: "older ?r ?phi" "older ?r chunkSize" "older ?r v" "older ?r chunkStepSize"
    using older_Suc assms(6-8) by (simp_all add: older_def)
  from chunk_code [OF assms(1-5), of chunkSize "LENGTH('w)" chunkStepSize] obtain F1 F2 where
    F: "createChunkPHI [P, B] 64 P H chunkSize F = Inr (?phi, F1)"
       "chunkInductionVariablePHI (IntegerTy LENGTH('w)) (IntegerTy LENGTH('w)) P H (Reg ivr) ?phi chunkStepSize F1 = Inr F2"
       "ir_code F2 B = code @ latch_code LENGTH('w) ?r ?phi chunkSize v chunkStepSize @ [(t, Br H)]"
       "incomings F2 H ?phi = Inr [(Const 64 0, P), (Reg (?r + 2), B)]" "incomings F2 H (Reg ivr) = Inr [(startV, P), (Reg (?r + 4), B)]"
    by (auto simp: numeral_3_eq_3 numeral_eq_Suc)
  have R: "\<forall>s c k (x :: 'w word) step. val s ?phi = VInt (uint c) \<and> val s chunkSize = VInt (uint k) \<and> val s v = VInt (uint x) \<and>
         val s chunkStepSize = VInt (uint step) \<longrightarrow>
       (\<exists>s'. foldE (exec_inst fp) (latch_code LENGTH('w) ?r ?phi chunkSize v chunkStepSize) s = Inr s' \<and> same_before ?r s s' \<and>
          val s' (Reg (?r + 2)) = VInt (uint (fst (chunk_step k step (c, x)))) \<and> val s' (Reg (?r + 4)) = VInt (uint (snd (chunk_step k step (c, x)))))"
    using latch_code_computes [OF old] by blast
  show ?thesis by (intro exI conjI) (rule F R)+
qed

text \<open>A loop with the header 1 and the latch 2; the chunk size and the step to the next chunk are in the registers 6 and 7.\<close>

definition small_loop :: ir_fun where
  "small_loop = \<lparr>ir_code = (\<lambda>b. if b = 1 then [(0, Phi [(Const 32 5, 0), (Reg 1, 2)]), (3, ICmp ICMP_SGE 32 (Reg 0) (Const 32 9)), (4, CondBr (Reg 3) 3 2)]
       else if b = 2 then [(1, BinOp OpAdd (IntegerTy 32) (Reg 0) (Const 32 1)), (2, Br 1)] else []),
     ir_nextReg = 8, ir_nextBlock = 4\<rparr>"

lemma chunked_latch_witness:
  "\<exists>chunkPHI F1 F2 inserted chunkNext ivNext.
    createChunkPHI [0, 2] 64 0 1 (Reg 6) small_loop = Inr (chunkPHI, F1) \<and>
    chunkInductionVariablePHI (IntegerTy LENGTH(32)) (IntegerTy LENGTH(32)) 0 1 (Reg 0) chunkPHI (Reg 7) F1 = Inr F2 \<and>
    ir_code F2 2 = [(1, BinOp OpAdd (IntegerTy 32) (Reg 0) (Const 32 1))] @ inserted @ [(2, Br 1)] \<and>
    incomings F2 1 chunkPHI = Inr [(Const 64 0, 0), (chunkNext, 2)] \<and> incomings F2 1 (Reg 0) = Inr [(Const 32 5, 0), (ivNext, 2)] \<and>
    (\<forall>s c k (x :: 32 word) step. val s chunkPHI = VInt (uint c) \<and> val s (Reg 6) = VInt (uint k) \<and> val s (Reg 1) = VInt (uint x) \<and>
         val s (Reg 7) = VInt (uint step) \<longrightarrow>
       (\<exists>s'. foldE (exec_inst undefined) inserted s = Inr s' \<and> same_before (ir_nextReg small_loop + 1) s s' \<and>
          val s' chunkNext = VInt (uint (fst (chunk_step k step (c, x)))) \<and> val s' ivNext = VInt (uint (snd (chunk_step k step (c, x))))))"
  by (rule chunked_latch [where 'w = 32 and fp = undefined]) (auto simp: small_loop_def ir_wf_def regs_def older_def)

text \<open>Executing the comparison and the branch of the header: the block that is entered next.\<close>

definition header_exit :: "float_ops \<Rightarrow> ir_fun \<Rightarrow> nat \<Rightarrow> nat \<Rightarrow> nat \<Rightarrow> rt_state \<Rightarrow> nat res" where
  "header_exit fp F H c br s =
     andThen (find_inst F H (Reg c)) (\<lambda>i. andThen (exec_inst fp (c, i) s) (\<lambda>s'. andThen (find_inst F H (Reg br)) (\<lambda>j. exec_terminator j s')))"

text \<open>C31: The exit condition of the transformed loop. Whatever side of the comparison the induction variable is on and whatever successor of the
  branch leaves the loop, the original header leaves the loop exactly when \<open>exit_predicate\<close> holds of the variable and the limit, and after
  \<open>updateConditionAndBranchToCatchIteratingPastExitValue\<close> it leaves exactly when the non-strict predicate does, at any width.\<close>

theorem updated_exit_condition:
  fixes x l :: "'w::len word"
  assumes "map_of (ir_code F H) c = Some (if ivIsLeft then ICmp p LENGTH('w) iv limit else ICmp p LENGTH('w) limit iv)"
    and "map_of (ir_code F H) br = Some (if exitsOnTrue then CondBr (Reg c) exit body else CondBr (Reg c) body exit)" and "c \<noteq> br"
    and "iu_flipOperands U = (\<not> ivIsLeft)" "iu_flipBrSuccessors U = (\<not> exitsOnTrue)"
    and "val s iv = VInt (uint x)" "val s limit = VInt (uint l)"
  shows "header_exit fp F H c br s = Inr (if compare (exit_predicate exitsOnTrue ivIsLeft p) x l then exit else body) \<and>
    header_exit fp (updateConditionAndBranch U c br F) H c br s = Inr (if compare (iu_nonStrictPredicate U) x l then exit else body)"
proof -
  let ?q = "if exitsOnTrue then p else getInversePredicate p"
  have E: "compare (exit_predicate exitsOnTrue ivIsLeft p) x l \<longleftrightarrow> (if exitsOnTrue then compare p else (\<lambda>x y. \<not> compare p x y)) (if ivIsLeft then x else l) (if ivIsLeft then l else x)"
    by (simp add: exit_predicate_def Let_def getInversePredicate_ok getSwappedPredicate_ok)
  have "header_exit fp F H c br s = Inr (if compare (exit_predicate exitsOnTrue ivIsLeft p) x l then exit else body)"
    unfolding E using assms(1,2,6,7) by (simp add: header_exit_def find_inst_def exec_inst_def exec_terminator_def compare_def)
  moreover have "map_of (ir_code (updateConditionAndBranch U c br F) H) c = Some (ICmp (iu_nonStrictPredicate U) LENGTH('w) iv limit)"
      "map_of (ir_code (updateConditionAndBranch U c br F) H) br = Some (CondBr (Reg c) exit body)"
    using assms(1-5) by (simp_all add: updateConditionAndBranch_def Let_def map_of_change_inst set_predicate_def swap_operands_def swap_successors_def)
  then have "header_exit fp (updateConditionAndBranch U c br F) H c br s = Inr (if compare (iu_nonStrictPredicate U) x l then exit else body)"
    using assms(6,7) by (simp add: header_exit_def find_inst_def exec_inst_def exec_terminator_def compare_def)
  ultimately show ?thesis by blast
qed

text \<open>The header keeps looping while 9 is greater than the variable, which is 10.\<close>

definition swapped_header :: ir_fun where
  "swapped_header = small_loop\<lparr>ir_code := (\<lambda>b. if b = 1 then [(3, ICmp ICMP_SGT 32 (Const 32 9) (Reg 0)), (4, CondBr (Reg 3) 2 3)] else [])\<rparr>"

definition small_utility :: iv_utility where
  "small_utility = \<lparr>iu_attribution =
       \<lparr>at_IV = \<lparr>iv_scc = 0, iv_loopEntryPHI = 0, iv_PHIs = [0], iv_nonPHIs = [1], iv_allInstructions = [0, 1], iv_derived = [], iv_startValue = None,
          iv_stepSCEV = None, iv_singleStepValue = None, iv_computation = [], iv_stepInvariant = True, iv_inScope = [], iv_toReference = []\<rparr>,
        at_headerCmp = Some 3, at_conditionValue = None, at_intermediateValue = Some 0, at_headerBr = Some 4, at_exitBlock = Some 3,
        at_derivation = [], at_isWellFormed = True\<rparr>,
     iu_condition = 3, iu_ivIsLeftOperand = False, iu_derivation = [], iu_flipOperands = True, iu_flipBrSuccessors = True,
     iu_nonStrictPredicate = ICMP_SGE\<rparr>"

definition small_state :: rt_state where
  "small_state = \<lparr>rs_reg = (\<lambda>_. VInt 10), rs_mem = (\<lambda>_. VInt 0), rs_next = 0\<rparr>"

lemma updated_exit_condition_witness:
  "header_exit (\<lambda>_ _ x _. x) swapped_header 1 3 4 small_state =
     Inr (if compare (exit_predicate False False ICMP_SGT) (10 :: 32 word) 9 then 3 else 2) \<and>
   header_exit (\<lambda>_ _ x _. x) (updateConditionAndBranch small_utility 3 4 swapped_header) 1 3 4 small_state =
     Inr (if compare (iu_nonStrictPredicate small_utility) (10 :: 32 word) 9 then 3 else 2)"
  by (rule updated_exit_condition [where 'w = 32 and iv = "Reg 0" and limit = "Const 32 9"])
    (simp_all add: swapped_header_def small_utility_def small_state_def)

end
