(* ===== verification/Invariants.thy ===== *)
theory Invariants
  imports Induction PDGraph
begin

text \<open>
  Loop invariants: \<open>core/invariants/src/InvariantManager.cpp\<close>. The checker walks the data dependences of the loop's dependence graph backwards from every
  instruction, with two caches (\<open>invariants\<close>, shared with the manager, and \<open>notInvariants\<close>) and, for one walk, the values being checked. LLVM's
  instructions, which values are global, which functions have no body and which library functions are pure are parameters.
\<close>

record 'r invariant_context =
  ic_module :: Loops.llvm_module
  ic_insts :: llvm_insts
  ic_loop :: loop_structure
  ic_graph :: "(llvm_value, 'r) dg"
  ic_isGlobal :: "llvm_value \<Rightarrow> bool"
  ic_isEmptyFunction :: "nat \<Rightarrow> bool"
  ic_isPure :: "nat \<Rightarrow> bool"

record checker_state =
  cs_invariants :: "nat list"
  cs_notInvariants :: "nat list"
  cs_checking :: "nat list"

section \<open>PHIs\<close>

text \<open>The loop over the set of incoming values that looks for loads of one global, from the global found so far.\<close>

fun loads_of_one_global :: "llvm_insts \<Rightarrow> (llvm_value \<Rightarrow> bool) \<Rightarrow> llvm_value list \<Rightarrow> llvm_value option \<Rightarrow> llvm_value option" where
  "loads_of_one_global I isGlobal [] found = found"
| "loads_of_one_global I isGlobal (v # vs) found =
     (case v of
        Inst i \<Rightarrow> (case in_kind I i of
            LoadInst p \<Rightarrow> if isGlobal p \<and> (found = None \<or> found = Some p) then loads_of_one_global I isGlobal vs (Some p) else None
          | _ \<Rightarrow> None)
      | _ \<Rightarrow> None)"

definition arePHIIncomingValuesEquivalent :: "llvm_insts \<Rightarrow> (llvm_value \<Rightarrow> bool) \<Rightarrow> (llvm_value \<times> nat) list \<Rightarrow> bool" where
  "arePHIIncomingValuesEquivalent I isGlobal incs =
     (let incomingValues = uset_insert_all (map fst incs) []
      in case incomingValues of [] \<Rightarrow> False
         | [_] \<Rightarrow> True
         | singleUniqueValue # _ \<Rightarrow>
             if list_all (\<lambda>v. v = singleUniqueValue) incomingValues then True
             else loads_of_one_global I isGlobal incomingValues None \<noteq> None)"

definition phi_differs :: "'r invariant_context \<Rightarrow> nat \<Rightarrow> bool" where
  "phi_differs C i = (case in_kind (ic_insts C) i of PHINode incs \<Rightarrow> \<not> arePHIIncomingValuesEquivalent (ic_insts C) (ic_isGlobal C) incs | _ \<Rightarrow> False)"

section \<open>The walk\<close>

text \<open>What \<open>isEvolvingValue\<close> decides before it walks on: the answer, or the instruction whose dependences are to be visited.\<close>

datatype verdict = Known bool | Ask nat

definition inspect :: "'r invariant_context \<Rightarrow> llvm_value \<Rightarrow> ptr \<Rightarrow> checker_state \<Rightarrow> verdict \<times> checker_state" where
  "inspect C v e st =
     (case v of
        Inst i \<Rightarrow>
          if \<not> isIncluded_inst (ic_module C) i (ic_loop C) then (Known False, st)
          else if in_kind (ic_insts C) i = StoreInst then (Known True, st)
          else if memory (edgeMem (ic_graph C) e) then (Known True, st)
          else if phi_differs C i then (Known True, st)
          else if i \<in> set (cs_invariants st) then (Known False, st)
          else if i \<in> set (cs_notInvariants st) then (Known True, st)
          else let st1 = (if isPHINode (in_kind (ic_insts C) i) then st\<lparr>cs_invariants := uset_insert i (cs_invariants st)\<rparr> else st)
               in if i \<in> set (cs_checking st1) then (Known True, st1)
                  else (Ask i, st1\<lparr>cs_checking := uset_insert i (cs_checking st1)\<rparr>)
      | _ \<Rightarrow> (Known False, st))"

definition categorise :: "nat \<Rightarrow> bool \<Rightarrow> checker_state \<Rightarrow> checker_state" where
  "categorise i canEvolve st =
     (if canEvolve then st\<lparr>cs_invariants := uset_erase i (cs_invariants st), cs_notInvariants := uset_insert i (cs_notInvariants st)\<rparr>
      else st\<lparr>cs_invariants := uset_insert i (cs_invariants st)\<rparr>)"

text \<open>The dependences that \<open>iterateOverDependencesTo\<close> looks at for an instruction, in order.\<close>

definition incoming_dependences :: "(llvm_value, 'r) dg \<Rightarrow> nat \<Rightarrow> (llvm_value \<times> ptr) list" where
  "incoming_dependences g i =
     (case snd (fetchNode g (Inst i)) of None \<Rightarrow> [] | Some n \<Rightarrow> map (\<lambda>e. (node_T g (edge_from g e), e)) (in_edges g n))"

text \<open>The traversal with the lambda \<open>isEvolving\<close>, over the dependences that are left: whether one of them evolves. The callbacks nest.\<close>

partial_function (option) evolves_any ::
  "'r invariant_context \<Rightarrow> (llvm_value \<times> ptr) list \<Rightarrow> checker_state \<Rightarrow> (bool \<times> checker_state) res option" where
  "evolves_any C deps st =
     (case deps of
        [] \<Rightarrow> Some (Inr (False, st))
      | (v, e) # rest \<Rightarrow>
         (case dependence_step (ic_graph C) False True True (\<lambda>_ _ s. Inr (True, s)) (v, e) () of
            Inl f \<Rightarrow> Some (Inl f)
          | Inr (visited, _) \<Rightarrow>
             if \<not> visited then evolves_any C rest st
             else case inspect C v e st of
                 (Known b, st1) \<Rightarrow> if b then Some (Inr (True, st1)) else evolves_any C rest st1
               | (Ask i, st1) \<Rightarrow>
                   Option.bind (evolves_any C (incoming_dependences (ic_graph C) i) st1) (\<lambda>r.
                     case r of Inl f \<Rightarrow> Some (Inl f)
                     | Inr (canEvolve, st2) \<Rightarrow>
                         if canEvolve then Some (Inr (True, categorise i True st2)) else evolves_any C rest (categorise i False st2))))"

declare evolves_any.simps [code]

definition evolves :: "'r invariant_context \<Rightarrow> nat \<Rightarrow> checker_state \<Rightarrow> (bool \<times> checker_state) res" where
  "evolves C i st = (case evolves_any C (incoming_dependences (ic_graph C) i) st of None \<Rightarrow> Inl NoReturn | Some r \<Rightarrow> r)"

section \<open>InvarianceChecker and InvariantManager\<close>

definition impure_library_call :: "'r invariant_context \<Rightarrow> nat \<Rightarrow> bool" where
  "impure_library_call C i = (case in_kind (ic_insts C) i of CallInst (Some callee) \<Rightarrow> ic_isEmptyFunction C callee \<and> \<not> ic_isPure C callee | _ \<Rightarrow> False)"

definition check_instruction :: "'r invariant_context \<Rightarrow> nat \<Rightarrow> checker_state \<Rightarrow> checker_state res" where
  "check_instruction C i st =
     (let k = in_kind (ic_insts C) i
      in if isTerminatorInst k then Inr st
         else if phi_differs C i then Inr st
         else if i \<in> set (cs_invariants st) then Inr st
         else if i \<in> set (cs_notInvariants st) then Inr st
         else let st1 = st\<lparr>cs_checking := [i]\<rparr>;
                  st2 = (if isPHINode k then st1\<lparr>cs_invariants := uset_insert i (cs_invariants st1)\<rparr> else st1)
              in andThen (evolves C i st2) (\<lambda>(canEvolve, st3). Inr (categorise i (canEvolve \<or> impure_library_call C i) st3)))"

definition InvarianceChecker_of :: "'r invariant_context \<Rightarrow> nat list \<Rightarrow> nat list \<Rightarrow> checker_state res" where
  "InvarianceChecker_of C insts invs = foldE (check_instruction C) insts \<lparr>cs_invariants = invs, cs_notInvariants = [], cs_checking = []\<rparr>"

definition structural_invariants :: "'r invariant_context \<Rightarrow> nat list \<Rightarrow> nat list" where
  "structural_invariants C insts = uset_insert_all (filter (\<lambda>i. isLoopInvariant (ic_module C) (Inst i) (ic_loop C)) insts) []"

definition InvariantManager_of :: "'r invariant_context \<Rightarrow> nat list \<Rightarrow> nat list res" where
  "InvariantManager_of C insts = andThen (InvarianceChecker_of C insts (structural_invariants C insts)) (\<lambda>st. Inr (cs_invariants st))"

definition isInvariantValue :: "Loops.llvm_module \<Rightarrow> loop_structure \<Rightarrow> nat list \<Rightarrow> llvm_value \<Rightarrow> bool" where
  "isInvariantValue M ls invs v =
     (case v of Inst i \<Rightarrow> if \<not> isIncluded_inst M i ls then True else i \<in> set invs | _ \<Rightarrow> True)"

section \<open>The dependences that decide\<close>

text \<open>The part of the walk that does not depend on the state: a dependence that evolves by itself, one on an instruction that has to be checked, and
  the instructions all of whose dependences are settled.\<close>

definition watched :: "'r invariant_context \<Rightarrow> nat \<Rightarrow> llvm_value \<times> ptr \<Rightarrow> bool" where
  "watched C j d \<longleftrightarrow> fst d = Inst j \<and> isIncluded_inst (ic_module C) j (ic_loop C) \<and>
     (memory (edgeMem (ic_graph C) (snd d)) \<or> \<not> isControl (edgeMem (ic_graph C) (snd d)))"

definition evolves_itself :: "'r invariant_context \<Rightarrow> nat \<Rightarrow> llvm_value \<times> ptr \<Rightarrow> bool" where
  "evolves_itself C j d \<longleftrightarrow> in_kind (ic_insts C) j = StoreInst \<or> memory (edgeMem (ic_graph C) (snd d)) \<or> phi_differs C j"

inductive settled :: "'r invariant_context \<Rightarrow> nat set \<Rightarrow> nat \<Rightarrow> bool" for C given where
  settled: "(\<And>j d. d \<in> set (incoming_dependences (ic_graph C) i) \<Longrightarrow> watched C j d \<Longrightarrow> \<not> evolves_itself C j d \<and> (j \<in> given \<or> settled C given j))
    \<Longrightarrow> settled C given i"

inductive_simps settled_iff: "settled C given i"

definition depends_on :: "'r invariant_context \<Rightarrow> nat set \<Rightarrow> (nat \<times> nat) set" where
  "depends_on C given = {(i, j). j \<notin> given \<and> (\<exists>d \<in> set (incoming_dependences (ic_graph C) i). watched C j d)}"

lemma settled_depends_on: "settled C given i \<Longrightarrow> (i, j) \<in> depends_on C given \<Longrightarrow> settled C given j"
  by (auto simp: depends_on_def settled_iff [of C given i])

lemma settled_acyclic:
  assumes "settled C given i"
  shows "(i, i) \<notin> (depends_on C given)\<^sup>+"
  using assms
proof induction
  case (settled i)
  show ?case
  proof
    assume "(i, i) \<in> (depends_on C given)\<^sup>+"
    then obtain j where j: "(i, j) \<in> depends_on C given" "(j, i) \<in> (depends_on C given)\<^sup>*" by (meson tranclD)
    then have "(j, j) \<in> (depends_on C given)\<^sup>+" by (meson rtrancl_into_trancl1)
    with j(1) settled show False by (auto simp: depends_on_def)
  qed
qed

section \<open>The walk decides whether an instruction is settled\<close>

definition path :: "checker_state \<Rightarrow> nat set" where
  "path st = set (cs_checking st) - set (cs_invariants st) - set (cs_notInvariants st)"

definition caches_ok :: "'r invariant_context \<Rightarrow> nat set \<Rightarrow> checker_state \<Rightarrow> bool" where
  "caches_ok C given st \<longleftrightarrow> given \<subseteq> set (cs_invariants st) \<and> (\<forall>i \<in> set (cs_invariants st). i \<in> given \<or> settled C given i) \<and>
     (\<forall>i \<in> set (cs_notInvariants st). i \<notin> given \<and> \<not> settled C given i)"

definition extends :: "checker_state \<Rightarrow> checker_state \<Rightarrow> bool" where
  "extends st st' \<longleftrightarrow> set (cs_invariants st) \<subseteq> set (cs_invariants st') \<and> set (cs_notInvariants st) \<subseteq> set (cs_notInvariants st') \<and>
     set (cs_checking st) \<subseteq> set (cs_checking st')"

lemma extends_refl [simp]: "extends st st"
  by (simp add: extends_def)

lemma extends_trans: "extends a b \<Longrightarrow> extends b c \<Longrightarrow> extends a c"
  by (auto simp: extends_def)

definition good_dependence :: "'r invariant_context \<Rightarrow> nat set \<Rightarrow> llvm_value \<times> ptr \<Rightarrow> bool" where
  "good_dependence C given d \<longleftrightarrow> (\<forall>j. watched C j d \<longrightarrow> \<not> evolves_itself C j d \<and> (j \<in> given \<or> settled C given j))"

lemma settled_good: "settled C given i \<longleftrightarrow> (\<forall>d \<in> set (incoming_dependences (ic_graph C) i). good_dependence C given d)"
  by (auto simp: settled_iff [of C given i] good_dependence_def)

text \<open>A loop without PHIs of equivalent values, and a graph whose register dependences have a type, among instructions that the loop has.\<close>

definition walkable :: "'r invariant_context \<Rightarrow> nat list \<Rightarrow> bool" where
  "walkable C insts \<longleftrightarrow>
     (\<forall>i. isIncluded_inst (ic_module C) i (ic_loop C) \<longrightarrow> i \<in> set insts \<and> (isPHINode (in_kind (ic_insts C) i) \<longrightarrow> phi_differs C i)) \<and>
     (\<forall>i \<in> set insts. \<forall>(v, e) \<in> set (incoming_dependences (ic_graph C) i).
        memory (edgeMem (ic_graph C) e) \<or> isControl (edgeMem (ic_graph C) e) \<or> dataDepType (edgeMem (ic_graph C) e) \<noteq> DG_DATA_NONE)"

definition typed_dependence :: "'r invariant_context \<Rightarrow> llvm_value \<times> ptr \<Rightarrow> bool" where
  "typed_dependence C d \<longleftrightarrow> memory (edgeMem (ic_graph C) (snd d)) \<or> isControl (edgeMem (ic_graph C) (snd d)) \<or>
     dataDepType (edgeMem (ic_graph C) (snd d)) \<noteq> DG_DATA_NONE"

lemma evolves_any_Nil [simp]: "evolves_any C [] st = Some (Inr (False, st))"
  by (subst evolves_any.simps) simp

lemma evolves_any_Cons:
  assumes "typed_dependence C (v, e)"
  shows "evolves_any C ((v, e) # rest) st =
    (if \<not> (memory (edgeMem (ic_graph C) e) \<or> \<not> isControl (edgeMem (ic_graph C) e)) then evolves_any C rest st
     else case inspect C v e st of
         (Known b, st1) \<Rightarrow> if b then Some (Inr (True, st1)) else evolves_any C rest st1
       | (Ask i, st1) \<Rightarrow>
           Option.bind (evolves_any C (incoming_dependences (ic_graph C) i) st1) (\<lambda>r.
             case r of Inl f \<Rightarrow> Some (Inl f)
             | Inr (canEvolve, st2) \<Rightarrow>
                 if canEvolve then Some (Inr (True, categorise i True st2)) else evolves_any C rest (categorise i False st2)))"
  using assms by (subst evolves_any.simps)
    (cases "memory (edgeMem (ic_graph C) e)"; cases "isControl (edgeMem (ic_graph C) e)"; simp add: dependence_step_def typed_dependence_def)

lemma inspect_cases:
  assumes ok: "caches_ok C given st" and phis: "\<forall>j. isIncluded_inst (ic_module C) j (ic_loop C) \<longrightarrow> isPHINode (in_kind (ic_insts C) j) \<longrightarrow> phi_differs C j"
    and w: "memory (edgeMem (ic_graph C) e) \<or> \<not> isControl (edgeMem (ic_graph C) e)"
    and cur: "(v, e) \<in> set (incoming_dependences (ic_graph C) cur)" "\<forall>j \<in> path st. (j, cur) \<in> (depends_on C given)\<^sup>*"
  obtains (bad) "inspect C v e st = (Known True, st)" "\<not> good_dependence C given (v, e)"
    | (good) "inspect C v e st = (Known False, st)" "good_dependence C given (v, e)"
    | (ask) i where "inspect C v e st = (Ask i, st\<lparr>cs_checking := uset_insert i (cs_checking st)\<rparr>)" "v = Inst i"
        "isIncluded_inst (ic_module C) i (ic_loop C)" "i \<notin> set (cs_checking st)" "i \<notin> set (cs_invariants st)" "i \<notin> set (cs_notInvariants st)"
        "(cur, i) \<in> depends_on C given" "good_dependence C given (v, e) \<longleftrightarrow> settled C given i"
proof (cases "\<exists>i. v = Inst i \<and> isIncluded_inst (ic_module C) i (ic_loop C)")
  case False
  then have "inspect C v e st = (Known False, st)" by (auto simp: inspect_def split: llvm_value.splits)
  moreover have "good_dependence C given (v, e)" using False by (auto simp: good_dependence_def watched_def)
  ultimately show ?thesis by (rule good)
next
  case True
  then obtain i where i: "v = Inst i" "isIncluded_inst (ic_module C) i (ic_loop C)" by blast
  have watched: "watched C j (v, e) \<longleftrightarrow> j = i" for j using i w by (auto simp: watched_def)
  show ?thesis
  proof (cases "evolves_itself C i (v, e)")
    case True
    then have "inspect C v e st = (Known True, st)" using i by (auto simp: inspect_def evolves_itself_def)
    moreover have "\<not> good_dependence C given (v, e)" using True by (simp add: good_dependence_def watched)
    ultimately show ?thesis by (rule bad)
  next
    case ok_dep: False
    have g: "good_dependence C given (v, e) \<longleftrightarrow> i \<in> given \<or> settled C given i" using ok_dep by (simp add: good_dependence_def watched)
    have no_phi: "\<not> isPHINode (in_kind (ic_insts C) i)" using phis i(2) ok_dep by (auto simp: evolves_itself_def)
    consider (inv) "i \<in> set (cs_invariants st)" | (not_inv) "i \<notin> set (cs_invariants st)" "i \<in> set (cs_notInvariants st)"
      | (on_path) "i \<in> path st" | (new) "i \<notin> set (cs_invariants st)" "i \<notin> set (cs_notInvariants st)" "i \<notin> set (cs_checking st)"
      by (auto simp: path_def)
    then show ?thesis
    proof cases
      case inv
      then have "inspect C v e st = (Known False, st)" using i ok_dep by (simp add: inspect_def evolves_itself_def)
      moreover have "good_dependence C given (v, e)" using inv ok by (auto simp: g caches_ok_def)
      ultimately show ?thesis by (rule good)
    next
      case not_inv
      then have "inspect C v e st = (Known True, st)" using i ok_dep by (simp add: inspect_def evolves_itself_def)
      moreover have "\<not> good_dependence C given (v, e)" using not_inv ok by (auto simp: g caches_ok_def)
      ultimately show ?thesis by (rule bad)
    next
      case on_path
      then have out: "i \<notin> set (cs_invariants st)" "i \<notin> set (cs_notInvariants st)" "i \<in> set (cs_checking st)" by (simp_all add: path_def)
      then have "inspect C v e st = (Known True, st)" using i ok_dep no_phi by (simp add: inspect_def evolves_itself_def Let_def)
      moreover have given: "i \<notin> given" using out(1) ok by (auto simp: caches_ok_def)
      then have "(cur, i) \<in> depends_on C given" using cur(1) i w unfolding depends_on_def watched_def by force
      then have "(i, i) \<in> (depends_on C given)\<^sup>+" using cur(2) on_path by (meson rtrancl_into_trancl1)
      then have "\<not> good_dependence C given (v, e)" using settled_acyclic given by (auto simp: g)
      ultimately show ?thesis by (rule bad)
    next
      case new
      then have "i \<notin> given" using ok by (auto simp: caches_ok_def)
      moreover from this have "(cur, i) \<in> depends_on C given" using cur(1) i w unfolding depends_on_def watched_def by force
      moreover have "inspect C v e st = (Ask i, st\<lparr>cs_checking := uset_insert i (cs_checking st)\<rparr>)"
        using i ok_dep no_phi new by (simp add: inspect_def evolves_itself_def Let_def)
      ultimately show ?thesis using ask i new g by blast
    qed
  qed
qed

lemma evolves_any_ok:
  assumes "walkable C insts" and "card (set insts - set (cs_checking st)) \<le> n" and "caches_ok C given st"
    and "set deps \<subseteq> set (incoming_dependences (ic_graph C) cur)" and "cur \<in> set insts"
    and "\<And>j. j \<in> path st \<Longrightarrow> (j, cur) \<in> (depends_on C given)\<^sup>*"
  shows "\<exists>b st'. evolves_any C deps st = Some (Inr (b, st')) \<and> caches_ok C given st' \<and> extends st st' \<and> path st' = path st \<and>
    (b \<longleftrightarrow> (\<exists>d \<in> set deps. \<not> good_dependence C given d))"
  using assms(2-6)
proof (induction n arbitrary: deps st cur rule: less_induct)
  case (less n)
  show ?case
    using less.prems
  proof (induction deps arbitrary: st)
    case Nil
    then show ?case by (intro exI [of _ False] exI [of _ st]) simp
  next
    case (Cons d rest)
    obtain v e where d: "d = (v, e)" by (cases d)
    have typed: "typed_dependence C (v, e)" using assms(1) Cons.prems(3,4) d by (auto simp: walkable_def typed_dependence_def)
    note step = evolves_any_Cons [OF typed, of rest st]
    have rest: "set rest \<subseteq> set (incoming_dependences (ic_graph C) cur)" using Cons.prems(3) by simp
    show ?case
    proof (cases "memory (edgeMem (ic_graph C) e) \<or> \<not> isControl (edgeMem (ic_graph C) e)")
      case False
      then have "good_dependence C given (v, e)" by (simp add: good_dependence_def watched_def)
      with Cons.IH [OF Cons.prems(1,2) rest Cons.prems(4,5)] step False d show ?thesis by auto
    next
      case w: True
      have phis: "\<forall>j. isIncluded_inst (ic_module C) j (ic_loop C) \<longrightarrow> isPHINode (in_kind (ic_insts C) j) \<longrightarrow> phi_differs C j"
        using assms(1) by (simp add: walkable_def)
      have dep: "(v, e) \<in> set (incoming_dependences (ic_graph C) cur)" using Cons.prems(3) d by simp
      have on_path: "\<forall>j \<in> path st. (j, cur) \<in> (depends_on C given)\<^sup>*" using Cons.prems(5) by blast
      from Cons.prems(2) phis w dep on_path show ?thesis
      proof (cases rule: inspect_cases)
        case bad
        with step w d Cons.prems(2) show ?thesis by auto
      next
        case good
        with step w d Cons.IH [OF Cons.prems(1,2) rest Cons.prems(4,5)] show ?thesis by auto
      next
        case (ask i)
        let ?st1 = "st\<lparr>cs_checking := uset_insert i (cs_checking st)\<rparr>"
        have i: "i \<in> set insts" using assms(1) ask(3) by (simp add: walkable_def)
        have "set insts - set (cs_checking ?st1) \<subset> set insts - set (cs_checking st)" using i ask(4) by auto
        then have card: "card (set insts - set (cs_checking ?st1)) < card (set insts - set (cs_checking st))" by (intro psubset_card_mono) simp_all
        have path1: "path ?st1 = insert i (path st)" using ask(5,6) by (auto simp: path_def)
        have reach: "(j, i) \<in> (depends_on C given)\<^sup>*" if "j \<in> path ?st1" for j
          using that path1 Cons.prems(5) ask(7) by (auto intro: rtrancl_into_rtrancl)
        have "caches_ok C given ?st1" using Cons.prems(2) by (simp add: caches_ok_def)
        have "\<exists>b st2. evolves_any C (incoming_dependences (ic_graph C) i) ?st1 = Some (Inr (b, st2)) \<and> caches_ok C given st2 \<and> extends ?st1 st2 \<and>
             path st2 = path ?st1 \<and> (b \<longleftrightarrow> (\<exists>d \<in> set (incoming_dependences (ic_graph C) i). \<not> good_dependence C given d))"
          using card Cons.prems(1) by (intro less.IH [OF _ order_refl \<open>caches_ok C given ?st1\<close> order_refl i]) (simp, rule reach)
        then obtain b st2 where
          r: "evolves_any C (incoming_dependences (ic_graph C) i) ?st1 = Some (Inr (b, st2))" "caches_ok C given st2" "extends ?st1 st2"
             "path st2 = path ?st1" "b \<longleftrightarrow> (\<exists>d \<in> set (incoming_dependences (ic_graph C) i). \<not> good_dependence C given d)" by blast
        have b: "b \<longleftrightarrow> \<not> settled C given i" using r(5) by (auto simp: settled_good)
        let ?st3 = "categorise i b st2"
        have i2: "i \<notin> set (cs_invariants st2)" "i \<notin> set (cs_notInvariants st2)" using r(4) path1 by (auto simp: path_def)
        have given: "i \<notin> given" using ask(7) by (simp add: depends_on_def)
        have ok3: "caches_ok C given ?st3" using r(2) b given i2 by (auto simp: caches_ok_def categorise_def)
        have ext3: "extends st ?st3" using r(3) i2 by (auto simp: extends_def categorise_def)
        have path3: "path ?st3 = path st"
        proof -
          have "path ?st3 = path st2 - {i}" using i2 by (auto simp: path_def categorise_def)
          also have "\<dots> = path st" using r(4) path1 ask(4) by (auto simp: path_def)
          finally show ?thesis .
        qed
        show ?thesis
        proof (cases b)
          case True
          with step w d r(1) ask ok3 ext3 path3 b show ?thesis by auto
        next
          case False
          have c: "card (set insts - set (cs_checking ?st3)) \<le> n"
          proof -
            have "set insts - set (cs_checking ?st3) \<subseteq> set insts - set (cs_checking st)" using ext3 by (auto simp: extends_def)
            then have "card (set insts - set (cs_checking ?st3)) \<le> card (set insts - set (cs_checking st))" by (intro card_mono) simp_all
            with Cons.prems(1) show ?thesis by simp
          qed
          have "(j, cur) \<in> (depends_on C given)\<^sup>*" if "j \<in> path ?st3" for j using Cons.prems(5) that path3 by simp
          then have "\<exists>b' st'. evolves_any C rest ?st3 = Some (Inr (b', st')) \<and> caches_ok C given st' \<and> extends ?st3 st' \<and> path st' = path ?st3 \<and>
              (b' \<longleftrightarrow> (\<exists>d \<in> set rest. \<not> good_dependence C given d))"
            by (intro Cons.IH [OF c ok3 rest Cons.prems(4)])
          then obtain b' st' where
            t: "evolves_any C rest ?st3 = Some (Inr (b', st'))" "caches_ok C given st'" "extends ?st3 st'" "path st' = path ?st3"
               "b' \<longleftrightarrow> (\<exists>d \<in> set rest. \<not> good_dependence C given d)" by blast
          have "good_dependence C given d" using ask(8) b False d by simp
          moreover have "extends st st'" using ext3 t(3) by (rule extends_trans)
          ultimately show ?thesis using step w d r(1) ask(1) False t path3 by auto
        qed
      qed
    qed
  qed
qed

section \<open>The manager\<close>

lemma check_instruction_ok:
  assumes "walkable C insts" "caches_ok C given st" "i \<in> set insts" "\<not> impure_library_call C i"
    and phi: "\<And>j. j \<in> set insts \<Longrightarrow> isPHINode (in_kind (ic_insts C) j) \<Longrightarrow> phi_differs C j"
  shows "\<exists>st'. check_instruction C i st = Inr st' \<and> caches_ok C given st' \<and> set (cs_invariants st) \<subseteq> set (cs_invariants st') \<and>
    set (cs_notInvariants st) \<subseteq> set (cs_notInvariants st') \<and>
    (isTerminatorInst (in_kind (ic_insts C) i) \<or> phi_differs C i \<or> i \<in> set (cs_invariants st') \<or> i \<in> set (cs_notInvariants st'))"
proof (cases "isTerminatorInst (in_kind (ic_insts C) i) \<or> phi_differs C i \<or> i \<in> set (cs_invariants st) \<or> i \<in> set (cs_notInvariants st)")
  case True
  then show ?thesis using assms(2) by (intro exI [of _ st]) (auto simp: check_instruction_def Let_def)
next
  case False
  let ?st1 = "st\<lparr>cs_checking := [i]\<rparr>"
  have "caches_ok C given ?st1" using assms(2) by (simp add: caches_ok_def)
  moreover have "path ?st1 = {i}" using False by (auto simp: path_def)
  ultimately obtain b st2 where r: "evolves_any C (incoming_dependences (ic_graph C) i) ?st1 = Some (Inr (b, st2))" "caches_ok C given st2"
      "extends ?st1 st2" "path st2 = {i}" "b \<longleftrightarrow> (\<exists>d \<in> set (incoming_dependences (ic_graph C) i). \<not> good_dependence C given d)"
    using evolves_any_ok [OF assms(1) order_refl, of given ?st1 "incoming_dependences (ic_graph C) i" i] assms(3) by auto
  have b: "b \<longleftrightarrow> \<not> settled C given i" using r(5) by (auto simp: settled_good)
  have i2: "i \<notin> set (cs_invariants st2)" "i \<notin> set (cs_notInvariants st2)" using r(4) by (auto simp: path_def)
  have "i \<notin> given" using False assms(2) by (auto simp: caches_ok_def)
  then have ok: "caches_ok C given (categorise i b st2)" using r(2) b i2 by (auto simp: caches_ok_def categorise_def)
  have "check_instruction C i st = Inr (categorise i b st2)"
    using False r(1) assms(4) phi [OF assms(3)] by (auto simp: check_instruction_def Let_def evolves_def)
  moreover have "set (cs_invariants st) \<subseteq> set (cs_invariants (categorise i b st2))" "set (cs_notInvariants st) \<subseteq> set (cs_notInvariants (categorise i b st2))"
    "i \<in> set (cs_invariants (categorise i b st2)) \<or> i \<in> set (cs_notInvariants (categorise i b st2))"
    using r(3) i2 by (auto simp: extends_def categorise_def)
  ultimately show ?thesis using ok by blast
qed

lemma checker_ok:
  assumes "walkable C insts" "\<forall>i \<in> set insts. \<not> impure_library_call C i \<and> (isPHINode (in_kind (ic_insts C) i) \<longrightarrow> phi_differs C i)"
    and "caches_ok C given st" "set xs \<subseteq> set insts"
  shows "\<exists>st'. foldE (check_instruction C) xs st = Inr st' \<and> caches_ok C given st' \<and> set (cs_invariants st) \<subseteq> set (cs_invariants st') \<and>
    set (cs_notInvariants st) \<subseteq> set (cs_notInvariants st') \<and>
    (\<forall>i \<in> set xs. isTerminatorInst (in_kind (ic_insts C) i) \<or> phi_differs C i \<or> i \<in> set (cs_invariants st') \<or> i \<in> set (cs_notInvariants st'))"
  using assms(3,4)
proof (induction xs arbitrary: st)
  case (Cons x xs)
  then obtain st1 where 1: "check_instruction C x st = Inr st1" "caches_ok C given st1" "set (cs_invariants st) \<subseteq> set (cs_invariants st1)"
      "set (cs_notInvariants st) \<subseteq> set (cs_notInvariants st1)"
      "isTerminatorInst (in_kind (ic_insts C) x) \<or> phi_differs C x \<or> x \<in> set (cs_invariants st1) \<or> x \<in> set (cs_notInvariants st1)"
    using check_instruction_ok [OF assms(1) Cons.prems(1), of x] assms(2) by (metis list.set_intros(1) subsetD)
  obtain st2 where 2: "foldE (check_instruction C) xs st1 = Inr st2" "caches_ok C given st2" "set (cs_invariants st1) \<subseteq> set (cs_invariants st2)"
      "set (cs_notInvariants st1) \<subseteq> set (cs_notInvariants st2)"
      "\<forall>i \<in> set xs. isTerminatorInst (in_kind (ic_insts C) i) \<or> phi_differs C i \<or> i \<in> set (cs_invariants st2) \<or> i \<in> set (cs_notInvariants st2)"
    using Cons.IH [OF 1(2)] Cons.prems(2) by auto
  show ?case using 1 2 by (intro exI [of _ st2]) auto
qed auto

abbreviation loop_given :: "'r invariant_context \<Rightarrow> nat list \<Rightarrow> nat set" where
  "loop_given C insts \<equiv> {i \<in> set insts. isLoopInvariant (ic_module C) (Inst i) (ic_loop C)}"

lemma manager_ok:
  assumes "walkable C insts" "\<forall>i \<in> set insts. \<not> impure_library_call C i \<and> (isPHINode (in_kind (ic_insts C) i) \<longrightarrow> phi_differs C i)"
  shows "\<exists>invs. InvariantManager_of C insts = Inr invs \<and>
    (\<forall>i \<in> set invs. i \<in> loop_given C insts \<or> settled C (loop_given C insts) i) \<and>
    (\<forall>i \<in> set insts. \<not> isTerminatorInst (in_kind (ic_insts C) i) \<and> \<not> isPHINode (in_kind (ic_insts C) i) \<longrightarrow>
       (i \<in> set invs \<longleftrightarrow> i \<in> loop_given C insts \<or> settled C (loop_given C insts) i))"
proof -
  let ?given = "loop_given C insts"
  let ?st = "\<lparr>cs_invariants = structural_invariants C insts, cs_notInvariants = [], cs_checking = []\<rparr>"
  have "caches_ok C ?given ?st" by (auto simp: caches_ok_def structural_invariants_def)
  from checker_ok [OF assms this order_refl] obtain st where st: "foldE (check_instruction C) insts ?st = Inr st" "caches_ok C ?given st"
    "\<forall>i \<in> set insts. isTerminatorInst (in_kind (ic_insts C) i) \<or> phi_differs C i \<or> i \<in> set (cs_invariants st) \<or> i \<in> set (cs_notInvariants st)" by blast
  have "InvariantManager_of C insts = Inr (cs_invariants st)" using st(1) by (simp add: InvariantManager_of_def InvarianceChecker_of_def)
  moreover have "phi_differs C i \<Longrightarrow> isPHINode (in_kind (ic_insts C) i)" for i by (auto simp: phi_differs_def split: inst_kind.splits)
  ultimately show ?thesis using st(2,3) unfolding caches_ok_def by blast
qed


text \<open>A graph of register dependences between instructions: an edge for every pair, from the instruction that is depended on.\<close>

definition register_graph :: "nat list \<Rightarrow> (nat \<times> nat) list \<Rightarrow> (llvm_value, unit) dg" where
  "register_graph insts deps =
     (let n = length insts; m = length deps
      in \<lparr>nodeIdCounter = int n, allNodes = [0..<n], allEdges = [n..<n + m], entryNode = None,
          internalNodeMap = map (\<lambda>k. (Inst (insts ! k), Some k)) [0..<n], externalNodeMap = [],
          nodeMem = (\<lambda>k. \<lparr>nodeID = int k, theT = Inst (insts ! k),
             outgoingEdges = map (\<lambda>x. n + x) (filter (\<lambda>x. fst (deps ! x) = insts ! k) [0..<m]),
             incomingEdges = map (\<lambda>x. n + x) (filter (\<lambda>x. snd (deps ! x) = insts ! k) [0..<m])\<rparr>),
          edgeMem = (\<lambda>e. \<lparr>memory = False, must = True, dataDepType = DG_DATA_RAW, isControl = False, isLoopCarried = False, isRemovable = False,
             remeds = None, efrom = the (map_of (zip insts [0..<n]) (fst (deps ! (e - n)))), eto = the (map_of (zip insts [0..<n]) (snd (deps ! (e - n)))),
             subEdges = []\<rparr>),
          nextPtr = n + m\<rparr>)"

text \<open>A loop of one block, with the kinds of its instructions and their dependences.\<close>

definition one_block_loop :: "nat list \<Rightarrow> (nat \<Rightarrow> inst_kind) \<Rightarrow> (nat \<times> nat) list \<Rightarrow> unit invariant_context" where
  "one_block_loop insts kinds deps =
     \<lparr>ic_module = \<lparr>lm_loop = (\<lambda>_. \<lparr>ll_depth = 1, ll_header = 0, ll_preheader = Some 1, ll_blocks = [0], ll_isLatch = (\<lambda>_. True), ll_isInvariant = (\<lambda>_. False),
            ll_exitBlocks = [2], ll_exitEdges = [(0, 2)], ll_parent = None, ll_subLoops = []\<rparr>),
          lm_insts = (\<lambda>b. if b = 0 then insts else []), lm_parent = (\<lambda>i. if i \<in> set insts then 0 else 1), lm_function = (\<lambda>_. 0), lm_succs = (\<lambda>_. [])\<rparr>,
      ic_insts = \<lparr>in_kind = kinds, in_operands = (\<lambda>_. []), in_users = (\<lambda>_. []), in_type = (\<lambda>_. IntegerTy 32), in_constInt = (\<lambda>_. None)\<rparr>,
      ic_loop = \<lparr>ls_ID = 0, ls_header = 0, ls_preHeader = Some 1, ls_depth = 1, ls_parent = None, ls_invariants = [], ls_children = [], ls_latchBBs = [0],
          ls_bbs = [0], ls_orderedBBs = [0], ls_exitBlocks = [2], ls_exitEdges = [(0, 2)]\<rparr>,
      ic_graph = register_graph insts deps, ic_isGlobal = (\<lambda>_. False), ic_isEmptyFunction = (\<lambda>_. True), ic_isPure = (\<lambda>f. f = 1)\<rparr>"

lemmas example_loop = one_block_loop_def register_graph_def walkable_def isIncluded_inst_def isIncluded_def incoming_dependences_def fetchNode_def
  isLoopInvariant_def isContainedInstructionLoopInvariant_def impure_library_call_def phi_differs_def arePHIIncomingValuesEquivalent_def

text \<open>Instruction 1 uses 0, which has no dependences; 2 is a PHI that counts, and 3 uses 1 and 2.\<close>

definition counting_loop :: "unit invariant_context" where
  "counting_loop = one_block_loop [0, 1, 2, 3]
     (\<lambda>i. if i = 2 then PHINode [(OtherValue 0, 1), (Inst 3, 0)] else OtherInst) [(0, 1), (3, 2), (1, 3), (2, 3)]"

lemma counting_loop_dependences:
  "\<forall>i \<in> set [0, 1, 2, 3]. incoming_dependences (ic_graph counting_loop) i =
     (if i = 1 then [(Inst 0, 4)] else if i = 2 then [(Inst 3, 5)] else if i = 3 then [(Inst 1, 6), (Inst 2, 7)] else [])"
  "\<forall>e \<in> set [4, 5, 6, 7]. dataDepType (edgeMem (ic_graph counting_loop) e) = DG_DATA_RAW \<and> \<not> memory (edgeMem (ic_graph counting_loop) e) \<and>
     \<not> isControl (edgeMem (ic_graph counting_loop) e)"
  by code_simp+

lemma counting_loop_ok:
  "walkable counting_loop [0, 1, 2, 3]"
  "\<forall>i \<in> set [0, 1, 2, 3]. \<not> impure_library_call counting_loop i \<and> (isPHINode (in_kind (ic_insts counting_loop) i) \<longrightarrow> phi_differs counting_loop i)"
proof -
  have 1: "\<forall>i \<in> set [0, 1, 2, 3]. \<not> impure_library_call counting_loop i \<and> (isPHINode (in_kind (ic_insts counting_loop) i) \<longrightarrow> phi_differs counting_loop i)"
    by code_simp
  then show "\<forall>i \<in> set [0, 1, 2, 3]. \<not> impure_library_call counting_loop i \<and> (isPHINode (in_kind (ic_insts counting_loop) i) \<longrightarrow> phi_differs counting_loop i)" .
  have "isIncluded_inst (ic_module counting_loop) i (ic_loop counting_loop) \<longleftrightarrow> i \<in> set [0, 1, 2, 3]" for i
    by (simp add: counting_loop_def one_block_loop_def isIncluded_inst_def isIncluded_def)
  then show "walkable counting_loop [0, 1, 2, 3]"
    using 1 counting_loop_dependences unfolding walkable_def by simp
qed



text \<open>In the counting loop 0 is the constant 5, 1 adds one to it, 2 counts from zero, and 3 adds 1 to the counter.\<close>

definition counting_run :: "nat \<Rightarrow> nat \<Rightarrow> nat" where
  "counting_run a i = (if i = 0 then 5 else if i = 1 then 6 else if i = 2 then a * 6 else a * 6 + 6)"


text \<open>Calls to impure library functions. The manager asks whether a call is pure only when the call itself is next in the order of the instructions. If an
  instruction that uses its value comes first, the walk caches the call as invariant and the question is never asked: with the order call, user
  nothing is invariant, with the order user, call both are. The order is that of a hash set.\<close>

definition library_call_loop :: "nat list \<Rightarrow> unit invariant_context" where
  "library_call_loop insts = one_block_loop insts (\<lambda>i. if i = 0 then CallInst (Some 7) else OtherInst) [(0, 1)]"

theorem library_call_order:
  "InvariantManager_of (library_call_loop [0, 1]) [0, 1] = Inr [] \<and> InvariantManager_of (library_call_loop [1, 0]) [1, 0] = Inr [0, 1] \<and>
   impure_library_call (library_call_loop [1, 0]) 0"
  by code_simp

end
