(* ===== verification/SccAttrs.thy ===== *)
theory SccAttrs
  imports GoverningIV LoopDeps DepGraphQueries Reduction
begin

text \<open>
  What is known about the SCCs of a loop: \<open>core/loops/src/SCCAttrs.cpp\<close> (one SCC) and \<open>SCCDAGAttrs.cpp\<close> (the SCCDAG of a loop). An SCC object is a
  pointer into \<open>scc_mem\<close>; a loop-carried dependence is an edge of one of these graphs, given by the SCC object and the edge. Two other
  components are parameters: which instructions the memory cloning analysis gives a location, and which header PHI of an SCC the analysis
  \<open>LoopCarriedVariable\<close> finds reducible.
\<close>

section \<open>SCCAttrs\<close>

datatype scc_type = SEQUENTIAL | REDUCIBLE | INDEPENDENT

record scc_attrs =
  sa_scc :: ptr
  sa_type :: scc_type
  sa_bbs :: "nat list"
  sa_PHINodes :: "nat list"
  sa_headerPHINodes :: "nat list"
  sa_accumulators :: "nat list"
  sa_controlFlowInsts :: "nat list"
  sa_controlPairs :: "(llvm_value \<times> nat) list"
  sa_loopCarriedVariables :: "nat list"
  sa_isClonable :: bool
  sa_isClonableIntoLocalMemory :: bool
  sa_locations :: "nat list"
  sa_hasIV :: bool
  sa_commutative :: bool

definition internal_instructions :: "(llvm_value, 'r) dg \<Rightarrow> nat list" where
  "internal_instructions scc = concat (map (\<lambda>(v, _). case v of Inst i \<Rightarrow> [i] | _ \<Rightarrow> []) (internalNodeMap scc))"

definition control_flow_step :: "llvm_insts \<Rightarrow> (llvm_value, 'r) dg \<Rightarrow> llvm_value \<times> ptr option \<Rightarrow> nat list \<Rightarrow> nat list res" where
  "control_flow_step I scc = (\<lambda>(v, p) terms.
     case p of None \<Rightarrow> Inl NullDeref
     | Some n \<Rightarrow>
         if out_edges scc n = [] then Inr terms
         else (case v of Inst i \<Rightarrow> Inr (if isTerminatorInst (in_kind I i) then uset_insert i terms else terms) | _ \<Rightarrow> Inr terms))"

definition control_pair :: "llvm_insts \<Rightarrow> nat \<Rightarrow> (llvm_value \<times> nat) list \<Rightarrow> (llvm_value \<times> nat) list res" where
  "control_pair I term pairs =
     (case in_kind I term of
        BranchInst c _ \<Rightarrow> (case c of None \<Rightarrow> Inl AssertFailed | Some v \<Rightarrow> Inr (uset_insert (v, term) pairs))
      | SwitchInst v \<Rightarrow> Inr (uset_insert (v, term) pairs)
      | _ \<Rightarrow> Inr pairs)"

definition collectControlFlowInstructions :: "llvm_insts \<Rightarrow> (llvm_value, 'r) dg \<Rightarrow> scc_attrs \<Rightarrow> scc_attrs res" where
  "collectControlFlowInstructions I scc A =
     andThen (foldE (control_flow_step I scc) (internalNodeMap scc) (sa_controlFlowInsts A)) (\<lambda>terms.
     andThen (foldE (control_pair I) terms (sa_controlPairs A)) (\<lambda>pairs.
       Inr (A\<lparr>sa_controlFlowInsts := terms, sa_controlPairs := pairs\<rparr>)))"

definition collectPHIsAndAccumulators :: "Loops.llvm_module \<Rightarrow> llvm_insts \<Rightarrow> nat \<Rightarrow> (llvm_value, 'r) dg \<Rightarrow> scc_attrs \<Rightarrow> scc_attrs" where
  "collectPHIsAndAccumulators M I header scc A =
     fold (\<lambda>i A. case in_kind I i of
         PHINode _ \<Rightarrow>
           (let A1 = A\<lparr>sa_PHINodes := uset_insert i (sa_PHINodes A)\<rparr>
            in if header = lm_parent M i then A1\<lparr>sa_headerPHINodes := uset_insert i (sa_headerPHINodes A1)\<rparr> else A1)
       | BinaryOperator opc \<Rightarrow> if opc \<in> set accumOps then A\<lparr>sa_accumulators := uset_insert i (sa_accumulators A)\<rparr> else A
       | _ \<Rightarrow> A) (internal_instructions scc) A"

definition SCCAttrs_of :: "Loops.llvm_module \<Rightarrow> llvm_insts \<Rightarrow> loops_summary \<Rightarrow> (ptr \<Rightarrow> (llvm_value, 'r) dg) \<Rightarrow> ptr \<Rightarrow> scc_attrs res" where
  "SCCAttrs_of M I LIS sccMem s =
     (let scc = sccMem s;
          A = \<lparr>sa_scc = s, sa_type = SEQUENTIAL, sa_bbs = uset_insert_all (map (lm_parent M) (internal_instructions scc)) [], sa_PHINodes = [],
               sa_headerPHINodes = [], sa_accumulators = [], sa_controlFlowInsts = [], sa_controlPairs = [], sa_loopCarriedVariables = [],
               sa_isClonable = False, sa_isClonableIntoLocalMemory = False, sa_locations = [], sa_hasIV = False, sa_commutative = False\<rparr>
      in andThen (collectControlFlowInstructions I scc A) (\<lambda>A1.
         andThen (getLoopNestingTreeRoot LIS) (\<lambda>root.
           Inr (collectPHIsAndAccumulators M I (ls_header (sm_mem LIS root)) scc A1))))"

definition single :: "'a list \<Rightarrow> 'a option" where
  "single xs = (case xs of [x] \<Rightarrow> Some x | _ \<Rightarrow> None)"

definition getSinglePHI :: "scc_attrs \<Rightarrow> nat option" where
  "getSinglePHI A = single (sa_PHINodes A)"

definition getSingleHeaderPHI :: "scc_attrs \<Rightarrow> nat option" where
  "getSingleHeaderPHI A = single (sa_headerPHINodes A)"

definition getSingleAccumulator :: "scc_attrs \<Rightarrow> nat option" where
  "getSingleAccumulator A = single (sa_accumulators A)"

definition getSingleInstructionThatControlLoopExit :: "scc_attrs \<Rightarrow> (llvm_value \<times> nat) option" where
  "getSingleInstructionThatControlLoopExit A = single (sa_controlPairs A)"

definition getSingleLoopCarriedVariable :: "scc_attrs \<Rightarrow> nat option" where
  "getSingleLoopCarriedVariable A = single (sa_loopCarriedVariables A)"

definition doesItContainThisPHI :: "nat \<Rightarrow> scc_attrs \<Rightarrow> bool" where
  "doesItContainThisPHI phi A \<longleftrightarrow> phi \<in> set (sa_PHINodes A)"

definition doesItContainThisInstructionAsAccumulator :: "nat \<Rightarrow> scc_attrs \<Rightarrow> bool" where
  "doesItContainThisInstructionAsAccumulator i A \<longleftrightarrow> i \<in> set (sa_accumulators A)"

definition numberOfPHIs :: "scc_attrs \<Rightarrow> u32" where
  "numberOfPHIs A = of_nat (length (sa_PHINodes A))"

definition numberOfAccumulators :: "scc_attrs \<Rightarrow> u32" where
  "numberOfAccumulators A = of_nat (length (sa_accumulators A))"

definition setType :: "scc_type \<Rightarrow> scc_attrs \<Rightarrow> scc_attrs" where
  "setType t A = A\<lparr>sa_type := t\<rparr>"

definition setSCCToBeInductionVariable :: "bool \<Rightarrow> scc_attrs \<Rightarrow> scc_attrs" where
  "setSCCToBeInductionVariable b A = A\<lparr>sa_hasIV := b\<rparr>"

definition setSCCToBeClonable :: "bool \<Rightarrow> scc_attrs \<Rightarrow> scc_attrs" where
  "setSCCToBeClonable b A = A\<lparr>sa_isClonable := b\<rparr>"

definition addLoopCarriedVariable :: "nat \<Rightarrow> scc_attrs \<Rightarrow> scc_attrs" where
  "addLoopCarriedVariable x A = A\<lparr>sa_loopCarriedVariables := uset_insert x (sa_loopCarriedVariables A)\<rparr>"

definition setSCCToBeClonableUsingLocalMemory :: "scc_attrs \<Rightarrow> scc_attrs" where
  "setSCCToBeClonableUsingLocalMemory A = A\<lparr>sa_isClonableIntoLocalMemory := True\<rparr>"

definition addClonableMemoryLocationsContainedInSCC :: "nat list \<Rightarrow> scc_attrs \<Rightarrow> scc_attrs" where
  "addClonableMemoryLocationsContainedInSCC ls A = A\<lparr>sa_locations := ls\<rparr>"

definition getMemoryLocationsToClone :: "(nat \<Rightarrow> nat) \<Rightarrow> scc_attrs \<Rightarrow> nat list" where
  "getMemoryLocationsToClone allocation A = uset_insert_all (map allocation (sa_locations A)) []"

definition mustExecuteSequentially :: "scc_attrs \<Rightarrow> bool" where
  "mustExecuteSequentially A \<longleftrightarrow> sa_type A = SEQUENTIAL"

definition canExecuteReducibly :: "scc_attrs \<Rightarrow> bool" where
  "canExecuteReducibly A \<longleftrightarrow> sa_type A = REDUCIBLE"

definition canExecuteIndependently :: "scc_attrs \<Rightarrow> bool" where
  "canExecuteIndependently A \<longleftrightarrow> sa_type A = INDEPENDENT"

definition canBeCloned :: "scc_attrs \<Rightarrow> bool" where
  "canBeCloned A \<longleftrightarrow> sa_isClonable A"

section \<open>SCCDAGAttrs\<close>

text \<open>The map from SCCs to loop-carried dependences may have the null SCC as a key, when an end of a dependence is in no SCC.\<close>

type_synonym scc_edge = "ptr \<times> ptr"

record ('r, 'bv) sccdag_attrs =
  da_dag :: "(llvm_value, 'r, 'bv) sccdag"
  da_carried :: "(ptr option \<times> scc_edge list) list"
  da_info :: "(ptr \<times> scc_attrs) list"
  da_parents :: "(ptr \<times> ptr list) list"
  da_edges :: "(ptr \<times> ptr list) list"

definition edge_of :: "('r, 'bv) sccdag_attrs \<Rightarrow> scc_edge \<Rightarrow> 'r dg_edge" where
  "edge_of T d = edgeMem (scc_mem (da_dag T) (fst d)) (snd d)"

definition producer_of :: "(llvm_value, 'r, 'bv) sccdag \<Rightarrow> scc_edge \<Rightarrow> llvm_value" where
  "producer_of D d = from_T (scc_mem D (fst d)) (snd d)"

definition consumer_of :: "(llvm_value, 'r, 'bv) sccdag \<Rightarrow> scc_edge \<Rightarrow> llvm_value" where
  "consumer_of D d = node_T (scc_mem D (fst d)) (edge_to (scc_mem D (fst d)) (snd d))"

definition multimap_insert :: "'k \<Rightarrow> 'a \<Rightarrow> ('k \<times> 'a list) list \<Rightarrow> ('k \<times> 'a list) list" where
  "multimap_insert k x m = AList.update k (uset_insert x (case map_of m k of None \<Rightarrow> [] | Some xs \<Rightarrow> xs)) m"

definition carried_edge :: "(llvm_value, 'r, 'bv) sccdag \<Rightarrow> scc_edge \<Rightarrow> (ptr option \<times> scc_edge list) list \<Rightarrow> (ptr option \<times> scc_edge list) list res" where
  "carried_edge D d m =
     andThen (sccOfValue D (producer_of D d)) (\<lambda>producerSCC.
     andThen (sccOfValue D (consumer_of D d)) (\<lambda>consumerSCC.
       Inr (multimap_insert consumerSCC d (multimap_insert producerSCC d m))))"

definition scc_objects :: "(llvm_value, 'r, 'bv) sccdag \<Rightarrow> ptr list" where
  "scc_objects D = map (node_T (scc_graph D)) (allNodes (scc_graph D))"

definition loop_carried_edges :: "Loops.llvm_module \<Rightarrow> nat \<Rightarrow> loops_summary \<Rightarrow> (llvm_value, 'r, 'bv) sccdag \<Rightarrow> scc_edge list res" where
  "loop_carried_edges M loop LIS D =
     andThen (getLoopCarriedDependenciesForLoop_sccs M loop LIS (map (scc_mem D) (scc_objects D))) (\<lambda>es.
       Inr (map (\<lambda>(k, e). (scc_objects D ! k, e)) es))"

definition collectLoopCarriedDependencies ::
  "Loops.llvm_module \<Rightarrow> loops_summary \<Rightarrow> (llvm_value, 'r, 'bv) sccdag \<Rightarrow> (ptr option \<times> scc_edge list) list res" where
  "collectLoopCarriedDependencies M LIS D =
     foldE (\<lambda>loop m. andThen (loop_carried_edges M loop LIS D) (\<lambda>es. foldE (carried_edge D) es m)) (sm_loops LIS) []"

definition carried :: "('r, 'bv) sccdag_attrs \<Rightarrow> ptr \<Rightarrow> scc_edge list option" where
  "carried T s = map_of (da_carried T) (Some s)"

definition getSCCAttrs :: "('r, 'bv) sccdag_attrs \<Rightarrow> ptr \<Rightarrow> scc_attrs option" where
  "getSCCAttrs T s = map_of (da_info T) s"

definition update_info :: "ptr \<Rightarrow> (scc_attrs \<Rightarrow> scc_attrs) \<Rightarrow> ('r, 'bv) sccdag_attrs \<Rightarrow> ('r, 'bv) sccdag_attrs res" where
  "update_info s f T = (case getSCCAttrs T s of None \<Rightarrow> Inl NullDeref | Some A \<Rightarrow> Inr (T\<lparr>da_info := AList.update s (f A) (da_info T)\<rparr>))"

subsection \<open>Queries\<close>

definition getSCCsWithLoopCarriedDependencies :: "('r, 'bv) sccdag_attrs \<Rightarrow> ptr option list" where
  "getSCCsWithLoopCarriedDependencies T = uset_insert_all (map fst (da_carried T)) []"

definition getSCCsWithLoopCarriedControlDependencies :: "('r, 'bv) sccdag_attrs \<Rightarrow> ptr option list" where
  "getSCCsWithLoopCarriedControlDependencies T =
     uset_insert_all (map fst (filter (\<lambda>(_, ds). list_ex (\<lambda>d. isControl (edge_of T d)) ds) (da_carried T))) []"

definition getSCCsWithLoopCarriedDataDependencies :: "('r, 'bv) sccdag_attrs \<Rightarrow> ptr option list" where
  "getSCCsWithLoopCarriedDataDependencies T =
     uset_insert_all (map fst (filter (\<lambda>(_, ds). list_ex (\<lambda>d. isDataDependence (edge_of T d)) ds) (da_carried T))) []"

text \<open>The queue has no record of what was visited; the graph of the SCCs has no cycles.\<close>

definition governed_step :: "('r, 'bv) sccdag_attrs \<Rightarrow> ptr list \<times> ptr list \<Rightarrow> (ptr list \<times> ptr list) res" where
  "governed_step T = (\<lambda>(toTraverse, topLevelSCCs).
     case toTraverse of [] \<Rightarrow> Inl OutOfRange
     | node # rest \<Rightarrow>
         let g = scc_graph (da_dag T); scc = node_T g node
         in (case getSCCAttrs T scc of None \<Rightarrow> Inl NullDeref
             | Some A \<Rightarrow> Inr (if canExecuteIndependently A then (rest @ getNextDepthNodes g node, topLevelSCCs) else (rest, uset_insert scc topLevelSCCs))))"

definition isLoopGovernedBySCC :: "('r, 'bv) sccdag_attrs \<Rightarrow> ptr \<Rightarrow> bool res" where
  "isLoopGovernedBySCC T governingSCC =
     andThen (whileE (\<lambda>(toTraverse, _). toTraverse \<noteq> []) (governed_step T) (getTopLevelNodes (scc_graph (da_dag T)) False, [])) (\<lambda>(_, topLevelSCCs).
       Inr (topLevelSCCs = [governingSCC]))"

definition live_out_step :: "('r, 'bv) sccdag_attrs \<Rightarrow> loop_environment \<Rightarrow> nat \<Rightarrow> bool \<Rightarrow> (bool \<times> bool) res" where
  "live_out_step T E envIndex _ =
     andThen (producerAt envIndex E) (\<lambda>producer. andThen (sccOfValue (da_dag T) producer) (\<lambda>scc.
       case Option.bind scc (getSCCAttrs T) of None \<Rightarrow> Inl NullDeref
       | Some A \<Rightarrow> Inr (sa_type A = SEQUENTIAL, sa_type A \<noteq> SEQUENTIAL)))"

definition areAllLiveOutValuesReducable :: "('r, 'bv) sccdag_attrs \<Rightarrow> loop_environment \<Rightarrow> bool res" where
  "areAllLiveOutValuesReducable T E = andThen (iterate_until (live_out_step T E) (liveOutInds E) True) (\<lambda>(_, ok). Inr ok)"

definition isSCCContainedInSubloop :: "Loops.llvm_module \<Rightarrow> loops_summary \<Rightarrow> ('r, 'bv) sccdag_attrs \<Rightarrow> ptr \<Rightarrow> bool res" where
  "isSCCContainedInSubloop M LIS T s =
     andThen (getLoopNestingTreeRoot LIS) (\<lambda>topLoop.
       Inr (list_all (\<lambda>(v, _). case v of Inst i \<Rightarrow> getLoop_inst M LIS i \<noteq> Some topLoop | _ \<Rightarrow> False) (internalNodeMap (scc_mem (da_dag T) s))))"

definition isALoopCarriedDependence :: "('r, 'bv) sccdag_attrs \<Rightarrow> ptr \<Rightarrow> scc_edge \<Rightarrow> bool" where
  "isALoopCarriedDependence T s d = (case carried T s of None \<Rightarrow> False | Some ds \<Rightarrow> d \<in> set ds)"

text \<open>The incoming edges of the internal nodes of an SCC, in the order in which the iterators visit them.\<close>

definition internal_incoming :: "('r, 'bv) sccdag_attrs \<Rightarrow> ptr \<Rightarrow> scc_edge list res" where
  "internal_incoming T s =
     (let g = scc_mem (da_dag T) s
      in foldE (\<lambda>(_, p) acc. case p of None \<Rightarrow> Inl NullDeref | Some n \<Rightarrow> Inr (acc @ map (Pair s) (in_edges g n))) (internalNodeMap g) [])"

definition iterateOverLoopCarriedDependences_if ::
  "('r dg_edge \<Rightarrow> bool) \<Rightarrow> ('r, 'bv) sccdag_attrs \<Rightarrow> ptr \<Rightarrow> (scc_edge \<Rightarrow> 's \<Rightarrow> (bool \<times> 's) res) \<Rightarrow> 's \<Rightarrow> 's res" where
  "iterateOverLoopCarriedDependences_if wanted T s f st =
     andThen (internal_incoming T s) (\<lambda>es.
     andThen (iterate_until (\<lambda>d st. if isALoopCarriedDependence T s d \<and> wanted (edge_of T d) then f d st else Inr (False, st)) es st) (\<lambda>(_, st'). Inr st'))"

definition iterateOverLoopCarriedDataDependences ::
  "('r, 'bv) sccdag_attrs \<Rightarrow> ptr \<Rightarrow> (scc_edge \<Rightarrow> 's \<Rightarrow> (bool \<times> 's) res) \<Rightarrow> 's \<Rightarrow> 's res" where
  "iterateOverLoopCarriedDataDependences = iterateOverLoopCarriedDependences_if isDataDependence"

definition iterateOverLoopCarriedControlDependences ::
  "('r, 'bv) sccdag_attrs \<Rightarrow> ptr \<Rightarrow> (scc_edge \<Rightarrow> 's \<Rightarrow> (bool \<times> 's) res) \<Rightarrow> 's \<Rightarrow> 's res" where
  "iterateOverLoopCarriedControlDependences = iterateOverLoopCarriedDependences_if (\<lambda>e. \<not> isDataDependence e)"

definition iterateOverLoopCarriedDependences ::
  "('r, 'bv) sccdag_attrs \<Rightarrow> ptr \<Rightarrow> (scc_edge \<Rightarrow> 's \<Rightarrow> (bool \<times> 's) res) \<Rightarrow> 's \<Rightarrow> 's res" where
  "iterateOverLoopCarriedDependences = iterateOverLoopCarriedDependences_if (\<lambda>_. True)"

definition getSCCsOfType :: "('r, 'bv) sccdag_attrs \<Rightarrow> scc_type \<Rightarrow> scc_attrs list" where
  "getSCCsOfType T sccType = filter mustExecuteSequentially (map snd (da_info T))"

subsection \<open>Which SCCs are made of induction variables\<close>

definition attribution_instructions :: "iv_attribution \<Rightarrow> nat list" where
  "attribution_instructions A =
     (case at_headerCmp A of None \<Rightarrow> [] | Some i \<Rightarrow> [i]) @ (case at_headerBr A of None \<Rightarrow> [] | Some i \<Rightarrow> [i]) @
     (case at_conditionValue A of Some (Inst i) \<Rightarrow> [i] | _ \<Rightarrow> []) @ at_derivation A"

text \<open>One variable of the SCC that governs its loop: the state is the contained instructions, or nothing when the method has returned false.\<close>

definition governing_step ::
  "Loops.llvm_module \<Rightarrow> llvm_insts \<Rightarrow> loops_summary \<Rightarrow> (ptr \<Rightarrow> (llvm_value, 'r) dg) \<Rightarrow> iv_manager \<Rightarrow> nat list \<Rightarrow> ptr \<Rightarrow> nat \<Rightarrow> nat list option
    \<Rightarrow> nat list option res" where
  "governing_step M I LIS sccMem mg loopGoverningIVs s p st =
     (case st of None \<Rightarrow> Inr None
      | Some containedInsts \<Rightarrow>
          if p \<notin> set loopGoverningIVs then Inr st
          else let IV = mg_mem mg ! p
               in case getLoop_inst M LIS (iv_loopEntryPHI IV) of None \<Rightarrow> Inl NullDeref
                  | Some l \<Rightarrow>
                      andThen (LoopGoverningIVAttribution_of M I sccMem IV s (ls_exitBlocks (sm_mem LIS l))) (\<lambda>A.
                        Inr (if at_isWellFormed A then Some (uset_insert_all (attribution_instructions A) containedInsts) else None)))"

definition allowed_beside_ivs :: "llvm_insts \<Rightarrow> nat list \<Rightarrow> llvm_value \<Rightarrow> bool" where
  "allowed_beside_ivs I containedInsts v =
     (case v of
        Inst i \<Rightarrow> i \<in> set containedInsts \<or>
          (case in_kind I i of BranchInst None _ \<Rightarrow> True | GetElementPtrInst \<Rightarrow> True | PHINode _ \<Rightarrow> True | CastInst \<Rightarrow> True | CmpInst _ _ _ \<Rightarrow> True | _ \<Rightarrow> False)
      | _ \<Rightarrow> False)"

definition checkIfSCCOnlyContainsInductionVariables ::
  "Loops.llvm_module \<Rightarrow> llvm_insts \<Rightarrow> loops_summary \<Rightarrow> (ptr \<Rightarrow> (llvm_value, 'r) dg) \<Rightarrow> iv_manager \<Rightarrow> nat list \<Rightarrow> nat list \<Rightarrow> ptr \<Rightarrow> bool res" where
  "checkIfSCCOnlyContainsInductionVariables M I LIS sccMem mg IVs loopGoverningIVs s =
     (let scc = sccMem s;
          containedIVs = filter (\<lambda>p. isInternal scc (Inst (iv_loopEntryPHI (mg_mem mg ! p)))) IVs
      in if containedIVs = [] then Inr False
         else andThen (foldE (governing_step M I LIS sccMem mg loopGoverningIVs s) containedIVs
                         (Some (uset_insert_all (concat (map (\<lambda>p. iv_allInstructions (mg_mem mg ! p)) containedIVs)) []))) (\<lambda>st.
                Inr (case st of None \<Rightarrow> False | Some containedInsts \<Rightarrow> list_all (\<lambda>(v, _). allowed_beside_ivs I containedInsts v) (internalNodeMap scc))))"

subsection \<open>Which SCCs can be cloned\<close>

definition leaves_scc :: "('r, 'bv) sccdag_attrs \<Rightarrow> ptr \<Rightarrow> bool res" where
  "leaves_scc T s =
     (case snd (fetchNode (scc_graph (da_dag T)) s) of None \<Rightarrow> Inl NullDeref | Some n \<Rightarrow> Inr (out_edges (scc_graph (da_dag T)) n \<noteq> []))"

definition isClonableByInductionVars :: "('r, 'bv) sccdag_attrs \<Rightarrow> ptr \<Rightarrow> bool res" where
  "isClonableByInductionVars T s = andThen (leaves_scc T s) (\<lambda>leaves.
     if \<not> leaves then Inr False else case getSCCAttrs T s of None \<Rightarrow> Inl NullDeref | Some A \<Rightarrow> Inr (sa_hasIV A))"

definition isClonableBySyntacticSugarInstrs :: "llvm_insts \<Rightarrow> ('r, 'bv) sccdag_attrs \<Rightarrow> ptr \<Rightarrow> bool res" where
  "isClonableBySyntacticSugarInstrs I T s = andThen (leaves_scc T s) (\<lambda>leaves.
     if \<not> leaves then Inr False
     else case internalNodeMap (scc_mem (da_dag T) s) of
            [] \<Rightarrow> Inl DanglingDeref
          | [(v, _)] \<Rightarrow> Inr (case v of Inst i \<Rightarrow> (case in_kind I i of PHINode _ \<Rightarrow> True | GetElementPtrInst \<Rightarrow> True | CastInst \<Rightarrow> True | _ \<Rightarrow> False) | _ \<Rightarrow> False)
          | _ \<Rightarrow> Inr False)"

definition isClonableByCmpBrInstrs :: "llvm_insts \<Rightarrow> ('r, 'bv) sccdag_attrs \<Rightarrow> ptr \<Rightarrow> bool" where
  "isClonableByCmpBrInstrs I T s =
     list_all (\<lambda>(v, _). case v of Inst i \<Rightarrow> (case in_kind I i of CmpInst _ _ _ \<Rightarrow> True | k \<Rightarrow> isTerminatorInst k) | _ \<Rightarrow> False)
       (internalNodeMap (scc_mem (da_dag T) s))"

text \<open>The loop over the loop-carried dependences: one that touches the outermost loop ends it.\<close>

definition touches_top_loop :: "Loops.llvm_module \<Rightarrow> loops_summary \<Rightarrow> nat \<Rightarrow> (llvm_value, 'r, 'bv) sccdag \<Rightarrow> scc_edge \<Rightarrow> bool \<Rightarrow> (bool \<times> bool) res" where
  "touches_top_loop M LIS topLoop D d st =
     (case (producer_of D d, consumer_of D d) of
        (Inst i, Inst j) \<Rightarrow> let top = (getLoop_inst M LIS i = Some topLoop \<or> getLoop_inst M LIS j = Some topLoop) in Inr (top, \<not> top)
      | _ \<Rightarrow> Inl AssertFailed)"

definition isClonableByHavingNoMemoryOrLoopCarriedDataDependencies ::
  "Loops.llvm_module \<Rightarrow> loops_summary \<Rightarrow> ('r, 'bv) sccdag_attrs \<Rightarrow> ptr \<Rightarrow> bool res" where
  "isClonableByHavingNoMemoryOrLoopCarriedDataDependencies M LIS T s = andThen (leaves_scc T s) (\<lambda>leaves.
     let g = scc_mem (da_dag T) s
     in if \<not> leaves then Inr False
        else if list_ex (\<lambda>e. memory (edgeMem g e)) (allEdges g) then Inr False
        else case carried T s of None \<Rightarrow> Inr True
           | Some ds \<Rightarrow> andThen (getLoopNestingTreeRoot LIS) (\<lambda>topLoop.
               andThen (iterate_until (touches_top_loop M LIS topLoop (da_dag T)) ds True) (\<lambda>(_, ok). Inr ok)))"

text \<open>The locations of the loop-carried dependences of an SCC; nothing when one of them has none.\<close>

definition dependence_location ::
  "(nat \<Rightarrow> nat option) \<Rightarrow> (llvm_value, 'r, 'bv) sccdag \<Rightarrow> scc_edge \<Rightarrow> nat list option \<Rightarrow> nat list option" where
  "dependence_location location D d st =
     (case st of None \<Rightarrow> None
      | Some ls \<Rightarrow> (case producer_of D d of Inst i \<Rightarrow> map_option (\<lambda>l. uset_insert l ls) (location i) | _ \<Rightarrow> None))"

definition checkIfClonableByUsingLocalMemory :: "(nat \<Rightarrow> nat option) \<Rightarrow> ptr \<Rightarrow> ('r, 'bv) sccdag_attrs \<Rightarrow> ('r, 'bv) sccdag_attrs res" where
  "checkIfClonableByUsingLocalMemory location s T =
     (case carried T s of None \<Rightarrow> Inr T
      | Some ds \<Rightarrow>
          (case fold (dependence_location location (da_dag T)) ds (Some []) of
             None \<Rightarrow> Inr T
           | Some ls \<Rightarrow> if ls = [] then Inr T
               else update_info s (addClonableMemoryLocationsContainedInSCC ls \<circ> setSCCToBeClonableUsingLocalMemory) T))"

definition orElse_res :: "bool res \<Rightarrow> bool res \<Rightarrow> bool res" where
  "orElse_res a b = andThen a (\<lambda>x. if x then Inr True else b)"

definition checkIfClonable ::
  "Loops.llvm_module \<Rightarrow> llvm_insts \<Rightarrow> loops_summary \<Rightarrow> (nat \<Rightarrow> nat option) \<Rightarrow> ptr \<Rightarrow> ('r, 'bv) sccdag_attrs \<Rightarrow> ('r, 'bv) sccdag_attrs res" where
  "checkIfClonable M I LIS location s T =
     andThen (orElse_res (isClonableByInductionVars T s) (orElse_res (isClonableBySyntacticSugarInstrs I T s)
       (orElse_res (Inr (isClonableByCmpBrInstrs I T s)) (isClonableByHavingNoMemoryOrLoopCarriedDataDependencies M LIS T s)))) (\<lambda>clonable.
       if clonable then update_info s (setSCCToBeClonable True) T else checkIfClonableByUsingLocalMemory location s T)"

subsection \<open>Independent and reducible SCCs\<close>

definition checkIfIndependent :: "('r, 'bv) sccdag_attrs \<Rightarrow> ptr \<Rightarrow> bool" where
  "checkIfIndependent T s \<longleftrightarrow> carried T s = None"

text \<open>The header PHIs of the SCC that consume loop-carried dependences; nothing when the method has returned false.\<close>

definition carried_phi ::
  "Loops.llvm_module \<Rightarrow> llvm_insts \<Rightarrow> nat \<Rightarrow> ('r, 'bv) sccdag_attrs \<Rightarrow> ptr \<Rightarrow> scc_edge \<Rightarrow> nat list option \<Rightarrow> nat list option" where
  "carried_phi M I rootLoopHeader T s d st =
     (let scc = scc_mem (da_dag T) s
      in case st of None \<Rightarrow> None
         | Some phis \<Rightarrow>
             if memory (edge_of T d) then None
             else if isControl (edge_of T d) then (if isInternal scc (producer_of (da_dag T) d) then None else Some phis)
             else case consumer_of (da_dag T) d of
                    Inst i \<Rightarrow> if \<not> isPHINode (in_kind I i) then None
                             else if \<not> isInternal scc (Inst i) then Some phis
                             else if rootLoopHeader \<noteq> lm_parent M i then Some phis
                             else Some (uset_insert i phis)
                  | _ \<Rightarrow> None)"

definition checkIfReducible ::
  "bool \<Rightarrow> Loops.llvm_module \<Rightarrow> llvm_insts \<Rightarrow> loops_summary \<Rightarrow> (ptr \<Rightarrow> nat \<Rightarrow> bool) \<Rightarrow> ptr \<Rightarrow> ('r, 'bv) sccdag_attrs \<Rightarrow> (bool \<times> ('r, 'bv) sccdag_attrs) res" where
  "checkIfReducible enableFloatAsReal M I LIS reducible s T =
     andThen (getLoopNestingTreeRoot LIS) (\<lambda>rootLoop.
       case carried T s of None \<Rightarrow> Inl KeyMissing
       | Some ds \<Rightarrow>
           (case fold (carried_phi M I (ls_header (sm_mem LIS rootLoop)) T s) ds (Some []) of
              Some [phi] \<Rightarrow>
                if \<not> reducible s phi then Inr (False, T)
                else if in_type I phi \<in> {FloatTy, DoubleTy} \<and> \<not> enableFloatAsReal then Inr (False, T)
                else andThen (update_info s (addLoopCarriedVariable phi) T) (\<lambda>T1. Inr (True, T1))
            | _ \<Rightarrow> Inr (False, T)))"

subsection \<open>The constructor\<close>

definition tag_scc ::
  "bool \<Rightarrow> Loops.llvm_module \<Rightarrow> llvm_insts \<Rightarrow> loops_summary \<Rightarrow> iv_manager \<Rightarrow> nat list \<Rightarrow> nat list \<Rightarrow> (nat \<Rightarrow> nat option) \<Rightarrow> (ptr \<Rightarrow> nat \<Rightarrow> bool)
    \<Rightarrow> ptr \<Rightarrow> ('r, 'bv) sccdag_attrs \<Rightarrow> ('r, 'bv) sccdag_attrs res" where
  "tag_scc enableFloatAsReal M I LIS mg ivs loopGoverningIVs location reducible s T =
     andThen (SCCAttrs_of M I LIS (scc_mem (da_dag T)) s) (\<lambda>A.
     andThen (checkIfSCCOnlyContainsInductionVariables M I LIS (scc_mem (da_dag T)) mg ivs loopGoverningIVs s) (\<lambda>onlyIV.
     andThen (update_info s (setSCCToBeInductionVariable onlyIV) (T\<lparr>da_info := AList.update s A (da_info T)\<rparr>)) (\<lambda>T1.
     andThen (checkIfClonable M I LIS location s T1) (\<lambda>T2.
       if checkIfIndependent T2 s then update_info s (setType INDEPENDENT) T2
       else andThen (checkIfReducible enableFloatAsReal M I LIS reducible s T2) (\<lambda>(red, T3).
              update_info s (setType (if red then REDUCIBLE else SEQUENTIAL)) T3)))))"

text \<open>The walk from one SCC to the SCCs it depends on, through those that can be cloned. The state is the queue, the nodes analyzed, the parents found
  and the map of edges, which is shared by all walks.\<close>

type_synonym clones_state = "ptr list \<times> ptr list \<times> ptr list \<times> (ptr \<times> ptr list) list"

definition addIncomingNodes :: "(ptr, 'r) dg \<Rightarrow> ptr \<Rightarrow> ptr list \<times> (ptr \<times> ptr list) list \<Rightarrow> ptr list \<times> (ptr \<times> ptr list) list" where
  "addIncomingNodes g node = (\<lambda>(queue, edges).
     (queue @ uset_insert_all (map (edge_from g) (in_edges g node)) [], fold (multimap_insert (node_T g node)) (in_edges g node) edges))"

definition clones_step :: "('r, 'bv) sccdag_attrs \<Rightarrow> clones_state \<Rightarrow> clones_state res" where
  "clones_step T = (\<lambda>(queue, analyzed, parents, edges).
     case queue of [] \<Rightarrow> Inl OutOfRange
     | node # rest \<Rightarrow>
         let g = scc_graph (da_dag T); scc = node_T g node; parents1 = uset_insert scc parents
         in (case getSCCAttrs T scc of None \<Rightarrow> Inl NullDeref
            | Some A \<Rightarrow>
                if \<not> canBeCloned A then Inr (rest, analyzed, parents1, edges)
                else if node \<in> set analyzed then Inr (rest, analyzed, parents1, edges)
                else let (queue1, edges1) = addIncomingNodes g node (rest, edges) in Inr (queue1, analyzed @ [node], parents1, edges1)))"

definition clones_of :: "('r, 'bv) sccdag_attrs \<Rightarrow> ptr \<Rightarrow> (ptr \<times> ptr list) list \<Rightarrow> (ptr list \<times> (ptr \<times> ptr list) list) res" where
  "clones_of T child edges =
     (let (queue, edges1) = addIncomingNodes (scc_graph (da_dag T)) child ([], edges)
      in andThen (whileE (\<lambda>(queue, _). queue \<noteq> []) (clones_step T) (queue, [child], [], edges1)) (\<lambda>(_, _, parents, edges2). Inr (parents, edges2)))"

definition collect_clones :: "ptr \<Rightarrow> ('r, 'bv) sccdag_attrs \<Rightarrow> ('r, 'bv) sccdag_attrs res" where
  "collect_clones child T =
     andThen (clones_of T child (da_edges T)) (\<lambda>(parents, edges).
       Inr (T\<lparr>da_parents := (if parents = [] then da_parents T else AList.update (node_T (scc_graph (da_dag T)) child) parents (da_parents T)), da_edges := edges\<rparr>))"

definition collectSCCGraphAssumingDistributedClones :: "('r, 'bv) sccdag_attrs \<Rightarrow> ('r, 'bv) sccdag_attrs res" where
  "collectSCCGraphAssumingDistributedClones T = foldE collect_clones (allNodes (scc_graph (da_dag T))) T"

definition all_ivs :: "loops_summary \<Rightarrow> iv_manager \<Rightarrow> (nat list \<times> nat list) res" where
  "all_ivs LIS mg = foldE (\<lambda>loop (ivs, governing). andThen (getInductionVariables mg loop) (\<lambda>loopIVs.
       Inr (uset_insert_all loopIVs ivs, case getLoopGoverningInductionVariable mg loop of None \<Rightarrow> governing | Some p \<Rightarrow> uset_insert p governing)))
     (sm_loops LIS) ([], [])"

definition SCCDAGAttrs_of ::
  "bool \<Rightarrow> Loops.llvm_module \<Rightarrow> llvm_insts \<Rightarrow> loops_summary \<Rightarrow> iv_manager \<Rightarrow> (nat \<Rightarrow> nat option) \<Rightarrow> (ptr \<Rightarrow> nat \<Rightarrow> bool) \<Rightarrow> (llvm_value, 'r, 'bv) sccdag
    \<Rightarrow> ('r, 'bv) sccdag_attrs res" where
  "SCCDAGAttrs_of enableFloatAsReal M I LIS mg location reducible D =
     andThen (collectLoopCarriedDependencies M LIS D) (\<lambda>carried.
     andThen (all_ivs LIS mg) (\<lambda>(ivs, loopGoverningIVs).
     andThen (foldE (tag_scc enableFloatAsReal M I LIS mg ivs loopGoverningIVs location reducible) (scc_objects D)
                \<lparr>da_dag = D, da_carried = carried, da_info = [], da_parents = [], da_edges = []\<rparr>) (\<lambda>T.
       collectSCCGraphAssumingDistributedClones T)))"

end
