(* ===== verification/SccAttrsCorrect.thy ===== *)
theory SccAttrsCorrect
  imports SccAttrs Invariants
begin

text \<open>
  What the attributes of a loop's SCCs mean: the class of every SCC, and the SCCs from which an SCC can receive values when the SCCs between them
  are cloned.
\<close>

section \<open>Parents through clones\<close>

definition preds :: "(ptr, 'r) dg \<Rightarrow> ptr \<Rightarrow> ptr set" where
  "preds g n = edge_from g ` set (in_edges g n)"

definition clonable_node :: "('r, 'bv) sccdag_attrs \<Rightarrow> ptr \<Rightarrow> bool" where
  "clonable_node T n \<longleftrightarrow> (case getSCCAttrs T (node_T (scc_graph (da_dag T)) n) of None \<Rightarrow> False | Some A \<Rightarrow> canBeCloned A)"

inductive clone_parent :: "('r, 'bv) sccdag_attrs \<Rightarrow> ptr \<Rightarrow> ptr \<Rightarrow> bool" for T child where
  direct: "p \<in> preds (scc_graph (da_dag T)) child \<Longrightarrow> clone_parent T child p"
| through: "clone_parent T child q \<Longrightarrow> clonable_node T q \<Longrightarrow> p \<in> preds (scc_graph (da_dag T)) q \<Longrightarrow> clone_parent T child p"

definition attributed :: "('r, 'bv) sccdag_attrs \<Rightarrow> bool" where
  "attributed T \<longleftrightarrow> (\<forall>n \<in> set (allNodes (scc_graph (da_dag T))).
     getSCCAttrs T (node_T (scc_graph (da_dag T)) n) \<noteq> None \<and> preds (scc_graph (da_dag T)) n \<subseteq> set (allNodes (scc_graph (da_dag T))))"

lemma clone_parent_node:
  assumes "clone_parent T child p" "attributed T" "child \<in> set (allNodes (scc_graph (da_dag T)))"
  shows "p \<in> set (allNodes (scc_graph (da_dag T)))"
  using assms by induction (auto simp: attributed_def)

lemma set_addIncoming: "set (fst (addIncomingNodes g node (queue, edges))) = set queue \<union> preds g node"
  by (simp add: addIncomingNodes_def preds_def)

definition clones_inv :: "('r, 'bv) sccdag_attrs \<Rightarrow> ptr \<Rightarrow> clones_state \<Rightarrow> bool" where
  "clones_inv T child = (\<lambda>(queue, analyzed, parents, _). \<exists>popped.
     set parents = node_T (scc_graph (da_dag T)) ` popped \<and> popped \<union> set queue \<subseteq> Collect (clone_parent T child) \<and>
     preds (scc_graph (da_dag T)) child \<subseteq> popped \<union> set queue \<and> child \<in> set analyzed \<and>
     (\<forall>q \<in> set analyzed. preds (scc_graph (da_dag T)) q \<subseteq> popped \<union> set queue) \<and> (\<forall>q \<in> popped. clonable_node T q \<longrightarrow> q \<in> set analyzed) \<and>
     set analyzed \<subseteq> set (allNodes (scc_graph (da_dag T))))"

lemma clones_step_ok:
  assumes "attributed T" "child \<in> set (allNodes (scc_graph (da_dag T)))" "clones_inv T child st" "fst st \<noteq> []"
  shows "\<exists>st'. clones_step T st = Inr st' \<and> clones_inv T child st' \<and>
    (st', st) \<in> measures [\<lambda>(_, analyzed, _). card (set (allNodes (scc_graph (da_dag T))) - set analyzed), \<lambda>(queue, _). length queue]"
proof -
  let ?g = "scc_graph (da_dag T)"
  obtain node rest analyzed parents edges where st: "st = (node # rest, analyzed, parents, edges)"
    using assms(4) by (cases st; cases "fst st") auto
  from assms(3) obtain popped where P: "set parents = node_T ?g ` popped" "popped \<union> set (node # rest) \<subseteq> Collect (clone_parent T child)"
     "preds ?g child \<subseteq> popped \<union> set (node # rest)" "child \<in> set analyzed" "\<forall>q \<in> set analyzed. preds ?g q \<subseteq> popped \<union> set (node # rest)"
     "\<forall>q \<in> popped. clonable_node T q \<longrightarrow> q \<in> set analyzed" "set analyzed \<subseteq> set (allNodes ?g)"
    by (auto simp: clones_inv_def st)
  have cp: "clone_parent T child node" using P(2) by simp
  have node: "node \<in> set (allNodes ?g)" by (rule clone_parent_node [OF cp assms(1,2)])
  then obtain A where A: "getSCCAttrs T (node_T ?g node) = Some A" using assms(1) by (auto simp: attributed_def)
  have clon: "clonable_node T node \<longleftrightarrow> canBeCloned A" by (simp add: clonable_node_def A)
  let ?parents = "uset_insert (node_T ?g node) parents"
  show ?thesis
  proof (cases "canBeCloned A \<and> node \<notin> set analyzed")
    case False
    then have "clones_step T st = Inr (rest, analyzed, ?parents, edges)" using A by (auto simp: clones_step_def st Let_def)
    moreover have "clones_inv T child (rest, analyzed, ?parents, edges)"
      unfolding clones_inv_def prod.case
      by (rule exI [of _ "insert node popped"]) (use P False clon in auto)
    ultimately show ?thesis by (simp add: st)
  next
    case True
    obtain queue1 edges1 where q: "addIncomingNodes ?g node (rest, edges) = (queue1, edges1)" by fastforce
    have q1: "set queue1 = set rest \<union> preds ?g node" using set_addIncoming [of ?g node rest edges] q by simp
    have "clones_step T st = Inr (queue1, analyzed @ [node], ?parents, edges1)" using A True q by (simp add: clones_step_def st Let_def)
    moreover have "clones_inv T child (queue1, analyzed @ [node], ?parents, edges1)"
      unfolding clones_inv_def prod.case
    proof (rule exI [of _ "insert node popped"], intro conjI)
      show "insert node popped \<union> set queue1 \<subseteq> Collect (clone_parent T child)"
        using P(2) q1 through [OF cp] clon True by auto
    qed (use P q1 node in auto)
    moreover have "card (set (allNodes ?g) - set (analyzed @ [node])) < card (set (allNodes ?g) - set analyzed)"
      using node True by (intro psubset_card_mono) auto
    ultimately show ?thesis by (simp add: st)
  qed
qed

lemma clones_of_ok:
  assumes "attributed T" "child \<in> set (allNodes (scc_graph (da_dag T)))"
  shows "\<exists>parents edges'. clones_of T child edges = Inr (parents, edges') \<and>
    set parents = node_T (scc_graph (da_dag T)) ` Collect (clone_parent T child)"
proof -
  let ?g = "scc_graph (da_dag T)"
  obtain queue edges1 where q: "addIncomingNodes ?g child ([], edges) = (queue, edges1)" by fastforce
  have set_q: "set queue = preds ?g child" using set_addIncoming [of ?g child "[]" edges] q by simp
  have init: "clones_inv T child (queue, [child], [], edges1)"
    unfolding clones_inv_def prod.case by (rule exI [of _ "{}"]) (use set_q assms(2) direct in auto)
  have "\<exists>t. whileE (\<lambda>(queue, _). queue \<noteq> []) (clones_step T) (queue, [child], [], edges1) = Inr t \<and> clones_inv T child t \<and>
      \<not> (\<lambda>(queue, _). queue \<noteq> []) t"
    by (rule whileE_total [where P = "clones_inv T child", OF wf_measures init]) (rule clones_step_ok [OF assms], simp, simp split: prod.splits)
  then obtain analyzed parents edges2 where
    r: "whileE (\<lambda>(queue, _). queue \<noteq> []) (clones_step T) (queue, [child], [], edges1) = Inr ([], analyzed, parents, edges2)"
       "clones_inv T child ([], analyzed, parents, edges2)" by (auto split: prod.splits)
  from r(2) obtain popped where P: "set parents = node_T ?g ` popped" "popped \<subseteq> Collect (clone_parent T child)" "preds ?g child \<subseteq> popped"
     "\<forall>q \<in> set analyzed. preds ?g q \<subseteq> popped" "\<forall>q \<in> popped. clonable_node T q \<longrightarrow> q \<in> set analyzed"
    by (auto simp: clones_inv_def)
  have "p \<in> popped" if "clone_parent T child p" for p using that by induction (use P in auto)
  then have "popped = Collect (clone_parent T child)" using P(2) by auto
  then show ?thesis using P(1) r(1) q by (simp add: clones_of_def)
qed

definition parents_of :: "('r, 'bv) sccdag_attrs \<Rightarrow> ptr \<Rightarrow> ptr set" where
  "parents_of T s = (case map_of (da_parents T) s of None \<Rightarrow> {} | Some ps \<Rightarrow> set ps)"

definition same_sccs :: "('r, 'bv) sccdag_attrs \<Rightarrow> ('r, 'bv) sccdag_attrs \<Rightarrow> bool" where
  "same_sccs T T' \<longleftrightarrow> da_dag T' = da_dag T \<and> da_carried T' = da_carried T \<and> da_info T' = da_info T"

lemma same_sccs_attrs: "same_sccs T T' \<Longrightarrow> getSCCAttrs T' = getSCCAttrs T"
  by (simp add: same_sccs_def getSCCAttrs_def fun_eq_iff)

lemma same_sccs_attributed: "same_sccs T T' \<Longrightarrow> attributed T' = attributed T"
  using same_sccs_attrs [of T T'] by (simp add: attributed_def same_sccs_def)

lemma same_sccs_clone_parent:
  assumes "same_sccs T T'"
  shows "clone_parent T' child p \<longleftrightarrow> clone_parent T child p"
proof -
  have 1: "clone_parent T child p" if "clone_parent T' child p" "same_sccs T T'" for T T' :: "('r, 'bv) sccdag_attrs" and p
    using that
  proof induction
    case (direct p)
    then have "p \<in> preds (scc_graph (da_dag T)) child" by (simp add: same_sccs_def)
    then show ?case by (rule clone_parent.direct)
  next
    case (through q p)
    have "clonable_node T q" using through.hyps(2) same_sccs_attrs [OF through.prems] through.prems by (simp add: clonable_node_def same_sccs_def)
    moreover have "p \<in> preds (scc_graph (da_dag T)) q" using through.hyps(3) through.prems by (simp add: same_sccs_def)
    ultimately show ?case using through.IH [OF through.prems] clone_parent.through by blast
  qed
  have "same_sccs T' T" using assms by (simp add: same_sccs_def)
  then show ?thesis using 1 assms by blast
qed

lemma collect_clones_ok:
  assumes "attributed T" "child \<in> set (allNodes (scc_graph (da_dag T)))" "map_of (da_parents T) (node_T (scc_graph (da_dag T)) child) = None"
  shows "\<exists>T'. collect_clones child T = Inr T' \<and> same_sccs T T' \<and>
    parents_of T' (node_T (scc_graph (da_dag T)) child) = node_T (scc_graph (da_dag T)) ` Collect (clone_parent T child) \<and>
    (\<forall>s. s \<noteq> node_T (scc_graph (da_dag T)) child \<longrightarrow> map_of (da_parents T') s = map_of (da_parents T) s)"
proof -
  obtain parents edges' where c: "clones_of T child (da_edges T) = Inr (parents, edges')"
    "set parents = node_T (scc_graph (da_dag T)) ` Collect (clone_parent T child)" using clones_of_ok [OF assms(1,2)] by blast
  show ?thesis using c assms(3) by (auto simp: collect_clones_def same_sccs_def parents_of_def update_conv')
qed

lemma collect_all_ok:
  assumes "attributed T" "inj_on (node_T (scc_graph (da_dag T))) (set ns)" "distinct ns" "set ns \<subseteq> set (allNodes (scc_graph (da_dag T)))"
    and "\<forall>n \<in> set ns. map_of (da_parents T) (node_T (scc_graph (da_dag T)) n) = None"
  shows "\<exists>T'. foldE collect_clones ns T = Inr T' \<and> same_sccs T T' \<and>
    (\<forall>n \<in> set ns. parents_of T' (node_T (scc_graph (da_dag T)) n) = node_T (scc_graph (da_dag T)) ` Collect (clone_parent T n)) \<and>
    (\<forall>s. s \<notin> node_T (scc_graph (da_dag T)) ` set ns \<longrightarrow> map_of (da_parents T') s = map_of (da_parents T) s)"
  using assms
proof (induction ns arbitrary: T)
  case (Cons n ns)
  let ?t = "node_T (scc_graph (da_dag T))"
  obtain T1 where 1: "collect_clones n T = Inr T1" "same_sccs T T1" "parents_of T1 (?t n) = ?t ` Collect (clone_parent T n)"
    "\<forall>s. s \<noteq> ?t n \<longrightarrow> map_of (da_parents T1) s = map_of (da_parents T) s"
    using collect_clones_ok [OF Cons.prems(1), of n] Cons.prems(4,5) by auto
  have d: "da_dag T1 = da_dag T" using 1(2) by (simp add: same_sccs_def)
  have other: "?t m \<noteq> ?t n" if "m \<in> set ns" for m using Cons.prems(2,3) that by (auto simp: inj_on_def)
  have "\<exists>T'. foldE collect_clones ns T1 = Inr T' \<and> same_sccs T1 T' \<and>
      (\<forall>n \<in> set ns. parents_of T' (?t n) = ?t ` Collect (clone_parent T1 n)) \<and>
      (\<forall>s. s \<notin> ?t ` set ns \<longrightarrow> map_of (da_parents T') s = map_of (da_parents T1) s)"
    using Cons.IH [of T1] Cons.prems 1(4) other d same_sccs_attributed [OF 1(2)] by simp
  then obtain T' where 2: "foldE collect_clones ns T1 = Inr T'" "same_sccs T1 T'"
      "\<forall>n \<in> set ns. parents_of T' (?t n) = ?t ` Collect (clone_parent T1 n)"
      "\<forall>s. s \<notin> ?t ` set ns \<longrightarrow> map_of (da_parents T') s = map_of (da_parents T1) s" by blast
  have "same_sccs T T'" using 1(2) 2(2) by (simp add: same_sccs_def)
  moreover have "parents_of T' (?t n) = ?t ` Collect (clone_parent T n)"
  proof -
    have "?t n \<notin> ?t ` set ns" using other by force
    then show ?thesis using 1(3) 2(4) by (simp add: parents_of_def)
  qed
  ultimately show ?case using 1 2 same_sccs_clone_parent [OF 1(2)] by auto
qed (simp add: same_sccs_def)

section \<open>The class of an SCC\<close>

definition removable_dependence :: "llvm_insts \<Rightarrow> ('r, 'bv) sccdag_attrs \<Rightarrow> ptr \<Rightarrow> scc_edge \<Rightarrow> bool" where
  "removable_dependence I T s d \<longleftrightarrow> \<not> memory (edge_of T d) \<and>
     (if isControl (edge_of T d) then \<not> isInternal (scc_mem (da_dag T) s) (producer_of (da_dag T) d)
      else \<exists>i. consumer_of (da_dag T) d = Inst i \<and> isPHINode (in_kind I i))"

definition carries :: "Loops.llvm_module \<Rightarrow> nat \<Rightarrow> ('r, 'bv) sccdag_attrs \<Rightarrow> ptr \<Rightarrow> scc_edge \<Rightarrow> nat \<Rightarrow> bool" where
  "carries M header T s d i \<longleftrightarrow> \<not> isControl (edge_of T d) \<and> consumer_of (da_dag T) d = Inst i \<and> isInternal (scc_mem (da_dag T) s) (Inst i) \<and>
     lm_parent M i = header"

lemma carried_phi_none: "fold (carried_phi M I header T s) ds None = None"
  by (induction ds) (simp_all add: carried_phi_def)

lemma carried_phi_bad: "\<not> removable_dependence I T s d \<Longrightarrow> carried_phi M I header T s d st = None"
  by (cases st) (auto simp: removable_dependence_def carried_phi_def Let_def split: llvm_value.splits if_splits)

lemma carried_phi_good:
  assumes "removable_dependence I T s d" "distinct acc"
  shows "\<exists>r. carried_phi M I header T s d (Some acc) = Some r \<and> distinct r \<and> set r = set acc \<union> {i. carries M header T s d i}"
proof (cases "isControl (edge_of T d)")
  case True
  with assms show ?thesis by (simp add: removable_dependence_def carried_phi_def carries_def)
next
  case False
  with assms(1) obtain i where i: "consumer_of (da_dag T) d = Inst i" "isPHINode (in_kind I i)" "\<not> memory (edge_of T d)"
    by (auto simp: removable_dependence_def)
  show ?thesis
  proof (cases "isInternal (scc_mem (da_dag T) s) (Inst i) \<and> header = lm_parent M i")
    case True
    then have "{j. carries M header T s d j} = {i}" using False i by (auto simp: carries_def)
    with True False i assms(2) show ?thesis by (intro exI [of _ "uset_insert i acc"]) (auto simp: carried_phi_def)
  next
    case no: False
    then have "{j. carries M header T s d j} = {}" using False i by (auto simp: carries_def)
    with no False i assms(2) show ?thesis by (intro exI [of _ acc]) (auto simp: carried_phi_def)
  qed
qed

lemma carried_phi_fold_bad:
  assumes "\<exists>d \<in> set ds. \<not> removable_dependence I T s d"
  shows "fold (carried_phi M I header T s) ds st = None"
  using assms by (induction ds arbitrary: st) (auto simp: carried_phi_bad carried_phi_none)

lemma carried_phi_fold_good:
  assumes "\<forall>d \<in> set ds. removable_dependence I T s d" "distinct acc"
  shows "\<exists>r. fold (carried_phi M I header T s) ds (Some acc) = Some r \<and> distinct r \<and> set r = set acc \<union> {i. \<exists>d \<in> set ds. carries M header T s d i}"
  using assms
proof (induction ds arbitrary: acc)
  case (Cons d ds)
  obtain r where r: "carried_phi M I header T s d (Some acc) = Some r" "distinct r" "set r = set acc \<union> {i. carries M header T s d i}"
    using carried_phi_good [of I T s d acc M header] Cons.prems by auto
  then show ?case using Cons.IH [of r] Cons.prems by auto
qed simp

definition reducible_spec ::
  "bool \<Rightarrow> Loops.llvm_module \<Rightarrow> llvm_insts \<Rightarrow> nat \<Rightarrow> (ptr \<Rightarrow> nat \<Rightarrow> bool) \<Rightarrow> ('r, 'bv) sccdag_attrs \<Rightarrow> ptr \<Rightarrow> scc_edge list \<Rightarrow> bool" where
  "reducible_spec enableFloatAsReal M I header reducible T s ds \<longleftrightarrow>
     (\<forall>d \<in> set ds. removable_dependence I T s d) \<and>
     (\<exists>phi. {i. \<exists>d \<in> set ds. carries M header T s d i} = {phi} \<and> reducible s phi \<and>
        (in_type I phi \<in> {FloatTy, DoubleTy} \<longrightarrow> enableFloatAsReal))"

lemma checkIfReducible_ok:
  assumes "checkIfReducible enable M I LIS reducible s T = Inr (red, T')" "carried T s = Some ds" "getLoopNestingTreeRoot LIS = Inr root"
  shows "red \<longleftrightarrow> reducible_spec enable M I (ls_header (sm_mem LIS root)) reducible T s ds"
    and "\<exists>f. T' = T \<or> update_info s f T = Inr T'"
proof -
  let ?header = "ls_header (sm_mem LIS root)"
  have c: "red = (case fold (carried_phi M I ?header T s) ds (Some []) of
      Some [phi] \<Rightarrow> reducible s phi \<and> (in_type I phi \<in> {FloatTy, DoubleTy} \<longrightarrow> enable) | _ \<Rightarrow> False)" "\<exists>f. T' = T \<or> update_info s f T = Inr T'"
    using assms by (auto simp: checkIfReducible_def andThen_eq_Inr split: option.splits list.splits if_splits)
  show "\<exists>f. T' = T \<or> update_info s f T = Inr T'" by (rule c(2))
  show "red \<longleftrightarrow> reducible_spec enable M I ?header reducible T s ds"
  proof (cases "\<forall>d \<in> set ds. removable_dependence I T s d")
    case False
    then have "fold (carried_phi M I ?header T s) ds (Some []) = None" by (intro carried_phi_fold_bad) blast
    with False c(1) show ?thesis by (auto simp: reducible_spec_def)
  next
    case True
    then obtain r where r: "fold (carried_phi M I ?header T s) ds (Some []) = Some r" "distinct r" "set r = {i. \<exists>d \<in> set ds. carries M ?header T s d i}"
      using carried_phi_fold_good [of ds I T s "[]" M ?header] by auto
    show ?thesis
    proof (cases "\<exists>phi. r = [phi]")
      case True2: True
      then obtain phi where "r = [phi]" by blast
      then show ?thesis using c(1) r(1,3) True by (auto simp: reducible_spec_def)
    next
      case no: False
      have "set r \<noteq> {phi}" for phi
      proof
        assume "set r = {phi}"
        then have "length r = 1" using r(2) distinct_card by fastforce
        then show False using no by (cases r) auto
      qed
      then show ?thesis using c(1) r(1,3) no True by (auto simp: reducible_spec_def split: list.splits)
    qed
  qed
qed

section \<open>The constructor\<close>

definition only_info :: "ptr \<Rightarrow> ('r, 'bv) sccdag_attrs \<Rightarrow> ('r, 'bv) sccdag_attrs \<Rightarrow> bool" where
  "only_info s T T' \<longleftrightarrow> da_dag T' = da_dag T \<and> da_carried T' = da_carried T \<and> da_parents T' = da_parents T \<and> da_edges T' = da_edges T \<and>
     (\<forall>s'. s' \<noteq> s \<longrightarrow> getSCCAttrs T' s' = getSCCAttrs T s')"

lemma only_info_refl [simp]: "only_info s T T"
  by (simp add: only_info_def)

lemma only_info_trans: "only_info s T T1 \<Longrightarrow> only_info s T1 T2 \<Longrightarrow> only_info s T T2"
  by (simp add: only_info_def)

lemma update_info_only:
  assumes "update_info s f T = Inr T'"
  shows "only_info s T T'" and "\<exists>A. getSCCAttrs T s = Some A \<and> getSCCAttrs T' s = Some (f A)"
  using assms by (auto simp: update_info_def only_info_def getSCCAttrs_def update_conv' split: option.splits)

lemma checkIfClonable_only: "checkIfClonable M I LIS location s T = Inr T' \<Longrightarrow> only_info s T T'"
  by (auto simp: checkIfClonable_def checkIfClonableByUsingLocalMemory_def andThen_eq_Inr dest!: update_info_only(1) split: if_splits option.splits)

lemma reducible_spec_dag: "da_dag T' = da_dag T \<Longrightarrow> reducible_spec enable M I header reducible T' s ds = reducible_spec enable M I header reducible T s ds"
  by (simp add: reducible_spec_def removable_dependence_def carries_def edge_of_def)

definition class_of ::
  "bool \<Rightarrow> Loops.llvm_module \<Rightarrow> llvm_insts \<Rightarrow> nat \<Rightarrow> (ptr \<Rightarrow> nat \<Rightarrow> bool) \<Rightarrow> ('r, 'bv) sccdag_attrs \<Rightarrow> ptr \<Rightarrow> scc_type" where
  "class_of enableFloatAsReal M I header reducible T s =
     (case carried T s of None \<Rightarrow> INDEPENDENT
      | Some ds \<Rightarrow> if reducible_spec enableFloatAsReal M I header reducible T s ds then REDUCIBLE else SEQUENTIAL)"

lemma tag_scc_ok:
  assumes "tag_scc enable M I LIS mg ivs governing location reducible s T = Inr T'" "getLoopNestingTreeRoot LIS = Inr root"
  shows "only_info s T T' \<and> (\<exists>A. getSCCAttrs T' s = Some A \<and> sa_type A = class_of enable M I (ls_header (sm_mem LIS root)) reducible T s)"
proof -
  from assms(1) obtain A onlyIV T1 T2 where
    1: "update_info s (setSCCToBeInductionVariable onlyIV) (T\<lparr>da_info := AList.update s A (da_info T)\<rparr>) = Inr T1"
    and 2: "checkIfClonable M I LIS location s T1 = Inr T2"
    and 3: "(if checkIfIndependent T2 s then update_info s (setType INDEPENDENT) T2
       else andThen (checkIfReducible enable M I LIS reducible s T2) (\<lambda>(red, T3). update_info s (setType (if red then REDUCIBLE else SEQUENTIAL)) T3)) = Inr T'"
    by (auto simp: tag_scc_def andThen_eq_Inr)
  have "only_info s T (T\<lparr>da_info := AList.update s A (da_info T)\<rparr>)" by (simp add: only_info_def getSCCAttrs_def update_conv')
  then have T2: "only_info s T T2" using update_info_only(1) [OF 1] checkIfClonable_only [OF 2] only_info_trans by blast
  then have same: "da_dag T2 = da_dag T" "carried T2 s = carried T s" by (simp_all add: only_info_def carried_def)
  show ?thesis
  proof (cases "carried T s")
    case None
    then have "update_info s (setType INDEPENDENT) T2 = Inr T'" using 3 same(2) by (simp add: checkIfIndependent_def)
    from update_info_only [OF this] T2 None show ?thesis by (auto simp: class_of_def setType_def intro: only_info_trans)
  next
    case (Some ds)
    then obtain red T3 where r: "checkIfReducible enable M I LIS reducible s T2 = Inr (red, T3)"
        "update_info s (setType (if red then REDUCIBLE else SEQUENTIAL)) T3 = Inr T'"
      using 3 same(2) by (auto simp: checkIfIndependent_def andThen_eq_Inr)
    have ds: "carried T2 s = Some ds" using Some same(2) by simp
    note c = checkIfReducible_ok [OF r(1) ds assms(2)]
    have "only_info s T2 T3" using c(2) update_info_only(1) by auto
    then have "only_info s T T'" using T2 update_info_only(1) [OF r(2)] only_info_trans by blast
    moreover have "red \<longleftrightarrow> reducible_spec enable M I (ls_header (sm_mem LIS root)) reducible T s ds" using c(1) reducible_spec_dag [OF same(1)] by simp
    ultimately show ?thesis using update_info_only(2) [OF r(2)] Some by (auto simp: class_of_def setType_def)
  qed
qed

lemma tag_all_ok:
  assumes "foldE (tag_scc enable M I LIS mg ivs governing location reducible) ss T = Inr T'" "getLoopNestingTreeRoot LIS = Inr root"
  shows "da_dag T' = da_dag T \<and> da_carried T' = da_carried T \<and> da_parents T' = da_parents T \<and>
    (\<forall>s. (\<exists>A. getSCCAttrs T s = Some A \<and> sa_type A = class_of enable M I (ls_header (sm_mem LIS root)) reducible T s) \<or> s \<in> set ss \<longrightarrow>
       (\<exists>A. getSCCAttrs T' s = Some A \<and> sa_type A = class_of enable M I (ls_header (sm_mem LIS root)) reducible T s))"
  using assms(1)
proof (induction ss arbitrary: T)
  case (Cons x ss)
  let ?kind = "class_of enable M I (ls_header (sm_mem LIS root)) reducible"
  from Cons.prems obtain T1 where 1: "tag_scc enable M I LIS mg ivs governing location reducible x T = Inr T1"
      "foldE (tag_scc enable M I LIS mg ivs governing location reducible) ss T1 = Inr T'" by (auto simp: andThen_eq_Inr)
  note t = tag_scc_ok [OF 1(1) assms(2)] and IH = Cons.IH [OF 1(2)]
  have cls: "?kind T1 s = ?kind T s" for s using t reducible_spec_dag [of T1 T] by (simp add: class_of_def only_info_def carried_def split: option.splits)
  have "\<exists>A. getSCCAttrs T' s = Some A \<and> sa_type A = ?kind T s"
    if "(\<exists>A. getSCCAttrs T s = Some A \<and> sa_type A = ?kind T s) \<or> s \<in> set (x # ss)" for s
  proof -
    have "(\<exists>A. getSCCAttrs T1 s = Some A \<and> sa_type A = ?kind T1 s) \<or> s \<in> set ss"
      using that t cls by (cases "s = x") (auto simp: only_info_def)
    then show ?thesis using IH unfolding cls by blast
  qed
  then show ?case using IH t by (simp add: only_info_def)
qed simp

section \<open>A loop that sums an array\<close>

text \<open>Block 0 is the header with the PHIs 10 of the sum and 20 of the counter, the comparison 22 and the branch 23; block 1 holds the load 30, the addition 11
  and the increment 21, and goes back to 0; block 2 is the exit, 3 the preheader. There are three SCCs: the counter, the load and the sum.\<close>

definition sum_module :: Loops.llvm_module where
  "sum_module =
     \<lparr>lm_loop = (\<lambda>_. \<lparr>ll_depth = 1, ll_header = 0, ll_preheader = Some 3, ll_blocks = [0, 1], ll_isLatch = (\<lambda>b. b = 1), ll_isInvariant = (\<lambda>_. False),
        ll_exitBlocks = [2], ll_exitEdges = [(0, 2)], ll_parent = None, ll_subLoops = []\<rparr>),
      lm_insts = (\<lambda>b. if b = 0 then [20, 10, 22, 23] else if b = 1 then [30, 11, 21] else []),
      lm_parent = (\<lambda>i. if i \<in> {20, 10, 22, 23} then 0 else if i \<in> {30, 11, 21} then 1 else 2), lm_function = (\<lambda>_. 0),
      lm_succs = (\<lambda>b. if b = 0 then [1, 2] else if b = 1 then [0] else [])\<rparr>"

definition sum_insts :: llvm_insts where
  "sum_insts =
     \<lparr>in_kind = (\<lambda>i. if i = 20 then PHINode [(OtherValue 0, 3), (Inst 21, 1)] else if i = 10 then PHINode [(OtherValue 0, 3), (Inst 11, 1)]
        else if i = 22 then CmpInst ICMP_SLT (Inst 20) (Arg 0) else if i = 23 then BranchInst (Some (Inst 22)) [1, 2]
        else if i = 30 then LoadInst (Arg 1) else BinaryOperator OpAdd),
      in_operands = (\<lambda>_. []), in_users = (\<lambda>i. if i = 20 then [Inst 21, Inst 22] else if i = 21 then [Inst 20] else []), in_type = (\<lambda>_. IntegerTy 32), in_constInt = (\<lambda>v. if v = OtherValue 1 then Some 1 else None)\<rparr>"

definition sum_loops :: loops_summary where
  "sum_loops =
     \<lparr>sm_loops = [0], sm_topLoop = Some 0, sm_bbToLoop = (\<lambda>b. if b \<in> {0, 1} then Some 0 else None), sm_mem = (\<lambda>_.
       \<lparr>ls_ID = 0, ls_header = 0, ls_preHeader = Some 3, ls_depth = 1, ls_parent = None, ls_invariants = [], ls_children = [], ls_latchBBs = [1],
        ls_bbs = [0, 1], ls_orderedBBs = [0, 1], ls_exitBlocks = [2], ls_exitEdges = [(0, 2)]\<rparr>), sm_next = 1, sm_globalID = 1\<rparr>"

definition sum_scc :: "ptr \<Rightarrow> (llvm_value, unit) dg" where
  "sum_scc s =
     (if s = 0 then setLoopCarried True 7 (register_graph [20, 21, 22, 23] [(20, 21), (20, 22), (22, 23), (21, 20)])
      else if s = 1 then register_graph [30] []
      else setLoopCarried True 3 (register_graph [10, 11] [(10, 11), (11, 10)]))"

definition sum_scc_graph :: "(ptr, unit) dg" where
  "sum_scc_graph =
     (let edge = (\<lambda>n m. \<lparr>memory = False, must = True, dataDepType = DG_DATA_RAW, isControl = False, isLoopCarried = False, isRemovable = False,
            remeds = None, efrom = n, eto = m, subEdges = []\<rparr>)
      in \<lparr>nodeIdCounter = 3, allNodes = [0, 1, 2], allEdges = [3, 4], entryNode = None, internalNodeMap = [(0, Some 0), (1, Some 1), (2, Some 2)],
          externalNodeMap = [],
          nodeMem = (\<lambda>n. \<lparr>nodeID = int n, theT = n, outgoingEdges = (if n = 0 then [3] else if n = 1 then [4] else []),
             incomingEdges = (if n = 1 then [3] else if n = 2 then [4] else [])\<rparr>),
          edgeMem = (\<lambda>e. if e = 3 then edge 0 1 else edge 1 2), nextPtr = 5\<rparr>)"

lemma sum_scc_graph_wf: "dg_wf sum_scc_graph"
  by (auto simp: dg_wf_def edges_wf_def maps_wf_def sum_scc_graph_def isInternal_def isExternal_def lookup_node_def Let_def)

definition sum_sccdag :: "(llvm_value, unit, bool list) sccdag" where
  "sum_sccdag =
     \<lparr>scc_graph = sum_scc_graph, scc_mem = sum_scc, scc_next = 3,
      valueToSCCNode = [(Inst 20, Some 0), (Inst 21, Some 0), (Inst 22, Some 0), (Inst 23, Some 0), (Inst 30, Some 1), (Inst 10, Some 2), (Inst 11, Some 2)],
      ordered_bits = bm_make list_bitvec [] 3, orderedDirty = True, sccIndexes = []\<rparr>"

text \<open>Scalar evolution recognises the counter, with the constant step 1.\<close>

definition sum_evolution :: scalar_evolution where
  "sum_evolution = \<lparr>se_isSCEVable = (\<lambda>_. True), se_hasSCEV = (\<lambda>i. i = 20), se_isAddRec = (\<lambda>i. i = 20), se_isUnaryOrBinary = (\<lambda>_. False),
     se_step = (\<lambda>_. StepConstant (OtherValue 1))\<rparr>"

definition sum_manager :: "iv_manager res" where
  "sum_manager = InductionVariableManager_of sum_module sum_insts sum_evolution (\<lambda>_. False) (\<lambda>_ _ _. None) empty_environment (\<lambda>_. None) sum_loops sum_sccdag"

definition sum_attrs :: "(unit, bool list) sccdag_attrs res" where
  "sum_attrs = andThen sum_manager (\<lambda>mg. SCCDAGAttrs_of False sum_module sum_insts sum_loops mg (\<lambda>_. None) (\<lambda>s phi. s = 2 \<and> phi = 10) sum_sccdag)"


lemma sum_attrs_parts:
  "\<not> isl sum_manager" "\<not> isl sum_attrs"
  "andThen sum_attrs (\<lambda>T. Inr (map_of (da_carried T) (Some 1), parents_of T 2)) = Inr (None, {0, 1})"
  by code_simp+


end
