(* ===== verification/Doall.thy ===== *)
theory Doall
  imports SccAttrsCorrect IVStepper Invariants
begin

text \<open>
  The DOALL parallelizer: when it can be applied to a loop, \<open>tools/doall/src/DOALL_analysis.cpp\<close> and \<open>canBeAppliedToLoop\<close> of \<open>DOALL.cpp\<close>.
  Whether two instructions access disjoint memory in different iterations, and which function is \<open>exit\<close>, are parameters.
\<close>

section \<open>SCCs that block DOALL\<close>

text \<open>The lambda given to \<open>iterateOverLoopCarriedDataDependences\<close>: the state is the flag \<open>areAllDataLCDsFromDisjointMemoryAccesses\<close>.\<close>

definition disjoint_step ::
  "(nat \<Rightarrow> nat \<Rightarrow> bool) \<Rightarrow> ('r, 'bv) sccdag_attrs \<Rightarrow> scc_edge \<Rightarrow> bool \<Rightarrow> (bool \<times> bool) res" where
  "disjoint_step disjoint T dep flag =
     (if isControl (edge_of T dep) then Inr (False, flag)
      else if \<not> memory (edge_of T dep) then Inr (True, False)
      else let flag1 = (flag \<and> (case (producer_of (da_dag T) dep, consumer_of (da_dag T) dep) of
                   (Inst fromInst, Inst toInst) \<Rightarrow> disjoint fromInst toInst | _ \<Rightarrow> False))
           in Inr (\<not> flag1, flag1))"

definition block_step ::
  "(nat \<Rightarrow> nat \<Rightarrow> bool) \<Rightarrow> ('r, 'bv) sccdag_attrs \<Rightarrow> ptr option \<Rightarrow> ptr list \<Rightarrow> ptr list res" where
  "block_step disjoint T k sccs =
     (case k of None \<Rightarrow> Inl NullDeref
      | Some s \<Rightarrow>
          (case getSCCAttrs T s of None \<Rightarrow> Inl NullDeref
           | Some A \<Rightarrow>
               if canExecuteReducibly A then Inr sccs
               else if canBeCloned A then Inr sccs
               else if sa_isClonableIntoLocalMemory A then Inr sccs
               else andThen (iterateOverLoopCarriedDataDependences T s (disjoint_step disjoint T) True) (\<lambda>areAllDisjoint.
                      Inr (if areAllDisjoint then sccs else uset_insert s sccs))))"

definition getSCCsThatBlockDOALLToBeApplicable :: "(nat \<Rightarrow> nat \<Rightarrow> bool) \<Rightarrow> ('r, 'bv) sccdag_attrs \<Rightarrow> ptr list res" where
  "getSCCsThatBlockDOALLToBeApplicable disjoint T = foldE (block_step disjoint T) (getSCCsWithLoopCarriedDataDependencies T) []"

section \<open>When DOALL can be applied\<close>

record ('r, 'bv) loop_info =
  li_module :: Loops.llvm_module
  li_insts :: llvm_insts
  li_loop :: nat
  li_structure :: loop_structure
  li_environment :: loop_environment
  li_sccs :: "('r, 'bv) sccdag_attrs"
  li_ivs :: iv_manager
  li_invariants :: "nat list"
  li_disjoint :: "nat \<Rightarrow> nat \<Rightarrow> bool"

text \<open>An exit block counts unless the instruction before its terminator is a call to \<open>exit\<close>.\<close>

definition counts_as_exit :: "('r, 'bv) loop_info \<Rightarrow> (nat \<Rightarrow> bool) \<Rightarrow> nat \<Rightarrow> bool" where
  "counts_as_exit L isExit bb =
     (case rev (lm_insts (li_module L) bb) of
        _ # prevInst # _ \<Rightarrow> (case in_kind (li_insts L) prevInst of CallInst (Some callee) \<Rightarrow> \<not> isExit callee | _ \<Rightarrow> True)
      | _ \<Rightarrow> True)"

definition canBeAppliedToLoop :: "('r, 'bv) loop_info \<Rightarrow> (nat \<Rightarrow> bool) \<Rightarrow> bool res" where
  "canBeAppliedToLoop L isExit =
     (if length (filter (counts_as_exit L isExit) (ls_exitBlocks (li_structure L))) \<noteq> 1 then Inr False
      else andThen (areAllLiveOutValuesReducable (li_sccs L) (li_environment L)) (\<lambda>reducable.
        if \<not> reducable then Inr False
        else andThen (getSCCsThatBlockDOALLToBeApplicable (li_disjoint L) (li_sccs L)) (\<lambda>nonDOALLSCCs.
          if nonDOALLSCCs \<noteq> [] then Inr False
          else case getLoopGoverningIVAttribution (li_ivs L) (li_loop L) of
            None \<Rightarrow> Inr False
          | Some attribution \<Rightarrow>
              andThen (getInductionVariables (li_ivs L) (li_loop L)) (\<lambda>ivs.
                if \<not> list_all (\<lambda>p. iv_stepInvariant (mg_mem (li_ivs L) ! p)) ivs then Inr False
                else andThen (LoopGoverningIVUtility_of (li_module L) (li_insts L) attribution) (\<lambda>ivUtility.
                  Inr (list_all (\<lambda>i. isInvariantValue (li_module L) (li_structure L) (li_invariants L) (Inst i)) (iu_derivation ivUtility)))))))"

section \<open>The analysis is exact\<close>

text \<open>A loop-carried data dependence that DOALL cannot ignore.\<close>

definition blocking_dependence :: "(nat \<Rightarrow> nat \<Rightarrow> bool) \<Rightarrow> ('r, 'bv) sccdag_attrs \<Rightarrow> scc_edge \<Rightarrow> bool" where
  "blocking_dependence disjoint T d \<longleftrightarrow> isDataDependence (edge_of T d) \<and>
     \<not> (memory (edge_of T d) \<and> (\<exists>i j. producer_of (da_dag T) d = Inst i \<and> consumer_of (da_dag T) d = Inst j \<and> disjoint i j))"

definition removed_by_doall :: "scc_attrs \<Rightarrow> bool" where
  "removed_by_doall A \<longleftrightarrow> sa_type A = REDUCIBLE \<or> sa_isClonable A \<or> sa_isClonableIntoLocalMemory A"

text \<open>The dependences that end in an internal node of an SCC, in the graph of the SCC.\<close>

definition internal_edges :: "('r, 'bv) sccdag_attrs \<Rightarrow> ptr \<Rightarrow> scc_edge set" where
  "internal_edges T s = {(s, e) |e v n. (v, Some n) \<in> set (internalNodeMap (scc_mem (da_dag T) s)) \<and> e \<in> set (in_edges (scc_mem (da_dag T) s) n)}"

lemma internal_incoming_ok:
  assumes "\<forall>(v, p) \<in> set (internalNodeMap (scc_mem (da_dag T) s)). p \<noteq> None"
  shows "\<exists>es. internal_incoming T s = Inr es \<and> set es = internal_edges T s"
proof -
  let ?g = "scc_mem (da_dag T) s"
  have "\<exists>es. foldE (\<lambda>(_, p) acc. case p of None \<Rightarrow> Inl NullDeref | Some n \<Rightarrow> Inr (acc @ map (Pair s) (in_edges ?g n))) m acc = Inr es \<and>
      set es = set acc \<union> {(s, e) |e v n. (v, Some n) \<in> set m \<and> e \<in> set (in_edges ?g n)}"
    if "\<forall>(v, p) \<in> set m. p \<noteq> None" for m and acc :: "scc_edge list"
    using that
  proof (induction m arbitrary: acc)
    case (Cons x m)
    obtain v n where x: "x = (v, Some n)" using Cons.prems by (cases x; cases "snd x") auto
    from Cons.IH [of "acc @ map (Pair s) (in_edges ?g n)"] Cons.prems obtain es where
      "foldE (\<lambda>(_, p) acc. case p of None \<Rightarrow> Inl NullDeref | Some n \<Rightarrow> Inr (acc @ map (Pair s) (in_edges ?g n))) m (acc @ map (Pair s) (in_edges ?g n)) = Inr es"
      "set es = set (acc @ map (Pair s) (in_edges ?g n)) \<union> {(s, e) |e v n. (v, Some n) \<in> set m \<and> e \<in> set (in_edges ?g n)}" by auto
    then show ?case by (intro exI [of _ es]) (auto simp: x)
  qed simp
  from this [OF assms, of "[]"] show ?thesis by (simp add: internal_incoming_def internal_edges_def Let_def)
qed

lemma disjoint_iteration:
  "\<exists>stop. iterate_until (\<lambda>d st. if isALoopCarriedDependence T s d \<and> isDataDependence (edge_of T d) then disjoint_step disjoint T d st else Inr (False, st)) es True
     = Inr (stop, \<not> (\<exists>d \<in> set es. isALoopCarriedDependence T s d \<and> blocking_dependence disjoint T d))"
proof (induction es)
  case (Cons d es)
  show ?case
  proof (cases "isALoopCarriedDependence T s d \<and> isDataDependence (edge_of T d)")
    case False
    with Cons show ?thesis by (auto simp: blocking_dependence_def)
  next
    case True
    then have "\<not> isControl (edge_of T d)" by (simp add: isDataDependence_def)
    with True Cons show ?thesis
      by (auto simp: disjoint_step_def Let_def blocking_dependence_def split: llvm_value.splits)
  qed
qed (rule exI [of _ False], simp)

lemma iterate_disjoint:
  assumes "\<forall>(v, p) \<in> set (internalNodeMap (scc_mem (da_dag T) s)). p \<noteq> None"
  shows "iterateOverLoopCarriedDataDependences T s (disjoint_step disjoint T) True =
    Inr (\<not> (\<exists>d \<in> internal_edges T s. isALoopCarriedDependence T s d \<and> blocking_dependence disjoint T d))"
proof -
  obtain es where es: "internal_incoming T s = Inr es" "set es = internal_edges T s" using internal_incoming_ok [OF assms] by blast
  show ?thesis using disjoint_iteration [of T s disjoint es]
    by (auto simp: iterateOverLoopCarriedDataDependences_def iterateOverLoopCarriedDependences_if_def es)
qed

definition analyzable :: "('r, 'bv) sccdag_attrs \<Rightarrow> bool" where
  "analyzable T \<longleftrightarrow> (\<forall>k \<in> set (getSCCsWithLoopCarriedDataDependencies T). \<exists>s A. k = Some s \<and> getSCCAttrs T s = Some A \<and>
     (\<forall>(v, p) \<in> set (internalNodeMap (scc_mem (da_dag T) s)). p \<noteq> None))"

lemma block_fold:
  assumes "\<forall>k \<in> set ks. \<exists>s A. k = Some s \<and> getSCCAttrs T s = Some A \<and> (\<forall>(v, p) \<in> set (internalNodeMap (scc_mem (da_dag T) s)). p \<noteq> None)"
  shows "\<exists>r. foldE (block_step disjoint T) ks acc = Inr r \<and> set r = set acc \<union> {s. Some s \<in> set ks \<and> (\<exists>A. getSCCAttrs T s = Some A \<and> \<not> removed_by_doall A) \<and>
     (\<exists>d \<in> internal_edges T s. isALoopCarriedDependence T s d \<and> blocking_dependence disjoint T d)}"
  using assms
proof (induction ks arbitrary: acc)
  case (Cons k ks)
  obtain s A where k: "k = Some s" "getSCCAttrs T s = Some A" "\<forall>(v, p) \<in> set (internalNodeMap (scc_mem (da_dag T) s)). p \<noteq> None"
    using Cons.prems by auto
  define blocked where "blocked \<longleftrightarrow> (\<exists>d \<in> internal_edges T s. isALoopCarriedDependence T s d \<and> blocking_dependence disjoint T d)"
  define acc1 where "acc1 = (if \<not> removed_by_doall A \<and> blocked then uset_insert s acc else acc)"
  have step: "block_step disjoint T k acc = Inr acc1"
    using iterate_disjoint [OF k(3), of disjoint, folded blocked_def]
    by (simp add: block_step_def k(1,2) removed_by_doall_def canExecuteReducibly_def canBeCloned_def acc1_def)
  let ?Q = "\<lambda>s. (\<exists>A. getSCCAttrs T s = Some A \<and> \<not> removed_by_doall A) \<and> (\<exists>d \<in> internal_edges T s. isALoopCarriedDependence T s d \<and> blocking_dependence disjoint T d)"
  have "\<exists>r. foldE (block_step disjoint T) ks acc1 = Inr r \<and> set r = set acc1 \<union> {s. Some s \<in> set ks \<and> ?Q s}"
    by (rule Cons.IH) (use Cons.prems in simp)
  then obtain r where r: "foldE (block_step disjoint T) ks acc1 = Inr r" "set r = set acc1 \<union> {s. Some s \<in> set ks \<and> ?Q s}" by (elim exE conjE)
  have Qs: "?Q s \<longleftrightarrow> \<not> removed_by_doall A \<and> blocked" using k(2) by (simp add: blocked_def)
  have "set acc1 = set acc \<union> {s'. s' = s \<and> ?Q s'}" using Qs unfolding acc1_def by auto
  moreover have "{s'. Some s' \<in> set (k # ks) \<and> ?Q s'} = {s'. s' = s \<and> ?Q s'} \<union> {s'. Some s' \<in> set ks \<and> ?Q s'}" using k(1) by auto
  ultimately have "set r = set acc \<union> {s'. Some s' \<in> set (k # ks) \<and> ?Q s'}" using r(2) by (simp only: Un_assoc)
  moreover have "foldE (block_step disjoint T) (k # ks) acc = Inr r" using step r(1) by simp
  ultimately show ?case by (intro exI [of _ r] conjI)
qed simp

lemma blocking_sccs:
  assumes "analyzable T"
  shows "\<exists>sccs. getSCCsThatBlockDOALLToBeApplicable disjoint T = Inr sccs \<and>
    (\<forall>s. s \<in> set sccs \<longleftrightarrow> (\<exists>A. getSCCAttrs T s = Some A \<and> \<not> removed_by_doall A) \<and>
       (\<exists>d \<in> internal_edges T s. isALoopCarriedDependence T s d \<and> blocking_dependence disjoint T d))"
proof -
  obtain r where r: "getSCCsThatBlockDOALLToBeApplicable disjoint T = Inr r"
    "set r = {s. Some s \<in> set (getSCCsWithLoopCarriedDataDependencies T) \<and> (\<exists>A. getSCCAttrs T s = Some A \<and> \<not> removed_by_doall A) \<and>
     (\<exists>d \<in> internal_edges T s. isALoopCarriedDependence T s d \<and> blocking_dependence disjoint T d)}"
    using block_fold [of "getSCCsWithLoopCarriedDataDependencies T" T disjoint "[]"] assms by (auto simp: analyzable_def getSCCsThatBlockDOALLToBeApplicable_def)
  have "Some s \<in> set (getSCCsWithLoopCarriedDataDependencies T)" if "isALoopCarriedDependence T s d" "blocking_dependence disjoint T d" for s d
  proof -
    from that(1) obtain ds where ds: "carried T s = Some ds" "d \<in> set ds" by (auto simp: isALoopCarriedDependence_def split: option.splits)
    then have "(Some s, ds) \<in> set (da_carried T)" by (auto simp: carried_def dest: map_of_SomeD)
    with ds(2) that(2) show ?thesis by (force simp: getSCCsWithLoopCarriedDataDependencies_def blocking_dependence_def list_ex_iff)
  qed
  with r show ?thesis by blast
qed

text \<open>The loop that sums an array: its SCCs, with the load assumed not to overlap between iterations.\<close>

definition sum_info :: "(unit, bool list) loop_info res" where
  "sum_info = andThen sum_manager (\<lambda>mg. andThen sum_attrs (\<lambda>T.
     Inr \<lparr>li_module = sum_module, li_insts = sum_insts, li_loop = 0, li_structure = sm_mem sum_loops 0,
       li_environment = empty_environment\<lparr>envProducers := [Inst 10], producerIndexMap := [(Inst 10, 0)], liveOutInds := [0]\<rparr>,
       li_sccs = T, li_ivs = mg, li_invariants = [], li_disjoint = (\<lambda>_ _. False)\<rparr>))"

lemma sum_info_accepted:
  "andThen sum_info (\<lambda>L. canBeAppliedToLoop L (\<lambda>_. False)) = Inr True"
  "andThen sum_info (\<lambda>L. Inr (getSCCsWithLoopCarriedDataDependencies (li_sccs L),
     map (\<lambda>s. (getSCCAttrs (li_sccs L) s \<noteq> None, list_all (\<lambda>(v, p). p \<noteq> None) (internalNodeMap (scc_mem (da_dag (li_sccs L)) s)))) [0, 2])) =
   Inr ([Some 0, Some 2], [(True, True), (True, True)])"
  by code_simp+

lemma sum_info_ok: "\<exists>L. sum_info = Inr L \<and> canBeAppliedToLoop L (\<lambda>_. False) = Inr True \<and> analyzable (li_sccs L)"
proof -
  obtain L where L: "sum_info = Inr L" "canBeAppliedToLoop L (\<lambda>_. False) = Inr True"
    using sum_info_accepted(1) by (auto simp: andThen_eq_Inr)
  have "analyzable (li_sccs L)" using sum_info_accepted(2) unfolding L(1) by (auto simp: analyzable_def list_all_iff)
  with L show ?thesis by blast
qed

text \<open>C35: The SCCs that block DOALL. The analysis returns, and an SCC is among the blocking ones exactly when it is not reducible, cannot be cloned and cannot be
  cloned with its memory, and some loop-carried data dependence that ends in it is a register dependence or is between instructions whose
  accesses may overlap between iterations. In particular, with no blocking SCC every loop-carried data dependence that ends in an SCC is
  taken care of by the class of the SCC or by the disjointness of the accesses.\<close>

theorem doall_blocking_exact:
  assumes "analyzable T"
  shows "\<exists>sccs. getSCCsThatBlockDOALLToBeApplicable disjoint T = Inr sccs \<and>
    (\<forall>s. s \<in> set sccs \<longleftrightarrow> (\<exists>A. getSCCAttrs T s = Some A \<and> \<not> removed_by_doall A) \<and>
       (\<exists>d \<in> internal_edges T s. isALoopCarriedDependence T s d \<and> isDataDependence (edge_of T d) \<and>
          \<not> (memory (edge_of T d) \<and> (\<exists>i j. producer_of (da_dag T) d = Inst i \<and> consumer_of (da_dag T) d = Inst j \<and> disjoint i j))))"
  using blocking_sccs [OF assms, of disjoint] unfolding blocking_dependence_def .

lemma doall_blocking_exact_witness: "\<exists>L sccs. sum_info = Inr L \<and> getSCCsThatBlockDOALLToBeApplicable (li_disjoint L) (li_sccs L) = Inr sccs"
proof -
  obtain L where "sum_info = Inr L" "analyzable (li_sccs L)" using sum_info_ok by blast
  with doall_blocking_exact [of "li_sccs L" "li_disjoint L"] show ?thesis by blast
qed

lemma live_outs_ok:
  assumes "iterate_until (live_out_step T E) ks b = Inr (stop, True)"
  shows "\<forall>k \<in> set ks. \<exists>producer s A. producerAt k E = Inr producer \<and> sccOfValue (da_dag T) producer = Inr (Some s) \<and>
      getSCCAttrs T s = Some A \<and> sa_type A \<in> {INDEPENDENT, REDUCIBLE}"
  using assms
proof (induction ks arbitrary: b)
  case (Cons k ks)
  from Cons.prems obtain st where st: "live_out_step T E k b = Inr st" "(case st of (stop1, ok) \<Rightarrow> if stop1 then Inr (True, ok) else iterate_until (live_out_step T E) ks ok) = Inr (stop, True)"
    by (auto simp: andThen_eq_Inr)
  from st(1) obtain producer scc A where k: "producerAt k E = Inr producer" "sccOfValue (da_dag T) producer = Inr scc" "Option.bind scc (getSCCAttrs T) = Some A"
      "st = (sa_type A = SEQUENTIAL, sa_type A \<noteq> SEQUENTIAL)"
    unfolding live_out_step_def andThen_eq_Inr by (elim exE conjE) (simp split: option.splits)
  have ty: "sa_type A \<in> {INDEPENDENT, REDUCIBLE}" using st(2) k(4) by (cases "sa_type A") auto
  then have "iterate_until (live_out_step T E) ks True = Inr (stop, True)" using st(2) k(4) by auto
  moreover from k(3) obtain s where "scc = Some s" "getSCCAttrs T s = Some A" by (auto simp: bind_eq_Some_conv)
  ultimately show ?case using Cons.IH k(1,2) ty by auto
qed simp



end
