(* ===== verification/HotProfile.thy ===== *)
theory HotProfile
  imports SccAttrs "HOL-Library.Log_Nat"
begin

text \<open>
  The profile of a program, \<open>src/src/core/hotprofiler/src/Hot*.cpp\<close>: how often blocks, instructions, loops and functions were executed, and how many
  instructions were executed by them and by the functions they call. Counters are 64-bit words, the frequencies and the sums of
  \<open>computeTotalInstructions\<close> are doubles.
\<close>

type_synonym u64 = "64 word"

section \<open>Doubles\<close>

text \<open>The doubles that the profiler computes are never negative, never above $2^{192}$ and zero or above $2^{-64}$, so rounding is to 53 significant
  bits, to the nearest with ties to even, and there are neither subnormal values nor overflows; a division by zero gives infinity or no number.\<close>

datatype double = Fin rat | PosInf | NaN

definition round_even :: "rat \<Rightarrow> int" where
  "round_even x = (let f = \<lfloor>x\<rfloor>; d = x - of_int f in if d < 1 / 2 then f else if d > 1 / 2 then f + 1 else if even f then f else f + 1)"

definition two_to :: "int \<Rightarrow> rat" where
  "two_to e = (if 0 \<le> e then 2 ^ nat e else 1 / 2 ^ nat (- e))"

definition exponent :: "rat \<Rightarrow> int" where
  "exponent x = (let (n, d) = quotient_of x; e = int (floorlog 2 (nat n)) - int (floorlog 2 (nat d))
     in if two_to e \<le> x then e else e - 1)"

definition round_double :: "rat \<Rightarrow> rat" where
  "round_double x = (if x \<le> 0 then 0 else let u = two_to (exponent x - 52) in of_int (round_even (x / u)) * u)"

fun d_add :: "double \<Rightarrow> double \<Rightarrow> double" where
  "d_add (Fin x) (Fin y) = Fin (round_double (x + y))"
| "d_add NaN y = NaN"
| "d_add x NaN = NaN"
| "d_add x y = PosInf"

fun d_mul :: "double \<Rightarrow> double \<Rightarrow> double" where
  "d_mul (Fin x) (Fin y) = Fin (round_double (x * y))"
| "d_mul NaN y = NaN"
| "d_mul x NaN = NaN"
| "d_mul PosInf PosInf = PosInf"
| "d_mul (Fin x) PosInf = (if x = 0 then NaN else PosInf)"
| "d_mul PosInf (Fin y) = (if y = 0 then NaN else PosInf)"

fun d_div :: "double \<Rightarrow> double \<Rightarrow> double" where
  "d_div (Fin x) (Fin y) = (if y = 0 then (if x = 0 then NaN else PosInf) else Fin (round_double (x / y)))"
| "d_div NaN y = NaN"
| "d_div x NaN = NaN"
| "d_div PosInf PosInf = NaN"
| "d_div (Fin x) PosInf = Fin 0"
| "d_div PosInf (Fin y) = PosInf"

definition d_of_u64 :: "u64 \<Rightarrow> double" where
  "d_of_u64 w = Fin (round_double (of_nat (unat w)))"

text \<open>The conversion to an integer is undefined when the value does not fit.\<close>

definition d_to_u64 :: "double \<Rightarrow> u64 res" where
  "d_to_u64 x = (case x of Fin r \<Rightarrow> if r < 2 ^ 64 then Inr (of_int \<lfloor>r\<rfloor>) else Inl OutOfRange | _ \<Rightarrow> Inl OutOfRange)"

section \<open>The program\<close>

text \<open>What calls an instruction makes: none, a call or an invoke with its callee when it is known, or another kind of call.\<close>

datatype call_kind = NoCall | CallOrInvoke "nat option" | OtherCall "nat option"

record profiled_module =
  hm_functions :: "nat list"
  hm_blocks :: "nat \<Rightarrow> nat list"
  hm_insts :: "nat \<Rightarrow> nat list"
  hm_parent :: "nat \<Rightarrow> nat"
  hm_function :: "nat \<Rightarrow> nat"
  hm_succs :: "nat \<Rightarrow> nat list"
  hm_call :: "nat \<Rightarrow> call_kind"
  hm_uses :: "nat \<Rightarrow> nat option list"

abbreviation function_insts :: "profiled_module \<Rightarrow> nat \<Rightarrow> nat list" where
  "function_insts M f \<equiv> concat (map (hm_insts M) (hm_blocks M f))"

record hot =
  branchProbability :: "(nat \<times> (nat \<times> double) list) list"
  bbInvocations :: "(nat \<times> u64) list"
  functionInvocations :: "(nat \<times> u64) list"
  functionSelfInstructions :: "(nat \<times> u64) list"
  functionTotalInstructions :: "(nat \<times> u64) list"
  instructionTotalInstructions :: "(nat \<times> u64) list"
  moduleNumberOfInstructionsExecuted :: u64

definition Hot_of :: hot where
  "Hot_of = \<lparr>branchProbability = [], bbInvocations = [], functionInvocations = [], functionSelfInstructions = [], functionTotalInstructions = [],
     instructionTotalInstructions = [], moduleNumberOfInstructionsExecuted = 0\<rparr>"

text \<open>\<open>at()\<close> of a map, and sums over a range.\<close>

definition key_of :: "('k \<times> 'a) list \<Rightarrow> 'k \<Rightarrow> 'a res" where
  "key_of m k = (case map_of m k of None \<Rightarrow> Inl KeyMissing | Some v \<Rightarrow> Inr v)"

definition sumE :: "('a \<Rightarrow> u64 res) \<Rightarrow> 'a list \<Rightarrow> u64 res" where
  "sumE f xs = foldE (\<lambda>x t. andThen (f x) (\<lambda>v. Inr (t + v))) xs 0"

section \<open>Basic blocks\<close>

definition setBasicBlockInvocations :: "profiled_module \<Rightarrow> nat \<Rightarrow> u64 \<Rightarrow> hot \<Rightarrow> hot" where
  "setBasicBlockInvocations M bb invocations H =
     (let f = hm_function M bb;
          H1 = (case hm_blocks M f of
                  entryBB # _ \<Rightarrow> if entryBB = bb then H\<lparr>functionInvocations := AList.update f invocations (functionInvocations H)\<rparr> else H
                | [] \<Rightarrow> H)
      in H1\<lparr>bbInvocations := AList.update bb invocations (bbInvocations H1)\<rparr>)"

definition getInvocations_bb :: "hot \<Rightarrow> nat option \<Rightarrow> u64 res" where
  "getInvocations_bb H bb = (case bb of None \<Rightarrow> Inl AssertFailed | Some b \<Rightarrow> key_of (bbInvocations H) b)"

definition hasBeenExecuted_bb :: "hot \<Rightarrow> nat \<Rightarrow> bool res" where
  "hasBeenExecuted_bb H bb = andThen (getInvocations_bb H (Some bb)) (\<lambda>invs. Inr (invs \<noteq> 0))"

definition getStaticInstructions_bb :: "profiled_module \<Rightarrow> hot \<Rightarrow> nat \<Rightarrow> u64 res" where
  "getStaticInstructions_bb M H bb = andThen (getInvocations_bb H (Some bb)) (\<lambda>invs. Inr (invs * of_nat (length (hm_insts M bb))))"

definition getStaticInstructions_bb_if :: "profiled_module \<Rightarrow> (nat \<Rightarrow> bool) \<Rightarrow> nat \<Rightarrow> u64" where
  "getStaticInstructions_bb_if M canIConsiderIt bb = of_nat (length (filter canIConsiderIt (hm_insts M bb)))"

definition getSelfInstructions_bb :: "profiled_module \<Rightarrow> hot \<Rightarrow> nat \<Rightarrow> u64 res" where
  "getSelfInstructions_bb M H bb =
     andThen (getInvocations_bb H (Some bb)) (\<lambda>invs. andThen (getStaticInstructions_bb M H bb) (\<lambda>n. Inr (invs * n)))"

definition getBranchFrequency :: "hot \<Rightarrow> nat \<Rightarrow> nat \<Rightarrow> double res" where
  "getBranchFrequency H sourceBB targetBB =
     andThen (key_of (branchProbability H) sourceBB) (\<lambda>succs. Inr (case map_of succs targetBB of None \<Rightarrow> Fin 0 | Some f \<Rightarrow> f))"

definition setBranchFrequency :: "nat \<Rightarrow> nat \<Rightarrow> double \<Rightarrow> hot \<Rightarrow> hot" where
  "setBranchFrequency src dst f H =
     H\<lparr>branchProbability := AList.update src (AList.update dst f (case map_of (branchProbability H) src of None \<Rightarrow> [] | Some s \<Rightarrow> s)) (branchProbability H)\<rparr>"

section \<open>Functions\<close>

definition getStaticInstructions_fun :: "profiled_module \<Rightarrow> nat \<Rightarrow> u64" where
  "getStaticInstructions_fun M f = sum_list (map (\<lambda>bb. of_nat (length (hm_insts M bb))) (hm_blocks M f))"

definition getStaticInstructions_fun_if :: "profiled_module \<Rightarrow> (nat \<Rightarrow> bool) \<Rightarrow> nat \<Rightarrow> u64" where
  "getStaticInstructions_fun_if M canIConsiderIt f = sum_list (map (getStaticInstructions_bb_if M canIConsiderIt) (hm_blocks M f))"

definition getSelfInstructions_fun :: "hot \<Rightarrow> nat \<Rightarrow> u64 res" where
  "getSelfInstructions_fun H f = key_of (functionSelfInstructions H) f"

definition getInvocations_fun :: "hot \<Rightarrow> nat \<Rightarrow> u64 res" where
  "getInvocations_fun H f = key_of (functionInvocations H) f"

definition setFunctionTotalInstructions :: "nat \<Rightarrow> u64 \<Rightarrow> hot \<Rightarrow> hot" where
  "setFunctionTotalInstructions f t H = H\<lparr>functionTotalInstructions := AList.update f t (functionTotalInstructions H)\<rparr>"

definition isFunctionTotalInstructionsAvailable :: "hot \<Rightarrow> nat \<Rightarrow> bool" where
  "isFunctionTotalInstructionsAvailable H f \<longleftrightarrow> map_of (functionTotalInstructions H) f \<noteq> None"

definition getTotalInstructions_fun :: "hot \<Rightarrow> nat \<Rightarrow> u64" where
  "getTotalInstructions_fun H f = (case map_of (functionTotalInstructions H) f of None \<Rightarrow> 0 | Some t \<Rightarrow> t)"

definition hasBeenExecuted_fun :: "hot \<Rightarrow> nat \<Rightarrow> bool res" where
  "hasBeenExecuted_fun H f = andThen (getInvocations_fun H f) (\<lambda>invs. Inr (invs \<noteq> 0))"

section \<open>Instructions\<close>

definition getInvocations_inst :: "profiled_module \<Rightarrow> hot \<Rightarrow> nat \<Rightarrow> u64 res" where
  "getInvocations_inst M H i =
     andThen (getInvocations_bb H (Some (hm_parent M i))) (\<lambda>invs.
       case hm_call M i of
         CallOrInvoke (Some callee) \<Rightarrow>
           if hm_blocks M callee = [] then Inr invs
           else andThen (getInvocations_fun H callee) (\<lambda>calleeInv.
                  let inv1 = (if calleeInv < invs then calleeInv else invs) in check (inv1 \<le> calleeInv) AssertFailed (Inr inv1))
       | _ \<Rightarrow> Inr invs)"

definition getTotalInstructions_inst :: "profiled_module \<Rightarrow> hot \<Rightarrow> nat \<Rightarrow> u64 res" where
  "getTotalInstructions_inst M H i = (case map_of (instructionTotalInstructions H) i of None \<Rightarrow> getInvocations_inst M H i | Some t \<Rightarrow> Inr t)"

definition getSelfInstructions_inst :: "profiled_module \<Rightarrow> hot \<Rightarrow> nat \<Rightarrow> u64 res" where
  "getSelfInstructions_inst = getInvocations_inst"

definition hasBeenExecuted_inst :: "profiled_module \<Rightarrow> hot \<Rightarrow> nat \<Rightarrow> bool res" where
  "hasBeenExecuted_inst M H i = andThen (getInvocations_inst M H i) (\<lambda>invs. Inr (invs \<noteq> 0))"

definition getTotalInstructions_bb :: "profiled_module \<Rightarrow> hot \<Rightarrow> nat \<Rightarrow> u64 res" where
  "getTotalInstructions_bb M H bb = sumE (getTotalInstructions_inst M H) (hm_insts M bb)"

section \<open>SCCs, loops and the module\<close>

definition getSelfInstructions_scc :: "profiled_module \<Rightarrow> hot \<Rightarrow> (llvm_value, 'r) dg \<Rightarrow> u64 res" where
  "getSelfInstructions_scc M H scc = sumE (getSelfInstructions_inst M H) (internal_instructions scc)"

definition getTotalInstructions_scc :: "profiled_module \<Rightarrow> hot \<Rightarrow> (llvm_value, 'r) dg \<Rightarrow> u64 res" where
  "getTotalInstructions_scc M H scc = sumE (getTotalInstructions_inst M H) (internal_instructions scc)"

definition getStaticInstructions_loop :: "profiled_module \<Rightarrow> hot \<Rightarrow> loop_structure \<Rightarrow> u64 res" where
  "getStaticInstructions_loop M H l = sumE (getStaticInstructions_bb M H) (ls_bbs l)"

definition getStaticInstructions_loop_if :: "profiled_module \<Rightarrow> (nat \<Rightarrow> bool) \<Rightarrow> loop_structure \<Rightarrow> u64" where
  "getStaticInstructions_loop_if M canIConsiderIt l = sum_list (map (getStaticInstructions_bb_if M canIConsiderIt) (ls_bbs l))"

definition getInvocations_loop :: "hot \<Rightarrow> loop_structure \<Rightarrow> u64 res" where
  "getInvocations_loop H l = getInvocations_bb H (ls_preHeader l)"

definition getSelfInstructions_loop :: "profiled_module \<Rightarrow> hot \<Rightarrow> loop_structure \<Rightarrow> u64 res" where
  "getSelfInstructions_loop M H l = sumE (getStaticInstructions_bb M H) (ls_bbs l)"

definition getTotalInstructions_loop :: "profiled_module \<Rightarrow> hot \<Rightarrow> loop_structure \<Rightarrow> u64 res" where
  "getTotalInstructions_loop M H l = sumE (getTotalInstructions_bb M H) (ls_bbs l)"

definition getIterations :: "profiled_module \<Rightarrow> hot \<Rightarrow> loop_structure \<Rightarrow> u64 res" where
  "getIterations M H l =
     andThen (getInvocations_bb H (Some (ls_header l))) (\<lambda>headerInvocations.
     andThen (sumE (\<lambda>b. getInvocations_bb H (Some b)) (filter (\<lambda>b. isIncluded b l) (hm_succs M (ls_header l)))) (\<lambda>succInvocations.
       Inr (if headerInvocations = succInvocations then headerInvocations else headerInvocations - 1)))"

definition getSelfInstructions_module :: "hot \<Rightarrow> u64" where
  "getSelfInstructions_module H = moduleNumberOfInstructionsExecuted H"

definition hasBeenExecuted_module :: "hot \<Rightarrow> bool" where
  "hasBeenExecuted_module H \<longleftrightarrow> getSelfInstructions_module H > 0"

definition getInvocations_module :: "hot \<Rightarrow> bool" where
  "getInvocations_module H \<longleftrightarrow> hasBeenExecuted_module H"

definition getTotalInstructions_module :: "hot \<Rightarrow> u64" where
  "getTotalInstructions_module H = getSelfInstructions_module H"

definition isAvailable :: "hot \<Rightarrow> bool" where
  "isAvailable H \<longleftrightarrow> hasBeenExecuted_module H"

definition getDynamicTotalInstructionCoverage_fun :: "hot \<Rightarrow> nat \<Rightarrow> double" where
  "getDynamicTotalInstructionCoverage_fun H f = d_div (d_of_u64 (getTotalInstructions_fun H f)) (d_of_u64 (getTotalInstructions_module H))"

definition getDynamicTotalInstructionCoverage_loop :: "profiled_module \<Rightarrow> hot \<Rightarrow> loop_structure \<Rightarrow> double res" where
  "getDynamicTotalInstructionCoverage_loop M H l =
     andThen (getTotalInstructions_loop M H l) (\<lambda>lInsts. Inr (d_div (d_of_u64 lInsts) (d_of_u64 (getTotalInstructions_module H))))"

definition getAverageLoopIterationsPerInvocation :: "profiled_module \<Rightarrow> hot \<Rightarrow> loop_structure \<Rightarrow> double res" where
  "getAverageLoopIterationsPerInvocation M H l =
     andThen (getInvocations_loop H l) (\<lambda>loopInvocations.
       if loopInvocations = 0 then Inr (Fin 0)
       else andThen (getIterations M H l) (\<lambda>loopIterations. Inr (d_div (d_of_u64 loopIterations) (d_of_u64 loopInvocations))))"

definition getAverageTotalInstructionsPerInvocation :: "profiled_module \<Rightarrow> hot \<Rightarrow> loop_structure \<Rightarrow> double res" where
  "getAverageTotalInstructionsPerInvocation M H l =
     andThen (getInvocations_loop H l) (\<lambda>loopInvocations.
       if loopInvocations = 0 then Inr (Fin 0)
       else andThen (getTotalInstructions_loop M H l) (\<lambda>loopTotal. Inr (d_div (d_of_u64 loopTotal) (d_of_u64 loopInvocations))))"

definition getAverageTotalInstructionsPerIteration :: "profiled_module \<Rightarrow> hot \<Rightarrow> loop_structure \<Rightarrow> double res" where
  "getAverageTotalInstructionsPerIteration M H l =
     andThen (getAverageTotalInstructionsPerInvocation M H l) (\<lambda>instsPerInvocation.
       if instsPerInvocation = Fin 0 then Inr (Fin 0)
       else andThen (getAverageLoopIterationsPerInvocation M H l) (\<lambda>itersPerInvocation. Inr (d_div instsPerInvocation itersPerInvocation)))"

section \<open>Total instructions\<close>

text \<open>\<open>computeTotalInstructions\<close> of a function walks its instructions and recurses into callees that have not been evaluated and are not being
  evaluated. \<open>total_loop\<close> is the loop over the instructions that are left, with the sum so far; the recursion is the loop over the
  instructions of the callee. The evaluation stack is the set of the functions whose evaluation has started.\<close>

type_synonym total_state = "hot \<times> nat list"

definition calleeOf :: "profiled_module \<Rightarrow> nat \<Rightarrow> nat option" where
  "calleeOf M i =
     (case (case hm_call M i of NoCall \<Rightarrow> None | CallOrInvoke c \<Rightarrow> c | OtherCall c \<Rightarrow> c) of
        None \<Rightarrow> None | Some c \<Rightarrow> if hm_blocks M c = [] then None else Some c)"

definition add_callee :: "hot \<Rightarrow> nat \<Rightarrow> u64 \<Rightarrow> u64 \<Rightarrow> double \<Rightarrow> double res" where
  "add_callee H callee invs calleeTotalInsts t =
     check (calleeTotalInsts > 0) AssertFailed
       (andThen (getInvocations_fun H callee) (\<lambda>calleeInv.
          Inr (d_add t (d_mul (d_div (d_of_u64 calleeTotalInsts) (d_of_u64 calleeInv)) (d_of_u64 invs)))))"

definition check_callee :: "hot \<Rightarrow> nat \<Rightarrow> u64 \<Rightarrow> unit res" where
  "check_callee H callee invs =
     andThen (getInvocations_fun H callee) (\<lambda>calleeInv.
       check (calleeInv \<noteq> 0) AssertFailed (check (invs \<le> calleeInv) AssertFailed (Inr ())))"

partial_function (option) total_loop :: "profiled_module \<Rightarrow> nat list \<Rightarrow> double \<Rightarrow> total_state \<Rightarrow> (double \<times> total_state) res option" where
  "total_loop M insts t st =
     (case insts of [] \<Rightarrow> Some (Inr (t, st))
      | i # rest \<Rightarrow>
          let (H, stack) = st
          in (case getInvocations_inst M H i of Inl e \<Rightarrow> Some (Inl e)
              | Inr invs \<Rightarrow>
                  if invs = 0 then total_loop M rest t st
                  else let t1 = d_add t (d_of_u64 invs)
                       in (case calleeOf M i of None \<Rightarrow> total_loop M rest t1 st
                           | Some callee \<Rightarrow>
                               (case check_callee H callee invs of Inl e \<Rightarrow> Some (Inl e)
                                | Inr _ \<Rightarrow>
                                    if isFunctionTotalInstructionsAvailable H callee
                                    then (case add_callee H callee invs (getTotalInstructions_fun H callee) t1 of
                                            Inl e \<Rightarrow> Some (Inl e) | Inr t2 \<Rightarrow> total_loop M rest t2 st)
                                    else if callee \<in> set stack
                                    then (case add_callee H callee invs 1 t1 of Inl e \<Rightarrow> Some (Inl e) | Inr t2 \<Rightarrow> total_loop M rest t2 st)
                                    else Option.bind (total_loop M (function_insts M callee) (Fin 0) (H, callee # stack)) (\<lambda>r.
                                           case r of Inl e \<Rightarrow> Some (Inl e)
                                           | Inr (tc, H1, stack1) \<Rightarrow>
                                               (case d_to_u64 tc of Inl e \<Rightarrow> Some (Inl e)
                                                | Inr totalInsts \<Rightarrow>
                                                    let H2 = setFunctionTotalInstructions callee totalInsts H1
                                                    in (case add_callee H2 callee invs (getTotalInstructions_fun H2 callee) t1 of
                                                          Inl e \<Rightarrow> Some (Inl e) | Inr t2 \<Rightarrow> total_loop M rest t2 (H2, stack1))))))))"

declare total_loop.simps [code]

definition computeTotalInstructions_fun :: "profiled_module \<Rightarrow> nat \<Rightarrow> total_state \<Rightarrow> total_state res" where
  "computeTotalInstructions_fun M f st =
     (let (H, stack) = st
      in andThen (getInvocations_fun H f) (\<lambda>invs.
           if invs = 0 then Inr (setFunctionTotalInstructions f 0 H, f # stack)
           else (case total_loop M (function_insts M f) (Fin 0) (H, f # stack) of
                   None \<Rightarrow> Inl NoReturn
                 | Some r \<Rightarrow> andThen r (\<lambda>(t, H1, stack1). andThen (d_to_u64 t) (\<lambda>totalInsts. Inr (setFunctionTotalInstructions f totalInsts H1, stack1))))))"

text \<open>The distribution of the instructions of a function among the instructions that use it: one use, with the last instruction and what is left.\<close>

definition share_use :: "profiled_module \<Rightarrow> u64 \<Rightarrow> nat option \<Rightarrow> nat option \<times> u64 \<times> hot \<Rightarrow> (nat option \<times> u64 \<times> hot) res" where
  "share_use M perInvocation user = (\<lambda>(callerOfF, leftover, H).
     case user of None \<Rightarrow> Inr (callerOfF, leftover, H)
     | Some caller \<Rightarrow>
         andThen (hasBeenExecuted_inst M H caller) (\<lambda>executed.
           if \<not> executed then Inr (Some caller, leftover, H)
           else andThen (getInvocations_inst M H caller) (\<lambda>invs.
                  let fraction = perInvocation * invs
                  in Inr (Some caller, leftover - fraction,
                          H\<lparr>instructionTotalInstructions := AList.update caller (fraction + 1) (instructionTotalInstructions H)\<rparr>))))"

definition share_function :: "profiled_module \<Rightarrow> nat \<Rightarrow> hot \<Rightarrow> hot res" where
  "share_function M f H =
     (if hm_blocks M f = [] then Inr H
      else andThen (hasBeenExecuted_fun H f) (\<lambda>executed.
        if \<not> executed then Inr H
        else check (isFunctionTotalInstructionsAvailable H f) AssertFailed
          (let totalInsts = getTotalInstructions_fun H f
           in andThen (getInvocations_fun H f) (\<lambda>invs.
              andThen (foldE (share_use M (totalInsts div invs)) (hm_uses M f) (None, totalInsts, H)) (\<lambda>(callerOfF, leftover, H1).
                case callerOfF of
                  None \<Rightarrow> Inr H1
                | Some caller \<Rightarrow>
                    if 0 < leftover
                    then Inr (H1\<lparr>instructionTotalInstructions := AList.update caller
                           ((case map_of (instructionTotalInstructions H1) caller of None \<Rightarrow> 0 | Some t \<Rightarrow> t) + leftover) (instructionTotalInstructions H1)\<rparr>)
                    else Inr H1)))))"

definition computeTotalInstructions_module :: "profiled_module \<Rightarrow> hot \<Rightarrow> hot res" where
  "computeTotalInstructions_module M H =
     andThen (foldE (\<lambda>f H. if hm_blocks M f = [] then Inr H else andThen (computeTotalInstructions_fun M f (H, [])) (\<lambda>(H1, _). Inr H1)) (hm_functions M) H)
       (foldE (share_function M) (hm_functions M))"

definition computeProgramInvocations :: "profiled_module \<Rightarrow> hot \<Rightarrow> hot res" where
  "computeProgramInvocations M H =
     andThen (foldE (\<lambda>(bb, _) n. andThen (getInvocations_bb H (Some bb)) (\<lambda>invs. Inr (n + invs * of_nat (length (hm_insts M bb)))))
                (bbInvocations H) (moduleNumberOfInstructionsExecuted H)) (\<lambda>n.
     andThen (foldE (\<lambda>(f, _) H. andThen (sumE (getStaticInstructions_bb M H) (hm_blocks M f)) (\<lambda>c.
                  Inr (H\<lparr>functionSelfInstructions := AList.update f c (functionSelfInstructions H)\<rparr>)))
                (functionInvocations H) (H\<lparr>moduleNumberOfInstructionsExecuted := n\<rparr>))
       (computeTotalInstructions_module M))"

section \<open>Reading the profile\<close>

text \<open>LLVM gives the count of a block and the probability of an edge, as a fraction, when it knows them.\<close>

definition analyze_block :: "profiled_module \<Rightarrow> (nat \<Rightarrow> u64 option) \<Rightarrow> (nat \<Rightarrow> nat \<Rightarrow> (u32 \<times> u32) option) \<Rightarrow> nat \<Rightarrow> hot \<Rightarrow> hot" where
  "analyze_block M blockCount edgeProbability bb H =
     (case blockCount bb of
        None \<Rightarrow> setBasicBlockInvocations M bb 0 H
      | Some v \<Rightarrow> fold (\<lambda>succBB H. case edgeProbability bb succBB of
            None \<Rightarrow> H
          | Some (num, den) \<Rightarrow> setBranchFrequency bb succBB (d_div (Fin (of_nat (unat num))) (Fin (of_nat (unat den)))) H)
          (hm_succs M bb) (setBasicBlockInvocations M bb v H))"

definition analyzeProfiles :: "profiled_module \<Rightarrow> (nat \<Rightarrow> u64 option) \<Rightarrow> (nat \<Rightarrow> nat \<Rightarrow> (u32 \<times> u32) option) \<Rightarrow> hot \<Rightarrow> hot res" where
  "analyzeProfiles M blockCount edgeProbability H =
     computeProgramInvocations M
       (fold (\<lambda>f. fold (analyze_block M blockCount edgeProbability) (hm_blocks M f)) (hm_functions M) H)"

end
