(* ===== verification/HotProfileCorrect.thy ===== *)
theory HotProfileCorrect
  imports HotProfile
begin

text \<open>
  The profile: its computation ends, and the instructions that a function executes are shared among the instructions that call it.
\<close>

section \<open>The recursion ends\<close>

text \<open>\<open>NoReturn\<close> is the fault of a loop that does not end: the lookups can fail, but not in this way.\<close>

definition ends :: "'a res \<Rightarrow> bool" where
  "ends r \<longleftrightarrow> r \<noteq> Inl NoReturn"

named_theorems ends_simps

lemma ends_intro [intro!]:
  "ends (Inr x)" "\<lbrakk>ends r; \<And>x. r = Inr x \<Longrightarrow> ends (f x)\<rbrakk> \<Longrightarrow> ends (andThen r f)" "\<lbrakk>e \<noteq> NoReturn; b \<Longrightarrow> ends r\<rbrakk> \<Longrightarrow> ends (check b e r)"
  by (auto simp: ends_def check_def andThen_def split: sum.splits)

lemma foldE_ends [intro!]:
  assumes "\<And>x s. x \<in> set xs \<Longrightarrow> ends (f x s)"
  shows "ends (foldE f xs s)"
  using assms
proof (induction xs arbitrary: s)
  case (Cons a xs)
  have "ends (andThen (f a s) (foldE f xs))" using Cons by (intro ends_intro(2)) auto
  then show ?case by simp
qed auto

lemma lookups_end [ends_simps]:
  "key_of m x \<noteq> Inl NoReturn" "getInvocations_bb H b \<noteq> Inl NoReturn" "getInvocations_fun H f \<noteq> Inl NoReturn" "getInvocations_inst M H i \<noteq> Inl NoReturn"
  "d_to_u64 d \<noteq> Inl NoReturn" "check_callee H f n \<noteq> Inl NoReturn" "add_callee H f n k t \<noteq> Inl NoReturn"
  by (auto simp: key_of_def getInvocations_bb_def getInvocations_fun_def getInvocations_inst_def d_to_u64_def check_callee_def add_callee_def andThen_def check_def
      split: option.splits sum.splits call_kind.splits double.splits if_splits)

lemma total_loop_returns:
  assumes "finite FS" and "\<And>i c. calleeOf M i = Some c \<Longrightarrow> c \<in> FS"
  shows "\<exists>r. total_loop M insts t st = Some r \<and> r \<noteq> Inl NoReturn \<and> (\<forall>t' H' stack'. r = Inr (t', H', stack') \<longrightarrow> set (snd st) \<subseteq> set stack')"
proof -
  have "wf (measures [\<lambda>(insts, t, st). card (FS - set (snd st)), \<lambda>(insts, t, st). length insts] :: ((nat list \<times> double \<times> total_state) \<times> _) set)" by simp
  then have "\<exists>r. total_loop M (fst x) (fst (snd x)) (snd (snd x)) = Some r \<and> r \<noteq> Inl NoReturn \<and> (\<forall>t' H' stack'. r = Inr (t', H', stack') \<longrightarrow> set (snd (snd (snd x))) \<subseteq> set stack')"
    for x :: "nat list \<times> double \<times> total_state"
  proof (induction x rule: wf_induct_rule)
    case (less x)
    obtain insts t H stack where x: "x = (insts, t, H, stack)" by (cases x) auto
    have IH: "\<exists>r. total_loop M insts' t' (H', stack') = Some r \<and> r \<noteq> Inl NoReturn \<and> (\<forall>t2 H2 stack2. r = Inr (t2, H2, stack2) \<longrightarrow> set stack' \<subseteq> set stack2)"
      if "card (FS - set stack') < card (FS - set stack) \<or> card (FS - set stack') = card (FS - set stack) \<and> length insts' < length insts" for insts' t' H' stack'
      using less [of "(insts', t', H', stack')"] that by (simp add: x)
    show ?case
    proof (cases insts)
      case Nil
      then show ?thesis by (subst total_loop.simps) (simp add: x)
    next
      case (Cons i rest)
      have same: "\<exists>r. total_loop M rest t' (H', stack) = Some r \<and> r \<noteq> Inl NoReturn \<and> (\<forall>t2 H2 stack2. r = Inr (t2, H2, stack2) \<longrightarrow> set stack \<subseteq> set stack2)" for t' H'
        by (rule IH) (simp add: Cons)
      have less_callee: "card (FS - set (c # stack)) < card (FS - set stack)" if "calleeOf M i = Some c" "c \<notin> set stack" for c
        using assms that by (intro psubset_card_mono) auto
      have enter: "\<exists>r. total_loop M cs (Fin 0) (H, c # stack) = Some r \<and> r \<noteq> Inl NoReturn \<and> (\<forall>t2 H2 stack2. r = Inr (t2, H2, stack2) \<longrightarrow> set (c # stack) \<subseteq> set stack2)"
        if "calleeOf M i = Some c" "c \<notin> set stack" for c cs by (rule IH) (use less_callee [OF that] in simp)
      have after: "\<exists>r. total_loop M rest t' (H', stack') = Some r \<and> r \<noteq> Inl NoReturn \<and> (\<forall>t2 H2 stack2. r = Inr (t2, H2, stack2) \<longrightarrow> set stack \<subseteq> set stack2)"
        if "calleeOf M i = Some c" "c \<notin> set stack" "set (c # stack) \<subseteq> set stack'" for c t' H' stack'
      proof -
        have "card (FS - set stack') \<le> card (FS - set (c # stack))" using assms(1) that(3) by (intro card_mono) auto
        with IH [of stack' rest t' H'] less_callee [OF that(1,2)] that(3) show ?thesis by fastforce
      qed
      show ?thesis
      proof (cases "getInvocations_inst M H i")
        case (Inr invs)
        show ?thesis
        proof (cases "calleeOf M i")
          case None
          then show ?thesis using same Inr by (subst total_loop.simps) (simp add: x Cons Let_def)
        next
          case (Some c)
          show ?thesis
          proof (cases "isFunctionTotalInstructionsAvailable H c \<or> c \<in> set stack")
            case True
            then show ?thesis using same Inr Some by (subst total_loop.simps) (auto simp: x Cons Let_def ends_simps split: sum.splits)
          next
            case False
            then have c: "c \<notin> set stack" by simp
            obtain r where r: "total_loop M (function_insts M c) (Fin 0) (H, c # stack) = Some r" "r \<noteq> Inl NoReturn"
              "\<forall>t2 H2 stack2. r = Inr (t2, H2, stack2) \<longrightarrow> set (c # stack) \<subseteq> set stack2" using enter [OF Some c] by blast
            show ?thesis
            proof (cases r)
              case (Inr p)
              obtain t2 H2 stack2 where p: "p = (t2, H2, stack2)" by (cases p) auto
              have "set (c # stack) \<subseteq> set stack2" using r(3) Inr p by blast
              note a = after [OF Some c this]
              show ?thesis using same a False r(1) Some \<open>getInvocations_inst M H i = Inr invs\<close>
                by (subst total_loop.simps) (auto simp: x Cons Let_def ends_simps Inr p split: sum.splits)
            qed (use same False r(1,2) Some Inr lookups_end(6) [of H c invs] in \<open>subst total_loop.simps, auto simp: x Cons Let_def split: sum.splits\<close>)
          qed
        qed
      qed (subst total_loop.simps, auto simp: x Cons ends_simps)
    qed
  qed
  from this [of "(insts, t, st)"] show ?thesis by simp
qed

lemma lookups_ends [simp]:
  "ends (key_of m k)" "ends (getInvocations_bb H b)" "ends (getInvocations_fun H f)" "ends (getInvocations_inst M H i)" "ends (d_to_u64 d)"
  by (simp_all add: ends_def ends_simps)

lemma function_ends:
  assumes "finite FS" and "\<And>i c. calleeOf M i = Some c \<Longrightarrow> c \<in> FS"
  shows "ends (computeTotalInstructions_fun M f st)"
proof -
  obtain H stack where st: "st = (H, stack)" by (cases st)
  obtain r where "total_loop M (function_insts M f) (Fin 0) (H, f # stack) = Some r" "r \<noteq> Inl NoReturn"
    by (rule exE [OF total_loop_returns [where M = M and FS = FS, OF assms(1)]]) (use assms(2) in blast)+
  then show ?thesis unfolding computeTotalInstructions_fun_def st Let_def prod.case by (auto simp flip: ends_def)
qed

lemma share_function_ends [simp]: "ends (share_function M f H)"
  by (auto simp: share_function_def hasBeenExecuted_fun_def Let_def share_use_def hasBeenExecuted_inst_def split: option.splits)

lemma invocations_end:
  assumes "finite FS" and "\<And>i c. calleeOf M i = Some c \<Longrightarrow> c \<in> FS"
  shows "ends (computeProgramInvocations M H)"
  unfolding computeProgramInvocations_def computeTotalInstructions_module_def sumE_def getStaticInstructions_bb_def
  using function_ends [where M = M and FS = FS, OF assms] by auto

section \<open>What the callers are charged\<close>

definition shared_among :: "u64 \<Rightarrow> (nat \<Rightarrow> u64) \<Rightarrow> nat list \<Rightarrow> u64" where
  "shared_among p cnt callers = sum_list (map (\<lambda>c. p * cnt c) callers)"

lemma share_uses_from:
  assumes "distinct cs" and "\<forall>c \<in> set cs. getInvocations_inst M H c = Inr (cnt c) \<and> cnt c \<noteq> 0"
  shows "\<exists>m'. foldE (share_use M p) (map Some cs) (d, l, H\<lparr>instructionTotalInstructions := m\<rparr>) =
      Inr (if cs = [] then d else Some (last cs), l - shared_among p cnt cs, H\<lparr>instructionTotalInstructions := m'\<rparr>) \<and>
    (\<forall>c. map_of m' c = (if c \<in> set cs then Some (p * cnt c + 1) else map_of m c))"
  using assms
proof (induction cs arbitrary: d l m)
  case Nil
  then show ?case by (auto simp: shared_among_def)
next
  case (Cons c cs)
  have inv: "getInvocations_inst M (H\<lparr>instructionTotalInstructions := m\<rparr>) c = Inr (cnt c)"
  proof -
    have fn: "getInvocations_fun (H\<lparr>instructionTotalInstructions := m\<rparr>) = getInvocations_fun H"
      and bb: "getInvocations_bb (H\<lparr>instructionTotalInstructions := m\<rparr>) = getInvocations_bb H"
      by (rule ext, simp add: getInvocations_fun_def getInvocations_bb_def split: option.split)+
    have "getInvocations_inst M (H\<lparr>instructionTotalInstructions := m\<rparr>) c = getInvocations_inst M H c"
      unfolding getInvocations_inst_def fn bb by (rule refl)
    then show ?thesis using Cons.prems(2) by simp
  qed
  then have one: "share_use M p (Some c) (d, l, H\<lparr>instructionTotalInstructions := m\<rparr>) =
      Inr (Some c, l - p * cnt c, H\<lparr>instructionTotalInstructions := AList.update c (p * cnt c + 1) m\<rparr>)"
    using Cons.prems(2) by (simp add: share_use_def hasBeenExecuted_inst_def Let_def)
  obtain m' where m': "foldE (share_use M p) (map Some cs) (Some c, l - p * cnt c, H\<lparr>instructionTotalInstructions := AList.update c (p * cnt c + 1) m\<rparr>) =
      Inr (if cs = [] then Some c else Some (last cs), l - p * cnt c - shared_among p cnt cs, H\<lparr>instructionTotalInstructions := m'\<rparr>)"
    "\<forall>x. map_of m' x = (if x \<in> set cs then Some (p * cnt x + 1) else map_of (AList.update c (p * cnt c + 1) m) x)"
  proof -
    have d: "distinct cs" and c: "\<forall>c \<in> set cs. getInvocations_inst M H c = Inr (cnt c) \<and> cnt c \<noteq> 0" using Cons.prems by simp_all
    from Cons.IH [OF d c, of "Some c" "l - p * cnt c" "AList.update c (p * cnt c + 1) m"] obtain n where
      "foldE (share_use M p) (map Some cs) (Some c, l - p * cnt c, H\<lparr>instructionTotalInstructions := AList.update c (p * cnt c + 1) m\<rparr>) =
      Inr (if cs = [] then Some c else Some (last cs), l - p * cnt c - shared_among p cnt cs, H\<lparr>instructionTotalInstructions := n\<rparr>)"
      "\<forall>x. map_of n x = (if x \<in> set cs then Some (p * cnt x + 1) else map_of (AList.update c (p * cnt c + 1) m) x)" by (elim exE conjE)
    then show ?thesis by (rule that)
  qed
  show ?case
  proof (intro exI [of _ m'] conjI allI)
    show "foldE (share_use M p) (map Some (c # cs)) (d, l, H\<lparr>instructionTotalInstructions := m\<rparr>) =
      Inr (if c # cs = [] then d else Some (last (c # cs)), l - shared_among p cnt (c # cs), H\<lparr>instructionTotalInstructions := m'\<rparr>)"
      using one m'(1) by (simp add: shared_among_def algebra_simps)
    show "map_of m' x = (if x \<in> set (c # cs) then Some (p * cnt x + 1) else map_of m x)" for x
      using m'(2) by (simp add: update_conv')
  qed
qed

lemma share_uses:
  assumes "distinct cs" and "cs \<noteq> []" and "\<forall>c \<in> set cs. getInvocations_inst M H c = Inr (cnt c) \<and> cnt c \<noteq> 0"
  shows "\<exists>m'. foldE (share_use M p) (map Some cs) (d, l, H\<lparr>instructionTotalInstructions := m\<rparr>) =
      Inr (Some (last cs), l - shared_among p cnt cs, H\<lparr>instructionTotalInstructions := m'\<rparr>) \<and>
    (\<forall>c. map_of m' c = (if c \<in> set cs then Some (p * cnt c + 1) else map_of m c))"
  using share_uses_from [OF assms(1,3)] assms(2) by simp

lemma sum_list_update_one:
  assumes "distinct xs" "x \<in> set xs"
  shows "sum_list (map (\<lambda>c. f c + (if c = x then v else 0)) xs) = sum_list (map f xs) + (v :: u64)"
  using assms
proof (induction xs)
  case (Cons y ys)
  show ?case
  proof (cases "y = x")
    case True
    then have "map (\<lambda>c. f c + (if c = x then v else 0)) ys = map f ys" using Cons.prems by (intro map_cong) auto
    then have "sum_list (map (\<lambda>c. f c + (if c = x then v else 0)) ys) = sum_list (map f ys)" by (rule arg_cong)
    with True show ?thesis by (simp add: ac_simps del: map_eq_conv)
  next
    case False
    with Cons show ?thesis by (simp add: ac_simps)
  qed
qed simp


text \<open>A function of 7 instructions that a block executed twice calls, and another block executed once: the calls are charged 4 and 5.\<close>

definition shared_module :: profiled_module where
  "shared_module = \<lparr>hm_functions = [0, 1], hm_blocks = (\<lambda>f. if f = 0 then [10] else if f = 1 then [20, 21] else []),
     hm_insts = (\<lambda>b. if b = 10 then [100] else if b = 20 then [200] else if b = 21 then [201] else []),
     hm_parent = (\<lambda>i. if i = 100 then 10 else if i = 200 then 20 else 21), hm_function = (\<lambda>b. if b = 10 then 0 else 1),
     hm_succs = (\<lambda>b. if b = 20 then [21] else []), hm_call = (\<lambda>i. if i \<in> {200, 201} then CallOrInvoke (Some 0) else NoCall),
     hm_uses = (\<lambda>f. if f = 0 then [Some 200, Some 201] else [])\<rparr>"

definition shared_profile :: hot where
  "shared_profile = Hot_of\<lparr>bbInvocations := [(10, 3), (20, 1), (21, 2)], functionInvocations := [(0, 3), (1, 1)], functionTotalInstructions := [(0, 7), (1, 10)]\<rparr>"

lemma shared_parts:
  "\<not> isl (share_function shared_module 0 shared_profile)" "getInvocations_fun shared_profile 0 = Inr 3"
  "getInvocations_inst shared_module shared_profile 200 = Inr 1" "getInvocations_inst shared_module shared_profile 201 = Inr 2"
  "getTotalInstructions_fun shared_profile 0 = 7"
  by code_simp+


text \<open>C38: The computation of the profile ends. Whatever the call graph, recursive or not, and whatever the counts, reading the counts of the blocks and
  computing the totals of every function and the instructions every caller is charged ends, possibly with a failed assertion or a missing key:
  the recursion into the callees never enters a function whose evaluation has started.\<close>

theorem profile_ends:
  assumes "finite {c. \<exists>i. calleeOf M i = Some c}"
  shows "analyzeProfiles M blockCount edgeProbability H \<noteq> Inl NoReturn"
proof -
  have "ends (analyzeProfiles M blockCount edgeProbability H)"
    unfolding analyzeProfiles_def by (rule invocations_end [OF assms]) blast
  then show ?thesis by (simp add: ends_def)
qed

text \<open>Two functions that call each other.\<close>

definition mutual_module :: profiled_module where
  "mutual_module = \<lparr>hm_functions = [0, 1], hm_blocks = (\<lambda>f. if f = 0 then [10] else if f = 1 then [20] else []),
     hm_insts = (\<lambda>b. if b = 10 then [100, 101] else if b = 20 then [200] else []),
     hm_parent = (\<lambda>i. if i \<in> {100, 101} then 10 else 20), hm_function = (\<lambda>b. if b = 10 then 0 else 1), hm_succs = (\<lambda>_. []),
     hm_call = (\<lambda>i. if i = 100 then CallOrInvoke (Some 1) else if i = 200 then CallOrInvoke (Some 0) else NoCall),
     hm_uses = (\<lambda>f. if f = 0 then [Some 200] else if f = 1 then [Some 100] else [])\<rparr>"

lemma profile_ends_witness:
  "analyzeProfiles mutual_module (\<lambda>_. Some 4) (\<lambda>_ _. None) Hot_of \<noteq> Inl NoReturn"
proof (rule profile_ends)
  have "{c. \<exists>i. calleeOf mutual_module i = Some c} \<subseteq> {0, 1}"
    by (auto simp: calleeOf_def mutual_module_def split: if_splits)
  then show "finite {c. \<exists>i. calleeOf mutual_module i = Some c}" by (rule finite_subset) simp
qed

section \<open>Deviations\<close>

text \<open>A loop that was invoked \<open>k\<close> times, with \<open>n\<close> iterations in all, has executed its header \<open>n + k\<close> times; one is subtracted instead of \<open>k\<close>.\<close>

lemma iterations_of_many_invocations:
  assumes "getInvocations_bb H (Some (ls_header l)) = Inr (n + k)" "k \<noteq> 0"
    and "sumE (\<lambda>b. getInvocations_bb H (Some b)) (filter (\<lambda>b. isIncluded b l) (hm_succs M (ls_header l))) = Inr n"
  shows "getIterations M H l = Inr (n + (k - 1))"
  using assms by (simp add: getIterations_def algebra_simps)

text \<open>The number of instructions a block executes is multiplied by the number of its executions a second time.\<close>

lemma self_instructions_squared:
  assumes "getInvocations_bb H (Some bb) = Inr n"
  shows "getSelfInstructions_bb M H bb = Inr (n * n * of_nat (length (hm_insts M bb)))"
  using assms by (simp add: getSelfInstructions_bb_def getStaticInstructions_bb_def)

end
