(* ===== verification/Heuristics.thy ===== *)
theory Heuristics
  imports PartitionQueries HotProfile
begin

text \<open>
  How the stages of a pipeline are chosen, \<open>src/src/tools/heuristics/src\<close>: \<open>InvocationLatency\<close> estimates the cost of sets of SCCs from the profile,
  \<open>PartitionCostAnalysis\<close> and its two subclasses look for the merge that costs least, and \<open>Heuristics\<close> merges until there is none left.
\<close>

section \<open>InvocationLatency\<close>

record latency_cache =
  il_sccToCost :: "(ptr \<times> u64) list"
  il_externals :: "(ptr \<times> llvm_value list) list"
  il_parents :: "(ptr \<times> ptr list) list"

definition InvocationLatency_of :: latency_cache where
  "InvocationLatency_of = \<lparr>il_sccToCost = [], il_externals = [], il_parents = []\<rparr>"

text \<open>\<open>operator[]\<close> on the maps of the attributes adds an empty set for a key that is not there: the attributes are part of the state.\<close>

type_synonym ('r, 'bv) latency_state = "latency_cache \<times> ('r, 'bv) sccdag_attrs"

definition index_or_empty :: "'k \<Rightarrow> ('k \<times> 'a list) list \<Rightarrow> 'a list \<times> ('k \<times> 'a list) list" where
  "index_or_empty k m = (case map_of m k of Some xs \<Rightarrow> (xs, m) | None \<Rightarrow> ([], AList.update k [] m))"

definition latency_of_scc :: "profiled_module \<Rightarrow> hot \<Rightarrow> ptr \<Rightarrow> ('r, 'bv) latency_state \<Rightarrow> (u64 \<times> ('r, 'bv) latency_state) res" where
  "latency_of_scc M H s = (\<lambda>(L, T).
     case map_of (il_sccToCost L) s of
       Some cost \<Rightarrow> Inr (cost, L, T)
     | None \<Rightarrow> andThen (getTotalInstructions_scc M H (scc_mem (da_dag T) s)) (\<lambda>cost.
         Inr (cost, L\<lparr>il_sccToCost := AList.update s cost (il_sccToCost L)\<rparr>, T)))"

definition latency_of_inst :: "llvm_insts \<Rightarrow> profiled_module \<Rightarrow> hot \<Rightarrow> nat \<Rightarrow> u64 res" where
  "latency_of_inst I M H i =
     (if (case in_kind I i of PHINode _ \<Rightarrow> True | GetElementPtrInst \<Rightarrow> True | CastInst \<Rightarrow> True | _ \<Rightarrow> False) then Inr 0 else getTotalInstructions_inst M H i)"

definition queueLatency :: "llvm_value \<Rightarrow> u64" where
  "queueLatency queueVal = 100"

text \<open>For an edge that comes into the SCC, \<open>getIncomingT\<close> is the SCC itself, and for a sub-edge the value in it that consumes.\<close>

definition external_edge :: "('r, 'bv) sccdag_attrs \<Rightarrow> ptr \<Rightarrow> llvm_value list \<Rightarrow> llvm_value list res" where
  "external_edge T e acc =
     (let g = scc_graph (da_dag T)
      in case getSCCAttrs T (node_T g (edge_to g e)) of None \<Rightarrow> Inl NullDeref
         | Some A \<Rightarrow> Inr (if canBeCloned A then acc
             else uset_insert_all (map (\<lambda>p. consumer_of (da_dag T) (prod_decode p)) (subEdges (edgeMem g e))) acc))"

definition memoizeExternals :: "ptr \<Rightarrow> ('r, 'bv) latency_state \<Rightarrow> (llvm_value list \<times> ('r, 'bv) latency_state) res" where
  "memoizeExternals s = (\<lambda>(L, T).
     case map_of (il_externals L) s of
       Some vs \<Rightarrow> Inr (vs, L, T)
     | None \<Rightarrow>
         let (edges, m) = index_or_empty s (da_edges T)
         in andThen (foldE (external_edge T) edges []) (\<lambda>vs. Inr (vs, L\<lparr>il_externals := AList.update s vs (il_externals L)\<rparr>, T\<lparr>da_edges := m\<rparr>)))"

definition clonable_parent :: "('r, 'bv) sccdag_attrs \<Rightarrow> ptr \<Rightarrow> ptr list \<Rightarrow> ptr list res" where
  "clonable_parent T parent acc =
     (case getSCCAttrs T parent of None \<Rightarrow> Inl NullDeref | Some A \<Rightarrow> Inr (if canBeCloned A then uset_insert parent acc else acc))"

definition memoizeParents :: "ptr \<Rightarrow> ('r, 'bv) latency_state \<Rightarrow> (ptr list \<times> ('r, 'bv) latency_state) res" where
  "memoizeParents s = (\<lambda>(L, T).
     case map_of (il_parents L) s of
       Some ps \<Rightarrow> Inr (ps, L, T)
     | None \<Rightarrow>
         let (parents, m) = index_or_empty s (da_parents T)
         in andThen (foldE (clonable_parent T) parents []) (\<lambda>ps. Inr (ps, L\<lparr>il_parents := AList.update s ps (il_parents L)\<rparr>, T\<lparr>da_parents := m\<rparr>)))"

definition subset_sccs :: "ptr list \<Rightarrow> ('r, 'bv) latency_state \<Rightarrow> (ptr list \<times> ('r, 'bv) latency_state) res" where
  "subset_sccs ss st =
     foldE (\<lambda>scc (subset, st). andThen (memoizeParents scc st) (\<lambda>(ps, st1). Inr (uset_insert_all ps subset, st1))) ss (uset_insert_all ss [], st)"

definition add_scc_cost ::
  "profiled_module \<Rightarrow> hot \<Rightarrow> ptr \<Rightarrow> u64 \<times> llvm_value list \<times> ('r, 'bv) latency_state \<Rightarrow> (u64 \<times> llvm_value list \<times> ('r, 'bv) latency_state) res" where
  "add_scc_cost M H scc = (\<lambda>(internalCost, queueValues, st).
     andThen (memoizeExternals scc st) (\<lambda>(vs, st1).
     andThen (latency_of_scc M H scc st1) (\<lambda>(c, st2). Inr (internalCost + c, uset_insert_all vs queueValues, st2))))"

definition add_set_cost ::
  "profiled_module \<Rightarrow> hot \<Rightarrow> ptr list \<Rightarrow> u64 \<times> llvm_value list \<times> ('r, 'bv) latency_state \<Rightarrow> (u64 \<times> llvm_value list \<times> ('r, 'bv) latency_state) res" where
  "add_set_cost M H ss = (\<lambda>(maxInternalCost, queueValues, st).
     andThen (subset_sccs ss st) (\<lambda>(subset, st1).
     andThen (foldE (add_scc_cost M H) subset (0, queueValues, st1)) (\<lambda>(internalCost, queueValues1, st2).
       Inr (if internalCost > maxInternalCost then internalCost else maxInternalCost, queueValues1, st2))))"

definition latency_of_sets :: "profiled_module \<Rightarrow> hot \<Rightarrow> ptr list list \<Rightarrow> ('r, 'bv) latency_state \<Rightarrow> (u64 \<times> ('r, 'bv) latency_state) res" where
  "latency_of_sets M H sets st =
     andThen (foldE (add_set_cost M H) sets (0, [], st)) (\<lambda>(maxInternalCost, queueValues, st1).
       Inr (fold (\<lambda>v cost. cost + queueLatency v) queueValues maxInternalCost, st1))"

section \<open>PartitionCostAnalysis\<close>

text \<open>The candidate is not set before the first reset: what the fields hold until then is a parameter of the constructor.\<close>

record cost_analysis =
  ca_minSetsToMerge :: "ptr list"
  ca_savedCostByMerging :: u64
  ca_costOfMergedSet :: u64
  ca_numInstructionsInSetsBeingMerged :: u64
  ca_costIfAllSetsRunOnSeparateCores :: u64
  ca_totalInstructionCount :: u64
  ca_sccToInstructionCountMap :: "(ptr \<times> u64) list"
  ca_numCores :: "32 word"

definition sets_of_sccs :: "'p scc_partition \<Rightarrow> ptr list res" where
  "sets_of_sccs P = foldE (\<lambda>s acc. andThen (sccs_of P s) (\<lambda>xs. Inr (acc @ xs))) (getSets P) []"

definition all_set_contents :: "'p scc_partition \<Rightarrow> ptr list list res" where
  "all_set_contents P = foldE (\<lambda>s acc. andThen (sccs_of P s) (\<lambda>xs. Inr (acc @ [xs]))) (getSets P) []"

definition PartitionCostAnalysis_of ::
  "u64 \<times> u64 \<times> u64 \<Rightarrow> profiled_module \<Rightarrow> hot \<Rightarrow> 32 word \<Rightarrow> 'p scc_partition \<Rightarrow> ('r, 'bv) latency_state \<Rightarrow> (cost_analysis \<times> ('r, 'bv) latency_state) res" where
  "PartitionCostAnalysis_of uninit M H cores P st =
     andThen (sets_of_sccs P) (\<lambda>ss.
       let n = (\<lambda>scc. ucast (of_nat (numInternalNodes (scc_mem (da_dag (snd st)) scc)) :: 32 word) :: u64);
           counts = fold (\<lambda>scc. map_insert scc (n scc)) ss [];
           insts = fold (\<lambda>scc t. t + n scc) ss 0
       in andThen (all_set_contents P) (\<lambda>sets. andThen (latency_of_sets M H sets st) (\<lambda>(cost, st1).
          Inr (\<lparr>ca_minSetsToMerge = [], ca_savedCostByMerging = fst uninit, ca_costOfMergedSet = fst (snd uninit),
                ca_numInstructionsInSetsBeingMerged = snd (snd uninit), ca_costIfAllSetsRunOnSeparateCores = cost, ca_totalInstructionCount = insts,
                ca_sccToInstructionCountMap = counts, ca_numCores = cores\<rparr>, st1))))"

definition resetCandidateSubsetInfo :: "cost_analysis \<Rightarrow> cost_analysis" where
  "resetCandidateSubsetInfo A = A\<lparr>ca_minSetsToMerge := [], ca_savedCostByMerging := 0, ca_costOfMergedSet := - 1, ca_numInstructionsInSetsBeingMerged := - 1\<rparr>"

text \<open>The traversal calls \<open>checkIfShouldMerge\<close> of the subclass for every set and child.\<close>

definition check_children ::
  "(ptr \<Rightarrow> ptr \<Rightarrow> 's \<Rightarrow> 's res) \<Rightarrow> ptr \<Rightarrow> ptr \<Rightarrow> ptr list \<times> ptr list \<times> 's \<Rightarrow> (ptr list \<times> ptr list \<times> 's) res" where
  "check_children checkIfShouldMerge sub child = (\<lambda>(subToCheck, alreadyChecked, s).
     andThen (checkIfShouldMerge sub child s) (\<lambda>s1.
       Inr (if child \<in> set alreadyChecked then (subToCheck, alreadyChecked, s1) else (subToCheck @ [child], alreadyChecked @ [child], s1))))"

definition traverse_step ::
  "(ptr \<Rightarrow> ptr \<Rightarrow> 's \<Rightarrow> 's res) \<Rightarrow> 'p scc_partition \<Rightarrow> ptr list \<times> ptr list \<times> 's \<Rightarrow> (ptr list \<times> ptr list \<times> 's) res" where
  "traverse_step checkIfShouldMerge P = (\<lambda>(subToCheck, alreadyChecked, s).
     case subToCheck of [] \<Rightarrow> Inl OutOfRange
     | sub # rest \<Rightarrow> andThen (getChildren P sub) (\<lambda>children. foldE (check_children checkIfShouldMerge sub) children (rest, alreadyChecked, s)))"

definition traverseAllPartitionSubsets :: "(ptr \<Rightarrow> ptr \<Rightarrow> 's \<Rightarrow> 's res) \<Rightarrow> 'p scc_partition \<Rightarrow> 's \<Rightarrow> 's res" where
  "traverseAllPartitionSubsets checkIfShouldMerge P s =
     andThen (whileE (\<lambda>(subToCheck, _). subToCheck \<noteq> []) (traverse_step checkIfShouldMerge P) (getRoots P, getRoots P, s)) (\<lambda>(_, _, s1). Inr s1)"

type_synonym ('r, 'bv, 'p) merge_state = "cost_analysis \<times> ('r, 'bv) latency_state \<times> 'p scc_partition"

definition mergeCandidateSubsets ::
  "((ptr, 'p) dg \<Rightarrow> ptr \<Rightarrow> ptr list list) \<Rightarrow> profiled_module \<Rightarrow> hot \<Rightarrow> ('r, 'bv, 'p) merge_state \<Rightarrow> (bool \<times> ('r, 'bv, 'p) merge_state) res" where
  "mergeCandidateSubsets it M H = (\<lambda>(A, st, P).
     if ca_minSetsToMerge A = [] then Inr (False, A, st, P)
     else andThen (mergeSetsAndCollapseResultingCycles it (ca_minSetsToMerge A) P) (\<lambda>P1.
          andThen (all_set_contents P1) (\<lambda>sets. andThen (latency_of_sets M H sets st) (\<lambda>(cost, st1).
            Inr (True, A\<lparr>ca_costIfAllSetsRunOnSeparateCores := cost\<rparr>, st1, P1)))))"

section \<open>The two analyses\<close>

definition instCountOfMerge :: "cost_analysis \<Rightarrow> ptr list \<Rightarrow> u64 res" where
  "instCountOfMerge A ss = sumE (key_of (ca_sccToInstructionCountMap A)) ss"

definition minMax_checkIfShouldMerge ::
  "profiled_module \<Rightarrow> hot \<Rightarrow> 'p scc_partition \<Rightarrow> ptr \<Rightarrow> ptr \<Rightarrow> cost_analysis \<times> ('r, 'bv) latency_state \<Rightarrow> (cost_analysis \<times> ('r, 'bv) latency_state) res" where
  "minMax_checkIfShouldMerge M H P sA sB = (\<lambda>(A, st).
     if (of_nat (numNodes (pt_graph P)) :: 32 word) \<le> ca_numCores A then Inr (A, st)
     else andThen (getCycleIntroducedByMerging P sA sB) (\<lambda>setsInMerge.
          andThen (foldE (\<lambda>s acc. andThen (sccs_of P s) (\<lambda>xs. Inr (acc @ [xs]))) setsInMerge []) (\<lambda>contents.
          andThen (instCountOfMerge A (concat contents)) (\<lambda>insts.
          andThen (latency_of_sets M H [uset_insert_all (concat contents) []] st) (\<lambda>(costOnceMerged, st1).
            Inr (if costOnceMerged > ca_costOfMergedSet A then (A, st1)
                 else if costOnceMerged = ca_costOfMergedSet A \<and> insts > ca_numInstructionsInSetsBeingMerged A then (A, st1)
                 else (A\<lparr>ca_minSetsToMerge := setsInMerge, ca_costOfMergedSet := costOnceMerged, ca_numInstructionsInSetsBeingMerged := insts\<rparr>, st1)))))))"

definition smallest_checkIfShouldMerge :: "ptr \<Rightarrow> ptr \<Rightarrow> cost_analysis \<times> ('r, 'bv) latency_state \<Rightarrow> (cost_analysis \<times> ('r, 'bv) latency_state) res" where
  "smallest_checkIfShouldMerge sA sB s = Inr s"

section \<open>Heuristics\<close>

definition merge_round ::
  "('p scc_partition \<Rightarrow> ptr \<Rightarrow> ptr \<Rightarrow> cost_analysis \<times> ('r, 'bv) latency_state \<Rightarrow> (cost_analysis \<times> ('r, 'bv) latency_state) res) \<Rightarrow>
   ((ptr, 'p) dg \<Rightarrow> ptr \<Rightarrow> ptr list list) \<Rightarrow> profiled_module \<Rightarrow> hot \<Rightarrow> bool \<times> ('r, 'bv, 'p) merge_state \<Rightarrow> (bool \<times> ('r, 'bv, 'p) merge_state) res" where
  "merge_round checkIfShouldMerge it M H = (\<lambda>(_, A, st, P).
     andThen (traverseAllPartitionSubsets (checkIfShouldMerge P) P (resetCandidateSubsetInfo A, st)) (\<lambda>(A1, st1).
       mergeCandidateSubsets it M H (A1, st1, P)))"

definition merge_until_done ::
  "('p scc_partition \<Rightarrow> ptr \<Rightarrow> ptr \<Rightarrow> cost_analysis \<times> ('r, 'bv) latency_state \<Rightarrow> (cost_analysis \<times> ('r, 'bv) latency_state) res) \<Rightarrow> u64 \<times> u64 \<times> u64 \<Rightarrow>
   ((ptr, 'p) dg \<Rightarrow> ptr \<Rightarrow> ptr list list) \<Rightarrow> profiled_module \<Rightarrow> hot \<Rightarrow> u64 \<Rightarrow> ('r, 'bv) latency_state \<Rightarrow> 'p scc_partition \<Rightarrow>
   (('r, 'bv) latency_state \<times> 'p scc_partition) res" where
  "merge_until_done checkIfShouldMerge uninit it M H numThreads st P =
     andThen (PartitionCostAnalysis_of uninit M H (ucast numThreads) P st) (\<lambda>(A, st1).
     andThen (whileE fst (merge_round checkIfShouldMerge it M H) (True, A, st1, P)) (\<lambda>(_, _, st2, P2). Inr (st2, P2)))"

definition minMaxMergePartition ::
  "u64 \<times> u64 \<times> u64 \<Rightarrow> ((ptr, 'p) dg \<Rightarrow> ptr \<Rightarrow> ptr list list) \<Rightarrow> profiled_module \<Rightarrow> hot \<Rightarrow> u64 \<Rightarrow> ('r, 'bv) latency_state \<Rightarrow> 'p scc_partition \<Rightarrow>
   (('r, 'bv) latency_state \<times> 'p scc_partition) res" where
  "minMaxMergePartition uninit it M H = merge_until_done (minMax_checkIfShouldMerge M H) uninit it M H"

definition smallestSizeMergePartition ::
  "u64 \<times> u64 \<times> u64 \<Rightarrow> ((ptr, 'p) dg \<Rightarrow> ptr \<Rightarrow> ptr list list) \<Rightarrow> profiled_module \<Rightarrow> hot \<Rightarrow> u64 \<Rightarrow> ('r, 'bv) latency_state \<Rightarrow> 'p scc_partition \<Rightarrow>
   (('r, 'bv) latency_state \<times> 'p scc_partition) res" where
  "smallestSizeMergePartition uninit it M H = merge_until_done (\<lambda>_. smallest_checkIfShouldMerge) uninit it M H"

definition adjustParallelizationPartitionForDSWP ::
  "u64 \<times> u64 \<times> u64 \<Rightarrow> ((ptr, 'p) dg \<Rightarrow> ptr \<Rightarrow> ptr list list) \<Rightarrow> profiled_module \<Rightarrow> hot \<Rightarrow> u64 \<Rightarrow> ('r, 'bv) latency_state \<Rightarrow> 'p scc_partition \<Rightarrow>
   (('r, 'bv) latency_state \<times> 'p scc_partition) res" where
  "adjustParallelizationPartitionForDSWP uninit it M H numThreads = minMaxMergePartition uninit it M H numThreads"

end
