(* ===== verification/HeuristicsCorrect.thy ===== *)
theory HeuristicsCorrect
  imports Heuristics SccAttrsCorrect
begin

text \<open>
  The merging of the heuristics: the cost queries return when every SCC of the SCCDAG has attributes and a profile, the traversal offers every arrow
  of the partition, a round that finds a candidate leaves fewer sets, and what is left at the end is a quotient of the partition at the start.
\<close>

section \<open>Costs\<close>

text \<open>\<open>U\<close> is a set of SCCs whose attributes and profile are there, closed under the parents the latency pulls in.\<close>

definition costs_known :: "profiled_module \<Rightarrow> hot \<Rightarrow> ptr set \<Rightarrow> ('r, 'bv) latency_state \<Rightarrow> bool" where
  "costs_known M H U = (\<lambda>(L, T).
     (\<forall>s \<in> U. isl (getTotalInstructions_scc M H (scc_mem (da_dag T) s)) = False) \<and>
     (\<forall>s \<in> U. \<forall>e \<in> set (fst (index_or_empty s (da_edges T))). getSCCAttrs T (node_T (scc_graph (da_dag T)) (edge_to (scc_graph (da_dag T)) e)) \<noteq> None) \<and>
     (\<forall>s \<in> U. \<forall>p \<in> set (fst (index_or_empty s (da_parents T))). p \<in> U \<and> getSCCAttrs T p \<noteq> None) \<and>
     (\<forall>s \<in> U. \<forall>ps. map_of (il_parents L) s = Some ps \<longrightarrow> set ps \<subseteq> U))"

lemma index_or_empty_keeps: "fst (index_or_empty k (snd (index_or_empty k' m))) = fst (index_or_empty k m)"
  by (simp add: index_or_empty_def update_conv' split: option.split)

lemma latency_of_scc_ok:
  assumes st: "costs_known M H U st" and s: "s \<in> U"
  shows "\<exists>c st'. latency_of_scc M H s st = Inr (c, st') \<and> costs_known M H U st'"
proof -
  obtain L T where e: "st = (L, T)" by force
  note K = st [unfolded e costs_known_def prod.case]
  obtain c where c: "getTotalInstructions_scc M H (scc_mem (da_dag T) s) = Inr c" using K s by (metis isl_def sum.exhaust)
  have "costs_known M H U (L\<lparr>il_sccToCost := m\<rparr>, T)" for m using K by (simp add: costs_known_def)
  then show ?thesis using st c unfolding e by (simp add: latency_of_scc_def split: option.split)
qed

lemma memoizeExternals_ok:
  assumes st: "costs_known M H U st" and s: "s \<in> U"
  shows "\<exists>vs st'. memoizeExternals s st = Inr (vs, st') \<and> costs_known M H U st'"
proof -
  obtain L T where e: "st = (L, T)" by force
  note K = st [unfolded e costs_known_def prod.case]
  obtain es m where em: "index_or_empty s (da_edges T) = (es, m)" by force
  have m: "fst (index_or_empty k m) = fst (index_or_empty k (da_edges T))" for k using index_or_empty_keeps [of k s "da_edges T"] em by simp
  have "\<exists>vs. foldE (external_edge T) es [] = Inr vs \<and> True"
  proof (rule foldE_total)
    fix x acc assume "x \<in> set es"
    then have "getSCCAttrs T (node_T (scc_graph (da_dag T)) (edge_to (scc_graph (da_dag T)) x)) \<noteq> None" using K s em by force
    then show "\<exists>acc'. external_edge T x acc = Inr acc' \<and> True" by (auto simp: external_edge_def Let_def)
  qed simp
  then obtain vs where vs: "foldE (external_edge T) es [] = Inr vs" by blast
  have "costs_known M H U (L\<lparr>il_externals := x\<rparr>, T\<lparr>da_edges := m\<rparr>)" for x
    using K m by (simp add: costs_known_def getSCCAttrs_def)
  then show ?thesis using st vs em unfolding e by (simp add: memoizeExternals_def split: option.split)
qed

lemma memoizeParents_ok:
  assumes st: "costs_known M H U st" and s: "s \<in> U"
  shows "\<exists>ps st'. memoizeParents s st = Inr (ps, st') \<and> set ps \<subseteq> U \<and> costs_known M H U st'"
proof -
  obtain L T where e: "st = (L, T)" by force
  note K = st [unfolded e costs_known_def prod.case]
  obtain es m where em: "index_or_empty s (da_parents T) = (es, m)" by force
  have m: "fst (index_or_empty k m) = fst (index_or_empty k (da_parents T))" for k using index_or_empty_keeps [of k s "da_parents T"] em by simp
  have "\<exists>ps. foldE (clonable_parent T) es [] = Inr ps \<and> set ps \<subseteq> U"
  proof (rule foldE_total)
    fix x acc assume x: "x \<in> set es" "set acc \<subseteq> U"
    then have "x \<in> U" "getSCCAttrs T x \<noteq> None" using K s em by force+
    then show "\<exists>acc'. clonable_parent T x acc = Inr acc' \<and> set acc' \<subseteq> U" using x(2) by (auto simp: clonable_parent_def)
  qed simp
  then obtain ps where ps: "foldE (clonable_parent T) es [] = Inr ps" "set ps \<subseteq> U" by blast
  have k: "costs_known M H U (L\<lparr>il_parents := AList.update s ps (il_parents L)\<rparr>, T\<lparr>da_parents := m\<rparr>)"
    using K m ps(2) by (simp add: costs_known_def getSCCAttrs_def update_conv')
  show ?thesis
  proof (cases "map_of (il_parents L) s")
    case None
    then show ?thesis using ps em k unfolding e by (simp add: memoizeParents_def)
  next
    case (Some xs)
    then have "set xs \<subseteq> U" using K s by blast
    with Some st show ?thesis unfolding e by (simp add: memoizeParents_def)
  qed
qed

lemma latency_of_sets_ok:
  assumes st: "costs_known M H U st" and sets: "\<And>ss. ss \<in> set sets \<Longrightarrow> set ss \<subseteq> U"
  shows "\<exists>c st'. latency_of_sets M H sets st = Inr (c, st') \<and> costs_known M H U st'"
proof -
  let ?k = "costs_known M H U"
  have sub: "\<exists>subset st'. subset_sccs ss s = Inr (subset, st') \<and> set subset \<subseteq> U \<and> ?k st'" if "set ss \<subseteq> U" "?k s" for ss s
  proof -
    have "\<exists>t. foldE (\<lambda>scc (subset, st). andThen (memoizeParents scc st) (\<lambda>(ps, st1). Inr (uset_insert_all ps subset, st1))) ss
        (uset_insert_all ss [], s) = Inr t \<and> (set (fst t) \<subseteq> U \<and> ?k (snd t))"
    proof (rule foldE_total)
      fix x t assume x: "x \<in> set ss" "set (fst t) \<subseteq> U \<and> ?k (snd t)"
      obtain sb s1 where t: "t = (sb, s1)" by (cases t) auto
      obtain ps s2 where "memoizeParents x s1 = Inr (ps, s2)" "set ps \<subseteq> U" "?k s2"
        using memoizeParents_ok [of M H U s1 x] x t \<open>set ss \<subseteq> U\<close> by auto
      then show "\<exists>t'. (\<lambda>(subset, st). andThen (memoizeParents x st) (\<lambda>(ps, st1). Inr (uset_insert_all ps subset, st1))) t = Inr t' \<and>
          (set (fst t') \<subseteq> U \<and> ?k (snd t'))" using x(2) t by simp
    qed (use that in simp)
    then show ?thesis unfolding subset_sccs_def by force
  qed
  have one: "\<exists>t'. add_scc_cost M H scc t = Inr t' \<and> ?k (snd (snd t'))" if "scc \<in> U" "?k (snd (snd t))" for scc t
  proof -
    note scc = that
    obtain c q s where t: "t = (c, q, s)" by (metis prod.exhaust)
    have ks: "?k s" using scc(2) t by simp
    obtain vs s1 where 1: "memoizeExternals scc s = Inr (vs, s1)" "?k s1" using memoizeExternals_ok [OF ks scc(1)] by blast
    obtain d s2 where "latency_of_scc M H scc s1 = Inr (d, s2)" "?k s2" using latency_of_scc_ok [OF 1(2) scc(1)] by blast
    with 1 show ?thesis by (simp add: add_scc_cost_def t)
  qed
  have set1: "\<exists>t'. add_set_cost M H ss t = Inr t' \<and> ?k (snd (snd t'))" if "ss \<in> set sets" "?k (snd (snd t))" for ss t
  proof -
    note ss = that
    obtain c q s where t: "t = (c, q, s)" by (metis prod.exhaust)
    have ks: "?k s" using ss(2) t by simp
    obtain sb s1 where 1: "subset_sccs ss s = Inr (sb, s1)" "set sb \<subseteq> U" "?k s1" using sub [OF sets [OF ss(1)] ks] by blast
    have "\<exists>t'. foldE (add_scc_cost M H) sb (0, q, s1) = Inr t' \<and> ?k (snd (snd t'))"
    proof (rule foldE_total)
      show "?k (snd (snd (0, q, s1)))" using 1(3) by simp
      show "\<exists>t'. add_scc_cost M H x t = Inr t' \<and> ?k (snd (snd t'))" if "x \<in> set sb" "?k (snd (snd t))" for x t
        by (rule one) (use that 1(2) in auto)
    qed
    then show ?thesis using 1(1) by (auto simp: add_set_cost_def t)
  qed
  have "\<exists>t'. foldE (add_set_cost M H) sets (0, [], st) = Inr t' \<and> ?k (snd (snd t'))"
    by (rule foldE_total) (use st set1 in auto)
  then show ?thesis by (auto simp: latency_of_sets_def)
qed


section \<open>The traversal\<close>

text \<open>Every child of a set that the traversal has taken out of its queue has been offered. \<open>I\<close> is what \<open>checkIfShouldMerge\<close> keeps, \<open>F\<close> what it has established after one call.\<close>

definition offered :: "(ptr \<times> ptr) set \<Rightarrow> ptr set \<Rightarrow> ('s \<Rightarrow> bool) \<Rightarrow> ('s \<Rightarrow> bool) \<Rightarrow> ptr set \<Rightarrow> ptr list \<times> ptr list \<times> 's \<Rightarrow> bool" where
  "offered R V I F roots = (\<lambda>(todo, seen, s). roots \<subseteq> set seen \<and> set seen \<subseteq> V \<and> distinct seen \<and> set todo \<subseteq> set seen \<and> I s \<and>
     (\<forall>a \<in> set seen - set todo. (\<exists>b. (a, b) \<in> R) \<longrightarrow> F s))"

lemma check_children_ok:
  assumes chk: "\<And>b s. b \<in> set bs \<Longrightarrow> I s \<Longrightarrow> \<exists>s'. chk a b s = Inr s' \<and> I s' \<and> F s'"
    and V: "set bs \<subseteq> V" and start: "distinct seen" "set todo \<subseteq> set seen" "set seen \<subseteq> V" "I s"
  shows "\<exists>todo' seen' s'. foldE (check_children chk a) bs (todo, seen, s) = Inr (todo', seen', s') \<and> set seen \<subseteq> set seen' \<and>
    set seen' - set todo' = set seen - set todo \<and> set seen' \<subseteq> V \<and> distinct seen' \<and> set todo' \<subseteq> set seen' \<and> I s' \<and>
    (F s \<or> bs \<noteq> [] \<longrightarrow> F s') \<and> length todo' + length seen = length todo + length seen'"
  using assms
proof (induction bs arbitrary: todo seen s)
  case Nil
  then show ?case by simp
next
  case (Cons b bs)
  obtain s1 where s1: "chk a b s = Inr s1" "I s1" "F s1" using Cons.prems(1) [of b s] Cons.prems(6) by auto
  define st where "st = (if b \<in> set seen then (todo, seen) else (todo @ [b], seen @ [b]))"
  obtain t1 v1 where tv: "st = (t1, v1)" by force
  have run: "check_children chk a b (todo, seen, s) = Inr (t1, v1, s1)" using s1 tv by (auto simp: check_children_def st_def)
  have 1: "distinct v1" "set t1 \<subseteq> set v1" "set v1 \<subseteq> V" "set seen \<subseteq> set v1" "set v1 - set t1 = set seen - set todo"
    "length t1 + length seen = length todo + length v1"
    using tv Cons.prems by (auto simp: st_def split: if_splits)
  have bs: "set bs \<subseteq> V" using Cons.prems(2) by simp
  obtain t2 v2 s2 where 2: "foldE (check_children chk a) bs (t1, v1, s1) = Inr (t2, v2, s2)" "set v1 \<subseteq> set v2"
    "set v2 - set t2 = set v1 - set t1" "set v2 \<subseteq> V" "distinct v2" "set t2 \<subseteq> set v2" "I s2" "F s1 \<or> bs \<noteq> [] \<longrightarrow> F s2"
    "length t2 + length v1 = length t1 + length v2"
    using Cons.IH [OF Cons.prems(1) bs 1(1-3) s1(2)] by auto
  have "foldE (check_children chk a) (b # bs) (todo, seen, s) = Inr (t2, v2, s2)" using run 2(1) by simp
  moreover have "set seen \<subseteq> set v2" "set v2 - set t2 = set seen - set todo" using 1(4,5) 2(2,3) by simp_all
  moreover have "F s2" using 2(8) s1(3) by simp
  moreover have "length t2 + length seen = length todo + length v2" using 1(6) 2(9) by simp
  ultimately show ?case using 2(4-7) by blast
qed

lemma traverse_ok:
  assumes wf: "pt_wf P" and ac: "acyclic (set_arrows P)"
    and chk: "\<And>a b s. (a, b) \<in> set_arrows P \<Longrightarrow> I s \<Longrightarrow> \<exists>s'. chk a b s = Inr s' \<and> I s' \<and> F s'" and I: "I s"
  shows "\<exists>s'. traverseAllPartitionSubsets chk P s = Inr s' \<and> I s' \<and> (set_arrows P \<noteq> {} \<longrightarrow> F s')"
proof -
  let ?R = "set_arrows P" and ?V = "sets_in P"
  note c = pt_wfD(1) [OF wf]
  have RV: "?R \<subseteq> ?V \<times> ?V" by (rule dg_arrows_values [OF clean_wf [OF c]])
  let ?O = "offered ?R ?V I F (set (getRoots P))" and ?r = "measure (\<lambda>(todo, seen, s). length todo + (card ?V - length seen))"
  have roots: "set (getRoots P) \<subseteq> ?V" by (auto simp: getRoots_def getTopLevelNodes_def dg_values_def)
  have "\<exists>st. whileE (\<lambda>(subToCheck, _). subToCheck \<noteq> []) (traverse_step chk P) (getRoots P, getRoots P, s) = Inr st \<and> ?O st \<and>
      \<not> (case st of (subToCheck, _) \<Rightarrow> subToCheck \<noteq> [])"
  proof (rule whileE_total [where R = ?r])
    have "distinct (getRoots P)" by (simp add: getRoots_def)
    then show "?O (getRoots P, getRoots P, s)" using I roots by (simp add: offered_def)
    fix st assume st: "?O st" "case st of (subToCheck, _) \<Rightarrow> subToCheck \<noteq> []"
    then obtain a todo seen s where e: "st = (a # todo, seen, s)" by (cases st) (auto simp: neq_Nil_conv)
    note O = st(1) [unfolded e offered_def prod.case]
    have aV: "a \<in> ?V" using O by auto
    obtain n where n: "fetch_live (pt_graph P) a = Inr (pt_graph P, n)"
      "set (map (to_T (pt_graph P)) (out_edges (pt_graph P) n)) = {b. (a, b) \<in> ?R}" by (rule live_node [OF c aV])
    define bs where "bs = uset_insert_all (map (to_T (pt_graph P)) (out_edges (pt_graph P) n)) []"
    have bs: "set bs = {b. (a, b) \<in> ?R}" "getChildren P a = Inr bs" using n by (simp_all add: bs_def getChildren_def)
    have chk': "\<exists>s'. chk a b s = Inr s' \<and> I s' \<and> F s'" if "b \<in> set bs" "I s" for b s using chk that bs by blast
    have "set bs \<subseteq> ?V" "set todo \<subseteq> set seen" "distinct seen" "set seen \<subseteq> ?V" "I s" using bs(1) RV O by auto
    from check_children_ok [of bs I chk a F ?V seen todo s, OF chk' this(1,3,2,4,5)] obtain t v s' where
      k: "foldE (check_children chk a) bs (todo, seen, s) = Inr (t, v, s')" "set seen \<subseteq> set v"
      "set v - set t = set seen - set todo" "set v \<subseteq> ?V" "distinct v" "set t \<subseteq> set v" "I s'" "F s \<or> bs \<noteq> [] \<longrightarrow> F s'"
      "length t + length seen = length todo + length v" by blast
    have run: "traverse_step chk P st = Inr (t, v, s')" using k(1) bs(2) by (simp add: traverse_step_def e)
    have "F s'" if "x \<in> set v - set t" "(x, b) \<in> ?R" for x b
    proof (cases "x = a")
      case True
      then have "bs \<noteq> []" using that(2) bs(1) by auto
      with k(8) show ?thesis by simp
    next
      case False
      then have "x \<in> set seen - set (a # todo)" using that(1) k(3) by auto
      then have "F s" using O that(2) by blast
      with k(8) show ?thesis by simp
    qed
    moreover have "set (getRoots P) \<subseteq> set v" using O k(2) by blast
    ultimately have "?O (t, v, s')" using k(4-7) by (auto simp: offered_def)
    moreover have "length v \<le> card ?V" using k(4,5) by (metis card_mono distinct_card finite_dg_values)
    ultimately show "\<exists>s'. traverse_step chk P st = Inr s' \<and> ?O s' \<and> (s', st) \<in> ?r" using run k(9) by (simp add: e)
  qed simp
  then obtain v s' where w: "whileE (\<lambda>(subToCheck, _). subToCheck \<noteq> []) (traverse_step chk P) (getRoots P, getRoots P, s) = Inr ([], v, s')"
    "?O ([], v, s')" by auto
  note O = w(2) [unfolded offered_def prod.case]
  have "F s'" if ne: "?R \<noteq> {}"
  proof -
    obtain x where x: "x \<in> Domain ?R" using ne by auto
    obtain z where z: "z \<in> Domain ?R" "\<And>y. (y, z) \<in> ?R \<Longrightarrow> y \<notin> Domain ?R"
      by (rule acyclic_minimal [OF dg_arrows_finite ac x]) (rule that)
    have top: "y = z" if "(y, z) \<in> ?R" for y using z(2) [OF that] that by blast
    have zV: "z \<in> ?V" using z(1) RV by auto
    have "z \<in> node_T (pt_graph P) ` set (getTopLevelNodes (pt_graph P) False)" by (rule roots_values [OF c zV top])
    then have "z \<in> set (getRoots P)" by (simp add: getRoots_def)
    then have zv: "z \<in> set v - set []" using O by auto
    have "\<exists>b. (z, b) \<in> ?R" using z(1) by auto
    with zv O show "F s'" by (metis (no_types, lifting))
  qed
  then show ?thesis using w(1) O by (simp add: traverseAllPartitionSubsets_def)
qed


section \<open>Merging a list of sets\<close>

lemma acyclic_arrows:
  assumes "acyclic (set_arrows P' - Id)" "\<And>s. (s, s) \<notin> set_arrows P'"
  shows "acyclic (set_arrows P')"
proof -
  have "set_arrows P' - Id = set_arrows P'" using assms(2) by auto
  with assms(1) show ?thesis by simp
qed

definition collapsed_from :: "'r scc_partition \<Rightarrow> 'r scc_partition \<Rightarrow> bool" where
  "collapsed_from P P' \<longleftrightarrow> pt_wf P' \<and> acyclic (set_arrows P') \<and> (\<exists>q E. quotient_by q E P P')"

lemma collapsed_from_trans:
  assumes "collapsed_from P Q" "collapsed_from Q Q'" "pt_wf P"
  shows "collapsed_from P Q'"
proof -
  obtain q E where q: "quotient_by q E P Q" using assms(1) by (auto simp: collapsed_from_def)
  obtain r F where r: "quotient_by r F Q Q'" using assms(2) by (auto simp: collapsed_from_def)
  have "quotient_by (r \<circ> q) (\<lambda>u v. E u v \<or> F (q u) (q v)) P Q'"
    by (rule quotient_trans [OF q r dg_arrows_values [OF clean_wf [OF pt_wfD(1) [OF assms(3)]]]])
  with assms(2) show ?thesis unfolding collapsed_from_def by blast
qed

lemma collapsed_from_refl: "pt_wf P \<Longrightarrow> acyclic (set_arrows P) \<Longrightarrow> collapsed_from P P"
  unfolding collapsed_from_def using quotient_id [of P "\<lambda>u v. False"] by blast

lemma quotient_contents:
  assumes q: "collapsed_from P P'"
  shows "\<Union> (smem P' ` sets_in P') = \<Union> (smem P ` sets_in P)"
proof -
  obtain r E where "quotient_by r E P P'" using q by (auto simp: collapsed_from_def)
  note qd = quotient_byD [OF this]
  have "\<Union> (smem P' ` sets_in P') = (\<Union>s \<in> sets_in P'. \<Union>v \<in> {v \<in> sets_in P. r v = s}. smem P v)" using qd(4) by (intro SUP_cong) auto
  also have "\<dots> = \<Union> (smem P ` sets_in P)" using qd(1) by auto
  finally show ?thesis .
qed

lemma merge_list_ok:
  assumes it: "scc_iterator it" and wf: "pt_wf P" and ac: "acyclic (set_arrows P)"
    and ss: "distinct ss" "set ss \<subseteq> sets_in P" "A \<in> set ss" "B \<in> set ss" "A \<noteq> B"
  shows "\<exists>P'. mergeSetsAndCollapseResultingCycles it ss P = Inr P' \<and> collapsed_from P P' \<and> card (sets_in P') < card (sets_in P)"
proof -
  note RV = dg_arrows_values [OF clean_wf [OF pt_wfD(1) [OF wf]]]
  have irr: "(s, s) \<notin> set_arrows P" for s using ac by (meson acyclic_def r_into_trancl)
  have ne: "ss \<noteq> []" using ss(3) by auto
  obtain P1 where P1: "mergeSets ss P = Inr P1" "merge_spec (set ss) P P1" using mergeSets_ok [OF wf ss(1) ne ss(2)] by blast
  have q1: "quotient_by (merged_into (set ss) (set_next P)) (\<lambda>u v. u \<in> set ss \<and> v \<in> set ss) P P1"
  proof (rule quotient_merge [OF wf P1(2) ss(2)])
    show "\<exists>v \<in> set ss. u \<noteq> v" for u using ss(3-5) by metis
  qed (use ss(3) in auto)
  have wf1: "pt_wf P1" and v1: "sets_in P1 = insert (set_next P) (sets_in P - set ss)" using P1(2) by (simp_all add: merge_spec_def)
  obtain P' where P': "collapseCycles it P1 = Inr P'" "collapse_spec P1 P'" using collapse_ok [OF it wf1] by blast
  then obtain r E where wf': "pt_wf P'" "acyclic (set_arrows P' - Id)" and r: "quotient_by r E P1 P'" by (auto simp: collapse_spec_def)
  have "(s, s) \<notin> set_arrows P'" for s using quotient_byD(6) [OF r] quotient_byD(6) [OF q1] irr by blast
  with wf' have "acyclic (set_arrows P')" by (intro acyclic_arrows)
  with wf' have 1: "collapsed_from P P'" using quotient_trans [OF q1 r RV] unfolding collapsed_from_def by blast
  have c2: "card {A, B} = 2" using ss(5) by simp
  have "card {A, B} \<le> card (set ss)" using ss(3,4) by (intro card_mono) auto
  moreover have "card (sets_in P - set ss) = card (sets_in P) - card (set ss)" using ss(2) by (intro card_Diff_subset) auto
  moreover have "card (set ss) \<le> card (sets_in P)" using ss(2) by (intro card_mono) auto
  moreover have "card (sets_in P1) \<le> Suc (card (sets_in P - set ss))" unfolding v1 by (simp add: card_insert_if)
  ultimately have "card (sets_in P1) < card (sets_in P)" using c2 by linarith
  moreover have "card (sets_in P') \<le> card (sets_in P1)" using quotient_byD(1) [OF r] by (metis card_image_le finite_dg_values)
  moreover have "mergeSetsAndCollapseResultingCycles it ss P = Inr P'" using P1(1) P'(1) by (simp add: mergeSetsAndCollapseResultingCycles_def)
  ultimately show ?thesis using 1 by auto
qed

lemma cycle_distinct:
  assumes "getCycleIntroducedByMerging P A B = Inr xs"
  shows "distinct xs"
proof -
  have ov: "distinct (getOverlap ds an)" for ds an
    unfolding getOverlap_def by (rule fold_invariant_mem [where P = distinct]) auto
  show ?thesis
    using assms by (auto simp: getCycleIntroducedByMerging_def andThen_def ov simp del: uset_simps(1) split: sum.splits option.splits)
qed


section \<open>One round\<close>

abbreviation all_sccs :: "'r scc_partition \<Rightarrow> ptr set" where
  "all_sccs P \<equiv> \<Union> (smem P ` sets_in P)"

lemma sccs_of_ok:
  assumes wf: "pt_wf P" and s: "s \<in> sets_in P"
  obtains xs where "sccs_of P s = Inr xs" "set xs \<subseteq> all_sccs P"
proof -
  obtain x xs where "set_mem P s = Some (x # xs)" "smem P s = set (x # xs)" by (rule smem_list [OF pt_wfD(3) [OF wf s]])
  with s show ?thesis using that [of "x # xs"] by (auto simp: sccs_of_def)
qed

lemma contents_ok:
  assumes wf: "pt_wf P" and ss: "set ss \<subseteq> sets_in P"
  shows "\<exists>cs. foldE (\<lambda>s acc. andThen (sccs_of P s) (\<lambda>xs. Inr (acc @ [xs]))) ss [] = Inr cs \<and> (\<forall>c \<in> set cs. set c \<subseteq> all_sccs P)"
proof (rule foldE_total)
  fix s acc assume s: "s \<in> set ss" "\<forall>c \<in> set acc. set c \<subseteq> all_sccs P"
  then have sV: "s \<in> sets_in P" using ss by blast
  obtain xs where "sccs_of P s = Inr xs" "set xs \<subseteq> all_sccs P" by (rule sccs_of_ok [OF wf sV])
  with s(2) show "\<exists>acc'. andThen (sccs_of P s) (\<lambda>xs. Inr (acc @ [xs])) = Inr acc' \<and> (\<forall>c \<in> set acc'. set c \<subseteq> all_sccs P)" by auto
qed simp

lemma set_getSets: "set (getSets P) = sets_in P"
  by (auto simp: getSets_def dg_values_def)

lemma sumE_ok:
  assumes "\<And>x. x \<in> set xs \<Longrightarrow> \<exists>v. f x = Inr v"
  shows "\<exists>t. sumE f xs = Inr t"
proof -
  have "\<exists>t. foldE (\<lambda>x t. andThen (f x) (\<lambda>v. Inr (t + v))) xs 0 = Inr t \<and> True"
    by (rule foldE_total) (use assms in fastforce)+
  then show ?thesis by (simp add: sumE_def)
qed

definition candidate_ok :: "'r scc_partition \<Rightarrow> cost_analysis \<Rightarrow> bool" where
  "candidate_ok P A \<longleftrightarrow>
     (ca_minSetsToMerge A = [] \<longrightarrow> ca_costOfMergedSet A = - 1 \<and> ca_numInstructionsInSetsBeingMerged A = - 1) \<and>
     distinct (ca_minSetsToMerge A) \<and> set (ca_minSetsToMerge A) \<subseteq> sets_in P \<and>
     (ca_minSetsToMerge A \<noteq> [] \<longrightarrow> (\<exists>a \<in> set (ca_minSetsToMerge A). \<exists>b \<in> set (ca_minSetsToMerge A). a \<noteq> b))"

definition analysis_ok :: "profiled_module \<Rightarrow> hot \<Rightarrow> ptr set \<Rightarrow> 32 word \<Rightarrow> cost_analysis \<times> ('r, 'bv) latency_state \<Rightarrow> bool" where
  "analysis_ok M H U k = (\<lambda>(A, st). costs_known M H U st \<and> (\<forall>x \<in> U. map_of (ca_sccToInstructionCountMap A) x \<noteq> None) \<and> ca_numCores A = k)"

lemma joined_values:
  assumes "R \<subseteq> V \<times> V" "A \<in> V" "B \<in> V"
  shows "vclass (joined R A B) A \<subseteq> V"
proof
  fix u assume "u \<in> vclass (joined R A B) A"
  then have "(A, u) \<in> (joined R A B)\<^sup>*" by (simp add: vclass_def)
  then show "u \<in> V" by (induction rule: rtrancl_induct) (use assms in \<open>auto simp: joined_def\<close>)
qed

lemma minMax_check_ok:
  assumes wf: "pt_wf P" and ac: "acyclic (set_arrows P)" and R: "(a, b) \<in> set_arrows P" and U: "all_sccs P = U"
    and s: "analysis_ok M H U k s \<and> candidate_ok P (fst s)"
  shows "\<exists>s'. minMax_checkIfShouldMerge M H P a b s = Inr s' \<and> (analysis_ok M H U k s' \<and> candidate_ok P (fst s')) \<and>
    ((of_nat (numNodes (pt_graph P)) :: 32 word) \<le> k \<or> ca_minSetsToMerge (fst s') \<noteq> [])"
proof -
  obtain A st where e: "s = (A, st)" by (cases s)
  have ka: "costs_known M H U st" "\<And>x. x \<in> U \<Longrightarrow> map_of (ca_sccToInstructionCountMap A) x \<noteq> None" "ca_numCores A = k"
    using s by (auto simp: analysis_ok_def e)
  show ?thesis
  proof (cases "(of_nat (numNodes (pt_graph P)) :: 32 word) \<le> k")
    case True
    with s show ?thesis by (simp add: minMax_checkIfShouldMerge_def e ka(3))
  next
    case False
    have RV: "set_arrows P \<subseteq> sets_in P \<times> sets_in P" by (rule dg_arrows_values [OF clean_wf [OF pt_wfD(1) [OF wf]]])
    have V: "a \<in> sets_in P" "b \<in> sets_in P" and ab: "a \<noteq> b" using R RV ac by (auto simp: acyclic_def)
    obtain ms where ms: "getCycleIntroducedByMerging P a b = Inr ms" "set ms = vclass (joined (set_arrows P) a b) a"
      using merge_prediction_ok(2) [OF wf ac V] by blast
    have msd: "distinct ms" "set ms \<subseteq> sets_in P" "a \<in> set ms" "b \<in> set ms"
      using cycle_distinct [OF ms(1)] joined_values [OF RV V] ms(2) by (auto simp: vclass_def joined_def)
    obtain cs where cs: "foldE (\<lambda>s acc. andThen (sccs_of P s) (\<lambda>xs. Inr (acc @ [xs]))) ms [] = Inr cs" "\<forall>c \<in> set cs. set c \<subseteq> all_sccs P"
      using contents_ok [OF wf msd(2)] by blast
    have csU: "set (concat cs) \<subseteq> U" using cs(2) unfolding U by auto
    have "\<exists>v. key_of (ca_sccToInstructionCountMap A) x = Inr v" if "x \<in> set (concat cs)" for x
      using ka(2) [of x] csU that by (auto simp: key_of_def subset_iff)
    then obtain n where n: "instCountOfMerge A (concat cs) = Inr n" unfolding instCountOfMerge_def using sumE_ok by blast
    have "set ss \<subseteq> U" if "ss \<in> set [uset_insert_all (concat cs) []]" for ss using that csU by simp
    from latency_of_sets_ok [OF ka(1) this] obtain c st1
      where c: "latency_of_sets M H [uset_insert_all (concat cs) []] st = Inr (c, st1)" "costs_known M H U st1" by blast
    define A' where "A' = (if c > ca_costOfMergedSet A then A else if c = ca_costOfMergedSet A \<and> n > ca_numInstructionsInSetsBeingMerged A then A
      else A\<lparr>ca_minSetsToMerge := ms, ca_costOfMergedSet := c, ca_numInstructionsInSetsBeingMerged := n\<rparr>)"
    have run: "minMax_checkIfShouldMerge M H P a b s = Inr (A', st1)"
      using False ms(1) cs(1) n c(1) by (simp add: minMax_checkIfShouldMerge_def e ka(3) A'_def)
    have "analysis_ok M H U k (A', st1)" using ka c(2) by (auto simp: analysis_ok_def A'_def)
    moreover have "candidate_ok P A'" "ca_minSetsToMerge A' \<noteq> []"
    proof -
      have cand: "candidate_ok P A" using s by (simp add: e)
      have msn: "ms \<noteq> []" using msd(3) by auto
      then have "candidate_ok P (A\<lparr>ca_minSetsToMerge := ms, ca_costOfMergedSet := c, ca_numInstructionsInSetsBeingMerged := n\<rparr>)"
        using msd ab by (auto simp: candidate_ok_def)
      with cand show "candidate_ok P A'" by (simp add: A'_def)
      show "ca_minSetsToMerge A' \<noteq> []"
      proof (cases "ca_minSetsToMerge A = []")
        case True
        then have m: "ca_costOfMergedSet A = - 1" "ca_numInstructionsInSetsBeingMerged A = - 1" using cand by (auto simp: candidate_ok_def)
        have "\<not> c > - 1" "\<not> n > - 1" by (simp_all add: not_less)
        with m msn show ?thesis by (simp add: A'_def)
      qed (simp add: A'_def msn)
    qed
    ultimately show ?thesis using run by auto
  qed
qed


definition round_ok ::
  "'p scc_partition \<Rightarrow> profiled_module \<Rightarrow> hot \<Rightarrow> ptr set \<Rightarrow> 32 word \<Rightarrow> bool \<times> ('r, 'bv, 'p) merge_state \<Rightarrow> bool" where
  "round_ok P0 M H U k = (\<lambda>(again, A, st, P). analysis_ok M H U k (A, st) \<and> collapsed_from P0 P \<and> all_sccs P = U \<and>
     (\<not> again \<longrightarrow> set_arrows P = {} \<or> (of_nat (numNodes (pt_graph P)) :: 32 word) \<le> k))"

lemma all_contents_ok:
  assumes wf: "pt_wf P"
  shows "\<exists>cs. all_set_contents P = Inr cs \<and> (\<forall>c \<in> set cs. set c \<subseteq> all_sccs P)"
  using contents_ok [OF wf, of "getSets P"] by (simp add: all_set_contents_def set_getSets)

lemma reset_candidate: "candidate_ok P (resetCandidateSubsetInfo A)"
  by (simp add: candidate_ok_def resetCandidateSubsetInfo_def)

lemma merge_round_ok:
  assumes it: "scc_iterator it" and wf0: "pt_wf P0" and s: "round_ok P0 M H U k s" "fst s"
  shows "\<exists>s'. merge_round (minMax_checkIfShouldMerge M H) it M H s = Inr s' \<and> round_ok P0 M H U k s' \<and>
    (s', s) \<in> measure (\<lambda>(again, A, st, P). card (sets_in P) + (if again then 1 else 0))"
proof -
  obtain again A st P where e: "s = (again, A, st, P)" by (metis prod.exhaust)
  note S = s(1) [unfolded e round_ok_def prod.case]
  have again using s(2) e by simp
  have wf: "pt_wf P" and ac: "acyclic (set_arrows P)" using S by (auto simp: collapsed_from_def)
  have U: "all_sccs P = U" using S by simp
  let ?I = "\<lambda>s. analysis_ok M H U k s \<and> candidate_ok P (fst s)"
  let ?F = "\<lambda>s. (of_nat (numNodes (pt_graph P)) :: 32 word) \<le> k \<or> ca_minSetsToMerge (fst s) \<noteq> []"
  have "\<exists>s'. minMax_checkIfShouldMerge M H P a b t = Inr s' \<and> ?I s' \<and> ?F s'" if "(a, b) \<in> set_arrows P" "?I t" for a b t
    by (rule minMax_check_ok [OF wf ac that(1) U that(2)])
  moreover have "?I (resetCandidateSubsetInfo A, st)"
    using S reset_candidate by (auto simp: analysis_ok_def resetCandidateSubsetInfo_def)
  ultimately have "\<exists>s'. traverseAllPartitionSubsets (minMax_checkIfShouldMerge M H P) P (resetCandidateSubsetInfo A, st) = Inr s' \<and> ?I s' \<and>
      (set_arrows P \<noteq> {} \<longrightarrow> ?F s')"
    using traverse_ok [OF wf ac, of ?I "minMax_checkIfShouldMerge M H P" ?F] by blast
  then obtain A1 st1 where 1: "traverseAllPartitionSubsets (minMax_checkIfShouldMerge M H P) P (resetCandidateSubsetInfo A, st) = Inr (A1, st1)"
    "?I (A1, st1)" "set_arrows P \<noteq> {} \<longrightarrow> ?F (A1, st1)" by auto
  show ?thesis
  proof (cases "ca_minSetsToMerge A1 = []")
    case True
    then have "round_ok P0 M H U k (False, A1, st1, P)" using 1(2,3) S by (auto simp: round_ok_def)
    moreover have "merge_round (minMax_checkIfShouldMerge M H) it M H s = Inr (False, A1, st1, P)"
      using 1(1) True by (simp add: merge_round_def e mergeCandidateSubsets_def)
    ultimately show ?thesis using \<open>again\<close> by (simp add: e)
  next
    case False
    let ?ms = "ca_minSetsToMerge A1"
    obtain a b where ms: "distinct ?ms" "set ?ms \<subseteq> sets_in P" "a \<in> set ?ms" "b \<in> set ?ms" "a \<noteq> b"
      using 1(2) False unfolding candidate_ok_def fst_conv by blast
    obtain P1 where P1: "mergeSetsAndCollapseResultingCycles it ?ms P = Inr P1" "collapsed_from P P1" "card (sets_in P1) < card (sets_in P)"
      using merge_list_ok [OF it wf ac ms] by blast
    have wf1: "pt_wf P1" using P1(2) by (simp add: collapsed_from_def)
    have U1: "all_sccs P1 = U" using quotient_contents [OF P1(2)] U by simp
    obtain cs where cs: "all_set_contents P1 = Inr cs" "\<forall>c \<in> set cs. set c \<subseteq> U" using all_contents_ok [OF wf1] U1 by auto
    have "costs_known M H U st1" using 1(2) by (simp add: analysis_ok_def)
    then obtain c st2 where c: "latency_of_sets M H cs st1 = Inr (c, st2)" "costs_known M H U st2" using latency_of_sets_ok cs(2) by blast
    have "collapsed_from P0 P1" using collapsed_from_trans [OF _ P1(2) wf0] S by blast
    then have "round_ok P0 M H U k (True, A1\<lparr>ca_costIfAllSetsRunOnSeparateCores := c\<rparr>, st2, P1)"
      using 1(2) c(2) U1 by (simp add: round_ok_def analysis_ok_def)
    moreover have "merge_round (minMax_checkIfShouldMerge M H) it M H s = Inr (True, A1\<lparr>ca_costIfAllSetsRunOnSeparateCores := c\<rparr>, st2, P1)"
      using 1(1) False P1(1) cs(1) c(1) by (simp add: merge_round_def e mergeCandidateSubsets_def)
    ultimately show ?thesis using P1(3) \<open>again\<close> by (simp add: e)
  qed
qed

lemma set_concat_getSets:
  assumes wf: "pt_wf P"
  shows "\<exists>xs. sets_of_sccs P = Inr xs \<and> set xs = all_sccs P"
proof -
  have "\<exists>xs. foldE (\<lambda>s acc. andThen (sccs_of P s) (\<lambda>xs. Inr (acc @ xs))) ss acc = Inr xs \<and> set xs = set acc \<union> \<Union> (smem P ` set ss)"
    if "set ss \<subseteq> sets_in P" for ss acc
    using that
  proof (induction ss arbitrary: acc)
    case (Cons s ss)
    then obtain x xs where "set_mem P s = Some (x # xs)" "smem P s = set (x # xs)" using smem_list [OF pt_wfD(3) [OF wf]] by (metis insert_subset list.simps(15))
    with Cons show ?case by (fastforce simp: sccs_of_def)
  qed simp
  from this [of "getSets P" "[]"] show ?thesis by (simp add: sets_of_sccs_def set_getSets)
qed

lemma constructed_ok:
  assumes wf: "pt_wf P" and st: "costs_known M H (all_sccs P) st"
  shows "\<exists>A st'. PartitionCostAnalysis_of uninit M H k P st = Inr (A, st') \<and> analysis_ok M H (all_sccs P) k (A, st')"
proof -
  obtain xs where xs: "sets_of_sccs P = Inr xs" "set xs = all_sccs P" using set_concat_getSets [OF wf] by blast
  obtain cs where cs: "all_set_contents P = Inr cs" "\<forall>c \<in> set cs. set c \<subseteq> all_sccs P" using all_contents_ok [OF wf] by blast
  obtain c st' where c: "latency_of_sets M H cs st = Inr (c, st')" "costs_known M H (all_sccs P) st'"
    using latency_of_sets_ok [OF st] cs(2) by blast
  have keys: "map_of (fold (\<lambda>s. map_insert s (n s)) ys m) x \<noteq> None" if "x \<in> set ys \<or> map_of m x \<noteq> None" for x ys m and n :: "ptr \<Rightarrow> u64"
    using that
  proof (induction ys arbitrary: m)
    case (Cons y ys)
    then have "x \<in> set ys \<or> map_of (map_insert y (n y) m) x \<noteq> None" by (auto simp: map_insert_def map_add_def split: option.splits)
    from Cons.IH [OF this] show ?case by simp
  qed simp
  define m where "m = fold (\<lambda>s. map_insert s (ucast (of_nat (numInternalNodes (scc_mem (da_dag (snd st)) s)) :: 32 word) :: u64)) xs []"
  have "\<forall>x \<in> all_sccs P. map_of m x \<noteq> None" unfolding xs(2) [symmetric] m_def by (intro ballI keys disjI1)
  then show ?thesis using xs(1) cs(1) c by (simp add: PartitionCostAnalysis_of_def analysis_ok_def Let_def m_def [symmetric] del: not_None_eq)
qed

lemma merge_until_done_ok:
  assumes it: "scc_iterator it" and wf: "pt_wf P" and ac: "acyclic (set_arrows P)" and st: "costs_known M H (all_sccs P) st"
  shows "\<exists>st' P'. minMaxMergePartition uninit it M H n st P = Inr (st', P') \<and> collapsed_from P P' \<and>
    (set_arrows P' = {} \<or> (of_nat (numNodes (pt_graph P')) :: 32 word) \<le> ucast n)"
proof -
  obtain A st1 where A: "PartitionCostAnalysis_of uninit M H (ucast n) P st = Inr (A, st1)" "analysis_ok M H (all_sccs P) (ucast n) (A, st1)"
    using constructed_ok [OF wf st] by blast
  have "\<exists>s. whileE fst (merge_round (minMax_checkIfShouldMerge M H) it M H) (True, A, st1, P) = Inr s \<and>
      round_ok P M H (all_sccs P) (ucast n) s \<and> \<not> fst s"
  proof (rule whileE_total [OF wf_measure])
    show "round_ok P M H (all_sccs P) (ucast n) (True, A, st1, P)" using A(2) collapsed_from_refl [OF wf ac] by (simp add: round_ok_def)
  qed (rule merge_round_ok [OF it wf])
  then show ?thesis using A(1) by (auto simp: minMaxMergePartition_def merge_until_done_def round_ok_def)
qed

section \<open>The property\<close>

text \<open>C37: The stages of a pipeline. From an acyclic partition whose SCCs all have attributes and a profile, the heuristic of DSWP returns: every round that
  finds a candidate leaves fewer sets. The partition it leaves is well formed and acyclic, its sets are unions of the sets at the start that partition
  the same SCCs, its arrows are the images of the old ones, and it stops early only when no arrow is left: otherwise there are no more sets than threads.\<close>

theorem dswp_stages:
  assumes "scc_iterator it" and "pt_wf P" and "acyclic (set_arrows P)" and "costs_known M H (\<Union> (smem P ` sets_in P)) st"
  shows "\<exists>st' P'. adjustParallelizationPartitionForDSWP uninit it M H numThreads st P = Inr (st', P') \<and> pt_wf P' \<and> acyclic (set_arrows P') \<and>
    (\<exists>q. q ` sets_in P = sets_in P' \<and> (\<forall>s \<in> sets_in P'. smem P' s = (\<Union>v \<in> {v \<in> sets_in P. q v = s}. smem P v)) \<and>
       set_arrows P' = {(q a, q b) |a b. (a, b) \<in> set_arrows P} - Id) \<and>
    (set_arrows P' = {} \<or> (of_nat (numNodes (pt_graph P')) :: 32 word) \<le> ucast numThreads)"
proof -
  obtain st' P' where r: "minMaxMergePartition uninit it M H numThreads st P = Inr (st', P')" "collapsed_from P P'"
    "set_arrows P' = {} \<or> (of_nat (numNodes (pt_graph P')) :: 32 word) \<le> ucast numThreads"
    using merge_until_done_ok [OF assms] by blast
  obtain q E where w: "pt_wf P'" "acyclic (set_arrows P')" "quotient_by q E P P'" using r(2) by (auto simp: collapsed_from_def)
  have "set_arrows P' = set_arrows P' - Id" using w(2) by (auto simp: acyclic_def)
  then have a: "set_arrows P' = {(q a, q b) |a b. (a, b) \<in> set_arrows P} - Id" using quotient_byD(5) [OF w(3)] by simp
  have q: "q ` sets_in P = sets_in P' \<and> (\<forall>s \<in> sets_in P'. smem P' s = (\<Union>v \<in> {v \<in> sets_in P. q v = s}. smem P v))"
    using quotient_byD(1,4) [OF w(3)] by blast
  have run: "adjustParallelizationPartitionForDSWP uninit it M H numThreads st P = Inr (st', P')"
    using r(1) by (simp add: adjustParallelizationPartitionForDSWP_def)
  from run w(1,2) q a r(3) show ?thesis by blast
qed

text \<open>The chain of three sets, with an SCC of one instruction in each, merged for two threads.\<close>

definition stage_module :: profiled_module where
  "stage_module = \<lparr>hm_functions = [0], hm_blocks = (\<lambda>_. [0]), hm_insts = (\<lambda>_. [11, 12, 13]), hm_parent = (\<lambda>_. 0), hm_function = (\<lambda>_. 0), hm_succs = (\<lambda>_. []),
     hm_call = (\<lambda>_. NoCall), hm_uses = (\<lambda>_. [])\<rparr>"

definition stage_profile :: hot where
  "stage_profile = Hot_of\<lparr>bbInvocations := [(0, 10)], instructionTotalInstructions := [(12, 50)]\<rparr>"

definition stage_attrs :: "(unit, bool list) sccdag_attrs" where
  "stage_attrs = \<lparr>da_dag = sum_sccdag\<lparr>scc_mem := (\<lambda>s. register_graph [10 + s] [])\<rparr>, da_carried = [], da_info = [], da_parents = [], da_edges = []\<rparr>"

lemma stage_costs:
  "getTotalInstructions_scc stage_module stage_profile (scc_mem (da_dag stage_attrs) 1) = Inr 10"
  "getTotalInstructions_scc stage_module stage_profile (scc_mem (da_dag stage_attrs) 2) = Inr 50"
  "getTotalInstructions_scc stage_module stage_profile (scc_mem (da_dag stage_attrs) 3) = Inr 10"
  by code_simp+

lemma chain_contents: "smem chain_partition 0 = {1}" "smem chain_partition 1 = {2}" "smem chain_partition 2 = {3}"
  by code_simp+

lemma dswp_stages_witness:
  "\<exists>st' P'. adjustParallelizationPartitionForDSWP (0, 0, 0) naive_sccs stage_module stage_profile 2 (InvocationLatency_of, stage_attrs) chain_partition = Inr (st', P') \<and>
     pt_wf P' \<and> acyclic (set_arrows P')"
proof -
  have "\<Union> (smem chain_partition ` sets_in chain_partition) = {1, 2, 3}" by (auto simp: chain_parts(2) chain_contents chain_contents(2) [unfolded One_nat_def])
  then have costs: "costs_known stage_module stage_profile (\<Union> (smem chain_partition ` sets_in chain_partition)) (InvocationLatency_of, stage_attrs)"
    using stage_costs by (auto simp: costs_known_def index_or_empty_def stage_attrs_def InvocationLatency_of_def)
  have "acyclic (set_arrows chain_partition)" using chain_acyclic by (simp add: chain_parts(3))
  from dswp_stages [OF naive_sccs_laws chain_parts(1) this costs, of "(0, 0, 0)" 2] show ?thesis
    by (elim exE conjE) (intro exI conjI)
qed

end
