(* ===== verification/SeqSegment.thy ===== *)
theory SeqSegment
  imports SccAttrs DataFlowQueries DomSummaryQueries
begin

text \<open>
  \<open>src/src/tools/helix/src/SequentialSegment.cpp\<close>: where a sequential segment of HELIX starts and ends in an iteration. Waits are inserted before the
  entries, signals after the exits.

  The analyses that the loop content owns are one record: the function \<open>sg_F\<close> with its successors and predecessors, the parents of instructions, the
  loop \<open>sg_root\<close> of the summary, the dominator summary of the function, and LLVM's tests for debug intrinsics and lifetime markers.
\<close>

record segment_ctx =
  sg_F :: cfg
  sg_M :: Loops.llvm_module
  sg_I :: llvm_insts
  sg_LIS :: loops_summary
  sg_root :: nat
  sg_code :: llvm_code
  sg_DT :: dom_tree
  sg_isDbg :: "nat \<Rightarrow> bool"
  sg_isLifetime :: "nat \<Rightarrow> bool"

record sequential_segment =
  ss_entries :: "nat list"
  ss_exits :: "nat list"
  ss_sccs :: "ptr list"
  ss_ID :: "32 word"

abbreviation rootLoop :: "segment_ctx \<Rightarrow> loop_structure" where
  "rootLoop C \<equiv> sm_mem (sg_LIS C) (sg_root C)"

section \<open>Reachability inside an iteration\<close>

text \<open>The sets of instructions that HELIX computes for all its segments: nothing flows back over the first instruction of the header.\<close>

definition HELIX_computeReachabilityFromInstructions :: "cfg \<Rightarrow> nat \<Rightarrow> dfr res" where
  "HELIX_computeReachabilityFromInstructions F loopHeader =
     andThen (first_inst F loopHeader) (\<lambda>headerFirst.
       applyBackward_noKill F
         (\<lambda>i df. df\<lparr>GEN := (GEN df)(i := uset_insert i (GEN df i))\<rparr>)
         (\<lambda>i df. df\<lparr>IN := (IN df)(i := uset_insert_all (GEN df i) (uset_insert_all (OUT df i) (IN df i)))\<rparr>)
         (\<lambda>i succ df. if succ = headerFirst then df else df\<lparr>OUT := (OUT df)(i := uset_insert_all (IN df succ) (OUT df i))\<rparr>))"

section \<open>Instructions of a segment\<close>

definition scc_instructions :: "(llvm_value, 'r) dg \<Rightarrow> nat list \<Rightarrow> nat list res" where
  "scc_instructions scc acc =
     foldE (\<lambda>(v, _) acc. case v of Inst i \<Rightarrow> Inr (uset_insert i acc) | _ \<Rightarrow> Inl AssertFailed) (internalNodeMap scc) acc"

definition getInstructions_ss :: "(llvm_value, 'r, 'bv) sccdag \<Rightarrow> ptr list \<Rightarrow> nat list res" where
  "getInstructions_ss D sccs = foldE (\<lambda>s acc. scc_instructions (scc_mem D s) acc) sccs []"

section \<open>Moving along the instructions\<close>

definition getFirstNonPHIOrDbgOrLifetime :: "segment_ctx \<Rightarrow> nat \<Rightarrow> nat res" where
  "getFirstNonPHIOrDbgOrLifetime C bb =
     (case find (\<lambda>i. \<not> (isPHINode (in_kind (sg_I C) i) \<or> sg_isDbg C i \<or> sg_isLifetime C i)) (cfg_insts (sg_F C) bb) of
        None \<Rightarrow> Inl NullDeref | Some i \<Rightarrow> Inr i)"

definition getFrontierInstructionThatDoesNotSplitPHIs :: "segment_ctx \<Rightarrow> nat \<Rightarrow> nat res" where
  "getFrontierInstructionThatDoesNotSplitPHIs C i =
     (if isPHINode (in_kind (sg_I C) i) \<or> sg_isDbg C i \<or> sg_isLifetime C i then getFirstNonPHIOrDbgOrLifetime C (lm_parent (sg_M C) i) else Inr i)"

definition getPrevNonDebugInstruction :: "segment_ctx \<Rightarrow> nat \<Rightarrow> nat option" where
  "getPrevNonDebugInstruction C i =
     find (\<lambda>j. \<not> sg_isDbg C j) (rev (takeWhile (\<lambda>j. j \<noteq> i) (cfg_insts (sg_F C) (lm_parent (sg_M C) i))))"

definition getNextNonDebugInstruction :: "segment_ctx \<Rightarrow> nat \<Rightarrow> nat option" where
  "getNextNonDebugInstruction C i =
     find (\<lambda>j. \<not> sg_isDbg C j) (tl (dropWhile (\<lambda>j. j \<noteq> i) (cfg_insts (sg_F C) (lm_parent (sg_M C) i))))"

section \<open>The instructions before an instruction\<close>

definition loop_insts :: "segment_ctx \<Rightarrow> nat list" where
  "loop_insts C = concat (map (cfg_insts (sg_F C)) (ls_bbs (rootLoop C)))"

definition add_before :: "segment_ctx \<Rightarrow> nat \<Rightarrow> nat \<Rightarrow> (nat \<rightharpoonup> nat list) \<Rightarrow> (nat \<rightharpoonup> nat list) res" where
  "add_before C i afterI m =
     (if i = afterI \<or> \<not> isIncluded_inst (sg_M C) afterI (rootLoop C) then Inr m
      else case m afterI of None \<Rightarrow> Inl KeyMissing | Some xs \<Rightarrow> Inr (m(afterI \<mapsto> uset_insert i xs)))"

definition computeBeforeInstructionMap :: "segment_ctx \<Rightarrow> dfr \<Rightarrow> (nat \<rightharpoonup> nat list) res" where
  "computeBeforeInstructionMap C df =
     foldE (\<lambda>i. foldE (add_before C i) (OUT df i)) (loop_insts C) (fold (\<lambda>i m. m(i \<mapsto> [])) (loop_insts C) (\<lambda>_. None))"

section \<open>The frontier\<close>

definition checkIfBeforeEntryFrontier :: "(nat \<rightharpoonup> nat list) \<Rightarrow> nat list \<Rightarrow> nat \<Rightarrow> bool res" where
  "checkIfBeforeEntryFrontier before ssInstructions inst =
     (case before inst of None \<Rightarrow> Inl KeyMissing | Some bs \<Rightarrow> Inr (list_all (\<lambda>b. b = inst \<or> b \<notin> set ssInstructions) bs))"

definition checkIfAfterExitFrontier :: "dfr \<Rightarrow> nat list \<Rightarrow> nat \<Rightarrow> bool" where
  "checkIfAfterExitFrontier df ssInstructions inst = list_all (\<lambda>a. inst = a \<or> a \<notin> set ssInstructions) (OUT df inst)"

definition isDominatedByOtherEntry :: "segment_ctx \<Rightarrow> nat list \<Rightarrow> nat \<Rightarrow> bool res" where
  "isDominatedByOtherEntry C entries inst =
     foldE (\<lambda>e found. if found then Inr True else dominates_insts (sg_code C) (sg_DT C) e inst) entries False"

definition isReachableFromOtherExit :: "(nat \<rightharpoonup> nat list) \<Rightarrow> nat list \<Rightarrow> nat \<Rightarrow> bool res" where
  "isReachableFromOtherExit before exits inst =
     (case before inst of None \<Rightarrow> Inl KeyMissing | Some bs \<Rightarrow> Inr (list_ex (\<lambda>b. b \<in> set exits) bs))"

text \<open>\<open>&&\<close>: the second condition is evaluated only when the first holds.\<close>

definition andE :: "bool res \<Rightarrow> bool res \<Rightarrow> bool res" where
  "andE a b = andThen a (\<lambda>x. if x then b else Inr False)"

definition notE :: "bool res \<Rightarrow> bool res" where
  "notE a = andThen a (\<lambda>x. Inr (\<not> x))"

definition is_entry :: "segment_ctx \<Rightarrow> (nat \<rightharpoonup> nat list) \<Rightarrow> nat list \<Rightarrow> nat list \<Rightarrow> nat \<Rightarrow> bool res" where
  "is_entry C before ss entries i =
     andE (Inr (getLoop_inst (sg_M C) (sg_LIS C) i = Some (sg_root C)))
       (andE (checkIfBeforeEntryFrontier before ss i) (notE (isDominatedByOtherEntry C entries i)))"

definition is_exit :: "segment_ctx \<Rightarrow> dfr \<Rightarrow> (nat \<rightharpoonup> nat list) \<Rightarrow> nat list \<Rightarrow> nat list \<Rightarrow> nat \<Rightarrow> bool res" where
  "is_exit C df before ss exits i =
     andE (Inr (getLoop_inst (sg_M C) (sg_LIS C) i = Some (sg_root C)))
       (andE (Inr (checkIfAfterExitFrontier df ss i)) (notE (isReachableFromOtherExit before exits i)))"

text \<open>The two traversals differ in the test and in the instructions they continue with.\<close>

definition predecessors_of :: "segment_ctx \<Rightarrow> nat \<Rightarrow> nat list res" where
  "predecessors_of C i =
     (case getPrevNonDebugInstruction C i of
        Some p \<Rightarrow> Inr [p]
      | None \<Rightarrow> foldE (\<lambda>b acc. andThen (last_inst (sg_F C) b) (\<lambda>t. Inr (acc @ [t]))) (cfg_preds (sg_F C) (lm_parent (sg_M C) i)) [])"

definition successors_of :: "segment_ctx \<Rightarrow> nat \<Rightarrow> nat list res" where
  "successors_of C i =
     (case getNextNonDebugInstruction C i of
        Some n \<Rightarrow> Inr [n]
      | None \<Rightarrow> foldE (\<lambda>b acc. andThen (first_inst (sg_F C) b) (\<lambda>f. Inr (acc @ [f]))) (cfg_succs (sg_F C) (lm_parent (sg_M C) i)) [])"

definition frontier_step ::
  "segment_ctx \<Rightarrow> (nat list \<Rightarrow> nat \<Rightarrow> bool res) \<Rightarrow> (nat \<Rightarrow> nat list res) \<Rightarrow> nat list \<times> nat list \<times> nat list \<Rightarrow> (nat list \<times> nat list \<times> nat list) res" where
  "frontier_step C accept continue = (\<lambda>(traversal, visited, frontier).
     case traversal of
       [] \<Rightarrow> Inl OutOfRange
     | i # rest \<Rightarrow>
         if i \<in> set visited then Inr (rest, visited, frontier)
         else andThen (accept frontier i) (\<lambda>ok.
                if ok then andThen (getFrontierInstructionThatDoesNotSplitPHIs C i) (\<lambda>p. Inr (rest, i # visited, uset_insert p frontier))
                else andThen (continue i) (\<lambda>is. Inr (rest @ is, i # visited, frontier))))"

definition frontier_from ::
  "segment_ctx \<Rightarrow> (nat list \<Rightarrow> nat \<Rightarrow> bool res) \<Rightarrow> (nat \<Rightarrow> nat list res) \<Rightarrow> nat list \<Rightarrow> nat list res" where
  "frontier_from C accept continue ss =
     andThen (whileE (\<lambda>(traversal, _). traversal \<noteq> []) (frontier_step C accept continue) (ss, [], [])) (\<lambda>(_, _, frontier). Inr frontier)"

definition unreachable_step :: "segment_ctx \<Rightarrow> dfr \<Rightarrow> (nat \<rightharpoonup> nat list) \<Rightarrow> nat list \<Rightarrow> nat \<Rightarrow> nat list \<Rightarrow> nat list res" where
  "unreachable_step C df before ss bb acc =
     andThen (first_inst (sg_F C) bb) (\<lambda>i.
     andThen (andE (checkIfBeforeEntryFrontier before ss i) (Inr (checkIfAfterExitFrontier df ss i))) (\<lambda>ok.
       Inr (if ok then uset_insert i acc else acc)))"

definition extend_step :: "segment_ctx \<Rightarrow> (nat \<rightharpoonup> nat list) \<Rightarrow> nat \<Rightarrow> nat list \<times> nat list \<Rightarrow> (nat list \<times> nat list) res" where
  "extend_step C before i = (\<lambda>(entries, exits).
     andThen (getFrontierInstructionThatDoesNotSplitPHIs C i) (\<lambda>p.
     andThen (isDominatedByOtherEntry C entries p) (\<lambda>dominated.
     andThen (isReachableFromOtherExit before exits p) (\<lambda>reachable.
       Inr (if dominated then entries else uset_insert p entries, if reachable then exits else uset_insert p exits)))))"

definition determineEntryAndExitFrontier :: "segment_ctx \<Rightarrow> dfr \<Rightarrow> nat list \<Rightarrow> (nat list \<times> nat list) res" where
  "determineEntryAndExitFrontier C df ss =
     andThen (computeBeforeInstructionMap C df) (\<lambda>before.
     andThen (frontier_from C (is_entry C before ss) (predecessors_of C) ss) (\<lambda>entries.
     andThen (frontier_from C (is_exit C df before ss) (successors_of C) ss) (\<lambda>exits.
     andThen (foldE (unreachable_step C df before ss) (ls_bbs (rootLoop C)) []) (\<lambda>unreachables.
       foldE (extend_step C before) unreachables (entries, exits)))))"

definition add_return :: "segment_ctx \<Rightarrow> nat \<Rightarrow> nat list \<Rightarrow> nat list res" where
  "add_return C bb exits = (if cfg_succs (sg_F C) bb \<noteq> [] then Inr exits else andThen (last_inst (sg_F C) bb) (\<lambda>t. Inr (uset_insert t exits)))"

definition SequentialSegment_of ::
  "segment_ctx \<Rightarrow> dfr \<Rightarrow> (llvm_value, 'r, 'bv) sccdag \<Rightarrow> ptr list \<Rightarrow> 32 word \<Rightarrow> sequential_segment res" where
  "SequentialSegment_of C df D sccs ID =
     andThen (getInstructions_ss D sccs) (\<lambda>is.
     andThen (determineEntryAndExitFrontier C df (filter (\<lambda>i. \<not> isPHINode (in_kind (sg_I C) i)) is)) (\<lambda>(entries, exits).
     andThen (foldE (add_return C) (ls_bbs (rootLoop C)) exits) (\<lambda>exits1.
       check (length entries > 0) AssertFailed (check (length exits1 > 0) AssertFailed
         (Inr \<lparr>ss_entries = entries, ss_exits = exits1, ss_sccs = sccs, ss_ID = ID\<rparr>)))))"

text \<open>The client gives every entry and every exit to a function that changes the state of the caller.\<close>

definition forEachEntry :: "sequential_segment \<Rightarrow> (nat \<Rightarrow> 's \<Rightarrow> 's res) \<Rightarrow> 's \<Rightarrow> 's res" where
  "forEachEntry S whatToDo = foldE whatToDo (ss_entries S)"

definition forEachExit :: "sequential_segment \<Rightarrow> (nat \<Rightarrow> 's \<Rightarrow> 's res) \<Rightarrow> 's \<Rightarrow> 's res" where
  "forEachExit S whatToDo = foldE whatToDo (ss_exits S)"

end
