(* ===== verification/SeqSegmentCorrect.thy ===== *)
theory SeqSegmentCorrect
  imports SeqSegment SccAttrsCorrect
begin

text \<open>
  The entries and exits of a sequential segment: every way into an instruction of the segment goes through an entry, and no instruction of the segment
  follows an exit in the iteration.
\<close>

section \<open>The traversals\<close>

definition covered :: "segment_ctx \<Rightarrow> nat list \<Rightarrow> nat \<Rightarrow> bool" where
  "covered C frontier x \<longleftrightarrow> (\<exists>p. getFrontierInstructionThatDoesNotSplitPHIs C x = Inr p \<and> p \<in> set frontier)"

text \<open>What is visited and not covered was refused by the test, with some of the frontier there, and the traversal went on from it.\<close>

definition closed_under ::
  "segment_ctx \<Rightarrow> (nat list \<Rightarrow> bool) \<Rightarrow> (nat list \<Rightarrow> nat \<Rightarrow> bool res) \<Rightarrow> (nat \<Rightarrow> nat list res) \<Rightarrow> nat list \<Rightarrow> nat set \<Rightarrow> nat set \<Rightarrow> bool" where
  "closed_under C Q accept continue frontier V todo \<longleftrightarrow> (\<forall>x \<in> V. covered C frontier x \<or>
     (\<exists>fr. set fr \<subseteq> set frontier \<and> Q fr \<and> accept fr x = Inr False \<and> (\<forall>is. continue x = Inr is \<longrightarrow> set is \<subseteq> V \<union> todo)))"

lemma closed_under_mono:
  assumes "closed_under C Q accept continue fr V todo" "set fr \<subseteq> set fr'" "V \<union> todo \<subseteq> V' \<union> todo'"
    and "\<And>x. x \<in> V' - V \<Longrightarrow> covered C fr' x \<or>
     (\<exists>g. set g \<subseteq> set fr' \<and> Q g \<and> accept g x = Inr False \<and> (\<forall>is. continue x = Inr is \<longrightarrow> set is \<subseteq> V' \<union> todo'))"
  shows "closed_under C Q accept continue fr' V' todo'"
  unfolding closed_under_def
proof
  fix x assume x: "x \<in> V'"
  show "covered C fr' x \<or> (\<exists>g. set g \<subseteq> set fr' \<and> Q g \<and> accept g x = Inr False \<and> (\<forall>is. continue x = Inr is \<longrightarrow> set is \<subseteq> V' \<union> todo'))"
  proof (cases "x \<in> V")
    case True
    then consider "covered C fr x" | g where "set g \<subseteq> set fr" "Q g" "accept g x = Inr False" "\<forall>is. continue x = Inr is \<longrightarrow> set is \<subseteq> V \<union> todo"
      using assms(1) unfolding closed_under_def by blast
    then show ?thesis
    proof cases
      case 1
      then show ?thesis using assms(2) by (auto simp: covered_def)
    next
      case 2
      have "set g \<subseteq> set fr'" "\<forall>is. continue x = Inr is \<longrightarrow> set is \<subseteq> V' \<union> todo'" using 2(1,4) assms(2,3) by (blast, metis order_trans)
      then show ?thesis using 2(2,3) by blast
    qed
  next
    case False
    then show ?thesis using assms(4) x by blast
  qed
qed

lemma frontier_from_ok:
  assumes fin: "finite W" and ss: "set ss \<subseteq> W" and q0: "Q []"
    and acc: "\<And>i fr. i \<in> W \<Longrightarrow> Q fr \<Longrightarrow> \<exists>b. accept fr i = Inr b"
    and cont: "\<And>i. i \<in> W \<Longrightarrow> \<exists>is. continue i = Inr is \<and> set is \<subseteq> W"
    and pt: "\<And>i. i \<in> W \<Longrightarrow> \<exists>p. getFrontierInstructionThatDoesNotSplitPHIs C i = Inr p"
    and q: "\<And>i fr p. i \<in> W \<Longrightarrow> Q fr \<Longrightarrow> accept fr i = Inr True \<Longrightarrow> getFrontierInstructionThatDoesNotSplitPHIs C i = Inr p \<Longrightarrow> Q (uset_insert p fr)"
  shows "\<exists>fr V. frontier_from C accept continue ss = Inr fr \<and> Q fr \<and> set ss \<subseteq> V \<and> V \<subseteq> W \<and> closed_under C Q accept continue fr V {}"
proof -
  let ?I = "\<lambda>(todo, visited, fr). set ss \<subseteq> set visited \<union> set todo \<and> set visited \<union> set todo \<subseteq> W \<and> Q fr \<and> closed_under C Q accept continue fr (set visited) (set todo)"
  let ?r = "measures [\<lambda>(todo, visited, fr). card (W - set visited), \<lambda>(todo, visited, fr). length todo]"
  have "\<exists>st. whileE (\<lambda>(traversal, _). traversal \<noteq> []) (frontier_step C accept continue) (ss, [], []) = Inr st \<and> ?I st \<and>
      \<not> (case st of (traversal, _) \<Rightarrow> traversal \<noteq> [])"
  proof (rule whileE_total [where R = ?r])
    show "?I (ss, [], [])" using ss q0 by (simp add: closed_under_def)
    fix st assume st: "?I st" "case st of (traversal, _) \<Rightarrow> traversal \<noteq> []"
    then obtain i todo visited fr where e: "st = (i # todo, visited, fr)" by (cases st) (auto simp: neq_Nil_conv)
    note I = st(1) [unfolded e prod.case]
    have cl: "closed_under C Q accept continue fr (set visited) (set (i # todo))" and qf: "Q fr" using I by blast+
    have iW: "i \<in> W" using I by auto
    show "\<exists>s'. frontier_step C accept continue st = Inr s' \<and> ?I s' \<and> (s', st) \<in> ?r"
    proof (cases "i \<in> set visited")
      case True
      have "closed_under C Q accept continue fr (set visited) (set todo)" by (rule closed_under_mono [OF cl]) (use True in auto)
      moreover have "set ss \<subseteq> set visited \<union> set todo" "set visited \<union> set todo \<subseteq> W" using I True by auto
      ultimately have "?I (todo, visited, fr)" using qf by simp
      then show ?thesis using True by (simp add: e frontier_step_def)
    next
      case False
      have less: "card (W - insert i (set visited)) < card (W - set visited)" using fin iW False by (intro psubset_card_mono) auto
      obtain b where b: "accept fr i = Inr b" using acc [OF iW qf] by blast
      show ?thesis
      proof (cases b)
        case True
        obtain p where p: "getFrontierInstructionThatDoesNotSplitPHIs C i = Inr p" using pt [OF iW] by blast
        have "closed_under C Q accept continue (uset_insert p fr) (set (i # visited)) (set todo)"
          by (rule closed_under_mono [OF cl]) (use p in \<open>auto simp: covered_def\<close>)
        moreover have "Q (uset_insert p fr)" using q [OF iW qf _ p] b True by simp
        ultimately have "?I (todo, i # visited, uset_insert p fr)" using I by auto
        moreover have "frontier_step C accept continue st = Inr (todo, i # visited, uset_insert p fr)" using False b True p by (simp add: e frontier_step_def)
        ultimately show ?thesis using less by (simp add: e)
      next
        case nb: False
        obtain ns where ns: "continue i = Inr ns" "set ns \<subseteq> W" using cont [OF iW] by blast
        have "closed_under C Q accept continue fr (set (i # visited)) (set (todo @ ns))"
        proof (rule closed_under_mono [OF cl])
          fix x assume "x \<in> set (i # visited) - set visited"
          then have x: "x = i" by auto
          show "covered C fr x \<or> (\<exists>g. set g \<subseteq> set fr \<and> Q g \<and> accept g x = Inr False \<and> (\<forall>is. continue x = Inr is \<longrightarrow> set is \<subseteq> set (i # visited) \<union> set (todo @ ns)))"
            unfolding x by (intro disjI2 exI [of _ fr] conjI) (use qf b nb ns(1) in auto)
        qed auto
        moreover have "set ss \<subseteq> set (i # visited) \<union> set (todo @ ns)" "set (i # visited) \<union> set (todo @ ns) \<subseteq> W" using I ns(2) by auto
        ultimately have "?I (todo @ ns, i # visited, fr)" using qf by simp
        moreover have "frontier_step C accept continue st = Inr (todo @ ns, i # visited, fr)" using False b nb ns(1) by (simp add: e frontier_step_def)
        ultimately show ?thesis using less by (simp add: e)
      qed
    qed
  qed simp
  then obtain visited fr where w: "whileE (\<lambda>(traversal, _). traversal \<noteq> []) (frontier_step C accept continue) (ss, [], []) = Inr ([], visited, fr)"
    "?I ([], visited, fr)" by auto
  then show ?thesis by (intro exI [of _ fr] exI [of _ "set visited"]) (simp add: frontier_from_def)
qed

section \<open>The loop\<close>

abbreviation marker :: "segment_ctx \<Rightarrow> nat \<Rightarrow> bool" where
  "marker C i \<equiv> isPHINode (in_kind (sg_I C) i) \<or> sg_isDbg C i \<or> sg_isLifetime C i"

abbreviation in_loop :: "segment_ctx \<Rightarrow> nat \<Rightarrow> bool" where
  "in_loop C i \<equiv> lm_parent (sg_M C) i \<in> set (ls_bbs (rootLoop C))"

abbreviation header_first :: "segment_ctx \<Rightarrow> nat" where
  "header_first C \<equiv> hd (cfg_insts (sg_F C) (ls_header (rootLoop C)))"

abbreviation iteration_flow :: "segment_ctx \<Rightarrow> (nat \<times> nat) set" where
  "iteration_flow C \<equiv> flow (sg_F C) (\<lambda>s. s = header_first C)"

text \<open>A natural loop of a function without debug intrinsics: the loop is entered through its header only, the header belongs to no inner loop, and
  the dominator queries answer, with no instruction of the loop but the first of the header dominating the latter.\<close>

definition segment_ok :: "segment_ctx \<Rightarrow> bool" where
  "segment_ok C \<longleftrightarrow> cfg_ok (sg_F C) \<and> ls_header (rootLoop C) \<in> set (ls_bbs (rootLoop C)) \<and> set (ls_bbs (rootLoop C)) \<subseteq> set (cfg_blocks (sg_F C)) \<and>
     (\<forall>b \<in> set (cfg_blocks (sg_F C)). (\<forall>i \<in> set (cfg_insts (sg_F C) b). lm_parent (sg_M C) i = b) \<and> \<not> marker C (last (cfg_insts (sg_F C) b))) \<and>
     (\<forall>i \<in> set (instructions (sg_F C)). \<not> sg_isDbg C i \<and> (getLoop_inst (sg_M C) (sg_LIS C) i = Some (sg_root C) \<longrightarrow> in_loop C i)) \<and>
     getLoop (sg_LIS C) (ls_header (rootLoop C)) = Some (sg_root C) \<and>
     (\<forall>(a, b) \<in> flow (sg_F C) (\<lambda>_. False). in_loop C b \<and> \<not> in_loop C a \<longrightarrow> b = header_first C) \<and>
     (\<forall>e \<in> set (instructions (sg_F C)). \<forall>i \<in> set (instructions (sg_F C)). \<exists>d. dominates_insts (sg_code C) (sg_DT C) e i = Inr d \<and>
        (d \<and> in_loop C e \<and> i = header_first C \<longrightarrow> e = i))"

lemma segment_okD:
  assumes "segment_ok C"
  shows "cfg_ok (sg_F C)" "ls_header (rootLoop C) \<in> set (ls_bbs (rootLoop C))" "set (ls_bbs (rootLoop C)) \<subseteq> set (cfg_blocks (sg_F C))"
    "b \<in> set (cfg_blocks (sg_F C)) \<Longrightarrow> i \<in> set (cfg_insts (sg_F C) b) \<Longrightarrow> lm_parent (sg_M C) i = b"
    "b \<in> set (cfg_blocks (sg_F C)) \<Longrightarrow> \<not> marker C (last (cfg_insts (sg_F C) b))"
    "i \<in> set (instructions (sg_F C)) \<Longrightarrow> \<not> sg_isDbg C i"
    "i \<in> set (instructions (sg_F C)) \<Longrightarrow> getLoop_inst (sg_M C) (sg_LIS C) i = Some (sg_root C) \<Longrightarrow> in_loop C i"
    "getLoop (sg_LIS C) (ls_header (rootLoop C)) = Some (sg_root C)"
    "(a, x) \<in> flow (sg_F C) (\<lambda>_. False) \<Longrightarrow> in_loop C x \<Longrightarrow> \<not> in_loop C a \<Longrightarrow> x = header_first C"
    "e \<in> set (instructions (sg_F C)) \<Longrightarrow> i \<in> set (instructions (sg_F C)) \<Longrightarrow> \<exists>d. dominates_insts (sg_code C) (sg_DT C) e i = Inr d \<and>
        (d \<and> in_loop C e \<and> i = header_first C \<longrightarrow> e = i)"
  using assms unfolding segment_ok_def by blast+


section \<open>Blocks\<close>

lemma neighbours_split: "(a, b) \<in> neighbours xs \<longleftrightarrow> (\<exists>us vs. xs = us @ a # b # vs)"
proof
  have "(a, b) \<in> neighbours (us @ a # b # vs)" for us vs
  proof (induction us)
    case (Cons u us)
    then show ?case by (cases "us @ a # b # vs") auto
  qed simp
  then show "(a, b) \<in> neighbours xs" if "\<exists>us vs. xs = us @ a # b # vs" using that by blast
  show "\<exists>us vs. xs = us @ a # b # vs" if "(a, b) \<in> neighbours xs"
    using that
  proof (induction xs rule: neighbours.induct)
    case (1 x y xs)
    then consider "a = x \<and> b = y" | us vs where "y # xs = us @ a # b # vs" by auto
    then show ?case
    proof cases
      case 1
      then have "x # y # xs = [] @ a # b # xs" by simp
      then show ?thesis by blast
    next
      case (2 us vs)
      then have "x # y # xs = (x # us) @ a # b # vs" by simp
      then show ?thesis by blast
    qed
  qed simp_all
qed

lemma inst_block:
  assumes "segment_ok C" "i \<in> set (instructions (sg_F C))"
  shows "lm_parent (sg_M C) i \<in> set (cfg_blocks (sg_F C))" "i \<in> set (cfg_insts (sg_F C) (lm_parent (sg_M C) i))"
proof -
  obtain b where b: "b \<in> set (cfg_blocks (sg_F C))" "i \<in> set (cfg_insts (sg_F C) b)" using assms(2) by (auto simp: instructions_def)
  have "lm_parent (sg_M C) i = b" by (rule segment_okD(4) [OF assms(1) b])
  with b show "lm_parent (sg_M C) i \<in> set (cfg_blocks (sg_F C))" "i \<in> set (cfg_insts (sg_F C) (lm_parent (sg_M C) i))" by simp_all
qed

lemma block_inst: "b \<in> set (cfg_blocks F) \<Longrightarrow> i \<in> set (cfg_insts F b) \<Longrightarrow> i \<in> set (instructions F)"
  by (auto simp: instructions_def)

lemma header_insts:
  assumes "segment_ok C"
  shows "ls_header (rootLoop C) \<in> set (cfg_blocks (sg_F C))" "header_first C \<in> set (cfg_insts (sg_F C) (ls_header (rootLoop C)))"
    "header_first C \<in> set (instructions (sg_F C))" "lm_parent (sg_M C) (header_first C) = ls_header (rootLoop C)"
proof -
  show b: "ls_header (rootLoop C) \<in> set (cfg_blocks (sg_F C))" using segment_okD(2,3) [OF assms] by blast
  show i: "header_first C \<in> set (cfg_insts (sg_F C) (ls_header (rootLoop C)))" using cfg_okD(2) [OF segment_okD(1) [OF assms] b] by simp
  show "header_first C \<in> set (instructions (sg_F C))" by (rule block_inst [OF b i])
  show "lm_parent (sg_M C) (header_first C) = ls_header (rootLoop C)" by (rule segment_okD(4) [OF assms b i])
qed

lemma hd_split: "distinct (xs @ y # ys) \<Longrightarrow> hd (xs @ y # ys) = y \<Longrightarrow> xs = []"
  by (cases xs) auto

text \<open>The instructions from which execution comes to an instruction.\<close>

lemma flow_into:
  assumes ok: "segment_ok C" and i: "i \<in> set (instructions (sg_F C))" and xs: "cfg_insts (sg_F C) (lm_parent (sg_M C) i) = xs @ i # ys"
  shows "(a, i) \<in> flow (sg_F C) (\<lambda>_. False) \<longleftrightarrow>
     (if xs = [] then \<exists>b \<in> set (cfg_preds (sg_F C) (lm_parent (sg_M C) i)). a = last (cfg_insts (sg_F C) b) else a = last xs)"
proof -
  note cok = segment_okD(1) [OF ok]
  let ?b = "lm_parent (sg_M C) i" and ?F = "sg_F C"
  have b: "?b \<in> set (cfg_blocks ?F)" and d: "distinct (cfg_insts ?F ?b)" using inst_block [OF ok i] cfg_okD(3) [OF cok] by blast+
  have own: "c = ?b" if "c \<in> set (cfg_blocks ?F)" "i \<in> set (cfg_insts ?F c)" for c using segment_okD(4) [OF ok that] by simp
  have n: "(\<exists>c \<in> set (cfg_blocks ?F). (a, i) \<in> neighbours (cfg_insts ?F c)) \<longleftrightarrow> xs \<noteq> [] \<and> a = last xs"
  proof
    assume "\<exists>c \<in> set (cfg_blocks ?F). (a, i) \<in> neighbours (cfg_insts ?F c)"
    then obtain c where c: "c \<in> set (cfg_blocks ?F)" "(a, i) \<in> neighbours (cfg_insts ?F c)" by blast
    then have "c = ?b" using own neighbours_mem [OF c(2)] by blast
    then obtain us vs where "cfg_insts ?F ?b = (us @ [a]) @ i # vs" using c(2) by (auto simp: neighbours_split)
    then have "us @ [a] = xs" using xs d by (metis append_Cons_eq_iff distinct.simps(2) distinct_append not_distinct_conv_prefix)
    then show "xs \<noteq> [] \<and> a = last xs" by auto
  next
    assume a: "xs \<noteq> [] \<and> a = last xs"
    then have "cfg_insts ?F ?b = butlast xs @ a # i # ys" using xs by simp
    then show "\<exists>c \<in> set (cfg_blocks ?F). (a, i) \<in> neighbours (cfg_insts ?F c)" using b by (auto simp: neighbours_split)
  qed
  have h: "(\<exists>c \<in> set (cfg_blocks ?F). \<exists>e \<in> set (cfg_succs ?F c). a = last (cfg_insts ?F c) \<and> i = hd (cfg_insts ?F e)) \<longleftrightarrow>
      xs = [] \<and> (\<exists>c \<in> set (cfg_preds ?F ?b). a = last (cfg_insts ?F c))"
  proof
    assume "\<exists>c \<in> set (cfg_blocks ?F). \<exists>e \<in> set (cfg_succs ?F c). a = last (cfg_insts ?F c) \<and> i = hd (cfg_insts ?F e)"
    then obtain c e where c: "c \<in> set (cfg_blocks ?F)" "e \<in> set (cfg_succs ?F c)" "a = last (cfg_insts ?F c)" "i = hd (cfg_insts ?F e)" by blast
    have e: "e \<in> set (cfg_blocks ?F)" by (rule cfg_okD(5) [OF cok c(1,2)])
    then have "i \<in> set (cfg_insts ?F e)" using c(4) cfg_okD(2) [OF cok e] by simp
    then have eb: "e = ?b" by (rule own [OF e])
    have "xs = []" by (rule hd_split [of xs i ys]) (use c(4) eb xs d in auto)
    moreover have "c \<in> set (cfg_preds ?F ?b)" using cfg_okD(7) [OF cok b c(1)] c(2) eb by simp
    ultimately show "xs = [] \<and> (\<exists>c \<in> set (cfg_preds ?F ?b). a = last (cfg_insts ?F c))" using c(3) by blast
  next
    assume x: "xs = [] \<and> (\<exists>c \<in> set (cfg_preds ?F ?b). a = last (cfg_insts ?F c))"
    then obtain c where c: "c \<in> set (cfg_preds ?F ?b)" "a = last (cfg_insts ?F c)" by blast
    have cb: "c \<in> set (cfg_blocks ?F)" by (rule cfg_okD(6) [OF cok b c(1)])
    have "?b \<in> set (cfg_succs ?F c)" using cfg_okD(7) [OF cok b cb] c(1) by simp
    moreover have "i = hd (cfg_insts ?F ?b)" using x xs by simp
    ultimately show "\<exists>c \<in> set (cfg_blocks ?F). \<exists>e \<in> set (cfg_succs ?F c). a = last (cfg_insts ?F c) \<and> i = hd (cfg_insts ?F e)" using c(2) cb by blast
  qed
  have "(a, i) \<in> flow ?F (\<lambda>_. False) \<longleftrightarrow> (\<exists>c \<in> set (cfg_blocks ?F). (a, i) \<in> neighbours (cfg_insts ?F c)) \<or>
      (\<exists>c \<in> set (cfg_blocks ?F). \<exists>e \<in> set (cfg_succs ?F c). a = last (cfg_insts ?F c) \<and> i = hd (cfg_insts ?F e))"
    unfolding flow_def by blast
  then show ?thesis unfolding n h by auto
qed

lemma find_all: "(\<And>x. x \<in> set xs \<Longrightarrow> P x) \<Longrightarrow> find P xs = (if xs = [] then None else Some (hd xs))"
  by (cases xs) auto

lemma collected_insts:
  assumes "\<And>b. b \<in> set bs \<Longrightarrow> f b = Inr (g b)"
  shows "foldE (\<lambda>b acc. andThen (f b) (\<lambda>t. Inr (acc @ [t]))) bs acc = Inr (acc @ map g bs)"
  using assms by (induction bs arbitrary: acc) auto

lemma predecessors_ok:
  assumes ok: "segment_ok C" and i: "i \<in> set (instructions (sg_F C))"
  shows "\<exists>is. predecessors_of C i = Inr is \<and> set is = {a. (a, i) \<in> flow (sg_F C) (\<lambda>_. False)} \<and> set is \<subseteq> set (instructions (sg_F C))"
proof -
  note cok = segment_okD(1) [OF ok]
  let ?b = "lm_parent (sg_M C) i" and ?F = "sg_F C"
  note b = inst_block [OF ok i]
  obtain xs ys where xs: "cfg_insts ?F ?b = xs @ i # ys" using b(2) by (auto simp: in_set_conv_decomp)
  have d: "distinct (xs @ i # ys)" using cfg_okD(3) [OF cok b(1)] xs by simp
  have tw: "takeWhile (\<lambda>j. j \<noteq> i) (cfg_insts ?F ?b) = xs" unfolding xs using d by (subst takeWhile_append2) auto
  have mem: "x \<in> set xs \<Longrightarrow> x \<in> set (instructions ?F)" for x using block_inst [OF b(1)] xs by auto
  have "getPrevNonDebugInstruction C i = find (\<lambda>j. \<not> sg_isDbg C j) (rev xs)" by (simp add: getPrevNonDebugInstruction_def tw)
  also have "\<dots> = (if rev xs = [] then None else Some (hd (rev xs)))" by (rule find_all) (use mem segment_okD(6) [OF ok] in auto)
  finally have prev: "getPrevNonDebugInstruction C i = (if xs = [] then None else Some (last xs))" by (simp add: hd_rev)
  note fl = flow_into [OF ok i xs]
  show ?thesis
  proof (cases "xs = []")
    case True
    have p: "last_inst ?F c = Inr (last (cfg_insts ?F c))" "last (cfg_insts ?F c) \<in> set (instructions ?F)" if "c \<in> set (cfg_preds ?F ?b)" for c
      using cfg_okD(2) [OF cok cfg_okD(6) [OF cok b(1) that]] block_inst [OF cfg_okD(6) [OF cok b(1) that]] by (simp_all add: last_inst_def)
    have "predecessors_of C i = Inr (map (\<lambda>c. last (cfg_insts ?F c)) (cfg_preds ?F ?b))"
      using prev True collected_insts [of "cfg_preds ?F ?b" "last_inst ?F" "\<lambda>c. last (cfg_insts ?F c)" "[]", OF p(1)] by (simp add: predecessors_of_def)
    then show ?thesis using fl True p(2) by (intro exI conjI) auto
  next
    case False
    then show ?thesis using prev fl mem [of "last xs"] by (intro exI [of _ "[last xs]"]) (auto simp: predecessors_of_def)
  qed
qed

lemma successors_ok:
  assumes ok: "segment_ok C" and i: "i \<in> set (instructions (sg_F C))"
  shows "\<exists>is. successors_of C i = Inr is \<and> set is \<subseteq> set (instructions (sg_F C))"
proof -
  note cok = segment_okD(1) [OF ok]
  let ?b = "lm_parent (sg_M C) i" and ?F = "sg_F C"
  note b = inst_block [OF ok i]
  show ?thesis
  proof (cases "getNextNonDebugInstruction C i")
    case None
    have p: "first_inst ?F c = Inr (hd (cfg_insts ?F c))" "hd (cfg_insts ?F c) \<in> set (instructions ?F)" if "c \<in> set (cfg_succs ?F ?b)" for c
      using cfg_okD(2) [OF cok cfg_okD(5) [OF cok b(1) that]] block_inst [OF cfg_okD(5) [OF cok b(1) that]]
      by (cases "cfg_insts ?F c", auto simp: first_inst_def)+
    have "successors_of C i = Inr (map (\<lambda>c. hd (cfg_insts ?F c)) (cfg_succs ?F ?b))"
      using None collected_insts [of "cfg_succs ?F ?b" "first_inst ?F" "\<lambda>c. hd (cfg_insts ?F c)" "[]", OF p(1)] by (simp add: successors_of_def)
    then show ?thesis using p(2) by auto
  next
    case (Some n)
    then have "n \<in> set (cfg_insts ?F ?b)" unfolding getNextNonDebugInstruction_def find_Some_iff
      by (metis list.set_sel(2) nth_mem set_dropWhileD tl_Nil)
    then show ?thesis using Some block_inst [OF b(1)] by (auto simp: successors_of_def)
  qed
qed


lemma flow_next:
  assumes ok: "segment_ok C" and b: "b \<in> set (cfg_blocks (sg_F C))" and blk: "cfg_insts (sg_F C) b = xs @ y # ys"
    and yw: "(y, w) \<in> flow (sg_F C) (\<lambda>_. False)"
  shows "if ys = [] then \<exists>c \<in> set (cfg_succs (sg_F C) b). w = hd (cfg_insts (sg_F C) c) else w = hd ys"
proof -
  note cok = segment_okD(1) [OF ok]
  have d: "distinct (xs @ y # ys)" using cfg_okD(3) [OF cok b] blk by simp
  have own: "c = b" if "c \<in> set (cfg_blocks (sg_F C))" "y \<in> set (cfg_insts (sg_F C) c)" for c
    using segment_okD(4) [OF ok that] segment_okD(4) [OF ok b, of y] blk by simp
  obtain c where c: "c \<in> set (cfg_blocks (sg_F C))" "(y, w) \<in> neighbours (cfg_insts (sg_F C) c) \<or>
      y = last (cfg_insts (sg_F C) c) \<and> (\<exists>e \<in> set (cfg_succs (sg_F C) c). w = hd (cfg_insts (sg_F C) e))"
    using yw by (auto simp: flow_def)
  have "y \<in> set (cfg_insts (sg_F C) c)" using c(2) neighbours_mem [of y w] cfg_okD(2) [OF cok c(1)] by auto
  then have cb: "c = b" by (rule own [OF c(1)])
  have n: "ys = w # vs" if e: "xs @ y # ys = us @ y # w # vs" for us vs
  proof -
    have "y \<notin> set xs" "y \<notin> set us" using d d [unfolded e] by auto
    then have "xs = us" using e by (metis append_Cons_eq_iff d distinct.simps(2) distinct_append not_distinct_conv_prefix append_eq_append_conv_if)
    with e show ?thesis by simp
  qed
  show ?thesis
  proof (cases "ys = []")
    case True
    have "(y, w) \<notin> neighbours (cfg_insts (sg_F C) b)" using n True unfolding blk by (auto simp: neighbours_split)
    then show ?thesis using c(2) cb True by auto
  next
    case False
    have "last (xs @ y # ys) = last ys" using False by simp
    then have "y \<noteq> last (xs @ y # ys)" using d False last_in_set [of ys] by auto
    then obtain us vs where "xs @ y # ys = us @ y # w # vs" using c(2) cb blk by (auto simp: neighbours_split)
    from n [OF this] show ?thesis by simp
  qed
qed

lemma successors_all:
  assumes ok: "segment_ok C" and i: "i \<in> set (instructions (sg_F C))" and s: "successors_of C i = Inr js" and b: "(i, w) \<in> flow (sg_F C) (\<lambda>_. False)"
  shows "w \<in> set js"
proof -
  note cok = segment_okD(1) [OF ok]
  let ?b = "lm_parent (sg_M C) i" and ?F = "sg_F C"
  note ib = inst_block [OF ok i]
  obtain xs ys where xs: "cfg_insts ?F ?b = xs @ i # ys" using ib(2) by (auto simp: in_set_conv_decomp)
  have d: "distinct (xs @ i # ys)" using cfg_okD(3) [OF cok ib(1)] xs by simp
  have dw: "tl (dropWhile (\<lambda>j. j \<noteq> i) (cfg_insts ?F ?b)) = ys" unfolding xs using d by (subst dropWhile_append2) auto
  have mem: "x \<in> set ys \<Longrightarrow> x \<in> set (instructions ?F)" for x using block_inst [OF ib(1)] xs by auto
  have "getNextNonDebugInstruction C i = (if ys = [] then None else Some (hd ys))"
    unfolding getNextNonDebugInstruction_def dw by (rule find_all) (use mem segment_okD(6) [OF ok] in auto)
  moreover have "foldE (\<lambda>b acc. andThen (first_inst ?F b) (\<lambda>f. Inr (acc @ [f]))) (cfg_succs ?F ?b) [] = Inr (map (\<lambda>c. hd (cfg_insts ?F c)) (cfg_succs ?F ?b))"
  proof -
    have "first_inst ?F c = Inr (hd (cfg_insts ?F c))" if "c \<in> set (cfg_succs ?F ?b)" for c
      using cfg_okD(2) [OF cok cfg_okD(5) [OF cok ib(1) that]] by (cases "cfg_insts ?F c") (auto simp: first_inst_def)
    from collected_insts [of "cfg_succs ?F ?b" "first_inst ?F" "\<lambda>c. hd (cfg_insts ?F c)" "[]", OF this] show ?thesis by simp
  qed
  ultimately have "js = (if ys = [] then map (\<lambda>c. hd (cfg_insts ?F c)) (cfg_succs ?F ?b) else [hd ys])" using s by (simp add: successors_of_def split: if_splits)
  then show ?thesis using flow_next [OF ok ib(1) xs b] by (auto split: if_splits)
qed

section \<open>The points of the frontier\<close>

lemma point_ok:
  assumes ok: "segment_ok C" and i: "i \<in> set (instructions (sg_F C))"
  shows "\<exists>p. getFrontierInstructionThatDoesNotSplitPHIs C i = Inr p \<and> p \<in> set (cfg_insts (sg_F C) (lm_parent (sg_M C) i)) \<and>
     \<not> marker C p \<and> (\<not> marker C i \<longrightarrow> p = i) \<and>
     (marker C i \<longrightarrow> (\<exists>us vs. cfg_insts (sg_F C) (lm_parent (sg_M C) i) = us @ p # vs \<and> (\<forall>u \<in> set us. marker C u)))"
proof (cases "marker C i")
  case False
  then show ?thesis using inst_block [OF ok i] by (simp add: getFrontierInstructionThatDoesNotSplitPHIs_def)
next
  case True
  let ?is = "cfg_insts (sg_F C) (lm_parent (sg_M C) i)"
  note b = inst_block [OF ok i]
  have "last ?is \<in> set ?is" "\<not> marker C (last ?is)" using segment_okD(5) [OF ok b(1)] cfg_okD(2) [OF segment_okD(1) [OF ok] b(1)] by simp_all
  then obtain p where p: "find (\<lambda>i. \<not> marker C i) ?is = Some p" by (cases "find (\<lambda>i. \<not> marker C i) ?is") (auto simp: find_None_iff)
  then obtain k where k: "k < length ?is" "\<not> marker C (?is ! k)" "p = ?is ! k" "\<forall>j < k. marker C (?is ! j)" by (auto simp: find_Some_iff)
  have "?is = take k ?is @ p # drop (Suc k) ?is" using k(1,3) by (simp add: id_take_nth_drop)
  moreover have "\<forall>u \<in> set (take k ?is). marker C u"
  proof
    fix u assume "u \<in> set (take k ?is)"
    then obtain j where "j < k" "u = ?is ! j" by (auto simp: in_set_conv_nth)
    with k(4) show "marker C u" by blast
  qed
  moreover have "getFrontierInstructionThatDoesNotSplitPHIs C i = Inr p"
    using True p by (simp add: getFrontierInstructionThatDoesNotSplitPHIs_def getFirstNonPHIOrDbgOrLifetime_def)
  moreover have "p \<in> set ?is" "\<not> marker C p" using k by simp_all
  ultimately show ?thesis using True by blast
qed

section \<open>Paths of an iteration\<close>

text \<open>A path holds the instructions that one iteration executes, from the first instruction of the header on.\<close>

definition iteration_path :: "segment_ctx \<Rightarrow> nat list \<Rightarrow> bool" where
  "iteration_path C p \<longleftrightarrow> p \<noteq> [] \<and> hd p = header_first C \<and> successively (\<lambda>a b. (a, b) \<in> iteration_flow C) p"

lemma iteration_flow_into: "(a, b) \<in> iteration_flow C \<longleftrightarrow> (a, b) \<in> flow (sg_F C) (\<lambda>_. False) \<and> b \<noteq> header_first C"
  by (auto simp: flow_def)

lemma flow_insts:
  assumes ok: "segment_ok C" and ab: "(a, b) \<in> flow (sg_F C) (\<lambda>_. False)"
  shows "a \<in> set (instructions (sg_F C))" "b \<in> set (instructions (sg_F C))"
proof -
  note cok = segment_okD(1) [OF ok]
  obtain c where c: "c \<in> set (cfg_blocks (sg_F C))" "(a, b) \<in> neighbours (cfg_insts (sg_F C) c) \<or>
      (\<exists>e \<in> set (cfg_succs (sg_F C) c). a = last (cfg_insts (sg_F C) c) \<and> b = hd (cfg_insts (sg_F C) e))"
    using ab by (auto simp: flow_def)
  have "a \<in> set (cfg_insts (sg_F C) c)" using c(2) neighbours_mem [of a b] cfg_okD(2) [OF cok c(1)] by auto
  then show "a \<in> set (instructions (sg_F C))" using block_inst [OF c(1)] by blast
  have "\<exists>e \<in> set (cfg_blocks (sg_F C)). b \<in> set (cfg_insts (sg_F C) e)"
    using c neighbours_mem [of a b] cfg_okD(2) [OF cok] cfg_okD(5) [OF cok c(1)] by (metis hd_in_set)
  then show "b \<in> set (instructions (sg_F C))" using block_inst by blast
qed

lemma path_insts:
  assumes ok: "segment_ok C" and p: "iteration_path C p" and x: "x \<in> set p"
  shows "x \<in> set (instructions (sg_F C))"
  using p x unfolding iteration_path_def
proof (induction p rule: rev_induct)
  case (snoc y q)
  show ?case
  proof (cases "q = []")
    case True
    then show ?thesis using snoc.prems header_insts(3) [OF ok] by simp
  next
    case False
    then have "(last q, y) \<in> iteration_flow C" "successively (\<lambda>a b. (a, b) \<in> iteration_flow C) q" "hd q = header_first C"
      using snoc.prems by (auto simp: successively_append_iff)
    then show ?thesis using False snoc flow_insts(2) [OF ok] by (auto simp: iteration_flow_into)
  qed
qed simp

text \<open>An iteration executes a block from its first instruction on.\<close>

lemma path_before:
  assumes ok: "segment_ok C" and p: "iteration_path C p"
    and y: "y \<in> set p" "cfg_insts (sg_F C) (lm_parent (sg_M C) y) = xs @ y # ys"
  shows "set xs \<subseteq> set p"
  using p y unfolding iteration_path_def
proof (induction p arbitrary: y xs ys rule: rev_induct)
  case (snoc z q)
  note dist = cfg_okD(3) [OF segment_okD(1) [OF ok]]
  show ?case
  proof (cases "q = []")
    case True
    then have y: "y = header_first C" using snoc.prems by simp
    have "xs = []"
      by (rule hd_split [of xs y ys]) (use snoc.prems(3) header_insts [OF ok] dist [OF header_insts(1) [OF ok]] y in auto)
    then show ?thesis by simp
  next
    case False
    have q: "q \<noteq> [] \<and> hd q = header_first C \<and> successively (\<lambda>a b. (a, b) \<in> iteration_flow C) q" and lz: "(last q, z) \<in> iteration_flow C"
      using False snoc.prems(1) by (auto simp: successively_append_iff)
    show ?thesis
    proof (cases "y \<in> set q")
      case True
      then show ?thesis using snoc.IH [OF q True snoc.prems(3)] by auto
    next
      case yq: False
      then have yz: "y = z" using snoc.prems(2) by simp
      have f: "(last q, y) \<in> flow (sg_F C) (\<lambda>_. False)" using lz yz by (simp add: iteration_flow_into)
      note yi = flow_insts(2) [OF ok f]
      show ?thesis
      proof (cases xs rule: rev_cases)
        case (snoc us u)
        then have lu: "last q = u" using f flow_into [OF ok yi snoc.prems(3)] by simp
        have lq: "u \<in> set q" using lu False by (metis last_in_set)
        have "lm_parent (sg_M C) u = lm_parent (sg_M C) y"
          by (rule segment_okD(4) [OF ok inst_block(1) [OF ok yi]]) (simp add: snoc.prems(3) snoc)
        then have "cfg_insts (sg_F C) (lm_parent (sg_M C) u) = us @ u # (y # ys)" using snoc.prems(3) snoc by simp
        from snoc.IH [OF q lq this] lq show ?thesis unfolding snoc by auto
      qed simp
    qed
  qed
qed simp


text \<open>A path that ends behind the markers of a block has gone through the first instruction behind them.\<close>

lemma path_step:
  assumes "successively R p" "y \<in> set p" "y \<noteq> last p"
  obtains z where "R y z" "z \<in> set p"
proof -
  obtain us vs where p: "p = us @ y # vs" using assms(2) by (auto simp: in_set_conv_decomp)
  then obtain z vs' where "vs = z # vs'" using assms(3) by (cases vs) auto
  then show ?thesis using assms(1) p that [of z] by (auto simp: successively_append_iff)
qed

lemma path_after:
  assumes ok: "segment_ok C" and p: "successively (\<lambda>a b. (a, b) \<in> iteration_flow C) p" and y: "y \<in> set p"
    and b: "b \<in> set (cfg_blocks (sg_F C))" and blk: "cfg_insts (sg_F C) b = xs @ y # zs @ e # ws" and ends: "last p \<notin> set (y # zs)"
  shows "e \<in> set p"
  using y blk ends
proof (induction zs arbitrary: xs y)
  case Nil
  then obtain w where w: "(y, w) \<in> iteration_flow C" "w \<in> set p" using path_step [OF p, of y] by auto
  have "w = e" using flow_next [OF ok b, of xs y "e # ws" w] Nil w(1) by (auto simp: iteration_flow_into)
  with w show ?case by simp
next
  case (Cons z zs)
  then obtain w where w: "(y, w) \<in> iteration_flow C" "w \<in> set p" using path_step [OF p, of y] by auto
  have "w = z" using flow_next [OF ok b, of xs y "z # zs @ e # ws" w] Cons.prems(2) w(1) by (auto simp: iteration_flow_into)
  with w Cons.prems show ?case by (intro Cons.IH [of z "xs @ [y]"]) auto
qed

lemma covered_path:
  assumes ok: "segment_ok C" and p: "iteration_path C p" and y: "y \<in> set p" "covered C frontier y" and x: "\<not> marker C (last p)"
  shows "set p \<inter> set frontier \<noteq> {}"
proof -
  have yi: "y \<in> set (instructions (sg_F C))" by (rule path_insts [OF ok p y(1)])
  obtain e where e: "getFrontierInstructionThatDoesNotSplitPHIs C y = Inr e" "\<not> marker C y \<longrightarrow> e = y"
    "marker C y \<longrightarrow> (\<exists>us vs. cfg_insts (sg_F C) (lm_parent (sg_M C) y) = us @ e # vs \<and> (\<forall>u \<in> set us. marker C u))" "\<not> marker C e"
    using point_ok [OF ok yi] by blast
  then have ef: "e \<in> set frontier" using y(2) by (simp add: covered_def)
  have "e \<in> set p"
  proof (cases "marker C y")
    case False
    then show ?thesis using e(2) y(1) by simp
  next
    case True
    then obtain us vs where uv: "cfg_insts (sg_F C) (lm_parent (sg_M C) y) = us @ e # vs" "\<forall>u \<in> set us. marker C u" using e(3) by blast
    note b = inst_block [OF ok yi]
    have "y \<noteq> e" using True e(4) by auto
    then consider "y \<in> set us" | "y \<in> set vs" using b(2) unfolding uv(1) by auto
    then show ?thesis
    proof cases
      case 1
      then obtain xs zs where us: "us = xs @ y # zs" by (auto simp: in_set_conv_decomp)
      have "successively (\<lambda>a b. (a, b) \<in> iteration_flow C) p" using p by (simp add: iteration_path_def)
      then show ?thesis by (rule path_after [where xs = xs and zs = zs and ws = vs, OF ok _ y(1) b(1)]) (use uv us x in auto)
    next
      case 2
      then obtain xs zs where "vs = xs @ y # zs" by (auto simp: in_set_conv_decomp)
      then have "cfg_insts (sg_F C) (lm_parent (sg_M C) y) = (us @ e # xs) @ y # zs" using uv(1) by simp
      from path_before [OF ok p y(1) this] show ?thesis by auto
    qed
  qed
  with ef show ?thesis by blast
qed

section \<open>The maps and tests return\<close>

definition reach_ok :: "segment_ctx \<Rightarrow> dfr \<Rightarrow> bool" where
  "reach_ok C df \<longleftrightarrow> (\<forall>i \<in> set (instructions (sg_F C)). set (OUT df i) = {j \<in> set (instructions (sg_F C)). (i, j) \<in> (iteration_flow C)\<^sup>+})"

lemma loop_insts_set:
  assumes ok: "segment_ok C"
  shows "set (loop_insts C) = {i \<in> set (instructions (sg_F C)). in_loop C i}"
proof
  show "set (loop_insts C) \<subseteq> {i \<in> set (instructions (sg_F C)). in_loop C i}"
    using segment_okD(3,4) [OF ok] block_inst by (fastforce simp: loop_insts_def)
  show "{i \<in> set (instructions (sg_F C)). in_loop C i} \<subseteq> set (loop_insts C)" using inst_block [OF ok] by (auto simp: loop_insts_def)
qed

lemma before_map_ok:
  assumes ok: "segment_ok C" and df: "reach_ok C df"
  shows "\<exists>m. computeBeforeInstructionMap C df = Inr m \<and> (\<forall>i \<in> set (loop_insts C). \<exists>bs. m i = Some bs \<and>
     set bs \<subseteq> {j. j \<noteq> i \<and> (j, i) \<in> (iteration_flow C)\<^sup>+})"
proof -
  let ?P = "\<lambda>m. \<forall>i \<in> set (loop_insts C). \<exists>bs. m i = Some bs \<and> set bs \<subseteq> {j. j \<noteq> i \<and> (j, i) \<in> (iteration_flow C)\<^sup>+}"
  have init: "fold (\<lambda>i m. m(i \<mapsto> [])) is m i = (if i \<in> set is then Some [] else m i)" for "is" and m :: "nat \<rightharpoonup> nat list" and i
    by (induction "is" arbitrary: m) auto
  have one: "\<exists>m'. add_before C j i m = Inr m' \<and> ?P m'" if j: "j \<in> set (loop_insts C)" and i: "i \<in> set (OUT df j)" and m: "?P m" for i j m
  proof (cases "j = i \<or> \<not> isIncluded_inst (sg_M C) i (rootLoop C)")
    case True
    then show ?thesis using m by (simp add: add_before_def)
  next
    case False
    have r: "i \<in> set (instructions (sg_F C))" "(j, i) \<in> (iteration_flow C)\<^sup>+" using df i j loop_insts_set [OF ok] by (auto simp: reach_ok_def)
    then have "i \<in> set (loop_insts C)" using False loop_insts_set [OF ok] by (simp add: isIncluded_inst_def isIncluded_def)
    then obtain bs where "m i = Some bs" "set bs \<subseteq> {j. j \<noteq> i \<and> (j, i) \<in> (iteration_flow C)\<^sup>+}" using m by blast
    then show ?thesis using False m r by (auto simp: add_before_def)
  qed
  have "\<exists>m. foldE (\<lambda>i. foldE (add_before C i) (OUT df i)) (loop_insts C) (fold (\<lambda>i m. m(i \<mapsto> [])) (loop_insts C) (\<lambda>_. None)) = Inr m \<and> ?P m"
  proof (rule foldE_total)
    show "?P (fold (\<lambda>i m. m(i \<mapsto> [])) (loop_insts C) (\<lambda>_. None))" by (simp add: init)
    fix j m assume j: "j \<in> set (loop_insts C)" "?P m"
    show "\<exists>m'. foldE (add_before C j) (OUT df j) m = Inr m' \<and> ?P m'" by (rule foldE_total [where P = ?P, OF j(2)]) (rule one [OF j(1)])
  qed
  then show ?thesis by (simp add: computeBeforeInstructionMap_def)
qed

lemma dominated_ok:
  assumes ok: "segment_ok C" and es: "set es \<subseteq> set (instructions (sg_F C))" and i: "i \<in> set (instructions (sg_F C))"
  shows "\<exists>d. isDominatedByOtherEntry C es i = Inr d \<and> (d \<longrightarrow> (\<exists>e \<in> set es. dominates_insts (sg_code C) (sg_DT C) e i = Inr True))"
proof -
  have "\<exists>d. foldE (\<lambda>e found. if found then Inr True else dominates_insts (sg_code C) (sg_DT C) e i) es False = Inr d \<and>
      (d \<longrightarrow> (\<exists>e \<in> set es. dominates_insts (sg_code C) (sg_DT C) e i = Inr True))"
  proof (rule foldE_total)
    fix e found assume e: "e \<in> set es" "found \<longrightarrow> (\<exists>e \<in> set es. dominates_insts (sg_code C) (sg_DT C) e i = Inr True)"
    obtain d where "dominates_insts (sg_code C) (sg_DT C) e i = Inr d" using segment_okD(10) [OF ok _ i, of e] e(1) es by blast
    then show "\<exists>d. (if found then Inr True else dominates_insts (sg_code C) (sg_DT C) e i) = Inr d \<and>
        (d \<longrightarrow> (\<exists>e \<in> set es. dominates_insts (sg_code C) (sg_DT C) e i = Inr True))" using e by auto
  qed simp
  then show ?thesis by (simp add: isDominatedByOtherEntry_def)
qed


section \<open>Entries\<close>

definition before_ok :: "segment_ctx \<Rightarrow> (nat \<rightharpoonup> nat list) \<Rightarrow> bool" where
  "before_ok C m \<longleftrightarrow> (\<forall>i \<in> set (loop_insts C). \<exists>bs. m i = Some bs \<and> set bs \<subseteq> {j. j \<noteq> i \<and> (j, i) \<in> (iteration_flow C)\<^sup>+})"

lemma point_in_loop:
  assumes ok: "segment_ok C" and i: "i \<in> set (loop_insts C)" and p: "getFrontierInstructionThatDoesNotSplitPHIs C i = Inr p"
  shows "p \<in> set (loop_insts C)"
proof -
  have ii: "i \<in> set (instructions (sg_F C))" "in_loop C i" using i loop_insts_set [OF ok] by auto
  have "p \<in> set (cfg_insts (sg_F C) (lm_parent (sg_M C) i))" using point_ok [OF ok ii(1)] p by auto
  then have "lm_parent (sg_M C) p = lm_parent (sg_M C) i" "p \<in> set (instructions (sg_F C))"
    using segment_okD(4) [OF ok inst_block(1) [OF ok ii(1)]] block_inst [OF inst_block(1) [OF ok ii(1)]] by blast+
  then show ?thesis using ii(2) loop_insts_set [OF ok] by simp
qed

lemma root_in_loop:
  assumes ok: "segment_ok C" and i: "i \<in> set (instructions (sg_F C))" "getLoop_inst (sg_M C) (sg_LIS C) i = Some (sg_root C)"
  shows "i \<in> set (loop_insts C)"
  using segment_okD(7) [OF ok i] i(1) loop_insts_set [OF ok] by simp

lemma is_entry_ok:
  assumes ok: "segment_ok C" and m: "before_ok C m" and i: "i \<in> set (instructions (sg_F C))" and es: "set es \<subseteq> set (loop_insts C)"
  shows "\<exists>b. is_entry C m ss es i = Inr b \<and> (b \<longrightarrow> i \<in> set (loop_insts C))"
proof (cases "getLoop_inst (sg_M C) (sg_LIS C) i = Some (sg_root C)")
  case True
  have il: "i \<in> set (loop_insts C)" by (rule root_in_loop [OF ok i True])
  then obtain bs where "m i = Some bs" using m by (auto simp: before_ok_def)
  moreover obtain d where "isDominatedByOtherEntry C es i = Inr d" using dominated_ok [OF ok _ i, of es] es loop_insts_set [OF ok] by auto
  ultimately show ?thesis using True il by (cases "list_all (\<lambda>b. b = i \<or> b \<notin> set ss) bs") (auto simp: is_entry_def andE_def notE_def checkIfBeforeEntryFrontier_def)
qed (auto simp: is_entry_def andE_def)

lemma header_is_entry:
  assumes ok: "segment_ok C" and m: "before_ok C m" and es: "set es \<subseteq> set (loop_insts C)" and no: "is_entry C m ss es (header_first C) = Inr False"
  shows "header_first C \<in> set es"
proof -
  note hi = header_insts [OF ok]
  have hl: "header_first C \<in> set (loop_insts C)" using hi segment_okD(2) [OF ok] loop_insts_set [OF ok] by simp
  then obtain bs where bs: "m (header_first C) = Some bs" "set bs \<subseteq> {j. j \<noteq> header_first C \<and> (j, header_first C) \<in> (iteration_flow C)\<^sup>+}"
    using m by (auto simp: before_ok_def)
  have none: "(j, header_first C) \<notin> (iteration_flow C)\<^sup>+" for j
    by (rule notI) (erule tranclE, auto simp: iteration_flow_into)
  have "bs = []" using bs(2) none by (cases bs) auto
  moreover have "getLoop_inst (sg_M C) (sg_LIS C) (header_first C) = Some (sg_root C)" using hi(4) segment_okD(8) [OF ok] by (simp add: getLoop_inst_def)
  moreover obtain d where d: "isDominatedByOtherEntry C es (header_first C) = Inr d"
    "d \<longrightarrow> (\<exists>e \<in> set es. dominates_insts (sg_code C) (sg_DT C) e (header_first C) = Inr True)"
    using dominated_ok [OF ok _ hi(3), of es] es loop_insts_set [OF ok] by auto
  ultimately have d using no bs(1) by (simp add: is_entry_def andE_def notE_def checkIfBeforeEntryFrontier_def)
  then obtain e where e: "e \<in> set es" "dominates_insts (sg_code C) (sg_DT C) e (header_first C) = Inr True" using d(2) by blast
  have "e \<in> set (instructions (sg_F C))" "in_loop C e" using e(1) es loop_insts_set [OF ok] by auto
  then have "e = header_first C" using segment_okD(10) [OF ok _ hi(3), of e] e(2) by auto
  with e(1) show ?thesis by simp
qed

lemma successively_back:
  assumes "successively R p" "last p \<in> V" "p \<noteq> []" and "\<And>a b. a \<in> set p \<Longrightarrow> b \<in> set p \<Longrightarrow> R a b \<Longrightarrow> b \<in> V \<Longrightarrow> a \<in> V"
  shows "hd p \<in> V"
  using assms by (induction p rule: induct_list012) auto

lemma entries_ok:
  assumes ok: "segment_ok C" and m: "before_ok C m" and ss: "set ss \<subseteq> set (instructions (sg_F C))" "\<And>x. x \<in> set ss \<Longrightarrow> \<not> marker C x"
  shows "\<exists>es. frontier_from C (is_entry C m ss) (predecessors_of C) ss = Inr es \<and> set es \<subseteq> set (loop_insts C) \<and>
    (\<forall>p. iteration_path C p \<and> last p \<in> set ss \<longrightarrow> set p \<inter> set es \<noteq> {})"
proof -
  let ?Q = "\<lambda>es. set es \<subseteq> set (loop_insts C)"
  have "\<exists>fr V. frontier_from C (is_entry C m ss) (predecessors_of C) ss = Inr fr \<and> ?Q fr \<and> set ss \<subseteq> V \<and> V \<subseteq> set (instructions (sg_F C)) \<and>
      closed_under C ?Q (is_entry C m ss) (predecessors_of C) fr V {}"
  proof (rule frontier_from_ok [OF _ ss(1)])
    show "\<exists>b. is_entry C m ss fr i = Inr b" if "i \<in> set (instructions (sg_F C))" "?Q fr" for i fr using is_entry_ok [OF ok m that] by blast
    show "\<exists>is. predecessors_of C i = Inr is \<and> set is \<subseteq> set (instructions (sg_F C))" if "i \<in> set (instructions (sg_F C))" for i
      using predecessors_ok [OF ok that] by blast
    show "\<exists>p. getFrontierInstructionThatDoesNotSplitPHIs C i = Inr p" if "i \<in> set (instructions (sg_F C))" for i using point_ok [OF ok that] by blast
    show "?Q (uset_insert p fr)" if "i \<in> set (instructions (sg_F C))" "?Q fr" "is_entry C m ss fr i = Inr True"
      "getFrontierInstructionThatDoesNotSplitPHIs C i = Inr p" for i fr p
    proof -
      have "i \<in> set (loop_insts C)" using is_entry_ok [OF ok m that(1,2), of ss] that(3) by auto
      then show ?thesis using point_in_loop [OF ok _ that(4)] that(2) by simp
    qed
  qed simp_all
  then obtain fr V where fr: "frontier_from C (is_entry C m ss) (predecessors_of C) ss = Inr fr" "?Q fr" "set ss \<subseteq> V"
    "closed_under C ?Q (is_entry C m ss) (predecessors_of C) fr V {}" by blast
  have "set p \<inter> set fr \<noteq> {}" if p: "iteration_path C p" "last p \<in> set ss" for p
  proof
    assume none: "set p \<inter> set fr = {}"
    have nc: "\<not> covered C fr y" if "y \<in> set p" for y using covered_path [OF ok p(1) that _ ss(2) [OF p(2)]] none by blast
    have refused: "\<exists>g. set g \<subseteq> set fr \<and> ?Q g \<and> is_entry C m ss g y = Inr False \<and> (\<forall>is. predecessors_of C y = Inr is \<longrightarrow> set is \<subseteq> V)"
      if "y \<in> set p" "y \<in> V" for y using fr(4) nc [OF that(1)] that(2) unfolding closed_under_def by auto
    have P: "p \<noteq> []" "hd p = header_first C" "successively (\<lambda>a b. (a, b) \<in> iteration_flow C) p" using p(1) by (auto simp: iteration_path_def)
    have "hd p \<in> V"
    proof (rule successively_back [OF P(3) _ P(1)])
      show "last p \<in> V" using p(2) fr(3) by blast
      fix a b assume ab: "a \<in> set p" "b \<in> set p" "(a, b) \<in> iteration_flow C" "b \<in> V"
      obtain js where js: "predecessors_of C b = Inr js" "set js = {a. (a, b) \<in> flow (sg_F C) (\<lambda>_. False)}"
        using predecessors_ok [OF ok path_insts [OF ok p(1) ab(2)]] by blast
      have "set js \<subseteq> V" using refused [OF ab(2,4)] js(1) by blast
      then show "a \<in> V" using js(2) ab(3) by (auto simp: iteration_flow_into)
    qed
    then obtain g where g: "set g \<subseteq> set fr" "?Q g" "is_entry C m ss g (hd p) = Inr False" using refused [of "hd p"] P(1) by auto
    have "header_first C \<in> set g" by (rule header_is_entry [OF ok m g(2) g(3) [unfolded P(2)]])
    then have "hd p \<in> set fr" using g(1) P(2) by auto
    with none P(1) show False by (metis disjoint_iff hd_in_set)
  qed
  with fr(1,2) show ?thesis by blast
qed

section \<open>Exits\<close>

definition markers_first :: "segment_ctx \<Rightarrow> bool" where
  "markers_first C \<longleftrightarrow> (\<forall>b \<in> set (cfg_blocks (sg_F C)). list_all (\<lambda>i. \<not> marker C i) (dropWhile (marker C) (cfg_insts (sg_F C) b)))"

definition last_of_segment :: "segment_ctx \<Rightarrow> nat list \<Rightarrow> nat \<Rightarrow> bool" where
  "last_of_segment C ss e \<longleftrightarrow> (\<forall>x \<in> set ss. (e, x) \<in> (iteration_flow C)\<^sup>+ \<longrightarrow> x = e)"

lemma along_block:
  assumes ok: "segment_ok C" and b: "b \<in> set (cfg_blocks (sg_F C))" and blk: "cfg_insts (sg_F C) b = us @ i # ms @ p # vs"
  shows "(i, p) \<in> (iteration_flow C)\<^sup>+"
proof -
  have step: "(j, k) \<in> iteration_flow C" if blk: "cfg_insts (sg_F C) b = us @ j # k # vs" for us j k vs
  proof -
    have d: "distinct (us @ j # k # vs)" using cfg_okD(3) [OF segment_okD(1) [OF ok] b] blk by simp
    have "k \<noteq> header_first C"
    proof
      assume k: "k = header_first C"
      have "lm_parent (sg_M C) k = b" by (rule segment_okD(4) [OF ok b]) (simp add: blk)
      then have "b = ls_header (rootLoop C)" using k header_insts(4) [OF ok] by simp
      then have "hd ((us @ [j]) @ k # vs) = k" using blk k by simp
      moreover have "distinct ((us @ [j]) @ k # vs)" using d by simp
      ultimately have "us @ [j] = []" by (rule hd_split [rotated])
      then show False by simp
    qed
    moreover have "(j, k) \<in> neighbours (cfg_insts (sg_F C) b)" using blk by (auto simp: neighbours_split)
    ultimately show ?thesis using b by (auto simp: flow_def)
  qed
  show ?thesis
    using blk
  proof (induction ms arbitrary: us i)
    case Nil
  then show ?case using step [of us i p vs] by auto
  next
  case (Cons m ms)
  have "(m, p) \<in> (iteration_flow C)\<^sup>+" by (rule Cons.IH [of "us @ [i]"]) (simp add: Cons.prems)
  then show ?case using step [of us i m "ms @ p # vs"] Cons.prems by (auto intro: trancl_into_trancl2)
  qed
qed

lemma point_last:
  assumes ok: "segment_ok C" and mf: "markers_first C" and ss: "\<And>x. x \<in> set ss \<Longrightarrow> \<not> marker C x"
    and i: "i \<in> set (instructions (sg_F C))" "last_of_segment C ss i" and p: "getFrontierInstructionThatDoesNotSplitPHIs C i = Inr p"
  shows "last_of_segment C ss p"
proof (cases "marker C i")
  case False
  then have "p = i" using point_ok [OF ok i(1)] p by auto
  with i(2) show ?thesis by simp
next
  case True
  note b = inst_block [OF ok i(1)]
  obtain us vs where uv: "cfg_insts (sg_F C) (lm_parent (sg_M C) i) = us @ p # vs" "\<forall>u \<in> set us. marker C u" "\<not> marker C p"
    using point_ok [OF ok i(1)] p True by auto
  have "dropWhile (marker C) (us @ p # vs) = p # vs" using uv(2,3) by (induction us) auto
  then have "list_all (\<lambda>i. \<not> marker C i) (p # vs)" using mf b(1) uv(1) unfolding markers_first_def by metis
  then have "i \<in> set us" using True b(2) unfolding uv(1) by (auto simp: list_all_iff)
  then obtain xs zs where "us = xs @ i # zs" by (auto simp: in_set_conv_decomp)
  then have ip: "(i, p) \<in> (iteration_flow C)\<^sup>+" using along_block [OF ok b(1), of xs i zs p vs] uv(1) by simp
  show ?thesis
    unfolding last_of_segment_def
  proof (intro ballI impI)
    fix x assume x: "x \<in> set ss" "(p, x) \<in> (iteration_flow C)\<^sup>+"
    then have "x = i" using i(2) trancl_trans [OF ip x(2)] by (simp add: last_of_segment_def)
    with True ss [OF x(1)] show "x = p" by simp
  qed
qed

lemma after_frontier:
  assumes df: "reach_ok C df" and i: "i \<in> set (instructions (sg_F C))" and ss: "set ss \<subseteq> set (instructions (sg_F C))"
    and f: "checkIfAfterExitFrontier df ss i"
  shows "last_of_segment C ss i"
  using assms by (auto simp: reach_ok_def checkIfAfterExitFrontier_def last_of_segment_def list_all_iff)

lemma reachable_ok:
  assumes "before_ok C m" "i \<in> set (loop_insts C)"
  shows "\<exists>b. isReachableFromOtherExit m es i = Inr b"
  using assms by (auto simp: before_ok_def isReachableFromOtherExit_def)

definition exits_ok :: "segment_ctx \<Rightarrow> nat list \<Rightarrow> nat list \<Rightarrow> bool" where
  "exits_ok C ss es \<longleftrightarrow> set es \<subseteq> set (loop_insts C) \<and> (markers_first C \<longrightarrow> (\<forall>e \<in> set es. last_of_segment C ss e))"

text \<open>The segment has an end when some instruction of the loop itself can follow an instruction of the segment and none of the segment follows it.\<close>

definition segment_ends :: "segment_ctx \<Rightarrow> nat list \<Rightarrow> bool" where
  "segment_ends C ss \<longleftrightarrow> (\<exists>x \<in> set ss. \<exists>t. (x, t) \<in> (iteration_flow C)\<^sup>* \<and> getLoop_inst (sg_M C) (sg_LIS C) t = Some (sg_root C) \<and> last_of_segment C ss t)"

lemma exits_found:
  assumes ok: "segment_ok C" and m: "before_ok C m" and df: "reach_ok C df"
    and ss: "set ss \<subseteq> set (instructions (sg_F C))" "\<And>x. x \<in> set ss \<Longrightarrow> \<not> marker C x"
  shows "\<exists>es. frontier_from C (is_exit C df m ss) (successors_of C) ss = Inr es \<and> exits_ok C ss es \<and> (segment_ends C ss \<longrightarrow> es \<noteq> [])"
proof -
  have acc: "\<exists>b. is_exit C df m ss fr i = Inr b \<and> (b \<longrightarrow> i \<in> set (loop_insts C) \<and> last_of_segment C ss i)"
    if i: "i \<in> set (instructions (sg_F C))" for i fr
  proof (cases "getLoop_inst (sg_M C) (sg_LIS C) i = Some (sg_root C) \<and> checkIfAfterExitFrontier df ss i")
    case True
    have il: "i \<in> set (loop_insts C)" by (rule root_in_loop [OF ok i]) (use True in simp)
    obtain b where "isReachableFromOtherExit m fr i = Inr b" using reachable_ok [OF m il] by blast
    then show ?thesis using True il after_frontier [OF df i ss(1)] by (simp add: is_exit_def andE_def notE_def)
  qed (auto simp: is_exit_def andE_def)
  have "\<exists>fr V. frontier_from C (is_exit C df m ss) (successors_of C) ss = Inr fr \<and> exits_ok C ss fr \<and> set ss \<subseteq> V \<and> V \<subseteq> set (instructions (sg_F C)) \<and>
      closed_under C (exits_ok C ss) (is_exit C df m ss) (successors_of C) fr V {}"
  proof (rule frontier_from_ok [OF _ ss(1)])
    show "exits_ok C ss []" by (simp add: exits_ok_def)
    show "\<exists>b. is_exit C df m ss fr i = Inr b" if "i \<in> set (instructions (sg_F C))" for i fr using acc [OF that] by blast
    show "\<exists>is. successors_of C i = Inr is \<and> set is \<subseteq> set (instructions (sg_F C))" if "i \<in> set (instructions (sg_F C))" for i by (rule successors_ok [OF ok that])
    show "\<exists>p. getFrontierInstructionThatDoesNotSplitPHIs C i = Inr p" if "i \<in> set (instructions (sg_F C))" for i using point_ok [OF ok that] by blast
    show "exits_ok C ss (uset_insert p fr)" if i: "i \<in> set (instructions (sg_F C))" and q: "exits_ok C ss fr" "is_exit C df m ss fr i = Inr True"
      "getFrontierInstructionThatDoesNotSplitPHIs C i = Inr p" for i fr p
    proof -
      have "i \<in> set (loop_insts C)" "last_of_segment C ss i" using acc [OF i, of fr] q(2) by auto
      then show ?thesis using point_in_loop [OF ok _ q(3)] point_last [OF ok _ ss(2) i _ q(3)] q(1) by (simp add: exits_ok_def)
    qed
  qed simp
  then obtain fr V where fr: "frontier_from C (is_exit C df m ss) (successors_of C) ss = Inr fr" "exits_ok C ss fr" "set ss \<subseteq> V" "V \<subseteq> set (instructions (sg_F C))"
      "closed_under C (exits_ok C ss) (is_exit C df m ss) (successors_of C) fr V {}" by blast
  have "fr \<noteq> []" if ends: "segment_ends C ss"
  proof
    assume none: "fr = []"
    have refused: "is_exit C df m ss [] y = Inr False \<and> (\<forall>is. successors_of C y = Inr is \<longrightarrow> set is \<subseteq> V)" if "y \<in> V" for y
      using fr(5) that none by (auto simp: closed_under_def covered_def)
    obtain x t where xt: "x \<in> set ss" "(x, t) \<in> (iteration_flow C)\<^sup>*" "getLoop_inst (sg_M C) (sg_LIS C) t = Some (sg_root C)" "last_of_segment C ss t"
      using ends by (auto simp: segment_ends_def)
    have tV: "t \<in> V"
      using xt(2)
    proof (induction rule: rtrancl_induct)
      case base
      then show ?case using xt(1) fr(3) by blast
    next
      case (step y z)
      have yi: "y \<in> set (instructions (sg_F C))" using step.IH fr(4) by blast
      obtain js where js: "successors_of C y = Inr js" using successors_ok [OF ok yi] by blast
      have "z \<in> set js" using successors_all [OF ok yi js] step(2) by (simp add: iteration_flow_into)
      then show ?case using refused [OF step.IH] js by blast
    qed
    then have ti: "t \<in> set (instructions (sg_F C))" using fr(4) by blast
    have "t \<in> set (loop_insts C)" by (rule root_in_loop [OF ok ti xt(3)])
    then obtain bs where "m t = Some bs" using m by (auto simp: before_ok_def)
    moreover have "checkIfAfterExitFrontier df ss t"
      using xt(4) df ti by (auto simp: checkIfAfterExitFrontier_def last_of_segment_def reach_ok_def list_all_iff)
    ultimately have "is_exit C df m ss [] t = Inr True" using xt(3) by (simp add: is_exit_def andE_def notE_def isReachableFromOtherExit_def list_ex_iff)
    then show False using refused [OF tV] by simp
  qed
  with fr(1,2) show ?thesis by blast
qed


section \<open>The whole frontier\<close>

lemma unreachables_ok:
  assumes ok: "segment_ok C" and m: "before_ok C m" and df: "reach_ok C df" and ss: "set ss \<subseteq> set (instructions (sg_F C))"
  shows "\<exists>us. foldE (unreachable_step C df m ss) (ls_bbs (rootLoop C)) [] = Inr us \<and> (\<forall>i \<in> set us. i \<in> set (loop_insts C) \<and> last_of_segment C ss i)"
proof (rule foldE_total)
  fix b acc assume b: "b \<in> set (ls_bbs (rootLoop C))" "\<forall>i \<in> set acc. i \<in> set (loop_insts C) \<and> last_of_segment C ss i"
  have bb: "b \<in> set (cfg_blocks (sg_F C))" using b(1) segment_okD(3) [OF ok] by blast
  then obtain i rest where i: "cfg_insts (sg_F C) b = i # rest" using cfg_okD(2) [OF segment_okD(1) [OF ok] bb] by (cases "cfg_insts (sg_F C) b") auto
  have il: "i \<in> set (loop_insts C)" using b(1) i by (force simp: loop_insts_def)
  then obtain bs where "m i = Some bs" using m by (auto simp: before_ok_def)
  moreover have "i \<in> set (instructions (sg_F C))" using il loop_insts_set [OF ok] by simp
  moreover have "first_inst (sg_F C) b = Inr i" using i by (simp add: first_inst_def)
  ultimately show "\<exists>acc'. unreachable_step C df m ss b acc = Inr acc' \<and> (\<forall>i \<in> set acc'. i \<in> set (loop_insts C) \<and> last_of_segment C ss i)"
    using b(2) il after_frontier [OF df _ ss, of i]
    by (cases "list_all (\<lambda>b. b = i \<or> b \<notin> set ss) bs") (auto simp: unreachable_step_def andE_def checkIfBeforeEntryFrontier_def)
qed simp

lemma extend_ok:
  assumes ok: "segment_ok C" and m: "before_ok C m" and ss: "\<And>x. x \<in> set ss \<Longrightarrow> \<not> marker C x"
    and us: "\<And>i. i \<in> set us \<Longrightarrow> i \<in> set (loop_insts C) \<and> last_of_segment C ss i"
    and es: "set es \<subseteq> set (loop_insts C)" and xs: "exits_ok C ss xs"
  shows "\<exists>es' xs'. foldE (extend_step C m) us (es, xs) = Inr (es', xs') \<and> set es \<subseteq> set es' \<and> set es' \<subseteq> set (loop_insts C) \<and> exits_ok C ss xs' \<and> set xs \<subseteq> set xs'"
proof -
  let ?P = "\<lambda>(es', xs'). set es \<subseteq> set es' \<and> set es' \<subseteq> set (loop_insts C) \<and> exits_ok C ss xs' \<and> set xs \<subseteq> set xs'"
  have "\<exists>r. foldE (extend_step C m) us (es, xs) = Inr r \<and> ?P r"
  proof (rule foldE_total)
    fix i r assume i: "i \<in> set us" and r: "?P r"
    obtain es1 xs1 where e: "r = (es1, xs1)" by (cases r)
    have il: "i \<in> set (loop_insts C)" "last_of_segment C ss i" using us [OF i] by simp_all
    have ii: "i \<in> set (instructions (sg_F C))" using il(1) loop_insts_set [OF ok] by simp
    obtain p where p: "getFrontierInstructionThatDoesNotSplitPHIs C i = Inr p" using point_ok [OF ok ii] by blast
    have pl: "p \<in> set (loop_insts C)" by (rule point_in_loop [OF ok il(1) p])
    then have pi: "p \<in> set (instructions (sg_F C))" using loop_insts_set [OF ok] by simp
    obtain d where d: "isDominatedByOtherEntry C es1 p = Inr d" using dominated_ok [OF ok _ pi, of es1] r e loop_insts_set [OF ok] by auto
    obtain q where q: "isReachableFromOtherExit m xs1 p = Inr q" using reachable_ok [OF m pl] by blast
    have "markers_first C \<Longrightarrow> last_of_segment C ss p" using point_last [OF ok _ ss ii il(2) p] by blast
    then show "\<exists>r'. extend_step C m i r = Inr r' \<and> ?P r'" using r e p d q pl by (auto simp: extend_step_def exits_ok_def)
  qed (use es xs in simp)
  then show ?thesis by auto
qed

lemma frontier_ok:
  assumes ok: "segment_ok C" and df: "reach_ok C df"
    and ss: "set ss \<subseteq> set (instructions (sg_F C))" "\<And>x. x \<in> set ss \<Longrightarrow> \<not> marker C x"
  shows "\<exists>es xs. determineEntryAndExitFrontier C df ss = Inr (es, xs) \<and> (\<forall>p. iteration_path C p \<and> last p \<in> set ss \<longrightarrow> set p \<inter> set es \<noteq> {}) \<and> exits_ok C ss xs \<and>
    (segment_ends C ss \<longrightarrow> xs \<noteq> [])"
proof -
  obtain m where m: "computeBeforeInstructionMap C df = Inr m" "before_ok C m" using before_map_ok [OF ok df] by (auto simp: before_ok_def)
  obtain es where es: "frontier_from C (is_entry C m ss) (predecessors_of C) ss = Inr es" "set es \<subseteq> set (loop_insts C)"
    "\<forall>p. iteration_path C p \<and> last p \<in> set ss \<longrightarrow> set p \<inter> set es \<noteq> {}" using entries_ok [OF ok m(2) ss] by blast
  obtain xs where xs: "frontier_from C (is_exit C df m ss) (successors_of C) ss = Inr xs" "exits_ok C ss xs" "segment_ends C ss \<longrightarrow> xs \<noteq> []"
    using exits_found [OF ok m(2) df ss] by blast
  obtain us where us: "foldE (unreachable_step C df m ss) (ls_bbs (rootLoop C)) [] = Inr us"
    "\<forall>i \<in> set us. i \<in> set (loop_insts C) \<and> last_of_segment C ss i" using unreachables_ok [OF ok m(2) df ss(1)] by blast
  obtain es' xs' where e: "foldE (extend_step C m) us (es, xs) = Inr (es', xs')" "set es \<subseteq> set es'" "exits_ok C ss xs'" "set xs \<subseteq> set xs'"
    using extend_ok [OF ok m(2) ss(2) _ es(2) xs(2), of us] us(2) by blast
  have "determineEntryAndExitFrontier C df ss = Inr (es', xs')" using m(1) es(1) xs(1) us(1) e(1) by (simp add: determineEntryAndExitFrontier_def)
  moreover have "segment_ends C ss \<longrightarrow> xs' \<noteq> []" using e(4) xs(3) by auto
  ultimately show ?thesis using e(2,3) es(3) by blast
qed

lemma returns_ok:
  assumes ok: "segment_ok C" and xs: "exits_ok C ss xs"
  shows "\<exists>xs'. foldE (add_return C) (ls_bbs (rootLoop C)) xs = Inr xs' \<and> (exits_ok C ss xs' \<and> set xs \<subseteq> set xs')"
proof (rule foldE_total)
  show "exits_ok C ss xs \<and> set xs \<subseteq> set xs" using xs by simp
  fix b ys assume b: "b \<in> set (ls_bbs (rootLoop C))" "exits_ok C ss ys \<and> set xs \<subseteq> set ys"
  have bb: "b \<in> set (cfg_blocks (sg_F C))" using b(1) segment_okD(3) [OF ok] by blast
  note ne = cfg_okD(2) [OF segment_okD(1) [OF ok] bb]
  let ?t = "last (cfg_insts (sg_F C) b)"
  show "\<exists>ys'. add_return C b ys = Inr ys' \<and> (exits_ok C ss ys' \<and> set xs \<subseteq> set ys')"
  proof (cases "cfg_succs (sg_F C) b = []")
    case True
    have dead: "(?t, x) \<notin> iteration_flow C" for x
    proof
      assume "(?t, x) \<in> iteration_flow C"
      then obtain c where c: "c \<in> set (cfg_blocks (sg_F C))" "(?t, x) \<in> neighbours (cfg_insts (sg_F C) c) \<or>
          (\<exists>d \<in> set (cfg_succs (sg_F C) c). ?t = last (cfg_insts (sg_F C) c))" by (auto simp: flow_def)
      have "?t \<in> set (cfg_insts (sg_F C) c)" using c(2) neighbours_mem [of ?t x] cfg_okD(2) [OF segment_okD(1) [OF ok] c(1)] by auto
      then have cb: "c = b" using segment_okD(4) [OF ok c(1)] segment_okD(4) [OF ok bb last_in_set [OF ne]] by simp
      then obtain us vs where "cfg_insts (sg_F C) b = us @ ?t # x # vs" using c(2) True by (auto simp: neighbours_split)
      then have d: "distinct (us @ ?t # x # vs)" and l: "?t = last (x # vs)" using cfg_okD(3) [OF segment_okD(1) [OF ok] bb] by (metis, metis last_ConsR last_appendR list.distinct(1))
      have "?t \<in> set (x # vs)" unfolding l by (rule last_in_set) simp
      then show False using d by auto
    qed
    have "(?t, x) \<notin> (iteration_flow C)\<^sup>+" for x using dead by (meson tranclD)
    then have "last_of_segment C ss ?t" by (simp add: last_of_segment_def)
    moreover have "?t \<in> set (loop_insts C)" using b(1) last_in_set [OF ne] unfolding loop_insts_def by auto
    ultimately show ?thesis using True b(2) ne by (auto simp: add_return_def last_inst_def exits_ok_def)
  qed (use b(2) in \<open>simp add: add_return_def\<close>)
qed

section \<open>Properties\<close>

lemma helix_reachability: "HELIX_computeReachabilityFromInstructions F h = computeReachabilityFromInstructions F h"
proof -
  have "iteration_GEN = (\<lambda>i df. df\<lparr>GEN := (GEN df)(i := uset_insert i (GEN df i))\<rparr>)"
    "iteration_IN = (\<lambda>i df. df\<lparr>IN := (IN df)(i := uset_insert_all (GEN df i) (uset_insert_all (OUT df i) (IN df i)))\<rparr>)"
    "iteration_OUT k = (\<lambda>i succ df. if succ = k then df else df\<lparr>OUT := (OUT df)(i := uset_insert_all (IN df succ) (OUT df i))\<rparr>)" for k
    by (rule ext, rule ext, simp add: iteration_GEN_def iteration_IN_def)+ (rule ext, rule ext, rule ext, simp add: iteration_OUT_def)
  then show ?thesis by (simp add: HELIX_computeReachabilityFromInstructions_def computeReachabilityFromInstructions_def)
qed

text \<open>C40: The boundary of a sequential segment. Take a natural loop, the reachability inside an iteration that HELIX computes, and SCCs with an
  instruction, other than a PHI, that an iteration reaches and after which it goes on in the loop itself past the segment. Then the constructor returns:
  both traversals end and neither assertion fails. On every path that an iteration takes from the first instruction of the header to an instruction of
  the segment there is an entry, at which it waits; and when PHIs and lifetime markers stand at the start of their blocks, no other instruction of
  the segment can be executed in the iteration after an exit, at which it signals. PHIs of the SCCs are not instructions of the segment.\<close>

theorem segment_boundary:
  assumes "segment_ok C" and "HELIX_computeReachabilityFromInstructions (sg_F C) (ls_header (rootLoop C)) = Inr df" and "getInstructions_ss D sccs = Inr is"
    and "set is \<subseteq> set (instructions (sg_F C))" and "\<forall>i \<in> set is. \<not> sg_isLifetime C i"
    and "iteration_path C p" and "last p \<in> set is" and "\<not> isPHINode (in_kind (sg_I C) (last p))"
    and "segment_ends C (filter (\<lambda>i. \<not> isPHINode (in_kind (sg_I C) i)) is)"
  shows "\<exists>S. SequentialSegment_of C df D sccs ID = Inr S \<and> ss_ID S = ID \<and>
      (\<forall>p. iteration_path C p \<and> last p \<in> set is \<and> \<not> isPHINode (in_kind (sg_I C) (last p)) \<longrightarrow> set p \<inter> set (ss_entries S) \<noteq> {}) \<and>
      (markers_first C \<longrightarrow> (\<forall>e \<in> set (ss_exits S). \<forall>x \<in> set is. \<not> isPHINode (in_kind (sg_I C) x) \<and> (e, x) \<in> (iteration_flow C)\<^sup>+ \<longrightarrow> x = e))"
proof -
  let ?ss = "filter (\<lambda>i. \<not> isPHINode (in_kind (sg_I C) i)) is"
  note ok = assms(1)
  have df: "reach_ok C df" using iteration_reach [OF segment_okD(1) [OF ok] header_insts(1) [OF ok]] assms(2) [unfolded helix_reachability] by (auto simp: reach_ok_def)
  have ss: "\<not> marker C x" if "x \<in> set ?ss" for x
    using assms(4,5) segment_okD(6) [OF ok] that by auto
  have s1: "set ?ss \<subseteq> set (instructions (sg_F C))" using assms(4) by auto
  obtain es xs where f: "determineEntryAndExitFrontier C df ?ss = Inr (es, xs)" "\<forall>p. iteration_path C p \<and> last p \<in> set ?ss \<longrightarrow> set p \<inter> set es \<noteq> {}"
    "exits_ok C ?ss xs" "xs \<noteq> []" using frontier_ok [OF ok df s1 ss] assms(9) by blast
  obtain xs' where r: "foldE (add_return C) (ls_bbs (rootLoop C)) xs = Inr xs'" "exits_ok C ?ss xs'" "set xs \<subseteq> set xs'"
    using returns_ok [OF ok f(3)] by blast
  have "es \<noteq> []" using f(2) assms(6-8) by auto
  moreover have "xs' \<noteq> []" using f(4) r(3) by auto
  ultimately have "SequentialSegment_of C df D sccs ID = Inr \<lparr>ss_entries = es, ss_exits = xs', ss_sccs = sccs, ss_ID = ID\<rparr>"
    using assms(3) f(1) r(1) by (simp add: SequentialSegment_of_def)
  then show ?thesis using f(2) r(2) by (simp add: exits_ok_def last_of_segment_def)
qed

text \<open>Block 0 enters the loop of the blocks 1 and 2, which block 1 leaves for block 3; 11 is a PHI, the segment is 21 alone.\<close>

definition one_code :: llvm_code where
  "one_code = \<lparr>inst_parent = (\<lambda>i. Some (i div 10)), inst_next = (\<lambda>i. if i = 11 \<or> i = 21 then Some (Suc i) else None)\<rparr>"

definition one_tree :: dom_tree where
  "one_tree = \<lparr>dt_nodes = [0, 1, 2, 3], bbNodeMap = (\<lambda>b. b), dt_post = False,
     dt_mem = (\<lambda>n. \<lparr>dn_B = Some n, dn_level = 0, dn_parent = None, dn_iDom = None,
       dn_children = (if n = 0 then [1] else if n = 1 then [2, 3] else [])\<rparr>), dt_next = 4\<rparr>"

definition one_segment :: segment_ctx where
  "one_segment =
     \<lparr>sg_F = \<lparr>cfg_blocks = [0, 1, 2, 3], cfg_insts = (\<lambda>b. if b = 0 then [1] else if b = 1 then [11, 12] else if b = 2 then [21, 22] else [31]),
        cfg_succs = (\<lambda>b. if b = 0 then [1] else if b = 1 then [2, 3] else if b = 2 then [1] else []),
        cfg_preds = (\<lambda>b. if b = 1 then [0, 2] else if b = 2 then [1] else if b = 3 then [1] else [])\<rparr>,
      sg_M = sum_module\<lparr>lm_parent := (\<lambda>i. i div 10)\<rparr>,
      sg_I = sum_insts\<lparr>in_kind := (\<lambda>i. if i = 11 then PHINode [] else BinaryOperator OpAdd)\<rparr>,
      sg_LIS = sum_loops\<lparr>sm_bbToLoop := (\<lambda>b. if b \<in> {1, 2} then Some 0 else None), sm_mem := (\<lambda>_. (sm_mem sum_loops 0)\<lparr>ls_header := 1, ls_bbs := [1, 2]\<rparr>)\<rparr>,
      sg_root = 0,
      sg_code = one_code, sg_DT = one_tree,
      sg_isDbg = (\<lambda>_. False), sg_isLifetime = (\<lambda>_. False)\<rparr>"

definition one_sccdag :: "(llvm_value, unit, bool list) sccdag" where
  "one_sccdag = sum_sccdag\<lparr>scc_mem := (\<lambda>_. register_graph [21] [])\<rparr>"

lemma one_flow: "flow (sg_F one_segment) (\<lambda>_. False) = {(1, 11), (11, 12), (12, 21), (12, 31), (21, 22), (22, 11)}"
  unfolding flow_def by (auto simp: one_segment_def)

lemma one_insts: "set (instructions (sg_F one_segment)) = {1, 11, 12, 21, 22, 31}"
  by (auto simp: one_segment_def instructions_def)

lemma one_dominates:
  "list_all (\<lambda>e. list_all (\<lambda>i. case dominates_insts one_code one_tree e i of Inl _ \<Rightarrow> False
     | Inr d \<Rightarrow> d \<and> e div 10 \<in> {1, 2} \<and> i = 11 \<longrightarrow> e = i) [1, 11, 12, 21, 22, 31]) [1, 11, 12, 21, 22, 31]"
  by code_simp

lemma one_ok: "segment_ok one_segment"
proof -
  have p: "lm_parent (sg_M one_segment) i = i div 10" for i by (simp add: one_segment_def)
  have c: "sg_code one_segment = one_code" "sg_DT one_segment = one_tree" by (simp_all add: one_segment_def)
  have h: "header_first one_segment = 11" "ls_bbs (rootLoop one_segment) = [1, 2]" by (simp_all add: one_segment_def)
  have f1: "cfg_ok (sg_F one_segment)" by (simp add: cfg_ok_def one_segment_def instructions_def)
  have f8: "\<exists>d. dominates_insts (sg_code one_segment) (sg_DT one_segment) e i = Inr d \<and>
      (d \<and> in_loop one_segment e \<and> i = header_first one_segment \<longrightarrow> e = i)" if "e \<in> {1, 11, 12, 21, 22, 31}" "i \<in> {1, 11, 12, 21, 22, 31}" for e i
  proof -
    have all: "\<forall>e \<in> set [1, 11, 12, 21, 22, 31]. \<forall>i \<in> set [1, 11, 12, 21, 22, 31]. case dominates_insts one_code one_tree e i of Inl _ \<Rightarrow> False
        | Inr d \<Rightarrow> d \<and> e div 10 \<in> {1, 2} \<and> i = 11 \<longrightarrow> e = i" using one_dominates by (simp only: list_all_iff)
    have "e \<in> set [1, 11, 12, 21, 22, 31]" "i \<in> set [1, 11, 12, 21, 22, 31]" using that by simp_all
    from bspec [OF bspec [OF all this(1)] this(2)] have "case dominates_insts one_code one_tree e i of Inl _ \<Rightarrow> False
        | Inr d \<Rightarrow> d \<and> e div 10 \<in> {1, 2} \<and> i = 11 \<longrightarrow> e = i" .
    then show ?thesis by (cases "dominates_insts one_code one_tree e i") (simp_all add: p h c)
  qed
  have f7: "\<forall>(a, b) \<in> flow (sg_F one_segment) (\<lambda>_. False). in_loop one_segment b \<and> \<not> in_loop one_segment a \<longrightarrow> b = header_first one_segment"
    unfolding one_flow p h by simp
  have f4: "\<forall>b \<in> set (cfg_blocks (sg_F one_segment)). (\<forall>i \<in> set (cfg_insts (sg_F one_segment) b). lm_parent (sg_M one_segment) i = b) \<and>
      \<not> marker one_segment (last (cfg_insts (sg_F one_segment) b))" by (simp add: one_segment_def)
  have f5: "\<forall>i \<in> {1, 11, 12, 21, 22, 31}. \<not> sg_isDbg one_segment i \<and>
      (getLoop_inst (sg_M one_segment) (sg_LIS one_segment) i = Some (sg_root one_segment) \<longrightarrow> in_loop one_segment i)"
    unfolding p h by (simp add: getLoop_inst_def getLoop_def one_segment_def)
  have f6: "getLoop (sg_LIS one_segment) (ls_header (rootLoop one_segment)) = Some (sg_root one_segment)"
    and f2: "ls_header (rootLoop one_segment) \<in> set (ls_bbs (rootLoop one_segment))" and f3: "set (ls_bbs (rootLoop one_segment)) \<subseteq> set (cfg_blocks (sg_F one_segment))"
    by (simp_all add: one_segment_def getLoop_def)
  have f8': "\<forall>e \<in> {1, 11, 12, 21, 22, 31}. \<forall>i \<in> {1, 11, 12, 21, 22, 31}. \<exists>d. dominates_insts (sg_code one_segment) (sg_DT one_segment) e i = Inr d \<and>
      (d \<and> in_loop one_segment e \<and> i = header_first one_segment \<longrightarrow> e = i)" by (intro ballI f8)
  show ?thesis unfolding segment_ok_def one_insts by (intro conjI f1 f2 f3 f4 f5 f6 f7 f8')
qed

lemma segment_boundary_witness:
  "\<exists>df S. HELIX_computeReachabilityFromInstructions (sg_F one_segment) 1 = Inr df \<and> SequentialSegment_of one_segment df one_sccdag [5] 0 = Inr S \<and>
     {11, 12, 21} \<inter> set (ss_entries S) \<noteq> {}"
proof -
  have h: "ls_header (rootLoop one_segment) = 1" "header_first one_segment = 11" by (simp_all add: one_segment_def)
  obtain df where df: "HELIX_computeReachabilityFromInstructions (sg_F one_segment) (ls_header (rootLoop one_segment)) = Inr df"
    using iteration_reach [OF segment_okD(1) [OF one_ok] header_insts(1) [OF one_ok]] unfolding helix_reachability by blast
  have gi: "getInstructions_ss one_sccdag [5] = Inr [21]" by code_simp
  have "(a, b) \<in> iteration_flow one_segment \<longleftrightarrow> (a, b) \<in> {(11, 12), (12, 21), (12, 31), (21, 22)}" for a b
    unfolding iteration_flow_into [of a b one_segment] unfolding one_flow h(2) by auto
  then have R: "iteration_flow one_segment = {(11, 12), (12, 21), (12, 31), (21, 22)}" by (intro set_eqI) (metis surj_pair)
  have k: "\<not> isPHINode (in_kind (sg_I one_segment) 21)" "\<forall>i \<in> set [21]. \<not> sg_isLifetime one_segment i" by (simp_all add: one_segment_def)
  have k3: "set [21] \<subseteq> set (instructions (sg_F one_segment))" unfolding one_insts by simp
  have p: "iteration_path one_segment [11, 12, 21]" unfolding iteration_path_def unfolding R unfolding h(2) by simp
  have "getLoop_inst (sg_M one_segment) (sg_LIS one_segment) 21 = Some (sg_root one_segment)" by (simp add: one_segment_def getLoop_inst_def getLoop_def)
  then have e: "segment_ends one_segment (filter (\<lambda>i. \<not> isPHINode (in_kind (sg_I one_segment) i)) [21])"
    using k(1) by (auto simp: segment_ends_def last_of_segment_def)
  have l: "last [11, 12, 21] \<in> set [21 :: nat]" "\<not> isPHINode (in_kind (sg_I one_segment) (last [11, 12, 21]))" using k(1) by simp_all
  obtain S where S: "SequentialSegment_of one_segment df one_sccdag [5] 0 = Inr S"
    "\<forall>p. iteration_path one_segment p \<and> last p \<in> set [21] \<and> \<not> isPHINode (in_kind (sg_I one_segment) (last p)) \<longrightarrow> set p \<inter> set (ss_entries S) \<noteq> {}"
    using segment_boundary [OF one_ok df gi k3 k(2) p l e, of 0] by blast
  have "set [11, 12, 21] \<inter> set (ss_entries S) \<noteq> {}" using S(2) p l by blast
  then show ?thesis using df S(1) unfolding h by auto
qed

section \<open>Deviation\<close>

text \<open>The last step adds exits among the blocks that have nothing to do with the segment. It asks whether an exit reaches the new one, not whether the
  new one reaches an exit, and it goes through the blocks in the order of an unordered set: with the block 3 before the block 2 from which it is
  entered, both become exits and the iteration signals twice; the other way round it signals once. Neither reaches the segment, 51.\<close>

definition skipping_segment :: "nat list \<Rightarrow> segment_ctx" where
  "skipping_segment order =
     \<lparr>sg_F = \<lparr>cfg_blocks = [1, 2, 3, 4, 5], cfg_insts = (\<lambda>b. [10 * b + 1]),
        cfg_succs = (\<lambda>b. if b = 1 then [2, 5] else if b = 2 then [3, 4] else if b = 4 then [1] else [4]),
        cfg_preds = (\<lambda>b. if b = 1 then [4] else if b = 2 \<or> b = 5 then [1] else if b = 3 then [2] else [2, 3, 5])\<rparr>,
      sg_M = sum_module\<lparr>lm_parent := (\<lambda>i. i div 10)\<rparr>, sg_I = sum_insts\<lparr>in_kind := (\<lambda>_. BinaryOperator OpAdd)\<rparr>,
      sg_LIS = sum_loops\<lparr>sm_bbToLoop := (\<lambda>_. Some 0), sm_mem := (\<lambda>_. (sm_mem sum_loops 0)\<lparr>ls_header := 1, ls_bbs := order\<rparr>)\<rparr>,
      sg_root = 0, sg_code = \<lparr>inst_parent = (\<lambda>i. Some (i div 10)), inst_next = (\<lambda>_. None)\<rparr>,
      sg_DT = \<lparr>dt_nodes = [1, 2, 3, 4, 5], bbNodeMap = (\<lambda>b. b), dt_post = False,
        dt_mem = (\<lambda>n. \<lparr>dn_B = Some n, dn_level = 0, dn_parent = None, dn_iDom = None,
          dn_children = (if n = 1 then [2, 4, 5] else if n = 2 then [3] else [])\<rparr>), dt_next = 6\<rparr>,
      sg_isDbg = (\<lambda>_. False), sg_isLifetime = (\<lambda>_. False)\<rparr>"

definition skipping_reach :: dfr where
  "skipping_reach = new_result\<lparr>OUT := (\<lambda>i. if i = 11 then [21, 31, 41, 51] else if i = 21 then [31, 41] else if i = 31 \<or> i = 51 then [41] else [])\<rparr>"

lemma signals_twice:
  "determineEntryAndExitFrontier (skipping_segment [1, 3, 2, 4, 5]) skipping_reach [51] = Inr ([51, 31, 21], [51, 31, 21])"
  "determineEntryAndExitFrontier (skipping_segment [1, 2, 3, 4, 5]) skipping_reach [51] = Inr ([51, 21], [51, 21])"
  by code_simp+

end
