(* ===== verification/Spec2Isabelle.thy ===== *)
theory Spec2Isabelle
  imports PartitionQueries DomSummaryQueries LoopDepsCorrect LoopForestQueries RuntimeQueries LoopEnv EnvLayout IVCode Invariants Doall HotProfileCorrect HeuristicsCorrect SeqSegmentCorrect
begin
end
